(* ===== verification/Prelude.thy ===== *)
theory Prelude
  imports Main "HOL-Library.Word" "HOL-Library.Monad_Syntax"
begin

text \<open>
  Shared vocabulary of the development: the machine integer types, the kernel's error codes
  (\<^verbatim>\<open>include/error.h\<close>), the alignment macros of \<^verbatim>\<open>include/common.h\<close>, counters that wrap
  at \<open>2 ^ 64\<close>, the list operations that stand for shifting a C array, the page-stepping loop
  \<^verbatim>\<open>for (va = s; va < e; va += 4096)\<close>, and the generic lemmas the components use.

  A kernel function that can panic (\<^verbatim>\<open>PANIC\<close>, \<^verbatim>\<open>BUG_ON\<close>) or that may not return has an
  \<open>option\<close> result: \<open>None\<close> says that control does not come back to the caller.
\<close>

unbundle bit_operations_syntax

section \<open>Machine integers and error codes\<close>

type_synonym u8 = "8 word"
type_synonym u16 = "16 word"
type_synonym u32 = "32 word"
type_synonym u64 = "64 word"

abbreviation (input) RDNX_OK :: int where "RDNX_OK \<equiv> 0"
abbreviation (input) RDNX_E_GENERIC :: int where "RDNX_E_GENERIC \<equiv> - 1"
abbreviation (input) RDNX_E_INVALID :: int where "RDNX_E_INVALID \<equiv> - 2"
abbreviation (input) RDNX_E_NOMEM :: int where "RDNX_E_NOMEM \<equiv> - 3"
abbreviation (input) RDNX_E_NOTFOUND :: int where "RDNX_E_NOTFOUND \<equiv> - 4"
abbreviation (input) RDNX_E_BUSY :: int where "RDNX_E_BUSY \<equiv> - 5"
abbreviation (input) RDNX_E_DENIED :: int where "RDNX_E_DENIED \<equiv> - 6"
abbreviation (input) RDNX_E_UNSUPPORTED :: int where "RDNX_E_UNSUPPORTED \<equiv> - 7"
abbreviation (input) RDNX_E_TIMEOUT :: int where "RDNX_E_TIMEOUT \<equiv> - 8"

abbreviation (input) PAGE_SIZE :: u64 where "PAGE_SIZE \<equiv> 4096"

named_theorems unfold_steps \<open>definitions of single operations, unfolded by the step proofs\<close>
named_theorems frame_simps \<open>fields that an operation leaves alone\<close>

section \<open>Counters\<close>

text \<open>
  A \<^verbatim>\<open>uint64_t\<close> counter that is only ever incremented, decremented and compared is a natural
  number, with the wrap-around written out.
\<close>

definition inc64 :: "nat \<Rightarrow> nat" where
  "inc64 n = (n + 1) mod 2 ^ 64"

definition dec64 :: "nat \<Rightarrow> nat" where
  "dec64 n = (n + (2 ^ 64 - 1)) mod 2 ^ 64"

definition add64 :: "nat \<Rightarrow> nat \<Rightarrow> nat" where
  "add64 n k = (n + k) mod 2 ^ 64"

definition sub64 :: "nat \<Rightarrow> nat \<Rightarrow> nat" where
  "sub64 n k = (if k \<le> n then n - k else n + 2 ^ 64 - k)"

lemma inc64_less: "n + 1 < 2 ^ 64 \<Longrightarrow> inc64 n = n + 1"
  by (simp add: inc64_def)

lemma dec64_pos: "0 < n \<Longrightarrow> n < 2 ^ 64 \<Longrightarrow> dec64 n = n - 1"
proof -
  assume n: "0 < n" "n < 2 ^ 64"
  then have "(n + (2 ^ 64 - 1)) mod 2 ^ 64 = ((n - 1) + 2 ^ 64) mod 2 ^ 64"
    by (auto simp: gr0_conv_Suc)
  also have "\<dots> = n - 1"
    using n by (subst mod_add_self2) (simp add: mod_less)
  finally show ?thesis by (simp add: dec64_def)
qed

lemma add64_less: "n + k < 2 ^ 64 \<Longrightarrow> add64 n k = n + k"
  by (simp add: add64_def)

lemma sub64_le: "k \<le> n \<Longrightarrow> sub64 n k = n - k"
  by (simp add: sub64_def)

section \<open>Arrays as lists\<close>

text \<open>Opening and closing a gap in an array by shifting its tail.\<close>

definition insert_at :: "nat \<Rightarrow> 'a \<Rightarrow> 'a list \<Rightarrow> 'a list" where
  "insert_at i x xs = take i xs @ x # drop i xs"

definition remove_at :: "nat \<Rightarrow> 'a list \<Rightarrow> 'a list" where
  "remove_at i xs = take i xs @ drop (Suc i) xs"

lemma length_insert_at [simp]: "length (insert_at i x xs) = Suc (length xs)"
  by (simp add: insert_at_def)

lemma length_remove_at [simp]: "i < length xs \<Longrightarrow> length (remove_at i xs) = length xs - 1"
  by (simp add: remove_at_def)

lemma set_insert_at [simp]: "set (insert_at i x xs) = insert x (set xs)"
proof -
  have "set (insert_at i x xs) = insert x (set (take i xs) \<union> set (drop i xs))"
    by (simp add: insert_at_def)
  also have "set (take i xs) \<union> set (drop i xs) = set xs"
    by (metis append_take_drop_id set_append)
  finally show ?thesis .
qed

lemma set_remove_at_subset: "set (remove_at i xs) \<subseteq> set xs"
  by (auto simp: remove_at_def dest: in_set_takeD in_set_dropD)

lemma remove_at_append [simp]: "remove_at (length xs) (xs @ y # ys) = xs @ ys"
  by (simp add: remove_at_def)

lemma insert_at_append [simp]: "insert_at (length xs) y (xs @ ys) = xs @ y # ys"
  by (simp add: insert_at_def)

section \<open>Alignment\<close>

definition ALIGN_UP :: "u64 \<Rightarrow> u64 \<Rightarrow> u64" where
  "ALIGN_UP addr align = (addr + align - 1) AND NOT (align - 1)"

definition ALIGN_DOWN :: "u64 \<Rightarrow> u64 \<Rightarrow> u64" where
  "ALIGN_DOWN addr align = addr AND NOT (align - 1)"

lemma and_not_mask_word: "(a::'a::len word) AND NOT (mask n) = a - take_bit n a"
proof -
  have "a AND NOT (mask n) = a AND NOT (take_bit n a)"
    by (rule bit_eqI) (auto simp: bit_simps)
  also have "\<dots> = a - take_bit n a"
    by (rule disjunctive_diff_eq_and_not [symmetric]) (rule bit_eqI, auto simp: bit_simps)
  finally show ?thesis .
qed

lemma unat_take_bit_word: "unat (take_bit n (a::'a::len word)) = unat a mod 2 ^ n"
  unfolding unsigned_take_bit_eq by (simp add: take_bit_eq_mod)

lemma unat_and_not_mask: "unat ((a::'a::len word) AND NOT (mask n)) = unat a div 2 ^ n * 2 ^ n"
proof -
  have le: "take_bit n a \<le> a"
    by (simp add: word_le_nat_alt unat_take_bit_word)
  have "unat (a AND NOT (mask n)) = unat a - unat a mod 2 ^ n"
    using le by (simp add: and_not_mask_word unat_sub unat_take_bit_word)
  then show ?thesis by (simp add: minus_mod_eq_div_mult)
qed

lemma mask_12: "(4095 :: u64) = mask 12" by (simp add: mask_eq_exp_minus_1)
lemma mask_4: "(15 :: u64) = mask 4" by (simp add: mask_eq_exp_minus_1)

lemma unat_ALIGN_DOWN_page [simp]: "unat (ALIGN_DOWN a 4096) = unat a div 4096 * 4096"
  using unat_and_not_mask [of a 12] by (simp add: ALIGN_DOWN_def mask_12)

lemma unat_ALIGN_UP_page:
  "unat a + 4095 < 2 ^ 64 \<Longrightarrow> unat (ALIGN_UP a 4096) = (unat a + 4095) div 4096 * 4096"
proof -
  assume "unat a + 4095 < 2 ^ 64"
  then have "unat (a + 4095) = unat a + 4095"
    by (subst unat_plus_if') simp
  then show ?thesis
    using unat_and_not_mask [of "a + 4095" 12] by (simp add: ALIGN_UP_def mask_12 add.commute)
qed


lemma unat_lt_64: "unat (x::u64) < 18446744073709551616"
proof -
  have "unat x < 2 ^ LENGTH(64)" by (rule unsigned_less)
  then show ?thesis by simp
qed

lemma ceiling_div_step:
  fixes p d :: nat
  assumes "0 < p" "0 < d"
  shows "(d + (p - 1)) div p = Suc ((d - p + (p - 1)) div p)"
proof (cases "d \<le> p")
  case True
  then have "(d + (p - 1)) div p = 1"
    using assms by (intro div_nat_eqI) auto
  with True assms show ?thesis by simp
next
  case False
  then have "d + (p - 1) = (d - p + (p - 1)) + p" by simp
  then show ?thesis using assms by (metis Suc_eq_plus1 add.commute div_add_self2 less_not_refl)
qed

section \<open>The page loop\<close>

text \<open>
  \<open>page_steps s e\<close> lists the values of \<open>va\<close> in \<^verbatim>\<open>for (va = s; va < e; va += 4096)\<close>.
  \<open>page_steps_stop\<close> and \<open>page_steps_next\<close> are the two cases of one loop test; the bound on
  \<open>e\<close> says that the last increment does not wrap. The kernel's loops of this shape run over
  physical addresses below the page-aligned end of managed memory or over user addresses below
  \<open>0x80000000\<close>, so the bound holds there.
\<close>

definition page_steps :: "u64 \<Rightarrow> u64 \<Rightarrow> u64 list" where
  "page_steps s e = map (\<lambda>k. s + of_nat k * 4096) [0..<(unat e - unat s + 4095) div 4096]"

lemma page_steps_stop: "\<not> s < e \<Longrightarrow> page_steps s e = []"
  by (simp add: page_steps_def word_less_nat_alt)

lemma page_steps_next:
  assumes "s < e" and "unat e + 4096 \<le> 2 ^ 64"
  shows "page_steps s e = s # page_steps (s + 4096) e"
proof -
  have lt: "unat s < unat e" using assms(1) by (simp add: word_less_nat_alt)
  then have sum: "unat (s + 4096) = unat s + 4096"
    using assms(2) by (subst unat_plus_if') simp
  define n m where "n = (unat e - unat s + 4095) div 4096"
    and "m = (unat e - unat (s + 4096) + 4095) div 4096"
  have "n = Suc m"
    using ceiling_div_step [of 4096 "unat e - unat s"] lt by (simp add: n_def m_def sum)
  moreover have "[0..<Suc m] = 0 # map Suc [0..<m]"
    by (simp add: map_Suc_upt upt_conv_Cons del: upt_Suc)
  ultimately show ?thesis
    unfolding page_steps_def n_def [symmetric] m_def [symmetric]
    by (simp add: algebra_simps del: upt_Suc)
qed

definition page_aligned :: "u64 \<Rightarrow> bool" where
  "page_aligned a \<longleftrightarrow> a AND 4095 = 0"

lemma page_aligned_unat: "page_aligned a \<longleftrightarrow> unat a mod 4096 = 0"
proof -
  have "a AND 4095 = take_bit 12 a" by (simp add: mask_12 take_bit_eq_mask)
  moreover have "unat (take_bit 12 a) = unat a mod 4096"
    using unat_take_bit_word [of 12 a] by simp
  ultimately show ?thesis
    unfolding page_aligned_def by (metis unat_eq_zero)
qed

lemma page_steps_mem:
  assumes "page_aligned s" "page_aligned e"
  shows "v \<in> set (page_steps s e) \<longleftrightarrow> s \<le> v \<and> v < e \<and> page_aligned v"
proof -
  define n where "n = (unat e - unat s + 4095) div 4096"
  obtain a b where a: "unat s = 4096 * a" and b: "unat e = 4096 * b"
    using assms by (auto simp: page_aligned_unat elim!: dvdE)
  have n: "n = b - a"
  proof -
    have "unat e - unat s = 4096 * (b - a)" by (simp add: a b diff_mult_distrib2)
    then show ?thesis by (simp add: n_def)
  qed
  have val: "unat (s + of_nat k * 4096) = 4096 * (a + k)" if "k < b - a" for k
  proof -
    have "4096 * (a + k) < 4096 * b" using that by simp
    also have "\<dots> < 2 ^ 64" using b unat_lt_64 [of e] by simp
    finally have "4096 * a + k * 4096 < 2 ^ 64" by simp
    then show ?thesis
      using a by (simp add: unat_word_ariths unat_of_nat mod_add_right_eq)
  qed
  show ?thesis
  proof
    assume "v \<in> set (page_steps s e)"
    then obtain k where k: "k < b - a" "v = s + of_nat k * 4096"
      by (auto simp: page_steps_def n_def [symmetric] n)
    then show "s \<le> v \<and> v < e \<and> page_aligned v"
      using val [of k] a b by (auto simp: word_le_nat_alt word_less_nat_alt page_aligned_unat)
  next
    assume v: "s \<le> v \<and> v < e \<and> page_aligned v"
    then obtain c where c: "unat v = 4096 * c" by (auto simp: page_aligned_unat elim!: dvdE)
    have k: "c - a < b - a" and ca: "a \<le> c"
      using v a b c by (auto simp: word_le_nat_alt word_less_nat_alt)
    have "v = s + of_nat (c - a) * 4096"
      using val [OF k] c ca by (intro word_unat_eq_iff [THEN iffD2]) simp
    with k show "v \<in> set (page_steps s e)"
      by (auto simp: page_steps_def n_def [symmetric] n)
  qed
qed

end
