(* ===== verification/Machine.thy ===== *)
theory Machine
  imports Prelude
begin

text \<open>
  Physical memory and the direct map. The kernel reaches every physical byte at
  \<open>phys + X86_64_KERNEL_VIRT_BASE\<close> (\<^verbatim>\<open>kernel/arch/x86_64/config.h\<close>), so a dereference of a
  direct-map pointer is an access to \<open>pmem\<close> at the physical address. Page tables are arrays
  of 64-bit little-endian words in that memory. The base record of the kernel's global state
  holds the memory and the out-of-memory counters of \<^verbatim>\<open>kernel/arch/x86_64/memory.c\<close>; the
  records of the components extend it.
\<close>

section \<open>The direct map\<close>

abbreviation (input) X86_64_KERNEL_VIRT_BASE :: u64 where
  "X86_64_KERNEL_VIRT_BASE \<equiv> 0xFFFFFFFF80000000"

definition X86_64_PHYS_TO_VIRT :: "u64 \<Rightarrow> u64" where
  "X86_64_PHYS_TO_VIRT addr = addr + X86_64_KERNEL_VIRT_BASE"

definition X86_64_VIRT_TO_PHYS :: "u64 \<Rightarrow> u64" where
  "X86_64_VIRT_TO_PHYS addr = addr - X86_64_KERNEL_VIRT_BASE"

lemma virt_phys_inverse [simp]:
  "X86_64_VIRT_TO_PHYS (X86_64_PHYS_TO_VIRT a) = a"
  "X86_64_PHYS_TO_VIRT (X86_64_VIRT_TO_PHYS a) = a"
  by (simp_all add: X86_64_VIRT_TO_PHYS_def X86_64_PHYS_TO_VIRT_def)

section \<open>Byte memory and 64-bit accesses\<close>

type_synonym bytes = "u64 \<Rightarrow> u8"

definition load64 :: "bytes \<Rightarrow> u64 \<Rightarrow> u64" where
  "load64 m a = fold (\<lambda>i acc. acc OR push_bit (8 * i) (ucast (m (a + of_nat i)))) [0..<8] 0"

definition store64 :: "bytes \<Rightarrow> u64 \<Rightarrow> u64 \<Rightarrow> bytes" where
  "store64 m a v =
     (\<lambda>x. if unat (x - a) < 8 then ucast (drop_bit (8 * unat (x - a)) v) else m x)"

text \<open>
  What \<^verbatim>\<open>memset\<close> and \<^verbatim>\<open>memcpy\<close> (between ranges that do not overlap) compute; theory \<open>CString\<close> has their
  loops and the proof.
\<close>

definition mem_set :: "bytes \<Rightarrow> u64 \<Rightarrow> u8 \<Rightarrow> nat \<Rightarrow> bytes" where
  "mem_set m a v n = (\<lambda>x. if unat (x - a) < n then v else m x)"

definition mem_copy :: "bytes \<Rightarrow> u64 \<Rightarrow> u64 \<Rightarrow> nat \<Rightarrow> bytes" where
  "mem_copy m dst src n = (\<lambda>x. if unat (x - dst) < n then m (src + (x - dst)) else m x)"

lemma bit_fold_or:
  "bit (fold (\<lambda>i acc. acc OR f i) is z) n \<longleftrightarrow> bit z n \<or> (\<exists>i \<in> set is. bit (f i) n)"
  for f :: "nat \<Rightarrow> 'a::len word"
  by (induction "is" arbitrary: z) (auto simp: bit_simps)

lemma bit_load64:
  assumes "n < 64"
  shows "bit (load64 m a) n \<longleftrightarrow> bit (m (a + of_nat (n div 8))) (n mod 8)"
proof -
  have "bit (load64 m a) n \<longleftrightarrow>
      (\<exists>i < 8. 8 * i \<le> n \<and> n - 8 * i < 8 \<and> bit (m (a + of_nat i)) (n - 8 * i))"
    unfolding load64_def bit_fold_or using assms
    by (fastforce simp: bit_simps dest: bit_imp_le_length)
  also have "\<dots> \<longleftrightarrow> bit (m (a + of_nat (n div 8))) (n mod 8)"
  proof
    assume "\<exists>i < 8. 8 * i \<le> n \<and> n - 8 * i < 8 \<and> bit (m (a + of_nat i)) (n - 8 * i)"
    then obtain i where i: "8 * i \<le> n" "n - 8 * i < 8" "bit (m (a + of_nat i)) (n - 8 * i)"
      by blast
    then have "n div 8 = i" by (intro div_nat_eqI) auto
    moreover from this have "n mod 8 = n - 8 * i" by (simp add: minus_mult_div_eq_mod [symmetric])
    ultimately show "bit (m (a + of_nat (n div 8))) (n mod 8)" using i by simp
  next
    assume "bit (m (a + of_nat (n div 8))) (n mod 8)"
    moreover have "n div 8 < 8" using assms by (simp add: less_mult_imp_div_less)
    ultimately show "\<exists>i < 8. 8 * i \<le> n \<and> n - 8 * i < 8 \<and> bit (m (a + of_nat i)) (n - 8 * i)"
      by (intro exI [of _ "n div 8"]) (simp add: minus_mult_div_eq_mod)
  qed
  finally show ?thesis .
qed

lemma load64_store64_same: "load64 (store64 m a v) a = v"
proof (rule bit_word_eqI)
  fix n assume "n < LENGTH(64)"
  then have n: "n < 64" by simp
  then have k: "n div 8 < 8" by (simp add: less_mult_imp_div_less)
  then have u: "unat (of_nat (n div 8) :: u64) = n div 8" by (simp add: unat_of_nat)
  have "bit (load64 (store64 m a v) a) n \<longleftrightarrow> bit v (8 * (n div 8) + n mod 8)"
    using n k by (simp add: bit_load64 store64_def u bit_simps)
  then show "bit (load64 (store64 m a v) a) n \<longleftrightarrow> bit v n" by simp
qed

lemma load64_cong:
  assumes "\<And>i. i < 8 \<Longrightarrow> m (a + of_nat i) = m' (a + of_nat i)"
  shows "load64 m a = load64 m' a"
proof (rule bit_word_eqI)
  fix n assume "n < LENGTH(64)"
  then have n: "n < 64" by simp
  then have "n div 8 < 8" by (simp add: less_mult_imp_div_less)
  with n assms show "bit (load64 m a) n \<longleftrightarrow> bit (load64 m' a) n" by (simp add: bit_load64)
qed

text \<open>The kernel's 64-bit accesses are naturally aligned.\<close>

definition aligned8 :: "u64 \<Rightarrow> bool" where
  "aligned8 a \<longleftrightarrow> unat a mod 8 = 0"

lemma aligned8_distinct:
  assumes "aligned8 a" "aligned8 b" "a \<noteq> b" "i < 8"
  shows "8 \<le> unat (b + of_nat i - a)"
proof -
  obtain A B where A: "unat a = 8 * A" and B: "unat b = 8 * B"
    using assms(1,2) by (auto simp: aligned8_def elim!: dvdE)
  have "8 * B + i < 18446744073709551616"
    using B assms(4) unat_lt_64 [of b] by simp
  then have bi: "unat (b + of_nat i) = 8 * B + i"
    using B assms(4) by (simp add: unat_word_ariths unat_of_nat)
  have "A \<noteq> B" using A B assms(3) by (auto simp: word_unat_eq_iff)
  then show ?thesis
    using A bi assms(4) unat_lt_64 [of a] by (auto simp: unat_sub_if')
qed

lemma load64_store64_other:
  assumes "aligned8 a" "aligned8 b" "a \<noteq> b"
  shows "load64 (store64 m a v) b = load64 m b"
proof (rule load64_cong)
  fix i :: nat assume "i < 8"
  then show "store64 m a v (b + of_nat i) = m (b + of_nat i)"
    using aligned8_distinct [OF assms, of i] by (simp add: store64_def)
qed

text \<open>
  What the page-table code needs of memory: a word reads back as written, and a write changes
  no other aligned word.
\<close>

locale word_memory =
  fixes load :: "'m \<Rightarrow> 'a \<Rightarrow> 'v" and store :: "'m \<Rightarrow> 'a \<Rightarrow> 'v \<Rightarrow> 'm" and ok :: "'a \<Rightarrow> bool"
  assumes load_same: "ok a \<Longrightarrow> load (store m a v) a = v"
    and load_other: "ok a \<Longrightarrow> ok b \<Longrightarrow> a \<noteq> b \<Longrightarrow> load (store m a v) b = load m b"
begin

lemma load_store: "ok a \<Longrightarrow> ok b \<Longrightarrow> load (store m a v) b = (if a = b then v else load m b)"
  by (simp add: load_same load_other)

lemma load_stores_notin:
  "ok b \<Longrightarrow> \<forall>a \<in> set as. ok a \<Longrightarrow> b \<notin> set as \<Longrightarrow>
   load (fold (\<lambda>a m. store m a (f a)) as m) b = load m b"
  by (induction as arbitrary: m) (auto simp: load_other)

lemma load_stores_in:
  "ok b \<Longrightarrow> \<forall>a \<in> set as. ok a \<Longrightarrow> b \<in> set as \<Longrightarrow>
   load (fold (\<lambda>a m. store m a (f a)) as m) b = f b"
proof (induction as arbitrary: m)
  case (Cons a as)
  then show ?case
    by (cases "b \<in> set as") (auto simp: load_same load_stores_notin)
qed simp

end

interpretation pm: word_memory load64 store64 aligned8
  by unfold_locales (simp_all add: load64_store64_same load64_store64_other)

lemma load64_mem_set_zero:
  assumes "\<And>i. i < 8 \<Longrightarrow> unat (a + of_nat i - p) < n"
  shows "load64 (mem_set m p 0 n) a = 0"
proof (rule bit_word_eqI)
  fix k assume "k < LENGTH(64)"
  then have k: "k < 64" by simp
  then have "k div 8 < 8" by (simp add: less_mult_imp_div_less)
  with k assms show "bit (load64 (mem_set m p 0 n) a) k \<longleftrightarrow> bit 0 k"
    by (simp add: bit_load64 mem_set_def)
qed

lemma load64_mem_set_other:
  assumes "\<And>i. i < 8 \<Longrightarrow> n \<le> unat (a + of_nat i - p)"
  shows "load64 (mem_set m p v n) a = load64 m a"
  by (rule load64_cong) (use assms in \<open>simp add: mem_set_def not_less [symmetric]\<close>)

section \<open>The base of the kernel's global state\<close>

record machine =
  pmem :: bytes
  memory_oom_pmm :: nat
  memory_oom_vmm :: nat
  memory_oom_heap :: nat

definition memory_oom_inc_pmm :: "'a machine_scheme \<Rightarrow> 'a machine_scheme" where
  "memory_oom_inc_pmm s = s\<lparr>memory_oom_pmm := inc64 (memory_oom_pmm s)\<rparr>"

definition memory_oom_inc_vmm :: "'a machine_scheme \<Rightarrow> 'a machine_scheme" where
  "memory_oom_inc_vmm s = s\<lparr>memory_oom_vmm := inc64 (memory_oom_vmm s)\<rparr>"

definition memory_oom_inc_heap :: "'a machine_scheme \<Rightarrow> 'a machine_scheme" where
  "memory_oom_inc_heap s = s\<lparr>memory_oom_heap := inc64 (memory_oom_heap s)\<rparr>"

end
