(* ===== verification/Pmm.thy ===== *)
theory Pmm
  imports Machine
begin

text \<open>
  The physical memory manager, \<^verbatim>\<open>kernel/arch/x86_64/pmm.c\<close>. The bitmap (one bit per page, set
  when the page is used) is the truth about which pages are free; a bounded, sorted list of
  free ranges per zone speeds up allocation. Page indices, page counts and counters are
  \<^verbatim>\<open>uint64_t\<close> values; the model keeps them as natural numbers and writes out the wrap-around of
  every counter (\<open>inc64\<close>, \<open>dec64\<close>, \<open>add64\<close>, \<open>sub64\<close>). Addresses are 64-bit words.
  The arrays \<^verbatim>\<open>free_ranges\<close>, \<^verbatim>\<open>usable_regions\<close> and \<^verbatim>\<open>reserved_regions\<close> with their
  counts are lists; the bitmap and the descriptor array are functions of the index.
  \<^verbatim>\<open>TRACE_EVENT\<close>, \<^verbatim>\<open>kputs\<close> and the compiler barriers have no effect on this state.
\<close>

section \<open>State\<close>

abbreviation (input) PMM_ZONE_LOW :: nat where "PMM_ZONE_LOW \<equiv> 0"
abbreviation (input) PMM_ZONE_NORMAL :: nat where "PMM_ZONE_NORMAL \<equiv> 1"
abbreviation (input) PMM_ZONE_MMIO :: nat where "PMM_ZONE_MMIO \<equiv> 2"
abbreviation (input) PMM_ZONE_COUNT :: nat where "PMM_ZONE_COUNT \<equiv> 3"

abbreviation (input) PMM_PAGE_FREE :: nat where "PMM_PAGE_FREE \<equiv> 0"
abbreviation (input) PMM_PAGE_USED :: nat where "PMM_PAGE_USED \<equiv> 1"

abbreviation (input) MB2_MMAP_AVAILABLE :: nat where "MB2_MMAP_AVAILABLE \<equiv> 1"

abbreviation (input) PMM_BITMAP_MAX_SIZE :: nat where "PMM_BITMAP_MAX_SIZE \<equiv> 0x100000"
abbreviation (input) PMM_MAX_FREE_RANGES :: nat where "PMM_MAX_FREE_RANGES \<equiv> 128"
abbreviation (input) PMM_MAX_REGIONS :: nat where "PMM_MAX_REGIONS \<equiv> 128"

record pmm_free_range =
  fr_start :: nat
  fr_count :: nat

record pmm_page_desc =
  pd_phys :: u64
  pd_zone :: nat
  pd_state :: nat
  pd_reserved :: nat

record pmm_region =
  rg_base :: u64
  rg_length :: u64

record pmm_zone_info =
  z_total_pages :: nat
  z_free_pages :: nat
  z_used_pages :: nat
  free_ranges :: "pmm_free_range list"

record mb2_mmap_entry =
  mb_addr :: u64
  mb_len :: u64
  mb_type :: nat

record pmm_state = machine +
  total_pages :: nat
  free_pages :: nat
  used_pages :: nat
  bitmap_size :: nat
  bitmap :: "nat \<Rightarrow> u32"
  memory_start :: u64
  memory_end :: u64
  pages :: "nat \<Rightarrow> pmm_page_desc"
  pages_count :: nat
  zones :: "nat \<Rightarrow> pmm_zone_info"
  usable_regions :: "pmm_region list"
  reserved_regions :: "pmm_region list"

text \<open>Updating one zone record in place.\<close>

definition upd_zone ::
  "nat \<Rightarrow> (pmm_zone_info \<Rightarrow> pmm_zone_info) \<Rightarrow> 'a pmm_state_scheme \<Rightarrow> 'a pmm_state_scheme" where
  "upd_zone z f s = s\<lparr>zones := (zones s)(z := f (zones s z))\<rparr>"

section \<open>Bitmap operations\<close>

definition pmm_bitmap_set :: "nat \<Rightarrow> 'a pmm_state_scheme \<Rightarrow> 'a pmm_state_scheme" where
  "pmm_bitmap_set page_index s =
     (let word_index = page_index div 32; bit_index = page_index mod 32
      in if word_index < bitmap_size s div 4
         then s\<lparr>bitmap := (bitmap s)(word_index := bitmap s word_index OR push_bit bit_index 1)\<rparr>
         else s)"

definition pmm_bitmap_clear :: "nat \<Rightarrow> 'a pmm_state_scheme \<Rightarrow> 'a pmm_state_scheme" where
  "pmm_bitmap_clear page_index s =
     (let word_index = page_index div 32; bit_index = page_index mod 32
      in if word_index < bitmap_size s div 4
         then s\<lparr>bitmap := (bitmap s)
                 (word_index := bitmap s word_index AND NOT (push_bit bit_index 1))\<rparr>
         else s)"

definition pmm_bitmap_test :: "'a pmm_state_scheme \<Rightarrow> nat \<Rightarrow> bool" where
  "pmm_bitmap_test s page_index =
     (let word_index = page_index div 32; bit_index = page_index mod 32
      in if word_index < bitmap_size s div 4
         then bitmap s word_index AND push_bit bit_index 1 \<noteq> 0
         else True)"

definition pmm_page_to_index :: "'a pmm_state_scheme \<Rightarrow> u64 \<Rightarrow> nat" where
  "pmm_page_to_index s phys =
     (if phys < memory_start s then 0 else unat ((phys - memory_start s) div PAGE_SIZE))"

definition pmm_index_to_page :: "'a pmm_state_scheme \<Rightarrow> nat \<Rightarrow> u64" where
  "pmm_index_to_page s index = memory_start s + of_nat index * PAGE_SIZE"

definition pmm_bitmap_set_all :: "'a pmm_state_scheme \<Rightarrow> 'a pmm_state_scheme" where
  "pmm_bitmap_set_all s =
     s\<lparr>bitmap := (\<lambda>i. if i < bitmap_size s div 4 then 0xFFFFFFFF else bitmap s i)\<rparr>"

definition pmm_zero_page :: "u64 \<Rightarrow> 'a machine_scheme \<Rightarrow> 'a machine_scheme" where
  "pmm_zero_page phys s = s\<lparr>pmem := mem_set (pmem s) phys 0 4096\<rparr>"

definition pmm_zone_for_addr :: "u64 \<Rightarrow> nat" where
  "pmm_zone_for_addr addr = (if addr < 0x1000000 then PMM_ZONE_LOW else PMM_ZONE_NORMAL)"

definition pmm_regions_clear :: "'a pmm_state_scheme \<Rightarrow> 'a pmm_state_scheme" where
  "pmm_regions_clear s = s\<lparr>usable_regions := [], reserved_regions := []\<rparr>"

definition pmm_add_region :: "pmm_region list \<Rightarrow> u64 \<Rightarrow> u64 \<Rightarrow> pmm_region list" where
  "pmm_add_region regions start len =
     (if len = 0 then regions
      else if length regions \<ge> PMM_MAX_REGIONS then regions
      else regions @ [\<lparr>rg_base = start, rg_length = len\<rparr>])"

definition pmm_mark_range_mmio :: "u64 \<Rightarrow> u64 \<Rightarrow> 'a pmm_state_scheme \<Rightarrow> 'a pmm_state_scheme" where
  "pmm_mark_range_mmio start e s =
     (if pages_count s = 0 then s
      else if e \<le> start then s
      else if e \<le> memory_start s \<or> start \<ge> memory_end s then s
      else
        let start = (if start < memory_start s then memory_start s else start);
            e = (if e > memory_end s then memory_end s else e);
            start = ALIGN_DOWN start PAGE_SIZE;
            e = ALIGN_UP e PAGE_SIZE
        in fold (\<lambda>addr s.
             let index = pmm_page_to_index s addr
             in if index < pages_count s
                then s\<lparr>pages := (pages s)(index := (pages s index)\<lparr>pd_zone := PMM_ZONE_MMIO\<rparr>)\<rparr>
                else s) (page_steps start e) s)"

section \<open>Free-range lists\<close>

definition pmm_freelist_clear :: "'a pmm_state_scheme \<Rightarrow> 'a pmm_state_scheme" where
  "pmm_freelist_clear s =
     fold (\<lambda>z. upd_zone z (\<lambda>zi. zi\<lparr>free_ranges := []\<rparr>)) [0..<PMM_ZONE_COUNT] s"

definition pmm_freelist_append ::
  "nat \<Rightarrow> nat \<Rightarrow> nat \<Rightarrow> 'a pmm_state_scheme \<Rightarrow> 'a pmm_state_scheme" where
  "pmm_freelist_append zone start count s =
     (if count = 0 then s
      else if length (free_ranges (zones s zone)) \<ge> PMM_MAX_FREE_RANGES then s
      else upd_zone zone
        (\<lambda>zi. zi\<lparr>free_ranges := free_ranges zi @ [\<lparr>fr_start = start, fr_count = count\<rparr>]\<rparr>) s)"

text \<open>
  The array part of \<^verbatim>\<open>pmm_freelist_insert\<close>: open a gap at the sorted position, then merge with
  the previous and with the next range where they touch.
\<close>

definition freelist_merge_prev ::
  "nat \<Rightarrow> pmm_free_range list \<Rightarrow> nat \<times> pmm_free_range list" where
  "freelist_merge_prev pos rs =
     (if pos > 0 \<and> fr_start (rs ! (pos - 1)) + fr_count (rs ! (pos - 1)) = fr_start (rs ! pos)
      then (pos - 1,
            remove_at pos
              (rs[pos - 1 := (rs ! (pos - 1))
                    \<lparr>fr_count := fr_count (rs ! (pos - 1)) + fr_count (rs ! pos)\<rparr>]))
      else (pos, rs))"

definition freelist_merge_next :: "nat \<Rightarrow> pmm_free_range list \<Rightarrow> pmm_free_range list" where
  "freelist_merge_next pos rs =
     (if pos + 1 < length rs \<and>
         fr_start (rs ! pos) + fr_count (rs ! pos) = fr_start (rs ! (pos + 1))
      then remove_at (pos + 1)
             (rs[pos := (rs ! pos)\<lparr>fr_count := fr_count (rs ! pos) + fr_count (rs ! (pos + 1))\<rparr>])
      else rs)"

definition pmm_freelist_insert ::
  "nat \<Rightarrow> nat \<Rightarrow> nat \<Rightarrow> 'a pmm_state_scheme \<Rightarrow> 'a pmm_state_scheme" where
  "pmm_freelist_insert zone start count s =
     (if count = 0 then s
      else
        let rs = free_ranges (zones s zone); n = length rs
        in if n = 0 then pmm_freelist_append zone start count s
           else
             let pos = length (takeWhile (\<lambda>r. fr_start r < start) rs)
             in if n \<ge> PMM_MAX_FREE_RANGES then s
                else
                  let rs1 = insert_at pos \<lparr>fr_start = start, fr_count = count\<rparr> rs;
                      (pos2, rs2) = freelist_merge_prev pos rs1;
                      rs3 = freelist_merge_next pos2 rs2
                  in upd_zone zone (\<lambda>zi. zi\<lparr>free_ranges := rs3\<rparr>) s)"

fun freelist_index :: "nat \<Rightarrow> nat \<Rightarrow> pmm_free_range list \<Rightarrow> nat option" where
  "freelist_index start count [] = None"
| "freelist_index start count (r # rs) =
     (if fr_start r \<le> start \<and> start + count \<le> fr_start r + fr_count r then Some 0
      else map_option Suc (freelist_index start count rs))"

definition freelist_cut :: "nat \<Rightarrow> nat \<Rightarrow> nat \<Rightarrow> pmm_free_range list \<Rightarrow> pmm_free_range list" where
  "freelist_cut i start count rs =
     (let r = rs ! i;
          tail_start = start + count;
          tail_count = (fr_start r + fr_count r) - tail_start;
          head_count = start - fr_start r
      in if head_count > 0 \<and> tail_count > 0 then
           (let rs' = rs[i := r\<lparr>fr_count := head_count\<rparr>]
            in if length rs < PMM_MAX_FREE_RANGES
               then insert_at (i + 1) \<lparr>fr_start = tail_start, fr_count = tail_count\<rparr> rs'
               else rs')
         else if head_count > 0 then rs[i := r\<lparr>fr_count := head_count\<rparr>]
         else if tail_count > 0 then rs[i := \<lparr>fr_start = tail_start, fr_count = tail_count\<rparr>]
         else remove_at i rs)"

definition pmm_freelist_remove ::
  "nat \<Rightarrow> nat \<Rightarrow> nat \<Rightarrow> 'a pmm_state_scheme \<Rightarrow> bool \<times> 'a pmm_state_scheme" where
  "pmm_freelist_remove zone start count s =
     (if count = 0 then (False, s)
      else
        let rs = free_ranges (zones s zone)
        in case freelist_index start count rs of
             None \<Rightarrow> (False, s)
           | Some i \<Rightarrow>
               (True, upd_zone zone (\<lambda>zi. zi\<lparr>free_ranges := freelist_cut i start count rs\<rparr>) s))"

text \<open>One iteration of \<^verbatim>\<open>pmm_rebuild_free_lists\<close> carries the current run along.\<close>

record pmm_run =
  run_start :: nat
  run_count :: nat
  run_zone :: nat

definition rebuild_step ::
  "nat \<Rightarrow> pmm_run \<times> 'a pmm_state_scheme \<Rightarrow> pmm_run \<times> 'a pmm_state_scheme" where
  "rebuild_step i rs =
     (let (run, s) = rs
      in if \<not> pmm_bitmap_test s i then
           (let zone = pmm_zone_for_addr (pmm_index_to_page s i)
            in if run_count run = 0 then (\<lparr>run_start = i, run_count = 1, run_zone = zone\<rparr>, s)
               else if zone = run_zone run \<and> run_start run + run_count run = i
                 then (run\<lparr>run_count := run_count run + 1\<rparr>, s)
               else (\<lparr>run_start = i, run_count = 1, run_zone = zone\<rparr>,
                     pmm_freelist_append (run_zone run) (run_start run) (run_count run) s))
         else if run_count run > 0 then
           (run\<lparr>run_count := 0\<rparr>,
            pmm_freelist_append (run_zone run) (run_start run) (run_count run) s)
         else (run, s))"

definition pmm_rebuild_free_lists :: "'a pmm_state_scheme \<Rightarrow> 'a pmm_state_scheme" where
  "pmm_rebuild_free_lists s =
     (let s = pmm_freelist_clear s;
          (run, s) = fold rebuild_step [0..<total_pages s]
             (\<lparr>run_start = 0, run_count = 0, run_zone = PMM_ZONE_NORMAL\<rparr>, s)
      in if run_count run > 0
         then pmm_freelist_append (run_zone run) (run_start run) (run_count run) s
         else s)"

section \<open>Page descriptors and range marking\<close>

definition pmm_setup_page_descs ::
  "u64 \<Rightarrow> u64 \<Rightarrow> u64 \<Rightarrow> nat \<Rightarrow> 'a pmm_state_scheme \<Rightarrow> 'a pmm_state_scheme" where
  "pmm_setup_page_descs mstart mend bitmap_phys bsize s =
     (let tot = unat ((mend - mstart) div PAGE_SIZE);
          desc_size = of_nat tot * 16 :: u64;
          desc_phys = (bitmap_phys + of_nat bsize + 7) AND NOT 7
      in if desc_phys + desc_size > 0x1000000 then s\<lparr>pages_count := 0\<rparr>
         else s\<lparr>pages_count := tot,
               pages := (\<lambda>i. if i < tot
                  then (let phys = mstart + of_nat i * PAGE_SIZE
                        in \<lparr>pd_phys = phys, pd_zone = pmm_zone_for_addr phys,
                            pd_state = PMM_PAGE_USED, pd_reserved = 0\<rparr>)
                  else pages s i)\<rparr>)"

definition mark_page_free :: "u64 \<Rightarrow> 'a pmm_state_scheme \<Rightarrow> 'a pmm_state_scheme" where
  "mark_page_free addr s =
     (let index = pmm_page_to_index s addr
      in if pmm_bitmap_test s index then
           (let s = pmm_bitmap_clear index s;
                s = s\<lparr>free_pages := inc64 (free_pages s), used_pages := dec64 (used_pages s)\<rparr>
            in if index < pages_count s then
                 (let s = s\<lparr>pages := (pages s)
                              (index := (pages s index)\<lparr>pd_state := PMM_PAGE_FREE\<rparr>)\<rparr>;
                      zone = pd_zone (pages s index)
                  in upd_zone zone (\<lambda>zi. zi\<lparr>z_free_pages := inc64 (z_free_pages zi),
                                           z_used_pages := dec64 (z_used_pages zi)\<rparr>) s)
               else s)
         else s)"

definition pmm_mark_range_free :: "u64 \<Rightarrow> u64 \<Rightarrow> 'a pmm_state_scheme \<Rightarrow> 'a pmm_state_scheme" where
  "pmm_mark_range_free start e s =
     (if e \<le> start then s
      else if e \<le> memory_start s \<or> start \<ge> memory_end s then s
      else
        let start = (if start < memory_start s then memory_start s else start);
            e = (if e > memory_end s then memory_end s else e);
            start = ALIGN_UP start PAGE_SIZE;
            e = ALIGN_DOWN e PAGE_SIZE
        in fold mark_page_free (page_steps start e) s)"

definition mark_page_used :: "u64 \<Rightarrow> 'a pmm_state_scheme \<Rightarrow> 'a pmm_state_scheme" where
  "mark_page_used addr s =
     (let index = pmm_page_to_index s addr
      in if \<not> pmm_bitmap_test s index then
           (let s = pmm_bitmap_set index s;
                s = s\<lparr>free_pages := dec64 (free_pages s), used_pages := inc64 (used_pages s)\<rparr>
            in if index < pages_count s then
                 (let s = s\<lparr>pages := (pages s)
                              (index := (pages s index)\<lparr>pd_state := PMM_PAGE_USED\<rparr>)\<rparr>;
                      zone = pd_zone (pages s index)
                  in upd_zone zone (\<lambda>zi. zi\<lparr>z_free_pages := dec64 (z_free_pages zi),
                                           z_used_pages := inc64 (z_used_pages zi)\<rparr>) s)
               else s)
         else s)"

definition pmm_mark_range_used :: "u64 \<Rightarrow> u64 \<Rightarrow> 'a pmm_state_scheme \<Rightarrow> 'a pmm_state_scheme" where
  "pmm_mark_range_used start e s =
     (if e \<le> start then s
      else if e \<le> memory_start s \<or> start \<ge> memory_end s then s
      else
        let start = (if start < memory_start s then memory_start s else start);
            e = (if e > memory_end s then memory_end s else e);
            start = ALIGN_DOWN start PAGE_SIZE;
            e = ALIGN_UP e PAGE_SIZE
        in fold mark_page_used (page_steps start e) s)"

section \<open>Initialisation\<close>

definition pmm_bitmap_bytes :: "nat \<Rightarrow> nat" where
  "pmm_bitmap_bytes tot = ((tot + 7) div 8 + 4095) div 4096 * 4096"

definition pmm_zones_reset :: "'a pmm_state_scheme \<Rightarrow> 'a pmm_state_scheme" where
  "pmm_zones_reset s =
     fold (\<lambda>z. upd_zone z (\<lambda>zi. zi\<lparr>z_total_pages := 0, z_free_pages := 0, z_used_pages := 0\<rparr>))
       [0..<PMM_ZONE_COUNT] s"

text \<open>One descriptor's share of the zone totals, as the two initialisers count it.\<close>

definition init_desc_free :: "nat \<Rightarrow> 'a pmm_state_scheme \<Rightarrow> 'a pmm_state_scheme" where
  "init_desc_free i s =
     (let s = s\<lparr>pages := (pages s)(i := (pages s i)\<lparr>pd_state := PMM_PAGE_FREE\<rparr>)\<rparr>;
          zone = pd_zone (pages s i)
      in upd_zone zone (\<lambda>zi. zi\<lparr>z_total_pages := inc64 (z_total_pages zi),
                               z_free_pages := inc64 (z_free_pages zi)\<rparr>) s)"

definition init_desc_used :: "nat \<Rightarrow> 'a pmm_state_scheme \<Rightarrow> 'a pmm_state_scheme" where
  "init_desc_used i s =
     (let s = s\<lparr>pages := (pages s)(i := (pages s i)\<lparr>pd_state := PMM_PAGE_USED\<rparr>)\<rparr>;
          zone = pd_zone (pages s i)
      in upd_zone zone (\<lambda>zi. zi\<lparr>z_total_pages := inc64 (z_total_pages zi),
                               z_used_pages := inc64 (z_used_pages zi)\<rparr>) s)"

definition pmm_init :: "u64 \<Rightarrow> u64 \<Rightarrow> u64 \<Rightarrow> 'a pmm_state_scheme \<Rightarrow> int \<times> 'a pmm_state_scheme" where
  "pmm_init mstart mend bitmap_virt s =
     (if bitmap_virt = 0 \<or> mend \<le> mstart then (RDNX_E_INVALID, s)
      else
        let mstart = ALIGN_UP mstart PAGE_SIZE;
            mend = ALIGN_DOWN mend PAGE_SIZE;
            tot = unat ((mend - mstart) div PAGE_SIZE);
            bsize = pmm_bitmap_bytes tot;
            s = s\<lparr>total_pages := tot, free_pages := tot, used_pages := 0,
                  bitmap_size := bsize, memory_start := mstart, memory_end := mend\<rparr>;
            s = pmm_regions_clear s;
            s = pmm_zones_reset s;
            s = s\<lparr>bitmap := (\<lambda>i. if i < bsize div 4 then 0 else bitmap s i)\<rparr>;
            s = pmm_setup_page_descs mstart mend bitmap_virt bsize s;
            s = fold init_desc_free [0..<pages_count s] s;
            s = s\<lparr>usable_regions := pmm_add_region (usable_regions s) mstart (mend - mstart)\<rparr>
        in (0, pmm_rebuild_free_lists s))"

text \<open>
  The Multiboot2 memory map is data of the boot loader: \<open>entry off\<close> is the entry that starts
  \<open>off\<close> bytes into the tag.
\<close>

definition mmap_scan_regions ::
  "(nat \<Rightarrow> mb2_mmap_entry) \<Rightarrow> nat \<Rightarrow> nat \<Rightarrow> 'a pmm_state_scheme \<Rightarrow> 'a pmm_state_scheme" where
  "mmap_scan_regions entry entry_size max_entries s =
     fold (\<lambda>i s.
       let e = entry (16 + i * entry_size)
       in if mb_len e \<noteq> 0 \<and> mb_addr e + mb_len e \<ge> mb_addr e then
            (if mb_type e = MB2_MMAP_AVAILABLE
             then s\<lparr>usable_regions := pmm_add_region (usable_regions s) (mb_addr e) (mb_len e)\<rparr>
             else pmm_mark_range_mmio (mb_addr e) (mb_addr e + mb_len e)
                    (s\<lparr>reserved_regions :=
                          pmm_add_region (reserved_regions s) (mb_addr e) (mb_len e)\<rparr>))
          else s) [0..<max_entries] s"

definition mmap_free_available ::
  "(nat \<Rightarrow> mb2_mmap_entry) \<Rightarrow> nat \<Rightarrow> nat \<Rightarrow> 'a pmm_state_scheme \<Rightarrow> 'a pmm_state_scheme" where
  "mmap_free_available entry entry_size max_entries s =
     fold (\<lambda>i s.
       let e = entry (16 + i * entry_size)
       in if mb_type e = MB2_MMAP_AVAILABLE \<and> mb_len e \<noteq> 0 \<and> mb_addr e + mb_len e \<ge> mb_addr e
          then pmm_mark_range_free (mb_addr e) (mb_addr e + mb_len e) s
          else s) [0..<max_entries] s"

text \<open>The clipping of the managed range to what the fixed bitmap storage can describe.\<close>

definition mmap_clip :: "u64 \<Rightarrow> u64 \<Rightarrow> u64 \<times> nat \<times> nat" where
  "mmap_clip ms me =
     (let tot = unat ((me - ms) div PAGE_SIZE); bsize = pmm_bitmap_bytes tot
      in if bsize > PMM_BITMAP_MAX_SIZE then
           (let max_pages = PMM_BITMAP_MAX_SIZE * 8;
                me = ms + of_nat max_pages * PAGE_SIZE;
                tot = unat ((me - ms) div PAGE_SIZE)
            in (me, tot, pmm_bitmap_bytes tot))
         else (me, tot, bsize))"

text \<open>Everything \<open>pmm_init_from_mmap\<close> does after the descriptors are set up.\<close>

definition mmap_populate ::
  "u64 \<Rightarrow> nat \<Rightarrow> (nat \<Rightarrow> mb2_mmap_entry) \<Rightarrow> nat \<Rightarrow> nat
     \<Rightarrow> 'a pmm_state_scheme \<Rightarrow> 'a pmm_state_scheme" where
  "mmap_populate bitmap_phys bsize entry entry_size n s = (
     let s = (if pages_count s > 0 then
                (let s = mmap_scan_regions entry entry_size n s
                 in fold init_desc_used [0..<pages_count s] s)
              else s);
         s = mmap_free_available entry entry_size n s;
         s = pmm_mark_range_used bitmap_phys (bitmap_phys + of_nat bsize) s;
         s = s\<lparr>reserved_regions := pmm_add_region (reserved_regions s) bitmap_phys (of_nat bsize)\<rparr>;
         s = (if pages_count s > 0 then
                (let desc_size = of_nat (pages_count s) * 16;
                     desc_phys = (bitmap_phys + of_nat bsize + 7) AND NOT 7;
                     s = pmm_mark_range_used desc_phys (desc_phys + desc_size) s
                 in s\<lparr>reserved_regions :=
                       pmm_add_region (reserved_regions s) desc_phys desc_size\<rparr>)
              else s)
     in pmm_rebuild_free_lists s)"

definition pmm_init_from_mmap ::
  "u64 \<Rightarrow> u64 \<Rightarrow> u64 \<Rightarrow> u64 \<Rightarrow> (nat \<Rightarrow> mb2_mmap_entry) option \<Rightarrow> nat \<Rightarrow> nat
     \<Rightarrow> 'a pmm_state_scheme \<Rightarrow> int \<times> 'a pmm_state_scheme" where
  "pmm_init_from_mmap mstart mend bitmap_virt bitmap_phys mmap_tag mmap_size entry_size s =
     (case mmap_tag of
        None \<Rightarrow> (RDNX_E_INVALID, s)
      | Some entry \<Rightarrow>
        if bitmap_virt = 0 \<or> mend \<le> mstart \<or> entry_size = 0 then (RDNX_E_INVALID, s)
        else
          let mstart = ALIGN_UP mstart PAGE_SIZE;
              mend = ALIGN_DOWN mend PAGE_SIZE;
              (mend, tot, bsize) = mmap_clip mstart mend;
              s = s\<lparr>total_pages := tot, free_pages := 0, used_pages := tot,
                    bitmap_size := bsize, memory_start := mstart, memory_end := mend\<rparr>;
              s = pmm_bitmap_set_all s;
              s = pmm_regions_clear s;
              s = pmm_zones_reset s;
              s = pmm_setup_page_descs mstart mend bitmap_phys bsize s
          in if mmap_size \<le> 16 then (RDNX_E_INVALID, s)
             else
               let max_entries = min ((mmap_size - 16) div entry_size) 4096
               in (RDNX_OK, mmap_populate bitmap_phys bsize entry entry_size max_entries s))"

section \<open>Allocation and release\<close>

definition alloc_bookkeeping ::
  "nat \<Rightarrow> nat \<Rightarrow> 'a pmm_state_scheme \<Rightarrow> u64 \<times> 'a pmm_state_scheme" where
  "alloc_bookkeeping zone index s =
     (let s = pmm_bitmap_set index s;
          s = s\<lparr>free_pages := dec64 (free_pages s), used_pages := inc64 (used_pages s)\<rparr>;
          phys = pmm_index_to_page s index;
          s = pmm_zero_page phys s;
          s = (if index < pages_count s then
                 (let s = s\<lparr>pages := (pages s)
                             (index := (pages s index)\<lparr>pd_state := PMM_PAGE_USED\<rparr>)\<rparr>
                  in if z_free_pages (zones s zone) > 0 then
                       upd_zone zone (\<lambda>zi. zi\<lparr>z_free_pages := dec64 (z_free_pages zi),
                                              z_used_pages := inc64 (z_used_pages zi)\<rparr>) s
                     else s)
               else s)
      in (phys, s))"

definition pmm_alloc_page_in_zone ::
  "nat \<Rightarrow> 'a pmm_state_scheme \<Rightarrow> u64 \<times> 'a pmm_state_scheme" where
  "pmm_alloc_page_in_zone zone s =
     (if free_pages s = 0 \<or> zone \<ge> PMM_ZONE_COUNT then (0, memory_oom_inc_pmm s)
      else
        let (found, index, s) =
              (case free_ranges (zones s zone) of
                 [] \<Rightarrow> (False, 0, s)
               | r # _ \<Rightarrow>
                   (let index = fr_start r; (ok, s) = pmm_freelist_remove zone index 1 s
                    in (ok, index, s)));
            (found, index) =
              (if found then (True, index)
               else case find (\<lambda>i. \<not> pmm_bitmap_test s i \<and>
                                  pmm_zone_for_addr (pmm_index_to_page s i) = zone)
                        [0..<total_pages s] of
                      None \<Rightarrow> (False, index)
                    | Some i \<Rightarrow> (True, i))
        in if \<not> found then (0, memory_oom_inc_pmm s)
           else alloc_bookkeeping zone index s)"

definition pmm_alloc_page :: "'a pmm_state_scheme \<Rightarrow> u64 \<times> 'a pmm_state_scheme" where
  "pmm_alloc_page s =
     (let (phys, s) = pmm_alloc_page_in_zone PMM_ZONE_NORMAL s
      in if phys \<noteq> 0 then (phys, s) else pmm_alloc_page_in_zone PMM_ZONE_LOW s)"

definition pmm_free_page :: "u64 \<Rightarrow> 'a pmm_state_scheme \<Rightarrow> 'a pmm_state_scheme" where
  "pmm_free_page phys s =
     (if phys < memory_start s \<or> phys \<ge> memory_end s then s
      else if phys AND (PAGE_SIZE - 1) \<noteq> 0 then s
      else
        let index = pmm_page_to_index s phys
        in if pmm_bitmap_test s index then
             (let s = pmm_bitmap_clear index s;
                  s = s\<lparr>free_pages := inc64 (free_pages s), used_pages := dec64 (used_pages s)\<rparr>;
                  zone = pmm_zone_for_addr phys;
                  s = (if index < pages_count s then
                         (let s = s\<lparr>pages := (pages s)
                                     (index := (pages s index)\<lparr>pd_state := PMM_PAGE_FREE\<rparr>)\<rparr>
                          in upd_zone zone
                               (\<lambda>zi. zi\<lparr>z_free_pages := inc64 (z_free_pages zi),
                                       z_used_pages := (if z_used_pages zi > 0
                                          then dec64 (z_used_pages zi) else z_used_pages zi)\<rparr>) s)
                       else s)
              in pmm_freelist_insert zone index 1 s)
           else s)"

text \<open>The three loops over the \<open>count\<close> pages of a contiguous allocation.\<close>

definition set_used_run :: "nat \<Rightarrow> nat \<Rightarrow> 'a pmm_state_scheme \<Rightarrow> 'a pmm_state_scheme" where
  "set_used_run start count s =
     fold (\<lambda>p s.
       let idx = start + p; s = pmm_bitmap_set idx s
       in if idx < pages_count s
          then s\<lparr>pages := (pages s)(idx := (pages s idx)\<lparr>pd_state := PMM_PAGE_USED\<rparr>)\<rparr>
          else s) [0..<count] s"

definition zero_run :: "u64 \<Rightarrow> nat \<Rightarrow> 'a pmm_state_scheme \<Rightarrow> 'a pmm_state_scheme" where
  "zero_run phys count s = fold (\<lambda>p. pmm_zero_page (phys + of_nat p * PAGE_SIZE)) [0..<count] s"

definition take_run ::
  "nat \<Rightarrow> nat \<Rightarrow> nat \<Rightarrow> 'a pmm_state_scheme \<Rightarrow> u64 \<times> 'a pmm_state_scheme" where
  "take_run zone start count s =
     (let s = set_used_run start count s;
          s = s\<lparr>free_pages := sub64 (free_pages s) count, used_pages := add64 (used_pages s) count\<rparr>;
          s = (if z_free_pages (zones s zone) \<ge> count
               then upd_zone zone (\<lambda>zi. zi\<lparr>z_free_pages := sub64 (z_free_pages zi) count,
                                          z_used_pages := add64 (z_used_pages zi) count\<rparr>) s
               else s);
          phys = pmm_index_to_page s start;
          s = zero_run phys count s
      in (phys, s))"

text \<open>The fallback scan: \<open>Some\<close> start of the first run of \<open>count\<close> free pages of the zone.\<close>

fun scan_run ::
  "'a pmm_state_scheme \<Rightarrow> nat \<Rightarrow> nat \<Rightarrow> nat \<Rightarrow> nat \<Rightarrow> nat list \<Rightarrow> nat option" where
  "scan_run s zone count rstart rcount [] = None"
| "scan_run s zone count rstart rcount (i # is) =
     (if pmm_bitmap_test s i then scan_run s zone count rstart 0 is
      else if pmm_zone_for_addr (pmm_index_to_page s i) \<noteq> zone
        then scan_run s zone count rstart 0 is
      else
        let rstart = (if rcount = 0 then i else rstart); rcount = rcount + 1
        in if rcount \<ge> count then Some rstart
           else scan_run s zone count rstart rcount is)"

definition pmm_alloc_pages_in_zone ::
  "nat \<Rightarrow> nat \<Rightarrow> 'a pmm_state_scheme \<Rightarrow> u64 \<times> 'a pmm_state_scheme" where
  "pmm_alloc_pages_in_zone zone count s =
     (if count = 0 \<or> zone \<ge> PMM_ZONE_COUNT then (0, s)
      else if free_pages s < count then (0, s)
      else case find (\<lambda>r. fr_count r \<ge> count) (free_ranges (zones s zone)) of
        Some r \<Rightarrow>
          (let start = fr_start r; (ok, s) = pmm_freelist_remove zone start count s
           in if \<not> ok then (0, s) else take_run zone start count s)
      | None \<Rightarrow>
          (case scan_run s zone count 0 0 [0..<total_pages s] of
             None \<Rightarrow> (0, s)
           | Some start \<Rightarrow>
               (let (phys, s) = take_run zone start count s
                in (phys, pmm_rebuild_free_lists s))))"

definition pmm_alloc_pages :: "nat \<Rightarrow> 'a pmm_state_scheme \<Rightarrow> u64 \<times> 'a pmm_state_scheme" where
  "pmm_alloc_pages count s =
     (let (phys, s) = pmm_alloc_pages_in_zone PMM_ZONE_NORMAL count s
      in if phys \<noteq> 0 then (phys, s) else pmm_alloc_pages_in_zone PMM_ZONE_LOW count s)"

definition pmm_reserve_range :: "u64 \<Rightarrow> u64 \<Rightarrow> 'a pmm_state_scheme \<Rightarrow> 'a pmm_state_scheme" where
  "pmm_reserve_range start e s =
     (if e \<le> start then s
      else
        let s = pmm_mark_range_used start e s;
            s = s\<lparr>reserved_regions := pmm_add_region (reserved_regions s) start (e - start)\<rparr>
        in pmm_rebuild_free_lists s)"

definition pmm_release_range :: "u64 \<Rightarrow> u64 \<Rightarrow> 'a pmm_state_scheme \<Rightarrow> 'a pmm_state_scheme" where
  "pmm_release_range start e s =
     (if e \<le> start then s else pmm_rebuild_free_lists (pmm_mark_range_free start e s))"

text \<open>
  In \<^verbatim>\<open>phys + i * PAGE_SIZE\<close> the product is a \<^verbatim>\<open>uint32_t\<close>: \<^verbatim>\<open>i\<close> is one and
  \<^verbatim>\<open>PAGE_SIZE\<close> is an \<^verbatim>\<open>int\<close> literal. It wraps at 4 GiB before it is added.
\<close>

definition pmm_free_pages :: "u64 \<Rightarrow> nat \<Rightarrow> 'a pmm_state_scheme \<Rightarrow> 'a pmm_state_scheme" where
  "pmm_free_pages phys count s =
     fold (\<lambda>i. pmm_free_page (phys + of_nat (i * 4096 mod 2 ^ 32))) [0..<count] s"

section \<open>Queries\<close>

definition pmm_get_zone_stats :: "nat \<Rightarrow> 'a pmm_state_scheme \<Rightarrow> int + nat \<times> nat \<times> nat" where
  "pmm_get_zone_stats zone s =
     (if zone \<ge> PMM_ZONE_COUNT then Inl RDNX_E_INVALID
      else Inr (z_total_pages (zones s zone), z_free_pages (zones s zone),
                z_used_pages (zones s zone)))"

text \<open>
  \<open>maxn = 0\<close> (or no output array) asks for the number of regions only; the result is the count
  with the regions written.
\<close>

definition pmm_get_free_regions ::
  "nat \<Rightarrow> nat \<Rightarrow> 'a pmm_state_scheme \<Rightarrow> int + nat \<times> pmm_region list" where
  "pmm_get_free_regions zone maxn s =
     (if zone \<ge> PMM_ZONE_COUNT then Inl RDNX_E_INVALID
      else
        let rs = free_ranges (zones s zone); n = length rs
        in if maxn = 0 then Inr (n, [])
           else
             let count = (if n < maxn then n else maxn)
             in Inr (count, map (\<lambda>r. \<lparr>rg_base = pmm_index_to_page s (fr_start r),
                                       rg_length = of_nat (fr_count r) * PAGE_SIZE\<rparr>)
                              (take count rs)))"

definition get_regions :: "pmm_region list \<Rightarrow> nat \<Rightarrow> nat \<times> pmm_region list" where
  "get_regions regions maxn =
     (if maxn = 0 then (length regions, [])
      else let count = (if length regions < maxn then length regions else maxn)
           in (count, take count regions))"

definition pmm_get_usable_regions ::
  "nat \<Rightarrow> 'a pmm_state_scheme \<Rightarrow> nat \<times> pmm_region list" where
  "pmm_get_usable_regions maxn s = get_regions (usable_regions s) maxn"

definition pmm_get_reserved_regions ::
  "nat \<Rightarrow> 'a pmm_state_scheme \<Rightarrow> nat \<times> pmm_region list" where
  "pmm_get_reserved_regions maxn s = get_regions (reserved_regions s) maxn"

end
