(* ===== verification/PmmInv.thy ===== *)
theory PmmInv
  imports Pmm
begin

text \<open>
  Correctness of the physical memory manager of theory \<open>Pmm\<close>. The abstract state is the set of
  free page indices, read off the bitmap. The invariant \<open>pmm_inv\<close> ties the counters and the
  free-range lists to it; every operation keeps it, allocation takes exactly the pages it
  returns out of the free set, and release puts exactly the released pages back.
\<close>

section \<open>The invariant\<close>

definition fr_pages :: "pmm_free_range list \<Rightarrow> nat set" where
  "fr_pages rs = (\<Union>r \<in> set rs. {fr_start r..<fr_start r + fr_count r})"

definition fr_before :: "pmm_free_range \<Rightarrow> pmm_free_range \<Rightarrow> bool" where
  "fr_before a b \<longleftrightarrow> fr_start a + fr_count a \<le> fr_start b"

definition ranges_ok :: "pmm_free_range list \<Rightarrow> bool" where
  "ranges_ok rs \<longleftrightarrow> sorted_wrt fr_before rs \<and> (\<forall>r \<in> set rs. 0 < fr_count r)"

definition free_set :: "'a pmm_state_scheme \<Rightarrow> nat set" where
  "free_set s = {i. i < total_pages s \<and> \<not> pmm_bitmap_test s i}"

definition page_zone :: "'a pmm_state_scheme \<Rightarrow> nat \<Rightarrow> nat" where
  "page_zone s i = pmm_zone_for_addr (pmm_index_to_page s i)"

definition geom_ok :: "'a pmm_state_scheme \<Rightarrow> bool" where
  "geom_ok s \<longleftrightarrow>
     unat (memory_end s) = unat (memory_start s) + total_pages s * 4096 \<and>
     page_aligned (memory_start s) \<and> memory_start s \<noteq> 0 \<and>
     total_pages s \<le> bitmap_size s div 4 * 32"

definition counts_ok :: "'a pmm_state_scheme \<Rightarrow> bool" where
  "counts_ok s \<longleftrightarrow>
     free_pages s = card (free_set s) \<and> used_pages s = total_pages s - card (free_set s)"

definition list_ok :: "'a pmm_state_scheme \<Rightarrow> nat \<Rightarrow> pmm_free_range list \<Rightarrow> bool" where
  "list_ok s z rs \<longleftrightarrow>
     ranges_ok rs \<and> length rs \<le> PMM_MAX_FREE_RANGES \<and>
     (\<forall>i \<in> fr_pages rs. i \<in> free_set s \<and> page_zone s i = z)"

definition lists_ok :: "'a pmm_state_scheme \<Rightarrow> bool" where
  "lists_ok s \<longleftrightarrow> (\<forall>z < PMM_ZONE_COUNT. list_ok s z (free_ranges (zones s z)))"

definition pmm_inv :: "'a pmm_state_scheme \<Rightarrow> bool" where
  "pmm_inv s \<longleftrightarrow> geom_ok s \<and> counts_ok s \<and> lists_ok s"

section \<open>Free-range lists as sets of pages\<close>

lemma fr_pages_simps [simp]:
  "fr_pages [] = {}"
  "fr_pages (r # rs) = {fr_start r..<fr_start r + fr_count r} \<union> fr_pages rs"
  "fr_pages (xs @ ys) = fr_pages xs \<union> fr_pages ys"
  by (auto simp: fr_pages_def)

lemma ranges_ok_Nil [simp]: "ranges_ok []"
  by (simp add: ranges_ok_def)

lemma merge_next_at:
  "freelist_merge_next (length A) (A @ x # y # B) =
     (if fr_start x + fr_count x = fr_start y
      then A @ x\<lparr>fr_count := fr_count x + fr_count y\<rparr> # B else A @ x # y # B)"
proof -
  let ?x = "x\<lparr>fr_count := fr_count x + fr_count y\<rparr>"
  have "remove_at (Suc (length A)) (A @ ?x # y # B) = A @ ?x # B"
    using remove_at_append [of "A @ [?x]" y B] by simp
  then show ?thesis by (simp add: freelist_merge_next_def nth_append)
qed

lemma merge_next_ok:
  assumes "ranges_ok rs"
  shows "ranges_ok (freelist_merge_next p rs) \<and> fr_pages (freelist_merge_next p rs) = fr_pages rs
    \<and> length (freelist_merge_next p rs) \<le> length rs
    \<and> (freelist_merge_next p rs = rs \<or> length (freelist_merge_next p rs) < length rs)"
proof (cases "p + 1 < length rs")
  case True
  define A x y B where "A = take p rs" and "x = rs ! p" and "y = rs ! Suc p"
    and "B = drop (Suc (Suc p)) rs"
  have rs: "rs = A @ x # y # B" and p: "p = length A"
    using True by (simp_all add: A_def x_def y_def B_def Cons_nth_drop_Suc)
  show ?thesis
    using assms unfolding rs p merge_next_at
    by (auto simp: ranges_ok_def sorted_wrt_append fr_before_def)
next
  case False
  with assms show ?thesis by (simp add: freelist_merge_next_def)
qed

lemma merge_prev_eq:
  assumes "pos < length rs"
  shows "freelist_merge_prev pos rs =
    (if pos > 0 \<and> fr_start (rs ! (pos - 1)) + fr_count (rs ! (pos - 1)) = fr_start (rs ! pos)
     then (pos - 1, freelist_merge_next (pos - 1) rs) else (pos, rs))"
  using assms by (auto simp: freelist_merge_prev_def freelist_merge_next_def)

lemma insert_sorted_ok:
  assumes "ranges_ok rs" "0 < c" "fr_pages rs \<inter> {st..<st + c} = {}"
  shows "ranges_ok (insert_at (length (takeWhile (\<lambda>r. fr_start r < st) rs))
                      \<lparr>fr_start = st, fr_count = c\<rparr> rs)"
proof -
  define A B where "A = takeWhile (\<lambda>r. fr_start r < st) rs"
    and "B = dropWhile (\<lambda>r. fr_start r < st) rs"
  have rs: "rs = A @ B" by (simp add: A_def B_def)
  have pos: "0 < fr_count r" if "r \<in> set rs" for r using assms(1) that by (auto simp: ranges_ok_def)
  have disj: "fr_start r + fr_count r \<le> st \<or> st + c \<le> fr_start r" if "r \<in> set rs" for r
  proof (rule ccontr)
    assume "\<not> ?thesis"
    then have "max st (fr_start r) \<in> {fr_start r..<fr_start r + fr_count r} \<inter> {st..<st + c}"
      using pos [OF that] assms(2) by auto
    with that assms(3) show False unfolding fr_pages_def by blast
  qed
  have A: "fr_start r + fr_count r \<le> st" if "r \<in> set A" for r
    using disj [of r] that set_takeWhileD [of r _ rs] by (fastforce simp: A_def)
  have B: "st + c \<le> fr_start r" if rB: "r \<in> set B" for r
  proof -
    obtain b B' where b: "B = b # B'" using rB by (cases B) auto
    then have "\<not> fr_start b < st" unfolding B_def by (metis dropWhile_eq_Cons_conv)
    moreover have "fr_start b \<le> fr_start r"
      using assms(1) that unfolding rs b ranges_ok_def
      by (auto simp: sorted_wrt_append fr_before_def)
    ultimately have "\<not> fr_start r < st" by simp
    then show ?thesis using disj [of r] that pos [of r] rs by auto
  qed
  have "ranges_ok (A @ \<lparr>fr_start = st, fr_count = c\<rparr> # B)"
    using assms(1,2) A B unfolding rs ranges_ok_def
    by (auto simp: sorted_wrt_append fr_before_def)
  moreover have "insert_at (length A) \<lparr>fr_start = st, fr_count = c\<rparr> rs
      = A @ \<lparr>fr_start = st, fr_count = c\<rparr> # B"
    by (simp add: rs)
  ultimately show ?thesis by (simp add: A_def)
qed

lemma fr_pages_insert_at:
  "fr_pages (insert_at i x rs) = {fr_start x..<fr_start x + fr_count x} \<union> fr_pages rs"
  by (auto simp: fr_pages_def)

text \<open>The list that \<open>pmm_freelist_insert\<close> installs.\<close>

lemma freelist_insert_ok:
  assumes "ranges_ok rs" "0 < c" "fr_pages rs \<inter> {st..<st + c} = {}"
    and "pos = length (takeWhile (\<lambda>r. fr_start r < st) rs)"
    and "freelist_merge_prev pos (insert_at pos \<lparr>fr_start = st, fr_count = c\<rparr> rs) = (pos2, rs2)"
  shows "ranges_ok (freelist_merge_next pos2 rs2) \<and>
    fr_pages (freelist_merge_next pos2 rs2) = fr_pages rs \<union> {st..<st + c} \<and>
    length (freelist_merge_next pos2 rs2) \<le> Suc (length rs)"
proof -
  define rs1 where "rs1 = insert_at pos \<lparr>fr_start = st, fr_count = c\<rparr> rs"
  have ok1: "ranges_ok rs1" using insert_sorted_ok [OF assms(1-3)] by (simp add: rs1_def assms(4))
  have pg1: "fr_pages rs1 = fr_pages rs \<union> {st..<st + c}"
    by (auto simp: rs1_def fr_pages_insert_at)
  have pos: "pos < length rs1"
    by (simp add: rs1_def assms(4) le_imp_less_Suc length_takeWhile_le)
  have "rs2 = rs1 \<or> (\<exists>p. rs2 = freelist_merge_next p rs1)"
    using assms(5) unfolding rs1_def [symmetric] merge_prev_eq [OF pos] by (auto split: if_splits)
  then have "ranges_ok rs2 \<and> fr_pages rs2 = fr_pages rs1 \<and> length rs2 \<le> length rs1"
    using merge_next_ok [OF ok1] ok1 by auto
  then show ?thesis
    using merge_next_ok [of rs2 pos2] pg1 by (auto simp: rs1_def)
qed

lemma freelist_index_Some:
  "freelist_index st c rs = Some i \<Longrightarrow>
   i < length rs \<and> fr_start (rs ! i) \<le> st \<and> st + c \<le> fr_start (rs ! i) + fr_count (rs ! i)"
  by (induction rs arbitrary: i) (auto split: if_splits)

lemma freelist_index_hd:
  "fr_start r \<le> st \<Longrightarrow> st + c \<le> fr_start r + fr_count r \<Longrightarrow> r \<in> set rs \<Longrightarrow>
   freelist_index st c rs \<noteq> None"
  by (induction rs) auto

text \<open>
  Cutting a range out of the list removes exactly its pages, unless the list is full and the
  tail has to be dropped.
\<close>

lemma freelist_cut_ok:
  assumes "ranges_ok rs" "0 < c" "freelist_index st c rs = Some i"
    and "rs' = freelist_cut i st c rs"
  shows "ranges_ok rs'" and "fr_pages rs' \<subseteq> fr_pages rs - {st..<st + c}"
    and "length rs \<le> PMM_MAX_FREE_RANGES \<Longrightarrow> length rs' \<le> PMM_MAX_FREE_RANGES"
    and "length rs < PMM_MAX_FREE_RANGES \<or> st = fr_start (rs ! i) \<Longrightarrow>
           fr_pages rs' = fr_pages rs - {st..<st + c}"
    and "{st..<st + c} \<subseteq> fr_pages rs"
proof -
  define A r B where "A = take i rs" and "r = rs ! i" and "B = drop (Suc i) rs"
  note i = freelist_index_Some [OF assms(3)]
  have rs: "rs = A @ r # B" and iA: "i = length A"
    using i by (simp_all add: A_def r_def B_def id_take_nth_drop)
  have r: "fr_start r \<le> st" "st + c \<le> fr_start r + fr_count r" using i by (simp_all add: r_def)
  have bA: "fr_start a + fr_count a \<le> fr_start r" if "a \<in> set A" for a
    using assms(1) that unfolding rs by (auto simp: ranges_ok_def sorted_wrt_append fr_before_def)
  have bB: "fr_start r + fr_count r \<le> fr_start b" if "b \<in> set B" for b
    using assms(1) that unfolding rs by (auto simp: ranges_ok_def sorted_wrt_append fr_before_def)
  define h t where "h = st - fr_start r" and "t = (fr_start r + fr_count r) - (st + c)"
  define H T where "H = r\<lparr>fr_count := h\<rparr>" and "T = \<lparr>fr_start = st + c, fr_count = t\<rparr>"
  have ins: "insert_at (Suc (length A)) T (A @ H # B) = A @ H # T # B"
    using insert_at_append [of "A @ [H]" T B] by simp
  have rem: "remove_at (length A) (A @ r # B) = A @ B" by simp
  have cut: "rs' = A @ (if h > 0 then [H] else []) @
      (if t > 0 \<and> (h = 0 \<or> length rs < PMM_MAX_FREE_RANGES) then [T] else []) @ B"
    unfolding assms(4) freelist_cut_def rs iA Let_def
    using ins rem by (auto simp: nth_append h_def [symmetric] t_def [symmetric] H_def T_def)
  have pA: "x < fr_start r" if "x \<in> fr_pages A" for x
    using that bA by (fastforce simp: fr_pages_def)
  have pB: "fr_start r + fr_count r \<le> x" if "x \<in> fr_pages B" for x
    using that bB by (fastforce simp: fr_pages_def)
  have sA: "ranges_ok A" "ranges_ok B"
    using assms(1) unfolding rs by (auto simp: ranges_ok_def sorted_wrt_append)
  have AB: "fr_before a b" if "a \<in> set A" "b \<in> set B" for a b
    using assms(1) that unfolding rs by (auto simp: ranges_ok_def sorted_wrt_append)
  show "ranges_ok rs'"
    using sA AB bA bB r assms(2) unfolding cut ranges_ok_def
    by (auto simp: sorted_wrt_append fr_before_def H_def T_def h_def t_def dest: bA bB)
  show sub: "fr_pages rs' \<subseteq> fr_pages rs - {st..<st + c}"
    using r assms(2) unfolding cut rs by (auto simp: H_def T_def h_def t_def dest: pA pB)
  show "length rs \<le> PMM_MAX_FREE_RANGES \<Longrightarrow> length rs' \<le> PMM_MAX_FREE_RANGES"
    unfolding cut by (auto simp: rs)
  show "{st..<st + c} \<subseteq> fr_pages rs" using r unfolding rs by auto
  assume full: "length rs < PMM_MAX_FREE_RANGES \<or> st = fr_start (rs ! i)"
  have "fr_pages rs - {st..<st + c} \<subseteq> fr_pages rs'"
    using full r unfolding cut r_def [symmetric]
    by (auto simp: rs H_def T_def h_def t_def)
  with sub show "fr_pages rs' = fr_pages rs - {st..<st + c}" by blast
qed

section \<open>The bitmap as a set\<close>

lemma bit_test_word: "(w::u32) AND push_bit k 1 \<noteq> 0 \<longleftrightarrow> k < 32 \<and> bit w k"
proof -
  have "w AND push_bit k 1 = of_bool (bit w k \<and> k < 32) * push_bit k 1"
    by (rule bit_eqI) (auto simp: bit_simps dest: bit_imp_le_length)
  then show ?thesis by (auto simp: push_bit_eq_mult dest: bit_imp_le_length)
qed

lemma test_iff:
  "pmm_bitmap_test s i \<longleftrightarrow> (i div 32 < bitmap_size s div 4 \<longrightarrow> bit (bitmap s (i div 32)) (i mod 32))"
  by (simp add: pmm_bitmap_test_def Let_def bit_test_word del: push_bit_of_1)

lemma div_mod_32_eq: "i div 32 = j div 32 \<Longrightarrow> i mod 32 = j mod 32 \<Longrightarrow> i = (j::nat)"
  by (metis div_mult_mod_eq)

lemma test_set [simp]: "pmm_bitmap_test (pmm_bitmap_set i s) j \<longleftrightarrow> j = i \<or> pmm_bitmap_test s j"
  by (auto simp: test_iff pmm_bitmap_set_def Let_def bit_simps dest: div_mod_32_eq)

lemma test_clear:
  "i div 32 < bitmap_size s div 4 \<Longrightarrow>
   pmm_bitmap_test (pmm_bitmap_clear i s) j \<longleftrightarrow> j \<noteq> i \<and> pmm_bitmap_test s j"
  by (auto simp: test_iff pmm_bitmap_clear_def Let_def bit_simps dest: div_mod_32_eq)

text \<open>What a field update leaves alone.\<close>

lemma test_upd [simp]:
  "pmm_bitmap_test (s\<lparr>free_pages := a\<rparr>) = pmm_bitmap_test s"
  "pmm_bitmap_test (s\<lparr>used_pages := a\<rparr>) = pmm_bitmap_test s"
  "pmm_bitmap_test (s\<lparr>total_pages := a\<rparr>) = pmm_bitmap_test s"
  "pmm_bitmap_test (s\<lparr>zones := z\<rparr>) = pmm_bitmap_test s"
  "pmm_bitmap_test (s\<lparr>pages := p\<rparr>) = pmm_bitmap_test s"
  "pmm_bitmap_test (s\<lparr>pages_count := a\<rparr>) = pmm_bitmap_test s"
  "pmm_bitmap_test (s\<lparr>usable_regions := r\<rparr>) = pmm_bitmap_test s"
  "pmm_bitmap_test (s\<lparr>reserved_regions := r\<rparr>) = pmm_bitmap_test s"
  "pmm_bitmap_test (s\<lparr>pmem := m\<rparr>) = pmm_bitmap_test s"
  "pmm_bitmap_test (s\<lparr>memory_oom_pmm := a\<rparr>) = pmm_bitmap_test s"
  by (simp_all add: fun_eq_iff pmm_bitmap_test_def)

lemma set_frame [simp]:
  "total_pages (pmm_bitmap_set i s) = total_pages s"
  "free_pages (pmm_bitmap_set i s) = free_pages s"
  "used_pages (pmm_bitmap_set i s) = used_pages s"
  "bitmap_size (pmm_bitmap_set i s) = bitmap_size s"
  "memory_start (pmm_bitmap_set i s) = memory_start s"
  "memory_end (pmm_bitmap_set i s) = memory_end s"
  "pages (pmm_bitmap_set i s) = pages s"
  "pages_count (pmm_bitmap_set i s) = pages_count s"
  "zones (pmm_bitmap_set i s) = zones s"
  "pmem (pmm_bitmap_set i s) = pmem s"
  by (simp_all add: pmm_bitmap_set_def Let_def)

lemma clear_frame [simp]:
  "total_pages (pmm_bitmap_clear i s) = total_pages s"
  "free_pages (pmm_bitmap_clear i s) = free_pages s"
  "used_pages (pmm_bitmap_clear i s) = used_pages s"
  "bitmap_size (pmm_bitmap_clear i s) = bitmap_size s"
  "memory_start (pmm_bitmap_clear i s) = memory_start s"
  "memory_end (pmm_bitmap_clear i s) = memory_end s"
  "pages (pmm_bitmap_clear i s) = pages s"
  "pages_count (pmm_bitmap_clear i s) = pages_count s"
  "zones (pmm_bitmap_clear i s) = zones s"
  "pmem (pmm_bitmap_clear i s) = pmem s"
  by (simp_all add: pmm_bitmap_clear_def Let_def)

text \<open>
  \<open>same_geom\<close>: the two states manage the same memory; \<open>same_bits\<close>: the bitmaps agree too.
\<close>

definition same_geom :: "'a pmm_state_scheme \<Rightarrow> 'a pmm_state_scheme \<Rightarrow> bool" where
  "same_geom s t \<longleftrightarrow> total_pages t = total_pages s \<and> memory_start t = memory_start s \<and>
     memory_end t = memory_end s \<and> bitmap_size t = bitmap_size s"

lemma same_geom_refl [simp]: "same_geom s s"
  by (simp add: same_geom_def)

lemma same_geom_trans [trans]: "same_geom s t \<Longrightarrow> same_geom t u \<Longrightarrow> same_geom s u"
  by (simp add: same_geom_def)

lemma same_geom_ok: "same_geom s t \<Longrightarrow> geom_ok t = geom_ok s"
  by (simp add: same_geom_def geom_ok_def)

lemma same_geom_index: "same_geom s t \<Longrightarrow> pmm_index_to_page t i = pmm_index_to_page s i"
  by (simp add: same_geom_def pmm_index_to_page_def)

lemma same_geom_to_index: "same_geom s t \<Longrightarrow> pmm_page_to_index t a = pmm_page_to_index s a"
  by (simp add: same_geom_def pmm_page_to_index_def)

lemma same_geom_zone: "same_geom s t \<Longrightarrow> page_zone t i = page_zone s i"
  by (simp add: page_zone_def same_geom_index)

lemma free_set_finite [simp]: "finite (free_set s)"
  by (simp add: free_set_def)

lemma free_set_card: "card (free_set s) \<le> total_pages s"
proof -
  have "card (free_set s) \<le> card {..<total_pages s}"
    by (rule card_mono) (auto simp: free_set_def)
  then show ?thesis by simp
qed

lemma geom_total: "geom_ok s \<Longrightarrow> total_pages s < 2 ^ 52"
  using unat_lt_64 [of "memory_end s"] by (simp add: geom_ok_def)

lemma geom_unat_page:
  assumes "geom_ok s" "i < total_pages s"
  shows "unat (pmm_index_to_page s i) = unat (memory_start s) + i * 4096"
proof -
  have "unat (memory_start s) + i * 4096 < 2 ^ 64"
    using assms unat_lt_64 [of "memory_end s"] by (simp add: geom_ok_def)
  then show ?thesis
    by (simp add: pmm_index_to_page_def unat_word_ariths unat_of_nat mod_add_right_eq)
qed

lemma geom_page:
  assumes "geom_ok s" "i < total_pages s"
  shows "page_aligned (pmm_index_to_page s i)" "pmm_index_to_page s i \<noteq> 0"
    "memory_start s \<le> pmm_index_to_page s i" "pmm_index_to_page s i < memory_end s"
    "pmm_page_to_index s (pmm_index_to_page s i) = i"
proof -
  note u = geom_unat_page [OF assms]
  have g: "unat (memory_end s) = unat (memory_start s) + total_pages s * 4096"
    "unat (memory_start s) mod 4096 = 0" "unat (memory_start s) \<noteq> 0"
    using assms(1) word_unat_eq_iff [of "memory_start s" 0]
    by (auto simp: geom_ok_def page_aligned_unat)
  show "page_aligned (pmm_index_to_page s i)" using u g(2) by (simp add: page_aligned_unat)
  show "pmm_index_to_page s i \<noteq> 0" using u g(3) by (auto simp del: unat_eq_0)
  show le: "memory_start s \<le> pmm_index_to_page s i" using u by (simp add: word_le_nat_alt)
  show "pmm_index_to_page s i < memory_end s" using u g(1) assms(2) by (simp add: word_less_nat_alt)
  have "unat (pmm_index_to_page s i - memory_start s) = i * 4096"
    using le u by (simp add: unat_sub)
  then show "pmm_page_to_index s (pmm_index_to_page s i) = i"
    using le by (auto simp: pmm_page_to_index_def unat_div dest: leD)
qed

lemma geom_index:
  assumes "geom_ok s" "memory_start s \<le> a" "a < memory_end s" "page_aligned a"
  shows "pmm_page_to_index s a < total_pages s" "pmm_index_to_page s (pmm_page_to_index s a) = a"
proof -
  obtain k where k: "unat a = unat (memory_start s) + k * 4096"
  proof -
    have "4096 dvd unat a - unat (memory_start s)"
      using assms by (auto simp: geom_ok_def page_aligned_unat intro!: dvd_diff_nat)
    then obtain k where "unat a - unat (memory_start s) = 4096 * k" by (elim dvdE)
    then show thesis using assms(2) that [of k] by (simp add: word_le_nat_alt)
  qed
  have "unat (a - memory_start s) = k * 4096" using assms(2) k by (simp add: unat_sub)
  then have i: "pmm_page_to_index s a = k"
    using assms(2) by (auto simp: pmm_page_to_index_def unat_div dest: leD)
  then show lt: "pmm_page_to_index s a < total_pages s"
    using assms(1,3) k by (simp add: geom_ok_def word_less_nat_alt)
  show "pmm_index_to_page s (pmm_page_to_index s a) = a"
    using geom_unat_page [OF assms(1) lt] k i by (simp add: word_unat_eq_iff)
qed

lemma geom_in_bitmap: "geom_ok s \<Longrightarrow> i < total_pages s \<Longrightarrow> i div 32 < bitmap_size s div 4"
  by (simp add: geom_ok_def less_mult_imp_div_less)

section \<open>Taking a page and giving one back\<close>

text \<open>
  The effect of an operation on the allocator, as far as the invariant sees it: the geometry is
  kept, the set of free pages becomes \<open>F\<close>, and the two counters follow.
\<close>

definition moves_to :: "'a pmm_state_scheme \<Rightarrow> nat set \<Rightarrow> 'a pmm_state_scheme \<Rightarrow> bool" where
  "moves_to s F t \<longleftrightarrow> same_geom s t \<and> free_set t = F \<and> (counts_ok s \<longrightarrow> counts_ok t)"

lemma list_ok_mono:
  assumes "list_ok s z rs" "same_geom s t" "fr_pages rs \<subseteq> free_set t"
  shows "list_ok t z rs"
  using assms by (auto simp: list_ok_def same_geom_zone)

lemma list_ok_zones [simp]: "list_ok (s\<lparr>zones := zs\<rparr>) z rs = list_ok s z rs"
  by (simp add: list_ok_def free_set_def page_zone_def pmm_index_to_page_def)

lemma take_page_counts:
  assumes "counts_ok s" "geom_ok s" "i \<in> free_set s" "free_set t = free_set s - {i}"
    and "free_pages t = dec64 (free_pages s)" "used_pages t = inc64 (used_pages s)"
    and "total_pages t = total_pages s"
  shows "counts_ok t"
proof -
  have c: "0 < card (free_set s)" using assms(3) by (auto simp: card_gt_0_iff)
  have T: "card (free_set s) \<le> total_pages s" "total_pages s < 2 ^ 52"
    using free_set_card geom_total [OF assms(2)] by auto
  have "dec64 (card (free_set s)) = card (free_set s) - 1"
    using c T by (intro dec64_pos) auto
  moreover have "inc64 (total_pages s - card (free_set s)) = total_pages s - card (free_set s) + 1"
    using T by (intro inc64_less) auto
  ultimately show ?thesis
    using assms c T by (auto simp: counts_ok_def)
qed

lemma put_page_counts:
  assumes "counts_ok s" "geom_ok s" "i < total_pages s" "i \<notin> free_set s"
    and "free_set t = insert i (free_set s)"
    and "free_pages t = inc64 (free_pages s)" "used_pages t = dec64 (used_pages s)"
    and "total_pages t = total_pages s"
  shows "counts_ok t"
proof -
  have "card (insert i (free_set s)) \<le> card {..<total_pages s}"
    using assms(3) by (intro card_mono) (auto simp: free_set_def)
  then have c: "card (free_set s) < total_pages s" using assms(4) by simp
  have T: "total_pages s < 2 ^ 52" using geom_total [OF assms(2)] .
  have "inc64 (card (free_set s)) = card (free_set s) + 1"
    using c T by (intro inc64_less) auto
  moreover have "dec64 (total_pages s - card (free_set s)) = total_pages s - card (free_set s) - 1"
    using c T by (intro dec64_pos) auto
  ultimately show ?thesis
    using assms c T by (auto simp: counts_ok_def)
qed

lemma index_to_page_upd [simp]:
  "pmm_index_to_page (s\<lparr>zones := z\<rparr>) = pmm_index_to_page s"
  "pmm_index_to_page (s\<lparr>free_pages := n\<rparr>) = pmm_index_to_page s"
  "pmm_index_to_page (s\<lparr>used_pages := n\<rparr>) = pmm_index_to_page s"
  "pmm_index_to_page (pmm_bitmap_set i s) = pmm_index_to_page s"
  by (simp_all add: fun_eq_iff pmm_index_to_page_def)

lemma freelist_remove_frame:
  "pmm_freelist_remove z st c s = (ok, t) \<Longrightarrow> \<exists>zs. t = s\<lparr>zones := zs\<rparr>"
proof (cases "c = 0")
  case False
  then show "pmm_freelist_remove z st c s = (ok, t) \<Longrightarrow> ?thesis"
    by (cases "freelist_index st c (free_ranges (zones s z))")
      (auto simp: pmm_freelist_remove_def Let_def upd_zone_def intro: exI [of _ "zones s"])
qed (auto simp: pmm_freelist_remove_def intro: exI [of _ "zones s"])

lemma freelist_remove_ok:
  assumes "lists_ok s" "z < PMM_ZONE_COUNT" "pmm_freelist_remove z st c s = (True, t)"
  shows "{st..<st + c} \<subseteq> {i \<in> free_set s. page_zone s i = z}" "0 < c"
    "\<exists>zs. t = s\<lparr>zones := zs\<rparr> \<and> (\<forall>y < PMM_ZONE_COUNT. list_ok s y (free_ranges (zs y)) \<and>
       fr_pages (free_ranges (zs y)) \<inter> {st..<st + c} = {})"
proof -
  let ?rs = "free_ranges (zones s z)"
  obtain i where c: "0 < c" and i: "freelist_index st c ?rs = Some i"
    and t: "t = s\<lparr>zones := (zones s)(z := (zones s z)\<lparr>free_ranges := freelist_cut i st c ?rs\<rparr>)\<rparr>"
    using assms(3)
    by (auto simp: pmm_freelist_remove_def Let_def upd_zone_def split: if_splits option.splits)
  have ok: "list_ok s y (free_ranges (zones s y))" if "y < PMM_ZONE_COUNT" for y
    using assms(1) that by (simp add: lists_ok_def)
  then have rok: "ranges_ok ?rs" and len: "length ?rs \<le> PMM_MAX_FREE_RANGES"
    using assms(2) by (auto simp: list_ok_def)
  note cut = freelist_cut_ok [OF rok c i refl]
  show "0 < c" by fact
  show sub: "{st..<st + c} \<subseteq> {i \<in> free_set s. page_zone s i = z}"
    using cut(5) ok [OF assms(2)] by (auto simp: list_ok_def)
  have "list_ok s z (freelist_cut i st c ?rs)"
    using cut(1,2) cut(3) [OF len] ok [OF assms(2)] by (auto simp: list_ok_def)
  moreover have "fr_pages (free_ranges (zones s y)) \<inter> {st..<st + c} = {}"
    if "y < PMM_ZONE_COUNT" "y \<noteq> z" for y
    using ok [OF that(1)] sub that(2) by (fastforce simp: list_ok_def)
  ultimately have "list_ok s y (free_ranges (zones t y)) \<and>
      fr_pages (free_ranges (zones t y)) \<inter> {st..<st + c} = {}" if "y < PMM_ZONE_COUNT" for y
    using that ok [of y] cut(2) unfolding t by (cases "y = z") auto
  moreover have "t = s\<lparr>zones := zones t\<rparr>" unfolding t by simp
  ultimately show "\<exists>zs. t = s\<lparr>zones := zs\<rparr> \<and> (\<forall>y < PMM_ZONE_COUNT.
      list_ok s y (free_ranges (zs y)) \<and> fr_pages (free_ranges (zs y)) \<inter> {st..<st + c} = {})"
    by blast
qed

lemma free_ranges_upd_zone:
  "(\<And>zi. free_ranges (f zi) = free_ranges zi) \<Longrightarrow>
   free_ranges (zones (upd_zone z f s) y) = free_ranges (zones s y)"
  by (simp add: upd_zone_def)

lemma more_upd [simp]:
  "pmm_state.more (pmm_bitmap_set i s) = pmm_state.more s"
  "pmm_state.more (pmm_bitmap_clear i s) = pmm_state.more s"
  "pmm_state.more (upd_zone z f s) = pmm_state.more s"
  "pmm_state.more (memory_oom_inc_pmm s) = pmm_state.more s"
  by (simp_all add: pmm_bitmap_set_def pmm_bitmap_clear_def upd_zone_def memory_oom_inc_pmm_def Let_def)

lemma alloc_bookkeeping_ok:
  assumes "alloc_bookkeeping z i s = (p, t)"
  shows "p = pmm_index_to_page s i" "same_geom s t" "free_set t = free_set s - {i}"
    "free_pages t = dec64 (free_pages s)" "used_pages t = inc64 (used_pages s)"
    "free_ranges (zones t y) = free_ranges (zones s y)"
    "pmem t = mem_set (pmem s) p 0 4096" "pmm_state.more t = pmm_state.more s"
  using assms
  by (auto simp: alloc_bookkeeping_def Let_def pmm_zero_page_def same_geom_def free_set_def
      upd_zone_def split: if_splits)

lemma bookkeeping_inv:
  assumes "alloc_bookkeeping z i (s\<lparr>zones := zs\<rparr>) = (p, t)" "pmm_inv s" "i \<in> free_set s"
    and "\<forall>y < PMM_ZONE_COUNT. list_ok s y (free_ranges (zs y)) \<and> i \<notin> fr_pages (free_ranges (zs y))"
  shows "pmm_inv t" "same_geom s t" "free_set t = free_set s - {i}" "p = pmm_index_to_page s i"
    "pmem t = mem_set (pmem s) p 0 4096" "pmm_state.more t = pmm_state.more s"
proof -
  note b = alloc_bookkeeping_ok [OF assms(1)]
  show g: "same_geom s t" using b(2) by (simp add: same_geom_def)
  show f: "free_set t = free_set s - {i}" using b(3) by (simp add: free_set_def)
  show "p = pmm_index_to_page s i" using b(1) by simp
  show "pmem t = mem_set (pmem s) p 0 4096" "pmm_state.more t = pmm_state.more s"
    using b(7,8) by simp_all
  have "counts_ok t"
    using assms(2,3) b(4,5) f g
    by (intro take_page_counts [of s i t]) (auto simp: pmm_inv_def same_geom_def)
  moreover have "list_ok t y (free_ranges (zones t y))" if "y < PMM_ZONE_COUNT" for y
    using assms(4) that b(6) [of y] f g
    by (auto simp: list_ok_def same_geom_zone)
  ultimately show "pmm_inv t"
    using assms(2) g by (simp add: pmm_inv_def lists_ok_def same_geom_ok)
qed

lemma find_upt_None: "find P [0..<n] = None \<longleftrightarrow> (\<forall>i < n. \<not> P i)"
  by (auto simp: find_None_iff)

lemma find_upt_Some: "find P [0..<n] = Some i \<Longrightarrow> i < n \<and> P i"
  by (auto simp: find_Some_iff)

lemma alloc_page_in_zone_spec:
  assumes "pmm_inv s" "z < PMM_ZONE_COUNT" "pmm_alloc_page_in_zone z s = (p, t)"
  shows "(p = 0 \<and> t = memory_oom_inc_pmm s \<and> (\<forall>i \<in> free_set s. page_zone s i \<noteq> z)) \<or>
    (\<exists>i \<in> free_set s. page_zone s i = z \<and> p = pmm_index_to_page s i \<and> pmm_inv t \<and>
       same_geom s t \<and> free_set t = free_set s - {i} \<and> pmem t = mem_set (pmem s) p 0 4096 \<and>
       pmm_state.more t = pmm_state.more s)"
proof -
  have L: "lists_ok s" and C: "free_pages s = card (free_set s)"
    using assms(1) by (simp_all add: pmm_inv_def counts_ok_def)
  let ?P = "\<lambda>i. \<not> pmm_bitmap_test s i \<and> pmm_zone_for_addr (pmm_index_to_page s i) = z"
  show ?thesis
  proof (cases "free_pages s = 0")
    case True
    then have "free_set s = {}" using C by simp
    with True assms(3) show ?thesis by (simp add: pmm_alloc_page_in_zone_def)
  next
    case False
    show ?thesis
    proof (cases "free_ranges (zones s z)")
      case Nil
      show ?thesis
      proof (cases "find ?P [0..<total_pages s]")
        case None
        then have "p = 0 \<and> t = memory_oom_inc_pmm s"
          using assms(2,3) False Nil by (simp add: pmm_alloc_page_in_zone_def)
        with None show ?thesis by (auto simp: find_upt_None free_set_def page_zone_def)
      next
        case (Some i)
        then have i: "i \<in> free_set s" "page_zone s i = z"
          using find_upt_Some [OF Some] by (auto simp: free_set_def page_zone_def)
        have b: "alloc_bookkeeping z i (s\<lparr>zones := zones s\<rparr>) = (p, t)"
          using assms(2,3) False Nil Some by (simp add: pmm_alloc_page_in_zone_def)
        have "\<forall>y < PMM_ZONE_COUNT. list_ok s y (free_ranges (zones s y)) \<and>
            i \<notin> fr_pages (free_ranges (zones s y))"
          using L i Nil by (auto simp: lists_ok_def list_ok_def)
        from bookkeeping_inv [OF b assms(1) i(1) this] i show ?thesis by blast
      qed
    next
      case (Cons r rs)
      let ?i = "fr_start r"
      have "0 < fr_count r"
        using L assms(2) Cons by (auto simp: lists_ok_def list_ok_def ranges_ok_def)
      then have "freelist_index ?i 1 (free_ranges (zones s z)) = Some 0"
        by (simp add: Cons)
      then obtain u where rm: "pmm_freelist_remove z ?i 1 s = (True, u)"
        by (simp add: pmm_freelist_remove_def)
      then have b: "alloc_bookkeeping z ?i u = (p, t)"
        using assms(2,3) False Cons by (simp add: pmm_alloc_page_in_zone_def)
      obtain zs where u: "u = s\<lparr>zones := zs\<rparr>" and zs: "\<forall>y < PMM_ZONE_COUNT.
          list_ok s y (free_ranges (zs y)) \<and> ?i \<notin> fr_pages (free_ranges (zs y))"
        using freelist_remove_ok(3) [OF L assms(2) rm] by fastforce
      have i: "?i \<in> free_set s" "page_zone s ?i = z"
        using freelist_remove_ok(1) [OF L assms(2) rm] by auto
      from bookkeeping_inv [OF b [unfolded u] assms(1) i(1) zs] i show ?thesis by blast
    qed
  qed
qed

lemma page_zone_cases: "page_zone s i = PMM_ZONE_NORMAL \<or> page_zone s i = PMM_ZONE_LOW"
  by (simp add: page_zone_def pmm_zone_for_addr_def)

lemma oom_inc_pmm_inv [simp]:
  "pmm_inv (memory_oom_inc_pmm s) = pmm_inv s"
  "free_set (memory_oom_inc_pmm s) = free_set s"
  "page_zone (memory_oom_inc_pmm s) = page_zone s"
  "pmm_index_to_page (memory_oom_inc_pmm s) = pmm_index_to_page s"
  "pmem (memory_oom_inc_pmm s) = pmem s"
  "same_geom (memory_oom_inc_pmm s) t = same_geom s t"
  "same_geom t (memory_oom_inc_pmm s) = same_geom t s"
  by (auto simp: memory_oom_inc_pmm_def pmm_inv_def geom_ok_def counts_ok_def lists_ok_def
      list_ok_def free_set_def page_zone_def pmm_index_to_page_def same_geom_def fun_eq_iff)

lemma alloc_page_spec:
  assumes "pmm_inv s" "pmm_alloc_page s = (p, t)"
  shows "(p = 0 \<and> free_set s = {} \<and> pmm_inv t \<and> free_set t = {} \<and> same_geom s t \<and>
       pmem t = pmem s \<and> pmm_state.more t = pmm_state.more s) \<or>
    (\<exists>i \<in> free_set s. p = pmm_index_to_page s i \<and> pmm_inv t \<and>
       same_geom s t \<and> free_set t = free_set s - {i} \<and> pmem t = mem_set (pmem s) p 0 4096 \<and>
       pmm_state.more t = pmm_state.more s)"
proof -
  obtain q u where q: "pmm_alloc_page_in_zone PMM_ZONE_NORMAL s = (q, u)" by fastforce
  have nz: "pmm_index_to_page s i \<noteq> 0" if "i \<in> free_set s" for i
    using assms(1) that geom_page(2) by (auto simp: pmm_inv_def free_set_def)
  show ?thesis
  proof (cases "q = 0")
    case True
    then have u: "u = memory_oom_inc_pmm s"
      and normal: "\<forall>i \<in> free_set s. page_zone s i \<noteq> PMM_ZONE_NORMAL"
      using alloc_page_in_zone_spec [OF assms(1) _ q] nz by auto
    have a: "pmm_alloc_page_in_zone PMM_ZONE_LOW u = (p, t)"
      using assms(2) q True by (simp add: pmm_alloc_page_def)
    have "free_set s = {}" if "\<forall>i \<in> free_set s. page_zone s i \<noteq> PMM_ZONE_LOW"
      using that normal page_zone_cases [of s] by blast
    then show ?thesis
      using alloc_page_in_zone_spec [OF _ _ a] assms(1) unfolding u by auto
  next
    case False
    then have "p = q" "t = u" using assms(2) q by (simp_all add: pmm_alloc_page_def)
    then show ?thesis using alloc_page_in_zone_spec [OF assms(1) _ q] False by auto
  qed
qed

lemma zones_self [simp]: "\<exists>zs. s = s\<lparr>zones := zs\<rparr>"
  by (rule exI [of _ "zones s"]) simp

lemma freelist_append_frame: "\<exists>zs. pmm_freelist_append z st c s = s\<lparr>zones := zs\<rparr>"
  by (auto simp: pmm_freelist_append_def upd_zone_def)

lemma freelist_insert_frame: "\<exists>zs. pmm_freelist_insert z st c s = s\<lparr>zones := zs\<rparr>"
  using freelist_append_frame
  by (auto simp: pmm_freelist_insert_def Let_def upd_zone_def split: prod.splits)

text \<open>The pages of a range inserted into a zone list were not in it before.\<close>

lemma freelist_insert_lists_ok:
  assumes "lists_ok s" "z < PMM_ZONE_COUNT" "0 < c"
    and "\<forall>i \<in> {st..<st + c}. i \<in> free_set s \<and> page_zone s i = z"
    and "\<forall>y < PMM_ZONE_COUNT. fr_pages (free_ranges (zones s y)) \<inter> {st..<st + c} = {}"
  shows "lists_ok (pmm_freelist_insert z st c s)"
proof -
  let ?rs = "free_ranges (zones s z)"
  define pos where "pos = length (takeWhile (\<lambda>r. fr_start r < st) ?rs)"
  obtain pos2 rs2 where m:
    "freelist_merge_prev pos (insert_at pos \<lparr>fr_start = st, fr_count = c\<rparr> ?rs) = (pos2, rs2)"
    by fastforce
  have ok: "list_ok s y (free_ranges (zones s y))" if "y < PMM_ZONE_COUNT" for y
    using assms(1) that by (simp add: lists_ok_def)
  have rok: "ranges_ok ?rs" using ok [OF assms(2)] by (simp add: list_ok_def)
  have disj: "fr_pages ?rs \<inter> {st..<st + c} = {}" using assms(2,5) by blast
  note ins = freelist_insert_ok [OF rok assms(3) disj pos_def m]
  have upd: "lists_ok (upd_zone z (\<lambda>zi. zi\<lparr>free_ranges := l\<rparr>) s)" if "list_ok s z l" for l
    using that ok by (simp add: lists_ok_def upd_zone_def)
  show ?thesis
  proof (cases "?rs = []")
    case True
    then have "pmm_freelist_insert z st c s =
        upd_zone z (\<lambda>zi. zi\<lparr>free_ranges := [\<lparr>fr_start = st, fr_count = c\<rparr>]\<rparr>) s"
      using assms(3) by (simp add: pmm_freelist_insert_def pmm_freelist_append_def upd_zone_def)
    then show ?thesis
      using assms(3,4) by (auto intro!: upd simp: list_ok_def ranges_ok_def)
  next
    case nonempty: False
    show ?thesis
    proof (cases "length ?rs \<ge> PMM_MAX_FREE_RANGES")
      case True
      then show ?thesis
        using assms(1,3) nonempty by (simp add: pmm_freelist_insert_def)
    next
      case False
      have "pmm_freelist_insert z st c s =
          upd_zone z (\<lambda>zi. zi\<lparr>free_ranges := freelist_merge_next pos2 rs2\<rparr>) s"
        using assms(3) nonempty False m by (simp add: pmm_freelist_insert_def pos_def)
      then show ?thesis
        using ins ok [OF assms(2)] assms(4) False by (auto intro!: upd simp: list_ok_def)
    qed
  qed
qed

lemma free_page_spec:
  assumes "pmm_inv s" "memory_start s \<le> p" "p < memory_end s" "page_aligned p"
    and "i = pmm_page_to_index s p"
  shows "pmm_inv (pmm_free_page p s)" "free_set (pmm_free_page p s) = insert i (free_set s)"
    "same_geom s (pmm_free_page p s)" "pmem (pmm_free_page p s) = pmem s"
    "pmm_state.more (pmm_free_page p s) = pmm_state.more s"
proof -
  have g: "geom_ok s" using assms(1) by (simp add: pmm_inv_def)
  have i: "i < total_pages s" "pmm_index_to_page s i = p" "i div 32 < bitmap_size s div 4"
    using geom_index [OF g assms(2-4)] geom_in_bitmap [OF g] by (simp_all add: assms(5))
  have guards: "\<not> (p < memory_start s \<or> p \<ge> memory_end s)" "p AND (PAGE_SIZE - 1) = 0"
    using assms(2-4) by (auto simp: page_aligned_def)
  have "pmm_inv (pmm_free_page p s) \<and> free_set (pmm_free_page p s) = insert i (free_set s) \<and>
    same_geom s (pmm_free_page p s) \<and> pmem (pmm_free_page p s) = pmem s \<and>
    pmm_state.more (pmm_free_page p s) = pmm_state.more s"
  proof (cases "pmm_bitmap_test s i")
    case False
    then have "pmm_free_page p s = s" using guards by (simp add: pmm_free_page_def assms(5))
    moreover have "i \<in> free_set s" using False i(1) by (simp add: free_set_def)
    ultimately show ?thesis using assms(1) by auto
  next
    case True
    let ?z = "pmm_zone_for_addr p"
    define u where "u = (let s = pmm_bitmap_clear i s;
        s = s\<lparr>free_pages := inc64 (free_pages s), used_pages := dec64 (used_pages s)\<rparr>
      in if i < pages_count s then
           (let s = s\<lparr>pages := (pages s)(i := (pages s i)\<lparr>pd_state := PMM_PAGE_FREE\<rparr>)\<rparr>
            in upd_zone ?z (\<lambda>zi. zi\<lparr>z_free_pages := inc64 (z_free_pages zi),
                  z_used_pages := (if z_used_pages zi > 0
                     then dec64 (z_used_pages zi) else z_used_pages zi)\<rparr>) s)
         else s)"
    have step: "pmm_free_page p s = pmm_freelist_insert ?z i 1 u"
      using guards True unfolding pmm_free_page_def assms(5) [symmetric] u_def Let_def
      by (simp split: if_splits)
    have u: "same_geom s u" "free_pages u = inc64 (free_pages s)"
      "used_pages u = dec64 (used_pages s)" "pmem u = pmem s"
      "pmm_state.more u = pmm_state.more s"
      "\<And>y. free_ranges (zones u y) = free_ranges (zones s y)"
      by (auto simp: u_def Let_def upd_zone_def same_geom_def)
    have f: "free_set u = insert i (free_set s)"
      using i(1,3) by (auto simp: u_def Let_def upd_zone_def free_set_def test_clear)
    have nf: "i \<notin> free_set s" using True by (simp add: free_set_def)
    have "counts_ok u"
      using assms(1) u f nf i(1)
      by (intro put_page_counts [of s i u]) (auto simp: pmm_inv_def same_geom_def)
    moreover have Lu: "lists_ok u"
      using assms(1) u(6) f u(1)
      by (auto simp: pmm_inv_def lists_ok_def intro!: list_ok_mono [of s _ _ u])
        (auto simp: list_ok_def)
    moreover have "lists_ok (pmm_freelist_insert ?z i 1 u)"
    proof (rule freelist_insert_lists_ok [OF Lu])
      show "?z < PMM_ZONE_COUNT" by (simp add: pmm_zone_for_addr_def)
      show "\<forall>j \<in> {i..<i + 1}. j \<in> free_set u \<and> page_zone u j = ?z"
        using f i(2) same_geom_index [OF u(1)] by (simp add: page_zone_def)
      show "\<forall>y < PMM_ZONE_COUNT. fr_pages (free_ranges (zones u y)) \<inter> {i..<i + 1} = {}"
        using assms(1) nf by (auto simp: u(6) pmm_inv_def lists_ok_def list_ok_def)
    qed simp
    moreover obtain zs where "pmm_freelist_insert ?z i 1 u = u\<lparr>zones := zs\<rparr>"
      using freelist_insert_frame by blast
    ultimately show ?thesis
      unfolding step using u f g
      by (simp add: pmm_inv_def counts_ok_def free_set_def same_geom_def geom_ok_def)
  qed
  then show "pmm_inv (pmm_free_page p s)" "free_set (pmm_free_page p s) = insert i (free_set s)"
    "same_geom s (pmm_free_page p s)" "pmem (pmm_free_page p s) = pmem s"
    "pmm_state.more (pmm_free_page p s) = pmm_state.more s" by blast+
qed

section \<open>Rebuilding the free lists\<close>

text \<open>
  \<open>lists_upto s b\<close>: the zone lists are well formed and mention only pages below \<open>b\<close>.
  \<open>covered s i\<close>: page \<open>i\<close> is in the list of its zone, or that list is full.
\<close>

definition lists_upto :: "'a pmm_state_scheme \<Rightarrow> nat \<Rightarrow> bool" where
  "lists_upto s b \<longleftrightarrow> (\<forall>z < PMM_ZONE_COUNT. list_ok s z (free_ranges (zones s z)) \<and>
     (\<forall>i \<in> fr_pages (free_ranges (zones s z)). i < b))"

definition covered :: "'a pmm_state_scheme \<Rightarrow> nat \<Rightarrow> bool" where
  "covered s i \<longleftrightarrow> i \<in> fr_pages (free_ranges (zones s (page_zone s i))) \<or>
     PMM_MAX_FREE_RANGES \<le> length (free_ranges (zones s (page_zone s i)))"

lemma page_zone_zones [simp]: "page_zone (s\<lparr>zones := zs\<rparr>) = page_zone s"
  by (simp add: fun_eq_iff page_zone_def)

lemma free_set_zones [simp]: "free_set (s\<lparr>zones := zs\<rparr>) = free_set s"
  by (simp add: free_set_def)

lemma lists_upto_mono: "lists_upto s a \<Longrightarrow> a \<le> b \<Longrightarrow> lists_upto s b"
  unfolding lists_upto_def by (meson less_le_trans)

lemma append_ok:
  assumes "lists_upto s st" "z < PMM_ZONE_COUNT" "0 < c"
    and "\<forall>i \<in> {st..<st + c}. i \<in> free_set s \<and> page_zone s i = z"
  shows "lists_upto (pmm_freelist_append z st c s) (st + c)"
    "\<forall>i \<in> {st..<st + c}. covered (pmm_freelist_append z st c s) i"
    "covered s j \<Longrightarrow> covered (pmm_freelist_append z st c s) j"
proof -
  let ?r = "\<lparr>fr_start = st, fr_count = c\<rparr>" and ?rs = "free_ranges (zones s z)"
  have ok: "list_ok s y (free_ranges (zones s y))" "\<forall>i \<in> fr_pages (free_ranges (zones s y)). i < st"
    if "y < PMM_ZONE_COUNT" for y
    using assms(1) that by (auto simp: lists_upto_def)
  have ends: "fr_start r + fr_count r \<le> st" if "r \<in> set ?rs" for r
  proof -
    have "0 < fr_count r" using ok(1) [OF assms(2)] that by (auto simp: list_ok_def ranges_ok_def)
    then have "fr_start r + fr_count r - 1 \<in> fr_pages ?rs"
      using that by (auto simp: fr_pages_def intro!: bexI [of _ r])
    then show ?thesis using ok(2) [OF assms(2)] by fastforce
  qed
  have new: "list_ok s z (?rs @ [?r])" if "length ?rs < PMM_MAX_FREE_RANGES"
    using ok(1) [OF assms(2)] that ends assms(3,4)
    by (auto simp: list_ok_def ranges_ok_def sorted_wrt_append fr_before_def)
  let ?t = "pmm_freelist_append z st c s"
  have t: "?t = (if length ?rs \<ge> PMM_MAX_FREE_RANGES then s
      else s\<lparr>zones := (zones s)(z := (zones s z)\<lparr>free_ranges := ?rs @ [?r]\<rparr>)\<rparr>)"
    using assms(3) by (simp add: pmm_freelist_append_def upd_zone_def)
  have "list_ok ?t y (free_ranges (zones ?t y)) \<and>
      (\<forall>i \<in> fr_pages (free_ranges (zones ?t y)). i < st + c)" if "y < PMM_ZONE_COUNT" for y
    using ok [OF that] new unfolding t by (cases "y = z") auto
  then show "lists_upto ?t (st + c)" by (simp add: lists_upto_def)
  show "\<forall>i \<in> {st..<st + c}. covered ?t i"
    using assms(4) unfolding t covered_def by auto
  show "covered ?t j" if "covered s j"
    using that unfolding t covered_def by auto
qed

definition rebuild_inv :: "'a pmm_state_scheme \<Rightarrow> nat \<Rightarrow> pmm_run \<times> 'a pmm_state_scheme \<Rightarrow> bool" where
  "rebuild_inv s0 k rs \<longleftrightarrow> (let (run, s) = rs in
     (\<exists>zs. s = s0\<lparr>zones := zs\<rparr>) \<and>
     (if run_count run = 0 then lists_upto s k \<and> (\<forall>i < k. i \<in> free_set s0 \<longrightarrow> covered s i)
      else lists_upto s (run_start run) \<and> run_start run + run_count run = k \<and>
        run_zone run < PMM_ZONE_COUNT \<and>
        (\<forall>i \<in> {run_start run..<k}. i \<in> free_set s0 \<and> page_zone s0 i = run_zone run) \<and>
        (\<forall>i < run_start run. i \<in> free_set s0 \<longrightarrow> covered s i)))"

lemma append_run_inv:
  assumes "rebuild_inv s0 k (run, s)" "run_count run \<noteq> 0"
    and "t = pmm_freelist_append (run_zone run) (run_start run) (run_count run) s"
  shows "(\<exists>zs. t = s0\<lparr>zones := zs\<rparr>) \<and> lists_upto t k \<and> (\<forall>i < k. i \<in> free_set s0 \<longrightarrow> covered t i)"
proof -
  let ?st = "run_start run" and ?c = "run_count run"
  obtain zs where s: "s = s0\<lparr>zones := zs\<rparr>" and up: "lists_upto s ?st" and k: "?st + ?c = k"
    and z: "run_zone run < PMM_ZONE_COUNT"
    and run: "\<forall>i \<in> {?st..<k}. i \<in> free_set s0 \<and> page_zone s0 i = run_zone run"
    and cov: "\<forall>i < ?st. i \<in> free_set s0 \<longrightarrow> covered s i"
    using assms(1,2) by (auto simp: rebuild_inv_def)
  have run': "\<forall>i \<in> {?st..<?st + ?c}. i \<in> free_set s \<and> page_zone s i = run_zone run"
    using run k by (simp add: s)
  note a = append_ok [OF up z _ run'] assms(2)
  have "covered t i" if "i < k" "i \<in> free_set s0" for i
    using a that cov k unfolding assms(3) by (cases "i < ?st") auto
  moreover have "\<exists>zs. t = s0\<lparr>zones := zs\<rparr>"
    using freelist_append_frame [of "run_zone run" ?st ?c s] by (auto simp: assms(3) s)
  moreover have "lists_upto t k" using a k by (simp add: assms(3))
  ultimately show ?thesis by blast
qed

lemma rebuild_step_inv:
  assumes "rebuild_inv s0 k (run, s)" "k < total_pages s0"
  shows "rebuild_inv s0 (Suc k) (rebuild_step k (run, s))"
proof -
  have t: "pmm_bitmap_test s k = (k \<notin> free_set s0)" "page_zone s k = page_zone s0 k"
    using assms by (auto simp: rebuild_inv_def free_set_def)
  have zl: "page_zone s0 k < PMM_ZONE_COUNT" using page_zone_cases [of s0 k] by auto
  have zk: "pmm_zone_for_addr (pmm_index_to_page s k) = page_zone s0 k"
    using t(2) by (simp add: page_zone_def)
  show ?thesis
  proof (cases "run_count run = 0")
    case True
    then have r: "\<exists>zs. s = s0\<lparr>zones := zs\<rparr>" "lists_upto s k"
      "\<forall>i < k. i \<in> free_set s0 \<longrightarrow> covered s i"
      using assms(1) by (auto simp: rebuild_inv_def)
    then show ?thesis
      using True zl lists_upto_mono [of s k "Suc k"]
      by (auto simp: rebuild_step_def rebuild_inv_def t zk less_Suc_eq)
  next
    case False
    define u where "u = pmm_freelist_append (run_zone run) (run_start run) (run_count run) s"
    note app = append_run_inv [OF assms(1) False u_def]
    have k: "run_start run + run_count run = k"
      using assms(1) False by (auto simp: rebuild_inv_def)
    show ?thesis
    proof (cases "k \<in> free_set s0 \<and> page_zone s0 k = run_zone run")
      case True
      then show ?thesis
        using False assms(1) k by (auto simp: rebuild_step_def rebuild_inv_def t zk less_Suc_eq)
    next
      case other: False
      then show ?thesis
        using False app zl k lists_upto_mono [of u k "Suc k"]
        by (auto simp: rebuild_step_def rebuild_inv_def t zk less_Suc_eq u_def [symmetric])
    qed
  qed
qed

lemma rebuild_fold_inv:
  "rebuild_inv s0 0 rs \<Longrightarrow> n \<le> total_pages s0 \<Longrightarrow> rebuild_inv s0 n (fold rebuild_step [0..<n] rs)"
proof (induction n)
  case (Suc n)
  then have "rebuild_inv s0 n (fold rebuild_step [0..<n] rs)" by simp
  then show ?case
    using rebuild_step_inv [of s0 n "fst (fold rebuild_step [0..<n] rs)"
        "snd (fold rebuild_step [0..<n] rs)"] Suc.prems by simp
qed simp

lemma freelist_clear_eq:
  "pmm_freelist_clear s = s\<lparr>zones := (\<lambda>z. if z < PMM_ZONE_COUNT
     then (zones s z)\<lparr>free_ranges := []\<rparr> else zones s z)\<rparr>"
proof -
  have "[0..<3] = [0, 1, 2::nat]" by (simp add: upt_conv_Cons)
  then have "pmm_freelist_clear s = s\<lparr>zones := (zones s)
      (0 := (zones s 0)\<lparr>free_ranges := []\<rparr>, 1 := (zones s 1)\<lparr>free_ranges := []\<rparr>,
       2 := (zones s 2)\<lparr>free_ranges := []\<rparr>)\<rparr>"
    by (simp add: pmm_freelist_clear_def upd_zone_def)
  moreover have "(zones s)
      (0 := (zones s 0)\<lparr>free_ranges := []\<rparr>, 1 := (zones s 1)\<lparr>free_ranges := []\<rparr>,
       2 := (zones s 2)\<lparr>free_ranges := []\<rparr>) = (\<lambda>z. if z < 3
     then (zones s z)\<lparr>free_ranges := []\<rparr> else zones s z)"
    by (auto simp: fun_eq_iff less_Suc_eq numeral_eq_Suc)
  ultimately show ?thesis by simp
qed

lemma rebuild_ok:
  "\<exists>zs. pmm_rebuild_free_lists s = s\<lparr>zones := zs\<rparr>"
  "lists_ok (pmm_rebuild_free_lists s)"
  "\<forall>i \<in> free_set s. covered (pmm_rebuild_free_lists s) i"
proof -
  define s0 where "s0 = pmm_freelist_clear s"
  define r0 where "r0 = \<lparr>run_start = 0, run_count = 0, run_zone = PMM_ZONE_NORMAL\<rparr>"
  have z0: "\<exists>zs. s0 = s\<lparr>zones := zs\<rparr>" by (auto simp: s0_def freelist_clear_eq)
  have "rebuild_inv s0 0 (r0, s0)"
    by (auto simp: rebuild_inv_def r0_def lists_upto_def s0_def freelist_clear_eq list_ok_def)
  then have inv: "rebuild_inv s0 (total_pages s0) (fold rebuild_step [0..<total_pages s0] (r0, s0))"
    by (rule rebuild_fold_inv) simp
  obtain run t where f: "fold rebuild_step [0..<total_pages s0] (r0, s0) = (run, t)" by fastforce
  define u where "u = pmm_rebuild_free_lists s"
  have u: "u = (if run_count run > 0
      then pmm_freelist_append (run_zone run) (run_start run) (run_count run) t else t)"
    unfolding u_def pmm_rebuild_free_lists_def s0_def [symmetric] r0_def [symmetric]
    by (simp add: f)
  have "(\<exists>zs. u = s0\<lparr>zones := zs\<rparr>) \<and> lists_upto u (total_pages s0) \<and>
      (\<forall>i < total_pages s0. i \<in> free_set s0 \<longrightarrow> covered u i)"
    using append_run_inv [OF inv [unfolded f]] inv [unfolded f]
    by (cases "run_count run = 0") (auto simp: u rebuild_inv_def)
  then show "\<exists>zs. pmm_rebuild_free_lists s = s\<lparr>zones := zs\<rparr>" "lists_ok (pmm_rebuild_free_lists s)"
    "\<forall>i \<in> free_set s. covered (pmm_rebuild_free_lists s) i"
    using z0 unfolding u_def [symmetric] lists_ok_def lists_upto_def by (auto simp: free_set_def)
qed

lemma rebuild_inv_ok:
  assumes "geom_ok s" "counts_ok s"
  shows "pmm_inv (pmm_rebuild_free_lists s)" "free_set (pmm_rebuild_free_lists s) = free_set s"
    "same_geom s (pmm_rebuild_free_lists s)" "pmem (pmm_rebuild_free_lists s) = pmem s"
    "pmm_state.more (pmm_rebuild_free_lists s) = pmm_state.more s"
proof -
  obtain zs where z: "pmm_rebuild_free_lists s = s\<lparr>zones := zs\<rparr>" using rebuild_ok(1) by blast
  show "pmm_inv (pmm_rebuild_free_lists s)"
    using rebuild_ok(2) [of s] assms unfolding pmm_inv_def
    by (simp add: z geom_ok_def counts_ok_def)
qed (use rebuild_ok(1) [of s] in \<open>auto simp: same_geom_def\<close>)

section \<open>Contiguous allocation\<close>

lemma set_used_run_Suc:
  "\<exists>p. set_used_run st (Suc c) s = (pmm_bitmap_set (st + c) (set_used_run st c s))\<lparr>pages := p\<rparr>"
proof -
  define u where "u = pmm_bitmap_set (st + c) (set_used_run st c s)"
  have "u = u\<lparr>pages := pages u\<rparr>" by simp
  moreover have "set_used_run st (Suc c) s = (if st + c < pages_count u
      then u\<lparr>pages := (pages u)(st + c := (pages u (st + c))\<lparr>pd_state := PMM_PAGE_USED\<rparr>)\<rparr> else u)"
    by (simp add: set_used_run_def u_def Let_def)
  ultimately show ?thesis unfolding u_def [symmetric] by metis
qed

lemma set_page_step:
  assumes "t = (pmm_bitmap_set i s)\<lparr>pages := p\<rparr>"
  shows "same_geom s t" "free_set t = free_set s - {i}" "free_pages t = free_pages s"
    "used_pages t = used_pages s" "zones t = zones s" "pmem t = pmem s"
    "pmm_state.more t = pmm_state.more s"
  using assms by (auto simp: same_geom_def free_set_def)

lemma set_used_run_ok:
  "same_geom s (set_used_run st c s)" (is ?G)
  "free_set (set_used_run st c s) = free_set s - {st..<st + c}" (is ?F)
  "free_pages (set_used_run st c s) = free_pages s" (is ?A)
  "used_pages (set_used_run st c s) = used_pages s" (is ?B)
  "zones (set_used_run st c s) = zones s" (is ?Z)
  "pmem (set_used_run st c s) = pmem s" (is ?M)
  "pmm_state.more (set_used_run st c s) = pmm_state.more s" (is ?X)
proof -
  have "?G \<and> ?F \<and> ?A \<and> ?B \<and> ?Z \<and> ?M \<and> ?X"
  proof (induction c)
    case 0
    then show ?case by (simp add: set_used_run_def)
  next
    case (Suc c)
    obtain p where "set_used_run st (Suc c) s =
        (pmm_bitmap_set (st + c) (set_used_run st c s))\<lparr>pages := p\<rparr>"
      using set_used_run_Suc by blast
    note st = set_page_step [OF this]
    have "free_set s - {st..<st + c} - {st + c} = free_set s - {st..<st + Suc c}"
      by (auto simp: less_Suc_eq)
    then show ?case
      using Suc.IH same_geom_trans [OF _ st(1)] unfolding st(2-) by (metis (no_types))
  qed
  then show ?G ?F ?A ?B ?Z ?M ?X by blast+
qed

lemma mem_set_zero_append:
  assumes "unat (q - p) = n" "n + k \<le> 2 ^ 64"
  shows "mem_set (mem_set m p v n) q v k = mem_set m p v (n + k)"
proof
  fix x :: u64
  have "q = p + (q - p)" by simp
  also have "q - p = of_nat n" using assms(1) by auto
  finally have q: "q = p + of_nat n" .
  show "mem_set (mem_set m p v n) q v k x = mem_set m p v (n + k) x"
  proof (cases "unat (x - p) < n")
    case False
    have "unat (of_nat n :: u64) = n"
      using assms(1) unat_lt_64 [of "q - p"] by (simp add: unat_of_nat)
    then have "unat ((x - p) - of_nat n) = unat (x - p) - n"
      using False by (simp add: unat_sub word_le_nat_alt)
    moreover have "x - q = (x - p) - of_nat n" by (simp add: q)
    ultimately have "unat (x - q) = unat (x - p) - n" by (simp only:)
    then show ?thesis using False by (auto simp: mem_set_def)
  qed (simp add: mem_set_def)
qed

lemma zero_run_eq:
  "c * 4096 \<le> 2 ^ 64 \<Longrightarrow> zero_run p c s = s\<lparr>pmem := mem_set (pmem s) p 0 (c * 4096)\<rparr>"
proof (induction c)
  case 0
  then show ?case by (simp add: zero_run_def mem_set_def)
next
  case (Suc c)
  then have le: "c * 4096 + 4096 \<le> 2 ^ 64" by simp
  then have "unat ((p + of_nat c * 4096) - p) = c * 4096"
    by (simp add: unat_word_ariths unat_of_nat)
  from mem_set_zero_append [OF this le] Suc le show ?case
    by (simp add: zero_run_def pmm_zero_page_def add.commute)
qed

lemma card_minus_run:
  "{st..<st + c} \<subseteq> F \<Longrightarrow> finite F \<Longrightarrow> card (F - {st..<st + c}) = card F - c \<and> c \<le> card F"
  by (metis card_Diff_subset card_atLeastLessThan card_mono diff_add_inverse finite_atLeastLessThan)

lemma take_run_ok:
  assumes "take_run z st c (s\<lparr>zones := zs\<rparr>) = (p, t)" "pmm_inv s" "{st..<st + c} \<subseteq> free_set s" "0 < c"
  shows "same_geom s t" "free_set t = free_set s - {st..<st + c}" "p = pmm_index_to_page s st"
    "geom_ok t" "counts_ok t" "pmem t = mem_set (pmem s) p 0 (c * 4096)"
    "pmm_state.more t = pmm_state.more s" "free_ranges (zones t y) = free_ranges (zs y)"
proof -
  let ?s = "s\<lparr>zones := zs\<rparr>"
  define u where "u = set_used_run st c ?s"
  note u = set_used_run_ok [where s = ?s and st = st and c = c, folded u_def]
  have g: "geom_ok s" and cs: "counts_ok s" using assms(2) by (simp_all add: pmm_inv_def)
  define v where "v = u\<lparr>free_pages := sub64 (free_pages u) c, used_pages := add64 (used_pages u) c\<rparr>"
  define w where "w = (if z_free_pages (zones v z) \<ge> c
       then upd_zone z (\<lambda>zi. zi\<lparr>z_free_pages := sub64 (z_free_pages zi) c,
                                z_used_pages := add64 (z_used_pages zi) c\<rparr>) v else v)"
  have w: "same_geom s w" "free_set w = free_set s - {st..<st + c}"
    "free_pages w = sub64 (free_pages s) c" "used_pages w = add64 (used_pages s) c"
    "free_ranges (zones w y) = free_ranges (zs y)" "pmem w = pmem s"
    "pmm_state.more w = pmm_state.more s" for y
    using u by (auto simp: w_def v_def upd_zone_def same_geom_def free_set_def)
  have pt: "(pmm_index_to_page w st, zero_run (pmm_index_to_page w st) c w) = (p, t)"
    using assms(1) by (simp only: take_run_def Let_def u_def v_def w_def)
  have "st + c \<le> total_pages s"
    using assms(3,4) by (auto simp: free_set_def subset_iff dest: spec [of _ "st + c - 1"])
  then have c: "c * 4096 \<le> 2 ^ 64" using geom_total [OF g] by simp
  have p: "p = pmm_index_to_page w st" and t: "t = w\<lparr>pmem := mem_set (pmem w) p 0 (c * 4096)\<rparr>"
    using pt by (auto simp: zero_run_eq [OF c])
  show sg: "same_geom s t" using w(1) by (simp add: t same_geom_def)
  show F: "free_set t = free_set s - {st..<st + c}" using w(2) by (simp add: t free_set_def)
  show "p = pmm_index_to_page s st" using p same_geom_index [OF w(1)] by simp
  show "geom_ok t" using g sg by (simp add: same_geom_ok)
  show "pmem t = mem_set (pmem s) p 0 (c * 4096)" "pmm_state.more t = pmm_state.more s"
    "free_ranges (zones t y) = free_ranges (zs y)" using w by (simp_all add: t)
  note cd = card_minus_run [OF assms(3) free_set_finite]
  have T: "card (free_set s) \<le> total_pages s" "total_pages s < 2 ^ 52"
    using free_set_card geom_total [OF g] by auto
  have "sub64 (free_pages s) c = card (free_set s) - c"
    using cs cd by (simp add: counts_ok_def sub64_le)
  moreover have "add64 (used_pages s) c = total_pages s - card (free_set s) + c"
  proof -
    have "total_pages s - card (free_set s) + c \<le> total_pages s" using cd T(1) by linarith
    also have "\<dots> < 2 ^ 64" using T(2) by simp
    finally have "total_pages s - card (free_set s) + c < 2 ^ 64" .
    then show ?thesis using cs by (simp only: counts_ok_def add64_less)
  qed
  ultimately show "counts_ok t"
    using F cd w T sg by (simp add: counts_ok_def t same_geom_def)
qed

text \<open>The runs of free pages of a zone, and the scan that looks for one.\<close>

definition free_run :: "'a pmm_state_scheme \<Rightarrow> nat \<Rightarrow> nat \<Rightarrow> nat \<Rightarrow> bool" where
  "free_run s z st c \<longleftrightarrow> (\<forall>i \<in> {st..<st + c}. i \<in> free_set s \<and> page_zone s i = z)"

lemma scan_run_step:
  assumes "k < total_pages s"
  shows "scan_run s z c st n [k..<total_pages s] =
    (if \<not> (k \<in> free_set s \<and> page_zone s k = z) then scan_run s z c st 0 [Suc k..<total_pages s]
     else if c \<le> Suc n then Some (if n = 0 then k else st)
     else scan_run s z c (if n = 0 then k else st) (Suc n) [Suc k..<total_pages s])"
proof -
  have "[k..<total_pages s] = k # [Suc k..<total_pages s]" using assms by (simp add: upt_conv_Cons)
  then show ?thesis
    using assms by (simp add: free_set_def page_zone_def Let_def)
qed

lemma scan_run_Some:
  assumes "scan_run s z c st n [k..<total_pages s] = Some r" "n < c"
    and "n = 0 \<or> st + n = k \<and> free_run s z st n"
  shows "free_run s z r c"
  using assms
proof (induction "total_pages s - k" arbitrary: k st n)
  case 0
  then show ?case by simp
next
  case (Suc d)
  then have d: "d = total_pages s - Suc k" and k: "k < total_pages s" by simp_all
  note step = Suc.prems(1) [unfolded scan_run_step [OF k]] and IH = Suc.hyps(1) [OF d]
  define st' where "st' = (if n = 0 then k else st)"
  show ?case
  proof (cases "k \<in> free_set s \<and> page_zone s k = z")
    case False
    then show ?thesis using IH [of st 0] step Suc.prems(2) by simp
  next
    case True
    have run: "free_run s z st' (Suc n)" "st' + Suc n = Suc k"
      using Suc.prems(3) True by (auto simp: free_run_def st'_def less_Suc_eq)
    show ?thesis
    proof (cases "c \<le> Suc n")
      case le: True
      then have "c = Suc n" "r = st'" using step True Suc.prems(2) by (simp_all add: st'_def)
      then show ?thesis using run by simp
    next
      case False
      then show ?thesis using IH [of st' "Suc n"] step True run by (simp add: st'_def)
    qed
  qed
qed

lemma scan_run_None:
  assumes "scan_run s z c st n [k..<total_pages s] = None" "free_run s z r c" "0 < c"
    and "if n = 0 then k \<le> r else st + n = k \<and> st \<le> r" "n < c"
  shows False
  using assms
proof (induction "total_pages s - k" arbitrary: k st n)
  case 0
  have "r + c - 1 \<in> free_set s" using 0(3,4) by (simp add: free_run_def)
  then have "r + c \<le> total_pages s" using 0(4) unfolding free_set_def by auto
  then show ?case using 0(1,4,5,6) by (cases "n = 0") simp_all
next
  case (Suc d)
  then have d: "d = total_pages s - Suc k" and k: "k < total_pages s" by simp_all
  note step = Suc.prems(1) [unfolded scan_run_step [OF k]] and IH = Suc.hyps(1) [OF d]
  define st' where "st' = (if n = 0 then k else st)"
  show ?case
  proof (cases "k \<in> free_set s \<and> page_zone s k = z")
    case False
    then have "k \<notin> {r..<r + c}" using Suc.prems(2) unfolding free_run_def by blast
    then have "Suc k \<le> r" using Suc.prems(4,5) by (cases "n = 0") auto
    then show ?thesis using IH [of st 0] step False Suc.prems(2,3) by simp
  next
    case True
    then have "\<not> c \<le> Suc n" using step by (cases "c \<le> Suc n") simp_all
    moreover have "st' + Suc n = Suc k" "st' \<le> r"
      using Suc.prems(4) by (cases "n = 0"; simp add: st'_def)+
    ultimately show ?thesis
      using IH [of st' "Suc n"] step True Suc.prems(2,3) by (simp add: st'_def)
  qed
qed

lemma alloc_pages_in_zone_spec:
  assumes "pmm_inv s" "z < PMM_ZONE_COUNT" "0 < c" "pmm_alloc_pages_in_zone z c s = (p, t)"
  shows "(p = 0 \<and> t = s \<and> \<not> (\<exists>st. free_run s z st c)) \<or>
    (\<exists>st. free_run s z st c \<and> p = pmm_index_to_page s st \<and> pmm_inv t \<and> same_geom s t \<and>
       free_set t = free_set s - {st..<st + c} \<and> pmem t = mem_set (pmem s) p 0 (c * 4096) \<and>
       pmm_state.more t = pmm_state.more s)"
proof -
  have L: "lists_ok s" and C: "free_pages s = card (free_set s)"
    using assms(1) by (simp_all add: pmm_inv_def counts_ok_def)
  have sub: "{st..<st + c} \<subseteq> free_set s" if "free_run s z st c" for st
    using that by (auto simp: free_run_def)
  show ?thesis
  proof (cases "free_pages s < c")
    case True
    then have "\<not> free_run s z st c" for st
      using sub [of st] card_minus_run [of st c "free_set s"] C by auto
    with True assms(2-4) show ?thesis by (simp add: pmm_alloc_pages_in_zone_def)
  next
    case enough: False
    show ?thesis
    proof (cases "find (\<lambda>r. fr_count r \<ge> c) (free_ranges (zones s z))")
      case (Some r)
      then have r: "r \<in> set (free_ranges (zones s z))" "c \<le> fr_count r"
        by (auto simp: find_Some_iff)
      then have "freelist_index (fr_start r) c (free_ranges (zones s z)) \<noteq> None"
        by (intro freelist_index_hd) auto
      then obtain u where rm: "pmm_freelist_remove z (fr_start r) c s = (True, u)"
        using assms(3) by (auto simp: pmm_freelist_remove_def)
      have tr: "take_run z (fr_start r) c u = (p, t)"
        using assms(2-4) enough Some rm by (simp add: pmm_alloc_pages_in_zone_def)
      note run = freelist_remove_ok(1) [OF L assms(2) rm]
      obtain zs where u: "u = s\<lparr>zones := zs\<rparr>" and zs: "\<forall>y < PMM_ZONE_COUNT.
          list_ok s y (free_ranges (zs y)) \<and>
          fr_pages (free_ranges (zs y)) \<inter> {fr_start r..<fr_start r + c} = {}"
        using freelist_remove_ok(3) [OF L assms(2) rm] by blast
      have fr: "free_run s z (fr_start r) c" using run by (auto simp: free_run_def)
      note tk = take_run_ok [OF tr [unfolded u] assms(1) sub [OF fr] assms(3)]
      have "list_ok t y (free_ranges (zones t y))" if "y < PMM_ZONE_COUNT" for y
      proof (rule list_ok_mono [OF _ tk(1)])
        show "list_ok s y (free_ranges (zones t y))" using zs that by (simp add: tk(8))
        show "fr_pages (free_ranges (zones t y)) \<subseteq> free_set t"
          using zs that unfolding tk(2,8) list_ok_def by blast
      qed
      then have "pmm_inv t" using tk(4,5) by (simp add: pmm_inv_def lists_ok_def)
      with fr tk show ?thesis by blast
    next
      case none: None
      show ?thesis
      proof (cases "scan_run s z c 0 0 [0..<total_pages s]")
        case None
        then have "\<not> free_run s z st c" for st
          using scan_run_None [OF None, of st] assms(3) by auto
        moreover have "p = 0" "t = s"
          using assms(2-4) enough none None by (simp_all add: pmm_alloc_pages_in_zone_def)
        ultimately show ?thesis by simp
      next
        case (Some st)
        then have fr: "free_run s z st c" using scan_run_Some [OF Some] assms(3) by simp
        obtain u where tr: "take_run z st c (s\<lparr>zones := zones s\<rparr>) = (p, u)"
          and t: "t = pmm_rebuild_free_lists u"
          using assms(2-4) enough none Some
          by (auto simp: pmm_alloc_pages_in_zone_def split: prod.splits)
        note tk = take_run_ok [OF tr assms(1) sub [OF fr] assms(3)]
        note rb = rebuild_inv_ok [OF tk(4,5)]
        have "same_geom s t" using same_geom_trans [OF tk(1) rb(3)] by (simp add: t)
        with fr tk rb show ?thesis unfolding t by (intro disjI2 exI [of _ st]) simp
      qed
    qed
  qed
qed

section \<open>Reserving and releasing ranges\<close>

text \<open>Every page of the managed range, by address.\<close>

definition managed :: "'a pmm_state_scheme \<Rightarrow> u64 set" where
  "managed s = {a. memory_start s \<le> a \<and> a < memory_end s \<and> page_aligned a}"

lemma mark_page_free_ok:
  assumes "geom_ok s" "counts_ok s" "a \<in> managed s"
  shows "same_geom s (mark_page_free a s)" "counts_ok (mark_page_free a s)"
    "free_set (mark_page_free a s) = insert (pmm_page_to_index s a) (free_set s)"
    "pmem (mark_page_free a s) = pmem s" "pmm_state.more (mark_page_free a s) = pmm_state.more s"
proof -
  let ?i = "pmm_page_to_index s a" and ?t = "mark_page_free a s"
  have i: "?i < total_pages s" "?i div 32 < bitmap_size s div 4"
    using geom_index [OF assms(1)] geom_in_bitmap [OF assms(1)] assms(3) by (auto simp: managed_def)
  show g: "same_geom s ?t" "pmem ?t = pmem s" "pmm_state.more ?t = pmm_state.more s"
    by (auto simp: mark_page_free_def Let_def upd_zone_def same_geom_def)
  show f: "free_set ?t = insert ?i (free_set s)"
    using i by (auto simp: mark_page_free_def Let_def upd_zone_def free_set_def test_clear)
  show "counts_ok ?t"
  proof (cases "pmm_bitmap_test s ?i")
    case True
    then have "free_pages ?t = inc64 (free_pages s)" "used_pages ?t = dec64 (used_pages s)"
      by (auto simp: mark_page_free_def Let_def upd_zone_def)
    then show ?thesis
      using put_page_counts [OF assms(2,1) i(1) _ f] True g(1)
      by (simp add: free_set_def same_geom_def)
  next
    case False
    then have "?t = s" by (simp add: mark_page_free_def)
    then show ?thesis using assms(2) by simp
  qed
qed

lemma mark_page_used_ok:
  assumes "geom_ok s" "counts_ok s" "a \<in> managed s"
  shows "same_geom s (mark_page_used a s)" "counts_ok (mark_page_used a s)"
    "free_set (mark_page_used a s) = free_set s - {pmm_page_to_index s a}"
    "pmem (mark_page_used a s) = pmem s" "pmm_state.more (mark_page_used a s) = pmm_state.more s"
proof -
  let ?i = "pmm_page_to_index s a" and ?t = "mark_page_used a s"
  have i: "?i < total_pages s"
    using geom_index [OF assms(1)] assms(3) by (auto simp: managed_def)
  show g: "same_geom s ?t" "pmem ?t = pmem s" "pmm_state.more ?t = pmm_state.more s"
    by (auto simp: mark_page_used_def Let_def upd_zone_def same_geom_def)
  show f: "free_set ?t = free_set s - {?i}"
    by (auto simp: mark_page_used_def Let_def upd_zone_def free_set_def)
  show "counts_ok ?t"
  proof (cases "pmm_bitmap_test s ?i")
    case False
    then have "free_pages ?t = dec64 (free_pages s)" "used_pages ?t = inc64 (used_pages s)"
      by (auto simp: mark_page_used_def Let_def upd_zone_def)
    then show ?thesis
      using take_page_counts [OF assms(2,1) _ f] False g(1) i
      by (simp add: free_set_def same_geom_def)
  next
    case True
    then have "?t = s" by (simp add: mark_page_used_def)
    then show ?thesis using assms(2) by simp
  qed
qed

lemma managed_geom: "same_geom s t \<Longrightarrow> managed t = managed s"
  by (simp add: same_geom_def managed_def)

lemma fold_mark_free_ok:
  "geom_ok s \<Longrightarrow> counts_ok s \<Longrightarrow> set as \<subseteq> managed s \<Longrightarrow>
   same_geom s (fold mark_page_free as s) \<and> counts_ok (fold mark_page_free as s) \<and>
   free_set (fold mark_page_free as s) = free_set s \<union> pmm_page_to_index s ` set as \<and>
   pmem (fold mark_page_free as s) = pmem s \<and>
   pmm_state.more (fold mark_page_free as s) = pmm_state.more s"
proof (induction as arbitrary: s)
  case (Cons a as)
  then have a: "a \<in> managed s" by simp
  note m = mark_page_free_ok [OF Cons.prems(1,2) a]
  have "same_geom (mark_page_free a s) (fold mark_page_free as (mark_page_free a s)) \<and>
    counts_ok (fold mark_page_free as (mark_page_free a s)) \<and>
    free_set (fold mark_page_free as (mark_page_free a s)) =
      free_set (mark_page_free a s) \<union> pmm_page_to_index (mark_page_free a s) ` set as \<and>
    pmem (fold mark_page_free as (mark_page_free a s)) = pmem (mark_page_free a s) \<and>
    pmm_state.more (fold mark_page_free as (mark_page_free a s)) =
      pmm_state.more (mark_page_free a s)"
    using Cons.prems m(1,2) by (intro Cons.IH) (simp_all add: same_geom_ok managed_geom)
  then show ?case
    using m same_geom_trans [OF m(1)] by (simp add: same_geom_to_index)
qed simp

lemma fold_mark_used_ok:
  "geom_ok s \<Longrightarrow> counts_ok s \<Longrightarrow> set as \<subseteq> managed s \<Longrightarrow>
   same_geom s (fold mark_page_used as s) \<and> counts_ok (fold mark_page_used as s) \<and>
   free_set (fold mark_page_used as s) = free_set s - pmm_page_to_index s ` set as \<and>
   pmem (fold mark_page_used as s) = pmem s \<and>
   pmm_state.more (fold mark_page_used as s) = pmm_state.more s"
proof (induction as arbitrary: s)
  case (Cons a as)
  then have a: "a \<in> managed s" by simp
  note m = mark_page_used_ok [OF Cons.prems(1,2) a]
  have "same_geom (mark_page_used a s) (fold mark_page_used as (mark_page_used a s)) \<and>
    counts_ok (fold mark_page_used as (mark_page_used a s)) \<and>
    free_set (fold mark_page_used as (mark_page_used a s)) =
      free_set (mark_page_used a s) - pmm_page_to_index (mark_page_used a s) ` set as \<and>
    pmem (fold mark_page_used as (mark_page_used a s)) = pmem (mark_page_used a s) \<and>
    pmm_state.more (fold mark_page_used as (mark_page_used a s)) =
      pmm_state.more (mark_page_used a s)"
    using Cons.prems m(1,2) by (intro Cons.IH) (simp_all add: same_geom_ok managed_geom)
  then show ?case
    using m same_geom_trans [OF m(1)] by (auto simp: same_geom_to_index)
qed simp

text \<open>
  The pages that lie wholly inside \<open>[st, e)\<close>, which a release frees, and the pages that overlap
  it, which a reservation takes.
\<close>

definition pages_inside :: "'a pmm_state_scheme \<Rightarrow> u64 \<Rightarrow> u64 \<Rightarrow> nat set" where
  "pages_inside s st e = {i. i < total_pages s \<and> unat st \<le> unat (pmm_index_to_page s i) \<and>
     unat (pmm_index_to_page s i) + 4096 \<le> unat e}"

definition pages_touching :: "'a pmm_state_scheme \<Rightarrow> u64 \<Rightarrow> u64 \<Rightarrow> nat set" where
  "pages_touching s st e = {i. i < total_pages s \<and> unat (pmm_index_to_page s i) < unat e \<and>
     unat st < unat (pmm_index_to_page s i) + 4096}"


lemma align_cmp:
  fixes x :: nat
  assumes "x mod 4096 = 0"
  shows "(s + 4095) div 4096 * 4096 \<le> x \<longleftrightarrow> s \<le> x" "x < s div 4096 * 4096 \<longleftrightarrow> x + 4096 \<le> s"
    "s div 4096 * 4096 \<le> x \<longleftrightarrow> s < x + 4096" "x < (s + 4095) div 4096 * 4096 \<longleftrightarrow> x < s"
proof -
  obtain k where x: "x = k * 4096" using assms by (auto elim!: dvdE)
  have lt: "a div 4096 < b \<longleftrightarrow> a < b * 4096" for a b :: nat by (simp add: div_less_iff_less_mult)
  have le: "b \<le> a div 4096 \<longleftrightarrow> b * 4096 \<le> a" for a b :: nat
    by (simp add: less_eq_div_iff_mult_less_eq)
  show "(s + 4095) div 4096 * 4096 \<le> x \<longleftrightarrow> s \<le> x"
    using lt [of "s + 4095" "Suc k"] by (auto simp: x less_Suc_eq_le)
  show "x < s div 4096 * 4096 \<longleftrightarrow> x + 4096 \<le> s"
    using le [of "Suc k" s] by (auto simp: x Suc_le_eq)
  show "s div 4096 * 4096 \<le> x \<longleftrightarrow> s < x + 4096"
    using lt [of s "Suc k"] by (auto simp: x less_Suc_eq_le)
  show "x < (s + 4095) div 4096 * 4096 \<longleftrightarrow> x < s"
    using le [of "Suc k" "s + 4095"] by (auto simp: x Suc_le_eq)
qed

lemma page_bound:
  fixes x :: nat
  assumes "x mod 4096 = 0" "x < 2 ^ 64" "y \<le> x"
  shows "y + 4095 < 2 ^ 64"
proof -
  obtain k where x: "x = 4096 * k" using assms(1) by (auto elim!: dvdE)
  then have "k < 2 ^ 52" using assms(2) by simp
  then show ?thesis using assms(3) x by simp
qed

lemma mark_range_free_eq:
  assumes "geom_ok s"
  obtains as where "pmm_mark_range_free st e s = fold mark_page_free as s" "set as \<subseteq> managed s"
    "pmm_page_to_index s ` set as = pages_inside s st e"
proof (cases "e \<le> st \<or> e \<le> memory_start s \<or> st \<ge> memory_end s")
  case True
  then have "pages_inside s st e = {}"
    using geom_page(3,4) [OF assms]
    by (fastforce simp: pages_inside_def word_le_nat_alt word_less_nat_alt)
  with True that [of "[]"] show ?thesis by (auto simp: pmm_mark_range_free_def)
next
  case False
  define st' e' where "st' = (if st < memory_start s then memory_start s else st)"
    and "e' = (if e > memory_end s then memory_end s else e)"
  define as where "as = page_steps (ALIGN_UP st' PAGE_SIZE) (ALIGN_DOWN e' PAGE_SIZE)"
  have eq: "pmm_mark_range_free st e s = fold mark_page_free as s"
    using False by (simp add: pmm_mark_range_free_def as_def st'_def e'_def Let_def)
  have g: "unat (memory_end s) mod 4096 = 0" "unat (memory_start s) mod 4096 = 0"
    using assms by (auto simp: geom_ok_def page_aligned_unat)
  have st': "unat st' = max (unat st) (unat (memory_start s))"
    and e': "unat e' = min (unat e) (unat (memory_end s))"
    by (auto simp: st'_def e'_def word_less_nat_alt)
  have lt: "unat st' \<le> unat (memory_end s)"
    using False assms by (auto simp: st' word_le_nat_alt geom_ok_def)
  have "(unat st' + 4095) div 4096 * 4096 \<le> unat (memory_end s)"
    using align_cmp(1) [OF g(1), of "unat st'"] lt by simp
  moreover have nw: "unat st' + 4095 < 2 ^ 64"
    using page_bound [OF g(1) _ lt] unat_lt_64 [of "memory_end s"] by simp
  ultimately have up: "unat (ALIGN_UP st' 4096) = (unat st' + 4095) div 4096 * 4096"
    by (simp add: unat_ALIGN_UP_page)
  have mem: "a \<in> set as \<longleftrightarrow> unat st' \<le> unat a \<and> unat a + 4096 \<le> unat e' \<and> page_aligned a" for a
  proof -
    have "a \<in> set as \<longleftrightarrow> ALIGN_UP st' 4096 \<le> a \<and> a < ALIGN_DOWN e' 4096 \<and> page_aligned a"
      unfolding as_def by (rule page_steps_mem) (simp_all add: page_aligned_unat up)
    then show ?thesis
      using align_cmp(1,2) [of "unat a"]
      by (auto simp: word_le_nat_alt word_less_nat_alt up page_aligned_unat)
  qed
  have sub: "set as \<subseteq> managed s"
    unfolding managed_def using mem by (auto simp: st' e' word_le_nat_alt word_less_nat_alt)
  have "pmm_page_to_index s ` set as = pages_inside s st e"
  proof (rule set_eqI, rule iffI)
    fix i assume "i \<in> pmm_page_to_index s ` set as"
    then obtain a where a: "a \<in> set as" "i = pmm_page_to_index s a" by blast
    then show "i \<in> pages_inside s st e"
      using geom_index [OF assms, of a] sub mem [of a]
      by (auto simp: managed_def pages_inside_def st' e')
  next
    fix i assume i: "i \<in> pages_inside s st e"
    then have p: "page_aligned (pmm_index_to_page s i)" "memory_start s \<le> pmm_index_to_page s i"
      "pmm_index_to_page s i < memory_end s" "pmm_page_to_index s (pmm_index_to_page s i) = i"
      using geom_page [OF assms] by (auto simp: pages_inside_def)
    have "unat (pmm_index_to_page s i) + 4096 \<le> unat (memory_end s)"
      using geom_unat_page [OF assms, of i] i assms by (auto simp: pages_inside_def geom_ok_def)
    then have "pmm_index_to_page s i \<in> set as"
      using i p by (auto simp: mem st' e' pages_inside_def word_le_nat_alt)
    then show "i \<in> pmm_page_to_index s ` set as" using p(4) by (metis imageI)
  qed
  with that eq sub show ?thesis by blast
qed

lemma mark_range_used_eq:
  assumes "geom_ok s"
  obtains as where "pmm_mark_range_used st e s = fold mark_page_used as s" "set as \<subseteq> managed s"
    "st < e \<longrightarrow> pmm_page_to_index s ` set as = pages_touching s st e"
proof (cases "e \<le> st \<or> e \<le> memory_start s \<or> st \<ge> memory_end s")
  case True
  then have "pages_touching s st e = {}" if "st < e"
    using geom_page(3,4) [OF assms] geom_unat_page [OF assms] that assms
    by (fastforce simp: pages_touching_def word_le_nat_alt word_less_nat_alt geom_ok_def)
  with True that [of "[]"] show ?thesis by (auto simp: pmm_mark_range_used_def)
next
  case False
  define st' e' where "st' = (if st < memory_start s then memory_start s else st)"
    and "e' = (if e > memory_end s then memory_end s else e)"
  define as where "as = page_steps (ALIGN_DOWN st' PAGE_SIZE) (ALIGN_UP e' PAGE_SIZE)"
  have eq: "pmm_mark_range_used st e s = fold mark_page_used as s"
    using False by (simp add: pmm_mark_range_used_def as_def st'_def e'_def Let_def)
  have g: "unat (memory_end s) mod 4096 = 0" "unat (memory_start s) mod 4096 = 0"
    using assms by (auto simp: geom_ok_def page_aligned_unat)
  have st': "unat st' = max (unat st) (unat (memory_start s))"
    and e': "unat e' = min (unat e) (unat (memory_end s))"
    by (auto simp: st'_def e'_def word_less_nat_alt)
  have nw: "unat e' + 4095 < 2 ^ 64"
  proof -
    have "unat e' \<le> unat (memory_end s)" by (simp add: e')
    from page_bound [OF g(1) _ this] show ?thesis using unat_lt_64 [of "memory_end s"] by simp
  qed
  then have up: "unat (ALIGN_UP e' 4096) = (unat e' + 4095) div 4096 * 4096"
    by (simp add: unat_ALIGN_UP_page)
  have mem: "a \<in> set as \<longleftrightarrow> unat st' < unat a + 4096 \<and> unat a < unat e' \<and> page_aligned a" for a
  proof -
    have "a \<in> set as \<longleftrightarrow> ALIGN_DOWN st' 4096 \<le> a \<and> a < ALIGN_UP e' 4096 \<and> page_aligned a"
      unfolding as_def by (rule page_steps_mem) (simp_all add: page_aligned_unat up)
    then show ?thesis
      using align_cmp(3,4) [of "unat a"]
      by (auto simp: word_le_nat_alt word_less_nat_alt up page_aligned_unat)
  qed
  have ge: "memory_start s \<le> a" if "a \<in> set as" for a
  proof -
    have "unat (memory_start s) < unat a + 4096" "unat a mod 4096 = 0"
      using that by (auto simp: mem st' page_aligned_unat)
    then show ?thesis
      using align_cmp(3) [of "unat a" "unat (memory_start s)"] g(2)
      by (auto simp: word_le_nat_alt elim!: dvdE)
  qed
  have sub: "set as \<subseteq> managed s"
    unfolding managed_def using mem ge by (auto simp: e' word_less_nat_alt)
  have "pmm_page_to_index s ` set as = pages_touching s st e"
  proof (rule set_eqI, rule iffI)
    fix i assume "i \<in> pmm_page_to_index s ` set as"
    then obtain a where a: "a \<in> set as" "i = pmm_page_to_index s a" by blast
    then show "i \<in> pages_touching s st e"
      using geom_index [OF assms, of a] sub mem [of a]
      by (auto simp: managed_def pages_touching_def st' e')
  next
    fix i assume i: "i \<in> pages_touching s st e"
    then have p: "page_aligned (pmm_index_to_page s i)" "memory_start s \<le> pmm_index_to_page s i"
      "pmm_index_to_page s i < memory_end s" "pmm_page_to_index s (pmm_index_to_page s i) = i"
      using geom_page [OF assms] by (auto simp: pages_touching_def)
    then have "pmm_index_to_page s i \<in> set as"
      using i by (auto simp: mem st' e' pages_touching_def word_le_nat_alt word_less_nat_alt)
    then show "i \<in> pmm_page_to_index s ` set as" using p(4) by (metis imageI)
  qed
  with that eq sub show ?thesis by blast
qed

lemma mark_range_free_ok:
  assumes "geom_ok s" "counts_ok s"
  shows "same_geom s (pmm_mark_range_free st e s)" "counts_ok (pmm_mark_range_free st e s)"
    "free_set (pmm_mark_range_free st e s) = free_set s \<union> pages_inside s st e"
    "pmem (pmm_mark_range_free st e s) = pmem s"
    "pmm_state.more (pmm_mark_range_free st e s) = pmm_state.more s"
proof -
  obtain as where "pmm_mark_range_free st e s = fold mark_page_free as s" "set as \<subseteq> managed s"
    "pmm_page_to_index s ` set as = pages_inside s st e"
    by (rule mark_range_free_eq [OF assms(1), of st e])
  then show "same_geom s (pmm_mark_range_free st e s)" "counts_ok (pmm_mark_range_free st e s)"
    "free_set (pmm_mark_range_free st e s) = free_set s \<union> pages_inside s st e"
    "pmem (pmm_mark_range_free st e s) = pmem s"
    "pmm_state.more (pmm_mark_range_free st e s) = pmm_state.more s"
    using fold_mark_free_ok [OF assms] by auto
qed

lemma mark_range_used_ok:
  assumes "geom_ok s" "counts_ok s"
  shows "same_geom s (pmm_mark_range_used st e s)" "counts_ok (pmm_mark_range_used st e s)"
    "st < e \<Longrightarrow> free_set (pmm_mark_range_used st e s) = free_set s - pages_touching s st e"
    "pmem (pmm_mark_range_used st e s) = pmem s"
    "pmm_state.more (pmm_mark_range_used st e s) = pmm_state.more s"
proof -
  obtain as where "pmm_mark_range_used st e s = fold mark_page_used as s" "set as \<subseteq> managed s"
    "st < e \<longrightarrow> pmm_page_to_index s ` set as = pages_touching s st e"
    by (rule mark_range_used_eq [OF assms(1), of st e])
  then show "same_geom s (pmm_mark_range_used st e s)" "counts_ok (pmm_mark_range_used st e s)"
    "st < e \<Longrightarrow> free_set (pmm_mark_range_used st e s) = free_set s - pages_touching s st e"
    "pmem (pmm_mark_range_used st e s) = pmem s"
    "pmm_state.more (pmm_mark_range_used st e s) = pmm_state.more s"
    using fold_mark_used_ok [OF assms] by auto
qed

section \<open>Initialisation\<close>

text \<open>
  \<open>meta_only\<close>: a step that touches only descriptors, zone records and the region tables.
\<close>

definition meta_only :: "'a pmm_state_scheme \<Rightarrow> 'a pmm_state_scheme \<Rightarrow> bool" where
  "meta_only s t \<longleftrightarrow> pmem t = pmem s \<and> total_pages t = total_pages s \<and> free_pages t = free_pages s \<and>
     used_pages t = used_pages s \<and> bitmap_size t = bitmap_size s \<and> bitmap t = bitmap s \<and>
     memory_start t = memory_start s \<and> memory_end t = memory_end s \<and>
     pmm_state.more t = pmm_state.more s"

lemma meta_only_refl [simp]: "meta_only s s"
  by (simp add: meta_only_def)

lemma meta_only_trans [trans]: "meta_only s t \<Longrightarrow> meta_only t u \<Longrightarrow> meta_only s u"
  by (simp add: meta_only_def)

lemma meta_only_fold: "(\<And>x s. meta_only s (f x s)) \<Longrightarrow> meta_only s (fold f xs s)"
  by (induction xs arbitrary: s) (auto intro: meta_only_trans)

lemma meta_only_ok:
  assumes "meta_only s t"
  shows "same_geom s t" "free_set t = free_set s" "counts_ok t = counts_ok s"
proof -
  have "pmm_bitmap_test t i = pmm_bitmap_test s i" for i
    using assms by (simp add: meta_only_def pmm_bitmap_test_def)
  then show f: "free_set t = free_set s" using assms by (simp add: meta_only_def free_set_def)
  show "same_geom s t" using assms by (simp add: meta_only_def same_geom_def)
  show "counts_ok t = counts_ok s" using assms f by (simp add: meta_only_def counts_ok_def)
qed

lemma meta_only_ops:
  "meta_only s (pmm_regions_clear s)" "meta_only s (upd_zone z f s)"
  "meta_only s (pmm_setup_page_descs a b c d s)" "meta_only s (s\<lparr>usable_regions := r\<rparr>)"
  "meta_only s (s\<lparr>reserved_regions := r\<rparr>)" "meta_only s (s\<lparr>pages := p\<rparr>)"
  by (auto simp: meta_only_def pmm_regions_clear_def upd_zone_def pmm_setup_page_descs_def Let_def)

lemma meta_only_zones_reset: "meta_only s (pmm_zones_reset s)"
  unfolding pmm_zones_reset_def by (rule meta_only_fold) (rule meta_only_ops)

lemma meta_only_mmio: "meta_only s (pmm_mark_range_mmio a b s)"
proof -
  have "meta_only s (fold (\<lambda>addr s. let index = pmm_page_to_index s addr in if index < pages_count s
      then s\<lparr>pages := (pages s)(index := (pages s index)\<lparr>pd_zone := PMM_ZONE_MMIO\<rparr>)\<rparr> else s) xs s)"
    for xs
    by (rule meta_only_fold) (simp add: Let_def meta_only_ops)
  then show ?thesis by (simp add: pmm_mark_range_mmio_def Let_def)
qed

lemma meta_only_scan: "meta_only s (mmap_scan_regions entry sz n s)"
  unfolding mmap_scan_regions_def
proof (rule meta_only_fold)
  fix i and s :: "'a pmm_state_scheme"
  let ?e = "entry (16 + i * sz)"
  have "meta_only s (pmm_mark_range_mmio (mb_addr ?e) (mb_addr ?e + mb_len ?e)
      (s\<lparr>reserved_regions := pmm_add_region (reserved_regions s) (mb_addr ?e) (mb_len ?e)\<rparr>))"
    using meta_only_mmio meta_only_ops(5) by (rule meta_only_trans [rotated])
  then show "meta_only s (let e = ?e in if mb_len e \<noteq> 0 \<and> mb_addr e + mb_len e \<ge> mb_addr e then
      (if mb_type e = MB2_MMAP_AVAILABLE
       then s\<lparr>usable_regions := pmm_add_region (usable_regions s) (mb_addr e) (mb_len e)\<rparr>
       else pmm_mark_range_mmio (mb_addr e) (mb_addr e + mb_len e)
              (s\<lparr>reserved_regions := pmm_add_region (reserved_regions s) (mb_addr e) (mb_len e)\<rparr>))
      else s)"
    by (simp add: Let_def meta_only_ops)
qed

lemma meta_only_desc_loop:
  "meta_only s (fold init_desc_free is s)" "meta_only s (fold init_desc_used is s)"
  by (rule meta_only_fold, simp add: init_desc_free_def init_desc_used_def Let_def meta_only_def
      upd_zone_def)+

lemma bitmap_bytes_cover: "n \<le> pmm_bitmap_bytes n div 4 * 32"
proof -
  define b where "b = (n + 7) div 8"
  have n: "n \<le> b * 8"
    using div_less_iff_less_mult [of 8 "n + 7" "b + 1"] by (simp add: b_def)
  define k where "k = (b + 4095) div 4096"
  have "b \<le> k * 4096" using align_cmp(1) [of "k * 4096" b] by (simp add: k_def)
  moreover have "pmm_bitmap_bytes n div 4 * 32 = k * 4096 * 8"
    by (simp add: pmm_bitmap_bytes_def b_def [symmetric] k_def [symmetric])
  ultimately show ?thesis using n by simp
qed


definition init_bounds_ok :: "u64 \<Rightarrow> u64 \<Rightarrow> bool" where
  "init_bounds_ok mstart mend \<longleftrightarrow> 0 < unat mstart \<and> unat mstart + 4095 < 2 ^ 64 \<and> mstart < mend \<and>
     ALIGN_UP mstart PAGE_SIZE \<le> ALIGN_DOWN mend PAGE_SIZE"

definition init_pages :: "u64 \<Rightarrow> u64 \<Rightarrow> nat" where
  "init_pages mstart mend = unat ((ALIGN_DOWN mend PAGE_SIZE - ALIGN_UP mstart PAGE_SIZE) div PAGE_SIZE)"

lemma init_geometry:
  assumes "init_bounds_ok mstart mend"
  shows "unat (ALIGN_DOWN mend PAGE_SIZE) =
      unat (ALIGN_UP mstart PAGE_SIZE) + init_pages mstart mend * 4096"
    "page_aligned (ALIGN_UP mstart PAGE_SIZE)" "ALIGN_UP mstart PAGE_SIZE \<noteq> 0"
proof -
  have u: "unat (ALIGN_UP mstart 4096) = (unat mstart + 4095) div 4096 * 4096"
    using assms by (intro unat_ALIGN_UP_page) (simp add: init_bounds_ok_def)
  show "page_aligned (ALIGN_UP mstart PAGE_SIZE)" by (simp add: page_aligned_unat u)
  have "0 < (unat mstart + 4095) div 4096"
    using assms by (simp add: init_bounds_ok_def div_greater_zero_iff)
  then have "unat (ALIGN_UP mstart 4096) \<noteq> 0" by (simp add: u)
  then show "ALIGN_UP mstart PAGE_SIZE \<noteq> 0" by (metis unat_0)
  define k where "k = (unat mstart + 4095) div 4096"
  have le: "ALIGN_UP mstart 4096 \<le> ALIGN_DOWN mend 4096"
    using assms by (simp add: init_bounds_ok_def)
  then have "init_pages mstart mend = (unat mend div 4096 * 4096 - k * 4096) div 4096"
    by (simp add: init_pages_def unat_div unat_sub u k_def)
  also have "\<dots> = unat mend div 4096 - k" by (simp flip: diff_mult_distrib)
  finally have i: "init_pages mstart mend = unat mend div 4096 - k" .
  have "k \<le> unat mend div 4096" using le by (simp add: word_le_nat_alt u k_def)
  then show "unat (ALIGN_DOWN mend PAGE_SIZE) =
      unat (ALIGN_UP mstart PAGE_SIZE) + init_pages mstart mend * 4096"
    by (simp add: u i k_def flip: distrib_right)
qed

text \<open>The state that both initialisers reach before they mark anything.\<close>

definition fresh_state :: "u64 \<Rightarrow> u64 \<Rightarrow> nat \<Rightarrow> nat \<Rightarrow> nat \<Rightarrow> u32 \<Rightarrow> 'a pmm_state_scheme \<Rightarrow> 'a pmm_state_scheme" where
  "fresh_state ms me tot fr us w s = s\<lparr>total_pages := tot, free_pages := fr, used_pages := us,
     bitmap_size := pmm_bitmap_bytes tot, memory_start := ms, memory_end := me,
     bitmap := (\<lambda>i. if i < pmm_bitmap_bytes tot div 4 then w else bitmap s i)\<rparr>"

lemma fresh_free_set:
  "free_set (fresh_state ms me tot fr us 0 s) = {..<tot}"
  "free_set (fresh_state ms me tot fr us (- 1) s) = {}"
proof -
  have "i div 32 < pmm_bitmap_bytes tot div 4" if "i < tot" for i
    using that bitmap_bytes_cover [of tot] by (simp add: less_mult_imp_div_less)
  then show "free_set (fresh_state ms me tot fr us 0 s) = {..<tot}"
    "free_set (fresh_state ms me tot fr us (- 1) s) = {}"
    by (auto simp: free_set_def test_iff fresh_state_def)
qed

lemma fresh_geom:
  assumes "unat me = unat ms + tot * 4096" "page_aligned ms" "ms \<noteq> 0"
  shows "geom_ok (fresh_state ms me tot fr us w s)"
  using assms bitmap_bytes_cover [of tot] by (simp add: geom_ok_def fresh_state_def)

lemma pmm_init_ok:
  assumes "init_bounds_ok mstart mend" "bv \<noteq> 0"
  shows "\<exists>t. pmm_init mstart mend bv s = (0, t) \<and> pmm_inv t \<and> total_pages t = init_pages mstart mend \<and>
    memory_start t = ALIGN_UP mstart PAGE_SIZE \<and> free_set t = {..<init_pages mstart mend}"
proof -
  let ?ms = "ALIGN_UP mstart PAGE_SIZE" and ?me = "ALIGN_DOWN mend PAGE_SIZE"
    and ?n = "init_pages mstart mend"
  define s0 where "s0 = fresh_state ?ms ?me ?n ?n 0 0 s"
  note g = init_geometry [OF assms(1)]
  have "geom_ok s0" using g by (simp add: s0_def fresh_geom)
  have F: "free_set s0 = {..<?n}" by (simp add: s0_def fresh_free_set)
  then have "counts_ok s0" by (simp add: counts_ok_def) (simp add: s0_def fresh_state_def)
  obtain u where u: "pmm_init mstart mend bv s = (0, pmm_rebuild_free_lists u)" "meta_only s0 u"
  proof -
    define a where "a = s\<lparr>total_pages := ?n, free_pages := ?n, used_pages := 0,
        bitmap_size := pmm_bitmap_bytes ?n, memory_start := ?ms, memory_end := ?me\<rparr>"
    define b where "b = pmm_zones_reset (pmm_regions_clear a)"
    define c where "c = b\<lparr>bitmap := (\<lambda>i. if i < pmm_bitmap_bytes ?n div 4 then 0 else bitmap b i)\<rparr>"
    define d where "d = pmm_setup_page_descs ?ms ?me bv (pmm_bitmap_bytes ?n) c"
    define e where "e = fold init_desc_free [0..<pages_count d] d"
    define f where "f = e\<lparr>usable_regions := pmm_add_region (usable_regions e) ?ms (?me - ?ms)\<rparr>"
    have "\<not> (bv = 0 \<or> mend \<le> mstart)" using assms by (auto simp: init_bounds_ok_def)
    then have "pmm_init mstart mend bv s = (0, pmm_rebuild_free_lists f)"
      by (simp only: pmm_init_def Let_def if_False init_pages_def a_def b_def c_def d_def e_def f_def)
    moreover have "meta_only a b"
      unfolding b_def by (rule meta_only_trans [OF meta_only_ops(1) meta_only_zones_reset])
    then have "meta_only s0 c"
      by (auto simp: meta_only_def c_def s0_def fresh_state_def a_def fun_eq_iff)
    moreover have "meta_only c d" unfolding d_def by (rule meta_only_ops)
    moreover have "meta_only d e" unfolding e_def by (rule meta_only_desc_loop)
    moreover have "meta_only e f" unfolding f_def by (rule meta_only_ops)
    ultimately show thesis using that meta_only_trans by metis
  qed
  note m = meta_only_ok [OF u(2)]
  have "geom_ok u" using \<open>geom_ok s0\<close> m(1) by (simp add: same_geom_ok)
  moreover have "counts_ok u" using \<open>counts_ok s0\<close> m(3) by simp
  ultimately show ?thesis
    using rebuild_inv_ok [of u] m u(1) F
    by (auto simp: same_geom_def s0_def fresh_state_def)
qed

text \<open>The entries of the memory map that \<open>pmm_init_from_mmap\<close> turns into free memory.\<close>

definition mmap_usable :: "mb2_mmap_entry \<Rightarrow> bool" where
  "mmap_usable e \<longleftrightarrow>
     mb_type e = MB2_MMAP_AVAILABLE \<and> mb_len e \<noteq> 0 \<and> mb_addr e + mb_len e \<ge> mb_addr e"

definition mmap_pages :: "(nat \<Rightarrow> mb2_mmap_entry) \<Rightarrow> nat \<Rightarrow> nat \<Rightarrow> 'a pmm_state_scheme \<Rightarrow> nat set" where
  "mmap_pages entry sz n s = (\<Union>k \<in> {k. k < n \<and> mmap_usable (entry (16 + k * sz))}.
     pages_inside s (mb_addr (entry (16 + k * sz)))
       (mb_addr (entry (16 + k * sz)) + mb_len (entry (16 + k * sz))))"

lemma pages_inside_geom: "same_geom s t \<Longrightarrow> pages_inside t a b = pages_inside s a b"
  by (simp add: same_geom_def pages_inside_def pmm_index_to_page_def)

lemma pages_touching_geom: "same_geom s t \<Longrightarrow> pages_touching t a b = pages_touching s a b"
  by (simp add: same_geom_def pages_touching_def pmm_index_to_page_def)

lemma mmap_free_available_ok:
  assumes "geom_ok s" "counts_ok s"
  shows "same_geom s (mmap_free_available entry sz n s) \<and> counts_ok (mmap_free_available entry sz n s) \<and>
    free_set (mmap_free_available entry sz n s) = free_set s \<union> mmap_pages entry sz n s"
proof (induction n)
  case 0
  then show ?case using assms by (simp add: mmap_free_available_def mmap_pages_def)
next
  case (Suc n)
  define t where "t = mmap_free_available entry sz n s"
  define e where "e = entry (16 + n * sz)"
  have t: "same_geom s t" "counts_ok t" "free_set t = free_set s \<union> mmap_pages entry sz n s"
    using Suc by (simp_all add: t_def)
  have gt: "geom_ok t" using t(1) assms(1) by (simp add: same_geom_ok)
  have step: "mmap_free_available entry sz (Suc n) s =
      (if mmap_usable e then pmm_mark_range_free (mb_addr e) (mb_addr e + mb_len e) t else t)"
    by (simp add: mmap_free_available_def mmap_usable_def t_def e_def Let_def)
  have pg: "mmap_pages entry sz (Suc n) s = mmap_pages entry sz n s \<union>
      (if mmap_usable e then pages_inside s (mb_addr e) (mb_addr e + mb_len e) else {})"
    by (auto simp: mmap_pages_def e_def less_Suc_eq)
  show ?case
    using t mark_range_free_ok [OF gt t(2), of "mb_addr e" "mb_addr e + mb_len e"]
      same_geom_trans [OF t(1)] pages_inside_geom [OF t(1)]
    unfolding step pg by auto
qed

lemma bitmap_bytes_bound: "n \<le> 2 ^ 23 \<Longrightarrow> pmm_bitmap_bytes n \<le> PMM_BITMAP_MAX_SIZE"
proof -
  assume "n \<le> 2 ^ 23"
  then have "(n + 7) div 8 \<le> 2 ^ 20" using div_le_mono [of "n + 7" "2 ^ 23 + 7" 8] by simp
  then have "((n + 7) div 8 + 4095) div 4096 \<le> 256"
    using div_le_mono [of "(n + 7) div 8 + 4095" "2 ^ 20 + 4095" 4096] by simp
  then show ?thesis by (simp add: pmm_bitmap_bytes_def)
qed

lemma mmap_clip_ok:
  assumes "mmap_clip ms me = (me', tot, bs)" "unat me = unat ms + n * 4096"
  shows "bs = pmm_bitmap_bytes tot" "unat me' = unat ms + tot * 4096" "tot = min n (2 ^ 23)"
    "bs \<le> PMM_BITMAP_MAX_SIZE"
proof -
  have "ms \<le> me" using assms(2) by (simp add: word_le_nat_alt)
  then have n: "unat ((me - ms) div 4096) = n"
    using assms(2) by (simp add: unat_div unat_sub)
  have "bs = pmm_bitmap_bytes tot \<and> unat me' = unat ms + tot * 4096 \<and> tot = min n (2 ^ 23)"
  proof (cases "pmm_bitmap_bytes n > PMM_BITMAP_MAX_SIZE")
    case False
    have "n \<le> 2 ^ 23" using False bitmap_bytes_cover [of n] by simp
    with False show ?thesis using assms n by (auto simp: mmap_clip_def Let_def)
  next
    case True
    then have big: "2 ^ 23 < n" using bitmap_bytes_bound [of n] by (meson not_le)
    then have "unat ms + 2 ^ 35 < 2 ^ 64" using assms(2) unat_lt_64 [of me] by simp
    then have "unat (ms + 0x800000000) = unat ms + 2 ^ 35" by (simp add: unat_word_ariths)
    with True big show ?thesis
      using assms(1) n by (auto simp: mmap_clip_def Let_def unat_div)
  qed
  then show "bs = pmm_bitmap_bytes tot" "unat me' = unat ms + tot * 4096" "tot = min n (2 ^ 23)"
    "bs \<le> PMM_BITMAP_MAX_SIZE" using bitmap_bytes_bound [of tot] by auto
qed

definition desc_base :: "u64 \<Rightarrow> nat \<Rightarrow> u64" where
  "desc_base bp bs = (bp + of_nat bs + 7) AND NOT 7"


lemma mark_page_count [simp]:
  "pages_count (mark_page_free a s) = pages_count s" "pages_count (mark_page_used a s) = pages_count s"
  by (simp_all add: mark_page_free_def mark_page_used_def Let_def upd_zone_def)

lemma mark_range_count [simp]:
  "pages_count (pmm_mark_range_free a b s) = pages_count s"
  "pages_count (pmm_mark_range_used a b s) = pages_count s"
proof -
  have "pages_count (fold mark_page_free as s) = pages_count s"
    "pages_count (fold mark_page_used as s) = pages_count s" for as
    by (induction as arbitrary: s) simp_all
  then show "pages_count (pmm_mark_range_free a b s) = pages_count s"
    "pages_count (pmm_mark_range_used a b s) = pages_count s"
    by (simp_all add: pmm_mark_range_free_def pmm_mark_range_used_def Let_def)
qed

lemma mmap_free_available_count [simp]:
  "pages_count (mmap_free_available entry sz n s) = pages_count s"
  by (induction n) (simp_all add: mmap_free_available_def Let_def)

lemma pages_touching_none: "total_pages s = 0 \<Longrightarrow> pages_touching s a b = {}"
  by (simp add: pages_touching_def)

lemma mark_range_used_any:
  assumes "geom_ok s" "counts_ok s" "st < e \<or> total_pages s = 0"
  shows "free_set (pmm_mark_range_used st e s) = free_set s - pages_touching s st e"
proof (cases "st < e")
  case True
  then show ?thesis using mark_range_used_ok [OF assms(1,2)] by blast
next
  case False
  then have "pmm_mark_range_used st e s = s" by (simp add: pmm_mark_range_used_def not_less)
  then show ?thesis using False assms(3) by (simp add: pages_touching_none)
qed

definition desc_pages :: "u64 \<Rightarrow> nat \<Rightarrow> nat \<Rightarrow> 'a pmm_state_scheme \<Rightarrow> nat set" where
  "desc_pages bp bs n s = (if n > 0 then pages_touching s (desc_base bp bs)
     (desc_base bp bs + of_nat n * 16) else {})"


lemma fold_count:
  "(\<And>x s. pages_count (f x s) = pages_count s) \<Longrightarrow> pages_count (fold f xs s) = pages_count s"
  by (induction xs arbitrary: s) simp_all

lemma mmio_count [simp]: "pages_count (pmm_mark_range_mmio a b s) = pages_count s"
proof -
  have "pages_count (fold (\<lambda>addr s. let index = pmm_page_to_index s addr in if index < pages_count s
      then s\<lparr>pages := (pages s)(index := (pages s index)\<lparr>pd_zone := PMM_ZONE_MMIO\<rparr>)\<rparr> else s) xs s)
      = pages_count s" for xs
    by (rule fold_count) (simp add: Let_def)
  then show ?thesis by (simp add: pmm_mark_range_mmio_def Let_def)
qed

lemma scan_count [simp]: "pages_count (mmap_scan_regions entry sz n s) = pages_count s"
  unfolding mmap_scan_regions_def by (rule fold_count) (simp add: Let_def)

lemma desc_loop_count: "pages_count (fold init_desc_used is s) = pages_count s"
  by (rule fold_count) (simp add: init_desc_used_def Let_def upd_zone_def)

lemma mmap_populate_ok:
  assumes "geom_ok s" "counts_ok s" "free_set s = {}" "bp < bp + of_nat bs \<or> total_pages s = 0"
    and "pages_count s > 0 \<Longrightarrow>
      desc_base bp bs < desc_base bp bs + of_nat (pages_count s) * 16 \<or> total_pages s = 0"
    and "t = mmap_populate bp bs entry sz n s"
  shows "pmm_inv t \<and> same_geom s t \<and> free_set t = mmap_pages entry sz n s -
      pages_touching s bp (bp + of_nat bs) - desc_pages bp bs (pages_count s) s \<and>
    pages_count t = pages_count s"
proof -
  define a where "a = (if pages_count s > 0 then (let s = mmap_scan_regions entry sz n s
      in fold init_desc_used [0..<pages_count s] s) else s)"
  have a: "meta_only s a" "pages_count a = pages_count s"
    unfolding a_def Let_def
    by (simp_all add: desc_loop_count meta_only_trans [OF meta_only_scan meta_only_desc_loop(2)])
  note ma = meta_only_ok [OF a(1)]
  have ga: "geom_ok a" "counts_ok a" using assms(1,2) ma by (simp_all add: same_geom_ok)
  define b where "b = mmap_free_available entry sz n a"
  have b: "same_geom s b" "counts_ok b" "free_set b = mmap_pages entry sz n s"
    "pages_count b = pages_count s"
    using mmap_free_available_ok [OF ga] ma assms(3) a(2) same_geom_trans [OF ma(1)]
    by (auto simp: b_def mmap_pages_def pages_inside_geom [OF ma(1)])
  then have gb: "geom_ok b" using assms(1) by (simp add: same_geom_ok)
  define c where "c = pmm_mark_range_used bp (bp + of_nat bs) b"
  have nb: "bp < bp + of_nat bs \<or> total_pages b = 0" using assms(4) b(1) by (simp add: same_geom_def)
  have c: "same_geom s c" "counts_ok c" "pages_count c = pages_count s"
    "free_set c = mmap_pages entry sz n s - pages_touching s bp (bp + of_nat bs)"
    using mark_range_used_ok [OF gb b(2)] mark_range_used_any [OF gb b(2) nb] b(3,4)
      same_geom_trans [OF b(1)] pages_touching_geom [OF b(1)]
    by (auto simp: c_def)
  define d where "d = c\<lparr>reserved_regions := pmm_add_region (reserved_regions c) bp (of_nat bs)\<rparr>"
  have md: "meta_only c d" unfolding d_def by (rule meta_only_ops)
  have d: "same_geom s d" "counts_ok d" "pages_count d = pages_count s" "free_set d = free_set c"
    using meta_only_ok [OF md] c same_geom_trans [OF c(1)] by (simp_all add: d_def)
  have gd: "geom_ok d" using assms(1) d(1) by (simp add: same_geom_ok)
  let ?dp = "desc_base bp bs" and ?ds = "of_nat (pages_count s) * 16 :: u64"
  define e where "e = (if pages_count s > 0 then pmm_mark_range_used ?dp (?dp + ?ds) d else d)"
  have e: "same_geom s e" "counts_ok e"
    "free_set e = free_set c - desc_pages bp bs (pages_count s) s"
    using mark_range_used_ok(1,2) [OF gd d(2)] mark_range_used_any [OF gd d(2)] d(1,2,4) assms(5)
      same_geom_trans [OF d(1)] pages_touching_geom [OF d(1)]
    by (auto simp: e_def desc_pages_def same_geom_def)
  define f where "f = (if pages_count s > 0
      then e\<lparr>reserved_regions := pmm_add_region (reserved_regions e) ?dp ?ds\<rparr> else e)"
  have "meta_only e f" by (simp add: f_def meta_only_ops)
  note mf = meta_only_ok [OF this]
  have gf: "geom_ok f" "counts_ok f"
    using e mf assms(1) same_geom_trans [OF e(1) mf(1)] by (simp_all add: same_geom_ok)
  have "t = pmm_rebuild_free_lists f"
    using d(3) a(2) unfolding assms(6) mmap_populate_def a_def [symmetric] b_def [symmetric]
      c_def [symmetric] d_def [symmetric] desc_base_def [symmetric]
    by (simp add: e_def f_def Let_def a_def [symmetric] b_def [symmetric] c_def [symmetric]
        d_def [symmetric] desc_base_def [symmetric])
  moreover have "pages_count f = pages_count s"
    using d(3) by (simp add: f_def e_def)
  moreover have "pages_count (pmm_rebuild_free_lists f) = pages_count f"
    using rebuild_ok(1) [of f] by auto
  ultimately show ?thesis
    using rebuild_inv_ok [OF gf] mf e c same_geom_trans [OF e(1) mf(1)]
      same_geom_trans [OF same_geom_trans [OF e(1) mf(1)]] by auto
qed


lemma word_less_add: "unat (x::u64) + k < 2 ^ 64 \<Longrightarrow> 0 < k \<Longrightarrow> x < x + of_nat k"
  by (simp add: word_less_nat_alt unat_word_ariths unat_of_nat)

lemma unat_desc_base: "unat (desc_base bp bs) \<le> unat (bp + of_nat bs + 7)"
proof -
  have "(7 :: u64) = mask 3" by (simp add: mask_eq_exp_minus_1)
  then show ?thesis
    using unat_and_not_mask [of "bp + of_nat bs + 7" 3] by (simp add: desc_base_def)
qed

lemma init_from_mmap_ok:
  assumes "init_bounds_ok mstart mend" "bv \<noteq> 0" "sz \<noteq> 0" "16 < msize" "unat bp < 2 ^ 63"
  shows "\<exists>t. pmm_init_from_mmap mstart mend bv bp (Some entry) msize sz s = (RDNX_OK, t) \<and>
    pmm_inv t \<and> memory_start t = ALIGN_UP mstart PAGE_SIZE \<and>
    total_pages t = min (init_pages mstart mend) (2 ^ 23) \<and>
    free_set t = mmap_pages entry sz (min ((msize - 16) div sz) 4096) t -
      pages_touching t bp (bp + of_nat (bitmap_size t)) -
      desc_pages bp (bitmap_size t) (pages_count t) t"
proof -
  let ?ms = "ALIGN_UP mstart PAGE_SIZE" and ?n = "min ((msize - 16) div sz) 4096"
  obtain me tot bs where clip: "mmap_clip ?ms (ALIGN_DOWN mend PAGE_SIZE) = (me, tot, bs)"
    by (metis prod_cases3)
  note g = init_geometry [OF assms(1)]
  note c = mmap_clip_ok [OF clip g(1)]
  define s0 where "s0 = fresh_state ?ms me tot 0 tot (- 1) s"
  have geo: "geom_ok s0" using g c by (simp add: s0_def fresh_geom)
  have F: "free_set s0 = {}" by (simp add: s0_def fresh_free_set)
  then have cnt: "counts_ok s0" by (simp add: counts_ok_def) (simp add: s0_def fresh_state_def)
  define a where "a = pmm_bitmap_set_all (s\<lparr>total_pages := tot, free_pages := 0, used_pages := tot,
      bitmap_size := bs, memory_start := ?ms, memory_end := me\<rparr>)"
  define d where "d = pmm_setup_page_descs ?ms me bp bs (pmm_zones_reset (pmm_regions_clear a))"
  define t where "t = mmap_populate bp bs entry sz ?n d"
  have "\<not> (bv = 0 \<or> mend \<le> mstart \<or> sz = 0)" "\<not> msize \<le> 16"
    using assms by (auto simp: init_bounds_ok_def)
  then have run: "pmm_init_from_mmap mstart mend bv bp (Some entry) msize sz s = (RDNX_OK, t)"
    by (simp only: pmm_init_from_mmap_def option.case Let_def if_False clip prod.case a_def d_def
        t_def)
  have "meta_only s0 a"
    using c(1) 
    by (auto simp: meta_only_def s0_def a_def fresh_state_def pmm_bitmap_set_all_def fun_eq_iff)
  then have "meta_only s0 d"
    unfolding d_def
    by (intro meta_only_trans [OF _ meta_only_ops(3)] meta_only_trans [OF _ meta_only_zones_reset]
        meta_only_trans [OF _ meta_only_ops(1)])
  note m = meta_only_ok [OF this]
  have "geom_ok d" "counts_ok d" "free_set d = {}"
    using geo cnt F m same_geom_ok [OF m(1)] by simp_all
  moreover have "total_pages d = tot" "bitmap_size d = bs" "memory_start d = ?ms"
    using m(1) c(1) by (simp_all add: same_geom_def s0_def fresh_state_def)
  ultimately have gd: "geom_ok d" "counts_ok d" "free_set d = {}" "total_pages d = tot"
    "bitmap_size d = bs" "memory_start d = ?ms" by blast+
  have pc: "pages_count d = 0 \<or> pages_count d = tot"
    using c(2) by (simp add: d_def pmm_setup_page_descs_def Let_def unat_div unat_sub word_le_nat_alt)
  have bp: "unat bp + bs + 7 < 2 ^ 64" using assms(5) c(4) by simp
  have "bp < bp + of_nat bs \<or> total_pages d = 0"
  proof (cases "tot = 0")
    case False
    then have "0 < bs" using bitmap_bytes_cover [of tot] by (intro gr0I) (simp add: c(1))
    then show ?thesis using bp by (intro disjI1 word_less_add) simp_all
  qed (simp add: gd)
  moreover have "desc_base bp bs < desc_base bp bs + of_nat (pages_count d) * 16 \<or>
      total_pages d = 0" if "pages_count d > 0"
  proof -
    have "unat (bp + of_nat bs + 7) = unat bp + bs + 7"
      using bp c(4) by (simp add: unat_word_ariths unat_of_nat)
    then have "unat (desc_base bp bs) + tot * 16 < 2 ^ 64"
      using unat_desc_base [of bp bs] assms(5) c(3,4) by simp
    moreover have "tot > 0" "pages_count d = tot" using that pc by auto
    ultimately show ?thesis using word_less_add [of "desc_base bp bs" "tot * 16"] by simp
  qed
  ultimately have "pmm_inv t \<and> same_geom d t \<and> free_set t = mmap_pages entry sz ?n d -
      pages_touching d bp (bp + of_nat bs) - desc_pages bp bs (pages_count d) d \<and>
      pages_count t = pages_count d"
    by (intro mmap_populate_ok [OF gd(1-3) _ _ t_def])
  then show ?thesis
    using run gd c(3)
    by (auto simp: same_geom_def mmap_pages_def desc_pages_def pages_inside_def pages_touching_def
        pmm_index_to_page_def)
qed

end
