(* ===== verification/PmmProps.thy ===== *)
theory PmmProps
  imports PmmInv
begin

text \<open>
  The contract of the physical memory manager towards its clients, and its properties.
\<close>


section \<open>The frame allocator contract\<close>

text \<open>
  What the rest of the kernel relies on when it asks for a page frame: the frame was free, is
  page aligned, is zeroed, and is not handed out again before it is released. \<open>frames\<close> is the
  set of free frames by address.
\<close>

definition free_frames :: "'a pmm_state_scheme \<Rightarrow> u64 set" where
  "free_frames s = pmm_index_to_page s ` free_set s"

locale frame_source =
  fixes inv :: "'s \<Rightarrow> bool" and frames :: "'s \<Rightarrow> u64 set" and mem :: "'s \<Rightarrow> bytes"
    and alloc :: "'s \<Rightarrow> u64 \<times> 's"
  assumes alloc_inv: "inv s \<Longrightarrow> alloc s = (p, t) \<Longrightarrow> inv t"
    and alloc_zero: "inv s \<Longrightarrow> alloc s = (0, t) \<Longrightarrow> frames t = frames s \<and> mem t = mem s"
    and alloc_some: "inv s \<Longrightarrow> alloc s = (p, t) \<Longrightarrow> p \<noteq> 0 \<Longrightarrow>
      p \<in> frames s \<and> page_aligned p \<and> frames t = frames s - {p} \<and> mem t = mem_set (mem s) p 0 4096"
begin

lemma alloc_twice_distinct:
  "inv s \<Longrightarrow> alloc s = (p, t) \<Longrightarrow> alloc t = (q, u) \<Longrightarrow> p \<noteq> 0 \<Longrightarrow> q \<noteq> 0 \<Longrightarrow> p \<noteq> q"
  using alloc_some [of s p t] alloc_some [of t q u] alloc_inv [of s p t] by auto

lemma alloc_mem_other:
  "inv s \<Longrightarrow> alloc s = (p, t) \<Longrightarrow> p = 0 \<or> 4096 \<le> unat (a - p) \<Longrightarrow> mem t a = mem s a"
  using alloc_some [of s p t] alloc_zero [of s t] by (cases "p = 0") (auto simp: mem_set_def)

end

locale frame_allocator = frame_source inv frames mem alloc
  for inv :: "'s \<Rightarrow> bool" and frames :: "'s \<Rightarrow> u64 set" and mem :: "'s \<Rightarrow> bytes"
    and alloc :: "'s \<Rightarrow> u64 \<times> 's" +
  fixes release :: "u64 \<Rightarrow> 's \<Rightarrow> 's"
  assumes alloc_none: "inv s \<Longrightarrow> alloc s = (0, t) \<Longrightarrow> frames s = {}"
    and release_some: "inv s \<Longrightarrow> alloc s = (p, t) \<Longrightarrow> p \<noteq> 0 \<Longrightarrow>
      inv (release p t) \<and> frames (release p t) = insert p (frames t) \<and> mem (release p t) = mem t"
begin

lemma alloc_succeeds: "inv s \<Longrightarrow> frames s \<noteq> {} \<Longrightarrow> fst (alloc s) \<noteq> 0"
  using alloc_none [of s "snd (alloc s)"] by (metis prod.collapse)

lemma alloc_release_frames:
  "inv s \<Longrightarrow> alloc s = (p, t) \<Longrightarrow> p \<noteq> 0 \<Longrightarrow> inv (release p t) \<and> frames (release p t) = frames s"
  using alloc_some [of s p t] release_some [of s p t] by auto

end

lemma free_frames_geom:
  "same_geom s t \<Longrightarrow> free_frames t = pmm_index_to_page s ` free_set t"
  by (simp add: free_frames_def same_geom_def pmm_index_to_page_def)

lemma frames_minus:
  assumes "geom_ok s" "i \<in> free_set s" "F \<subseteq> free_set s"
  shows "pmm_index_to_page s ` (F - {i}) = pmm_index_to_page s ` F - {pmm_index_to_page s i}"
proof -
  have "inj_on (pmm_index_to_page s) (free_set s)"
    using geom_page(5) [OF assms(1)] by (intro inj_on_inverseI [of _ "pmm_page_to_index s"])
      (auto simp: free_set_def)
  then show ?thesis using assms(2,3) by (auto dest: inj_onD)
qed

lemma free_frames_aligned:
  assumes "pmm_inv s" "p \<in> free_frames s"
  shows "page_aligned p" "p \<noteq> 0"
  using assms geom_page [of s] by (auto simp: free_frames_def free_set_def pmm_inv_def)

text \<open>Both single-page allocators serve as frame sources: what a successful call does.\<close>

lemma frame_source_spec:
  assumes "pmm_inv s" "i \<in> free_set s" "p = pmm_index_to_page s i" "same_geom s t"
    and "free_set t = free_set s - {i}"
  shows "p \<in> free_frames s \<and> page_aligned p \<and> free_frames t = free_frames s - {p}"
proof -
  have g: "geom_ok s" using assms(1) by (simp add: pmm_inv_def)
  have "i < total_pages s" using assms(2) by (simp add: free_set_def)
  note gp = geom_page [OF g this]
  show ?thesis
    using assms(2,3,5) gp frames_minus [OF g assms(2) subset_refl]
    unfolding free_frames_geom [OF assms(4)] free_frames_def [of s] by simp
qed

lemma frame_source_zone:
  assumes "z < PMM_ZONE_COUNT"
  shows "frame_source pmm_inv free_frames pmem
    (pmm_alloc_page_in_zone z :: 'a pmm_state_scheme \<Rightarrow> _)"
proof
  fix s t :: "'a pmm_state_scheme" and p
  assume s: "pmm_inv s" and a: "pmm_alloc_page_in_zone z s = (p, t)"
  note spec = alloc_page_in_zone_spec [OF s assms a]
  show "pmm_inv t" using spec s by auto
  assume "p \<noteq> 0"
  then obtain i where i: "i \<in> free_set s" "p = pmm_index_to_page s i" "same_geom s t"
    "free_set t = free_set s - {i}" "pmem t = mem_set (pmem s) p 0 4096"
    using spec by blast
  show "p \<in> free_frames s \<and> page_aligned p \<and> free_frames t = free_frames s - {p} \<and>
      pmem t = mem_set (pmem s) p 0 4096"
    using frame_source_spec [OF s i(1-4)] i(5) by blast
next
  fix s t :: "'a pmm_state_scheme"
  assume s: "pmm_inv s" and a: "pmm_alloc_page_in_zone z s = (0, t)"
  have "pmm_index_to_page s i \<noteq> 0" if "i \<in> free_set s" for i
    using s that geom_page(2) by (auto simp: pmm_inv_def free_set_def)
  then have "t = memory_oom_inc_pmm s" using alloc_page_in_zone_spec [OF s assms a] by auto
  then show "free_frames t = free_frames s \<and> pmem t = pmem s" by (simp add: free_frames_def)
qed

interpretation fa: frame_allocator pmm_inv free_frames pmem pmm_alloc_page pmm_free_page
proof
  fix s t :: "'a pmm_state_scheme" and p
  assume s: "pmm_inv s" and a: "pmm_alloc_page s = (p, t)"
  note spec = alloc_page_spec [OF s a]
  show "pmm_inv t" using spec by blast
  assume "p \<noteq> 0"
  then obtain i where i: "i \<in> free_set s" "p = pmm_index_to_page s i" "same_geom s t"
    "free_set t = free_set s - {i}" "pmem t = mem_set (pmem s) p 0 4096" "pmm_inv t"
    using spec by blast
  show "p \<in> free_frames s \<and> page_aligned p \<and> free_frames t = free_frames s - {p} \<and>
      pmem t = mem_set (pmem s) p 0 4096"
    using frame_source_spec [OF s i(1-4)] i(5) by blast
  have g: "geom_ok s" "i < total_pages s" using s i(1) by (simp_all add: pmm_inv_def free_set_def)
  have r: "memory_start t \<le> p" "p < memory_end t" "page_aligned p" "i = pmm_page_to_index t p"
    using i(2,3) geom_page [OF g] by (simp_all add: same_geom_def same_geom_to_index [OF i(3)])
  note f = free_page_spec [OF i(6) r]
  show "pmm_inv (pmm_free_page p t) \<and> free_frames (pmm_free_page p t) = insert p (free_frames t) \<and>
      pmem (pmm_free_page p t) = pmem t"
    using f i(2) same_geom_index [OF i(3)]
    unfolding free_frames_geom [OF f(3)] free_frames_def [of t] by simp
next
  fix s t :: "'a pmm_state_scheme"
  assume s: "pmm_inv s" and a: "pmm_alloc_page s = (0, t)"
  have "pmm_index_to_page s i \<noteq> 0" if "i \<in> free_set s" for i
    using s that geom_page(2) by (auto simp: pmm_inv_def free_set_def)
  then have "free_set s = {} \<and> free_set t = {} \<and> pmem t = pmem s"
    using alloc_page_spec [OF s a] by auto
  then show "free_frames t = free_frames s \<and> pmem t = pmem s" "free_frames s = {}"
    by (simp_all add: free_frames_def)
qed

section \<open>Releasing runs\<close>

lemma free_pages_ok:
  assumes "pmm_inv s"
  shows "pmm_inv (pmm_free_pages p c s) \<and> same_geom s (pmm_free_pages p c s) \<and>
    free_set (pmm_free_pages p c s) = free_set s \<union>
      pmm_page_to_index s ` ((\<lambda>i. p + of_nat (i * 4096 mod 2 ^ 32)) ` {..<c} \<inter> managed s)"
proof (induction c)
  case 0
  then show ?case using assms by (simp add: pmm_free_pages_def)
next
  case (Suc c)
  define t a where "t = pmm_free_pages p c s" and "a = p + of_nat (c * 4096 mod 2 ^ 32)"
  have step: "pmm_free_pages p (Suc c) s = pmm_free_page a t"
    by (simp add: pmm_free_pages_def t_def a_def)
  have t: "pmm_inv t" "same_geom s t" using Suc by (simp_all add: t_def)
  have A: "(\<lambda>i. p + of_nat (i * 4096 mod 2 ^ 32)) ` {..<Suc c} =
      insert a ((\<lambda>i. p + of_nat (i * 4096 mod 2 ^ 32)) ` {..<c})"
    by (simp add: lessThan_Suc a_def)
  show ?case
  proof (cases "a \<in> managed s")
    case True
    then have m: "memory_start t \<le> a" "a < memory_end t" "page_aligned a"
      using t(2) by (auto simp: managed_def same_geom_def)
    note f = free_page_spec [OF t(1) m refl]
    show ?thesis
      using f Suc True same_geom_trans [OF t(2) f(3)] same_geom_to_index [OF t(2)]
      unfolding step A t_def [symmetric] by auto
  next
    case False
    then have "pmm_free_page a t = t"
      using t(2) by (auto simp: pmm_free_page_def managed_def page_aligned_def same_geom_def
          not_le not_less)
    then show ?thesis using Suc False unfolding step A t_def [symmetric] by simp
  qed
qed

section \<open>Properties\<close>

text \<open>A small machine: four free pages at 16 MiB.\<close>

definition pmm_blank :: pmm_state where
  "pmm_blank = \<lparr>pmem = (\<lambda>_. 0), memory_oom_pmm = 0, memory_oom_vmm = 0, memory_oom_heap = 0,
     total_pages = 0, free_pages = 0, used_pages = 0, bitmap_size = 0, bitmap = (\<lambda>_. 0),
     memory_start = 0, memory_end = 0,
     pages = (\<lambda>_. \<lparr>pd_phys = 0, pd_zone = 0, pd_state = 0, pd_reserved = 0\<rparr>), pages_count = 0,
     zones = (\<lambda>_. \<lparr>z_total_pages = 0, z_free_pages = 0, z_used_pages = 0, free_ranges = []\<rparr>),
     usable_regions = [], reserved_regions = []\<rparr>"

definition pmm_demo :: pmm_state where
  "pmm_demo = snd (pmm_init 0x1000000 0x1004000 0x200000 pmm_blank)"

lemma demo_bounds: "init_bounds_ok 0x1000000 0x1004000" "init_pages 0x1000000 0x1004000 = 4"
  by (simp_all add: init_bounds_ok_def init_pages_def ALIGN_UP_def ALIGN_DOWN_def)

lemma demo_inv: "pmm_inv pmm_demo" "free_set pmm_demo = {..<4}" "memory_start pmm_demo = 0x1000000"
  "total_pages pmm_demo = 4"
proof -
  obtain t where "pmm_init 0x1000000 0x1004000 0x200000 pmm_blank = (0, t)" "pmm_inv t"
    "total_pages t = 4" "memory_start t = ALIGN_UP 0x1000000 PAGE_SIZE" "free_set t = {..<4}"
    using pmm_init_ok [OF demo_bounds(1), of "0x200000" pmm_blank] demo_bounds(2) by auto
  then show "pmm_inv pmm_demo" "free_set pmm_demo = {..<4}" "memory_start pmm_demo = 0x1000000"
    "total_pages pmm_demo = 4"
    by (simp_all add: pmm_demo_def ALIGN_UP_def)
qed


text \<open>
  C2: single-page allocation. In a consistent allocator state \<open>pmm_alloc_page\<close> returns 0 exactly
  when no page is free; otherwise it returns the address of a free page (non-zero, page aligned,
  inside managed memory), takes exactly that page out of the free set and zeroes its 4096 bytes
  and nothing else. The invariant is kept.
\<close>
theorem pmm_alloc_page_correct:
  assumes "pmm_inv s" and "pmm_alloc_page s = (p, t)"
  shows "pmm_inv t \<and> (p = 0 \<longleftrightarrow> free_set s = {}) \<and>
    (p = 0 \<longrightarrow> free_set t = {} \<and> pmem t = pmem s) \<and>
    (p \<noteq> 0 \<longrightarrow> (\<exists>i \<in> free_set s. p = pmm_index_to_page s i \<and> page_aligned p \<and>
       memory_start s \<le> p \<and> p < memory_end s \<and> free_set t = free_set s - {i} \<and>
       pmem t = mem_set (pmem s) p 0 4096))"
proof -
  have page: "page_aligned (pmm_index_to_page s i)" "pmm_index_to_page s i \<noteq> 0"
    "memory_start s \<le> pmm_index_to_page s i" "pmm_index_to_page s i < memory_end s"
    if "i \<in> free_set s" for i
    using assms(1) that geom_page [of s i] by (auto simp: pmm_inv_def free_set_def)
  show ?thesis using alloc_page_spec [OF assms] page by (cases "p = 0") auto
qed

theorem pmm_alloc_page_correct_witness:
  "\<exists>p t. pmm_alloc_page pmm_demo = (p, t) \<and> p \<noteq> 0 \<and> pmm_inv t \<and> card (free_set t) = 3"
proof -
  obtain p t where a: "pmm_alloc_page pmm_demo = (p, t)" by fastforce
  note c = pmm_alloc_page_correct [OF demo_inv(1) a]
  then have p: "p \<noteq> 0" by (auto simp: demo_inv(2) lessThan_empty_iff)
  then obtain i where "i \<in> free_set pmm_demo" "free_set t = free_set pmm_demo - {i}"
    using c by blast
  then have "card (free_set t) = 3" by (simp add: demo_inv(2))
  then show ?thesis using a c p by blast
qed

text \<open>
  C18: contiguous allocation. For a positive count, \<open>pmm_alloc_pages_in_zone\<close> returns 0 and changes
  nothing exactly when the zone has no run of that many free pages, on the free-list path as well
  as on the bitmap fallback; otherwise it returns the first page of such a run, takes exactly the
  run out of the free set, and zeroes exactly its bytes. The invariant is kept.
\<close>
theorem pmm_alloc_pages_in_zone_correct:
  assumes "pmm_inv s" "z < PMM_ZONE_COUNT" "0 < c" and "pmm_alloc_pages_in_zone z c s = (p, t)"
  shows "pmm_inv t \<and> (p = 0 \<longleftrightarrow> \<not> (\<exists>st. free_run s z st c)) \<and>
    (p = 0 \<longrightarrow> t = s) \<and>
    (p \<noteq> 0 \<longrightarrow> (\<exists>st. free_run s z st c \<and> p = pmm_index_to_page s st \<and>
       free_set t = free_set s - {st..<st + c} \<and> pmem t = mem_set (pmem s) p 0 (c * 4096)))"
proof -
  have nz: "pmm_index_to_page s st \<noteq> 0" if "free_run s z st c" for st
  proof -
    have "st \<in> free_set s" using that assms(3) by (simp add: free_run_def)
    then show ?thesis using assms(1) geom_page(2) by (auto simp: pmm_inv_def free_set_def)
  qed
  show ?thesis
    using alloc_pages_in_zone_spec [OF assms] nz assms(1) by (cases "p = 0") auto
qed

theorem pmm_alloc_pages_in_zone_correct_witness:
  "\<exists>p t. pmm_alloc_pages_in_zone PMM_ZONE_NORMAL 2 pmm_demo = (p, t) \<and> p \<noteq> 0 \<and> pmm_inv t"
proof -
  obtain p t where a: "pmm_alloc_pages_in_zone PMM_ZONE_NORMAL 2 pmm_demo = (p, t)" by fastforce
  note c = pmm_alloc_pages_in_zone_correct [OF demo_inv(1) _ _ a]
  have "page_zone pmm_demo i = PMM_ZONE_NORMAL" if "i < 2" for i
    using that demo_inv(3)
    by (auto simp: page_zone_def pmm_zone_for_addr_def pmm_index_to_page_def less_2_cases_iff)
  then have "free_run pmm_demo PMM_ZONE_NORMAL 0 2" by (auto simp: free_run_def demo_inv(2))
  then show ?thesis using a c by auto
qed

text \<open>
  C19: releasing a page. For a page-aligned address of managed memory \<open>pmm_free_page\<close> adds exactly
  that page to the free set (a page that is free already stays free, so a double free is
  harmless), leaves memory contents alone and keeps the invariant, even when the zone's range
  list is full; any other address is ignored.
\<close>
theorem pmm_free_page_correct:
  assumes "pmm_inv s"
  shows "pmm_inv (pmm_free_page p s) \<and> pmem (pmm_free_page p s) = pmem s \<and>
    (if memory_start s \<le> p \<and> p < memory_end s \<and> page_aligned p
     then free_set (pmm_free_page p s) = insert (pmm_page_to_index s p) (free_set s)
     else pmm_free_page p s = s)"
proof (cases "memory_start s \<le> p \<and> p < memory_end s \<and> page_aligned p")
  case True
  then show ?thesis using free_page_spec [OF assms _ _ _ refl, of p] by simp
next
  case False
  then have "pmm_free_page p s = s"
    by (auto simp: pmm_free_page_def page_aligned_def not_le not_less)
  then show ?thesis using False assms by auto
qed

theorem pmm_free_page_correct_witness:
  "pmm_inv pmm_demo \<and> pmm_inv (pmm_free_page 0x1002000 pmm_demo) \<and> pmm_free_page 7 pmm_demo = pmm_demo"
  using pmm_free_page_correct [OF demo_inv(1), of "0x1002000"]
    pmm_free_page_correct [OF demo_inv(1), of 7] demo_inv(1,3) by simp

text \<open>
  allocation and release are inverse on the free set. A page obtained from \<open>pmm_alloc_page\<close>
  and handed to \<open>pmm_free_page\<close> leaves exactly the original pages free, and in between it is not
  handed out a second time.
\<close>
theorem pmm_alloc_free_roundtrip:
  assumes "pmm_inv s" "pmm_alloc_page s = (p, t)" "p \<noteq> 0"
  shows "pmm_inv (pmm_free_page p t) \<and> free_frames (pmm_free_page p t) = free_frames s \<and>
    p \<notin> free_frames t \<and> fst (pmm_alloc_page t) \<noteq> p"
proof -
  have "fst (pmm_alloc_page t) \<noteq> p"
    using fa.alloc_twice_distinct [OF assms(1,2)] assms(3) by (metis prod.collapse)
  then show ?thesis
    using fa.alloc_release_frames [OF assms] fa.alloc_some [OF assms] by simp
qed

theorem pmm_alloc_free_roundtrip_witness:
  "\<exists>p t. pmm_alloc_page pmm_demo = (p, t) \<and> p \<noteq> 0 \<and>
     free_frames (pmm_free_page p t) = free_frames pmm_demo"
proof -
  obtain p t where a: "pmm_alloc_page pmm_demo = (p, t)" by fastforce
  have "free_frames pmm_demo \<noteq> {}" by (simp add: free_frames_def demo_inv(2) lessThan_empty_iff)
  then have "p \<noteq> 0" using fa.alloc_succeeds [OF demo_inv(1)] a by simp
  then show ?thesis using a pmm_alloc_free_roundtrip [OF demo_inv(1) a] by blast
qed

text \<open>
  C20: range operations. \<open>pmm_reserve_range\<close> takes every page that overlaps \<open>[st, e)\<close> out of the
  free set and \<open>pmm_release_range\<close> frees every page that lies wholly inside it; both keep the
  invariant (counters and rebuilt range lists included) for any range, also one that reaches
  outside managed memory.
\<close>
theorem pmm_range_correct:
  assumes "pmm_inv s" "st < e"
  shows "pmm_inv (pmm_reserve_range st e s) \<and>
    free_set (pmm_reserve_range st e s) = free_set s - pages_touching s st e \<and>
    pmm_inv (pmm_release_range st e s) \<and>
    free_set (pmm_release_range st e s) = free_set s \<union> pages_inside s st e"
proof -
  have gc: "geom_ok s" "counts_ok s" and ne: "\<not> e \<le> st"
    using assms by (simp_all add: pmm_inv_def)
  note f = mark_range_free_ok [OF gc, of st e] and u = mark_range_used_ok [OF gc, of st e]
  define a where "a = pmm_mark_range_used st e s"
  define b where "b = a\<lparr>reserved_regions := pmm_add_region (reserved_regions a) st (e - st)\<rparr>"
  have "meta_only a b" by (simp add: b_def meta_only_ops)
  note m = meta_only_ok [OF this]
  have "geom_ok b" "counts_ok b" "free_set b = free_set s - pages_touching s st e"
    using gc u assms(2) m same_geom_ok [OF m(1)] same_geom_ok [of s a] by (simp_all add: a_def)
  moreover have "geom_ok (pmm_mark_range_free st e s)"
    using f(1) gc(1) by (simp add: same_geom_ok)
  ultimately show ?thesis
    using rebuild_inv_ok(1,2) [of b] rebuild_inv_ok(1,2) [of "pmm_mark_range_free st e s"] f(2,3)
      ne
    by (simp add: pmm_reserve_range_def pmm_release_range_def a_def [symmetric] Let_def
        b_def [symmetric])
qed

theorem pmm_range_correct_witness:
  "pmm_inv (pmm_reserve_range 0x1000800 0x1001800 pmm_demo) \<and>
   free_set (pmm_reserve_range 0x1000800 0x1001800 pmm_demo) = {2, 3}"
proof -
  have "geom_ok pmm_demo" using demo_inv(1) by (simp add: pmm_inv_def)
  then have u: "unat (pmm_index_to_page pmm_demo i) = 0x1000000 + i * 4096" if "i < 4" for i
    using that geom_unat_page [of pmm_demo i] by (simp add: demo_inv(3,4))
  have "i \<in> pages_touching pmm_demo 0x1000800 0x1001800 \<longleftrightarrow> i = 0 \<or> i = 1" for i
  proof (cases "i < 4")
    case True
    then have "i = 0 \<or> i = 1 \<or> i = 2 \<or> i = 3" by auto
    then show ?thesis using u [OF True] by (auto simp: pages_touching_def demo_inv(4))
  qed (auto simp: pages_touching_def demo_inv(4))
  then have "pages_touching pmm_demo 0x1000800 0x1001800 = {0, 1}" by blast
  moreover have set4: "{..<4} - {0, 1} = {2, 3::nat}"
    by (simp add: set_eq_iff) arith
  ultimately show ?thesis
    using pmm_range_correct [OF demo_inv(1), of "0x1000800" "0x1001800"]
    set4 by (simp add: demo_inv(2))
qed

text \<open>
  C21: initialisation from the Multiboot2 memory map. With sane bounds the initialiser succeeds,
  manages at most \<open>2 ^ 23\<close> pages (what the fixed bitmap storage can describe), and the free pages
  are exactly those wholly inside an available entry of the map, minus every page that the
  bitmap or the descriptor table occupies.
\<close>
theorem pmm_init_from_mmap_correct:
  assumes "init_bounds_ok mstart mend" "bv \<noteq> 0" "sz \<noteq> 0" "16 < msize" "unat bp < 2 ^ 63"
  shows "\<exists>t. pmm_init_from_mmap mstart mend bv bp (Some entry) msize sz s = (RDNX_OK, t) \<and>
    pmm_inv t \<and> memory_start t = ALIGN_UP mstart PAGE_SIZE \<and>
    total_pages t = min (init_pages mstart mend) (2 ^ 23) \<and>
    free_set t = mmap_pages entry sz (min ((msize - 16) div sz) 4096) t -
      pages_touching t bp (bp + of_nat (bitmap_size t)) -
      desc_pages bp (bitmap_size t) (pages_count t) t"
  by (rule init_from_mmap_ok [OF assms])

theorem pmm_init_from_mmap_correct_witness:
  "\<exists>t. pmm_init_from_mmap 0x1000000 0x1004000 0x200000 0x200000
      (Some (\<lambda>_. \<lparr>mb_addr = 0x1000000, mb_len = 0x2000, mb_type = MB2_MMAP_AVAILABLE\<rparr>)) 40 24 pmm_blank
      = (RDNX_OK, t) \<and> pmm_inv t \<and> total_pages t = 4"
  using pmm_init_from_mmap_correct [OF demo_bounds(1), of "0x200000" 24 40 "0x200000"
      "\<lambda>_. \<lparr>mb_addr = 0x1000000, mb_len = 0x2000, mb_type = MB2_MMAP_AVAILABLE\<rparr>" pmm_blank]
    demo_bounds(2) by auto

text \<open>
  rebuilding the range lists. After \<open>pmm_rebuild_free_lists\<close> each zone's list is sorted,
  non-overlapping, holds at most 128 non-empty ranges of free pages of that zone, and every free
  page is in its zone's list unless that list is full.
\<close>
theorem pmm_rebuild_free_lists_correct:
  "(\<forall>z < PMM_ZONE_COUNT. list_ok (pmm_rebuild_free_lists s) z
      (free_ranges (zones (pmm_rebuild_free_lists s) z))) \<and>
   (\<forall>i \<in> free_set s. i \<in> fr_pages (free_ranges (zones (pmm_rebuild_free_lists s) (page_zone s i))) \<or>
      PMM_MAX_FREE_RANGES \<le>
        length (free_ranges (zones (pmm_rebuild_free_lists s) (page_zone s i))))"
proof -
  have "page_zone (pmm_rebuild_free_lists s) i = page_zone s i" for i
    using rebuild_ok(1) [of s] by auto
  then show ?thesis
    using rebuild_ok(2,3) [of s] by (simp add: lists_ok_def covered_def)
qed

theorem pmm_rebuild_free_lists_correct_witness:
  "list_ok (pmm_rebuild_free_lists pmm_demo) PMM_ZONE_NORMAL
     (free_ranges (zones (pmm_rebuild_free_lists pmm_demo) PMM_ZONE_NORMAL)) \<and>
   (3 \<in> fr_pages (free_ranges (zones (pmm_rebuild_free_lists pmm_demo) (page_zone pmm_demo 3))) \<or>
    PMM_MAX_FREE_RANGES \<le>
      length (free_ranges (zones (pmm_rebuild_free_lists pmm_demo) (page_zone pmm_demo 3))))"
  using pmm_rebuild_free_lists_correct [of pmm_demo] demo_inv(2) by auto


text \<open>
  C22: releasing a run. For at most \<open>2 ^ 20\<close> pages \<open>pmm_free_pages\<close> frees every page of the run that
  is in managed memory. The byte offset is computed in 32 bits, so from 4 GiB on it wraps: a
  larger count frees no page beyond the first \<open>2 ^ 20\<close>.
\<close>
theorem pmm_free_pages_correct:
  assumes "pmm_inv s"
  shows "pmm_inv (pmm_free_pages p c s) \<and>
    free_set (pmm_free_pages p c s) = free_set s \<union> pmm_page_to_index s `
      ((\<lambda>i. p + of_nat i * PAGE_SIZE) ` {..<min c (2 ^ 20)} \<inter> managed s)"
proof -
  have "(\<lambda>i. p + of_nat (i * 4096 mod 2 ^ 32)) ` {..<c} =
      (\<lambda>i. p + of_nat i * PAGE_SIZE) ` {..<min c (2 ^ 20)}" (is "?f ` _ = ?g ` _")
  proof -
    have e: "i * 4096 mod 2 ^ 32 = (i mod 2 ^ 20) * 4096" for i :: nat
      using mult_mod_left [of i "2 ^ 20" 4096] by simp
    have "?f i = ?g (i mod 2 ^ 20)" for i by (subst e) simp
    moreover have "(\<lambda>i. i mod 2 ^ 20) ` {..<c} = {..<min c (2 ^ 20)}"
    proof (rule set_eqI, rule iffI)
      fix k :: nat assume "k \<in> {..<min c (2 ^ 20)}"
      then show "k \<in> (\<lambda>i. i mod 2 ^ 20) ` {..<c}" by (intro image_eqI [of _ _ k]) auto
    next
      fix k :: nat assume "k \<in> (\<lambda>i. i mod 2 ^ 20) ` {..<c}"
      then show "k \<in> {..<min c (2 ^ 20)}" by (auto intro: le_less_trans [OF mod_less_eq_dividend])
    qed
    ultimately show ?thesis by (metis (no_types, lifting) image_cong image_image)
  qed
  then show ?thesis using free_pages_ok [OF assms, of p c] by simp
qed

theorem pmm_free_pages_correct_witness:
  "pmm_inv pmm_demo \<and> pmm_inv (pmm_free_pages 0x1000000 2 pmm_demo)"
  using pmm_free_pages_correct [OF demo_inv(1), of "0x1000000" 2] demo_inv(1) by blast

end
