(* ===== verification/Paging.thy ===== *)
theory Paging
  imports PmmProps
begin

text \<open>
  The x86-64 page tables, \<^verbatim>\<open>kernel/arch/x86_64/paging.c\<close>. Tables live in physical memory as
  512 words each; the code reaches them through the higher-half direct map, except for the
  \<^verbatim>\<open>_identity\<close> variants, which dereference physical addresses while the boot identity map is
  active. A table pointer of the source is its virtual address here, with 0 for \<^verbatim>\<open>NULL\<close>; the
  tests against \<^verbatim>\<open>NULL\<close> are those of the code. TLB maintenance is recorded as a log of the
  invalidations issued, latest first.
\<close>

section \<open>State\<close>

datatype tlb_op = Invlpg u64 | FlushAll

record paging_state = pmm_state +
  current_pml4_phys :: u64
  physmap_ready :: bool
  cr3 :: u64
  tlb_log :: "tlb_op list"

abbreviation (input) PTE_PRESENT :: u64 where "PTE_PRESENT \<equiv> 0x001"
abbreviation (input) PTE_RW :: u64 where "PTE_RW \<equiv> 0x002"
abbreviation (input) PTE_USER :: u64 where "PTE_USER \<equiv> 0x004"
abbreviation (input) PTE_SIZE_2MB :: u64 where "PTE_SIZE_2MB \<equiv> 0x080"
abbreviation (input) PTE_NX :: u64 where "PTE_NX \<equiv> 0x8000000000000000"
abbreviation (input) PTE_ADDR_MASK_4KB :: u64 where "PTE_ADDR_MASK_4KB \<equiv> 0x000FFFFFFFFFF000"
abbreviation (input) PTE_ADDR_MASK_2MB :: u64 where "PTE_ADDR_MASK_2MB \<equiv> 0x000FFFFFFFE00000"
abbreviation (input) PAGE_OFFSET_MASK :: u64 where "PAGE_OFFSET_MASK \<equiv> 0xFFF"

text \<open>\<open>ent t i\<close> is the address \<^verbatim>\<open>&t[i]\<close> of a word; \<open>kread\<close> and \<open>kwrite\<close> go through the direct map.\<close>

definition ent :: "u64 \<Rightarrow> u64 \<Rightarrow> u64" where
  "ent t i = t + i * 8"

definition kread :: "'a machine_scheme \<Rightarrow> u64 \<Rightarrow> u64" where
  "kread s va = load64 (pmem s) (X86_64_VIRT_TO_PHYS va)"

definition kwrite :: "u64 \<Rightarrow> u64 \<Rightarrow> 'a machine_scheme \<Rightarrow> 'a machine_scheme" where
  "kwrite va v s = s\<lparr>pmem := store64 (pmem s) (X86_64_VIRT_TO_PHYS va) v\<rparr>"

section \<open>Helpers\<close>

definition paging_get_pml4_index :: "u64 \<Rightarrow> u64" where
  "paging_get_pml4_index virt = drop_bit 39 virt AND 0x1FF"

definition paging_get_pdpt_index :: "u64 \<Rightarrow> u64" where
  "paging_get_pdpt_index virt = drop_bit 30 virt AND 0x1FF"

definition paging_get_pd_index :: "u64 \<Rightarrow> u64" where
  "paging_get_pd_index virt = drop_bit 21 virt AND 0x1FF"

definition paging_get_pt_index :: "u64 \<Rightarrow> u64" where
  "paging_get_pt_index virt = drop_bit 12 virt AND 0x1FF"

definition paging_get_page_offset :: "u64 \<Rightarrow> u64" where
  "paging_get_page_offset virt = virt AND PAGE_OFFSET_MASK"

definition paging_alloc_page_table :: "'a pmm_state_scheme \<Rightarrow> u64 \<times> 'a pmm_state_scheme" where
  "paging_alloc_page_table s =
     (let (phys, s) = pmm_alloc_page s
      in if phys = 0 then (0, s)
         else let virt = phys + X86_64_KERNEL_VIRT_BASE
              in (phys, s\<lparr>pmem := mem_set (pmem s) (X86_64_VIRT_TO_PHYS virt) 0 4096\<rparr>))"

definition paging_alloc_page_table_low :: "'a pmm_state_scheme \<Rightarrow> u64 \<times> 'a pmm_state_scheme" where
  "paging_alloc_page_table_low s =
     (let (phys, s) = pmm_alloc_page_in_zone PMM_ZONE_LOW s
      in if phys = 0 then (0, s)
         else let virt = phys + X86_64_KERNEL_VIRT_BASE
              in (phys, s\<lparr>pmem := mem_set (pmem s) (X86_64_VIRT_TO_PHYS virt) 0 4096\<rparr>))"

definition paging_alloc_page_table_identity ::
  "'a pmm_state_scheme \<Rightarrow> u64 \<times> 'a pmm_state_scheme" where
  "paging_alloc_page_table_identity s =
     (let (phys, s) = pmm_alloc_page_in_zone PMM_ZONE_LOW s
      in if phys = 0 then (0, s)
         else (phys, s\<lparr>pmem := mem_set (pmem s) phys 0 4096\<rparr>))"

definition paging_get_pml4 :: "'a paging_state_scheme \<Rightarrow> u64" where
  "paging_get_pml4 s =
     (if current_pml4_phys s = 0 then 0 else current_pml4_phys s + X86_64_KERNEL_VIRT_BASE)"

definition paging_create_user_pml4 :: "'a paging_state_scheme \<Rightarrow> u64 \<times> 'a paging_state_scheme" where
  "paging_create_user_pml4 s =
     (let (phys, s) = paging_alloc_page_table_low s
      in if phys = 0 then (0, s)
         else
           let new_pml4 = phys + X86_64_KERNEL_VIRT_BASE;
               s = s\<lparr>pmem := mem_set (pmem s) (X86_64_VIRT_TO_PHYS new_pml4) 0 4096\<rparr>;
               cur = paging_get_pml4 s
           in if cur = 0 then (0, s)
              else (phys, fold (\<lambda>i s. kwrite (ent new_pml4 (of_nat i))
                                  (kread s (ent cur (of_nat i)) AND NOT PTE_USER) s)
                            [256..<512] s))"

definition paging_get_pdpt_for :: "u64 \<Rightarrow> u64" where
  "paging_get_pdpt_for pml4_entry =
     (if pml4_entry AND PTE_PRESENT = 0 then 0
      else (pml4_entry AND NOT 0xFFF) + X86_64_KERNEL_VIRT_BASE)"

definition paging_get_pd_for :: "u64 \<Rightarrow> u64" where
  "paging_get_pd_for pdpt_entry =
     (if pdpt_entry AND PTE_PRESENT = 0 then 0
      else (pdpt_entry AND NOT 0xFFF) + X86_64_KERNEL_VIRT_BASE)"

definition paging_get_pt_for :: "u64 \<Rightarrow> u64" where
  "paging_get_pt_for pd_entry =
     (if pd_entry AND PTE_PRESENT = 0 then 0
      else (pd_entry AND NOT 0xFFF) + X86_64_KERNEL_VIRT_BASE)"

definition paging_get_pdpt :: "u64 \<Rightarrow> u64" where
  "paging_get_pdpt pml4_entry =
     (if pml4_entry AND PTE_PRESENT = 0 then 0
      else (pml4_entry AND NOT 0xFFF) + X86_64_KERNEL_VIRT_BASE)"

definition paging_get_pd :: "u64 \<Rightarrow> u64" where
  "paging_get_pd pdpt_entry =
     (if pdpt_entry AND PTE_PRESENT = 0 then 0
      else (pdpt_entry AND NOT 0xFFF) + X86_64_KERNEL_VIRT_BASE)"

definition paging_get_pt :: "u64 \<Rightarrow> u64" where
  "paging_get_pt pd_entry =
     (if pd_entry AND PTE_PRESENT = 0 then 0
      else if pd_entry AND PTE_SIZE_2MB \<noteq> 0 then 0
      else (pd_entry AND NOT 0xFFF) + X86_64_KERNEL_VIRT_BASE)"

definition paging_flush_tlb :: "u64 \<Rightarrow> 'a paging_state_scheme \<Rightarrow> 'a paging_state_scheme" where
  "paging_flush_tlb virt s =
     s\<lparr>tlb_log := (if virt \<noteq> 0 then Invlpg virt else FlushAll) # tlb_log s\<rparr>"

text \<open>
  One level of a walk that creates missing tables: read the entry; if it is not present,
  allocate a table with \<open>alloc\<close>, install it with the bits \<open>bits\<close>, and go on there; otherwise go
  to the table that \<open>next\<close> finds in the entry. \<open>None\<close> says that the allocation failed.
\<close>

definition table_step ::
  "('a paging_state_scheme \<Rightarrow> u64 \<times> 'a paging_state_scheme) \<Rightarrow> u64 \<Rightarrow> (u64 \<Rightarrow> u64) \<Rightarrow> u64 \<Rightarrow> u64
     \<Rightarrow> 'a paging_state_scheme \<Rightarrow> u64 option \<times> 'a paging_state_scheme" where
  "table_step alloc bits next tbl idx s =
     (let entry = kread s (ent tbl idx)
      in if entry AND PTE_PRESENT = 0 then
           (let (phys, s) = alloc s
            in if phys = 0 then (None, s)
               else (Some (phys + X86_64_KERNEL_VIRT_BASE),
                     kwrite (ent tbl idx) (phys OR PTE_PRESENT OR bits) s))
         else (Some (next entry), s))"

section \<open>Mapping\<close>

definition paging_map_page_4kb_pml4 ::
  "u64 \<Rightarrow> u64 \<Rightarrow> u64 \<Rightarrow> u64 \<Rightarrow> 'a paging_state_scheme \<Rightarrow> int \<times> 'a paging_state_scheme" where
  "paging_map_page_4kb_pml4 pml4_phys virt phys flags s =
     (if virt AND PAGE_OFFSET_MASK \<noteq> 0 \<or> phys AND PAGE_OFFSET_MASK \<noteq> 0 then (RDNX_E_GENERIC, s)
      else if pml4_phys = 0 then (RDNX_E_GENERIC, s)
      else
        let pml4 = pml4_phys + X86_64_KERNEL_VIRT_BASE;
            bits = PTE_RW OR (flags AND PTE_USER)
        in case table_step paging_alloc_page_table_low bits paging_get_pdpt_for pml4
                  (paging_get_pml4_index virt) s of
             (None, s) \<Rightarrow> (RDNX_E_GENERIC, s)
           | (Some pdpt, s) \<Rightarrow>
        (case table_step paging_alloc_page_table_low bits paging_get_pd_for pdpt
                  (paging_get_pdpt_index virt) s of
             (None, s) \<Rightarrow> (RDNX_E_GENERIC, s)
           | (Some pd, s) \<Rightarrow>
        (case table_step paging_alloc_page_table_low bits paging_get_pt_for pd
                  (paging_get_pd_index virt) s of
             (None, s) \<Rightarrow> (RDNX_E_GENERIC, s)
           | (Some pt, s) \<Rightarrow>
               let entry = phys OR (flags AND (PTE_PRESENT OR PTE_RW OR PTE_USER OR PTE_NX));
                   s = kwrite (ent pt (paging_get_pt_index virt)) entry s;
                   s = (if current_pml4_phys s = pml4_phys then paging_flush_tlb virt s else s)
               in (0, s))))"

definition paging_switch_pml4 :: "u64 \<Rightarrow> 'a paging_state_scheme \<Rightarrow> 'a paging_state_scheme" where
  "paging_switch_pml4 pml4_phys s =
     (if pml4_phys = 0 then s else s\<lparr>cr3 := pml4_phys, current_pml4_phys := pml4_phys\<rparr>)"

definition paging_init :: "'a paging_state_scheme \<Rightarrow> int \<times> 'a paging_state_scheme" where
  "paging_init s =
     (let s = s\<lparr>current_pml4_phys := cr3 s\<rparr>
      in if current_pml4_phys s = 0 then (RDNX_E_GENERIC, s) else (0, s))"

definition paging_map_page_4kb ::
  "u64 \<Rightarrow> u64 \<Rightarrow> u64 \<Rightarrow> 'a paging_state_scheme \<Rightarrow> int \<times> 'a paging_state_scheme" where
  "paging_map_page_4kb virt phys flags s =
     (if virt AND PAGE_OFFSET_MASK \<noteq> 0 \<or> phys AND PAGE_OFFSET_MASK \<noteq> 0 then (RDNX_E_GENERIC, s)
      else
        let pml4 = paging_get_pml4 s
        in if pml4 = 0 then (RDNX_E_GENERIC, s)
           else
        (case table_step paging_alloc_page_table PTE_RW paging_get_pdpt pml4
                  (paging_get_pml4_index virt) s of
             (None, s) \<Rightarrow> (RDNX_E_GENERIC, s)
           | (Some pdpt, s) \<Rightarrow>
        (case table_step paging_alloc_page_table PTE_RW paging_get_pd pdpt
                  (paging_get_pdpt_index virt) s of
             (None, s) \<Rightarrow> (RDNX_E_GENERIC, s)
           | (Some pd, s) \<Rightarrow>
               let pd_entry = kread s (ent pd (paging_get_pd_index virt))
               in if pd_entry AND PTE_PRESENT \<noteq> 0 \<and> pd_entry AND PTE_SIZE_2MB \<noteq> 0
                  then (RDNX_E_GENERIC, s)
                  else
        (case table_step paging_alloc_page_table PTE_RW paging_get_pt pd
                  (paging_get_pd_index virt) s of
             (None, s) \<Rightarrow> (RDNX_E_GENERIC, s)
           | (Some pt, s) \<Rightarrow>
               let pte = phys OR flags OR PTE_PRESENT;
                   s = kwrite (ent pt (paging_get_pt_index virt)) pte s
               in (0, paging_flush_tlb virt s)))))"

definition paging_map_page_4kb_noalloc ::
  "u64 \<Rightarrow> u64 \<Rightarrow> u64 \<Rightarrow> 'a paging_state_scheme \<Rightarrow> int \<times> 'a paging_state_scheme" where
  "paging_map_page_4kb_noalloc virt phys flags s =
     (if virt AND PAGE_OFFSET_MASK \<noteq> 0 \<or> phys AND PAGE_OFFSET_MASK \<noteq> 0 then (RDNX_E_GENERIC, s)
      else
        let pml4 = paging_get_pml4 s
        in if pml4 = 0 then (RDNX_E_GENERIC, s)
           else
        let pml4_entry = kread s (ent pml4 (paging_get_pml4_index virt))
        in if pml4_entry AND PTE_PRESENT = 0 then (RDNX_E_GENERIC, s)
           else
        let pdpt = paging_get_pdpt pml4_entry
        in if pdpt = 0 then (RDNX_E_GENERIC, s)
           else
        let pdpt_entry = kread s (ent pdpt (paging_get_pdpt_index virt))
        in if pdpt_entry AND PTE_PRESENT = 0 then (RDNX_E_GENERIC, s)
           else
        let pd = paging_get_pd pdpt_entry
        in if pd = 0 then (RDNX_E_GENERIC, s)
           else
        let pd_entry = kread s (ent pd (paging_get_pd_index virt))
        in if pd_entry AND PTE_PRESENT = 0 then (RDNX_E_GENERIC, s)
           else if pd_entry AND PTE_SIZE_2MB \<noteq> 0 then (RDNX_E_GENERIC, s)
           else
        let pt = paging_get_pt pd_entry
        in if pt = 0 then (RDNX_E_GENERIC, s)
           else
             let pte = phys OR flags OR PTE_PRESENT;
                 s = kwrite (ent pt (paging_get_pt_index virt)) pte s
             in (0, paging_flush_tlb virt s))"

definition paging_map_page_4kb_noalloc_identity ::
  "u64 \<Rightarrow> u64 \<Rightarrow> u64 \<Rightarrow> 'a paging_state_scheme \<Rightarrow> int \<times> 'a paging_state_scheme" where
  "paging_map_page_4kb_noalloc_identity virt phys flags s =
     (if virt AND PAGE_OFFSET_MASK \<noteq> 0 \<or> phys AND PAGE_OFFSET_MASK \<noteq> 0 then (RDNX_E_GENERIC, s)
      else if current_pml4_phys s = 0 then (RDNX_E_GENERIC, s)
      else
        let pml4 = paging_get_pml4 s
        in if pml4 = 0 then (RDNX_E_GENERIC, s)
           else
        let pml4_entry = kread s (ent pml4 (paging_get_pml4_index virt))
        in if pml4_entry AND PTE_PRESENT = 0 then (RDNX_E_GENERIC, s)
           else
        let pdpt = paging_get_pdpt pml4_entry;
            pdpt_entry = kread s (ent pdpt (paging_get_pdpt_index virt))
        in if pdpt_entry AND PTE_PRESENT = 0 then (RDNX_E_GENERIC, s)
           else
        let pd = paging_get_pd pdpt_entry;
            pd_entry = kread s (ent pd (paging_get_pd_index virt))
        in if pd_entry AND PTE_PRESENT = 0 then (RDNX_E_GENERIC, s)
           else if pd_entry AND PTE_SIZE_2MB \<noteq> 0 then (RDNX_E_GENERIC, s)
           else
             let pt = paging_get_pt pd_entry;
                 pte = phys OR flags OR PTE_PRESENT;
                 s = kwrite (ent pt (paging_get_pt_index virt)) pte s
             in (0, paging_flush_tlb virt s))"

text \<open>The same walk through the boot identity map: a table pointer is the physical address.\<close>

definition table_step_identity ::
  "u64 \<Rightarrow> u64 \<Rightarrow> 'a paging_state_scheme \<Rightarrow> u64 option \<times> 'a paging_state_scheme" where
  "table_step_identity tbl idx s =
     (let entry = load64 (pmem s) (ent tbl idx)
      in if entry AND PTE_PRESENT = 0 then
           (let (phys, s) = paging_alloc_page_table_identity s
            in if phys = 0 then (None, s)
               else (Some phys,
                     s\<lparr>pmem := store64 (pmem s) (ent tbl idx) (phys OR PTE_PRESENT OR PTE_RW)\<rparr>))
         else (Some (entry AND NOT 0xFFF), s))"

definition paging_map_page_4kb_identity_alloc ::
  "u64 \<Rightarrow> u64 \<Rightarrow> u64 \<Rightarrow> 'a paging_state_scheme \<Rightarrow> int \<times> 'a paging_state_scheme" where
  "paging_map_page_4kb_identity_alloc virt phys flags s =
     (if virt AND PAGE_OFFSET_MASK \<noteq> 0 \<or> phys AND PAGE_OFFSET_MASK \<noteq> 0 then (RDNX_E_GENERIC, s)
      else if current_pml4_phys s = 0 then (RDNX_E_GENERIC, s)
      else
        (case table_step_identity (current_pml4_phys s) (paging_get_pml4_index virt) s of
             (None, s) \<Rightarrow> (RDNX_E_GENERIC, s)
           | (Some pdpt, s) \<Rightarrow>
        (case table_step_identity pdpt (paging_get_pdpt_index virt) s of
             (None, s) \<Rightarrow> (RDNX_E_GENERIC, s)
           | (Some pd, s) \<Rightarrow>
               let pd_entry = load64 (pmem s) (ent pd (paging_get_pd_index virt))
               in if pd_entry AND PTE_PRESENT \<noteq> 0 \<and> pd_entry AND PTE_SIZE_2MB \<noteq> 0
                  then (RDNX_E_GENERIC, s)
                  else
        (case table_step_identity pd (paging_get_pd_index virt) s of
             (None, s) \<Rightarrow> (RDNX_E_GENERIC, s)
           | (Some pt, s) \<Rightarrow>
               let pte = phys OR flags OR PTE_PRESENT;
                   s = s\<lparr>pmem := store64 (pmem s) (ent pt (paging_get_pt_index virt)) pte\<rparr>
               in (0, paging_flush_tlb virt s)))))"

definition paging_map_page_2mb_identity_alloc ::
  "u64 \<Rightarrow> u64 \<Rightarrow> u64 \<Rightarrow> 'a paging_state_scheme \<Rightarrow> int \<times> 'a paging_state_scheme" where
  "paging_map_page_2mb_identity_alloc virt phys flags s =
     (if virt AND 0x1FFFFF \<noteq> 0 \<or> phys AND 0x1FFFFF \<noteq> 0 then (RDNX_E_GENERIC, s)
      else if current_pml4_phys s = 0 then (RDNX_E_GENERIC, s)
      else
        (case table_step_identity (current_pml4_phys s) (paging_get_pml4_index virt) s of
             (None, s) \<Rightarrow> (RDNX_E_GENERIC, s)
           | (Some pdpt, s) \<Rightarrow>
        (case table_step_identity pdpt (paging_get_pdpt_index virt) s of
             (None, s) \<Rightarrow> (RDNX_E_GENERIC, s)
           | (Some pd, s) \<Rightarrow>
               let pd_entry = phys OR flags OR PTE_PRESENT OR PTE_SIZE_2MB;
                   s = s\<lparr>pmem := store64 (pmem s) (ent pd (paging_get_pd_index virt)) pd_entry\<rparr>
               in (0, paging_flush_tlb virt s))))"

text \<open>
  The loop of \<^verbatim>\<open>paging_bootstrap_physmap\<close> over the \<open>n\<close> 2 MiB frames below \<open>max_phys\<close>, which stops
  at the first failure.
\<close>

fun physmap_loop :: "nat \<Rightarrow> u64 \<Rightarrow> 'a paging_state_scheme \<Rightarrow> bool \<times> 'a paging_state_scheme" where
  "physmap_loop 0 phys s = (True, s)"
| "physmap_loop (Suc n) phys s =
     (let virt = X86_64_KERNEL_VIRT_BASE + phys;
          (r, s) = paging_map_page_2mb_identity_alloc virt phys PTE_RW s
      in if r \<noteq> 0 then (False, s) else physmap_loop n (phys + 0x200000) s)"

definition paging_bootstrap_physmap ::
  "u64 \<Rightarrow> 'a paging_state_scheme \<Rightarrow> int \<times> 'a paging_state_scheme" where
  "paging_bootstrap_physmap max_phys s =
     (if max_phys = 0 then (0, s)
      else
        let max_phys = max_phys AND NOT 0x1FFFFF;
            (ok, s) = physmap_loop (unat (max_phys div 0x200000)) 0 s
        in if \<not> ok then (RDNX_E_GENERIC, s) else (0, s\<lparr>physmap_ready := True\<rparr>))"

definition paging_disable_identity_map :: "'a paging_state_scheme \<Rightarrow> 'a paging_state_scheme option" where
  "paging_disable_identity_map s =
     (let pml4 = paging_get_pml4 s
      in if pml4 = 0 then Some s
         else if \<not> physmap_ready s then None
         else Some (paging_flush_tlb 0 (kwrite (ent pml4 0) 0 s)))"

definition paging_is_physmap_ready :: "'a paging_state_scheme \<Rightarrow> bool" where
  "paging_is_physmap_ready s = physmap_ready s"

section \<open>Unmapping\<close>

definition paging_unmap_page :: "u64 \<Rightarrow> 'a paging_state_scheme \<Rightarrow> int \<times> 'a paging_state_scheme" where
  "paging_unmap_page virt s =
     (let pml4 = paging_get_pml4 s
      in if pml4 = 0 then (RDNX_E_GENERIC, s)
         else
      let pml4_entry = kread s (ent pml4 (paging_get_pml4_index virt))
      in if pml4_entry AND PTE_PRESENT = 0 then (RDNX_E_GENERIC, s)
         else
      let pdpt = paging_get_pdpt pml4_entry;
          pdpt_entry = kread s (ent pdpt (paging_get_pdpt_index virt))
      in if pdpt_entry AND PTE_PRESENT = 0 then (RDNX_E_GENERIC, s)
         else
      let pd = paging_get_pd pdpt_entry;
          pd_entry = kread s (ent pd (paging_get_pd_index virt))
      in if pd_entry AND PTE_PRESENT = 0 then (RDNX_E_GENERIC, s)
         else if pd_entry AND PTE_SIZE_2MB \<noteq> 0
           then (0, paging_flush_tlb virt (kwrite (ent pd (paging_get_pd_index virt)) 0 s))
         else
           let pt = paging_get_pt pd_entry
           in (0, paging_flush_tlb virt (kwrite (ent pt (paging_get_pt_index virt)) 0 s)))"

definition paging_unmap_page_pml4 ::
  "u64 \<Rightarrow> u64 \<Rightarrow> 'a paging_state_scheme \<Rightarrow> int \<times> 'a paging_state_scheme" where
  "paging_unmap_page_pml4 pml4_phys virt s =
     (if pml4_phys = 0 then (RDNX_E_GENERIC, s)
      else
      let pml4 = X86_64_PHYS_TO_VIRT pml4_phys
      in if pml4 = 0 then (RDNX_E_GENERIC, s)
         else
      let pml4_entry = kread s (ent pml4 (paging_get_pml4_index virt))
      in if pml4_entry AND PTE_PRESENT = 0 then (RDNX_E_GENERIC, s)
         else
      let pdpt = paging_get_pdpt pml4_entry;
          pdpt_entry = kread s (ent pdpt (paging_get_pdpt_index virt))
      in if pdpt_entry AND PTE_PRESENT = 0 then (RDNX_E_GENERIC, s)
         else
      let pd = paging_get_pd pdpt_entry;
          pd_entry = kread s (ent pd (paging_get_pd_index virt))
      in if pd_entry AND PTE_PRESENT = 0 then (RDNX_E_GENERIC, s)
         else
           let s = (if pd_entry AND PTE_SIZE_2MB \<noteq> 0
                    then kwrite (ent pd (paging_get_pd_index virt)) 0 s
                    else kwrite (ent (paging_get_pt pd_entry) (paging_get_pt_index virt)) 0 s)
           in (0, if current_pml4_phys s = pml4_phys then paging_flush_tlb virt s else s))"

section \<open>Translation\<close>

definition paging_get_physical :: "u64 \<Rightarrow> 'a paging_state_scheme \<Rightarrow> u64" where
  "paging_get_physical virt s =
     (let pml4 = paging_get_pml4 s
      in if pml4 = 0 then 0
         else
      let pml4_entry = kread s (ent pml4 (paging_get_pml4_index virt))
      in if pml4_entry AND PTE_PRESENT = 0 then 0
         else
      let pdpt_entry = kread s (ent (paging_get_pdpt pml4_entry) (paging_get_pdpt_index virt))
      in if pdpt_entry AND PTE_PRESENT = 0 then 0
         else
      let pd_entry = kread s (ent (paging_get_pd pdpt_entry) (paging_get_pd_index virt))
      in if pd_entry AND PTE_PRESENT = 0 then 0
         else if pd_entry AND PTE_SIZE_2MB \<noteq> 0
           then (pd_entry AND PTE_ADDR_MASK_2MB) OR (virt AND 0x1FFFFF)
         else
      let pte = kread s (ent (paging_get_pt pd_entry) (paging_get_pt_index virt))
      in if pte AND PTE_PRESENT = 0 then 0
         else (pte AND PTE_ADDR_MASK_4KB) OR (virt AND PAGE_OFFSET_MASK))"

definition paging_get_physical_pml4 :: "u64 \<Rightarrow> u64 \<Rightarrow> 'a paging_state_scheme \<Rightarrow> u64" where
  "paging_get_physical_pml4 pml4_phys virt s =
     (if pml4_phys = 0 then 0
      else
      let pml4 = X86_64_PHYS_TO_VIRT pml4_phys
      in if pml4 = 0 then 0
         else
      let pml4_entry = kread s (ent pml4 (paging_get_pml4_index virt))
      in if pml4_entry AND PTE_PRESENT = 0 then 0
         else
      let pdpt_entry = kread s (ent (paging_get_pdpt pml4_entry) (paging_get_pdpt_index virt))
      in if pdpt_entry AND PTE_PRESENT = 0 then 0
         else
      let pd_entry = kread s (ent (paging_get_pd pdpt_entry) (paging_get_pd_index virt))
      in if pd_entry AND PTE_PRESENT = 0 then 0
         else if pd_entry AND PTE_SIZE_2MB \<noteq> 0
           then (pd_entry AND PTE_ADDR_MASK_2MB) OR (virt AND 0x1FFFFF)
         else
      let pte = kread s (ent (paging_get_pt pd_entry) (paging_get_pt_index virt))
      in if pte AND PTE_PRESENT = 0 then 0
         else (pte AND PTE_ADDR_MASK_4KB) OR (virt AND PAGE_OFFSET_MASK))"

definition paging_map_page_2mb ::
  "u64 \<Rightarrow> u64 \<Rightarrow> u64 \<Rightarrow> 'a paging_state_scheme \<Rightarrow> int \<times> 'a paging_state_scheme" where
  "paging_map_page_2mb virt phys flags s =
     (if virt AND 0x1FFFFF \<noteq> 0 \<or> phys AND 0x1FFFFF \<noteq> 0 then (RDNX_E_GENERIC, s)
      else
        let pml4 = paging_get_pml4 s
        in if pml4 = 0 then (RDNX_E_GENERIC, s)
           else
        (case table_step paging_alloc_page_table PTE_RW paging_get_pdpt pml4
                  (paging_get_pml4_index virt) s of
             (None, s) \<Rightarrow> (RDNX_E_GENERIC, s)
           | (Some pdpt, s) \<Rightarrow>
        (case table_step paging_alloc_page_table PTE_RW paging_get_pd pdpt
                  (paging_get_pdpt_index virt) s of
             (None, s) \<Rightarrow> (RDNX_E_GENERIC, s)
           | (Some pd, s) \<Rightarrow>
               let pd_entry = phys OR flags OR PTE_PRESENT OR PTE_SIZE_2MB;
                   s = kwrite (ent pd (paging_get_pd_index virt)) pd_entry s
               in (0, paging_flush_tlb virt s))))"

end
