(* ===== verification/Vmm.thy ===== *)
theory Vmm
  imports Paging
begin

text \<open>
  The architecture's memory interface, \<^verbatim>\<open>kernel/arch/x86_64/memory.c\<close> without its boot sequence:
  page mapping with architecture-independent flags, the direct-map page allocator and the memory
  statistics.
\<close>

section \<open>Kernel pages from the direct map\<close>

definition vmm_alloc_page_impl :: "'a pmm_state_scheme \<Rightarrow> u64 \<times> 'a pmm_state_scheme" where
  "vmm_alloc_page_impl s =
     (let (phys, s) = pmm_alloc_page s
      in if phys = 0 then (0, s) else (X86_64_PHYS_TO_VIRT phys, s))"

definition vmm_free_page_impl :: "u64 \<Rightarrow> 'a pmm_state_scheme \<Rightarrow> 'a pmm_state_scheme" where
  "vmm_free_page_impl virt s =
     (if virt = 0 then s else pmm_free_page (X86_64_VIRT_TO_PHYS virt) s)"

definition vmm_alloc_page :: "u64 \<Rightarrow> 'a pmm_state_scheme \<Rightarrow> u64 \<times> 'a pmm_state_scheme" where
  "vmm_alloc_page flags s = vmm_alloc_page_impl s"

definition vmm_free_page :: "u64 \<Rightarrow> 'a pmm_state_scheme \<Rightarrow> 'a pmm_state_scheme" where
  "vmm_free_page virt s = vmm_free_page_impl virt s"

definition vmm_alloc_pages :: "nat \<Rightarrow> u64 \<Rightarrow> 'a pmm_state_scheme \<Rightarrow> u64 \<times> 'a pmm_state_scheme" where
  "vmm_alloc_pages count flags s =
     (let (phys, s) = pmm_alloc_pages count s
      in if phys = 0 then (0, memory_oom_inc_vmm s) else (X86_64_PHYS_TO_VIRT phys, s))"

definition vmm_free_pages :: "u64 \<Rightarrow> nat \<Rightarrow> 'a pmm_state_scheme \<Rightarrow> 'a pmm_state_scheme" where
  "vmm_free_pages virt count s =
     (if virt = 0 \<or> count = 0 then s else pmm_free_pages (X86_64_VIRT_TO_PHYS virt) count s)"

section \<open>Mapping with portable flags\<close>

abbreviation (input) PAGE_FLAG_PRESENT :: u64 where "PAGE_FLAG_PRESENT \<equiv> 1"
abbreviation (input) PAGE_FLAG_WRITABLE :: u64 where "PAGE_FLAG_WRITABLE \<equiv> 2"
abbreviation (input) PAGE_FLAG_USER :: u64 where "PAGE_FLAG_USER \<equiv> 4"
abbreviation (input) PAGE_FLAG_EXECUTE :: u64 where "PAGE_FLAG_EXECUTE \<equiv> 8"
abbreviation (input) PAGE_FLAG_NOCACHE :: u64 where "PAGE_FLAG_NOCACHE \<equiv> 16"
abbreviation (input) PAGE_FLAG_GLOBAL :: u64 where "PAGE_FLAG_GLOBAL \<equiv> 64"
abbreviation (input) PTE_PCD :: u64 where "PTE_PCD \<equiv> 0x010"
abbreviation (input) PTE_GLOBAL :: u64 where "PTE_GLOBAL \<equiv> 0x100"

datatype page_type_t = PAGE_TYPE_4KB | PAGE_TYPE_2MB | PAGE_TYPE_1GB

definition page_map_flags :: "u64 \<Rightarrow> u64" where
  "page_map_flags flags =
     (if flags AND PAGE_FLAG_PRESENT \<noteq> 0 then PTE_PRESENT else 0) OR
     (if flags AND PAGE_FLAG_WRITABLE \<noteq> 0 then PTE_RW else 0) OR
     (if flags AND PAGE_FLAG_USER \<noteq> 0 then PTE_USER else 0) OR
     (if flags AND PAGE_FLAG_NOCACHE \<noteq> 0 then PTE_PCD else 0) OR
     (if flags AND PAGE_FLAG_GLOBAL \<noteq> 0 then PTE_GLOBAL else 0) OR
     (if flags AND PAGE_FLAG_EXECUTE = 0 then PTE_NX else 0)"

definition page_map ::
  "u64 \<Rightarrow> u64 \<Rightarrow> u64 \<Rightarrow> page_type_t \<Rightarrow> 'a paging_state_scheme \<Rightarrow> int \<times> 'a paging_state_scheme" where
  "page_map virt phys flags type s =
     (let x86_flags = page_map_flags flags
      in case type of
           PAGE_TYPE_2MB \<Rightarrow> paging_map_page_2mb virt phys x86_flags s
         | PAGE_TYPE_1GB \<Rightarrow> paging_map_page_2mb virt phys x86_flags s
         | PAGE_TYPE_4KB \<Rightarrow> paging_map_page_4kb virt phys x86_flags s)"

definition page_unmap :: "u64 \<Rightarrow> 'a paging_state_scheme \<Rightarrow> int \<times> 'a paging_state_scheme" where
  "page_unmap virt s = paging_unmap_page virt s"

definition page_get_physical :: "u64 \<Rightarrow> 'a paging_state_scheme \<Rightarrow> u64" where
  "page_get_physical virt s = paging_get_physical virt s"

definition page_get_virtual :: "u64 \<Rightarrow> u64" where
  "page_get_virtual phys = (if phys < 0x400000 then phys else phys + X86_64_KERNEL_VIRT_BASE)"

section \<open>Statistics\<close>

record memory_info =
  total_physical :: u64
  free_physical :: u64
  used_physical :: u64
  total_virtual :: u64
  free_virtual :: u64
  used_virtual :: u64
  oom_pmm :: u64
  oom_vmm :: u64
  oom_heap :: u64

definition pmm_get_total_pages :: "'a pmm_state_scheme \<Rightarrow> u64" where
  "pmm_get_total_pages s = of_nat (total_pages s)"

definition pmm_get_free_pages :: "'a pmm_state_scheme \<Rightarrow> u64" where
  "pmm_get_free_pages s = of_nat (free_pages s)"

definition pmm_get_used_pages :: "'a pmm_state_scheme \<Rightarrow> u64" where
  "pmm_get_used_pages s = of_nat (used_pages s)"

text \<open>\<open>None\<close> is the error for a null result pointer.\<close>

definition memory_get_info :: "bool \<Rightarrow> 'a pmm_state_scheme \<Rightarrow> int \<times> memory_info option" where
  "memory_get_info null s =
     (if null then (RDNX_E_INVALID, None)
      else (RDNX_OK, Some
        \<lparr>total_physical = pmm_get_total_pages s * PAGE_SIZE,
         free_physical = pmm_get_free_pages s * PAGE_SIZE,
         used_physical = pmm_get_used_pages s * PAGE_SIZE,
         total_virtual = 0, free_virtual = 0, used_virtual = 0,
         oom_pmm = of_nat (memory_oom_pmm s), oom_vmm = of_nat (memory_oom_vmm s),
         oom_heap = of_nat (memory_oom_heap s)\<rparr>))"

end
