(* ===== verification/Kheap.thy ===== *)
theory Kheap
  imports Vmm
begin

text \<open>
  The kernel heap, \<^verbatim>\<open>kernel/common/heap.c\<close>, and the boot sequence of the memory system,
  \<^verbatim>\<open>memory_init\<close> in \<^verbatim>\<open>kernel/arch/x86_64/memory.c\<close>. The heap is a doubly linked list of blocks
  whose headers precede the payload; the headers are a store from block addresses to records
  with the source's fields, and 0 is the null pointer. The heap lock masks interrupts around each
  operation, which the sequential model does not need. A panic is \<open>None\<close>.
\<close>

section \<open>State\<close>

record heap_block =
  hb_size :: u64
  hb_free :: bool
  hb_next :: u64
  hb_prev :: u64

record heap_state = paging_state +
  hblk :: "u64 \<Rightarrow> heap_block"
  heap_head :: u64
  heap_tail :: u64

text \<open>The size of a block header in bytes.\<close>

abbreviation (input) HB :: u64 where "HB \<equiv> 32"

definition upd_blk :: "u64 \<Rightarrow> (heap_block \<Rightarrow> heap_block) \<Rightarrow> 'a heap_state_scheme \<Rightarrow> 'a heap_state_scheme" where
  "upd_blk a f s = s\<lparr>hblk := (hblk s)(a := f (hblk s a))\<rparr>"

section \<open>The block list\<close>

text \<open>The loop of \<^verbatim>\<open>heap_block_in_list\<close>, which gives up after a million blocks.\<close>

function block_in_list_from :: "u64 \<Rightarrow> u64 \<Rightarrow> nat \<Rightarrow> 'a heap_state_scheme \<Rightarrow> bool" where
  "block_in_list_from needle cur guard s =
     (if cur = 0 then False
      else if cur = needle then True
      else if guard + 1 > 1000000 then False
      else block_in_list_from needle (hb_next (hblk s cur)) (guard + 1) s)"
  by pat_completeness auto
termination
  by (relation "measure (\<lambda>(_, _, guard, _). 1000000 - guard)") auto

declare block_in_list_from.simps [simp del]

definition heap_block_in_list :: "u64 \<Rightarrow> 'a heap_state_scheme \<Rightarrow> bool" where
  "heap_block_in_list needle s =
     (if needle = 0 then False else block_in_list_from needle (heap_head s) 0 s)"

definition heap_align :: "u64 \<Rightarrow> u64" where
  "heap_align n = ALIGN_UP n 16"

definition heap_insert_block :: "u64 \<Rightarrow> 'a heap_state_scheme \<Rightarrow> 'a heap_state_scheme" where
  "heap_insert_block block s =
     (let s = upd_blk block (\<lambda>b. b\<lparr>hb_next := 0, hb_prev := heap_tail s\<rparr>) s;
          s = (if heap_tail s \<noteq> 0 then upd_blk (heap_tail s) (\<lambda>b. b\<lparr>hb_next := block\<rparr>) s
               else s\<lparr>heap_head := block\<rparr>)
      in s\<lparr>heap_tail := block\<rparr>)"

definition merge_next :: "u64 \<Rightarrow> 'a heap_state_scheme \<Rightarrow> 'a heap_state_scheme" where
  "merge_next block s =
     (let next = hb_next (hblk s block)
      in if next \<noteq> 0 \<and> hb_free (hblk s next) \<and> block + HB + hb_size (hblk s block) = next then
           let s = upd_blk block (\<lambda>b. b\<lparr>hb_size := hb_size b + (HB + hb_size (hblk s next))\<rparr>) s;
               s = upd_blk block (\<lambda>b. b\<lparr>hb_next := hb_next (hblk s next)\<rparr>) s
           in if hb_next (hblk s next) \<noteq> 0
              then upd_blk (hb_next (hblk s next)) (\<lambda>b. b\<lparr>hb_prev := block\<rparr>) s
              else s\<lparr>heap_tail := block\<rparr>
         else s)"

definition merge_prev :: "u64 \<Rightarrow> 'a heap_state_scheme \<Rightarrow> 'a heap_state_scheme" where
  "merge_prev block s =
     (let prev = hb_prev (hblk s block)
      in if prev \<noteq> 0 \<and> hb_free (hblk s prev) \<and> prev + HB + hb_size (hblk s prev) = block then
           let s = upd_blk prev (\<lambda>b. b\<lparr>hb_size := hb_size b + (HB + hb_size (hblk s block))\<rparr>) s;
               s = upd_blk prev (\<lambda>b. b\<lparr>hb_next := hb_next (hblk s block)\<rparr>) s
           in if hb_next (hblk s block) \<noteq> 0
              then upd_blk (hb_next (hblk s block)) (\<lambda>b. b\<lparr>hb_prev := prev\<rparr>) s
              else s\<lparr>heap_tail := prev\<rparr>
         else s)"

definition heap_merge_if_possible :: "u64 \<Rightarrow> 'a heap_state_scheme \<Rightarrow> 'a heap_state_scheme" where
  "heap_merge_if_possible block s =
     (if block = 0 then s else merge_prev block (merge_next block s))"

text \<open>The loop of \<^verbatim>\<open>heap_find_fit\<close>; it returns only if it finds a block or reaches the end of the list.\<close>

partial_function (option) find_fit_from :: "u64 \<Rightarrow> u64 \<Rightarrow> 'a heap_state_scheme \<Rightarrow> u64 option" where
  "find_fit_from n cur s =
     (if cur = 0 then Some 0
      else if hb_free (hblk s cur) \<and> n \<le> hb_size (hblk s cur) then Some cur
      else find_fit_from n (hb_next (hblk s cur)) s)"

definition heap_find_fit :: "u64 \<Rightarrow> 'a heap_state_scheme \<Rightarrow> u64 option" where
  "heap_find_fit n s = find_fit_from n (heap_head s) s"

definition heap_split_block :: "u64 \<Rightarrow> u64 \<Rightarrow> 'a heap_state_scheme \<Rightarrow> 'a heap_state_scheme" where
  "heap_split_block block n s =
     (let aligned = heap_align n
      in if hb_size (hblk s block) \<le> aligned + HB + 16 then s
         else
           let next = block + HB + aligned;
               s = upd_blk next (\<lambda>b. b\<lparr>hb_size := hb_size (hblk s block) - aligned - HB\<rparr>) s;
               s = upd_blk next (\<lambda>b. b\<lparr>hb_free := True, hb_prev := block\<rparr>) s;
               s = upd_blk next (\<lambda>b. b\<lparr>hb_next := hb_next (hblk s block)\<rparr>) s;
               s = (if hb_next (hblk s block) \<noteq> 0
                    then upd_blk (hb_next (hblk s block)) (\<lambda>b. b\<lparr>hb_prev := next\<rparr>) s
                    else s\<lparr>heap_tail := next\<rparr>);
               s = upd_blk block (\<lambda>b. b\<lparr>hb_next := next\<rparr>) s
           in upd_blk block (\<lambda>b. b\<lparr>hb_size := aligned\<rparr>) s)"

section \<open>Growing\<close>

definition heap_grow :: "u64 \<Rightarrow> 'a heap_state_scheme \<Rightarrow> (u64 \<times> 'a heap_state_scheme) option" where
  "heap_grow min_size s =
     (let tot = heap_align min_size + HB;
          pages = ALIGN_UP tot PAGE_SIZE div PAGE_SIZE;
          pages = (if pages = 0 then 1 else pages);
          (mem, s) = vmm_alloc_pages (unat pages mod 2 ^ 32) PAGE_FLAG_WRITABLE s
      in if mem = 0 then None
         else
           let block = mem;
               s = upd_blk block (\<lambda>b. b\<lparr>hb_size := pages * PAGE_SIZE - HB, hb_free := True,
                     hb_next := 0, hb_prev := 0\<rparr>) s;
               s = heap_insert_block block s;
               prev = hb_prev (hblk s block)
           in if prev \<noteq> 0 \<and> hb_free (hblk s prev) \<and> prev + HB + hb_size (hblk s prev) = block
              then let s = heap_merge_if_possible prev s in Some (hb_prev (hblk s block), s)
              else Some (block, s))"

definition heap_init :: "u64 \<Rightarrow> 'a heap_state_scheme \<Rightarrow> (int \<times> 'a heap_state_scheme) option" where
  "heap_init initial_pages s =
     (if heap_head s \<noteq> 0 then Some (RDNX_OK, s)
      else
        let initial_pages = (if initial_pages = 0 then 16 else initial_pages);
            (mem, s) = vmm_alloc_pages (unat initial_pages mod 2 ^ 32) PAGE_FLAG_WRITABLE s
        in if mem = 0 then None
           else
             let s = upd_blk mem (\<lambda>b. b\<lparr>hb_size := initial_pages * PAGE_SIZE - HB, hb_free := True,
                       hb_next := 0, hb_prev := 0\<rparr>) s
             in Some (RDNX_OK, s\<lparr>heap_head := mem, heap_tail := mem\<rparr>))"

section \<open>The allocator interface\<close>

definition kmalloc :: "u64 \<Rightarrow> 'a heap_state_scheme \<Rightarrow> (u64 \<times> 'a heap_state_scheme) option" where
  "kmalloc n s =
     (if n = 0 then Some (0, s)
      else
        let aligned = heap_align n
        in case heap_find_fit aligned s of
             None \<Rightarrow> None
           | Some fit \<Rightarrow>
               (case (if fit = 0 then heap_grow aligned s else Some (fit, s)) of
                  None \<Rightarrow> None
                | Some (block, s) \<Rightarrow>
                    if block = 0 then Some (0, s)
                    else
                      let s = heap_split_block block aligned s;
                          s = upd_blk block (\<lambda>b. b\<lparr>hb_free := False\<rparr>) s
                      in Some (block + HB, s)))"

definition kfree :: "u64 \<Rightarrow> 'a heap_state_scheme \<Rightarrow> 'a heap_state_scheme option" where
  "kfree ptr s =
     (if ptr = 0 then Some s
      else
        let block = ptr - HB
        in if \<not> heap_block_in_list block s then None
           else if hb_free (hblk s block) then None
           else Some (heap_merge_if_possible block (upd_blk block (\<lambda>b. b\<lparr>hb_free := True\<rparr>) s)))"

definition kcalloc :: "u64 \<Rightarrow> u64 \<Rightarrow> 'a heap_state_scheme \<Rightarrow> (u64 \<times> 'a heap_state_scheme) option" where
  "kcalloc count n s =
     (if count = 0 \<or> n = 0 then Some (0, s)
      else
        let tot = count * n
        in if tot div n \<noteq> count then Some (0, s)
           else case kmalloc tot s of
                  None \<Rightarrow> None
                | Some (mem, s) \<Rightarrow>
                    if mem = 0 then Some (0, s)
                    else Some (mem, s\<lparr>pmem := mem_set (pmem s) (X86_64_VIRT_TO_PHYS mem) 0 (unat tot)\<rparr>))"

definition krealloc :: "u64 \<Rightarrow> u64 \<Rightarrow> 'a heap_state_scheme \<Rightarrow> (u64 \<times> 'a heap_state_scheme) option" where
  "krealloc ptr new_size s =
     (if ptr = 0 then kmalloc new_size s
      else if new_size = 0 then map_option (\<lambda>s. (0, s)) (kfree ptr s)
      else
        let block = ptr - HB
        in if new_size \<le> hb_size (hblk s block) then Some (ptr, heap_split_block block new_size s)
           else case kmalloc new_size s of
                  None \<Rightarrow> None
                | Some (new_mem, s) \<Rightarrow>
                    if new_mem = 0 then Some (0, s)
                    else
                      let s = s\<lparr>pmem := mem_copy (pmem s) (X86_64_VIRT_TO_PHYS new_mem)
                                  (X86_64_VIRT_TO_PHYS ptr) (unat (hb_size (hblk s block)))\<rparr>
                      in map_option (\<lambda>s. (new_mem, s)) (kfree ptr s))"

section \<open>The boot sequence of the memory system\<close>

record boot_info =
  mem_upper :: u64
  initrd_start :: u64
  initrd_size :: u64
  mmap_addr :: "(nat \<Rightarrow> mb2_mmap_entry) option"
  mmap_size :: nat
  mmap_entry_size :: nat

abbreviation (input) PMM_MEMORY_START :: u64 where "PMM_MEMORY_START \<equiv> 0x100000"
abbreviation (input) PMM_MEMORY_FALLBACK_END :: u64 where "PMM_MEMORY_FALLBACK_END \<equiv> 0x4000000"
abbreviation (input) PMM_BITMAP_MAX_SIZE :: u64 where "PMM_BITMAP_MAX_SIZE \<equiv> 0x100000"

definition has_mmap :: "boot_info option \<Rightarrow> bool" where
  "has_mmap bi = (case bi of None \<Rightarrow> False
     | Some b \<Rightarrow> mmap_addr b \<noteq> None \<and> mmap_size b \<noteq> 0 \<and> mmap_entry_size b \<noteq> 0)"

text \<open>The initial ram disk's physical range, when the loader left one.\<close>

definition initrd_range :: "boot_info option \<Rightarrow> (u64 \<times> u64) option" where
  "initrd_range bi = (case bi of None \<Rightarrow> None
     | Some b \<Rightarrow> if initrd_start b \<noteq> 0 \<and> initrd_size b \<noteq> 0
                 then Some (initrd_start b, initrd_start b + initrd_size b) else None)"

definition memory_end_of :: "boot_info option \<Rightarrow> u64" where
  "memory_end_of bi =
     (let mem_end = (case bi of None \<Rightarrow> PMM_MEMORY_FALLBACK_END
                     | Some b \<Rightarrow> if PMM_MEMORY_START < mem_upper b then mem_upper b
                                 else PMM_MEMORY_FALLBACK_END);
          max_pages = PMM_BITMAP_MAX_SIZE * 8;
          max_mem_end = PMM_MEMORY_START + max_pages * PAGE_SIZE;
          mem_end = (if max_mem_end < mem_end then max_mem_end else mem_end)
      in if \<not> has_mmap bi \<and> PMM_MEMORY_FALLBACK_END < mem_end then PMM_MEMORY_FALLBACK_END
         else mem_end)"

definition bitmap_place :: "boot_info option \<Rightarrow> u64 \<Rightarrow> u64" where
  "bitmap_place bi kernel_end_phys =
     (let bitmap_phys = (kernel_end_phys + PAGE_SIZE - 1) AND NOT (PAGE_SIZE - 1)
      in case initrd_range bi of
           Some (_, initrd_end) \<Rightarrow>
             if bitmap_phys < initrd_end then (initrd_end + PAGE_SIZE - 1) AND NOT (PAGE_SIZE - 1)
             else bitmap_phys
         | None \<Rightarrow> bitmap_phys)"

definition physmap_max_of :: "boot_info option \<Rightarrow> u64" where
  "physmap_max_of bi = (case initrd_range bi of
       Some (_, initrd_end) \<Rightarrow>
         if 0x4000000 < initrd_end then (initrd_end + 0x1FFFFF) AND NOT 0x1FFFFF else 0x4000000
     | None \<Rightarrow> 0x4000000)"

text \<open>
  \<^verbatim>\<open>memory_init\<close>: the linker's symbols \<open>kernel_end\<close>, \<open>init_lo\<close> (\<^verbatim>\<open>__init_start\<close>) and \<open>init_hi\<close>
  (\<^verbatim>\<open>__init_end\<close>) are arguments. Console and trace output are left out.
\<close>

definition memory_init ::
  "boot_info option \<Rightarrow> u64 \<Rightarrow> u64 \<Rightarrow> u64 \<Rightarrow> 'a heap_state_scheme \<Rightarrow> (int \<times> 'a heap_state_scheme) option" where
  "memory_init bi kernel_end init_lo init_hi s =
     (let (rc, s) = paging_init s
      in if rc \<noteq> 0 then Some (-1, s)
         else
      let mem_end = memory_end_of bi;
          kernel_end_phys = X86_64_VIRT_TO_PHYS kernel_end;
          bitmap_phys = bitmap_place bi kernel_end_phys;
          bitmap_virt = X86_64_PHYS_TO_VIRT bitmap_phys;
          (rc, s) = (case bi of
              Some b \<Rightarrow>
                if has_mmap bi
                then pmm_init_from_mmap PMM_MEMORY_START mem_end bitmap_virt bitmap_phys
                       (mmap_addr b) (mmap_size b) (mmap_entry_size b) s
                else pmm_init PMM_MEMORY_START mem_end bitmap_virt s
            | None \<Rightarrow> pmm_init PMM_MEMORY_START mem_end bitmap_virt s)
      in if rc \<noteq> 0 then Some (-1, s)
         else
      let s = pmm_reserve_range 0x100000 kernel_end_phys s;
          s = (case initrd_range bi of
                 Some (lo, hi) \<Rightarrow> if lo < hi then pmm_reserve_range lo hi s else s
               | None \<Rightarrow> s);
          (rc, s) = paging_bootstrap_physmap (physmap_max_of bi) s
      in if rc \<noteq> 0 then Some (-1, s)
         else if \<not> paging_is_physmap_ready s then None
         else case paging_disable_identity_map s of
                None \<Rightarrow> None
              | Some s \<Rightarrow>
      (case heap_init 16 s of
         None \<Rightarrow> None
       | Some (rc, s) \<Rightarrow>
           if rc \<noteq> 0 then Some (-1, s)
           else
             let lo = X86_64_VIRT_TO_PHYS init_lo; hi = X86_64_VIRT_TO_PHYS init_hi
             in Some (0, if lo < hi then pmm_release_range lo hi s else s)))"

end
