(* ===== verification/PagingInv.thy ===== *)
theory PagingInv
  imports Paging "HOL-Library.Sublist"
begin

text \<open>
  Correctness of the page-table code of theory \<open>Paging\<close>. The tables of a set of address spaces
  form a forest: every table frame is reached by one path from one root, and none is a free
  frame. On such a forest a 4 KiB mapping is an update of the translation function at one page
  of one address space, and creating intermediate tables is invisible.
\<close>

section \<open>Walks\<close>

definition pte_present :: "u64 \<Rightarrow> bool" where "pte_present e \<longleftrightarrow> e AND PTE_PRESENT \<noteq> 0"
definition pte_large :: "u64 \<Rightarrow> bool" where "pte_large e \<longleftrightarrow> e AND PTE_SIZE_2MB \<noteq> 0"
definition pte_base :: "u64 \<Rightarrow> u64" where "pte_base e = e AND NOT 0xFFF"

text \<open>The table that a list of indices leads to; a 2 MiB entry at the third level ends the walk.\<close>

fun walk :: "bytes \<Rightarrow> nat \<Rightarrow> u64 \<Rightarrow> u64 list \<Rightarrow> u64 option" where
  "walk m l t [] = Some t"
| "walk m l t (i # is) =
     (let e = load64 m (ent t i)
      in if pte_present e \<and> (l = 2 \<longrightarrow> \<not> pte_large e) then walk m (Suc l) (pte_base e) is else None)"

definition path_ok :: "u64 set \<Rightarrow> u64 list \<Rightarrow> bool" where
  "path_ok D p \<longleftrightarrow> length p \<le> 3 \<and> (\<forall>i \<in> set p. i < 512) \<and> (p \<noteq> [] \<longrightarrow> hd p \<in> D)"

definition forest :: "u64 set \<Rightarrow> u64 set \<Rightarrow> u64 set \<Rightarrow> bytes \<Rightarrow> bool" where
  "forest R D F m \<longleftrightarrow> (\<forall>r \<in> R. page_aligned r) \<and>
     (\<forall>r \<in> R. \<forall>p t. path_ok D p \<longrightarrow> walk m 0 r p = Some t \<longrightarrow> t \<notin> F \<and>
        (\<forall>r' \<in> R. \<forall>p'. path_ok D p' \<longrightarrow> walk m 0 r' p' = Some t \<longrightarrow> r' = r \<and> p' = p))"

definition no_large :: "u64 set \<Rightarrow> u64 set \<Rightarrow> bytes \<Rightarrow> bool" where
  "no_large R D m \<longleftrightarrow> (\<forall>r \<in> R. \<forall>p t i. path_ok D p \<longrightarrow> length p = 2 \<longrightarrow> walk m 0 r p = Some t \<longrightarrow>
     i < 512 \<longrightarrow> \<not> (pte_present (load64 m (ent t i)) \<and> pte_large (load64 m (ent t i))))"

definition vpath :: "u64 \<Rightarrow> u64 list" where
  "vpath v = [paging_get_pml4_index v, paging_get_pdpt_index v, paging_get_pd_index v]"

text \<open>The 4 KiB translation of an address: its page-table entry, if one is present.\<close>

definition xlate :: "bytes \<Rightarrow> u64 \<Rightarrow> u64 \<Rightarrow> u64 option" where
  "xlate m r v = (case walk m 0 r (vpath v) of None \<Rightarrow> None
     | Some pt \<Rightarrow> (let e = load64 m (ent pt (paging_get_pt_index v))
                   in if pte_present e then Some e else None))"

text \<open>The virtual page number: bits 12 to 47.\<close>

definition vpn :: "u64 \<Rightarrow> u64" where
  "vpn v = take_bit 36 (drop_bit 12 v)"

lemma walk_snoc:
  "walk m l t (p @ [i]) = (case walk m l t p of None \<Rightarrow> None
     | Some u \<Rightarrow> (let e = load64 m (ent u i)
                  in if pte_present e \<and> (l + length p = 2 \<longrightarrow> \<not> pte_large e)
                     then Some (pte_base e) else None))"
  by (induction p arbitrary: l t) (auto simp: Let_def split: option.splits)

section \<open>Entries and addresses\<close>

lemma pte_base_aligned: "page_aligned (pte_base e)"
  unfolding page_aligned_def pte_base_def mask_12 by (rule bit_eqI) (auto simp: bit_simps)

lemma unat_ent:
  assumes "page_aligned t" "i < 512"
  shows "unat (ent t i) = unat t + 8 * unat i"
proof -
  have "unat i < 512" using assms(2) by (simp add: word_less_nat_alt)
  moreover have "unat t + 4095 < 2 ^ 64"
    using assms(1) unat_lt_64 [of t] page_bound [of "unat t" "unat t"] by (simp add: page_aligned_unat)
  ultimately show ?thesis by (simp add: ent_def unat_word_ariths)
qed

lemma ent_inject:
  assumes "page_aligned t" "page_aligned u" "i < 512" "j < 512" "ent t i = ent u j"
  shows "t = u \<and> i = j"
proof -
  have ij: "unat i < 512" "unat j < 512" using assms(3,4) by (simp_all add: word_less_nat_alt)
  have e: "unat t + 8 * unat i = unat u + 8 * unat j"
    using unat_ent [OF assms(1,3)] unat_ent [OF assms(2,4)] assms(5) by simp
  obtain a b where ab: "unat t = 4096 * a" "unat u = 4096 * b"
    using assms(1,2) by (auto simp: page_aligned_unat elim!: dvdE)
  then have "a = b" using e ij by arith
  then show ?thesis using e ab by (simp add: word_unat_eq_iff)
qed

lemma ent_aligned8:
  assumes "page_aligned t" "i < 512"
  shows "aligned8 (ent t i)"
proof -
  obtain a where "unat t = 4096 * a" using assms(1) by (auto simp: page_aligned_unat elim!: dvdE)
  then have "unat t + 8 * unat i = 8 * (512 * a + unat i)" by simp
  then show ?thesis unfolding aligned8_def unat_ent [OF assms] by (simp only: mod_mult_self1_is_0)
qed

lemma load_store_ent:
  assumes "page_aligned t" "page_aligned u" "i < 512" "j < 512"
  shows "load64 (store64 m (ent t i) v) (ent u j) =
    (if t = u \<and> i = j then v else load64 m (ent u j))"
proof -
  have "ent t i = ent u j \<longleftrightarrow> t = u \<and> i = j" using ent_inject [OF assms] by blast
  then show ?thesis
    using pm.load_store [OF ent_aligned8 [OF assms(1,3)] ent_aligned8 [OF assms(2,4)]] by simp
qed

text \<open>Zeroing a frame clears its words and leaves those of every other frame alone.\<close>

lemma load_mem_set_ent:
  assumes "page_aligned f" "page_aligned u" "j < 512"
  shows "load64 (mem_set m f 0 4096) (ent u j) = (if f = u then 0 else load64 m (ent u j))"
proof -
  have j: "unat j < 512" using assms(3) by (simp add: word_less_nat_alt)
  obtain a b where ab: "unat f = 4096 * a" "unat u = 4096 * b"
    using assms(1,2) by (auto simp: page_aligned_unat elim!: dvdE)
  have ub: "unat u + 4095 < 2 ^ 64"
    using assms(2) unat_lt_64 [of u] page_bound [of "unat u" "unat u"] by (simp add: page_aligned_unat)
  have e: "unat (ent u j + of_nat i) = 4096 * b + 8 * unat j + i" if "i < 8" for i
    using that ub j unat_ent [OF assms(2,3)] ab(2) by (simp add: unat_word_ariths unat_of_nat)
  show ?thesis
  proof (cases "f = u")
    case True
    then have "unat (ent u j + of_nat i - f) < 4096" if "i < 8" for i
      using e [OF that] that j ab by (simp add: unat_sub word_le_nat_alt)
    then show ?thesis using True by (simp add: load64_mem_set_zero)
  next
    case False
    then have "a \<noteq> b" using ab by (auto simp: word_unat_eq_iff)
    then have "4096 \<le> unat (ent u j + of_nat i - f)" if "i < 8" for i
      using e [OF that] that j ab unat_lt_64 [of f] by (auto simp: unat_sub_if')
    then show ?thesis using False by (simp add: load64_mem_set_other)
  qed
qed

section \<open>Forests under writes\<close>

lemma path_ok_snocD: "path_ok D (p @ [i]) \<Longrightarrow> path_ok D p \<and> i < 512"
  by (cases p) (auto simp: path_ok_def)

lemma path_ok_prefix: "path_ok D q \<Longrightarrow> prefix p q \<Longrightarrow> path_ok D p"
  by (cases p) (auto simp: path_ok_def prefix_def)

lemma walk_aligned:
  assumes "page_aligned r" "walk m 0 r p = Some t"
  shows "page_aligned t"
proof (cases p rule: rev_cases)
  case Nil
  then show ?thesis using assms by simp
next
  case (snoc q i)
  then show ?thesis
    using assms by (auto simp: walk_snoc Let_def pte_base_aligned split: option.splits if_splits)
qed

lemma walk_same:
  assumes "path_ok D p"
    and "\<And>q u j. prefix (q @ [j]) p \<Longrightarrow> walk m 0 r q = Some u \<Longrightarrow>
      load64 m' (ent u j) = load64 m (ent u j)"
  shows "walk m' 0 r p = walk m 0 r p"
  using assms
proof (induction p rule: rev_induct)
  case (snoc j p)
  have "walk m' 0 r p = walk m 0 r p"
    using snoc.prems path_ok_snocD by (intro snoc.IH) (auto intro: prefix_prefix)
  moreover have "load64 m' (ent u j) = load64 m (ent u j)" if "walk m 0 r p = Some u" for u
    using snoc.prems(2) [of p j u] that by simp
  ultimately show ?case by (auto simp: walk_snoc Let_def split: option.splits)
qed simp

lemma forest_aligned: "forest R D F m \<Longrightarrow> r \<in> R \<Longrightarrow> walk m 0 r p = Some t \<Longrightarrow> page_aligned t"
  using walk_aligned by (auto simp: forest_def)

lemma forest_unique:
  "forest R D F m \<Longrightarrow> r \<in> R \<Longrightarrow> r' \<in> R \<Longrightarrow> path_ok D p \<Longrightarrow> path_ok D p' \<Longrightarrow>
   walk m 0 r p = Some t \<Longrightarrow> walk m 0 r' p' = Some t \<Longrightarrow> r' = r \<and> p' = p"
  unfolding forest_def by blast

lemma forest_not_free:
  "forest R D F m \<Longrightarrow> r \<in> R \<Longrightarrow> path_ok D p \<Longrightarrow> walk m 0 r p = Some t \<Longrightarrow> t \<notin> F"
  unfolding forest_def by blast

text \<open>Writing one entry affects only the walks through it.\<close>

lemma walk_store_other:
  assumes f: "forest R D F m" and r: "r \<in> R" "path_ok D p" "walk m 0 r p = Some t" "i < 512"
    and r': "r' \<in> R" "path_ok D p'" "\<not> (r' = r \<and> prefix (p @ [i]) p')"
  shows "walk (store64 m (ent t i) v) 0 r' p' = walk m 0 r' p'"
proof (rule walk_same [OF r'(2)])
  fix q u j
  assume q: "prefix (q @ [j]) p'" and u: "walk m 0 r' q = Some u"
  have ok: "path_ok D q" "j < 512" using path_ok_prefix [OF r'(2) q] path_ok_snocD by blast+
  have "\<not> (t = u \<and> i = j)"
    using forest_unique [OF f r(1) r'(1) r(2) ok(1) r(3)] u r'(3) q by auto
  then show "load64 (store64 m (ent t i) v) (ent u j) = load64 m (ent u j)"
    using load_store_ent [OF forest_aligned [OF f r(1,3)] forest_aligned [OF f r'(1) u] r(4) ok(2)]
    by auto
qed

text \<open>A write at the last level touches no walk.\<close>

lemma walk_store_leaf:
  assumes "forest R D F m" "r \<in> R" "path_ok D p" "walk m 0 r p = Some t" "i < 512" "length p = 3"
    and "r' \<in> R" "path_ok D p'"
  shows "walk (store64 m (ent t i) v) 0 r' p' = walk m 0 r' p'"
proof (rule walk_store_other [OF assms(1-5,7,8)])
  show "\<not> (r' = r \<and> prefix (p @ [i]) p')"
    using assms(6,8) prefix_length_le [of "p @ [i]" p'] by (auto simp: path_ok_def)
qed

lemma forest_same_walks:
  assumes "forest R D F m" "F' \<subseteq> F"
    and "\<And>r p. r \<in> R \<Longrightarrow> path_ok D p \<Longrightarrow> walk m' 0 r p = walk m 0 r p"
  shows "forest R D F' m'"
  using assms unfolding forest_def by (metis subsetD)

text \<open>Zeroing a free frame touches no table.\<close>

lemma walk_zero_frame:
  assumes "forest R D F m" "f \<in> F" "page_aligned f" "r \<in> R" "path_ok D p"
  shows "walk (mem_set m f 0 4096) 0 r p = walk m 0 r p"
proof (rule walk_same [OF assms(5)])
  fix q u j
  assume q: "prefix (q @ [j]) p" and u: "walk m 0 r q = Some u"
  have ok: "path_ok D q" "j < 512" using path_ok_prefix [OF assms(5) q] path_ok_snocD by blast+
  then have "f \<noteq> u" using forest_not_free [OF assms(1,4) _ u] assms(2) by blast
  then show "load64 (mem_set m f 0 4096) (ent u j) = load64 m (ent u j)"
    using load_mem_set_ent [OF assms(3) forest_aligned [OF assms(1,4) u] ok(2)] by simp
qed

section \<open>Installing a table\<close>

lemma and_1ff_less: "(x::u64) AND 0x1FF < 512"
proof -
  have "(0x1FF::u64) = mask 9" by (simp add: mask_eq_exp_minus_1)
  then have "x AND 0x1FF = take_bit 9 x" by (simp add: take_bit_eq_mask)
  then show ?thesis by (simp add: word_less_nat_alt unat_take_bit_word)
qed

lemma index_less [simp]:
  "paging_get_pml4_index v < 512" "paging_get_pdpt_index v < 512"
  "paging_get_pd_index v < 512" "paging_get_pt_index v < 512"
  by (simp_all add: paging_get_pml4_index_def paging_get_pdpt_index_def paging_get_pd_index_def
      paging_get_pt_index_def and_1ff_less)

lemma vpath_ok: "paging_get_pml4_index v \<in> D \<Longrightarrow> path_ok D (vpath v)"
  by (simp add: path_ok_def vpath_def)

lemma length_vpath [simp]: "length (vpath v) = 3"
  by (simp add: vpath_def)

lemma walk_append:
  "walk m l t (p @ q) = (case walk m l t p of None \<Rightarrow> None | Some u \<Rightarrow> walk m (l + length p) u q)"
  by (induction p arbitrary: l t) (auto simp: Let_def split: option.splits)

definition table_bits :: "u64 \<Rightarrow> bool" where
  "table_bits b \<longleftrightarrow> b AND NOT 0xFFF = 0 \<and> b AND PTE_SIZE_2MB = 0"

lemma bit_page_aligned: "page_aligned a \<longleftrightarrow> (\<forall>n < 12. \<not> bit a n)"
proof -
  have "a AND mask 12 = 0 \<longleftrightarrow> (\<forall>n < 64. bit a n \<longrightarrow> \<not> n < 12)"
    by (auto simp: bit_eq_iff bit_simps)
  also have "\<dots> \<longleftrightarrow> (\<forall>n < 12. \<not> bit a n)"
    using bit_imp_le_length [of a] by auto
  finally show ?thesis by (simp add: page_aligned_def mask_12)
qed

lemma new_entry:
  assumes "page_aligned f" "table_bits b"
  shows "pte_present (f OR PTE_PRESENT OR b)" "\<not> pte_large (f OR PTE_PRESENT OR b)"
    "pte_base (f OR PTE_PRESENT OR b) = f"
proof -
  have f: "\<not> bit f n" if "n < 12" for n using assms(1) that by (simp add: bit_page_aligned)
  have p7: "(0x80::u64) = 2 ^ 7" by simp
  have m12: "(0xFFF::u64) = mask 12" by (simp add: mask_eq_exp_minus_1)
  have b: "\<not> bit b n" if "12 \<le> n" for n
    using assms(2) that bit_imp_le_length [of b n] unfolding table_bits_def m12
    by (auto simp: bit_eq_iff bit_simps)
  have b7: "\<not> bit b 7"
    using assms(2) unfolding table_bits_def
    by (auto simp: bit_eq_iff bit_simps dest!: spec [of _ "7::nat"])
  have "bit ((f OR PTE_PRESENT OR b) AND PTE_PRESENT) 0" by (simp add: bit_simps)
  then show "pte_present (f OR PTE_PRESENT OR b)"
    unfolding pte_present_def by (intro notI) (simp del: bit_0)
  show "\<not> pte_large (f OR PTE_PRESENT OR b)"
  proof -
    have "(f OR PTE_PRESENT OR b) AND PTE_SIZE_2MB = 0"
    proof (rule bit_word_eqI)
      fix n
      have "bit (PTE_SIZE_2MB) n \<longleftrightarrow> n = 7"
        using bit_exp_iff [where 'a = "64 word", of 7 n] unfolding p7 [symmetric] by auto
      then show "bit ((f OR PTE_PRESENT OR b) AND PTE_SIZE_2MB) n = bit 0 n"
        using f [of 7] b7 by (auto simp: bit_simps)
    qed
    then show ?thesis by (simp add: pte_large_def)
  qed
  show "pte_base (f OR PTE_PRESENT OR b) = f"
    unfolding pte_base_def m12 using b
    by (intro bit_word_eqI) (auto simp: bit_simps not_less, meson f not_le)
qed


lemma install_table:
  assumes f: "forest R D F m" and r: "r \<in> R" "path_ok D (p @ [i])" "walk m 0 r p = Some t"
    and np: "\<not> pte_present (load64 m (ent t i))"
    and fr: "fr \<in> F" "page_aligned fr" and b: "table_bits b"
    and m': "m' = store64 (mem_set m fr 0 4096) (ent t i) (fr OR PTE_PRESENT OR b)"
  shows "r' \<in> R \<Longrightarrow> path_ok D p' \<Longrightarrow> walk m' 0 r' p' =
      (if r' = r \<and> prefix (p @ [i]) p' then (if p' = p @ [i] then Some fr else None)
       else walk m 0 r' p')" (is "_ \<Longrightarrow> _ \<Longrightarrow> ?W r' p'")
    and "r' \<in> R \<Longrightarrow> path_ok D q \<Longrightarrow> walk m 0 r' q = Some u \<Longrightarrow> j < 512 \<Longrightarrow>
      \<not> (r' = r \<and> q = p \<and> j = i) \<Longrightarrow> load64 m' (ent u j) = load64 m (ent u j)"
    and "j < 512 \<Longrightarrow> load64 m' (ent fr j) = 0"
    and "r' \<in> R \<Longrightarrow> path_ok D p' \<Longrightarrow> r' = r \<Longrightarrow> prefix (p @ [i]) p' \<Longrightarrow> walk m 0 r' p' = None"
proof -
  let ?m1 = "mem_set m fr 0 4096" and ?e = "fr OR PTE_PRESENT OR b"
  note pi = path_ok_snocD [OF r(2)]
  have i: "i < 512" and po: "path_ok D p" using pi by auto
  have ta: "page_aligned t" by (rule forest_aligned [OF f r(1,3)])
  have tf: "t \<noteq> fr" using forest_not_free [OF f r(1) po r(3)] fr(1) by blast
  have w1: "walk ?m1 0 r' p' = walk m 0 r' p'" if "r' \<in> R" "path_ok D p'" for r' p'
    by (rule walk_zero_frame [OF f fr that])
  have f1: "forest R D F ?m1" by (rule forest_same_walks [OF f subset_refl w1])
  have wt: "walk ?m1 0 r p = Some t" using w1 [OF r(1) po] r(3) by simp
  note ne = new_entry [OF fr(2) b]
  have other: "walk m' 0 r' p' = walk m 0 r' p'"
    if "r' \<in> R" "path_ok D p'" "\<not> (r' = r \<and> prefix (p @ [i]) p')" for r' p'
    using walk_store_other [OF f1 r(1) po wt i that] w1 [OF that(1,2)] by (simp add: m')
  have pp: "walk m' 0 r p = Some t"
    using other [OF r(1) po] r(3) prefix_length_le [of "p @ [i]" p] by auto
  have et: "load64 m' (ent t i) = ?e" using load_store_ent [OF ta ta i i] by (simp add: m')
  have here: "walk m' 0 r (p @ [i]) = Some fr" using pp et ne by (simp add: walk_snoc)
  show z: "load64 m' (ent fr j) = 0" if "j < 512" for j
    using load_store_ent [OF ta fr(2) i that] load_mem_set_ent [OF fr(2) fr(2) that] tf
    by (simp add: m')
  have beyond: "walk m' 0 r (p @ [i] @ j # q) = None" if "j < 512" for j q
  proof -
    have "walk m' 0 r ((p @ [i]) @ j # q) = walk m' (length (p @ [i])) fr (j # q)"
      by (simp only: walk_append [of m' 0 r "p @ [i]"] here option.case) simp
    then show ?thesis using z [OF that] by (simp add: pte_present_def)
  qed
  show "?W r' p'" if R: "r' \<in> R" and P: "path_ok D p'"
  proof (cases "r' = r \<and> prefix (p @ [i]) p'")
    case True
    then obtain q where q: "p' = (p @ [i]) @ q" by (auto simp: prefix_def)
    show ?thesis
    proof (cases q)
      case Nil
      then show ?thesis using True here q by simp
    next
      case (Cons j q')
      then have "j < 512" using P q by (auto simp: path_ok_def)
      then show ?thesis using True beyond [of j q'] q Cons by simp
    qed
  qed (use other [OF R P] in auto)
  show "load64 m' (ent u j) = load64 m (ent u j)"
    if "r' \<in> R" "path_ok D q" "walk m 0 r' q = Some u" "j < 512" "\<not> (r' = r \<and> q = p \<and> j = i)"
    for r' q u j
  proof -
    have ua: "page_aligned u" by (rule forest_aligned [OF f that(1,3)])
    have uf: "u \<noteq> fr" using forest_not_free [OF f that(1-3)] fr(1) by blast
    have "\<not> (t = u \<and> i = j)" using forest_unique [OF f r(1) that(1) po that(2) r(3)] that by blast
    then show ?thesis
      using load_store_ent [OF ta ua i that(4)] load_mem_set_ent [OF fr(2) ua that(4)] uf
      by (auto simp: m')
  qed
  show "walk m 0 r' p' = None" if eq: "r' = r" and pre: "prefix (p @ [i]) p'" for r' p'
  proof -
    obtain q where q: "p' = (p @ [i]) @ q" using pre by (auto simp: prefix_def)
    have "walk m 0 r (p @ [i]) = None" using r(3) np by (simp add: walk_snoc)
    then show ?thesis using eq by (simp only: q walk_append [of m 0 r "p @ [i]"] option.case)
  qed
qed


lemma install_forest:
  assumes f: "forest R D F m" and r: "r \<in> R" "path_ok D (p @ [i])" "walk m 0 r p = Some t"
    and np: "\<not> pte_present (load64 m (ent t i))"
    and fr: "fr \<in> F" "page_aligned fr" and b: "table_bits b"
    and m': "m' = store64 (mem_set m fr 0 4096) (ent t i) (fr OR PTE_PRESENT OR b)"
  shows "forest R D (F - {fr}) m'" and "no_large R D m \<Longrightarrow> no_large R D m'"
    and "r' \<in> R \<Longrightarrow> paging_get_pml4_index v \<in> D \<Longrightarrow> xlate m' r' v = xlate m r' v"
proof -
  note it = install_table [OF f r np fr b m']
  note po = path_ok_snocD [OF r(2)]
  show "forest R D (F - {fr}) m'"
    unfolding forest_def
  proof (intro conjI ballI allI impI)
    show "page_aligned x" if "x \<in> R" for x using f that by (auto simp: forest_def)
  next
    fix x q u assume x: "x \<in> R" "path_ok D q" "walk m' 0 x q = Some u"
    show "u \<notin> F - {fr}"
      using it(1) [OF x(1,2)] x(3) forest_not_free [OF f x(1,2)] by (auto split: if_splits)
    fix x' q' assume x': "x' \<in> R" "path_ok D q'" "walk m' 0 x' q' = Some u"
    have cs: "(u = fr \<and> y = r \<and> z = p @ [i]) \<or> (u \<noteq> fr \<and> walk m 0 y z = Some u)"
      if "y \<in> R" "path_ok D z" "walk m' 0 y z = Some u" for y z
      using it(1) [OF that(1,2)] that(3) forest_not_free [OF f that(1,2)] fr(1)
      by (auto split: if_splits)
    show "x' = x" "q' = q"
      using cs [OF x] cs [OF x'] forest_unique [OF f x(1) x'(1) x(2) x'(2)] by blast+
  qed
  show "no_large R D m'" if nl: "no_large R D m"
    unfolding no_large_def
  proof (intro ballI allI impI)
    fix x q u j
    assume x: "x \<in> R" "path_ok D q" "length q = 2" "walk m' 0 x q = Some u" "j < (512::u64)"
    show "\<not> (pte_present (load64 m' (ent u j)) \<and> pte_large (load64 m' (ent u j)))"
    proof (cases "x = r \<and> prefix (p @ [i]) q")
      case True
      then have "u = fr" using it(1) [OF x(1,2)] x(4) by (auto split: if_splits)
      then show ?thesis using it(3) [OF x(5)] by (simp add: pte_present_def)
    next
      case False
      then have u: "walk m 0 x q = Some u" using it(1) [OF x(1,2)] x(4) by auto
      show ?thesis
      proof (cases "x = r \<and> q = p \<and> j = i")
        case True
        then have "u = t" using u r(3) by simp
        moreover have "load64 m' (ent t i) = fr OR PTE_PRESENT OR b"
          using load_store_ent [of t t i i] forest_aligned [OF f r(1,3)] po by (simp add: m')
        ultimately show ?thesis using True new_entry(2) [OF fr(2) b] by simp
      next
        case False
        then show ?thesis
          using it(2) [OF x(1,2) u x(5)] nl x(1,2,3,5) u unfolding no_large_def by simp
      qed
    qed
  qed
  show "xlate m' r' v = xlate m r' v" if x: "r' \<in> R" "paging_get_pml4_index v \<in> D"
  proof (cases "r' = r \<and> prefix (p @ [i]) (vpath v)")
    case True
    then have "walk m 0 r' (vpath v) = None" using it(4) [OF x(1) vpath_ok [OF x(2)]] by simp
    then show ?thesis
      using True it(1) [OF x(1) vpath_ok [OF x(2)]] it(3)
      by (auto simp: xlate_def Let_def pte_present_def)
  next
    case False
    then have w: "walk m' 0 r' (vpath v) = walk m 0 r' (vpath v)"
      using it(1) [OF x(1) vpath_ok [OF x(2)]] by auto
    have "\<not> (r' = r \<and> vpath v = p \<and> paging_get_pt_index v = i)"
      using r(2) length_vpath [of v] by (auto simp: path_ok_def)
    then have "load64 m' (ent u (paging_get_pt_index v)) = load64 m (ent u (paging_get_pt_index v))"
      if "walk m 0 r' (vpath v) = Some u" for u
      using it(2) [OF x(1) vpath_ok [OF x(2)] that] by simp
    then show ?thesis using w by (auto simp: xlate_def split: option.splits)
  qed
qed


section \<open>The table allocators\<close>

lemma virt_ent [simp]: "X86_64_VIRT_TO_PHYS (ent (t + X86_64_KERNEL_VIRT_BASE) i) = ent t i"
  by (simp add: X86_64_VIRT_TO_PHYS_def ent_def)

lemma virt_base [simp]: "X86_64_VIRT_TO_PHYS (t + X86_64_KERNEL_VIRT_BASE) = t"
  by (simp add: X86_64_VIRT_TO_PHYS_def)

lemma mem_set_twice [simp]: "mem_set (mem_set m p v n) p v n = mem_set m p v n"
  by (auto simp: mem_set_def)

lemma zero_again: "pmem s = mem_set m p 0 4096 \<Longrightarrow> s\<lparr>pmem := mem_set (pmem s) p 0 4096\<rparr> = s"
  by simp

lemma alloc_table_eq:
  assumes "pmm_inv s"
  shows "paging_alloc_page_table s = pmm_alloc_page s"
    "paging_alloc_page_table_low s = pmm_alloc_page_in_zone PMM_ZONE_LOW s"
    "paging_alloc_page_table_identity s = pmm_alloc_page_in_zone PMM_ZONE_LOW s"
proof -
  have low: "frame_source pmm_inv free_frames pmem
      (pmm_alloc_page_in_zone PMM_ZONE_LOW :: 'a pmm_state_scheme \<Rightarrow> _)"
    by (rule frame_source_zone) simp
  obtain p t where a: "pmm_alloc_page s = (p, t)" by fastforce
  show "paging_alloc_page_table s = pmm_alloc_page s"
    using fa.alloc_some [OF assms a] zero_again [of t "pmem s" p]
    by (simp add: paging_alloc_page_table_def a)
  obtain q u where b: "pmm_alloc_page_in_zone PMM_ZONE_LOW s = (q, u)" by fastforce
  show "paging_alloc_page_table_low s = pmm_alloc_page_in_zone PMM_ZONE_LOW s"
    "paging_alloc_page_table_identity s = pmm_alloc_page_in_zone PMM_ZONE_LOW s"
    using frame_source.alloc_some [OF low assms b] zero_again [of u "pmem s" q]
    by (simp_all add: paging_alloc_page_table_low_def paging_alloc_page_table_identity_def b)
qed

lemma frame_source_cong:
  assumes "frame_source I fr mem a" "\<And>s. I s \<Longrightarrow> b s = a s"
  shows "frame_source I fr mem b"
proof
  fix s p t assume i: "I s" and e: "b s = (p, t)"
  then have e': "a s = (p, t)" using assms(2) by simp
  show "I t" by (rule frame_source.alloc_inv [OF assms(1) i e'])
  show "p \<noteq> 0 \<Longrightarrow> p \<in> fr s \<and> page_aligned p \<and> fr t = fr s - {p} \<and> mem t = mem_set (mem s) p 0 4096"
    by (rule frame_source.alloc_some [OF assms(1) i e'])
next
  fix s t assume i: "I s" and e: "b s = (0, t)"
  then have e': "a s = (0, t)" using assms(2) by simp
  show "fr t = fr s \<and> mem t = mem s" by (rule frame_source.alloc_zero [OF assms(1) i e'])
qed

interpretation pta: frame_source pmm_inv free_frames pmem paging_alloc_page_table
  by (rule frame_source_cong [OF fa.frame_source_axioms alloc_table_eq(1)])

interpretation ptl: frame_source pmm_inv free_frames pmem paging_alloc_page_table_low
  by (rule frame_source_cong [OF frame_source_zone alloc_table_eq(2)]) simp

section \<open>One level of a creating walk\<close>

text \<open>The invariant of the page-table code over the address spaces \<open>R\<close> and the domain \<open>D\<close>.\<close>

definition pt_inv :: "u64 set \<Rightarrow> u64 set \<Rightarrow> 'a paging_state_scheme \<Rightarrow> bool" where
  "pt_inv R D s \<longleftrightarrow> pmm_inv s \<and> forest R D (free_frames s) (pmem s)"

text \<open>What a step may do without anyone noticing: translations and existing tables stay.\<close>

definition quiet :: "u64 set \<Rightarrow> u64 set \<Rightarrow> 'a paging_state_scheme \<Rightarrow> 'a paging_state_scheme \<Rightarrow> bool" where
  "quiet R D s t \<longleftrightarrow>
     (\<forall>r \<in> R. \<forall>v. paging_get_pml4_index v \<in> D \<longrightarrow> xlate (pmem t) r v = xlate (pmem s) r v) \<and>
     (no_large R D (pmem s) \<longrightarrow> no_large R D (pmem t)) \<and>
     current_pml4_phys t = current_pml4_phys s \<and> tlb_log t = tlb_log s"

lemma quiet_refl [simp]: "quiet R D s s"
  by (simp add: quiet_def)

lemma quiet_trans [trans]: "quiet R D s t \<Longrightarrow> quiet R D t u \<Longrightarrow> quiet R D s u"
  by (simp add: quiet_def)


lemma more_fields:
  fixes s t :: "'a paging_state_scheme"
  assumes "pmm_state.more t = pmm_state.more s"
  shows "current_pml4_phys t = current_pml4_phys s" "tlb_log t = tlb_log s" "cr3 t = cr3 s"
    "physmap_ready t = physmap_ready s" "paging_state.more t = paging_state.more s"
  using assms by (cases s; cases t; simp)+

lemma alloc_table_more:
  assumes "pmm_inv s"
  shows "paging_alloc_page_table s = (p, t) \<Longrightarrow> pmm_state.more t = pmm_state.more s"
    "paging_alloc_page_table_low s = (p, t) \<Longrightarrow> pmm_state.more t = pmm_state.more s"
proof -
  assume "paging_alloc_page_table s = (p, t)"
  then show "pmm_state.more t = pmm_state.more s"
    using alloc_page_spec [OF assms] alloc_table_eq(1) [OF assms] by fastforce
next
  assume "paging_alloc_page_table_low s = (p, t)"
  then have "pmm_alloc_page_in_zone PMM_ZONE_LOW s = (p, t)"
    using alloc_table_eq(2) [OF assms] by simp
  from alloc_page_in_zone_spec [OF assms _ this] show "pmm_state.more t = pmm_state.more s" by auto
qed

lemma pmm_inv_pmem [simp]: "pmm_inv (s\<lparr>pmem := m\<rparr>) = pmm_inv s"
  by (simp add: pmm_inv_def geom_ok_def counts_ok_def lists_ok_def list_ok_def free_set_def
      page_zone_def pmm_index_to_page_def)

lemma free_frames_pmem [simp]: "free_frames (s\<lparr>pmem := m\<rparr>) = free_frames s"
  by (simp add: free_frames_def free_set_def pmm_index_to_page_def fun_eq_iff)

text \<open>A source of table frames leaves the paging state alone.\<close>

definition table_source :: "('a paging_state_scheme \<Rightarrow> u64 \<times> 'a paging_state_scheme) \<Rightarrow> bool" where
  "table_source alloc \<longleftrightarrow> frame_source pmm_inv free_frames pmem alloc \<and>
     (\<forall>s p t. pmm_inv s \<longrightarrow> alloc s = (p, t) \<longrightarrow> pmm_state.more t = pmm_state.more s)"

text \<open>How the code finds the next table in a present entry of level \<open>l\<close>.\<close>

definition next_ok :: "nat \<Rightarrow> (u64 \<Rightarrow> u64) \<Rightarrow> bool" where
  "next_ok l nx \<longleftrightarrow> (\<forall>e. pte_present e \<longrightarrow> (l = 2 \<longrightarrow> \<not> pte_large e) \<longrightarrow>
     nx e = pte_base e + X86_64_KERNEL_VIRT_BASE)"

lemma table_step_ok:
  fixes s :: "'a paging_state_scheme"
  assumes ts: "table_source alloc"
    and inv: "pt_inv R D s" and r: "r \<in> R" "path_ok D (p @ [i])" "walk (pmem s) 0 r p = Some t"
    and b: "table_bits b" and nx: "next_ok (length p) nx"
    and sm: "length p = 2 \<longrightarrow> pte_present (load64 (pmem s) (ent t i)) \<longrightarrow>
      \<not> pte_large (load64 (pmem s) (ent t i))"
    and st: "table_step alloc b nx (t + X86_64_KERNEL_VIRT_BASE) i s = (res, s')"
  shows "pt_inv R D s'" "quiet R D s s'"
    "\<And>nt. res = Some nt \<Longrightarrow> \<exists>u. nt = u + X86_64_KERNEL_VIRT_BASE \<and> walk (pmem s') 0 r (p @ [i]) = Some u"
    "\<And>q. path_ok D q \<Longrightarrow> \<not> prefix (p @ [i]) q \<Longrightarrow> walk (pmem s') 0 r q = walk (pmem s) 0 r q"
proof -
  let ?e = "load64 (pmem s) (ent t i)"
  have src: "frame_source pmm_inv free_frames pmem alloc"
    and more: "\<And>s p t. pmm_inv s \<Longrightarrow> alloc s = (p, t) \<Longrightarrow> pmm_state.more t = pmm_state.more s"
    using ts by (auto simp: table_source_def)
  have pm: "pmm_inv s" and fo: "forest R D (free_frames s) (pmem s)"
    using inv by (simp_all add: pt_inv_def)
  note po = path_ok_snocD [OF r(2)]
  have kr: "kread s (ent (t + X86_64_KERNEL_VIRT_BASE) i) = ?e" by (simp add: kread_def)
  have "pt_inv R D s' \<and> quiet R D s s' \<and> (\<forall>nt. res = Some nt \<longrightarrow>
      (\<exists>u. nt = u + X86_64_KERNEL_VIRT_BASE \<and> walk (pmem s') 0 r (p @ [i]) = Some u)) \<and>
      (\<forall>q. path_ok D q \<longrightarrow> \<not> prefix (p @ [i]) q \<longrightarrow> walk (pmem s') 0 r q = walk (pmem s) 0 r q)"
  proof (cases "pte_present ?e")
    case True
    then have "s' = s" "res = Some (nx ?e)"
      using st by (auto simp: table_step_def kr pte_present_def)
    moreover have "nx ?e = pte_base ?e + X86_64_KERNEL_VIRT_BASE" using nx sm True by (simp add: next_ok_def)
    moreover have "walk (pmem s) 0 r (p @ [i]) = Some (pte_base ?e)"
      using r(3) True sm by (simp add: walk_snoc)
    ultimately show ?thesis using inv by simp
  next
    case False
    obtain f u where a: "alloc s = (f, u)" by fastforce
    have pu: "pmm_inv u" by (rule frame_source.alloc_inv [OF src pm a])
    note mf = more_fields [OF more [OF pm a]]
    show ?thesis
    proof (cases "f = 0")
      case True
      then have "s' = u" "res = None"
        using st False a by (simp_all add: table_step_def kr pte_present_def)
      moreover have "free_frames u = free_frames s" "pmem u = pmem s"
        using frame_source.alloc_zero [OF src pm] a True by auto
      ultimately show ?thesis using pu fo mf by (simp add: pt_inv_def quiet_def)
    next
      case f: False
      note as = frame_source.alloc_some [OF src pm a f]
      define m' where "m' = store64 (mem_set (pmem s) f 0 4096) (ent t i) (f OR PTE_PRESENT OR b)"
      have s': "s' = u\<lparr>pmem := m'\<rparr>" and res: "res = Some (f + X86_64_KERNEL_VIRT_BASE)"
        using st False a f as by (auto simp: table_step_def kr pte_present_def kwrite_def m'_def)
      have fF: "f \<in> free_frames s" "page_aligned f" using as by blast+
      note it = install_table [OF fo r False fF b m'_def]
      note ifo = install_forest [OF fo r False fF b m'_def]
      have "pt_inv R D s'" using ifo(1) as pu by (simp add: pt_inv_def s')
      moreover have "quiet R D s s'" using ifo(2,3) mf by (simp add: quiet_def s')
      moreover have "walk (pmem s') 0 r (p @ [i]) = Some f" using it(1) [OF r(1,2)] by (simp add: s')
      moreover have "walk (pmem s') 0 r q = walk (pmem s) 0 r q"
        if "path_ok D q" "\<not> prefix (p @ [i]) q" for q
        using it(1) [OF r(1) that(1)] that(2) by (simp add: s')
      ultimately show ?thesis using res by blast
    qed
  qed
  then show "pt_inv R D s'" "quiet R D s s'"
    "\<And>nt. res = Some nt \<Longrightarrow> \<exists>u. nt = u + X86_64_KERNEL_VIRT_BASE \<and> walk (pmem s') 0 r (p @ [i]) = Some u"
    "\<And>q. path_ok D q \<Longrightarrow> \<not> prefix (p @ [i]) q \<Longrightarrow> walk (pmem s') 0 r q = walk (pmem s) 0 r q"
    by blast+
qed

section \<open>Writing a leaf entry\<close>

lemma bit_index:
  "bit (paging_get_pml4_index v) n \<longleftrightarrow> n < 9 \<and> bit v (39 + n)"
  "bit (paging_get_pdpt_index v) n \<longleftrightarrow> n < 9 \<and> bit v (30 + n)"
  "bit (paging_get_pd_index v) n \<longleftrightarrow> n < 9 \<and> bit v (21 + n)"
  "bit (paging_get_pt_index v) n \<longleftrightarrow> n < 9 \<and> bit v (12 + n)"
proof -
  have m: "(0x1FF::u64) = mask 9" by (simp add: mask_eq_exp_minus_1)
  show "bit (paging_get_pml4_index v) n \<longleftrightarrow> n < 9 \<and> bit v (39 + n)"
    "bit (paging_get_pdpt_index v) n \<longleftrightarrow> n < 9 \<and> bit v (30 + n)"
    "bit (paging_get_pd_index v) n \<longleftrightarrow> n < 9 \<and> bit v (21 + n)"
    "bit (paging_get_pt_index v) n \<longleftrightarrow> n < 9 \<and> bit v (12 + n)"
    unfolding paging_get_pml4_index_def paging_get_pdpt_index_def paging_get_pd_index_def
      paging_get_pt_index_def m
    by (auto simp: bit_simps)
qed

lemma vpn_iff:
  "vpath v = vpath w \<and> paging_get_pt_index v = paging_get_pt_index w \<longleftrightarrow> vpn v = vpn w"
proof
  assume l: "vpath v = vpath w \<and> paging_get_pt_index v = paging_get_pt_index w"
  show "vpn v = vpn w"
  proof (rule bit_word_eqI)
    fix n assume "n < LENGTH(64)"
    have e: "bit (paging_get_pml4_index v) k = bit (paging_get_pml4_index w) k"
      "bit (paging_get_pdpt_index v) k = bit (paging_get_pdpt_index w) k"
      "bit (paging_get_pd_index v) k = bit (paging_get_pd_index w) k"
      "bit (paging_get_pt_index v) k = bit (paging_get_pt_index w) k" for k
      using l by (simp_all add: vpath_def)
    show "bit (vpn v) n = bit (vpn w) n"
    proof (cases "n < 36")
      case True
      then consider "n < 9" | k where "n = 9 + k" "k < 9" | k where "n = 18 + k" "k < 9"
        | k where "n = 27 + k" "k < 9"
        by atomize_elim presburger
      then show ?thesis
        using True e [unfolded bit_index] by cases (auto simp: vpn_def bit_simps)
    qed (simp add: vpn_def bit_simps)
  qed
next
  assume r: "vpn v = vpn w"
  have e: "bit v (12 + k) = bit w (12 + k)" if "k < 36" for k
    using arg_cong [OF r, of "\<lambda>x. bit x k"] that by (simp add: vpn_def bit_simps)
  have "paging_get_pml4_index v = paging_get_pml4_index w"
    using e [of "27 + _"] by (intro bit_eqI) (auto simp: bit_index)
  moreover have "paging_get_pdpt_index v = paging_get_pdpt_index w"
    using e [of "18 + _"] by (intro bit_eqI) (auto simp: bit_index)
  moreover have "paging_get_pd_index v = paging_get_pd_index w"
    using e [of "9 + _"] by (intro bit_eqI) (auto simp: bit_index)
  moreover have "paging_get_pt_index v = paging_get_pt_index w"
    using e by (intro bit_eqI) (auto simp: bit_index)
  ultimately show "vpath v = vpath w \<and> paging_get_pt_index v = paging_get_pt_index w"
    by (simp add: vpath_def)
qed

lemma leaf_write:
  assumes f: "forest R D F m" and r: "r \<in> R" "paging_get_pml4_index v \<in> D"
    and w: "walk m 0 r (vpath v) = Some pt" and m': "m' = store64 m (ent pt (paging_get_pt_index v)) e"
  shows "forest R D F m'" "no_large R D m \<Longrightarrow> no_large R D m'"
    "r' \<in> R \<Longrightarrow> paging_get_pml4_index v' \<in> D \<Longrightarrow> xlate m' r' v' =
      (if r' = r \<and> vpn v' = vpn v then (if pte_present e then Some e else None) else xlate m r' v')"
proof -
  note vo = vpath_ok [OF r(2)]
  have same: "walk m' 0 x p = walk m 0 x p" if "x \<in> R" "path_ok D p" for x p
    using walk_store_leaf [OF f r(1) vo w index_less(4) length_vpath that] by (simp add: m')
  show "forest R D F m'" by (rule forest_same_walks [OF f subset_refl same])
  have ld: "load64 m' (ent u j) = (if pt = u \<and> paging_get_pt_index v = j then e else load64 m (ent u j))"
    if "x \<in> R" "walk m 0 x p = Some u" "j < 512" for x p u j
    using load_store_ent [OF forest_aligned [OF f r(1) w] forest_aligned [OF f that(1,2)]
        index_less(4) that(3)] by (simp add: m')
  show "no_large R D m'" if nl: "no_large R D m"
    unfolding no_large_def
  proof (intro ballI allI impI)
    fix x p u j
    assume a: "x \<in> R" "path_ok D p" "length p = 2" "walk m' 0 x p = Some u" "j < (512::u64)"
    then have u: "walk m 0 x p = Some u" using same by simp
    have "pt \<noteq> u"
      using forest_unique [OF f r(1) a(1) vo a(2) w] u a(3) length_vpath [of v] by force
    then show "\<not> (pte_present (load64 m' (ent u j)) \<and> pte_large (load64 m' (ent u j)))"
      using ld [OF a(1) u a(5)] nl a u unfolding no_large_def by auto
  qed
  show "xlate m' r' v' =
      (if r' = r \<and> vpn v' = vpn v then (if pte_present e then Some e else None) else xlate m r' v')"
    if x: "r' \<in> R" "paging_get_pml4_index v' \<in> D"
  proof (cases "walk m 0 r' (vpath v')")
    case None
    then have "\<not> (r' = r \<and> vpn v' = vpn v)" using w vpn_iff [of v' v] by auto
    then show ?thesis using None same [OF x(1) vpath_ok [OF x(2)]] by (simp add: xlate_def)
  next
    case (Some u)
    have "pt = u \<longleftrightarrow> r' = r \<and> vpath v' = vpath v"
      using forest_unique [OF f r(1) x(1) vo vpath_ok [OF x(2)] w] Some w by auto
    then show ?thesis
      using Some same [OF x(1) vpath_ok [OF x(2)]] ld [OF x(1) Some, of "paging_get_pt_index v'"]
        vpn_iff [of v' v]
      by (auto simp: xlate_def Let_def)
  qed
qed

lemma table_sources:
  "table_source paging_alloc_page_table" "table_source paging_alloc_page_table_low"
  using pta.frame_source_axioms ptl.frame_source_axioms alloc_table_more
  unfolding table_source_def by blast+

section \<open>Mapping, unmapping and translation as operations on the translation function\<close>

lemma next_table:
  assumes "pte_present e"
  shows "paging_get_pdpt_for e = pte_base e + X86_64_KERNEL_VIRT_BASE"
    "paging_get_pd_for e = pte_base e + X86_64_KERNEL_VIRT_BASE"
    "paging_get_pt_for e = pte_base e + X86_64_KERNEL_VIRT_BASE"
    "paging_get_pdpt e = pte_base e + X86_64_KERNEL_VIRT_BASE"
    "paging_get_pd e = pte_base e + X86_64_KERNEL_VIRT_BASE"
    "\<not> pte_large e \<Longrightarrow> paging_get_pt e = pte_base e + X86_64_KERNEL_VIRT_BASE"
  using assms by (simp_all add: pte_present_def pte_large_def pte_base_def paging_get_pdpt_for_def
      paging_get_pd_for_def paging_get_pt_for_def paging_get_pdpt_def paging_get_pd_def paging_get_pt_def)

lemma next_tables:
  "next_ok 0 paging_get_pdpt_for" "next_ok 1 paging_get_pd_for" "next_ok 2 paging_get_pt_for"
  "next_ok 0 paging_get_pdpt" "next_ok 1 paging_get_pd" "next_ok 2 paging_get_pt"
  by (simp_all add: next_ok_def next_table)

lemma kread_base [simp]: "kread s (ent (t + X86_64_KERNEL_VIRT_BASE) i) = load64 (pmem s) (ent t i)"
  by (simp add: kread_def)

lemma kwrite_base [simp]:
  "kwrite (ent (t + X86_64_KERNEL_VIRT_BASE) i) v s = s\<lparr>pmem := store64 (pmem s) (ent t i) v\<rparr>"
  by (simp add: kwrite_def)

lemma table_bits_user: "table_bits (PTE_RW OR (flags AND PTE_USER))" "table_bits PTE_RW"
proof -
  have "(PTE_RW OR (flags AND PTE_USER)) AND NOT 0xFFF = 0"
    "(PTE_RW OR (flags AND PTE_USER)) AND PTE_SIZE_2MB = 0"
    by (simp_all add: bit.conj_disj_distrib2 and.assoc)
  then show "table_bits (PTE_RW OR (flags AND PTE_USER))" by (simp add: table_bits_def)
  show "table_bits PTE_RW" by (simp add: table_bits_def)
qed

text \<open>\<open>phys_of\<close>: the address a page-table entry translates \<open>v\<close> to.\<close>

definition phys_of :: "u64 option \<Rightarrow> u64 \<Rightarrow> u64" where
  "phys_of e v = (case e of None \<Rightarrow> 0 | Some e \<Rightarrow> (e AND PTE_ADDR_MASK_4KB) OR (v AND PAGE_OFFSET_MASK))"

lemma get_physical_pml4_xlate:
  assumes "no_large R D (pmem s)" "r \<in> R" "paging_get_pml4_index v \<in> D" "r \<noteq> 0"
    "r + X86_64_KERNEL_VIRT_BASE \<noteq> 0"
  shows "paging_get_physical_pml4 r v s = phys_of (xlate (pmem s) r v) v"
proof -
  let ?m = "pmem s"
  define e1 where "e1 = load64 ?m (ent r (paging_get_pml4_index v))"
  define e2 where "e2 = load64 ?m (ent (pte_base e1) (paging_get_pdpt_index v))"
  define e3 where "e3 = load64 ?m (ent (pte_base e2) (paging_get_pd_index v))"
  have w3: "walk ?m 0 r (vpath v) = (if pte_present e1 \<and> pte_present e2 \<and> pte_present e3 \<and> \<not> pte_large e3
      then Some (pte_base e3) else None)"
    by (simp add: vpath_def e1_def [symmetric] e2_def [symmetric] e3_def [symmetric] Let_def)
  have "\<not> pte_large e3" if "pte_present e1" "pte_present e2" "pte_present e3"
  proof -
    have "walk ?m 0 r [paging_get_pml4_index v, paging_get_pdpt_index v] = Some (pte_base e2)"
      using that by (simp add: e1_def [symmetric] e2_def [symmetric] Let_def)
    then show ?thesis
      using assms(1,2,3) that(3) unfolding no_large_def
      by (auto simp: path_ok_def e3_def dest!: bspec [of _ _ r]
          spec [of _ "[paging_get_pml4_index v, paging_get_pdpt_index v]"])
  qed
  then show ?thesis
    using assms(4,5) w3 next_table(4-6)
    by (auto simp: paging_get_physical_pml4_def X86_64_PHYS_TO_VIRT_def Let_def xlate_def phys_of_def
        e1_def [symmetric] e2_def [symmetric] e3_def [symmetric] pte_present_def pte_large_def)
qed


text \<open>
  The first two levels of a creating walk, as both mapping functions run them: either some
  allocation failed, or the path to the page directory exists now.
\<close>

lemma two_steps_ok:
  fixes s :: "'a paging_state_scheme"
  assumes ts: "table_source alloc" and inv: "pt_inv R D s"
    and r: "r \<in> R" "paging_get_pml4_index v \<in> D" and b: "table_bits b"
    and nx: "next_ok 0 n1" "next_ok 1 n2"
    and s1: "table_step alloc b n1 (r + X86_64_KERNEL_VIRT_BASE) (paging_get_pml4_index v) s = (r1, t1)"
  shows "pt_inv R D t1" "quiet R D s t1"
    "r1 = Some pdpt \<Longrightarrow> table_step alloc b n2 pdpt (paging_get_pdpt_index v) t1 = (r2, t2) \<Longrightarrow>
       pt_inv R D t2 \<and> quiet R D s t2 \<and> (\<forall>pd. r2 = Some pd \<longrightarrow> (\<exists>u. pd = u + X86_64_KERNEL_VIRT_BASE \<and>
         walk (pmem t2) 0 r [paging_get_pml4_index v, paging_get_pdpt_index v] = Some u))"
proof -
  have po: "path_ok D ([] @ [paging_get_pml4_index v])"
    "path_ok D ([paging_get_pml4_index v] @ [paging_get_pdpt_index v])"
    using r(2) by (simp_all add: path_ok_def)
  have w0: "walk (pmem s) 0 r [] = Some r" by simp
  have n1: "next_ok (length []) n1" using nx(1) by simp
  note a = table_step_ok [OF ts inv r(1) po(1) w0 b n1 _ s1, simplified]
  show i1: "pt_inv R D t1" "quiet R D s t1" by (fact a(1,2))+
  show "pt_inv R D t2 \<and> quiet R D s t2 \<and> (\<forall>pd. r2 = Some pd \<longrightarrow> (\<exists>u. pd = u + X86_64_KERNEL_VIRT_BASE \<and>
         walk (pmem t2) 0 r [paging_get_pml4_index v, paging_get_pdpt_index v] = Some u))"
    if r1: "r1 = Some pdpt" and s2: "table_step alloc b n2 pdpt (paging_get_pdpt_index v) t1 = (r2, t2)"
  proof -
    obtain t where t: "pdpt = t + X86_64_KERNEL_VIRT_BASE"
      "walk (pmem t1) 0 r [paging_get_pml4_index v] = Some t"
      using a(3) [OF r1] by auto
    have n2: "next_ok (length [paging_get_pml4_index v]) n2" using nx(2) by simp
    note c = table_step_ok [OF ts i1(1) r(1) po(2) t(2) b n2 _ s2 [unfolded t(1)], simplified]
    show ?thesis
      using c(1,3) quiet_trans [OF i1(2) c(2)] by auto
  qed
qed

lemma state_pmem:
  "pt_inv R D (s\<lparr>pmem := m\<rparr>) \<longleftrightarrow> pmm_inv s \<and> forest R D (free_frames s) m"
  "pt_inv R D (paging_flush_tlb v s) = pt_inv R D s" "pmem (paging_flush_tlb v s) = pmem s"
proof -
  have f: "free_set (paging_flush_tlb v s) = free_set s" "pmm_inv (paging_flush_tlb v s) = pmm_inv s"
    by (simp_all add: paging_flush_tlb_def pmm_inv_def geom_ok_def counts_ok_def lists_ok_def
        list_ok_def free_set_def page_zone_def pmm_index_to_page_def pmm_bitmap_test_def)
  then show "pt_inv R D (paging_flush_tlb v s) = pt_inv R D s" "pmem (paging_flush_tlb v s) = pmem s"
    by (simp_all add: pt_inv_def free_frames_def pmm_index_to_page_def fun_eq_iff)
      (simp_all add: paging_flush_tlb_def)
qed (simp add: pt_inv_def)

lemma map_pml4_ok:
  assumes inv: "pt_inv R D s" "no_large R D (pmem s)" and r: "r \<in> R" "paging_get_pml4_index virt \<in> D"
    and run: "paging_map_page_4kb_pml4 r virt phys flags s = (rc, s')"
    and e: "e = phys OR (flags AND (PTE_PRESENT OR PTE_RW OR PTE_USER OR PTE_NX))"
  shows "pt_inv R D s' \<and> no_large R D (pmem s') \<and> (rc = 0 \<or> rc = RDNX_E_GENERIC) \<and>
    (\<forall>r' \<in> R. \<forall>v. paging_get_pml4_index v \<in> D \<longrightarrow> xlate (pmem s') r' v =
      (if rc = 0 \<and> r' = r \<and> vpn v = vpn virt then (if pte_present e then Some e else None)
       else xlate (pmem s) r' v)) \<and>
    (rc = 0 \<longrightarrow> current_pml4_phys s = r \<longrightarrow> virt \<noteq> 0 \<longrightarrow> hd (tlb_log s') = Invlpg virt)"
proof (cases "virt AND PAGE_OFFSET_MASK \<noteq> 0 \<or> phys AND PAGE_OFFSET_MASK \<noteq> 0 \<or> r = 0")
  case True
  then have "rc = RDNX_E_GENERIC" "s' = s"
    using run by (auto simp: paging_map_page_4kb_pml4_def split: if_splits)
  then show ?thesis using inv by simp
next
  case guards: False
  let ?b = "PTE_RW OR (flags AND PTE_USER)"
  note ts = table_sources(2)
  obtain r1 t1 where s1: "table_step paging_alloc_page_table_low ?b paging_get_pdpt_for
      (r + X86_64_KERNEL_VIRT_BASE) (paging_get_pml4_index virt) s = (r1, t1)" by fastforce
  note two = two_steps_ok [OF ts inv(1) r table_bits_user(1) next_tables(1,2) s1]
  have fail: ?thesis if "rc = RDNX_E_GENERIC" "pt_inv R D s'" "quiet R D s s'"
    using that inv(2) by (simp add: quiet_def)
  note run' = run [unfolded paging_map_page_4kb_pml4_def Let_def]
  show ?thesis
  proof (cases r1)
    case None
    then show ?thesis using fail two(1,2) run' guards s1 by auto
  next
    case (Some pdpt)
    obtain r2 t2 where s2: "table_step paging_alloc_page_table_low ?b paging_get_pd_for pdpt
        (paging_get_pdpt_index virt) t1 = (r2, t2)" by fastforce
    note tw = two(3) [OF Some s2]
    show ?thesis
    proof (cases r2)
      case None
      then show ?thesis using fail tw run' guards s1 s2 Some by auto
    next
      case s2s: (Some pd)
      then obtain u where u: "pd = u + X86_64_KERNEL_VIRT_BASE"
        "walk (pmem t2) 0 r [paging_get_pml4_index virt, paging_get_pdpt_index virt] = Some u"
        using tw by blast
      obtain r3 t3 where s3: "table_step paging_alloc_page_table_low ?b paging_get_pt_for
          (u + X86_64_KERNEL_VIRT_BASE) (paging_get_pd_index virt) t2 = (r3, t3)" by fastforce
      have po: "path_ok D ([paging_get_pml4_index virt, paging_get_pdpt_index virt] @
          [paging_get_pd_index virt])" using vpath_ok [OF r(2)] by (simp add: vpath_def)
      have nl2: "no_large R D (pmem t2)" using tw inv(2) by (simp add: quiet_def)
      let ?p = "[paging_get_pml4_index virt, paging_get_pdpt_index virt]"
      have small: "length ?p = 2 \<longrightarrow> pte_present (load64 (pmem t2) (ent u (paging_get_pd_index virt))) \<longrightarrow>
          \<not> pte_large (load64 (pmem t2) (ent u (paging_get_pd_index virt)))"
        using nl2 r(1) u(2) path_ok_snocD [OF po] unfolding no_large_def by fastforce
      have n3: "next_ok (length ?p) paging_get_pt_for"
        using next_tables(3) by (simp add: numeral_2_eq_2)
      have i2: "pt_inv R D t2" "quiet R D s t2" using tw by auto
      note st3 = table_step_ok [OF ts i2(1) r(1) po u(2) table_bits_user(1) n3 small s3]
      have i3: "pt_inv R D t3" "quiet R D t2 t3" by (fact st3(1,2))+
      then have q3: "quiet R D s t3" using quiet_trans i2(2) by blast
      show ?thesis
      proof (cases r3)
        case None
        then show ?thesis using fail i3(1) q3 run' guards s1 s2 s3 Some s2s u by auto
      next
        case s3s: (Some ptv)
        then obtain pt where pt: "ptv = pt + X86_64_KERNEL_VIRT_BASE"
          "walk (pmem t3) 0 r (vpath virt) = Some pt"
          using st3(3) by (auto simp: vpath_def)
        define m' where "m' = store64 (pmem t3) (ent pt (paging_get_pt_index virt)) e"
        have fin: "rc = 0" "s' = (if current_pml4_phys t3 = r
            then paging_flush_tlb virt (t3\<lparr>pmem := m'\<rparr>) else t3\<lparr>pmem := m'\<rparr>)"
          using run' guards s1 s2 s3 Some s2s s3s u pt by (auto simp: m'_def e)
        have fo: "forest R D (free_frames t3) (pmem t3)" "pmm_inv t3"
          using i3(1) by (simp_all add: pt_inv_def)
        note lw = leaf_write [OF fo(1) r pt(2) m'_def]
        have "pt_inv R D s'" and pm: "pmem s' = m'"
          using lw(1) fo(2) by (auto simp: fin(2) state_pmem)
        moreover have "no_large R D (pmem s')" using lw(2) pm q3 inv(2) by (simp add: quiet_def)
        moreover have "xlate (pmem s') r' v = (if r' = r \<and> vpn v = vpn virt
            then (if pte_present e then Some e else None) else xlate (pmem s) r' v)"
          if "r' \<in> R" "paging_get_pml4_index v \<in> D" for r' v
          using lw(3) [OF that] q3 that pm by (simp add: quiet_def)
        moreover have "current_pml4_phys s = r \<longrightarrow> virt \<noteq> 0 \<longrightarrow> hd (tlb_log s') = Invlpg virt"
          using q3 by (simp add: fin(2) paging_flush_tlb_def quiet_def)
        ultimately show ?thesis using fin(1) by simp
      qed
    qed
  qed
qed

lemma unmap_pml4_ok:
  assumes inv: "pt_inv R D s" "no_large R D (pmem s)" and r: "r \<in> R" "paging_get_pml4_index virt \<in> D"
    and run: "paging_unmap_page_pml4 r virt s = (rc, s')"
  shows "pt_inv R D s' \<and> no_large R D (pmem s') \<and> (rc = 0 \<or> rc = RDNX_E_GENERIC) \<and>
    (\<forall>r' \<in> R. \<forall>v. paging_get_pml4_index v \<in> D \<longrightarrow> xlate (pmem s') r' v =
      (if rc = 0 \<and> r' = r \<and> vpn v = vpn virt then None else xlate (pmem s) r' v)) \<and>
    (xlate (pmem s) r virt \<noteq> None \<longrightarrow> r \<noteq> 0 \<longrightarrow> r + X86_64_KERNEL_VIRT_BASE \<noteq> 0 \<longrightarrow> rc = 0)"
proof -
  let ?m = "pmem s"
  define e1 where "e1 = load64 ?m (ent r (paging_get_pml4_index virt))"
  define e2 where "e2 = load64 ?m (ent (pte_base e1) (paging_get_pdpt_index virt))"
  define e3 where "e3 = load64 ?m (ent (pte_base e2) (paging_get_pd_index virt))"
  have w3: "walk ?m 0 r (vpath virt) = (if pte_present e1 \<and> pte_present e2 \<and> pte_present e3 \<and> \<not> pte_large e3
      then Some (pte_base e3) else None)"
    by (simp add: vpath_def e1_def [symmetric] e2_def [symmetric] e3_def [symmetric] Let_def)
  have small: "\<not> pte_large e3" if "pte_present e1" "pte_present e2" "pte_present e3"
  proof -
    have "walk ?m 0 r [paging_get_pml4_index virt, paging_get_pdpt_index virt] = Some (pte_base e2)"
      using that by (simp add: e1_def [symmetric] e2_def [symmetric] Let_def)
    moreover have "path_ok D [paging_get_pml4_index virt, paging_get_pdpt_index virt]"
      using r(2) by (simp add: path_ok_def)
    ultimately show ?thesis
      using inv(2) r(1) that(3) unfolding no_large_def e3_def by fastforce
  qed
  show ?thesis
  proof (cases "r \<noteq> 0 \<and> r + X86_64_KERNEL_VIRT_BASE \<noteq> 0 \<and> pte_present e1 \<and> pte_present e2 \<and> pte_present e3")
    case True
    define m' where "m' = store64 ?m (ent (pte_base e3) (paging_get_pt_index virt)) 0"
    have fin: "rc = 0" "s' = (if current_pml4_phys s = r
        then paging_flush_tlb virt (s\<lparr>pmem := m'\<rparr>) else s\<lparr>pmem := m'\<rparr>)"
      using run True small next_table(4-6)
      by (auto simp: paging_unmap_page_pml4_def X86_64_PHYS_TO_VIRT_def Let_def m'_def
          e1_def [symmetric] e2_def [symmetric] e3_def [symmetric] pte_present_def pte_large_def)
    have w: "walk ?m 0 r (vpath virt) = Some (pte_base e3)" using True small w3 by simp
    have fo: "forest R D (free_frames s) ?m" "pmm_inv s" using inv(1) by (simp_all add: pt_inv_def)
    note lw = leaf_write [OF fo(1) r w m'_def]
    have "pt_inv R D s'" "pmem s' = m'" using lw(1) fo(2) by (auto simp: fin(2) state_pmem)
    then show ?thesis using lw(2,3) inv(2) fin(1) by (simp add: pte_present_def)
  next
    case False
    then have "rc = RDNX_E_GENERIC" "s' = s"
      using run next_table(4,5)
      by (auto simp: paging_unmap_page_pml4_def X86_64_PHYS_TO_VIRT_def Let_def
          e1_def [symmetric] e2_def [symmetric] e3_def [symmetric] pte_present_def split: if_splits)
    then show ?thesis using inv False w3 by (auto simp: xlate_def)
  qed
qed

lemma map_current_ok:
  assumes inv: "pt_inv R D s" and r: "current_pml4_phys s \<in> R" "paging_get_pml4_index virt \<in> D"
    and run: "paging_map_page_4kb virt phys flags s = (rc, s')" and e: "e = phys OR flags OR PTE_PRESENT"
  shows "pt_inv R D s' \<and> (rc = 0 \<or> rc = RDNX_E_GENERIC) \<and> (no_large R D (pmem s) \<longrightarrow> no_large R D (pmem s')) \<and>
    (\<forall>r' \<in> R. \<forall>v. paging_get_pml4_index v \<in> D \<longrightarrow> xlate (pmem s') r' v =
      (if rc = 0 \<and> r' = current_pml4_phys s \<and> vpn v = vpn virt then (if pte_present e then Some e else None)
       else xlate (pmem s) r' v))"
proof (cases "virt AND PAGE_OFFSET_MASK \<noteq> 0 \<or> phys AND PAGE_OFFSET_MASK \<noteq> 0 \<or> paging_get_pml4 s = 0")
  case True
  then have "rc = RDNX_E_GENERIC" "s' = s"
    using run by (auto simp: paging_map_page_4kb_def split: if_splits)
  then show ?thesis using inv by simp
next
  case guards: False
  let ?r = "current_pml4_phys s"
  have g4: "paging_get_pml4 s = ?r + X86_64_KERNEL_VIRT_BASE"
    using guards by (auto simp: paging_get_pml4_def split: if_splits)
  note ts = table_sources(1)
  obtain r1 t1 where s1: "table_step paging_alloc_page_table PTE_RW paging_get_pdpt
      (?r + X86_64_KERNEL_VIRT_BASE) (paging_get_pml4_index virt) s = (r1, t1)" by fastforce
  note two = two_steps_ok [OF ts inv r table_bits_user(2) next_tables(4,5) s1]
  have fail: ?thesis if "rc = RDNX_E_GENERIC" "pt_inv R D s'" "quiet R D s s'"
    using that by (simp add: quiet_def)
  note run' = run [unfolded paging_map_page_4kb_def Let_def g4]
  show ?thesis
  proof (cases r1)
    case None
    then show ?thesis using fail two(1,2) run' guards s1 g4 by auto
  next
    case (Some pdpt)
    obtain r2 t2 where s2: "table_step paging_alloc_page_table PTE_RW paging_get_pd pdpt
        (paging_get_pdpt_index virt) t1 = (r2, t2)" by fastforce
    note tw = two(3) [OF Some s2]
    show ?thesis
    proof (cases r2)
      case None
      then show ?thesis using fail tw run' guards s1 s2 Some g4 by auto
    next
      case s2s: (Some pd)
      let ?p = "[paging_get_pml4_index virt, paging_get_pdpt_index virt]"
      obtain u where u: "pd = u + X86_64_KERNEL_VIRT_BASE" "walk (pmem t2) 0 ?r ?p = Some u"
        using tw s2s by blast
      have i2: "pt_inv R D t2" "quiet R D s t2" using tw by auto
      let ?e3 = "load64 (pmem t2) (ent u (paging_get_pd_index virt))"
      show ?thesis
      proof (cases "pte_present ?e3 \<and> pte_large ?e3")
        case True
        then show ?thesis
          using fail i2 run' guards s1 s2 Some s2s u g4 by (auto simp: pte_present_def pte_large_def)
      next
        case sm: False
        obtain r3 t3 where s3: "table_step paging_alloc_page_table PTE_RW paging_get_pt
            (u + X86_64_KERNEL_VIRT_BASE) (paging_get_pd_index virt) t2 = (r3, t3)" by fastforce
        have po: "path_ok D (?p @ [paging_get_pd_index virt])"
          using vpath_ok [OF r(2)] by (simp add: vpath_def)
        have small: "length ?p = 2 \<longrightarrow> pte_present ?e3 \<longrightarrow> \<not> pte_large ?e3" using sm by blast
        have n3: "next_ok (length ?p) paging_get_pt"
          using next_tables(6) by (simp add: numeral_2_eq_2)
        note st3 = table_step_ok [OF ts i2(1) r(1) po u(2) table_bits_user(2) n3 small s3]
        have i3: "pt_inv R D t3" "quiet R D s t3"
          using st3(1) quiet_trans [OF i2(2) st3(2)] by simp_all
        have sm': "\<not> (?e3 AND PTE_PRESENT \<noteq> 0 \<and> ?e3 AND PTE_SIZE_2MB \<noteq> 0)"
          using sm by (simp add: pte_present_def pte_large_def)
        show ?thesis
        proof (cases r3)
          case None
          then show ?thesis using fail i3 run' guards s1 s2 s3 Some s2s u g4 sm' by auto
        next
          case s3s: (Some ptv)
          then obtain pt where pt: "ptv = pt + X86_64_KERNEL_VIRT_BASE"
            "walk (pmem t3) 0 ?r (vpath virt) = Some pt"
            using st3(3) by (auto simp: vpath_def)
          define m' where "m' = store64 (pmem t3) (ent pt (paging_get_pt_index virt)) e"
          have fin: "rc = 0" "s' = paging_flush_tlb virt (t3\<lparr>pmem := m'\<rparr>)"
            using run' guards s1 s2 s3 Some s2s s3s u pt g4 sm' by (auto simp: m'_def e)
          have fo: "forest R D (free_frames t3) (pmem t3)" "pmm_inv t3"
            using i3(1) by (simp_all add: pt_inv_def)
          note lw = leaf_write [OF fo(1) r pt(2) m'_def]
          have "pt_inv R D s'" and pm: "pmem s' = m'"
            using lw(1) fo(2) by (auto simp: fin(2) state_pmem)
          moreover have "no_large R D (pmem s) \<longrightarrow> no_large R D (pmem s')"
            using lw(2) pm i3(2) by (simp add: quiet_def)
          moreover have "xlate (pmem s') r' v = (if r' = ?r \<and> vpn v = vpn virt
              then (if pte_present e then Some e else None) else xlate (pmem s) r' v)"
            if "r' \<in> R" "paging_get_pml4_index v \<in> D" for r' v
            using lw(3) [OF that] i3(2) that pm by (simp add: quiet_def)
          ultimately show ?thesis using fin(1) by simp
        qed
      qed
    qed
  qed
qed

section \<open>New address spaces\<close>

lemma copy_entries:
  fixes s :: "'a machine_scheme"
  assumes "page_aligned f" "page_aligned c" "f \<noteq> c" "\<forall>i \<in> set is. i < 512"
    and "t = fold (\<lambda>i s. kwrite (ent (f + X86_64_KERNEL_VIRT_BASE) (of_nat i))
        (kread s (ent (c + X86_64_KERNEL_VIRT_BASE) (of_nat i)) AND NOT PTE_USER) s) is s"
  shows "t = s\<lparr>pmem := pmem t\<rparr> \<and> (\<forall>u j. page_aligned u \<longrightarrow> j < 512 \<longrightarrow>
      load64 (pmem t) (ent u j) = (if u = f \<and> unat j \<in> set is
        then load64 (pmem s) (ent c j) AND NOT PTE_USER else load64 (pmem s) (ent u j)))"
  using assms(4,5)
proof (induction "is" arbitrary: s)
  case (Cons i "is")
  have i: "(of_nat i :: u64) < 512" "unat (of_nat i :: u64) = i"
    using Cons.prems(1) by (simp_all add: word_less_nat_alt unat_of_nat)
  define s1 where "s1 = s\<lparr>pmem := store64 (pmem s) (ent f (of_nat i))
      (load64 (pmem s) (ent c (of_nat i)) AND NOT PTE_USER)\<rparr>"
  have "t = fold (\<lambda>i s. kwrite (ent (f + X86_64_KERNEL_VIRT_BASE) (of_nat i))
        (kread s (ent (c + X86_64_KERNEL_VIRT_BASE) (of_nat i)) AND NOT PTE_USER) s) is s1"
    using Cons.prems(2) by (simp add: s1_def)
  then have IH: "t = s1\<lparr>pmem := pmem t\<rparr>" "page_aligned u \<Longrightarrow> j < 512 \<Longrightarrow>
      load64 (pmem t) (ent u j) = (if u = f \<and> unat j \<in> set is
        then load64 (pmem s1) (ent c j) AND NOT PTE_USER else load64 (pmem s1) (ent u j))" for u j
    using Cons.IH [of s1] Cons.prems(1) by auto
  have ld: "load64 (pmem s1) (ent u j) = (if f = u \<and> of_nat i = j
      then load64 (pmem s) (ent c j) AND NOT PTE_USER else load64 (pmem s) (ent u j))"
    if "page_aligned u" "j < 512" for u j
    using load_store_ent [OF assms(1) that(1) i(1) that(2)] by (auto simp: s1_def)
  have eq: "of_nat i = j \<longleftrightarrow> unat j = i" for j :: u64 using i(2) by auto
  have "t = s\<lparr>pmem := pmem t\<rparr>" using IH(1) by (simp add: s1_def)
  then show ?case using IH(2) ld assms(2,3) by (auto simp: eq)
qed simp

lemma create_user_pml4_ok:
  assumes inv: "pt_inv R D s" "no_large R D (pmem s)" and cur: "current_pml4_phys s \<in> R"
    and D: "\<forall>i \<in> D. i < 256" and run: "paging_create_user_pml4 s = (f, s')" "f \<noteq> 0"
  shows "f \<notin> R \<and> pt_inv (insert f R) D s' \<and> no_large (insert f R) D (pmem s') \<and>
    (\<forall>v. paging_get_pml4_index v \<in> D \<longrightarrow> xlate (pmem s') f v = None) \<and>
    (\<forall>r \<in> R. \<forall>v. paging_get_pml4_index v \<in> D \<longrightarrow> xlate (pmem s') r v = xlate (pmem s) r v) \<and>
    (\<forall>i. 256 \<le> i \<longrightarrow> i < 512 \<longrightarrow> load64 (pmem s') (ent f i) =
       load64 (pmem s) (ent (current_pml4_phys s) i) AND NOT PTE_USER)"
proof -
  let ?c = "current_pml4_phys s" and ?m = "pmem s"
  have pm: "pmm_inv s" and fo: "forest R D (free_frames s) ?m" using inv(1) by (simp_all add: pt_inv_def)
  obtain p u where a: "paging_alloc_page_table_low s = (p, u)" by fastforce
  have pf: "p = f"
    using run a by (auto simp: paging_create_user_pml4_def Let_def simp del: upt_rec_numeral split: if_splits prod.splits)
  note as = ptl.alloc_some [OF pm a] and pu = ptl.alloc_inv [OF pm a]
  note mf = more_fields [OF alloc_table_more(2) [OF pm a]]
  have F: "f \<in> free_frames s" "page_aligned f" "free_frames u = free_frames s - {f}"
    "pmem u = mem_set ?m f 0 4096" using as run(2) pf by auto
  have notable: "f \<noteq> t" if "r \<in> R" "path_ok D p" "walk ?m 0 r p = Some t" for r p t
    using forest_not_free [OF fo that] F(1) by blast
  have Rf: "f \<notin> R" using notable [of f "[]" f] by (auto simp: path_ok_def)
  have ca: "page_aligned ?c" "f \<noteq> ?c" using fo cur Rf by (auto simp: forest_def)
  have "s' = fold (\<lambda>i s. kwrite (ent (f + X86_64_KERNEL_VIRT_BASE) (of_nat i))
        (kread s (ent (?c + X86_64_KERNEL_VIRT_BASE) (of_nat i)) AND NOT PTE_USER) s) [256..<512] u"
    using run a pf mf(1) zero_again [OF F(4)]
    by (auto simp: paging_create_user_pml4_def Let_def paging_get_pml4_def simp del: upt_rec_numeral split: if_splits)
  note ce = copy_entries [OF F(2) ca _ this, unfolded set_upt]
  have s': "s' = u\<lparr>pmem := pmem s'\<rparr>" using ce by auto
  have ld: "load64 (pmem s') (ent x j) = (if x = f then (if 256 \<le> j
      then load64 ?m (ent ?c j) AND NOT PTE_USER else 0) else load64 ?m (ent x j))"
    if "page_aligned x" "j < 512" for x j
    using ce that load_mem_set_ent [OF F(2) that] load_mem_set_ent [OF F(2) ca(1) that(2)] ca(2)
    by (auto simp: F(4) word_le_nat_alt word_less_nat_alt)
  have same: "walk (pmem s') 0 r p = walk ?m 0 r p" if r: "r \<in> R" "path_ok D p" for r p
  proof (rule walk_same [OF r(2)])
    fix q x j assume q: "prefix (q @ [j]) p" and x: "walk ?m 0 r q = Some x"
    have "path_ok D q" "j < 512" using path_ok_prefix [OF r(2) q] path_ok_snocD by blast+
    then show "load64 (pmem s') (ent x j) = load64 ?m (ent x j)"
      using ld [OF forest_aligned [OF fo r(1) x]] notable [OF r(1) _ x] by auto
  qed
  have root: "walk (pmem s') 0 f p = (if p = [] then Some f else None)" if p: "path_ok D p" for p
  proof (cases p)
    case (Cons i q)
    then have "i < 256" "i < 512" using p D by (auto simp: path_ok_def)
    then have "load64 (pmem s') (ent f i) = 0" using ld [OF F(2), of i] by auto
    then show ?thesis using Cons by (simp add: pte_present_def)
  qed simp
  have "forest (insert f R) D (free_frames u) (pmem s')"
    unfolding forest_def
  proof (intro conjI ballI allI impI)
    show "page_aligned x" if "x \<in> insert f R" for x using that F(2) fo by (auto simp: forest_def)
  next
    fix x q t assume x: "x \<in> insert f R" "path_ok D q" "walk (pmem s') 0 x q = Some t"
    show "t \<notin> free_frames u"
      using x same root F(3) forest_not_free [OF fo] by (cases "x = f") (auto split: if_splits)
    fix x' q' assume x': "x' \<in> insert f R" "path_ok D q'" "walk (pmem s') 0 x' q' = Some t"
    have cs: "(y = f \<and> z = [] \<and> t = f) \<or> (y \<in> R \<and> walk ?m 0 y z = Some t \<and> t \<noteq> f)"
      if "y \<in> insert f R" "path_ok D z" "walk (pmem s') 0 y z = Some t" for y z
      using that root [of z] same [of y z] notable [of y z t] by (cases "y = f") (auto split: if_splits)
    show "x' = x" "q' = q"
      using cs [OF x] cs [OF x'] forest_unique [OF fo _ _ x(2) x'(2)] by blast+
  qed
  then have "pt_inv (insert f R) D s'" using pu s' by (metis state_pmem(1))
  moreover have "no_large (insert f R) D (pmem s')"
    unfolding no_large_def
  proof (intro ballI allI impI)
    fix x q t j
    assume x: "x \<in> insert f R" "path_ok D q" "length q = 2" "walk (pmem s') 0 x q = Some t" "j < (512::u64)"
    have xR: "x \<in> R" "walk ?m 0 x q = Some t"
      using x root [OF x(2)] same [OF _ x(2)] by (auto split: if_splits)
    then have "load64 (pmem s') (ent t j) = load64 ?m (ent t j)"
      using ld [OF forest_aligned [OF fo xR] x(5)] notable [OF xR(1) x(2) xR(2)] by simp
    then show "\<not> (pte_present (load64 (pmem s') (ent t j)) \<and> pte_large (load64 (pmem s') (ent t j)))"
      using inv(2) xR x(2,3,5) unfolding no_large_def by simp
  qed
  moreover have "xlate (pmem s') f v = None" if "paging_get_pml4_index v \<in> D" for v
    using root [OF vpath_ok [OF that]] by (simp add: xlate_def vpath_def)
  moreover have "xlate (pmem s') r v = xlate ?m r v" if r: "r \<in> R" "paging_get_pml4_index v \<in> D" for r v
  proof -
    have "load64 (pmem s') (ent t (paging_get_pt_index v)) = load64 ?m (ent t (paging_get_pt_index v))"
      if "walk ?m 0 r (vpath v) = Some t" for t
      using ld [OF forest_aligned [OF fo r(1) that] index_less(4)] notable [OF r(1) vpath_ok [OF r(2)] that]
      by simp
    then show ?thesis
      using same [OF r(1) vpath_ok [OF r(2)]] by (auto simp: xlate_def split: option.splits)
  qed
  moreover have "load64 (pmem s') (ent f i) = load64 ?m (ent ?c i) AND NOT PTE_USER"
    if "256 \<le> i" "i < 512" for i using ld [OF F(2) that(2)] that(1) by simp
  ultimately show ?thesis using Rf by blast
qed

end
