(* ===== verification/PagingProps.thy ===== *)
theory PagingProps
  imports PagingInv
begin

text \<open>
  The properties of the page-table code: mapping and unmapping change the translation of one page
  of one address space and nothing else, and succeed whenever the low zone can supply the tables.
\<close>

section \<open>Supply of table frames\<close>

definition low_free :: "'a pmm_state_scheme \<Rightarrow> nat set" where
  "low_free s = {i \<in> free_set s. page_zone s i = PMM_ZONE_LOW}"

lemma low_free_finite [simp]: "finite (low_free s)"
  by (simp add: low_free_def)

lemma low_free_pmem [simp]: "low_free (s\<lparr>pmem := m\<rparr>) = low_free s"
  by (simp add: low_free_def free_set_def page_zone_def pmm_index_to_page_def)

text \<open>A level of a creating walk needs at most one frame.\<close>

lemma table_step_supply:
  assumes "pmm_inv s" "Suc k \<le> card (low_free s)"
    and "table_step paging_alloc_page_table_low b nx tbl i s = (res, t)"
  shows "res \<noteq> None \<and> pmm_inv t \<and> k \<le> card (low_free t)"
proof (cases "kread s (ent tbl i) AND PTE_PRESENT = 0")
  case True
  obtain p u where a: "paging_alloc_page_table_low s = (p, u)" by fastforce
  then have a': "pmm_alloc_page_in_zone PMM_ZONE_LOW s = (p, u)"
    using alloc_table_eq(2) [OF assms(1)] by simp
  have "low_free s \<noteq> {}" using assms(2) by auto
  then obtain j where j: "j \<in> free_set s" "page_zone s j = PMM_ZONE_LOW" "p = pmm_index_to_page s j"
    "pmm_inv u" "same_geom s u" "free_set u = free_set s - {j}"
    using alloc_page_in_zone_spec [OF assms(1) _ a'] by (auto simp: low_free_def)
  have "p \<noteq> 0" using j(1,3) assms(1) free_frames_aligned(2) [of s p] by (auto simp: free_frames_def)
  moreover have "low_free u = low_free s - {j}"
    using j(6) same_geom_zone [OF j(5)] by (auto simp: low_free_def)
  moreover have "j \<in> low_free s" using j(1,2) by (simp add: low_free_def)
  ultimately have "k \<le> card (low_free u)" using assms(2) by simp
  moreover obtain m where "t = u\<lparr>pmem := m\<rparr>" "res \<noteq> None"
    using assms(3) True a \<open>p \<noteq> 0\<close> by (auto simp: table_step_def kwrite_def)
  ultimately show ?thesis using j(4) by simp
next
  case False
  then show ?thesis using assms by (auto simp: table_step_def)
qed

lemma map_pml4_returns:
  assumes "pmm_inv s" "3 \<le> card (low_free s)" "r \<noteq> 0" "page_aligned virt" "page_aligned phys"
  shows "fst (paging_map_page_4kb_pml4 r virt phys flags s) = 0"
proof -
  let ?b = "PTE_RW OR (flags AND PTE_USER)"
  obtain r1 t1 where s1: "table_step paging_alloc_page_table_low ?b paging_get_pdpt_for
      (r + X86_64_KERNEL_VIRT_BASE) (paging_get_pml4_index virt) s = (r1, t1)" by fastforce
  then obtain pdpt where p1: "r1 = Some pdpt" "pmm_inv t1" "2 \<le> card (low_free t1)"
    using table_step_supply [OF assms(1) _ s1, of 2] assms(2) by auto
  obtain r2 t2 where s2: "table_step paging_alloc_page_table_low ?b paging_get_pd_for
      pdpt (paging_get_pdpt_index virt) t1 = (r2, t2)" by fastforce
  then obtain pd where p2: "r2 = Some pd" "pmm_inv t2" "1 \<le> card (low_free t2)"
    using table_step_supply [OF p1(2) _ s2, of 1] p1(3) by auto
  obtain r3 t3 where s3: "table_step paging_alloc_page_table_low ?b paging_get_pt_for
      pd (paging_get_pd_index virt) t2 = (r3, t3)" by fastforce
  then obtain pt where p3: "r3 = Some pt"
    using table_step_supply [OF p2(2) _ s3, of 0] p2(3) by auto
  have g: "virt AND PAGE_OFFSET_MASK = 0" "phys AND PAGE_OFFSET_MASK = 0"
    using assms(4,5) by (simp_all add: page_aligned_def)
  show ?thesis
    using assms(3) g s1 s2 s3 p1(1) p2(1) p3 by (simp add: paging_map_page_4kb_pml4_def Let_def)
qed

section \<open>Translations as the code computes them\<close>

text \<open>The roots of address spaces the code accepts: neither they nor their direct-map address is 0.\<close>

definition roots_ok :: "u64 set \<Rightarrow> bool" where
  "roots_ok R \<longleftrightarrow> (\<forall>r \<in> R. r \<noteq> 0 \<and> r + X86_64_KERNEL_VIRT_BASE \<noteq> 0)"

lemma entry_bits:
  fixes phys flags :: u64
  assumes "page_aligned phys" "e = phys OR (flags AND (PTE_PRESENT OR PTE_RW OR PTE_USER OR PTE_NX))"
  shows "pte_present e \<longleftrightarrow> pte_present flags"
    "e AND PTE_ADDR_MASK_4KB = phys AND PTE_ADDR_MASK_4KB"
proof -
  have z: "\<not> bit phys n" if "n < 12" for n using assms(1) that by (simp add: bit_page_aligned)
  have fl: "PTE_PRESENT OR PTE_RW OR PTE_USER OR PTE_NX = (0x8000000000000007 :: u64)" by simp
  have "e AND 1 = flags AND 1"
    unfolding assms(2) fl using z [of 0] by (intro bit_eqI) (auto simp: bit_simps bit_1_iff)
  then show "pte_present e \<longleftrightarrow> pte_present flags" by (simp add: pte_present_def)
  have "(flags AND 0x8000000000000007) AND (0x000FFFFFFFFFF000 :: u64) = 0"
    by (simp add: and.assoc)
  then show "e AND PTE_ADDR_MASK_4KB = phys AND PTE_ADDR_MASK_4KB"
    unfolding assms(2) fl by (simp add: bit.conj_disj_distrib2)
qed

text \<open>A map or unmap that updates \<open>xlate\<close> at one page updates what the code's lookup returns there.\<close>

lemma get_physical_update:
  assumes R: "roots_ok R" and nl: "no_large R D (pmem s)" "no_large R D (pmem s')"
    and x: "\<forall>r' \<in> R. \<forall>v. paging_get_pml4_index v \<in> D \<longrightarrow> xlate (pmem s') r' v =
      (if P r' v then E else xlate (pmem s) r' v)"
    and r: "r' \<in> R" "paging_get_pml4_index v \<in> D"
  shows "paging_get_physical_pml4 r' v s' =
    (if P r' v then phys_of E v else paging_get_physical_pml4 r' v s)"
proof -
  have g: "r' \<noteq> 0" "r' + X86_64_KERNEL_VIRT_BASE \<noteq> 0" using R r(1) by (auto simp: roots_ok_def)
  show ?thesis
    using get_physical_pml4_xlate [OF nl(1) r g] get_physical_pml4_xlate [OF nl(2) r g] x r by simp
qed

section \<open>Properties\<close>

text \<open>A small machine: eight free pages at 2 MiB and an empty top-level table at 1 MiB.\<close>

definition paging_blank :: paging_state where
  "paging_blank = pmm_state.extend pmm_blank
     \<lparr>current_pml4_phys = 0x100000, physmap_ready = True, cr3 = 0x100000, tlb_log = []\<rparr>"

definition paging_demo :: paging_state where
  "paging_demo = (snd (pmm_init 0x200000 0x208000 0x9000 paging_blank))
     \<lparr>pmem := (\<lambda>_. 0), current_pml4_phys := 0x100000\<rparr>"

lemma demo_pt:
  "pt_inv {0x100000} UNIV paging_demo" "no_large {0x100000} UNIV (pmem paging_demo)"
  "card (low_free paging_demo) = 8" "roots_ok {0x100000}" "current_pml4_phys paging_demo = 0x100000"
  "pmm_inv paging_demo" "xlate (pmem paging_demo) 0x100000 v = None"
proof -
  have ib: "init_bounds_ok 0x200000 0x208000" "init_pages 0x200000 0x208000 = 8"
    by (simp_all add: init_bounds_ok_def init_pages_def ALIGN_UP_def ALIGN_DOWN_def)
  obtain t where t: "pmm_init 0x200000 0x208000 0x9000 paging_blank = (0, t)" "pmm_inv t"
    "memory_start t = 0x200000" "free_set t = {..<8}"
    using pmm_init_ok [OF ib(1), of "0x9000" paging_blank] ib(2) by (auto simp: ALIGN_UP_def)
  have d: "paging_demo = t\<lparr>pmem := (\<lambda>_. 0), current_pml4_phys := 0x100000\<rparr>"
    by (simp add: paging_demo_def t(1))
  have b: "pmm_bitmap_test paging_demo = pmm_bitmap_test t"
    by (simp add: d pmm_bitmap_test_def fun_eq_iff)
  have "free_set paging_demo = free_set t" by (simp add: free_set_def b) (simp add: d)
  then have f: "free_set paging_demo = {..<8}" "memory_start paging_demo = 0x200000"
    using t(3,4) by (simp_all add: d)
  show inv: "pmm_inv paging_demo"
    using t(2) unfolding pmm_inv_def geom_ok_def counts_ok_def lists_ok_def list_ok_def
      page_zone_def pmm_index_to_page_def \<open>free_set paging_demo = free_set t\<close> by (simp add: d)
  have z: "load64 (pmem paging_demo) a = 0" for a proof -
    have "fold (\<lambda>i acc. acc) xs c = c" for xs :: "nat list" and c :: u64 by (induction xs) auto
    then show ?thesis by (simp add: d load64_def)
  qed
  have w: "walk (pmem paging_demo) 0 r p = (if p = [] then Some r else None)" for r p
    by (cases p) (simp_all add: z pte_present_def)
  show "xlate (pmem paging_demo) 0x100000 v = None" by (simp add: xlate_def vpath_def z pte_present_def)
  have "(0x100000 :: u64) \<notin> free_frames paging_demo"
  proof
    assume "(0x100000 :: u64) \<in> free_frames paging_demo"
    then obtain i where i: "i < 8" "(0x100000 :: u64) = pmm_index_to_page paging_demo i"
      by (auto simp: free_frames_def f)
    have "unat (pmm_index_to_page paging_demo i) = 0x200000 + i * 4096"
      using i(1) by (simp add: pmm_index_to_page_def f unat_word_ariths unat_of_nat)
    then show False using arg_cong [OF i(2), of unat] by simp
  qed
  then show "pt_inv {0x100000} UNIV paging_demo"
    using inv by (auto simp: pt_inv_def forest_def w page_aligned_def split: if_splits)
  show "no_large {0x100000} UNIV (pmem paging_demo)" by (simp add: no_large_def z pte_present_def)
  have "page_zone paging_demo i = PMM_ZONE_LOW" if "i < 8" for i
    using that by (simp add: page_zone_def pmm_index_to_page_def f pmm_zone_for_addr_def
        word_less_nat_alt unat_word_ariths unat_of_nat)
  then have "low_free paging_demo = {..<8}" by (auto simp: low_free_def f)
  then show "card (low_free paging_demo) = 8" by simp
  show "roots_ok {0x100000}" by (simp add: roots_ok_def)
  show "current_pml4_phys paging_demo = 0x100000" by (simp add: d)
qed

text \<open>
  C6: mapping a page in an address space. When the page tables of the address spaces \<open>R\<close> form a
  forest without 2 MiB entries and the low zone has three free frames, \<open>paging_map_page_4kb_pml4\<close>
  succeeds, keeps the tables a forest of allocated frames, and changes what
  \<open>paging_get_physical_pml4\<close> finds at that page of that address space to the new frame (to
  nothing, when the flags lack the present bit); every other page of every address space is
  translated as before.
\<close>
theorem paging_map_pml4_correct:
  assumes "pt_inv R D s" "no_large R D (pmem s)" "roots_ok R" "r \<in> R" "paging_get_pml4_index virt \<in> D"
    and "page_aligned virt" "page_aligned phys" "3 \<le> card (low_free s)"
    and "paging_map_page_4kb_pml4 r virt phys flags s = (rc, s')"
  shows "rc = 0 \<and> pt_inv R D s' \<and> no_large R D (pmem s') \<and>
    (\<forall>r' \<in> R. \<forall>v. paging_get_pml4_index v \<in> D \<longrightarrow> paging_get_physical_pml4 r' v s' =
      (if r' = r \<and> vpn v = vpn virt
       then (if flags AND PTE_PRESENT \<noteq> 0
             then (phys AND PTE_ADDR_MASK_4KB) OR (v AND PAGE_OFFSET_MASK) else 0)
       else paging_get_physical_pml4 r' v s))"
proof -
  define e where "e = phys OR (flags AND (PTE_PRESENT OR PTE_RW OR PTE_USER OR PTE_NX))"
  have rc: "rc = 0"
    using map_pml4_returns [of s r virt phys flags] assms by (auto simp: pt_inv_def roots_ok_def)
  note m = map_pml4_ok [OF assms(1,2,4,5,9) e_def]
  have x: "\<forall>r' \<in> R. \<forall>v. paging_get_pml4_index v \<in> D \<longrightarrow> xlate (pmem s') r' v =
      (if r' = r \<and> vpn v = vpn virt then (if pte_present e then Some e else None)
       else xlate (pmem s) r' v)"
    and nl: "no_large R D (pmem s')" and i: "pt_inv R D s'" using m rc by auto
  have "paging_get_physical_pml4 r' v s' = (if r' = r \<and> vpn v = vpn virt
      then phys_of (if pte_present e then Some e else None) v else paging_get_physical_pml4 r' v s)"
    if "r' \<in> R" "paging_get_pml4_index v \<in> D" for r' v
    using get_physical_update [OF assms(3,2) nl x that] .
  then show ?thesis
    using rc nl i entry_bits [OF assms(7) e_def] by (auto simp: phys_of_def pte_present_def)
qed

theorem paging_map_pml4_correct_witness:
  "\<exists>s'. paging_map_page_4kb_pml4 0x100000 0x400000 0x5000 7 paging_demo = (0, s') \<and>
     paging_get_physical_pml4 0x100000 0x400123 s' = 0x5123"
proof -
  obtain rc s' where a: "paging_map_page_4kb_pml4 0x100000 0x400000 0x5000 7 paging_demo = (rc, s')"
    by fastforce
  have al: "page_aligned (0x400000::u64)" "page_aligned (0x5000::u64)"
    by (simp_all add: page_aligned_def)
  have n: "(3::nat) \<le> card (low_free paging_demo)" by (simp add: demo_pt(3))
  have v: "vpn 0x400123 = vpn 0x400000" by (simp add: vpn_def)
  note c = paging_map_pml4_correct [OF demo_pt(1,2,4) _ _ al n a]
  then have "paging_get_physical_pml4 0x100000 0x400123 s' = 0x5123" by (simp add: v)
  then show ?thesis using c a by simp
qed

text \<open>
  C23: unmapping a page of an address space. A call for a mapped page succeeds, after a successful
  call \<open>paging_get_physical_pml4\<close> finds nothing at that page, and, whatever the call returns,
  every other page of every address space is translated as before. On failure nothing changes.
\<close>
theorem paging_unmap_pml4_correct:
  assumes "pt_inv R D s" "no_large R D (pmem s)" "roots_ok R" "r \<in> R" "paging_get_pml4_index virt \<in> D"
    and "paging_unmap_page_pml4 r virt s = (rc, s')"
  shows "pt_inv R D s' \<and> no_large R D (pmem s') \<and> (rc = 0 \<or> rc = RDNX_E_GENERIC) \<and>
    (xlate (pmem s) r virt \<noteq> None \<longrightarrow> rc = 0) \<and>
    (\<forall>r' \<in> R. \<forall>v. paging_get_pml4_index v \<in> D \<longrightarrow> paging_get_physical_pml4 r' v s' =
      (if rc = 0 \<and> r' = r \<and> vpn v = vpn virt then 0 else paging_get_physical_pml4 r' v s))"
proof -
  note u = unmap_pml4_ok [OF assms(1,2,4,5,6)]
  have x: "\<forall>r' \<in> R. \<forall>v. paging_get_pml4_index v \<in> D \<longrightarrow> xlate (pmem s') r' v =
      (if rc = 0 \<and> r' = r \<and> vpn v = vpn virt then None else xlate (pmem s) r' v)"
    and nl: "no_large R D (pmem s')" using u by auto
  have "paging_get_physical_pml4 r' v s' =
      (if rc = 0 \<and> r' = r \<and> vpn v = vpn virt then 0 else paging_get_physical_pml4 r' v s)"
    if "r' \<in> R" "paging_get_pml4_index v \<in> D" for r' v
    using get_physical_update [OF assms(3,2) nl x that] by (simp add: phys_of_def)
  then show ?thesis using u assms(3,4) by (auto simp: roots_ok_def)
qed

lemma demo_mapped:
  obtains s' where "paging_map_page_4kb_pml4 0x100000 0x400000 0x5000 7 paging_demo = (0, s')"
    "pt_inv {0x100000} UNIV s'" "no_large {0x100000} UNIV (pmem s')"
    "xlate (pmem s') 0x100000 0x400000 = Some 0x5007"
proof -
  obtain rc s' where a: "paging_map_page_4kb_pml4 0x100000 0x400000 0x5000 7 paging_demo = (rc, s')"
    by fastforce
  have "rc = 0"
    using map_pml4_returns [OF demo_pt(6), of "0x100000" "0x400000" "0x5000" 7] a
    by (simp add: demo_pt(3) page_aligned_def)
  moreover note map_pml4_ok [OF demo_pt(1,2) _ _ a refl]
  ultimately show ?thesis using that [of s'] a by (simp add: pte_present_def)
qed

theorem paging_unmap_pml4_correct_witness:
  "\<exists>s' s''. paging_map_page_4kb_pml4 0x100000 0x400000 0x5000 7 paging_demo = (0, s') \<and>
     paging_unmap_page_pml4 0x100000 0x400000 s' = (0, s'') \<and>
     paging_get_physical_pml4 0x100000 0x400123 s'' = 0"
proof -
  obtain s' where m: "paging_map_page_4kb_pml4 0x100000 0x400000 0x5000 7 paging_demo = (0, s')"
    "pt_inv {0x100000} UNIV s'" "no_large {0x100000} UNIV (pmem s')"
    "xlate (pmem s') 0x100000 0x400000 = Some 0x5007" by (rule demo_mapped)
  obtain rc s'' where u: "paging_unmap_page_pml4 0x100000 0x400000 s' = (rc, s'')" by fastforce
  have v: "vpn 0x400123 = vpn 0x400000" by (simp add: vpn_def)
  have "rc = 0 \<and> paging_get_physical_pml4 0x100000 0x400123 s'' = 0"
    using paging_unmap_pml4_correct [OF m(2,3) demo_pt(4) _ _ u] m(4) v by simp
  then show ?thesis using m(1) u by auto
qed


text \<open>
  mapping and unmapping a fresh page is a round trip: if the page was not mapped and the
  low zone has three free frames, both calls succeed and afterwards every page of every address
  space is translated as before.
\<close>

theorem paging_map_unmap_roundtrip:
  assumes "pt_inv R D s" "no_large R D (pmem s)" "roots_ok R" "r \<in> R" "paging_get_pml4_index virt \<in> D"
    and "page_aligned virt" "page_aligned phys" "3 \<le> card (low_free s)" "flags AND PTE_PRESENT \<noteq> 0"
    and "xlate (pmem s) r virt = None" "paging_map_page_4kb_pml4 r virt phys flags s = (rc, s')"
    and "paging_unmap_page_pml4 r virt s' = (rc', s'')" "r' \<in> R" "paging_get_pml4_index v \<in> D"
  shows "rc = 0 \<and> rc' = 0 \<and>
    paging_get_physical_pml4 r' v s'' = paging_get_physical_pml4 r' v s"
proof -
  define e where "e = phys OR (flags AND (PTE_PRESENT OR PTE_RW OR PTE_USER OR PTE_NX))"
  have rc: "rc = 0"
    using map_pml4_returns [of s r virt phys flags] assms by (auto simp: pt_inv_def roots_ok_def)
  have p: "pte_present e"
    using entry_bits(1) [OF assms(7) e_def] assms(9) by (simp add: pte_present_def)
  note m = map_pml4_ok [OF assms(1,2,4,5,11) e_def]
  then have i: "pt_inv R D s'" "no_large R D (pmem s')" by auto
  note u = unmap_pml4_ok [OF i assms(4,5,12)]
  have "xlate (pmem s') r virt = Some e" using m rc p assms(4,5) by auto
  then have rc': "rc' = 0" using u assms(3,4) by (auto simp: roots_ok_def)
  have eq: "xlate m r w = xlate m r virt" if "vpn w = vpn virt" for m w
    using that vpn_iff [of w virt] by (auto simp: xlate_def split: option.split)
  have "\<forall>r' \<in> R. \<forall>v. paging_get_pml4_index v \<in> D \<longrightarrow> xlate (pmem s'') r' v =
      (if False then None else xlate (pmem s) r' v)"
  proof (intro ballI allI impI)
    fix x w assume w: "x \<in> R" "paging_get_pml4_index w \<in> D"
    have "xlate (pmem s'') x w = (if x = r \<and> vpn w = vpn virt then None else xlate (pmem s') x w)"
      "xlate (pmem s') x w = (if x = r \<and> vpn w = vpn virt then Some e else xlate (pmem s) x w)"
      using u m w rc rc' p by simp_all
    then show "xlate (pmem s'') x w = (if False then None else xlate (pmem s) x w)"
      using assms(10) eq [of w "pmem s"] by simp
  qed
  then show ?thesis
    using get_physical_update [OF assms(3,2) _ _ assms(13,14), where s' = s'' and P = "\<lambda>_ _. False"] u rc rc'
    by simp
qed

theorem paging_map_unmap_roundtrip_witness:
  "\<exists>s' s''. paging_map_page_4kb_pml4 0x100000 0x400000 0x5000 7 paging_demo = (0, s') \<and>
     paging_unmap_page_pml4 0x100000 0x400000 s' = (0, s'') \<and>
     paging_get_physical_pml4 0x100000 0x400000 s'' = paging_get_physical_pml4 0x100000 0x400000 paging_demo"
proof -
  obtain rc s' where a: "paging_map_page_4kb_pml4 0x100000 0x400000 0x5000 7 paging_demo = (rc, s')"
    by fastforce
  obtain rc' s'' where b: "paging_unmap_page_pml4 0x100000 0x400000 s' = (rc', s'')" by fastforce
  have al: "page_aligned (0x400000::u64)" "page_aligned (0x5000::u64)"
    by (simp_all add: page_aligned_def)
  have n: "(3::nat) \<le> card (low_free paging_demo)" by (simp add: demo_pt(3))
  have f: "(7::u64) AND PTE_PRESENT \<noteq> 0" by simp
  have x: "xlate (pmem paging_demo) 0x100000 0x400000 = None"
    by (rule demo_pt(7))
  show ?thesis
    using paging_map_unmap_roundtrip [OF demo_pt(1,2,4) _ _ al n f x a b, of "0x100000" "0x400000"] a b
    by simp
qed

text \<open>
  mapping a page in the current address space. Whatever \<open>paging_map_page_4kb\<close> returns, the
  tables stay a forest of allocated frames; on success exactly the given page of the current
  address space has the new entry, and on failure no translation of any address space changes,
  even when intermediate tables were created before the failure.
\<close>
theorem paging_map_4kb_correct:
  assumes "pt_inv R D s" "current_pml4_phys s \<in> R" "paging_get_pml4_index virt \<in> D"
    and "paging_map_page_4kb virt phys flags s = (rc, s')"
  shows "pt_inv R D s' \<and> (rc = 0 \<or> rc = RDNX_E_GENERIC) \<and>
    (\<forall>r' \<in> R. \<forall>v. paging_get_pml4_index v \<in> D \<longrightarrow> xlate (pmem s') r' v =
      (if rc = 0 \<and> r' = current_pml4_phys s \<and> vpn v = vpn virt
       then Some (phys OR flags OR PTE_PRESENT) else xlate (pmem s) r' v))"
proof -
  have "pte_present (phys OR flags OR PTE_PRESENT)"
    by (simp add: pte_present_def bit.conj_disj_distrib2 or_eq_0_iff)
  then show ?thesis using map_current_ok [OF assms refl] by simp
qed

theorem paging_map_4kb_correct_witness:
  "\<exists>rc s'. paging_map_page_4kb 0x400000 0x5000 7 paging_demo = (rc, s') \<and> pt_inv {0x100000} UNIV s'"
proof -
  obtain rc s' where a: "paging_map_page_4kb 0x400000 0x5000 7 paging_demo = (rc, s')" by fastforce
  then show ?thesis
    using paging_map_4kb_correct [OF demo_pt(1) _ _ a] demo_pt(5) by auto
qed

text \<open>
  C24: a new address space. When \<open>paging_create_user_pml4\<close> returns a top-level table, it was no
  table before, it joins the forest with an empty user half, its kernel half is that of the
  current address space without the user bit, and no existing translation changes.
\<close>
theorem paging_create_user_pml4_correct:
  assumes "pt_inv R D s" "no_large R D (pmem s)" "current_pml4_phys s \<in> R" "\<forall>i \<in> D. i < 256"
    and "paging_create_user_pml4 s = (f, s')" "f \<noteq> 0"
  shows "f \<notin> R \<and> pt_inv (insert f R) D s' \<and> no_large (insert f R) D (pmem s') \<and>
    (\<forall>v. paging_get_pml4_index v \<in> D \<longrightarrow> xlate (pmem s') f v = None) \<and>
    (\<forall>r \<in> R. \<forall>v. paging_get_pml4_index v \<in> D \<longrightarrow> xlate (pmem s') r v = xlate (pmem s) r v) \<and>
    (\<forall>i. 256 \<le> i \<longrightarrow> i < 512 \<longrightarrow> load64 (pmem s') (ent f i) =
       load64 (pmem s) (ent (current_pml4_phys s) i) AND NOT PTE_USER)"
  using create_user_pml4_ok [OF assms] .

lemma create_user_returns:
  assumes "pmm_inv s" "low_free s \<noteq> {}" "current_pml4_phys s \<noteq> 0"
    "current_pml4_phys s + X86_64_KERNEL_VIRT_BASE \<noteq> 0"
  shows "fst (paging_create_user_pml4 s) \<noteq> 0"
proof -
  obtain p u where a: "paging_alloc_page_table_low s = (p, u)" by fastforce
  then have a': "pmm_alloc_page_in_zone PMM_ZONE_LOW s = (p, u)"
    using alloc_table_eq(2) [OF assms(1)] by simp
  have "p \<noteq> 0"
    using alloc_page_in_zone_spec [OF assms(1) _ a'] assms(1,2) free_frames_aligned(2) [of s p]
    by (auto simp: low_free_def free_frames_def)
  then show ?thesis
    using more_fields(1) [OF alloc_table_more(2) [OF assms(1) a]] a assms(3,4)
    by (simp add: paging_create_user_pml4_def Let_def paging_get_pml4_def del: upt_rec_numeral)
qed

theorem paging_create_user_pml4_correct_witness:
  "\<exists>f s'. paging_create_user_pml4 paging_demo = (f, s') \<and> f \<noteq> 0 \<and> f \<noteq> 0x100000 \<and>
     pt_inv {f, 0x100000} {..<256} s'"
proof -
  obtain f s' where a: "paging_create_user_pml4 paging_demo = (f, s')" by fastforce
  have "low_free paging_demo \<noteq> {}" using demo_pt(3) by force
  then have nz: "f \<noteq> 0" using create_user_returns [OF demo_pt(6)] a demo_pt(5) by auto
  have i: "pt_inv {0x100000} {..<256} paging_demo" "no_large {0x100000} {..<256} (pmem paging_demo)"
    using demo_pt(1,2) by (auto simp: pt_inv_def forest_def no_large_def path_ok_def)
  show ?thesis using paging_create_user_pml4_correct [OF i _ _ a nz] demo_pt(5) a nz by auto
qed

text \<open>
  C25: what the two mapping functions do with a 2 MiB entry on the way. \<open>paging_map_page_4kb\<close>
  refuses and changes nothing; \<open>paging_map_page_4kb_pml4\<close> has no such check: it takes the frame
  of the 2 MiB page for a page table, overwrites a word of the mapped memory with the new entry
  and reports success.
\<close>
theorem paging_map_large_page:
  assumes "e1 = load64 (pmem s) (ent r (paging_get_pml4_index virt))" "pte_present e1"
    and "e2 = load64 (pmem s) (ent (pte_base e1) (paging_get_pdpt_index virt))" "pte_present e2"
    and "e3 = load64 (pmem s) (ent (pte_base e2) (paging_get_pd_index virt))" "pte_present e3" "pte_large e3"
    and "page_aligned virt" "page_aligned phys" "r \<noteq> 0" "current_pml4_phys s = r"
  shows "paging_map_page_4kb virt phys flags s = (RDNX_E_GENERIC, s) \<and>
    (\<exists>s'. paging_map_page_4kb_pml4 r virt phys flags s = (0, s') \<and>
       pmem s' = store64 (pmem s) (ent (pte_base e3) (paging_get_pt_index virt))
         (phys OR (flags AND (PTE_PRESENT OR PTE_RW OR PTE_USER OR PTE_NX))))"
proof -
  have g: "virt AND PAGE_OFFSET_MASK = 0" "phys AND PAGE_OFFSET_MASK = 0"
    using assms(8,9) by (simp_all add: page_aligned_def)
  have p: "e1 AND 1 \<noteq> 0" "e2 AND 1 \<noteq> 0" "e3 AND 1 \<noteq> 0" "e3 AND PTE_SIZE_2MB \<noteq> 0"
    using assms(2,4,6,7) by (simp_all add: pte_present_def pte_large_def)
  have nx: "paging_get_pdpt_for e1 = pte_base e1 + X86_64_KERNEL_VIRT_BASE"
    "paging_get_pdpt e1 = pte_base e1 + X86_64_KERNEL_VIRT_BASE"
    "paging_get_pd_for e2 = pte_base e2 + X86_64_KERNEL_VIRT_BASE"
    "paging_get_pd e2 = pte_base e2 + X86_64_KERNEL_VIRT_BASE"
    "paging_get_pt_for e3 = pte_base e3 + X86_64_KERNEL_VIRT_BASE"
    using p by (simp_all add: paging_get_pdpt_for_def paging_get_pdpt_def paging_get_pd_for_def
        paging_get_pd_def paging_get_pt_for_def pte_base_def)
  note ld = assms(1,3,5) [symmetric]
  have "paging_map_page_4kb virt phys flags s = (RDNX_E_GENERIC, s)"
    using g p assms(10,11) nx
    by (simp add: paging_map_page_4kb_def table_step_def paging_get_pml4_def Let_def ld)
  moreover have "\<exists>s'. paging_map_page_4kb_pml4 r virt phys flags s = (0, s') \<and>
       pmem s' = store64 (pmem s) (ent (pte_base e3) (paging_get_pt_index virt))
         (phys OR (flags AND (PTE_PRESENT OR PTE_RW OR PTE_USER OR PTE_NX)))"
    using g p assms(10) nx
    by (simp add: paging_map_page_4kb_pml4_def table_step_def Let_def ld state_pmem(3))
  ultimately show ?thesis by blast
qed


text \<open>A machine whose first gibibyte is mapped by 2 MiB entries: tables at 1 MiB.\<close>

definition large_mem :: bytes where
  "large_mem = store64 (store64 (store64 (\<lambda>_. 0) 0x100000 0x101003) 0x101000 0x102003) 0x102010 0x400083"

theorem paging_map_large_page_witness:
  "\<exists>s'. paging_map_page_4kb_pml4 0x100000 0x400000 0x5000 7 (paging_demo\<lparr>pmem := large_mem\<rparr>) = (0, s') \<and>
     pmem s' = store64 large_mem 0x400000 0x5007"
proof -
  have l: "load64 large_mem 0x100000 = 0x101003" "load64 large_mem 0x101000 = 0x102003"
    "load64 large_mem 0x102010 = 0x400083"
    by (simp_all add: large_mem_def pm.load_store aligned8_def)
  have i: "paging_get_pml4_index 0x400000 = 0" "paging_get_pdpt_index 0x400000 = 0"
    "paging_get_pd_index 0x400000 = 2" "paging_get_pt_index 0x400000 = 0"
    by (simp_all add: paging_get_pml4_index_def paging_get_pdpt_index_def paging_get_pd_index_def
        paging_get_pt_index_def)
  show ?thesis
    using paging_map_large_page [OF refl _ refl _ refl, of "paging_demo\<lparr>pmem := large_mem\<rparr>" "0x100000"
        "0x400000" "0x5000" 7] demo_pt(5)
    by (simp add: i l ent_def pte_base_def pte_present_def pte_large_def page_aligned_def)
qed

end
