(* ===== verification/KheapInv.thy ===== *)
theory KheapInv
  imports Kheap PagingProps
begin

text \<open>
  Correctness of the kernel heap: the linked headers represent a list of blocks (address, payload
  size, free flag), every operation on the headers is an operation on that list, and the
  operations keep the blocks disjoint and outside the free frames of the physical memory manager.
\<close>

section \<open>The block list behind the headers\<close>

type_synonym blk = "u64 \<times> u64 \<times> bool"

abbreviation (input) b_addr :: "blk \<Rightarrow> u64" where "b_addr \<equiv> fst"
abbreviation (input) b_size :: "blk \<Rightarrow> u64" where "b_size b \<equiv> fst (snd b)"
abbreviation (input) b_free :: "blk \<Rightarrow> bool" where "b_free b \<equiv> snd (snd b)"

definition hd0 :: "blk list \<Rightarrow> u64 \<Rightarrow> u64" where
  "hd0 bs q = (case bs of [] \<Rightarrow> q | b # _ \<Rightarrow> b_addr b)"

definition last0 :: "blk list \<Rightarrow> u64 \<Rightarrow> u64" where
  "last0 bs p = (if bs = [] then p else b_addr (last bs))"

lemma hd0_simps [simp]: "hd0 [] q = q" "hd0 (b # bs) q = b_addr b" "hd0 (xs @ ys) q = hd0 xs (hd0 ys q)"
  by (auto simp: hd0_def split: list.split)

lemma last0_simps [simp]: "last0 [] p = p" "last0 (b # bs) p = last0 bs (b_addr b)"
  "last0 (xs @ ys) p = last0 ys (last0 xs p)"
  by (auto simp: last0_def)

text \<open>The headers from a block with predecessor \<open>p\<close> on to the block \<open>q\<close> are the list \<open>bs\<close>.\<close>

fun dl :: "(u64 \<Rightarrow> heap_block) \<Rightarrow> u64 \<Rightarrow> blk list \<Rightarrow> u64 \<Rightarrow> bool" where
  "dl h p [] q = True"
| "dl h p ((a, n, f) # bs) q =
     (h a = \<lparr>hb_size = n, hb_free = f, hb_next = hd0 bs q, hb_prev = p\<rparr> \<and> dl h a bs q)"

lemma dl_append: "dl h p (xs @ ys) q \<longleftrightarrow> dl h p xs (hd0 ys q) \<and> dl h (last0 xs p) ys q"
proof (induction xs arbitrary: p)
  case (Cons b xs)
  obtain a n f where b: "b = (a, n, f)" by (cases b)
  then show ?case by (simp add: b Cons.IH)
qed simp

lemma dl_other: "a \<notin> fst ` set bs \<Longrightarrow> dl (h(a := x)) p bs q = dl h p bs q"
  by (induction bs arbitrary: p) auto

lemma dl_set_prev:
  assumes "dl h p bs q" "distinct (map fst bs)" "bs \<noteq> []"
  shows "dl (h(hd0 bs 0 := (h (hd0 bs 0))\<lparr>hb_prev := p'\<rparr>)) p' bs q"
  using assms by (cases bs) (auto simp: dl_other)

lemma dl_set_next:
  assumes "dl h p bs q" "distinct (map fst bs)" "bs \<noteq> []"
  shows "dl (h(last0 bs 0 := (h (last0 bs 0))\<lparr>hb_next := q'\<rparr>)) p bs q'"
proof -
  obtain xs a n f where b: "bs = xs @ [(a, n, f)]" using assms(3) by (metis prod_cases3 rev_exhaust)
  have "a \<notin> fst ` set xs" using assms(2) by (auto simp: b)
  then show ?thesis using assms(1) by (simp add: b dl_append dl_other)
qed

text \<open>The bytes of a block, header included, and what makes a block list well formed.\<close>

definition ext :: "blk \<Rightarrow> nat set" where
  "ext b = {unat (b_addr b)..<unat (b_addr b) + 32 + unat (b_size b)}"

definition blk_ok :: "blk \<Rightarrow> bool" where
  "blk_ok b \<longleftrightarrow> b_addr b \<noteq> 0 \<and> 16 dvd unat (b_addr b) \<and> 16 dvd unat (b_size b) \<and>
     unat (b_addr b) + 32 + unat (b_size b) \<le> 2 ^ 64"

definition adjacent :: "blk \<Rightarrow> blk \<Rightarrow> bool" where
  "adjacent b c \<longleftrightarrow> b_addr b + HB + b_size b = b_addr c"

fun no_adj :: "blk list \<Rightarrow> bool" where
  "no_adj (b # c # bs) = (\<not> (b_free b \<and> b_free c \<and> adjacent b c) \<and> no_adj (c # bs))"
| "no_adj bs = True"

definition blks_ok :: "blk list \<Rightarrow> bool" where
  "blks_ok bs \<longleftrightarrow> (\<forall>b \<in> set bs. blk_ok b) \<and> sorted_wrt (\<lambda>b c. ext b \<inter> ext c = {}) bs"

definition heap_rep :: "'a heap_state_scheme \<Rightarrow> blk list \<Rightarrow> bool" where
  "heap_rep s bs \<longleftrightarrow> dl (hblk s) 0 bs 0 \<and> heap_head s = hd0 bs 0 \<and> heap_tail s = last0 bs 0 \<and>
     distinct (map fst bs) \<and> 0 \<notin> fst ` set bs"

lemma no_adj_append:
  "no_adj (xs @ ys) \<longleftrightarrow> no_adj xs \<and> no_adj ys \<and>
     (xs \<noteq> [] \<longrightarrow> ys \<noteq> [] \<longrightarrow> \<not> (b_free (last xs) \<and> b_free (hd ys) \<and> adjacent (last xs) (hd ys)))"
  by (induction xs rule: no_adj.induct) (cases ys; auto)+

lemma ext_addr: "unat (b_addr b) \<in> ext b"
  by (simp add: ext_def)

lemma blks_distinct: "blks_ok bs \<Longrightarrow> distinct (map fst bs) \<and> 0 \<notin> fst ` set bs"
proof (induction bs)
  case (Cons b bs)
  then have IH: "distinct (map fst bs)" "0 \<notin> fst ` set bs" by (auto simp: blks_ok_def)
  have "fst b \<noteq> fst c" if "c \<in> set bs" for c
    using Cons.prems that ext_addr [of b] ext_addr [of c] by (fastforce simp: blks_ok_def)
  then show ?case using IH Cons.prems by (auto simp: blks_ok_def blk_ok_def)
qed simp

lemma heap_block_upd [simp]:
  "b\<lparr>hb_size := n, hb_free := f, hb_prev := p, hb_next := q\<rparr> =
    \<lparr>hb_size = n, hb_free = f, hb_next = q, hb_prev = p\<rparr>"
  by (cases b) simp

section \<open>Header operations as list operations\<close>

lemma hblk_upd [simp]:
  "hblk (upd_blk a f s) = (hblk s)(a := f (hblk s a))" "heap_head (upd_blk a f s) = heap_head s"
  "heap_tail (upd_blk a f s) = heap_tail s"
  by (simp_all add: upd_blk_def)

lemma find_fit_list:
  "dl (hblk s) p bs 0 \<Longrightarrow> 0 \<notin> fst ` set bs \<Longrightarrow> find_fit_from n (hd0 bs 0) s =
     Some (case find (\<lambda>b. b_free b \<and> n \<le> b_size b) bs of None \<Rightarrow> 0 | Some b \<Rightarrow> b_addr b)"
proof (induction bs arbitrary: p)
  case Nil
  then show ?case by (simp add: find_fit_from.simps [of n 0])
next
  case (Cons b bs)
  obtain a m f where b: "b = (a, m, f)" by (cases b)
  show ?case
    using Cons.prems Cons.IH [of a] by (simp add: b find_fit_from.simps [of n a])
qed

lemma in_list_list:
  "dl (hblk s) p bs 0 \<Longrightarrow> 0 \<notin> fst ` set bs \<Longrightarrow> g \<le> 1000000 \<Longrightarrow>
     block_in_list_from x (hd0 bs 0) g s \<longleftrightarrow> x \<in> fst ` set (take (1000001 - g) bs)"
proof (induction bs arbitrary: p g)
  case Nil
  then show ?case by (simp add: block_in_list_from.simps)
next
  case (Cons b bs)
  obtain a m f where b: "b = (a, m, f)" by (cases b)
  have t: "take (1000001 - g) (b # bs) = b # take (1000000 - g) bs"
    using Suc_diff_le [OF Cons.prems(3)] by simp
  show ?case
    using Cons.prems Cons.IH [of a "g + 1"]
    by (cases "g = 1000000") (auto simp: b t [unfolded b] block_in_list_from.simps [of x a])
qed


text \<open>\<open>merge_list\<close> joins the first block of a list with the second when that is free and follows it.\<close>

fun merge_list :: "blk list \<Rightarrow> blk list" where
  "merge_list ((a, n, f) # (b, m, g) # bs) =
     (if g \<and> a + HB + n = b then (a, n + (HB + m), f) # bs else (a, n, f) # (b, m, g) # bs)"
| "merge_list bs = bs"

lemma merge_next_rep:
  assumes "heap_rep s (xs @ (a, n, f) # ys)"
  shows "heap_rep (merge_next a s) (xs @ merge_list ((a, n, f) # ys))"
proof (cases "ys = [] \<or> \<not> (b_free (hd ys) \<and> a + HB + n = fst (hd ys))")
  case True
  then have "merge_list ((a, n, f) # ys) = (a, n, f) # ys" "merge_next a s = s"
    using assms by (cases ys; auto simp: heap_rep_def dl_append merge_next_def Let_def)+
  then show ?thesis using assms by simp
next
  case False
  then obtain m zs where ys: "ys = (a + HB + n, m, True) # zs"
    by (cases ys) auto
  let ?b = "a + HB + n" and ?h = "hblk s"
  have r: "dl ?h 0 xs a" "?h a = \<lparr>hb_size = n, hb_free = f, hb_next = ?b, hb_prev = last0 xs 0\<rparr>"
    "?h ?b = \<lparr>hb_size = m, hb_free = True, hb_next = hd0 zs 0, hb_prev = a\<rparr>" "dl ?h ?b zs 0"
    "heap_head s = hd0 xs a" "heap_tail s = last0 zs ?b"
    using assms by (simp_all add: heap_rep_def dl_append ys)
  have d: "a \<notin> fst ` set xs" "a \<notin> fst ` set zs" "distinct (map fst zs)" "?b \<noteq> 0" "?b \<noteq> a"
    "fst ` set xs \<inter> fst ` set zs = {}" "distinct (map fst xs)" "0 \<notin> fst ` set zs" "0 \<notin> fst ` set xs" "a \<noteq> 0"
    using assms by (auto simp: heap_rep_def ys)
  have hz: "hd0 zs 0 \<noteq> 0 \<and> hd0 zs 0 \<in> fst ` set zs" if "zs \<noteq> []" using that d(8) by (cases zs) auto
  define x where "x = \<lparr>hb_size = n + (HB + m), hb_free = f, hb_next = hd0 zs 0, hb_prev = last0 xs 0\<rparr>"
  have ml: "merge_list ((a, n, f) # ys) = (a, n + (HB + m), f) # zs" by (simp add: ys)
  show ?thesis
  proof (cases "zs = []")
    case True
    then have "hblk (merge_next a s) = ?h(a := x)" "heap_head (merge_next a s) = heap_head s"
      "heap_tail (merge_next a s) = a"
      using r d by (simp_all add: merge_next_def Let_def x_def)
    then show ?thesis using True r d by (simp add: heap_rep_def ml dl_append dl_other) (simp add: x_def)
  next
    case False
    let ?z = "hd0 zs 0"
    have z: "?z \<noteq> 0" "?z \<noteq> a" "?z \<notin> fst ` set xs" using hz [OF False] d by auto
    have h: "hblk (merge_next a s) = (?h(?z := (?h ?z)\<lparr>hb_prev := a\<rparr>))(a := x)"
      "heap_head (merge_next a s) = heap_head s" "heap_tail (merge_next a s) = heap_tail s"
      using r d z by (simp_all add: merge_next_def Let_def x_def fun_upd_twist)
    have "dl (?h(?z := (?h ?z)\<lparr>hb_prev := a\<rparr>)) a zs 0"
      by (rule dl_set_prev [OF r(4) d(3) False])
    moreover have "last0 zs ?b = last0 zs a" using False by (simp add: last0_def)
    ultimately show ?thesis using r d z h
      by (simp add: heap_rep_def ml dl_append dl_other image_Un) (simp add: x_def)
  qed
qed


lemma merge_prev_is_next:
  assumes "heap_rep s (xs @ (a, n, g) # (b, m, True) # ys)"
  shows "merge_prev b s = (if g then merge_next a s else s)"
proof -
  have r: "hblk s a = \<lparr>hb_size = n, hb_free = g, hb_next = b, hb_prev = last0 xs 0\<rparr>"
    "hblk s b = \<lparr>hb_size = m, hb_free = True, hb_next = hd0 ys 0, hb_prev = a\<rparr>"
    "a \<noteq> 0" "b \<noteq> 0" "a \<noteq> b"
    using assms by (auto simp: heap_rep_def dl_append)
  then show ?thesis by (simp add: merge_prev_def merge_next_def Let_def)
qed

text \<open>A freed or grown block merges with its list neighbours.\<close>

definition merge_around :: "blk list \<Rightarrow> blk \<Rightarrow> blk list \<Rightarrow> blk list" where
  "merge_around xs b ys =
     (let zs = merge_list (b # ys)
      in if xs \<noteq> [] \<and> b_free (last xs) then butlast xs @ merge_list (last xs # zs) else xs @ zs)"

lemma merge_list_cases: "\<exists>n' ys'. merge_list ((a, n, f) # ys) = (a, n', f) # ys'"
  by (cases ys) auto

lemma merge_rep:
  assumes "heap_rep s (xs @ (a, n, True) # ys)"
  shows "heap_rep (heap_merge_if_possible a s) (merge_around xs (a, n, True) ys)"
proof -
  obtain n' ys' where m: "merge_list ((a, n, True) # ys) = (a, n', True) # ys'"
    using merge_list_cases by blast
  have a: "a \<noteq> 0" using assms by (auto simp: heap_rep_def)
  have r: "heap_rep (merge_next a s) (xs @ (a, n', True) # ys')"
    using merge_next_rep [OF assms] m by simp
  show ?thesis
  proof (cases xs rule: rev_cases)
    case Nil
    have "merge_prev a (merge_next a s) = merge_next a s"
      using r by (simp add: Nil heap_rep_def merge_prev_def)
    then show ?thesis using r a m Nil by (simp add: heap_merge_if_possible_def merge_around_def)
  next
    case (snoc us u)
    obtain c k g where u: "u = (c, k, g)" by (cases u)
    have r': "heap_rep (merge_next a s) (us @ (c, k, g) # (a, n', True) # ys')"
      using r by (simp add: snoc u)
    show ?thesis
      using merge_prev_is_next [OF r'] merge_next_rep [OF r'] r' a m
      by (cases g) (simp_all add: heap_merge_if_possible_def merge_around_def snoc u)
  qed
qed

lemma upd_free_rep:
  assumes "heap_rep s (xs @ (a, n, f) # ys)"
  shows "heap_rep (upd_blk a (\<lambda>b. b\<lparr>hb_free := g\<rparr>) s) (xs @ (a, n, g) # ys)"
proof -
  have "a \<notin> fst ` set xs" "a \<notin> fst ` set ys" using assms by (auto simp: heap_rep_def)
  then show ?thesis using assms by (auto simp: heap_rep_def dl_append dl_other)
qed

text \<open>Splitting a block in two.\<close>

definition split_list_at :: "u64 \<Rightarrow> blk \<Rightarrow> blk list" where
  "split_list_at k b = (case b of (a, n, f) \<Rightarrow>
     if n \<le> k + HB + 16 then [(a, n, f)] else [(a, k, f), (a + HB + k, n - k - HB, True)])"

lemma split_rep:
  assumes "heap_rep s (xs @ (a, n, f) # ys)" "k = heap_align m"
    and new: "n \<le> k + HB + 16 \<or> (a + HB + k \<noteq> 0 \<and> a + HB + k \<notin> fst ` set (xs @ (a, n, f) # ys))"
  shows "heap_rep (heap_split_block a m s) (xs @ split_list_at k (a, n, f) @ ys)"
proof (cases "n \<le> k + HB + 16")
  case True
  then have "heap_split_block a m s = s"
    using assms by (simp add: heap_rep_def dl_append heap_split_block_def)
  then show ?thesis using True assms(1) by (simp add: split_list_at_def)
next
  case False
  let ?b = "a + HB + k" and ?h = "hblk s"
  have nb: "?b \<noteq> 0" "?b \<notin> fst ` set xs" "?b \<notin> fst ` set ys" "?b \<noteq> a" using new False by auto
  have r: "dl ?h 0 xs a" "?h a = \<lparr>hb_size = n, hb_free = f, hb_next = hd0 ys 0, hb_prev = last0 xs 0\<rparr>"
    "dl ?h a ys 0" "heap_head s = hd0 xs a" "heap_tail s = last0 ys a"
    using assms by (simp_all add: heap_rep_def dl_append)
  have d: "a \<notin> fst ` set xs" "a \<notin> fst ` set ys" "distinct (map fst ys)"
    "fst ` set xs \<inter> fst ` set ys = {}" "distinct (map fst xs)" "0 \<notin> fst ` set ys" "0 \<notin> fst ` set xs" "a \<noteq> 0"
    using assms by (auto simp: heap_rep_def)
  define x where "x = \<lparr>hb_size = k, hb_free = f, hb_next = ?b, hb_prev = last0 xs 0\<rparr>"
  define y where "y = \<lparr>hb_size = n - k - HB, hb_free = True, hb_next = hd0 ys 0, hb_prev = a\<rparr>"
  have sl: "split_list_at k (a, n, f) = [(a, k, f), (?b, n - k - HB, True)]"
    using False by (simp add: split_list_at_def)
  show ?thesis
  proof (cases "ys = []")
    case True
    then have "hblk (heap_split_block a m s) = (?h(?b := y))(a := x)"
      "heap_head (heap_split_block a m s) = heap_head s" "heap_tail (heap_split_block a m s) = ?b"
      using r d nb False assms(2) by (simp_all add: heap_split_block_def Let_def x_def y_def)
    then show ?thesis
      using True r d nb by (simp add: heap_rep_def sl dl_append dl_other) (simp add: x_def y_def)
  next
    case ne: False
    let ?z = "hd0 ys 0"
    have zy: "?z \<in> fst ` set ys" using ne by (cases ys) auto
    have z: "?z \<noteq> 0" "?z \<noteq> a" "?z \<noteq> ?b" "?z \<notin> fst ` set xs"
      using zy d(2,4,6) nb(3) by (metis, metis, metis, metis disjoint_iff)
    have h: "hblk (heap_split_block a m s) = ((?h(?z := (?h ?z)\<lparr>hb_prev := ?b\<rparr>))(?b := y))(a := x)"
      "heap_head (heap_split_block a m s) = heap_head s" "heap_tail (heap_split_block a m s) = heap_tail s"
      using r d z nb False assms(2)
      by (simp_all add: heap_split_block_def Let_def x_def y_def fun_upd_twist)
    have "dl (?h(?z := (?h ?z)\<lparr>hb_prev := ?b\<rparr>)) ?b ys 0"
      by (rule dl_set_prev [OF r(3) d(3) ne])
    moreover have "last0 ys a = last0 ys ?b" using ne by (simp add: last0_def)
    ultimately show ?thesis using r d z nb h
      by (simp add: heap_rep_def sl dl_append dl_other image_Un) (simp add: x_def y_def)
  qed
qed

text \<open>Appending a block, and the allocation of memory for it.\<close>

lemma insert_rep:
  assumes "heap_rep s bs" "a \<noteq> 0" "a \<notin> fst ` set bs" "hb_size (hblk s a) = n" "hb_free (hblk s a) = f"
  shows "heap_rep (heap_insert_block a s) (bs @ [(a, n, f)])"
proof -
  let ?h = "hblk s"
  define x where "x = \<lparr>hb_size = n, hb_free = f, hb_next = 0, hb_prev = last0 bs 0\<rparr>"
  have r: "dl ?h 0 bs 0" "heap_head s = hd0 bs 0" "heap_tail s = last0 bs 0" "distinct (map fst bs)"
    "0 \<notin> fst ` set bs" using assms(1) by (simp_all add: heap_rep_def)
  have ax: "(?h a)\<lparr>hb_next := 0, hb_prev := last0 bs 0\<rparr> = x" using assms(4,5) by (simp add: x_def)
  show ?thesis
  proof (cases "bs = []")
    case True
    then have "hblk (heap_insert_block a s) = ?h(a := x)" "heap_head (heap_insert_block a s) = a"
      "heap_tail (heap_insert_block a s) = a"
      using r ax by (simp_all add: heap_insert_block_def Let_def)
    then show ?thesis using True assms(2) by (simp add: heap_rep_def x_def)
  next
    case False
    let ?l = "last0 bs 0"
    have l: "?l \<in> fst ` set bs" using False by (simp add: last0_def)
    then have l': "?l \<noteq> 0" "?l \<noteq> a" using r(5) assms(3) by metis+
    have h: "hblk (heap_insert_block a s) = (?h(?l := (?h ?l)\<lparr>hb_next := a\<rparr>))(a := x)"
      "heap_head (heap_insert_block a s) = heap_head s" "heap_tail (heap_insert_block a s) = a"
      using r l' ax by (simp_all add: heap_insert_block_def Let_def fun_upd_twist)
    have "dl (?h(?l := (?h ?l)\<lparr>hb_next := a\<rparr>)) 0 bs a" by (rule dl_set_next [OF r(1,4) False])
    moreover have "hd0 bs 0 = hd0 bs a" using False by (cases bs) simp_all
    ultimately show ?thesis using r h assms(2,3)
      by (simp add: heap_rep_def dl_append dl_other) (simp add: x_def)
  qed
qed

section \<open>Blocks under splitting and merging\<close>

lemma heap_align_16:
  assumes "unat n + 15 < 2 ^ 64"
  shows "unat (heap_align n) = (unat n + 15) div 16 * 16"
proof -
  have "unat (n + 15) = unat n + 15" using assms by (simp add: unat_word_ariths)
  then show ?thesis
    using unat_and_not_mask [of "n + 15" 4] by (simp add: heap_align_def ALIGN_UP_def mask_4 add.commute)
qed

lemma heap_align_idem: "unat n + 15 < 2 ^ 64 \<Longrightarrow> 16 dvd unat n \<Longrightarrow> heap_align n = n"
  by (subst word_unat_eq_iff) (auto simp: heap_align_16 elim!: dvdE)

lemma heap_align_ge:
  assumes "unat n + 15 < 2 ^ 64"
  shows "n \<le> heap_align n" "16 dvd unat (heap_align n)" "unat (heap_align n) < unat n + 16"
proof -
  have "unat n \<le> (unat n + 15) div 16 * 16" "(unat n + 15) div 16 * 16 < unat n + 16" by presburger+
  then show "n \<le> heap_align n" "16 dvd unat (heap_align n)" "unat (heap_align n) < unat n + 16"
    by (simp_all add: word_le_nat_alt heap_align_16 [OF assms])
qed

lemma join_blk:
  assumes "blk_ok (a, n, f)" "blk_ok (b, m, g)" "b = a + HB + n"
  shows "blk_ok (a, n + (HB + m), f)" "ext (a, n + (HB + m), f) = ext (a, n, f) \<union> ext (b, m, g)"
    "unat (n + (HB + m)) = unat n + 32 + unat m"
proof -
  have le: "unat a + 32 + unat n \<le> 2 ^ 64" "unat b + 32 + unat m \<le> 2 ^ 64" "b \<noteq> 0"
    using assms(1,2) by (simp_all add: blk_ok_def)
  have "unat a + 32 + unat n \<noteq> 2 ^ 64"
  proof
    assume e: "unat a + 32 + unat n = 2 ^ 64"
    have "unat b = (unat a + 32 + unat n) mod 2 ^ 64"
      by (simp add: assms(3) unat_word_ariths mod_simps)
    then have "unat b = 0" unfolding e by simp
    then show False using le(3) by (simp add: unat_eq_zero)
  qed
  then have b: "unat b = unat a + 32 + unat n" using le(1) assms(3) by (simp add: unat_word_ariths)
  show s: "unat (n + (HB + m)) = unat n + 32 + unat m" using le b by (simp add: unat_word_ariths)
  show "blk_ok (a, n + (HB + m), f)" using assms(1,2) le b s by (auto simp: blk_ok_def)
  show "ext (a, n + (HB + m), f) = ext (a, n, f) \<union> ext (b, m, g)" using b s by (auto simp: ext_def)
qed

lemma split_blk:
  assumes "blk_ok (a, n, f)" "16 dvd unat k" "unat k + 48 < unat n"
  shows "blk_ok (a, k, f)" "blk_ok (a + HB + k, n - k - HB, True)"
    "ext (a, k, f) \<union> ext (a + HB + k, n - k - HB, True) = ext (a, n, f)"
    "ext (a, k, f) \<inter> ext (a + HB + k, n - k - HB, True) = {}"
    "adjacent (a + HB + k, n - k - HB, True) c \<longleftrightarrow> adjacent (a, n, f) c"
proof -
  have le: "unat a + 32 + unat n \<le> 2 ^ 64" "16 dvd unat a" "16 dvd unat n" "a \<noteq> 0"
    using assms(1) by (simp_all add: blk_ok_def)
  have b: "unat (a + HB + k) = unat a + 32 + unat k" using le assms(3) by (simp add: unat_word_ariths)
  have m: "unat (n - k - HB) = unat n - unat k - 32"
  proof -
    have "unat (n - k) = unat n - unat k" using assms(3) by (simp add: unat_sub word_le_nat_alt)
    then show ?thesis using assms(3) by (simp add: unat_sub word_le_nat_alt)
  qed
  show "blk_ok (a, k, f)" using assms le by (simp add: blk_ok_def)
  have "a + HB + k \<noteq> 0" using b by (metis add_gr_0 less_numeral_extra(3) unat_0 zero_less_numeral)
  then show "blk_ok (a + HB + k, n - k - HB, True)"
    using assms(2,3) le b m by (auto simp: blk_ok_def intro!: dvd_diff_nat)
  show "ext (a, k, f) \<union> ext (a + HB + k, n - k - HB, True) = ext (a, n, f)"
    "ext (a, k, f) \<inter> ext (a + HB + k, n - k - HB, True) = {}"
    using b m assms(3) by (auto simp: ext_def)
  show "adjacent (a + HB + k, n - k - HB, True) c \<longleftrightarrow> adjacent (a, n, f) c"
    by (simp add: adjacent_def algebra_simps)
qed

definition live :: "blk list \<Rightarrow> (u64 \<times> u64) set" where
  "live bs = {(a, n). (a, n, False) \<in> set bs}"

definition cover :: "blk list \<Rightarrow> nat set" where
  "cover bs = (\<Union>b \<in> set bs. ext b)"

lemma live_simps [simp]:
  "live [] = {}" "live (xs @ ys) = live xs \<union> live ys"
  "live ((a, n, f) # bs) = (if f then live bs else insert (a, n) (live bs))"
  by (auto simp: live_def)

lemma cover_simps [simp]:
  "cover [] = {}" "cover (xs @ ys) = cover xs \<union> cover ys" "cover (b # bs) = ext b \<union> cover bs"
  by (auto simp: cover_def)

lemma blks_ok_append:
  "blks_ok (xs @ ys) \<longleftrightarrow> blks_ok xs \<and> blks_ok ys \<and> cover xs \<inter> cover ys = {}"
  by (auto simp: blks_ok_def sorted_wrt_append cover_def)

lemma blks_ok_Cons:
  "blks_ok (b # bs) \<longleftrightarrow> blk_ok b \<and> blks_ok bs \<and> ext b \<inter> cover bs = {}"
  by (auto simp: blks_ok_def cover_def)

lemma blks_ok_Nil [simp]: "blks_ok []"
  by (simp add: blks_ok_def)

text \<open>Merging keeps the blocks disjoint, the bytes they cover and the allocated ones.\<close>

lemma merge_list_ok:
  assumes "blks_ok (b # bs)" "b_free b"
  shows "blks_ok (merge_list (b # bs)) \<and> cover (merge_list (b # bs)) = cover (b # bs) \<and>
    live (merge_list (b # bs)) = live (b # bs)"
proof -
  obtain a n f where b: "b = (a, n, f)" by (cases b)
  show ?thesis
  proof (cases bs)
    case (Cons c cs)
    obtain a' m g where c: "c = (a', m, g)" by (cases c)
    show ?thesis
    proof (cases "g \<and> a + HB + n = a'")
      case True
      have ok: "blk_ok (a, n, f)" "blk_ok (a', m, g)" using assms by (simp_all add: b c Cons blks_ok_Cons)
      have e: "a' = a + HB + n" using True by simp
      note j = join_blk [OF ok e]
      show ?thesis using assms True j by (auto simp: b c Cons blks_ok_Cons)
    qed (use assms in \<open>auto simp: b c Cons\<close>)
  qed (use assms in \<open>simp add: b\<close>)
qed

lemma merge_around_ok:
  assumes "blks_ok (xs @ b # ys)" "b_free b"
  shows "blks_ok (merge_around xs b ys) \<and> cover (merge_around xs b ys) = cover (xs @ b # ys) \<and>
    live (merge_around xs b ys) = live (xs @ b # ys)"
proof -
  have "blks_ok (b # ys)" using assms by (simp add: blks_ok_append)
  note m = merge_list_ok [OF this assms(2)]
  have ok: "blks_ok (xs @ merge_list (b # ys))" using assms m by (simp add: blks_ok_append)
  show ?thesis
  proof (cases "xs \<noteq> [] \<and> b_free (last xs)")
    case True
    then obtain us u where xs: "xs = us @ [u]" by (metis rev_exhaust)
    have "blks_ok (u # merge_list (b # ys))" using ok by (simp add: xs blks_ok_append)
    moreover have fu: "b_free u" using True by (simp add: xs)
    ultimately have m2: "blks_ok (merge_list (u # merge_list (b # ys))) \<and>
        cover (merge_list (u # merge_list (b # ys))) = cover (u # merge_list (b # ys)) \<and>
        live (merge_list (u # merge_list (b # ys))) = live (u # merge_list (b # ys))"
      by (rule merge_list_ok)
    have "live (u # zs) = live zs" for zs using fu by (cases u) simp
    then show ?thesis
      using True ok m m2 by (simp add: merge_around_def xs blks_ok_append Un_assoc Int_Un_distrib)

  next
    case False
    then have "merge_around xs b ys = xs @ merge_list (b # ys)" by (auto simp: merge_around_def Let_def)
    then show ?thesis using ok m by simp
  qed
qed


lemma no_adj_Cons:
  "no_adj (b # bs) \<longleftrightarrow> no_adj bs \<and> (bs \<noteq> [] \<longrightarrow> \<not> (b_free b \<and> b_free (hd bs) \<and> adjacent b (hd bs)))"
  by (cases bs) auto

lemma merge_list_no_adj:
  assumes "no_adj bs" "b_free b"
  shows "no_adj (merge_list (b # bs))"
proof -
  obtain a n f where b: "b = (a, n, f)" by (cases b)
  show ?thesis
  proof (cases bs)
    case (Cons c cs)
    obtain a' m g where c: "c = (a', m, g)" by (cases c)
    show ?thesis
      using assms by (cases cs) (auto simp: b c Cons adjacent_def algebra_simps)
  qed (simp add: b)
qed

lemma adjacent_merge:
  "adjacent u (hd (merge_list (b # bs))) \<longleftrightarrow> adjacent u b" "merge_list (b # bs) \<noteq> []"
  "b_free (hd (merge_list (b # bs))) = b_free b"
  using merge_list_cases [of "fst b" "fst (snd b)" "snd (snd b)" bs] by (auto simp: adjacent_def)

lemma merge_around_no_adj:
  assumes "no_adj xs" "no_adj ys" "b_free b"
  shows "no_adj (merge_around xs b ys)"
proof -
  let ?zs = "merge_list (b # ys)"
  have z: "no_adj ?zs" by (rule merge_list_no_adj [OF assms(2,3)])
  show ?thesis
  proof (cases "xs \<noteq> [] \<and> b_free (last xs)")
    case True
    then obtain us u where xs: "xs = us @ [u]" by (metis rev_exhaust)
    have "no_adj (merge_list (u # ?zs))" using merge_list_no_adj [OF z, of u] True by (simp add: xs)
    moreover have "no_adj us" "us \<noteq> [] \<longrightarrow> b_free u \<longrightarrow> \<not> (b_free (last us) \<and> adjacent (last us) u)"
      using assms(1) by (auto simp: xs no_adj_append)
    ultimately show ?thesis
      using True by (auto simp: merge_around_def xs no_adj_append adjacent_merge)
  next
    case False
    then show ?thesis using assms(1) z by (auto simp: merge_around_def no_adj_append)
  qed
qed

lemma split_list_ok:
  assumes "blks_ok (xs @ (a, n, f) # ys)" "16 dvd unat k" "unat k + 48 < 2 ^ 64" "k \<le> n"
  shows "blks_ok (xs @ split_list_at k (a, n, f) @ ys)"
    "\<exists>m \<ge> k. live (split_list_at k (a, n, f)) = live [(a, m, f)]"
    "n \<le> k + HB + 16 \<or> (a + HB + k \<noteq> 0 \<and> a + HB + k \<notin> fst ` set (xs @ (a, n, f) # ys))"
proof -
  have u: "unat (k + HB + 16) = unat k + 48" using assms(3) by (simp add: unat_word_ariths)
  have ok: "blk_ok (a, n, f)" using assms(1) by (simp add: blks_ok_append blks_ok_Cons)
  show new: "blks_ok (xs @ split_list_at k (a, n, f) @ ys)"
  proof (cases "n \<le> k + HB + 16")
    case False
    then have "unat k + 48 < unat n" using u by (simp add: word_le_nat_alt)
    note sp = split_blk [OF ok assms(2) this]
    then show ?thesis
      using assms(1) False by (auto simp: split_list_at_def blks_ok_append blks_ok_Cons)
  qed (use assms(1) in \<open>simp add: split_list_at_def\<close>)
  show "\<exists>m \<ge> k. live (split_list_at k (a, n, f)) = live [(a, m, f)]"
    using assms(4) by (auto simp: split_list_at_def)
  show "n \<le> k + HB + 16 \<or> (a + HB + k \<noteq> 0 \<and> a + HB + k \<notin> fst ` set (xs @ (a, n, f) # ys))"
    using blks_distinct [OF new] by (auto simp: split_list_at_def split: if_splits)
qed

text \<open>Allocating from a free block: the block loses its surplus, which becomes a free block.\<close>

definition take_blk :: "u64 \<Rightarrow> blk \<Rightarrow> blk list" where
  "take_blk k b = (case split_list_at k b of (a, n, _) # bs \<Rightarrow> (a, n, False) # bs)"

lemma take_blk_ok:
  assumes "blks_ok (xs @ (a, n, True) # ys)" "no_adj (xs @ (a, n, True) # ys)"
    and "16 dvd unat k" "unat k + 48 < 2 ^ 64" "k \<le> n"
  shows "blks_ok (xs @ take_blk k (a, n, True) @ ys)" "no_adj (xs @ take_blk k (a, n, True) @ ys)"
    "cover (xs @ take_blk k (a, n, True) @ ys) = cover (xs @ (a, n, True) # ys)"
    "\<exists>m \<ge> k. live (xs @ take_blk k (a, n, True) @ ys) = insert (a, m) (live (xs @ (a, n, True) # ys))"
    "n \<le> k + HB + 16 \<or> (a + HB + k \<noteq> 0 \<and> a + HB + k \<notin> fst ` set (xs @ (a, n, True) # ys))"
proof -
  have u: "unat (k + HB + 16) = unat k + 48" using assms(4) by (simp add: unat_word_ariths)
  have ok: "blk_ok (a, n, True)" "blk_ok (a, n, False)" "ext (a, n, False) = ext (a, n, True)"
    using assms(1) by (simp_all add: blks_ok_append blks_ok_Cons blk_ok_def ext_def)
  have no: "no_adj xs" "no_adj ys" "no_adj ((a, n, True) # ys)" using assms(2) by (auto simp: no_adj_append no_adj_Cons)
  show "blks_ok (xs @ take_blk k (a, n, True) @ ys)" "no_adj (xs @ take_blk k (a, n, True) @ ys)"
    "cover (xs @ take_blk k (a, n, True) @ ys) = cover (xs @ (a, n, True) # ys)"
    "\<exists>m \<ge> k. live (xs @ take_blk k (a, n, True) @ ys) = insert (a, m) (live (xs @ (a, n, True) # ys))"
    "n \<le> k + HB + 16 \<or> (a + HB + k \<noteq> 0 \<and> a + HB + k \<notin> fst ` set (xs @ (a, n, True) # ys))"
  proof (goal_cases)
    case 1
    show ?case
    proof (cases "n \<le> k + HB + 16")
      case True
      then show ?thesis using assms(1) ok by (simp add: take_blk_def split_list_at_def blks_ok_append blks_ok_Cons)
    next
      case False
      then have "unat k + 48 < unat n" using u by (simp add: word_le_nat_alt)
      note sp = split_blk [OF ok(2) assms(3) this]
      then show ?thesis
        using assms(1) ok False by (auto simp: take_blk_def split_list_at_def blks_ok_append blks_ok_Cons)
    qed
  next
    case 2
    have a: "adjacent (last xs) (a, m, f) \<longleftrightarrow> adjacent (last xs) (a, n, True)" for m f
      by (simp add: adjacent_def)
    show ?case
      using no assms(2) by (auto simp: take_blk_def split_list_at_def no_adj_append no_adj_Cons adjacent_def algebra_simps)
  next
    case 3
    show ?case
    proof (cases "n \<le> k + HB + 16")
      case False
      then have "unat k + 48 < unat n" using u by (simp add: word_le_nat_alt)
      note sp = split_blk [OF ok(2) assms(3) this]
      then show ?thesis using ok False by (auto simp: take_blk_def split_list_at_def)
    qed (simp add: take_blk_def split_list_at_def ok)
  next
    case 4
    show ?case using assms(5) by (auto simp: take_blk_def split_list_at_def)
  next
    case 5
    show ?case
    proof (cases "n \<le> k + HB + 16")
      case False
      then have lt: "unat k + 48 < unat n" using u by (simp add: word_le_nat_alt)
      note sp = split_blk [OF ok(1) assms(3) lt]
      let ?r = "(a + HB + k, n - k - HB, True)"
      have "blks_ok (xs @ [(a, k, True), ?r] @ ys)"
        using assms(1) sp by (auto simp: blks_ok_append blks_ok_Cons)
      from blks_distinct [OF this] show ?thesis by auto
    qed simp
  qed
qed

section \<open>Pages for the heap\<close>

text \<open>The direct-map bytes of the free frames; all managed memory lies below 2 GiB.\<close>

definition fbytes :: "u64 set \<Rightarrow> nat set" where
  "fbytes F = (\<Union>f \<in> F. {unat (X86_64_PHYS_TO_VIRT f)..<unat (X86_64_PHYS_TO_VIRT f) + 4096})"

definition direct_ok :: "'a pmm_state_scheme \<Rightarrow> bool" where
  "direct_ok s \<longleftrightarrow> memory_end s \<le> 0x80000000"

definition vbase :: "'a pmm_state_scheme \<Rightarrow> nat" where
  "vbase s = unat (memory_start s) + (2 ^ 64 - 2 ^ 31)"

lemma unat_virt:
  assumes "pmm_inv s" "direct_ok s" "i < total_pages s"
  shows "unat (X86_64_PHYS_TO_VIRT (pmm_index_to_page s i)) = vbase s + i * 4096"
    "vbase s + total_pages s * 4096 \<le> 2 ^ 64"
proof -
  have g: "geom_ok s" using assms(1) by (simp add: pmm_inv_def)
  note u = geom_unat_page [OF g assms(3)]
  have e: "unat (memory_end s) = unat (memory_start s) + total_pages s * 4096"
    using g by (simp add: geom_ok_def)
  have le: "unat (memory_end s) \<le> 2 ^ 31" using assms(2) by (simp add: direct_ok_def word_le_nat_alt)
  have "i * 4096 < total_pages s * 4096" using assms(3) by simp
  then have "unat (pmm_index_to_page s i) + (2 ^ 64 - 2 ^ 31) < 2 ^ 64" using u e le by simp
  then show "unat (X86_64_PHYS_TO_VIRT (pmm_index_to_page s i)) = vbase s + i * 4096"
    using u by (simp add: X86_64_PHYS_TO_VIRT_def unat_word_ariths vbase_def)
  show "vbase s + total_pages s * 4096 \<le> 2 ^ 64" using e le by (simp add: vbase_def)
qed

lemma fbytes_iff:
  assumes "pmm_inv s" "direct_ok s"
  shows "x \<in> fbytes (free_frames s) \<longleftrightarrow> vbase s \<le> x \<and> (x - vbase s) div 4096 \<in> free_set s"
proof -
  have "x \<in> fbytes (free_frames s) \<longleftrightarrow>
      (\<exists>i \<in> free_set s. vbase s + i * 4096 \<le> x \<and> x < vbase s + i * 4096 + 4096)"
    using unat_virt(1) [OF assms] by (auto simp: fbytes_def free_frames_def free_set_def)
  also have "\<dots> \<longleftrightarrow> vbase s \<le> x \<and> (x - vbase s) div 4096 \<in> free_set s"
  proof
    assume "\<exists>i \<in> free_set s. vbase s + i * 4096 \<le> x \<and> x < vbase s + i * 4096 + 4096"
    then obtain i where i: "i \<in> free_set s" "vbase s + i * 4096 \<le> x" "x < vbase s + i * 4096 + 4096" by blast
    then have "(x - vbase s) div 4096 = i" by (intro div_nat_eqI) auto
    then show "vbase s \<le> x \<and> (x - vbase s) div 4096 \<in> free_set s" using i by auto
  next
    assume r: "vbase s \<le> x \<and> (x - vbase s) div 4096 \<in> free_set s"
    have "vbase s + (x - vbase s) div 4096 * 4096 \<le> x \<and> x < vbase s + (x - vbase s) div 4096 * 4096 + 4096"
      using r div_times_less_eq_dividend [of "x - vbase s" 4096]
        dividend_less_div_times [of 4096 "x - vbase s"] by auto
    then show "\<exists>i \<in> free_set s. vbase s + i * 4096 \<le> x \<and> x < vbase s + i * 4096 + 4096" using r by blast
  qed
  finally show ?thesis .
qed

lemma alloc_pages_spec:
  assumes "pmm_inv s" "0 < c" "pmm_alloc_pages c s = (p, t)"
  shows "(p = 0 \<and> t = s \<and> (\<forall>st. \<not> free_run s PMM_ZONE_NORMAL st c \<and> \<not> free_run s PMM_ZONE_LOW st c)) \<or>
    (\<exists>z st. (z = PMM_ZONE_NORMAL \<or> z = PMM_ZONE_LOW) \<and> free_run s z st c \<and>
       p = pmm_index_to_page s st \<and> p \<noteq> 0 \<and> pmm_inv t \<and> same_geom s t \<and>
       free_set t = free_set s - {st..<st + c} \<and> pmem t = mem_set (pmem s) p 0 (c * 4096) \<and>
       pmm_state.more t = pmm_state.more s)"
proof -
  have nz: "pmm_index_to_page s st \<noteq> 0" if "free_run s z st c" for z st
    using that assms(1,2) geom_page(2) [of s st] by (auto simp: free_run_def free_set_def pmm_inv_def)
  obtain q u where q: "pmm_alloc_pages_in_zone PMM_ZONE_NORMAL c s = (q, u)" by fastforce
  have z: "PMM_ZONE_NORMAL < PMM_ZONE_COUNT" "PMM_ZONE_LOW < PMM_ZONE_COUNT" by simp_all
  note n = alloc_pages_in_zone_spec [OF assms(1) z(1) assms(2) q]
  show ?thesis
  proof (cases "q = 0")
    case True
    then have u: "u = s" "\<not> (\<exists>st. free_run s PMM_ZONE_NORMAL st c)" using n nz by auto
    then have l: "pmm_alloc_pages_in_zone PMM_ZONE_LOW c s = (p, t)"
      using assms(3) q True by (simp add: pmm_alloc_pages_def)
    note low = alloc_pages_in_zone_spec [OF assms(1) z(2) assms(2) l]
    show ?thesis
    proof (cases "p = 0")
      case True
      then have "t = s \<and> \<not> (\<exists>st. free_run s PMM_ZONE_LOW st c)" using low nz by metis
      then show ?thesis using True u(2) by auto
    next
      case False
      then show ?thesis using low by blast
    qed
  next
    case False
    then show ?thesis using n q assms(3) by (auto simp: pmm_alloc_pages_def)
  qed
qed

lemma vmm_alloc_pages_spec:
  assumes "pmm_inv s" "direct_ok s" "0 < c" "vmm_alloc_pages c fl s = (m, t)"
  shows "(m = 0 \<and> t = memory_oom_inc_vmm s) \<or>
    (m \<noteq> 0 \<and> unat m + c * 4096 \<le> 2 ^ 64 \<and> 4096 dvd unat m \<and> pmm_inv t \<and> direct_ok t \<and>
     {unat m..<unat m + c * 4096} \<subseteq> fbytes (free_frames s) \<and>
     fbytes (free_frames t) = fbytes (free_frames s) - {unat m..<unat m + c * 4096} \<and>
     pmm_state.more t = pmm_state.more s \<and> same_geom s t)"
proof -
  obtain p u where p: "pmm_alloc_pages c s = (p, u)" by fastforce
  show ?thesis
  proof (cases "p = 0")
    case True
    then have "u = s" using alloc_pages_spec [OF assms(1,3) p] by auto
    then show ?thesis using True assms(4) p by (simp add: vmm_alloc_pages_def)
  next
    case False
    then obtain z st where a: "free_run s z st c" "p = pmm_index_to_page s st" "pmm_inv u" "same_geom s u"
      "free_set u = free_set s - {st..<st + c}" "pmm_state.more u = pmm_state.more s"
      using alloc_pages_spec [OF assms(1,3) p] by auto
    have mt: "m = X86_64_PHYS_TO_VIRT p" "t = u" using False assms(4) p by (auto simp: vmm_alloc_pages_def)
    have run: "\<forall>i \<in> {st..<st + c}. i \<in> free_set s" using a(1) by (auto simp: free_run_def)
    have "st + c - 1 \<in> free_set s" "st \<in> free_set s" using run assms(3) by auto
    then have tp: "st + c \<le> total_pages s" "st < total_pages s" by (auto simp: free_set_def)
    note uv = unat_virt [OF assms(1,2) tp(2)]
    have um: "unat m = vbase s + st * 4096" using uv(1) by (simp add: mt a(2))
    have "(st + c) * 4096 \<le> total_pages s * 4096" using tp(1) by simp
    then have le: "unat m + c * 4096 \<le> 2 ^ 64" using uv(2) um by (simp add: algebra_simps)
    have g: "geom_ok s" using assms(1) by (simp add: pmm_inv_def)
    have pa: "4096 dvd unat (memory_start s)" using g by (auto simp: geom_ok_def page_aligned_unat)
    have vb: "4096 dvd vbase s" unfolding vbase_def by (rule dvd_add [OF pa]) simp
    have nz: "m \<noteq> 0"
    proof
      assume "m = 0"
      then show False using um by (simp add: vbase_def)
    qed
    have d: "direct_ok u" using assms(2) a(4) by (simp add: direct_ok_def same_geom_def)
    have vu: "vbase u = vbase s" using a(4) by (simp add: vbase_def same_geom_def)
    have rng: "x \<in> {unat m..<unat m + c * 4096} \<longleftrightarrow> vbase s \<le> x \<and> (x - vbase s) div 4096 \<in> {st..<st + c}" for x
    proof -
      have "vbase s \<le> x \<Longrightarrow> (st * 4096 \<le> x - vbase s \<longleftrightarrow> st \<le> (x - vbase s) div 4096)"
        "vbase s \<le> x \<Longrightarrow> (x - vbase s < (st + c) * 4096 \<longleftrightarrow> (x - vbase s) div 4096 < st + c)"
        by (simp_all add: less_eq_div_iff_mult_less_eq div_less_iff_less_mult)
      then show ?thesis using um by (auto simp: algebra_simps)
    qed
    have "{unat m..<unat m + c * 4096} \<subseteq> fbytes (free_frames s)"
      using rng run by (auto simp only: fbytes_iff [OF assms(1,2)])
    moreover have "fbytes (free_frames u) = fbytes (free_frames s) - {unat m..<unat m + c * 4096}"
      unfolding set_eq_iff Diff_iff rng fbytes_iff [OF assms(1,2)] fbytes_iff [OF a(3) d] vu a(5) by blast
    moreover have "4096 dvd unat m" using vb um by simp
    ultimately show ?thesis using nz le a(3,4,6) d by (simp add: mt(2))
  qed
qed


section \<open>The heap invariant\<close>

text \<open>Two states agree on everything below the heap.\<close>

definition same_pmm :: "'a pmm_state_scheme \<Rightarrow> 'a pmm_state_scheme \<Rightarrow> bool" where
  "same_pmm s t \<longleftrightarrow> pmm_state.truncate t = pmm_state.truncate s"

lemma same_pmmD:
  assumes "same_pmm s t"
  shows "pmm_inv t = pmm_inv s" "free_frames t = free_frames s" "direct_ok t = direct_ok s" "pmem t = pmem s"
    "same_geom s t"
proof -
  have e: "pmem t = pmem s" "total_pages t = total_pages s" "free_pages t = free_pages s"
    "used_pages t = used_pages s" "bitmap_size t = bitmap_size s" "bitmap t = bitmap s"
    "memory_start t = memory_start s" "memory_end t = memory_end s" "pages t = pages s"
    "pages_count t = pages_count s" "zones t = zones s"
    using assms by (simp_all add: same_pmm_def pmm_state.truncate_def)
  have b: "pmm_bitmap_test t = pmm_bitmap_test s" "pmm_index_to_page t = pmm_index_to_page s"
    by (simp_all add: fun_eq_iff pmm_bitmap_test_def pmm_index_to_page_def e)
  have f: "free_set t = free_set s" "page_zone t = page_zone s"
    by (simp_all add: free_set_def page_zone_def fun_eq_iff b e)
  show "pmm_inv t = pmm_inv s"
    by (simp add: pmm_inv_def geom_ok_def counts_ok_def lists_ok_def list_ok_def f b e)
  show "free_frames t = free_frames s" by (simp add: free_frames_def f b)
  show "direct_ok t = direct_ok s" "pmem t = pmem s" by (simp_all add: direct_ok_def e)
  show "same_geom s t" by (simp add: same_geom_def e)
qed

lemma same_pmm_refl [simp]: "same_pmm s s"
  by (simp add: same_pmm_def)

lemma same_pmm_trans [trans]: "same_pmm s t \<Longrightarrow> same_pmm t u \<Longrightarrow> same_pmm s u"
  by (simp add: same_pmm_def)

lemma same_pmm_upd [simp]:
  "same_pmm s (upd_blk a f t) = same_pmm s t" "same_pmm s (t\<lparr>heap_tail := x\<rparr>) = same_pmm s t"
  "same_pmm s (t\<lparr>heap_head := x\<rparr>) = same_pmm s t"
  by (simp_all add: same_pmm_def upd_blk_def pmm_state.truncate_def)

lemma same_pmm_ops [simp]:
  "same_pmm s (merge_next a t) = same_pmm s t" "same_pmm s (merge_prev a t) = same_pmm s t"
  "same_pmm s (heap_merge_if_possible a t) = same_pmm s t"
  "same_pmm s (heap_split_block a n t) = same_pmm s t" "same_pmm s (heap_insert_block a t) = same_pmm s t"
  by (simp_all add: merge_next_def merge_prev_def heap_merge_if_possible_def heap_split_block_def
      heap_insert_block_def Let_def)

definition heap_ok :: "'a heap_state_scheme \<Rightarrow> blk list \<Rightarrow> bool" where
  "heap_ok s bs \<longleftrightarrow> pmm_inv s \<and> direct_ok s \<and> heap_rep s bs \<and> blks_ok bs \<and> no_adj bs \<and>
     cover bs \<inter> fbytes (free_frames s) = {}"

text \<open>The bytes the heap has or may get: its blocks and the free frames.\<close>

definition heap_region :: "'a heap_state_scheme \<Rightarrow> blk list \<Rightarrow> nat set" where
  "heap_region s bs = cover bs \<union> fbytes (free_frames s)"

definition heap_inv :: "'a heap_state_scheme \<Rightarrow> bool" where
  "heap_inv s \<longleftrightarrow> (\<exists>bs. heap_ok s bs)"

lemma dl_unique: "dl h p bs 0 \<Longrightarrow> dl h q cs 0 \<Longrightarrow> 0 \<notin> fst ` set bs \<Longrightarrow> 0 \<notin> fst ` set cs \<Longrightarrow>
    hd0 bs 0 = hd0 cs 0 \<Longrightarrow> bs = cs"
proof (induction bs arbitrary: p q cs)
  case Nil
  then show ?case by (cases cs) auto
next
  case (Cons b bs)
  obtain a n f where b: "b = (a, n, f)" by (cases b)
  show ?case
  proof (cases cs)
    case Nil
    then show ?thesis using Cons.prems by (auto simp: b)
  next
    case (Cons c ds)
    obtain a' n' f' where c: "c = (a', n', f')" by (cases c)
    have e: "a = a'" "n = n'" "f = f'" "hd0 bs 0 = hd0 ds 0"
      using Cons.prems by (auto simp: b c Cons)
    have "bs = ds" using Cons.prems e by (intro Cons.IH [of a a']) (auto simp: b c Cons)
    then show ?thesis using e by (simp add: b c Cons)
  qed
qed

lemma heap_rep_unique: "heap_rep s bs \<Longrightarrow> heap_rep s cs \<Longrightarrow> bs = cs"
  by (rule dl_unique [of "hblk s" 0 bs 0 cs]) (simp_all add: heap_rep_def)


section \<open>Growing, allocating and releasing\<close>

lemma heap_rep_more:
  fixes s t :: "'a heap_state_scheme"
  assumes "pmm_state.more t = pmm_state.more s"
  shows "heap_rep t bs = heap_rep s bs" "hblk t = hblk s"
proof -
  have "paging_state.more t = paging_state.more s" by (rule more_fields(5) [OF assms])
  then have "hblk t = hblk s" "heap_head t = heap_head s" "heap_tail t = heap_tail s"
    by (cases s; cases t; simp)+
  then show "heap_rep t bs = heap_rep s bs" "hblk t = hblk s" by (simp_all add: heap_rep_def)
qed

lemma pages_bound:
  assumes "unat (n::u64) \<le> 2 ^ 43" "16 dvd unat n"
  shows "unat (ALIGN_UP (heap_align n + HB) PAGE_SIZE div PAGE_SIZE) = (unat n + 4127) div 4096"
    "heap_align n = n"
proof -
  show al: "heap_align n = n" using assms by (intro heap_align_idem) auto
  have u: "unat (n + HB) = unat n + 32" using assms(1) by (simp add: unat_word_ariths)
  have "unat (ALIGN_UP (n + HB) 4096) = (unat n + 32 + 4095) div 4096 * 4096"
    using assms(1) u by (subst unat_ALIGN_UP_page) auto
  then show "unat (ALIGN_UP (heap_align n + HB) PAGE_SIZE div PAGE_SIZE) = (unat n + 4127) div 4096"
    by (simp add: al unat_div)
qed

lemma heap_ok_upd:
  assumes "heap_ok s bs" "same_pmm s t" "heap_rep t cs" "blks_ok cs" "no_adj cs" "cover cs \<subseteq> cover bs"
  shows "heap_ok t cs"
  using assms same_pmmD [OF assms(2)] unfolding heap_ok_def by (metis disjoint_iff subset_iff)

lemma heap_grow_ok:
  assumes ok: "heap_ok s bs" and n: "unat n \<le> 2 ^ 43" "16 dvd unat n"
    and run: "heap_grow n s = Some (a, t)"
  shows "\<exists>xs m. heap_ok t (xs @ [(a, m, True)]) \<and> n \<le> m \<and> live (xs @ [(a, m, True)]) = live bs \<and>
    heap_region t (xs @ [(a, m, True)]) = heap_region s bs \<and> same_geom s t"
proof -
  define w where "w = ALIGN_UP (heap_align n + HB) PAGE_SIZE div PAGE_SIZE"
  define c where "c = (unat n + 4127) div 4096"
  have w: "unat w = c" using pages_bound(1) [OF n] by (simp add: w_def c_def)
  have c: "0 < c" "c < 2 ^ 32" "unat n + 32 \<le> c * 4096" "c * 4096 < 2 ^ 44"
    using n(1) unfolding c_def by (auto simp: div_greater_zero_iff div_less_iff_less_mult)
  have wz: "w \<noteq> 0" using w c(1) by auto
  obtain m u where al: "vmm_alloc_pages c PAGE_FLAG_WRITABLE s = (m, u)" by fastforce
  have inv: "pmm_inv s" "direct_ok s" "heap_rep s bs" "blks_ok bs" "no_adj bs"
    "cover bs \<inter> fbytes (free_frames s) = {}" using ok by (simp_all add: heap_ok_def)
  define u1 where "u1 = upd_blk m (\<lambda>b. b\<lparr>hb_size := w * PAGE_SIZE - HB, hb_free := True, hb_next := 0, hb_prev := 0\<rparr>) u"
  define u2 where "u2 = heap_insert_block m u1"
  have m: "m \<noteq> 0" using run al w wz c by (auto simp: heap_grow_def Let_def w_def [symmetric])
  from vmm_alloc_pages_spec [OF inv(1,2) c(1) al] m
  have v: "unat m + c * 4096 \<le> 2 ^ 64" "4096 dvd unat m" "pmm_inv u" "direct_ok u"
     "{unat m..<unat m + c * 4096} \<subseteq> fbytes (free_frames s)"
     "fbytes (free_frames u) = fbytes (free_frames s) - {unat m..<unat m + c * 4096}"
     "pmm_state.more u = pmm_state.more s" "same_geom s u" by auto
  have sz: "unat (w * PAGE_SIZE - HB) = c * 4096 - 32"
  proof -
    have "unat (w * PAGE_SIZE) = c * 4096" using w c(4) by (simp add: unat_word_ariths)
    then show ?thesis using c(3) by (simp add: unat_sub word_le_nat_alt)
  qed
  let ?new = "(m, w * PAGE_SIZE - HB, True)"
  have ex: "ext ?new = {unat m..<unat m + c * 4096}" using sz c(3) by (simp add: ext_def)
  have bok: "blk_ok ?new"
  proof -
    have "16 dvd unat m" using dvd_trans [OF _ v(2), of 16] by simp
    moreover have "16 dvd c * 4096 - (32::nat)" by (intro dvd_diff_nat dvd_mult) simp_all
    ultimately show ?thesis using m v(1) sz c(3) by (simp add: blk_ok_def)
  qed
  have bs': "blks_ok (bs @ [?new])"
    using inv(4,6) bok ex v(5) by (auto simp: blks_ok_append blks_ok_Cons)
  have mb: "m \<notin> fst ` set bs" using blks_distinct [OF bs'] by auto
  have "heap_rep u1 bs"
    using inv(3) heap_rep_more [OF v(7)] mb by (auto simp: u1_def heap_rep_def dl_other)
  then have rep2: "heap_rep u2 (bs @ [?new])"
    unfolding u2_def using m mb by (intro insert_rep) (auto simp: u1_def)
  have sp: "same_pmm u u2" by (simp add: u2_def u1_def)
  note pm2 = same_pmmD [OF sp]
  have cov: "cover (bs @ [?new]) \<inter> fbytes (free_frames u2) = {}"
    using inv(6) ex v(6) pm2(2) by auto
  have reg: "cover (bs @ [?new]) \<union> fbytes (free_frames u2) = heap_region s bs"
    using ex v(5,6) pm2(2) by (auto simp: heap_region_def)
  have geo: "same_geom s u2" using same_geom_trans [OF v(8) pm2(5)] .
  let ?prev = "hb_prev (hblk u2 m)"
  let ?join = "?prev \<noteq> 0 \<and> hb_free (hblk u2 ?prev) \<and> ?prev + HB + hb_size (hblk u2 ?prev) = m"
  have res: "(a, t) = (if ?join then (hb_prev (hblk (heap_merge_if_possible ?prev u2) m), heap_merge_if_possible ?prev u2)
      else (m, u2))"
    using run al w wz c m
    by (auto simp: heap_grow_def Let_def w_def [symmetric] u1_def [symmetric] u2_def [symmetric] split: if_splits)
  have le: "n \<le> w * PAGE_SIZE - HB" using sz c(3) by (simp add: word_le_nat_alt)
  have pv: "?prev = last0 bs 0" using rep2 by (simp add: heap_rep_def dl_append)
  show ?thesis
  proof (cases ?join)
    case False
    have "no_adj (bs @ [?new])"
    proof (cases bs rule: rev_cases)
      case (snoc ys y)
      obtain b k g where y: "y = (b, k, g)" by (cases y)
      have "hblk u2 b = \<lparr>hb_size = k, hb_free = g, hb_next = m, hb_prev = last0 ys 0\<rparr>" "b \<noteq> 0" "?prev = b"
        using rep2 by (auto simp: heap_rep_def dl_append snoc y)
      then show ?thesis using False inv(5) by (auto simp: snoc y no_adj_append adjacent_def)
    qed simp
    then have "heap_ok u2 (bs @ [?new])"
      using v(3,4) pm2 rep2 bs' cov by (simp add: heap_ok_def)
    moreover have "a = m" "t = u2" using res False by auto
    ultimately show ?thesis using le reg geo unfolding heap_region_def by auto
  next
    case True
    then have "bs \<noteq> []" using pv by auto
    then obtain ys y where snoc: "bs = ys @ [y]" by (metis rev_exhaust)
    obtain b k g where y: "y = (b, k, g)" by (cases y)
    have yb: "hblk u2 b = \<lparr>hb_size = k, hb_free = g, hb_next = m, hb_prev = last0 ys 0\<rparr>" "b \<noteq> 0" "?prev = b"
      using rep2 by (auto simp: heap_rep_def dl_append snoc y)
    have g: "g" "b + HB + k = m" using True yb by auto
    have rep3: "heap_rep u2 (ys @ (b, k, True) # [?new])" using rep2 g by (simp add: snoc y)
    have na: "ys \<noteq> [] \<longrightarrow> \<not> (b_free (last ys) \<and> adjacent (last ys) (b, k, True))"
      using inv(5) g by (auto simp: snoc y no_adj_append)
    let ?cs = "ys @ [(b, k + (HB + (w * PAGE_SIZE - HB)), True)]"
    have ma: "merge_around ys (b, k, True) [?new] = ?cs"
    proof (cases ys rule: rev_cases)
      case (snoc zs z)
      then show ?thesis using na g(2) by (cases z) (auto simp: merge_around_def Let_def adjacent_def)
    qed (simp add: merge_around_def g(2))
    have rep4: "heap_rep (heap_merge_if_possible b u2) ?cs" using merge_rep [OF rep3] ma by simp
    have mm: "blks_ok ?cs \<and> cover ?cs = cover (bs @ [?new]) \<and> live ?cs = live (bs @ [?new])"
      using merge_around_ok [of ys "(b, k, True)" "[?new]"] bs' ma g(1) by (simp add: snoc y)
    have "no_adj ?cs"
      using inv(5) na g(1) by (auto simp: snoc y no_adj_append adjacent_def)
    then have okt: "heap_ok (heap_merge_if_possible b u2) ?cs"
      using same_pmmD [of u2 "heap_merge_if_possible b u2"] v(3,4) pm2 rep4 mm cov
      by (simp add: heap_ok_def)
    have stale: "hb_prev (hblk (heap_merge_if_possible b u2) m) = b"
    proof -
      let ?u3 = "merge_next b u2"
      have h3: "hblk ?u3 m = hblk u2 m"
        using yb g rep2 m by (auto simp: merge_next_def Let_def heap_rep_def dl_append)
      have rep5: "heap_rep ?u3 ?cs" using merge_next_rep [OF rep3] g(2) by simp
      have "merge_prev b ?u3 = ?u3"
      proof (cases ys rule: rev_cases)
        case (snoc zs z)
        obtain b' k' g' where z: "z = (b', k', g')" by (cases z)
        have "hb_prev (hblk ?u3 b) = b'" "hb_size (hblk ?u3 b') = k'" "hb_free (hblk ?u3 b') = g'"
          using rep5 by (auto simp: heap_rep_def dl_append snoc z)
        then show ?thesis using na by (auto simp: merge_prev_def Let_def snoc z adjacent_def)
      qed (use rep5 in \<open>simp add: heap_rep_def merge_prev_def\<close>)
      then show ?thesis using h3 yb by (simp add: heap_merge_if_possible_def)
    qed
    have "n \<le> k + (HB + (w * PAGE_SIZE - HB))"
    proof -
      have "blk_ok (b, k, True)" using bs' g(1) by (simp add: snoc y blks_ok_append blks_ok_Cons)
      from join_blk(3) [OF this bok g(2) [symmetric]] sz
      have "unat (k + (HB + (w * PAGE_SIZE - HB))) = unat k + 32 + (c * 4096 - 32)" by simp
      then show ?thesis using c(3) unfolding word_le_nat_alt by simp
    qed
    moreover have "a = b" "t = heap_merge_if_possible b u2" using res True yb(3) stale by auto
    moreover have "heap_region (heap_merge_if_possible b u2) ?cs = heap_region s bs" "same_geom s (heap_merge_if_possible b u2)"
      using mm reg geo same_pmmD(2,5) [of u2 "heap_merge_if_possible b u2"]
      by (simp_all add: heap_region_def) (blast intro: same_geom_trans)
    ultimately show ?thesis using okt mm by auto
  qed
qed


lemma take_rep:
  assumes ok: "heap_ok s (xs @ (a, n, True) # ys)" and k: "16 dvd unat k" "unat k \<le> 2 ^ 43" "k \<le> n"
  shows "heap_ok (upd_blk a (\<lambda>b. b\<lparr>hb_free := False\<rparr>) (heap_split_block a k s))
    (xs @ take_blk k (a, n, True) @ ys)"
proof -
  have inv: "heap_rep s (xs @ (a, n, True) # ys)" "blks_ok (xs @ (a, n, True) # ys)"
    "no_adj (xs @ (a, n, True) # ys)" using ok by (simp_all add: heap_ok_def)
  have kb: "unat k + 48 < 2 ^ 64" using k(2) by simp
  note tk = take_blk_ok [OF inv(2,3) k(1) kb k(3)]
  have al: "k = heap_align k" using heap_align_idem [of k] k(1) kb by simp
  obtain m bs where m: "split_list_at k (a, n, True) = (a, m, True) # bs"
    by (cases "n \<le> k + HB + 16") (auto simp: split_list_at_def)
  have "heap_rep (heap_split_block a k s) (xs @ (a, m, True) # (bs @ ys))"
    using split_rep [OF inv(1) al tk(5)] m by simp
  from upd_free_rep [OF this, of False] have R: "heap_rep (upd_blk a (\<lambda>b. b\<lparr>hb_free := False\<rparr>)
      (heap_split_block a k s)) (xs @ take_blk k (a, n, True) @ ys)"
    using m by (simp add: take_blk_def)
  show ?thesis by (rule heap_ok_upd [OF ok _ R tk(1,2)]) (simp, unfold tk(3), rule subset_refl)
qed

lemma find_SomeD: "find P xs = Some x \<Longrightarrow> \<exists>ys zs. xs = ys @ x # zs \<and> P x"
  by (auto simp: find_Some_iff dest!: nth_mem split_list)

lemma heap_find_fit_ok:
  assumes "heap_ok s bs"
  shows "heap_find_fit n s = Some (case find (\<lambda>b. b_free b \<and> n \<le> b_size b) bs of None \<Rightarrow> 0 | Some b \<Rightarrow> b_addr b)"
  using assms find_fit_list [of s 0 bs n] by (simp add: heap_ok_def heap_rep_def heap_find_fit_def)

lemma kmalloc_ok:
  assumes ok: "heap_ok s bs" and n: "n \<noteq> 0" "unat n \<le> 2 ^ 42" and run: "kmalloc n s = Some (p, t)"
  shows "\<exists>cs m. heap_ok t cs \<and> n \<le> m \<and> p - HB \<noteq> 0 \<and> (p - HB, m) \<notin> live bs \<and> live cs = insert (p - HB, m) (live bs) \<and>
    heap_region t cs = heap_region s bs \<and> same_geom s t"
proof -
  define k where "k = heap_align n"
  have nb: "unat n + 15 < 2 ^ 64" using n(2) by simp
  have k: "16 dvd unat k" "unat k \<le> 2 ^ 43" "n \<le> k"
    using heap_align_ge [OF nb] n(2) by (simp_all add: k_def)
  obtain a s1 where g: "(if heap_find_fit k s = Some 0 then heap_grow k s else Some (the (heap_find_fit k s), s)) = Some (a, s1)"
    "a \<noteq> 0 \<Longrightarrow> p = a + HB \<and> t = upd_blk a (\<lambda>b. b\<lparr>hb_free := False\<rparr>) (heap_split_block a k s1)"
    using run n(1) by (auto simp: kmalloc_def k_def [symmetric] Let_def heap_find_fit_ok [OF ok]
        split: option.splits if_splits)
  have "\<exists>xs ys m. heap_ok s1 (xs @ (a, m, True) # ys) \<and> k \<le> m \<and> live (xs @ (a, m, True) # ys) = live bs \<and>
      heap_region s1 (xs @ (a, m, True) # ys) = heap_region s bs \<and> same_geom s s1"
  proof (cases "find (\<lambda>b. b_free b \<and> k \<le> b_size b) bs")
    case None
    then have "heap_grow k s = Some (a, s1)" using g(1) heap_find_fit_ok [OF ok] by simp
    from heap_grow_ok [OF ok k(2,1) this] show ?thesis by fastforce
  next
    case (Some b)
    then obtain ys zs where b: "bs = ys @ b # zs" "b_free b" "k \<le> b_size b" using find_SomeD by fastforce
    then have "fst b \<noteq> 0" using ok by (auto simp: heap_ok_def heap_rep_def)
    then have "a = fst b" "s1 = s" using g(1) heap_find_fit_ok [OF ok] Some by auto
    then have "heap_ok s1 (ys @ (a, fst (snd b), True) # zs)" "live (ys @ (a, fst (snd b), True) # zs) = live bs"
      "heap_region s1 (ys @ (a, fst (snd b), True) # zs) = heap_region s bs" "same_geom s s1"
      using ok b by (cases b; auto)+
    then show ?thesis using b(3) by blast
  qed
  then obtain xs ys m where b: "heap_ok s1 (xs @ (a, m, True) # ys)" "k \<le> m" "live (xs @ (a, m, True) # ys) = live bs"
    "heap_region s1 (xs @ (a, m, True) # ys) = heap_region s bs" "same_geom s s1"
    by blast
  have ok1: "blks_ok (xs @ (a, m, True) # ys)" "no_adj (xs @ (a, m, True) # ys)"
    using b(1) by (simp_all add: heap_ok_def)
  have az: "a \<noteq> 0" using ok1(1) by (auto simp: blks_ok_append blks_ok_Cons blk_ok_def)
  have kb: "unat k + 48 < 2 ^ 64" using k(2) by simp
  obtain m' where l: "k \<le> m'" "live (xs @ take_blk k (a, m, True) @ ys) = insert (a, m') (live bs)"
    using take_blk_ok(4) [OF ok1 k(1) kb b(2)] b(3) by auto
  have "(a, x) \<notin> live bs" for x
  proof
    assume "(a, x) \<in> live bs"
    then have "(a, x) \<in> live xs \<union> live ys" using b(3) by simp
    then have "a \<in> fst ` set xs \<union> fst ` set ys" by (force simp: live_def)
    then show False using blks_distinct [OF ok1(1)] by auto
  qed
  moreover have "p - HB = a" "t = upd_blk a (\<lambda>b. b\<lparr>hb_free := False\<rparr>) (heap_split_block a k s1)"
    using g(2) [OF az] by simp_all
  moreover have "n \<le> m'" using k(3) l(1) by simp
  moreover have "same_pmm s1 t" using g(2) [OF az] by simp
  then have "heap_region t (xs @ take_blk k (a, m, True) @ ys) = heap_region s bs" "same_geom s t"
    using b(4,5) take_blk_ok(3) [OF ok1 k(1) kb b(2)] same_pmmD(2,5) [of s1 t]
    by (simp_all add: heap_region_def) (blast intro: same_geom_trans)
  ultimately show ?thesis using take_rep [OF b(1) k(1,2) b(2)] l(2) az by metis
qed

lemma in_list_ok:
  assumes "heap_ok s bs" "length bs \<le> 1000001"
  shows "heap_block_in_list a s \<longleftrightarrow> a \<in> fst ` set bs"
proof -
  have r: "dl (hblk s) 0 bs 0" "0 \<notin> fst ` set bs" "heap_head s = hd0 bs 0"
    using assms(1) by (auto simp: heap_ok_def heap_rep_def)
  show ?thesis using in_list_list [OF r(1,2), of 0 a] r assms(2) by (auto simp: heap_block_in_list_def)
qed

lemma merge_list_length: "length (merge_list bs) \<le> length bs"
  by (induction bs rule: merge_list.induct) (auto simp: Let_def)

lemma merge_around_length: "length (merge_around xs b ys) \<le> length (xs @ b # ys)"
  using merge_list_length [of "b # ys"] merge_list_length [of "last xs # b # ys"]
    merge_list_length [of "last xs # merge_list (b # ys)"]
  by (cases xs rule: rev_cases) (auto simp: merge_around_def Let_def)

lemma kfree_step:
  assumes ok: "heap_ok s bs" and a: "(a, n) \<in> live bs" "n \<noteq> 0"
    and t: "t = heap_merge_if_possible a (upd_blk a (\<lambda>b. b\<lparr>hb_free := True\<rparr>) s)"
  shows "a + HB \<noteq> 0 \<and> \<not> hb_free (hblk s a) \<and> same_pmm s t \<and>
    (\<exists>cs. heap_ok t cs \<and> live cs = live bs - {(a, n)} \<and> cover cs = cover bs \<and> length cs \<le> length bs)"
proof -
  have inv: "heap_rep s bs" "blks_ok bs" "no_adj bs" using ok by (simp_all add: heap_ok_def)
  obtain xs ys where bs: "bs = xs @ (a, n, False) # ys" using a(1) by (auto simp: live_def dest: split_list)
  have bok: "blk_ok (a, n, False)" using inv(2) by (simp add: bs blks_ok_append blks_ok_Cons)
  have "0 < unat n" using a(2) by (simp add: unat_gt_0)
  then have "unat (a + HB) = unat a + 32" using bok by (simp add: blk_ok_def unat_word_ariths)
  then have p: "a + HB \<noteq> 0" by (metis add_gr_0 less_numeral_extra(3) unat_0 zero_less_numeral)
  have fr: "\<not> hb_free (hblk s a)" using inv(1) by (simp add: bs heap_rep_def dl_append)
  let ?cs = "merge_around xs (a, n, True) ys"
  have e: "ext (a, n, True) = ext (a, n, False)" by (simp add: ext_def)
  have bt: "blks_ok (xs @ (a, n, True) # ys)"
    using inv(2) by (simp add: bs blks_ok_append blks_ok_Cons e) (simp add: blk_ok_def)
  have rep: "heap_rep t ?cs"
    using upd_free_rep [of s xs a n False ys True] inv(1) unfolding t by (intro merge_rep) (simp add: bs)
  have mo: "blks_ok ?cs" "cover ?cs = cover bs" "live ?cs = live (xs @ (a, n, True) # ys)"
    using merge_around_ok [OF bt] by (simp_all add: bs e)
  have "no_adj ?cs" using inv(3) by (intro merge_around_no_adj) (auto simp: bs no_adj_append no_adj_Cons)
  then have "heap_ok t ?cs" using mo rep by (intro heap_ok_upd [OF ok]) (auto simp: t)
  moreover have "live (xs @ (a, n, True) # ys) = live bs - {(a, n)}"
    using blks_distinct [OF inv(2)] by (auto simp: bs live_def) (force+)
  ultimately show ?thesis using p fr mo(2,3) merge_around_length [of xs "(a, n, True)" ys] by (auto simp: t bs)
qed

lemma kfree_ok:
  assumes ok: "heap_ok s bs" and a: "(a, n) \<in> live bs" "n \<noteq> 0" and len: "length bs \<le> 1000001"
  shows "\<exists>t cs. kfree (a + HB) s = Some t \<and> heap_ok t cs \<and> live cs = live bs - {(a, n)} \<and>
    cover cs = cover bs \<and> length cs \<le> length bs \<and> same_pmm s t"
proof -
  have "a \<in> fst ` set bs" using a(1) by (force simp: live_def)
  then show ?thesis
    using kfree_step [OF ok a refl] in_list_ok [OF ok len, of a] by (auto simp: kfree_def)
qed

lemma kfree_some:
  assumes "heap_ok s bs" "(a, n) \<in> live bs" "n \<noteq> 0" "kfree (a + HB) s = Some t"
  shows "\<exists>cs. heap_ok t cs \<and> live cs = live bs - {(a, n)} \<and> cover cs = cover bs \<and> same_pmm s t"
  using kfree_step [OF assms(1-3) refl] assms(4) by (auto simp: kfree_def split: if_splits)

lemma kfree_panics:
  assumes "heap_ok s bs" "p \<noteq> 0" "p - HB \<notin> fst ` live bs"
  shows "kfree p s = None"
proof (cases "heap_block_in_list (p - HB) s")
  case True
  have r: "dl (hblk s) 0 bs 0" "0 \<notin> fst ` set bs" "heap_head s = hd0 bs 0"
    using assms(1) by (auto simp: heap_ok_def heap_rep_def)
  have "p - HB \<in> fst ` set (take 1000001 bs)"
    using True in_list_list [OF r(1,2), of 0 "p - HB"] r(3) by (auto simp: heap_block_in_list_def split: if_splits)
  then have "p - HB \<in> fst ` set bs" using set_take_subset by fastforce
  then obtain n f xs ys where b: "bs = xs @ (p - HB, n, f) # ys" by (auto dest: split_list)
  then have "f" using assms(3) by (force simp: live_def)
  then have "hb_free (hblk s (p - HB))" using r(1) by (simp add: b dl_append)
  then show ?thesis using assms(2) by (simp add: kfree_def Let_def)
next
  case False
  then show ?thesis using assms(2) by (simp add: kfree_def Let_def)
qed

end
