(* ===== verification/KheapProps.thy ===== *)
theory KheapProps
  imports KheapInv
begin

text \<open>
  The contract of the kernel heap towards its clients, the heap as an implementation of it, and the
  heap's properties.
\<close>

section \<open>The allocator contract\<close>

text \<open>
  \<open>live\<close> is the set of allocated blocks (identifier and capacity), \<open>at\<close> the identifier behind a
  pointer; a client may rely on getting a block of its own that is large enough, and on release
  taking away exactly that block.
\<close>

locale block_allocator =
  fixes inv :: "'s \<Rightarrow> bool" and live_blocks :: "'s \<Rightarrow> (u64 \<times> u64) set" and bytes_of :: "u64 \<times> u64 \<Rightarrow> nat set"
    and alloc :: "u64 \<Rightarrow> 's \<Rightarrow> (u64 \<times> 's) option" and release :: "u64 \<Rightarrow> 's \<Rightarrow> 's option"
    and limit :: nat and can_release :: "'s \<Rightarrow> bool"
  assumes live_disjoint: "inv s \<Longrightarrow> b \<in> live_blocks s \<Longrightarrow> c \<in> live_blocks s \<Longrightarrow> b \<noteq> c \<Longrightarrow>
      bytes_of b \<inter> bytes_of c = {}"
    and alloc_fresh: "inv s \<Longrightarrow> n \<noteq> 0 \<Longrightarrow> unat n \<le> limit \<Longrightarrow> alloc n s = Some (p, t) \<Longrightarrow>
      inv t \<and> (\<exists>m \<ge> n. (p - HB, m) \<notin> live_blocks s \<and> live_blocks t = insert (p - HB, m) (live_blocks s))"
    and release_live: "inv s \<Longrightarrow> can_release s \<Longrightarrow> (a, n) \<in> live_blocks s \<Longrightarrow> n \<noteq> 0 \<Longrightarrow>
      \<exists>t. release (a + HB) s = Some t \<and> inv t \<and> live_blocks t = live_blocks s - {(a, n)}"
    and release_other: "inv s \<Longrightarrow> p \<noteq> 0 \<Longrightarrow> p - HB \<notin> fst ` live_blocks s \<Longrightarrow> release p s = None"
begin

lemma alloc_release:
  assumes "inv s" "n \<noteq> 0" "unat n \<le> limit" "alloc n s = Some (p, t)" "can_release t"
  shows "\<exists>u. release p t = Some u \<and> inv u \<and> live_blocks u = live_blocks s"
proof -
  obtain m where m: "inv t" "n \<le> m" "(p - HB, m) \<notin> live_blocks s"
    "live_blocks t = insert (p - HB, m) (live_blocks s)"
    using alloc_fresh [OF assms(1-4)] by blast
  have "m \<noteq> 0" using m(2) assms(2) by (auto simp: word_gt_0)
  then show ?thesis using release_live [OF m(1) assms(5), of "p - HB" m] m(3,4) by auto
qed

lemma alloc_disjoint:
  assumes "inv s" "n \<noteq> 0" "unat n \<le> limit" "alloc n s = Some (p, t)"
  shows "\<exists>m \<ge> n. (p - HB, m) \<in> live_blocks t \<and> (\<forall>b \<in> live_blocks s. b \<in> live_blocks t \<and> bytes_of b \<inter> bytes_of (p - HB, m) = {})"
proof -
  obtain m where m: "inv t" "n \<le> m" "(p - HB, m) \<notin> live_blocks s"
    "live_blocks t = insert (p - HB, m) (live_blocks s)"
    using alloc_fresh [OF assms(1-4)] by blast
  have "bytes_of b \<inter> bytes_of (p - HB, m) = {}" if "b \<in> live_blocks s" for b
    using that m live_disjoint [OF m(1), of b "(p - HB, m)"] by auto
  then show ?thesis using m(2,4) by (intro exI [of _ m]) auto
qed

end

text \<open>The blocks behind a state's headers; on a consistent heap they are unique.\<close>

definition heap_live :: "'a heap_state_scheme \<Rightarrow> (u64 \<times> u64) set" where
  "heap_live s = {b. \<exists>bs. heap_ok s bs \<and> b \<in> live bs}"

definition blk_bytes :: "u64 \<times> u64 \<Rightarrow> nat set" where
  "blk_bytes b = {unat (fst b)..<unat (fst b) + 32 + unat (snd b)}"

definition few_blocks :: "'a heap_state_scheme \<Rightarrow> bool" where
  "few_blocks s \<longleftrightarrow> (\<exists>bs. heap_rep s bs \<and> length bs \<le> 1000001)"

lemma heap_live_eq: "heap_ok s bs \<Longrightarrow> heap_live s = live bs"
proof -
  assume ok: "heap_ok s bs"
  have "cs = bs" if "heap_ok s cs" for cs
    using heap_rep_unique [of s cs bs] ok that by (simp add: heap_ok_def)
  then show ?thesis unfolding heap_live_def using ok by blast
qed

interpretation kh: block_allocator heap_inv heap_live blk_bytes kmalloc kfree "2 ^ 42" few_blocks
proof
  fix s :: "'a heap_state_scheme" and b c
  assume "heap_inv s" and bc: "b \<in> heap_live s" "c \<in> heap_live s" "b \<noteq> c"
  then obtain bs where ok: "heap_ok s bs" by (auto simp: heap_inv_def)
  have d: "blk_bytes x = ext (fst x, snd x, False)" for x by (simp add: blk_bytes_def ext_def)
  have "(fst b, snd b, False) \<in> set bs" "(fst c, snd c, False) \<in> set bs"
    using bc heap_live_eq [OF ok] by (auto simp: live_def)
  moreover have "sorted_wrt (\<lambda>b c. ext b \<inter> ext c = {}) bs" using ok by (simp add: heap_ok_def blks_ok_def)
  ultimately show "blk_bytes b \<inter> blk_bytes c = {}"
    using bc(3) unfolding d sorted_wrt_iff_nth_less in_set_conv_nth
    by (metis inf_commute linorder_neqE_nat prod.collapse prod.inject)
next
  fix s t :: "'a heap_state_scheme" and n p
  assume "heap_inv s" and n: "n \<noteq> (0::u64)" "unat n \<le> 2 ^ 42" and run: "kmalloc n s = Some (p, t)"
  then obtain bs where ok: "heap_ok s bs" by (auto simp: heap_inv_def)
  from kmalloc_ok [OF this n run] obtain cs m where m: "heap_ok t cs" "n \<le> m" "(p - HB, m) \<notin> live bs"
    "live cs = insert (p - HB, m) (live bs)" by blast
  then show "heap_inv t \<and> (\<exists>m \<ge> n. (p - HB, m) \<notin> heap_live s \<and> heap_live t = insert (p - HB, m) (heap_live s))"
    unfolding heap_inv_def heap_live_eq [OF ok] heap_live_eq [OF m(1)] by blast
next
  fix s :: "'a heap_state_scheme" and a n
  assume "heap_inv s" and f: "few_blocks s" and an: "(a, n) \<in> heap_live s" "n \<noteq> 0"
  then obtain bs where ok: "heap_ok s bs" by (auto simp: heap_inv_def)
  have "length bs \<le> 1000001" using f ok heap_rep_unique by (auto simp: few_blocks_def heap_ok_def)
  from kfree_ok [OF ok _ an(2) this, of a] an(1) heap_live_eq [OF ok]
  obtain t cs where "kfree (a + HB) s = Some t" "heap_ok t cs" "live cs = live bs - {(a, n)}" by auto
  then show "\<exists>t. kfree (a + HB) s = Some t \<and> heap_inv t \<and> heap_live t = heap_live s - {(a, n)}"
    using heap_live_eq [OF ok] heap_live_eq [of t cs] by (auto simp: heap_inv_def)
next
  fix s :: "'a heap_state_scheme" and p
  assume "heap_inv s" and p: "p \<noteq> 0" "p - HB \<notin> fst ` heap_live s"
  then obtain bs where ok: "heap_ok s bs" by (auto simp: heap_inv_def)
  show "kfree p s = None" using kfree_panics [OF ok p(1)] p(2) heap_live_eq [OF ok] by simp
qed

section \<open>When an allocation succeeds\<close>

text \<open>
  \<open>heap_pages n\<close> is the number of pages \<open>heap_grow\<close> asks for; \<open>has_pages\<close> says that a zone has a
  run of that many free pages.
\<close>

definition heap_pages :: "u64 \<Rightarrow> nat" where
  "heap_pages n = (unat (heap_align n) + 4127) div 4096"

definition has_pages :: "nat \<Rightarrow> 'a pmm_state_scheme \<Rightarrow> bool" where
  "has_pages c s \<longleftrightarrow> (\<exists>st. free_run s PMM_ZONE_NORMAL st c \<or> free_run s PMM_ZONE_LOW st c)"

definition has_fit :: "u64 \<Rightarrow> blk list \<Rightarrow> bool" where
  "has_fit n bs \<longleftrightarrow> (\<exists>b \<in> set bs. b_free b \<and> heap_align n \<le> b_size b)"

lemma vmm_alloc_zero:
  assumes "pmm_inv s" "direct_ok s" "0 < c"
  shows "fst (vmm_alloc_pages c fl s) = 0 \<longleftrightarrow> \<not> has_pages c s"
proof -
  obtain p t where p: "pmm_alloc_pages c s = (p, t)" by fastforce
  have "X86_64_PHYS_TO_VIRT p \<noteq> 0" if pz: "p \<noteq> 0"
  proof -
    obtain z st where st: "free_run s z st c" "p = pmm_index_to_page s st"
      using alloc_pages_spec [OF assms(1,3) p] pz by blast
    then have "st < total_pages s" using assms(3) by (auto simp: free_run_def free_set_def)
    from unat_virt(1) [OF assms(1,2) this] st(2) show ?thesis by (auto simp: vbase_def)
  qed
  then show ?thesis
    using alloc_pages_spec [OF assms(1,3) p] by (auto simp: vmm_alloc_pages_def p has_pages_def)
qed

lemma heap_grow_None:
  assumes "heap_ok s bs" "unat n \<le> 2 ^ 43" "16 dvd unat n"
  shows "heap_grow n s = None \<longleftrightarrow> \<not> has_pages (heap_pages n) s"
proof -
  have inv: "pmm_inv s" "direct_ok s" using assms(1) by (simp_all add: heap_ok_def)
  define w where "w = ALIGN_UP (heap_align n + HB) PAGE_SIZE div PAGE_SIZE"
  have w: "unat w = heap_pages n"
    using pages_bound [OF assms(2,3)] by (simp add: w_def heap_pages_def)
  have c: "0 < heap_pages n" "heap_pages n < 2 ^ 32"
    using assms(2) pages_bound(2) [OF assms(2,3)]
    by (auto simp: heap_pages_def div_greater_zero_iff div_less_iff_less_mult)
  have wz: "w \<noteq> 0" using w c(1) by auto
  have "heap_grow n s = None \<longleftrightarrow> fst (vmm_alloc_pages (heap_pages n) PAGE_FLAG_WRITABLE s) = 0"
    using w wz c(2) by (simp add: heap_grow_def w_def [symmetric] Let_def split_beta)
  then show ?thesis using vmm_alloc_zero [OF inv c(1)] by simp
qed

lemma kmalloc_None:
  assumes ok: "heap_ok s bs" and n: "n \<noteq> 0" "unat n \<le> 2 ^ 42"
  shows "kmalloc n s = None \<longleftrightarrow> \<not> has_fit n bs \<and> \<not> has_pages (heap_pages n) s"
proof -
  define k where "k = heap_align n"
  have nb: "unat n + 15 < 2 ^ 64" using n(2) by simp
  have k: "16 dvd unat k" "unat k \<le> 2 ^ 43" "heap_align k = k"
    using heap_align_ge [OF nb] n(2) heap_align_idem [of k] by (simp_all add: k_def)
  have hp: "heap_pages n = heap_pages k" using k(3) by (simp add: heap_pages_def k_def)
  have kz: "kmalloc n s = None \<longleftrightarrow> heap_find_fit k s = None \<or> (heap_find_fit k s = Some 0 \<and> heap_grow k s = None)"
    using n(1) by (auto simp: kmalloc_def k_def [symmetric] Let_def split: option.splits prod.splits)
  have r: "0 \<notin> fst ` set bs" using ok by (simp add: heap_ok_def heap_rep_def)
  have "has_fit n bs \<longleftrightarrow> heap_find_fit k s \<noteq> Some 0"
  proof (cases "find (\<lambda>b. b_free b \<and> k \<le> b_size b) bs")
    case None
    have "\<not> has_fit n bs" using None [unfolded find_None_iff] by (auto simp: has_fit_def k_def)
    then show ?thesis using None heap_find_fit_ok [OF ok, of k] by simp
  next
    case (Some b)
    then have "b \<in> set bs" "b_free b" "k \<le> b_size b" using find_SomeD [OF Some] by auto
    then show ?thesis
      using r heap_find_fit_ok [OF ok, of k] Some by (auto simp: has_fit_def k_def [symmetric])
  qed
  then show ?thesis
    using kz heap_find_fit_ok [OF ok, of k] heap_grow_None [OF ok k(2,1)] hp by auto
qed

section \<open>Payload memory\<close>

text \<open>An allocation does not touch the bytes of the blocks that exist.\<close>

lemma vmm_alloc_mem:
  assumes "pmm_inv s" "direct_ok s" "0 < c" "vmm_alloc_pages c fl s = (m, t)"
    and x: "unat x \<notin> fbytes (free_frames s)"
  shows "pmem t (X86_64_VIRT_TO_PHYS x) = pmem s (X86_64_VIRT_TO_PHYS x)"
proof -
  obtain p u where p: "pmm_alloc_pages c s = (p, u)" by fastforce
  show ?thesis
  proof (cases "p = 0")
    case True
    then have "u = s" using alloc_pages_spec [OF assms(1,3) p] by auto
    then show ?thesis using True assms(4) p by (auto simp: vmm_alloc_pages_def memory_oom_inc_vmm_def)
  next
    case False
    then have mt: "m = X86_64_PHYS_TO_VIRT p" "t = u" using assms(4) p by (auto simp: vmm_alloc_pages_def)
    have pm: "pmem u = mem_set (pmem s) p 0 (c * 4096)"
      using alloc_pages_spec [OF assms(1,3) p] False by blast
    have mz: "m \<noteq> 0" using vmm_alloc_zero [OF assms(1-3), of fl] alloc_pages_spec [OF assms(1,3) p] False assms(4)
      by (auto simp: has_pages_def)
    have r: "{unat m..<unat m + c * 4096} \<subseteq> fbytes (free_frames s)" "unat m + c * 4096 \<le> 2 ^ 64"
      using vmm_alloc_pages_spec [OF assms(1-4)] mz by auto
    have "X86_64_VIRT_TO_PHYS x - p = x - m" by (simp add: mt X86_64_PHYS_TO_VIRT_def X86_64_VIRT_TO_PHYS_def)
    moreover have "\<not> unat (x - m) < c * 4096"
    proof
      assume l: "unat (x - m) < c * 4096"
      have "unat m + unat (x - m) < 2 ^ 64" using l r(2) by simp
      then have "unat x = unat m + unat (x - m)" using unat_word_ariths(1) [of m "x - m"] by simp
      then have "unat x \<in> {unat m..<unat m + c * 4096}" using l by simp
      then show False using r(1) x by blast
    qed
    ultimately show ?thesis by (simp add: mt(2) pm mem_set_def)
  qed
qed

lemma kmalloc_mem_outside:
  assumes ok: "heap_ok s bs" and n: "unat n \<le> 2 ^ 42" and run: "kmalloc n s = Some (p, t)"
    and x: "unat x \<notin> fbytes (free_frames s)"
  shows "pmem t (X86_64_VIRT_TO_PHYS x) = pmem s (X86_64_VIRT_TO_PHYS x)"
proof (cases "n = 0")
  case False
  define k where "k = heap_align n"
  have nb: "unat n + 15 < 2 ^ 64" using n by simp
  have k: "16 dvd unat k" "unat k \<le> 2 ^ 43"
    using heap_align_ge [OF nb] n by (simp_all add: k_def)
  obtain a s1 where g: "(if heap_find_fit k s = Some 0 then heap_grow k s else Some (the (heap_find_fit k s), s)) = Some (a, s1)"
    "same_pmm s1 t"
    using run False by (auto simp: kmalloc_def k_def [symmetric] Let_def heap_find_fit_ok [OF ok]
        split: option.splits if_splits)
  have "pmem s1 (X86_64_VIRT_TO_PHYS x) = pmem s (X86_64_VIRT_TO_PHYS x)"
  proof (cases "heap_find_fit k s = Some 0")
    case True
    then have gr: "heap_grow k s = Some (a, s1)" using g(1) by simp
    define w where "w = ALIGN_UP (heap_align k + HB) PAGE_SIZE div PAGE_SIZE"
    have w: "unat w = (unat k + 4127) div 4096" using pages_bound(1) [OF k(2,1)] by (simp add: w_def)
    then have wb: "0 < unat w" "unat w < 2 ^ 32"
      using k(2) by (auto simp: div_greater_zero_iff div_less_iff_less_mult)
    then have wz: "w \<noteq> 0" by auto
    obtain m u where al: "vmm_alloc_pages (unat w) PAGE_FLAG_WRITABLE s = (m, u)" by fastforce
    have sp: "same_pmm u s1"
      using gr al wz wb(2) by (auto simp: heap_grow_def Let_def w_def [symmetric] split: if_splits)
    have inv: "pmm_inv s" "direct_ok s" using ok by (simp_all add: heap_ok_def)
    from vmm_alloc_mem [OF inv wb(1) al x] show ?thesis using same_pmmD(4) [OF sp] by simp
  next
    case False
    then show ?thesis using g(1) by simp
  qed
  then show ?thesis using same_pmmD(4) [OF g(2)] by simp
qed (use run in \<open>simp add: kmalloc_def\<close>)

lemma kmalloc_mem:
  assumes "heap_ok s bs" "unat n \<le> 2 ^ 42" "kmalloc n s = Some (p, t)" "unat x \<in> cover bs"
  shows "pmem t (X86_64_VIRT_TO_PHYS x) = pmem s (X86_64_VIRT_TO_PHYS x)"
proof (rule kmalloc_mem_outside [OF assms(1-3)])
  show "unat x \<notin> fbytes (free_frames s)" using assms(1,4) by (auto simp: heap_ok_def)
qed

section \<open>Starting the heap\<close>

lemma heap_init_ok:
  fixes s :: "'a heap_state_scheme"
  assumes "pmm_inv s" "direct_ok s" "heap_head s = 0" "n \<noteq> 0" "unat n < 2 ^ 32" "has_pages (unat n) s"
  shows "\<exists>m t. heap_init n s = Some (0, t) \<and> heap_ok t [(m, n * PAGE_SIZE - HB, True)]"
proof -
  obtain m u where al: "vmm_alloc_pages (unat n) PAGE_FLAG_WRITABLE s = (m, u)" by fastforce
  have np: "0 < unat n" using assms(4) by (simp add: unat_gt_0)
  have m: "m \<noteq> 0" using vmm_alloc_zero [OF assms(1,2) np, of PAGE_FLAG_WRITABLE] assms(6) al by simp
  from vmm_alloc_pages_spec [OF assms(1,2) np al] m
  have v: "unat m + unat n * 4096 \<le> 2 ^ 64" "4096 dvd unat m" "pmm_inv u" "direct_ok u"
     "fbytes (free_frames u) = fbytes (free_frames s) - {unat m..<unat m + unat n * 4096}" by auto
  have sz: "unat (n * PAGE_SIZE - HB) = unat n * 4096 - 32"
  proof -
    have "unat (n * PAGE_SIZE) = unat n * 4096" using assms(5) by (simp add: unat_word_ariths)
    then show ?thesis using np by (simp add: unat_sub word_le_nat_alt)
  qed
  let ?new = "(m, n * PAGE_SIZE - HB, True)"
  have "16 dvd unat m" using dvd_trans [OF _ v(2), of 16] by simp
  moreover have "16 dvd unat n * 4096 - (32::nat)" by (intro dvd_diff_nat dvd_mult) simp_all
  ultimately have bok: "blk_ok ?new" using m v(1) sz np by (simp add: blk_ok_def)
  have ex: "ext ?new = {unat m..<unat m + unat n * 4096}" using sz np by (simp add: ext_def)
  let ?t = "(upd_blk m (\<lambda>b. b\<lparr>hb_size := n * PAGE_SIZE - HB, hb_free := True, hb_next := 0, hb_prev := 0\<rparr>) u)
    \<lparr>heap_head := m, heap_tail := m\<rparr>"
  have sp: "same_pmm u ?t" by simp
  have "heap_init n s = Some (0, ?t)"
    using assms(3-5) al m by (simp add: heap_init_def)
  moreover have "heap_ok ?t [?new]"
    using same_pmmD [OF sp] v(3-5) bok ex m
    by (simp add: heap_ok_def heap_rep_def blks_ok_Cons)
  ultimately show ?thesis by blast
qed


section \<open>Properties\<close>

text \<open>A small machine with four free pages at 16 MiB, and its heap of one page.\<close>

definition heap_blank :: heap_state where
  "heap_blank = paging_state.extend paging_blank
     \<lparr>hblk = (\<lambda>_. \<lparr>hb_size = 0, hb_free = False, hb_next = 0, hb_prev = 0\<rparr>), heap_head = 0, heap_tail = 0\<rparr>"

definition heap_pmm_demo :: heap_state where
  "heap_pmm_demo = (snd (pmm_init 0x1000000 0x1004000 0x200000 heap_blank))\<lparr>heap_head := 0, heap_tail := 0\<rparr>"

definition heap_demo :: heap_state where
  "heap_demo = snd (the (heap_init 1 heap_pmm_demo))"

lemma heap_pmm_demo_ok:
  "pmm_inv heap_pmm_demo" "direct_ok heap_pmm_demo" "heap_head heap_pmm_demo = 0" "has_pages 1 heap_pmm_demo"
proof -
  obtain t where t: "pmm_init 0x1000000 0x1004000 0x200000 heap_blank = (0, t)" "pmm_inv t"
    "total_pages t = 4" "memory_start t = 0x1000000" "free_set t = {..<4}"
    using pmm_init_ok [OF demo_bounds(1), of "0x200000" heap_blank] demo_bounds(2) by (auto simp: ALIGN_UP_def)
  have sp: "same_pmm t heap_pmm_demo" by (simp add: heap_pmm_demo_def t(1))
  show inv: "pmm_inv heap_pmm_demo" using same_pmmD(1) [OF sp] t(2) by simp
  have e: "memory_start heap_pmm_demo = 0x1000000" "total_pages heap_pmm_demo = 4" "free_set heap_pmm_demo = free_set t"
    using t(3,4) by (simp_all add: heap_pmm_demo_def t(1) free_set_def pmm_bitmap_test_def)
  have "unat (memory_end heap_pmm_demo) = 0x1004000"
    using inv e by (simp add: pmm_inv_def geom_ok_def)
  then show "direct_ok heap_pmm_demo" by (simp add: direct_ok_def word_le_nat_alt)
  show "heap_head heap_pmm_demo = 0" by (simp add: heap_pmm_demo_def)
  have "page_zone heap_pmm_demo 0 = PMM_ZONE_NORMAL"
    by (simp add: page_zone_def pmm_index_to_page_def e pmm_zone_for_addr_def)
  then have "free_run heap_pmm_demo PMM_ZONE_NORMAL 0 1" by (simp add: free_run_def e t(5))
  then show "has_pages 1 heap_pmm_demo" unfolding has_pages_def by blast
qed

lemma heap_demo_ok: "\<exists>m. heap_ok heap_demo [(m, 4064, True)]"
proof -
  have "unat (1::u64) = 1" by simp
  then obtain m t where "heap_init 1 heap_pmm_demo = Some (0, t)" "heap_ok t [(m, 1 * PAGE_SIZE - HB, True)]"
    using heap_init_ok [OF heap_pmm_demo_ok(1-3), of 1] heap_pmm_demo_ok(4) by auto
  then show ?thesis by (auto simp: heap_demo_def)
qed

lemma heap_demo_facts:
  shows "heap_inv heap_demo" "heap_live heap_demo = {}" "\<exists>p t. kmalloc 100 heap_demo = Some (p, t)"
proof -
  obtain m where ok: "heap_ok heap_demo [(m, 4064, True)]" using heap_demo_ok by blast
  then show "heap_inv heap_demo" by (auto simp: heap_inv_def)
  show "heap_live heap_demo = {}" using heap_live_eq [OF ok] by simp
  have "unat (heap_align 100) = 112" by (subst heap_align_16) simp_all
  then have "has_fit 100 [(m, 4064, True)]" by (simp add: has_fit_def word_le_nat_alt)
  then have "kmalloc 100 heap_demo \<noteq> None" using kmalloc_None [OF ok, of 100] by simp
  then show "\<exists>p t. kmalloc 100 heap_demo = Some (p, t)" by auto
qed

text \<open>
  C4: allocation. On a consistent heap, when \<open>kmalloc\<close> returns for a request of 1 byte to 4 TiB, the
  heap stays consistent and gains exactly one allocated block: the one whose header precedes the
  returned pointer, with at least the requested capacity, which overlaps no block allocated before.
\<close>
theorem kmalloc_correct:
  assumes "heap_inv s" "n \<noteq> 0" "unat n \<le> 2 ^ 42" "kmalloc n s = Some (p, t)"
  shows "heap_inv t \<and> (\<exists>m \<ge> n. (p - HB, m) \<notin> heap_live s \<and>
    heap_live t = insert (p - HB, m) (heap_live s) \<and>
    (\<forall>b \<in> heap_live s. blk_bytes b \<inter> blk_bytes (p - HB, m) = {}))"
proof -
  obtain m where m: "heap_inv t" "n \<le> m" "(p - HB, m) \<notin> heap_live s"
    "heap_live t = insert (p - HB, m) (heap_live s)"
    using kh.alloc_fresh [OF assms] by blast
  have "blk_bytes b \<inter> blk_bytes (p - HB, m) = {}" if "b \<in> heap_live s" for b
    using that m kh.live_disjoint [OF m(1), of b "(p - HB, m)"] by auto
  then show ?thesis using m by blast
qed

theorem kmalloc_correct_witness:
  "\<exists>p t m. kmalloc 100 heap_demo = Some (p, t) \<and> heap_inv t \<and> 100 \<le> m \<and> heap_live t = {(p - HB, m)}"
proof -
  obtain p t where r: "kmalloc 100 heap_demo = Some (p, t)" using heap_demo_facts(3) by blast
  have b: "(100::u64) \<noteq> 0" "unat (100::u64) \<le> 2 ^ 42" by simp_all
  from kmalloc_correct [OF heap_demo_facts(1) b r] r heap_demo_facts(2) show ?thesis by auto
qed

text \<open>
  C10: when allocation succeeds. On a consistent heap with block list \<open>bs\<close>, the search for a free block
  terminates, and \<open>kmalloc\<close> returns a block if and only if some free block is large enough or one
  of the two zones has a run of free pages for it; otherwise the kernel panics.
\<close>
theorem kmalloc_returns:
  assumes "heap_ok s bs" "n \<noteq> 0" "unat n \<le> 2 ^ 42"
  shows "(\<exists>p t. kmalloc n s = Some (p, t)) \<longleftrightarrow> has_fit n bs \<or> has_pages (heap_pages n) s"
  using kmalloc_None [OF assms] by (cases "kmalloc n s") auto

theorem kmalloc_returns_witness: "\<exists>p t. kmalloc 100 heap_demo = Some (p, t)"
proof -
  obtain m where ok: "heap_ok heap_demo [(m, 4064, True)]" using heap_demo_ok by blast
  have b: "(100::u64) \<noteq> 0" "unat (100::u64) \<le> 2 ^ 42" by simp_all
  have "unat (heap_align 100) = 112" by (subst heap_align_16) simp_all
  then have "has_fit 100 [(m, 4064, True)]" by (simp add: has_fit_def word_le_nat_alt)
  then show ?thesis using kmalloc_returns [OF ok b] by blast
qed

text \<open>
  C11: release. On a consistent heap of at most 1000001 blocks, \<open>kfree\<close> of an allocated block returns,
  keeps the heap consistent and takes away exactly that block. A non-null pointer that is not that
  of an allocated block (a second release, a pointer into a block) is a panic.
\<close>
theorem kfree_correct:
  assumes "heap_inv s" "few_blocks s"
  shows "((a, n) \<in> heap_live s \<longrightarrow> n \<noteq> 0 \<longrightarrow>
      (\<exists>t. kfree (a + HB) s = Some t \<and> heap_inv t \<and> heap_live t = heap_live s - {(a, n)})) \<and>
    (p \<noteq> 0 \<longrightarrow> p - HB \<notin> fst ` heap_live s \<longrightarrow> kfree p s = None) \<and> kfree 0 s = Some s"
  using kh.release_live [OF assms, of a n] kh.release_other [OF assms(1), of p] by (simp add: kfree_def)

lemma heap_demo_few: "few_blocks heap_demo"
  using heap_demo_ok unfolding few_blocks_def heap_ok_def by force

theorem kfree_correct_witness: "kfree 0x1234 heap_demo = None"
  using kfree_correct [OF heap_demo_facts(1) heap_demo_few, of 0 0 "0x1234"] heap_demo_facts(2) by simp

text \<open>
  allocating and releasing is a round trip: the released pointer is accepted and the set of
  allocated blocks is what it was.
\<close>

theorem kmalloc_kfree_roundtrip:
  assumes "heap_inv s" "n \<noteq> 0" "unat n \<le> 2 ^ 42" "kmalloc n s = Some (p, t)" "few_blocks t"
  shows "\<exists>u. kfree p t = Some u \<and> heap_inv u \<and> heap_live u = heap_live s"
  using kh.alloc_release [OF assms] .


lemma heap_demo_malloc: "\<exists>p t. kmalloc 100 heap_demo = Some (p, t) \<and> few_blocks t"
proof -
  obtain m where ok: "heap_ok heap_demo [(m, 4064, True)]" using heap_demo_ok by blast
  then have mz: "m \<noteq> 0" by (auto simp: heap_ok_def heap_rep_def)
  define k where "k = heap_align 100"
  have k: "unat k = 112" unfolding k_def by (subst heap_align_16) simp_all
  then have le: "k \<le> 4064" "16 dvd unat k" "unat k \<le> 2 ^ 43" by (simp_all add: word_le_nat_alt)
  let ?t = "upd_blk m (\<lambda>b. b\<lparr>hb_free := False\<rparr>) (heap_split_block m k heap_demo)"
  have "heap_ok heap_demo ([] @ (m, 4064, True) # [])" using ok by simp
  from take_rep [OF this le(2,3,1)] have "heap_rep ?t (take_blk k (m, 4064, True))"
    by (simp add: heap_ok_def)
  moreover have "length (take_blk k (m, 4064, True)) \<le> 2"
    by (simp add: take_blk_def split_list_at_def)
  ultimately have "few_blocks ?t"
    unfolding few_blocks_def by (intro exI [of _ "take_blk k (m, 4064, True)"]) simp
  moreover have "kmalloc 100 heap_demo = Some (m + HB, ?t)"
    using heap_find_fit_ok [OF ok, of k] le(1) mz by (simp add: kmalloc_def k_def [symmetric] Let_def)
  ultimately show ?thesis by blast
qed

theorem kmalloc_kfree_roundtrip_witness:
  "\<exists>p t u. kmalloc 100 heap_demo = Some (p, t) \<and> kfree p t = Some u \<and> heap_live u = {}"
proof -
  obtain p t where r: "kmalloc 100 heap_demo = Some (p, t)" "few_blocks t" using heap_demo_malloc by blast
  have b: "(100::u64) \<noteq> 0" "unat (100::u64) \<le> 2 ^ 42" by simp_all
  from kmalloc_kfree_roundtrip [OF heap_demo_facts(1) b r] r(1) heap_demo_facts(2) show ?thesis by auto
qed

lemma mult_check:
  fixes c n :: u64
  assumes "n \<noteq> 0"
  shows "(c * n) div n = c \<longleftrightarrow> unat c * unat n < 2 ^ 64"
proof
  assume l: "unat c * unat n < 2 ^ 64"
  then have "unat (c * n) = unat c * unat n" by (simp add: unat_word_ariths)
  moreover have "unat n \<noteq> 0" using assms by (simp add: unat_eq_zero)
  ultimately have "unat ((c * n) div n) = unat c" by (simp add: unat_div)
  then show "(c * n) div n = c" by (simp add: word_unat_eq_iff)
next
  assume d: "(c * n) div n = c"
  have "unat ((c * n) div n) * unat n \<le> unat (c * n)" by (simp add: unat_div)
  then show "unat c * unat n < 2 ^ 64" using d unat_lt_64 [of "c * n"] by simp
qed

text \<open>
  C27: zeroed allocation of an array. When the product of count and size does not fit in 64 bits,
  \<open>kcalloc\<close> returns null and changes nothing; otherwise, for products up to 4 TiB, it is an
  allocation of the product whose payload bytes are zero.
\<close>
theorem kcalloc_correct:
  assumes "heap_inv s" "count \<noteq> 0" "n \<noteq> 0"
  shows "(2 ^ 64 \<le> unat count * unat n \<longrightarrow> kcalloc count n s = Some (0, s)) \<and>
    (unat count * unat n \<le> 2 ^ 42 \<longrightarrow> kcalloc count n s = Some (p, t) \<longrightarrow>
      heap_inv t \<and> (\<exists>m \<ge> count * n. heap_live t = insert (p - HB, m) (heap_live s)) \<and>
      (\<forall>i < unat count * unat n. pmem t (X86_64_VIRT_TO_PHYS p + of_nat i) = 0))"
proof (rule conjI; (rule impI)+)
  show "kcalloc count n s = Some (0, s)" if "2 ^ 64 \<le> unat count * unat n"
    using that assms(2,3) mult_check [OF assms(3), of count] by (simp add: kcalloc_def Let_def)
next
  assume le: "unat count * unat n \<le> 2 ^ 42" and run: "kcalloc count n s = Some (p, t)"
  have u: "unat (count * n) = unat count * unat n" using le by (simp add: unat_word_ariths)
  have np: "count * n \<noteq> 0" using u assms(2,3) by (metis mult_eq_0_iff unat_0 unat_eq_zero)
  have bd: "unat (count * n) \<le> 2 ^ 42" using u le by simp
  have ck: "(count * n) div n = count" using mult_check [OF assms(3), of count] le by simp
  obtain u' where k: "kmalloc (count * n) s = Some (p, u')"
    and cs: "t = (if p = 0 then u' else u'\<lparr>pmem := mem_set (pmem u') (X86_64_VIRT_TO_PHYS p) 0 (unat (count * n))\<rparr>)"
    using run assms(2,3) ck by (auto simp: kcalloc_def Let_def split: option.splits if_splits)
  obtain bs where ok: "heap_ok s bs" using assms(1) by (auto simp: heap_inv_def)
  from kmalloc_ok [OF ok np bd k] obtain ds m where m: "heap_ok u' ds" "count * n \<le> m"
    "live ds = insert (p - HB, m) (live bs)" by blast
  have pz: "p \<noteq> 0"
  proof
    assume "p = 0"
    then have "(- HB, m, False) \<in> set ds" using m(3) by (auto simp: live_def)
    then have "blk_ok (- HB, m, False)" using m(1) by (auto simp: heap_ok_def blks_ok_def)
    then have "unat m = 0" by (simp add: blk_ok_def)
    then show False using m(2) np by (simp add: unat_eq_zero word_le_nat_alt)
  qed
  have t: "t = u'\<lparr>pmem := mem_set (pmem u') (X86_64_VIRT_TO_PHYS p) 0 (unat (count * n))\<rparr>"
    using cs pz by simp
  have okt: "heap_ok t ds"
    using m(1) by (simp add: t heap_ok_def heap_rep_def direct_ok_def)
  show "heap_inv t \<and> (\<exists>m \<ge> count * n. heap_live t = insert (p - HB, m) (heap_live s)) \<and>
      (\<forall>i < unat count * unat n. pmem t (X86_64_VIRT_TO_PHYS p + of_nat i) = 0)"
  proof (intro conjI allI impI)
    show "heap_inv t" using okt by (auto simp: heap_inv_def)
    show "\<exists>m \<ge> count * n. heap_live t = insert (p - HB, m) (heap_live s)"
      using heap_live_eq [OF okt] heap_live_eq [OF ok] m(2,3) by auto
    show "pmem t (X86_64_VIRT_TO_PHYS p + of_nat i) = 0" if "i < unat count * unat n" for i
      using that le u by (simp add: t mem_set_def unat_of_nat)
  qed
qed

theorem kcalloc_correct_witness: "kcalloc 0x100000000 0x100000000 heap_demo = Some (0, heap_demo)"
  using kcalloc_correct [OF heap_demo_facts(1), of "0x100000000" "0x100000000" 0 heap_demo] by simp



text \<open>One page at 16 MiB + 4 KiB, and two adjacent free blocks in the page before it.\<close>

definition stale_demo :: heap_state where
  "stale_demo = (snd (pmm_init 0x1001000 0x1002000 0x200000 heap_blank))
     \<lparr>heap_head := 0xFFFFFFFF81000000, heap_tail := 0xFFFFFFFF81000800,
      hblk := (\<lambda>a. if a = 0xFFFFFFFF81000000
                   then \<lparr>hb_size = 2016, hb_free = True, hb_next = 0xFFFFFFFF81000800, hb_prev = 0\<rparr>
                   else \<lparr>hb_size = 2016, hb_free = True, hb_next = 0, hb_prev = 0xFFFFFFFF81000000\<rparr>)\<rparr>"

lemma stale_demo_alloc:
  "\<exists>u. vmm_alloc_pages 1 PAGE_FLAG_WRITABLE stale_demo = (0xFFFFFFFF81001000, u) \<and>
     pmm_state.more u = pmm_state.more stale_demo"
proof -
  have ib: "init_bounds_ok 0x1001000 0x1002000" "init_pages 0x1001000 0x1002000 = 1"
    by (simp_all add: init_bounds_ok_def init_pages_def ALIGN_UP_def ALIGN_DOWN_def)
  obtain t where t: "pmm_init 0x1001000 0x1002000 0x200000 heap_blank = (0, t)" "pmm_inv t"
    "memory_start t = 0x1001000" "free_set t = {..<1}"
    using pmm_init_ok [OF ib(1), of "0x200000" heap_blank] ib(2) by (auto simp: ALIGN_UP_def)
  have sp: "same_pmm t stale_demo"
    by (simp add: stale_demo_def t(1) same_pmm_def pmm_state.truncate_def)
  have inv: "pmm_inv stale_demo" using same_pmmD(1) [OF sp] t(2) by simp
  have b: "pmm_bitmap_test stale_demo = pmm_bitmap_test t" "total_pages stale_demo = total_pages t"
    by (simp_all add: stale_demo_def t(1) pmm_bitmap_test_def fun_eq_iff)
  have "free_set stale_demo = free_set t" by (simp add: free_set_def b)
  then have e: "memory_start stale_demo = 0x1001000" "free_set stale_demo = {0}"
    using t(3,4) by (auto simp: stale_demo_def t(1))
  have "page_zone stale_demo 0 = PMM_ZONE_NORMAL"
    by (simp add: page_zone_def pmm_index_to_page_def e pmm_zone_for_addr_def)
  then have fr: "free_run stale_demo PMM_ZONE_NORMAL 0 1" by (simp add: free_run_def e)
  obtain p u where p: "pmm_alloc_pages 1 stale_demo = (p, u)" by fastforce
  from alloc_pages_spec [OF inv _ p] fr obtain st where st: "st \<in> free_set stale_demo" "p = pmm_index_to_page stale_demo st"
    "pmm_state.more u = pmm_state.more stale_demo" "p \<noteq> 0"
    by (auto simp: free_run_def)
  then show ?thesis
    by (auto simp: vmm_alloc_pages_def p e pmm_index_to_page_def X86_64_PHYS_TO_VIRT_def simp del: One_nat_def)
qed


text \<open>
  a request within 15 bytes of \<open>2 ^ 64\<close> wraps to 0 when it is rounded up: if the first free
  block is larger than 48 bytes, \<open>kmalloc\<close> splits it and hands out a block of capacity 0.
\<close>
theorem kmalloc_wraps:
  assumes "heap_ok s bs" "find snd (map snd bs) = Some (m, True)" "48 < unat m" "2 ^ 64 - 16 < unat n"
  shows "\<exists>a t. kmalloc n s = Some (a + HB, t) \<and> hb_size (hblk t a) = 0 \<and> (a, m, True) \<in> set bs"
proof -
  have "unat (n + 15) = unat n - (2 ^ 64 - 15)"
    using assms(4) unat_lt_64 [of n] by (simp add: unat_word_ariths mod_if)
  then have "unat (n + 15) < 16" using unat_lt_64 [of n] by simp
  then have al: "heap_align n = 0"
    using unat_and_not_mask [of "n + 15" 4] by (simp add: heap_align_def ALIGN_UP_def mask_4 add.commute unat_eq_zero)
  have nz: "n \<noteq> 0" using assms(4) by auto
  obtain a where a: "find (\<lambda>b. b_free b \<and> 0 \<le> b_size b) bs = Some (a, m, True)"
    using assms(2) by (induction bs) (auto split: if_splits)
  from find_SomeD [OF a] obtain xs ys where bs: "bs = xs @ (a, m, True) # ys" by auto
  have az: "a \<noteq> 0" and ha: "hb_size (hblk s a) = m"
    using assms(1) by (auto simp: heap_ok_def heap_rep_def bs dl_append)
  have h0: "heap_align 0 = 0" by (simp add: heap_align_def ALIGN_UP_def)
  have "\<not> m \<le> 48" using assms(3) by (simp add: word_le_nat_alt)
  then have "hb_size (hblk (heap_split_block a 0 s) a) = 0"
    by (simp add: heap_split_block_def Let_def ha h0)
  moreover have "kmalloc n s = Some (a + HB, upd_blk a (\<lambda>b. b\<lparr>hb_free := False\<rparr>) (heap_split_block a 0 s))"
    using heap_find_fit_ok [OF assms(1), of 0] a az nz by (simp add: kmalloc_def al Let_def)
  ultimately show ?thesis using bs by auto
qed

theorem kmalloc_wraps_witness:
  "\<exists>a t. kmalloc 0xFFFFFFFFFFFFFFFF heap_demo = Some (a + HB, t) \<and> hb_size (hblk t a) = 0"
proof -
  obtain m where ok: "heap_ok heap_demo [(m, 4064, True)]" using heap_demo_ok by blast
  show ?thesis using kmalloc_wraps [OF ok, of 4064 "0xFFFFFFFFFFFFFFFF"] by auto
qed

lemma krealloc_shrink:
  assumes ok: "heap_ok s bs" and a: "(a, k) \<in> live bs" "k \<noteq> 0" and n: "n \<noteq> 0" "unat n \<le> 2 ^ 42"
    and run: "krealloc (a + HB) n s = Some (q, t)" and True: "n \<le> k"
  shows "q = a + HB \<and> pmem t = pmem s \<and> (\<exists>cs. heap_rep t cs \<and> blks_ok cs \<and>
      (\<exists>m \<ge> n. live cs = insert (a, m) (live bs - {(a, k)})))"
proof -
  have inv: "heap_rep s bs" "blks_ok bs" using ok by (simp_all add: heap_ok_def)
  have st: "a + HB \<noteq> 0" using kfree_step [OF ok a refl] by blast
  obtain xs ys where bs: "bs = xs @ (a, k, False) # ys" using a(1) by (auto simp: live_def dest: split_list)
  have ha: "hb_size (hblk s a) = k" using inv(1) by (simp add: bs heap_rep_def dl_append)
  have bok: "blk_ok (a, k, False)" using inv(2) by (simp add: bs blks_ok_append blks_ok_Cons)
  have nb: "unat n + 15 < 2 ^ 64" using n(2) by simp
  note al = heap_align_ge [OF nb]
  have q: "q = a + HB" "t = heap_split_block a n s"
    using True run st n(1) by (auto simp: krealloc_def Let_def ha)
  have "heap_align n \<le> k"
  proof -
    obtain j where "unat k = 16 * j" using bok by (auto simp: blk_ok_def elim!: dvdE)
    moreover have "unat n \<le> unat k" using True by (simp add: word_le_nat_alt)
    ultimately have "(unat n + 15) div 16 \<le> (16 * j + 15) div 16" by (intro div_le_mono) simp
    then have "(unat n + 15) div 16 * 16 \<le> unat k" using \<open>unat k = 16 * j\<close> by simp
    then show ?thesis by (simp add: word_le_nat_alt heap_align_16 [OF nb])
  qed
  moreover have "unat (heap_align n) + 48 < 2 ^ 64" using al(3) n(2) by simp
  ultimately have sp: "blks_ok (xs @ split_list_at (heap_align n) (a, k, False) @ ys)"
    "\<exists>m \<ge> heap_align n. live (split_list_at (heap_align n) (a, k, False)) = live [(a, m, False)]"
    "k \<le> heap_align n + HB + 16 \<or> (a + HB + heap_align n \<noteq> 0 \<and>
       a + HB + heap_align n \<notin> fst ` set (xs @ (a, k, False) # ys))"
    using split_list_ok [OF inv(2) [unfolded bs] al(2)] by blast+
  have "heap_rep t (xs @ split_list_at (heap_align n) (a, k, False) @ ys)"
    unfolding q(2) by (rule split_rep [OF inv(1) [unfolded bs] refl sp(3)])
  moreover have "live xs \<union> live ys = live bs - {(a, k)}"
    using blks_distinct [OF inv(2)] by (auto simp: bs live_def) (force+)
  moreover have "pmem t = pmem s" using same_pmmD(4) [of s t] by (simp add: q(2))
  moreover obtain m where "heap_align n \<le> m" "live (split_list_at (heap_align n) (a, k, False)) = {(a, m)}"
    using sp(2) by auto
  moreover from this have "n \<le> m" using al(1) by simp
  moreover have "live (xs @ split_list_at (heap_align n) (a, k, False) @ ys) = insert (a, m) (live bs - {(a, k)})"
    using calculation by auto
  ultimately have "\<exists>cs. heap_rep t cs \<and> blks_ok cs \<and> (\<exists>m \<ge> n. live cs = insert (a, m) (live bs - {(a, k)}))"
    and "pmem t = pmem s" using sp(1) by blast+
  then show ?thesis using True q(1) by simp
qed

lemma krealloc_grow:
  assumes ok: "heap_ok s bs" and a: "(a, k) \<in> live bs" "k \<noteq> 0" and n: "n \<noteq> 0" "unat n \<le> 2 ^ 42"
    and run: "krealloc (a + HB) n s = Some (q, t)" and False: "\<not> n \<le> k"
  shows "\<exists>cs. heap_ok t cs \<and> (\<exists>m \<ge> n. live cs = insert (q - HB, m) (live bs - {(a, k)})) \<and>
      (\<forall>i < unat k. pmem t (X86_64_VIRT_TO_PHYS q + of_nat i) = pmem s (X86_64_VIRT_TO_PHYS (a + HB) + of_nat i))"
proof -
  have inv: "heap_rep s bs" "blks_ok bs" using ok by (simp_all add: heap_ok_def)
  have st: "a + HB \<noteq> 0" using kfree_step [OF ok a refl] by blast
  obtain xs ys where bs: "bs = xs @ (a, k, False) # ys" using a(1) by (auto simp: live_def dest: split_list)
  have ha: "hb_size (hblk s a) = k" using inv(1) by (simp add: bs heap_rep_def dl_append)
  have bok: "blk_ok (a, k, False)" using inv(2) by (simp add: bs blks_ok_append blks_ok_Cons)
  have nb: "unat n + 15 < 2 ^ 64" using n(2) by simp
  note al = heap_align_ge [OF nb]
  obtain p s1 where k1: "kmalloc n s = Some (p, s1)"
    using run st n(1) False by (auto simp: krealloc_def Let_def ha split: option.splits)
  from kmalloc_ok [OF ok n k1] obtain ds m where m: "heap_ok s1 ds" "n \<le> m" "(p - HB, m) \<notin> live bs"
    "live ds = insert (p - HB, m) (live bs)" by blast
  have "m \<noteq> 0" using m(2) n(1) by (auto simp: word_gt_0)
  then have pz: "p \<noteq> 0" using kfree_step [OF m(1), of "p - HB" m] m(4) by auto
  have "(a, k) \<in> live ds" using m(4) a(1) by simp
  then have ha1: "hb_size (hblk s1 a) = k"
    using m(1) by (auto simp: heap_ok_def heap_rep_def live_def dl_append dest!: split_list)
  define s2 where "s2 = s1\<lparr>pmem := mem_copy (pmem s1) (X86_64_VIRT_TO_PHYS p) (X86_64_VIRT_TO_PHYS (a + HB)) (unat k)\<rparr>"
  have kf: "kfree (a + HB) s2 = Some t" "q = p"
    using run st n(1) False k1 pz ha ha1 by (auto simp: krealloc_def Let_def s2_def)
  have ok2: "heap_ok s2 ds" using m(1) by (simp add: s2_def heap_ok_def heap_rep_def direct_ok_def)
  from kfree_some [OF ok2 \<open>(a, k) \<in> live ds\<close> a(2) kf(1)] obtain cs where
    cs: "heap_ok t cs" "live cs = live ds - {(a, k)}" "same_pmm s2 t" by blast
  have "(p - HB, m) \<noteq> (a, k)" using m(3) a(1) by auto
  then have lv: "live cs = insert (q - HB, m) (live bs - {(a, k)})" using cs(2) m(4) kf(2) by auto
  have "pmem t (X86_64_VIRT_TO_PHYS q + of_nat i) = pmem s (X86_64_VIRT_TO_PHYS (a + HB) + of_nat i)"
    if i: "i < unat k" for i
  proof -
    have ib: "i < 2 ^ 64" using i unat_lt_64 [of k] by simp
    have "unat (a + HB + of_nat i) = unat a + 32 + i"
      using bok i by (simp add: blk_ok_def unat_word_ariths unat_of_nat)
    then have "unat (a + HB + of_nat i) \<in> cover bs" using i by (auto simp: bs ext_def)
    from kmalloc_mem [OF ok n(2) k1 this]
    have "pmem s1 (X86_64_VIRT_TO_PHYS (a + HB) + of_nat i) = pmem s (X86_64_VIRT_TO_PHYS (a + HB) + of_nat i)"
      by (simp add: X86_64_VIRT_TO_PHYS_def algebra_simps)
    moreover have "pmem t = pmem s2" using same_pmmD(4) [OF cs(3)] .
    ultimately show ?thesis using i ib by (simp add: s2_def mem_copy_def kf(2) unat_of_nat)
  qed
  then show ?thesis using False cs(1) lv m(2) by auto
qed

text \<open>
  C26: resizing. Growing an allocated block moves it: the old block is released, a new one with
  enough capacity takes its place, and the old payload is the beginning of the new one. Shrinking
  keeps the pointer and every byte of memory, and leaves disjoint blocks.
\<close>

theorem krealloc_correct:
  assumes ok: "heap_ok s bs" and a: "(a, k) \<in> live bs" "k \<noteq> 0" and n: "n \<noteq> 0" "unat n \<le> 2 ^ 42"
    and run: "krealloc (a + HB) n s = Some (q, t)"
  shows "if n \<le> k then q = a + HB \<and> pmem t = pmem s \<and> (\<exists>cs. heap_rep t cs \<and> blks_ok cs \<and>
      (\<exists>m \<ge> n. live cs = insert (a, m) (live bs - {(a, k)})))
    else \<exists>cs. heap_ok t cs \<and> (\<exists>m \<ge> n. live cs = insert (q - HB, m) (live bs - {(a, k)})) \<and>
      (\<forall>i < unat k. pmem t (X86_64_VIRT_TO_PHYS q + of_nat i) = pmem s (X86_64_VIRT_TO_PHYS (a + HB) + of_nat i))"
  using krealloc_shrink [OF ok a n run] krealloc_grow [OF ok a n run] by (cases "n \<le> k") simp_all

theorem krealloc_correct_witness:
  "\<exists>p t q u. kmalloc 100 heap_demo = Some (p, t) \<and> krealloc p 50 t = Some (q, u) \<and> q = p \<and> pmem u = pmem t"
proof -
  obtain p t where r: "kmalloc 100 heap_demo = Some (p, t)" using heap_demo_facts(3) by blast
  obtain m0 where ok: "heap_ok heap_demo [(m0, 4064, True)]" using heap_demo_ok by blast
  have b: "(100::u64) \<noteq> 0" "unat (100::u64) \<le> 2 ^ 42" "(50::u64) \<noteq> 0" "unat (50::u64) \<le> 2 ^ 42" by simp_all
  from kmalloc_ok [OF ok b(1,2) r] obtain cs m where m: "heap_ok t cs" "100 \<le> m" "(p - HB, m) \<in> live cs" by auto
  then have mz: "m \<noteq> 0" "50 \<le> m" by (auto simp: word_le_nat_alt)
  have pz: "p \<noteq> 0" using kfree_step [OF m(1,3) mz(1) refl] by simp
  have "hb_size (hblk t (p - HB)) = m"
    using m(1,3) by (auto simp: heap_ok_def heap_rep_def live_def dl_append dest!: split_list)
  then obtain u where u: "krealloc (p - HB + HB) 50 t = Some (p, u)"
    using pz mz(2) by (auto simp: krealloc_def)
  from krealloc_correct [OF m(1,3) mz(1) b(3,4) u] r u mz(2) show ?thesis by auto
qed

text \<open>The heap of a state that extends another.\<close>

lemma heap_ok_extend:
  fixes h :: heap_state
  shows "heap_ok (heap_state.extend h x) bs = heap_ok h bs"
    "free_frames (heap_state.extend h x) = free_frames h" "has_pages n (heap_state.extend h x) = has_pages n h"
proof -
  let ?e = "heap_state.extend h x"
  have e: "pmem ?e = pmem h" "total_pages ?e = total_pages h" "free_pages ?e = free_pages h"
    "used_pages ?e = used_pages h" "bitmap_size ?e = bitmap_size h" "bitmap ?e = bitmap h"
    "memory_start ?e = memory_start h" "memory_end ?e = memory_end h" "pages ?e = pages h"
    "pages_count ?e = pages_count h" "zones ?e = zones h" "hblk ?e = hblk h" "heap_head ?e = heap_head h"
    "heap_tail ?e = heap_tail h"
    by (simp_all add: heap_state.extend_def)
  have b: "pmm_bitmap_test ?e = pmm_bitmap_test h" "pmm_index_to_page ?e = pmm_index_to_page h"
    by (simp_all add: fun_eq_iff pmm_bitmap_test_def pmm_index_to_page_def e)
  have f: "free_set ?e = free_set h" "page_zone ?e = page_zone h"
    by (simp_all add: free_set_def page_zone_def fun_eq_iff b e)
  show ff: "free_frames ?e = free_frames h" by (simp add: free_frames_def f b)
  have "pmm_inv ?e = pmm_inv h"
    by (simp add: pmm_inv_def geom_ok_def counts_ok_def lists_ok_def list_ok_def f b e)
  then show "heap_ok ?e bs = heap_ok h bs"
    by (simp add: heap_ok_def direct_ok_def heap_rep_def e ff)
  show "has_pages n ?e = has_pages n h" by (simp add: has_pages_def free_run_def f)
qed

end
