(* ===== verification/VmObject.thy ===== *)
theory VmObject
  imports Kheap
begin

text \<open>
  Reference-counted page frames, the zero-page pager and VM objects: \<^verbatim>\<open>kernel/vm/vm_page_ref.c\<close>,
  \<^verbatim>\<open>vm_pager.c\<close> and \<^verbatim>\<open>vm_object.c\<close>. Structures that the source allocates with \<^verbatim>\<open>kmalloc\<close> live in
  stores indexed by the address \<^verbatim>\<open>kmalloc\<close> returned; 0 is the null pointer and a panic is \<open>None\<close>.
\<close>

section \<open>State\<close>

record vm_page_ref_node =
  pr_node :: u64
  pr_phys :: u64
  pr_refs :: nat

datatype vm_object_type = VM_OBJECT_ANON | VM_OBJECT_FILE

text \<open>\<open>resident_ptr\<close> is the address of the array \<open>resident_pages\<close>.\<close>

record vm_object =
  vo_type :: vm_object_type
  ref_count :: nat
  vo_size :: u64
  page_count :: u64
  resident_ptr :: u64
  resident_pages :: "u64 list"
  pager_private :: u64

record vm_file_backing =
  fb_data :: u64
  fb_size :: u64
  file_offset :: u64

record vm_state = heap_state +
  g_vm_page_refs :: "vm_page_ref_node list"
  vm_objects :: "u64 \<Rightarrow> vm_object"
  vm_backings :: "u64 \<Rightarrow> vm_file_backing"

definition inc32 :: "nat \<Rightarrow> nat" where
  "inc32 n = (n + 1) mod 2 ^ 32"

definition upd_object :: "u64 \<Rightarrow> (vm_object \<Rightarrow> vm_object) \<Rightarrow> 'a vm_state_scheme \<Rightarrow> 'a vm_state_scheme" where
  "upd_object a f s = s\<lparr>vm_objects := (vm_objects s)(a := f (vm_objects s a))\<rparr>"

section \<open>Page references\<close>

text \<open>The list of nodes; an operation changes the first node of a frame.\<close>

definition vm_page_ref_find :: "u64 \<Rightarrow> 'a vm_state_scheme \<Rightarrow> vm_page_ref_node option" where
  "vm_page_ref_find phys s = find (\<lambda>n. pr_phys n = phys) (g_vm_page_refs s)"

fun ref_bump :: "u64 \<Rightarrow> vm_page_ref_node list \<Rightarrow> vm_page_ref_node list" where
  "ref_bump phys [] = []"
| "ref_bump phys (n # ns) =
     (if pr_phys n = phys then n\<lparr>pr_refs := inc32 (pr_refs n)\<rparr> # ns else n # ref_bump phys ns)"

definition vm_page_ref_add_new :: "u64 \<Rightarrow> 'a vm_state_scheme \<Rightarrow> (int \<times> 'a vm_state_scheme) option" where
  "vm_page_ref_add_new phys s =
     (if phys = 0 then Some (RDNX_E_INVALID, s)
      else case vm_page_ref_find phys s of
        Some _ \<Rightarrow> Some (RDNX_OK, s\<lparr>g_vm_page_refs := ref_bump phys (g_vm_page_refs s)\<rparr>)
      | None \<Rightarrow>
          (case kmalloc 24 s of
             None \<Rightarrow> None
           | Some (node, s) \<Rightarrow>
               if node = 0 then Some (RDNX_E_NOMEM, s)
               else Some (RDNX_OK, s\<lparr>g_vm_page_refs :=
                      \<lparr>pr_node = node, pr_phys = phys, pr_refs = 1\<rparr> # g_vm_page_refs s\<rparr>)))"

definition vm_page_ref_retain :: "u64 \<Rightarrow> 'a vm_state_scheme \<Rightarrow> (int \<times> 'a vm_state_scheme) option" where
  "vm_page_ref_retain phys s = vm_page_ref_add_new phys s"

text \<open>The walk of \<^verbatim>\<open>vm_page_ref_release\<close>: the new list, and the node to free when the count reached 0.\<close>

fun ref_drop :: "u64 \<Rightarrow> vm_page_ref_node list \<Rightarrow> (vm_page_ref_node list \<times> u64 option) option" where
  "ref_drop phys [] = None"
| "ref_drop phys (n # ns) =
     (if pr_phys n = phys then
        let refs = (if pr_refs n > 0 then pr_refs n - 1 else pr_refs n)
        in if refs = 0 then Some (ns, Some (pr_node n)) else Some (n\<lparr>pr_refs := refs\<rparr> # ns, None)
      else case ref_drop phys ns of
             None \<Rightarrow> None
           | Some (ns', dead) \<Rightarrow> Some (n # ns', dead))"

definition vm_page_ref_release :: "u64 \<Rightarrow> 'a vm_state_scheme \<Rightarrow> (int \<times> 'a vm_state_scheme) option" where
  "vm_page_ref_release phys s =
     (if phys = 0 then Some (RDNX_E_INVALID, s)
      else case ref_drop phys (g_vm_page_refs s) of
        None \<Rightarrow> Some (RDNX_E_NOTFOUND, s)
      | Some (refs, dead) \<Rightarrow>
          let s = s\<lparr>g_vm_page_refs := refs\<rparr>
          in case dead of
               None \<Rightarrow> Some (RDNX_OK, s)
             | Some node \<Rightarrow> map_option (\<lambda>s. (RDNX_OK, s)) (kfree node (pmm_free_page phys s)))"

section \<open>The pager\<close>

definition vm_pager_alloc_zero_page :: "'a vm_state_scheme \<Rightarrow> (u64 \<times> 'a vm_state_scheme) option" where
  "vm_pager_alloc_zero_page s =
     (let (phys, s) = pmm_alloc_page_in_zone PMM_ZONE_NORMAL s
      in if phys = 0 then Some (0, s)
         else
           let dst = X86_64_PHYS_TO_VIRT phys;
               s = s\<lparr>pmem := mem_set (pmem s) (X86_64_VIRT_TO_PHYS dst) 0 4096\<rparr>
           in case vm_page_ref_add_new phys s of
                None \<Rightarrow> None
              | Some (_, s) \<Rightarrow> Some (phys, s))"

section \<open>Objects\<close>

abbreviation (input) VM_OBJECT_PAGE_SIZE :: u64 where "VM_OBJECT_PAGE_SIZE \<equiv> 0x1000"

definition vm_object_align_up :: "u64 \<Rightarrow> u64" where
  "vm_object_align_up value = (value + VM_OBJECT_PAGE_SIZE - 1) AND NOT (VM_OBJECT_PAGE_SIZE - 1)"

definition vm_object_create ::
  "vm_object_type \<Rightarrow> u64 \<Rightarrow> 'a vm_state_scheme \<Rightarrow> (u64 \<times> 'a vm_state_scheme) option" where
  "vm_object_create type sz s =
     (case kmalloc 48 s of
        None \<Rightarrow> None
      | Some (obj, s) \<Rightarrow>
          if obj = 0 then Some (0, s)
          else
            let aligned = vm_object_align_up (if sz \<noteq> 0 then sz else VM_OBJECT_PAGE_SIZE);
                count = aligned div VM_OBJECT_PAGE_SIZE
            in case kmalloc (count * 8) s of
                 None \<Rightarrow> None
               | Some (pgs, s) \<Rightarrow>
                   if pgs = 0 then map_option (\<lambda>s. (0, s)) (kfree obj s)
                   else Some (obj, s\<lparr>vm_objects := (vm_objects s)(obj :=
                          \<lparr>vo_type = type, ref_count = 1, vo_size = sz, page_count = count,
                           resident_ptr = pgs, resident_pages = replicate (unat count) 0,
                           pager_private = 0\<rparr>)\<rparr>))"

definition vm_object_ref :: "u64 \<Rightarrow> 'a vm_state_scheme \<Rightarrow> 'a vm_state_scheme" where
  "vm_object_ref obj s =
     (if obj = 0 then s else upd_object obj (\<lambda>ob. ob\<lparr>ref_count := inc32 (ref_count ob)\<rparr>) s)"

text \<open>
  The write-back of one resident page of a file object, to the offset \<open>off\<close> of the file's data,
  which is in the direct map.
\<close>

definition write_back :: "vm_file_backing \<Rightarrow> u64 \<Rightarrow> u64 \<Rightarrow> 'a vm_state_scheme \<Rightarrow> 'a vm_state_scheme" where
  "write_back fb phys off s =
     (let avail = fb_size fb - off;
          copy = (if VM_OBJECT_PAGE_SIZE < avail then VM_OBJECT_PAGE_SIZE else avail)
      in s\<lparr>pmem := mem_copy (pmem s) (X86_64_VIRT_TO_PHYS (fb_data fb + off)) phys (unat copy)\<rparr>)"

definition object_write_back :: "vm_object \<Rightarrow> vm_file_backing \<Rightarrow> nat \<Rightarrow> 'a vm_state_scheme \<Rightarrow> 'a vm_state_scheme" where
  "object_write_back obj fb i s =
     (let phys = (if resident_ptr obj \<noteq> 0 then resident_pages obj ! i else 0)
      in if phys = 0 then s
         else
           let off = file_offset fb + of_nat i * VM_OBJECT_PAGE_SIZE
           in if fb_size fb \<le> off then s else write_back fb phys off s)"

text \<open>The loop that releases the resident pages.\<close>

fun release_pages :: "u64 list \<Rightarrow> 'a vm_state_scheme \<Rightarrow> 'a vm_state_scheme option" where
  "release_pages [] s = Some s"
| "release_pages (phys # ps) s =
     (if phys = 0 then release_pages ps s
      else case vm_page_ref_release phys s of
             None \<Rightarrow> None
           | Some (_, s) \<Rightarrow> release_pages ps s)"

definition vm_object_unref :: "u64 \<Rightarrow> 'a vm_state_scheme \<Rightarrow> 'a vm_state_scheme option" where
  "vm_object_unref obj s =
     (if obj = 0 then Some s
      else
        let s = (if ref_count (vm_objects s obj) > 0
                 then upd_object obj (\<lambda>ob. ob\<lparr>ref_count := ref_count ob - 1\<rparr>) s else s);
            ob = vm_objects s obj
        in if ref_count ob \<noteq> 0 then Some s
           else
             let fb = vm_backings s (pager_private ob);
                 s = (if vo_type ob = VM_OBJECT_FILE \<and> pager_private ob \<noteq> 0 \<and> fb_data fb \<noteq> 0 \<and> 0 < fb_size fb
                      then fold (object_write_back ob fb) [0..<unat (page_count ob)] s else s)
             in case (if resident_ptr ob \<noteq> 0 then
                        (case release_pages (resident_pages ob) s of
                           None \<Rightarrow> None
                         | Some s \<Rightarrow> kfree (resident_ptr ob) (upd_object obj
                             (\<lambda>ob. ob\<lparr>resident_pages := map (\<lambda>_. 0) (resident_pages ob), resident_ptr := 0\<rparr>) s))
                      else Some s) of
                  None \<Rightarrow> None
                | Some s \<Rightarrow>
                    (case (if pager_private ob \<noteq> 0
                           then kfree (pager_private ob) (upd_object obj (\<lambda>ob. ob\<lparr>pager_private := 0\<rparr>) s)
                           else Some s) of
                       None \<Rightarrow> None
                     | Some s \<Rightarrow> kfree obj s))"

definition vm_object_get_resident_page :: "u64 \<Rightarrow> u64 \<Rightarrow> 'a vm_state_scheme \<Rightarrow> u64" where
  "vm_object_get_resident_page obj page_index s =
     (if obj = 0 \<or> resident_ptr (vm_objects s obj) = 0 \<or> page_count (vm_objects s obj) \<le> page_index then 0
      else resident_pages (vm_objects s obj) ! unat page_index)"

definition vm_object_set_resident_page ::
  "u64 \<Rightarrow> u64 \<Rightarrow> u64 \<Rightarrow> 'a vm_state_scheme \<Rightarrow> (int \<times> 'a vm_state_scheme) option" where
  "vm_object_set_resident_page obj page_index phys s =
     (if obj = 0 \<or> resident_ptr (vm_objects s obj) = 0 \<or> page_count (vm_objects s obj) \<le> page_index \<or> phys = 0
      then Some (RDNX_E_INVALID, s)
      else
        let old = resident_pages (vm_objects s obj) ! unat page_index
        in if old = phys then Some (RDNX_OK, s)
           else case (if old \<noteq> 0 then map_option snd (vm_page_ref_release old s) else Some s) of
                  None \<Rightarrow> None
                | Some s \<Rightarrow>
                    (case vm_page_ref_retain phys s of
                       None \<Rightarrow> None
                     | Some (_, s) \<Rightarrow> Some (RDNX_OK, upd_object obj
                         (\<lambda>ob. ob\<lparr>resident_pages := (resident_pages ob)[unat page_index := phys]\<rparr>) s)))"

end
