(* ===== verification/VmMap.thy ===== *)
theory VmMap
  imports VmObject
begin

text \<open>
  The virtual memory map of a task and the user page-fault handler: \<^verbatim>\<open>kernel/vm/vm_map.c\<close> and
  \<^verbatim>\<open>kernel/vm/vm_fault.c\<close>. A map is an array of at most 128 entries, here a list whose length is
  \<^verbatim>\<open>entry_count\<close>. Maps and the memory fields of tasks are stores indexed by address.
\<close>

section \<open>State\<close>

record vm_map_entry =
  me_start :: u64
  me_end :: u64
  me_prot :: u32
  me_flags :: u32
  me_object :: u64
  me_offset :: u64

record vm_map =
  mp_pml4 :: u64
  mp_entries :: "vm_map_entry list"

text \<open>The fields of \<^verbatim>\<open>task_t\<close> that belong to the address space.\<close>

record task_vm =
  address_space :: u64
  t_vm_map :: u64
  vm_brk_base :: u64
  vm_brk_end :: u64
  vm_mmap_base :: u64
  vm_mmap_hint :: u64

record vmap_state = vm_state +
  vm_maps :: "u64 \<Rightarrow> vm_map"
  task_vms :: "u64 \<Rightarrow> task_vm"

abbreviation (input) VM_PAGE_SIZE :: u64 where "VM_PAGE_SIZE \<equiv> 0x1000"
abbreviation (input) VM_MAP_MAX_ENTRIES :: nat where "VM_MAP_MAX_ENTRIES \<equiv> 128"
abbreviation (input) VM_PROT_NONE :: u32 where "VM_PROT_NONE \<equiv> 0"
abbreviation (input) VM_PROT_READ :: u32 where "VM_PROT_READ \<equiv> 1"
abbreviation (input) VM_PROT_WRITE :: u32 where "VM_PROT_WRITE \<equiv> 2"
abbreviation (input) VM_PROT_EXEC :: u32 where "VM_PROT_EXEC \<equiv> 4"
abbreviation (input) VM_MAP_F_ANON :: u32 where "VM_MAP_F_ANON \<equiv> 1"
abbreviation (input) VM_MAP_F_PRIVATE :: u32 where "VM_MAP_F_PRIVATE \<equiv> 2"
abbreviation (input) VM_MAP_F_FIXED :: u32 where "VM_MAP_F_FIXED \<equiv> 4"
abbreviation (input) VM_MAP_F_LAZY :: u32 where "VM_MAP_F_LAZY \<equiv> 8"
abbreviation (input) VM_MAP_F_COW :: u32 where "VM_MAP_F_COW \<equiv> 32"
abbreviation (input) VM_USER_MIN :: u64 where "VM_USER_MIN \<equiv> 0x1000"
abbreviation (input) VM_USER_MAX :: u64 where "VM_USER_MAX \<equiv> 0x80000000"
abbreviation (input) VM_DEFAULT_MMAP :: u64 where "VM_DEFAULT_MMAP \<equiv> 0x60000000"

definition upd_map :: "u64 \<Rightarrow> vm_map_entry list \<Rightarrow> 'a vmap_state_scheme \<Rightarrow> 'a vmap_state_scheme" where
  "upd_map mp es s = s\<lparr>vm_maps := (vm_maps s)(mp := (vm_maps s mp)\<lparr>mp_entries := es\<rparr>)\<rparr>"

definition upd_task :: "u64 \<Rightarrow> (task_vm \<Rightarrow> task_vm) \<Rightarrow> 'a vmap_state_scheme \<Rightarrow> 'a vmap_state_scheme" where
  "upd_task t f s = s\<lparr>task_vms := (task_vms s)(t := f (task_vms s t))\<rparr>"

section \<open>Ranges and lookup\<close>

definition vm_align_down :: "u64 \<Rightarrow> u64" where
  "vm_align_down v = v AND NOT (VM_PAGE_SIZE - 1)"

definition vm_align_up :: "u64 \<Rightarrow> u64" where
  "vm_align_up v = (v + VM_PAGE_SIZE - 1) AND NOT (VM_PAGE_SIZE - 1)"

definition vm_map_create :: "u64 \<Rightarrow> 'a vmap_state_scheme \<Rightarrow> (u64 \<times> 'a vmap_state_scheme) option" where
  "vm_map_create pml4_phys s =
     (case kmalloc 5136 s of
        None \<Rightarrow> None
      | Some (mp, s) \<Rightarrow>
          if mp = 0 then Some (0, s)
          else Some (mp, s\<lparr>vm_maps := (vm_maps s)(mp := \<lparr>mp_pml4 = pml4_phys, mp_entries = []\<rparr>)\<rparr>))"

fun unref_entries :: "vm_map_entry list \<Rightarrow> 'a vmap_state_scheme \<Rightarrow> 'a vmap_state_scheme option" where
  "unref_entries [] s = Some s"
| "unref_entries (e # es) s =
     (case (if me_object e \<noteq> 0 then vm_object_unref (me_object e) s else Some s) of
        None \<Rightarrow> None
      | Some s \<Rightarrow> unref_entries es s)"

definition vm_map_destroy :: "u64 \<Rightarrow> 'a vmap_state_scheme \<Rightarrow> 'a vmap_state_scheme option" where
  "vm_map_destroy mp s =
     (if mp = 0 then Some s
      else case unref_entries (mp_entries (vm_maps s mp)) s of
             None \<Rightarrow> None
           | Some s \<Rightarrow>
               kfree mp (upd_map mp (map (\<lambda>e. e\<lparr>me_object := 0\<rparr>) (mp_entries (vm_maps s mp))) s))"

definition vm_range_valid :: "u64 \<Rightarrow> u64 \<Rightarrow> bool" where
  "vm_range_valid start e =
     (if start < VM_USER_MIN \<or> e \<le> start \<or> VM_USER_MAX < e then False
      else if X86_64_KERNEL_VIRT_BASE \<le> start \<or> X86_64_KERNEL_VIRT_BASE \<le> e then False
      else True)"

definition vm_map_overlap :: "vm_map_entry list \<Rightarrow> u64 \<Rightarrow> u64 \<Rightarrow> bool" where
  "vm_map_overlap es start e = list_ex (\<lambda>x. \<not> (e \<le> me_start x \<or> me_end x \<le> start)) es"

definition vm_pte_flags_from_prot :: "u32 \<Rightarrow> u64" where
  "vm_pte_flags_from_prot prot =
     (let flags = PTE_PRESENT OR PTE_USER;
          flags = (if prot AND VM_PROT_WRITE \<noteq> 0 then flags OR PTE_RW else flags)
      in if prot AND VM_PROT_EXEC = 0 then flags OR PTE_NX else flags)"

definition vm_map_lookup :: "vm_map_entry list \<Rightarrow> u64 \<Rightarrow> vm_map_entry option" where
  "vm_map_lookup es addr = find (\<lambda>e. me_start e \<le> addr \<and> addr < me_end e) es"

section \<open>Adding and removing ranges\<close>

definition vm_map_add ::
  "u64 \<Rightarrow> u64 \<Rightarrow> u64 \<Rightarrow> u32 \<Rightarrow> u32 \<Rightarrow> u64 \<Rightarrow> u64 \<Rightarrow> 'a vmap_state_scheme \<Rightarrow> int \<times> 'a vmap_state_scheme" where
  "vm_map_add mp start len prot flags obj object_offset st =
     (let s = vm_align_down start; e = vm_align_up (start + len); es = mp_entries (vm_maps st mp)
      in if mp = 0 \<or> len = 0 \<or> \<not> vm_range_valid s e then (RDNX_E_INVALID, st)
         else if VM_MAP_MAX_ENTRIES \<le> length es then (RDNX_E_BUSY, st)
         else if vm_map_overlap es s e then (RDNX_E_BUSY, st)
         else
           let ne = \<lparr>me_start = s, me_end = e, me_prot = prot, me_flags = flags,
                     me_object = obj, me_offset = object_offset\<rparr>;
               st = upd_map mp (es @ [ne]) st
           in (RDNX_OK, if obj \<noteq> 0 then vm_object_ref obj st else st))"

text \<open>The page loop of \<^verbatim>\<open>vm_map_remove\<close>: unmap and release what is mapped.\<close>

fun unmap_pages :: "u64 \<Rightarrow> u64 list \<Rightarrow> 'a vmap_state_scheme \<Rightarrow> 'a vmap_state_scheme option" where
  "unmap_pages pml4_phys [] s = Some s"
| "unmap_pages pml4_phys (va # vas) s =
     (let phys = paging_get_physical_pml4 pml4_phys va s AND NOT (VM_PAGE_SIZE - 1)
      in if phys \<noteq> 0 then
           (case vm_page_ref_release phys (snd (paging_unmap_page_pml4 pml4_phys va s)) of
              None \<Rightarrow> None
            | Some (_, s) \<Rightarrow> unmap_pages pml4_phys vas s)
         else unmap_pages pml4_phys vas s)"

text \<open>
  The loop of \<^verbatim>\<open>vm_map_remove\<close> over the entries: \<open>old\<close> are the entries before the index, already
  treated, and the list argument is the rest of the array. \<open>own\<close> says that the page tables given
  are those of the map.
\<close>

fun remove_loop ::
  "u64 \<Rightarrow> u64 \<Rightarrow> bool \<Rightarrow> u64 \<Rightarrow> bool \<Rightarrow> vm_map_entry list \<Rightarrow> vm_map_entry list \<Rightarrow> 'a vmap_state_scheme
     \<Rightarrow> (int \<times> vm_map_entry list \<times> 'a vmap_state_scheme) option" where
  "remove_loop s e own pml4_phys removed old [] st =
     Some (if removed then RDNX_OK else RDNX_E_NOTFOUND, old, st)"
| "remove_loop s e own pml4_phys removed old (cur # es) st =
     (let rs = (if me_start cur < s then s else me_start cur);
          re = (if e < me_end cur then e else me_end cur)
      in if re \<le> rs then remove_loop s e own pml4_phys removed (old @ [cur]) es st
         else case (if own then unmap_pages pml4_phys (page_steps rs re) st else Some st) of
                None \<Rightarrow> None
              | Some st \<Rightarrow>
      (if rs = me_start cur \<and> re = me_end cur then
         (case (if me_object cur \<noteq> 0 then vm_object_unref (me_object cur) st else Some st) of
            None \<Rightarrow> None
          | Some st \<Rightarrow> remove_loop s e own pml4_phys True old es st)
       else if rs = me_start cur then
         remove_loop s e own pml4_phys True
           (old @ [cur\<lparr>me_start := re, me_offset := me_offset cur + (re - rs)\<rparr>]) es st
       else if re = me_end cur then
         remove_loop s e own pml4_phys True (old @ [cur\<lparr>me_end := rs\<rparr>]) es st
       else if VM_MAP_MAX_ENTRIES \<le> length old + 1 + length es then
         Some (RDNX_E_BUSY, old @ cur # es, st)
       else
         let tail = cur\<lparr>me_start := re, me_offset := me_offset cur + (re - me_start cur)\<rparr>;
             st = (if me_object tail \<noteq> 0 then vm_object_ref (me_object tail) st else st)
         in remove_loop s e own pml4_phys True (old @ [cur\<lparr>me_end := rs\<rparr>, tail]) es st))"

definition vm_map_remove ::
  "u64 \<Rightarrow> u64 \<Rightarrow> u64 \<Rightarrow> u64 \<Rightarrow> 'a vmap_state_scheme \<Rightarrow> (int \<times> 'a vmap_state_scheme) option" where
  "vm_map_remove mp start len pml4_phys st =
     (let s = vm_align_down start; e = vm_align_up (start + len)
      in if mp = 0 \<or> len = 0 \<or> e \<le> s then Some (RDNX_E_INVALID, st)
         else case remove_loop s e (pml4_phys = mp_pml4 (vm_maps st mp)) pml4_phys False []
                     (mp_entries (vm_maps st mp)) st of
                None \<Rightarrow> None
              | Some (rc, es, st) \<Rightarrow> Some (rc, upd_map mp es st))"

section \<open>Finding room\<close>

function gap_loop :: "vm_map_entry list \<Rightarrow> u64 \<Rightarrow> u64 \<Rightarrow> u64" where
  "gap_loop es s e =
     (if e < VM_USER_MAX then
        if \<not> vm_map_overlap es s e then s else gap_loop es (s + VM_PAGE_SIZE) (e + VM_PAGE_SIZE)
      else 0)"
  by pat_completeness auto
termination
proof (relation "measure (\<lambda>(_, _, e). 0x80000000 - unat e)")
  fix es s and e :: u64
  assume "e < VM_USER_MAX"
  then have "unat e < 0x80000000" by (simp add: word_less_nat_alt)
  then show "((es, s + VM_PAGE_SIZE, e + VM_PAGE_SIZE), es, s, e)
      \<in> measure (\<lambda>(_, _, e). 0x80000000 - unat e)"
    by (simp add: unat_word_ariths)
qed simp

declare gap_loop.simps [simp del]

definition vm_find_gap :: "vm_map_entry list \<Rightarrow> u64 \<Rightarrow> u64 \<Rightarrow> u64" where
  "vm_find_gap es hint len =
     (let s = vm_align_up hint; e = vm_align_up (hint + len)
      in if e \<le> s then 0
         else
           let (s, e) = (if s < VM_DEFAULT_MMAP then (VM_DEFAULT_MMAP, VM_DEFAULT_MMAP + vm_align_up len)
                         else (s, e))
           in gap_loop es s e)"

section \<open>Task operations\<close>

definition vm_task_prepare_exec :: "u64 \<Rightarrow> u64 \<Rightarrow> 'a vmap_state_scheme \<Rightarrow> (int \<times> 'a vmap_state_scheme) option" where
  "vm_task_prepare_exec task user_pml4_phys s =
     (if task = 0 \<or> user_pml4_phys = 0 then Some (RDNX_E_INVALID, s)
      else
        case (if t_vm_map (task_vms s task) \<noteq> 0
              then map_option (upd_task task (\<lambda>t. t\<lparr>t_vm_map := 0\<rparr>))
                     (vm_map_destroy (t_vm_map (task_vms s task)) s)
              else Some s) of
          None \<Rightarrow> None
        | Some s \<Rightarrow>
            (case vm_map_create user_pml4_phys s of
               None \<Rightarrow> None
             | Some (mp, s) \<Rightarrow>
                 if mp = 0 then Some (RDNX_E_NOMEM, s)
                 else Some (RDNX_OK, upd_task task (\<lambda>t. t\<lparr>t_vm_map := mp, vm_brk_base := 0,
                        vm_brk_end := 0, vm_mmap_base := VM_DEFAULT_MMAP,
                        vm_mmap_hint := VM_DEFAULT_MMAP\<rparr>) s)))"

definition vm_task_map_fixed ::
  "u64 \<Rightarrow> u64 \<Rightarrow> u64 \<Rightarrow> u32 \<Rightarrow> u32 \<Rightarrow> 'a vmap_state_scheme \<Rightarrow> int \<times> 'a vmap_state_scheme" where
  "vm_task_map_fixed task start len prot flags s =
     (if task = 0 \<or> t_vm_map (task_vms s task) = 0 then (RDNX_E_INVALID, s)
      else vm_map_add (t_vm_map (task_vms s task)) start len prot (flags OR VM_MAP_F_FIXED) 0 0 s)"

definition vm_task_set_brk_base :: "u64 \<Rightarrow> u64 \<Rightarrow> 'a vmap_state_scheme \<Rightarrow> int \<times> 'a vmap_state_scheme" where
  "vm_task_set_brk_base task brk_base s =
     (if task = 0 then (RDNX_E_INVALID, s)
      else let b = vm_align_up brk_base
           in (RDNX_OK, upd_task task (\<lambda>t. t\<lparr>vm_brk_base := b, vm_brk_end := b\<rparr>) s))"

text \<open>How the three \<^verbatim>\<open>mmap\<close> operations choose an address; a fixed one replaces what is there.\<close>

definition mmap_place ::
  "u64 \<Rightarrow> u64 \<Rightarrow> u64 \<Rightarrow> u32 \<Rightarrow> 'a vmap_state_scheme \<Rightarrow> (u64 \<times> 'a vmap_state_scheme) option" where
  "mmap_place task addr_hint alen flags s =
     (let mp = t_vm_map (task_vms s task)
      in if flags AND VM_MAP_F_FIXED \<noteq> 0 then
           let addr = vm_align_down addr_hint
           in map_option (\<lambda>(_, s). (addr, s)) (vm_map_remove mp addr alen (address_space (task_vms s task)) s)
         else
           let hint = (if addr_hint \<noteq> 0 then addr_hint else vm_mmap_hint (task_vms s task))
           in Some (vm_find_gap (mp_entries (vm_maps s mp)) hint alen, s))"

definition vm_task_mmap ::
  "u64 \<Rightarrow> u64 \<Rightarrow> u64 \<Rightarrow> u32 \<Rightarrow> u32 \<Rightarrow> 'a vmap_state_scheme \<Rightarrow> (int \<times> 'a vmap_state_scheme) option" where
  "vm_task_mmap task addr_hint len prot flags s =
     (if task = 0 \<or> t_vm_map (task_vms s task) = 0 \<or> len = 0 then Some (RDNX_E_INVALID, s)
      else
        let alen = vm_align_up len
        in case mmap_place task addr_hint alen flags s of
             None \<Rightarrow> None
           | Some (addr, s) \<Rightarrow>
        (if addr = 0 then Some (RDNX_E_NOMEM, s)
         else case vm_object_create VM_OBJECT_ANON alen s of
                None \<Rightarrow> None
              | Some (obj, s) \<Rightarrow>
        (if obj = 0 then Some (RDNX_E_NOMEM, s)
         else
           let (rc, s) = vm_map_add (t_vm_map (task_vms s task)) addr alen prot
                           (flags OR VM_MAP_F_LAZY OR VM_MAP_F_ANON) obj 0 s
           in case vm_object_unref obj s of
                None \<Rightarrow> None
              | Some s \<Rightarrow>
                  if rc \<noteq> RDNX_OK then Some (rc, s)
                  else Some (sint addr, upd_task task (\<lambda>t. t\<lparr>vm_mmap_hint := addr + alen\<rparr>) s))))"

definition vm_task_mmap_object ::
  "u64 \<Rightarrow> u64 \<Rightarrow> u64 \<Rightarrow> u32 \<Rightarrow> u32 \<Rightarrow> u64 \<Rightarrow> u64 \<Rightarrow> 'a vmap_state_scheme
     \<Rightarrow> (int \<times> 'a vmap_state_scheme) option" where
  "vm_task_mmap_object task addr_hint len prot flags obj object_offset s =
     (if task = 0 \<or> t_vm_map (task_vms s task) = 0 \<or> len = 0 \<or> obj = 0 then Some (RDNX_E_INVALID, s)
      else
        let alen = vm_align_up len
        in case mmap_place task addr_hint alen flags s of
             None \<Rightarrow> None
           | Some (addr, s) \<Rightarrow>
        (if addr = 0 then Some (RDNX_E_NOMEM, s)
         else
           let (rc, s) = vm_map_add (t_vm_map (task_vms s task)) addr alen prot
                           (flags OR VM_MAP_F_LAZY) obj object_offset s
           in if rc \<noteq> RDNX_OK then Some (rc, s)
              else Some (sint addr, upd_task task (\<lambda>t. t\<lparr>vm_mmap_hint := addr + alen\<rparr>) s)))"

definition vm_task_mmap_file ::
  "u64 \<Rightarrow> u64 \<Rightarrow> u64 \<Rightarrow> u32 \<Rightarrow> u32 \<Rightarrow> u64 \<Rightarrow> u64 \<Rightarrow> u64 \<Rightarrow> 'a vmap_state_scheme
     \<Rightarrow> (int \<times> 'a vmap_state_scheme) option" where
  "vm_task_mmap_file task addr_hint len prot flags data data_size foffset s =
     (if task = 0 \<or> t_vm_map (task_vms s task) = 0 \<or> len = 0 \<or> data = 0 then Some (RDNX_E_INVALID, s)
      else
        let alen = vm_align_up len
        in case mmap_place task addr_hint alen flags s of
             None \<Rightarrow> None
           | Some (addr, s) \<Rightarrow>
        (if addr = 0 then Some (RDNX_E_NOMEM, s)
         else case vm_object_create VM_OBJECT_FILE alen s of
                None \<Rightarrow> None
              | Some (obj, s) \<Rightarrow>
        (if obj = 0 then Some (RDNX_E_NOMEM, s)
         else case kmalloc 24 s of
                None \<Rightarrow> None
              | Some (fb, s) \<Rightarrow>
        (if fb = 0 then map_option (\<lambda>s. (RDNX_E_NOMEM, s)) (vm_object_unref obj s)
         else
           let s = s\<lparr>vm_backings := (vm_backings s)(fb :=
                     \<lparr>fb_data = data, fb_size = data_size, file_offset = 0\<rparr>)\<rparr>;
               s = upd_object obj (\<lambda>ob. ob\<lparr>pager_private := fb\<rparr>) s;
               (rc, s) = vm_map_add (t_vm_map (task_vms s task)) addr alen prot
                           (flags OR VM_MAP_F_LAZY) obj foffset s
           in case vm_object_unref obj s of
                None \<Rightarrow> None
              | Some s \<Rightarrow>
                  if rc \<noteq> RDNX_OK then Some (rc, s)
                  else Some (sint addr, upd_task task (\<lambda>t. t\<lparr>vm_mmap_hint := addr + alen\<rparr>) s)))))"

definition vm_task_munmap :: "u64 \<Rightarrow> u64 \<Rightarrow> u64 \<Rightarrow> 'a vmap_state_scheme \<Rightarrow> (int \<times> 'a vmap_state_scheme) option" where
  "vm_task_munmap task addr len s =
     (if task = 0 \<or> t_vm_map (task_vms s task) = 0 \<or> address_space (task_vms s task) = 0
      then Some (RDNX_E_INVALID, s)
      else vm_map_remove (t_vm_map (task_vms s task)) addr len (address_space (task_vms s task)) s)"

definition vm_task_brk :: "u64 \<Rightarrow> u64 \<Rightarrow> 'a vmap_state_scheme \<Rightarrow> (int \<times> 'a vmap_state_scheme) option" where
  "vm_task_brk task new_break s =
     (let t = task_vms s task
      in if task = 0 \<or> t_vm_map t = 0 then Some (RDNX_E_INVALID, s)
         else if new_break = 0 then Some (sint (vm_brk_end t), s)
         else if vm_brk_base t = 0 then Some (RDNX_E_INVALID, s)
         else
           let new_end = vm_align_up new_break
           in if new_end < vm_brk_base t then Some (RDNX_E_INVALID, s)
              else if vm_brk_end t < new_end then
                (let len = new_end - vm_brk_end t
                 in case vm_object_create VM_OBJECT_ANON len s of
                      None \<Rightarrow> None
                    | Some (obj, s) \<Rightarrow>
                        if obj = 0 then Some (RDNX_E_NOMEM, s)
                        else
                          let (rc, s) = vm_map_add (t_vm_map t) (vm_brk_end t) len
                                (VM_PROT_READ OR VM_PROT_WRITE)
                                (VM_MAP_F_ANON OR VM_MAP_F_PRIVATE OR VM_MAP_F_LAZY) obj 0 s
                          in case vm_object_unref obj s of
                               None \<Rightarrow> None
                             | Some s \<Rightarrow>
                                 if rc \<noteq> RDNX_OK then Some (rc, s)
                                 else Some (sint new_end, upd_task task (\<lambda>t. t\<lparr>vm_brk_end := new_end\<rparr>) s))
              else if new_end < vm_brk_end t then
                (case vm_map_remove (t_vm_map t) new_end (vm_brk_end t - new_end) (address_space t) s of
                   None \<Rightarrow> None
                 | Some (_, s) \<Rightarrow> Some (sint new_end, upd_task task (\<lambda>t. t\<lparr>vm_brk_end := new_end\<rparr>) s))
              else Some (sint new_end, upd_task task (\<lambda>t. t\<lparr>vm_brk_end := new_end\<rparr>) s))"

section \<open>Fork\<close>

definition vm_entry_is_cow_candidate :: "vm_map_entry \<Rightarrow> bool" where
  "vm_entry_is_cow_candidate e =
     (if me_prot e AND VM_PROT_WRITE = 0 then False
      else if me_flags e AND VM_MAP_F_PRIVATE = 0 then False
      else True)"

text \<open>The page loop of \<^verbatim>\<open>vm_task_fork_clone\<close>; \<open>False\<close> says that mapping a page in the child failed.\<close>

fun fork_pages ::
  "bool \<Rightarrow> u32 \<Rightarrow> u64 \<Rightarrow> u64 \<Rightarrow> u64 list \<Rightarrow> 'a vmap_state_scheme \<Rightarrow> (bool \<times> 'a vmap_state_scheme) option" where
  "fork_pages cow prot parent_pml4 child_pml4 [] s = Some (True, s)"
| "fork_pages cow prot parent_pml4 child_pml4 (va # vas) s =
     (let phys = paging_get_physical va s AND NOT (VM_PAGE_SIZE - 1)
      in if phys = 0 then fork_pages cow prot parent_pml4 child_pml4 vas s
         else
           let eff_prot = (if cow then prot AND NOT VM_PROT_WRITE else prot);
               flags = PTE_PRESENT OR PTE_USER;
               flags = (if eff_prot AND VM_PROT_WRITE \<noteq> 0 then flags OR PTE_RW else flags);
               flags = (if eff_prot AND VM_PROT_EXEC = 0 then flags OR PTE_NX else flags);
               (rc, s) = paging_map_page_4kb_pml4 child_pml4 va phys flags s
           in if rc \<noteq> RDNX_OK then Some (False, s)
              else case vm_page_ref_retain phys s of
                     None \<Rightarrow> None
                   | Some (_, s) \<Rightarrow>
                       let s = (if cow then snd (paging_map_page_4kb_pml4 parent_pml4 va phys flags s) else s)
                       in fork_pages cow prot parent_pml4 child_pml4 vas s)"

text \<open>
  The entry loop: \<open>pm\<close> and \<open>cm\<close> are the parent's and the child's map, \<open>old\<close> the parent's entries
  already treated. An error code other than \<open>RDNX_OK\<close> is the early return.
\<close>

fun fork_entries ::
  "u64 \<Rightarrow> u64 \<Rightarrow> u64 \<Rightarrow> u64 \<Rightarrow> vm_map_entry list \<Rightarrow> vm_map_entry list \<Rightarrow> 'a vmap_state_scheme
     \<Rightarrow> (int \<times> 'a vmap_state_scheme) option" where
  "fork_entries pm cm parent_pml4 child_pml4 old [] s = Some (RDNX_OK, s)"
| "fork_entries pm cm parent_pml4 child_pml4 old (pe # es) s =
     (if VM_MAP_MAX_ENTRIES \<le> length (mp_entries (vm_maps s cm)) then
        map_option (\<lambda>s. (RDNX_E_BUSY, s)) (vm_map_destroy cm s)
      else
        let s = (if me_object pe \<noteq> 0 then vm_object_ref (me_object pe) s else s);
            cow = vm_entry_is_cow_candidate pe;
            ce = (if cow then pe\<lparr>me_flags := me_flags pe OR VM_MAP_F_COW\<rparr> else pe);
            s = upd_map cm (mp_entries (vm_maps s cm) @ [ce]) s;
            s = upd_map pm (old @ ce # es) s
        in case fork_pages cow (me_prot pe) parent_pml4 child_pml4 (page_steps (me_start pe) (me_end pe)) s of
             None \<Rightarrow> None
           | Some (ok, s) \<Rightarrow>
               if \<not> ok then map_option (\<lambda>s. (RDNX_E_GENERIC, s)) (vm_map_destroy cm s)
               else fork_entries pm cm parent_pml4 child_pml4 (old @ [ce]) es s)"

definition vm_task_fork_clone ::
  "u64 \<Rightarrow> u64 \<Rightarrow> u64 \<Rightarrow> 'a vmap_state_scheme \<Rightarrow> (int \<times> 'a vmap_state_scheme) option" where
  "vm_task_fork_clone parent child child_pml4_phys s =
     (let p = task_vms s parent
      in if parent = 0 \<or> child = 0 \<or> t_vm_map p = 0 \<or> address_space p = 0 \<or> child_pml4_phys = 0
         then Some (RDNX_E_INVALID, s)
         else case vm_map_create child_pml4_phys s of
                None \<Rightarrow> None
              | Some (cm, s) \<Rightarrow>
         (if cm = 0 then Some (RDNX_E_NOMEM, s)
          else case fork_entries (t_vm_map p) cm (address_space p) child_pml4_phys []
                      (mp_entries (vm_maps s (t_vm_map p))) s of
                 None \<Rightarrow> None
               | Some (rc, s) \<Rightarrow>
                   if rc \<noteq> RDNX_OK then Some (rc, s)
                   else Some (RDNX_OK, upd_task child (\<lambda>t. t\<lparr>t_vm_map := cm,
                          vm_brk_base := vm_brk_base p, vm_brk_end := vm_brk_end p,
                          vm_mmap_base := vm_mmap_base p, vm_mmap_hint := vm_mmap_hint p\<rparr>) s)))"

section \<open>Destroying an address space\<close>

text \<open>The loop of \<^verbatim>\<open>vm_task_destroy\<close> ends only if each round removes the first entry.\<close>

partial_function (option) destroy_loop :: "u64 \<Rightarrow> u64 \<Rightarrow> 'a vmap_state_scheme \<Rightarrow> 'a vmap_state_scheme option" where
  "destroy_loop mp pml4_phys s =
     (case mp_entries (vm_maps s mp) of
        [] \<Rightarrow> Some s
      | e # _ \<Rightarrow>
          (case vm_map_remove mp (me_start e) (me_end e - me_start e) pml4_phys s of
             None \<Rightarrow> None
           | Some (_, s) \<Rightarrow> destroy_loop mp pml4_phys s))"

definition vm_task_destroy :: "u64 \<Rightarrow> 'a vmap_state_scheme \<Rightarrow> 'a vmap_state_scheme option" where
  "vm_task_destroy task s =
     (if task = 0 then Some s
      else
        case (if t_vm_map (task_vms s task) \<noteq> 0 then
                (case destroy_loop (t_vm_map (task_vms s task)) (address_space (task_vms s task)) s of
                   None \<Rightarrow> None
                 | Some s \<Rightarrow> map_option (upd_task task (\<lambda>t. t\<lparr>t_vm_map := 0\<rparr>))
                               (vm_map_destroy (t_vm_map (task_vms s task)) s))
              else Some s) of
          None \<Rightarrow> None
        | Some s \<Rightarrow> Some (upd_task task (\<lambda>t. t\<lparr>vm_brk_base := 0, vm_brk_end := 0,
                            vm_mmap_base := 0, vm_mmap_hint := 0\<rparr>) s))"

section \<open>Synchronising and protecting\<close>

definition msync_page ::
  "vm_map_entry \<Rightarrow> vm_file_backing \<Rightarrow> u64 \<Rightarrow> bool \<times> 'a vmap_state_scheme \<Rightarrow> bool \<times> 'a vmap_state_scheme" where
  "msync_page me fb va = (\<lambda>(did, s).
     let page_idx = (me_offset me + (va - me_start me)) div VM_PAGE_SIZE;
         phys = vm_object_get_resident_page (me_object me) page_idx s;
         off = file_offset fb + me_offset me + (va - me_start me)
     in if phys = 0 \<or> fb_size fb \<le> off then (did, s)
        else (True, write_back fb phys off s))"

definition msync_entry ::
  "u64 \<Rightarrow> u64 \<Rightarrow> vm_map_entry \<Rightarrow> bool \<times> 'a vmap_state_scheme \<Rightarrow> bool \<times> 'a vmap_state_scheme" where
  "msync_entry s e me = (\<lambda>(did, st).
     let rs = (if me_start me < s then s else me_start me);
         re = (if e < me_end me then e else me_end me);
         ob = vm_objects st (me_object me);
         fb = vm_backings st (pager_private ob)
     in if re \<le> rs then (did, st)
        else if me_object me = 0 \<or> vo_type ob \<noteq> VM_OBJECT_FILE then (did, st)
        else if me_flags me AND VM_MAP_F_PRIVATE \<noteq> 0 then (did, st)
        else if pager_private ob = 0 \<or> fb_data fb = 0 \<or> fb_size fb = 0 then (did, st)
        else fold (msync_page me fb) (page_steps rs re) (did, st))"

definition vm_task_msync ::
  "u64 \<Rightarrow> u64 \<Rightarrow> u64 \<Rightarrow> u32 \<Rightarrow> 'a vmap_state_scheme \<Rightarrow> int \<times> 'a vmap_state_scheme" where
  "vm_task_msync task addr len flags st =
     (if task = 0 \<or> t_vm_map (task_vms st task) = 0 \<or> len = 0 then (RDNX_E_INVALID, st)
      else
        let s = vm_align_down addr; e = vm_align_up (addr + len)
        in if e \<le> s then (RDNX_E_INVALID, st)
           else
             let (did, st) = fold (msync_entry s e)
                   (mp_entries (vm_maps st (t_vm_map (task_vms st task)))) (False, st)
             in (if did then RDNX_OK else RDNX_E_NOTFOUND, st))"

definition protect_page :: "u64 \<Rightarrow> u64 \<Rightarrow> u64 \<Rightarrow> 'a vmap_state_scheme \<Rightarrow> 'a vmap_state_scheme" where
  "protect_page pml4_phys pte_flags va s =
     (let phys = paging_get_physical_pml4 pml4_phys va s AND NOT (VM_PAGE_SIZE - 1)
      in if phys = 0 then s else snd (paging_map_page_4kb_pml4 pml4_phys va phys pte_flags s))"

fun protect_loop ::
  "u64 \<Rightarrow> u64 \<Rightarrow> u32 \<Rightarrow> u64 \<Rightarrow> bool \<Rightarrow> vm_map_entry list \<Rightarrow> vm_map_entry list \<Rightarrow> 'a vmap_state_scheme
     \<Rightarrow> int \<times> vm_map_entry list \<times> 'a vmap_state_scheme" where
  "protect_loop s e prot pml4_phys changed old [] st =
     (if changed then RDNX_OK else RDNX_E_NOTFOUND, old, st)"
| "protect_loop s e prot pml4_phys changed old (me # es) st =
     (let rs = (if me_start me < s then s else me_start me);
          re = (if e < me_end me then e else me_end me)
      in if re \<le> rs then protect_loop s e prot pml4_phys changed (old @ [me]) es st
         else if rs \<noteq> me_start me \<or> re \<noteq> me_end me then (RDNX_E_UNSUPPORTED, old @ me # es, st)
         else
           let st = fold (protect_page pml4_phys (vm_pte_flags_from_prot prot)) (page_steps rs re) st
           in protect_loop s e prot pml4_phys True (old @ [me\<lparr>me_prot := prot\<rparr>]) es st)"

definition vm_task_mprotect ::
  "u64 \<Rightarrow> u64 \<Rightarrow> u64 \<Rightarrow> u32 \<Rightarrow> 'a vmap_state_scheme \<Rightarrow> int \<times> 'a vmap_state_scheme" where
  "vm_task_mprotect task addr len prot st =
     (let t = task_vms st task
      in if task = 0 \<or> t_vm_map t = 0 \<or> address_space t = 0 \<or> len = 0 then (RDNX_E_INVALID, st)
         else if prot = VM_PROT_NONE then (RDNX_E_INVALID, st)
         else
           let s = vm_align_down addr; e = vm_align_up (addr + len)
           in if e \<le> s then (RDNX_E_INVALID, st)
              else
                let (rc, es, st) = protect_loop s e prot (address_space t) False []
                      (mp_entries (vm_maps st (t_vm_map t))) st
                in (rc, upd_map (t_vm_map t) es st))"

section \<open>User page faults\<close>

text \<open>
  The last part of \<^verbatim>\<open>vm_fault_handle\<close>: a page for an address that has none yet, from the object
  or fresh, filled from the file behind the object.
\<close>

definition fault_page ::
  "vm_map_entry \<Rightarrow> u64 \<Rightarrow> 'a vmap_state_scheme \<Rightarrow> (u64 \<times> 'a vmap_state_scheme) option" where
  "fault_page e va s =
     (let obj = me_object e;
          idx = (me_offset e + (va - me_start e)) div VM_PAGE_SIZE;
          phys = (if obj \<noteq> 0 then vm_object_get_resident_page obj idx s else 0)
      in if phys \<noteq> 0 then map_option (\<lambda>(_, s). (phys, s)) (vm_page_ref_retain phys s)
         else case vm_pager_alloc_zero_page s of
                None \<Rightarrow> None
              | Some (phys, s) \<Rightarrow>
                  if phys = 0 then Some (0, s)
                  else
                    let ob = vm_objects s obj;
                        fb = vm_backings s (pager_private ob);
                        off = file_offset fb + me_offset e + (va - me_start e);
                        avail = fb_size fb - off;
                        copy = (if VM_PAGE_SIZE < avail then VM_PAGE_SIZE else avail);
                        s = (if obj \<noteq> 0 \<and> vo_type ob = VM_OBJECT_FILE \<and> pager_private ob \<noteq> 0 \<and>
                                fb_data fb \<noteq> 0 \<and> 0 < fb_size fb \<and> off < fb_size fb
                             then s\<lparr>pmem := mem_copy (pmem s) phys (X86_64_VIRT_TO_PHYS (fb_data fb + off)) (unat copy)\<rparr>
                             else s)
                    in if obj \<noteq> 0 then map_option (\<lambda>(_, s). (phys, s)) (vm_object_set_resident_page obj idx phys s)
                       else Some (phys, s))"

definition vm_fault_handle ::
  "u64 \<Rightarrow> u64 \<Rightarrow> u64 \<Rightarrow> 'a vmap_state_scheme \<Rightarrow> (int \<times> 'a vmap_state_scheme) option" where
  "vm_fault_handle task fault_addr err_code s =
     (let t = task_vms s task
      in if task = 0 \<or> t_vm_map t = 0 \<or> address_space t = 0 then Some (RDNX_E_NOTFOUND, s)
         else if err_code AND 4 = 0 then Some (RDNX_E_DENIED, s)
         else if fault_addr < 0x1000 \<or> X86_64_KERNEL_VIRT_BASE \<le> fault_addr then Some (RDNX_E_DENIED, s)
         else
           let va = fault_addr AND NOT (VM_PAGE_SIZE - 1)
           in case vm_map_lookup (mp_entries (vm_maps s (t_vm_map t))) va of
                None \<Rightarrow> Some (RDNX_E_NOTFOUND, s)
              | Some e \<Rightarrow>
           let is_write = (err_code AND 2 \<noteq> 0); is_exec = (err_code AND 16 \<noteq> 0)
           in if is_exec \<and> me_prot e AND VM_PROT_EXEC = 0 then Some (RDNX_E_DENIED, s)
              else if is_write \<and> me_prot e AND VM_PROT_WRITE = 0 then Some (RDNX_E_DENIED, s)
              else if \<not> is_write \<and> \<not> is_exec \<and> me_prot e AND VM_PROT_READ = 0 \<and> me_prot e AND VM_PROT_WRITE = 0
                then Some (RDNX_E_DENIED, s)
              else
           let current_phys = paging_get_physical va s AND NOT (VM_PAGE_SIZE - 1)
           in if current_phys \<noteq> 0 \<and> is_write \<and> me_flags e AND VM_MAP_F_COW \<noteq> 0 then
                (case vm_pager_alloc_zero_page s of
                   None \<Rightarrow> None
                 | Some (new_phys, s) \<Rightarrow>
                     if new_phys = 0 then Some (RDNX_E_NOMEM, s)
                     else
                       let s = s\<lparr>pmem := mem_copy (pmem s) new_phys current_phys 4096\<rparr>;
                           s = snd (paging_map_page_4kb_pml4 (address_space t) va new_phys
                                      (vm_pte_flags_from_prot (me_prot e)) s)
                       in map_option (\<lambda>(_, s). (RDNX_OK, s)) (vm_page_ref_release current_phys s))
              else if current_phys = 0 then
                (case fault_page e va s of
                   None \<Rightarrow> None
                 | Some (phys, s) \<Rightarrow>
                     if phys = 0 then Some (RDNX_E_NOMEM, s)
                     else
                       let (rc, s) = paging_map_page_4kb_pml4 (address_space t) va phys
                                       (vm_pte_flags_from_prot (me_prot e)) s
                       in Some (if rc \<noteq> RDNX_OK then rc else RDNX_OK, s))
              else Some (RDNX_E_DENIED, s))"

end
