(* ===== verification/VmFrame.thy ===== *)
theory VmFrame
  imports VmMap KheapProps
begin

text \<open>
  What the layers below the memory maps leave alone, in any state: the physical memory manager, the
  page tables, the heap and the objects each change only their own part of the kernel state.
\<close>

lemma fold_keeps: "(\<And>x s. g (f x s) = g s) \<Longrightarrow> g (fold f xs s) = g s"
  by (induction xs arbitrary: s) simp_all

section \<open>The physical memory manager\<close>

lemma upd_zone_more [frame_simps]: "pmm_state.more (upd_zone z f s) = pmm_state.more s"
  by simp

lemma freelist_more [frame_simps]:
  "pmm_state.more (pmm_freelist_append z a c s) = pmm_state.more s"
  "pmm_state.more (pmm_freelist_insert z a c s) = pmm_state.more s"
  "pmm_state.more (snd (pmm_freelist_remove z a c s)) = pmm_state.more s"
  "pmm_state.more (pmm_freelist_clear s) = pmm_state.more s"
  by (simp_all add: pmm_freelist_append_def pmm_freelist_insert_def pmm_freelist_remove_def
      pmm_freelist_clear_def Let_def split_beta fold_keeps [of pmm_state.more] split: option.split)

lemma rebuild_step_more: "pmm_state.more (snd (rebuild_step i rs)) = pmm_state.more (snd rs)"
  by (cases rs) (simp add: rebuild_step_def frame_simps Let_def)

lemma rebuild_more [frame_simps]: "pmm_state.more (pmm_rebuild_free_lists s) = pmm_state.more s"
proof -
  obtain zs where "pmm_rebuild_free_lists s = s\<lparr>zones := zs\<rparr>" using rebuild_ok(1) by blast
  then show ?thesis by simp
qed

lemma free_page_more [frame_simps]: "pmm_state.more (pmm_free_page p s) = pmm_state.more s"
  by (simp add: pmm_free_page_def Let_def frame_simps)

lemma bookkeeping_more [frame_simps]: "pmm_state.more (snd (alloc_bookkeeping z i s)) = pmm_state.more s"
  by (simp add: alloc_bookkeeping_def pmm_zero_page_def Let_def frame_simps)

lemma alloc_page_more [frame_simps]:
  "pmm_state.more (snd (pmm_alloc_page_in_zone z s)) = pmm_state.more s"
  "pmm_state.more (snd (pmm_alloc_page s)) = pmm_state.more s"
proof -
  show z: "pmm_state.more (snd (pmm_alloc_page_in_zone z s)) = pmm_state.more s" for z s
    by (simp add: pmm_alloc_page_in_zone_def Let_def split_beta frame_simps split: list.split option.split)
  show "pmm_state.more (snd (pmm_alloc_page s)) = pmm_state.more s"
    by (simp add: pmm_alloc_page_def split_beta z)
qed

lemma take_run_more [frame_simps]: "pmm_state.more (snd (take_run z a c s)) = pmm_state.more s"
proof -
  have u: "pmm_state.more (set_used_run a c s) = pmm_state.more s" for s
    unfolding set_used_run_def by (rule fold_keeps) (simp add: Let_def)
  have z: "pmm_state.more (zero_run p c s) = pmm_state.more s" for p s
    unfolding zero_run_def by (rule fold_keeps) (simp add: pmm_zero_page_def)
  show ?thesis by (simp add: take_run_def Let_def u z)
qed

lemma alloc_pages_more [frame_simps]:
  "pmm_state.more (snd (pmm_alloc_pages_in_zone z c s)) = pmm_state.more s"
  "pmm_state.more (snd (pmm_alloc_pages c s)) = pmm_state.more s"
  "pmm_state.more (snd (vmm_alloc_pages c fl s)) = pmm_state.more s"
proof -
  show z: "pmm_state.more (snd (pmm_alloc_pages_in_zone z c s)) = pmm_state.more s" for z s
    by (simp add: pmm_alloc_pages_in_zone_def Let_def split_beta frame_simps split: option.split)
  show p: "pmm_state.more (snd (pmm_alloc_pages c s)) = pmm_state.more s"
    by (simp add: pmm_alloc_pages_def split_beta z)
  show "pmm_state.more (snd (vmm_alloc_pages c fl s)) = pmm_state.more s"
    by (simp add: vmm_alloc_pages_def split_beta p memory_oom_inc_vmm_def)
qed

text \<open>Keeping the extension of the memory manager's state keeps everything above it.\<close>

lemma more_paging:
  fixes s t :: "'a paging_state_scheme"
  shows "pmm_state.more t = pmm_state.more s \<Longrightarrow> paging_state.more t = paging_state.more s"
  by (cases s; cases t; simp)

lemma more_heap:
  fixes s t :: "'a heap_state_scheme"
  shows "paging_state.more t = paging_state.more s \<Longrightarrow> heap_state.more t = heap_state.more s"
  by (cases s; cases t; simp)

lemma more_vm:
  fixes s t :: "'a vm_state_scheme"
  shows "heap_state.more t = heap_state.more s \<Longrightarrow> vm_state.more t = vm_state.more s"
  by (cases s; cases t; simp)

section \<open>Page tables\<close>

lemma table_step_more:
  "paging_state.more (snd (table_step paging_alloc_page_table_low b nx tbl i s)) = paging_state.more s"
proof -
  have "pmm_state.more (snd (paging_alloc_page_table_low s)) = pmm_state.more s"
    by (simp add: paging_alloc_page_table_low_def split_beta Let_def frame_simps)
  then have "paging_state.more (snd (paging_alloc_page_table_low s)) = paging_state.more s" by (rule more_paging)
  then show ?thesis by (simp add: table_step_def Let_def split_beta kwrite_def)
qed

lemma map_pml4_more [frame_simps]:
  "paging_state.more (snd (paging_map_page_4kb_pml4 r v p f s)) = paging_state.more s"
proof -
  have st: "paging_state.more u = paging_state.more s"
    if "table_step paging_alloc_page_table_low b nx tbl i s = (x, u)" for b nx tbl i s x u
    using table_step_more [of b nx tbl i s] that by simp
  show ?thesis
    unfolding paging_map_page_4kb_pml4_def Let_def
    by (auto simp: kwrite_def paging_flush_tlb_def dest!: st split: prod.split option.split)
qed

lemma unmap_pml4_more [frame_simps]:
  "paging_state.more (snd (paging_unmap_page_pml4 r v s)) = paging_state.more s"
  by (simp add: paging_unmap_page_pml4_def Let_def kwrite_def paging_flush_tlb_def)

section \<open>The heap\<close>

lemma upd_blk_more [frame_simps]: "heap_state.more (upd_blk a f s) = heap_state.more s"
  by (simp add: upd_blk_def)

lemma heap_ops_more [frame_simps]:
  "heap_state.more (merge_next a s) = heap_state.more s" "heap_state.more (merge_prev a s) = heap_state.more s"
  "heap_state.more (heap_split_block a n s) = heap_state.more s"
  "heap_state.more (heap_insert_block a s) = heap_state.more s"
  by (simp_all add: merge_next_def merge_prev_def heap_split_block_def heap_insert_block_def Let_def frame_simps)

lemma heap_merge_more [frame_simps]: "heap_state.more (heap_merge_if_possible a s) = heap_state.more s"
  by (simp add: heap_merge_if_possible_def frame_simps)

lemma heap_grow_more: "heap_grow n s = Some (a, t) \<Longrightarrow> heap_state.more t = heap_state.more s"
proof -
  have v: "heap_state.more (snd (vmm_alloc_pages c fl s)) = heap_state.more s" for c fl
    by (intro more_heap more_paging) (rule alloc_pages_more(3))
  assume "heap_grow n s = Some (a, t)"
  then show ?thesis
    using v by (auto simp: heap_grow_def Let_def split_beta frame_simps split: if_splits)
qed

lemma kmalloc_more: "kmalloc n s = Some (p, t) \<Longrightarrow> heap_state.more t = heap_state.more s"
  by (auto simp: kmalloc_def Let_def frame_simps dest!: heap_grow_more
      split: if_splits option.splits prod.splits)

lemma kfree_more: "kfree p s = Some t \<Longrightarrow> heap_state.more t = heap_state.more s"
  by (auto simp: kfree_def Let_def frame_simps split: if_splits)

section \<open>Page references and objects\<close>

lemma ref_add_more: "vm_page_ref_add_new p s = Some (rc, t) \<Longrightarrow> vm_state.more t = vm_state.more s"
  by (auto simp: vm_page_ref_add_new_def dest!: kmalloc_more more_vm split: if_splits option.splits)

lemma ref_release_more: "vm_page_ref_release p s = Some (rc, t) \<Longrightarrow> vm_state.more t = vm_state.more s"
proof -
  have f: "vm_state.more (pmm_free_page p s) = vm_state.more s" for s :: "'a vm_state_scheme"
    by (intro more_vm more_heap more_paging) (rule free_page_more)
  assume "vm_page_ref_release p s = Some (rc, t)"
  then show ?thesis
    by (auto simp: vm_page_ref_release_def Let_def f dest!: kfree_more more_vm
        split: if_splits option.splits prod.splits)
qed

lemma pager_more: "vm_pager_alloc_zero_page s = Some (p, t) \<Longrightarrow> vm_state.more t = vm_state.more s"
proof -
  have f: "vm_state.more (snd (pmm_alloc_page_in_zone z s)) = vm_state.more s" for z
    by (intro more_vm more_heap more_paging) (rule alloc_page_more)
  assume "vm_pager_alloc_zero_page s = Some (p, t)"
  then show ?thesis
    using f [of PMM_ZONE_NORMAL]
    by (auto simp: vm_pager_alloc_zero_page_def Let_def split_beta dest!: ref_add_more
        split: if_splits option.splits)
qed

lemma upd_object_more [frame_simps]:
  "vm_state.more (upd_object a f s) = vm_state.more s" "vm_state.more (vm_object_ref a s) = vm_state.more s"
  by (simp_all add: upd_object_def vm_object_ref_def)

lemma object_create_more: "vm_object_create ty n s = Some (p, t) \<Longrightarrow> vm_state.more t = vm_state.more s"
  by (auto simp: vm_object_create_def Let_def dest!: kmalloc_more kfree_more more_vm
      split: if_splits option.splits prod.splits)

lemma release_pages_more: "release_pages ps s = Some t \<Longrightarrow> vm_state.more t = vm_state.more s"
  by (induction ps arbitrary: s) (auto dest: ref_release_more split: if_splits option.splits prod.splits)

lemma object_unref_more: "vm_object_unref a s = Some t \<Longrightarrow> vm_state.more t = vm_state.more s"
proof -
  have w: "vm_state.more (fold (object_write_back ob fb) xs s) = vm_state.more s" for ob fb xs s
    by (rule fold_keeps) (simp add: object_write_back_def write_back_def Let_def)
  assume "vm_object_unref a s = Some t"
  then show ?thesis
    by (auto simp: vm_object_unref_def Let_def frame_simps w
        dest!: kfree_more release_pages_more more_vm split: if_splits option.splits)
qed

lemma set_resident_more: "vm_object_set_resident_page a i p s = Some (rc, t) \<Longrightarrow> vm_state.more t = vm_state.more s"
  by (auto simp: vm_object_set_resident_page_def vm_page_ref_retain_def Let_def frame_simps
      dest!: ref_release_more ref_add_more split: if_splits option.splits)

end
