(* ===== verification/VmMapInv.thy ===== *)
theory VmMapInv
  imports VmFrame
begin

text \<open>
  Memory maps as finite partial functions: the entries of a map describe which addresses are
  mapped, how, and to which place of which object. Adding and removing ranges update and restrict
  that function, and keep the entries aligned, disjoint, inside user space and at most 128.
\<close>

section \<open>The map behind the entries\<close>

definition covers :: "vm_map_entry \<Rightarrow> u64 \<Rightarrow> bool" where
  "covers x a \<longleftrightarrow> me_start x \<le> a \<and> a < me_end x"

definition view :: "vm_map_entry \<Rightarrow> u64 \<Rightarrow> u32 \<times> u32 \<times> u64 \<times> u64" where
  "view x a = (me_prot x, me_flags x, me_object x, me_offset x + (a - me_start x))"

definition amap :: "vm_map_entry list \<Rightarrow> u64 \<rightharpoonup> u32 \<times> u32 \<times> u64 \<times> u64" where
  "amap es a = map_option (\<lambda>x. view x a) (vm_map_lookup es a)"

definition rng :: "vm_map_entry \<Rightarrow> u64 set" where
  "rng x = {a. covers x a}"

definition entry_ok :: "vm_map_entry \<Rightarrow> bool" where
  "entry_ok x \<longleftrightarrow> page_aligned (me_start x) \<and> page_aligned (me_end x) \<and> VM_USER_MIN \<le> me_start x \<and>
     me_start x < me_end x \<and> me_end x \<le> VM_USER_MAX"

definition entries_ok :: "vm_map_entry list \<Rightarrow> bool" where
  "entries_ok es \<longleftrightarrow> (\<forall>x \<in> set es. entry_ok x) \<and> sorted_wrt (\<lambda>x y. rng x \<inter> rng y = {}) es"

definition map_wf :: "vm_map_entry list \<Rightarrow> bool" where
  "map_wf es \<longleftrightarrow> entries_ok es \<and> length es \<le> VM_MAP_MAX_ENTRIES"

definition span :: "vm_map_entry list \<Rightarrow> u64 set" where
  "span es = (\<Union>x \<in> set es. rng x)"

lemma amap_simps [simp]:
  "amap [] a = None" "amap (x # es) a = (if covers x a then Some (view x a) else amap es a)"
  by (auto simp: amap_def vm_map_lookup_def covers_def)

lemma amap_append: "amap (xs @ ys) a = (case amap xs a of None \<Rightarrow> amap ys a | Some v \<Rightarrow> Some v)"
  by (induction xs) auto

lemma span_simps [simp]: "span [] = {}" "span (x # es) = rng x \<union> span es" "span (xs @ ys) = span xs \<union> span ys"
  by (auto simp: span_def)

lemma entries_ok_simps:
  "entries_ok []" "entries_ok (x # es) \<longleftrightarrow> entry_ok x \<and> entries_ok es \<and> rng x \<inter> span es = {}"
  "entries_ok (xs @ ys) \<longleftrightarrow> entries_ok xs \<and> entries_ok ys \<and> span xs \<inter> span ys = {}"
  by (auto simp: entries_ok_def span_def sorted_wrt_append)

lemma amap_None_iff: "amap es a = None \<longleftrightarrow> a \<notin> span es"
  by (induction es) (auto simp: rng_def)

section \<open>Alignment\<close>

lemma mask_000: "(0x1000 - 1 :: u64) = mask 12" by (simp add: mask_eq_exp_minus_1)

lemma vm_align_down_aligned: "page_aligned (vm_align_down v)"
  unfolding page_aligned_def vm_align_down_def mask_000 mask_12 [symmetric]
  by (rule bit_eqI) (auto simp: bit_simps mask_12)

lemma vm_align_up_aligned: "page_aligned (vm_align_up v)"
proof -
  have "vm_align_up v = vm_align_down (v + VM_PAGE_SIZE - 1)" by (simp add: vm_align_up_def vm_align_down_def)
  then show ?thesis by (simp add: vm_align_down_aligned)
qed

lemma unat_vm_align_down: "unat (vm_align_down v) = unat v div 4096 * 4096"
  using unat_ALIGN_DOWN_page [of v] by (simp add: vm_align_down_def ALIGN_DOWN_def)

lemma vm_align_down_id: "page_aligned v \<Longrightarrow> vm_align_down v = v"
  by (simp add: word_unat_eq_iff unat_vm_align_down page_aligned_unat mod_eq_0_iff_dvd)

lemma vm_align_up_add:
  assumes "page_aligned n"
  shows "vm_align_up (h + n) = vm_align_up h + n"
proof -
  have z: "unat n mod 4096 = 0" using assms by (simp add: page_aligned_unat)
  have e: "vm_align_up v = v + 4095 - take_bit 12 (v + 4095)" for v
    using and_not_mask_word [of "v + 4095" 12]
    by (simp add: vm_align_up_def mask_eq_exp_minus_1 add.commute)
  have "unat (h + 4095 + n) mod 4096 = (unat (h + 4095) + unat n) mod 4096"
    by (simp add: unat_word_ariths mod_mod_cancel)
  also have "\<dots> = unat (h + 4095) mod 4096" using z by (metis add.right_neutral mod_add_right_eq)
  finally have "take_bit 12 (h + n + 4095) = take_bit 12 (h + 4095)"
    by (simp add: word_unat_eq_iff unat_take_bit_word ac_simps)
  then show ?thesis by (simp add: e algebra_simps)
qed

lemma vm_align_up_id: "page_aligned n \<Longrightarrow> vm_align_up n = n"
  using vm_align_up_add [of n 0] by (simp add: vm_align_up_def)

section \<open>Removing a range\<close>

definition cut_entry :: "u64 \<Rightarrow> u64 \<Rightarrow> vm_map_entry \<Rightarrow> vm_map_entry list" where
  "cut_entry s e x =
     (let rs = (if me_start x < s then s else me_start x);
          re = (if e < me_end x then e else me_end x)
      in if re \<le> rs then [x]
         else (if me_start x < rs then [x\<lparr>me_end := rs\<rparr>] else []) @
              (if re < me_end x then [x\<lparr>me_start := re, me_offset := me_offset x + (re - me_start x)\<rparr>] else []))"

definition hits :: "u64 \<Rightarrow> u64 \<Rightarrow> vm_map_entry \<Rightarrow> bool" where
  "hits s e x \<longleftrightarrow> \<not> (if e < me_end x then e else me_end x) \<le> (if me_start x < s then s else me_start x)"

lemma view_cut [simp]:
  "view (x\<lparr>me_start := b, me_offset := me_offset x + (b - me_start x)\<rparr>) a = view x a"
  "view (x\<lparr>me_end := b\<rparr>) a = view x a"
  by (simp_all add: view_def)

lemma cut_cases:
  assumes "entry_ok x" "s \<le> e"
  obtains (miss) "cut_entry s e x = [x]" "\<not> hits s e x" "e \<le> me_start x \<or> me_end x \<le> s \<or> s = e"
  | (all) "cut_entry s e x = []" "hits s e x" "s \<le> me_start x" "me_end x \<le> e"
  | (left) "cut_entry s e x = [x\<lparr>me_start := e, me_offset := me_offset x + (e - me_start x)\<rparr>]"
      "hits s e x" "s \<le> me_start x" "me_start x < e" "e < me_end x"
  | (right) "cut_entry s e x = [x\<lparr>me_end := s\<rparr>]" "hits s e x" "me_start x < s" "s < me_end x" "me_end x \<le> e"
  | (mid) "cut_entry s e x = [x\<lparr>me_end := s\<rparr>, x\<lparr>me_start := e, me_offset := me_offset x + (e - me_start x)\<rparr>]"
      "hits s e x" "me_start x < s" "s < e" "e < me_end x"
proof -
  have l: "me_start x < me_end x" using assms(1) by (simp add: entry_ok_def)
  show ?thesis
  proof (cases "me_start x < s")
    case True
    show ?thesis
    proof (cases "e < me_end x")
      case True
      then show ?thesis
        using \<open>me_start x < s\<close> assms(2) miss mid
        by (cases "e \<le> s") (auto simp: cut_entry_def hits_def)
    next
      case False
      then show ?thesis
        using \<open>me_start x < s\<close> miss right
        by (cases "me_end x \<le> s") (auto simp: cut_entry_def hits_def)
    qed
  next
    case F: False
    show ?thesis
    proof (cases "e < me_end x")
      case True
      then show ?thesis
        using F miss left by (cases "e \<le> me_start x") (auto simp: cut_entry_def hits_def)
    next
      case False
      then show ?thesis using F l all by (auto simp: cut_entry_def hits_def)
    qed
  qed
qed

lemma cut_entry_amap:
  assumes "entry_ok x" "s \<le> e"
  shows "amap (cut_entry s e x) a = (if s \<le> a \<and> a < e then None else amap [x] a)"
  using assms by (cases rule: cut_cases) (auto simp: covers_def)

lemma cut_entry_ok:
  assumes "entry_ok x" "page_aligned s" "page_aligned e" "s \<le> e"
  shows "entries_ok (cut_entry s e x)" "span (cut_entry s e x) \<subseteq> rng x"
proof -
  have k: "page_aligned (me_start x)" "page_aligned (me_end x)" "VM_USER_MIN \<le> me_start x"
    "me_start x < me_end x" "me_end x \<le> VM_USER_MAX" using assms(1) by (simp_all add: entry_ok_def)
  from assms(1,4) have "entries_ok (cut_entry s e x) \<and> span (cut_entry s e x) \<subseteq> rng x"
  proof (cases rule: cut_cases)
    case miss
    then show ?thesis using assms(1) by (simp add: entries_ok_simps)
  next
    case all
    then show ?thesis by (simp add: entries_ok_simps)
  next
    case left
    have "VM_USER_MIN \<le> e" using k(3) left(4) by (rule order_trans [OF _ less_imp_le])
    moreover have "{a. e \<le> a \<and> a < me_end x} \<subseteq> {a. me_start x \<le> a \<and> a < me_end x}"
      using less_imp_le [OF left(4)] by (auto elim: order_trans)
    ultimately show ?thesis
      using left(1,5) k(2,5) assms(3) by (simp add: entries_ok_simps entry_ok_def rng_def covers_def)
  next
    case right
    have "s \<le> VM_USER_MAX" using less_imp_le [OF right(4)] k(5) by (rule order_trans)
    moreover have "{a. me_start x \<le> a \<and> a < s} \<subseteq> {a. me_start x \<le> a \<and> a < me_end x}"
      using right(4) by (auto elim: less_trans)
    ultimately show ?thesis
      using right(1,3) k(1,3) assms(2) by (simp add: entries_ok_simps entry_ok_def rng_def covers_def)
  next
    case mid
    have se: "me_start x < e" "s < me_end x" using mid(3-5) by (blast intro: less_trans)+
    have "VM_USER_MIN \<le> e" using k(3) less_imp_le [OF se(1)] by (rule order_trans)
    moreover have "s \<le> VM_USER_MAX" using less_imp_le [OF se(2)] k(5) by (rule order_trans)
    moreover have "{a. me_start x \<le> a \<and> a < s} \<subseteq> {a. me_start x \<le> a \<and> a < me_end x}"
      "{a. e \<le> a \<and> a < me_end x} \<subseteq> {a. me_start x \<le> a \<and> a < me_end x}"
      "{a. me_start x \<le> a \<and> a < s} \<inter> {a. e \<le> a \<and> a < me_end x} = {}"
      using mid(3-5) by (auto elim: less_trans order_trans dest: less_le_trans)
    ultimately show ?thesis
      using mid(1,3,5) k(1-3,5) assms(2,3) by (simp add: entries_ok_simps entry_ok_def rng_def covers_def)
  qed
  then show "entries_ok (cut_entry s e x)" "span (cut_entry s e x) \<subseteq> rng x" by blast+
qed

lemma cut_amap:
  assumes "\<forall>x \<in> set es. entry_ok x" "s \<le> e"
  shows "amap (concat (map (cut_entry s e) es)) a = (if s \<le> a \<and> a < e then None else amap es a)"
  using assms(1)
proof (induction es)
  case (Cons x es)
  then show ?case
    using cut_entry_amap [of x s e a] assms(2) by (auto simp: amap_append split: option.splits)
qed simp


lemma cut_ok:
  assumes "entries_ok es" "page_aligned s" "page_aligned e" "s \<le> e"
  shows "entries_ok (concat (map (cut_entry s e) es)) \<and> span (concat (map (cut_entry s e) es)) \<subseteq> span es"
  using assms(1)
proof (induction es)
  case (Cons x es)
  then have x: "entry_ok x" "rng x \<inter> span es = {}" by (simp_all add: entries_ok_simps)
  note c = cut_entry_ok [OF x(1) assms(2-4)]
  show ?case using Cons x(2) c by (simp add: entries_ok_simps) blast
qed (simp add: entries_ok_simps)

text \<open>What the layers below keep of the maps and tasks.\<close>

lemma vmap_fields:
  fixes s t :: "'a vmap_state_scheme"
  assumes "vm_state.more t = vm_state.more s"
  shows "vm_maps t = vm_maps s" "task_vms t = task_vms s" "vmap_state.more t = vmap_state.more s"
  using assms by (cases s; cases t; simp)+

lemma unmap_pages_more: "unmap_pages r vas s = Some t \<Longrightarrow> vm_state.more t = vm_state.more s"
proof (induction vas arbitrary: s)
  case (Cons va vas)
  have u: "vm_state.more (snd (paging_unmap_page_pml4 r va s)) = vm_state.more s"
    by (intro more_vm more_heap) (rule unmap_pml4_more)
  show ?case
    using Cons u by (auto simp: Let_def dest!: ref_release_more split: if_splits option.splits prod.splits)
qed simp

lemma unref_some_more:
  "(if c then vm_object_unref a s else Some s) = Some t \<Longrightarrow> vm_state.more t = vm_state.more s"
  by (auto dest: object_unref_more split: if_splits)

lemma unmap_some_more:
  "(if c then unmap_pages r vas s else Some s) = Some t \<Longrightarrow> vm_state.more t = vm_state.more s"
  by (auto dest: unmap_pages_more split: if_splits)

lemma object_ref_more: "vm_state.more (vm_object_ref a s) = vm_state.more s"
  by (simp add: vm_object_ref_def upd_object_more)

text \<open>
  The removal loop computes the cut entries, or gives up with \<open>RDNX_E_BUSY\<close> at an entry that must be
  split when the array is full.
\<close>

lemma remove_step:
  assumes r: "remove_loop s e own r removed old (x # es) st = Some res" and x: "entry_ok x" and se: "s \<le> e"
  obtains (busy) st' where "res = (RDNX_E_BUSY, old @ x # es, st')" "vm_state.more st' = vm_state.more st"
      "me_start x < s" "e < me_end x" "128 \<le> length (old @ x # es)"
  | (cont) st' where "remove_loop s e own r (removed \<or> hits s e x) (old @ cut_entry s e x) es st' = Some res"
      "vm_state.more st' = vm_state.more st"
      "length (old @ cut_entry s e x @ es) \<le> max 128 (length (old @ x # es))"
  using x se
proof (cases rule: cut_cases)
  case miss
  then show ?thesis using r cont [of st] by (simp add: hits_def Let_def)
next
  case all
  from all r obtain st1 where 1: "(if own then unmap_pages r (page_steps (me_start x) (me_end x)) st else Some st) = Some st1"
    and "(case (if me_object x \<noteq> 0 then vm_object_unref (me_object x) st1 else Some st1) of None \<Rightarrow> None
          | Some st \<Rightarrow> remove_loop s e own r True old es st) = Some res"
    by (auto simp: hits_def Let_def split: option.splits if_splits)
  then obtain st2 where 2: "(if me_object x \<noteq> 0 then vm_object_unref (me_object x) st1 else Some st1) = Some st2"
    and 3: "remove_loop s e own r True old es st2 = Some res"
    by (auto split: option.splits)
  show ?thesis
    using cont [of st2] 3 all unref_some_more [OF 2] unmap_some_more [OF 1] by simp
next
  case left
  from left r obtain st1 where 1: "(if own then unmap_pages r (page_steps (me_start x) e) st else Some st) = Some st1"
    and "remove_loop s e own r True
           (old @ [x\<lparr>me_start := e, me_offset := me_offset x + (e - me_start x)\<rparr>]) es st1 = Some res"
    by (auto simp: hits_def Let_def split: option.splits if_splits)
  then show ?thesis using cont [of st1] left unmap_some_more [OF 1] by simp
next
  case right
  from right r obtain st1 where 1: "(if own then unmap_pages r (page_steps s (me_end x)) st else Some st) = Some st1"
    and "remove_loop s e own r True (old @ [x\<lparr>me_end := s\<rparr>]) es st1 = Some res"
    by (auto simp: hits_def Let_def split: option.splits if_splits)
  then show ?thesis using cont [of st1] right unmap_some_more [OF 1] by simp
next
  case mid
  let ?t = "x\<lparr>me_start := e, me_offset := me_offset x + (e - me_start x)\<rparr>"
  have ne: "s \<noteq> me_start x" "e \<noteq> me_end x" using mid(3,5) by auto
  from mid r ne obtain st1 where 1: "(if own then unmap_pages r (page_steps s e) st else Some st) = Some st1"
    and 2: "(if VM_MAP_MAX_ENTRIES \<le> length old + 1 + length es then Some (RDNX_E_BUSY, old @ x # es, st1)
        else remove_loop s e own r True (old @ [x\<lparr>me_end := s\<rparr>, ?t]) es
               (if me_object x \<noteq> 0 then vm_object_ref (me_object x) st1 else st1)) = Some res"
    by (simp add: hits_def Let_def split: option.splits cong: if_cong)
  show ?thesis
  proof (cases "VM_MAP_MAX_ENTRIES \<le> length old + 1 + length es")
    case True
    then show ?thesis using busy [of st1] 2 mid unmap_some_more [OF 1] by auto
  next
    case False
    let ?st2 = "if me_object x \<noteq> 0 then vm_object_ref (me_object x) st1 else st1"
    have "vm_state.more ?st2 = vm_state.more st" using unmap_some_more [OF 1] by (simp add: object_ref_more)
    then show ?thesis using cont [of ?st2] False 2 mid by simp
  qed
qed

definition remove_spec ::
  "u64 \<Rightarrow> u64 \<Rightarrow> bool \<Rightarrow> vm_map_entry list \<Rightarrow> vm_map_entry list \<Rightarrow> int \<Rightarrow> vm_map_entry list \<Rightarrow> bool" where
  "remove_spec s e removed old es rc es' \<longleftrightarrow>
     (rc = (if removed \<or> (\<exists>x \<in> set es. hits s e x) then RDNX_OK else RDNX_E_NOTFOUND) \<and>
      es' = old @ concat (map (cut_entry s e) es)) \<or>
     (rc = RDNX_E_BUSY \<and> 128 \<le> length es' \<and>
      (\<exists>xs x ys. es = xs @ x # ys \<and> es' = old @ concat (map (cut_entry s e) xs) @ x # ys \<and>
         me_start x < s \<and> e < me_end x))"

lemma remove_spec_Cons:
  "remove_spec s e (removed \<or> hits s e x) (old @ cut_entry s e x) es rc es' \<Longrightarrow>
     remove_spec s e removed old (x # es) rc es'"
  unfolding remove_spec_def
  by (elim disjE conjE exE) (simp, metis append_Cons append_assoc concat.simps(2) list.simps(9))

lemma remove_loop_entries:
  assumes "remove_loop s e own r removed old es st = Some (rc, es', st')" "\<forall>x \<in> set es. entry_ok x" "s \<le> e"
  shows "vm_state.more st' = vm_state.more st \<and> length es' \<le> max 128 (length (old @ es)) \<and>
    remove_spec s e removed old es rc es'"
  using assms(1,2)
proof (induction es arbitrary: removed old st)
  case (Cons x es)
  have x: "entry_ok x" and xs: "\<forall>x \<in> set es. entry_ok x" using Cons.prems(2) by simp_all
  from Cons.prems(1) x assms(3) show ?case
  proof (cases rule: remove_step)
    case (busy st1)
    then have "es' = [] @ old @ concat (map (cut_entry s e) []) @ x # es" by simp
    with busy show ?thesis by (auto simp: remove_spec_def intro!: exI [of _ "[]"])
  next
    case (cont st1)
    from Cons.IH [OF cont(1) xs] cont(2,3) show ?thesis
      by (auto intro: remove_spec_Cons)
  qed
qed (simp add: remove_spec_def)

end
