(* ===== verification/VmOps.thy ===== *)
theory VmOps
  imports VmMapInv
begin

text \<open>
  Adding a range to a map, removing one and looking for room, as operations on the partial function
  behind the entries.
\<close>

section \<open>Adding a range\<close>

lemma upd_map_fields [simp]:
  "vm_maps (upd_map mp es s) = (vm_maps s)(mp := (vm_maps s mp)\<lparr>mp_entries := es\<rparr>)"
  "task_vms (upd_map mp es s) = task_vms s"
  "vmap_state.more (upd_map mp es s) = vmap_state.more s"
  by (simp_all add: upd_map_def)

lemma upd_task_fields [simp]:
  "vm_maps (upd_task t f s) = vm_maps s"
  "task_vms (upd_task t f s) = (task_vms s)(t := f (task_vms s t))"
  by (simp_all add: upd_task_def)

lemma object_ref_fields [simp]:
  "vm_maps (vm_object_ref a s) = vm_maps s" "task_vms (vm_object_ref a s) = task_vms s"
  by (simp_all add: vm_object_ref_def upd_object_def)

definition new_entry :: "u64 \<Rightarrow> u64 \<Rightarrow> u32 \<Rightarrow> u32 \<Rightarrow> u64 \<Rightarrow> u64 \<Rightarrow> vm_map_entry" where
  "new_entry s e prot flags obj off =
     \<lparr>me_start = s, me_end = e, me_prot = prot, me_flags = flags, me_object = obj, me_offset = off\<rparr>"

definition add_fails :: "vm_map_entry list \<Rightarrow> u64 \<Rightarrow> u64 \<Rightarrow> u64 \<Rightarrow> int option" where
  "add_fails es mp start len =
     (let s = vm_align_down start; e = vm_align_up (start + len)
      in if mp = 0 \<or> len = 0 \<or> \<not> vm_range_valid s e then Some RDNX_E_INVALID
         else if 128 \<le> length es \<or> vm_map_overlap es s e then Some RDNX_E_BUSY else None)"

lemma vm_map_add_eq:
  "vm_map_add mp start len prot flags obj off st =
     (case add_fails (mp_entries (vm_maps st mp)) mp start len of
        Some rc \<Rightarrow> (rc, st)
      | None \<Rightarrow> (RDNX_OK, vm_object_ref obj (upd_map mp (mp_entries (vm_maps st mp) @
          [new_entry (vm_align_down start) (vm_align_up (start + len)) prot flags obj off]) st)))"
  by (simp add: vm_map_add_def add_fails_def new_entry_def Let_def vm_object_ref_def)

lemma range_valid_iff: "vm_range_valid s e \<longleftrightarrow> VM_USER_MIN \<le> s \<and> s < e \<and> e \<le> VM_USER_MAX"
proof -
  have "\<not> X86_64_KERNEL_VIRT_BASE \<le> a" if "a \<le> VM_USER_MAX" for a
    using that by (simp add: word_le_nat_alt)
  then show ?thesis
    unfolding vm_range_valid_def by (meson leI le_less_trans less_imp_le not_le order_trans)
qed

lemma overlap_iff:
  assumes "\<forall>x \<in> set es. entry_ok x" "s < e"
  shows "vm_map_overlap es s e \<longleftrightarrow> {a. s \<le> a \<and> a < e} \<inter> span es \<noteq> {}"
proof -
  have "\<not> (e \<le> me_start x \<or> me_end x \<le> s) \<longleftrightarrow> {a. s \<le> a \<and> a < e} \<inter> rng x \<noteq> {}" if "x \<in> set es" for x
  proof
    assume "\<not> (e \<le> me_start x \<or> me_end x \<le> s)"
    moreover have "me_start x < me_end x" using assms(1) that by (simp add: entry_ok_def)
    ultimately have "max s (me_start x) \<in> {a. s \<le> a \<and> a < e} \<inter> rng x"
      using assms(2) by (auto simp: rng_def covers_def not_le)
    then show "{a. s \<le> a \<and> a < e} \<inter> rng x \<noteq> {}" by blast
  next
    assume "{a. s \<le> a \<and> a < e} \<inter> rng x \<noteq> {}"
    then show "\<not> (e \<le> me_start x \<or> me_end x \<le> s)" by (auto simp: rng_def covers_def)
  qed
  then show ?thesis unfolding vm_map_overlap_def list_ex_iff span_def by blast
qed

lemma add_entry_ok:
  assumes "entries_ok es" "page_aligned s" "page_aligned e" "vm_range_valid s e" "\<not> vm_map_overlap es s e"
  shows "entries_ok (es @ [new_entry s e prot flags obj off])"
    "amap (es @ [new_entry s e prot flags obj off]) a =
       (if s \<le> a \<and> a < e then Some (prot, flags, obj, off + (a - s)) else amap es a)"
proof -
  let ?n = "new_entry s e prot flags obj off"
  have v: "VM_USER_MIN \<le> s" "s < e" "e \<le> VM_USER_MAX" using assms(4) by (simp_all add: range_valid_iff)
  have r: "rng ?n = {a. s \<le> a \<and> a < e}" by (simp add: rng_def covers_def new_entry_def)
  have d: "{a. s \<le> a \<and> a < e} \<inter> span es = {}"
    using assms(1,5) overlap_iff [OF _ v(2)] by (simp add: entries_ok_def)
  show "entries_ok (es @ [?n])"
    using assms(1-3) v d r by (auto simp: entries_ok_simps entry_ok_def new_entry_def)
  have "amap es a = None" if "s \<le> a \<and> a < e" using that d by (auto simp: amap_None_iff)
  then show "amap (es @ [?n]) a = (if s \<le> a \<and> a < e then Some (prot, flags, obj, off + (a - s)) else amap es a)"
    by (auto simp: amap_append covers_def view_def new_entry_def split: option.split)
qed

lemma add_map_wf:
  assumes "map_wf es" "add_fails es mp start len = None"
  shows "map_wf (es @ [new_entry (vm_align_down start) (vm_align_up (start + len)) prot flags obj off])"
  using assms add_entry_ok(1) [OF _ vm_align_down_aligned vm_align_up_aligned]
  by (auto simp: map_wf_def add_fails_def Let_def split: if_splits)

section \<open>Removing a range\<close>

lemma cut_miss: "entry_ok x \<Longrightarrow> s \<le> e \<Longrightarrow> rng x \<inter> {a. s \<le> a \<and> a < e} = {} \<Longrightarrow> cut_entry s e x = [x] \<and> \<not> hits s e x"
proof -
  assume a: "entry_ok x" "s \<le> e" "rng x \<inter> {a. s \<le> a \<and> a < e} = {}"
  have "max s (me_start x) \<notin> rng x \<inter> {a. s \<le> a \<and> a < e}" using a(3) by blast
  moreover have "me_start x < me_end x" using a(1) by (simp add: entry_ok_def)
  ultimately have "\<not> hits s e x" by (auto simp: hits_def rng_def covers_def max_def split: if_splits)
  then show ?thesis by (simp add: hits_def cut_entry_def)
qed

lemma cut_miss_list:
  assumes "\<forall>x \<in> set es. entry_ok x" "s \<le> e" "span es \<inter> {a. s \<le> a \<and> a < e} = {}"
  shows "concat (map (cut_entry s e) es) = es" "\<not> (\<exists>x \<in> set es. hits s e x)"
proof -
  have "cut_entry s e x = [x] \<and> \<not> hits s e x" if "x \<in> set es" for x
    using assms that by (intro cut_miss) (auto simp: span_def)
  then show "concat (map (cut_entry s e) es) = es" "\<not> (\<exists>x \<in> set es. hits s e x)"
    by (induction es) auto
qed

lemma hits_span:
  assumes "\<forall>x \<in> set es. entry_ok x" "s < e"
  shows "(\<exists>x \<in> set es. hits s e x) \<longleftrightarrow> span es \<inter> {a. s \<le> a \<and> a < e} \<noteq> {}"
proof
  assume "\<exists>x \<in> set es. hits s e x"
  then obtain x where x: "x \<in> set es" "hits s e x" by blast
  have "me_start x < me_end x" using assms(1) x(1) by (simp add: entry_ok_def)
  with x(2) assms(2) have "max s (me_start x) \<in> rng x \<inter> {a. s \<le> a \<and> a < e}"
    by (auto simp: hits_def rng_def covers_def max_def split: if_splits)
  with x(1) show "span es \<inter> {a. s \<le> a \<and> a < e} \<noteq> {}" by (auto simp: span_def)
next
  assume "span es \<inter> {a. s \<le> a \<and> a < e} \<noteq> {}"
  then show "\<exists>x \<in> set es. hits s e x" using cut_miss_list(2) [OF assms(1) less_imp_le [OF assms(2)]]
    by (force simp: span_def rng_def covers_def hits_def)
qed


text \<open>
  What removing the range from \<open>s\<close> to \<open>e\<close> does to the entries. It is refused, and the entries are as before,
  only if the map is full and the range lies strictly inside one entry.
\<close>

definition removed_entries :: "u64 \<Rightarrow> u64 \<Rightarrow> vm_map_entry list \<Rightarrow> int \<Rightarrow> vm_map_entry list \<Rightarrow> bool" where
  "removed_entries s e es rc es' \<longleftrightarrow>
     (if rc = RDNX_E_BUSY
      then es' = es \<and> length es = 128 \<and> (\<exists>x \<in> set es. me_start x < s \<and> e < me_end x)
      else rc = (if span es \<inter> {a. s \<le> a \<and> a < e} \<noteq> {} then RDNX_OK else RDNX_E_NOTFOUND) \<and>
           es' = concat (map (cut_entry s e) es))"

lemma removed_entries_busy:
  assumes ok: "entries_ok (xs @ x # ys)" and x: "me_start x < s" "e < me_end x" and se: "s < e"
  shows "concat (map (cut_entry s e) xs) = xs"
proof -
  have "{a. s \<le> a \<and> a < e} \<subseteq> rng x" using x by (auto simp: rng_def covers_def)
  moreover have "span xs \<inter> rng x = {}" using ok by (auto simp: entries_ok_simps)
  ultimately show ?thesis
    using ok se by (intro cut_miss_list(1)) (auto simp: entries_ok_simps entries_ok_def)
qed

lemma remove_spec_removed:
  assumes wf: "map_wf es" and al: "page_aligned s" "page_aligned e" and se: "s < e"
    and sp: "remove_spec s e False [] es rc es'" and len: "length es' \<le> max 128 (length es)"
  shows "removed_entries s e es rc es'" "map_wf es'"
    "amap es' a = (if rc \<noteq> RDNX_E_BUSY \<and> s \<le> a \<and> a < e then None else amap es a)"
proof -
  have ok: "entries_ok es" "length es \<le> 128" "\<forall>x \<in> set es. entry_ok x"
    using wf by (simp_all add: map_wf_def entries_ok_def)
  note h = hits_span [OF ok(3) se]
  consider (cut) "rc = (if span es \<inter> {a. s \<le> a \<and> a < e} \<noteq> {} then RDNX_OK else RDNX_E_NOTFOUND)"
      "es' = concat (map (cut_entry s e) es)"
    | (busy) "rc = RDNX_E_BUSY" "es' = es" "length es = 128" "\<exists>x \<in> set es. me_start x < s \<and> e < me_end x"
  proof (cases "rc = (if span es \<inter> {a. s \<le> a \<and> a < e} \<noteq> {} then RDNX_OK else RDNX_E_NOTFOUND) \<and>
      es' = concat (map (cut_entry s e) es)")
    case False
    then obtain xs x ys where b: "rc = RDNX_E_BUSY" "128 \<le> length es'" "es = xs @ x # ys"
        "es' = concat (map (cut_entry s e) xs) @ x # ys" "me_start x < s" "e < me_end x"
      using sp unfolding remove_spec_def h append_Nil simp_thms by blast
    have "es' = es" using b(3,4) removed_entries_busy [OF _ b(5,6) se, of xs ys] ok(1) by simp
    then show ?thesis using busy b ok(2) by auto
  qed (use cut in blast)
  then have "removed_entries s e es rc es' \<and> map_wf es' \<and>
    amap es' a = (if rc \<noteq> RDNX_E_BUSY \<and> s \<le> a \<and> a < e then None else amap es a)"
  proof cases
    case cut
    have "amap es' a = (if s \<le> a \<and> a < e then None else amap es a)"
      unfolding cut(2) by (rule cut_amap) (use ok(3) se in auto)
    moreover have "entries_ok es'" unfolding cut(2) using cut_ok [OF ok(1) al] se by simp
    ultimately show ?thesis using cut ok(2) len by (auto simp: removed_entries_def map_wf_def)
  next
    case busy
    then show ?thesis using wf by (simp add: removed_entries_def)
  qed
  then show "removed_entries s e es rc es'" "map_wf es'"
    "amap es' a = (if rc \<noteq> RDNX_E_BUSY \<and> s \<le> a \<and> a < e then None else amap es a)"
    by blast+
qed

lemma vm_map_remove_entries:
  fixes st :: "'a vmap_state_scheme"
  assumes r: "vm_map_remove mp start len r st = Some (rc, st')" and wf: "map_wf (mp_entries (vm_maps st mp))"
  defines "s \<equiv> vm_align_down start" and "e \<equiv> vm_align_up (start + len)"
  obtains (invalid) "mp = 0 \<or> len = 0 \<or> e \<le> s" "rc = RDNX_E_INVALID" "st' = st"
  | (valid) es where "mp \<noteq> 0" "len \<noteq> 0" "s < e"
      "vm_maps st' = (vm_maps st)(mp := (vm_maps st mp)\<lparr>mp_entries := es\<rparr>)"
      "task_vms st' = task_vms st" "removed_entries s e (mp_entries (vm_maps st mp)) rc es" "map_wf es"
      "\<And>a. amap es a = (if rc \<noteq> RDNX_E_BUSY \<and> s \<le> a \<and> a < e then None else amap (mp_entries (vm_maps st mp)) a)"
proof (cases "mp = 0 \<or> len = 0 \<or> e \<le> s")
  case True
  then show ?thesis using r invalid by (simp add: vm_map_remove_def Let_def s_def e_def)
next
  case False
  then obtain es u where u: "remove_loop s e (r = mp_pml4 (vm_maps st mp)) r False [] (mp_entries (vm_maps st mp)) st
      = Some (rc, es, u)" "st' = upd_map mp es u"
    using r by (auto simp: vm_map_remove_def Let_def s_def e_def split: option.splits)
  have al: "page_aligned s" "page_aligned e" by (simp_all add: s_def e_def vm_align_down_aligned vm_align_up_aligned)
  have ok: "\<forall>x \<in> set (mp_entries (vm_maps st mp)). entry_ok x" using wf by (simp add: map_wf_def entries_ok_def)
  have l: "vm_state.more u = vm_state.more st" "length es \<le> max 128 (length (mp_entries (vm_maps st mp)))"
    "remove_spec s e False [] (mp_entries (vm_maps st mp)) rc es"
    using remove_loop_entries [OF u(1) ok] False by auto
  have se: "s < e" using False by (simp add: not_le)
  note k = remove_spec_removed [OF wf al se l(3,2)]
  show ?thesis
    using valid [of es] False se u(2) vmap_fields [OF l(1)] k by simp
qed


section \<open>Finding room\<close>

definition room :: "vm_map_entry list \<Rightarrow> u64 \<Rightarrow> u64 \<Rightarrow> bool" where
  "room es n q \<longleftrightarrow> page_aligned q \<and> unat q + unat n < 0x80000000 \<and> \<not> vm_map_overlap es q (q + n)"

lemma page_step_gap:
  assumes "page_aligned s" "page_aligned q" "s < q"
  shows "s + VM_PAGE_SIZE \<le> q"
proof -
  obtain i j where "unat s = 4096 * i" "unat q = 4096 * j"
    using assms by (auto simp: page_aligned_unat mod_eq_0_iff_dvd elim!: dvdE)
  moreover have "unat s < unat q" using assms by (simp add: word_less_nat_alt)
  ultimately have "unat s + 4096 \<le> unat q" by simp
  moreover have "unat (s + VM_PAGE_SIZE) \<le> unat s + 4096" by (simp add: unat_word_ariths)
  ultimately show ?thesis by (simp add: word_le_nat_alt)
qed

lemma gap_loop_correct:
  assumes "page_aligned s" "unat e = unat s + unat n" "0 < s"
  shows "(gap_loop es s e = 0 \<and> (\<forall>q \<ge> s. \<not> room es n q)) \<or>
    (s \<le> gap_loop es s e \<and> room es n (gap_loop es s e) \<and> (\<forall>q. s \<le> q \<and> q < gap_loop es s e \<longrightarrow> \<not> room es n q))"
  using assms
proof (induction es s e rule: gap_loop.induct)
  case (1 es s e)
  have en: "e = s + n" using 1(3) unsigned_less [of e, where ?'a = nat] by (simp add: word_unat_eq_iff unat_word_ariths)
  show ?case
  proof (cases "e < VM_USER_MAX")
    case False
    then have "0x80000000 \<le> unat s + unat n" using 1(3) by (simp add: word_less_nat_alt)
    then have "\<not> room es n q" if "s \<le> q" for q using that by (simp add: room_def word_le_nat_alt)
    then show ?thesis using False gap_loop.simps [of es s e] by simp
  next
    case lt: True
    then have u: "unat s + unat n < 0x80000000" using 1(3) by (simp add: word_less_nat_alt)
    show ?thesis
    proof (cases "vm_map_overlap es s e")
      case False
      then have "gap_loop es s e = s" using lt gap_loop.simps [of es s e] by simp
      then show ?thesis using False u 1(2) en by (auto simp: room_def dest: leD)
    next
      case True
      then have g: "gap_loop es s e = gap_loop es (s + VM_PAGE_SIZE) (e + VM_PAGE_SIZE)"
        using lt gap_loop.simps [of es s e] by simp
      have us: "unat (s + VM_PAGE_SIZE) = unat s + 4096" "unat (e + VM_PAGE_SIZE) = unat e + 4096"
        using u 1(3) by (simp_all add: unat_word_ariths)
      have ih: "(gap_loop es s e = 0 \<and> (\<forall>q \<ge> s + VM_PAGE_SIZE. \<not> room es n q)) \<or>
          (s + VM_PAGE_SIZE \<le> gap_loop es s e \<and> room es n (gap_loop es s e) \<and>
           (\<forall>q. s + VM_PAGE_SIZE \<le> q \<and> q < gap_loop es s e \<longrightarrow> \<not> room es n q))"
        unfolding g
      proof (rule 1(1) [OF lt])
        show "\<not> \<not> vm_map_overlap es s e" using True by simp
        show "page_aligned (s + VM_PAGE_SIZE)"
          using 1(2) us by (simp add: page_aligned_unat)
        show "unat (e + VM_PAGE_SIZE) = unat (s + VM_PAGE_SIZE) + unat n" using us 1(3) by simp
        show "0 < s + VM_PAGE_SIZE" using us by (simp add: word_less_nat_alt)
      qed
      have n: "\<not> room es n q" if "\<not> s + VM_PAGE_SIZE \<le> q" "s \<le> q" for q
      proof (cases "q = s")
        case False
        then have "s < q" using that by simp
        then show ?thesis using page_step_gap [OF 1(2), of q] that(1) by (auto simp: room_def)
      qed (use True en in \<open>simp add: room_def\<close>)
      have "s \<le> s + VM_PAGE_SIZE" using us by (simp add: word_le_nat_alt)
      then show ?thesis using ih n by (blast intro: order_trans)
    qed
  qed
qed

lemma vm_find_gap_cases:
  assumes al: "page_aligned len" and w: "unat len < 2 ^ 63"
  shows "(vm_find_gap es hint len = 0 \<and> (len = 0 \<or> (\<forall>q. vm_align_up hint \<le> q \<and> VM_DEFAULT_MMAP \<le> q \<longrightarrow> \<not> room es len q))) \<or>
    (len \<noteq> 0 \<and> vm_align_up hint \<le> vm_find_gap es hint len \<and> VM_DEFAULT_MMAP \<le> vm_find_gap es hint len \<and>
     room es len (vm_find_gap es hint len) \<and>
     (\<forall>q. vm_align_up hint \<le> q \<and> VM_DEFAULT_MMAP \<le> q \<and> q < vm_find_gap es hint len \<longrightarrow> \<not> room es len q))"
proof -
  let ?h = "vm_align_up hint"
  have e: "vm_align_up (hint + len) = ?h + len" using al by (rule vm_align_up_add)
  show ?thesis
  proof (cases "?h + len \<le> ?h")
    case True
    then have g: "vm_find_gap es hint len = 0" by (simp add: vm_find_gap_def e)
    have "2 ^ 64 \<le> unat ?h + unat len" if "len \<noteq> 0"
    proof (rule ccontr)
      assume "\<not> 2 ^ 64 \<le> unat ?h + unat len"
      then have "unat (?h + len) = unat ?h + unat len" by (simp add: unat_word_ariths)
      with True have "unat len = 0" by (simp add: word_le_nat_alt)
      with that show False by (simp add: unat_eq_0)
    qed
    then have "\<not> room es len q" if "len \<noteq> 0" "?h \<le> q" for q
      using that by (auto simp: room_def word_le_nat_alt)
    with g show ?thesis by blast
  next
    case False
    then have n0: "len \<noteq> 0" by auto
    let ?t = "if ?h < VM_DEFAULT_MMAP then VM_DEFAULT_MMAP else ?h"
    have g: "vm_find_gap es hint len = gap_loop es ?t (?t + len)"
      using False by (simp add: vm_find_gap_def e Let_def vm_align_up_id [OF al])
    have t: "page_aligned ?t" "0 < ?t"
      using vm_align_up_aligned [of hint] by (auto simp: page_aligned_def word_less_nat_alt)
    have nw: "unat ?h + unat len < 2 ^ 64"
    proof (rule ccontr)
      assume "\<not> unat ?h + unat len < 2 ^ 64"
      then have "unat (?h + len) \<le> unat ?h"
        using unsigned_less [of len, where ?'a = nat] unsigned_less [of ?h, where ?'a = nat] by (simp add: unat_word_ariths mod_if) arith
      with False show False by (simp add: word_le_nat_alt)
    qed
    have "unat (?t + len) = unat ?t + unat len"
      using nw w by (auto simp: unat_word_ariths)
    note c = gap_loop_correct [OF t(1) this t(2), of es]
    have tq: "?t \<le> q \<longleftrightarrow> ?h \<le> q \<and> VM_DEFAULT_MMAP \<le> q" for q
    proof (cases "?h < VM_DEFAULT_MMAP")
      case True
      then show ?thesis using order_trans [OF less_imp_le [OF True], of q] by auto
    next
      case False
      then show ?thesis using order_trans [of VM_DEFAULT_MMAP ?h q] by (auto simp: not_less)
    qed
    show ?thesis unfolding g using c n0 unfolding tq by blast
  qed
qed

end
