(* ===== verification/VmTask.thy ===== *)
theory VmTask
  imports VmOps
begin

text \<open>
  The task operations: what each does to the maps, and that every map stays well formed whatever
  sequence of operations runs. Destroying an address space ends.
\<close>

section \<open>Maps and tasks through the layers below\<close>

definition same_maps :: "'a vmap_state_scheme \<Rightarrow> 'a vmap_state_scheme \<Rightarrow> bool" where
  "same_maps s t \<longleftrightarrow> vm_maps t = vm_maps s \<and> task_vms t = task_vms s"

lemma same_maps_refl [simp]: "same_maps s s" by (simp add: same_maps_def)

lemma same_maps_trans: "same_maps s t \<Longrightarrow> same_maps t u \<Longrightarrow> same_maps s u" by (simp add: same_maps_def)

lemma same_maps_more: "vm_state.more t = vm_state.more s \<Longrightarrow> same_maps s t"
  using vmap_fields [of t s] by (simp add: same_maps_def)

lemma kmalloc_maps: "kmalloc n s = Some (p, t) \<Longrightarrow> same_maps s t"
  by (intro same_maps_more more_vm) (rule kmalloc_more)

lemma kfree_maps: "kfree p s = Some t \<Longrightarrow> same_maps s t"
  by (intro same_maps_more more_vm) (rule kfree_more)

lemmas layer_maps = same_maps_more [OF ref_add_more] same_maps_more [OF ref_release_more]
  same_maps_more [OF pager_more] same_maps_more [OF object_create_more] same_maps_more [OF object_unref_more]
  same_maps_more [OF set_resident_more] kmalloc_maps kfree_maps

lemma map_page_maps: "same_maps s (snd (paging_map_page_4kb_pml4 r v p f s))"
  by (intro same_maps_more more_vm more_heap) (rule map_pml4_more)

lemma unref_entries_maps: "unref_entries es s = Some t \<Longrightarrow> same_maps s t"
proof (induction es arbitrary: s)
  case (Cons e es)
  then show ?case
    by (auto split: option.splits if_splits dest!: layer_maps intro: same_maps_trans)
qed simp

lemma map_destroy_maps:
  assumes "vm_map_destroy mp s = Some t"
  shows "task_vms t = task_vms s"
    "vm_maps t = (if mp = 0 then vm_maps s else (vm_maps s)(mp := (vm_maps s mp)
       \<lparr>mp_entries := map (\<lambda>e. e\<lparr>me_object := 0\<rparr>) (mp_entries (vm_maps s mp))\<rparr>))"
  using assms
  by (auto simp: vm_map_destroy_def same_maps_def dest!: unref_entries_maps kfree_maps split: if_splits option.splits)

lemma map_create_maps:
  assumes "vm_map_create r s = Some (mp, t)"
  shows "task_vms t = task_vms s"
    "vm_maps t = (if mp = 0 then vm_maps s else (vm_maps s)(mp := \<lparr>mp_pml4 = r, mp_entries = []\<rparr>))"
  using assms by (auto simp: vm_map_create_def same_maps_def dest!: kmalloc_maps split: if_splits option.splits)

lemma fork_pages_maps: "fork_pages cow prot r r' vas s = Some (ok, t) \<Longrightarrow> same_maps s t"
proof (induction vas arbitrary: s)
  case (Cons va vas)
  let ?p = "paging_get_physical va s AND NOT (VM_PAGE_SIZE - 1)"
  show ?case
  proof (cases "?p = 0")
    case True
    then show ?thesis using Cons by simp
  next
    case False
    define f where "f = (let eff_prot = (if cow then prot AND NOT VM_PROT_WRITE else prot);
        flags = PTE_PRESENT OR PTE_USER; flags = (if eff_prot AND VM_PROT_WRITE \<noteq> 0 then flags OR PTE_RW else flags)
      in if eff_prot AND VM_PROT_EXEC = 0 then flags OR PTE_NX else flags)"
    obtain rc s1 where m: "paging_map_page_4kb_pml4 r' va ?p f s = (rc, s1)" by fastforce
    have r: "(if rc \<noteq> RDNX_OK then Some (False, s1) else case vm_page_ref_retain ?p s1 of None \<Rightarrow> None
         | Some (_, s) \<Rightarrow> fork_pages cow prot r r' vas
             (if cow then snd (paging_map_page_4kb_pml4 r va ?p f s) else s)) = Some (ok, t)"
      using Cons.prems False m unfolding f_def fork_pages.simps Let_def by simp
    have 1: "same_maps s s1" using map_page_maps [of s r' va ?p f] m by simp
    show ?thesis
    proof (cases "rc = RDNX_OK")
      case True
      then obtain x s2 where 2: "vm_page_ref_retain ?p s1 = Some (x, s2)"
        "fork_pages cow prot r r' vas (if cow then snd (paging_map_page_4kb_pml4 r va ?p f s2) else s2) = Some (ok, t)"
        using r by (auto split: option.splits)
      have "same_maps s1 s2" using 2(1) by (auto simp: vm_page_ref_retain_def dest: layer_maps)
      moreover have "same_maps s2 (if cow then snd (paging_map_page_4kb_pml4 r va ?p f s2) else s2)"
        by (simp add: map_page_maps)
      ultimately show ?thesis using 1 Cons.IH [OF 2(2)] by (blast intro: same_maps_trans)
    qed (use r 1 in simp)
  qed
qed simp

lemma fault_page_maps: "fault_page e va s = Some (p, t) \<Longrightarrow> same_maps s t"
  by (auto simp: fault_page_def Let_def vm_page_ref_retain_def split: if_splits option.splits prod.splits
      dest!: layer_maps intro: same_maps_trans) (auto simp: same_maps_def)

lemma msync_maps: "vm_task_msync task a n f s = (rc, t) \<Longrightarrow> same_maps s t"
proof -
  have p: "same_maps s (snd (msync_page me fb va ds))" if "same_maps s (snd ds)" for me fb va ds
    using that by (cases ds) (auto simp: msync_page_def write_back_def Let_def same_maps_def)
  have f: "same_maps s (snd (fold (msync_page me fb) vas ds))" if "same_maps s (snd ds)" for me fb vas ds
    using that by (induction vas arbitrary: ds) (simp_all add: p)
  have e: "same_maps s (snd (msync_entry a b me ds))" if "same_maps s (snd ds)" for a b me ds
    using that f by (cases ds) (auto simp: msync_entry_def Let_def)
  have "same_maps s (snd (fold (msync_entry a b) es ds))" if "same_maps s (snd ds)" for a b es ds
    using that by (induction es arbitrary: ds) (simp_all add: e)
  then show "vm_task_msync task a n f s = (rc, t) \<Longrightarrow> same_maps s t"
    by (auto simp: vm_task_msync_def Let_def split_beta split: if_splits)
qed

lemma fault_maps: "vm_fault_handle task a err s = Some (rc, t) \<Longrightarrow> same_maps s t"
proof -
  have p: "same_maps s (snd (paging_map_page_4kb_pml4 r v p f u))" if "same_maps s u" for r v p f u
    using that map_page_maps same_maps_trans by blast
  have m: "same_maps s (u\<lparr>pmem := x\<rparr>)" if "same_maps s u" for u x using that by (simp add: same_maps_def)
  show "vm_fault_handle task a err s = Some (rc, t) \<Longrightarrow> same_maps s t"
    by (auto simp: vm_fault_handle_def Let_def split_beta split: if_splits option.splits
        dest!: layer_maps fault_page_maps intro: p m same_maps_trans [OF p [OF m]])
qed


section \<open>Every map stays well formed\<close>

definition maps_wf :: "'a vmap_state_scheme \<Rightarrow> bool" where
  "maps_wf s \<longleftrightarrow> (\<forall>mp. map_wf (mp_entries (vm_maps s mp)))"

lemma maps_wf_same: "same_maps s t \<Longrightarrow> maps_wf s \<Longrightarrow> maps_wf t"
  by (simp add: maps_wf_def same_maps_def)

lemma maps_wf_upd: "maps_wf s \<Longrightarrow> map_wf es \<Longrightarrow> maps_wf (upd_map mp es s)"
  by (simp add: maps_wf_def)

lemma maps_wf_task [simp]: "maps_wf (upd_task t f s) = maps_wf s" by (simp add: maps_wf_def)

lemma map_wf_Nil [simp]: "map_wf []" by (simp add: map_wf_def entries_ok_def)

lemma map_wf_ranges:
  assumes "map me_start es' = map me_start es" "map me_end es' = map me_end es"
  shows "map_wf es' \<longleftrightarrow> map_wf es"
proof -
  have l: "length es' = length es" using assms(1) by (metis length_map)
  have i: "me_start (es' ! i) = me_start (es ! i)" "me_end (es' ! i) = me_end (es ! i)" if "i < length es" for i
    using assms that l by (metis nth_map)+
  then have r: "rng (es' ! i) = rng (es ! i)" "entry_ok (es' ! i) = entry_ok (es ! i)" if "i < length es" for i
    using that by (simp_all add: rng_def covers_def entry_ok_def)
  have "entries_ok es' \<longleftrightarrow> entries_ok es"
    unfolding entries_ok_def sorted_wrt_iff_nth_less all_set_conv_all_nth l
    by (simp add: r cong: conj_cong imp_cong)
  then show ?thesis by (simp add: map_wf_def l)
qed

text \<open>The outcome of a fallible operation, with or without a result, keeps the maps well formed.\<close>

definition wf_out :: "('r \<times> 'a vmap_state_scheme) option \<Rightarrow> bool" where
  "wf_out r \<longleftrightarrow> (\<forall>x t. r = Some (x, t) \<longrightarrow> maps_wf t)"

definition wf_st :: "'a vmap_state_scheme option \<Rightarrow> bool" where
  "wf_st r \<longleftrightarrow> (\<forall>t. r = Some t \<longrightarrow> maps_wf t)"

named_theorems wf_rules

lemma wf_out_rules [wf_rules]:
  "maps_wf t \<Longrightarrow> wf_out (Some (x, t))"
  "wf_out r \<Longrightarrow> (\<And>x t. maps_wf t \<Longrightarrow> wf_out (f x t)) \<Longrightarrow> wf_out (case r of None \<Rightarrow> None | Some (x, t) \<Rightarrow> f x t)"
  "maps_wf (snd q) \<Longrightarrow> (\<And>x t. maps_wf t \<Longrightarrow> wf_out (f x t)) \<Longrightarrow> wf_out (case q of (x, t) \<Rightarrow> f x t)"
  "wf_out u \<Longrightarrow> wf_out v \<Longrightarrow> wf_out (if c then u else v)"
  by (auto simp: wf_out_def split: option.splits prod.splits)

lemma wf_out_map [wf_rules]: "wf_out r \<Longrightarrow> wf_out (map_option (\<lambda>(_, t). (y, t)) r)"
  by (auto simp: wf_out_def)

lemma wf_out_st [wf_rules]: "wf_st r \<Longrightarrow> (\<And>t. maps_wf t \<Longrightarrow> wf_out (f t)) \<Longrightarrow> wf_out (case r of None \<Rightarrow> None | Some t \<Rightarrow> f t)"
  by (auto simp: wf_out_def wf_st_def split: option.splits)

lemma wf_out_st_map [wf_rules]: "wf_st r \<Longrightarrow> wf_out (map_option (Pair y) r)"
  by (auto simp: wf_out_def wf_st_def)

lemma wf_st_rules [wf_rules]:
  "maps_wf t \<Longrightarrow> wf_st (Some t)"
  "wf_st u \<Longrightarrow> wf_st v \<Longrightarrow> wf_st (if c then u else v)"
  "wf_st r \<Longrightarrow> (\<And>t. maps_wf t \<Longrightarrow> wf_st (f t)) \<Longrightarrow> wf_st (case r of None \<Rightarrow> None | Some t \<Rightarrow> f t)"
  "wf_st r \<Longrightarrow> wf_st (map_option (upd_task task g) r)"
  by (auto simp: wf_st_def split: option.splits)

lemma add_maps_wf [wf_rules]: "maps_wf s \<Longrightarrow> maps_wf (snd (vm_map_add mp a n p f ob off s))"
  using add_map_wf [of "mp_entries (vm_maps s mp)" mp a n]
  by (auto simp: vm_map_add_eq maps_wf_def split: option.splits)

lemma remove_maps_wf [wf_rules]:
  assumes "maps_wf s"
  shows "wf_out (vm_map_remove mp a n r s)"
  unfolding wf_out_def
proof (intro allI impI)
  fix rc t
  assume t: "vm_map_remove mp a n r s = Some (rc, t)"
  have "map_wf (mp_entries (vm_maps s mp))" using assms by (simp add: maps_wf_def)
  from t this show "maps_wf t"
    by (cases rule: vm_map_remove_entries) (use assms in \<open>auto simp: maps_wf_def\<close>)
qed

lemma destroy_maps_wf [wf_rules]: "maps_wf s \<Longrightarrow> wf_st (vm_map_destroy mp s)"
  by (auto simp: maps_wf_def wf_st_def map_destroy_maps map_wf_ranges [of "map (\<lambda>e. e\<lparr>me_object := 0\<rparr>) es" es for es])

lemma create_maps_wf [wf_rules]: "maps_wf s \<Longrightarrow> wf_out (vm_map_create r s)"
  by (auto simp: maps_wf_def wf_out_def map_create_maps)

lemma layer_wf [wf_rules]:
  "maps_wf s \<Longrightarrow> maps_wf (upd_task task g s)"
  "maps_wf s \<Longrightarrow> maps_wf (upd_object ob h (s\<lparr>vm_backings := b\<rparr>))"
  by (simp_all add: maps_wf_def upd_object_def)

lemma object_create_wf [wf_rules]: "maps_wf s \<Longrightarrow> wf_out (vm_object_create ty n s)"
  by (auto simp: wf_out_def dest: layer_maps(4) maps_wf_same)

lemma object_unref_wf [wf_rules]: "maps_wf s \<Longrightarrow> wf_st (vm_object_unref a s)"
  by (auto simp: wf_st_def dest: layer_maps(5) maps_wf_same)

lemma kmalloc_wf [wf_rules]: "maps_wf s \<Longrightarrow> wf_out (kmalloc k s)"
  by (auto simp: wf_out_def dest: layer_maps(7) maps_wf_same)

lemma place_maps_wf [wf_rules]: "maps_wf s \<Longrightarrow> wf_out (mmap_place task a n f s)"
  unfolding mmap_place_def Let_def by (intro wf_rules)

lemma exec_maps_wf: "maps_wf s \<Longrightarrow> wf_out (vm_task_prepare_exec task r s)"
  unfolding vm_task_prepare_exec_def by (intro wf_rules)

lemma mmap_maps_wf: "maps_wf s \<Longrightarrow> wf_out (vm_task_mmap task a n p f s)"
  unfolding vm_task_mmap_def Let_def by (intro wf_rules)

lemma mmap_object_maps_wf: "maps_wf s \<Longrightarrow> wf_out (vm_task_mmap_object task a n p f ob off s)"
  unfolding vm_task_mmap_object_def Let_def by (intro wf_rules)

lemma mmap_file_maps_wf: "maps_wf s \<Longrightarrow> wf_out (vm_task_mmap_file task a n p f d sz off s)"
  unfolding vm_task_mmap_file_def Let_def by (intro wf_rules)

lemma brk_maps_wf: "maps_wf s \<Longrightarrow> wf_out (vm_task_brk task a s)"
  unfolding vm_task_brk_def Let_def by (intro wf_rules)

lemma munmap_maps_wf: "maps_wf s \<Longrightarrow> wf_out (vm_task_munmap task a n s)"
  unfolding vm_task_munmap_def Let_def by (intro wf_rules)


section \<open>Fork\<close>

definition mark_cow :: "vm_map_entry \<Rightarrow> vm_map_entry" where
  "mark_cow pe = (if vm_entry_is_cow_candidate pe then pe\<lparr>me_flags := me_flags pe OR VM_MAP_F_COW\<rparr> else pe)"

lemma mark_cow_range [simp]: "me_start (mark_cow e) = me_start e" "me_end (mark_cow e) = me_end e"
  by (simp_all add: mark_cow_def)

lemma same_ranges_mark [simp]: "map me_start (map mark_cow es) = map me_start es" "map me_end (map mark_cow es) = map me_end es"
  by (simp_all add: comp_def)

definition with_entries :: "u64 \<Rightarrow> vm_map_entry list \<Rightarrow> (u64 \<Rightarrow> vm_map) \<Rightarrow> u64 \<Rightarrow> vm_map" where
  "with_entries mp es ms = ms(mp := (ms mp)\<lparr>mp_entries := es\<rparr>)"

definition fork_done ::
  "u64 \<Rightarrow> u64 \<Rightarrow> vm_map_entry list \<Rightarrow> vm_map_entry list \<Rightarrow> int \<Rightarrow> (u64 \<Rightarrow> vm_map) \<Rightarrow> (u64 \<Rightarrow> vm_map) \<Rightarrow> bool" where
  "fork_done pm cm old es rc ms ms' \<longleftrightarrow> (\<exists>es1 es2.
     ms' = with_entries pm es1 (with_entries cm es2 ms) \<and>
     map me_start es1 = map me_start (old @ es) \<and> map me_end es1 = map me_end (old @ es) \<and>
     (\<exists>k. map me_start es2 = map me_start (take k es1) \<and> map me_end es2 = map me_end (take k es1)) \<and>
     (rc = RDNX_OK \<longrightarrow> es1 = old @ map mark_cow es \<and> es2 = old @ map mark_cow es))"

lemma fork_done_Cons:
  assumes "pm \<noteq> cm" "ms'' = with_entries pm (old @ mark_cow e # es) (with_entries cm (old @ [mark_cow e]) ms)"
    "fork_done pm cm (old @ [mark_cow e]) es rc ms'' ms'"
  shows "fork_done pm cm old (e # es) rc ms ms'"
proof -
  from assms(3) obtain es1 es2 where k: "ms' = with_entries pm es1 (with_entries cm es2 ms'')"
    "map me_start es1 = map me_start (old @ e # es)" "map me_end es1 = map me_end (old @ e # es)"
    "\<exists>k. map me_start es2 = map me_start (take k es1) \<and> map me_end es2 = map me_end (take k es1)"
    "rc = RDNX_OK \<Longrightarrow> es1 = old @ map mark_cow (e # es) \<and> es2 = old @ map mark_cow (e # es)"
    by (auto simp: fork_done_def)
  have "ms' = with_entries pm es1 (with_entries cm es2 ms)"
    using k(1) assms(1,2) by (auto simp: with_entries_def fun_eq_iff)
  then show ?thesis using k(2-5) unfolding fork_done_def by blast
qed

lemma fork_failed:
  assumes "ms' = with_entries pm es1 (with_entries cm (map (\<lambda>e. e\<lparr>me_object := 0\<rparr>) (take k es1)) ms)"
    "map me_start es1 = map me_start (old @ es)" "map me_end es1 = map me_end (old @ es)" "rc \<noteq> RDNX_OK"
  shows "fork_done pm cm old es rc ms ms'"
  unfolding fork_done_def
  using assms by (intro exI [of _ es1] exI [of _ "map (\<lambda>e. e\<lparr>me_object := 0\<rparr>) (take k es1)"] conjI exI [of _ k])
    (simp_all add: comp_def)

lemma fork_entries_maps:
  fixes s :: "'a vmap_state_scheme"
  assumes "fork_entries pm cm r r' old es s = Some (rc, t)" "pm \<noteq> cm" "cm \<noteq> 0"
    "mp_entries (vm_maps s cm) = old" "mp_entries (vm_maps s pm) = old @ es"
  shows "task_vms t = task_vms s \<and> fork_done pm cm old es rc (vm_maps s) (vm_maps t)"
  using assms(1,4,5)
proof (induction es arbitrary: old s)
  case Nil
  then have "vm_maps s = with_entries pm old (with_entries cm old (vm_maps s))"
    by (auto simp: with_entries_def fun_eq_iff)
  then show ?case using Nil by (auto simp: fork_done_def intro!: exI [of _ old] exI [of _ "length old"])
next
  case (Cons e es)
  let ?ms = "with_entries pm (old @ mark_cow e # es) (with_entries cm (old @ [mark_cow e]) (vm_maps s))"
  show ?case
  proof (cases "128 \<le> length old")
    case True
    then obtain u where u: "vm_map_destroy cm s = Some u" "rc = RDNX_E_BUSY" "t = u"
      using Cons.prems by (auto split: if_splits)
    have "vm_maps t = with_entries pm (old @ e # es) (with_entries cm (map (\<lambda>e. e\<lparr>me_object := 0\<rparr>) old) (vm_maps s))"
      using map_destroy_maps [OF u(1)] u(3) Cons.prems(2,3) assms(2,3) by (auto simp: with_entries_def fun_eq_iff)
    then show ?thesis
      using u map_destroy_maps(1) [OF u(1)] by (auto intro!: fork_failed [of _ _ _ _ "length old"])
  next
    case False
    define s1 where "s1 = upd_map pm (old @ mark_cow e # es) (upd_map cm (old @ [mark_cow e])
      (if me_object e \<noteq> 0 then vm_object_ref (me_object e) s else s))"
    have s1: "vm_maps s1 = ?ms" "task_vms s1 = task_vms s"
      using assms(2) by (auto simp: s1_def with_entries_def)
    obtain ok s2 where f: "fork_pages (vm_entry_is_cow_candidate e) (me_prot e) r r' (page_steps (me_start e) (me_end e)) s1
        = Some (ok, s2)"
      and n: "(if \<not> ok then map_option (\<lambda>s. (RDNX_E_GENERIC, s)) (vm_map_destroy cm s2)
               else fork_entries pm cm r r' (old @ [mark_cow e]) es s2) = Some (rc, t)"
      using Cons.prems False assms(2)
      by (auto simp: s1_def mark_cow_def Let_def split: option.splits if_splits cong: if_cong)
    have s2: "vm_maps s2 = ?ms" "task_vms s2 = task_vms s"
      using fork_pages_maps [OF f] s1 by (simp_all add: same_maps_def)
    show ?thesis
    proof (cases ok)
      case True
      have "mp_entries (vm_maps s2 cm) = old @ [mark_cow e]" "mp_entries (vm_maps s2 pm) = (old @ [mark_cow e]) @ es"
        using s2(1) assms(2) by (auto simp: with_entries_def)
      then have "task_vms t = task_vms s2 \<and> fork_done pm cm (old @ [mark_cow e]) es rc (vm_maps s2) (vm_maps t)"
        using Cons.IH n True by simp
      then show ?thesis using fork_done_Cons [OF assms(2) s2(1)] s2(2) by simp
    next
      case False
      then obtain u where u: "vm_map_destroy cm s2 = Some u" "rc = RDNX_E_GENERIC" "t = u" using n by auto
      have "vm_maps t = with_entries pm (old @ mark_cow e # es)
          (with_entries cm (map (\<lambda>e. e\<lparr>me_object := 0\<rparr>) (old @ [mark_cow e])) (vm_maps s))"
        using map_destroy_maps [OF u(1)] u(3) s2 assms(2,3) by (auto simp: with_entries_def fun_eq_iff)
      then show ?thesis
        using u map_destroy_maps(1) [OF u(1)] s2(2) by (auto intro!: fork_failed [where ?es1.0 = "old @ mark_cow e # es" and k = "Suc (length old)"])
    qed
  qed
qed


lemma map_wf_take: "map_wf es \<Longrightarrow> map_wf (take k es)"
proof -
  assume "map_wf es"
  then have "entries_ok (take k es @ drop k es)" "length es \<le> 128" by (simp_all add: map_wf_def)
  then have "entries_ok (take k es)" "length (take k es) \<le> 128" unfolding entries_ok_simps by auto
  then show ?thesis by (simp add: map_wf_def)
qed

lemma fork_done_wf:
  assumes "fork_done pm cm old es rc ms ms'" "\<forall>mp. map_wf (mp_entries (ms mp))" "map_wf (old @ es)"
  shows "map_wf (mp_entries (ms' mp))"
proof -
  from assms(1) obtain es1 es2 k where k: "ms' = with_entries pm es1 (with_entries cm es2 ms)"
    "map me_start es1 = map me_start (old @ es)" "map me_end es1 = map me_end (old @ es)"
    "map me_start es2 = map me_start (take k es1)" "map me_end es2 = map me_end (take k es1)"
    by (auto simp: fork_done_def)
  have "map_wf es1" using map_wf_ranges [OF k(2,3)] assms(3) by blast
  moreover have "map_wf es2" using map_wf_ranges [OF k(4,5)] map_wf_take calculation by blast
  ultimately show ?thesis using k(1) assms(2) by (simp add: with_entries_def)
qed

lemma fork_maps_wf:
  fixes s :: "'a vmap_state_scheme"
  assumes "maps_wf s"
  shows "wf_out (vm_task_fork_clone parent child r s)"
proof -
  have f: "wf_out (fork_entries pm cm q r [] (mp_entries (vm_maps u pm)) u)"
    if "vm_maps u cm = \<lparr>mp_pml4 = r, mp_entries = []\<rparr>" "cm \<noteq> 0" "maps_wf u" for pm cm q and u :: "'a vmap_state_scheme"
    unfolding wf_out_def
  proof (intro allI impI)
    fix rc t
    assume t: "fork_entries pm cm q r [] (mp_entries (vm_maps u pm)) u = Some (rc, t)"
    show "maps_wf t"
    proof (cases "pm = cm")
      case True
      then show ?thesis using t that by simp
    next
      case False
      have "fork_done pm cm [] (mp_entries (vm_maps u pm)) rc (vm_maps u) (vm_maps t)"
        using fork_entries_maps [OF t False that(2)] that(1) by simp
      then show ?thesis
        using fork_done_wf that(3) unfolding maps_wf_def by fastforce
    qed
  qed
  have c: "(cm \<noteq> 0 \<longrightarrow> vm_maps u cm = \<lparr>mp_pml4 = r, mp_entries = []\<rparr>) \<and> maps_wf u"
    if "vm_map_create r s = Some (cm, u)" for cm u
    using map_create_maps [OF that] create_maps_wf [OF assms, of r] that by (simp add: wf_out_def)
  show ?thesis
    unfolding vm_task_fork_clone_def Let_def
    using f c assms
    by (auto simp: wf_out_def split: option.splits if_splits)
qed

section \<open>Protection\<close>

definition protect_ok :: "u64 \<Rightarrow> u64 \<Rightarrow> vm_map_entry \<Rightarrow> bool" where
  "protect_ok s e x \<longleftrightarrow> \<not> hits s e x \<or> (s \<le> me_start x \<and> me_end x \<le> e)"

definition protect_entry :: "u64 \<Rightarrow> u64 \<Rightarrow> u32 \<Rightarrow> vm_map_entry \<Rightarrow> vm_map_entry" where
  "protect_entry s e prot x = (if hits s e x then x\<lparr>me_prot := prot\<rparr> else x)"

lemma protect_pages_more: "same_maps s (fold (protect_page r f) vas s)"
proof -
  have "same_maps s (fold (protect_page r f) vas u)" if "same_maps s u" for u
    using that
    by (induction vas arbitrary: u)
      (simp_all add: protect_page_def Let_def same_maps_trans [OF _ map_page_maps])
  then show ?thesis by simp
qed

lemma protect_loop_entries:
  assumes "protect_loop s e prot r changed old es st = (rc, es', st')"
  shows "same_maps st st' \<and>
    ((\<forall>x \<in> set es. protect_ok s e x) \<longrightarrow>
       rc = (if changed \<or> (\<exists>x \<in> set es. hits s e x) then RDNX_OK else RDNX_E_NOTFOUND) \<and>
       es' = old @ map (protect_entry s e prot) es) \<and>
    (\<not> (\<forall>x \<in> set es. protect_ok s e x) \<longrightarrow> rc = RDNX_E_UNSUPPORTED \<and>
       (\<exists>xs x ys. es = xs @ x # ys \<and> \<not> protect_ok s e x \<and> (\<forall>y \<in> set xs. protect_ok s e y) \<and>
          es' = old @ map (protect_entry s e prot) xs @ x # ys))"
  using assms
proof (induction es arbitrary: changed old st)
  case (Cons x es)
  let ?f = "fold (protect_page r (vm_pte_flags_from_prot prot)) (page_steps (me_start x) (me_end x)) st"
  consider (miss) "\<not> hits s e x" | (part) "hits s e x" "\<not> protect_ok s e x" | (whole) "hits s e x" "protect_ok s e x"
    by blast
  then show ?case
  proof cases
    case miss
    then have n: "protect_loop s e prot r changed (old @ [x]) es st = (rc, es', st')"
      using Cons.prems by (simp add: hits_def Let_def)
    have "protect_ok s e x" "protect_entry s e prot x = x" using miss by (simp_all add: protect_ok_def protect_entry_def)
    with Cons.IH [OF n] miss show ?thesis
      by (auto; metis append_Cons list.simps(9) set_ConsD)
  next
    case part
    then have "rc = RDNX_E_UNSUPPORTED" "es' = old @ x # es" "st' = st"
      using Cons.prems by (auto simp: hits_def protect_ok_def Let_def split: if_splits)
    then show ?thesis using part by (auto intro!: exI [of _ "[]"])
  next
    case whole
    then have n: "protect_loop s e prot r True (old @ [protect_entry s e prot x]) es ?f = (rc, es', st')"
      using Cons.prems by (auto simp: hits_def protect_ok_def protect_entry_def Let_def split: if_splits)
    have "same_maps st ?f" by (rule protect_pages_more)
    with Cons.IH [OF n] whole show ?thesis
      by (auto intro: same_maps_trans; metis append_Cons list.simps(9) set_ConsD)
  qed
qed simp

end
