(* ===== verification/VmStep.thy ===== *)
theory VmStep
  imports VmTask
begin

text \<open>
  Changing protections, destroying an address space, and the invariant of the maps along every
  sequence of task operations.
\<close>

lemma protect_wf:
  assumes "protect_loop s e prot r changed [] es st = (rc, es', st')" "map_wf es"
  shows "map_wf es'"
proof -
  have p: "me_start (protect_entry s e prot x) = me_start x" "me_end (protect_entry s e prot x) = me_end x" for x
    by (simp_all add: protect_entry_def)
  have "map me_start es' = map me_start es \<and> map me_end es' = map me_end es"
    using protect_loop_entries [OF assms(1)] by (cases "\<forall>x \<in> set es. protect_ok s e x") (auto simp: comp_def p)
  then show ?thesis using map_wf_ranges assms(2) by blast
qed

lemma mprotect_maps_wf: "maps_wf s \<Longrightarrow> maps_wf (snd (vm_task_mprotect task a n p s))"
proof -
  assume wf: "maps_wf s"
  let ?m = "t_vm_map (task_vms s task)"
  obtain rc es t where l: "protect_loop (vm_align_down a) (vm_align_up (a + n)) p (address_space (task_vms s task))
      False [] (mp_entries (vm_maps s ?m)) s = (rc, es, t)" by (metis prod_cases3)
  have "map_wf es" using protect_wf [OF l] wf by (simp add: maps_wf_def)
  moreover have "maps_wf t" using protect_loop_entries [OF l] wf maps_wf_same by blast
  ultimately have "maps_wf (upd_map ?m es t)" by (simp add: maps_wf_upd)
  then show ?thesis using wf by (simp add: vm_task_mprotect_def Let_def l)
qed

section \<open>Destroying an address space\<close>

text \<open>One round removes the first entry and nothing else, so the loop is a recursion over the entries.\<close>

lemma remove_loop_miss:
  assumes "\<forall>x \<in> set es. \<not> hits s e x"
  shows "remove_loop s e own r removed old es st = Some (if removed then RDNX_OK else RDNX_E_NOTFOUND, old @ es, st)"
  using assms by (induction es arbitrary: old) (simp_all add: hits_def Let_def)

definition drop_entry ::
  "u64 \<Rightarrow> u64 \<Rightarrow> vm_map_entry \<Rightarrow> vm_map_entry list \<Rightarrow> 'a vmap_state_scheme \<Rightarrow> 'a vmap_state_scheme option" where
  "drop_entry mp r x es s =
     (case (if r = mp_pml4 (vm_maps s mp) then unmap_pages r (page_steps (me_start x) (me_end x)) s else Some s) of
        None \<Rightarrow> None
      | Some s \<Rightarrow>
          (case (if me_object x \<noteq> 0 then vm_object_unref (me_object x) s else Some s) of
             None \<Rightarrow> None
           | Some s \<Rightarrow> Some (upd_map mp es s)))"

fun drop_entries :: "u64 \<Rightarrow> u64 \<Rightarrow> vm_map_entry list \<Rightarrow> 'a vmap_state_scheme \<Rightarrow> 'a vmap_state_scheme option" where
  "drop_entries mp r [] s = Some s"
| "drop_entries mp r (x # es) s =
     (case drop_entry mp r x es s of None \<Rightarrow> None | Some s \<Rightarrow> drop_entries mp r es s)"

lemma remove_first:
  assumes wf: "map_wf (x # es)" and es: "mp_entries (vm_maps s mp) = x # es" and mp: "mp \<noteq> 0"
  shows "vm_map_remove mp (me_start x) (me_end x - me_start x) r s =
    map_option (Pair RDNX_OK) (drop_entry mp r x es s)"
proof -
  have x: "page_aligned (me_start x)" "page_aligned (me_end x)" "me_start x < me_end x" "entry_ok x"
    using wf by (auto simp: map_wf_def entries_ok_simps entry_ok_def)
  have eq: "vm_align_down (me_start x) = me_start x" "vm_align_up (me_end x) = me_end x"
    using x by (simp_all add: vm_align_down_id vm_align_up_id)
  have ok: "\<forall>y \<in> set es. entry_ok y" "span es \<inter> rng x = {}"
    using wf by (auto simp: map_wf_def entries_ok_simps) (simp add: entries_ok_def)
  have "\<not> (\<exists>y \<in> set es. hits (me_start x) (me_end x) y)"
    using hits_span [OF ok(1) x(3)] ok(2) by (simp add: rng_def covers_def)
  then have m: "remove_loop (me_start x) (me_end x) own r True [] es u = Some (RDNX_OK, es, u)" for own u
    using remove_loop_miss [of es "me_start x" "me_end x" own r True "[]" u] by simp
  have "me_end x - me_start x \<noteq> 0" using x(3) by auto
  then show ?thesis
    using x(3) mp es
    by (simp add: vm_map_remove_def drop_entry_def eq Let_def m not_le split: option.split)
qed

lemma drop_entry_maps:
  assumes "drop_entry mp r x es s = Some t"
  shows "vm_maps t = with_entries mp es (vm_maps s) \<and> task_vms t = task_vms s"
proof -
  obtain u v where "(if r = mp_pml4 (vm_maps s mp) then unmap_pages r (page_steps (me_start x) (me_end x)) s else Some s) = Some u"
    "(if me_object x \<noteq> 0 then vm_object_unref (me_object x) u else Some u) = Some v" "t = upd_map mp es v"
    using assms by (auto simp: drop_entry_def split: option.splits)
  then have "same_maps s u" "same_maps u v" "t = upd_map mp es v"
    by (auto dest: unmap_some_more unref_some_more intro: same_maps_more)
  then show ?thesis by (simp add: same_maps_def with_entries_def)
qed

lemma destroy_loop_eq:
  assumes "map_wf es" "mp_entries (vm_maps s mp) = es" "mp \<noteq> 0"
  shows "destroy_loop mp r s = drop_entries mp r es s"
  using assms(1,2)
proof (induction es arbitrary: s)
  case Nil
  then show ?case by (simp add: destroy_loop.simps)
next
  case (Cons x es)
  have wf: "map_wf es" using Cons.prems(1) by (auto simp: map_wf_def entries_ok_simps)
  show ?case
  proof (cases "drop_entry mp r x es s")
    case None
    then show ?thesis
      using remove_first [OF Cons.prems assms(3), of r] Cons.prems(2) by (simp add: destroy_loop.simps)
  next
    case (Some t)
    have "mp_entries (vm_maps t mp) = es" using drop_entry_maps [OF Some] by (simp add: with_entries_def)
    then show ?thesis
      using remove_first [OF Cons.prems assms(3), of r] Cons.prems(2) Some Cons.IH [OF wf]
      by (simp add: destroy_loop.simps [of mp r s])
  qed
qed

lemma drop_entries_maps:
  assumes "drop_entries mp r es s = Some t" "mp_entries (vm_maps s mp) = es"
  shows "vm_maps t = with_entries mp [] (vm_maps s) \<and> task_vms t = task_vms s"
  using assms
proof (induction es arbitrary: s)
  case Nil
  then show ?case by (auto simp: with_entries_def fun_eq_iff)
next
  case (Cons x es)
  then obtain u where u: "drop_entry mp r x es s = Some u" "drop_entries mp r es u = Some t"
    by (auto split: option.splits)
  then show ?case
    using Cons.IH [OF u(2)] drop_entry_maps [OF u(1)] by (simp add: with_entries_def fun_upd_def fun_eq_iff)
qed

lemma destroy_maps_wf_task:
  assumes wf: "maps_wf s"
  shows "wf_st (vm_task_destroy task s)"
proof -
  let ?m = "t_vm_map (task_vms s task)" and ?r = "address_space (task_vms s task)"
  have "wf_st (destroy_loop ?m ?r s)" if "?m \<noteq> 0"
    unfolding wf_st_def
  proof (intro allI impI)
    fix t
    assume t: "destroy_loop ?m ?r s = Some t"
    have "map_wf (mp_entries (vm_maps s ?m))" using wf by (simp add: maps_wf_def)
    from destroy_loop_eq [OF this refl that] t
    have "drop_entries ?m ?r (mp_entries (vm_maps s ?m)) s = Some t" by simp
    from drop_entries_maps [OF this refl] wf show "maps_wf t" by (simp add: maps_wf_def with_entries_def)
  qed
  then have "wf_st (if ?m \<noteq> 0 then destroy_loop ?m ?r s else Some s)" using wf by (simp add: wf_st_def)
  then show ?thesis
    using wf destroy_maps_wf [unfolded wf_st_def, rule_format]
    by (auto simp: vm_task_destroy_def wf_st_def split: option.splits if_splits)
qed

section \<open>Sequences of operations\<close>

inductive vm_step :: "'a vmap_state_scheme \<Rightarrow> 'a vmap_state_scheme \<Rightarrow> bool" where
  exec: "vm_task_prepare_exec task r s = Some (rc, t) \<Longrightarrow> vm_step s t"
| map_fixed: "vm_task_map_fixed task a n p f s = (rc, t) \<Longrightarrow> vm_step s t"
| set_brk: "vm_task_set_brk_base task a s = (rc, t) \<Longrightarrow> vm_step s t"
| mmap: "vm_task_mmap task a n p f s = Some (rc, t) \<Longrightarrow> vm_step s t"
| mmap_object: "vm_task_mmap_object task a n p f ob off s = Some (rc, t) \<Longrightarrow> vm_step s t"
| mmap_file: "vm_task_mmap_file task a n p f d sz off s = Some (rc, t) \<Longrightarrow> vm_step s t"
| munmap: "vm_task_munmap task a n s = Some (rc, t) \<Longrightarrow> vm_step s t"
| brk: "vm_task_brk task a s = Some (rc, t) \<Longrightarrow> vm_step s t"
| fork: "vm_task_fork_clone parent child r s = Some (rc, t) \<Longrightarrow> vm_step s t"
| destroy: "vm_task_destroy task s = Some t \<Longrightarrow> vm_step s t"
| msync: "vm_task_msync task a n f s = (rc, t) \<Longrightarrow> vm_step s t"
| mprotect: "vm_task_mprotect task a n p s = (rc, t) \<Longrightarrow> vm_step s t"
| fault: "vm_fault_handle task a err s = Some (rc, t) \<Longrightarrow> vm_step s t"

lemma wf_outD: "r = Some (x, t) \<Longrightarrow> wf_out r \<Longrightarrow> maps_wf t" by (simp add: wf_out_def)

lemma wf_stD: "r = Some t \<Longrightarrow> wf_st r \<Longrightarrow> maps_wf t" by (simp add: wf_st_def)

lemma map_fixed_maps_wf: "maps_wf s \<Longrightarrow> maps_wf (snd (vm_task_map_fixed task a n p f s))"
  by (simp add: vm_task_map_fixed_def add_maps_wf)

lemma step_maps_wf: "vm_step s t \<Longrightarrow> maps_wf s \<Longrightarrow> maps_wf t"
proof (induction rule: vm_step.induct)
  case (map_fixed task a n p f s rc t)
  then show ?case using map_fixed_maps_wf [of s task a n p f] by simp
next
  case (mprotect task a n p s rc t)
  then show ?case using mprotect_maps_wf [of s task a n p] by simp
next
  case (msync task a n f s rc t)
  then show ?case using msync_maps maps_wf_same by blast
next
  case (fault task a err s rc t)
  then show ?case using fault_maps maps_wf_same by blast
next
  case (set_brk task a s rc t)
  then show ?case by (auto simp: vm_task_set_brk_base_def Let_def split: if_splits)
next
  case (exec task r s rc t)
  show ?case by (rule wf_outD [OF exec(1) exec_maps_wf [OF exec(2)]])
next
  case (mmap task a n p f s rc t)
  show ?case by (rule wf_outD [OF mmap(1) mmap_maps_wf [OF mmap(2)]])
next
  case (mmap_object task a n p f ob off s rc t)
  show ?case by (rule wf_outD [OF mmap_object(1) mmap_object_maps_wf [OF mmap_object(2)]])
next
  case (mmap_file task a n p f d sz off s rc t)
  show ?case by (rule wf_outD [OF mmap_file(1) mmap_file_maps_wf [OF mmap_file(2)]])
next
  case (munmap task a n s rc t)
  show ?case by (rule wf_outD [OF munmap(1) munmap_maps_wf [OF munmap(2)]])
next
  case (brk task a s rc t)
  show ?case by (rule wf_outD [OF brk(1) brk_maps_wf [OF brk(2)]])
next
  case (fork parent child r s rc t)
  show ?case by (rule wf_outD [OF fork(1) fork_maps_wf [OF fork(2)]])
next
  case (destroy task s t)
  show ?case by (rule wf_stD [OF destroy(1) destroy_maps_wf_task [OF destroy(2)]])
qed

lemma steps_maps_wf: "vm_step\<^sup>*\<^sup>* s t \<Longrightarrow> maps_wf s \<Longrightarrow> maps_wf t"
  by (induction rule: rtranclp_induct) (auto intro: step_maps_wf)

end
