(* ===== verification/VmRefs.thy ===== *)
theory VmRefs
  imports VmObject KheapProps VmFrame
begin

text \<open>
  The reference counts of page frames: the list of nodes as a counting function, kept apart from
  the heap and from the free frames. A frame goes back to the physical memory manager exactly when
  its last reference goes.
\<close>

section \<open>The invariant\<close>

definition refcount :: "'a vm_state_scheme \<Rightarrow> u64 \<Rightarrow> nat" where
  "refcount s p = (case vm_page_ref_find p s of None \<Rightarrow> 0 | Some n \<Rightarrow> pr_refs n)"

definition nodes_ok :: "vm_page_ref_node list \<Rightarrow> blk list \<Rightarrow> u64 set \<Rightarrow> bool" where
  "nodes_ok ns bs F \<longleftrightarrow> distinct (map pr_phys ns) \<and> distinct (map pr_node ns) \<and>
     (\<forall>n \<in> set ns. 0 < pr_refs n \<and> pr_refs n < 2 ^ 32 \<and> pr_phys n \<in> F \<and>
        (\<exists>m. m \<noteq> 0 \<and> (pr_node n - HB, m) \<in> live bs))"

definition refs_ok :: "'a vm_state_scheme \<Rightarrow> blk list \<Rightarrow> bool" where
  "refs_ok s bs \<longleftrightarrow> heap_ok s bs \<and> nodes_ok (g_vm_page_refs s) bs (managed s) \<and>
     fbytes (pr_phys ` set (g_vm_page_refs s)) \<inter> heap_region s bs = {}"

section \<open>The list of nodes\<close>

abbreviation (input) count :: "vm_page_ref_node list \<Rightarrow> u64 \<Rightarrow> nat" where
  "count ns p \<equiv> (case find (\<lambda>n. pr_phys n = p) ns of None \<Rightarrow> 0 | Some n \<Rightarrow> pr_refs n)"

lemma count_zero:
  assumes "nodes_ok ns bs F"
  shows "count ns p = 0 \<longleftrightarrow> p \<notin> pr_phys ` set ns"
  using assms by (induction ns) (auto simp: nodes_ok_def)

lemma bump_simps:
  "map pr_phys (ref_bump p ns) = map pr_phys ns" "map pr_node (ref_bump p ns) = map pr_node ns"
  by (induction ns) auto

lemma nodes_ok_Cons:
  "nodes_ok (n # ns) bs F \<longleftrightarrow> nodes_ok ns bs F \<and> pr_phys n \<notin> pr_phys ` set ns \<and> pr_node n \<notin> pr_node ` set ns \<and>
     0 < pr_refs n \<and> pr_refs n < 2 ^ 32 \<and> pr_phys n \<in> F \<and> (\<exists>m. m \<noteq> 0 \<and> (pr_node n - HB, m) \<in> live bs)"
  by (auto simp: nodes_ok_def)

lemma bump_sets: "pr_phys ` set (ref_bump p ns) = pr_phys ` set ns" "pr_node ` set (ref_bump p ns) = pr_node ` set ns"
  using arg_cong [OF bump_simps(1), of set] arg_cong [OF bump_simps(2), of set] by simp_all

lemma bump_ok:
  assumes "nodes_ok ns bs F" "p \<in> pr_phys ` set ns" "count ns p < 2 ^ 32 - 1"
  shows "nodes_ok (ref_bump p ns) bs F \<and> (\<forall>q. count (ref_bump p ns) q = (if q = p then count ns p + 1 else count ns q))"
  using assms
proof (induction ns)
  case (Cons n ns)
  show ?case
  proof (cases "pr_phys n = p")
    case True
    then have "inc32 (pr_refs n) = pr_refs n + 1" using Cons.prems(3) by (simp add: inc32_def)
    then show ?thesis using True Cons.prems by (simp add: nodes_ok_Cons)
  next
    case False
    then have "nodes_ok ns bs F" "p \<in> pr_phys ` set ns" "count ns p < 2 ^ 32 - 1"
      using Cons.prems by (auto simp: nodes_ok_Cons)
    from Cons.IH [OF this] show ?thesis
      using False Cons.prems(1) by (simp add: nodes_ok_Cons bump_sets)
  qed
qed simp

lemma drop_cases:
  assumes "nodes_ok ns bs F"
  shows "(p \<notin> pr_phys ` set ns \<and> ref_drop p ns = None) \<or>
    (\<exists>xs n ys. ns = xs @ n # ys \<and> pr_phys n = p \<and> p \<notin> pr_phys ` set (xs @ ys) \<and>
       ref_drop p ns = Some (if pr_refs n = 1 then (xs @ ys, Some (pr_node n))
                             else (xs @ n\<lparr>pr_refs := pr_refs n - 1\<rparr> # ys, None)))"
  using assms
proof (induction ns)
  case (Cons n ns)
  have ok: "nodes_ok ns bs F" "0 < pr_refs n" "pr_phys n \<notin> pr_phys ` set ns"
    using Cons.prems by (auto simp: nodes_ok_def)
  show ?case
  proof (cases "pr_phys n = p")
    case True
    then show ?thesis using ok(2,3) by (intro disjI2 exI [of _ "[]"] exI [of _ n] exI [of _ ns]) (auto simp: Let_def)
  next
    case False
    from Cons.IH [OF ok(1)] show ?thesis
    proof (elim disjE exE conjE)
      fix xs m ys
      assume a: "ns = xs @ m # ys" "pr_phys m = p" "p \<notin> pr_phys ` set (xs @ ys)"
        "ref_drop p ns = Some (if pr_refs m = 1 then (xs @ ys, Some (pr_node m))
           else (xs @ m\<lparr>pr_refs := pr_refs m - 1\<rparr> # ys, None))"
      then show ?thesis using False
        by (intro disjI2 exI [of _ "n # xs"] exI [of _ m] exI [of _ ys]) auto
    qed (use False in auto)
  qed
qed simp

lemma nodes_ok_drop:
  assumes "nodes_ok (xs @ n # ys) bs F"
  shows "nodes_ok (xs @ ys) bs F" "1 < pr_refs n \<Longrightarrow> nodes_ok (xs @ n\<lparr>pr_refs := pr_refs n - 1\<rparr> # ys) bs F"
  using assms by (auto simp: nodes_ok_def)

lemma nodes_ok_live:
  assumes "nodes_ok (xs @ n # ys) bs F" "live cs = live bs - {(pr_node n - HB, m)}"
  shows "nodes_ok (xs @ ys) cs F"
  using assms unfolding nodes_ok_def by (auto simp: image_iff)


lemma count_remove:
  assumes "p \<notin> pr_phys ` set (xs @ ys)" "pr_phys n = p"
  shows "count (xs @ ys) q = (if q = p then 0 else count (xs @ n # ys) q)"
    "count (xs @ n\<lparr>pr_refs := k\<rparr> # ys) q = (if q = p then k else count (xs @ n # ys) q)"
    "count (xs @ n # ys) p = pr_refs n"
proof -
  have f: "find (\<lambda>n. pr_phys n = p) xs = None" "find (\<lambda>n. pr_phys n = p) ys = None"
    using assms(1) by (auto simp: find_None_iff)
  have a: "find P (us @ vs) = (case find P us of None \<Rightarrow> find P vs | Some x \<Rightarrow> Some x)" for P us and vs :: "vm_page_ref_node list"
    by (induction us) auto
  show "count (xs @ ys) q = (if q = p then 0 else count (xs @ n # ys) q)"
    "count (xs @ n\<lparr>pr_refs := k\<rparr> # ys) q = (if q = p then k else count (xs @ n # ys) q)"
    "count (xs @ n # ys) p = pr_refs n"
    using f assms(2) by (auto simp: a split: option.split)
qed

section \<open>Releasing a frame\<close>

lemma free_frame_heap:
  fixes s :: "'a heap_state_scheme"
  assumes ok: "heap_ok s bs" and p: "p \<in> managed s" and d: "fbytes {p} \<inter> cover bs = {}"
  shows "heap_ok (pmm_free_page p s) bs" "free_frames (pmm_free_page p s) = insert p (free_frames s)"
    "same_geom s (pmm_free_page p s)"
proof -
  have inv: "pmm_inv s" "direct_ok s" using ok by (simp_all add: heap_ok_def)
  have m: "memory_start s \<le> p" "p < memory_end s" "page_aligned p" using p by (simp_all add: managed_def)
  note f = free_page_spec [OF inv(1) m refl]
  have g: "geom_ok s" using inv(1) by (simp add: pmm_inv_def)
  have ip: "pmm_index_to_page s (pmm_page_to_index s p) = p" using geom_index [OF g m] by simp
  show fr: "free_frames (pmm_free_page p s) = insert p (free_frames s)"
    using f(2) ip same_geom_index [OF f(3)] by (simp add: free_frames_def)
  show "same_geom s (pmm_free_page p s)" by (rule f(3))
  have "direct_ok (pmm_free_page p s)" using inv(2) f(3) by (simp add: direct_ok_def same_geom_def)
  moreover have "fbytes (insert p (free_frames s)) = fbytes {p} \<union> fbytes (free_frames s)" by (auto simp: fbytes_def)
  ultimately show "heap_ok (pmm_free_page p s) bs"
    using ok d f(1) fr heap_rep_more(1) [OF f(5)] by (auto simp: heap_ok_def)
qed

lemma refs_more:
  fixes s t :: "'a vm_state_scheme"
  assumes "heap_state.more t = heap_state.more s"
  shows "g_vm_page_refs t = g_vm_page_refs s" "vm_objects t = vm_objects s"
  using assms by (cases s; cases t; simp)+

lemma refs_heap [simp]:
  fixes s :: "'a vm_state_scheme"
  shows "heap_ok (s\<lparr>g_vm_page_refs := ns\<rparr>) bs = heap_ok s bs"
    "free_frames (s\<lparr>g_vm_page_refs := ns\<rparr>) = free_frames s" "managed (s\<lparr>g_vm_page_refs := ns\<rparr>) = managed s"
    "heap_region (s\<lparr>g_vm_page_refs := ns\<rparr>) bs = heap_region s bs"
proof -
  have sp: "same_pmm s (s\<lparr>g_vm_page_refs := ns\<rparr>)" by (simp add: same_pmm_def pmm_state.truncate_def)
  note d = same_pmmD [OF sp]
  show "free_frames (s\<lparr>g_vm_page_refs := ns\<rparr>) = free_frames s" by (rule d(2))
  then show "heap_region (s\<lparr>g_vm_page_refs := ns\<rparr>) bs = heap_region s bs" by (simp add: heap_region_def)
  show "managed (s\<lparr>g_vm_page_refs := ns\<rparr>) = managed s" by (simp add: managed_def)
  have "heap_rep (s\<lparr>g_vm_page_refs := ns\<rparr>) bs = heap_rep s bs" by (simp add: heap_rep_def)
  then show "heap_ok (s\<lparr>g_vm_page_refs := ns\<rparr>) bs = heap_ok s bs" using d by (simp add: heap_ok_def)
qed


lemma managed_index:
  assumes "pmm_inv s" "p \<in> managed s"
  obtains i where "i < total_pages s" "p = pmm_index_to_page s i"
proof -
  have "geom_ok s" using assms(1) by (simp add: pmm_inv_def)
  moreover have "memory_start s \<le> p" "p < memory_end s" "page_aligned p" using assms(2) by (simp_all add: managed_def)
  ultimately show ?thesis using geom_index [of s p] that [of "pmm_page_to_index s p"] by simp
qed

lemma fbytes_disjoint:
  assumes inv: "pmm_inv s" "direct_ok s" and A: "A \<subseteq> managed s" and p: "p \<in> managed s" "p \<notin> A"
  shows "fbytes {p} \<inter> fbytes A = {}"
proof -
  obtain i where i: "i < total_pages s" "p = pmm_index_to_page s i" using managed_index [OF inv(1) p(1)] .
  have "x \<notin> fbytes {a}" if a: "a \<in> A" "x \<in> fbytes {p}" for a x
  proof
    assume x: "x \<in> fbytes {a}"
    obtain j where j: "j < total_pages s" "a = pmm_index_to_page s j" using managed_index [OF inv(1), of a] A a(1) by blast
    have "i \<noteq> j" using i j a(1) p(2) by auto
    then have ij: "Suc i \<le> j \<or> Suc j \<le> i" by auto
    have "vbase s + i * 4096 \<le> x \<and> x < vbase s + i * 4096 + 4096 \<and> vbase s + j * 4096 \<le> x \<and> x < vbase s + j * 4096 + 4096"
      using x a(2) unat_virt(1) [OF inv i(1)] unat_virt(1) [OF inv j(1)] by (simp add: fbytes_def i(2) j(2))
    then show False using ij by auto
  qed
  then show ?thesis by (auto simp: fbytes_def)
qed

lemma fbytes_mono: "A \<subseteq> B \<Longrightarrow> fbytes A \<subseteq> fbytes B" by (auto simp: fbytes_def)

lemma fbytes_insert: "fbytes (insert p A) = fbytes {p} \<union> fbytes A" by (auto simp: fbytes_def)

lemma refs_okD:
  assumes "refs_ok s bs"
  shows "heap_ok s bs" "nodes_ok (g_vm_page_refs s) bs (managed s)" "pmm_inv s" "direct_ok s"
    "pr_phys ` set (g_vm_page_refs s) \<subseteq> managed s" "0 \<notin> managed s"
  using assms by (auto simp: refs_ok_def heap_ok_def nodes_ok_def managed_def pmm_inv_def geom_ok_def)

lemma release_none:
  assumes "refs_ok s bs" "refcount s p = 0"
  shows "vm_page_ref_release p s = Some (if p = 0 then RDNX_E_INVALID else RDNX_E_NOTFOUND, s)"
proof -
  have "p \<notin> pr_phys ` set (g_vm_page_refs s)"
    using count_zero [OF refs_okD(2) [OF assms(1)]] assms(2) by (simp add: refcount_def vm_page_ref_find_def)
  then have "ref_drop p (g_vm_page_refs s) = None" using drop_cases [OF refs_okD(2) [OF assms(1)], of p] by auto
  then show ?thesis by (simp add: vm_page_ref_release_def)
qed

lemma refs_held:
  assumes "refs_ok s bs" "0 < refcount s p"
  obtains xs n ys where "g_vm_page_refs s = xs @ n # ys" "pr_phys n = p" "p \<notin> pr_phys ` set (xs @ ys)" "p \<noteq> 0"
    "pr_refs n = refcount s p"
    "ref_drop p (g_vm_page_refs s) = Some (if refcount s p = 1 then (xs @ ys, Some (pr_node n))
       else (xs @ n\<lparr>pr_refs := refcount s p - 1\<rparr> # ys, None))"
proof -
  note ok = refs_okD [OF assms(1)]
  have p: "p \<in> pr_phys ` set (g_vm_page_refs s)"
    using count_zero [OF ok(2), of p] assms(2) by (simp add: refcount_def vm_page_ref_find_def)
  then obtain xs n ys where d: "g_vm_page_refs s = xs @ n # ys" "pr_phys n = p" "p \<notin> pr_phys ` set (xs @ ys)"
    "ref_drop p (g_vm_page_refs s) = Some (if pr_refs n = 1 then (xs @ ys, Some (pr_node n))
       else (xs @ n\<lparr>pr_refs := pr_refs n - 1\<rparr> # ys, None))"
    using drop_cases [OF ok(2), of p] by auto
  have r: "pr_refs n = refcount s p"
    using count_remove(3) [OF d(3,2)] d(1) by (simp add: refcount_def vm_page_ref_find_def)
  have "p \<noteq> 0" using p ok(5,6) by auto
  from that [OF d(1-3) this r d(4) [unfolded r]] show ?thesis .
qed

lemma release_some:
  assumes "refs_ok s bs" "1 < refcount s p"
  shows "\<exists>t. vm_page_ref_release p s = Some (RDNX_OK, t) \<and> refs_ok t bs \<and>
    refcount t = (refcount s)(p := refcount s p - 1) \<and> free_frames t = free_frames s"
proof -
  note ok = refs_okD [OF assms(1)]
  have c: "0 < refcount s p" "refcount s p \<noteq> 1" using assms(2) by simp_all
  from assms(1) c(1) obtain xs n ys where d: "g_vm_page_refs s = xs @ n # ys" "pr_phys n = p"
    "p \<notin> pr_phys ` set (xs @ ys)" "p \<noteq> 0" "pr_refs n = refcount s p"
    "ref_drop p (g_vm_page_refs s) = Some (if refcount s p = 1 then (xs @ ys, Some (pr_node n))
       else (xs @ n\<lparr>pr_refs := refcount s p - 1\<rparr> # ys, None))"
    by (rule refs_held)
  let ?ns = "xs @ n\<lparr>pr_refs := refcount s p - 1\<rparr> # ys"
  have r: "vm_page_ref_release p s = Some (RDNX_OK, s\<lparr>g_vm_page_refs := ?ns\<rparr>)"
    using d(4,6) c(2) by (simp add: vm_page_ref_release_def)
  have "nodes_ok ?ns bs (managed s)" using nodes_ok_drop(2) [of xs n ys bs "managed s"] ok(2) d assms(2) by simp
  moreover have "pr_phys ` set ?ns = pr_phys ` set (g_vm_page_refs s)" using d by auto
  ultimately have "refs_ok (s\<lparr>g_vm_page_refs := ?ns\<rparr>) bs" using assms(1) by (simp add: refs_ok_def)
  moreover have "refcount (s\<lparr>g_vm_page_refs := ?ns\<rparr>) = (refcount s)(p := refcount s p - 1)"
    using count_remove(2) [OF d(3,2)] d(1) by (auto simp: refcount_def vm_page_ref_find_def fun_eq_iff)
  ultimately show ?thesis using r by simp
qed

lemma release_last:
  assumes ok: "refs_ok s bs" and one: "refcount s p = 1" and len: "length bs \<le> 1000001"
  shows "\<exists>t cs. vm_page_ref_release p s = Some (RDNX_OK, t) \<and> refs_ok t cs \<and> length cs \<le> length bs \<and>
    refcount t = (refcount s)(p := 0) \<and> free_frames t = insert p (free_frames s)"
proof -
  note o = refs_okD [OF ok]
  have c: "0 < refcount s p" using one by simp
  from ok c obtain xs n ys where d: "g_vm_page_refs s = xs @ n # ys" "pr_phys n = p"
    "p \<notin> pr_phys ` set (xs @ ys)" "p \<noteq> 0" "pr_refs n = refcount s p"
    "ref_drop p (g_vm_page_refs s) = Some (if refcount s p = 1 then (xs @ ys, Some (pr_node n))
       else (xs @ n\<lparr>pr_refs := refcount s p - 1\<rparr> # ys, None))"
    by (rule refs_held)
  obtain m where m: "m \<noteq> 0" "(pr_node n - HB, m) \<in> live bs" using o(2) d(1) by (auto simp: nodes_ok_def)
  have pm: "p \<in> managed s" using o(5) d(1,2) by auto
  have reg: "fbytes (pr_phys ` set (g_vm_page_refs s)) \<inter> heap_region s bs = {}" using ok by (simp add: refs_ok_def)
  have pc: "fbytes {p} \<inter> cover bs = {}"
    using reg d(1,2) by (auto simp: heap_region_def fbytes_def)
  define s1 where "s1 = s\<lparr>g_vm_page_refs := xs @ ys\<rparr>"
  have h1: "heap_ok s1 bs" "p \<in> managed s1" using o(1) pm by (simp_all add: s1_def)
  note f = free_frame_heap [OF h1 pc]
  obtain t cs where k: "kfree (pr_node n - HB + HB) (pmm_free_page p s1) = Some t" "heap_ok t cs"
    "live cs = live bs - {(pr_node n - HB, m)}" "cover cs = cover bs" "same_pmm (pmm_free_page p s1) t"
    and l: "length cs \<le> length bs"
    using kfree_ok [OF f(1) m(2,1) len] by blast
  have r: "vm_page_ref_release p s = Some (RDNX_OK, t)"
    using d(4,6) one k(1) by (simp add: vm_page_ref_release_def s1_def)
  have "heap_state.more t = heap_state.more (pmm_free_page p s1)" using kfree_more [OF k(1)] .
  moreover have "heap_state.more (pmm_free_page p s1) = heap_state.more s1"
    by (intro more_heap more_paging) (rule free_page_more)
  ultimately have g: "g_vm_page_refs t = xs @ ys" using refs_more(1) [of t s1] by (simp add: s1_def)
  have fr: "free_frames t = insert p (free_frames s)" using same_pmmD(2) [OF k(5)] f(2) by (simp add: s1_def)
  have mg: "managed t = managed s"
    using managed_geom [OF same_geom_trans [OF f(3) same_pmmD(5) [OF k(5)]]] by (simp add: s1_def)
  have nk: "nodes_ok (xs @ ys) cs (managed s)" using nodes_ok_live [OF _ k(3)] o(2) d(1) by simp
  have "fbytes {p} \<inter> fbytes (pr_phys ` set (xs @ ys)) = {}"
    using o(5) d by (intro fbytes_disjoint [OF o(3,4) _ pm]) auto
  moreover have "fbytes (pr_phys ` set (xs @ ys)) \<subseteq> fbytes (pr_phys ` set (g_vm_page_refs s))"
    using d(1) by (intro fbytes_mono) auto
  moreover have "heap_region t cs = fbytes {p} \<union> heap_region s bs"
    unfolding heap_region_def fr k(4) fbytes_insert [of p "free_frames s"] by blast
  ultimately have "fbytes (pr_phys ` set (xs @ ys)) \<inter> heap_region t cs = {}" using reg by blast
  then have "refs_ok t cs" using k(2) nk by (simp add: refs_ok_def g mg)
  moreover have "refcount t = (refcount s)(p := 0)"
    using count_remove(1) [OF d(3,2)] d(1) g by (auto simp: refcount_def vm_page_ref_find_def fun_eq_iff)
  ultimately show ?thesis using r fr l by blast
qed


section \<open>Taking a frame\<close>

lemma retain_held:
  assumes ok: "refs_ok s bs" and c: "0 < refcount s p" "refcount s p < 2 ^ 32 - 1"
  shows "\<exists>t. vm_page_ref_add_new p s = Some (RDNX_OK, t) \<and> refs_ok t bs \<and>
    refcount t = (refcount s)(p := refcount s p + 1) \<and> free_frames t = free_frames s"
proof -
  note o = refs_okD [OF ok]
  let ?t = "s\<lparr>g_vm_page_refs := ref_bump p (g_vm_page_refs s)\<rparr>"
  have p: "p \<in> pr_phys ` set (g_vm_page_refs s)"
    using count_zero [OF o(2), of p] c(1) by (simp add: refcount_def vm_page_ref_find_def)
  have pz: "p \<noteq> 0" using p o(5,6) by auto
  have b: "nodes_ok (ref_bump p (g_vm_page_refs s)) bs (managed s)" "refcount ?t = (refcount s)(p := refcount s p + 1)"
    using bump_ok [OF o(2) p] c(2) by (auto simp: refcount_def vm_page_ref_find_def fun_eq_iff)
  have "vm_page_ref_find p s \<noteq> None" using c(1) by (auto simp: refcount_def split: option.splits)
  then have "vm_page_ref_add_new p s = Some (RDNX_OK, ?t)" using pz by (auto simp: vm_page_ref_add_new_def)
  moreover have "refs_ok ?t bs" using ok b(1) by (simp add: refs_ok_def bump_sets)
  ultimately show ?thesis using b(2) by simp
qed

lemma add_fresh:
  assumes ok: "refs_ok s bs" and p: "p \<in> managed s" "refcount s p = 0" "fbytes {p} \<inter> heap_region s bs = {}"
    and run: "vm_page_ref_add_new p s = Some (rc, t)"
  shows "rc = RDNX_OK \<and> (\<exists>cs. refs_ok t cs \<and> heap_region t cs = heap_region s bs) \<and>
    refcount t = (refcount s)(p := 1) \<and> same_geom s t \<and>
    (\<forall>x. unat x \<in> fbytes {p} \<longrightarrow> pmem t (X86_64_VIRT_TO_PHYS x) = pmem s (X86_64_VIRT_TO_PHYS x))"
proof -
  note o = refs_okD [OF ok]
  have pz: "p \<noteq> 0" using p(1) o(6) by auto
  have pn: "p \<notin> pr_phys ` set (g_vm_page_refs s)"
    using count_zero [OF o(2), of p] p(2) by (simp add: refcount_def vm_page_ref_find_def)
  then have fn: "vm_page_ref_find p s = None" by (auto simp: vm_page_ref_find_def find_None_iff)
  obtain node u where k: "kmalloc 24 s = Some (node, u)"
    and r: "(if node = 0 then Some (RDNX_E_NOMEM, u) else Some (RDNX_OK, u\<lparr>g_vm_page_refs :=
        \<lparr>pr_node = node, pr_phys = p, pr_refs = 1\<rparr> # g_vm_page_refs u\<rparr>)) = Some (rc, t)"
    using run pz fn by (auto simp: vm_page_ref_add_new_def split: option.splits)
  have n24: "(24::u64) \<noteq> 0" "unat (24::u64) \<le> 2 ^ 42" by simp_all
  obtain cs m where m: "heap_ok u cs" "24 \<le> m" "(node - HB, m) \<notin> live bs" "live cs = insert (node - HB, m) (live bs)"
    "heap_region u cs = heap_region s bs" "same_geom s u"
    using kmalloc_ok [OF o(1) n24 k] by blast
  have m0: "m \<noteq> 0" using m(2) by auto
  have "node - HB + HB \<noteq> 0" using kfree_step [OF m(1) _ m0 refl, of "node - HB"] m(4) by blast
  then have nz: "node \<noteq> 0" by simp
  have gu: "g_vm_page_refs u = g_vm_page_refs s" using refs_more(1) [OF kmalloc_more [OF k]] .
  let ?n = "\<lparr>pr_node = node, pr_phys = p, pr_refs = 1\<rparr>"
  have t: "rc = RDNX_OK" "t = u\<lparr>g_vm_page_refs := ?n # g_vm_page_refs s\<rparr>" using r nz gu by simp_all
  have mu: "managed u = managed s" by (rule managed_geom [OF m(6)])
  have "node \<notin> pr_node ` set (g_vm_page_refs s)"
  proof
    assume "node \<in> pr_node ` set (g_vm_page_refs s)"
    then obtain m' where m': "m' \<noteq> 0" "(node - HB, m') \<in> live bs" using o(2) by (auto simp: nodes_ok_def)
    have "live bs \<subseteq> live cs" "blks_ok cs" using m(1,4) by (auto simp: heap_ok_def)
    then have "distinct (map fst cs)" "(node - HB, m') \<in> live cs" "(node - HB, m) \<in> live cs"
      using blks_distinct m(4) m'(2) by auto
    then have "m' = m" by (auto simp: live_def dest: eq_key_imp_eq_value)
    then show False using m(3) m'(2) by simp
  qed
  then have "nodes_ok (?n # g_vm_page_refs s) cs (managed s)"
    using o(2) pn p(1) m(4) m0 by (auto simp: nodes_ok_def)
  moreover have "fbytes (pr_phys ` set (?n # g_vm_page_refs s)) \<inter> heap_region s bs = {}"
    using ok p(3) unfolding refs_ok_def list.set image_insert vm_page_ref_node.simps
      fbytes_insert [of p "pr_phys ` set (g_vm_page_refs s)"] by blast
  ultimately have "refs_ok t cs" using m(1,5) mu t(2) by (simp add: refs_ok_def)
  moreover have "refcount t = (refcount s)(p := 1)"
    by (auto simp: refcount_def vm_page_ref_find_def fun_eq_iff t(2))
  moreover have "pmem t (X86_64_VIRT_TO_PHYS x) = pmem s (X86_64_VIRT_TO_PHYS x)" if "unat x \<in> fbytes {p}" for x
    using kmalloc_mem_outside [OF o(1) n24(2) k, of x] that p(3) by (auto simp: t(2) heap_region_def)
  moreover have "same_geom s t" using m(6) t(2) by (simp add: same_geom_def)
  ultimately show ?thesis using t m(5) by (intro conjI exI [of _ cs]) auto
qed


lemma alloc_frame_heap:
  fixes s :: "'a vm_state_scheme"
  assumes ok: "refs_ok s bs" and run: "pmm_alloc_page_in_zone z s = (p, t)" "z < PMM_ZONE_COUNT" "p \<noteq> 0"
  shows "p \<in> free_frames s \<and> p \<in> managed s \<and> refcount s p = 0 \<and> refs_ok t bs \<and> refcount t = refcount s \<and>
    managed t = managed s \<and> fbytes {p} \<inter> heap_region t bs = {}"
proof -
  note o = refs_okD [OF ok]
  obtain i where i: "i \<in> free_set s" "p = pmm_index_to_page s i" "pmm_inv t" "same_geom s t"
    "free_set t = free_set s - {i}" "pmm_state.more t = pmm_state.more s"
    using alloc_page_in_zone_spec [OF o(3) run(2,1)] run(3) by blast
  have g: "geom_ok s" using o(3) by (simp add: pmm_inv_def)
  have fm: "free_frames s \<subseteq> managed s"
    using geom_page [OF g] by (auto simp: free_frames_def managed_def free_set_def)
  have pf: "p \<in> free_frames s" using i(1,2) by (simp add: free_frames_def)
  have inj: "pmm_index_to_page s j \<noteq> p" if "j \<in> free_set s" "j \<noteq> i" for j
    using geom_unat_page [OF g, of j] geom_unat_page [OF g, of i] that i(1,2) by (auto simp: free_set_def)
  have ft: "free_frames t = free_frames s - {p}"
    using i(2,5) inj same_geom_index [OF i(4)] by (auto simp: free_frames_def)
  have reg: "fbytes (pr_phys ` set (g_vm_page_refs s)) \<inter> heap_region s bs = {}" using ok by (simp add: refs_ok_def)
  have "unat (X86_64_PHYS_TO_VIRT p) \<in> fbytes {p}" by (simp add: fbytes_def)
  moreover have "fbytes {p} \<subseteq> heap_region s bs" using pf by (auto simp: heap_region_def fbytes_def)
  ultimately have pn: "p \<notin> pr_phys ` set (g_vm_page_refs s)"
    using reg fbytes_mono [of "{p}" "pr_phys ` set (g_vm_page_refs s)"] by blast
  have d1: "fbytes {p} \<inter> fbytes (free_frames s - {p}) = {}"
    using fm pf by (intro fbytes_disjoint [OF o(3,4)]) auto
  have cv: "cover bs \<inter> fbytes (free_frames s) = {}" using o(1) by (simp add: heap_ok_def)
  have sub: "fbytes (free_frames s - {p}) \<subseteq> fbytes (free_frames s)" by (rule fbytes_mono) blast
  have hm: "heap_state.more t = heap_state.more s" by (intro more_heap more_paging) (rule i(6))
  note gt = refs_more(1) [OF hm]
  have ht: "heap_ok t bs"
    using o(1,4) i(3,4) cv sub heap_rep_more(1) [OF i(6)] by (auto simp: heap_ok_def ft direct_ok_def same_geom_def)
  have rt: "heap_region t bs \<subseteq> heap_region s bs" using sub by (auto simp: heap_region_def ft)
  have mt: "managed t = managed s" by (rule managed_geom [OF i(4)])
  have "refs_ok t bs" using ht ok rt reg by (auto simp: refs_ok_def gt mt)
  moreover have "fbytes {p} \<inter> heap_region t bs = {}"
    using d1 cv pf by (auto simp: heap_region_def ft fbytes_def)
  moreover have "refcount s p = 0"
    using count_zero [OF o(2), of p] pn by (simp add: refcount_def vm_page_ref_find_def)
  moreover have "refcount t = refcount s" by (simp add: refcount_def vm_page_ref_find_def gt fun_eq_iff)
  ultimately show ?thesis using pf fm mt by blast
qed


lemma fbytes_at:
  assumes "pmm_inv s" "direct_ok s" "p \<in> managed s" "k < 4096"
  shows "unat (X86_64_PHYS_TO_VIRT p + of_nat k) \<in> fbytes {p}"
    "X86_64_VIRT_TO_PHYS (X86_64_PHYS_TO_VIRT p + of_nat k) = p + of_nat k"
proof -
  obtain i where i: "i < total_pages s" "p = pmm_index_to_page s i" using managed_index [OF assms(1,3)] .
  have "i * 4096 + 4096 \<le> total_pages s * 4096" using i(1) by simp
  then have "unat (X86_64_PHYS_TO_VIRT p) + 4096 \<le> 2 ^ 64"
    using unat_virt [OF assms(1,2) i(1)] i(2) by simp
  then have "unat (X86_64_PHYS_TO_VIRT p + of_nat k) = unat (X86_64_PHYS_TO_VIRT p) + k"
    using assms(4) by (simp add: unat_word_ariths unat_of_nat)
  then show "unat (X86_64_PHYS_TO_VIRT p + of_nat k) \<in> fbytes {p}" using assms(4) by (simp add: fbytes_def)
  show "X86_64_VIRT_TO_PHYS (X86_64_PHYS_TO_VIRT p + of_nat k) = p + of_nat k"
    by (simp add: X86_64_VIRT_TO_PHYS_def X86_64_PHYS_TO_VIRT_def)
qed

lemma refs_ok_pmem [simp]:
  fixes s :: "'a vm_state_scheme"
  shows "refs_ok (s\<lparr>pmem := m\<rparr>) bs = refs_ok s bs" "refcount (s\<lparr>pmem := m\<rparr>) = refcount s"
    "managed (s\<lparr>pmem := m\<rparr>) = managed s" "heap_region (s\<lparr>pmem := m\<rparr>) bs = heap_region s bs"
proof -
  show m: "managed (s\<lparr>pmem := m\<rparr>) = managed s" by (simp add: managed_def)
  show r: "heap_region (s\<lparr>pmem := m\<rparr>) bs = heap_region s bs" by (simp add: heap_region_def)
  show "refcount (s\<lparr>pmem := m\<rparr>) = refcount s" by (simp add: refcount_def vm_page_ref_find_def fun_eq_iff)
  have "pmm_inv (s\<lparr>pmem := m\<rparr>) = pmm_inv s"
    by (simp add: pmm_inv_def geom_ok_def counts_ok_def lists_ok_def list_ok_def free_set_def page_zone_def
        pmm_index_to_page_def fun_eq_iff)
  moreover have "heap_rep (s\<lparr>pmem := m\<rparr>) bs = heap_rep s bs" "direct_ok (s\<lparr>pmem := m\<rparr>) = direct_ok s"
    by (simp_all add: heap_rep_def direct_ok_def)
  ultimately have "heap_ok (s\<lparr>pmem := m\<rparr>) bs = heap_ok s bs" by (simp add: heap_ok_def)
  then show "refs_ok (s\<lparr>pmem := m\<rparr>) bs = refs_ok s bs" by (simp add: refs_ok_def m r)
qed

lemma pager_ok:
  fixes s :: "'a vm_state_scheme"
  assumes ok: "refs_ok s bs" and run: "vm_pager_alloc_zero_page s = Some (p, t)" and pz: "p \<noteq> 0"
  shows "p \<in> free_frames s \<and> p \<in> managed s \<and> refcount s p = 0 \<and> (\<exists>cs. refs_ok t cs) \<and>
    refcount t = (refcount s)(p := 1) \<and> (\<forall>k < 4096. pmem t (p + of_nat k) = 0)"
proof -
  obtain q u where a: "pmm_alloc_page_in_zone PMM_ZONE_NORMAL s = (q, u)" by fastforce
  define v where "v = u\<lparr>pmem := mem_set (pmem u) q 0 4096\<rparr>"
  obtain rc where r: "q \<noteq> 0" "vm_page_ref_add_new q v = Some (rc, t)" "p = q"
    using run a pz by (auto simp: vm_pager_alloc_zero_page_def v_def Let_def split: option.splits if_splits)
  note f = alloc_frame_heap [OF ok a _ r(1)]
  have f: "p \<in> free_frames s" "p \<in> managed s" "refcount s p = 0" "refs_ok u bs" "refcount u = refcount s"
    "managed u = managed s" "fbytes {p} \<inter> heap_region u bs = {}"
    using f r(3) by simp_all
  have g: "refs_ok v bs" "q \<in> managed v" "refcount v q = 0" "fbytes {q} \<inter> heap_region v bs = {}"
    using f r(3) by (simp_all add: v_def)
  note n = add_fresh [OF g r(2)]
  have "pmem t (p + of_nat k) = 0" if k: "k < 4096" for k
  proof -
    have "pmem t (p + of_nat k) = pmem v (p + of_nat k)"
      using n fbytes_at [OF refs_okD(3,4) [OF ok] f(2) k] r(3) by metis
    moreover have "unat (of_nat k :: u64) = k" using k by (simp add: unat_of_nat)
    ultimately show ?thesis using k r(3) by (simp add: v_def mem_set_def)
  qed
  moreover have "refcount t = (refcount s)(p := 1)" using n f(5) r(3) by (simp add: v_def)
  ultimately show ?thesis using n f(1-3) by blast
qed


section \<open>The contract of a reference counter\<close>

text \<open>
  \<open>cnt\<close> counts the references of a frame and \<open>avail\<close> is the set of frames that may be handed out again.
\<close>

fun repeat_op :: "nat \<Rightarrow> ('s \<Rightarrow> (int \<times> 's) option) \<Rightarrow> 's \<Rightarrow> 's option" where
  "repeat_op 0 f s = Some s"
| "repeat_op (Suc n) f s =
     (case f s of None \<Rightarrow> None | Some (rc, t) \<Rightarrow> if rc = RDNX_OK then repeat_op n f t else None)"

locale ref_counter =
  fixes inv :: "'s \<Rightarrow> bool" and cnt :: "'s \<Rightarrow> u64 \<Rightarrow> nat" and avail :: "'s \<Rightarrow> u64 set"
    and retain :: "u64 \<Rightarrow> 's \<Rightarrow> (int \<times> 's) option" and release :: "u64 \<Rightarrow> 's \<Rightarrow> (int \<times> 's) option" and limit :: nat
  assumes retain_more: "inv s \<Longrightarrow> 0 < cnt s p \<Longrightarrow> cnt s p < limit \<Longrightarrow>
      \<exists>t. retain p s = Some (RDNX_OK, t) \<and> inv t \<and> cnt t = (cnt s)(p := cnt s p + 1) \<and> avail t = avail s"
    and release_more: "inv s \<Longrightarrow> 1 < cnt s p \<Longrightarrow>
      \<exists>t. release p s = Some (RDNX_OK, t) \<and> inv t \<and> cnt t = (cnt s)(p := cnt s p - 1) \<and> avail t = avail s"
    and release_final: "inv s \<Longrightarrow> cnt s p = 1 \<Longrightarrow>
      \<exists>t. release p s = Some (RDNX_OK, t) \<and> inv t \<and> cnt t = (cnt s)(p := 0) \<and> avail t = insert p (avail s)"
    and release_absent: "inv s \<Longrightarrow> cnt s p = 0 \<Longrightarrow> \<exists>rc. rc \<noteq> RDNX_OK \<and> release p s = Some (rc, s)"
begin

lemma retain_times:
  assumes "inv s" "0 < cnt s p" "cnt s p + n \<le> limit"
  shows "\<exists>t. repeat_op n (retain p) s = Some t \<and> inv t \<and> cnt t = (cnt s)(p := cnt s p + n) \<and> avail t = avail s"
  using assms
proof (induction n arbitrary: s)
  case (Suc n)
  obtain t where t: "retain p s = Some (RDNX_OK, t)" "inv t" "cnt t = (cnt s)(p := cnt s p + 1)" "avail t = avail s"
    using retain_more [of s p] Suc.prems by auto
  have c: "0 < cnt t p" "cnt t p + n \<le> limit" using Suc.prems(3) by (simp_all add: t(3))
  from Suc.IH [OF t(2) c] obtain u where u: "repeat_op n (retain p) t = Some u" "inv u"
    "cnt u = (cnt t)(p := cnt t p + n)" "avail u = avail t" by blast
  have "cnt u = (cnt s)(p := cnt s p + Suc n)" by (simp add: fun_eq_iff u(3) t(3))
  then show ?case using t u by (simp add: fun_upd_def)
qed simp

lemma release_times:
  assumes "inv s" "n < cnt s p"
  shows "\<exists>t. repeat_op n (release p) s = Some t \<and> inv t \<and> cnt t = (cnt s)(p := cnt s p - n) \<and> avail t = avail s"
  using assms
proof (induction n arbitrary: s)
  case (Suc n)
  obtain t where t: "release p s = Some (RDNX_OK, t)" "inv t" "cnt t = (cnt s)(p := cnt s p - 1)" "avail t = avail s"
    using release_more [of s p] Suc.prems by auto
  have c: "n < cnt t p" using Suc.prems(2) by (simp add: t(3))
  from Suc.IH [OF t(2) c] obtain u where u: "repeat_op n (release p) t = Some u" "inv u"
    "cnt u = (cnt t)(p := cnt t p - n)" "avail u = avail t" by blast
  have "cnt u = (cnt s)(p := cnt s p - Suc n)" by (simp add: fun_eq_iff u(3) t(3))
  then show ?case using t u by (simp add: fun_upd_def)
qed simp

lemma repeat_Suc_end:
  assumes "repeat_op n f s = Some t"
  shows "repeat_op (Suc n) f s = (case f t of None \<Rightarrow> None | Some (rc, u) \<Rightarrow> if rc = RDNX_OK then Some u else None)"
  using assms
proof (induction n arbitrary: s)
  case (Suc n)
  then obtain a where a: "f s = Some (RDNX_OK, a)" "repeat_op n f a = Some t" by (auto split: option.splits if_splits)
  then have "repeat_op (Suc (Suc n)) f s = repeat_op (Suc n) f a" by simp
  then show ?case using Suc.IH [OF a(2)] by simp
qed (simp split: option.split)

lemma release_all:
  assumes "inv s" "0 < cnt s p"
  shows "\<exists>t. repeat_op (cnt s p) (release p) s = Some t \<and> inv t \<and> cnt t = (cnt s)(p := 0) \<and> avail t = insert p (avail s)"
proof -
  obtain n where n: "cnt s p = Suc n" using assms(2) not0_implies_Suc by blast
  obtain t where t: "repeat_op n (release p) s = Some t" "inv t" "cnt t = (cnt s)(p := 1)" "avail t = avail s"
    using release_times [of s n p] assms(1) n by auto
  obtain u where "release p t = Some (RDNX_OK, u)" "inv u" "cnt u = (cnt t)(p := 0)" "avail u = insert p (avail t)"
    using release_final [OF t(2), of p] t(3) by auto
  then show ?thesis using repeat_Suc_end [OF t(1)] t n by simp
qed

lemma retain_release:
  assumes "inv s" "0 < cnt s p" "cnt s p + n \<le> limit"
  shows "\<exists>t u. repeat_op n (retain p) s = Some t \<and> repeat_op n (release p) t = Some u \<and> inv u \<and> cnt u = cnt s \<and> avail u = avail s"
proof -
  obtain t where t: "repeat_op n (retain p) s = Some t" "inv t" "cnt t = (cnt s)(p := cnt s p + n)" "avail t = avail s"
    using retain_times [OF assms] by blast
  obtain u where "repeat_op n (release p) t = Some u" "inv u" "cnt u = (cnt t)(p := cnt t p - n)" "avail u = avail t"
    using release_times [OF t(2), of n p] t(3) assms(2) by auto
  then show ?thesis using t by auto
qed

end

definition refs_inv :: "'a vm_state_scheme \<Rightarrow> bool" where
  "refs_inv s \<longleftrightarrow> (\<exists>bs. refs_ok s bs \<and> length bs \<le> 1000001)"

interpretation pr: ref_counter refs_inv refcount free_frames vm_page_ref_retain vm_page_ref_release "2 ^ 32 - 1"
proof unfold_locales
  fix s :: "'a vm_state_scheme" and p
  show "refs_inv s \<Longrightarrow> 0 < refcount s p \<Longrightarrow> refcount s p < 2 ^ 32 - 1 \<Longrightarrow>
      \<exists>t. vm_page_ref_retain p s = Some (RDNX_OK, t) \<and> refs_inv t \<and>
        refcount t = (refcount s)(p := refcount s p + 1) \<and> free_frames t = free_frames s"
    using retain_held unfolding refs_inv_def vm_page_ref_retain_def by metis
  show "refs_inv s \<Longrightarrow> 1 < refcount s p \<Longrightarrow>
      \<exists>t. vm_page_ref_release p s = Some (RDNX_OK, t) \<and> refs_inv t \<and>
        refcount t = (refcount s)(p := refcount s p - 1) \<and> free_frames t = free_frames s"
    using release_some unfolding refs_inv_def by metis
  show "refs_inv s \<Longrightarrow> refcount s p = 1 \<Longrightarrow>
      \<exists>t. vm_page_ref_release p s = Some (RDNX_OK, t) \<and> refs_inv t \<and>
        refcount t = (refcount s)(p := 0) \<and> free_frames t = insert p (free_frames s)"
    unfolding refs_inv_def by (elim exE conjE) (frule (2) release_last, force)
  show "refs_inv s \<Longrightarrow> refcount s p = 0 \<Longrightarrow> \<exists>rc. rc \<noteq> RDNX_OK \<and> vm_page_ref_release p s = Some (rc, s)"
    using release_none unfolding refs_inv_def by force
qed

end
