(* ===== verification/VmProps.thy ===== *)
theory VmProps
  imports VmStep VmRefs
begin

text \<open>A small machine with virtual memory, and the properties of the virtual memory system.\<close>

section \<open>A small machine\<close>

text \<open>
  The heap of one page and three free frames of the heap's own small machine, no references yet; task 1
  has the map at \<open>0x100\<close> with one anonymous private entry.
\<close>

definition demo_entry :: vm_map_entry where
  "demo_entry = \<lparr>me_start = 0x400000, me_end = 0x404000, me_prot = 3, me_flags = 2, me_object = 0, me_offset = 0\<rparr>"

definition vm_demo :: vmap_state where
  "vm_demo = heap_state.extend heap_demo
     \<lparr>g_vm_page_refs = [],
      vm_objects = (\<lambda>_. \<lparr>vo_type = VM_OBJECT_ANON, ref_count = 0, vo_size = 0, page_count = 0,
                        resident_ptr = 0, resident_pages = [], pager_private = 0\<rparr>),
      vm_backings = (\<lambda>_. \<lparr>fb_data = 0, fb_size = 0, file_offset = 0\<rparr>),
      vm_maps = (\<lambda>m. \<lparr>mp_pml4 = 0x9000, mp_entries = (if m = 0x100 then [demo_entry] else [])\<rparr>),
      task_vms = (\<lambda>t. \<lparr>address_space = 0x5000, t_vm_map = (if t = 1 then 0x100 else 0), vm_brk_base = 0x800000,
                      vm_brk_end = 0x800000, vm_mmap_base = VM_DEFAULT_MMAP, vm_mmap_hint = VM_DEFAULT_MMAP\<rparr>)\<rparr>"

lemma vm_demo_fields [simp]:
  "g_vm_page_refs vm_demo = []" "vm_maps vm_demo = (\<lambda>m. \<lparr>mp_pml4 = 0x9000, mp_entries = (if m = 0x100 then [demo_entry] else [])\<rparr>)"
  "task_vms vm_demo t = \<lparr>address_space = 0x5000, t_vm_map = (if t = 1 then 0x100 else 0), vm_brk_base = 0x800000,
     vm_brk_end = 0x800000, vm_mmap_base = VM_DEFAULT_MMAP, vm_mmap_hint = VM_DEFAULT_MMAP\<rparr>"
  by (simp_all add: vm_demo_def heap_state.extend_def)

lemma vm_demo_refs: "\<exists>m. refs_ok vm_demo [(m, 4064, True)]" "refs_inv vm_demo" "refcount vm_demo p = 0"
proof -
  obtain m where "heap_ok heap_demo [(m, 4064, True)]" using heap_demo_ok by blast
  then have "heap_ok vm_demo [(m, 4064, True)]" by (simp add: vm_demo_def heap_ok_extend)
  then have "refs_ok vm_demo [(m, 4064, True)]" by (simp add: refs_ok_def nodes_ok_def fbytes_def)
  then show "\<exists>m. refs_ok vm_demo [(m, 4064, True)]" "refs_inv vm_demo" by (auto simp: refs_inv_def)
  show "refcount vm_demo p = 0" by (simp add: refcount_def vm_page_ref_find_def)
qed

lemma demo_entry_ok [simp]: "entry_ok demo_entry"
  by (simp add: entry_ok_def demo_entry_def page_aligned_def)

lemma vm_demo_wf: "maps_wf vm_demo"
  by (simp add: maps_wf_def map_wf_def entries_ok_def)

lemma demo_align [simp]:
  "vm_align_down 0x400000 = 0x400000" "vm_align_up 0x404000 = 0x404000" "vm_align_down 0x600123 = 0x600000"
  "vm_align_up 0x601123 = 0x602000"
  by (simp_all add: vm_align_down_def vm_align_up_def)

section \<open>The contract of a map of ranges\<close>

text \<open>
  \<open>look\<close> is the partial function a map stands for. Inserting a range defines it on the pages that
  touch the range, which were undefined, and deleting one undefines it there.
\<close>

locale range_map =
  fixes inv :: "'s \<Rightarrow> bool" and look :: "'s \<Rightarrow> u64 \<Rightarrow> 'v option" and val :: "'w \<Rightarrow> u64 \<Rightarrow> 'v"
    and ins :: "u64 \<Rightarrow> u64 \<Rightarrow> 'w \<Rightarrow> 's \<Rightarrow> int \<times> 's" and del :: "u64 \<Rightarrow> u64 \<Rightarrow> 's \<Rightarrow> (int \<times> 's) option"
  assumes ins_ok: "inv s \<Longrightarrow> ins a n w s = (RDNX_OK, t) \<Longrightarrow> inv t \<and>
      (\<forall>x. vm_align_down a \<le> x \<and> x < vm_align_up (a + n) \<longrightarrow> look s x = None) \<and>
      (\<forall>x. look t x = (if vm_align_down a \<le> x \<and> x < vm_align_up (a + n)
                       then Some (val w (x - vm_align_down a)) else look s x))"
    and ins_error: "inv s \<Longrightarrow> ins a n w s = (rc, t) \<Longrightarrow> rc \<noteq> RDNX_OK \<Longrightarrow> t = s"
    and del_ok: "inv s \<Longrightarrow> del a n s = Some (RDNX_OK, t) \<Longrightarrow> inv t \<and>
      (\<forall>x. look t x = (if vm_align_down a \<le> x \<and> x < vm_align_up (a + n) then None else look s x))"
    and del_error: "inv s \<Longrightarrow> del a n s = Some (rc, t) \<Longrightarrow> rc \<noteq> RDNX_OK \<Longrightarrow> look t = look s"
begin

lemma ins_del:
  assumes "inv s" "ins a n w s = (RDNX_OK, t)" "del a n t = Some (RDNX_OK, u)"
  shows "inv u \<and> look u = look s"
  using ins_ok [OF assms(1,2)] del_ok [OF _ assms(3)] by (auto simp: fun_eq_iff)

lemma del_ins:
  assumes "inv s" "del a n s = Some (RDNX_OK, t)" "ins a n w t = (RDNX_OK, u)"
  shows "look u x = (if vm_align_down a \<le> x \<and> x < vm_align_up (a + n)
                     then Some (val w (x - vm_align_down a)) else look s x)"
  using del_ok [OF assms(1,2)] ins_ok [OF _ assms(3)] by auto

end

definition entry_val :: "u32 \<times> u32 \<times> u64 \<times> u64 \<Rightarrow> u64 \<Rightarrow> u32 \<times> u32 \<times> u64 \<times> u64" where
  "entry_val w d = (case w of (prot, flags, obj, off) \<Rightarrow> (prot, flags, obj, off + d))"

definition look_map :: "u64 \<Rightarrow> 'a vmap_state_scheme \<Rightarrow> u64 \<Rightarrow> (u32 \<times> u32 \<times> u64 \<times> u64) option" where
  "look_map mp s = amap (mp_entries (vm_maps s mp))"

definition ins_map ::
  "u64 \<Rightarrow> u64 \<Rightarrow> u64 \<Rightarrow> u32 \<times> u32 \<times> u64 \<times> u64 \<Rightarrow> 'a vmap_state_scheme \<Rightarrow> int \<times> 'a vmap_state_scheme" where
  "ins_map mp a n w s = (case w of (prot, flags, obj, off) \<Rightarrow> vm_map_add mp a n prot flags obj off s)"

lemma add_cases:
  assumes wf: "maps_wf s" and run: "vm_map_add mp a n prot flags obj off s = (rc, t)"
  shows "(rc \<noteq> RDNX_OK \<and> t = s) \<or>
    (rc = RDNX_OK \<and> maps_wf t \<and> (\<forall>m. m \<noteq> mp \<longrightarrow> vm_maps t m = vm_maps s m) \<and> task_vms t = task_vms s \<and>
     mp_pml4 (vm_maps t mp) = mp_pml4 (vm_maps s mp) \<and>
     (\<forall>x. vm_align_down a \<le> x \<and> x < vm_align_up (a + n) \<longrightarrow> look_map mp s x = None) \<and>
     (\<forall>x. look_map mp t x = (if vm_align_down a \<le> x \<and> x < vm_align_up (a + n)
        then Some (prot, flags, obj, off + (x - vm_align_down a)) else look_map mp s x)))"
proof (cases "add_fails (mp_entries (vm_maps s mp)) mp a n")
  case None
  let ?es = "mp_entries (vm_maps s mp)" and ?s = "vm_align_down a" and ?e = "vm_align_up (a + n)"
  have ok: "entries_ok ?es" using wf by (simp add: maps_wf_def map_wf_def)
  have v: "vm_range_valid ?s ?e" "\<not> vm_map_overlap ?es ?s ?e"
    using None by (auto simp: add_fails_def Let_def split: if_splits)
  have se: "?s < ?e" using v(1) by (simp add: range_valid_iff)
  note ae = add_entry_ok(2) [OF ok vm_align_down_aligned vm_align_up_aligned v]
  have "{x. ?s \<le> x \<and> x < ?e} \<inter> span ?es = {}"
    using overlap_iff [OF _ se, of ?es] ok v(2) by (simp add: entries_ok_def)
  then have "\<forall>x. ?s \<le> x \<and> x < ?e \<longrightarrow> look_map mp s x = None" by (auto simp: look_map_def amap_None_iff)
  moreover have "rc = RDNX_OK" "t = vm_object_ref obj (upd_map mp (?es @ [new_entry ?s ?e prot flags obj off]) s)"
    using run None by (simp_all add: vm_map_add_eq)
  moreover have "maps_wf t" using add_maps_wf [OF wf, of mp a n prot flags obj off] run by simp
  ultimately show ?thesis using ae by (simp add: look_map_def)
next
  case (Some c)
  then have "c \<noteq> RDNX_OK" by (auto simp: add_fails_def Let_def split: if_splits)
  then show ?thesis using run Some by (simp add: vm_map_add_eq)
qed

lemma remove_cases:
  assumes wf: "maps_wf s" and run: "vm_map_remove mp a n r s = Some (rc, t)"
  shows "maps_wf t \<and> task_vms t = task_vms s \<and> (\<forall>m. m \<noteq> mp \<longrightarrow> vm_maps t m = vm_maps s m) \<and>
    (\<forall>x. look_map mp t x = (if rc = RDNX_OK \<and> vm_align_down a \<le> x \<and> x < vm_align_up (a + n)
       then None else look_map mp s x))"
proof -
  have w: "map_wf (mp_entries (vm_maps s mp))" using wf by (simp add: maps_wf_def)
  from run w show ?thesis
  proof (cases rule: vm_map_remove_entries)
    case invalid
    then show ?thesis using wf by simp
  next
    case (valid es)
    let ?s = "vm_align_down a" and ?e = "vm_align_up (a + n)" and ?es = "mp_entries (vm_maps s mp)"
    have rc: "rc = RDNX_E_BUSY \<or> rc = RDNX_OK \<or>
        (rc = RDNX_E_NOTFOUND \<and> span ?es \<inter> {x. ?s \<le> x \<and> x < ?e} = {})"
      using valid(6) by (auto simp: removed_entries_def split: if_splits)
    have "amap es x = (if rc = RDNX_OK \<and> ?s \<le> x \<and> x < ?e then None else amap ?es x)" for x
    proof (cases "rc = RDNX_E_NOTFOUND")
      case True
      then have "?s \<le> x \<and> x < ?e \<Longrightarrow> amap ?es x = None" using rc by (auto simp: amap_None_iff)
      then show ?thesis using True valid(8) [of x] by auto
    qed (use rc valid(8) [of x] in auto)
    moreover have "maps_wf t" using valid(4,7) wf by (auto simp: maps_wf_def)
    ultimately show ?thesis using valid(4,5) by (simp add: look_map_def)
  qed
qed

interpretation vr: range_map maps_wf "look_map mp" entry_val "ins_map mp" "\<lambda>a n. vm_map_remove mp a n r"
  for mp :: u64 and r :: u64
proof unfold_locales
  fix s t :: "'a vmap_state_scheme" and a n rc and w :: "u32 \<times> u32 \<times> u64 \<times> u64"
  obtain prot flags obj off where w: "w = (prot, flags, obj, off)" by (cases w)
  note add = add_cases [of s mp a n prot flags obj off]
  show "maps_wf s \<Longrightarrow> ins_map mp a n w s = (RDNX_OK, t) \<Longrightarrow> maps_wf t \<and>
      (\<forall>x. vm_align_down a \<le> x \<and> x < vm_align_up (a + n) \<longrightarrow> look_map mp s x = None) \<and>
      (\<forall>x. look_map mp t x = (if vm_align_down a \<le> x \<and> x < vm_align_up (a + n)
         then Some (entry_val w (x - vm_align_down a)) else look_map mp s x))"
    using add [of RDNX_OK t] by (simp add: ins_map_def w entry_val_def)
  show "maps_wf s \<Longrightarrow> ins_map mp a n w s = (rc, t) \<Longrightarrow> rc \<noteq> RDNX_OK \<Longrightarrow> t = s"
    using add [of rc t] by (simp add: ins_map_def w)
  show "maps_wf s \<Longrightarrow> vm_map_remove mp a n r s = Some (RDNX_OK, t) \<Longrightarrow> maps_wf t \<and>
      (\<forall>x. look_map mp t x = (if vm_align_down a \<le> x \<and> x < vm_align_up (a + n) then None else look_map mp s x))"
    using remove_cases [of s mp a n r RDNX_OK t] by simp
  show "maps_wf s \<Longrightarrow> vm_map_remove mp a n r s = Some (rc, t) \<Longrightarrow> rc \<noteq> RDNX_OK \<Longrightarrow> look_map mp t = look_map mp s"
    using remove_cases [of s mp a n r rc t] by (simp add: fun_eq_iff)
qed

section \<open>Properties of the maps\<close>

text \<open>The addresses of the pages that a request for \<open>len\<close> bytes at \<open>start\<close> touches, and the requests of user space.\<close>

definition touched :: "u64 \<Rightarrow> u64 \<Rightarrow> u64 set" where
  "touched start len = {a. vm_align_down start \<le> a \<and> a < vm_align_up (start + len)}"

definition user_request :: "u64 \<Rightarrow> u64 \<Rightarrow> bool" where
  "user_request start len \<longleftrightarrow> len \<noteq> 0 \<and> 0x1000 \<le> vm_align_down start \<and>
     vm_align_down start < vm_align_up (start + len) \<and> vm_align_up (start + len) \<le> 0x80000000"

text \<open>
  C9: adding a range to a map refines the update of a partial function. In a state whose maps are well
  formed, \<open>vm_map_add\<close> refuses a null map, an empty request and a range outside user space with
  \<open>RDNX_E_INVALID\<close>, a full map and a range of which some address is mapped with \<open>RDNX_E_BUSY\<close>, in both
  cases without any change. Otherwise it succeeds: exactly the pages that the range touches become
  mapped, with the given protection, flags and object at increasing offsets, the object gains a
  reference, other maps are as before and all maps stay well formed.
\<close>
theorem vm_map_add_correct:
  assumes "maps_wf st"
  shows "case vm_map_add mp start len prot flags obj off st of (rc, t) \<Rightarrow>
    rc = (if mp = 0 \<or> \<not> user_request start len then RDNX_E_INVALID
          else if length (mp_entries (vm_maps st mp)) = 128 \<or> (\<exists>a \<in> touched start len. look_map mp st a \<noteq> None)
          then RDNX_E_BUSY else RDNX_OK) \<and>
    (if rc = RDNX_OK
     then maps_wf t \<and> (\<forall>m. m \<noteq> mp \<longrightarrow> vm_maps t m = vm_maps st m) \<and>
       (\<forall>a. look_map mp t a = (if a \<in> touched start len
          then Some (prot, flags, obj, off + (a - vm_align_down start)) else look_map mp st a)) \<and>
       (obj \<noteq> 0 \<longrightarrow> ref_count (vm_objects t obj) = (ref_count (vm_objects st obj) + 1) mod 2 ^ 32)
     else t = st)"
proof -
  let ?s = "vm_align_down start" and ?e = "vm_align_up (start + len)" and ?es = "mp_entries (vm_maps st mp)"
  obtain rc t where r: "vm_map_add mp start len prot flags obj off st = (rc, t)" by fastforce
  have w: "entries_ok ?es" "length ?es \<le> 128" using assms by (simp_all add: maps_wf_def map_wf_def)
  have ov: "vm_map_overlap ?es ?s ?e \<longleftrightarrow> (\<exists>a \<in> touched start len. look_map mp st a \<noteq> None)" if "?s < ?e"
    using overlap_iff [OF _ that] w(1) amap_None_iff by (auto simp: look_map_def entries_ok_def touched_def)
  have f: "add_fails ?es mp start len =
    (if mp = 0 \<or> \<not> user_request start len then Some RDNX_E_INVALID
     else if length ?es = 128 \<or> (\<exists>a \<in> touched start len. look_map mp st a \<noteq> None) then Some RDNX_E_BUSY else None)"
    using ov w(2) unfolding add_fails_def Let_def range_valid_iff user_request_def by auto
  have o: "ref_count (vm_objects t obj) = (ref_count (vm_objects st obj) + 1) mod 2 ^ 32" if "obj \<noteq> 0" "rc = RDNX_OK"
    using r f that by (auto simp: vm_map_add_eq vm_object_ref_def upd_object_def upd_map_def inc32_def split: if_splits)
  have "rc = (case add_fails ?es mp start len of None \<Rightarrow> RDNX_OK | Some c \<Rightarrow> c)"
    using r by (auto simp: vm_map_add_eq split: option.splits)
  then have "rc = (if mp = 0 \<or> \<not> user_request start len then RDNX_E_INVALID
      else if length ?es = 128 \<or> (\<exists>a \<in> touched start len. look_map mp st a \<noteq> None) then RDNX_E_BUSY else RDNX_OK)"
    unfolding f by simp
  then show ?thesis using add_cases [OF assms r] o r unfolding touched_def by auto
qed

lemma demo_touched: "touched 0x600123 0x1000 = {a. 0x600000 \<le> a \<and> a < 0x602000}" "user_request 0x600123 0x1000"
  by (simp_all add: touched_def user_request_def)

lemma demo_look:
  "look_map 0x100 vm_demo a = (if 0x400000 \<le> a \<and> a < 0x404000 then Some (3, 2, 0, a - 0x400000) else None)"
  by (simp add: look_map_def covers_def view_def demo_entry_def)

theorem vm_map_add_correct_witness:
  "\<exists>t. vm_map_add 0x100 0x600123 0x1000 3 1 0 0 vm_demo = (RDNX_OK, t) \<and> look_map 0x100 t 0x601abc = Some (3, 1, 0, 0x1abc)"
proof -
  obtain rc t where r: "vm_map_add 0x100 0x600123 0x1000 3 1 0 0 vm_demo = (rc, t)" by fastforce
  have "\<not> (\<exists>a \<in> touched 0x600123 0x1000. look_map 0x100 vm_demo a \<noteq> None)"
    using order_le_less_trans [of "0x600000 :: u64" _ "0x404000"] by (auto simp: demo_touched demo_look)
  then show ?thesis
    using vm_map_add_correct [OF vm_demo_wf, of "0x100" "0x600123" "0x1000" 3 1 0 0] r
    by (auto simp: demo_touched)
qed

text \<open>
  C5: removing a range from a map refines the restriction of a partial function. In a state whose maps
  are well formed, if \<open>vm_map_remove\<close> returns, all maps are well formed and only the given map may have
  changed. It fails with \<open>RDNX_E_BUSY\<close> only if the map is full and the request lies strictly inside one
  entry, and with \<open>RDNX_E_NOTFOUND\<close> exactly if nothing was mapped there; then the map's partial function
  is unchanged. Otherwise it succeeds, and exactly the pages that the request touches are no longer mapped:
  what is left of the entries at both sides keeps its protection, object and offsets.
\<close>
theorem vm_map_remove_correct:
  assumes "maps_wf st" "mp \<noteq> 0" "len \<noteq> 0" "vm_align_down start < vm_align_up (start + len)"
    and "vm_map_remove mp start len r st = Some (rc, t)"
  shows "maps_wf t \<and> task_vms t = task_vms st \<and> (\<forall>m. m \<noteq> mp \<longrightarrow> vm_maps t m = vm_maps st m) \<and>
    (rc = RDNX_E_BUSY \<and> length (mp_entries (vm_maps st mp)) = 128 \<and>
       (\<exists>x \<in> set (mp_entries (vm_maps st mp)). me_start x < vm_align_down start \<and> vm_align_up (start + len) < me_end x) \<or>
     rc = (if \<exists>a \<in> touched start len. look_map mp st a \<noteq> None then RDNX_OK else RDNX_E_NOTFOUND)) \<and>
    (\<forall>a. look_map mp t a = (if rc = RDNX_OK \<and> a \<in> touched start len then None else look_map mp st a))"
proof -
  have "map_wf (mp_entries (vm_maps st mp))" using assms(1) by (simp add: maps_wf_def)
  from assms(5) this have "rc = RDNX_E_BUSY \<and> length (mp_entries (vm_maps st mp)) = 128 \<and>
       (\<exists>x \<in> set (mp_entries (vm_maps st mp)). me_start x < vm_align_down start \<and> vm_align_up (start + len) < me_end x) \<or>
     rc = (if \<exists>a \<in> touched start len. look_map mp st a \<noteq> None then RDNX_OK else RDNX_E_NOTFOUND)"
  proof (cases rule: vm_map_remove_entries)
    case (valid es)
    have "span (mp_entries (vm_maps st mp)) \<inter> {a. vm_align_down start \<le> a \<and> a < vm_align_up (start + len)} \<noteq> {} \<longleftrightarrow>
        (\<exists>a \<in> touched start len. look_map mp st a \<noteq> None)"
      using amap_None_iff by (auto simp: touched_def look_map_def)
    then show ?thesis using valid(6) by (cases "rc = RDNX_E_BUSY") (auto simp: removed_entries_def)
  qed (use assms(2-4) in auto)
  then show ?thesis using remove_cases [OF assms(1,5)] unfolding touched_def mem_Collect_eq by blast
qed


lemma demo_remove:
  "\<exists>t. vm_map_remove 0x100 0x401000 0x1000 0x5000 vm_demo = Some (RDNX_OK, t)"
  by (simp add: vm_map_remove_def vm_align_down_def vm_align_up_def demo_entry_def)

theorem vm_map_remove_correct_witness:
  "\<exists>t. vm_map_remove 0x100 0x401000 0x1000 0x5000 vm_demo = Some (RDNX_OK, t) \<and>
     look_map 0x100 t 0x401abc = None \<and> look_map 0x100 t 0x402abc = Some (3, 2, 0, 0x2abc)"
proof -
  obtain t where t: "vm_map_remove 0x100 0x401000 0x1000 0x5000 vm_demo = Some (RDNX_OK, t)" using demo_remove by blast
  have l: "vm_align_down 0x401000 < vm_align_up (0x401000 + 0x1000)" by (simp add: vm_align_down_def vm_align_up_def)
  have "touched 0x401000 0x1000 = {a. 0x401000 \<le> a \<and> a < 0x402000}"
    by (simp add: touched_def vm_align_down_def vm_align_up_def)
  then show ?thesis
    using vm_map_remove_correct [OF vm_demo_wf _ _ l t] t by (auto simp: demo_look)
qed

lemma remove_added:
  assumes wf: "maps_wf s" and add: "vm_map_add mp a n prot flags obj off s = (RDNX_OK, t)"
    and del: "vm_map_remove mp a n r t = Some (rc, u)"
  shows "rc = RDNX_OK"
proof -
  let ?s = "vm_align_down a" and ?e = "vm_align_up (a + n)" and ?es = "mp_entries (vm_maps s mp)"
  have none: "add_fails ?es mp a n = None" and t: "mp_entries (vm_maps t mp) = ?es @ [new_entry ?s ?e prot flags obj off]"
    using add by (auto simp: vm_map_add_eq add_fails_def Let_def split: option.splits if_splits)
  have g: "mp \<noteq> 0" "n \<noteq> 0" "?s < ?e"
    using none by (auto simp: add_fails_def range_valid_iff Let_def split: if_splits)
  have wt: "map_wf (?es @ [new_entry ?s ?e prot flags obj off])"
    using add_cases [OF wf add] t by (auto simp: maps_wf_def) (metis t)
  let ?n = "new_entry ?s ?e prot flags obj off"
  have sn: "?s \<in> rng ?n" using g(3) by (simp add: rng_def covers_def new_entry_def)
  have nb: "\<not> (me_start x < ?s \<and> ?e < me_end x)" if "x \<in> set (?es @ [?n])" for x
  proof
    assume b: "me_start x < ?s \<and> ?e < me_end x"
    then have "?s \<in> rng x" using g(3) by (auto simp: rng_def covers_def)
    moreover have "x \<noteq> ?n" using b by (auto simp: new_entry_def)
    ultimately show False using that wt sn by (auto simp: map_wf_def entries_ok_simps span_def)
  qed
  have "map_wf (mp_entries (vm_maps t mp))" using wt t by simp
  from del this show ?thesis
  proof (cases rule: vm_map_remove_entries)
    case (valid es)
    have "rc \<noteq> RDNX_E_BUSY" using valid(6) nb unfolding removed_entries_def t by metis
    moreover have "span (mp_entries (vm_maps t mp)) \<inter> {x. ?s \<le> x \<and> x < ?e} \<noteq> {}"
      using sn g(3) by (auto simp: t)
    ultimately show ?thesis using valid(6) by (simp add: removed_entries_def)
  qed (use g in auto)
qed

text \<open>
  C29: mapping and unmapping. After a range was added to a map, removing the same range leaves the
  partial function of the map as it was before, if the removal returns; it is never refused.
\<close>
theorem vm_map_add_remove_roundtrip:
  assumes "maps_wf s" "vm_map_add mp a n prot flags obj off s = (RDNX_OK, t)" "vm_map_remove mp a n r t = Some (rc, u)"
  shows "rc = RDNX_OK \<and> maps_wf u \<and> look_map mp u = look_map mp s"
  using vr.ins_del [of s mp a n "(prot, flags, obj, off)" t r u] remove_added [OF assms] assms
  by (simp add: ins_map_def)

lemma demo_add:
  "vm_map_add 0x100 0x600000 0x1000 3 1 0 0 vm_demo = (RDNX_OK, upd_map 0x100
     [demo_entry, new_entry 0x600000 0x601000 3 1 0 0] vm_demo)"
  by (simp add: vm_map_add_eq add_fails_def vm_range_valid_def vm_map_overlap_def vm_align_down_def vm_align_up_def
      vm_object_ref_def demo_entry_def)

theorem vm_map_add_remove_roundtrip_witness:
  "\<exists>t u. vm_map_add 0x100 0x600000 0x1000 3 1 0 0 vm_demo = (RDNX_OK, t) \<and>
     vm_map_remove 0x100 0x600000 0x1000 0x5000 t = Some (RDNX_OK, u) \<and> look_map 0x100 u = look_map 0x100 vm_demo"
proof -
  let ?t = "upd_map 0x100 [demo_entry, new_entry 0x600000 0x601000 3 1 0 0] vm_demo"
  have "\<exists>rc u. vm_map_remove 0x100 0x600000 0x1000 0x5000 ?t = Some (rc, u)"
    by (simp add: vm_map_remove_def vm_align_down_def vm_align_up_def demo_entry_def new_entry_def)
  then obtain rc u where u: "vm_map_remove 0x100 0x600000 0x1000 0x5000 ?t = Some (rc, u)" by blast
  from vm_map_add_remove_roundtrip [OF vm_demo_wf demo_add u] u demo_add show ?thesis by blast
qed

definition gap_fits :: "vm_map_entry list \<Rightarrow> u64 \<Rightarrow> u64 \<Rightarrow> u64 \<Rightarrow> bool" where
  "gap_fits es hint len q \<longleftrightarrow> page_aligned q \<and> vm_align_up hint \<le> q \<and> VM_DEFAULT_MMAP \<le> q \<and>
     unat q + unat len < 0x80000000 \<and> \<not> vm_map_overlap es q (q + len)"

text \<open>
  C30: finding room. For a page-aligned length below \<open>2 ^ 63\<close>, \<open>vm_find_gap\<close> returns the least page at or
  above both the hint and the default base such that the range fits below the end of user space and
  overlaps no entry, and 0 exactly if there is no such page.
\<close>
theorem vm_find_gap_correct:
  assumes "page_aligned len" "len \<noteq> 0" "unat len < 2 ^ 63"
  shows "if \<exists>q. gap_fits es hint len q
    then gap_fits es hint len (vm_find_gap es hint len) \<and> (\<forall>q. gap_fits es hint len q \<longrightarrow> vm_find_gap es hint len \<le> q)
    else vm_find_gap es hint len = 0"
  using vm_find_gap_cases [OF assms(1,3), where hint = hint and es = es] assms(2)
  unfolding gap_fits_def room_def by (auto simp: not_less [symmetric])

theorem vm_find_gap_correct_witness:
  "vm_find_gap [new_entry 0x60000000 0x60001000 3 1 0 0] 0x1000 0x2000 = 0x60001000"
proof -
  let ?es = "[new_entry 0x60000000 0x60001000 3 1 0 0]" and ?g = "vm_find_gap [new_entry 0x60000000 0x60001000 3 1 0 0] 0x1000 0x2000"
  have a: "vm_align_up 0x1000 = 0x1000" by (simp add: vm_align_up_def)
  have f: "gap_fits ?es 0x1000 0x2000 0x60001000"
    by (simp add: gap_fits_def a page_aligned_def vm_map_overlap_def new_entry_def)
  have l: "page_aligned (0x2000 :: u64)" "(0x2000 :: u64) \<noteq> 0" "unat (0x2000 :: u64) < 2 ^ 63"
    by (simp_all add: page_aligned_def)
  have g: "gap_fits ?es 0x1000 0x2000 ?g" "?g \<le> 0x60001000"
    using vm_find_gap_correct [OF l, of ?es "0x1000"] f by (auto split: if_splits)
  have "?g \<noteq> 0x60000000" using g(1) by (auto simp: gap_fits_def vm_map_overlap_def new_entry_def)
  moreover have "page_aligned ?g" "0x60000000 \<le> ?g" using g(1) by (simp_all add: gap_fits_def)
  ultimately have "0x60000000 + VM_PAGE_SIZE \<le> ?g"
    by (intro page_step_gap) (simp_all add: page_aligned_def order_less_le)
  then show ?thesis using g(2) by simp
qed

lemma sint_user: "a < 0x80000000 \<Longrightarrow> 0 \<le> sint (a :: u64)"
proof -
  assume "a < 0x80000000"
  then have "uint a < 0x80000000" by (simp add: word_less_def)
  moreover have "0 \<le> uint a" by simp
  ultimately have "sint a = uint a" by (subst sint_uint) (rule signed_take_bit_int_eq_self, rule order_trans [of _ 0], simp_all)
  then show ?thesis by simp
qed

lemma align_len:
  assumes "unat len < 2 ^ 62" "len \<noteq> 0"
  shows "page_aligned (vm_align_up len)" "vm_align_up len \<noteq> 0" "unat (vm_align_up len) < 2 ^ 63"
proof -
  have e: "vm_align_up len = ALIGN_UP len 4096" by (simp add: vm_align_up_def ALIGN_UP_def)
  have "unat (vm_align_up len) = (unat len + 4095) div 4096 * 4096"
    unfolding e using assms(1) by (intro unat_ALIGN_UP_page) simp
  moreover have "0 < unat len" using assms(2) by (simp add: unat_gt_0)
  ultimately have "0 < unat (vm_align_up len)" "unat (vm_align_up len) \<le> unat len + 4095"
    by (simp_all add: div_greater_zero_iff)
  then show "vm_align_up len \<noteq> 0" "unat (vm_align_up len) < 2 ^ 63" using assms(1) by auto
  show "page_aligned (vm_align_up len)" by (rule vm_align_up_aligned)
qed

lemma gap_result:
  assumes "page_aligned n" "n \<noteq> 0" "unat n < 2 ^ 63" "vm_find_gap es hint n \<noteq> 0"
  shows "gap_fits es hint n (vm_find_gap es hint n)"
  using vm_find_gap_cases [OF assms(1,3), of es hint] assms(2,4) by (auto simp: gap_fits_def room_def)

lemma gap_touched:
  assumes "gap_fits es hint n q" "page_aligned n"
  shows "touched q n = {a. q \<le> a \<and> a < q + n}" "q < 0x80000000"
proof -
  have "page_aligned q" "unat q + unat n < 0x80000000" using assms(1) by (simp_all add: gap_fits_def)
  then show "touched q n = {a. q \<le> a \<and> a < q + n}" "q < 0x80000000"
    using assms(2) by (simp_all add: touched_def vm_align_down_id vm_align_up_add vm_align_up_id word_less_nat_alt)
qed

lemma mmap_runs:
  fixes s t :: "'a vmap_state_scheme"
  assumes nf: "flags AND VM_MAP_F_FIXED = 0" and run: "vm_task_mmap task addr_hint len prot flags s = Some (rc, t)"
  defines "addr \<equiv> vm_find_gap (mp_entries (vm_maps s (t_vm_map (task_vms s task))))
      (if addr_hint \<noteq> 0 then addr_hint else vm_mmap_hint (task_vms s task)) (vm_align_up len)"
  obtains (fail) "rc < 0" "same_maps s t"
  | (ok) obj s1 s2 s3 where "same_maps s s1" "same_maps s2 s3" "len \<noteq> 0" "addr \<noteq> 0" "rc = sint addr"
      "vm_map_add (t_vm_map (task_vms s task)) addr (vm_align_up len) prot (flags OR VM_MAP_F_LAZY OR VM_MAP_F_ANON) obj 0 s1
         = (RDNX_OK, s2)"
      "t = upd_task task (\<lambda>t. t\<lparr>vm_mmap_hint := addr + vm_align_up len\<rparr>) s3"
proof (cases "task = 0 \<or> t_vm_map (task_vms s task) = 0 \<or> len = 0 \<or> addr = 0")
  case True
  then have "rc < 0" "t = s"
    using run nf by (auto simp: vm_task_mmap_def mmap_place_def addr_def Let_def split: if_splits)
  then show ?thesis using fail by simp
next
  case g: False
  have pl: "mmap_place task addr_hint (vm_align_up len) flags s = Some (addr, s)"
    using nf by (simp add: mmap_place_def Let_def addr_def)
  obtain obj s1 where c: "vm_object_create VM_OBJECT_ANON (vm_align_up len) s = Some (obj, s1)"
    using run pl g by (auto simp: vm_task_mmap_def Let_def split: option.splits)
  have m1: "same_maps s s1" by (rule layer_maps(4) [OF c])
  obtain rc2 s2 where a: "vm_map_add (t_vm_map (task_vms s task)) addr (vm_align_up len) prot
      (flags OR VM_MAP_F_LAZY OR VM_MAP_F_ANON) obj 0 s1 = (rc2, s2)" by fastforce
  show ?thesis
  proof (cases "obj = 0")
    case True
    then have "rc < 0" "t = s1" using run pl g c by (auto simp: vm_task_mmap_def Let_def)
    then show ?thesis using fail m1 by simp
  next
    case False
    then obtain s3 where u: "vm_object_unref obj s2 = Some s3"
      and r: "(if rc2 \<noteq> RDNX_OK then (rc2, s3)
         else (sint addr, upd_task task (\<lambda>t. t\<lparr>vm_mmap_hint := addr + vm_align_up len\<rparr>) s3)) = (rc, t)"
      using run pl g c a m1 by (auto simp: vm_task_mmap_def same_maps_def Let_def split: option.splits if_splits)
    have m3: "same_maps s2 s3" by (rule layer_maps(5) [OF u])
    show ?thesis
    proof (cases "rc2 = RDNX_OK")
      case True
      then show ?thesis using ok [of s1 s2 s3 obj] m1 m3 a r g by simp
    next
      case False
      then have "rc2 < 0" "s2 = s1"
        using a by (auto simp: vm_map_add_eq add_fails_def Let_def split: option.splits if_splits)
      then show ?thesis using fail r False m1 m3 same_maps_trans by auto
    qed
  qed
qed

text \<open>
  C31: anonymous \<open>mmap\<close> without \<open>MAP_FIXED\<close>. In a state whose maps are well formed, if \<open>vm_task_mmap\<close> of a length
  below \<open>2 ^ 62\<close> returns, either the result is a negative error code and no map and no task has changed,
  or it is the address of a page-aligned free range in user space that fits the length, at or above the
  hint: exactly this range becomes mapped, with the given protection, as a lazy anonymous mapping of
  one object from its start, the next search starts after it, and nothing else changes in any map.
\<close>
theorem vm_task_mmap_correct:
  assumes wf: "maps_wf s" and nf: "flags AND VM_MAP_F_FIXED = 0" and len: "unat len < 2 ^ 62"
    and run: "vm_task_mmap task addr_hint len prot flags s = Some (rc, t)"
  shows "(rc < 0 \<and> vm_maps t = vm_maps s \<and> task_vms t = task_vms s) \<or>
    (\<exists>addr obj. let mp = t_vm_map (task_vms s task); alen = vm_align_up len;
         hint = (if addr_hint \<noteq> 0 then addr_hint else vm_mmap_hint (task_vms s task)) in
       rc = sint addr \<and> 0 \<le> rc \<and> gap_fits (mp_entries (vm_maps s mp)) hint alen addr \<and> maps_wf t \<and>
       (\<forall>a. look_map mp t a = (if addr \<le> a \<and> a < addr + alen
          then Some (prot, flags OR VM_MAP_F_LAZY OR VM_MAP_F_ANON, obj, a - addr) else look_map mp s a)) \<and>
       (\<forall>m. m \<noteq> mp \<longrightarrow> vm_maps t m = vm_maps s m) \<and>
       task_vms t = (task_vms s)(task := (task_vms s task)\<lparr>vm_mmap_hint := addr + alen\<rparr>))"
proof -
  define mp alen hint where defs: "mp = t_vm_map (task_vms s task)" "alen = vm_align_up len"
    "hint = (if addr_hint \<noteq> 0 then addr_hint else vm_mmap_hint (task_vms s task))"
  define addr where "addr = vm_find_gap (mp_entries (vm_maps s mp)) hint alen"
  from nf run show ?thesis
  proof (cases rule: mmap_runs)
    case fail
    then show ?thesis by (simp add: same_maps_def)
  next
    case (ok obj s1 s2 s3)
    note ok = ok [folded defs, folded addr_def]
    note al = align_len [OF len ok(3), folded defs]
    have fit: "gap_fits (mp_entries (vm_maps s mp)) hint alen addr"
      using gap_result al ok(4) unfolding addr_def by simp
    have wf1: "maps_wf s1" using wf ok(1) by (rule maps_wf_same [rotated])
    have d: "vm_align_down addr = addr" "vm_align_up (addr + alen) = addr + alen"
      using fit al(1) by (simp_all add: gap_fits_def vm_align_down_id vm_align_up_add vm_align_up_id)
    have p: "0 \<le> sint addr" using sint_user gap_touched(2) [OF fit al(1)] by simp
    have add: "maps_wf s2" "\<forall>m. m \<noteq> mp \<longrightarrow> vm_maps s2 m = vm_maps s m" "task_vms s2 = task_vms s"
      "look_map mp s2 a = (if addr \<le> a \<and> a < addr + alen
         then Some (prot, flags OR VM_MAP_F_LAZY OR VM_MAP_F_ANON, obj, a - addr) else look_map mp s a)" for a
      using add_cases [OF wf1 ok(6)] ok(1) by (simp_all add: d same_maps_def look_map_def)
    have t: "vm_maps t = vm_maps s2" "task_vms t = (task_vms s)(task := (task_vms s task)\<lparr>vm_mmap_hint := addr + alen\<rparr>)"
      using ok(2,7) add(3) by (simp_all add: same_maps_def)
    have "look_map mp t = look_map mp s2" "maps_wf t" using add(1) by (simp_all add: look_map_def maps_wf_def t)
    then show ?thesis
      using fit p ok(5) add t unfolding Let_def defs [symmetric]
      by (intro disjI2 exI [of _ addr] exI [of _ obj]) simp
  qed
qed


text \<open>An allocation from the last block of the list.\<close>

lemma kmalloc_fit:
  fixes s :: "'a heap_state_scheme"
  assumes ok: "heap_ok s (xs @ [(a, m, True)])" and x: "\<forall>b \<in> set xs. \<not> b_free b"
    and n: "n \<noteq> 0" "unat n \<le> 2 ^ 42" "heap_align n \<le> m"
  shows "\<exists>t. kmalloc n s = Some (a + HB, t) \<and> a + HB \<noteq> 0 \<and> heap_ok t (xs @ take_blk (heap_align n) (a, m, True)) \<and>
    same_pmm s t \<and> current_pml4_phys t = current_pml4_phys s"
proof -
  have "unat n + 15 < 2 ^ 64" using n(2) by simp
  then have k: "16 dvd unat (heap_align n)" "unat (heap_align n) \<le> 2 ^ 43" "n \<le> heap_align n"
    using heap_align_ge [of n] n(2) by simp_all
  have b: "blk_ok (a, m, True)" using ok by (auto simp: heap_ok_def blks_ok_append blks_ok_Cons)
  have az: "a \<noteq> 0" using b by (simp add: blk_ok_def)
  have "m \<noteq> 0" using n(1,3) k(3) by (metis order_trans word_le_0_iff)
  then have "0 < unat m" by (simp add: unat_gt_0)
  then have "unat (a + HB) = unat a + 32" using b by (simp add: blk_ok_def unat_word_ariths)
  then have hz: "a + HB \<noteq> 0" by (metis add_gr_0 less_numeral_extra(3) unat_0 zero_less_numeral)
  have f: "find (\<lambda>b. b_free b \<and> heap_align n \<le> b_size b) (xs @ [(a, m, True)]) = Some (a, m, True)"
    using x n(3) by (induction xs) auto
  let ?t = "upd_blk a (\<lambda>b. b\<lparr>hb_free := False\<rparr>) (heap_split_block a (heap_align n) s)"
  have "kmalloc n s = Some (a + HB, ?t)"
    using n(1) az f heap_find_fit_ok [OF ok, of "heap_align n"] by (simp add: kmalloc_def Let_def)
  moreover have "heap_ok ?t (xs @ take_blk (heap_align n) (a, m, True) @ [])"
    using ok n(3) k by (intro take_rep) auto
  moreover have "current_pml4_phys ?t = current_pml4_phys s"
    by (simp add: heap_split_block_def upd_blk_def Let_def)
  ultimately show ?thesis using hz by (intro exI [of _ ?t]) simp
qed

lemma demo_create:
  "\<exists>obj s. vm_object_create VM_OBJECT_ANON 0x1000 vm_demo = Some (obj, s) \<and> obj \<noteq> 0 \<and> ref_count (vm_objects s obj) = 1"
proof -
  obtain m where "refs_ok vm_demo [(m, 4064, True)]" using vm_demo_refs by blast
  then have ok: "heap_ok vm_demo ([] @ [(m, 4064, True)])" by (simp add: refs_ok_def)
  have al: "heap_align 48 = 48" "heap_align 8 = 16" by (simp_all add: heap_align_def ALIGN_UP_def)
  obtain s1 where s1: "kmalloc 48 vm_demo = Some (m + HB, s1)" "m + HB \<noteq> 0"
    "heap_ok s1 ([(m, 48, False)] @ [(m + HB + 48, 3984, True)])"
    using kmalloc_fit [OF ok, of 48] by (auto simp: al take_blk_def split_list_at_def)
  obtain s2 where s2: "kmalloc 8 s1 = Some (m + HB + 48 + HB, s2)" "m + HB + 48 + HB \<noteq> 0"
    using kmalloc_fit [OF s1(3), of 8] by (auto simp: al)
  have "vm_object_align_up 0x1000 = 0x1000" by (simp add: vm_object_align_up_def)
  then show ?thesis using s1 s2 by (simp add: vm_object_create_def)
qed

lemma demo_gap: "vm_find_gap [demo_entry] VM_DEFAULT_MMAP 0x1000 = VM_DEFAULT_MMAP"
  by (simp add: vm_find_gap_def vm_align_up_def gap_loop.simps [of _ VM_DEFAULT_MMAP] vm_map_overlap_def demo_entry_def)

theorem vm_task_mmap_correct_witness:
  "\<exists>t obj. vm_task_mmap 1 0 0x1000 3 2 vm_demo = Some (0x60000000, t) \<and> look_map 0x100 t 0x60000010 = Some (3, 11, obj, 0x10)"
proof -
  obtain obj s1 where c: "vm_object_create VM_OBJECT_ANON 0x1000 vm_demo = Some (obj, s1)" "obj \<noteq> 0"
    "ref_count (vm_objects s1 obj) = 1" using demo_create by blast
  have m: "vm_maps s1 = vm_maps vm_demo" "task_vms s1 = task_vms vm_demo"
    using layer_maps(4) [OF c(1)] by (simp_all add: same_maps_def)
  have al: "vm_align_up 0x1000 = 0x1000" "vm_align_down VM_DEFAULT_MMAP = VM_DEFAULT_MMAP"
    "vm_align_up 0x60001000 = 0x60001000" by (simp_all add: vm_align_up_def vm_align_down_def)
  have f: "add_fails [demo_entry] 0x100 VM_DEFAULT_MMAP 0x1000 = None"
    by (simp add: add_fails_def al vm_range_valid_def vm_map_overlap_def demo_entry_def)
  have "\<exists>t. vm_task_mmap 1 0 0x1000 3 2 vm_demo = Some (0x60000000, t)"
    using c m f
    by (simp add: vm_task_mmap_def mmap_place_def al demo_gap vm_map_add_eq vm_object_ref_def upd_object_def upd_map_def
        vm_object_unref_def inc32_def Let_def)
  then obtain t where r: "vm_task_mmap 1 0 0x1000 3 2 vm_demo = Some (0x60000000, t)" by blast
  have h: "(2 :: u32) AND VM_MAP_F_FIXED = 0" "unat (0x1000 :: u64) < 2 ^ 62" by simp_all
  from vm_task_mmap_correct [OF vm_demo_wf h r] obtain addr obj where
    a: "0x60000000 = sint addr" "\<forall>a. look_map 0x100 t a = (if addr \<le> a \<and> a < addr + 0x1000
      then Some (3, 2 OR VM_MAP_F_LAZY OR VM_MAP_F_ANON, obj, a - addr) else look_map 0x100 vm_demo a)"
    by (auto simp: al Let_def)
  have "addr = word_of_int (sint addr)" by simp
  also have "\<dots> = 0x60000000" unfolding a(1) [symmetric] by simp
  finally have "addr = 0x60000000" .
  then show ?thesis using r a(2) by simp
qed

text \<open>
  C3: the invariant of the memory maps. Starting from a state whose maps are well formed, whatever task
  operations and page faults run in whatever order and with whatever arguments, the entries of every
  map are page aligned, non-empty, inside user space and pairwise disjoint, and there are at most 128.
\<close>

theorem vm_maps_invariant:
  assumes "maps_wf s" "vm_step\<^sup>*\<^sup>* s t" "x \<in> set (mp_entries (vm_maps t mp))"
  shows "page_aligned (me_start x) \<and> page_aligned (me_end x) \<and> 0x1000 \<le> me_start x \<and> me_start x < me_end x \<and>
    me_end x \<le> 0x80000000 \<and> length (mp_entries (vm_maps t mp)) \<le> 128 \<and>
    (\<forall>a. me_start x \<le> a \<and> a < me_end x \<longrightarrow> vm_map_lookup (mp_entries (vm_maps t mp)) a = Some x)"
proof -
  have wf: "map_wf (mp_entries (vm_maps t mp))" using steps_maps_wf [OF assms(2,1)] by (simp add: maps_wf_def)
  then have ok: "entries_ok (mp_entries (vm_maps t mp))" "length (mp_entries (vm_maps t mp)) \<le> 128"
    by (simp_all add: map_wf_def)
  have "vm_map_lookup es a = Some x" if "entries_ok es" "x \<in> set es" "me_start x \<le> a" "a < me_end x" for es a
    using that
  proof (induction es)
    case (Cons y es)
    have "a \<in> rng x" using Cons.prems(3,4) by (simp add: rng_def covers_def)
    then have "y \<noteq> x \<Longrightarrow> a \<notin> rng y" using Cons.prems(1,2) by (auto simp: entries_ok_simps span_def)
    then show ?case
      using Cons by (auto simp: vm_map_lookup_def entries_ok_simps rng_def covers_def)
  qed simp
  then show ?thesis using ok assms(3) by (auto simp: entries_ok_def entry_ok_def)
qed

theorem vm_maps_invariant_witness:
  "\<exists>t. vm_step\<^sup>*\<^sup>* vm_demo t \<and> vm_map_lookup (mp_entries (vm_maps t 0x100)) 0x600800 = Some (new_entry 0x600000 0x601000 3 5 0 0)"
proof -
  let ?x = "new_entry 0x600000 0x601000 3 5 0 0" and ?t = "upd_map 0x100 [demo_entry, new_entry 0x600000 0x601000 3 5 0 0] vm_demo"
  have "vm_task_map_fixed 1 0x600000 0x1000 3 1 vm_demo = (RDNX_OK, ?t)"
    by (simp add: vm_task_map_fixed_def vm_map_add_eq add_fails_def vm_range_valid_def vm_map_overlap_def
        vm_align_down_def vm_align_up_def vm_object_ref_def demo_entry_def)
  then have st: "vm_step\<^sup>*\<^sup>* vm_demo ?t" by (intro r_into_rtranclp) (rule vm_step.map_fixed)
  have "?x \<in> set (mp_entries (vm_maps ?t 0x100))" by simp
  from vm_maps_invariant [OF vm_demo_wf st this] st show ?thesis
    by (intro exI [of _ ?t]) (simp add: new_entry_def)
qed

text \<open>
  C32: destroying an address space ends. For a task whose maps are well formed, the loop of
  \<open>vm_task_destroy\<close>, which runs as long as the map has entries, is the recursion over the list of entries
  that releases the pages and the object of one entry after the other: it never runs forever. The
  operation then releases the map itself and clears the fields of the task; it returns unless one of the
  releases panics, and every removed map is left empty.
\<close>
theorem vm_task_destroy_terminates:
  fixes s :: "'a vmap_state_scheme"
  assumes "maps_wf s" "task \<noteq> 0" "t_vm_map (task_vms s task) = mp" "mp \<noteq> 0" "address_space (task_vms s task) = r"
  shows "destroy_loop mp r s = drop_entries mp r (mp_entries (vm_maps s mp)) s \<and>
    (\<forall>u. destroy_loop mp r s = Some u \<longrightarrow> mp_entries (vm_maps u mp) = []) \<and>
    vm_task_destroy task s =
      (case drop_entries mp r (mp_entries (vm_maps s mp)) s of
         None \<Rightarrow> None
       | Some u \<Rightarrow> map_option (upd_task task (\<lambda>t. t\<lparr>t_vm_map := 0, vm_brk_base := 0, vm_brk_end := 0,
                                 vm_mmap_base := 0, vm_mmap_hint := 0\<rparr>)) (kfree mp (upd_map mp [] u)))"
proof -
  have "map_wf (mp_entries (vm_maps s mp))" using assms(1) by (simp add: maps_wf_def)
  note d = destroy_loop_eq [OF this refl assms(4), of r]
  have u: "mp_entries (vm_maps u mp) = [] \<and> t_vm_map (task_vms u task) = mp"
    if "drop_entries mp r (mp_entries (vm_maps s mp)) s = Some u" for u
    using drop_entries_maps [OF that refl] assms(3) by (simp add: with_entries_def)
  have k: "upd_task task f (upd_task task g v) = upd_task task (f \<circ> g) v" for f g and v :: "'a vmap_state_scheme"
    by (simp add: upd_task_def comp_def)
  have "vm_map_destroy mp w = kfree mp (upd_map mp [] w)" if "mp_entries (vm_maps w mp) = []" for w :: "'a vmap_state_scheme"
    using assms(4) that by (simp add: vm_map_destroy_def)
  then show ?thesis
    using d u assms(2-5)
    by (auto simp: vm_task_destroy_def k comp_def split: option.split)
qed

theorem vm_task_destroy_terminates_witness:
  "\<exists>t. destroy_loop 0x100 0x5000 vm_demo = Some t \<and> mp_entries (vm_maps t 0x100) = []"
proof -
  have "\<exists>t. drop_entries 0x100 0x5000 [demo_entry] vm_demo = Some t"
    by (simp add: drop_entry_def demo_entry_def)
  then show ?thesis
    using vm_task_destroy_terminates [OF vm_demo_wf, of 1 "0x100" "0x5000"] by auto
qed

end
