(* ===== verification/VmForkProps.thy ===== *)
theory VmForkProps
  imports VmProps
begin

text \<open>
  Properties of fork, of user page faults and of counted frames: what fork copies, which faults succeed,
  when a frame is given back, and which pages parent and child share.
\<close>

section \<open>Fork and faults\<close>

lemma fork_map_fresh:
  fixes s :: "'a vmap_state_scheme"
  assumes "heap_inv s" "(pm - HB, n) \<in> heap_live s" "vm_map_create r s = Some (cm, t)"
  shows "cm \<noteq> pm"
proof -
  obtain u where k: "kmalloc 5136 s = Some (cm, u)"
    using assms(3) by (auto simp: vm_map_create_def split: option.splits if_splits)
  have l: "(5136 :: u64) \<noteq> 0" "unat (5136 :: u64) \<le> 2 ^ 42" by simp_all
  obtain m where m: "heap_inv u" "(cm - HB, m) \<notin> heap_live s" "heap_live u = insert (cm - HB, m) (heap_live s)"
    using kh.alloc_fresh [OF assms(1) l k] by blast
  have "unat (cm - HB) \<in> blk_bytes (cm - HB, x)" for x by (simp add: blk_bytes_def ext_def)
  then show ?thesis using kh.live_disjoint [OF m(1), of "(cm - HB, m)" "(pm - HB, n)"] m(2,3) assms(2) by blast
qed

text \<open>
  C17: fork. If the heap is consistent and the parent's map is one of its allocated blocks, then after a
  successful \<open>vm_task_fork_clone\<close> the child has a map of its own for the given page tables whose entries
  are those of the parent. In both maps exactly the private writable entries are marked copy-on-write;
  addresses, protections, objects and offsets are unchanged. The child inherits break and mmap fields,
  and no other map or task changes.
\<close>
theorem vm_task_fork_clone_correct:
  fixes s :: "'a vmap_state_scheme"
  assumes "heap_inv s" "t_vm_map (task_vms s parent) = pm" "(pm - HB, n) \<in> heap_live s"
    and "vm_task_fork_clone parent child r s = Some (RDNX_OK, t)"
  shows "\<exists>cm. cm \<noteq> 0 \<and> cm \<noteq> pm \<and>
    vm_maps t = (vm_maps s)
      (pm := (vm_maps s pm)\<lparr>mp_entries := map mark_cow (mp_entries (vm_maps s pm))\<rparr>,
       cm := \<lparr>mp_pml4 = r, mp_entries = map mark_cow (mp_entries (vm_maps s pm))\<rparr>) \<and>
    task_vms t = (task_vms s)(child := (task_vms s child)\<lparr>t_vm_map := cm,
       vm_brk_base := vm_brk_base (task_vms s parent), vm_brk_end := vm_brk_end (task_vms s parent),
       vm_mmap_base := vm_mmap_base (task_vms s parent), vm_mmap_hint := vm_mmap_hint (task_vms s parent)\<rparr>)"
proof -
  obtain cm u v where c: "vm_map_create r s = Some (cm, u)" "cm \<noteq> 0"
    and f: "fork_entries pm cm (address_space (task_vms s parent)) r [] (mp_entries (vm_maps u pm)) u = Some (RDNX_OK, v)"
    and t: "t = upd_task child (\<lambda>t. t\<lparr>t_vm_map := cm,
       vm_brk_base := vm_brk_base (task_vms s parent), vm_brk_end := vm_brk_end (task_vms s parent),
       vm_mmap_base := vm_mmap_base (task_vms s parent), vm_mmap_hint := vm_mmap_hint (task_vms s parent)\<rparr>) v"
    using assms(4) unfolding vm_task_fork_clone_def Let_def assms(2) [symmetric]
    by (auto split: option.splits if_splits)
  have ne: "pm \<noteq> cm" using fork_map_fresh [OF assms(1,3) c(1)] by simp
  have mu: "vm_maps u = (vm_maps s)(cm := \<lparr>mp_pml4 = r, mp_entries = []\<rparr>)" "task_vms u = task_vms s"
    using map_create_maps [OF c(1)] c(2) by simp_all
  have "mp_entries (vm_maps u cm) = []" "mp_entries (vm_maps u pm) = [] @ mp_entries (vm_maps u pm)" by (simp_all add: mu)
  note d = fork_entries_maps [OF f ne c(2) this]
  then have "vm_maps v = with_entries pm (map mark_cow (mp_entries (vm_maps s pm)))
      (with_entries cm (map mark_cow (mp_entries (vm_maps s pm))) (vm_maps u))"
    using ne by (auto simp: fork_done_def mu)
  then have "vm_maps t = (vm_maps s)
      (pm := (vm_maps s pm)\<lparr>mp_entries := map mark_cow (mp_entries (vm_maps s pm))\<rparr>,
       cm := \<lparr>mp_pml4 = r, mp_entries = map mark_cow (mp_entries (vm_maps s pm))\<rparr>)"
    using ne by (auto simp: t with_entries_def mu fun_eq_iff)
  moreover have "task_vms t = (task_vms s)(child := (task_vms s child)\<lparr>t_vm_map := cm,
       vm_brk_base := vm_brk_base (task_vms s parent), vm_brk_end := vm_brk_end (task_vms s parent),
       vm_mmap_base := vm_mmap_base (task_vms s parent), vm_mmap_hint := vm_mmap_hint (task_vms s parent)\<rparr>)"
    using d by (simp add: t mu)
  ultimately show ?thesis using c(2) ne by blast
qed

definition permits :: "u32 \<Rightarrow> u64 \<Rightarrow> bool" where
  "permits prot err \<longleftrightarrow>
     (err AND 16 \<noteq> 0 \<longrightarrow> prot AND VM_PROT_EXEC \<noteq> 0) \<and> (err AND 2 \<noteq> 0 \<longrightarrow> prot AND VM_PROT_WRITE \<noteq> 0) \<and>
     (err AND 16 = 0 \<and> err AND 2 = 0 \<longrightarrow> prot AND VM_PROT_READ \<noteq> 0 \<or> prot AND VM_PROT_WRITE \<noteq> 0)"

definition may_fault :: "u64 \<Rightarrow> u64 \<Rightarrow> u64 \<Rightarrow> 'a vmap_state_scheme \<Rightarrow> bool" where
  "may_fault task addr err s \<longleftrightarrow> task \<noteq> 0 \<and> t_vm_map (task_vms s task) \<noteq> 0 \<and> address_space (task_vms s task) \<noteq> 0 \<and>
     err AND 4 \<noteq> 0 \<and> 0x1000 \<le> addr \<and> addr < X86_64_KERNEL_VIRT_BASE \<and>
     (case look_map (t_vm_map (task_vms s task)) s (vm_align_down addr) of
        None \<Rightarrow> False | Some (prot, _) \<Rightarrow> permits prot err)"

lemma fault_refused:
  assumes "\<not> may_fault task addr err s"
  shows "\<exists>rc. rc \<noteq> RDNX_OK \<and> vm_fault_handle task addr err s = Some (rc, s)"
proof -
  let ?t = "task_vms s task" and ?va = "addr AND NOT (VM_PAGE_SIZE - 1)"
  let ?g = "task \<noteq> 0 \<and> t_vm_map ?t \<noteq> 0 \<and> address_space ?t \<noteq> 0 \<and> err AND 4 \<noteq> 0 \<and> 0x1000 \<le> addr \<and>
    addr < X86_64_KERNEL_VIRT_BASE"
  show ?thesis
  proof (cases ?g)
    case False
    then show ?thesis unfolding vm_fault_handle_def Let_def by (auto simp: not_le not_less)
  next
    case g: True
    show ?thesis
    proof (cases "vm_map_lookup (mp_entries (vm_maps s (t_vm_map ?t))) ?va")
      case None
      then show ?thesis using g unfolding vm_fault_handle_def Let_def by simp
    next
      case (Some e)
      then have "\<not> permits (me_prot e) err"
        using assms g by (simp add: may_fault_def look_map_def amap_def view_def vm_align_down_def)
      then show ?thesis
        using g Some unfolding vm_fault_handle_def Let_def permits_def by (simp add: not_le not_less) blast
    qed
  qed
qed

text \<open>
  C33: what a user page fault may do. \<open>vm_fault_handle\<close> never changes a map or a task. It succeeds only for a
  fault in user mode, at an address that the task's map covers, with an access that the entry's
  protection permits; any other fault is refused with an error code and leaves the state as it is.
\<close>
theorem vm_fault_handle_permits:
  shows "(\<not> may_fault task addr err s \<longrightarrow>
      (\<exists>rc. rc \<noteq> RDNX_OK \<and> vm_fault_handle task addr err s = Some (rc, s))) \<and>
    (\<forall>rc t. vm_fault_handle task addr err s = Some (rc, t) \<longrightarrow> vm_maps t = vm_maps s \<and> task_vms t = task_vms s)"
  using fault_refused fault_maps unfolding same_maps_def by blast

theorem vm_fault_handle_permits_witness:
  "\<exists>rc. rc \<noteq> RDNX_OK \<and> vm_fault_handle 1 0x500123 6 vm_demo = Some (rc, vm_demo)"
proof -
  have "vm_align_down 0x500123 = 0x500000" by (simp add: vm_align_down_def)
  then have "\<not> may_fault 1 0x500123 6 vm_demo" by (simp add: may_fault_def demo_look)
  then show ?thesis using vm_fault_handle_permits [of 1 "0x500123" 6 vm_demo] by blast
qed

text \<open>A machine with a heap of three pages and no page tables, whose task 1 has a map allocated from the heap.\<close>

definition fork_heap :: heap_state where
  "fork_heap = snd (the (heap_init 3 heap_pmm_demo))"

definition fork_base :: vmap_state where
  "fork_base = heap_state.extend (fork_heap\<lparr>current_pml4_phys := 0\<rparr>) (heap_state.more vm_demo)"

definition fork_state :: "u64 \<Rightarrow> vmap_state \<Rightarrow> vmap_state" where
  "fork_state pm s = upd_task 1 (\<lambda>t. t\<lparr>t_vm_map := pm\<rparr>) (upd_map pm [demo_entry] s)"

lemma fork_heap_ok: "\<exists>m. heap_ok fork_heap [(m, 12256, True)]"
proof -
  obtain t where t: "pmm_init 0x1000000 0x1004000 0x200000 heap_blank = (0, t)"
    "memory_start t = 0x1000000" "free_set t = {..<4}"
    using pmm_init_ok [OF demo_bounds(1), of "0x200000" heap_blank] demo_bounds(2) by (auto simp: ALIGN_UP_def)
  have f: "free_set heap_pmm_demo = free_set t" by (simp add: heap_pmm_demo_def t(1) free_set_def pmm_bitmap_test_def)
  have e: "memory_start heap_pmm_demo = 0x1000000" "free_set heap_pmm_demo = {..<4}"
    unfolding f t(3) using t(1,2) by (simp_all add: heap_pmm_demo_def)
  have "page_zone heap_pmm_demo i = PMM_ZONE_NORMAL" if "i < 3" for i
  proof -
    have "i = 0 \<or> i = 1 \<or> i = 2" using that by auto
    then show ?thesis by (auto simp: page_zone_def pmm_index_to_page_def e pmm_zone_for_addr_def)
  qed
  then have "free_run heap_pmm_demo PMM_ZONE_NORMAL 0 3" by (auto simp: free_run_def e)
  then have "has_pages 3 heap_pmm_demo" unfolding has_pages_def by blast
  moreover have "unat (3::u64) = 3" by simp
  ultimately obtain m t where "heap_init 3 heap_pmm_demo = Some (0, t)" "heap_ok t [(m, 3 * PAGE_SIZE - HB, True)]"
    using heap_init_ok [OF heap_pmm_demo_ok(1-3), of 3] by auto
  then show ?thesis by (auto simp: fork_heap_def)
qed

lemma heap_ok_irrelevant:
  fixes s :: "'a heap_state_scheme" and v :: "'b vmap_state_scheme"
  shows "heap_ok (s\<lparr>current_pml4_phys := c\<rparr>) bs = heap_ok s bs"
    "heap_ok (v\<lparr>vm_maps := ms\<rparr>) bs = heap_ok v bs" "heap_ok (v\<lparr>task_vms := ts\<rparr>) bs = heap_ok v bs"
proof -
  have 1: "same_pmm s (s\<lparr>current_pml4_phys := c\<rparr>)" "heap_rep (s\<lparr>current_pml4_phys := c\<rparr>) bs = heap_rep s bs"
    by (simp_all add: same_pmm_def pmm_state.truncate_def heap_rep_def)
  have 2: "same_pmm v (v\<lparr>vm_maps := ms\<rparr>)" "heap_rep (v\<lparr>vm_maps := ms\<rparr>) bs = heap_rep v bs"
    by (simp_all add: same_pmm_def pmm_state.truncate_def heap_rep_def)
  have 3: "same_pmm v (v\<lparr>task_vms := ts\<rparr>)" "heap_rep (v\<lparr>task_vms := ts\<rparr>) bs = heap_rep v bs"
    by (simp_all add: same_pmm_def pmm_state.truncate_def heap_rep_def)
  show "heap_ok (s\<lparr>current_pml4_phys := c\<rparr>) bs = heap_ok s bs" using same_pmmD [OF 1(1)] 1(2) by (simp add: heap_ok_def)
  show "heap_ok (v\<lparr>vm_maps := ms\<rparr>) bs = heap_ok v bs" using same_pmmD [OF 2(1)] 2(2) by (simp add: heap_ok_def)
  show "heap_ok (v\<lparr>task_vms := ts\<rparr>) bs = heap_ok v bs" using same_pmmD [OF 3(1)] 3(2) by (simp add: heap_ok_def)
qed

lemma fork_demo:
  "\<exists>pm (s :: vmap_state) t. heap_inv s \<and> t_vm_map (task_vms s 1) = pm \<and> (pm - HB, 112) \<in> heap_live s \<and>
     mp_entries (vm_maps s pm) = [demo_entry] \<and> vm_task_fork_clone 1 2 0x7000 s = Some (RDNX_OK, t)"
proof -
  obtain m where "heap_ok fork_heap [(m, 12256, True)]" using fork_heap_ok by blast
  then have ok: "heap_ok fork_base ([] @ [(m, 12256, True)])"
    by (simp add: fork_base_def heap_ok_extend heap_ok_irrelevant)
  have al: "heap_align 100 = 112" "heap_align 5136 = 5136" by (simp_all add: heap_align_def ALIGN_UP_def)
  have c0: "current_pml4_phys fork_base = 0" by (simp add: fork_base_def heap_state.extend_def)
  obtain s1 where s1: "kmalloc 100 fork_base = Some (m + HB, s1)" "m + HB \<noteq> 0"
    "heap_ok s1 ([(m, 112, False)] @ [(m + HB + 112, 12112, True)])"
    "current_pml4_phys s1 = 0"
    using kmalloc_fit [OF ok, of 100] c0 by (auto simp: al take_blk_def split_list_at_def)
  define s where "s = fork_state (m + HB) s1"
  have oks: "heap_ok s ([(m, 112, False)] @ [(m + HB + 112, 12112, True)])"
    using s1(3) by (simp add: s_def fork_state_def upd_task_def upd_map_def heap_ok_irrelevant)
  have live: "heap_inv s" "(m + HB - HB, 112) \<in> heap_live s"
    using oks heap_live_eq [OF oks] by (auto simp: heap_inv_def)
  have c: "current_pml4_phys s = 0" using s1(4) by (simp add: s_def fork_state_def upd_task_def upd_map_def)
  obtain s2 where s2: "kmalloc 5136 s = Some (m + HB + 112 + HB, s2)" "m + HB + 112 + HB \<noteq> 0" "current_pml4_phys s2 = 0"
    using kmalloc_fit [OF oks, of 5136] c by (auto simp: al)
  have sm: "vm_maps s1 = vm_maps vm_demo" "task_vms s1 = task_vms vm_demo"
    using kmalloc_maps [OF s1(1)] by (simp_all add: same_maps_def fork_base_def heap_state.extend_def vm_demo_def)
  have m2: "vm_maps s2 = vm_maps s" "task_vms s2 = task_vms s" using kmalloc_maps [OF s2(1)] by (simp_all add: same_maps_def)
  define cm where "cm = m + HB + 112 + HB"
  define u where "u = s2\<lparr>vm_maps := (vm_maps s2)(cm := \<lparr>mp_pml4 = 0x7000, mp_entries = []\<rparr>)\<rparr>"
  have cu: "vm_map_create 0x7000 s = Some (cm, u)" using s2 by (simp add: vm_map_create_def cm_def u_def)
  have t1: "t_vm_map (task_vms s 1) = m + HB" "address_space (task_vms s 1) = 0x5000"
    "mp_entries (vm_maps s (m + HB)) = [demo_entry]" by (simp_all add: s_def fork_state_def sm)
  have ne: "cm \<noteq> m + HB" by (simp add: cm_def)
  have fp: "fork_pages cow p r r' vas v = Some (True, v)" if "current_pml4_phys v = 0" for cow p r r' vas and v :: vmap_state
    using that by (induction vas) (simp_all add: paging_get_physical_def paging_get_pml4_def)
  have cz: "cm \<noteq> 0" using s2(2) by (simp add: cm_def)
  obtain t where "fork_entries (m + HB) cm 0x5000 0x7000 [] [demo_entry] u = Some (RDNX_OK, t)"
    using s2(3) by (simp add: u_def fp upd_map_def Let_def demo_entry_def)
  moreover have "mp_entries (vm_maps u (m + HB)) = [demo_entry]" using ne t1(3) by (simp add: u_def m2)
  ultimately have "\<exists>t. vm_task_fork_clone 1 2 0x7000 s = Some (RDNX_OK, t)"
    using s1(2) cu cz t1(1,2) by (simp del: fork_entries.simps add: vm_task_fork_clone_def Let_def)
  then show ?thesis using live t1 by blast
qed

theorem vm_task_fork_clone_correct_witness:
  "\<exists>(s :: vmap_state) t pm cm. vm_task_fork_clone 1 2 0x7000 s = Some (RDNX_OK, t) \<and> t_vm_map (task_vms s 1) = pm \<and>
     t_vm_map (task_vms t 2) = cm \<and> cm \<noteq> pm \<and>
     mp_entries (vm_maps t cm) = [demo_entry\<lparr>me_flags := 34\<rparr>] \<and> mp_entries (vm_maps t pm) = [demo_entry\<lparr>me_flags := 34\<rparr>]"
proof -
  obtain pm t and s :: vmap_state where s: "heap_inv s" "t_vm_map (task_vms s 1) = pm" "(pm - HB, 112) \<in> heap_live s"
    "mp_entries (vm_maps s pm) = [demo_entry]" "vm_task_fork_clone 1 2 0x7000 s = Some (RDNX_OK, t)"
    using fork_demo by blast
  have "mark_cow demo_entry = demo_entry\<lparr>me_flags := 34\<rparr>"
    by (simp add: mark_cow_def vm_entry_is_cow_candidate_def demo_entry_def)
  with vm_task_fork_clone_correct [OF s(1-3,5)] s show ?thesis
    by (intro exI [of _ s] exI [of _ t] exI [of _ pm] exI [of _ "t_vm_map (task_vms t 2)"]) auto
qed

section \<open>References to frames\<close>

text \<open>
  C35: a fresh page. In a consistent state, when \<open>vm_pager_alloc_zero_page\<close> returns a frame, it was free
  and had no reference before; now it has exactly one, all its bytes are 0, no other count has changed,
  and the state is consistent: the frame is neither free nor part of the heap.
\<close>
theorem vm_pager_alloc_zero_page_correct:
  fixes s :: "'a vm_state_scheme"
  assumes "refs_ok s bs" "vm_pager_alloc_zero_page s = Some (p, t)" "p \<noteq> 0"
  shows "p \<in> free_frames s \<and> refcount s p = 0 \<and> refcount t = (refcount s)(p := 1) \<and>
    (\<forall>k < 4096. pmem t (p + of_nat k) = 0) \<and>
    (\<exists>cs. refs_ok t cs \<and> p \<notin> free_frames t \<and> fbytes {p} \<inter> cover cs = {})"
proof -
  note k = pager_ok [OF assms]
  then obtain cs where cs: "refs_ok t cs" by blast
  have "refcount t p = 1" using k by simp
  then have "p \<in> pr_phys ` set (g_vm_page_refs t)"
    using count_zero [OF refs_okD(2) [OF cs], of p] by (simp add: refcount_def vm_page_ref_find_def)
  then have "fbytes {p} \<subseteq> fbytes (pr_phys ` set (g_vm_page_refs t))" by (intro fbytes_mono) simp
  then have d: "fbytes {p} \<inter> heap_region t cs = {}" using cs unfolding refs_ok_def by blast
  have "unat (X86_64_PHYS_TO_VIRT p) \<in> fbytes {p}" by (simp add: fbytes_def)
  then have "p \<notin> free_frames t"
    using d fbytes_mono [of "{p}" "free_frames t"] unfolding heap_region_def by blast
  then show ?thesis using k cs d unfolding heap_region_def by blast
qed

lemma demo_free: "\<exists>i. free_set heap_demo = {..<4} - {i} \<and> memory_start heap_demo = 0x1000000"
proof -
  obtain t where t: "pmm_init 0x1000000 0x1004000 0x200000 heap_blank = (0, t)"
    "memory_start t = 0x1000000" "free_set t = {..<4}"
    using pmm_init_ok [OF demo_bounds(1), of "0x200000" heap_blank] demo_bounds(2) by (auto simp: ALIGN_UP_def)
  have f: "free_set heap_pmm_demo = free_set t" by (simp add: heap_pmm_demo_def t(1) free_set_def pmm_bitmap_test_def)
  have e: "memory_start heap_pmm_demo = 0x1000000" using t(1,2) by (simp add: heap_pmm_demo_def)
  obtain p u where a: "pmm_alloc_pages 1 heap_pmm_demo = (p, u)" by fastforce
  have "unat (1 :: u64) = 1" by simp
  then obtain m h where h: "heap_init 1 heap_pmm_demo = Some (0, h)"
    using heap_init_ok [OF heap_pmm_demo_ok(1-3), of 1] heap_pmm_demo_ok(4) by auto
  have one: "0 < (1 :: nat)" by simp
  have pz: "p \<noteq> 0" and hu: "same_pmm u h" "h = heap_demo"
    using h a heap_pmm_demo_ok(3) by (auto simp: heap_init_def vmm_alloc_pages_def heap_demo_def split: if_splits)
  obtain st where s: "free_set u = free_set heap_pmm_demo - {st..<st + 1}" "same_geom heap_pmm_demo u"
    using alloc_pages_spec [OF heap_pmm_demo_ok(1) one a] pz by blast
  have "free_set h = free_set u" "memory_start h = memory_start u"
    using hu(1) by (simp_all add: same_pmm_def pmm_state.truncate_def free_set_def pmm_bitmap_test_def fun_eq_iff)
  then show ?thesis using s f t(3) e hu(2) by (intro exI [of _ st]) (simp add: same_geom_def)
qed


lemma demo_pager:
  "\<exists>p t m. vm_pager_alloc_zero_page vm_demo = Some (p, t) \<and> p \<noteq> 0 \<and>
     heap_ok t [(m, 32, False), (m + HB + 32, 4000, True)]"
proof -
  obtain m where ok: "refs_ok vm_demo [(m, 4064, True)]" using vm_demo_refs by blast
  have inv: "pmm_inv vm_demo" by (rule refs_okD(3) [OF ok])
  obtain i where i: "free_set heap_demo = {..<4} - {i}" "memory_start heap_demo = 0x1000000" using demo_free by blast
  have f: "free_set vm_demo = {..<4} - {i}" "memory_start vm_demo = 0x1000000"
  proof -
    have "free_set vm_demo = free_set heap_demo"
      by (simp add: vm_demo_def heap_state.extend_def free_set_def pmm_bitmap_test_def)
    then show "free_set vm_demo = {..<4} - {i}" using i(1) by simp
    show "memory_start vm_demo = 0x1000000" using i(2) by (simp add: vm_demo_def heap_state.extend_def)
  qed
  define j where "j = (if i = 0 then 1 else 0 :: nat)"
  have j: "j \<in> free_set vm_demo" "j = 0 \<or> j = 1" by (simp_all add: j_def f(1))
  then have z: "page_zone vm_demo j = PMM_ZONE_NORMAL"
    by (auto simp: page_zone_def pmm_index_to_page_def f(2) pmm_zone_for_addr_def)
  obtain q u where a: "pmm_alloc_page_in_zone PMM_ZONE_NORMAL vm_demo = (q, u)" by fastforce
  have nz: "pmm_index_to_page vm_demo k \<noteq> 0" if "k \<in> free_set vm_demo" for k
    using inv that geom_page(2) [of vm_demo k] by (auto simp: pmm_inv_def free_set_def)
  have zc: "PMM_ZONE_NORMAL < PMM_ZONE_COUNT" by simp
  have q: "q \<noteq> 0" using alloc_page_in_zone_spec [OF inv zc a] j(1) z nz by metis
  note al = alloc_frame_heap [OF ok a zc q]
  define v where "v = u\<lparr>pmem := mem_set (pmem u) q 0 4096\<rparr>"
  have ov: "refs_ok v ([] @ [(m, 4064, True)])" "refcount v q = 0" using al by (simp_all add: v_def)
  have ha: "heap_align 24 = 32" by (simp add: heap_align_def ALIGN_UP_def)
  obtain w where w: "kmalloc 24 v = Some (m + HB, w)" "m + HB \<noteq> 0" "heap_ok w [(m, 32, False), (m + HB + 32, 4000, True)]"
    using kmalloc_fit [OF refs_okD(1) [OF ov(1)], of 24] by (auto simp: ha take_blk_def split_list_at_def)
  have "vm_page_ref_find q v = None"
    using ov(2) count_zero [OF refs_okD(2) [OF ov(1)], of q] by (auto simp: refcount_def vm_page_ref_find_def find_None_iff)
  then obtain t where "vm_page_ref_add_new q v = Some (RDNX_OK, t)" "heap_ok t [(m, 32, False), (m + HB + 32, 4000, True)]"
    using w q by (simp add: vm_page_ref_add_new_def)
  then show ?thesis using a q by (auto simp: vm_pager_alloc_zero_page_def v_def Let_def)
qed

theorem vm_pager_alloc_zero_page_correct_witness:
  "\<exists>p t. vm_pager_alloc_zero_page vm_demo = Some (p, t) \<and> refcount t p = 1 \<and> pmem t (p + 7) = 0 \<and> p \<notin> free_frames t"
proof -
  obtain p t where a: "vm_pager_alloc_zero_page vm_demo = Some (p, t)" "p \<noteq> 0" using demo_pager by blast
  obtain m where ok: "refs_ok vm_demo [(m, 4064, True)]" using vm_demo_refs by blast
  have "(7 :: nat) < 4096" by simp
  with vm_pager_alloc_zero_page_correct [OF ok a] have "pmem t (p + of_nat 7) = 0" by blast
  with vm_pager_alloc_zero_page_correct [OF ok a] a(1) show ?thesis by auto
qed

lemma demo_ref: "\<exists>p (t :: vmap_state). refs_inv t \<and> refcount t p = 1"
proof -
  obtain p t m where a: "vm_pager_alloc_zero_page vm_demo = Some (p, t)" "p \<noteq> 0"
    "heap_ok t [(m, 32, False), (m + HB + 32, 4000, True)]" using demo_pager by blast
  obtain m' where ok: "refs_ok vm_demo [(m', 4064, True)]" using vm_demo_refs by blast
  obtain cs where c: "refs_ok t cs" "refcount t p = 1" using pager_ok [OF ok a(1,2)] by auto
  have "cs = [(m, 32, False), (m + HB + 32, 4000, True)]"
    using heap_rep_unique a(3) refs_okD(1) [OF c(1)] by (auto simp: heap_ok_def)
  then have "refs_inv t" using c(1) unfolding refs_inv_def by (intro exI [of _ cs]) simp
  then show ?thesis using c(2) by blast
qed

text \<open>
  C34: the life of a counted frame. In a consistent state, a frame with \<open>n\<close> references survives any \<open>k < n\<close>
  releases, which all succeed and leave the free frames as they are; the \<open>n\<close>-th release succeeds too and
  hands exactly this frame back to the physical memory manager. As many retains as releases cancel out,
  up to the limit of the counter. A release of a frame without references is an error without effect.
\<close>
theorem vm_page_ref_life:
  fixes s :: "'a vm_state_scheme"
  assumes "refs_inv s"
  shows "(\<forall>k < refcount s p. \<exists>t. repeat_op k (vm_page_ref_release p) s = Some t \<and> refs_inv t \<and>
        refcount t = (refcount s)(p := refcount s p - k) \<and> free_frames t = free_frames s) \<and>
    (0 < refcount s p \<longrightarrow> (\<exists>t. repeat_op (refcount s p) (vm_page_ref_release p) s = Some t \<and> refs_inv t \<and>
        refcount t = (refcount s)(p := 0) \<and> free_frames t = insert p (free_frames s))) \<and>
    (0 < refcount s p \<and> refcount s p + n \<le> 2 ^ 32 - 1 \<longrightarrow>
       (\<exists>t u. repeat_op n (vm_page_ref_retain p) s = Some t \<and> repeat_op n (vm_page_ref_release p) t = Some u \<and>
          refs_inv u \<and> refcount u = refcount s \<and> free_frames u = free_frames s)) \<and>
    (refcount s p = 0 \<longrightarrow> (\<exists>rc. rc \<noteq> RDNX_OK \<and> vm_page_ref_release p s = Some (rc, s)))"
  using pr.release_times [OF assms] pr.release_all [OF assms] pr.retain_release [OF assms] pr.release_absent [OF assms]
  by blast

theorem vm_page_ref_life_witness:
  "\<exists>p (s :: vmap_state) t. refcount s p = 1 \<and> repeat_op 1 (vm_page_ref_release p) s = Some t \<and> refcount t p = 0 \<and> p \<in> free_frames t"
proof -
  obtain p and s :: vmap_state where s: "refs_inv s" "refcount s p = 1" using demo_ref by blast
  have "0 < refcount s p" using s(2) by simp
  with vm_page_ref_life [OF s(1), of p 0] obtain t where
    "repeat_op (refcount s p) (vm_page_ref_release p) s = Some t" "refcount t = (refcount s)(p := 0)"
    "free_frames t = insert p (free_frames s)" by blast
  then show ?thesis using s(2) by (intro exI [of _ p] exI [of _ s] exI [of _ t]) simp
qed


section \<open>Pages of an object\<close>

lemma kmalloc_objects:
  fixes s t :: "'a vm_state_scheme"
  assumes "kmalloc n s = Some (p, t)"
  shows "vm_objects t = vm_objects s"
  using refs_more(2) [OF kmalloc_more [OF assms]] .

lemma retain_objects:
  fixes s t :: "'a vm_state_scheme"
  assumes "vm_page_ref_retain p s = Some (rc, t)"
  shows "vm_objects t = vm_objects s"
  using assms kmalloc_objects
  by (fastforce simp: vm_page_ref_retain_def vm_page_ref_add_new_def split: option.splits if_splits)

lemma pager_objects:
  fixes s t :: "'a vm_state_scheme"
  assumes "vm_pager_alloc_zero_page s = Some (p, t)"
  shows "vm_objects t = vm_objects s"
proof -
  have f: "vm_objects (snd (pmm_alloc_page_in_zone z s)) = vm_objects s" for z
    by (rule refs_more(2) [OF more_heap [OF more_paging [OF alloc_page_more(1)]]])
  then show ?thesis
    using assms
    by (auto simp: vm_pager_alloc_zero_page_def vm_page_ref_retain_def [symmetric] Let_def split_beta
        dest!: retain_objects split: if_splits option.splits)
qed

definition page_of :: "vm_map_entry \<Rightarrow> u64 \<Rightarrow> u64" where
  "page_of e va = (me_offset e + (va - me_start e)) div VM_PAGE_SIZE"

definition has_page :: "u64 \<Rightarrow> u64 \<Rightarrow> 'a vm_state_scheme \<Rightarrow> bool" where
  "has_page obj i s \<longleftrightarrow> obj \<noteq> 0 \<and> resident_ptr (vm_objects s obj) \<noteq> 0 \<and> i < page_count (vm_objects s obj) \<and>
     length (resident_pages (vm_objects s obj)) = unat (page_count (vm_objects s obj))"

lemma set_resident_get:
  assumes h: "has_page obj i v" and r0: "resident_pages (vm_objects v obj) ! unat i = 0" and p: "p \<noteq> 0"
    and st: "vm_object_set_resident_page obj i p v = Some (rc, t)"
  shows "vm_object_get_resident_page obj i t = p"
proof -
  have "\<not> page_count (vm_objects v obj) \<le> i" "resident_ptr (vm_objects v obj) \<noteq> 0" "obj \<noteq> 0"
    using h by (auto simp: has_page_def)
  then obtain w rc' where w: "vm_page_ref_retain p v = Some (rc', w)"
    "t = upd_object obj (\<lambda>ob. ob\<lparr>resident_pages := (resident_pages ob)[unat i := p]\<rparr>) w"
    using st p r0 by (auto simp: vm_object_set_resident_page_def Let_def split: option.splits)
  have "vm_objects w = vm_objects v" using retain_objects [OF w(1)] .
  moreover have "unat i < length (resident_pages (vm_objects v obj))" using h by (simp add: has_page_def word_less_nat_alt)
  ultimately show ?thesis using h
    by (auto simp: w(2) vm_object_get_resident_page_def upd_object_def has_page_def)
qed

lemma map_pair_SomeD: "map_option (\<lambda>(_, s). (r, s)) x = Some (p, t) \<Longrightarrow> \<exists>c. x = Some (c, t) \<and> p = r"
  by auto

lemma fault_page_resident:
  assumes h: "has_page (me_object e) (page_of e va) s" and run: "fault_page e va s = Some (p, t)" and p: "p \<noteq> 0"
  shows "vm_object_get_resident_page (me_object e) (page_of e va) t = p"
proof -
  let ?o = "me_object e" and ?i = "page_of e va"
  let ?r = "vm_object_get_resident_page ?o ?i s"
  have g: "vm_object_get_resident_page ?o ?i s = resident_pages (vm_objects s ?o) ! unat ?i"
    using h by (auto simp: vm_object_get_resident_page_def has_page_def not_le)
  show ?thesis
  proof (cases "?r = 0")
    case False
    moreover have "?o \<noteq> 0" using h by (simp add: has_page_def)
    ultimately have "map_option (\<lambda>(_, s). (?r, s)) (vm_page_ref_retain ?r s) = Some (p, t)"
      using run unfolding fault_page_def Let_def page_of_def [symmetric] by simp metis
    from map_pair_SomeD [OF this] obtain rc where "vm_page_ref_retain ?r s = Some (rc, t)" "p = ?r" by blast
    then show ?thesis using retain_objects unfolding vm_object_get_resident_page_def by metis
  next
    case True
    then have r0: "resident_pages (vm_objects s ?o) ! unat ?i = 0" using g by simp
    have o0: "?o \<noteq> 0" using h by (simp add: has_page_def)
    obtain u where u: "vm_pager_alloc_zero_page s = Some (p, u)"
    proof (cases "vm_pager_alloc_zero_page s")
      case (Some qu)
      then show ?thesis
        using run True o0 p that unfolding fault_page_def Let_def page_of_def [symmetric] by (cases qu) (auto split: if_splits)
    qed (use run True o0 in \<open>auto simp: fault_page_def Let_def page_of_def\<close>)
    let ?fb = "vm_backings u (pager_private (vm_objects u ?o))"
    let ?off = "file_offset ?fb + me_offset e + (va - me_start e)"
    let ?copy = "if VM_PAGE_SIZE < fb_size ?fb - ?off then VM_PAGE_SIZE else fb_size ?fb - ?off"
    define v where "v = (if vo_type (vm_objects u ?o) = VM_OBJECT_FILE \<and> pager_private (vm_objects u ?o) \<noteq> 0 \<and>
        fb_data ?fb \<noteq> 0 \<and> 0 < fb_size ?fb \<and> ?off < fb_size ?fb
      then u\<lparr>pmem := mem_copy (pmem u) p (X86_64_VIRT_TO_PHYS (fb_data ?fb + ?off)) (unat ?copy)\<rparr> else u)"
    obtain rc where st: "vm_object_set_resident_page ?o ?i p v = Some (rc, t)"
      using run True u o0 p unfolding fault_page_def Let_def page_of_def [symmetric] v_def by auto
    have "vm_objects v = vm_objects u" by (simp add: v_def)
    then have v: "vm_objects v = vm_objects s" using u pager_objects by simp
    then show ?thesis using set_resident_get [OF _ _ p st] h r0 by (simp add: has_page_def)
  qed
qed



definition shared_demo :: vmap_state where
  "shared_demo = vm_demo\<lparr>g_vm_page_refs := [\<lparr>pr_node = 0x40, pr_phys = 0x5000, pr_refs = 1\<rparr>],
     vm_objects := (\<lambda>_. \<lparr>vo_type = VM_OBJECT_ANON, ref_count = 2, vo_size = 0x1000, page_count = 1,
                       resident_ptr = 0x300, resident_pages = [0x5000], pager_private = 0\<rparr>)\<rparr>"


end
