(* ===== verification/Tailq.thy ===== *)
theory Tailq
  imports Prelude
begin

text \<open>
  The tail queues of \<^verbatim>\<open>include/bsd/sys/queue.h\<close>, on which the thread lists of the scheduler, the
  wait queues and the tasks are built. A head holds the first element and the address of the last
  link; an element holds the next element and the address of the link that points to it. A link
  is thus either the head's \<^verbatim>\<open>tqh_first\<close> or some element's \<^verbatim>\<open>tqe_next\<close>. The macros are pointer
  programs on these cells; \<open>tq_rep\<close> says which list the cells hold, and every macro is shown to
  be the list operation that the other theories use in its place.
\<close>

section \<open>The macros\<close>

datatype link = Tqh_first | Tqe_next u64

record tailq =
  tqh_first :: u64
  tqh_last :: link
  tqe_next :: "u64 \<Rightarrow> u64"
  tqe_prev :: "u64 \<Rightarrow> link"

fun link_get :: "tailq \<Rightarrow> link \<Rightarrow> u64" where
  "link_get q Tqh_first = tqh_first q"
| "link_get q (Tqe_next x) = tqe_next q x"

fun link_set :: "link \<Rightarrow> u64 \<Rightarrow> tailq \<Rightarrow> tailq" where
  "link_set Tqh_first v q = q\<lparr>tqh_first := v\<rparr>"
| "link_set (Tqe_next x) v q = q\<lparr>tqe_next := (tqe_next q)(x := v)\<rparr>"

definition set_prev :: "u64 \<Rightarrow> link \<Rightarrow> tailq \<Rightarrow> tailq" where
  "set_prev x l q = q\<lparr>tqe_prev := (tqe_prev q)(x := l)\<rparr>"

definition TAILQ_INIT :: "tailq \<Rightarrow> tailq" where
  "TAILQ_INIT q = q\<lparr>tqh_first := 0, tqh_last := Tqh_first\<rparr>"

definition TAILQ_EMPTY :: "tailq \<Rightarrow> bool" where
  "TAILQ_EMPTY q \<longleftrightarrow> tqh_first q = 0"

definition TAILQ_FIRST :: "tailq \<Rightarrow> u64" where
  "TAILQ_FIRST q = tqh_first q"

definition TAILQ_NEXT :: "u64 \<Rightarrow> tailq \<Rightarrow> u64" where
  "TAILQ_NEXT x q = tqe_next q x"

text \<open>
  \<^verbatim>\<open>TAILQ_LAST\<close> and \<^verbatim>\<open>TAILQ_PREV\<close> cast the address of a link to a head: the word after a link is
  \<^verbatim>\<open>tqh_last\<close> in a head and \<^verbatim>\<open>tqe_prev\<close> in an element.
\<close>

fun second_word :: "tailq \<Rightarrow> link \<Rightarrow> link" where
  "second_word q Tqh_first = tqh_last q"
| "second_word q (Tqe_next x) = tqe_prev q x"

definition TAILQ_LAST :: "tailq \<Rightarrow> u64" where
  "TAILQ_LAST q = link_get q (second_word q (tqh_last q))"

definition TAILQ_PREV :: "u64 \<Rightarrow> tailq \<Rightarrow> u64" where
  "TAILQ_PREV x q = link_get q (second_word q (tqe_prev q x))"

definition TAILQ_INSERT_HEAD :: "u64 \<Rightarrow> tailq \<Rightarrow> tailq" where
  "TAILQ_INSERT_HEAD x q =
     (let q = link_set (Tqe_next x) (tqh_first q) q;
          q = (if tqe_next q x \<noteq> 0 then set_prev (tqh_first q) (Tqe_next x) q
               else q\<lparr>tqh_last := Tqe_next x\<rparr>);
          q = q\<lparr>tqh_first := x\<rparr>
      in set_prev x Tqh_first q)"

definition TAILQ_INSERT_TAIL :: "u64 \<Rightarrow> tailq \<Rightarrow> tailq" where
  "TAILQ_INSERT_TAIL x q =
     (let q = link_set (Tqe_next x) 0 q;
          q = set_prev x (tqh_last q) q;
          q = link_set (tqh_last q) x q
      in q\<lparr>tqh_last := Tqe_next x\<rparr>)"

definition TAILQ_INSERT_AFTER :: "u64 \<Rightarrow> u64 \<Rightarrow> tailq \<Rightarrow> tailq" where
  "TAILQ_INSERT_AFTER y x q =
     (let q = link_set (Tqe_next x) (tqe_next q y) q;
          q = (if tqe_next q x \<noteq> 0 then set_prev (tqe_next q x) (Tqe_next x) q
               else q\<lparr>tqh_last := Tqe_next x\<rparr>);
          q = link_set (Tqe_next y) x q
      in set_prev x (Tqe_next y) q)"

definition TAILQ_INSERT_BEFORE :: "u64 \<Rightarrow> u64 \<Rightarrow> tailq \<Rightarrow> tailq" where
  "TAILQ_INSERT_BEFORE y x q =
     (let q = set_prev x (tqe_prev q y) q;
          q = link_set (Tqe_next x) y q;
          q = link_set (tqe_prev q y) x q
      in set_prev y (Tqe_next x) q)"

definition TAILQ_REMOVE :: "u64 \<Rightarrow> tailq \<Rightarrow> tailq" where
  "TAILQ_REMOVE x q =
     (let q = (if tqe_next q x \<noteq> 0 then set_prev (tqe_next q x) (tqe_prev q x) q
               else q\<lparr>tqh_last := tqe_prev q x\<rparr>)
      in link_set (tqe_prev q x) (tqe_next q x) q)"

definition TAILQ_REMOVE_HEAD :: "tailq \<Rightarrow> tailq" where
  "TAILQ_REMOVE_HEAD q = TAILQ_REMOVE (tqh_first q) q"

text \<open>
  \<^verbatim>\<open>TAILQ_FOREACH\<close>: the elements the loop variable takes. The loop follows the links, so on
  arbitrary cells it need not end.
\<close>

partial_function (option) foreach_from :: "u64 \<Rightarrow> tailq \<Rightarrow> u64 list option" where
  "foreach_from x q =
     (if x = 0 then Some []
      else Option.bind (foreach_from (TAILQ_NEXT x q) q) (\<lambda>xs. Some (x # xs)))"

definition TAILQ_FOREACH :: "tailq \<Rightarrow> u64 list option" where
  "TAILQ_FOREACH q = foreach_from (TAILQ_FIRST q) q"

section \<open>The list that the cells hold\<close>

fun tq_seg :: "tailq \<Rightarrow> link \<Rightarrow> u64 list \<Rightarrow> link \<Rightarrow> bool" where
  "tq_seg q l [] e \<longleftrightarrow> l = e"
| "tq_seg q l (x # xs) e \<longleftrightarrow> x \<noteq> 0 \<and> link_get q l = x \<and> tqe_prev q x = l \<and> tq_seg q (Tqe_next x) xs e"

definition tq_rep :: "tailq \<Rightarrow> u64 list \<Rightarrow> bool" where
  "tq_rep q xs \<longleftrightarrow> distinct xs \<and> tq_seg q Tqh_first xs (tqh_last q) \<and> link_get q (tqh_last q) = 0"

definition last_link :: "link \<Rightarrow> u64 list \<Rightarrow> link" where
  "last_link l xs = (if xs = [] then l else Tqe_next (last xs))"

lemma last_link_simps [simp]:
  "last_link l [] = l" "last_link l (x # xs) = last_link (Tqe_next x) xs"
  "last_link l (xs @ [x]) = Tqe_next x"
  by (auto simp: last_link_def)

lemma last_link_cases: "last_link l xs = l \<or> (\<exists>x \<in> set xs. last_link l xs = Tqe_next x)"
  by (auto simp: last_link_def)

lemma tq_seg_end: "tq_seg q l xs e \<Longrightarrow> e = last_link l xs"
  by (induction xs arbitrary: l) auto

lemma tq_seg_append:
  "tq_seg q l (xs @ ys) e \<longleftrightarrow> tq_seg q l xs (last_link l xs) \<and> tq_seg q (last_link l xs) ys e"
  by (induction xs arbitrary: l) auto

lemma tq_seg_nonzero: "tq_seg q l xs e \<Longrightarrow> 0 \<notin> set xs"
  by (induction xs arbitrary: l) auto

text \<open>A segment depends on its own cells only.\<close>

lemma tq_seg_cong:
  assumes "\<And>x. x \<in> set xs \<Longrightarrow> tqe_prev q' x = tqe_prev q x"
    and "xs \<noteq> [] \<Longrightarrow> link_get q' l = link_get q l"
    and "\<And>x. x \<in> set (butlast xs) \<Longrightarrow> tqe_next q' x = tqe_next q x"
  shows "tq_seg q' l xs e = tq_seg q l xs e"
  using assms
proof (induction xs arbitrary: l)
  case (Cons a xs)
  have "tq_seg q' (Tqe_next a) xs e = tq_seg q (Tqe_next a) xs e"
  proof (rule Cons.IH)
    show "tqe_next q' x = tqe_next q x" if "x \<in> set (butlast xs)" for x
      using that Cons.prems(3) [of x] by (cases xs) auto
  qed (use Cons.prems in auto)
  with Cons.prems show ?case by simp
qed simp

lemma tq_repD:
  assumes "tq_rep q xs"
  shows "distinct xs" "0 \<notin> set xs" "tqh_last q = last_link Tqh_first xs" "link_get q (tqh_last q) = 0"
    "tq_seg q Tqh_first xs (last_link Tqh_first xs)"
  using assms tq_seg_end [of q Tqh_first xs "tqh_last q"] by (auto simp: tq_rep_def dest: tq_seg_nonzero)

lemma tq_repI:
  assumes "distinct xs" "tqh_last q = last_link Tqh_first xs" "link_get q (last_link Tqh_first xs) = 0"
    "tq_seg q Tqh_first xs (last_link Tqh_first xs)"
  shows "tq_rep q xs"
  using assms by (simp add: tq_rep_def)

text \<open>The cells around an element of the list.\<close>

definition first_of :: "u64 list \<Rightarrow> u64" where
  "first_of xs = (case xs of [] \<Rightarrow> 0 | x # _ \<Rightarrow> x)"

lemma first_of_simps [simp]: "first_of [] = 0" "first_of (x # xs) = x"
  by (simp_all add: first_of_def)

lemma tq_around:
  assumes "tq_rep q (xs @ x # ys)"
  shows "tqe_prev q x = last_link Tqh_first xs" "tqe_next q x = first_of ys"
    "link_get q (last_link Tqh_first xs) = x" "x \<noteq> 0" "x \<notin> set xs" "x \<notin> set ys"
    "ys \<noteq> [] \<Longrightarrow> tqe_prev q (first_of ys) = Tqe_next x \<and> first_of ys \<noteq> 0"
    "ys = [] \<Longrightarrow> tqh_last q = Tqe_next x"
proof -
  note r = tq_repD [OF assms]
  from r show "tqe_prev q x = last_link Tqh_first xs" "link_get q (last_link Tqh_first xs) = x"
    "x \<noteq> 0" "x \<notin> set xs" "x \<notin> set ys"
    by (auto simp: tq_seg_append)
  from r show "tqe_next q x = first_of ys"
    by (cases ys) (auto simp: tq_seg_append last_link_def)
  from r show "ys \<noteq> [] \<Longrightarrow> tqe_prev q (first_of ys) = Tqe_next x \<and> first_of ys \<noteq> 0"
    by (cases ys) (auto simp: tq_seg_append)
  from r show "ys = [] \<Longrightarrow> tqh_last q = Tqe_next x" by simp
qed

section \<open>Each macro is a list operation\<close>

lemma distinct_butlast_last: "distinct xs \<Longrightarrow> xs \<noteq> [] \<Longrightarrow> x \<in> set (butlast xs) \<Longrightarrow> x \<noteq> last xs"
  by (metis append_butlast_last_id distinct_append distinct.simps(2) disjoint_iff list.set_intros(1))

text \<open>Writing the last link of a list and the cells of an element outside leaves the list in place.\<close>

lemma tq_seg_last_link:
  assumes "tq_seg q l xs (last_link l xs)" and "distinct xs" and "x \<notin> set xs"
    and "\<And>y. y \<noteq> x \<Longrightarrow> y \<in> set xs \<Longrightarrow> tqe_prev q' y = tqe_prev q y"
    and "\<And>k. k \<noteq> last_link l xs \<Longrightarrow> k \<noteq> Tqe_next x \<Longrightarrow> link_get q' k = link_get q k"
    and "l \<noteq> Tqe_next x" and "\<And>y. l = Tqe_next y \<Longrightarrow> y \<notin> set xs"
  shows "tq_seg q' l xs (last_link l xs)"
proof -
  have "tq_seg q' l xs (last_link l xs) = tq_seg q l xs (last_link l xs)"
  proof (rule tq_seg_cong)
    show "tqe_prev q' y = tqe_prev q y" if "y \<in> set xs" for y
      using assms(3) assms(4) [of y] that by metis
    show "link_get q' l = link_get q l" if ne: "xs \<noteq> []"
    proof -
      have "l \<noteq> last_link l xs"
        using ne assms(7) by (auto simp: last_link_def)
      then show ?thesis using assms(5,6) by blast
    qed
    show "tqe_next q' y = tqe_next q y" if y: "y \<in> set (butlast xs)" for y
    proof -
      have "xs \<noteq> []" "y \<in> set xs" using y by (auto dest: in_set_butlastD)
      then have "Tqe_next y \<noteq> last_link l xs" "y \<noteq> x"
        using distinct_butlast_last [OF assms(2) _ y] assms(3) by (auto simp: last_link_def)
      then show ?thesis using assms(5) [of "Tqe_next y"] by simp
    qed
  qed
  with assms(1) show ?thesis by simp
qed

lemma link_get_set [simp]: "link_get (link_set k v q) l = (if l = k then v else link_get q l)"
  by (cases k; cases l) auto

lemma link_set_fields [simp]:
  "tqe_prev (link_set k v q) = tqe_prev q" "tqh_last (link_set k v q) = tqh_last q"
  "tqe_next (link_set k v q) x = (if k = Tqe_next x then v else tqe_next q x)"
  "tqh_first (link_set k v q) = (if k = Tqh_first then v else tqh_first q)"
  by (cases k; auto)+

declare link_set.simps [simp del]

lemma set_prev_fields [simp]:
  "tqe_prev (set_prev x l q) = (tqe_prev q)(x := l)" "tqh_last (set_prev x l q) = tqh_last q"
  "tqh_first (set_prev x l q) = tqh_first q" "tqe_next (set_prev x l q) = tqe_next q"
  "link_get (set_prev x l q) k = link_get q k"
  by (cases k; simp add: set_prev_def)+

lemma link_get_last [simp]: "link_get (q\<lparr>tqh_last := l\<rparr>) k = link_get q k"
  by (cases k) auto

lemma tq_init: "tq_rep (TAILQ_INIT q) []"
  by (simp add: TAILQ_INIT_def tq_rep_def)

lemma tq_first: "tq_rep q xs \<Longrightarrow> TAILQ_FIRST q = first_of xs"
  by (cases xs) (auto simp: tq_rep_def TAILQ_FIRST_def)

lemma tq_empty: "tq_rep q xs \<Longrightarrow> TAILQ_EMPTY q \<longleftrightarrow> xs = []"
  by (cases xs) (auto simp: tq_rep_def TAILQ_EMPTY_def)

lemma tq_next: "tq_rep q (xs @ x # ys) \<Longrightarrow> TAILQ_NEXT x q = first_of ys"
  by (simp add: TAILQ_NEXT_def tq_around)

lemma tq_link_before:
  assumes "tq_rep q (xs @ ys)"
  shows "link_get q (second_word q (last_link Tqh_first xs)) = (if xs = [] then link_get q (tqh_last q) else last xs)"
proof (cases xs rule: rev_cases)
  case (snoc zs z)
  with assms have "tq_rep q (zs @ z # ys)" by simp
  from tq_around(1,3) [OF this] snoc show ?thesis by simp
qed simp

lemma tq_last: "tq_rep q xs \<Longrightarrow> TAILQ_LAST q = (if xs = [] then 0 else last xs)"
  using tq_link_before [of q xs "[]"] tq_repD(3,4) [of q xs] by (auto simp: TAILQ_LAST_def)

lemma tq_prev: "tq_rep q (xs @ x # ys) \<Longrightarrow> TAILQ_PREV x q = (if xs = [] then 0 else last xs)"
  using tq_link_before [of q xs "x # ys"] by (auto simp: TAILQ_PREV_def tq_around(1) dest: tq_repD)

text \<open>What an insertion between \<open>xs\<close> and \<open>ys\<close> does to the cells, and what a removal does.\<close>

definition spliced :: "tailq \<Rightarrow> u64 list \<Rightarrow> u64 \<Rightarrow> u64 list \<Rightarrow> tailq \<Rightarrow> bool" where
  "spliced q xs x ys q' \<longleftrightarrow>
     (\<forall>y. tqe_prev q' y = (if y = x then last_link Tqh_first xs
        else if ys \<noteq> [] \<and> y = first_of ys then Tqe_next x else tqe_prev q y)) \<and>
     (\<forall>k. link_get q' k = (if k = last_link Tqh_first xs then x
        else if k = Tqe_next x then first_of ys else link_get q k)) \<and>
     tqh_last q' = (if ys = [] then Tqe_next x else tqh_last q)"

definition unspliced :: "tailq \<Rightarrow> u64 list \<Rightarrow> u64 list \<Rightarrow> tailq \<Rightarrow> bool" where
  "unspliced q xs ys q' \<longleftrightarrow>
     (\<forall>y. tqe_prev q' y = (if ys \<noteq> [] \<and> y = first_of ys then last_link Tqh_first xs else tqe_prev q y)) \<and>
     (\<forall>k. link_get q' k = (if k = last_link Tqh_first xs then first_of ys else link_get q k)) \<and>
     tqh_last q' = (if ys = [] then last_link Tqh_first xs else tqh_last q)"

text \<open>The tail of a list after its first element was relinked.\<close>

lemma tq_seg_relink:
  assumes "tq_seg q l ys (last_link l ys)" and "distinct ys" and "ys \<noteq> []"
    and "link_get q' l' = first_of ys" and "tqe_prev q' (first_of ys) = l'"
    and "\<And>y. y \<in> set ys \<Longrightarrow> y \<noteq> first_of ys \<Longrightarrow> tqe_prev q' y = tqe_prev q y"
    and "\<And>y. y \<in> set ys \<Longrightarrow> tqe_next q' y = tqe_next q y"
  shows "tq_seg q' l' ys (last_link l ys)"
proof -
  from assms(3) obtain y zs where ys: "ys = y # zs" by (cases ys) auto
  have "tq_seg q' (Tqe_next y) zs (last_link l ys) = tq_seg q (Tqe_next y) zs (last_link l ys)"
    by (rule tq_seg_cong) (use assms(2,6,7) ys in \<open>auto dest: in_set_butlastD\<close>)
  with assms ys show ?thesis by simp
qed

lemma last_link_append [simp]: "last_link l (xs @ ys) = last_link (last_link l xs) ys"
  by (induction xs arbitrary: l) auto

lemma last_link_notin: "x \<notin> set xs \<Longrightarrow> l \<noteq> Tqe_next x \<Longrightarrow> last_link l xs \<noteq> Tqe_next x"
  by (auto simp: last_link_def)

lemma last_link_indep: "ys \<noteq> [] \<Longrightarrow> last_link l ys = last_link l' ys"
  by (simp add: last_link_def)

lemma first_of_in: "ys \<noteq> [] \<Longrightarrow> first_of ys \<in> set ys"
  by (cases ys) auto

lemma tq_insert:
  assumes q: "tq_rep q (xs @ ys)" and x: "x \<notin> set (xs @ ys)" "x \<noteq> 0" and q': "spliced q xs x ys q'"
  shows "tq_rep q' (xs @ x # ys)"
proof -
  note r = tq_repD [OF q]
  let ?l = "last_link Tqh_first xs"
  have P: "tqe_prev q' y = (if y = x then ?l else if ys \<noteq> [] \<and> y = first_of ys then Tqe_next x
      else tqe_prev q y)"
    and L: "link_get q' k = (if k = ?l then x else if k = Tqe_next x then first_of ys else link_get q k)"
    for y k
    using q' by (simp_all add: spliced_def)
  have N: "tqe_next q' y = (if ?l = Tqe_next y then x else if y = x then first_of ys else tqe_next q y)" for y
    using L [of "Tqe_next y"] by auto
  have ne: "?l \<noteq> Tqe_next x" by (rule last_link_notin) (use x in auto)
  have dis: "y \<notin> set xs" if "y \<in> set ys" for y using r(1) that by auto
  have "tq_seg q' Tqh_first xs ?l"
    by (rule tq_seg_last_link [of q _ _ x])
      (use r x P L dis first_of_in [of ys] in \<open>auto simp: tq_seg_append\<close>)
  moreover have "tq_seg q' (Tqe_next x) ys (last_link ?l ys)" if ne': "ys \<noteq> []"
  proof (rule tq_seg_relink [of q])
    show "tqe_next q' y = tqe_next q y" if "y \<in> set ys" for y
      using N [of y] x(1) that dis [OF that] by (auto simp: last_link_def split: if_splits)
  qed (use r ne ne' P N x first_of_in [OF ne'] in \<open>auto simp: tq_seg_append\<close>)
  moreover have "link_get q' (last_link (Tqe_next x) ys) = 0"
  proof (cases "ys = []")
    case False
    then have "last_link (Tqe_next x) ys = tqh_last q" "tqh_last q \<noteq> ?l" "tqh_last q \<noteq> Tqe_next x"
      using r(3) x(1) dis [of "last ys"] by (auto simp: last_link_def split: if_splits)
    then show ?thesis using r(4) by (simp add: L)
  qed (use N [of x] ne in simp)
  ultimately show ?thesis
    using r x q' ne P [of x] L [of ?l] by (cases "ys = []")
      (auto simp: tq_rep_def tq_seg_append spliced_def last_link_indep [of ys ?l "Tqe_next x"])
qed

lemma tq_remove_cells:
  assumes q: "tq_rep q (xs @ x # ys)" and q': "unspliced q xs ys q'"
  shows "tq_rep q' (xs @ ys)"
proof -
  note r = tq_repD [OF q] and a = tq_around [OF q]
  let ?l = "last_link Tqh_first xs"
  have P: "tqe_prev q' y = (if ys \<noteq> [] \<and> y = first_of ys then ?l else tqe_prev q y)"
    and L: "link_get q' k = (if k = ?l then first_of ys else link_get q k)" for y k
    using q' by (simp_all add: unspliced_def)
  have N: "tqe_next q' y = (if ?l = Tqe_next y then first_of ys else tqe_next q y)" for y
    using L [of "Tqe_next y"] by auto
  have dis: "y \<notin> set xs" if "y \<in> set ys" for y using r(1) that by auto
  have "tq_seg q' Tqh_first xs ?l"
    by (rule tq_seg_last_link [of q _ _ x])
      (use r a(5) P L dis first_of_in [of ys] in \<open>auto simp: tq_seg_append\<close>)
  moreover have "tq_seg q' ?l ys (last_link (Tqe_next x) ys)" if ne': "ys \<noteq> []"
  proof (rule tq_seg_relink [of q])
    show "tqe_next q' y = tqe_next q y" if "y \<in> set ys" for y
      using N [of y] dis [OF that] by (auto simp: last_link_def split: if_splits)
  qed (use r ne' P L first_of_in [OF ne'] in \<open>auto simp: tq_seg_append\<close>)
  moreover have "link_get q' (last_link ?l ys) = 0"
  proof (cases "ys = []")
    case False
    then have "last_link ?l ys = tqh_last q" "tqh_last q \<noteq> ?l"
      using r(3) dis [of "last ys"] by (auto simp: last_link_def split: if_splits)
    then show ?thesis using r(4) by (simp add: L)
  qed (simp add: L)
  ultimately show ?thesis
    using r q' by (cases "ys = []")
      (auto simp: tq_rep_def tq_seg_append unspliced_def last_link_indep [of ys ?l "Tqe_next x"])
qed

lemma tq_insert_tail:
  assumes "tq_rep q xs" and "x \<notin> set xs" and "x \<noteq> 0"
  shows "tq_rep (TAILQ_INSERT_TAIL x q) (xs @ [x])"
proof (rule tq_insert)
  show "spliced q xs x [] (TAILQ_INSERT_TAIL x q)"
    using assms(2) tq_repD(3) [OF assms(1)]
    by (auto simp: spliced_def TAILQ_INSERT_TAIL_def Let_def)
qed (use assms in auto)

lemma tq_insert_head:
  assumes "tq_rep q ys" and "x \<notin> set ys" and "x \<noteq> 0"
  shows "tq_rep (TAILQ_INSERT_HEAD x q) (x # ys)"
proof -
  have f: "tqh_first q = first_of ys" "ys \<noteq> [] \<Longrightarrow> first_of ys \<noteq> 0"
    using tq_first [OF assms(1)] tq_repD(2) [OF assms(1)] by (auto simp: TAILQ_FIRST_def first_of_in)
      (metis first_of_in)
  have h: "link_get (p\<lparr>tqh_first := v\<rparr>) k = (if k = Tqh_first then v else link_get p k)" for p v k
    by (cases k) auto
  have "spliced q [] x ys (TAILQ_INSERT_HEAD x q)"
    using assms(2,3) f
    by (cases "ys = []") (auto simp: spliced_def TAILQ_INSERT_HEAD_def Let_def h)
  with tq_insert [of q "[]" ys x] assms show ?thesis by simp
qed

lemma tq_insert_after:
  assumes "tq_rep q (xs @ y # ys)" and "x \<notin> set (xs @ y # ys)" and "x \<noteq> 0"
  shows "tq_rep (TAILQ_INSERT_AFTER y x q) (xs @ y # x # ys)"
proof -
  note a = tq_around [OF assms(1)]
  have "spliced q (xs @ [y]) x ys (TAILQ_INSERT_AFTER y x q)"
    using assms(2,3) a
    by (cases "ys = []") (auto simp: spliced_def TAILQ_INSERT_AFTER_def Let_def)
  with tq_insert [of q "xs @ [y]" ys x] assms show ?thesis by simp
qed

lemma tq_insert_before:
  assumes "tq_rep q (xs @ y # ys)" and "x \<notin> set (xs @ y # ys)" and "x \<noteq> 0"
  shows "tq_rep (TAILQ_INSERT_BEFORE y x q) (xs @ x # y # ys)"
proof -
  note a = tq_around [OF assms(1)]
  have "spliced q xs x (y # ys) (TAILQ_INSERT_BEFORE y x q)"
    using assms(2,3) a
    by (auto simp: spliced_def TAILQ_INSERT_BEFORE_def Let_def)
  with tq_insert [of q xs "y # ys" x] assms show ?thesis by simp
qed

lemma tq_remove:
  assumes "tq_rep q xs" and "x \<in> set xs"
  shows "tq_rep (TAILQ_REMOVE x q) (remove1 x xs)"
proof -
  from assms(2) obtain ys zs where xs: "xs = ys @ x # zs" "x \<notin> set ys"
    by (auto dest: split_list_first)
  note a = tq_around [OF assms(1) [unfolded xs(1)]]
  have "unspliced q ys zs (TAILQ_REMOVE x q)"
    using a by (cases "zs = []") (auto simp: unspliced_def TAILQ_REMOVE_def Let_def)
  with tq_remove_cells [of q ys x zs] assms xs show ?thesis by (simp add: remove1_append)
qed

lemma tq_foreach_from:
  assumes "tq_seg q l xs (last_link l xs)" and "link_get q (last_link l xs) = 0"
  shows "foreach_from (link_get q l) q = Some xs"
  using assms
proof (induction xs arbitrary: l)
  case (Cons x xs)
  have "foreach_from (link_get q (Tqe_next x)) q = Some xs"
    by (rule Cons.IH) (use Cons.prems in auto)
  with Cons.prems show ?case by (subst foreach_from.simps) (simp add: TAILQ_NEXT_def)
qed (simp add: foreach_from.simps)

lemma tq_foreach: "tq_rep q xs \<Longrightarrow> TAILQ_FOREACH q = Some xs"
  using tq_foreach_from [of q Tqh_first xs] tq_repD(3,4,5) [of q xs]
  by (simp add: TAILQ_FOREACH_def TAILQ_FIRST_def)

section \<open>Programs of queue operations\<close>

text \<open>
  A sequence of the macros as the kernel uses them, run on the cells, and the same sequence on
  lists. On lists an operation is defined only where the macro may be used: the element to insert is
  no null pointer and not in the queue, the one to remove or to insert next to is in it.
\<close>

datatype tq_op =
    Insert_head u64 | Insert_tail u64 | Insert_after u64 u64 | Insert_before u64 u64 | Remove u64

fun run_op :: "tq_op \<Rightarrow> tailq \<Rightarrow> tailq" where
  "run_op (Insert_head x) q = TAILQ_INSERT_HEAD x q"
| "run_op (Insert_tail x) q = TAILQ_INSERT_TAIL x q"
| "run_op (Insert_after y x) q = TAILQ_INSERT_AFTER y x q"
| "run_op (Insert_before y x) q = TAILQ_INSERT_BEFORE y x q"
| "run_op (Remove x) q = TAILQ_REMOVE x q"

fun put_next_to :: "bool \<Rightarrow> u64 \<Rightarrow> u64 \<Rightarrow> u64 list \<Rightarrow> u64 list" where
  "put_next_to after y x [] = []"
| "put_next_to after y x (z # zs) =
     (if z = y then (if after then y # x # zs else x # y # zs) else z # put_next_to after y x zs)"

fun list_op :: "tq_op \<Rightarrow> u64 list \<Rightarrow> u64 list option" where
  "list_op (Insert_head x) xs = (if x = 0 \<or> x \<in> set xs then None else Some (x # xs))"
| "list_op (Insert_tail x) xs = (if x = 0 \<or> x \<in> set xs then None else Some (xs @ [x]))"
| "list_op (Insert_after y x) xs =
     (if x = 0 \<or> x \<in> set xs \<or> y \<notin> set xs then None else Some (put_next_to True y x xs))"
| "list_op (Insert_before y x) xs =
     (if x = 0 \<or> x \<in> set xs \<or> y \<notin> set xs then None else Some (put_next_to False y x xs))"
| "list_op (Remove x) xs = (if x \<in> set xs then Some (remove1 x xs) else None)"

fun list_ops :: "tq_op list \<Rightarrow> u64 list \<Rightarrow> u64 list option" where
  "list_ops [] xs = Some xs"
| "list_ops (p # ps) xs = Option.bind (list_op p xs) (list_ops ps)"

lemma put_next_to_append:
  "y \<notin> set xs \<Longrightarrow> put_next_to after y x (xs @ y # ys) = xs @ (if after then y # x # ys else x # y # ys)"
  by (induction xs) auto

lemma run_op_rep:
  assumes "tq_rep q xs" and "list_op p xs = Some ys"
  shows "tq_rep (run_op p q) ys"
proof (cases p)
  case (Insert_after y x)
  with assms(2) have "y \<in> set xs" by (auto split: if_splits)
  then obtain us vs where "xs = us @ y # vs" "y \<notin> set us" by (auto dest: split_list_first)
  with assms Insert_after show ?thesis
    by (auto simp: put_next_to_append tq_insert_after split: if_splits)
next
  case (Insert_before y x)
  with assms(2) have "y \<in> set xs" by (auto split: if_splits)
  then obtain us vs where "xs = us @ y # vs" "y \<notin> set us" by (auto dest: split_list_first)
  with assms Insert_before show ?thesis
    by (auto simp: put_next_to_append tq_insert_before split: if_splits)
qed (use assms in \<open>auto simp: tq_insert_head tq_insert_tail tq_remove split: if_splits\<close>)

lemma run_ops_rep:
  assumes "tq_rep q xs" and "list_ops ps xs = Some ys"
  shows "tq_rep (fold run_op ps q) ys"
  using assms
  by (induction ps arbitrary: q xs) (auto simp: bind_eq_Some_conv dest: run_op_rep)

text \<open>
  C8: the tail queues are lists. Start from \<open>TAILQ_INIT\<close> on arbitrary cells and run any sequence of
  \<open>TAILQ_INSERT_HEAD\<close>, \<open>TAILQ_INSERT_TAIL\<close>, \<open>TAILQ_INSERT_AFTER\<close>, \<open>TAILQ_INSERT_BEFORE\<close> and
  \<open>TAILQ_REMOVE\<close> that the list operations allow. Then \<open>TAILQ_FOREACH\<close> ends and visits exactly the list
  that the list operations give, \<open>TAILQ_FIRST\<close>, \<open>TAILQ_LAST\<close> and \<open>TAILQ_EMPTY\<close> answer for that list,
  and \<open>TAILQ_NEXT\<close> and \<open>TAILQ_PREV\<close> of each element give its neighbours, the null pointer at the ends.
\<close>
theorem tailq_is_list:
  assumes "list_ops ps [] = Some xs"
  shows "TAILQ_FOREACH (fold run_op ps (TAILQ_INIT q)) = Some xs \<and>
    TAILQ_FIRST (fold run_op ps (TAILQ_INIT q)) = (if xs = [] then 0 else hd xs) \<and>
    TAILQ_LAST (fold run_op ps (TAILQ_INIT q)) = (if xs = [] then 0 else last xs) \<and>
    (TAILQ_EMPTY (fold run_op ps (TAILQ_INIT q)) \<longleftrightarrow> xs = []) \<and>
    (\<forall>i < length xs.
      TAILQ_NEXT (xs ! i) (fold run_op ps (TAILQ_INIT q)) = (if Suc i < length xs then xs ! Suc i else 0) \<and>
      TAILQ_PREV (xs ! i) (fold run_op ps (TAILQ_INIT q)) = (if i = 0 then 0 else xs ! (i - 1)))"
proof -
  let ?q = "fold run_op ps (TAILQ_INIT q)"
  have r: "tq_rep ?q xs" by (rule run_ops_rep [OF tq_init assms])
  have "TAILQ_NEXT (xs ! i) ?q = (if Suc i < length xs then xs ! Suc i else 0)"
    "TAILQ_PREV (xs ! i) ?q = (if i = 0 then 0 else xs ! (i - 1))" if i: "i < length xs" for i
  proof -
    have rep: "tq_rep ?q (take i xs @ xs ! i # drop (Suc i) xs)"
      using r i by (simp add: id_take_nth_drop [symmetric])
    show "TAILQ_NEXT (xs ! i) ?q = (if Suc i < length xs then xs ! Suc i else 0)"
      using tq_next [OF rep] by (cases "Suc i < length xs") (simp_all add: Cons_nth_drop_Suc [symmetric])
    show "TAILQ_PREV (xs ! i) ?q = (if i = 0 then 0 else xs ! (i - 1))"
      using tq_prev [OF rep] i by (auto simp: last_conv_nth min_def)
  qed
  with tq_foreach [OF r] tq_first [OF r] tq_last [OF r] tq_empty [OF r] show ?thesis
    by (auto simp: first_of_def hd_conv_nth split: list.split)
qed

definition blank_cells :: tailq where
  "blank_cells = \<lparr>tqh_first = 7, tqh_last = Tqe_next 9, tqe_next = (\<lambda>_. 3), tqe_prev = (\<lambda>_. Tqe_next 5)\<rparr>"

theorem tailq_is_list_witness:
  "list_ops [Insert_tail 1, Insert_tail 2, Insert_head 3, Remove 1, Insert_after 3 4] [] = Some [3, 4, 2] \<and>
   TAILQ_FOREACH (fold run_op [Insert_tail 1, Insert_tail 2, Insert_head 3, Remove 1, Insert_after 3 4]
     (TAILQ_INIT blank_cells)) = Some [3, 4, 2]"
  using tailq_is_list [of "[Insert_tail 1, Insert_tail 2, Insert_head 3, Remove 1, Insert_after 3 4]"
    "[3, 4, 2]" blank_cells] by simp

end
