(* ===== verification/Sched.thy ===== *)
theory Sched
  imports VmMap Tailq
begin

text \<open>
  Threads, tasks and the run queues: the data of \<^verbatim>\<open>kernel/core/task.h\<close>, the per-CPU current thread of
  \<^verbatim>\<open>kernel/common/task.c\<close> (\<^verbatim>\<open>cpu_get_id\<close> is 0), \<^verbatim>\<open>kernel/common/scheduler/runqueue.c\<close>, the state changes
  of \<^verbatim>\<open>state.c\<close> and the wake-up operations of \<^verbatim>\<open>control.c\<close>. Threads and tasks are stores indexed by
  address; the intrusive \<^verbatim>\<open>TAILQ\<close> lists are lists of addresses. Log and trace output is left out.
\<close>

section \<open>Data\<close>

type_synonym i16 = "16 word"

datatype task_state =
    TASK_STATE_NEW | TASK_STATE_READY | TASK_STATE_RUNNING | TASK_STATE_BLOCKED | TASK_STATE_SLEEPING
  | TASK_STATE_ZOMBIE | TASK_STATE_DEAD

datatype thread_state =
    THREAD_STATE_NEW | THREAD_STATE_READY | THREAD_STATE_RUNNING | THREAD_STATE_BLOCKED
  | THREAD_STATE_SLEEPING | THREAD_STATE_DEAD

datatype sched_policy = SCHED_POLICY_FIFO | SCHED_POLICY_RR | SCHED_POLICY_PRIORITY | SCHED_POLICY_CFS

abbreviation (input) SCHED_CLASS_TIMESHARE :: u8 where "SCHED_CLASS_TIMESHARE \<equiv> 0"
abbreviation (input) SCHED_CLASS_REALTIME :: u8 where "SCHED_CLASS_REALTIME \<equiv> 1"
abbreviation (input) SCHED_BUCKET_BACKGROUND :: nat where "SCHED_BUCKET_BACKGROUND \<equiv> 0"
abbreviation (input) SCHED_BUCKET_UTILITY :: nat where "SCHED_BUCKET_UTILITY \<equiv> 1"
abbreviation (input) SCHED_BUCKET_DEFAULT :: nat where "SCHED_BUCKET_DEFAULT \<equiv> 2"
abbreviation (input) SCHED_BUCKET_INTERACTIVE :: nat where "SCHED_BUCKET_INTERACTIVE \<equiv> 3"
abbreviation (input) READY_QUEUE_LEVELS :: nat where "READY_QUEUE_LEVELS \<equiv> 4"
abbreviation (input) BOOST_THRESHOLD_TICKS :: u64 where "BOOST_THRESHOLD_TICKS \<equiv> 5"
abbreviation (input) BOOST_MAX :: int where "BOOST_MAX \<equiv> 32"
abbreviation (input) PENALTY_MAX :: int where "PENALTY_MAX \<equiv> 32"
abbreviation (input) PENALTY_STEP_TICKS :: u32 where "PENALTY_STEP_TICKS \<equiv> 4"
abbreviation (input) REALTIME_QUANTUM_TICKS :: u32 where "REALTIME_QUANTUM_TICKS \<equiv> 1"
abbreviation (input) STARVATION_THRESHOLD_TICKS :: u64 where "STARVATION_THRESHOLD_TICKS \<equiv> 500"
abbreviation (input) SCHEDULER_DEFAULT_PRIORITY :: int where "SCHEDULER_DEFAULT_PRIORITY \<equiv> 128"
abbreviation (input) SCHEDULER_TIME_SLICE_MS :: u64 where "SCHEDULER_TIME_SLICE_MS \<equiv> 10"
abbreviation (input) TASK_MAX_FD :: nat where "TASK_MAX_FD \<equiv> 32"

text \<open>
  The wait queues of the kernel are the scheduler's own and those embedded in a port or in a port
  set; a reference names the one that a \<^verbatim>\<open>waitq_t*\<close> points to.
\<close>

datatype waitq_ref = Sleep_waitq | Port_waitq u64 | Set_waitq u64

record waitq =
  wq_threads :: "u64 list"
  wq_name :: string
  wq_count :: u32

record thread =
  thread_id :: u64
  th_task :: u64
  stack_pointer :: u64
  program_counter :: u64
  th_state :: thread_state
  sched_class :: u8
  priority :: u8
  base_priority :: u8
  dyn_priority :: i16
  inherited_priority :: i16
  has_inherited :: bool
  inherit_stack :: "i16 list"
  inherit_depth :: u8
  has_inherit_overflow :: bool
  sched_bucket :: u8
  sched_bucket_explicit :: bool
  sched_usage :: u32
  last_sleep_tick :: u64
  th_entry :: u64
  th_arg :: u64
  th_stack :: u64
  th_stack_size :: u64
  ready_queued :: bool
  waitq_owner :: "waitq_ref option"
  wait_deadline_tick :: u64
  wait_timeout_armed :: bool
  wait_timed_out :: bool
  joiner :: u64
  reap_queued :: bool
  reap_after_tick :: u64
  th_arch_specific :: u64

record sigaction =
  sa_handler :: u64
  sa_flags :: u64
  sa_restorer :: u64
  sa_mask :: u64

text \<open>\<^verbatim>\<open>task_t\<close> without the fields of the address space, which are in \<open>task_vms\<close>.\<close>

record task =
  task_id :: u64
  parent_task_id :: u64
  tk_state :: task_state
  tk_uid :: u32
  tk_gid :: u32
  tk_euid :: u32
  tk_egid :: u32
  tk_umask :: u16
  fd_table :: "u64 list"
  fd_flags :: "u8 list"
  fd_kind :: "u8 list"
  tk_cwd :: string
  exit_code :: u32
  tk_exited :: bool
  tk_waited :: bool
  sigactions :: "sigaction list"
  sig_pending :: u32
  sig_in_handler :: bool
  tk_abi :: u8
  tls_fs_base :: u64
  sig_saved :: "u64 list"
  main_thread :: u64
  tk_threads :: "u64 list"
  thread_count :: u32
  tk_ref_count :: u32
  tk_arch_specific :: u64
  cpu_ticks :: u64
  last_run_tick :: u64

record sched_state = vmap_state +
  threads :: "u64 \<Rightarrow> thread"
  tasks :: "u64 \<Rightarrow> task"
  cur_task :: u64
  cur_thread :: u64
  waitqs :: "waitq_ref \<Rightarrow> waitq"
  waitq_timeouts :: "u64 list"
  waitq_timeouts_initialized :: bool
  scheduler_initialized :: bool
  scheduler_running :: bool
  current_policy :: sched_policy
  total_switches :: u64
  total_tasks :: u64
  running_tasks :: u64
  ready_tasks :: u64
  blocked_tasks :: u64
  in_scheduler :: bool
  ticks_until_preempt :: u32
  ticks_per_slice :: u32
  resched_pending :: bool
  sched_ticks :: u64
  ready_queues :: "u64 list list"
  bucket_last_run_tick :: "u64 list"
  scheduler_kernel_pml4 :: u64
  tss_rsp0 :: u64

definition upd_thread :: "u64 \<Rightarrow> (thread \<Rightarrow> thread) \<Rightarrow> 'a sched_state_scheme \<Rightarrow> 'a sched_state_scheme" where
  "upd_thread t f s = s\<lparr>threads := (threads s)(t := f (threads s t))\<rparr>"

definition upd_ptask :: "u64 \<Rightarrow> (task \<Rightarrow> task) \<Rightarrow> 'a sched_state_scheme \<Rightarrow> 'a sched_state_scheme" where
  "upd_ptask t f s = s\<lparr>tasks := (tasks s)(t := f (tasks s t))\<rparr>"

definition upd_waitq :: "waitq_ref \<Rightarrow> (waitq \<Rightarrow> waitq) \<Rightarrow> 'a sched_state_scheme \<Rightarrow> 'a sched_state_scheme" where
  "upd_waitq q f s = s\<lparr>waitqs := (waitqs s)(q := f (waitqs s q))\<rparr>"

definition thread_get_current :: "'a sched_state_scheme \<Rightarrow> u64" where
  "thread_get_current s = cur_thread s"

definition thread_set_current :: "u64 \<Rightarrow> 'a sched_state_scheme \<Rightarrow> 'a sched_state_scheme" where
  "thread_set_current t s = s\<lparr>cur_thread := t\<rparr>"

definition task_get_current :: "'a sched_state_scheme \<Rightarrow> u64" where
  "task_get_current s = cur_task s"

definition task_set_current :: "u64 \<Rightarrow> 'a sched_state_scheme \<Rightarrow> 'a sched_state_scheme" where
  "task_set_current t s = s\<lparr>cur_task := t\<rparr>"

section \<open>Thread and task states\<close>

text \<open>
  An invalid transition is only logged: the new state is stored in any case.
\<close>

fun scheduler_thread_transition_valid :: "thread_state \<Rightarrow> thread_state \<Rightarrow> bool" where
  "scheduler_thread_transition_valid from to \<longleftrightarrow>
     from = to \<or>
     (case from of
        THREAD_STATE_NEW \<Rightarrow> to = THREAD_STATE_READY \<or> to = THREAD_STATE_DEAD
      | THREAD_STATE_READY \<Rightarrow>
          to = THREAD_STATE_RUNNING \<or> to = THREAD_STATE_BLOCKED \<or> to = THREAD_STATE_DEAD
      | THREAD_STATE_RUNNING \<Rightarrow>
          to = THREAD_STATE_READY \<or> to = THREAD_STATE_BLOCKED \<or> to = THREAD_STATE_DEAD
      | THREAD_STATE_BLOCKED \<Rightarrow> to = THREAD_STATE_READY \<or> to = THREAD_STATE_DEAD
      | THREAD_STATE_SLEEPING \<Rightarrow> to = THREAD_STATE_READY \<or> to = THREAD_STATE_DEAD
      | THREAD_STATE_DEAD \<Rightarrow> False)"

fun scheduler_task_transition_valid :: "task_state \<Rightarrow> task_state \<Rightarrow> bool" where
  "scheduler_task_transition_valid from to \<longleftrightarrow>
     from = to \<or>
     (case from of
        TASK_STATE_NEW \<Rightarrow> to = TASK_STATE_READY \<or> to = TASK_STATE_DEAD
      | TASK_STATE_READY \<Rightarrow>
          to = TASK_STATE_RUNNING \<or> to = TASK_STATE_BLOCKED \<or> to = TASK_STATE_ZOMBIE \<or> to = TASK_STATE_DEAD
      | TASK_STATE_RUNNING \<Rightarrow>
          to = TASK_STATE_READY \<or> to = TASK_STATE_BLOCKED \<or> to = TASK_STATE_ZOMBIE \<or> to = TASK_STATE_DEAD
      | TASK_STATE_BLOCKED \<Rightarrow> to = TASK_STATE_READY \<or> to = TASK_STATE_ZOMBIE \<or> to = TASK_STATE_DEAD
      | TASK_STATE_SLEEPING \<Rightarrow> to = TASK_STATE_READY \<or> to = TASK_STATE_ZOMBIE \<or> to = TASK_STATE_DEAD
      | TASK_STATE_ZOMBIE \<Rightarrow> to = TASK_STATE_DEAD
      | TASK_STATE_DEAD \<Rightarrow> False)"

definition scheduler_thread_set_state :: "u64 \<Rightarrow> thread_state \<Rightarrow> 'a sched_state_scheme \<Rightarrow> 'a sched_state_scheme" where
  "scheduler_thread_set_state t new_state s =
     (if t = 0 then s else upd_thread t (\<lambda>th. th\<lparr>th_state := new_state\<rparr>) s)"

definition scheduler_task_set_state :: "u64 \<Rightarrow> task_state \<Rightarrow> 'a sched_state_scheme \<Rightarrow> 'a sched_state_scheme" where
  "scheduler_task_set_state t new_state s =
     (if t = 0 then s else upd_ptask t (\<lambda>tk. tk\<lparr>tk_state := new_state\<rparr>) s)"

section \<open>Run queues\<close>

definition scheduler_update_tss :: "u64 \<Rightarrow> 'a sched_state_scheme \<Rightarrow> 'a sched_state_scheme" where
  "scheduler_update_tss t s =
     (if t = 0 \<or> th_stack (threads s t) = 0 \<or> th_stack_size (threads s t) = 0 then s
      else s\<lparr>tss_rsp0 := th_stack (threads s t) + th_stack_size (threads s t) - 16\<rparr>)"

definition clamp_dyn_priority :: "int \<Rightarrow> int \<Rightarrow> int" where
  "clamp_dyn_priority value base =
     (let min = base - PENALTY_MAX;
          max = base + BOOST_MAX;
          value = (if value < min then min else value);
          value = (if value > max then max else value);
          value = (if value < 0 then 0 else value);
          value = (if value > 255 then 255 else value)
      in value)"

definition thread_effective_priority :: "u64 \<Rightarrow> 'a sched_state_scheme \<Rightarrow> int" where
  "thread_effective_priority t s =
     (if t = 0 then SCHEDULER_DEFAULT_PRIORITY
      else if base_priority (threads s t) = 0 \<and> priority (threads s t) \<noteq> 0 then uint (priority (threads s t))
      else
        let dyn = (if sint (dyn_priority (threads s t)) \<ge> 0 then sint (dyn_priority (threads s t)) else 0)
        in if has_inherited (threads s t) \<and> sint (inherited_priority (threads s t)) > dyn
           then sint (inherited_priority (threads s t))
           else dyn)"

definition bucket_mult :: "u32 list" where
  "bucket_mult = [8, 4, 2, 1]"

definition scheduler_reset_timeslice :: "u64 \<Rightarrow> 'a sched_state_scheme \<Rightarrow> 'a sched_state_scheme" where
  "scheduler_reset_timeslice t s =
     (if t = 0 then s\<lparr>ticks_until_preempt := ticks_per_slice s\<rparr>
      else if sched_class (threads s t) = SCHED_CLASS_REALTIME
      then s\<lparr>ticks_until_preempt := REALTIME_QUANTUM_TICKS\<rparr>
      else
        let base = (if ticks_per_slice s = 0 then 1 else ticks_per_slice s);
            bucket = unat (sched_bucket (threads s t));
            bucket = (if bucket \<ge> READY_QUEUE_LEVELS then SCHED_BUCKET_DEFAULT else bucket);
            ticks = base * bucket_mult ! bucket
        in s\<lparr>ticks_until_preempt := (if ticks = 0 then 1 else ticks)\<rparr>)"

definition ready_thread_is_queued :: "u64 \<Rightarrow> 'a sched_state_scheme \<Rightarrow> bool" where
  "ready_thread_is_queued t s \<longleftrightarrow> t \<noteq> 0 \<and> ready_queued (threads s t)"

definition flat_policy :: "'a sched_state_scheme \<Rightarrow> bool" where
  "flat_policy s \<longleftrightarrow> current_policy s = SCHED_POLICY_RR \<or> current_policy s = SCHED_POLICY_FIFO"

definition ready_queue_index_for_thread :: "u64 \<Rightarrow> 'a sched_state_scheme \<Rightarrow> nat" where
  "ready_queue_index_for_thread t s =
     (if t = 0 then SCHED_BUCKET_DEFAULT
      else if flat_policy s then SCHED_BUCKET_DEFAULT
      else if unat (sched_bucket (threads s t)) \<ge> READY_QUEUE_LEVELS then SCHED_BUCKET_DEFAULT
      else unat (sched_bucket (threads s t)))"

definition ready_enqueue :: "u64 \<Rightarrow> 'a sched_state_scheme \<Rightarrow> 'a sched_state_scheme" where
  "ready_enqueue t s =
     (if t = 0 then s
      else if ready_thread_is_queued t s then s
      else
        let q = ready_queue_index_for_thread t s;
            q = (if q \<ge> READY_QUEUE_LEVELS then SCHED_BUCKET_DEFAULT else q);
            s = s\<lparr>ready_queues := (ready_queues s)[q := ready_queues s ! q @ [t]]\<rparr>;
            s = upd_thread t (\<lambda>th. th\<lparr>ready_queued := True\<rparr>) s
        in s\<lparr>ready_tasks := ready_tasks s + 1\<rparr>)"

definition dequeue_from :: "nat \<Rightarrow> 'a sched_state_scheme \<Rightarrow> u64 \<times> 'a sched_state_scheme" where
  "dequeue_from q s =
     (case ready_queues s ! q of
        [] \<Rightarrow> (0, s)
      | t # _ \<Rightarrow>
          let s = s\<lparr>ready_queues := (ready_queues s)[q := remove1 t (ready_queues s ! q)]\<rparr>;
              s = upd_thread t (\<lambda>th. th\<lparr>ready_queued := False\<rparr>) s;
              s = (if ready_tasks s > 0 then s\<lparr>ready_tasks := ready_tasks s - 1\<rparr> else s)
          in (t, s\<lparr>bucket_last_run_tick := (bucket_last_run_tick s)[q := sched_ticks s]\<rparr>))"

definition starving :: "'a sched_state_scheme \<Rightarrow> nat \<Rightarrow> bool" where
  "starving s b \<longleftrightarrow>
     ready_queues s ! b \<noteq> [] \<and> sched_ticks s - bucket_last_run_tick s ! b \<ge> STARVATION_THRESHOLD_TICKS"

fun dequeue_highest :: "nat list \<Rightarrow> 'a sched_state_scheme \<Rightarrow> u64 \<times> 'a sched_state_scheme" where
  "dequeue_highest [] s = (0, s)"
| "dequeue_highest (q # qs) s =
     (let (t, s') = dequeue_from q s in if t \<noteq> 0 then (t, s') else dequeue_highest qs s')"

definition ready_dequeue :: "'a sched_state_scheme \<Rightarrow> u64 \<times> 'a sched_state_scheme" where
  "ready_dequeue s =
     (if flat_policy s then dequeue_from SCHED_BUCKET_DEFAULT s
      else
        case find (starving s) [SCHED_BUCKET_BACKGROUND, SCHED_BUCKET_UTILITY, SCHED_BUCKET_DEFAULT] of
          Some b \<Rightarrow> dequeue_from b s
        | None \<Rightarrow> dequeue_highest [3, 2, 1, 0] s)"

section \<open>Waking a thread\<close>

definition sleep_boost :: "u64 \<Rightarrow> 'a sched_state_scheme \<Rightarrow> 'a sched_state_scheme" where
  "sleep_boost t s =
     (if sched_class (threads s t) = SCHED_CLASS_TIMESHARE then
        let sleep_ticks = sched_ticks s - last_sleep_tick (threads s t)
        in if sleep_ticks \<ge> BOOST_THRESHOLD_TICKS then
             let boost = sint (ucast (sleep_ticks div BOOST_THRESHOLD_TICKS) :: u32);
                 boost = (if boost > BOOST_MAX then BOOST_MAX else boost);
                 base = uint (base_priority (threads s t));
                 dyn = sint (dyn_priority (threads s t)) + boost
             in upd_thread t (\<lambda>th. th\<lparr>dyn_priority := of_int (clamp_dyn_priority dyn base)\<rparr>) s
           else s
      else s)"

definition less_blocked :: "'a sched_state_scheme \<Rightarrow> 'a sched_state_scheme" where
  "less_blocked s = (if blocked_tasks s > 0 then s\<lparr>blocked_tasks := blocked_tasks s - 1\<rparr> else s)"

definition scheduler_unblock :: "u64 \<Rightarrow> 'a sched_state_scheme \<Rightarrow> 'a sched_state_scheme" where
  "scheduler_unblock t s =
     (if t = 0 then s
      else if th_state (threads s t) = THREAD_STATE_BLOCKED then
        ready_enqueue t (less_blocked (scheduler_thread_set_state t THREAD_STATE_READY (sleep_boost t s)))
      else s)"

definition scheduler_wake :: "u64 \<Rightarrow> 'a sched_state_scheme \<Rightarrow> 'a sched_state_scheme" where
  "scheduler_wake t s =
     (if t = 0 then s
      else if th_state (threads s t) = THREAD_STATE_BLOCKED then
        (ready_enqueue t (scheduler_thread_set_state t THREAD_STATE_READY (less_blocked (sleep_boost t s))))
          \<lparr>resched_pending := True\<rparr>
      else if th_state (threads s t) \<noteq> THREAD_STATE_READY then
        (ready_enqueue t (scheduler_thread_set_state t THREAD_STATE_READY s))\<lparr>resched_pending := True\<rparr>
      else if \<not> ready_thread_is_queued t s \<and> t \<noteq> thread_get_current s then
        (ready_enqueue t s)\<lparr>resched_pending := True\<rparr>
      else s)"

section \<open>Adding and configuring threads\<close>

definition scheduler_add_task :: "u64 \<Rightarrow> 'a sched_state_scheme \<Rightarrow> int \<times> 'a sched_state_scheme" where
  "scheduler_add_task task s =
     (if task = 0 then (- 1, s) else (0, s\<lparr>total_tasks := total_tasks s + 1\<rparr>))"

definition scheduler_get_current_task :: "'a sched_state_scheme \<Rightarrow> u64" where
  "scheduler_get_current_task s =
     (if thread_get_current s = 0 then 0 else th_task (threads s (thread_get_current s)))"

definition scheduler_add_thread :: "u64 \<Rightarrow> 'a sched_state_scheme \<Rightarrow> int \<times> 'a sched_state_scheme" where
  "scheduler_add_thread t s =
     (if t = 0 then (- 1, s)
      else
        let s = scheduler_thread_set_state t THREAD_STATE_READY s;
            s = upd_thread t (\<lambda>th. th\<lparr>base_priority := priority th, dyn_priority := ucast (priority th),
                  inherited_priority := ucast (priority th), has_inherited := False\<rparr>) s;
            s = (if \<not> sched_bucket_explicit (threads s t)
                 then upd_thread t (\<lambda>th. th\<lparr>sched_bucket := 2\<rparr>) s else s);
            s = ready_enqueue t s
        in (0, s\<lparr>total_tasks := total_tasks s + 1\<rparr>))"

text \<open>The C enumeration also admits values past \<^verbatim>\<open>SCHED_POLICY_CFS\<close>, which are refused.\<close>

definition scheduler_set_policy :: "nat \<Rightarrow> 'a sched_state_scheme \<Rightarrow> int \<times> 'a sched_state_scheme" where
  "scheduler_set_policy policy s =
     (if policy > 3 then (- 1, s)
      else (0, s\<lparr>current_policy :=
        [SCHED_POLICY_FIFO, SCHED_POLICY_RR, SCHED_POLICY_PRIORITY, SCHED_POLICY_CFS] ! policy\<rparr>))"

definition thread_set_priority :: "u64 \<Rightarrow> u8 \<Rightarrow> 'a sched_state_scheme \<Rightarrow> 'a sched_state_scheme" where
  "thread_set_priority t prio s = (if t = 0 then s else upd_thread t (\<lambda>th. th\<lparr>priority := prio\<rparr>) s)"

definition scheduler_set_priority :: "u64 \<Rightarrow> u8 \<Rightarrow> 'a sched_state_scheme \<Rightarrow> 'a sched_state_scheme" where
  "scheduler_set_priority t prio s =
     (if t = 0 then s
      else
        let s = thread_set_priority t prio s;
            s = upd_thread t (\<lambda>th. th\<lparr>base_priority := prio, dyn_priority := ucast prio\<rparr>) s
        in if has_inherited (threads s t) \<and>
              sint (inherited_priority (threads s t)) < sint (dyn_priority (threads s t))
           then upd_thread t (\<lambda>th. th\<lparr>inherited_priority := dyn_priority th\<rparr>) s
           else s)"

definition scheduler_inherit_priority :: "u64 \<Rightarrow> u64 \<Rightarrow> 'a sched_state_scheme \<Rightarrow> 'a sched_state_scheme" where
  "scheduler_inherit_priority target donor s =
     (if target = 0 \<or> donor = 0 then s
      else
        let donor_prio = thread_effective_priority donor s;
            th = threads s target;
            s = (if inherit_depth th < 8
                 then upd_thread target (\<lambda>th. th\<lparr>inherit_stack :=
                        (inherit_stack th)[unat (inherit_depth th) := inherited_priority th],
                        inherit_depth := inherit_depth th + 1\<rparr>) s
                 else upd_thread target (\<lambda>th. th\<lparr>has_inherit_overflow := True\<rparr>) s)
        in if \<not> has_inherited (threads s target) \<or>
              sint (inherited_priority (threads s target)) < donor_prio
           then upd_thread target (\<lambda>th. th\<lparr>inherited_priority := of_int donor_prio,
                  has_inherited := True\<rparr>) s
           else s)"

definition scheduler_clear_inherit :: "u64 \<Rightarrow> 'a sched_state_scheme \<Rightarrow> 'a sched_state_scheme" where
  "scheduler_clear_inherit target s =
     (if target = 0 then s
      else
        let th = threads s target;
            s = (if has_inherit_overflow th
                 then upd_thread target (\<lambda>th. th\<lparr>inherited_priority := ucast (base_priority th),
                        inherit_depth := 0, has_inherit_overflow := False\<rparr>) s
                 else if inherit_depth th > 0
                 then upd_thread target (\<lambda>th. th\<lparr>inherit_depth := inherit_depth th - 1,
                        inherited_priority := inherit_stack th ! unat (inherit_depth th - 1)\<rparr>) s
                 else upd_thread target (\<lambda>th. th\<lparr>inherited_priority := dyn_priority th\<rparr>) s)
        in upd_thread target (\<lambda>th. th\<lparr>has_inherited := False\<rparr>) s)"

definition scheduler_set_bucket :: "u64 \<Rightarrow> nat \<Rightarrow> 'a sched_state_scheme \<Rightarrow> 'a sched_state_scheme" where
  "scheduler_set_bucket t bucket s =
     (if t = 0 then s
      else if bucket \<ge> READY_QUEUE_LEVELS then s
      else upd_thread t (\<lambda>th. th\<lparr>sched_bucket := of_nat bucket, sched_bucket_explicit := True\<rparr>) s)"

end
