(* ===== verification/Waitq.thy ===== *)
theory Waitq
  imports Sched
begin

text \<open>
  Wait queues with timeouts (\<^verbatim>\<open>kernel/common/waitq.c\<close>), the blocking operations of
  \<^verbatim>\<open>scheduler/control.c\<close>, the timer tick (\<^verbatim>\<open>scheduler/tick.c\<close>), \<^verbatim>\<open>scheduler_init\<close> and the context switch
  from the timer interrupt (\<^verbatim>\<open>scheduler/switch.c\<close>) up to handing a dead thread to the reaper. A wait
  blocks its caller in the middle of \<^verbatim>\<open>waitq_wait_until\<close>; the function is modelled by the pieces
  between which other threads and interrupts run.
\<close>

section \<open>Timeouts\<close>

definition waitq_timeouts_init_once :: "'a sched_state_scheme \<Rightarrow> 'a sched_state_scheme" where
  "waitq_timeouts_init_once s =
     (if waitq_timeouts_initialized s then s
      else s\<lparr>waitq_timeouts := [], waitq_timeouts_initialized := True\<rparr>)"

definition waitq_disarm_timeout :: "u64 \<Rightarrow> 'a sched_state_scheme \<Rightarrow> 'a sched_state_scheme" where
  "waitq_disarm_timeout t s =
     (if t = 0 \<or> \<not> wait_timeout_armed (threads s t) then s
      else upd_thread t (\<lambda>th. th\<lparr>wait_timeout_armed := False, wait_deadline_tick := 0\<rparr>)
             (s\<lparr>waitq_timeouts := remove1 t (waitq_timeouts s)\<rparr>))"

definition waitq_arm_timeout :: "u64 \<Rightarrow> u64 \<Rightarrow> 'a sched_state_scheme \<Rightarrow> 'a sched_state_scheme" where
  "waitq_arm_timeout t deadline_ticks s =
     (if t = 0 \<or> deadline_ticks = 0 then s
      else
        let s = waitq_timeouts_init_once s;
            s = (if wait_timeout_armed (threads s t) then waitq_disarm_timeout t s else s);
            s = upd_thread t (\<lambda>th. th\<lparr>wait_deadline_tick := deadline_ticks\<rparr>) s;
            s = s\<lparr>waitq_timeouts := waitq_timeouts s @ [t]\<rparr>
        in upd_thread t (\<lambda>th. th\<lparr>wait_timeout_armed := True\<rparr>) s)"

definition waitq_deadline_from_timeout_ms :: "u64 \<Rightarrow> 'a sched_state_scheme \<Rightarrow> u64" where
  "waitq_deadline_from_timeout_ms timeout_ms s =
     (if timeout_ms = 0 then 0
      else
        let ticks = (timeout_ms + (SCHEDULER_TIME_SLICE_MS - 1)) div SCHEDULER_TIME_SLICE_MS;
            ticks = (if ticks = 0 then 1 else ticks)
        in sched_ticks s + ticks)"

section \<open>Queue operations\<close>

definition waitq_init :: "waitq_ref option \<Rightarrow> string \<Rightarrow> 'a sched_state_scheme \<Rightarrow> 'a sched_state_scheme" where
  "waitq_init q name s =
     (case q of None \<Rightarrow> s
      | Some q \<Rightarrow> upd_waitq q (\<lambda>wq. wq\<lparr>wq_threads := [], wq_name := name, wq_count := 0\<rparr>) s)"

definition waitq_contains :: "waitq_ref option \<Rightarrow> u64 \<Rightarrow> 'a sched_state_scheme \<Rightarrow> bool" where
  "waitq_contains q t s \<longleftrightarrow> q \<noteq> None \<and> t \<noteq> 0 \<and> waitq_owner (threads s t) = q"

definition waitq_enqueue :: "waitq_ref option \<Rightarrow> u64 \<Rightarrow> 'a sched_state_scheme \<Rightarrow> int \<times> 'a sched_state_scheme" where
  "waitq_enqueue q t s =
     (case q of
        None \<Rightarrow> (RDNX_E_INVALID, s)
      | Some r \<Rightarrow>
          if t = 0 then (RDNX_E_INVALID, s)
          else if waitq_owner (threads s t) = q then (RDNX_E_BUSY, s)
          else if waitq_owner (threads s t) \<noteq> None then (RDNX_E_BUSY, s)
          else
            let s = upd_waitq r (\<lambda>wq. wq\<lparr>wq_threads := wq_threads wq @ [t]\<rparr>) s;
                s = upd_thread t (\<lambda>th. th\<lparr>waitq_owner := q\<rparr>) s
            in (RDNX_OK, upd_waitq r (\<lambda>wq. wq\<lparr>wq_count := wq_count wq + 1\<rparr>) s))"

text \<open>Taking a thread out of its queue, the common end of \<^verbatim>\<open>waitq_remove\<close> and \<^verbatim>\<open>waitq_dequeue\<close>.\<close>

definition less_count :: "waitq_ref \<Rightarrow> 'a sched_state_scheme \<Rightarrow> 'a sched_state_scheme" where
  "less_count r s =
     (if wq_count (waitqs s r) > 0 then upd_waitq r (\<lambda>wq. wq\<lparr>wq_count := wq_count wq - 1\<rparr>) s else s)"

definition waitq_unlink :: "waitq_ref \<Rightarrow> u64 \<Rightarrow> 'a sched_state_scheme \<Rightarrow> 'a sched_state_scheme" where
  "waitq_unlink r t s =
     (let s = upd_waitq r (\<lambda>wq. wq\<lparr>wq_threads := remove1 t (wq_threads wq)\<rparr>) s;
          s = upd_thread t (\<lambda>th. th\<lparr>waitq_owner := None, wait_timed_out := False\<rparr>) s
      in less_count r (waitq_disarm_timeout t s))"

definition waitq_remove :: "waitq_ref option \<Rightarrow> u64 \<Rightarrow> 'a sched_state_scheme \<Rightarrow> int \<times> 'a sched_state_scheme" where
  "waitq_remove q t s =
     (case q of
        None \<Rightarrow> (RDNX_E_INVALID, s)
      | Some r \<Rightarrow>
          if t = 0 then (RDNX_E_INVALID, s)
          else if waitq_owner (threads s t) \<noteq> q then (RDNX_E_NOTFOUND, s)
          else (RDNX_OK, waitq_unlink r t s))"

definition waitq_dequeue :: "waitq_ref option \<Rightarrow> 'a sched_state_scheme \<Rightarrow> u64 \<times> 'a sched_state_scheme" where
  "waitq_dequeue q s =
     (case q of
        None \<Rightarrow> (0, s)
      | Some r \<Rightarrow> (case wq_threads (waitqs s r) of [] \<Rightarrow> (0, s) | t # _ \<Rightarrow> (t, waitq_unlink r t s)))"

definition waitq_wake_one :: "waitq_ref option \<Rightarrow> 'a sched_state_scheme \<Rightarrow> u64 \<times> 'a sched_state_scheme" where
  "waitq_wake_one q s =
     (let (t, s) = waitq_dequeue q s in if t = 0 then (0, s) else (t, scheduler_wake t s))"

text \<open>\<^verbatim>\<open>while (waitq_wake_one(q)) woke++;\<close>\<close>

partial_function (option) wake_all_loop ::
  "waitq_ref \<Rightarrow> u32 \<Rightarrow> 'a sched_state_scheme \<Rightarrow> (u32 \<times> 'a sched_state_scheme) option" where
  "wake_all_loop r woke s =
     (let (t, s') = waitq_wake_one (Some r) s
      in if t = 0 then Some (woke, s') else wake_all_loop r (woke + 1) s')"

definition waitq_wake_all ::
  "waitq_ref option \<Rightarrow> 'a sched_state_scheme \<Rightarrow> (u32 \<times> 'a sched_state_scheme) option" where
  "waitq_wake_all q s = (case q of None \<Rightarrow> Some (0, s) | Some r \<Rightarrow> wake_all_loop r 0 s)"

definition waitq_count :: "waitq_ref option \<Rightarrow> 'a sched_state_scheme \<Rightarrow> u32" where
  "waitq_count q s = (case q of None \<Rightarrow> 0 | Some r \<Rightarrow> wq_count (waitqs s r))"

definition waitq_timed_count :: "'a sched_state_scheme \<Rightarrow> u32" where
  "waitq_timed_count s =
     (if \<not> waitq_timeouts_initialized s then 0 else of_nat (length (waitq_timeouts s)))"

section \<open>Blocking\<close>

definition scheduler_yield :: "'a sched_state_scheme \<Rightarrow> 'a sched_state_scheme" where
  "scheduler_yield s = (if scheduler_running s then s\<lparr>resched_pending := True\<rparr> else s)"

definition scheduler_block :: "'a sched_state_scheme \<Rightarrow> 'a sched_state_scheme" where
  "scheduler_block s =
     (let cur = thread_get_current s
      in if cur = 0 then s
         else if in_scheduler s then s
         else
           let s = scheduler_thread_set_state cur THREAD_STATE_BLOCKED (s\<lparr>in_scheduler := True\<rparr>);
               s = upd_thread cur (\<lambda>th. th\<lparr>last_sleep_tick := sched_ticks s\<rparr>) s
           in s\<lparr>blocked_tasks := blocked_tasks s + 1, resched_pending := True, in_scheduler := False\<rparr>)"

text \<open>
  \<^verbatim>\<open>waitq_wait_until\<close>: what happens before the loop (an early return is \<open>Inl\<close>), the loop condition, the
  part of the loop body before \<^verbatim>\<open>int $32\<close>, and what follows the loop.
\<close>

definition wait_until_enter ::
  "waitq_ref option \<Rightarrow> u64 \<Rightarrow> 'a sched_state_scheme \<Rightarrow> (int + unit) \<times> 'a sched_state_scheme" where
  "wait_until_enter q deadline_ticks s =
     (if q = None then (Inl RDNX_E_INVALID, s)
      else
        let self = thread_get_current s
        in if self = 0 then (Inl RDNX_E_INVALID, s)
           else
             let s = upd_thread self (\<lambda>th. th\<lparr>wait_timed_out := False\<rparr>) s;
                 (qret, s) = (if \<not> waitq_contains q self s then waitq_enqueue q self s else (RDNX_OK, s))
             in if qret \<noteq> RDNX_OK \<and> qret \<noteq> RDNX_E_BUSY then (Inl qret, s)
                else (Inr (), if deadline_ticks \<noteq> 0 then waitq_arm_timeout self deadline_ticks s else s))"

definition wait_until_continues :: "waitq_ref option \<Rightarrow> u64 \<Rightarrow> 'a sched_state_scheme \<Rightarrow> bool" where
  "wait_until_continues q self s \<longleftrightarrow> waitq_contains q self s"

definition wait_until_leave :: "u64 \<Rightarrow> 'a sched_state_scheme \<Rightarrow> int \<times> 'a sched_state_scheme" where
  "wait_until_leave self s =
     (if wait_timed_out (threads s self) then RDNX_E_TIMEOUT else RDNX_OK,
      upd_thread self (\<lambda>th. th\<lparr>wait_timed_out := False\<rparr>) s)"

definition waitq_wait_enter ::
  "waitq_ref option \<Rightarrow> u64 \<Rightarrow> 'a sched_state_scheme \<Rightarrow> (int + unit) \<times> 'a sched_state_scheme" where
  "waitq_wait_enter q timeout_ms s = wait_until_enter q (waitq_deadline_from_timeout_ms timeout_ms s) s"

text \<open>\<^verbatim>\<open>scheduler_sleep\<close> up to the point where the caller blocks; \<open>Inl\<close> when it does not wait at all.\<close>

definition scheduler_sleep_enter :: "u64 \<Rightarrow> 'a sched_state_scheme \<Rightarrow> (int + unit) \<times> 'a sched_state_scheme" where
  "scheduler_sleep_enter milliseconds s =
     (if thread_get_current s = 0 then (Inl 0, s)
      else if milliseconds = 0 then (Inl 0, scheduler_yield s)
      else waitq_wait_enter (Some Sleep_waitq) milliseconds s)"

section \<open>The timer tick\<close>

definition timeout_expire :: "u64 \<Rightarrow> 'a sched_state_scheme \<Rightarrow> 'a sched_state_scheme" where
  "timeout_expire t s =
     (let owner = waitq_owner (threads s t);
          s = upd_thread t (\<lambda>th. th\<lparr>wait_timed_out := True\<rparr>) s;
          s = waitq_disarm_timeout t s;
          s = (case owner of
                 None \<Rightarrow> s
               | Some r \<Rightarrow>
                   if waitq_contains owner t s then
                     let s = upd_waitq r (\<lambda>wq. wq\<lparr>wq_threads := remove1 t (wq_threads wq)\<rparr>) s;
                         s = upd_thread t (\<lambda>th. th\<lparr>waitq_owner := None\<rparr>) s
                     in less_count r s
                   else s)
      in scheduler_wake t s)"

definition timeout_visit :: "u64 \<Rightarrow> u64 \<Rightarrow> 'a sched_state_scheme \<Rightarrow> 'a sched_state_scheme" where
  "timeout_visit now_ticks t s =
     (if \<not> wait_timeout_armed (threads s t) \<or> wait_deadline_tick (threads s t) = 0
      then waitq_disarm_timeout t s
      else if wait_deadline_tick (threads s t) > now_ticks then s
      else timeout_expire t s)"

text \<open>
  The loop is \<^verbatim>\<open>TAILQ_FOREACH_SAFE\<close>: the successor is read before the body, and the body takes only the
  visited thread out of the list, so it visits the threads of the list as it was at the start.
\<close>

definition waitq_tick :: "u64 \<Rightarrow> 'a sched_state_scheme \<Rightarrow> 'a sched_state_scheme" where
  "waitq_tick now_ticks s =
     (let s = waitq_timeouts_init_once s in fold (timeout_visit now_ticks) (waitq_timeouts s) s)"

definition tick_account :: "u64 \<Rightarrow> 'a sched_state_scheme \<Rightarrow> 'a sched_state_scheme" where
  "tick_account cur s =
     (if cur \<noteq> 0 \<and> th_state (threads s cur) = THREAD_STATE_RUNNING then
        let s = upd_thread cur (\<lambda>th. th\<lparr>sched_usage := (sched_usage th * 7) div 8 + 1\<rparr>) s;
            task = th_task (threads s cur);
            s = (if task \<noteq> 0 then upd_ptask task (\<lambda>tk. tk\<lparr>cpu_ticks := cpu_ticks tk + 1,
                   last_run_tick := sched_ticks s\<rparr>) s else s)
        in if sched_class (threads s cur) = SCHED_CLASS_TIMESHARE \<and>
              sched_usage (threads s cur) mod PENALTY_STEP_TICKS = 0
           then upd_thread cur (\<lambda>th. th\<lparr>dyn_priority := of_int (clamp_dyn_priority
                  (sint (dyn_priority th) - 1) (uint (base_priority th)))\<rparr>) s
           else s
      else s)"

definition scheduler_tick :: "'a sched_state_scheme \<Rightarrow> 'a sched_state_scheme" where
  "scheduler_tick s =
     (if \<not> scheduler_running s then s
      else
        let s = s\<lparr>sched_ticks := sched_ticks s + 1\<rparr>;
            s = waitq_tick (sched_ticks s) s;
            s = tick_account (thread_get_current s) s;
            s = (if ticks_until_preempt s > 0 then s\<lparr>ticks_until_preempt := ticks_until_preempt s - 1\<rparr> else s)
        in if ticks_until_preempt s = 0
           then s\<lparr>ticks_until_preempt := ticks_per_slice s, resched_pending := True\<rparr>
           else s)"

definition scheduler_set_tick_rate :: "u32 \<Rightarrow> 'a sched_state_scheme \<Rightarrow> 'a sched_state_scheme" where
  "scheduler_set_tick_rate hz s =
     (if hz = 0 then s
      else
        let ticks = (hz * 10 + 999) div 1000;
            ticks = (if ticks = 0 then 1 else ticks);
            s = s\<lparr>ticks_per_slice := ticks\<rparr>
        in if ticks_until_preempt s > ticks_per_slice s
           then s\<lparr>ticks_until_preempt := ticks_per_slice s\<rparr> else s)"

section \<open>Initialisation\<close>

definition scheduler_init :: "'a sched_state_scheme \<Rightarrow> int \<times> 'a sched_state_scheme" where
  "scheduler_init s =
     (if scheduler_initialized s then (0, s)
      else
        let s = thread_set_current 0 s;
            s = s\<lparr>current_policy := SCHED_POLICY_PRIORITY, scheduler_running := False,
                  ready_queues := replicate 4 [], bucket_last_run_tick := replicate 4 0\<rparr>;
            s = waitq_init (Some Sleep_waitq) ''scheduler_sleep'' s
        in (0, s\<lparr>ticks_per_slice := 1, ticks_until_preempt := 1, resched_pending := False, sched_ticks := 0,
                 running_tasks := 0, ready_tasks := 0, blocked_tasks := 0, scheduler_initialized := True\<rparr>))"

end
