(* ===== verification/Threads.thy ===== *)
theory Threads
  imports Waitq
begin

text \<open>
  Creation and destruction of tasks and threads (\<^verbatim>\<open>kernel/common/task.c\<close>), the reaper of dead threads
  (\<^verbatim>\<open>scheduler/reaper.c\<close>) and the context switch in the timer interrupt (\<^verbatim>\<open>scheduler/switch.c\<close>). The
  red-black tree that indexes tasks by identifier is the finite map it represents. A structure
  from \<^verbatim>\<open>kmalloc\<close> keeps whatever its store held before, so a field that the code does not
  initialise has an arbitrary value. Releasing a file descriptor (\<^verbatim>\<open>unix_fd_release\<close>) is an argument.
\<close>

section \<open>State\<close>

record reap_state = sched_state +
  next_task_id :: u64
  next_thread_id :: u64
  all_tasks :: "u64 list"
  all_tasks_by_id :: "u64 \<rightharpoonup> u64"
  stack_cache :: "u64 list"
  stack_cache_hits :: u64
  stack_cache_misses :: u64
  stack_cache_retired :: u64
  stack_cache_poison_failures :: u64
  reap_queue :: "u64 list"
  reap_head :: nat
  reap_tail :: nat
  rs_queue_len :: u32
  rs_queue_hwm :: u32
  rs_enqueued :: u64
  rs_reaped :: u64
  rs_deferred :: u64
  rs_dropped :: u64
  rs_runs :: u64
  reaper_task :: u64
  reaper_thread :: u64
  thread_trampoline :: u64
  reaper_main :: u64
  kernel_cs :: u64

abbreviation (input) KERNEL_STACK_SIZE :: u64 where "KERNEL_STACK_SIZE \<equiv> 32768"
abbreviation (input) STACK_POISON_BYTE :: u8 where "STACK_POISON_BYTE \<equiv> 0xCC"
abbreviation (input) STACK_CACHE_SIZE :: nat where "STACK_CACHE_SIZE \<equiv> 32"
abbreviation (input) REAP_QUEUE_SIZE :: nat where "REAP_QUEUE_SIZE \<equiv> 64"
abbreviation (input) REAP_GRACE_TICKS :: u64 where "REAP_GRACE_TICKS \<equiv> 128"
abbreviation (input) sizeof_task :: u64 where "sizeof_task \<equiv> 1944"
abbreviation (input) sizeof_thread :: u64 where "sizeof_thread \<equiv> 248"
abbreviation (input) sizeof_frame :: u64 where "sizeof_frame \<equiv> 208"

section \<open>Kernel stacks\<close>

definition stack_has_poison :: "u64 \<Rightarrow> 'a reap_state_scheme \<Rightarrow> bool" where
  "stack_has_poison stack s \<longleftrightarrow>
     stack \<noteq> 0 \<and>
     load64 (pmem s) (X86_64_VIRT_TO_PHYS stack) = 0xCCCCCCCCCCCCCCCC \<and>
     load64 (pmem s) (X86_64_VIRT_TO_PHYS (stack + KERNEL_STACK_SIZE - 8)) = 0xCCCCCCCCCCCCCCCC"

definition stack_cache_miss :: "'a reap_state_scheme \<Rightarrow> (u64 \<times> 'a reap_state_scheme) option" where
  "stack_cache_miss s = kmalloc KERNEL_STACK_SIZE (s\<lparr>stack_cache_misses := stack_cache_misses s + 1\<rparr>)"

text \<open>The loop of \<^verbatim>\<open>task_kernel_stack_acquire\<close> over the cache, top of the stack first.\<close>

fun acquire_from :: "u64 list \<Rightarrow> 'a reap_state_scheme \<Rightarrow> (u64 \<times> 'a reap_state_scheme) option" where
  "acquire_from [] s = stack_cache_miss s"
| "acquire_from (stack # rest) s =
     (let s = s\<lparr>stack_cache := rev rest, stack_cache_hits := stack_cache_hits s + 1\<rparr>
      in if stack = 0 then stack_cache_miss s
         else if \<not> stack_has_poison stack s then
           (case kfree stack (s\<lparr>stack_cache_poison_failures := stack_cache_poison_failures s + 1\<rparr>) of
              None \<Rightarrow> None
            | Some s \<Rightarrow> acquire_from rest s)
         else Some (stack, s))"

definition task_kernel_stack_acquire :: "'a reap_state_scheme \<Rightarrow> (u64 \<times> 'a reap_state_scheme) option" where
  "task_kernel_stack_acquire s = acquire_from (rev (stack_cache s)) s"

definition task_kernel_stack_retire :: "u64 \<Rightarrow> u64 \<Rightarrow> 'a reap_state_scheme \<Rightarrow> 'a reap_state_scheme option" where
  "task_kernel_stack_retire stack sz s =
     (if stack = 0 \<or> sz \<noteq> KERNEL_STACK_SIZE then Some s
      else
        let s = s\<lparr>pmem := mem_set (pmem s) (X86_64_VIRT_TO_PHYS stack) STACK_POISON_BYTE 32768\<rparr>;
            s = s\<lparr>stack_cache_retired := stack_cache_retired s + 1\<rparr>
        in if length (stack_cache s) < STACK_CACHE_SIZE
           then Some (s\<lparr>stack_cache := stack_cache s @ [stack]\<rparr>)
           else kfree stack s)"

section \<open>Tasks\<close>

definition new_task :: "u64 \<Rightarrow> task" where
  "new_task tid = \<lparr>task_id = tid, parent_task_id = 0, tk_state = TASK_STATE_NEW, tk_uid = 0, tk_gid = 0,
     tk_euid = 0, tk_egid = 0, tk_umask = 18, fd_table = replicate 32 0, fd_flags = replicate 32 0,
     fd_kind = replicate 32 0, tk_cwd = ''/'', exit_code = 0, tk_exited = False, tk_waited = False,
     sigactions = replicate 32 \<lparr>sa_handler = 0, sa_flags = 0, sa_restorer = 0, sa_mask = 0\<rparr>,
     sig_pending = 0, sig_in_handler = False, tk_abi = 0, tls_fs_base = 0, sig_saved = replicate 18 0,
     main_thread = 0, tk_threads = [], thread_count = 0, tk_ref_count = 1, tk_arch_specific = 0,
     cpu_ticks = 0, last_run_tick = 0\<rparr>"

text \<open>The fields of the embedded \<^verbatim>\<open>thread_group\<close> are not initialised.\<close>

definition init_task :: "u64 \<Rightarrow> task \<Rightarrow> task" where
  "init_task tid old = (new_task tid)\<lparr>cpu_ticks := cpu_ticks old, last_run_tick := last_run_tick old\<rparr>"

definition rb_insert :: "u64 \<Rightarrow> u64 \<Rightarrow> (u64 \<rightharpoonup> u64) \<Rightarrow> (u64 \<rightharpoonup> u64)" where
  "rb_insert k v m = (case m k of None \<Rightarrow> m(k \<mapsto> v) | Some _ \<Rightarrow> m)"

definition task_create :: "'a reap_state_scheme \<Rightarrow> (u64 \<times> 'a reap_state_scheme) option" where
  "task_create s =
     (case kmalloc sizeof_task s of
        None \<Rightarrow> None
      | Some (task, s) \<Rightarrow>
          if task = 0 then Some (0, s)
          else
            let tid = next_task_id s;
                s = s\<lparr>next_task_id := tid + 1\<rparr>;
                s = upd_task task (\<lambda>_. \<lparr>address_space = 0, t_vm_map = 0, vm_brk_base = 0, vm_brk_end = 0,
                      vm_mmap_base = 0, vm_mmap_hint = 0\<rparr>) s;
                s = upd_ptask task (init_task tid) s;
                s = s\<lparr>all_tasks := task # all_tasks s\<rparr>
            in Some (task, s\<lparr>all_tasks_by_id := rb_insert tid task (all_tasks_by_id s)\<rparr>))"

definition task_find_by_id :: "u64 \<Rightarrow> 'a reap_state_scheme \<Rightarrow> u64" where
  "task_find_by_id tid s =
     (if tid = 0 then 0 else case all_tasks_by_id s tid of None \<Rightarrow> 0 | Some task \<Rightarrow> task)"

definition task_set_ids :: "u64 \<Rightarrow> u32 \<Rightarrow> u32 \<Rightarrow> u32 \<Rightarrow> u32 \<Rightarrow> 'a sched_state_scheme \<Rightarrow> 'a sched_state_scheme" where
  "task_set_ids task uid gid euid egid s =
     (if task = 0 then s
      else upd_ptask task (\<lambda>tk. tk\<lparr>tk_uid := uid, tk_gid := gid, tk_euid := euid, tk_egid := egid\<rparr>) s)"

definition task_set_abi :: "u64 \<Rightarrow> u8 \<Rightarrow> 'a sched_state_scheme \<Rightarrow> 'a sched_state_scheme" where
  "task_set_abi task abi s = (if task = 0 then s else upd_ptask task (\<lambda>tk. tk\<lparr>tk_abi := abi\<rparr>) s)"

definition task_get_abi :: "u64 \<Rightarrow> 'a sched_state_scheme \<Rightarrow> u8" where
  "task_get_abi task s = (if task = 0 then 0 else if tk_abi (tasks s task) = 1 then 1 else 0)"

text \<open>File descriptors: the loop of \<^verbatim>\<open>task_fd_alloc\<close> takes the first free slot.\<close>

fun first_free_fd :: "nat \<Rightarrow> u64 list \<Rightarrow> nat option" where
  "first_free_fd i [] = None"
| "first_free_fd i (h # hs) = (if h = 0 then Some i else first_free_fd (Suc i) hs)"

definition task_fd_alloc :: "u64 \<Rightarrow> u64 \<Rightarrow> 'a sched_state_scheme \<Rightarrow> int \<times> 'a sched_state_scheme" where
  "task_fd_alloc task handle s =
     (if task = 0 \<or> handle = 0 then (RDNX_E_INVALID, s)
      else case first_free_fd 0 (fd_table (tasks s task)) of
             None \<Rightarrow> (RDNX_E_BUSY, s)
           | Some i \<Rightarrow> (int i, upd_ptask task (\<lambda>tk. tk\<lparr>fd_table := (fd_table tk)[i := handle],
                         fd_flags := (fd_flags tk)[i := 0], fd_kind := (fd_kind tk)[i := 0]\<rparr>) s))"

definition task_fd_get :: "u64 \<Rightarrow> int \<Rightarrow> 'a sched_state_scheme \<Rightarrow> u64" where
  "task_fd_get task fd s =
     (if task = 0 \<or> fd < 0 \<or> fd \<ge> int TASK_MAX_FD then 0 else fd_table (tasks s task) ! nat fd)"

definition task_fd_close :: "u64 \<Rightarrow> int \<Rightarrow> 'a sched_state_scheme \<Rightarrow> int \<times> 'a sched_state_scheme" where
  "task_fd_close task fd s =
     (if task = 0 \<or> fd < 0 \<or> fd \<ge> int TASK_MAX_FD then (RDNX_E_INVALID, s)
      else if fd_table (tasks s task) ! nat fd = 0 then (RDNX_E_INVALID, s)
      else (RDNX_OK, upd_ptask task (\<lambda>tk. tk\<lparr>fd_table := (fd_table tk)[nat fd := 0],
              fd_flags := (fd_flags tk)[nat fd := 0], fd_kind := (fd_kind tk)[nat fd := 0]\<rparr>) s))"

section \<open>Threads\<close>

text \<open>
  The fields that \<^verbatim>\<open>thread_create\<close> and \<^verbatim>\<open>thread_create_user_clone\<close> write, in terms of what the memory held:
  the scheduling bucket, the overflow flag of the inheritance stack and its upper half are not
  among them.
\<close>

definition init_thread :: "u64 \<Rightarrow> u64 \<Rightarrow> u64 \<Rightarrow> u64 \<Rightarrow> u64 \<Rightarrow> u64 \<Rightarrow> u64 \<Rightarrow> thread \<Rightarrow> thread" where
  "init_thread tid task frame pc entry arg stack old = old\<lparr>
     thread_id := tid, th_task := task, stack_pointer := frame, program_counter := pc,
     th_state := THREAD_STATE_NEW, sched_class := SCHED_CLASS_TIMESHARE, priority := 128,
     base_priority := 128, dyn_priority := 128, inherited_priority := 128, has_inherited := False,
     inherit_depth := 0, inherit_stack := replicate 4 128 @ drop 4 (inherit_stack old),
     sched_usage := 0, last_sleep_tick := 0, th_entry := entry, th_arg := arg, th_stack := stack,
     th_stack_size := KERNEL_STACK_SIZE, ready_queued := False, waitq_owner := None,
     wait_deadline_tick := 0, wait_timeout_armed := False, wait_timed_out := False, joiner := 0,
     reap_queued := False, reap_after_tick := 0, th_arch_specific := 0\<rparr>"

definition frame_place :: "u64 \<Rightarrow> u64" where
  "frame_place stack = ((stack + KERNEL_STACK_SIZE) AND NOT 0xF) - 8 - sizeof_frame"

text \<open>The initial interrupt frame: \<^verbatim>\<open>rip\<close> is word 21, then \<^verbatim>\<open>cs\<close>, \<^verbatim>\<open>rflags\<close>, \<^verbatim>\<open>rsp\<close> and \<^verbatim>\<open>ss\<close>.\<close>

definition initial_frame :: "u64 \<Rightarrow> u64 \<Rightarrow> u64 \<Rightarrow> u64 \<Rightarrow> bytes \<Rightarrow> bytes" where
  "initial_frame frame rip cs stack m =
     (let p = X86_64_VIRT_TO_PHYS frame;
          m = mem_set m p 0 208;
          m = store64 m (p + 168) rip;
          m = store64 m (p + 176) cs;
          m = store64 m (p + 184) 0x202;
          m = store64 m (p + 192) (stack + KERNEL_STACK_SIZE - 8)
      in store64 m (p + 200) 0x10)"

definition attach_thread :: "u64 \<Rightarrow> u64 \<Rightarrow> 'a reap_state_scheme \<Rightarrow> 'a reap_state_scheme" where
  "attach_thread task t s =
     upd_ptask task (\<lambda>tk. tk\<lparr>thread_count := thread_count tk + 1, tk_threads := tk_threads tk @ [t],
       main_thread := (if main_thread tk = 0 then t else main_thread tk)\<rparr>) s"

definition thread_create ::
  "u64 \<Rightarrow> u64 \<Rightarrow> u64 \<Rightarrow> 'a reap_state_scheme \<Rightarrow> (u64 \<times> 'a reap_state_scheme) option" where
  "thread_create task entry arg s =
     (if task = 0 \<or> entry = 0 then Some (0, s)
      else case kmalloc sizeof_thread s of
             None \<Rightarrow> None
           | Some (t, s) \<Rightarrow>
      (if t = 0 then Some (0, s)
       else case task_kernel_stack_acquire s of
              None \<Rightarrow> None
            | Some (stack, s) \<Rightarrow>
      (if stack = 0 then map_option (\<lambda>s. (0, s)) (kfree t s)
       else
         let frame = frame_place stack;
             s = s\<lparr>pmem := initial_frame frame (thread_trampoline s) (kernel_cs s) stack (pmem s)\<rparr>;
             tid = next_thread_id s;
             s = s\<lparr>next_thread_id := tid + 1\<rparr>;
             s = upd_thread t (init_thread tid task frame (thread_trampoline s) entry arg stack) s
         in Some (t, attach_thread task t s))))"

text \<open>The clone copies the caller's frame and clears \<^verbatim>\<open>rax\<close> (word 18).\<close>

definition thread_create_user_clone ::
  "u64 \<Rightarrow> u64 \<Rightarrow> 'a reap_state_scheme \<Rightarrow> (u64 \<times> 'a reap_state_scheme) option" where
  "thread_create_user_clone task frame s =
     (if task = 0 \<or> frame = 0 then Some (0, s)
      else case kmalloc sizeof_thread s of
             None \<Rightarrow> None
           | Some (t, s) \<Rightarrow>
      (if t = 0 then Some (0, s)
       else case task_kernel_stack_acquire s of
              None \<Rightarrow> None
            | Some (stack, s) \<Rightarrow>
      (if stack = 0 then map_option (\<lambda>s. (0, s)) (kfree t s)
       else
         let child_frame = frame_place stack;
             p = X86_64_VIRT_TO_PHYS child_frame;
             m = mem_copy (pmem s) p (X86_64_VIRT_TO_PHYS frame) 208;
             s = s\<lparr>pmem := store64 m (p + 144) 0\<rparr>;
             tid = next_thread_id s;
             s = s\<lparr>next_thread_id := tid + 1\<rparr>;
             s = upd_thread t (init_thread tid task child_frame (load64 (pmem s) (p + 168)) 0 0 stack) s
         in Some (t, attach_thread task t s))))"

definition unlink_thread :: "u64 \<Rightarrow> u64 \<Rightarrow> 'a reap_state_scheme \<Rightarrow> 'a reap_state_scheme" where
  "unlink_thread task t s =
     upd_ptask task (\<lambda>tk. tk\<lparr>tk_threads := remove1 t (tk_threads tk),
       thread_count := (if thread_count tk > 0 then thread_count tk - 1 else thread_count tk)\<rparr>) s"

definition thread_destroy :: "u64 \<Rightarrow> 'a reap_state_scheme \<Rightarrow> 'a reap_state_scheme option" where
  "thread_destroy t s =
     (if t = 0 then Some s
      else
        let s = (if th_task (threads s t) \<noteq> 0 then unlink_thread (th_task (threads s t)) t s else s)
        in case (if th_stack (threads s t) \<noteq> 0
                 then task_kernel_stack_retire (th_stack (threads s t)) (th_stack_size (threads s t)) s
                 else Some s) of
             None \<Rightarrow> None
           | Some s \<Rightarrow> kfree t s)"

fun destroy_threads :: "u64 list \<Rightarrow> 'a reap_state_scheme \<Rightarrow> 'a reap_state_scheme option" where
  "destroy_threads [] s = Some s"
| "destroy_threads (t # ts) s = (case thread_destroy t s of None \<Rightarrow> None | Some s \<Rightarrow> destroy_threads ts s)"

fun release_fds ::
  "(u64 \<Rightarrow> nat \<Rightarrow> 'a reap_state_scheme \<Rightarrow> 'a reap_state_scheme option) \<Rightarrow> u64 \<Rightarrow> nat list
     \<Rightarrow> 'a reap_state_scheme \<Rightarrow> 'a reap_state_scheme option" where
  "release_fds unix_fd_release task [] s = Some s"
| "release_fds unix_fd_release task (i # is) s =
     (case (if fd_table (tasks s task) ! i \<noteq> 0 then unix_fd_release task i s else Some s) of
        None \<Rightarrow> None
      | Some s \<Rightarrow> release_fds unix_fd_release task is s)"

definition task_destroy ::
  "(u64 \<Rightarrow> nat \<Rightarrow> 'a reap_state_scheme \<Rightarrow> 'a reap_state_scheme option) \<Rightarrow> u64
     \<Rightarrow> 'a reap_state_scheme \<Rightarrow> 'a reap_state_scheme option" where
  "task_destroy unix_fd_release task s =
     (if task = 0 then Some s
      else
        let s = s\<lparr>all_tasks := remove1 task (all_tasks s)\<rparr>;
            s = s\<lparr>all_tasks_by_id := (all_tasks_by_id s)(task_id (tasks s task) := None)\<rparr>
        in case destroy_threads (tk_threads (tasks s task)) s of
             None \<Rightarrow> None
           | Some s \<Rightarrow>
        (case release_fds unix_fd_release task [0..<TASK_MAX_FD] s of
             None \<Rightarrow> None
           | Some s \<Rightarrow>
        (case vm_task_destroy task s of
             None \<Rightarrow> None
           | Some s \<Rightarrow> kfree task s)))"

section \<open>The reaper\<close>

definition scheduler_reap_queue_len :: "'a reap_state_scheme \<Rightarrow> nat" where
  "scheduler_reap_queue_len s = (reap_tail s + REAP_QUEUE_SIZE - reap_head s) mod REAP_QUEUE_SIZE"

definition scheduler_reap_peek :: "'a reap_state_scheme \<Rightarrow> u64" where
  "scheduler_reap_peek s = (if reap_head s = reap_tail s then 0 else reap_queue s ! reap_head s)"

definition scheduler_reap_dequeue :: "'a reap_state_scheme \<Rightarrow> u64 \<times> 'a reap_state_scheme" where
  "scheduler_reap_dequeue s =
     (if reap_head s = reap_tail s then (0, s)
      else (reap_queue s ! reap_head s,
            s\<lparr>reap_queue := (reap_queue s)[reap_head s := 0],
              reap_head := (reap_head s + 1) mod REAP_QUEUE_SIZE\<rparr>))"

definition scheduler_reap_enqueue :: "u64 \<Rightarrow> 'a reap_state_scheme \<Rightarrow> 'a reap_state_scheme option" where
  "scheduler_reap_enqueue t s =
     (if t = 0 \<or> reap_queued (threads s t) then Some s
      else
        let next_tail = (reap_tail s + 1) mod REAP_QUEUE_SIZE
        in if next_tail = reap_head s then None
           else
             let s = upd_thread t (\<lambda>th. th\<lparr>reap_after_tick := sched_ticks s + REAP_GRACE_TICKS,
                       reap_queued := True\<rparr>) s;
                 s = s\<lparr>reap_queue := (reap_queue s)[reap_tail s := t], reap_tail := next_tail,
                       rs_enqueued := rs_enqueued s + 1\<rparr>;
                 qlen = of_nat (scheduler_reap_queue_len s)
             in Some (if qlen > rs_queue_hwm s then s\<lparr>rs_queue_hwm := qlen\<rparr> else s))"

text \<open>What the reaper does with the owner of a reaped thread.\<close>

definition reap_owner ::
  "(u64 \<Rightarrow> nat \<Rightarrow> 'a reap_state_scheme \<Rightarrow> 'a reap_state_scheme option) \<Rightarrow> u64
     \<Rightarrow> 'a reap_state_scheme \<Rightarrow> 'a reap_state_scheme option" where
  "reap_owner unix_fd_release owner s =
     (if owner \<noteq> 0 \<and> owner \<noteq> task_get_current s then
        if thread_count (tasks s owner) = 0 then
          if parent_task_id (tasks s owner) = 0
          then task_destroy unix_fd_release owner (scheduler_task_set_state owner TASK_STATE_DEAD s)
          else if tk_waited (tasks s owner)
          then task_destroy unix_fd_release owner (scheduler_task_set_state owner TASK_STATE_DEAD s)
          else Some (scheduler_task_set_state owner TASK_STATE_ZOMBIE s)
        else Some (scheduler_task_set_state owner TASK_STATE_ZOMBIE s)
      else Some s)"

definition reap_thread ::
  "(u64 \<Rightarrow> nat \<Rightarrow> 'a reap_state_scheme \<Rightarrow> 'a reap_state_scheme option) \<Rightarrow> u64
     \<Rightarrow> 'a reap_state_scheme \<Rightarrow> 'a reap_state_scheme option" where
  "reap_thread unix_fd_release dead s =
     (let s = upd_thread dead (\<lambda>th. th\<lparr>reap_queued := False\<rparr>) s;
          owner = th_task (threads s dead);
          s = (if owner \<noteq> 0 then unlink_thread owner dead s else s);
          s = (if owner \<noteq> 0 \<and> main_thread (tasks s owner) = dead
               then upd_ptask owner (\<lambda>tk. tk\<lparr>main_thread := 0\<rparr>) s else s)
      in case (if th_stack (threads s dead) \<noteq> 0
               then map_option (upd_thread dead (\<lambda>th. th\<lparr>th_stack := 0, th_stack_size := 0\<rparr>))
                      (task_kernel_stack_retire (th_stack (threads s dead)) (th_stack_size (threads s dead)) s)
               else Some s) of
           None \<Rightarrow> None
         | Some s \<Rightarrow>
      (case kfree dead (upd_thread dead (\<lambda>th. th\<lparr>th_task := 0\<rparr>) s) of
           None \<Rightarrow> None
         | Some s \<Rightarrow> reap_owner unix_fd_release owner (s\<lparr>rs_reaped := rs_reaped s + 1\<rparr>)))"

partial_function (option) reap_loop ::
  "(u64 \<Rightarrow> nat \<Rightarrow> 'a reap_state_scheme \<Rightarrow> 'a reap_state_scheme option)
     \<Rightarrow> 'a reap_state_scheme \<Rightarrow> 'a reap_state_scheme option" where
  "reap_loop unix_fd_release s =
     (if scheduler_reap_peek s = 0 then Some s
      else if reap_after_tick (threads s (scheduler_reap_peek s)) > sched_ticks s
      then Some (s\<lparr>rs_deferred := rs_deferred s + 1\<rparr>)
      else
        let (dead, s') = scheduler_reap_dequeue s
        in if dead = 0 then Some s'
           else Option.bind (reap_thread unix_fd_release dead s') (reap_loop unix_fd_release))"

definition scheduler_reap_dead_threads ::
  "(u64 \<Rightarrow> nat \<Rightarrow> 'a reap_state_scheme \<Rightarrow> 'a reap_state_scheme option)
     \<Rightarrow> 'a reap_state_scheme \<Rightarrow> 'a reap_state_scheme option" where
  "scheduler_reap_dead_threads unix_fd_release s = reap_loop unix_fd_release (s\<lparr>rs_runs := rs_runs s + 1\<rparr>)"

definition scheduler_reap_finished ::
  "(u64 \<Rightarrow> nat \<Rightarrow> 'a reap_state_scheme \<Rightarrow> 'a reap_state_scheme option)
     \<Rightarrow> 'a reap_state_scheme \<Rightarrow> 'a reap_state_scheme option" where
  "scheduler_reap_finished unix_fd_release s =
     map_option (\<lambda>s. s\<lparr>rs_queue_len := of_nat (scheduler_reap_queue_len s)\<rparr>)
       (scheduler_reap_dead_threads unix_fd_release s)"

definition scheduler_reaper_start ::
  "(u64 \<Rightarrow> nat \<Rightarrow> 'a reap_state_scheme \<Rightarrow> 'a reap_state_scheme option)
     \<Rightarrow> 'a reap_state_scheme \<Rightarrow> 'a reap_state_scheme option" where
  "scheduler_reaper_start unix_fd_release s =
     (if reaper_thread s \<noteq> 0 then Some s
      else case task_create s of
             None \<Rightarrow> None
           | Some (task, s) \<Rightarrow>
      (let s = s\<lparr>reaper_task := task\<rparr>
       in if task = 0 then Some s
          else case thread_create task (reaper_main s) 0 (scheduler_task_set_state task TASK_STATE_READY s) of
                 None \<Rightarrow> None
               | Some (t, s) \<Rightarrow>
       (let s = s\<lparr>reaper_thread := t\<rparr>
        in if t = 0 then map_option (\<lambda>s. s\<lparr>reaper_task := 0\<rparr>) (task_destroy unix_fd_release task s)
           else
             let s = upd_thread t (\<lambda>th. th\<lparr>priority := 16\<rparr>) s;
                 s = scheduler_set_bucket t SCHED_BUCKET_BACKGROUND s
             in Some (snd (scheduler_add_thread t s)))))"

section \<open>Exit\<close>

definition scheduler_exit_wake_joiner :: "u64 \<Rightarrow> 'a sched_state_scheme \<Rightarrow> 'a sched_state_scheme" where
  "scheduler_exit_wake_joiner t s =
     (if t = 0 \<or> joiner (threads s t) = 0 then s
      else
        let j = joiner (threads s t);
            s = upd_thread t (\<lambda>th. th\<lparr>joiner := 0\<rparr>) s;
            s = upd_thread j (\<lambda>th. th\<lparr>priority := 220, base_priority := 220, dyn_priority := 220,
                  inherited_priority := 220, has_inherited := False\<rparr>) s
        in scheduler_wake j s)"

text \<open>\<^verbatim>\<open>scheduler_exit_current\<close> up to the final \<^verbatim>\<open>int $32\<close>, from which the thread does not come back.\<close>

definition scheduler_exit_current :: "'a sched_state_scheme \<Rightarrow> 'a sched_state_scheme" where
  "scheduler_exit_current s =
     (let cur = thread_get_current s
      in if cur = 0 then s
         else
           let s = scheduler_exit_wake_joiner cur s;
               s = scheduler_thread_set_state cur THREAD_STATE_DEAD s;
               task = th_task (threads s cur);
               s = (if task \<noteq> 0 \<and> tk_state (tasks s task) \<noteq> TASK_STATE_DEAD
                    then scheduler_task_set_state task TASK_STATE_ZOMBIE s else s)
           in s\<lparr>resched_pending := True\<rparr>)"

section \<open>The context switch\<close>

definition scheduler_switch_address_space :: "u64 \<Rightarrow> 'a sched_state_scheme \<Rightarrow> 'a sched_state_scheme" where
  "scheduler_switch_address_space next s =
     (let s = (if scheduler_kernel_pml4 s = 0 then s\<lparr>scheduler_kernel_pml4 := cr3 s\<rparr> else s)
      in if next = 0 then s
         else
           let task = th_task (threads s next);
               target = (if task \<noteq> 0 \<and> address_space (task_vms s task) \<noteq> 0
                         then address_space (task_vms s task) else scheduler_kernel_pml4 s)
           in if target \<noteq> 0 \<and> cr3 s \<noteq> target then paging_switch_pml4 target s else s)"

text \<open>Making \<open>next\<close> the current thread, shared by the first and the later switches.\<close>

definition switch_to :: "u64 \<Rightarrow> 'a sched_state_scheme \<Rightarrow> 'a sched_state_scheme" where
  "switch_to next s =
     (let s = thread_set_current next s;
          s = (if th_task (threads s next) \<noteq> 0 then task_set_current (th_task (threads s next)) s else s);
          s = scheduler_switch_address_space next s;
          s = scheduler_update_tss next s
      in s\<lparr>running_tasks := 1, total_switches := total_switches s + 1\<rparr>)"

definition switch_first :: "'a reap_state_scheme \<Rightarrow> (u64 \<times> 'a reap_state_scheme) option" where
  "switch_first s =
     (let (first, s) = ready_dequeue s
      in if first = 0 then None
         else
           let s = switch_to first s;
               s = scheduler_thread_set_state first THREAD_STATE_RUNNING s;
               s = scheduler_reset_timeslice first s
           in Some (stack_pointer (threads s first), s\<lparr>in_scheduler := False\<rparr>))"

definition switch_from ::
  "u64 \<Rightarrow> u64 \<Rightarrow> 'a reap_state_scheme \<Rightarrow> (u64 \<times> 'a reap_state_scheme) option" where
  "switch_from cur frame s =
     (let s = upd_thread cur (\<lambda>th. th\<lparr>stack_pointer := frame\<rparr>) s;
          s = (if th_state (threads s cur) = THREAD_STATE_RUNNING
               then ready_enqueue cur (scheduler_thread_set_state cur THREAD_STATE_READY s) else s);
          (next, s) = ready_dequeue s
      in if next = 0 \<or> next = cur then
           (if th_state (threads s cur) \<noteq> THREAD_STATE_DEAD
            then Some (frame, (scheduler_thread_set_state cur THREAD_STATE_RUNNING s)\<lparr>in_scheduler := False\<rparr>)
            else None)
         else
           let s = switch_to next s;
               s = (if th_state (threads s cur) = THREAD_STATE_RUNNING
                    then scheduler_thread_set_state cur THREAD_STATE_READY s else s)
           in case (if th_state (threads s cur) = THREAD_STATE_DEAD
                    then scheduler_reap_enqueue cur s else Some s) of
                None \<Rightarrow> None
              | Some s \<Rightarrow>
                  let s = scheduler_thread_set_state next THREAD_STATE_RUNNING s;
                      s = scheduler_reset_timeslice next s
                  in Some (stack_pointer (threads s next), s\<lparr>in_scheduler := False\<rparr>))"

definition scheduler_switch_from_irq ::
  "u64 \<Rightarrow> 'a reap_state_scheme \<Rightarrow> (u64 \<times> 'a reap_state_scheme) option" where
  "scheduler_switch_from_irq frame s =
     (if \<not> scheduler_running s \<or> frame = 0 then Some (frame, s)
      else if in_scheduler s then Some (frame, s)
      else
        let s = s\<lparr>in_scheduler := True\<rparr>;
            cur = thread_get_current s
        in if cur \<noteq> 0 \<and> \<not> resched_pending s then Some (frame, s\<lparr>in_scheduler := False\<rparr>)
           else
             let s = s\<lparr>resched_pending := False\<rparr>
             in if cur = 0 then switch_first s else switch_from cur frame s)"

text \<open>The scheduler's part of the handler of vector 32 (\<^verbatim>\<open>interrupt_dispatch\<close>).\<close>

definition timer_irq :: "u64 \<Rightarrow> 'a reap_state_scheme \<Rightarrow> (u64 \<times> 'a reap_state_scheme) option" where
  "timer_irq frame s = scheduler_switch_from_irq frame (scheduler_tick s)"

end
