(* ===== verification/SchedInv.thy ===== *)
theory SchedInv
  imports Threads
begin

text \<open>
  Invariants of the run queues, the wait queues and the list of timeouts, relative to the set \<open>T\<close> of
  live threads, and what each operation of the scheduler does to them.
\<close>

section \<open>Field lemmas\<close>

lemma upd_thread_threads [simp]: "threads (upd_thread t f s) = (threads s)(t := f (threads s t))"
  by (simp add: upd_thread_def)

lemma upd_thread_fields [simp]:
  "tasks (upd_thread t f s) = tasks s" "cur_task (upd_thread t f s) = cur_task s"
  "cur_thread (upd_thread t f s) = cur_thread s" "waitqs (upd_thread t f s) = waitqs s"
  "waitq_timeouts (upd_thread t f s) = waitq_timeouts s"
  "waitq_timeouts_initialized (upd_thread t f s) = waitq_timeouts_initialized s"
  "scheduler_running (upd_thread t f s) = scheduler_running s"
  "current_policy (upd_thread t f s) = current_policy s" "ready_tasks (upd_thread t f s) = ready_tasks s"
  "blocked_tasks (upd_thread t f s) = blocked_tasks s" "in_scheduler (upd_thread t f s) = in_scheduler s"
  "resched_pending (upd_thread t f s) = resched_pending s" "sched_ticks (upd_thread t f s) = sched_ticks s"
  "ready_queues (upd_thread t f s) = ready_queues s"
  "bucket_last_run_tick (upd_thread t f s) = bucket_last_run_tick s"
  "total_tasks (upd_thread t f s) = total_tasks s"
  "ticks_until_preempt (upd_thread t f s) = ticks_until_preempt s"
  "ticks_per_slice (upd_thread t f s) = ticks_per_slice s"
  "sched_state.more (upd_thread t f s) = sched_state.more s"
  by (simp_all add: upd_thread_def)

lemma upd_ptask_fields [simp]:
  "tasks (upd_ptask t g s) = (tasks s)(t := g (tasks s t))"
  "threads (upd_ptask t g s) = threads s" "cur_task (upd_ptask t g s) = cur_task s"
  "cur_thread (upd_ptask t g s) = cur_thread s" "waitqs (upd_ptask t g s) = waitqs s"
  "waitq_timeouts (upd_ptask t g s) = waitq_timeouts s"
  "waitq_timeouts_initialized (upd_ptask t g s) = waitq_timeouts_initialized s"
  "scheduler_running (upd_ptask t g s) = scheduler_running s"
  "current_policy (upd_ptask t g s) = current_policy s" "ready_tasks (upd_ptask t g s) = ready_tasks s"
  "blocked_tasks (upd_ptask t g s) = blocked_tasks s" "in_scheduler (upd_ptask t g s) = in_scheduler s"
  "resched_pending (upd_ptask t g s) = resched_pending s" "sched_ticks (upd_ptask t g s) = sched_ticks s"
  "ready_queues (upd_ptask t g s) = ready_queues s"
  "bucket_last_run_tick (upd_ptask t g s) = bucket_last_run_tick s"
  "ticks_until_preempt (upd_ptask t g s) = ticks_until_preempt s"
  "ticks_per_slice (upd_ptask t g s) = ticks_per_slice s"
  "sched_state.more (upd_ptask t g s) = sched_state.more s"
  by (simp_all add: upd_ptask_def)

lemma upd_waitq_fields [simp]:
  "waitqs (upd_waitq q h s) = (waitqs s)(q := h (waitqs s q))"
  "tasks (upd_waitq q h s) = tasks s" "threads (upd_waitq q h s) = threads s"
  "cur_task (upd_waitq q h s) = cur_task s" "cur_thread (upd_waitq q h s) = cur_thread s"
  "waitq_timeouts (upd_waitq q h s) = waitq_timeouts s"
  "waitq_timeouts_initialized (upd_waitq q h s) = waitq_timeouts_initialized s"
  "scheduler_running (upd_waitq q h s) = scheduler_running s"
  "current_policy (upd_waitq q h s) = current_policy s" "ready_tasks (upd_waitq q h s) = ready_tasks s"
  "blocked_tasks (upd_waitq q h s) = blocked_tasks s" "in_scheduler (upd_waitq q h s) = in_scheduler s"
  "resched_pending (upd_waitq q h s) = resched_pending s" "sched_ticks (upd_waitq q h s) = sched_ticks s"
  "ready_queues (upd_waitq q h s) = ready_queues s"
  "bucket_last_run_tick (upd_waitq q h s) = bucket_last_run_tick s"
  "ticks_until_preempt (upd_waitq q h s) = ticks_until_preempt s"
  "ticks_per_slice (upd_waitq q h s) = ticks_per_slice s"
  "sched_state.more (upd_waitq q h s) = sched_state.more s"
  by (simp_all add: upd_waitq_def)

section \<open>Run queues\<close>

definition queued :: "'a sched_state_scheme \<Rightarrow> u64 list" where
  "queued s = concat (ready_queues s)"

definition live_ok :: "u64 set \<Rightarrow> bool" where
  "live_ok T \<longleftrightarrow> finite T \<and> card T < 2 ^ 32 \<and> 0 \<notin> T"

definition rq_ok :: "u64 set \<Rightarrow> 'a sched_state_scheme \<Rightarrow> bool" where
  "rq_ok T s \<longleftrightarrow>
     length (ready_queues s) = 4 \<and> length (bucket_last_run_tick s) = 4 \<and>
     distinct (queued s) \<and> set (queued s) \<subseteq> T \<and>
     (\<forall>t \<in> T. ready_queued (threads s t) \<longleftrightarrow> t \<in> set (queued s)) \<and>
     ready_tasks s = of_nat (length (queued s))"

lemma rq_ok_cong:
  assumes "ready_queues s' = ready_queues s" "bucket_last_run_tick s' = bucket_last_run_tick s"
    "ready_tasks s' = ready_tasks s" "\<And>t. t \<in> T \<Longrightarrow> ready_queued (threads s' t) = ready_queued (threads s t)"
  shows "rq_ok T s' = rq_ok T s"
  using assms by (simp add: rq_ok_def queued_def)

lemma concat_split:
  assumes "i < length qs"
  obtains as bs where "concat qs = as @ qs ! i @ bs" and "\<And>ys. concat (qs[i := ys]) = as @ ys @ bs"
proof
  show "concat qs = concat (take i qs) @ qs ! i @ concat (drop (Suc i) qs)"
    by (subst id_take_nth_drop [OF assms]) simp
  show "concat (qs[i := ys]) = concat (take i qs) @ ys @ concat (drop (Suc i) qs)" for ys
    using assms by (simp add: upd_conv_take_nth_drop)
qed

lemma short_list:
  assumes "live_ok T" "distinct xs" "set xs \<subseteq> T"
  shows "length xs < 2 ^ 32"
  using assms card_mono [of T "set xs"] by (simp add: live_ok_def distinct_card)

lemma counter_pos:
  assumes "0 < n" "n < 2 ^ 32"
  shows "0 < (of_nat n :: u64)" "0 < (of_nat n :: u32)"
  using assms by (simp_all add: word_less_nat_alt unat_of_nat take_bit_nat_eq_self)

lemma queue_index_bound: "ready_queue_index_for_thread t s < 4"
  by (simp add: ready_queue_index_for_thread_def)

text \<open>What \<^verbatim>\<open>ready_enqueue\<close> does to a thread that is not queued.\<close>

lemma ready_enqueue_new:
  assumes ok: "rq_ok T s" "live_ok T" and t: "t \<in> T" "\<not> ready_queued (threads s t)"
  shows "rq_ok T (ready_enqueue t s)"
    and "set (queued (ready_enqueue t s)) = insert t (set (queued s))"
proof -
  let ?q = "ready_queue_index_for_thread t s"
  have t0: "t \<noteq> 0" using t ok by (auto simp: live_ok_def)
  have eq: "ready_queues (ready_enqueue t s) = (ready_queues s)[?q := ready_queues s ! ?q @ [t]]"
    "ready_tasks (ready_enqueue t s) = ready_tasks s + 1"
    "bucket_last_run_tick (ready_enqueue t s) = bucket_last_run_tick s"
    "threads (ready_enqueue t s) = (threads s)(t := (threads s t)\<lparr>ready_queued := True\<rparr>)"
    using t0 t(2) queue_index_bound [of t s]
    by (simp_all add: ready_enqueue_def ready_thread_is_queued_def Let_def)
  have i: "?q < length (ready_queues s)" using ok queue_index_bound [of t s] by (simp add: rq_ok_def)
  obtain as bs where sp: "queued s = as @ ready_queues s ! ?q @ bs"
    "queued (ready_enqueue t s) = as @ (ready_queues s ! ?q @ [t]) @ bs"
    using concat_split [OF i] eq(1) unfolding queued_def by metis
  show set: "set (queued (ready_enqueue t s)) = insert t (set (queued s))"
    by (auto simp: sp)
  have "t \<notin> set (queued s)" using ok t by (auto simp: rq_ok_def)
  then have "distinct (queued (ready_enqueue t s))"
    "length (queued (ready_enqueue t s)) = Suc (length (queued s))"
    using ok(1) by (auto simp: rq_ok_def sp)
  then show "rq_ok T (ready_enqueue t s)"
    using ok t set by (auto simp: rq_ok_def eq)
qed

lemma ready_enqueue_fields [simp]:
  "cur_task (ready_enqueue t s) = cur_task s" "cur_thread (ready_enqueue t s) = cur_thread s"
  "waitqs (ready_enqueue t s) = waitqs s" "waitq_timeouts (ready_enqueue t s) = waitq_timeouts s"
  "waitq_timeouts_initialized (ready_enqueue t s) = waitq_timeouts_initialized s"
  "scheduler_running (ready_enqueue t s) = scheduler_running s" "tasks (ready_enqueue t s) = tasks s"
  "in_scheduler (ready_enqueue t s) = in_scheduler s" "sched_ticks (ready_enqueue t s) = sched_ticks s"
  "resched_pending (ready_enqueue t s) = resched_pending s"
  "current_policy (ready_enqueue t s) = current_policy s"
  "bucket_last_run_tick (ready_enqueue t s) = bucket_last_run_tick s"
  "blocked_tasks (ready_enqueue t s) = blocked_tasks s"
  "sched_state.more (ready_enqueue t s) = sched_state.more s"
  by (simp_all add: ready_enqueue_def Let_def)

lemma ready_enqueue_threads:
  "threads (ready_enqueue t s) = (if t = 0 then threads s else
     (threads s)(t := (threads s t)\<lparr>ready_queued := True\<rparr>))"
  by (auto simp: ready_enqueue_def ready_thread_is_queued_def Let_def fun_eq_iff)

lemma ready_enqueue_id: "ready_queued (threads s t) \<Longrightarrow> ready_enqueue t s = s"
  by (simp add: ready_enqueue_def ready_thread_is_queued_def)

lemma ready_enqueue_rq:
  assumes "rq_ok T s" "live_ok T" "t \<in> T"
  shows "rq_ok T (ready_enqueue t s) \<and> set (queued (ready_enqueue t s)) = insert t (set (queued s))"
proof (cases "ready_queued (threads s t)")
  case True
  with assms show ?thesis by (auto simp: ready_enqueue_id rq_ok_def)
next
  case False
  with assms ready_enqueue_new show ?thesis by blast
qed

text \<open>Taking the first thread of a queue.\<close>

lemma dequeue_from_empty: "ready_queues s ! q = [] \<Longrightarrow> dequeue_from q s = (0, s)"
  by (simp add: dequeue_from_def)

lemma dequeue_from_first:
  assumes ok: "rq_ok T s" "live_ok T" and q: "q < 4" "ready_queues s ! q = t # ts"
  obtains s' where "dequeue_from q s = (t, s')" "rq_ok T s'" "set (queued s') = set (queued s) - {t}"
    "t \<in> set (queued s)" "ready_queues s' = (ready_queues s)[q := ts]"
    "s' = s\<lparr>ready_queues := (ready_queues s)[q := ts],
      threads := (threads s)(t := (threads s t)\<lparr>ready_queued := False\<rparr>),
      ready_tasks := ready_tasks s - 1,
      bucket_last_run_tick := (bucket_last_run_tick s)[q := sched_ticks s]\<rparr>"
proof -
  have i: "q < length (ready_queues s)" using ok q by (simp add: rq_ok_def)
  let ?s = "s\<lparr>ready_queues := (ready_queues s)[q := ts],
      threads := (threads s)(t := (threads s t)\<lparr>ready_queued := False\<rparr>),
      ready_tasks := ready_tasks s - 1,
      bucket_last_run_tick := (bucket_last_run_tick s)[q := sched_ticks s]\<rparr>"
  have d: "distinct (queued s)" "set (queued s) \<subseteq> T" using ok by (simp_all add: rq_ok_def)
  obtain as bs where sp: "queued s = as @ (t # ts) @ bs" "queued ?s = as @ ts @ bs"
  proof (rule concat_split [OF i])
    fix as bs
    assume "concat (ready_queues s) = as @ ready_queues s ! q @ bs"
      and "\<And>ys. concat ((ready_queues s)[q := ys]) = as @ ys @ bs"
    with q(2) show thesis by (intro that [of as bs]) (simp_all add: queued_def)
  qed
  have len: "length (queued s) = Suc (length (queued ?s))"
    by (simp add: sp)
  have set: "set (queued ?s) = set (queued s) - {t}" and dis: "distinct (queued ?s)" and t: "t \<in> set (queued s)"
    using d(1) by (auto simp: sp)
  have "length (queued s) < 2 ^ 32" by (rule short_list [OF ok(2) d])
  then have pos: "ready_tasks s > 0"
    using ok(1) counter_pos(1) [of "length (queued s)"] by (simp add: rq_ok_def len)
  have cnt: "ready_tasks s - 1 = of_nat (length (queued ?s))"
  proof -
    have "ready_tasks s = of_nat (length (queued s))" using ok(1) by (simp add: rq_ok_def)
    also have "\<dots> = 1 + of_nat (length (queued ?s))" unfolding len by (rule of_nat_Suc)
    finally show ?thesis by (metis add_diff_cancel_left')
  qed
  have "dequeue_from q s = (t, ?s)"
    using q pos by (simp add: dequeue_from_def Let_def upd_thread_def)
  moreover have "rq_ok T ?s"
    using ok dis set d(2) cnt by (auto simp: rq_ok_def)
  ultimately show thesis using that set t by simp
qed

text \<open>The queue that \<^verbatim>\<open>ready_dequeue\<close> serves.\<close>

definition served_queue :: "'a sched_state_scheme \<Rightarrow> nat option" where
  "served_queue s =
     (if flat_policy s then (if ready_queues s ! 2 = [] then None else Some 2)
      else case find (starving s) [0, 1, 2] of
             Some b \<Rightarrow> Some b
           | None \<Rightarrow> find (\<lambda>q. ready_queues s ! q \<noteq> []) [3, 2, 1, 0])"

lemma dequeue_from_zero: "fst (dequeue_from q s) = 0 \<Longrightarrow> ready_queues s ! q = [] \<or> hd (ready_queues s ! q) = 0"
  by (auto simp: dequeue_from_def Let_def split: list.splits)

lemma rq_nonzero: "rq_ok T s \<Longrightarrow> live_ok T \<Longrightarrow> q < 4 \<Longrightarrow> ready_queues s ! q = t # ts \<Longrightarrow> t \<noteq> 0 \<and> t \<in> T"
  by (metis (no_types, opaque_lifting) dequeue_from_first live_ok_def rq_ok_def subset_iff)

lemma dequeue_highest_eq:
  assumes "rq_ok T s" "live_ok T" "set qs \<subseteq> {..<4}"
  shows "dequeue_highest qs s =
    (case find (\<lambda>q. ready_queues s ! q \<noteq> []) qs of None \<Rightarrow> (0, s) | Some q \<Rightarrow> dequeue_from q s)"
  using assms(3)
proof (induction qs)
  case (Cons q qs)
  show ?case
  proof (cases "ready_queues s ! q")
    case Nil
    with Cons show ?thesis by (simp add: dequeue_from_empty)
  next
    case (Cons t ts)
    have q: "q < 4" using Cons.prems by simp
    from rq_nonzero [OF assms(1,2) q Cons] have "t \<noteq> 0" by simp
    moreover obtain s' where "dequeue_from q s = (t, s')"
      by (rule dequeue_from_first [OF assms(1,2) q Cons])
    ultimately show ?thesis using Cons by simp
  qed
qed simp

lemma ready_dequeue_eq:
  assumes "rq_ok T s" "live_ok T"
  shows "ready_dequeue s = (case served_queue s of None \<Rightarrow> (0, s) | Some q \<Rightarrow> dequeue_from q s)"
  using dequeue_highest_eq [OF assms, of "[3, 2, 1, 0]"]
  by (auto simp: ready_dequeue_def served_queue_def dequeue_from_empty split: option.split)

lemma served_queue_some: "served_queue s = Some q \<Longrightarrow> q < 4 \<and> ready_queues s ! q \<noteq> []"
  by (auto simp: served_queue_def starving_def split: if_splits option.splits)

lemma served_queue_default: "ready_queues s ! 2 \<noteq> [] \<Longrightarrow> served_queue s \<noteq> None"
  by (auto simp: served_queue_def split: option.split)

lemma ready_dequeue_cases:
  assumes ok: "rq_ok T s" "live_ok T"
  obtains (none) "served_queue s = None" "ready_dequeue s = (0, s)"
  | (some) q t ts s' where "served_queue s = Some q" "q < 4" "ready_queues s ! q = t # ts"
      "ready_dequeue s = (t, s')" "t \<in> T" "t \<noteq> 0" "t \<in> set (queued s)" "rq_ok T s'"
      "set (queued s') = set (queued s) - {t}" "ready_queues s' = (ready_queues s)[q := ts]"
      "s' = s\<lparr>ready_queues := (ready_queues s)[q := ts],
        threads := (threads s)(t := (threads s t)\<lparr>ready_queued := False\<rparr>),
        ready_tasks := ready_tasks s - 1,
        bucket_last_run_tick := (bucket_last_run_tick s)[q := sched_ticks s]\<rparr>"
proof (cases "served_queue s")
  case None
  with ready_dequeue_eq [OF ok] show thesis by (intro none) auto
next
  case (Some q)
  then obtain t ts where q: "q < 4" "ready_queues s ! q = t # ts"
    using served_queue_some [OF Some] by (cases "ready_queues s ! q") auto
  have t: "t \<in> T" "t \<noteq> 0" using rq_nonzero [OF ok q] by auto
  have eq: "ready_dequeue s = dequeue_from q s" by (simp add: ready_dequeue_eq [OF ok] Some)
  obtain s' where d: "dequeue_from q s = (t, s')" and s': "rq_ok T s'" "set (queued s') = set (queued s) - {t}"
    "t \<in> set (queued s)" "ready_queues s' = (ready_queues s)[q := ts]"
    "s' = s\<lparr>ready_queues := (ready_queues s)[q := ts],
      threads := (threads s)(t := (threads s t)\<lparr>ready_queued := False\<rparr>),
      ready_tasks := ready_tasks s - 1,
      bucket_last_run_tick := (bucket_last_run_tick s)[q := sched_ticks s]\<rparr>"
    by (rule dequeue_from_first [OF ok q])
  show thesis by (rule some [OF Some q eq [unfolded d] t s'(3,1,2,4,5)])
qed

section \<open>Wait queues and timeouts\<close>

definition wq_ok :: "u64 set \<Rightarrow> 'a sched_state_scheme \<Rightarrow> bool" where
  "wq_ok T s \<longleftrightarrow>
     (\<forall>q. distinct (wq_threads (waitqs s q)) \<and> set (wq_threads (waitqs s q)) \<subseteq> T \<and>
       wq_count (waitqs s q) = of_nat (length (wq_threads (waitqs s q)))) \<and>
     (\<forall>q. \<forall>t \<in> T. waitq_owner (threads s t) = Some q \<longleftrightarrow> t \<in> set (wq_threads (waitqs s q)))"

definition to_ok :: "u64 set \<Rightarrow> 'a sched_state_scheme \<Rightarrow> bool" where
  "to_ok T s \<longleftrightarrow>
     distinct (waitq_timeouts s) \<and> set (waitq_timeouts s) \<subseteq> T \<and>
     (\<forall>t \<in> T. wait_timeout_armed (threads s t) \<longleftrightarrow> t \<in> set (waitq_timeouts s)) \<and>
     (\<forall>t \<in> T. wait_timeout_armed (threads s t) \<longrightarrow>
        wait_deadline_tick (threads s t) \<noteq> 0 \<and> waitq_owner (threads s t) \<noteq> None) \<and>
     (\<not> waitq_timeouts_initialized s \<longrightarrow> waitq_timeouts s = [])"

text \<open>Both depend on the wait fields of the live threads only.\<close>

lemma wq_ok_cong:
  assumes "waitqs s' = waitqs s" "\<And>t. t \<in> T \<Longrightarrow> waitq_owner (threads s' t) = waitq_owner (threads s t)"
  shows "wq_ok T s' = wq_ok T s"
  using assms by (simp add: wq_ok_def)

lemma to_ok_cong:
  assumes "waitq_timeouts s' = waitq_timeouts s" "waitq_timeouts_initialized s' = waitq_timeouts_initialized s"
    "\<And>t. t \<in> T \<Longrightarrow> waitq_owner (threads s' t) = waitq_owner (threads s t) \<and>
      wait_timeout_armed (threads s' t) = wait_timeout_armed (threads s t) \<and>
      wait_deadline_tick (threads s' t) = wait_deadline_tick (threads s t)"
  shows "to_ok T s' = to_ok T s"
  using assms by (simp add: to_ok_def)

lemma less_count_fields [simp]:
  "threads (less_count r s) = threads s" "waitq_timeouts (less_count r s) = waitq_timeouts s"
  "waitq_timeouts_initialized (less_count r s) = waitq_timeouts_initialized s"
  "cur_thread (less_count r s) = cur_thread s" "ready_queues (less_count r s) = ready_queues s"
  "bucket_last_run_tick (less_count r s) = bucket_last_run_tick s" "ready_tasks (less_count r s) = ready_tasks s"
  "in_scheduler (less_count r s) = in_scheduler s" "resched_pending (less_count r s) = resched_pending s"
  "scheduler_running (less_count r s) = scheduler_running s" "sched_ticks (less_count r s) = sched_ticks s"
  "sched_state.more (less_count r s) = sched_state.more s" "current_policy (less_count r s) = current_policy s"
  "tasks (less_count r s) = tasks s" "cur_task (less_count r s) = cur_task s"
  by (simp_all add: less_count_def)

lemma disarm_fields [simp]:
  "waitqs (waitq_disarm_timeout t s) = waitqs s"
  "waitq_timeouts_initialized (waitq_disarm_timeout t s) = waitq_timeouts_initialized s"
  "cur_thread (waitq_disarm_timeout t s) = cur_thread s"
  "ready_queues (waitq_disarm_timeout t s) = ready_queues s"
  "bucket_last_run_tick (waitq_disarm_timeout t s) = bucket_last_run_tick s"
  "ready_tasks (waitq_disarm_timeout t s) = ready_tasks s"
  "in_scheduler (waitq_disarm_timeout t s) = in_scheduler s"
  "resched_pending (waitq_disarm_timeout t s) = resched_pending s"
  "scheduler_running (waitq_disarm_timeout t s) = scheduler_running s"
  "sched_ticks (waitq_disarm_timeout t s) = sched_ticks s"
  "sched_state.more (waitq_disarm_timeout t s) = sched_state.more s"
  "current_policy (waitq_disarm_timeout t s) = current_policy s"
  "tasks (waitq_disarm_timeout t s) = tasks s" "cur_task (waitq_disarm_timeout t s) = cur_task s"
  by (simp_all add: waitq_disarm_timeout_def)

lemma disarm_threads:
  "threads (waitq_disarm_timeout t s) =
     (if t \<noteq> 0 \<and> wait_timeout_armed (threads s t)
      then (threads s)(t := (threads s t)\<lparr>wait_timeout_armed := False, wait_deadline_tick := 0\<rparr>)
      else threads s)"
  "waitq_timeouts (waitq_disarm_timeout t s) =
     (if t \<noteq> 0 \<and> wait_timeout_armed (threads s t) then remove1 t (waitq_timeouts s) else waitq_timeouts s)"
  by (auto simp: waitq_disarm_timeout_def)

section \<open>What the operations leave alone\<close>

definition keeps_wait :: "'a sched_state_scheme \<Rightarrow> 'a sched_state_scheme \<Rightarrow> bool" where
  "keeps_wait s s' \<longleftrightarrow>
     waitqs s' = waitqs s \<and> waitq_timeouts s' = waitq_timeouts s \<and>
     waitq_timeouts_initialized s' = waitq_timeouts_initialized s \<and>
     (\<forall>t. waitq_owner (threads s' t) = waitq_owner (threads s t) \<and>
       wait_timeout_armed (threads s' t) = wait_timeout_armed (threads s t) \<and>
       wait_deadline_tick (threads s' t) = wait_deadline_tick (threads s t) \<and>
       wait_timed_out (threads s' t) = wait_timed_out (threads s t))"

definition keeps_misc :: "'a sched_state_scheme \<Rightarrow> 'a sched_state_scheme \<Rightarrow> bool" where
  "keeps_misc s s' \<longleftrightarrow>
     cur_thread s' = cur_thread s \<and> in_scheduler s' = in_scheduler s \<and>
     scheduler_running s' = scheduler_running s \<and>
     current_policy s' = current_policy s \<and> sched_state.more s' = sched_state.more s \<and>
     (\<forall>t. joiner (threads s' t) = joiner (threads s t) \<and>
       reap_queued (threads s' t) = reap_queued (threads s t) \<and>
       sched_bucket (threads s' t) = sched_bucket (threads s t))"

definition keeps_run :: "'a sched_state_scheme \<Rightarrow> 'a sched_state_scheme \<Rightarrow> bool" where
  "keeps_run s s' \<longleftrightarrow>
     ready_queues s' = ready_queues s \<and> ready_tasks s' = ready_tasks s \<and>
     bucket_last_run_tick s' = bucket_last_run_tick s \<and> resched_pending s' = resched_pending s \<and>
     (\<forall>t. th_state (threads s' t) = th_state (threads s t) \<and>
       ready_queued (threads s' t) = ready_queued (threads s t))"

lemma keeps_refl [simp, intro]: "keeps_wait s s" "keeps_misc s s" "keeps_run s s"
  by (simp_all add: keeps_wait_def keeps_misc_def keeps_run_def)

lemma keeps_trans [trans]:
  "keeps_wait s t \<Longrightarrow> keeps_wait t u \<Longrightarrow> keeps_wait s u"
  "keeps_misc s t \<Longrightarrow> keeps_misc t u \<Longrightarrow> keeps_misc s u"
  "keeps_run s t \<Longrightarrow> keeps_run t u \<Longrightarrow> keeps_run s u"
  by (simp_all add: keeps_wait_def keeps_misc_def keeps_run_def)

lemma keeps_run_rq: "keeps_run s s' \<Longrightarrow> rq_ok T s' = rq_ok T s" "keeps_run s s' \<Longrightarrow> queued s' = queued s"
  by (rule rq_ok_cong; simp add: keeps_run_def) (simp add: keeps_run_def queued_def)

lemma keeps_wait_ok:
  "keeps_wait s s' \<Longrightarrow> wq_ok T s' = wq_ok T s" "keeps_wait s s' \<Longrightarrow> to_ok T s' = to_ok T s"
  by (rule wq_ok_cong; simp add: keeps_wait_def) (rule to_ok_cong; simp add: keeps_wait_def)

section \<open>Waking\<close>

lemma boost_keeps:
  "keeps_wait s (sleep_boost t s)" "keeps_misc s (sleep_boost t s)" "keeps_run s (sleep_boost t s)"
  by (auto simp: sleep_boost_def keeps_wait_def keeps_misc_def keeps_run_def Let_def)

lemma less_blocked_keeps:
  "keeps_wait s (less_blocked s)" "keeps_misc s (less_blocked s)" "keeps_run s (less_blocked s)"
  by (auto simp: less_blocked_def keeps_wait_def keeps_misc_def keeps_run_def)

text \<open>Setting a thread to \<^verbatim>\<open>READY\<close> and putting it on its run queue.\<close>

definition made_ready :: "u64 set \<Rightarrow> u64 \<Rightarrow> 'a sched_state_scheme \<Rightarrow> 'a sched_state_scheme \<Rightarrow> bool" where
  "made_ready T t s s' \<longleftrightarrow>
     rq_ok T s' \<and> set (queued s') = insert t (set (queued s)) \<and>
     (\<forall>q. set (ready_queues s ! q) \<subseteq> set (ready_queues s' ! q)) \<and>
     (\<forall>x. th_state (threads s' x) = (if x = t then THREAD_STATE_READY else th_state (threads s x))) \<and>
     keeps_wait s s' \<and> keeps_misc s s'"

lemma enqueue_queues:
  "ready_queues (ready_enqueue t s) = (if t = 0 \<or> ready_queued (threads s t) then ready_queues s else
     (ready_queues s)[ready_queue_index_for_thread t s := ready_queues s ! ready_queue_index_for_thread t s @ [t]])"
  using queue_index_bound [of t s] by (simp add: ready_enqueue_def ready_thread_is_queued_def Let_def)

lemma enqueue_mono: "set (ready_queues s ! q) \<subseteq> set (ready_queues (ready_enqueue t s) ! q)"
proof (cases "q = ready_queue_index_for_thread t s")
  case True
  then show ?thesis
    by (cases "q < length (ready_queues s)") (auto simp: enqueue_queues list_update_beyond)
qed (simp add: enqueue_queues)

lemma made_ready_enqueue:
  assumes "rq_ok T s" "live_ok T" "t \<in> T" and s0: "keeps_wait s0 s" "keeps_misc s0 s" "keeps_run s0 s"
  shows "made_ready T t s0 (ready_enqueue t (scheduler_thread_set_state t THREAD_STATE_READY s))"
    (is "made_ready _ _ _ (ready_enqueue t ?s)")
proof -
  have t0: "t \<noteq> 0" using assms(2,3) by (auto simp: live_ok_def)
  have "rq_ok T ?s = rq_ok T s" "queued ?s = queued s"
    by (rule rq_ok_cong; simp add: scheduler_thread_set_state_def)
      (simp add: scheduler_thread_set_state_def queued_def)
  then have "rq_ok T (ready_enqueue t ?s) \<and> set (queued (ready_enqueue t ?s)) = insert t (set (queued s))"
    using ready_enqueue_rq [of T ?s t] assms by simp
  moreover have "set (ready_queues s0 ! q) \<subseteq> set (ready_queues (ready_enqueue t ?s) ! q)" for q
    using enqueue_mono [of ?s q t] s0(3) by (simp add: keeps_run_def scheduler_thread_set_state_def split: if_splits)
  ultimately show ?thesis
    using t0 s0 keeps_run_rq(2) [OF s0(3)]
    by (auto simp: made_ready_def keeps_wait_def keeps_misc_def keeps_run_def ready_enqueue_threads
        scheduler_thread_set_state_def)
qed

lemma resched_keeps:
  "keeps_wait s (s'\<lparr>resched_pending := b\<rparr>) = keeps_wait s s'"
  "keeps_misc s (s'\<lparr>resched_pending := b\<rparr>) = keeps_misc s s'"
  "rq_ok T (s'\<lparr>resched_pending := b\<rparr>) = rq_ok T s'" "queued (s'\<lparr>resched_pending := b\<rparr>) = queued s'"
  by (simp_all add: keeps_wait_def keeps_misc_def rq_ok_def queued_def)

lemma made_ready_resched: "made_ready T t s s' \<Longrightarrow> made_ready T t s (s'\<lparr>resched_pending := b\<rparr>)"
  by (simp add: made_ready_def resched_keeps)

lemma wake_made_ready:
  assumes "rq_ok T s" "live_ok T" "t \<in> T" "t = cur_thread s \<longrightarrow> th_state (threads s t) \<noteq> THREAD_STATE_READY \<or> ready_queued (threads s t)"
  shows "made_ready T t s (scheduler_wake t s)"
    and "resched_pending s \<or> \<not> (th_state (threads s t) = THREAD_STATE_READY \<and> ready_queued (threads s t)) \<Longrightarrow>
      resched_pending (scheduler_wake t s)"
    and "resched_pending (scheduler_wake t s) \<or> scheduler_wake t s = s"
proof -
  have t0: "t \<noteq> 0" using assms(2,3) by (auto simp: live_ok_def)
  let ?b = "less_blocked (sleep_boost t s)"
  have b: "keeps_wait s ?b" "keeps_misc s ?b" "keeps_run s ?b"
    using boost_keeps less_blocked_keeps keeps_trans by blast+
  have rq: "rq_ok T ?b" using assms(1) keeps_run_rq(1) [OF b(3)] by simp
  have m: "made_ready T t s (ready_enqueue t (scheduler_thread_set_state t THREAD_STATE_READY s))"
    by (rule made_ready_enqueue) (use assms in auto)
  have mb: "made_ready T t s (ready_enqueue t (scheduler_thread_set_state t THREAD_STATE_READY ?b))"
    by (rule made_ready_enqueue [OF rq assms(2,3) b])
  have r: "made_ready T t s (ready_enqueue t s)" if "th_state (threads s t) = THREAD_STATE_READY"
  proof -
    have "scheduler_thread_set_state t THREAD_STATE_READY s = s"
      using that t0 by (simp add: scheduler_thread_set_state_def upd_thread_def fun_upd_idem)
    with m show ?thesis by simp
  qed
  have e: "made_ready T t s s" if "th_state (threads s t) = THREAD_STATE_READY" "ready_queued (threads s t)"
    using that assms(1,3) by (auto simp: made_ready_def rq_ok_def)
  show "made_ready T t s (scheduler_wake t s)"
    using t0 assms(4) made_ready_resched [OF m] made_ready_resched [OF mb] made_ready_resched [OF r] e
    by (auto simp: scheduler_wake_def thread_get_current_def ready_thread_is_queued_def)
  show "resched_pending s \<or> \<not> (th_state (threads s t) = THREAD_STATE_READY \<and> ready_queued (threads s t)) \<Longrightarrow>
      resched_pending (scheduler_wake t s)"
    using t0 assms(4) by (auto simp: scheduler_wake_def thread_get_current_def ready_thread_is_queued_def)
  show "resched_pending (scheduler_wake t s) \<or> scheduler_wake t s = s"
    by (auto simp: scheduler_wake_def)
qed

section \<open>Wait queue operations\<close>

lemma wq_count_pos:
  assumes "wq_ok T s" "live_ok T" "t \<in> set (wq_threads (waitqs s r))"
  shows "0 < wq_count (waitqs s r)"
proof -
  have "length (wq_threads (waitqs s r)) < 2 ^ 32"
    using assms(1) by (intro short_list [OF assms(2)]) (auto simp: wq_ok_def)
  moreover have "0 < length (wq_threads (waitqs s r))" using assms(3) by (auto intro: length_pos_if_in_set)
  ultimately show ?thesis using assms(1) counter_pos(2) by (simp add: wq_ok_def)
qed

lemma length_remove1_of_nat:
  "x \<in> set xs \<Longrightarrow> (of_nat (length xs) :: 'b::ring_1) - 1 = of_nat (length (remove1 x xs))"
  using length_pos_if_in_set [of x xs] by (simp add: length_remove1 of_nat_diff [symmetric] Suc_le_eq)

text \<open>A thread leaves its wait queue: after that its owner is empty, and so is its timeout if it is disarmed too.\<close>

lemma leave_wq:
  assumes "wq_ok T s" "live_ok T" "t \<in> T" "waitq_owner (threads s t) = Some r"
    and q': "\<And>x. waitqs s' x = (if x = r then (waitqs s r)\<lparr>wq_threads := remove1 t (wq_threads (waitqs s r)),
        wq_count := wq_count (waitqs s r) - 1\<rparr> else waitqs s x)"
    and o': "\<And>x. waitq_owner (threads s' x) = (if x = t then None else waitq_owner (threads s x))"
  shows "wq_ok T s'"
proof -
  have t: "t \<in> set (wq_threads (waitqs s r))" using assms(1,3,4) by (auto simp: wq_ok_def)
  have other: "t \<notin> set (wq_threads (waitqs s q))" if "q \<noteq> r" for q
    using assms(1,3,4) that unfolding wq_ok_def by (metis option.inject)
  show ?thesis
    unfolding wq_ok_def
  proof (intro conjI allI ballI)
    fix q
    show "distinct (wq_threads (waitqs s' q))" "set (wq_threads (waitqs s' q)) \<subseteq> T"
      using assms(1) set_remove1_subset [of t "wq_threads (waitqs s r)"]
      by (auto simp: wq_ok_def q' distinct_remove1)
    show "wq_count (waitqs s' q) = of_nat (length (wq_threads (waitqs s' q)))"
      using assms(1) t by (auto simp: wq_ok_def q' length_remove1_of_nat)
    show "(waitq_owner (threads s' x) = Some q) = (x \<in> set (wq_threads (waitqs s' q)))" if "x \<in> T" for x
      using assms(1) that other [of q] by (auto simp: wq_ok_def q' o' set_remove1_eq)
  qed
qed

lemma leave_to:
  assumes "to_ok T s" "t \<in> T" "waitq_timeouts s' = remove1 t (waitq_timeouts s)"
    "waitq_timeouts_initialized s' = waitq_timeouts_initialized s"
    and "\<And>x. x \<noteq> t \<Longrightarrow> waitq_owner (threads s' x) = waitq_owner (threads s x) \<and>
      wait_timeout_armed (threads s' x) = wait_timeout_armed (threads s x) \<and>
      wait_deadline_tick (threads s' x) = wait_deadline_tick (threads s x)"
    and "\<not> wait_timeout_armed (threads s' t)"
  shows "to_ok T s'"
  unfolding to_ok_def
proof (intro conjI ballI impI)
  show "distinct (waitq_timeouts s')" "set (waitq_timeouts s') \<subseteq> T"
    using assms(1,3) set_remove1_subset [of t "waitq_timeouts s"] by (auto simp: to_ok_def distinct_remove1)
  show "wait_timeout_armed (threads s' x) = (x \<in> set (waitq_timeouts s'))" if "x \<in> T" for x
    using assms that by (cases "x = t") (auto simp: to_ok_def set_remove1_eq)
  show "wait_deadline_tick (threads s' x) \<noteq> 0" "waitq_owner (threads s' x) \<noteq> None"
    if "x \<in> T" "wait_timeout_armed (threads s' x)" for x
    using assms(1,5) assms(6) that by (cases "x = t"; fastforce simp: to_ok_def)+
  show "\<not> waitq_timeouts_initialized s' \<Longrightarrow> waitq_timeouts s' = []"
    using assms(1,3,4) by (simp add: to_ok_def)
qed

lemma remove1_absent: "t \<notin> set xs \<Longrightarrow> remove1 t xs = xs"
  by (rule remove1_idem)

lemma disarm_timeouts:
  assumes "to_ok T s" "t \<in> T" "0 \<notin> T"
  shows "waitq_timeouts (waitq_disarm_timeout t s) = remove1 t (waitq_timeouts s)"
    "\<not> wait_timeout_armed (threads (waitq_disarm_timeout t s) t)"
    "keeps_run s (waitq_disarm_timeout t s)" "keeps_misc s (waitq_disarm_timeout t s)"
  using assms by (auto simp: disarm_threads to_ok_def remove1_absent keeps_run_def keeps_misc_def)

lemma less_count_waitqs:
  "waitqs (less_count r s) = (if wq_count (waitqs s r) > 0
     then (waitqs s)(r := (waitqs s r)\<lparr>wq_count := wq_count (waitqs s r) - 1\<rparr>) else waitqs s)"
  by (simp add: less_count_def)

lemma less_count_keeps: "keeps_run s (less_count r s)" "keeps_misc s (less_count r s)"
  by (simp_all add: keeps_run_def keeps_misc_def)

lemma waitq_unlink_ok:
  assumes ok: "wq_ok T s" "to_ok T s" "live_ok T" and t: "t \<in> T" "waitq_owner (threads s t) = Some r"
  shows "wq_ok T (waitq_unlink r t s)" "to_ok T (waitq_unlink r t s)"
    "keeps_run s (waitq_unlink r t s)" "keeps_misc s (waitq_unlink r t s)"
    "waitq_owner (threads (waitq_unlink r t s) x) = (if x = t then None else waitq_owner (threads s x))"
proof -
  have t0: "t \<noteq> 0" using ok(3) t(1) by (auto simp: live_ok_def)
  have "t \<in> set (wq_threads (waitqs s r))" using ok(1) t by (auto simp: wq_ok_def)
  note pos = wq_count_pos [OF ok(1,3) this]
  have th: "threads (waitq_unlink r t s) = (threads s)(t := (threads s t)\<lparr>waitq_owner := None,
      wait_timed_out := False, wait_timeout_armed := False,
      wait_deadline_tick := (if wait_timeout_armed (threads s t) then 0 else wait_deadline_tick (threads s t))\<rparr>)"
    using t0 by (simp add: waitq_unlink_def Let_def disarm_threads fun_eq_iff)
  have wq: "waitqs (waitq_unlink r t s) x = (if x = r then (waitqs s r)\<lparr>wq_threads :=
      remove1 t (wq_threads (waitqs s r)), wq_count := wq_count (waitqs s r) - 1\<rparr> else waitqs s x)" for x
    using pos by (simp add: waitq_unlink_def Let_def less_count_waitqs)
  show "waitq_owner (threads (waitq_unlink r t s) x) = (if x = t then None else waitq_owner (threads s x))" for x
    by (simp add: th)
  show "wq_ok T (waitq_unlink r t s)"
    by (rule leave_wq [OF ok(1,3) t wq]) (simp add: th)
  show "to_ok T (waitq_unlink r t s)"
  proof (rule leave_to [OF ok(2) t(1)])
    show "waitq_timeouts (waitq_unlink r t s) = remove1 t (waitq_timeouts s)"
      using t0 t(1) ok(2) by (auto simp: waitq_unlink_def Let_def disarm_threads to_ok_def remove1_idem)
  qed (simp_all add: th, simp add: waitq_unlink_def Let_def)
  show "keeps_run s (waitq_unlink r t s)" "keeps_misc s (waitq_unlink r t s)"
    unfolding keeps_run_def keeps_misc_def th by (simp_all add: waitq_unlink_def Let_def)
qed

lemma waitq_enqueue_ok:
  assumes ok: "wq_ok T s" "to_ok T s" "live_ok T" and t: "t \<in> T" "waitq_owner (threads s t) = None"
  obtains s' where "waitq_enqueue (Some r) t s = (RDNX_OK, s')" "wq_ok T s'" "to_ok T s'"
    "keeps_run s s'" "keeps_misc s s'"
    "\<And>x. waitq_owner (threads s' x) = (if x = t then Some r else waitq_owner (threads s x))"
proof -
  have t0: "t \<noteq> 0" using ok(3) t(1) by (auto simp: live_ok_def)
  define s' where "s' = snd (waitq_enqueue (Some r) t s)"
  have e: "waitq_enqueue (Some r) t s = (RDNX_OK, s')"
    using t0 t(2) by (simp add: s'_def waitq_enqueue_def Let_def)
  have th: "threads s' = (threads s)(t := (threads s t)\<lparr>waitq_owner := Some r\<rparr>)"
    and wq: "waitqs s' = (waitqs s)(r := (waitqs s r)\<lparr>wq_threads := wq_threads (waitqs s r) @ [t],
      wq_count := wq_count (waitqs s r) + 1\<rparr>)"
    using t0 t(2) by (simp_all add: s'_def waitq_enqueue_def Let_def)
  have new: "t \<notin> set (wq_threads (waitqs s q))" for q
    using ok(1) t unfolding wq_ok_def by (metis option.distinct(1))
  have "wq_ok T s'"
    using ok(1) t new unfolding wq_ok_def th wq by (auto simp: add.commute)
  moreover have "to_ok T s'"
    using ok(2) t t0 unfolding to_ok_def th by (auto simp: s'_def waitq_enqueue_def Let_def)
  moreover have "keeps_run s s'" "keeps_misc s s'"
    using t0 t(2) unfolding keeps_run_def keeps_misc_def th
    by (simp_all add: s'_def waitq_enqueue_def Let_def)
  ultimately show thesis using e th by (intro that) auto
qed

lemma waitq_arm_ok:
  assumes ok: "wq_ok T s" "to_ok T s" "live_ok T" and t: "t \<in> T" "waitq_owner (threads s t) \<noteq> None"
  shows "wq_ok T (waitq_arm_timeout t d s)" "to_ok T (waitq_arm_timeout t d s)"
    "keeps_run s (waitq_arm_timeout t d s)" "keeps_misc s (waitq_arm_timeout t d s)"
    "waitq_owner (threads (waitq_arm_timeout t d s) x) = waitq_owner (threads s x)"
proof -
  have t0: "t \<noteq> 0" using ok(3) t(1) by (auto simp: live_ok_def)
  have init: "waitq_timeouts (waitq_timeouts_init_once s) = waitq_timeouts s"
    using ok(2) by (auto simp: waitq_timeouts_init_once_def to_ok_def)
  have ith: "threads (waitq_timeouts_init_once s) = threads s"
    by (simp add: waitq_timeouts_init_once_def)
  have th: "threads (waitq_arm_timeout t d s) = (if d = 0 then threads s else
      (threads s)(t := (threads s t)\<lparr>wait_timeout_armed := True, wait_deadline_tick := d\<rparr>))"
    using t0 by (auto simp: waitq_arm_timeout_def Let_def disarm_threads ith fun_eq_iff)
  have to: "waitq_timeouts (waitq_arm_timeout t d s) = (if d = 0 then waitq_timeouts s else
      remove1 t (waitq_timeouts s) @ [t])"
    using t0 t(1) ok(2) by (auto simp: waitq_arm_timeout_def Let_def disarm_threads init ith to_ok_def remove1_idem)
  have qs: "waitqs (waitq_arm_timeout t d s) = waitqs s"
    by (simp add: waitq_arm_timeout_def Let_def waitq_timeouts_init_once_def)
  show "waitq_owner (threads (waitq_arm_timeout t d s) x) = waitq_owner (threads s x)" for x
    by (simp add: th)
  show "wq_ok T (waitq_arm_timeout t d s)"
    using ok(1) by (subst wq_ok_cong) (auto simp: qs th)
  show "keeps_run s (waitq_arm_timeout t d s)" "keeps_misc s (waitq_arm_timeout t d s)"
    unfolding keeps_run_def keeps_misc_def th
    by (simp_all add: waitq_arm_timeout_def Let_def waitq_timeouts_init_once_def)
  show "to_ok T (waitq_arm_timeout t d s)"
  proof (cases "d = 0")
    case True
    then show ?thesis using ok(2) by (simp add: waitq_arm_timeout_def)
  next
    case False
    have "waitq_timeouts_initialized (waitq_arm_timeout t d s)"
      using t0 False by (simp add: waitq_arm_timeout_def Let_def waitq_timeouts_init_once_def)
    then show ?thesis
      using ok(2) t False unfolding to_ok_def th to by (auto simp: distinct_remove1 set_remove1_eq)
  qed
qed

section \<open>The invariant between a tick and the switch\<close>

definition core_mid :: "u64 set \<Rightarrow> 'a sched_state_scheme \<Rightarrow> bool" where
  "core_mid T s \<longleftrightarrow>
     live_ok T \<and> rq_ok T s \<and> wq_ok T s \<and> to_ok T s \<and>
     (\<forall>t \<in> set (queued s). th_state (threads s t) = THREAD_STATE_READY) \<and>
     (\<forall>t \<in> T. th_state (threads s t) = THREAD_STATE_RUNNING \<longrightarrow> t = cur_thread s) \<and>
     cur_thread s \<in> insert 0 T \<and>
     (\<forall>t \<in> T. th_state (threads s t) = THREAD_STATE_READY \<longrightarrow> t \<in> set (queued s)) \<and>
     (cur_thread s \<in> set (queued s) \<longrightarrow> resched_pending s)"

text \<open>Only threads that wait are woken, and a woken thread leaves its queue.\<close>

definition wakes :: "u64 set \<Rightarrow> 'a sched_state_scheme \<Rightarrow> 'a sched_state_scheme \<Rightarrow> bool" where
  "wakes T s s' \<longleftrightarrow> keeps_misc s s' \<and>
     (resched_pending s \<longrightarrow> resched_pending s') \<and> set (queued s) \<subseteq> set (queued s') \<and>
     (\<forall>q. set (ready_queues s ! q) \<subseteq> set (ready_queues s' ! q)) \<and>
     (\<forall>t. waitq_owner (threads s' t) = waitq_owner (threads s t) \<and>
            th_state (threads s' t) = th_state (threads s t) \<and>
            (t \<in> set (queued s') \<longrightarrow> t \<in> set (queued s)) \<and>
            wait_timeout_armed (threads s' t) = wait_timeout_armed (threads s t) \<or>
          t \<in> T \<and> waitq_owner (threads s t) \<noteq> None \<and> waitq_owner (threads s' t) = None \<and>
            th_state (threads s' t) = THREAD_STATE_READY)"

lemma wakes_refl [simp, intro]: "wakes T s s"
  by (simp add: wakes_def)

lemma wakes_trans:
  assumes "wakes T s t" "wakes T t u"
  shows "wakes T s u"
  unfolding wakes_def
proof (intro conjI allI)
  show "keeps_misc s u" using assms keeps_trans(2) unfolding wakes_def by blast
  show "resched_pending s \<longrightarrow> resched_pending u" "set (queued s) \<subseteq> set (queued u)"
    "set (ready_queues s ! q) \<subseteq> set (ready_queues u ! q)" for q
    using assms unfolding wakes_def by blast+
  fix x
  have 1: "waitq_owner (threads t x) = waitq_owner (threads s x) \<and> th_state (threads t x) = th_state (threads s x) \<and>
      (x \<in> set (queued t) \<longrightarrow> x \<in> set (queued s)) \<and>
      wait_timeout_armed (threads t x) = wait_timeout_armed (threads s x) \<or>
    x \<in> T \<and> waitq_owner (threads s x) \<noteq> None \<and> waitq_owner (threads t x) = None \<and>
      th_state (threads t x) = THREAD_STATE_READY"
    using assms(1) unfolding wakes_def by blast
  have 2: "waitq_owner (threads u x) = waitq_owner (threads t x) \<and> th_state (threads u x) = th_state (threads t x) \<and>
      (x \<in> set (queued u) \<longrightarrow> x \<in> set (queued t)) \<and>
      wait_timeout_armed (threads u x) = wait_timeout_armed (threads t x) \<or>
    x \<in> T \<and> waitq_owner (threads t x) \<noteq> None \<and> waitq_owner (threads u x) = None \<and>
      th_state (threads u x) = THREAD_STATE_READY"
    using assms(2) unfolding wakes_def by blast
  from 1 2 show "waitq_owner (threads u x) = waitq_owner (threads s x) \<and> th_state (threads u x) = th_state (threads s x) \<and>
      (x \<in> set (queued u) \<longrightarrow> x \<in> set (queued s)) \<and>
      wait_timeout_armed (threads u x) = wait_timeout_armed (threads s x) \<or>
    x \<in> T \<and> waitq_owner (threads s x) \<noteq> None \<and> waitq_owner (threads u x) = None \<and>
      th_state (threads u x) = THREAD_STATE_READY"
    by metis
qed

lemma wake_core_mid:
  assumes "core_mid T s" "t \<in> T"
  shows "core_mid T (scheduler_wake t s)" "made_ready T t s (scheduler_wake t s)"
    "resched_pending s \<Longrightarrow> resched_pending (scheduler_wake t s)"
proof -
  have pre: "rq_ok T s" "live_ok T" using assms(1) by (simp_all add: core_mid_def)
  have pre3: "t = cur_thread s \<longrightarrow> th_state (threads s t) \<noteq> THREAD_STATE_READY \<or> ready_queued (threads s t)"
    using assms pre(1) unfolding core_mid_def rq_ok_def by metis
  note w = wake_made_ready [OF pre(1,2) assms(2) pre3]
  show m: "made_ready T t s (scheduler_wake t s)" by (rule w(1))
  show r: "resched_pending s \<Longrightarrow> resched_pending (scheduler_wake t s)" using w(2) by blast
  have cur: "cur_thread (scheduler_wake t s) = cur_thread s"
    using m by (simp add: made_ready_def keeps_misc_def)
  have rs: "resched_pending (scheduler_wake t s)" if "cur_thread s \<in> insert t (set (queued s))"
  proof (cases "cur_thread s \<in> set (queued s)")
    case True
    then show ?thesis using assms(1) r by (simp add: core_mid_def)
  next
    case False
    then have "\<not> ready_queued (threads s t)" using that assms pre(1) by (auto simp: rq_ok_def)
    then show ?thesis using w(2) by blast
  qed
  have q: "set (queued (scheduler_wake t s)) = insert t (set (queued s))" "rq_ok T (scheduler_wake t s)"
    and st: "th_state (threads (scheduler_wake t s) x) = (if x = t then THREAD_STATE_READY else th_state (threads s x))"
    and kw: "keeps_wait s (scheduler_wake t s)" for x
    using m unfolding made_ready_def by blast+
  show "core_mid T (scheduler_wake t s)"
    unfolding core_mid_def cur q(1)
  proof (intro conjI ballI impI)
    show "live_ok T" "rq_ok T (scheduler_wake t s)" using pre(2) q(2) by simp_all
    show "wq_ok T (scheduler_wake t s)" "to_ok T (scheduler_wake t s)"
      using assms(1) by (simp_all add: keeps_wait_ok [OF kw] core_mid_def)
    show "cur_thread s \<in> insert 0 T" using assms(1) by (simp add: core_mid_def)
  next
    fix x assume "x \<in> insert t (set (queued s))"
    then show "th_state (threads (scheduler_wake t s) x) = THREAD_STATE_READY"
      using assms(1) unfolding core_mid_def st by auto
  next
    fix x assume x: "x \<in> T" "th_state (threads (scheduler_wake t s) x) = THREAD_STATE_RUNNING"
    then have "th_state (threads s x) = THREAD_STATE_RUNNING" unfolding st by (simp split: if_splits)
    with x(1) show "x = cur_thread s" using assms(1) unfolding core_mid_def by blast
  next
    fix x assume x: "x \<in> T" "th_state (threads (scheduler_wake t s) x) = THREAD_STATE_READY"
    then have "x = t \<or> th_state (threads s x) = THREAD_STATE_READY" unfolding st by (simp split: if_splits)
    with x(1) show "x \<in> insert t (set (queued s))" using assms(1) unfolding core_mid_def by blast
  qed (rule rs)
qed

lemma core_mid_keeps:
  assumes "core_mid T s" "keeps_run s s'" "keeps_misc s s'" "wq_ok T s'" "to_ok T s'"
  shows "core_mid T s'"
proof -
  have rq: "rq_ok T s'" "queued s' = queued s"
    using assms(1) keeps_run_rq [OF assms(2)] by (simp_all add: core_mid_def)
  have th: "th_state (threads s' t) = th_state (threads s t)" "cur_thread s' = cur_thread s"
    "resched_pending s' = resched_pending s" for t
    using assms(2,3) by (simp_all add: keeps_run_def keeps_misc_def)
  show ?thesis using assms(1,4,5) rq(1) unfolding core_mid_def rq(2) th by blast
qed

text \<open>A waiting thread is taken off its queue and off the list of timeouts, and then woken.\<close>

definition detached :: "u64 set \<Rightarrow> u64 \<Rightarrow> 'a sched_state_scheme \<Rightarrow> 'a sched_state_scheme \<Rightarrow> bool" where
  "detached T t s s' \<longleftrightarrow>
     wq_ok T s' \<and> to_ok T s' \<and> keeps_run s s' \<and> keeps_misc s s' \<and>
     (\<forall>x. waitq_owner (threads s' x) = (if x = t then None else waitq_owner (threads s x))) \<and>
     (\<forall>x. x \<noteq> t \<longrightarrow> wait_timeout_armed (threads s' x) = wait_timeout_armed (threads s x))"

lemma detached_wake:
  assumes s: "core_mid T s" and t: "t \<in> T" "waitq_owner (threads s t) \<noteq> None" and d: "detached T t s s1"
  shows "core_mid T (scheduler_wake t s1)" "wakes T s (scheduler_wake t s1)"
    "made_ready T t s1 (scheduler_wake t s1)"
proof -
  have s1: "core_mid T s1" using d by (intro core_mid_keeps [OF s]) (simp_all add: detached_def)
  note w = wake_core_mid [OF s1 t(1)]
  show "core_mid T (scheduler_wake t s1)" "made_ready T t s1 (scheduler_wake t s1)" by (fact w)+
  have q: "queued s1 = queued s" and r: "resched_pending s1 = resched_pending s"
    using d keeps_run_rq(2) by (auto simp: detached_def keeps_run_def)
  have k: "keeps_misc s (scheduler_wake t s1)"
    using d w(2) keeps_trans(2) by (auto simp: detached_def made_ready_def)
  have f: "waitq_owner (threads (scheduler_wake t s1) x) = (if x = t then None else waitq_owner (threads s x))"
    "th_state (threads (scheduler_wake t s1) x) = (if x = t then THREAD_STATE_READY else th_state (threads s x))"
    "x \<noteq> t \<Longrightarrow> wait_timeout_armed (threads (scheduler_wake t s1) x) = wait_timeout_armed (threads s x)" for x
    using d w(2) by (auto simp: detached_def made_ready_def keeps_wait_def keeps_run_def)
  show "wakes T s (scheduler_wake t s1)"
  proof -
    have set: "set (queued (scheduler_wake t s1)) = insert t (set (queued s))"
      using w(2) q by (simp add: made_ready_def)
    have rs: "resched_pending s \<longrightarrow> resched_pending (scheduler_wake t s1)" using w(3) r by simp
    have mono: "set (ready_queues s ! q) \<subseteq> set (ready_queues (scheduler_wake t s1) ! q)" for q
      using w(2) d by (simp add: made_ready_def detached_def keeps_run_def)
    show ?thesis unfolding wakes_def set f(1,2) using k rs f(3) t mono by auto
  qed
qed

lemma unlink_detached:
  assumes "core_mid T s" "t \<in> T" "waitq_owner (threads s t) = Some r"
  shows "detached T t s (waitq_unlink r t s)"
proof -
  have ok: "wq_ok T s" "to_ok T s" "live_ok T" using assms(1) by (simp_all add: core_mid_def)
  have "wait_timeout_armed (threads (waitq_unlink r t s) x) = wait_timeout_armed (threads s x)" if "x \<noteq> t" for x
    using that by (simp add: waitq_unlink_def Let_def disarm_threads)
  with waitq_unlink_ok [OF ok assms(2,3)] show ?thesis by (simp add: detached_def)
qed

lemma wq_member:
  assumes "core_mid T s" "t \<in> set (wq_threads (waitqs s r))"
  shows "t \<in> T" "t \<noteq> 0" "waitq_owner (threads s t) = Some r"
proof -
  show t: "t \<in> T" using assms by (auto simp: core_mid_def wq_ok_def)
  then show "t \<noteq> 0" "waitq_owner (threads s t) = Some r"
    using assms by (auto simp: core_mid_def wq_ok_def live_ok_def)
qed

lemma wake_one_core:
  assumes "core_mid T s"
  shows "core_mid T (snd (waitq_wake_one q s))" "wakes T s (snd (waitq_wake_one q s))"
proof -
  have "core_mid T (snd (waitq_wake_one q s)) \<and> wakes T s (snd (waitq_wake_one q s))"
  proof (cases q)
    case None
    then show ?thesis using assms by (simp add: waitq_wake_one_def waitq_dequeue_def)
  next
    case (Some r)
    show ?thesis
    proof (cases "wq_threads (waitqs s r)")
      case Nil
      then show ?thesis using assms Some by (simp add: waitq_wake_one_def waitq_dequeue_def)
    next
      case (Cons t ts)
      then have t: "t \<in> T" "t \<noteq> 0" "waitq_owner (threads s t) = Some r"
        using wq_member [OF assms, of t r] by simp_all
      have "snd (waitq_wake_one q s) = scheduler_wake t (waitq_unlink r t s)"
        using Some Cons t(2) by (simp add: waitq_wake_one_def waitq_dequeue_def)
      then show ?thesis
        using detached_wake [OF assms t(1) _ unlink_detached [OF assms t(1,3)]] t(3) by simp
    qed
  qed
  then show "core_mid T (snd (waitq_wake_one q s))" "wakes T s (snd (waitq_wake_one q s))" by simp_all
qed

lemma wake_one_front:
  assumes "core_mid T s" "wq_threads (waitqs s r) = t # ts"
  obtains s' where "waitq_wake_one (Some r) s = (t, s')" "t \<noteq> 0" "core_mid T s'" "wakes T s s'"
    "wq_threads (waitqs s' r) = ts" "\<forall>q. q \<noteq> r \<longrightarrow> waitqs s' q = waitqs s q"
proof -
  have t: "t \<in> T" "t \<noteq> 0" "waitq_owner (threads s t) = Some r"
    using wq_member [OF assms(1), of t r] assms(2) by simp_all
  define s' where "s' = scheduler_wake t (waitq_unlink r t s)"
  have e: "waitq_wake_one (Some r) s = (t, s')"
    using assms(2) t(2) by (simp add: s'_def waitq_wake_one_def waitq_dequeue_def)
  note d = detached_wake [OF assms(1) t(1) _ unlink_detached [OF assms(1) t(1,3)], folded s'_def]
  have "waitqs s' = waitqs (waitq_unlink r t s)"
    using d(3) t(3) by (simp add: made_ready_def keeps_wait_def)
  moreover have "wq_threads (waitqs (waitq_unlink r t s) r) = ts" "waitqs (waitq_unlink r t s) q = waitqs s q"
    if "q \<noteq> r" for q
    using assms(2) that by (simp_all add: waitq_unlink_def Let_def less_count_waitqs)
  moreover have "wq_threads (waitqs (waitq_unlink r t s) r) = ts"
    using assms(2) by (simp add: waitq_unlink_def Let_def less_count_waitqs)
  ultimately show thesis using d t(2,3) by (intro that [OF e]) simp_all
qed

text \<open>\<^verbatim>\<open>waitq_wake_all\<close> ends: it wakes the threads of the queue in order.\<close>

lemma wake_all_loop_ok:
  assumes "core_mid T s"
  shows "\<exists>s'. wake_all_loop r n s = Some (n + of_nat (length (wq_threads (waitqs s r))), s') \<and>
    core_mid T s' \<and> wakes T s s' \<and> wq_threads (waitqs s' r) = [] \<and> (\<forall>q. q \<noteq> r \<longrightarrow> waitqs s' q = waitqs s q)"
  using assms
proof (induction "wq_threads (waitqs s r)" arbitrary: s n)
  case Nil
  then have "waitq_wake_one (Some r) s = (0, s)" by (simp add: waitq_wake_one_def waitq_dequeue_def)
  with Nil show ?case by (subst wake_all_loop.simps) simp
next
  case (Cons t ts)
  obtain s1 where s1: "waitq_wake_one (Some r) s = (t, s1)" "t \<noteq> 0" "core_mid T s1" "wakes T s s1"
    "wq_threads (waitqs s1 r) = ts" "\<forall>q. q \<noteq> r \<longrightarrow> waitqs s1 q = waitqs s q"
    by (rule wake_one_front [OF Cons.prems Cons.hyps(2) [symmetric]])
  from Cons.hyps(1) [OF s1(5) [symmetric] s1(3), of "n + 1"] obtain s' where
    s': "wake_all_loop r (n + 1) s1 = Some (n + 1 + of_nat (length (wq_threads (waitqs s1 r))), s')"
    "core_mid T s'" "wakes T s1 s'" "wq_threads (waitqs s' r) = []" "\<forall>q. q \<noteq> r \<longrightarrow> waitqs s' q = waitqs s1 q"
    by blast
  have "wake_all_loop r n s = Some (n + of_nat (length (wq_threads (waitqs s r))), s')"
    using s1(1,2) s'(1) s1(5) Cons.hyps(2) [symmetric] by (subst wake_all_loop.simps) (simp add: ac_simps)
  with s' s1 wakes_trans [OF s1(4) s'(3)] show ?case by auto
qed

section \<open>The tick\<close>

lemma expire_ok:
  assumes s: "core_mid T s" and t: "t \<in> T" "wait_timeout_armed (threads s t)"
  shows "core_mid T (timeout_expire t s)" "wakes T s (timeout_expire t s)"
proof -
  have ok: "wq_ok T s" "to_ok T s" "live_ok T" using s by (simp_all add: core_mid_def)
  have t0: "t \<noteq> 0" using ok(3) t(1) by (auto simp: live_ok_def)
  obtain r where r: "waitq_owner (threads s t) = Some r" using ok(2) t by (auto simp: to_ok_def)
  then have "t \<in> set (wq_threads (waitqs s r))" using ok(1) t by (auto simp: wq_ok_def)
  note pos = wq_count_pos [OF ok(1,3) this]
  define u where "u = waitq_disarm_timeout t (upd_thread t (\<lambda>th. th\<lparr>wait_timed_out := True\<rparr>) s)"
  define s1 where "s1 = less_count r (upd_thread t (\<lambda>th. th\<lparr>waitq_owner := None\<rparr>)
      (upd_waitq r (\<lambda>wq. wq\<lparr>wq_threads := remove1 t (wq_threads wq)\<rparr>) u))"
  have uth: "threads u = (threads s)(t := (threads s t)\<lparr>wait_timed_out := True,
      wait_timeout_armed := False, wait_deadline_tick := 0\<rparr>)"
    using t0 t(2) by (simp add: u_def disarm_threads)
  have uq: "waitqs u = waitqs s" by (simp add: u_def)
  have th: "threads s1 = (threads s)(t := (threads s t)\<lparr>wait_timed_out := True,
      wait_timeout_armed := False, wait_deadline_tick := 0, waitq_owner := None\<rparr>)"
    by (simp add: s1_def uth)
  have e: "timeout_expire t s = scheduler_wake t s1"
    using t0 r uth by (simp add: timeout_expire_def Let_def u_def [symmetric] waitq_contains_def s1_def)
  have wq: "waitqs s1 x = (if x = r then (waitqs s r)\<lparr>wq_threads :=
      remove1 t (wq_threads (waitqs s r)), wq_count := wq_count (waitqs s r) - 1\<rparr> else waitqs s x)" for x
    using pos by (simp add: s1_def less_count_waitqs uq)
  have "wq_ok T s1" by (rule leave_wq [OF ok(1,3) t(1) r wq]) (simp add: th)
  moreover have "to_ok T s1"
    by (rule leave_to [OF ok(2) t(1)])
      (use t0 t(2) in \<open>simp_all add: th, simp_all add: s1_def u_def disarm_threads\<close>)
  moreover have "keeps_run s s1" "keeps_misc s s1"
    unfolding keeps_run_def keeps_misc_def th by (simp_all add: s1_def u_def)
  ultimately have "detached T t s s1" by (simp add: detached_def th)
  from detached_wake [OF s t(1) _ this] r
  show "core_mid T (timeout_expire t s)" "wakes T s (timeout_expire t s)" by (simp_all add: e)
qed

lemma timeout_visit_ok:
  assumes "core_mid T s" "t \<in> T"
  shows "core_mid T (timeout_visit now t s)" "wakes T s (timeout_visit now t s)"
proof -
  have "\<not> wait_timeout_armed (threads s t) \<or> wait_deadline_tick (threads s t) \<noteq> 0"
    using assms by (auto simp: core_mid_def to_ok_def)
  then show "core_mid T (timeout_visit now t s)" "wakes T s (timeout_visit now t s)"
    using assms expire_ok [OF assms] by (auto simp: timeout_visit_def waitq_disarm_timeout_def)
qed

lemma fold_visit_ok:
  assumes "core_mid T s" "set ts \<subseteq> T"
  shows "core_mid T (fold (timeout_visit now) ts s)" "wakes T s (fold (timeout_visit now) ts s)"
proof -
  have "core_mid T (fold (timeout_visit now) ts s) \<and> wakes T s (fold (timeout_visit now) ts s)"
    using assms
  proof (induction ts arbitrary: s)
    case (Cons t ts)
    from Cons.IH [of "timeout_visit now t s"] Cons.prems timeout_visit_ok [of T s t now] wakes_trans
    show ?case by (simp, blast)
  qed simp
  then show "core_mid T (fold (timeout_visit now) ts s)" "wakes T s (fold (timeout_visit now) ts s)" by simp_all
qed

lemma init_once_ok:
  assumes "core_mid T s"
  shows "core_mid T (waitq_timeouts_init_once s)" "wakes T s (waitq_timeouts_init_once s)"
    "waitq_timeouts (waitq_timeouts_init_once s) = waitq_timeouts s"
proof -
  let ?s = "waitq_timeouts_init_once s"
  show to: "waitq_timeouts ?s = waitq_timeouts s"
    using assms by (auto simp: waitq_timeouts_init_once_def core_mid_def to_ok_def)
  have k: "keeps_run s ?s" "keeps_misc s ?s"
    by (auto simp: waitq_timeouts_init_once_def keeps_run_def keeps_misc_def)
  have th: "threads ?s = threads s" "waitqs ?s = waitqs s" "resched_pending ?s = resched_pending s"
    by (auto simp: waitq_timeouts_init_once_def)
  have i: "waitq_timeouts_initialized ?s" by (simp add: waitq_timeouts_init_once_def)
  have ok: "wq_ok T s" "to_ok T s" using assms by (simp_all add: core_mid_def)
  have "wq_ok T ?s" using ok(1) by (simp add: wq_ok_def th)
  moreover have "to_ok T ?s" using ok(2) by (simp add: to_ok_def th to i)
  ultimately show "core_mid T ?s" by (rule core_mid_keeps [OF assms k])
  have "ready_queues ?s = ready_queues s" using k(1) by (simp add: keeps_run_def)
  then show "wakes T s ?s" using k keeps_run_rq(2) [OF k(1)] by (simp add: wakes_def th)
qed

lemma waitq_tick_ok:
  assumes "core_mid T s"
  shows "core_mid T (waitq_tick now s)" "wakes T s (waitq_tick now s)"
proof -
  let ?s = "waitq_timeouts_init_once s"
  note i = init_once_ok [OF assms]
  have sub: "set (waitq_timeouts ?s) \<subseteq> T" using assms i(3) by (auto simp: core_mid_def to_ok_def)
  have e: "waitq_tick now s = fold (timeout_visit now) (waitq_timeouts ?s) ?s"
    by (simp add: waitq_tick_def Let_def)
  show "core_mid T (waitq_tick now s)" unfolding e by (rule fold_visit_ok(1) [OF i(1) sub])
  show "wakes T s (waitq_tick now s)"
    unfolding e by (rule wakes_trans [OF i(2) fold_visit_ok(2) [OF i(1) sub]])
qed

lemma tick_account_keeps:
  "keeps_run s (tick_account c s)" "keeps_misc s (tick_account c s)" "keeps_wait s (tick_account c s)"
  by (auto simp: tick_account_def Let_def keeps_run_def keeps_misc_def keeps_wait_def)

lemma wakes_keeps:
  assumes "keeps_run s s'" "keeps_misc s s'" "keeps_wait s s'"
  shows "wakes T s s'"
  using assms keeps_run_rq(2) [OF assms(1)] by (simp add: wakes_def keeps_run_def keeps_wait_def)

lemma core_mid_keeps_all:
  assumes "core_mid T s" "keeps_run s s'" "keeps_misc s s'" "keeps_wait s s'"
  shows "core_mid T s'"
  using assms by (intro core_mid_keeps [OF assms(1-3)]) (auto simp: keeps_wait_ok core_mid_def)

lemma core_mid_resched:
  assumes "core_mid T s" shows "core_mid T (s\<lparr>resched_pending := True\<rparr>)"
proof -
  have "wq_ok T (s\<lparr>resched_pending := True\<rparr>) = wq_ok T s" by (rule wq_ok_cong) simp_all
  moreover have "to_ok T (s\<lparr>resched_pending := True\<rparr>) = to_ok T s" by (rule to_ok_cong) simp_all
  ultimately show ?thesis using assms by (simp add: core_mid_def resched_keeps)
qed

lemma scheduler_tick_ok:
  assumes "core_mid T s"
  shows "core_mid T (scheduler_tick s)" "wakes T s (scheduler_tick s)"
proof -
  define s1 where "s1 = s\<lparr>sched_ticks := sched_ticks s + 1\<rparr>"
  define s2 where "s2 = waitq_tick (sched_ticks s1) s1"
  define s3 where "s3 = tick_account (thread_get_current s2) s2"
  define s4 where "s4 = (if ticks_until_preempt s3 > 0 then s3\<lparr>ticks_until_preempt := ticks_until_preempt s3 - 1\<rparr> else s3)"
  have k1: "keeps_run s s1" "keeps_misc s s1" "keeps_wait s s1"
    by (simp_all add: s1_def keeps_run_def keeps_misc_def keeps_wait_def)
  have k4: "keeps_run s3 s4" "keeps_misc s3 s4" "keeps_wait s3 s4"
    by (simp_all add: s4_def keeps_run_def keeps_misc_def keeps_wait_def)
  have c1: "core_mid T s1" by (rule core_mid_keeps_all [OF assms k1])
  have c2: "core_mid T s2" "wakes T s1 s2" unfolding s2_def by (rule waitq_tick_ok [OF c1])+
  have c3: "core_mid T s3" "wakes T s2 s3"
    unfolding s3_def by (rule core_mid_keeps_all [OF c2(1) tick_account_keeps], rule wakes_keeps [OF tick_account_keeps])
  have c4: "core_mid T s4" "wakes T s3 s4"
    by (rule core_mid_keeps_all [OF c3(1) k4], rule wakes_keeps [OF k4])
  have w: "wakes T s s4"
    using wakes_keeps [OF k1] c2(2) c3(2) c4(2) wakes_trans by blast
  have e: "scheduler_tick s = (if \<not> scheduler_running s then s
      else if ticks_until_preempt s4 = 0 then s4\<lparr>ticks_until_preempt := ticks_per_slice s4, resched_pending := True\<rparr>
      else s4)"
    unfolding scheduler_tick_def Let_def s4_def s3_def s2_def s1_def by (rule refl)
  let ?s = "s4\<lparr>ticks_until_preempt := ticks_per_slice s4, resched_pending := True\<rparr>"
  have "core_mid T ?s"
    by (rule core_mid_keeps_all [OF core_mid_resched [OF c4(1)]])
      (simp_all add: keeps_run_def keeps_misc_def keeps_wait_def)
  moreover have "wakes T s ?s"
    using w by (simp add: wakes_def keeps_misc_def queued_def)
  ultimately show "core_mid T (scheduler_tick s)" "wakes T s (scheduler_tick s)"
    using assms c4(1) w by (simp_all add: e)
qed

section \<open>The switch\<close>

lemma switch_address_space_fields [simp]:
  "threads (scheduler_switch_address_space n s) = threads s"
  "waitqs (scheduler_switch_address_space n s) = waitqs s"
  "waitq_timeouts (scheduler_switch_address_space n s) = waitq_timeouts s"
  "waitq_timeouts_initialized (scheduler_switch_address_space n s) = waitq_timeouts_initialized s"
  "cur_thread (scheduler_switch_address_space n s) = cur_thread s"
  "tasks (scheduler_switch_address_space n s) = tasks s"
  "ready_queues (scheduler_switch_address_space n s) = ready_queues s"
  "ready_tasks (scheduler_switch_address_space n s) = ready_tasks s"
  "bucket_last_run_tick (scheduler_switch_address_space n s) = bucket_last_run_tick s"
  "resched_pending (scheduler_switch_address_space n s) = resched_pending s"
  "in_scheduler (scheduler_switch_address_space n s) = in_scheduler s"
  "scheduler_running (scheduler_switch_address_space n s) = scheduler_running s"
  "current_policy (scheduler_switch_address_space n s) = current_policy s"
  "sched_ticks (scheduler_switch_address_space n s) = sched_ticks s"
  "sched_state.more (scheduler_switch_address_space n s) = sched_state.more s"
  by (simp_all add: scheduler_switch_address_space_def paging_switch_pml4_def Let_def)

lemma update_tss_fields [simp]:
  "threads (scheduler_update_tss n s) = threads s" "waitqs (scheduler_update_tss n s) = waitqs s"
  "waitq_timeouts (scheduler_update_tss n s) = waitq_timeouts s" "tasks (scheduler_update_tss n s) = tasks s"
  "waitq_timeouts_initialized (scheduler_update_tss n s) = waitq_timeouts_initialized s"
  "cur_thread (scheduler_update_tss n s) = cur_thread s"
  "ready_queues (scheduler_update_tss n s) = ready_queues s"
  "ready_tasks (scheduler_update_tss n s) = ready_tasks s"
  "bucket_last_run_tick (scheduler_update_tss n s) = bucket_last_run_tick s"
  "resched_pending (scheduler_update_tss n s) = resched_pending s"
  "in_scheduler (scheduler_update_tss n s) = in_scheduler s"
  "scheduler_running (scheduler_update_tss n s) = scheduler_running s"
  "current_policy (scheduler_update_tss n s) = current_policy s"
  "sched_ticks (scheduler_update_tss n s) = sched_ticks s"
  "sched_state.more (scheduler_update_tss n s) = sched_state.more s"
  by (simp_all add: scheduler_update_tss_def)

lemma reset_timeslice_fields [simp]:
  "threads (scheduler_reset_timeslice n s) = threads s" "waitqs (scheduler_reset_timeslice n s) = waitqs s"
  "waitq_timeouts (scheduler_reset_timeslice n s) = waitq_timeouts s"
  "waitq_timeouts_initialized (scheduler_reset_timeslice n s) = waitq_timeouts_initialized s"
  "cur_thread (scheduler_reset_timeslice n s) = cur_thread s" "tasks (scheduler_reset_timeslice n s) = tasks s"
  "ready_queues (scheduler_reset_timeslice n s) = ready_queues s"
  "ready_tasks (scheduler_reset_timeslice n s) = ready_tasks s"
  "bucket_last_run_tick (scheduler_reset_timeslice n s) = bucket_last_run_tick s"
  "resched_pending (scheduler_reset_timeslice n s) = resched_pending s"
  "in_scheduler (scheduler_reset_timeslice n s) = in_scheduler s"
  "scheduler_running (scheduler_reset_timeslice n s) = scheduler_running s"
  "current_policy (scheduler_reset_timeslice n s) = current_policy s"
  "sched_ticks (scheduler_reset_timeslice n s) = sched_ticks s"
  "sched_state.more (scheduler_reset_timeslice n s) = sched_state.more s"
  by (simp_all add: scheduler_reset_timeslice_def Let_def)

lemma switch_to_fields [simp]:
  "threads (switch_to n s) = threads s" "waitqs (switch_to n s) = waitqs s"
  "waitq_timeouts (switch_to n s) = waitq_timeouts s"
  "waitq_timeouts_initialized (switch_to n s) = waitq_timeouts_initialized s"
  "cur_thread (switch_to n s) = n" "tasks (switch_to n s) = tasks s"
  "ready_queues (switch_to n s) = ready_queues s" "ready_tasks (switch_to n s) = ready_tasks s"
  "bucket_last_run_tick (switch_to n s) = bucket_last_run_tick s"
  "resched_pending (switch_to n s) = resched_pending s" "in_scheduler (switch_to n s) = in_scheduler s"
  "scheduler_running (switch_to n s) = scheduler_running s" "current_policy (switch_to n s) = current_policy s"
  "sched_ticks (switch_to n s) = sched_ticks s" "sched_state.more (switch_to n s) = sched_state.more s"
  by (simp_all add: switch_to_def thread_set_current_def task_set_current_def Let_def)

lemma set_state_fields [simp]:
  "waitqs (scheduler_thread_set_state t st s) = waitqs s"
  "waitq_timeouts (scheduler_thread_set_state t st s) = waitq_timeouts s"
  "waitq_timeouts_initialized (scheduler_thread_set_state t st s) = waitq_timeouts_initialized s"
  "cur_thread (scheduler_thread_set_state t st s) = cur_thread s"
  "tasks (scheduler_thread_set_state t st s) = tasks s"
  "ready_queues (scheduler_thread_set_state t st s) = ready_queues s"
  "ready_tasks (scheduler_thread_set_state t st s) = ready_tasks s"
  "bucket_last_run_tick (scheduler_thread_set_state t st s) = bucket_last_run_tick s"
  "resched_pending (scheduler_thread_set_state t st s) = resched_pending s"
  "in_scheduler (scheduler_thread_set_state t st s) = in_scheduler s"
  "scheduler_running (scheduler_thread_set_state t st s) = scheduler_running s"
  "current_policy (scheduler_thread_set_state t st s) = current_policy s"
  "sched_ticks (scheduler_thread_set_state t st s) = sched_ticks s"
  "sched_state.more (scheduler_thread_set_state t st s) = sched_state.more s"
  by (simp_all add: scheduler_thread_set_state_def)

lemma set_state_threads:
  "threads (scheduler_thread_set_state t st s) =
     (if t = 0 then threads s else (threads s)(t := (threads s t)\<lparr>th_state := st\<rparr>))"
  by (simp add: scheduler_thread_set_state_def)

text \<open>
  The idle thread: in the default bucket, on its run queue whenever it is not the running thread.
\<close>

definition idle_ok :: "u64 set \<Rightarrow> u64 \<Rightarrow> 'a sched_state_scheme \<Rightarrow> bool" where
  "idle_ok T i s \<longleftrightarrow> i \<in> T \<and> sched_bucket (threads s i) = 2 \<and>
     (cur_thread s = i \<and> th_state (threads s i) = THREAD_STATE_RUNNING \<or> i \<in> set (ready_queues s ! 2))"

lemma idle_index: "sched_bucket (threads s i) = 2 \<Longrightarrow> ready_queue_index_for_thread i s = 2"
  by (simp add: ready_queue_index_for_thread_def)

text \<open>The strict invariant: outside the interrupt handler the current thread is on no run queue.\<close>

definition core :: "u64 set \<Rightarrow> u64 \<Rightarrow> 'a sched_state_scheme \<Rightarrow> bool" where
  "core T i s \<longleftrightarrow> core_mid T s \<and> cur_thread s \<notin> set (queued s) \<and> \<not> in_scheduler s \<and>
     scheduler_running s \<and> idle_ok T i s"

text \<open>The part of the state that belongs to the reaper.\<close>

definition same_ring :: "'a reap_state_scheme \<Rightarrow> 'a reap_state_scheme \<Rightarrow> bool" where
  "same_ring s s' \<longleftrightarrow>
     reap_queue s' = reap_queue s \<and> reap_head s' = reap_head s \<and> reap_tail s' = reap_tail s \<and>
     (\<forall>t. reap_queued (threads s' t) = reap_queued (threads s t))"

definition ring_added :: "u64 \<Rightarrow> 'a reap_state_scheme \<Rightarrow> 'a reap_state_scheme \<Rightarrow> bool" where
  "ring_added c s s' \<longleftrightarrow>
     (reap_tail s + 1) mod 64 \<noteq> reap_head s \<and>
     reap_queue s' = (reap_queue s)[reap_tail s := c] \<and> reap_head s' = reap_head s \<and>
     reap_tail s' = (reap_tail s + 1) mod 64 \<and>
     (\<forall>t. reap_queued (threads s' t) = (t = c \<or> reap_queued (threads s t)))"

lemma more_ring:
  fixes s s' :: "'a reap_state_scheme"
  assumes "sched_state.more s' = sched_state.more s"
  shows "reap_queue s' = reap_queue s" "reap_head s' = reap_head s" "reap_tail s' = reap_tail s"
  using assms by (cases s; cases s'; simp)+

text \<open>What the switch does to the scheduler: \<open>n\<close> runs instead of \<open>c\<close>.\<close>

definition switched :: "u64 set \<Rightarrow> u64 \<Rightarrow> u64 \<Rightarrow> u64 \<Rightarrow> 'a sched_state_scheme \<Rightarrow> 'a sched_state_scheme \<Rightarrow> bool" where
  "switched T i c n s s' \<longleftrightarrow>
     rq_ok T s' \<and> keeps_wait s s' \<and> idle_ok T i s' \<and> n \<in> T \<and>
     set (queued s') = (if c \<noteq> 0 \<and> th_state (threads s c) = THREAD_STATE_RUNNING then insert c (set (queued s))
        else set (queued s)) - {n} \<and>
     (\<forall>x. th_state (threads s' x) = (if x = n then THREAD_STATE_RUNNING
        else if x = c \<and> c \<noteq> 0 \<and> th_state (threads s c) = THREAD_STATE_RUNNING then THREAD_STATE_READY
        else th_state (threads s x))) \<and>
     th_state (threads s n) \<in> {THREAD_STATE_READY, THREAD_STATE_RUNNING} \<and>
     cur_thread s' = n \<and> \<not> in_scheduler s' \<and> resched_pending s' = resched_pending s \<and>
     scheduler_running s' = scheduler_running s \<and> current_policy s' = current_policy s \<and>
     (\<forall>t. joiner (threads s' t) = joiner (threads s t) \<and> sched_bucket (threads s' t) = sched_bucket (threads s t))"

text \<open>What the switch itself needs: the request to reschedule is already cleared.\<close>

definition core_base :: "u64 set \<Rightarrow> 'a sched_state_scheme \<Rightarrow> bool" where
  "core_base T s \<longleftrightarrow>
     live_ok T \<and> rq_ok T s \<and> wq_ok T s \<and> to_ok T s \<and>
     (\<forall>t \<in> set (queued s). th_state (threads s t) = THREAD_STATE_READY) \<and>
     (\<forall>t \<in> T. th_state (threads s t) = THREAD_STATE_READY \<longrightarrow> t \<in> set (queued s)) \<and>
     (\<forall>t \<in> T. th_state (threads s t) = THREAD_STATE_RUNNING \<longrightarrow> t = cur_thread s)"

lemma core_mid_base: "core_mid T s \<Longrightarrow> core_base T s"
  unfolding core_mid_def core_base_def by blast

lemma core_baseD:
  assumes "core_base T s"
  shows "live_ok T" "rq_ok T s" "wq_ok T s" "to_ok T s"
    "t \<in> set (queued s) \<Longrightarrow> th_state (threads s t) = THREAD_STATE_READY"
    "t \<in> T \<Longrightarrow> th_state (threads s t) = THREAD_STATE_READY \<Longrightarrow> t \<in> set (queued s)"
    "t \<in> T \<Longrightarrow> th_state (threads s t) = THREAD_STATE_RUNNING \<Longrightarrow> t = cur_thread s"
  using assms unfolding core_base_def by blast+

text \<open>The state in which the next thread is chosen.\<close>

definition before_choice :: "u64 \<Rightarrow> u64 \<Rightarrow> 'a sched_state_scheme \<Rightarrow> 'a sched_state_scheme" where
  "before_choice c frame s =
     (let s = upd_thread c (\<lambda>th. th\<lparr>stack_pointer := frame\<rparr>) s
      in if th_state (threads s c) = THREAD_STATE_RUNNING
         then ready_enqueue c (scheduler_thread_set_state c THREAD_STATE_READY s) else s)"

lemma before_choice_ok:
  assumes mid: "core_base T s" and c: "c \<in> T" "cur_thread s = c" and idle: "idle_ok T i s"
  shows "rq_ok T (before_choice c frame s)" "keeps_wait s (before_choice c frame s)"
    "keeps_misc s (before_choice c frame s)" "resched_pending (before_choice c frame s) = resched_pending s"
    "set (queued (before_choice c frame s)) = (if th_state (threads s c) = THREAD_STATE_RUNNING
       then insert c (set (queued s)) else set (queued s))"
    "i \<in> set (ready_queues (before_choice c frame s) ! 2)"
    "th_state (threads (before_choice c frame s) x) =
       (if x = c \<and> th_state (threads s c) = THREAD_STATE_RUNNING then THREAD_STATE_READY else th_state (threads s x))"
proof -
  define u where "u = upd_thread c (\<lambda>th. th\<lparr>stack_pointer := frame\<rparr>) s"
  let ?b = "before_choice c frame s"
  have ok: "rq_ok T s" "live_ok T" using mid by (simp_all add: core_base_def)
  have k: "keeps_run s u" "keeps_misc s u" "keeps_wait s u"
    by (simp_all add: u_def keeps_run_def keeps_misc_def keeps_wait_def)
  have rqu: "rq_ok T u" using ok(1) keeps_run_rq(1) [OF k(1)] by simp
  have st: "th_state (threads u c) = th_state (threads s c)" by (simp add: u_def)
  have b: "?b = (if th_state (threads s c) = THREAD_STATE_RUNNING
      then ready_enqueue c (scheduler_thread_set_state c THREAD_STATE_READY u) else u)"
    by (simp add: before_choice_def Let_def u_def)
  have m: "made_ready T c s (ready_enqueue c (scheduler_thread_set_state c THREAD_STATE_READY u))"
    by (rule made_ready_enqueue [OF rqu ok(2) c(1) k(3,2,1)])
  show "rq_ok T ?b" "keeps_wait s ?b" "keeps_misc s ?b"
    using m rqu k by (auto simp: b made_ready_def)
  show "resched_pending ?b = resched_pending s" using k(1) by (simp add: b keeps_run_def)
  show "set (queued ?b) = (if th_state (threads s c) = THREAD_STATE_RUNNING
       then insert c (set (queued s)) else set (queued s))"
    using m keeps_run_rq(2) [OF k(1)] by (simp add: b made_ready_def)
  show "th_state (threads ?b x) = (if x = c \<and> th_state (threads s c) = THREAD_STATE_RUNNING
       then THREAD_STATE_READY else th_state (threads s x))"
    using m k(1) by (auto simp: b made_ready_def keeps_run_def)
  show "i \<in> set (ready_queues ?b ! 2)"
  proof (cases "i \<in> set (ready_queues s ! 2)")
    case True
    then show ?thesis using m k(1) by (auto simp: b made_ready_def keeps_run_def)
  next
    case False
    then have i: "c = i" "th_state (threads s c) = THREAD_STATE_RUNNING" "sched_bucket (threads s i) = 2"
      using idle c by (auto simp: idle_ok_def)
    have nq: "\<not> ready_queued (threads s c)"
      using mid ok(1) c(1) i(2) unfolding core_base_def rq_ok_def by (metis thread_state.distinct(11))
    have c0: "c \<noteq> 0" using c(1) ok(2) by (auto simp: live_ok_def)
    let ?v = "scheduler_thread_set_state c THREAD_STATE_READY u"
    have idx: "ready_queue_index_for_thread c ?v = 2"
      by (rule idle_index) (use i(1,3) c0 in \<open>simp add: set_state_threads u_def\<close>)
    have "\<not> ready_queued (threads ?v c)" using nq c0 by (simp add: set_state_threads u_def)
    moreover have "length (ready_queues ?v) = 4" using ok(1) by (simp add: u_def rq_ok_def)
    ultimately have "c \<in> set (ready_queues (ready_enqueue c ?v) ! 2)"
      using c0 by (simp add: enqueue_queues idx)
    then have "c \<in> set (ready_queues ?b ! 2)" using i(2) by (simp add: b)
    then show ?thesis by (simp only: i(1))
  qed
qed

lemma switch_from_eq:
  "switch_from c frame s =
     (let (n, s) = ready_dequeue (before_choice c frame s)
      in if n = 0 \<or> n = c then
           (if th_state (threads s c) \<noteq> THREAD_STATE_DEAD
            then Some (frame, (scheduler_thread_set_state c THREAD_STATE_RUNNING s)\<lparr>in_scheduler := False\<rparr>)
            else None)
         else
           let s = switch_to n s;
               s = (if th_state (threads s c) = THREAD_STATE_RUNNING
                    then scheduler_thread_set_state c THREAD_STATE_READY s else s)
           in case (if th_state (threads s c) = THREAD_STATE_DEAD
                    then scheduler_reap_enqueue c s else Some s) of
                None \<Rightarrow> None
              | Some s \<Rightarrow>
                  let s = scheduler_thread_set_state n THREAD_STATE_RUNNING s;
                      s = scheduler_reset_timeslice n s
                  in Some (stack_pointer (threads s n), s\<lparr>in_scheduler := False\<rparr>))"
  unfolding switch_from_def before_choice_def Let_def by (rule refl)

lemma reap_enqueue_spec:
  assumes "scheduler_reap_enqueue c s = Some s'" "c \<noteq> 0"
  shows "if reap_queued (threads s c) then s' = s else ring_added c s s'"
    "keeps_run s s'" "keeps_wait s s'" "cur_thread s' = cur_thread s" "in_scheduler s' = in_scheduler s"
    "scheduler_running s' = scheduler_running s" "current_policy s' = current_policy s"
    "joiner (threads s' t) = joiner (threads s t)" "sched_bucket (threads s' t) = sched_bucket (threads s t)"
proof -
  define u where "u = upd_thread c (\<lambda>th. th\<lparr>reap_after_tick := sched_ticks s + 128, reap_queued := True\<rparr>) s"
  define v where "v = u\<lparr>reap_queue := (reap_queue u)[reap_tail u := c], reap_tail := (reap_tail s + 1) mod 64,
      rs_enqueued := rs_enqueued u + 1\<rparr>"
  have u: "reap_queue u = reap_queue s" "reap_tail u = reap_tail s" "reap_head u = reap_head s"
    by (simp_all add: u_def upd_thread_def)
  have th: "threads u = (threads s)(c := (threads s c)\<lparr>reap_after_tick := sched_ticks s + 128, reap_queued := True\<rparr>)"
    by (simp add: u_def)
  have "scheduler_reap_enqueue c s = (if reap_queued (threads s c) then Some s
      else if (reap_tail s + 1) mod 64 = reap_head s then None
      else Some (if of_nat (scheduler_reap_queue_len v) > rs_queue_hwm v
        then v\<lparr>rs_queue_hwm := of_nat (scheduler_reap_queue_len v)\<rparr> else v))"
    using assms(2) unfolding scheduler_reap_enqueue_def Let_def v_def u_def by simp
  with assms(1) have cs: "reap_queued (threads s c) \<and> s' = s \<or>
      \<not> reap_queued (threads s c) \<and> (reap_tail s + 1) mod 64 \<noteq> reap_head s \<and> (\<exists>h. s' = v\<lparr>rs_queue_hwm := h\<rparr>)"
    by (auto split: if_splits) (metis reap_state.surjective reap_state.update_convs(14))+
  show "if reap_queued (threads s c) then s' = s else ring_added c s s'"
    using cs by (auto simp: ring_added_def v_def u th split: if_splits)
  have ku: "keeps_run s u" "keeps_wait s u" by (simp_all add: u_def keeps_run_def keeps_wait_def)
  have kv: "keeps_run u (v\<lparr>rs_queue_hwm := h\<rparr>)" "keeps_wait u (v\<lparr>rs_queue_hwm := h\<rparr>)" for h
    by (simp_all add: v_def keeps_run_def keeps_wait_def)
  show "keeps_run s s'" using cs keeps_trans(3) [OF ku(1) kv(1)] by blast
  show "keeps_wait s s'" using cs keeps_trans(1) [OF ku(2) kv(2)] by blast
  show "cur_thread s' = cur_thread s" "in_scheduler s' = in_scheduler s"
    "scheduler_running s' = scheduler_running s" "current_policy s' = current_policy s"
    using cs by (auto simp: v_def u_def)
  show "joiner (threads s' t) = joiner (threads s t)" "sched_bucket (threads s' t) = sched_bucket (threads s t)"
    using cs by (auto simp: v_def th)
qed

end
