(* ===== verification/SwitchInv.thy ===== *)
theory SwitchInv
  imports SchedInv
begin

text \<open>
  What the context switch of the timer interrupt does in a consistent state with an idle thread, and
  when it returns at all.
\<close>

lemma idle_after:
  assumes idle: "i \<in> set (ready_queues b ! 2)" "length (ready_queues b) = 4" "i \<in> T" "sched_bucket (threads s' i) = 2"
    and q: "q < 4" "ready_queues b ! q = n # ts" "ready_queues s' = (ready_queues b)[q := ts]"
    and n: "cur_thread s' = n" "th_state (threads s' n) = THREAD_STATE_RUNNING"
  shows "idle_ok T i s'"
proof (cases "i = n")
  case True
  with assms show ?thesis by (simp add: idle_ok_def)
next
  case False
  then have "i \<in> set (ready_queues s' ! 2)"
    using idle(1,2) q by (cases "q = 2") auto
  with assms show ?thesis by (simp add: idle_ok_def)
qed

text \<open>The end of the switch, common to all its branches.\<close>

lemma switched_intro:
  assumes mid: "core_base T s" and c: "c \<in> T" "cur_thread s = c" and idle: "idle_ok T i s"
    and d: "b = before_choice c frame s" "q < 4" "ready_queues b ! q = n # ts" "n \<in> T" "n \<in> set (queued b)"
      "rq_ok T d" "set (queued d) = set (queued b) - {n}" "ready_queues d = (ready_queues b)[q := ts]"
      "threads d = (threads b)(n := (threads b n)\<lparr>ready_queued := False\<rparr>)" "waitqs d = waitqs b"
      "waitq_timeouts d = waitq_timeouts b" "waitq_timeouts_initialized d = waitq_timeouts_initialized b"
    and s': "ready_queues s' = ready_queues d" "ready_tasks s' = ready_tasks d"
      "bucket_last_run_tick s' = bucket_last_run_tick d"
      "\<And>t. ready_queued (threads s' t) = ready_queued (threads d t)"
      "keeps_wait d s'" "cur_thread s' = n" "\<not> in_scheduler s'" "resched_pending s' = resched_pending s"
      "scheduler_running s' = scheduler_running s" "current_policy s' = current_policy s"
      "\<And>t. joiner (threads s' t) = joiner (threads d t)" "\<And>t. sched_bucket (threads s' t) = sched_bucket (threads d t)"
      "\<And>t. th_state (threads s' t) = (if t = n then THREAD_STATE_RUNNING else th_state (threads d t))"
  shows "switched T i c n s s'"
proof -
  note b = before_choice_ok [OF mid c idle, of frame, folded d(1)]
  have rq: "rq_ok T s'" "queued s' = queued d"
    using d(6) s'(1-4) by (simp_all add: rq_ok_def queued_def)
  have "keeps_wait b d" unfolding keeps_wait_def d(9) by (simp add: d(10-12))
  then have kw: "keeps_wait s s'" using b(2) s'(5) keeps_trans(1) by blast
  have bk: "joiner (threads b t) = joiner (threads s t)" "sched_bucket (threads b t) = sched_bucket (threads s t)" for t
    using b(3) by (simp_all add: keeps_misc_def)
  have io: "idle_ok T i s'"
    by (rule idle_after [OF b(6) _ _ _ d(2,3)])
      (use idle b(1) s' d bk in \<open>auto simp: idle_ok_def rq_ok_def\<close>)
  have ready: "th_state (threads b n) = THREAD_STATE_READY"
    using d(5) b(5) b(7) [of n] core_baseD(5) [OF mid, of n] by (auto split: if_splits)
  have st: "th_state (threads s n) \<in> {THREAD_STATE_READY, THREAD_STATE_RUNNING}"
    using ready b(7) [of n] by (auto split: if_splits)
  have ths: "th_state (threads s' x) = (if x = n then THREAD_STATE_RUNNING
        else if x = c \<and> th_state (threads s c) = THREAD_STATE_RUNNING then THREAD_STATE_READY
        else th_state (threads s x))" for x
    using s'(13) [of x] b(7) [of x] by (simp add: d(9))
  have c0: "c \<noteq> 0" using c(1) mid by (auto simp: core_base_def live_ok_def)
  show ?thesis
    unfolding switched_def rq(2) d(7) b(5) ths
    using c0 rq(1) kw io d(4) st s'(6-12) bk by (simp add: d(9))
qed

lemma switch_from_ok:
  fixes s :: "'a reap_state_scheme"
  assumes mid: "core_base T s" and c: "c \<in> T" "cur_thread s = c" and idle: "idle_ok T i s"
    and res: "switch_from c frame s = Some (f, s')"
  obtains n where "switched T i c n s s'"
    "if n \<noteq> c \<and> th_state (threads s c) = THREAD_STATE_DEAD \<and> \<not> reap_queued (threads s c)
     then ring_added c s s' else same_ring s s'"
proof -
  define b where "b = before_choice c frame s"
  note bo = before_choice_ok [OF mid c idle, of frame, folded b_def]
  have ok: "live_ok T" using mid by (simp add: core_base_def)
  have c0: "c \<noteq> 0" using c(1) ok by (auto simp: live_ok_def)
  have "ready_queues b ! 2 \<noteq> []" using bo(6) by auto
  then have sq: "served_queue b \<noteq> None" by (rule served_queue_default)
  have bring: "same_ring s b"
    using bo(3) more_ring [of b s] by (simp add: same_ring_def keeps_misc_def)
  show thesis
  proof (rule ready_dequeue_cases [OF bo(1) ok])
    assume "served_queue b = None" then show thesis using sq by simp
  next
    fix q n ts d
    assume d: "q < 4" "ready_queues b ! q = n # ts" "ready_dequeue b = (n, d)" "n \<in> T" "n \<noteq> 0"
      "n \<in> set (queued b)" "rq_ok T d" "set (queued d) = set (queued b) - {n}"
      "ready_queues d = (ready_queues b)[q := ts]"
      and deq: "d = b\<lparr>ready_queues := (ready_queues b)[q := ts],
        threads := (threads b)(n := (threads b n)\<lparr>ready_queued := False\<rparr>),
        ready_tasks := ready_tasks b - 1,
        bucket_last_run_tick := (bucket_last_run_tick b)[q := sched_ticks b]\<rparr>"
    have dth: "threads d = (threads b)(n := (threads b n)\<lparr>ready_queued := False\<rparr>)"
      and dw: "waitqs d = waitqs b" "waitq_timeouts d = waitq_timeouts b"
        "waitq_timeouts_initialized d = waitq_timeouts_initialized b"
      and dm: "cur_thread d = c" "resched_pending d = resched_pending s"
        "scheduler_running d = scheduler_running s" "current_policy d = current_policy s"
      using bo(3,4) c(2) by (simp_all add: deq keeps_misc_def)
    have dring: "same_ring b d" by (simp add: same_ring_def deq)
    note sw = switched_intro [OF mid c idle b_def d(1,2,4,6,7,8,9) dth dw]
    note e = switch_from_eq [of c frame s, folded b_def, unfolded d(3)]
    show thesis
    proof (cases "n = c")
      case True
      then have s': "s' = (scheduler_thread_set_state c THREAD_STATE_RUNNING d)\<lparr>in_scheduler := False\<rparr>"
        using res by (simp add: e split: if_splits)
      have th: "threads s' = (threads d)(c := (threads d c)\<lparr>th_state := THREAD_STATE_RUNNING\<rparr>)"
        using c0 by (simp add: s' set_state_threads)
      have "switched T i c n s s'"
        by (rule sw) (use True in \<open>simp_all add: keeps_wait_def th\<close>, simp_all add: s' dm True)
      moreover have "same_ring s s'"
        using bring dring by (auto simp: same_ring_def th) (auto simp: s' scheduler_thread_set_state_def upd_thread_def)
      ultimately show thesis by (intro that [of n]) (use True in auto)
    next
      case False
      define u where "u = switch_to n d"
      have uth: "threads u = threads d" by (simp add: u_def)
      have nr: "th_state (threads u c) \<noteq> THREAD_STATE_RUNNING" and cst: "th_state (threads u c) = THREAD_STATE_DEAD \<longleftrightarrow>
          th_state (threads s c) = THREAD_STATE_DEAD"
        using False bo(7) [of c] by (auto simp: uth dth)
      have w: "(if th_state (threads u c) = THREAD_STATE_RUNNING
          then scheduler_thread_set_state c THREAD_STATE_READY u else u) = u"
        using nr by simp
      have uring: "same_ring d u" using more_ring [of u d] by (simp add: same_ring_def u_def)
      obtain v where v: "(if th_state (threads u c) = THREAD_STATE_DEAD then scheduler_reap_enqueue c u else Some u) = Some v"
        and s': "s' = (scheduler_reset_timeslice n (scheduler_thread_set_state n THREAD_STATE_RUNNING v))\<lparr>in_scheduler := False\<rparr>"
        using res False d(5) unfolding e Let_def prod.case u_def [symmetric] w by (auto split: option.splits)
      have kv: "keeps_run u v" "keeps_wait u v" "cur_thread v = cur_thread u" "scheduler_running v = scheduler_running u"
        "current_policy v = current_policy u" "joiner (threads v t) = joiner (threads u t)"
        "sched_bucket (threads v t) = sched_bucket (threads u t)" for t
        using v reap_enqueue_spec [of c u v] c0 by (auto split: if_splits)
      have vring: "if th_state (threads s c) = THREAD_STATE_DEAD \<and> \<not> reap_queued (threads u c) then ring_added c u v
          else same_ring u v"
        using v reap_enqueue_spec(1) [of c u v] c0 cst by (auto simp: same_ring_def split: if_splits)
      have th: "threads s' = (threads v)(n := (threads v n)\<lparr>th_state := THREAD_STATE_RUNNING\<rparr>)"
        using d(5) by (simp add: s' set_state_threads)
      have "switched T i c n s s'"
      proof (rule sw)
        show "keeps_wait d s'"
          using kv(2) by (simp add: keeps_wait_def th uth) (simp add: s' u_def)
        show "ready_queued (threads s' t) = ready_queued (threads d t)"
          "joiner (threads s' t) = joiner (threads d t)" "sched_bucket (threads s' t) = sched_bucket (threads d t)"
          "th_state (threads s' t) = (if t = n then THREAD_STATE_RUNNING else th_state (threads d t))" for t
          using kv(1,6,7) by (auto simp: th keeps_run_def uth)
      qed (use kv in \<open>simp_all add: s' u_def keeps_run_def dm\<close>)
      moreover have "if th_state (threads s c) = THREAD_STATE_DEAD \<and> \<not> reap_queued (threads s c)
          then ring_added c s s' else same_ring s s'"
      proof -
        have sv: "reap_queue s' = reap_queue v" "reap_head s' = reap_head v" "reap_tail s' = reap_tail v"
          using more_ring [of s' v] by (simp_all add: s')
        have su: "same_ring s u" using bring dring uring by (simp add: same_ring_def)
        have rq: "reap_queued (threads s' t) = reap_queued (threads v t)" for t by (simp add: th)
        show ?thesis
          using vring su unfolding same_ring_def ring_added_def sv rq by (auto split: if_splits)
      qed
      ultimately show thesis by (intro that [of n]) (use False in auto)
    qed
  qed
qed

text \<open>The switch fails only when a dead thread finds the queue of the reaper full.\<close>

lemma switch_from_returns:
  fixes s :: "'a reap_state_scheme"
  assumes mid: "core_base T s" and c: "c \<in> T" "cur_thread s = c" and idle: "idle_ok T i s"
    and room: "th_state (threads s c) = THREAD_STATE_DEAD \<longrightarrow> reap_queued (threads s c) \<or>
      (reap_tail s + 1) mod 64 \<noteq> reap_head s"
  shows "switch_from c frame s \<noteq> None"
proof -
  define b where "b = before_choice c frame s"
  note bo = before_choice_ok [OF mid c idle, of frame, folded b_def]
  have ok: "live_ok T" using mid by (simp add: core_base_def)
  have c0: "c \<noteq> 0" using c(1) ok by (auto simp: live_ok_def)
  have "ready_queues b ! 2 \<noteq> []" using bo(6) by auto
  then have sq: "served_queue b \<noteq> None" by (rule served_queue_default)
  have br: "reap_head b = reap_head s" "reap_tail b = reap_tail s"
    and bq: "reap_queued (threads b c) = reap_queued (threads s c)"
    using bo(3) more_ring [of b s] by (simp_all add: keeps_misc_def)
  show ?thesis
  proof (rule ready_dequeue_cases [OF bo(1) ok])
    assume "served_queue b = None" then show ?thesis using sq by simp
  next
    fix q n ts d
    assume d: "ready_dequeue b = (n, d)" "n \<in> set (queued b)"
      and deq: "d = b\<lparr>ready_queues := (ready_queues b)[q := ts],
        threads := (threads b)(n := (threads b n)\<lparr>ready_queued := False\<rparr>),
        ready_tasks := ready_tasks b - 1,
        bucket_last_run_tick := (bucket_last_run_tick b)[q := sched_ticks b]\<rparr>"
    note e = switch_from_eq [of c frame s, folded b_def, unfolded d(1)]
    have ready: "th_state (threads b n) = THREAD_STATE_READY"
      using d(2) bo(5) bo(7) [of n] core_baseD(5) [OF mid, of n] by (auto split: if_splits)
    show ?thesis
    proof (cases "n = c \<or> n = 0")
      case True
      have "th_state (threads d c) \<noteq> THREAD_STATE_DEAD"
      proof (cases "n = c")
        case True then show ?thesis using ready by (simp add: deq)
      next
        case False
        then have "n = 0" using \<open>n = c \<or> n = 0\<close> by simp
        moreover have "n \<in> T" using d(2) bo(1) by (auto simp: rq_ok_def)
        ultimately show ?thesis using ok by (simp add: live_ok_def)
      qed
      then show ?thesis using True by (auto simp: e)
    next
      case False
      define u where "u = switch_to n d"
      have uth: "threads u = threads d" by (simp add: u_def)
      have nr: "th_state (threads u c) \<noteq> THREAD_STATE_RUNNING"
        using False bo(7) [of c] by (auto simp: uth deq)
      have w: "(if th_state (threads u c) = THREAD_STATE_RUNNING
          then scheduler_thread_set_state c THREAD_STATE_READY u else u) = u"
        using nr by simp
      have ur: "reap_head u = reap_head s" "reap_tail u = reap_tail s" "reap_queued (threads u c) = reap_queued (threads s c)"
        using more_ring [of u d] br bq False by (auto simp: u_def deq)
      have "th_state (threads u c) = THREAD_STATE_DEAD \<Longrightarrow> scheduler_reap_enqueue c u \<noteq> None"
        using room ur c0 bo(7) [of c] False by (auto simp: scheduler_reap_enqueue_def Let_def uth deq split: if_splits)
      then show ?thesis
        using False unfolding e Let_def prod.case u_def [symmetric] w by (auto split: option.split)
    qed
  qed
qed

text \<open>The first switch, when no thread is current.\<close>

lemma switch_first_ok:
  fixes s :: "'a reap_state_scheme"
  assumes mid: "core_base T s" and c: "cur_thread s = 0" and idle: "idle_ok T i s"
  obtains n f s' where "switch_first s = Some (f, s')" "switched T i 0 n s s'" "same_ring s s'"
proof -
  have ok: "live_ok T" "rq_ok T s" using mid by (simp_all add: core_base_def)
  have i: "i \<in> set (ready_queues s ! 2)" "i \<in> T" "sched_bucket (threads s i) = 2"
    using idle c ok(1) by (auto simp: idle_ok_def live_ok_def)
  have sq: "served_queue s \<noteq> None" using i(1) by (intro served_queue_default) auto
  show thesis
  proof (rule ready_dequeue_cases [OF ok(2,1)])
    assume "served_queue s = None" then show thesis using sq by simp
  next
    fix q n ts d
    assume d: "q < 4" "ready_queues s ! q = n # ts" "ready_dequeue s = (n, d)" "n \<in> T" "n \<noteq> 0"
      "n \<in> set (queued s)" "rq_ok T d" "set (queued d) = set (queued s) - {n}"
      "ready_queues d = (ready_queues s)[q := ts]"
      and deq: "d = s\<lparr>ready_queues := (ready_queues s)[q := ts],
        threads := (threads s)(n := (threads s n)\<lparr>ready_queued := False\<rparr>),
        ready_tasks := ready_tasks s - 1,
        bucket_last_run_tick := (bucket_last_run_tick s)[q := sched_ticks s]\<rparr>"
    define s' where "s' = (scheduler_reset_timeslice n (scheduler_thread_set_state n THREAD_STATE_RUNNING
        (switch_to n d)))\<lparr>in_scheduler := False\<rparr>"
    have e: "switch_first s = Some (stack_pointer (threads s' n), s')"
      using d(5) by (simp add: switch_first_def d(3) Let_def s'_def)
    have th: "threads s' = (threads d)(n := (threads d n)\<lparr>th_state := THREAD_STATE_RUNNING\<rparr>)"
      using d(5) by (simp add: s'_def set_state_threads)
    have rq: "rq_ok T s'" "queued s' = queued d"
      using d(7) unfolding rq_ok_def queued_def by (simp_all add: th) (simp_all add: s'_def)
    have ready: "th_state (threads s n) = THREAD_STATE_READY" using mid d(6) by (simp add: core_base_def)
    have len: "length (ready_queues s) = 4" using ok(2) by (simp add: rq_ok_def)
    have bk: "sched_bucket (threads s' t) = sched_bucket (threads s t)" "joiner (threads s' t) = joiner (threads s t)" for t
      by (simp_all add: th deq)
    have sn: "cur_thread s' = n" "th_state (threads s' n) = THREAD_STATE_RUNNING" "ready_queues s' = ready_queues d"
      "resched_pending s' = resched_pending s" "scheduler_running s' = scheduler_running s"
      "current_policy s' = current_policy s" "\<not> in_scheduler s'"
      by (simp_all add: th) (simp_all add: s'_def deq)
    have io: "idle_ok T i s'"
      by (rule idle_after [OF i(1) len i(2) _ d(1,2)]) (use i(3) d(9) sn bk in simp_all)
    have kw: "keeps_wait s s'" unfolding keeps_wait_def by (simp add: th deq) (simp add: s'_def deq)
    have st: "th_state (threads s' x) = (if x = n then THREAD_STATE_RUNNING else th_state (threads s x))" for x
      by (simp add: th deq)
    have "switched T i 0 n s s'"
      unfolding switched_def rq(2) st using rq(1) kw io d(4,8) ready sn bk by simp
    moreover have "same_ring s s'"
      using more_ring [of s' d] by (simp add: same_ring_def th) (simp add: s'_def deq)
    ultimately show thesis using e by (intro that [of _ s' n])
  qed
qed

lemma switched_core:
  assumes "core_base T s" "switched T i c n s s'" "scheduler_running s" "c = cur_thread s" "c \<in> insert 0 T"
  shows "core T i s'"
proof -
  have w: "wq_ok T s'" "to_ok T s'"
    using assms(1,2) keeps_wait_ok [of s s' T] by (auto simp: core_base_def switched_def)
  have n: "n \<in> T" "n \<notin> set (queued s')" "cur_thread s' = n" "rq_ok T s'" "\<not> in_scheduler s'"
    "scheduler_running s'" "idle_ok T i s'"
    using assms(2,3) unfolding switched_def by simp_all
  have st: "th_state (threads s' x) = (if x = n then THREAD_STATE_RUNNING
      else if x = c \<and> c \<noteq> 0 \<and> th_state (threads s c) = THREAD_STATE_RUNNING then THREAD_STATE_READY
      else th_state (threads s x))" for x
    using assms(2) unfolding switched_def by blast
  have live: "live_ok T" using assms(1) by (simp add: core_base_def)
  have q: "th_state (threads s' t) = THREAD_STATE_READY" if "t \<in> set (queued s')" for t
  proof -
    have "t \<noteq> n" using that n(2) by blast
    moreover have "t = c \<and> c \<noteq> 0 \<and> th_state (threads s c) = THREAD_STATE_RUNNING \<or> t \<in> set (queued s)"
      using that assms(2) unfolding switched_def by (auto split: if_splits)
    ultimately show ?thesis using core_baseD(5) [OF assms(1), of t] st [of t] by auto
  qed
  have rd: "t \<in> set (queued s')" if t: "t \<in> T" "th_state (threads s' t) = THREAD_STATE_READY" for t
  proof -
    have "t \<noteq> n" using t(2) st [of t] by auto
    moreover have "t = c \<and> c \<noteq> 0 \<and> th_state (threads s c) = THREAD_STATE_RUNNING \<or> t \<in> set (queued s)"
      using t st [of t] core_baseD(6) [OF assms(1) t(1)] calculation by (auto split: if_splits)
    ultimately show ?thesis using assms(2) unfolding switched_def by auto
  qed
  have r: "t = n" if t: "t \<in> T" "th_state (threads s' t) = THREAD_STATE_RUNNING" for t
  proof (rule ccontr)
    assume "t \<noteq> n"
    with t(2) st [of t] have "th_state (threads s t) = THREAD_STATE_RUNNING"
      "\<not> (t = c \<and> c \<noteq> 0 \<and> th_state (threads s c) = THREAD_STATE_RUNNING)" by (auto split: if_splits)
    moreover from this(1) have "t = c" using core_baseD(7) [OF assms(1) t(1)] assms(4) by simp
    ultimately show False using t(1) live by (simp add: live_ok_def)
  qed
  have rn: "th_state (threads s' n) = THREAD_STATE_RUNNING" using st [of n] by simp
  show ?thesis
    unfolding core_def core_mid_def n(3)
  proof (intro conjI ballI impI)
    show "th_state (threads s' t) = THREAD_STATE_READY" if "t \<in> set (queued s')" for t by (rule q [OF that])
    show "t = n" if "t \<in> T" "th_state (threads s' t) = THREAD_STATE_RUNNING" for t by (rule r [OF that])
    show "t \<in> set (queued s')" if "t \<in> T" "th_state (threads s' t) = THREAD_STATE_READY" for t by (rule rd [OF that])
  qed (use n live rn w in simp_all)
qed

end
