(* ===== verification/SchedSys.thy ===== *)
theory SchedSys
  imports SwitchInv VmFrame
begin

text \<open>
  The scheduler as a system of interleaved steps. Every live thread is at a position of the code that
  calls the scheduler; the current thread executes the next piece of it, and the timer interrupt may
  come between any two pieces. The code runs with interrupts enabled: \<^verbatim>\<open>waitq_wait_until\<close> and the
  shell's \<^verbatim>\<open>run\<close> command do not mask them.
\<close>

section \<open>Positions and steps\<close>

text \<open>
  \<open>Wait_test\<close> is before the test of the loop in \<^verbatim>\<open>waitq_wait_until\<close>, \<open>Wait_block\<close> before \<^verbatim>\<open>scheduler_block\<close>
  and \<open>Wait_int\<close> before \<^verbatim>\<open>int $32\<close>. The shell's \<^verbatim>\<open>run\<close> records itself as the joiner of a new thread and
  blocks, then adds the thread (\<open>Join_add\<close>), executes \<^verbatim>\<open>int $32\<close> (\<open>Join_int\<close>) and returns (\<open>Join_done\<close>).
\<close>

datatype pc =
    Fresh | Free | Wait_test waitq_ref | Wait_block waitq_ref | Wait_int waitq_ref
  | Join_add u64 | Join_int u64 | Join_done u64 | Gone

type_synonym 'a sys = "u64 set \<times> (u64 \<Rightarrow> pc) \<times> 'a reap_state_scheme"

text \<open>What the release of a file descriptor leaves alone.\<close>

definition same_sched :: "'a reap_state_scheme \<Rightarrow> 'a reap_state_scheme \<Rightarrow> bool" where
  "same_sched s s' \<longleftrightarrow>
     threads s' = threads s \<and> waitqs s' = waitqs s \<and> waitq_timeouts s' = waitq_timeouts s \<and>
     waitq_timeouts_initialized s' = waitq_timeouts_initialized s \<and> cur_thread s' = cur_thread s \<and>
     ready_queues s' = ready_queues s \<and> ready_tasks s' = ready_tasks s \<and>
     bucket_last_run_tick s' = bucket_last_run_tick s \<and> resched_pending s' = resched_pending s \<and>
     in_scheduler s' = in_scheduler s \<and> scheduler_running s' = scheduler_running s \<and>
     current_policy s' = current_policy s \<and> sched_ticks s' = sched_ticks s \<and>
     reap_queue s' = reap_queue s \<and> reap_head s' = reap_head s \<and> reap_tail s' = reap_tail s"

definition keeps_sched :: "(u64 \<Rightarrow> nat \<Rightarrow> 'a reap_state_scheme \<Rightarrow> 'a reap_state_scheme option) \<Rightarrow> bool" where
  "keeps_sched release \<longleftrightarrow> (\<forall>task fd s s'. release task fd s = Some s' \<longrightarrow> same_sched s s')"

definition acts :: "(u64 \<Rightarrow> pc) \<Rightarrow> 'a reap_state_scheme \<Rightarrow> bool" where
  "acts p s \<longleftrightarrow> cur_thread s \<noteq> 0 \<and> p (cur_thread s) = Free"

inductive sys_step :: "(u64 \<Rightarrow> nat \<Rightarrow> 'a reap_state_scheme \<Rightarrow> 'a reap_state_scheme option) \<Rightarrow> u64
    \<Rightarrow> 'a sys \<Rightarrow> 'a sys \<Rightarrow> bool" for release i where
  irq: "frame \<noteq> 0 \<Longrightarrow> timer_irq frame s = Some (f, s') \<Longrightarrow> sys_step release i (T, p, s) (T, p, s')"
| wait: "acts p s \<Longrightarrow> c = cur_thread s \<Longrightarrow> c \<noteq> i \<Longrightarrow> wait_until_enter (Some q) d s = (Inr (), s') \<Longrightarrow>
    sys_step release i (T, p, s) (T, p(c := Wait_test q), s')"
| wait_again: "c = cur_thread s \<Longrightarrow> c \<noteq> 0 \<Longrightarrow> p c = Wait_test q \<Longrightarrow> wait_until_continues (Some q) c s \<Longrightarrow>
    sys_step release i (T, p, s) (T, p(c := Wait_block q), s)"
| wait_leave: "c = cur_thread s \<Longrightarrow> c \<noteq> 0 \<Longrightarrow> p c = Wait_test q \<Longrightarrow> \<not> wait_until_continues (Some q) c s \<Longrightarrow>
    wait_until_leave c s = (rc, s') \<Longrightarrow> sys_step release i (T, p, s) (T, p(c := Free), s')"
| wait_block: "c = cur_thread s \<Longrightarrow> c \<noteq> 0 \<Longrightarrow> p c = Wait_block q \<Longrightarrow>
    sys_step release i (T, p, s) (T, p(c := Wait_int q), scheduler_block s)"
| wait_int: "c = cur_thread s \<Longrightarrow> c \<noteq> 0 \<Longrightarrow> p c = Wait_int q \<Longrightarrow> frame \<noteq> 0 \<Longrightarrow> timer_irq frame s = Some (f, s') \<Longrightarrow>
    sys_step release i (T, p, s) (T, p(c := Wait_test q), s')"
| wake_one: "acts p s \<Longrightarrow> waitq_wake_one q s = (t, s') \<Longrightarrow> sys_step release i (T, p, s) (T, p, s')"
| wake_all: "acts p s \<Longrightarrow> waitq_wake_all q s = Some (n, s') \<Longrightarrow> sys_step release i (T, p, s) (T, p, s')"
| yield: "acts p s \<Longrightarrow> sys_step release i (T, p, s) (T, p, scheduler_yield s)"
| set_policy: "acts p s \<Longrightarrow> scheduler_set_policy k s = (rc, s') \<Longrightarrow> sys_step release i (T, p, s) (T, p, s')"
| set_bucket: "acts p s \<Longrightarrow> t \<noteq> i \<Longrightarrow> sys_step release i (T, p, s) (T, p, scheduler_set_bucket t b s)"
| set_priority: "acts p s \<Longrightarrow> sys_step release i (T, p, s) (T, p, scheduler_set_priority t prio s)"
| inherit: "acts p s \<Longrightarrow> sys_step release i (T, p, s) (T, p, scheduler_inherit_priority t d s)"
| clear_inherit: "acts p s \<Longrightarrow> sys_step release i (T, p, s) (T, p, scheduler_clear_inherit t s)"
| create: "acts p s \<Longrightarrow> thread_create task entry arg s = Some (t, s') \<Longrightarrow> t \<noteq> 0 \<Longrightarrow> t \<notin> T \<Longrightarrow>
    card (insert t T) < 2 ^ 32 \<Longrightarrow> sys_step release i (T, p, s) (insert t T, p(t := Fresh), s')"
| clone: "acts p s \<Longrightarrow> thread_create_user_clone task frame s = Some (t, s') \<Longrightarrow> t \<noteq> 0 \<Longrightarrow> t \<notin> T \<Longrightarrow>
    card (insert t T) < 2 ^ 32 \<Longrightarrow> sys_step release i (T, p, s) (insert t T, p(t := Fresh), s')"
| add: "acts p s \<Longrightarrow> t \<in> T \<Longrightarrow> p t = Fresh \<Longrightarrow> joiner (threads s t) = 0 \<Longrightarrow> scheduler_add_thread t s = (rc, s') \<Longrightarrow>
    sys_step release i (T, p, s) (T, p(t := Free), s')"
| join: "acts p s \<Longrightarrow> c = cur_thread s \<Longrightarrow> c \<noteq> i \<Longrightarrow> t \<in> T \<Longrightarrow> p t = Fresh \<Longrightarrow> joiner (threads s t) = 0 \<Longrightarrow>
    sys_step release i (T, p, s)
      (T, p(c := Join_add t), scheduler_block (upd_thread t (\<lambda>th. th\<lparr>joiner := c\<rparr>) s))"
| join_add: "c = cur_thread s \<Longrightarrow> c \<noteq> 0 \<Longrightarrow> p c = Join_add t \<Longrightarrow> scheduler_add_thread t s = (rc, s') \<Longrightarrow>
    sys_step release i (T, p, s) (T, p(c := Join_int t, t := Free), s')"
| join_int: "c = cur_thread s \<Longrightarrow> c \<noteq> 0 \<Longrightarrow> p c = Join_int t \<Longrightarrow> frame \<noteq> 0 \<Longrightarrow> timer_irq frame s = Some (f, s') \<Longrightarrow>
    sys_step release i (T, p, s) (T, p(c := Join_done t), s')"
| join_done: "c = cur_thread s \<Longrightarrow> c \<noteq> 0 \<Longrightarrow> p c = Join_done t \<Longrightarrow>
    sys_step release i (T, p, s) (T, p(c := Free), s)"
| exit: "acts p s \<Longrightarrow> c = cur_thread s \<Longrightarrow> c \<noteq> i \<Longrightarrow>
    sys_step release i (T, p, s) (T, p(c := Gone), scheduler_exit_current s)"
| reap: "acts p s \<Longrightarrow> scheduler_reap_peek s = t \<Longrightarrow> t \<noteq> 0 \<Longrightarrow> \<not> reap_after_tick (threads s t) > sched_ticks s \<Longrightarrow>
    scheduler_reap_dequeue s = (t, u) \<Longrightarrow> reap_thread release t u = Some s' \<Longrightarrow>
    sys_step release i (T, p, s) (T - {t}, p, s')"

section \<open>The queue of the reaper\<close>

definition ring_ok :: "'a reap_state_scheme \<Rightarrow> bool" where
  "ring_ok s \<longleftrightarrow> length (reap_queue s) = 64 \<and> reap_head s < 64 \<and> reap_tail s < 64"

definition reap_list :: "'a reap_state_scheme \<Rightarrow> u64 list" where
  "reap_list s = map (\<lambda>k. reap_queue s ! ((reap_head s + k) mod 64)) [0..<scheduler_reap_queue_len s]"

definition ring_inv :: "u64 set \<Rightarrow> 'a reap_state_scheme \<Rightarrow> bool" where
  "ring_inv T s \<longleftrightarrow> ring_ok s \<and> distinct (reap_list s) \<and> set (reap_list s) \<subseteq> T \<and>
     (\<forall>t \<in> T. reap_queued (threads s t) \<longleftrightarrow> t \<in> set (reap_list s)) \<and>
     (\<forall>t \<in> set (reap_list s). th_state (threads s t) = THREAD_STATE_DEAD \<and> t \<noteq> cur_thread s) \<and>
     (\<forall>t \<in> T. th_state (threads s t) = THREAD_STATE_DEAD \<longrightarrow> t = cur_thread s \<or> t \<in> set (reap_list s))"

section \<open>The invariant of the positions\<close>

definition pcs_ok :: "u64 set \<Rightarrow> (u64 \<Rightarrow> pc) \<Rightarrow> u64 \<Rightarrow> 'a reap_state_scheme \<Rightarrow> bool" where
  "pcs_ok T p i s \<longleftrightarrow>
     (\<forall>t \<in> T. th_state (threads s t) = THREAD_STATE_DEAD \<longleftrightarrow> p t = Gone) \<and>
     (\<forall>t \<in> T. th_state (threads s t) = THREAD_STATE_NEW \<longleftrightarrow> p t = Fresh) \<and>
     (\<forall>t \<in> T. th_state (threads s t) \<noteq> THREAD_STATE_SLEEPING) \<and>
     (\<forall>t \<in> T. \<forall>q. waitq_owner (threads s t) = Some q \<longrightarrow> p t \<in> {Wait_test q, Wait_block q, Wait_int q}) \<and>
     (\<forall>t \<in> T. th_state (threads s t) = THREAD_STATE_BLOCKED \<longrightarrow>
        (\<exists>q. p t \<in> {Wait_test q, Wait_int q}) \<or> (\<exists>c. p t \<in> {Join_add c, Join_int c, Join_done c})) \<and>
     (\<forall>t \<in> T. joiner (threads s t) \<noteq> 0 \<longrightarrow> joiner (threads s t) \<in> T \<and>
        p (joiner (threads s t)) \<in> {Join_add t, Join_int t, Join_done t} \<and>
        th_state (threads s (joiner (threads s t))) = THREAD_STATE_BLOCKED \<and> p t \<noteq> Gone) \<and>
     (\<forall>c \<in> T. \<forall>t. p c = Join_add t \<longrightarrow> t \<in> T \<and> p t = Fresh \<and> joiner (threads s t) = c) \<and>
     p i = Free"

text \<open>The current thread runs, unless it has just blocked or exited and the switch is due.\<close>

definition cur_ok :: "u64 set \<Rightarrow> (u64 \<Rightarrow> pc) \<Rightarrow> 'a reap_state_scheme \<Rightarrow> bool" where
  "cur_ok T p s \<longleftrightarrow> cur_thread s \<in> T \<and>
     (th_state (threads s (cur_thread s)) = THREAD_STATE_RUNNING \<or>
      resched_pending s \<and>
       (th_state (threads s (cur_thread s)) = THREAD_STATE_DEAD \<or>
        th_state (threads s (cur_thread s)) = THREAD_STATE_BLOCKED \<and>
          ((\<exists>q. p (cur_thread s) = Wait_int q) \<or> (\<exists>t. p (cur_thread s) \<in> {Join_add t, Join_int t}))))"

fun sys_ok :: "u64 \<Rightarrow> 'a sys \<Rightarrow> bool" where
  "sys_ok i (T, p, s) \<longleftrightarrow> core T i s \<and> pcs_ok T p i s \<and> cur_ok T p s \<and> ring_inv T s"

section \<open>Wake-ups and switches keep the invariant\<close>

lemma wakes_thread:
  assumes "wakes T s s'"
  shows "joiner (threads s' t) = joiner (threads s t)" "reap_queued (threads s' t) = reap_queued (threads s t)"
    "cur_thread s' = cur_thread s" "sched_state.more s' = sched_state.more s" "in_scheduler s' = in_scheduler s"
    "scheduler_running s' = scheduler_running s" "sched_bucket (threads s' t) = sched_bucket (threads s t)"
    "waitq_owner (threads s' t) = Some q \<Longrightarrow> waitq_owner (threads s t) = Some q"
    "waitq_owner (threads s t) = None \<Longrightarrow> th_state (threads s' t) = th_state (threads s t)"
    "th_state (threads s' t) = th_state (threads s t) \<or> th_state (threads s' t) = THREAD_STATE_READY \<and>
       waitq_owner (threads s t) \<noteq> None"
    "resched_pending s \<Longrightarrow> resched_pending s'"
    "set (ready_queues s ! k) \<subseteq> set (ready_queues s' ! k)" "set (queued s) \<subseteq> set (queued s')"
  using assms unfolding wakes_def keeps_misc_def by (blast | metis option.distinct(1))+

lemma pcs_okD:
  assumes "pcs_ok T p i s" "t \<in> T"
  shows "th_state (threads s t) = THREAD_STATE_DEAD \<longleftrightarrow> p t = Gone"
    "th_state (threads s t) = THREAD_STATE_NEW \<longleftrightarrow> p t = Fresh"
    "th_state (threads s t) \<noteq> THREAD_STATE_SLEEPING"
    "waitq_owner (threads s t) = Some q \<Longrightarrow> p t \<in> {Wait_test q, Wait_block q, Wait_int q}"
    "th_state (threads s t) = THREAD_STATE_BLOCKED \<Longrightarrow>
       (\<exists>q. p t \<in> {Wait_test q, Wait_int q}) \<or> (\<exists>c. p t \<in> {Join_add c, Join_int c, Join_done c})"
    "joiner (threads s t) \<noteq> 0 \<Longrightarrow> joiner (threads s t) \<in> T \<and>
       p (joiner (threads s t)) \<in> {Join_add t, Join_int t, Join_done t} \<and>
       th_state (threads s (joiner (threads s t))) = THREAD_STATE_BLOCKED \<and> p t \<noteq> Gone"
    "p t = Join_add c \<Longrightarrow> c \<in> T \<and> p c = Fresh \<and> joiner (threads s c) = t"
    "p i = Free"
  using assms unfolding pcs_ok_def by blast+

text \<open>A thread that waits is neither dead nor new, and no joiner.\<close>

lemma pcs_waiting:
  assumes "pcs_ok T p i s" "t \<in> T" "waitq_owner (threads s t) \<noteq> None"
  shows "th_state (threads s t) \<noteq> THREAD_STATE_DEAD" "th_state (threads s t) \<noteq> THREAD_STATE_NEW"
    "\<exists>q. p t \<in> {Wait_test q, Wait_block q, Wait_int q}"
proof -
  note d = pcs_okD [OF assms(1,2)]
  from assms(3) obtain q where "p t \<in> {Wait_test q, Wait_block q, Wait_int q}" using d(4) by auto
  then show "\<exists>q. p t \<in> {Wait_test q, Wait_block q, Wait_int q}"
    "th_state (threads s t) \<noteq> THREAD_STATE_DEAD" "th_state (threads s t) \<noteq> THREAD_STATE_NEW"
    using d(1,2) by auto
qed

lemma wakes_states:
  assumes w: "wakes T s s'" and p: "pcs_ok T p i s" and t: "t \<in> T"
  shows "th_state (threads s' t) = THREAD_STATE_DEAD \<longleftrightarrow> th_state (threads s t) = THREAD_STATE_DEAD"
    "th_state (threads s' t) = THREAD_STATE_NEW \<longleftrightarrow> th_state (threads s t) = THREAD_STATE_NEW"
    "th_state (threads s' t) = THREAD_STATE_BLOCKED \<Longrightarrow> th_state (threads s t) = THREAD_STATE_BLOCKED"
    "th_state (threads s' t) = THREAD_STATE_SLEEPING \<Longrightarrow> th_state (threads s t) = THREAD_STATE_SLEEPING"
    "th_state (threads s' t) = THREAD_STATE_RUNNING \<Longrightarrow> th_state (threads s t) = THREAD_STATE_RUNNING"
  using wakes_thread(10) [OF w, of t] pcs_waiting(1,2) [OF p t] by auto

lemma pcs_wakes:
  assumes w: "wakes T s s'" and p: "pcs_ok T p i s"
  shows "pcs_ok T p i s'"
proof -
  note st = wakes_states [OF w p] and th = wakes_thread [OF w]
  have j: "th_state (threads s' c) = THREAD_STATE_BLOCKED"
    if "th_state (threads s c) = THREAD_STATE_BLOCKED" "c \<in> T" "\<exists>t. p c \<in> {Join_add t, Join_int t, Join_done t}" for c
  proof -
    have "waitq_owner (threads s c) = None" using pcs_waiting(3) [OF p that(2)] that(3) by fastforce
    then show ?thesis using th(9) that(1) by simp
  qed
  show ?thesis
    unfolding pcs_ok_def th(1)
  proof (intro conjI ballI allI impI)
    fix t assume t: "t \<in> T"
    show "(th_state (threads s' t) = THREAD_STATE_DEAD) = (p t = Gone)"
      "(th_state (threads s' t) = THREAD_STATE_NEW) = (p t = Fresh)"
      "th_state (threads s' t) \<noteq> THREAD_STATE_SLEEPING"
      using st [OF t] p t unfolding pcs_ok_def by blast+
    show "p t \<in> {Wait_test q, Wait_block q, Wait_int q}" if "waitq_owner (threads s' t) = Some q" for q
      using th(8) [OF that] p t unfolding pcs_ok_def by blast
    show "(\<exists>q. p t \<in> {Wait_test q, Wait_int q}) \<or> (\<exists>c. p t \<in> {Join_add c, Join_int c, Join_done c})"
      if "th_state (threads s' t) = THREAD_STATE_BLOCKED"
      using st(3) [OF t that] p t unfolding pcs_ok_def by blast
    assume "joiner (threads s t) \<noteq> 0"
    then have J: "joiner (threads s t) \<in> T" "p (joiner (threads s t)) \<in> {Join_add t, Join_int t, Join_done t}"
      "th_state (threads s (joiner (threads s t))) = THREAD_STATE_BLOCKED" "p t \<noteq> Gone"
      using p t unfolding pcs_ok_def by blast+
    then show "joiner (threads s t) \<in> T" "p (joiner (threads s t)) \<in> {Join_add t, Join_int t, Join_done t}"
      "th_state (threads s' (joiner (threads s t))) = THREAD_STATE_BLOCKED" "p t \<noteq> Gone"
      using j by blast+
  next
    fix c t assume "c \<in> T" "p c = Join_add t"
    then show "t \<in> T" "p t = Fresh" "joiner (threads s t) = c" using p unfolding pcs_ok_def by blast+
  next
    show "p i = Free" using p unfolding pcs_ok_def by blast
  qed
qed

lemma ring_cong:
  assumes r: "ring_inv T s" and f: "reap_queue s' = reap_queue s" "reap_head s' = reap_head s" "reap_tail s' = reap_tail s"
    and q: "\<And>t. t \<in> T \<Longrightarrow> reap_queued (threads s' t) = reap_queued (threads s t)"
    and d: "\<And>t. t \<in> T \<Longrightarrow> th_state (threads s' t) = THREAD_STATE_DEAD \<longleftrightarrow> th_state (threads s t) = THREAD_STATE_DEAD"
    and c: "cur_thread s' = cur_thread s \<or> th_state (threads s' (cur_thread s')) \<noteq> THREAD_STATE_DEAD \<and>
      th_state (threads s (cur_thread s)) \<noteq> THREAD_STATE_DEAD"
  shows "ring_inv T s'"
proof -
  have l: "reap_list s' = reap_list s" "ring_ok s' = ring_ok s"
    by (simp_all add: reap_list_def ring_ok_def scheduler_reap_queue_len_def f)
  show ?thesis
    unfolding ring_inv_def l
  proof (intro conjI ballI impI)
    show "ring_ok s" "distinct (reap_list s)" "set (reap_list s) \<subseteq> T" using r by (simp_all add: ring_inv_def)
    show "reap_queued (threads s' t) = (t \<in> set (reap_list s))" if "t \<in> T" for t
      using r q [OF that] that by (simp add: ring_inv_def)
    fix t
    { assume t: "t \<in> set (reap_list s)"
      then have "t \<in> T" "th_state (threads s t) = THREAD_STATE_DEAD" "t \<noteq> cur_thread s"
        using r by (auto simp: ring_inv_def)
      then show "th_state (threads s' t) = THREAD_STATE_DEAD" "t \<noteq> cur_thread s'" using d [of t] c by auto }
    { assume t: "t \<in> T" "th_state (threads s' t) = THREAD_STATE_DEAD"
      then have "t = cur_thread s \<or> t \<in> set (reap_list s)" using r d [of t] by (simp add: ring_inv_def)
      then show "t = cur_thread s' \<or> t \<in> set (reap_list s)" using d [OF t(1)] t(2) c by auto }
  qed
qed

lemma ring_wakes:
  assumes w: "wakes T s s'" and p: "pcs_ok T p i s" and r: "ring_inv T s"
  shows "ring_inv T s'"
  by (rule ring_cong [OF r])
    (use wakes_states(1) [OF w p] wakes_thread(2,3) [OF w] more_ring [OF wakes_thread(4) [OF w]] in simp_all)

text \<open>One more dead thread in the ring.\<close>

lemma reap_len_bound: "ring_ok s \<Longrightarrow> scheduler_reap_queue_len s < 64"
  by (simp add: scheduler_reap_queue_len_def)

lemma reap_len_add:
  assumes "ring_ok s" "(reap_tail s + 1) mod 64 \<noteq> reap_head s"
  shows "((reap_tail s + 1) mod 64 + 64 - reap_head s) mod 64 = Suc (scheduler_reap_queue_len s)"
    "(reap_head s + scheduler_reap_queue_len s) mod 64 = reap_tail s"
proof -
  have b: "reap_head s < 64" "reap_tail s < 64" using assms(1) by (simp_all add: ring_ok_def)
  show "(reap_head s + scheduler_reap_queue_len s) mod 64 = reap_tail s"
    using b by (simp add: scheduler_reap_queue_len_def mod_simps)
  show "((reap_tail s + 1) mod 64 + 64 - reap_head s) mod 64 = Suc (scheduler_reap_queue_len s)"
  proof (cases "reap_head s \<le> reap_tail s")
    case True
    then have l: "scheduler_reap_queue_len s = reap_tail s - reap_head s"
      using b by (simp add: scheduler_reap_queue_len_def mod_if)
    show ?thesis
    proof (cases "reap_tail s = 63")
      case True
      then show ?thesis using b assms(2) l by (simp add: mod_if)
    next
      case False
      then have "(reap_tail s + 1) mod 64 = reap_tail s + 1" using b by simp
      then have "(reap_tail s + 1) mod 64 + 64 - reap_head s = Suc (reap_tail s - reap_head s) + 64"
        using True by linarith
      then have "((reap_tail s + 1) mod 64 + 64 - reap_head s) mod 64 = (Suc (reap_tail s - reap_head s) + 64) mod 64"
        by (rule arg_cong)
      also have "\<dots> = Suc (reap_tail s - reap_head s) mod 64" by (rule mod_add_self2)
      also have "\<dots> = Suc (reap_tail s - reap_head s)" using b False by simp
      finally show ?thesis by (simp add: l)
    qed
  next
    case False
    then have "scheduler_reap_queue_len s = reap_tail s + 64 - reap_head s"
      using b by (simp add: scheduler_reap_queue_len_def)
    moreover have "reap_tail s + 1 < reap_head s" using False assms(2) b by (simp add: mod_if split: if_splits)
    ultimately show ?thesis using b by simp
  qed
qed

lemma ring_added_list:
  assumes r: "ring_ok s" and a: "ring_added c s s'"
  shows "reap_list s' = reap_list s @ [c]" "ring_ok s'"
proof -
  have b: "reap_head s < 64" "reap_tail s < 64" "length (reap_queue s) = 64" using r by (simp_all add: ring_ok_def)
  have f: "(reap_tail s + 1) mod 64 \<noteq> reap_head s" "reap_queue s' = (reap_queue s)[reap_tail s := c]"
    "reap_head s' = reap_head s" "reap_tail s' = (reap_tail s + 1) mod 64"
    using a by (simp_all add: ring_added_def)
  note n = reap_len_add [OF r f(1)]
  have len: "scheduler_reap_queue_len s' = Suc (scheduler_reap_queue_len s)"
    using n(1) by (simp add: scheduler_reap_queue_len_def [of s'] f)
  have ne: "(reap_head s + k) mod 64 \<noteq> reap_tail s" if "k < scheduler_reap_queue_len s" for k
  proof
    assume e: "(reap_head s + k) mod 64 = reap_tail s"
    then show False using that reap_len_bound [OF r] n(2) b by (simp add: mod_if split: if_splits)
  qed
  have "map (\<lambda>k. reap_queue s' ! ((reap_head s' + k) mod 64)) [0..<scheduler_reap_queue_len s] = reap_list s"
    using ne by (auto simp: reap_list_def f nth_list_update_neq [OF not_sym])
  moreover have "reap_queue s' ! ((reap_head s' + scheduler_reap_queue_len s) mod 64) = c"
    using n(2) b by (simp add: f)
  ultimately show "reap_list s' = reap_list s @ [c]" by (simp add: reap_list_def [of s'] len)
  show "ring_ok s'" using b by (simp add: ring_ok_def f)
qed

lemma switchedD:
  assumes "switched T i c n s s'"
  shows "n \<in> T" "cur_thread s' = n" "joiner (threads s' t) = joiner (threads s t)"
    "waitq_owner (threads s' t) = waitq_owner (threads s t)"
    "th_state (threads s' t) = (if t = n then THREAD_STATE_RUNNING
      else if t = c \<and> c \<noteq> 0 \<and> th_state (threads s c) = THREAD_STATE_RUNNING then THREAD_STATE_READY
      else th_state (threads s t))"
    "th_state (threads s n) \<in> {THREAD_STATE_READY, THREAD_STATE_RUNNING}"
  using assms unfolding switched_def keeps_wait_def by blast+

lemma switched_states:
  assumes "switched T i c n s s'"
  shows "th_state (threads s' t) = THREAD_STATE_DEAD \<longleftrightarrow> th_state (threads s t) = THREAD_STATE_DEAD"
    "th_state (threads s' t) = THREAD_STATE_NEW \<longleftrightarrow> th_state (threads s t) = THREAD_STATE_NEW"
    "th_state (threads s' t) = THREAD_STATE_BLOCKED \<longleftrightarrow> th_state (threads s t) = THREAD_STATE_BLOCKED"
    "th_state (threads s' t) = THREAD_STATE_SLEEPING \<longleftrightarrow> th_state (threads s t) = THREAD_STATE_SLEEPING"
  using switchedD(5) [OF assms, of t] switchedD(6) [OF assms] by (auto split: if_splits)

lemma pcs_cong: "threads s' = threads s \<Longrightarrow> pcs_ok T p i s' = pcs_ok T p i s"
  by (simp only: pcs_ok_def)

lemma pcs_switched:
  assumes "switched T i c n s s'" "pcs_ok T p i s"
  shows "pcs_ok T p i s'"
  using assms(2) unfolding pcs_ok_def switched_states [OF assms(1)] switchedD(3,4) [OF assms(1)] .

lemma ring_switched:
  assumes sw: "switched T i c n s s'" and r: "ring_inv T s" and c: "c = cur_thread s" "c \<in> T"
    and g: "if n \<noteq> c \<and> th_state (threads s c) = THREAD_STATE_DEAD \<and> \<not> reap_queued (threads s c)
     then ring_added c s s' else same_ring s s'"
  shows "ring_inv T s'"
proof (cases "th_state (threads s c) = THREAD_STATE_DEAD")
  case False
  then have "same_ring s s'" using g by (simp split: if_splits)
  then show ?thesis
    by (intro ring_cong [OF r])
      (use False c switched_states(1) [OF sw] switchedD(2,5) [OF sw] in \<open>auto simp: same_ring_def\<close>)
next
  case True
  have nc: "n \<noteq> c" using True switchedD(6) [OF sw] by auto
  have nq: "\<not> reap_queued (threads s c)" "c \<notin> set (reap_list s)" using r c by (auto simp: ring_inv_def)
  then have a: "ring_added c s s'" using g nc True by simp
  have ok: "ring_ok s" using r by (simp add: ring_inv_def)
  note l = ring_added_list [OF ok a]
  have rq: "reap_queued (threads s' t) = (t = c \<or> reap_queued (threads s t))" for t
    using a by (simp add: ring_added_def)
  have nd: "th_state (threads s n) \<noteq> THREAD_STATE_DEAD" using switchedD(6) [OF sw] by auto
  show ?thesis
    unfolding ring_inv_def l(1) switched_states(1) [OF sw] rq switchedD(2) [OF sw]
    using r l(2) nq c True nc nd unfolding ring_inv_def by auto
qed

lemma clear_flags:
  assumes "core_mid T s"
  shows "core_base T (s\<lparr>in_scheduler := b, resched_pending := r\<rparr>)"
proof -
  let ?s = "s\<lparr>in_scheduler := b, resched_pending := r\<rparr>"
  have "rq_ok T ?s = rq_ok T s" by (rule rq_ok_cong) simp_all
  moreover have "wq_ok T ?s = wq_ok T s" by (rule wq_ok_cong) simp_all
  moreover have "to_ok T ?s = to_ok T s" by (rule to_ok_cong) simp_all
  moreover have "queued ?s = queued s" by (simp add: queued_def)
  ultimately show ?thesis using assms by (simp add: core_base_def core_mid_def)
qed

lemma idle_wakes:
  assumes w: "wakes T s s'" and p: "pcs_ok T p i s" and idle: "idle_ok T i s"
  shows "idle_ok T i s'"
proof -
  have i: "i \<in> T" "p i = Free" using idle p by (simp_all add: idle_ok_def pcs_ok_def)
  then have "waitq_owner (threads s i) = None" using pcs_waiting(3) [OF p i(1)] by force
  then have "th_state (threads s' i) = th_state (threads s i)" by (rule wakes_thread(9) [OF w])
  then show ?thesis
    using idle wakes_thread(12) [OF w, of 2] wakes_thread(3,7) [OF w] by (auto simp: idle_ok_def)
qed

text \<open>The timer interrupt keeps the invariant, and the thread that continues is running.\<close>

lemma irq_sys_ok:
  fixes s :: "'a reap_state_scheme"
  assumes ok: "sys_ok i (T, p, s)" and irq: "frame \<noteq> 0" "timer_irq frame s = Some (f, s')"
  shows "sys_ok i (T, p, s')" "th_state (threads s' (cur_thread s')) = THREAD_STATE_RUNNING" "cur_thread s' \<in> T"
proof -
  define s1 where "s1 = scheduler_tick s"
  define c where "c = cur_thread s"
  have core: "core_mid T s" "\<not> in_scheduler s" "scheduler_running s" "idle_ok T i s"
    and p: "pcs_ok T p i s" and cur: "cur_ok T p s" and r: "ring_inv T s"
    using ok by (simp_all add: core_def)
  have c: "c \<in> T" using cur by (simp add: cur_ok_def c_def)
  moreover have "0 \<notin> T" using core(1) by (simp add: core_mid_def live_ok_def)
  ultimately have c: "c \<in> T" "c \<noteq> 0" by auto
  have m1: "core_mid T s1" and w: "wakes T s s1" using scheduler_tick_ok [OF core(1)] by (simp_all add: s1_def)
  note th = wakes_thread [OF w]
  have p1: "pcs_ok T p i s1" by (rule pcs_wakes [OF w p])
  have r1: "ring_inv T s1" by (rule ring_wakes [OF w p r])
  have i1: "idle_ok T i s1" by (rule idle_wakes [OF w p core(4)])
  have c1: "cur_thread s1 = c" "\<not> in_scheduler s1" "scheduler_running s1" using th(3,5,6) core by (simp_all add: c_def)
  have "sys_ok i (T, p, s') \<and> th_state (threads s' (cur_thread s')) = THREAD_STATE_RUNNING \<and> cur_thread s' \<in> T"
  proof (cases "resched_pending s1")
    case False
    have "s' = s1\<lparr>in_scheduler := False\<rparr>"
      using irq False c1 c(2)
      by (simp add: timer_irq_def scheduler_switch_from_irq_def s1_def [symmetric] thread_get_current_def Let_def)
    also have "\<dots> = s1" using c1(2) by simp
    finally have s': "s' = s1" .
    have nr: "\<not> resched_pending s" using False th(11) by blast
    have run: "th_state (threads s c) = THREAD_STATE_RUNNING" using cur nr by (simp add: cur_ok_def c_def)
    have q1: "c \<notin> set (queued s1)" using m1 False unfolding core_mid_def c1(1) by blast
    have "th_state (threads s1 c) \<noteq> THREAD_STATE_READY"
      using m1 c(1) q1 unfolding core_mid_def c1(1) by blast
    then have run1: "th_state (threads s1 c) = THREAD_STATE_RUNNING" using th(10) [of c] run by auto
    have "core T i s1" using m1 q1 c1 i1 by (simp add: core_def)
    then show ?thesis using p1 r1 run1 c c1(1) by (simp add: s' cur_ok_def)
  next
    case True
    define s2 where "s2 = s1\<lparr>in_scheduler := True, resched_pending := False\<rparr>"
    have e: "switch_from c frame s2 = Some (f, s')"
      using irq True c1 c(2)
      by (simp add: timer_irq_def scheduler_switch_from_irq_def s1_def [symmetric] s2_def thread_get_current_def Let_def)
    have b2: "core_base T s2" unfolding s2_def by (rule clear_flags [OF m1])
    have i2: "idle_ok T i s2" using i1 by (simp add: idle_ok_def s2_def)
    have p2: "pcs_ok T p i s2" using p1 pcs_cong [of s2 s1] by (simp add: s2_def)
    have r2: "ring_inv T s2" by (rule ring_cong [OF r1]) (simp_all add: s2_def)
    have c2: "cur_thread s2 = c" "scheduler_running s2" using c1 by (simp_all add: s2_def)
    obtain n where n: "switched T i c n s2 s'"
      and g: "if n \<noteq> c \<and> th_state (threads s2 c) = THREAD_STATE_DEAD \<and> \<not> reap_queued (threads s2 c)
        then ring_added c s2 s' else same_ring s2 s'"
      by (rule switch_from_ok [OF b2 c(1) c2(1) i2 e])
    have "core T i s'" by (rule switched_core [OF b2 n c2(2)]) (use c c2 in auto)
    moreover have "pcs_ok T p i s'" by (rule pcs_switched [OF n p2])
    moreover have "ring_inv T s'" by (rule ring_switched [OF n r2 _ c(1) g]) (simp add: c2(1))
    moreover have "th_state (threads s' n) = THREAD_STATE_RUNNING" "cur_thread s' = n" "n \<in> T"
      using switchedD(5) [OF n, of n] switchedD(1,2) [OF n] by simp_all
    ultimately show ?thesis by (simp add: cur_ok_def)
  qed
  then show "sys_ok i (T, p, s')" "th_state (threads s' (cur_thread s')) = THREAD_STATE_RUNNING" "cur_thread s' \<in> T"
    by simp_all
qed

section \<open>The steps of the current thread\<close>

text \<open>Operations that touch neither queues nor states.\<close>

definition sys_frame :: "u64 \<Rightarrow> 'a reap_state_scheme \<Rightarrow> 'a reap_state_scheme \<Rightarrow> bool" where
  "sys_frame i s s' \<longleftrightarrow>
     ready_queues s' = ready_queues s \<and> ready_tasks s' = ready_tasks s \<and>
     bucket_last_run_tick s' = bucket_last_run_tick s \<and> (resched_pending s \<longrightarrow> resched_pending s') \<and>
     cur_thread s' = cur_thread s \<and> in_scheduler s' = in_scheduler s \<and>
     scheduler_running s' = scheduler_running s \<and> keeps_wait s s' \<and> same_ring s s' \<and>
     sched_bucket (threads s' i) = sched_bucket (threads s i) \<and>
     (\<forall>t. th_state (threads s' t) = th_state (threads s t) \<and>
       ready_queued (threads s' t) = ready_queued (threads s t) \<and>
       joiner (threads s' t) = joiner (threads s t))"

lemma sys_frame_ok:
  assumes f: "sys_frame i s s'" and ok: "sys_ok i (T, p, s)"
  shows "sys_ok i (T, p, s')"
proof -
  have th: "th_state (threads s' t) = th_state (threads s t)" "joiner (threads s' t) = joiner (threads s t)"
    "ready_queued (threads s' t) = ready_queued (threads s t)"
    "waitq_owner (threads s' t) = waitq_owner (threads s t)" for t
    using f by (simp_all add: sys_frame_def keeps_wait_def)
  have g: "ready_queues s' = ready_queues s" "cur_thread s' = cur_thread s" "queued s' = queued s"
    "in_scheduler s' = in_scheduler s" "scheduler_running s' = scheduler_running s"
    "sched_bucket (threads s' i) = sched_bucket (threads s i)" "resched_pending s \<Longrightarrow> resched_pending s'"
    using f by (simp_all add: sys_frame_def queued_def)
  have kw: "keeps_wait s s'" using f by (simp add: sys_frame_def)
  have rq: "rq_ok T s' = rq_ok T s" by (rule rq_ok_cong) (use f in \<open>simp_all add: sys_frame_def\<close>)
  have core: "core T i s'"
    using ok g(7) unfolding sys_ok.simps core_def core_mid_def idle_ok_def rq keeps_wait_ok [OF kw] g(1-6) th
    by blast
  have pcs: "pcs_ok T p i s'" using ok unfolding sys_ok.simps pcs_ok_def th by blast
  have cur: "cur_ok T p s'" using ok g(7) unfolding sys_ok.simps cur_ok_def th g(2) by blast
  have "ring_inv T s'"
    by (rule ring_cong [of T s]) (use ok f th g(2) in \<open>simp_all add: sys_frame_def same_ring_def\<close>)
  with core pcs cur show ?thesis by simp
qed

lemma ring_fields_upd [simp]:
  "reap_queue (upd_thread t f s) = reap_queue s" "reap_head (upd_thread t f s) = reap_head s"
  "reap_tail (upd_thread t f s) = reap_tail s" "reap_queue (upd_waitq q h s) = reap_queue s"
  "reap_head (upd_waitq q h s) = reap_head s" "reap_tail (upd_waitq q h s) = reap_tail s"
  by (simp_all add: upd_thread_def upd_waitq_def)

lemma frame_upd_thread:
  assumes "\<And>th. th_state (g th) = th_state th" "\<And>th. ready_queued (g th) = ready_queued th"
    "\<And>th. joiner (g th) = joiner th" "\<And>th. waitq_owner (g th) = waitq_owner th"
    "\<And>th. wait_timeout_armed (g th) = wait_timeout_armed th" "\<And>th. reap_queued (g th) = reap_queued th"
    "\<And>th. wait_deadline_tick (g th) = wait_deadline_tick th" "\<And>th. wait_timed_out (g th) = wait_timed_out th"
    "t = i \<Longrightarrow> (\<And>th. sched_bucket (g th) = sched_bucket th)"
  shows "sys_frame i s (upd_thread t g s)"
  using assms by (auto simp: sys_frame_def keeps_wait_def same_ring_def)

lemma sys_frame_refl [simp, intro]: "sys_frame i s s"
  by (simp add: sys_frame_def same_ring_def)

lemma sys_frame_trans: "sys_frame i s t \<Longrightarrow> sys_frame i t u \<Longrightarrow> sys_frame i s u"
  unfolding sys_frame_def same_ring_def using keeps_trans(1) by (simp, blast)

lemma frame_ops:
  "sys_frame i s (scheduler_yield s)"
  "sys_frame i s (snd (scheduler_set_policy k s))"
  "t \<noteq> i \<Longrightarrow> sys_frame i s (scheduler_set_bucket t b s)"
  by (auto simp: scheduler_yield_def scheduler_set_policy_def scheduler_set_bucket_def sys_frame_def
      keeps_wait_def same_ring_def)

lemma frame_priority: "sys_frame i s (scheduler_set_priority t prio s)"
proof -
  let ?a = "thread_set_priority t prio s"
  let ?b = "upd_thread t (\<lambda>th. th\<lparr>base_priority := prio, dyn_priority := ucast prio\<rparr>) ?a"
  have "sys_frame i s ?a" by (auto simp: thread_set_priority_def intro!: frame_upd_thread)
  moreover have "sys_frame i ?a ?b" by (rule frame_upd_thread) simp_all
  moreover have "sys_frame i ?b (upd_thread t (\<lambda>th. th\<lparr>inherited_priority := dyn_priority th\<rparr>) ?b)"
    by (rule frame_upd_thread) simp_all
  ultimately show ?thesis
    unfolding scheduler_set_priority_def Let_def by (auto intro: sys_frame_trans)
qed

lemma frame_inherit: "sys_frame i s (scheduler_inherit_priority t d s)"
proof -
  define a where "a = (if inherit_depth (threads s t) < 8
      then upd_thread t (\<lambda>th. th\<lparr>inherit_stack := (inherit_stack th)[unat (inherit_depth th) := inherited_priority th],
        inherit_depth := inherit_depth th + 1\<rparr>) s
      else upd_thread t (\<lambda>th. th\<lparr>has_inherit_overflow := True\<rparr>) s)"
  have a: "sys_frame i s a" by (auto simp: a_def intro!: frame_upd_thread)
  have "sys_frame i a (upd_thread t (\<lambda>th. th\<lparr>inherited_priority := v, has_inherited := True\<rparr>) a)" for v
    by (rule frame_upd_thread) simp_all
  then show ?thesis
    using a sys_frame_trans [OF a] unfolding scheduler_inherit_priority_def Let_def a_def [symmetric] by simp
qed

lemma frame_clear: "sys_frame i s (scheduler_clear_inherit t s)"
proof -
  define a where "a = (if has_inherit_overflow (threads s t)
      then upd_thread t (\<lambda>th. th\<lparr>inherited_priority := ucast (base_priority th),
        inherit_depth := 0, has_inherit_overflow := False\<rparr>) s
      else if inherit_depth (threads s t) > 0
      then upd_thread t (\<lambda>th. th\<lparr>inherit_depth := inherit_depth th - 1,
        inherited_priority := inherit_stack th ! unat (inherit_depth th - 1)\<rparr>) s
      else upd_thread t (\<lambda>th. th\<lparr>inherited_priority := dyn_priority th\<rparr>) s)"
  have a: "sys_frame i s a" by (auto simp: a_def intro!: frame_upd_thread)
  have "sys_frame i a (upd_thread t (\<lambda>th. th\<lparr>has_inherited := False\<rparr>) a)"
    by (rule frame_upd_thread) simp_all
  then show ?thesis
    using sys_frame_trans [OF a] unfolding scheduler_clear_inherit_def Let_def a_def [symmetric] by simp
qed

text \<open>A position changes.\<close>

lemma pcs_move:
  assumes p: "pcs_ok T p i s" and c: "c \<in> T" "c \<noteq> i"
    and other: "\<And>t. t \<in> T \<Longrightarrow> t \<noteq> c \<Longrightarrow> th_state (threads s' t) = th_state (threads s t) \<and>
      waitq_owner (threads s' t) = waitq_owner (threads s t)"
    and j: "\<And>t. joiner (threads s' t) = joiner (threads s t)"
    and pc: "p c \<noteq> Fresh" "\<And>t. p c \<noteq> Join_add t" "\<And>t. p c \<noteq> Join_int t" "\<And>t. p c \<noteq> Join_done t"
    and new: "th_state (threads s' c) = THREAD_STATE_DEAD \<longleftrightarrow> x = Gone"
      "th_state (threads s' c) \<noteq> THREAD_STATE_NEW" "x \<noteq> Fresh" "\<And>t. x \<noteq> Join_add t"
      "th_state (threads s' c) \<noteq> THREAD_STATE_SLEEPING"
      "\<And>q. waitq_owner (threads s' c) = Some q \<Longrightarrow> x \<in> {Wait_test q, Wait_block q, Wait_int q}"
      "th_state (threads s' c) = THREAD_STATE_BLOCKED \<Longrightarrow> \<exists>q. x \<in> {Wait_test q, Wait_int q}"
      "x = Gone \<Longrightarrow> joiner (threads s c) = 0"
  shows "pcs_ok T (p(c := x)) i s'"
proof -
  have nj: "joiner (threads s t) \<noteq> c" if "t \<in> T" "joiner (threads s t) \<noteq> 0" for t
    using pcs_okD(6) [OF p that] pc by auto
  have cj: "p d \<noteq> Join_add c" if "d \<in> T" for d
    using pcs_okD(7) [OF p that] pc(1) by blast
  show ?thesis
    unfolding pcs_ok_def j
  proof (intro conjI ballI allI impI)
    fix t assume t: "t \<in> T"
    note d = pcs_okD [OF p t]
    show "(th_state (threads s' t) = THREAD_STATE_DEAD) = ((p(c := x)) t = Gone)"
      "(th_state (threads s' t) = THREAD_STATE_NEW) = ((p(c := x)) t = Fresh)"
      "th_state (threads s' t) \<noteq> THREAD_STATE_SLEEPING"
      using d(1-3) other [OF t] new by (cases "t = c"; simp)+
    show "(p(c := x)) t \<in> {Wait_test q, Wait_block q, Wait_int q}" if "waitq_owner (threads s' t) = Some q" for q
      using d(4) other [OF t] new(6) that by (cases "t = c") simp_all
    show "(\<exists>q. (p(c := x)) t \<in> {Wait_test q, Wait_int q}) \<or> (\<exists>e. (p(c := x)) t \<in> {Join_add e, Join_int e, Join_done e})"
      if "th_state (threads s' t) = THREAD_STATE_BLOCKED"
      using d(5) other [OF t] new(7) that by (cases "t = c") simp_all
    assume jt: "joiner (threads s t) \<noteq> 0"
    have ne: "joiner (threads s t) \<noteq> c" by (rule nj [OF t jt])
    from d(6) [OF jt] have J: "joiner (threads s t) \<in> T"
      "p (joiner (threads s t)) \<in> {Join_add t, Join_int t, Join_done t}"
      "th_state (threads s (joiner (threads s t))) = THREAD_STATE_BLOCKED" "p t \<noteq> Gone" by blast+
    from J(1,2) ne show "joiner (threads s t) \<in> T"
      "(p(c := x)) (joiner (threads s t)) \<in> {Join_add t, Join_int t, Join_done t}" by auto
    show "th_state (threads s' (joiner (threads s t))) = THREAD_STATE_BLOCKED"
      using other [OF J(1) ne] J(3) by simp
    show "(p(c := x)) t \<noteq> Gone" using J(4) new(8) jt by auto
  next
    fix e t assume e: "e \<in> T" "(p(c := x)) e = Join_add t"
    then have "e \<noteq> c" "p e = Join_add t" using new(4) by (auto split: if_splits)
    then show "t \<in> T" "(p(c := x)) t = Fresh" "joiner (threads s t) = e"
      using pcs_okD(7) [OF p e(1)] cj [OF e(1)] by auto
  next
    show "(p(c := x)) i = Free" using p c(2) by (simp add: pcs_ok_def)
  qed
qed

lemma sys_okD:
  assumes "sys_ok i (T, p, s)"
  shows "core T i s" "core_mid T s" "pcs_ok T p i s" "cur_ok T p s" "ring_inv T s" "idle_ok T i s" "live_ok T"
    "wq_ok T s" "to_ok T s" "rq_ok T s" "cur_thread s \<in> T" "cur_thread s \<noteq> 0" "cur_thread s \<notin> set (queued s)"
    "i \<in> T" "p i = Free"
proof -
  show 1: "core T i s" "pcs_ok T p i s" "cur_ok T p s" "ring_inv T s" using assms by simp_all
  show 2: "core_mid T s" "idle_ok T i s" "cur_thread s \<notin> set (queued s)" using 1(1) by (simp_all add: core_def)
  show 3: "live_ok T" "wq_ok T s" "to_ok T s" "rq_ok T s" using 2(1) by (simp_all add: core_mid_def)
  show 4: "cur_thread s \<in> T" using 1(3) by (simp add: cur_ok_def)
  then show "cur_thread s \<noteq> 0" using 3(1) by (auto simp: live_ok_def)
  show "i \<in> T" using 2(2) by (simp add: idle_ok_def)
  show "p i = Free" using 1(2) by (simp add: pcs_ok_def)
qed

text \<open>A thread that executes code of its own, not just before \<^verbatim>\<open>int $32\<close> or in a join, is running.\<close>

lemma cur_runs:
  assumes "sys_ok i (T, p, s)" "p (cur_thread s) \<in> {Free} \<union> range Wait_test \<union> range Wait_block \<union> range Join_done"
  shows "th_state (threads s (cur_thread s)) = THREAD_STATE_RUNNING"
proof -
  note k = sys_okD [OF assms(1)]
  have "th_state (threads s (cur_thread s)) \<noteq> THREAD_STATE_DEAD"
    using pcs_okD(1) [OF k(3,11)] assms(2) by auto
  then show ?thesis using k(4) assms(2) unfolding cur_ok_def by auto
qed

lemma core_keeps:
  assumes c: "core T i s" and k: "keeps_run s s'" "keeps_misc s s'" "wq_ok T s'" "to_ok T s'"
  shows "core T i s'"
proof -
  have m: "core_mid T s'" by (rule core_mid_keeps [of T s]) (use assms in \<open>simp_all add: core_def\<close>)
  have f: "queued s' = queued s" "ready_queues s' = ready_queues s" "cur_thread s' = cur_thread s"
    "in_scheduler s' = in_scheduler s" "scheduler_running s' = scheduler_running s"
    "sched_bucket (threads s' t) = sched_bucket (threads s t)" "th_state (threads s' t) = th_state (threads s t)" for t
    using k(1,2) by (simp_all add: keeps_run_def keeps_misc_def queued_def)
  show ?thesis using c m unfolding core_def idle_ok_def f by blast
qed

lemma ring_keeps:
  fixes s s' :: "'a reap_state_scheme"
  assumes "ring_inv T s" "keeps_run s s'" "keeps_misc s s'"
  shows "ring_inv T s'"
  by (rule ring_cong [OF assms(1)])
    (use assms(2,3) more_ring [of s' s] in \<open>simp_all add: keeps_run_def keeps_misc_def\<close>)

text \<open>The current thread moves to another position; only its wait fields change.\<close>

lemma move_sys_ok:
  fixes s s' :: "'a reap_state_scheme"
  assumes ok: "sys_ok i (T, p, s)" and c: "c = cur_thread s" "c \<noteq> i"
    and run: "th_state (threads s c) = THREAD_STATE_RUNNING" and k: "keeps_run s s'" "keeps_misc s s'" "wq_ok T s'" "to_ok T s'"
    and own: "\<And>t. t \<noteq> c \<Longrightarrow> waitq_owner (threads s' t) = waitq_owner (threads s t)"
      "\<And>q. waitq_owner (threads s' c) = Some q \<Longrightarrow> x \<in> {Wait_test q, Wait_block q, Wait_int q}"
    and pc: "\<And>t. p c \<noteq> Join_add t" "\<And>t. p c \<noteq> Join_int t" "\<And>t. p c \<noteq> Join_done t"
    and x: "x \<noteq> Gone" "x \<noteq> Fresh" "\<And>t. x \<noteq> Join_add t"
  shows "sys_ok i (T, p(c := x), s')"
proof -
  note d = sys_okD [OF ok]
  have cT: "c \<in> T" using d(11) c(1) by simp
  have st: "th_state (threads s' t) = th_state (threads s t)" "joiner (threads s' t) = joiner (threads s t)"
    "cur_thread s' = cur_thread s" for t
    using k(1,2) by (simp_all add: keeps_run_def keeps_misc_def)
  have "core T i s'" by (rule core_keeps [OF d(1) k])
  moreover have "pcs_ok T (p(c := x)) i s'"
    by (rule pcs_move [OF d(3) cT c(2)])
      (use own pc x st run pcs_okD(2) [OF d(3) cT] in auto)
  moreover have "cur_ok T (p(c := x)) s'" using run st c(1) cT by (simp add: cur_ok_def)
  moreover have "ring_inv T s'" by (rule ring_keeps [OF d(5) k(1,2)])
  ultimately show ?thesis by simp
qed

lemma wait_sys_ok:
  fixes s s' :: "'a reap_state_scheme"
  assumes ok: "sys_ok i (T, p, s)" and a: "acts p s" "c = cur_thread s" "c \<noteq> i"
    and e: "wait_until_enter (Some q) d s = (Inr (), s')"
  shows "sys_ok i (T, p(c := Wait_test q), s')"
proof -
  note D = sys_okD [OF ok]
  have c: "c \<in> T" "c \<noteq> 0" "p c = Free" using D(11,12) a by (simp_all add: acts_def)
  have run: "th_state (threads s c) = THREAD_STATE_RUNNING" using cur_runs [OF ok] a by (simp add: acts_def)
  have own: "waitq_owner (threads s c) = None" using pcs_waiting(3) [OF D(3) c(1)] c(3) by force
  define u where "u = upd_thread c (\<lambda>th. th\<lparr>wait_timed_out := False\<rparr>) s"
  have ku: "keeps_run s u" "keeps_misc s u" by (simp_all add: u_def keeps_run_def keeps_misc_def)
  have oku: "wq_ok T u" "to_ok T u"
    using D(8,9) by (simp_all add: u_def wq_ok_cong [of u s] to_ok_cong [of u s] wq_ok_def to_ok_def)
  have ownu: "waitq_owner (threads u c) = None" using own by (simp add: u_def)
  obtain v where v: "waitq_enqueue (Some q) c u = (RDNX_OK, v)" "wq_ok T v" "to_ok T v" "keeps_run u v" "keeps_misc u v"
    and vo: "\<And>x. waitq_owner (threads v x) = (if x = c then Some q else waitq_owner (threads u x))"
    using waitq_enqueue_ok [OF oku D(7) c(1) ownu] by metis
  have s': "s' = (if d \<noteq> 0 then waitq_arm_timeout c d v else v)"
    using e c(2) own v(1) unfolding u_def a(2)
    by (simp add: wait_until_enter_def Let_def thread_get_current_def waitq_contains_def)
  have vc: "waitq_owner (threads v c) \<noteq> None" using vo by simp
  note arm = waitq_arm_ok [OF v(2,3) D(7) c(1) vc, of d]
  show ?thesis
  proof (rule move_sys_ok [OF ok a(2,3) run])
    have k: "keeps_run v s'" "keeps_misc v s'" using arm(3,4) by (simp_all add: s')
    show "keeps_run s s'" by (rule keeps_trans(3) [OF ku(1) keeps_trans(3) [OF v(4) k(1)]])
    show "keeps_misc s s'" by (rule keeps_trans(2) [OF ku(2) keeps_trans(2) [OF v(5) k(2)]])
    show "wq_ok T s'" "to_ok T s'" using arm(1,2) v(2,3) by (simp_all add: s')
    have os: "waitq_owner (threads s' x) = waitq_owner (threads v x)" for x using arm(5) by (simp add: s')
    show "waitq_owner (threads s' x) = waitq_owner (threads s x)" if "x \<noteq> c" for x
      using that by (simp add: os vo u_def)
    show "Wait_test q \<in> {Wait_test r, Wait_block r, Wait_int r}" if "waitq_owner (threads s' c) = Some r" for r
      using that by (simp add: os vo)
  qed (simp_all add: c(3))
qed

lemma wait_again_sys_ok:
  assumes ok: "sys_ok i (T, p, s)" and c: "c = cur_thread s" "p c = Wait_test q"
    and e: "wait_until_continues (Some q) c s"
  shows "sys_ok i (T, p(c := Wait_block q), s)"
proof -
  note D = sys_okD [OF ok]
  have "c \<noteq> i" using c(2) D(15) by auto
  moreover have "th_state (threads s c) = THREAD_STATE_RUNNING" using cur_runs [OF ok] c by auto
  moreover have "waitq_owner (threads s c) = Some q"
    using e by (simp add: wait_until_continues_def waitq_contains_def)
  ultimately show ?thesis
    using c D(8,9) by (intro move_sys_ok [OF ok]) auto
qed

lemma wait_leave_sys_ok:
  fixes s s' :: "'a reap_state_scheme"
  assumes ok: "sys_ok i (T, p, s)" and c: "c = cur_thread s" "p c = Wait_test q"
    and e: "\<not> wait_until_continues (Some q) c s" "wait_until_leave c s = (rc, s')"
  shows "sys_ok i (T, p(c := Free), s')"
proof -
  note D = sys_okD [OF ok]
  have ci: "c \<noteq> i" using c(2) D(15) by auto
  have run: "th_state (threads s c) = THREAD_STATE_RUNNING" using cur_runs [OF ok] c by auto
  have own: "waitq_owner (threads s c) = None"
  proof (rule ccontr)
    assume "waitq_owner (threads s c) \<noteq> None"
    then obtain r where r: "waitq_owner (threads s c) = Some r" by blast
    then have "r = q" using pcs_okD(4) [OF D(3,11), of r] c by auto
    then show False using e(1) r c D(12) by (simp add: wait_until_continues_def waitq_contains_def)
  qed
  have s': "s' = upd_thread c (\<lambda>th. th\<lparr>wait_timed_out := False\<rparr>) s" using e(2) by (simp add: wait_until_leave_def)
  show ?thesis
  proof (rule move_sys_ok [OF ok c(1) ci run])
    show "keeps_run s s'" "keeps_misc s s'" by (simp_all add: s' keeps_run_def keeps_misc_def)
    show "wq_ok T s'" using D(8) by (subst wq_ok_cong [of _ s]) (simp_all add: s')
    show "to_ok T s'" using D(9) by (subst to_ok_cong [of _ s]) (simp_all add: s')
  qed (use own c(2) in \<open>simp_all add: s'\<close>)
qed

lemma wakes_sys_ok:
  fixes s s' :: "'a reap_state_scheme"
  assumes ok: "sys_ok i (T, p, s)" and a: "acts p s" and w: "wakes T s s'" "core_mid T s'"
  shows "sys_ok i (T, p, s')"
proof -
  note D = sys_okD [OF ok] and th = wakes_thread [OF w(1)]
  let ?c = "cur_thread s"
  have own: "waitq_owner (threads s ?c) = None"
    using pcs_waiting(3) [OF D(3,11)] a by (force simp: acts_def)
  have st: "th_state (threads s' ?c) = th_state (threads s ?c)" by (rule th(9) [OF own])
  have nq: "?c \<notin> set (queued s')" using w(1) own D(13) unfolding wakes_def by blast
  have "core T i s'"
    using D(1) w(2) nq idle_wakes [OF w(1) D(3,6)] th(3,5,6) by (simp add: core_def)
  moreover have "cur_ok T p s'"
    using D(4) th(11) unfolding cur_ok_def th(3) st by blast
  ultimately show ?thesis using pcs_wakes [OF w(1) D(3)] ring_wakes [OF w(1) D(3,5)] by simp
qed

lemma wake_sys_ok:
  fixes s s' :: "'a reap_state_scheme"
  assumes ok: "sys_ok i (T, p, s)" and a: "acts p s"
  shows "waitq_wake_one q s = (t, s') \<Longrightarrow> sys_ok i (T, p, s')"
    and "waitq_wake_all q s = Some (n, s') \<Longrightarrow> sys_ok i (T, p, s')"
proof -
  note m = sys_okD(2) [OF ok]
  show "sys_ok i (T, p, s')" if "waitq_wake_one q s = (t, s')"
    using wakes_sys_ok [OF ok a] wake_one_core [OF m, of q] that by simp
  show "sys_ok i (T, p, s')" if e: "waitq_wake_all q s = Some (n, s')"
  proof (cases q)
    case None
    then show ?thesis using e ok by (simp add: waitq_wake_all_def)
  next
    case (Some r)
    then show ?thesis
      using e wake_all_loop_ok [OF m, of r 0] wakes_sys_ok [OF ok a] by (auto simp: waitq_wake_all_def)
  qed
qed

section \<open>Blocking\<close>

lemma block_threads:
  assumes "cur_thread s = c" "c \<noteq> 0" "\<not> in_scheduler s"
  shows "threads (scheduler_block s) = (threads s)(c := (threads s c)\<lparr>th_state := THREAD_STATE_BLOCKED,
      last_sleep_tick := sched_ticks s\<rparr>)"
    "waitqs (scheduler_block s) = waitqs s" "waitq_timeouts (scheduler_block s) = waitq_timeouts s"
    "waitq_timeouts_initialized (scheduler_block s) = waitq_timeouts_initialized s"
    "cur_thread (scheduler_block s) = c" "ready_queues (scheduler_block s) = ready_queues s"
    "ready_tasks (scheduler_block s) = ready_tasks s"
    "bucket_last_run_tick (scheduler_block s) = bucket_last_run_tick s" "resched_pending (scheduler_block s)"
    "\<not> in_scheduler (scheduler_block s)" "scheduler_running (scheduler_block s) = scheduler_running s"
    "sched_state.more (scheduler_block s) = sched_state.more s" "queued (scheduler_block s) = queued s"
  using assms by (simp_all add: scheduler_block_def thread_get_current_def Let_def set_state_threads queued_def)

lemma core_midD:
  assumes "core_mid T s"
  shows "\<And>t. t \<in> set (queued s) \<Longrightarrow> th_state (threads s t) = THREAD_STATE_READY"
    "\<And>t. t \<in> T \<Longrightarrow> th_state (threads s t) = THREAD_STATE_RUNNING \<Longrightarrow> t = cur_thread s"
    "cur_thread s \<in> insert 0 T" "live_ok T" "rq_ok T s" "wq_ok T s" "to_ok T s"
    "\<And>t. t \<in> T \<Longrightarrow> th_state (threads s t) = THREAD_STATE_READY \<Longrightarrow> t \<in> set (queued s)"
  using assms unfolding core_mid_def by blast+

lemma core_midI:
  assumes "live_ok T" "rq_ok T s" "wq_ok T s" "to_ok T s"
    and "\<And>t. t \<in> set (queued s) \<Longrightarrow> th_state (threads s t) = THREAD_STATE_READY"
    and "\<And>t. t \<in> T \<Longrightarrow> th_state (threads s t) = THREAD_STATE_RUNNING \<Longrightarrow> t = cur_thread s"
    and "\<And>t. t \<in> T \<Longrightarrow> th_state (threads s t) = THREAD_STATE_READY \<Longrightarrow> t \<in> set (queued s)"
    and "cur_thread s \<in> T" "cur_thread s \<notin> set (queued s)"
  shows "core_mid T s"
  using assms unfolding core_mid_def by blast

text \<open>The current thread stops running without being queued.\<close>

lemma stop_core:
  assumes core: "core T i s" and c: "cur_thread s = c" "c \<in> T" "c \<noteq> i"
    and k: "keeps_wait s s'" "ready_queues s' = ready_queues s" "ready_tasks s' = ready_tasks s"
      "bucket_last_run_tick s' = bucket_last_run_tick s" "cur_thread s' = c" "in_scheduler s' = in_scheduler s"
      "scheduler_running s' = scheduler_running s" "\<And>x. ready_queued (threads s' x) = ready_queued (threads s x)"
      "sched_bucket (threads s' i) = sched_bucket (threads s i)"
    and st: "\<And>x. th_state (threads s' x) = (if x = c then st else th_state (threads s x))"
      "st \<noteq> THREAD_STATE_READY" "st \<noteq> THREAD_STATE_RUNNING"
  shows "core T i s'"
proof -
  have m: "core_mid T s" "c \<notin> set (queued s)" using core c(1) by (simp_all add: core_def)
  have q: "queued s' = queued s" "rq_ok T s' = rq_ok T s"
    by (simp add: queued_def k(2)) (rule rq_ok_cong; simp add: k)
  have "core_mid T s'"
  proof (rule core_midI)
    show "live_ok T" "rq_ok T s'" "wq_ok T s'" "to_ok T s'"
      using core_midD(4-7) [OF m(1)] by (simp_all add: q keeps_wait_ok [OF k(1)])
    show "th_state (threads s' t) = THREAD_STATE_READY" if "t \<in> set (queued s')" for t
      using core_midD(1) [OF m(1), of t] that m(2) by (auto simp: q st(1))
    show "t = cur_thread s'" if "t \<in> T" "th_state (threads s' t) = THREAD_STATE_RUNNING" for t
      using core_midD(2) [OF m(1) that(1)] that(2) st(3) c(1) by (simp add: k(5) st(1) split: if_splits)
    show "t \<in> set (queued s')" if "t \<in> T" "th_state (threads s' t) = THREAD_STATE_READY" for t
      using core_midD(8) [OF m(1) that(1)] that(2) st(2) by (simp add: q st(1) split: if_splits)
  qed (use c(2) m(2) in \<open>simp_all add: k(5) q\<close>)
  moreover have "idle_ok T i s'"
    using core c k(9) unfolding core_def idle_ok_def k(2,5) by auto
  ultimately show ?thesis using k m(2) core by (simp add: core_def q)
qed

lemma block_core:
  assumes core: "core T i s" and c: "cur_thread s = c" "c \<in> T" "c \<noteq> i"
  shows "core T i (scheduler_block s)"
proof -
  have c0: "c \<noteq> 0" "\<not> in_scheduler s" using core c(2) unfolding core_def core_mid_def live_ok_def by blast+
  note b = block_threads [OF c(1) c0]
  show ?thesis
    by (rule stop_core [OF core c, of _ THREAD_STATE_BLOCKED]) (simp_all add: b keeps_wait_def c0)
qed

lemma block_ring:
  fixes s :: "'a reap_state_scheme"
  assumes r: "ring_inv T s" and c: "cur_thread s = c" "c \<noteq> 0" "\<not> in_scheduler s"
    and "th_state (threads s c) = THREAD_STATE_RUNNING"
  shows "ring_inv T (scheduler_block s)"
  by (rule ring_cong [OF r]) (use assms block_threads [OF c] more_ring [of "scheduler_block s" s] in auto)

lemma wait_block_sys_ok:
  fixes s :: "'a reap_state_scheme"
  assumes ok: "sys_ok i (T, p, s)" and c: "c = cur_thread s" "p c = Wait_block q"
  shows "sys_ok i (T, p(c := Wait_int q), scheduler_block s)"
proof -
  note D = sys_okD [OF ok]
  have ci: "c \<noteq> i" using c(2) D(15) by auto
  have cT: "c \<in> T" "c \<noteq> 0" "\<not> in_scheduler s" using D(1,11,12) c(1) by (simp_all add: core_def)
  have run: "th_state (threads s c) = THREAD_STATE_RUNNING" using cur_runs [OF ok] c by auto
  note b = block_threads [OF c(1) [symmetric] cT(2,3)]
  have "core T i (scheduler_block s)" by (rule block_core [OF D(1) c(1) [symmetric] cT(1) ci])
  moreover have "pcs_ok T (p(c := Wait_int q)) i (scheduler_block s)"
  proof (rule pcs_move [OF D(3) cT(1) ci])
    show "Wait_int q \<in> {Wait_test r, Wait_block r, Wait_int r}"
      if "waitq_owner (threads (scheduler_block s) c) = Some r" for r
      using that pcs_okD(4) [OF D(3) cT(1), of r] c(2) by (simp add: b(1))
  qed (simp_all add: b(1) c(2))
  moreover have "cur_ok T (p(c := Wait_int q)) (scheduler_block s)" using b cT(1) by (simp add: cur_ok_def)
  moreover have "ring_inv T (scheduler_block s)" by (rule block_ring [OF D(5) c(1) [symmetric] cT(2,3) run])
  ultimately show ?thesis by simp
qed

text \<open>After the interrupt the thread is past \<^verbatim>\<open>int $32\<close>; only its position changes.\<close>

lemma position_sys_ok:
  assumes ok: "sys_ok i (T, p, s)" and run: "th_state (threads s (cur_thread s)) = THREAD_STATE_RUNNING"
    and x: "p c = Wait_int q \<and> x = Wait_test q \<or> p c = Join_int t \<and> x = Join_done t \<or>
      p c = Join_done t \<and> x = Free \<and> c = cur_thread s"
  shows "sys_ok i (T, p(c := x), s)"
proof -
  note D = sys_okD [OF ok]
  have ci: "c \<noteq> i" using x D(15) by auto
  have nb: "th_state (threads s c) \<noteq> THREAD_STATE_BLOCKED" if "x = Free" using run that x by auto
  have "pcs_ok T (p(c := x)) i s"
    unfolding pcs_ok_def
  proof (intro conjI ballI allI impI)
    fix u assume u: "u \<in> T"
    note d = pcs_okD [OF D(3) u]
    show "(th_state (threads s u) = THREAD_STATE_DEAD) = ((p(c := x)) u = Gone)"
      "(th_state (threads s u) = THREAD_STATE_NEW) = ((p(c := x)) u = Fresh)"
      using d(1,2) x by auto
    show "th_state (threads s u) \<noteq> THREAD_STATE_SLEEPING" by (rule d(3))
    show "(p(c := x)) u \<in> {Wait_test r, Wait_block r, Wait_int r}" if "waitq_owner (threads s u) = Some r" for r
      using d(4) [OF that] x by auto
    show "(\<exists>r. (p(c := x)) u \<in> {Wait_test r, Wait_int r}) \<or> (\<exists>e. (p(c := x)) u \<in> {Join_add e, Join_int e, Join_done e})"
      if "th_state (threads s u) = THREAD_STATE_BLOCKED"
      using d(5) [OF that] x nb that by auto
    assume j: "joiner (threads s u) \<noteq> 0"
    note J = d(6) [OF j]
    show "joiner (threads s u) \<in> T" "th_state (threads s (joiner (threads s u))) = THREAD_STATE_BLOCKED"
      using J by simp_all
    show "(p(c := x)) (joiner (threads s u)) \<in> {Join_add u, Join_int u, Join_done u}"
      using J x nb by (cases "joiner (threads s u) = c") auto
    show "(p(c := x)) u \<noteq> Gone" using J x by auto
  next
    fix e u assume e: "e \<in> T" "(p(c := x)) e = Join_add u"
    then have "p e = Join_add u" using x by (auto split: if_splits)
    then show "u \<in> T" "(p(c := x)) u = Fresh" "joiner (threads s u) = e"
      using pcs_okD(7) [OF D(3) e(1)] x by auto
  next
    show "(p(c := x)) i = Free" using ci D(15) by simp
  qed
  moreover have "cur_ok T (p(c := x)) s" using run D(11) by (simp add: cur_ok_def)
  ultimately show ?thesis using D by simp
qed

end
