(* ===== verification/SchedStep.thy ===== *)
theory SchedStep
  imports SchedSys VmTask
begin

text \<open>
  The remaining steps of the scheduler as a transition system: adding, joining, exiting, creating
  and reaping threads. Every step keeps the invariant, so it holds in every reachable state.
\<close>


section \<open>A thread becomes ready\<close>

definition readied :: "u64 set \<Rightarrow> u64 \<Rightarrow> u64 \<Rightarrow> 'a sched_state_scheme \<Rightarrow> 'a sched_state_scheme \<Rightarrow> bool" where
  "readied T i t s s' \<longleftrightarrow>
     rq_ok T s' \<and> set (queued s') = insert t (set (queued s)) \<and>
     (\<forall>q. set (ready_queues s ! q) \<subseteq> set (ready_queues s' ! q)) \<and>
     (\<forall>x. th_state (threads s' x) = (if x = t then THREAD_STATE_READY else th_state (threads s x))) \<and>
     keeps_wait s s' \<and> cur_thread s' = cur_thread s \<and> in_scheduler s' = in_scheduler s \<and>
     scheduler_running s' = scheduler_running s \<and> sched_state.more s' = sched_state.more s \<and>
     (\<forall>x. reap_queued (threads s' x) = reap_queued (threads s x)) \<and>
     sched_bucket (threads s' i) = sched_bucket (threads s i)"

lemma readied_core:
  assumes core: "core T i s" and t: "t \<in> T" "t \<noteq> cur_thread s" "cur_thread s \<in> T" and r: "readied T i t s s'"
    and st: "th_state (threads s (cur_thread s)) \<noteq> THREAD_STATE_READY"
  shows "core T i s'"
proof -
  note R = r [unfolded readied_def]
  have m: "core_mid T s" "cur_thread s \<notin> set (queued s)" "idle_ok T i s" using core by (simp_all add: core_def)
  have kw: "keeps_wait s s'" and st': "th_state (threads s' x) = (if x = t then THREAD_STATE_READY else th_state (threads s x))"
    and q': "set (queued s') = insert t (set (queued s))" and c': "cur_thread s' = cur_thread s" for x
    using R by blast+
  have mid: "core_mid T s'"
  proof (rule core_midI)
    show "rq_ok T s'" using R by blast
    show "live_ok T" "wq_ok T s'" "to_ok T s'" using core_midD(4-7) [OF m(1)] by (simp_all add: keeps_wait_ok [OF kw])
    show "th_state (threads s' x) = THREAD_STATE_READY" if "x \<in> set (queued s')" for x
      using that core_midD(1) [OF m(1)] by (auto simp: st' q')
    show "x = cur_thread s'" if "x \<in> T" "th_state (threads s' x) = THREAD_STATE_RUNNING" for x
      using core_midD(2) [OF m(1) that(1)] that(2) by (simp add: st' c' split: if_splits)
    show "x \<in> set (queued s')" if "x \<in> T" "th_state (threads s' x) = THREAD_STATE_READY" for x
      using core_midD(8) [OF m(1) that(1)] that(2) by (simp add: st' q' split: if_splits)
    show "cur_thread s' \<in> T" "cur_thread s' \<notin> set (queued s')"
      using t m(2) by (auto simp: q' c')
  qed
  have nq: "cur_thread s' \<notin> set (queued s')" using t(2) m(2) by (simp add: q' c')
  have "idle_ok T i s'"
    using m(3) R t(2) unfolding idle_ok_def by (auto simp: c')
  moreover have "\<not> in_scheduler s'" "scheduler_running s'" using core R by (simp_all add: core_def)
  ultimately show ?thesis using mid nq by (simp add: core_def)
qed

lemma readied_ring:
  fixes s s' :: "'a reap_state_scheme"
  assumes "readied T i t s s'" "ring_inv T s" "th_state (threads s t) \<noteq> THREAD_STATE_DEAD"
  shows "ring_inv T s'"
  by (rule ring_cong [OF assms(2)])
    (use assms(1,3) more_ring [of s' s] in \<open>auto simp: readied_def\<close>)

lemma made_ready_readied: "made_ready T t s s' \<Longrightarrow> readied T i t s s'"
  by (simp add: made_ready_def readied_def keeps_misc_def)

section \<open>Adding a thread\<close>

lemma add_thread_eq:
  assumes "t \<noteq> 0"
  obtains b n where "snd (scheduler_add_thread t s) = (ready_enqueue t (upd_thread t (\<lambda>th. th\<lparr>th_state := THREAD_STATE_READY,
        base_priority := priority th, dyn_priority := ucast (priority th), inherited_priority := ucast (priority th),
        has_inherited := False, sched_bucket := b\<rparr>) s))\<lparr>total_tasks := n\<rparr>"
proof -
  define b where "b = (if \<not> sched_bucket_explicit (threads s t) then 2 else sched_bucket (threads s t))"
  define a where "a = upd_thread t (\<lambda>th. th\<lparr>base_priority := priority th, dyn_priority := ucast (priority th),
                  inherited_priority := ucast (priority th), has_inherited := False\<rparr>)
                  (scheduler_thread_set_state t THREAD_STATE_READY s)"
  have "(if \<not> sched_bucket_explicit (threads a t) then upd_thread t (\<lambda>th. th\<lparr>sched_bucket := 2\<rparr>) a else a) =
      upd_thread t (\<lambda>th. th\<lparr>th_state := THREAD_STATE_READY,
        base_priority := priority th, dyn_priority := ucast (priority th), inherited_priority := ucast (priority th),
        has_inherited := False, sched_bucket := b\<rparr>) s"
    using assms by (simp add: a_def b_def scheduler_thread_set_state_def upd_thread_def)
  then show ?thesis
    using assms that unfolding scheduler_add_thread_def Let_def a_def [symmetric] by simp
qed

lemma add_thread_readied:
  assumes "rq_ok T s" "live_ok T" "t \<in> T" "t \<noteq> i"
  shows "readied T i t s (snd (scheduler_add_thread t s))"
    "joiner (threads (snd (scheduler_add_thread t s)) x) = joiner (threads s x)"
    "resched_pending (snd (scheduler_add_thread t s)) = resched_pending s"
proof -
  have t0: "t \<noteq> 0" using assms(2,3) by (auto simp: live_ok_def)
  obtain b n where e: "snd (scheduler_add_thread t s) = (ready_enqueue t (upd_thread t (\<lambda>th. th\<lparr>th_state := THREAD_STATE_READY,
        base_priority := priority th, dyn_priority := ucast (priority th), inherited_priority := ucast (priority th),
        has_inherited := False, sched_bucket := b\<rparr>) s))\<lparr>total_tasks := n\<rparr>"
    using add_thread_eq [OF t0] by blast
  define u where "u = upd_thread t (\<lambda>th. th\<lparr>th_state := THREAD_STATE_READY,
        base_priority := priority th, dyn_priority := ucast (priority th), inherited_priority := ucast (priority th),
        has_inherited := False, sched_bucket := b\<rparr>) s"
  define v where "v = ready_enqueue t u"
  have u: "rq_ok T u = rq_ok T s" "queued u = queued s"
    by (rule rq_ok_cong; simp add: u_def) (simp add: u_def queued_def)
  have v: "rq_ok T v" "set (queued v) = insert t (set (queued s))"
    using ready_enqueue_rq [of T u t] assms u by (simp_all add: v_def)
  have mono: "set (ready_queues s ! q) \<subseteq> set (ready_queues v ! q)" for q
    using enqueue_mono [of u q t] by (simp add: v_def u_def)
  have e': "snd (scheduler_add_thread t s) = v\<lparr>total_tasks := n\<rparr>" by (simp add: e v_def u_def)
  have f: "rq_ok T (v\<lparr>total_tasks := n\<rparr>)" "queued (v\<lparr>total_tasks := n\<rparr>) = queued v" for n
    using v(1) by (simp_all add: rq_ok_def queued_def)
  show "readied T i t s (snd (scheduler_add_thread t s))"
    unfolding readied_def e' f(2) v(2)
    using f(1) mono t0 assms(4) by (simp add: keeps_wait_def v_def u_def ready_enqueue_threads)
  show "joiner (threads (snd (scheduler_add_thread t s)) x) = joiner (threads s x)"
    "resched_pending (snd (scheduler_add_thread t s)) = resched_pending s"
    by (simp_all add: e' v_def u_def ready_enqueue_threads)
qed

lemma pcs_add:
  assumes p: "pcs_ok T p i s" "0 \<notin> T" and t: "t \<in> T" "p t = Fresh"
    and st: "\<And>x. th_state (threads s' x) = (if x = t then THREAD_STATE_READY else th_state (threads s x))"
    and k: "\<And>x. waitq_owner (threads s' x) = waitq_owner (threads s x)" "\<And>x. joiner (threads s' x) = joiner (threads s x)"
    and c: "joiner (threads s t) = 0 \<and> p' = p(t := Free) \<or>
      p c = Join_add t \<and> c \<in> T \<and> p' = p(c := Join_int t, t := Free)"
  shows "pcs_ok T p' i s'"
proof -
  have ti: "p i = Free" using p(1) by (simp add: pcs_ok_def)
  have pt: "p' t = Free" using c by auto
  have po: "p' x = p x \<or> p x = Join_add t \<and> p' x = Join_int t" if "x \<noteq> t" for x
    using c that by (cases "x = c") auto
  have own: "waitq_owner (threads s t) = None"
    using pcs_okD(4) [OF p(1) t(1)] t(2) by (cases "waitq_owner (threads s t)") auto
  have nj: "p' x \<noteq> Join_add t" if x: "x \<in> T" for x
  proof
    assume a: "p' x = Join_add t"
    then have "x \<noteq> t" using pt by auto
    then have "p x = Join_add t" using po a by force
    then have "joiner (threads s t) = x" using pcs_okD(7) [OF p(1) x] by blast
    moreover have "joiner (threads s t) = c" if "p c = Join_add t" "c \<in> T" using pcs_okD(7) [OF p(1) that(2)] that(1) by blast
    ultimately show False using c a x p(2) \<open>x \<noteq> t\<close> by (auto split: if_splits)
  qed
  show ?thesis
    unfolding pcs_ok_def k
  proof (intro conjI ballI allI impI)
    fix x assume x: "x \<in> T"
    note d = pcs_okD [OF p(1) x]
    show "(th_state (threads s' x) = THREAD_STATE_DEAD) = (p' x = Gone)"
      "(th_state (threads s' x) = THREAD_STATE_NEW) = (p' x = Fresh)" "th_state (threads s' x) \<noteq> THREAD_STATE_SLEEPING"
      using d(1-3) po [of x] pt by (auto simp: st)
    show "p' x \<in> {Wait_test q, Wait_block q, Wait_int q}" if "waitq_owner (threads s x) = Some q" for q
      using d(4) [OF that] po [of x] own that by (cases "x = t") auto
    show "(\<exists>q. p' x \<in> {Wait_test q, Wait_int q}) \<or> (\<exists>c. p' x \<in> {Join_add c, Join_int c, Join_done c})"
      if "th_state (threads s' x) = THREAD_STATE_BLOCKED"
      using that d(5) po [of x] by (fastforce simp: st split: if_splits)
    assume j: "joiner (threads s x) \<noteq> 0"
    let ?j = "joiner (threads s x)"
    note J = d(6) [OF j]
    have jt: "?j \<noteq> t" using J t(2) by auto
    show "?j \<in> T" using J by simp
    show "p' ?j \<in> {Join_add x, Join_int x, Join_done x}" using J po [OF jt] by auto
    show "th_state (threads s' ?j) = THREAD_STATE_BLOCKED" using J jt by (simp add: st)
    show "p' x \<noteq> Gone" using J po [of x] pt by (cases "x = t") auto
  next
    fix e u assume e: "e \<in> T" "p' e = Join_add u"
    have ut: "u \<noteq> t" using nj [OF e(1)] e(2) by auto
    have "e \<noteq> t" using e(2) pt by auto
    then have "p e = Join_add u" using po [of e] e(2) by auto
    note J = pcs_okD(7) [OF p(1) e(1) this]
    show "u \<in> T" "joiner (threads s u) = e" using J by simp_all
    show "p' u = Fresh" using J po [OF ut] by auto
  next
    show "p' i = Free" using ti po [of i] pt t(2) by (cases "i = t") auto
  qed
qed

lemma add_sys_ok:
  fixes s s' :: "'a reap_state_scheme"
  assumes ok: "sys_ok i (T, p, s)" and t: "t \<in> T" "p t = Fresh" and e: "scheduler_add_thread t s = (rc, s')"
    and c: "joiner (threads s t) = 0 \<and> p (cur_thread s) = Free \<and> p' = p(t := Free) \<or>
      p (cur_thread s) = Join_add t \<and> p' = p(cur_thread s := Join_int t, t := Free)"
  shows "sys_ok i (T, p', s')"
proof -
  note D = sys_okD [OF ok]
  have ti: "t \<noteq> i" "t \<noteq> cur_thread s" using t(2) D(15) c by auto
  have new: "th_state (threads s t) = THREAD_STATE_NEW" using pcs_okD(2) [OF D(3) t(1)] t(2) by simp
  have 0: "0 \<notin> T" using D(7) by (simp add: live_ok_def)
  have s': "s' = snd (scheduler_add_thread t s)" using e by simp
  note r = add_thread_readied [OF D(10,7) t(1) ti(1), folded s']
  have st: "th_state (threads s' x) = (if x = t then THREAD_STATE_READY else th_state (threads s x))"
    and own: "waitq_owner (threads s' x) = waitq_owner (threads s x)" and cur: "cur_thread s' = cur_thread s" for x
    using r(1) unfolding readied_def keeps_wait_def by blast+
  have nr: "th_state (threads s (cur_thread s)) \<noteq> THREAD_STATE_READY" using D(4) by (auto simp: cur_ok_def)
  have "core T i s'" by (rule readied_core [OF D(1) t(1) ti(2) D(11) r(1) nr])
  moreover have "pcs_ok T p' i s'"
    by (rule pcs_add [OF D(3) 0 t st own r(2), of _ "cur_thread s"]) (use c D(11) in auto)
  moreover have "cur_ok T p' s'"
    using D(4) c ti(2) unfolding cur_ok_def cur r(3) st by auto
  moreover have "ring_inv T s'" by (rule readied_ring [OF r(1) D(5)]) (simp add: new)
  ultimately show ?thesis by simp
qed

section \<open>Waiting for another thread\<close>

lemma pcs_join:
  assumes p: "pcs_ok T p i s" "0 \<notin> T" and c: "c \<in> T" "c \<noteq> i" "p c = Free" and t: "t \<in> T" "p t = Fresh" "joiner (threads s t) = 0"
    and th: "\<And>x. th_state (threads s' x) = (if x = c then THREAD_STATE_BLOCKED else th_state (threads s x))"
      "\<And>x. waitq_owner (threads s' x) = waitq_owner (threads s x)"
      "\<And>x. joiner (threads s' x) = (if x = t then c else joiner (threads s x))"
  shows "pcs_ok T (p(c := Join_add t)) i s'"
proof -
  have tc: "t \<noteq> c" using c t by auto
  have own: "waitq_owner (threads s c) = None"
    using pcs_okD(4) [OF p(1) c(1)] c(3) by (cases "waitq_owner (threads s c)") auto
  have nj: "joiner (threads s x) \<noteq> c" if "x \<in> T" for x
  proof
    assume j: "joiner (threads s x) = c"
    then have "joiner (threads s x) \<noteq> 0" using c(1) p(2) by auto
    then show False using pcs_okD(6) [OF p(1) that] j c(3) by auto
  qed
  show ?thesis
    unfolding pcs_ok_def th(2)
  proof (intro conjI ballI allI impI)
    fix x assume x: "x \<in> T"
    note d = pcs_okD [OF p(1) x]
    show "(th_state (threads s' x) = THREAD_STATE_DEAD) = ((p(c := Join_add t)) x = Gone)"
      "(th_state (threads s' x) = THREAD_STATE_NEW) = ((p(c := Join_add t)) x = Fresh)"
      "th_state (threads s' x) \<noteq> THREAD_STATE_SLEEPING"
      using d(1-3) by (auto simp: th)
    show "(p(c := Join_add t)) x \<in> {Wait_test q, Wait_block q, Wait_int q}" if "waitq_owner (threads s x) = Some q" for q
      using d(4) [OF that] own that by auto
    show "(\<exists>q. (p(c := Join_add t)) x \<in> {Wait_test q, Wait_int q}) \<or>
        (\<exists>e. (p(c := Join_add t)) x \<in> {Join_add e, Join_int e, Join_done e})"
      if "th_state (threads s' x) = THREAD_STATE_BLOCKED"
      using that d(5) by (auto simp: th split: if_splits)
    assume j: "joiner (threads s' x) \<noteq> 0"
    let ?j = "joiner (threads s' x)"
    have "?j \<in> T \<and> (p(c := Join_add t)) ?j \<in> {Join_add x, Join_int x, Join_done x} \<and>
        th_state (threads s' ?j) = THREAD_STATE_BLOCKED \<and> (p(c := Join_add t)) x \<noteq> Gone"
    proof (cases "x = t")
      case True
      then show ?thesis using c(1) t(2) tc by (simp add: th)
    next
      case False
      then show ?thesis using d(6) j nj [OF x] by (auto simp: th)
    qed
    then show "?j \<in> T" "(p(c := Join_add t)) ?j \<in> {Join_add x, Join_int x, Join_done x}"
      "th_state (threads s' ?j) = THREAD_STATE_BLOCKED" "(p(c := Join_add t)) x \<noteq> Gone" by blast+
  next
    fix e u assume e: "e \<in> T" "(p(c := Join_add t)) e = Join_add u"
    have "u \<in> T \<and> (p(c := Join_add t)) u = Fresh \<and> joiner (threads s' u) = e"
    proof (cases "e = c")
      case True
      then show ?thesis using e(2) t tc by (simp add: th)
    next
      case False
      then show ?thesis using pcs_okD(7) [OF p(1) e(1), of u] e t(3) c(3) p(2) by (auto simp: th)
    qed
    then show "u \<in> T" "(p(c := Join_add t)) u = Fresh" "joiner (threads s' u) = e" by blast+
  next
    show "(p(c := Join_add t)) i = Free" using c(2) p(1) by (simp add: pcs_ok_def)
  qed
qed

lemma joiner_core: "core T i (upd_thread t (\<lambda>th. th\<lparr>joiner := c\<rparr>) s) = core T i s" (is "core T i ?s = _")
proof -
  have "rq_ok T ?s = rq_ok T s" by (rule rq_ok_cong) simp_all
  moreover have "wq_ok T ?s = wq_ok T s" by (rule wq_ok_cong) simp_all
  moreover have "to_ok T ?s = to_ok T s" by (rule to_ok_cong) simp_all
  moreover have "queued ?s = queued s" "cur_thread ?s = cur_thread s" "ready_queues ?s = ready_queues s"
    "in_scheduler ?s = in_scheduler s" "scheduler_running ?s = scheduler_running s" "resched_pending ?s = resched_pending s"
    "th_state (threads ?s x) = th_state (threads s x)" "sched_bucket (threads ?s x) = sched_bucket (threads s x)" for x
    by (simp_all add: queued_def)
  ultimately show ?thesis by (simp only: core_def core_mid_def idle_ok_def)
qed

lemma join_sys_ok:
  fixes s :: "'a reap_state_scheme"
  assumes ok: "sys_ok i (T, p, s)" and c: "c = cur_thread s" "c \<noteq> i" "acts p s"
    and t: "t \<in> T" "p t = Fresh" "joiner (threads s t) = 0"
  shows "sys_ok i (T, p(c := Join_add t), scheduler_block (upd_thread t (\<lambda>th. th\<lparr>joiner := c\<rparr>) s))"
    (is "sys_ok i (T, _, scheduler_block ?u)")
proof -
  note D = sys_okD [OF ok]
  have cT: "c \<in> T" "c \<noteq> 0" "\<not> in_scheduler s" "p c = Free" using D(1,11,12) c by (simp_all add: core_def acts_def)
  have 0: "0 \<notin> T" using D(7) by (simp add: live_ok_def)
  have u: "cur_thread ?u = c" "\<not> in_scheduler ?u" using c(1) cT(3) by simp_all
  note b = block_threads [OF u(1) cT(2) u(2)]
  have run: "th_state (threads s c) = THREAD_STATE_RUNNING" using cur_runs [OF ok] c(1) cT(4) by auto
  have ru: "ring_inv T ?u" by (rule ring_cong [OF D(5)]) simp_all
  have core: "core T i (scheduler_block ?u)"
    by (rule block_core [OF _ u(1) cT(1) c(2)]) (simp add: joiner_core D(1))
  moreover have "pcs_ok T (p(c := Join_add t)) i (scheduler_block ?u)"
    by (rule pcs_join [OF D(3) 0 cT(1) c(2) cT(4) t]) (simp_all add: b(1))
  moreover have "cur_ok T (p(c := Join_add t)) (scheduler_block ?u)" using b(5,9) cT(1) by (simp add: cur_ok_def b(1))
  moreover have "ring_inv T (scheduler_block ?u)"
    by (rule block_ring [OF ru u(1) cT(2) u(2)]) (use run in auto)
  ultimately show ?thesis by simp
qed

section \<open>Exit\<close>

lemma pcs_exit:
  assumes p: "pcs_ok T p i s" "0 \<notin> T" and c: "c \<in> T" "c \<noteq> i" "p c = Free"
    and j: "j = joiner (threads s c)"
    and th: "\<And>x. th_state (threads s' x) = (if x = c then THREAD_STATE_DEAD
        else if x = j \<and> j \<noteq> 0 then THREAD_STATE_READY else th_state (threads s x))"
      "\<And>x. waitq_owner (threads s' x) = waitq_owner (threads s x)"
      "\<And>x. joiner (threads s' x) = (if x = c then 0 else joiner (threads s x))"
  shows "pcs_ok T (p(c := Gone)) i s'"
proof -
  have own: "waitq_owner (threads s c) = None"
    using pcs_okD(4) [OF p(1) c(1)] c(3) by (cases "waitq_owner (threads s c)") auto
  have pj: "p j \<in> {Join_add c, Join_int c, Join_done c}" "j \<in> T" if "j \<noteq> 0"
    using pcs_okD(6) [OF p(1) c(1)] that j by auto
  show ?thesis
    unfolding pcs_ok_def th(2)
  proof (intro conjI ballI allI impI)
    fix x assume x: "x \<in> T"
    note d = pcs_okD [OF p(1) x]
    show "(th_state (threads s' x) = THREAD_STATE_DEAD) = ((p(c := Gone)) x = Gone)"
      "(th_state (threads s' x) = THREAD_STATE_NEW) = ((p(c := Gone)) x = Fresh)"
      "th_state (threads s' x) \<noteq> THREAD_STATE_SLEEPING"
      using d(1-3) pj(1) by (auto simp: th(1))
    show "(p(c := Gone)) x \<in> {Wait_test q, Wait_block q, Wait_int q}" if "waitq_owner (threads s x) = Some q" for q
      using d(4) [OF that] own that by auto
    show "(\<exists>q. (p(c := Gone)) x \<in> {Wait_test q, Wait_int q}) \<or>
        (\<exists>e. (p(c := Gone)) x \<in> {Join_add e, Join_int e, Join_done e})"
      if "th_state (threads s' x) = THREAD_STATE_BLOCKED"
      using that d(5) by (auto simp: th(1) split: if_splits)
    assume y: "joiner (threads s' x) \<noteq> 0"
    let ?j = "joiner (threads s' x)"
    have x': "x \<noteq> c" "?j = joiner (threads s x)" using y by (auto simp: th(3) split: if_splits)
    note J = d(6) [folded x'(2), OF y]
    have "?j \<noteq> c" using J c(3) by auto
    moreover have "?j \<noteq> j \<or> j = 0" using J pj(1) x'(1) y by auto
    ultimately show "?j \<in> T" "(p(c := Gone)) ?j \<in> {Join_add x, Join_int x, Join_done x}"
      "th_state (threads s' ?j) = THREAD_STATE_BLOCKED" "(p(c := Gone)) x \<noteq> Gone"
      using J x'(1) by (auto simp: th(1))
  next
    fix e u assume e: "e \<in> T" "(p(c := Gone)) e = Join_add u"
    then have "p e = Join_add u" by (auto split: if_splits)
    note J = pcs_okD(7) [OF p(1) e(1) this]
    have "u \<noteq> c" using J c(3) by auto
    then show "u \<in> T" "(p(c := Gone)) u = Fresh" "joiner (threads s' u) = e" using J by (simp_all add: th(3))
  next
    show "(p(c := Gone)) i = Free" using c(2) p(1) by (simp add: pcs_ok_def)
  qed
qed

lemma exit_threads:
  assumes "cur_thread s = c" "c \<noteq> 0" and u: "u = scheduler_exit_wake_joiner c s"
  shows "threads (scheduler_exit_current s) = (threads u)(c := (threads u c)\<lparr>th_state := THREAD_STATE_DEAD\<rparr>)"
    "waitqs (scheduler_exit_current s) = waitqs u" "waitq_timeouts (scheduler_exit_current s) = waitq_timeouts u"
    "waitq_timeouts_initialized (scheduler_exit_current s) = waitq_timeouts_initialized u"
    "cur_thread (scheduler_exit_current s) = cur_thread u" "ready_queues (scheduler_exit_current s) = ready_queues u"
    "ready_tasks (scheduler_exit_current s) = ready_tasks u"
    "bucket_last_run_tick (scheduler_exit_current s) = bucket_last_run_tick u" "resched_pending (scheduler_exit_current s)"
    "in_scheduler (scheduler_exit_current s) = in_scheduler u"
    "scheduler_running (scheduler_exit_current s) = scheduler_running u"
    "sched_state.more (scheduler_exit_current s) = sched_state.more u"
  using assms(1,2) unfolding scheduler_exit_current_def thread_get_current_def Let_def u
  by (simp_all add: set_state_threads scheduler_task_set_state_def)

text \<open>The joiner, if there is one, is made ready.\<close>

lemma wake_joiner_ok:
  fixes s u :: "'a reap_state_scheme"
  assumes ok: "sys_ok i (T, p, s)" and c: "c = cur_thread s" "p c = Free"
    and j: "j = joiner (threads s c)" and u: "u = scheduler_exit_wake_joiner c s"
  shows "core T i u" "keeps_wait s u" "cur_thread u = c" "sched_state.more u = sched_state.more s"
    "th_state (threads u x) = (if x = j \<and> j \<noteq> 0 then THREAD_STATE_READY else th_state (threads s x))"
    "joiner (threads u x) = (if x = c then 0 else joiner (threads s x))"
    "reap_queued (threads u x) = reap_queued (threads s x)"
    "j \<noteq> 0 \<Longrightarrow> th_state (threads s j) = THREAD_STATE_BLOCKED" "j \<noteq> c"
proof -
  note D = sys_okD [OF ok]
  have cT: "c \<in> T" "c \<noteq> 0" using D(11,12) c(1) by simp_all
  have J: "j \<in> T" "th_state (threads s j) = THREAD_STATE_BLOCKED" if "j \<noteq> 0"
    using pcs_okD(6) [OF D(3) cT(1)] that j by auto
  have run: "th_state (threads s c) = THREAD_STATE_RUNNING" using cur_runs [OF ok] c by auto
  show jc: "j \<noteq> c" using J(2) run cT(2) by auto
  show "j \<noteq> 0 \<Longrightarrow> th_state (threads s j) = THREAD_STATE_BLOCKED" by (rule J(2))
  have "core T i u \<and> keeps_wait s u \<and> cur_thread u = c \<and> sched_state.more u = sched_state.more s \<and>
    (\<forall>x. th_state (threads u x) = (if x = j \<and> j \<noteq> 0 then THREAD_STATE_READY else th_state (threads s x)) \<and>
      joiner (threads u x) = (if x = c then 0 else joiner (threads s x)) \<and>
      reap_queued (threads u x) = reap_queued (threads s x))"
  proof (cases "j = 0")
    case True
    then have "u = s" using j by (simp add: u scheduler_exit_wake_joiner_def)
    then show ?thesis using D(1) c(1) True j by simp
  next
    case False
    define a where "a = upd_thread c (\<lambda>th. th\<lparr>joiner := 0\<rparr>) s"
    define b where "b = upd_thread j (\<lambda>th. th\<lparr>priority := 220, base_priority := 220, dyn_priority := 220,
                  inherited_priority := 220, has_inherited := False\<rparr>) a"
    have ub: "u = scheduler_wake j b"
      using False cT(2) j unfolding u scheduler_exit_wake_joiner_def Let_def b_def a_def by simp
    have ca: "core T i a" using D(1) unfolding a_def joiner_core .
    have kb: "keeps_run a b" "keeps_misc a b" "keeps_wait a b"
      by (simp_all add: b_def keeps_run_def keeps_misc_def keeps_wait_def)
    have wt: "wq_ok T b" "to_ok T b" using ca by (simp_all add: keeps_wait_ok [OF kb(3)] core_def core_mid_def)
    have cb: "core T i b" by (rule core_keeps [OF ca kb(1,2) wt])
    have sb: "th_state (threads b x) = th_state (threads s x)" "cur_thread b = c" "joiner (threads b x) = (if x = c then 0 else joiner (threads s x))"
      "sched_state.more b = sched_state.more s" "reap_queued (threads b x) = reap_queued (threads s x)" for x
      using c(1) by (simp_all add: b_def a_def)
    have rb: "rq_ok T b" using cb by (simp add: core_def core_mid_def)
    have mr: "made_ready T j b u" unfolding ub
      by (rule wake_made_ready(1) [OF rb D(7) J(1) [OF False]]) (simp add: sb jc)
    have core: "core T i u"
      by (rule readied_core [OF cb J(1) [OF False] _ _ made_ready_readied [OF mr]])
        (use jc cT run in \<open>simp_all add: sb\<close>)
    have kw: "keeps_wait s b" by (simp add: b_def a_def keeps_wait_def)
    have m: "keeps_wait b u" "keeps_misc b u"
      "th_state (threads u x) = (if x = j then THREAD_STATE_READY else th_state (threads b x))" for x
      using mr unfolding made_ready_def by blast+
    have m2: "cur_thread u = cur_thread b" "sched_state.more u = sched_state.more b" "joiner (threads u x) = joiner (threads b x)"
      "reap_queued (threads u x) = reap_queued (threads b x)" for x
      using m(2) unfolding keeps_misc_def by blast+
    show ?thesis using core keeps_trans(1) [OF kw m(1)] False by (simp add: m(3) m2 sb)
  qed
  then show "core T i u" "keeps_wait s u" "cur_thread u = c" "sched_state.more u = sched_state.more s"
    "th_state (threads u x) = (if x = j \<and> j \<noteq> 0 then THREAD_STATE_READY else th_state (threads s x))"
    "joiner (threads u x) = (if x = c then 0 else joiner (threads s x))"
    "reap_queued (threads u x) = reap_queued (threads s x)" by blast+
qed

lemma exit_sys_ok:
  fixes s :: "'a reap_state_scheme"
  assumes ok: "sys_ok i (T, p, s)" and c: "c = cur_thread s" "c \<noteq> i" "acts p s"
  shows "sys_ok i (T, p(c := Gone), scheduler_exit_current s)"
proof -
  note D = sys_okD [OF ok]
  define u where "u = scheduler_exit_wake_joiner c s"
  have cT: "c \<in> T" "c \<noteq> 0" "p c = Free" "0 \<notin> T"
    using D(7,11,12) c by (simp_all add: acts_def live_ok_def)
  note w = wake_joiner_ok [OF ok c(1) cT(3) refl u_def]
  note e = exit_threads [OF c(1) [symmetric] cT(2) u_def]
  let ?e = "scheduler_exit_current s"
  have run: "th_state (threads s c) = THREAD_STATE_RUNNING" using cur_runs [OF ok] c(1) cT(3) by auto
  have "core T i ?e"
    by (rule stop_core [OF w(1,3) cT(1) c(2), of _ THREAD_STATE_DEAD]) (simp_all add: e w(3) keeps_wait_def)
  moreover have own: "waitq_owner (threads u x) = waitq_owner (threads s x)" for x
    using w(2) by (simp add: keeps_wait_def)
  have "pcs_ok T (p(c := Gone)) i ?e"
    by (rule pcs_exit [OF D(3) cT(4,1) c(2) cT(3) refl]) (simp_all add: e(1) w(5,6) own)
  moreover have "cur_ok T (p(c := Gone)) ?e" using cT(1) by (simp add: cur_ok_def e(1,5,9) w(3))
  moreover have "ring_inv T ?e"
  proof -
    have l: "reap_list ?e = reap_list s" "ring_ok ?e = ring_ok s"
      using more_ring [of ?e s] by (simp_all add: reap_list_def ring_ok_def scheduler_reap_queue_len_def e(12) w(4))
    have c': "c \<notin> set (reap_list s)" using D(5) run unfolding ring_inv_def by auto
    have "cur_thread ?e = c" "reap_queued (threads ?e x) = reap_queued (threads s x)"
      "th_state (threads ?e x) = THREAD_STATE_DEAD \<longleftrightarrow> x = c \<or> th_state (threads s x) = THREAD_STATE_DEAD" for x
      using w(8) by (auto simp: e(1,5) w(3,5,7))
    then show ?thesis
      using D(5) c' run c(1) unfolding ring_inv_def l by auto
  qed
  ultimately show ?thesis by simp
qed

section \<open>The invariant depends on the live threads only\<close>

definition same_on :: "u64 set \<Rightarrow> 'a reap_state_scheme \<Rightarrow> 'a reap_state_scheme \<Rightarrow> bool" where
  "same_on T s s' \<longleftrightarrow> same_sched s (s'\<lparr>threads := threads s\<rparr>) \<and> (\<forall>x \<in> T. threads s' x = threads s x)"

lemma same_onD:
  assumes "same_on T s s'"
  shows "waitqs s' = waitqs s" "waitq_timeouts s' = waitq_timeouts s"
    "waitq_timeouts_initialized s' = waitq_timeouts_initialized s" "cur_thread s' = cur_thread s"
    "ready_queues s' = ready_queues s" "ready_tasks s' = ready_tasks s"
    "bucket_last_run_tick s' = bucket_last_run_tick s" "resched_pending s' = resched_pending s"
    "in_scheduler s' = in_scheduler s" "scheduler_running s' = scheduler_running s"
    "reap_queue s' = reap_queue s" "reap_head s' = reap_head s" "reap_tail s' = reap_tail s"
    "x \<in> T \<Longrightarrow> threads s' x = threads s x"
  using assms by (simp_all add: same_on_def same_sched_def)

lemma same_sched_refl [simp, intro]: "same_sched s s"
  by (simp add: same_sched_def)

lemma same_sched_trans [trans]: "same_sched s t \<Longrightarrow> same_sched t u \<Longrightarrow> same_sched s u"
  by (simp add: same_sched_def)

lemma same_on_refl [simp, intro]: "same_on T s s"
  by (simp add: same_on_def)

lemma same_on_trans [trans]: "same_on T s t \<Longrightarrow> same_on T t u \<Longrightarrow> same_on T s u"
  by (simp add: same_on_def same_sched_def)

lemma same_on_sched: "same_sched s s' \<Longrightarrow> same_on T s s'"
  by (simp add: same_on_def same_sched_def)

lemma cur_not_ready: "sys_ok i (T, p, s) \<Longrightarrow> th_state (threads s (cur_thread s)) \<noteq> THREAD_STATE_READY"
  by (auto simp: cur_ok_def)

lemma sys_ok_cong:
  fixes s s' :: "'a reap_state_scheme"
  assumes k: "same_on T s s'" and ok: "sys_ok i (T, p, s)"
  shows "sys_ok i (T, p, s')"
proof -
  note D = sys_okD [OF ok] and f = same_onD [OF k]
  have q: "queued s' = queued s" by (simp add: queued_def f)
  have sub: "x \<in> T" if "x \<in> set (queued s)" for x using D(10) that unfolding rq_ok_def by blast
  have "core_mid T s'"
  proof (rule core_midI)
    show "rq_ok T s'" using D(10) rq_ok_cong [of s' s T] by (simp add: f)
    show "wq_ok T s'" using D(8) wq_ok_cong [of s' s T] by (simp add: f)
    show "to_ok T s'" using D(9) to_ok_cong [of s' s T] by (simp add: f)
    show "th_state (threads s' x) = THREAD_STATE_READY" if "x \<in> set (queued s')" for x
      using core_midD(1) [OF D(2), of x] that f(14) [OF sub, of x] by (simp add: q)
    show "x = cur_thread s'" if "x \<in> T" "th_state (threads s' x) = THREAD_STATE_RUNNING" for x
      using core_midD(2) [OF D(2) that(1)] that(2) f(14) [OF that(1)] by (simp add: f(4))
    show "x \<in> set (queued s')" if "x \<in> T" "th_state (threads s' x) = THREAD_STATE_READY" for x
      using core_midD(8) [OF D(2) that(1)] that(2) f(14) [OF that(1)] by (simp add: q)
  qed (use D(7,11,13) in \<open>simp_all add: q f(4)\<close>)
  moreover have "idle_ok T i s'" using D(6,14) f(14) unfolding idle_ok_def f(4,5) by auto
  ultimately have "core T i s'" using D(1) f(9,10) by (simp add: core_def q f(4))
  moreover have "pcs_ok T p i s'"
    unfolding pcs_ok_def
  proof (intro conjI ballI allI impI)
    fix x assume x: "x \<in> T"
    note d = pcs_okD [OF D(3) x] and e = f(14) [OF x]
    show "(th_state (threads s' x) = THREAD_STATE_DEAD) = (p x = Gone)"
      "(th_state (threads s' x) = THREAD_STATE_NEW) = (p x = Fresh)" "th_state (threads s' x) \<noteq> THREAD_STATE_SLEEPING"
      unfolding e by (rule d)+
    show "p x \<in> {Wait_test q, Wait_block q, Wait_int q}" if "waitq_owner (threads s' x) = Some q" for q
      using that unfolding e by (rule d(4))
    show "(\<exists>q. p x \<in> {Wait_test q, Wait_int q}) \<or> (\<exists>c. p x \<in> {Join_add c, Join_int c, Join_done c})"
      if "th_state (threads s' x) = THREAD_STATE_BLOCKED" using that unfolding e by (rule d(5))
    assume "joiner (threads s' x) \<noteq> 0"
    then have J: "joiner (threads s x) \<in> T \<and> p (joiner (threads s x)) \<in> {Join_add x, Join_int x, Join_done x} \<and>
        th_state (threads s (joiner (threads s x))) = THREAD_STATE_BLOCKED \<and> p x \<noteq> Gone"
      unfolding e by (rule d(6))
    then show "joiner (threads s' x) \<in> T" "p (joiner (threads s' x)) \<in> {Join_add x, Join_int x, Join_done x}"
      "p x \<noteq> Gone" unfolding e by blast+
    show "th_state (threads s' (joiner (threads s' x))) = THREAD_STATE_BLOCKED"
      using J f(14) [of "joiner (threads s x)"] unfolding e by simp
  next
    fix x u assume x: "x \<in> T" "p x = Join_add u"
    note J = pcs_okD(7) [OF D(3) x]
    show "u \<in> T" "p u = Fresh" "joiner (threads s' u) = x" using J f(14) [of u] by simp_all
  next
    show "p i = Free" by (rule D(15))
  qed
  moreover have "cur_ok T p s'" using D(4) f(14) [OF D(11)] unfolding cur_ok_def f(4,8) by simp
  moreover have "ring_inv T s'" by (rule ring_cong [OF D(5)]) (simp_all add: f)
  ultimately show ?thesis by simp
qed

lemma insert_sys_ok:
  fixes s :: "'a reap_state_scheme"
  assumes ok: "sys_ok i (T, p, s)" and t: "t \<notin> T" "t \<noteq> 0" "card (insert t T) < 2 ^ 32"
    and new: "th_state (threads s t) = THREAD_STATE_NEW" "\<not> ready_queued (threads s t)" "waitq_owner (threads s t) = None"
      "\<not> wait_timeout_armed (threads s t)" "joiner (threads s t) = 0" "\<not> reap_queued (threads s t)"
  shows "sys_ok i (insert t T, p(t := Fresh), s)"
proof -
  note D = sys_okD [OF ok]
  have tc: "t \<noteq> cur_thread s" "t \<noteq> i" using t(1) D(11,14) by auto
  have "live_ok (insert t T)" using D(7) t by (simp add: live_ok_def)
  moreover have "rq_ok (insert t T) s" using D(10) t(1) new by (auto simp: rq_ok_def)
  moreover have "wq_ok (insert t T) s" using D(8) t(1) new by (auto simp: wq_ok_def)
  moreover have "to_ok (insert t T) s" using D(9) t(1) new by (auto simp: to_ok_def)
  ultimately have "core_mid (insert t T) s"
    using D(2) new(1) tc(1) unfolding core_mid_def by auto
  then have "core (insert t T) i s" using D(1) by (simp add: core_def idle_ok_def)
  moreover have "pcs_ok (insert t T) (p(t := Fresh)) i s"
  proof -
    have a: "joiner (threads s x) \<noteq> t" if "x \<in> T" for x
      using pcs_okD(6) [OF D(3) that] t(1,2) by auto
    have b: "p x \<noteq> Join_add t" if "x \<in> T" for x
      using pcs_okD(7) [OF D(3) that] t(1) by auto
    show ?thesis
      unfolding pcs_ok_def
    proof (intro conjI ballI allI impI)
      fix x assume x: "x \<in> insert t T"
      show "(th_state (threads s x) = THREAD_STATE_DEAD) = ((p(t := Fresh)) x = Gone)"
        "(th_state (threads s x) = THREAD_STATE_NEW) = ((p(t := Fresh)) x = Fresh)"
        "th_state (threads s x) \<noteq> THREAD_STATE_SLEEPING"
        using pcs_okD(1-3) [OF D(3), of x] x new(1) by auto
      show "(p(t := Fresh)) x \<in> {Wait_test q, Wait_block q, Wait_int q}" if "waitq_owner (threads s x) = Some q" for q
        using pcs_okD(4) [OF D(3) _ that] that x new(3) by auto
      show "(\<exists>q. (p(t := Fresh)) x \<in> {Wait_test q, Wait_int q}) \<or>
          (\<exists>e. (p(t := Fresh)) x \<in> {Join_add e, Join_int e, Join_done e})"
        if "th_state (threads s x) = THREAD_STATE_BLOCKED"
        using pcs_okD(5) [OF D(3) _ that] that x new(1) by auto
      assume j: "joiner (threads s x) \<noteq> 0"
      then have x: "x \<in> T" "x \<noteq> t" using x new(5) by auto
      note J = pcs_okD(6) [OF D(3) x(1) j]
      show "joiner (threads s x) \<in> insert t T" "th_state (threads s (joiner (threads s x))) = THREAD_STATE_BLOCKED"
        "(p(t := Fresh)) (joiner (threads s x)) \<in> {Join_add x, Join_int x, Join_done x}" "(p(t := Fresh)) x \<noteq> Gone"
        using J a [OF x(1)] x(2) by auto
    next
      fix e u assume e: "e \<in> insert t T" "(p(t := Fresh)) e = Join_add u"
      then have e': "e \<in> T" "p e = Join_add u" by (auto split: if_splits)
      then show "u \<in> insert t T" "(p(t := Fresh)) u = Fresh" "joiner (threads s u) = e"
        using pcs_okD(7) [OF D(3) e'] b [OF e'(1)] by auto
    next
      show "(p(t := Fresh)) i = Free" using tc(2) D(15) by simp
    qed
  qed
  moreover have "cur_ok (insert t T) (p(t := Fresh)) s" using D(4) tc(1) by (simp add: cur_ok_def)
  moreover have "ring_inv (insert t T) s"
    using D(5) new t(1) unfolding ring_inv_def by (auto simp: subset_eq)
  ultimately show ?thesis by simp
qed

section \<open>What the lower layers leave alone\<close>

lemma heap_same_sched:
  fixes s t :: "'a reap_state_scheme"
  assumes "heap_state.more t = heap_state.more s"
  shows "same_sched s t"
  using assms by (cases s; cases t; simp add: same_sched_def)

lemma vmap_same_sched:
  fixes s t :: "'a reap_state_scheme"
  assumes "vmap_state.more t = vmap_state.more s"
  shows "same_sched s t"
  using assms by (cases s; cases t; simp add: same_sched_def)

lemma kmalloc_same: "kmalloc n s = Some (a, t) \<Longrightarrow> same_sched s t"
  by (rule heap_same_sched) (rule kmalloc_more)

lemma kfree_same: "kfree a s = Some t \<Longrightarrow> same_sched s t"
  by (rule heap_same_sched) (rule kfree_more)

lemma acquire_from_same: "acquire_from xs s = Some (a, t) \<Longrightarrow> same_sched s t"
proof (induction xs arbitrary: s)
  case Nil
  then have "same_sched (s\<lparr>stack_cache_misses := stack_cache_misses s + 1\<rparr>) t"
    by (simp add: stack_cache_miss_def kmalloc_same)
  then show ?case by (simp add: same_sched_def)
next
  case (Cons x xs)
  let ?s = "s\<lparr>stack_cache := rev xs, stack_cache_hits := stack_cache_hits s + 1\<rparr>"
  have s: "same_sched s ?s" by (simp add: same_sched_def)
  consider "x = 0" "stack_cache_miss ?s = Some (a, t)"
    | u where "kfree x (?s\<lparr>stack_cache_poison_failures := stack_cache_poison_failures ?s + 1\<rparr>) = Some u" "acquire_from xs u = Some (a, t)"
    | "t = ?s"
    using Cons.prems by (auto simp: Let_def split: if_splits option.splits)
  then show ?case
  proof cases
    case 1
    then have "same_sched (?s\<lparr>stack_cache_misses := stack_cache_misses ?s + 1\<rparr>) t"
      unfolding stack_cache_miss_def by (intro kmalloc_same)
    then show ?thesis by (simp add: same_sched_def)
  next
    case 2
    have "same_sched s (?s\<lparr>stack_cache_poison_failures := stack_cache_poison_failures ?s + 1\<rparr>)" by (simp add: same_sched_def)
    also note kfree_same [OF 2(1)]
    also note Cons.IH [OF 2(2)]
    finally show ?thesis .
  qed (simp add: s)
qed

lemma retire_same: "task_kernel_stack_retire a n s = Some t \<Longrightarrow> same_sched s t"
proof -
  assume r: "task_kernel_stack_retire a n s = Some t"
  define m where "m = mem_set (pmem s) (X86_64_VIRT_TO_PHYS a) STACK_POISON_BYTE 32768"
  define u where "u = s\<lparr>pmem := m,
      stack_cache_retired := stack_cache_retired s + 1\<rparr>"
  have u: "same_sched s u" by (simp add: u_def same_sched_def)
  have e: "task_kernel_stack_retire a n s = (if a = 0 \<or> n \<noteq> KERNEL_STACK_SIZE then Some s
      else if length (stack_cache u) < 32 then Some (u\<lparr>stack_cache := stack_cache u @ [a]\<rparr>) else kfree a u)"
    unfolding task_kernel_stack_retire_def Let_def m_def [symmetric] by (simp add: u_def)
  have c: "same_sched s (u\<lparr>stack_cache := xs\<rparr>)" for xs using u by (simp add: same_sched_def)
  show ?thesis
  proof (cases "a = 0 \<or> n \<noteq> KERNEL_STACK_SIZE")
    case True
    then show ?thesis using r unfolding e if_P [OF True] by simp
  next
    case False
    note r' = r [unfolded e if_not_P [OF False]]
    show ?thesis
    proof (cases "length (stack_cache u) < 32")
      case True
      then show ?thesis using r' c by (simp only: if_True option.inject) metis
    next
      case False
      have "kfree a u = Some t" using r' unfolding if_not_P [OF False] .
      then show ?thesis by (rule same_sched_trans [OF u kfree_same])
    qed
  qed
qed

lemma unlink_same: "same_sched s (unlink_thread a t s)"
  by (simp add: unlink_thread_def same_sched_def upd_ptask_def)

lemma thread_destroy_same: "thread_destroy t s = Some s' \<Longrightarrow> same_sched s s'"
proof -
  assume d: "thread_destroy t s = Some s'"
  show ?thesis
  proof (cases "t = 0")
    case True
    then show ?thesis using d by (simp add: thread_destroy_def)
  next
    case False
    define u where "u = (if th_task (threads s t) \<noteq> 0 then unlink_thread (th_task (threads s t)) t s else s)"
    have u: "same_sched s u" using unlink_same by (auto simp: u_def)
    obtain v where v: "(if th_stack (threads u t) \<noteq> 0
        then task_kernel_stack_retire (th_stack (threads u t)) (th_stack_size (threads u t)) u else Some u) = Some v"
      "kfree t v = Some s'"
      using d False unfolding thread_destroy_def Let_def u_def [symmetric] by (auto split: option.splits if_splits)
    have "same_sched u v" using v(1) retire_same by (auto split: if_splits)
    with u kfree_same [OF v(2)] same_sched_trans show ?thesis by blast
  qed
qed

lemma destroy_threads_same: "destroy_threads ts s = Some s' \<Longrightarrow> same_sched s s'"
  by (induction ts arbitrary: s)
    (auto split: option.splits dest: thread_destroy_same intro: same_sched_trans)

lemma release_fds_same: "keeps_sched release \<Longrightarrow> release_fds release task is s = Some s' \<Longrightarrow> same_sched s s'"
proof (induction "is" arbitrary: s)
  case (Cons i "is")
  obtain u where u: "(if fd_table (tasks s task) ! i \<noteq> 0 then release task i s else Some s) = Some u"
    "release_fds release task is u = Some s'"
    using Cons.prems(2) by (auto split: option.splits)
  have "same_sched s u" using u(1) Cons.prems(1) by (auto simp: keeps_sched_def split: if_splits)
  then show ?case using Cons.IH [OF Cons.prems(1) u(2)] by (rule same_sched_trans)
qed simp

section \<open>Destroying an address space\<close>

lemma remove_loop_more:
  "remove_loop s e own r removed old es st = Some (rc, es', st') \<Longrightarrow> vm_state.more st' = vm_state.more st"
proof (induction es arbitrary: removed old st)
  case (Cons cur es)
  define rs where "rs = (if me_start cur < s then s else me_start cur)"
  define re where "re = (if e < me_end cur then e else me_end cur)"
  show ?case
  proof (cases "re \<le> rs")
    case True
    then show ?thesis using Cons by (simp add: Let_def rs_def re_def)
  next
    case False
    obtain u where u: "(if own then unmap_pages r (page_steps rs re) st else Some st) = Some u"
      using Cons.prems False unfolding remove_loop.simps Let_def rs_def [symmetric] re_def [symmetric]
      by (cases "if own then unmap_pages r (page_steps rs re) st else Some st") simp_all
    have mu: "vm_state.more u = vm_state.more st" by (rule unmap_some_more [OF u])
    let ?t = "cur\<lparr>me_start := re, me_offset := me_offset cur + (re - me_start cur)\<rparr>"
    define A where "A = (if me_object cur \<noteq> 0 then vm_object_unref (me_object cur) u else Some u)"
    define w where "w = (if me_object ?t \<noteq> 0 then vm_object_ref (me_object ?t) u else u)"
    have A: "vm_state.more v = vm_state.more st" if "A = Some v" for v
      using that unref_some_more mu unfolding A_def by metis
    have w: "vm_state.more w = vm_state.more st" using mu by (simp add: w_def object_ref_more)
    have eq: "remove_loop s e own r removed old (cur # es) st =
      (if rs = me_start cur \<and> re = me_end cur then
         (case A of None \<Rightarrow> None | Some st \<Rightarrow> remove_loop s e own r True old es st)
       else if rs = me_start cur then
         remove_loop s e own r True (old @ [cur\<lparr>me_start := re, me_offset := me_offset cur + (re - rs)\<rparr>]) es u
       else if re = me_end cur then remove_loop s e own r True (old @ [cur\<lparr>me_end := rs\<rparr>]) es u
       else if VM_MAP_MAX_ENTRIES \<le> length old + 1 + length es then Some (RDNX_E_BUSY, old @ cur # es, u)
       else remove_loop s e own r True (old @ [cur\<lparr>me_end := rs\<rparr>, ?t]) es w)"
      unfolding remove_loop.simps Let_def rs_def [symmetric] re_def [symmetric] u A_def w_def using False by simp
    show ?thesis
      using Cons.prems Cons.IH A w mu unfolding eq by (fastforce split: if_splits option.splits)
  qed
qed simp

lemma map_remove_more: "vm_map_remove mp a n r s = Some (rc, t) \<Longrightarrow> vmap_state.more t = vmap_state.more s"
  by (auto simp: vm_map_remove_def Let_def dest!: remove_loop_more vmap_fields(3) split: if_splits option.splits)

lemma destroy_loop_more:
  assumes "destroy_loop mp r s = Some t"
  shows "vmap_state.more t = vmap_state.more s"
  using _ assms
proof (rule destroy_loop.raw_induct [of "\<lambda>_ _ s t. vmap_state.more t = vmap_state.more s"])
  fix f :: "u64 \<Rightarrow> u64 \<Rightarrow> 'a vmap_state_scheme \<Rightarrow> 'a vmap_state_scheme option" and mp r s t
  assume IH: "\<And>mp r s t. f mp r s = Some t \<Longrightarrow> vmap_state.more t = vmap_state.more s"
    and b: "(case mp_entries (vm_maps s mp) of [] \<Rightarrow> Some s
      | e # _ \<Rightarrow> (case vm_map_remove mp (me_start e) (me_end e - me_start e) r s of
             None \<Rightarrow> None | Some (_, s) \<Rightarrow> f mp r s)) = Some t"
  show "vmap_state.more t = vmap_state.more s"
  proof (cases "mp_entries (vm_maps s mp)")
    case Nil
    then show ?thesis using b by simp
  next
    case (Cons e es)
    then obtain rc u where u: "vm_map_remove mp (me_start e) (me_end e - me_start e) r s = Some (rc, u)" "f mp r u = Some t"
      using b by (auto split: option.splits)
    show ?thesis using IH [OF u(2)] map_remove_more [OF u(1)] by simp
  qed
qed

lemma map_destroy_more: "vm_map_destroy mp s = Some t \<Longrightarrow> vmap_state.more t = vmap_state.more s"
proof -
  have e: "unref_entries es s = Some t \<Longrightarrow> vm_state.more t = vm_state.more s" for es and s t :: "'a vmap_state_scheme"
    by (induction es arbitrary: s) (auto dest!: unref_some_more split: option.splits)
  assume "vm_map_destroy mp s = Some t"
  then show ?thesis
    by (auto simp: vm_map_destroy_def dest!: e kfree_more more_vm vmap_fields(3) split: if_splits option.splits)
qed

lemma vm_task_destroy_more: "vm_task_destroy task s = Some t \<Longrightarrow> vmap_state.more t = vmap_state.more s"
  by (auto simp: vm_task_destroy_def upd_task_def dest!: map_destroy_more destroy_loop_more split: if_splits option.splits)

lemma task_destroy_same:
  assumes k: "keeps_sched release" and d: "task_destroy release task s = Some s'"
  shows "same_sched s s'"
proof (cases "task = 0")
  case True
  then show ?thesis using d by (simp add: task_destroy_def)
next
  case False
  define u where "u = s\<lparr>all_tasks := remove1 task (all_tasks s),
      all_tasks_by_id := (all_tasks_by_id s)(task_id (tasks s task) := None)\<rparr>"
  have u: "same_sched s u" by (simp add: u_def same_sched_def)
  have e: "task_destroy release task s = (case destroy_threads (tk_threads (tasks u task)) u of None \<Rightarrow> None
      | Some s \<Rightarrow> (case release_fds release task [0..<TASK_MAX_FD] s of None \<Rightarrow> None
      | Some s \<Rightarrow> (case vm_task_destroy task s of None \<Rightarrow> None | Some s \<Rightarrow> kfree task s)))"
    using False by (simp add: task_destroy_def u_def)
  obtain v w x where "destroy_threads (tk_threads (tasks u task)) u = Some v"
    "release_fds release task [0..<TASK_MAX_FD] v = Some w" "vm_task_destroy task w = Some x" "kfree task x = Some s'"
    using d unfolding e by (auto simp only: split: option.splits)
  then have "same_sched u v" "same_sched v w" "same_sched w x" "same_sched x s'"
    using destroy_threads_same release_fds_same [OF k] vmap_same_sched [OF vm_task_destroy_more] kfree_same by blast+
  with u show ?thesis using same_sched_trans by blast
qed

section \<open>Creating a thread\<close>

lemma attach_same: "same_sched s (attach_thread task t s)"
  by (simp add: attach_thread_def same_sched_def upd_ptask_def)

lemma created:
  fixes s v :: "'a reap_state_scheme"
  assumes k: "same_sched s v" and s': "s' = attach_thread task t (upd_thread t (init_thread tid task fr pc entry arg stack) v)"
    and t: "t \<notin> T"
  shows "same_on T s s'" "threads s' t = init_thread tid task fr pc entry arg stack (threads s t)"
proof -
  let ?u = "upd_thread t (init_thread tid task fr pc entry arg stack) v"
  have "same_on T s v" by (rule same_on_sched [OF k])
  moreover have "same_on T v ?u" using t by (auto simp: same_on_def same_sched_def)
  moreover have "same_on T ?u s'" unfolding s' by (rule same_on_sched [OF attach_same])
  ultimately show "same_on T s s'" using same_on_trans by blast
  have "threads s' = threads ?u" using attach_same [of ?u task t] unfolding s' same_sched_def by blast
  then show "threads s' t = init_thread tid task fr pc entry arg stack (threads s t)"
    using k by (simp add: same_sched_def)
qed

lemma create_spec:
  assumes c: "thread_create task entry arg s = Some (t, s')" "t \<noteq> 0" and t: "t \<notin> T"
  shows "same_on T s s' \<and> (\<exists>tid fr pc stack. threads s' t = init_thread tid task fr pc entry arg stack (threads s t))"
proof -
  obtain u v stack where 1: "kmalloc sizeof_thread s = Some (t, u)" "task_kernel_stack_acquire u = Some (stack, v)"
    and 2: "Some (t, s') = (let frame = frame_place stack;
             s = v\<lparr>pmem := initial_frame frame (thread_trampoline v) (kernel_cs v) stack (pmem v)\<rparr>;
             tid = next_thread_id s;
             s = s\<lparr>next_thread_id := tid + 1\<rparr>;
             s = upd_thread t (init_thread tid task frame (thread_trampoline s) entry arg stack) s
         in Some (t, attach_thread task t s))"
    using c by (auto simp: thread_create_def Let_def split: if_splits option.splits)
  define m where "m = initial_frame (frame_place stack) (thread_trampoline v) (kernel_cs v) stack (pmem v)"
  have "same_sched u v" using acquire_from_same 1(2) by (simp add: task_kernel_stack_acquire_def)
  then have sv: "same_sched s (v\<lparr>pmem := m, next_thread_id := n\<rparr>)" for n
    using kmalloc_same [OF 1(1)] by (simp add: same_sched_def)
  have "s' = attach_thread task t (upd_thread t (init_thread (next_thread_id v) task (frame_place stack) (thread_trampoline v)
      entry arg stack) (v\<lparr>pmem := m, next_thread_id := next_thread_id v + 1\<rparr>))"
    using 2 unfolding Let_def m_def [symmetric] by simp
  from created [OF sv this t] show ?thesis by blast
qed

lemma clone_spec:
  assumes c: "thread_create_user_clone task frame s = Some (t, s')" "t \<noteq> 0" and t: "t \<notin> T"
  shows "same_on T s s' \<and> (\<exists>tid fr pc stack. threads s' t = init_thread tid task fr pc 0 0 stack (threads s t))"
proof -
  obtain u v stack where 1: "kmalloc sizeof_thread s = Some (t, u)" "task_kernel_stack_acquire u = Some (stack, v)"
    and 2: "Some (t, s') = (let child_frame = frame_place stack;
             p = X86_64_VIRT_TO_PHYS child_frame;
             m = mem_copy (pmem v) p (X86_64_VIRT_TO_PHYS frame) 208;
             s = v\<lparr>pmem := store64 m (p + 144) 0\<rparr>;
             tid = next_thread_id s;
             s = s\<lparr>next_thread_id := tid + 1\<rparr>;
             s = upd_thread t (init_thread tid task child_frame (load64 (pmem s) (p + 168)) 0 0 stack) s
         in Some (t, attach_thread task t s))"
    using c by (auto simp: thread_create_user_clone_def Let_def split: if_splits option.splits)
  define p where "p = X86_64_VIRT_TO_PHYS (frame_place stack)"
  define m where "m = store64 (mem_copy (pmem v) p (X86_64_VIRT_TO_PHYS frame) 208) (p + 144) 0"
  have "same_sched u v" using acquire_from_same 1(2) by (simp add: task_kernel_stack_acquire_def)
  then have sv: "same_sched s (v\<lparr>pmem := m, next_thread_id := n\<rparr>)" for n
    using kmalloc_same [OF 1(1)] by (simp add: same_sched_def)
  have "s' = attach_thread task t (upd_thread t (init_thread (next_thread_id v) task (frame_place stack) (load64 m (p + 168))
      0 0 stack) (v\<lparr>pmem := m, next_thread_id := next_thread_id v + 1\<rparr>))"
    using 2 unfolding Let_def p_def [symmetric] m_def [symmetric] by simp
  from created [OF sv this t] show ?thesis by blast
qed

lemma create_sys_ok:
  fixes s s' :: "'a reap_state_scheme"
  assumes ok: "sys_ok i (T, p, s)" and t: "t \<noteq> 0" "t \<notin> T" "card (insert t T) < 2 ^ 32"
    and c: "thread_create task entry arg s = Some (t, s') \<or> thread_create_user_clone task frame s = Some (t, s')"
  shows "sys_ok i (insert t T, p(t := Fresh), s')"
proof -
  obtain tid fr pc en ar st where k: "same_on T s s'" "threads s' t = init_thread tid task fr pc en ar st (threads s t)"
    using c create_spec [OF _ t(1,2)] clone_spec [OF _ t(1,2)] by metis
  show ?thesis
    by (rule insert_sys_ok [OF sys_ok_cong [OF k(1) ok] t(2,1,3)]) (simp_all add: k(2) init_thread_def)
qed

section \<open>Reaping a thread\<close>

lemma reap_list_first:
  assumes r: "ring_ok s" and d: "scheduler_reap_dequeue s = (t, u)" "reap_head s \<noteq> reap_tail s"
  shows "reap_list s = t # reap_list u" "ring_ok u"
proof -
  have b: "reap_head s < 64" "reap_tail s < 64" "length (reap_queue s) = 64" using r by (simp_all add: ring_ok_def)
  have u: "t = reap_queue s ! reap_head s" "reap_queue u = (reap_queue s)[reap_head s := 0]"
    "reap_head u = (reap_head s + 1) mod 64" "reap_tail u = reap_tail s"
    using d by (auto simp: scheduler_reap_dequeue_def)
  have len: "scheduler_reap_queue_len s = Suc (scheduler_reap_queue_len u)"
  proof (cases "reap_head s < reap_tail s")
    case True
    then show ?thesis using b by (simp add: scheduler_reap_queue_len_def u mod_if split: if_splits) arith
  next
    case False
    then have "reap_tail s + 64 - reap_head s < 64" using d(2) by arith
    then show ?thesis using b d(2)
      by (cases "reap_head s = 63") (simp_all add: scheduler_reap_queue_len_def u Suc_diff_le)
  qed
  have el: "reap_queue u ! ((reap_head u + k) mod 64) = reap_queue s ! ((reap_head s + Suc k) mod 64)"
    if "k < scheduler_reap_queue_len u" for k
  proof -
    have "(reap_head u + k) mod 64 = (reap_head s + Suc k) mod 64" by (simp add: u mod_simps)
    moreover have "(reap_head s + Suc k) mod 64 \<noteq> reap_head s"
      using that len reap_len_bound [OF r] b by (simp add: mod_if split: if_splits) arith
    ultimately show ?thesis by (simp add: u)
  qed
  have "reap_list s = map (\<lambda>k. reap_queue s ! ((reap_head s + k) mod 64)) (0 # map Suc [0..<scheduler_reap_queue_len u])"
    by (simp only: reap_list_def len upt_conv_Cons [OF zero_less_Suc] map_Suc_upt)
  also have "\<dots> = t # reap_list u" using el b by (simp add: reap_list_def u(1))
  finally show "reap_list s = t # reap_list u" .
  show "ring_ok u" using b by (simp add: ring_ok_def u)
qed

lemma dequeue_fields:
  assumes "scheduler_reap_dequeue s = (t, u)"
  shows "threads u = threads s" "waitqs u = waitqs s" "waitq_timeouts u = waitq_timeouts s"
    "waitq_timeouts_initialized u = waitq_timeouts_initialized s" "cur_thread u = cur_thread s"
    "ready_queues u = ready_queues s" "ready_tasks u = ready_tasks s" "bucket_last_run_tick u = bucket_last_run_tick s"
    "resched_pending u = resched_pending s" "in_scheduler u = in_scheduler s"
    "scheduler_running u = scheduler_running s"
  using assms by (auto simp: scheduler_reap_dequeue_def split: if_splits)

text \<open>A dead thread that is not the current one is on no queue, and no thread refers to it.\<close>

lemma dead_detached:
  assumes ok: "sys_ok i (T, p, s)" and t: "t \<in> T" "th_state (threads s t) = THREAD_STATE_DEAD"
  shows "t \<noteq> i" "t \<notin> set (queued s)" "waitq_owner (threads s t) = None" "t \<notin> set (waitq_timeouts s)"
    "\<And>q. t \<notin> set (wq_threads (waitqs s q))" "\<And>x. x \<in> T \<Longrightarrow> joiner (threads s x) \<noteq> t"
    "\<And>x. x \<in> T \<Longrightarrow> p x \<noteq> Join_add t"
proof -
  note D = sys_okD [OF ok]
  have g: "p t = Gone" using pcs_okD(1) [OF D(3) t(1)] t(2) by simp
  show "t \<noteq> i" using g D(15) by auto
  show "t \<notin> set (queued s)" using core_midD(1) [OF D(2), of t] t(2) by auto
  show o: "waitq_owner (threads s t) = None"
    using pcs_okD(4) [OF D(3) t(1)] g by (cases "waitq_owner (threads s t)") auto
  show "t \<notin> set (waitq_timeouts s)" using D(9) t(1) o by (auto simp: to_ok_def)
  show "t \<notin> set (wq_threads (waitqs s q))" for q using D(8) t(1) o unfolding wq_ok_def by (metis option.distinct(1))
  show "joiner (threads s x) \<noteq> t" if "x \<in> T" for x
  proof
    assume j: "joiner (threads s x) = t"
    then have "joiner (threads s x) \<noteq> 0" using D(7) t(1) unfolding live_ok_def by auto
    then show False using pcs_okD(6) [OF D(3) that] g j by auto
  qed
  show "p x \<noteq> Join_add t" if "x \<in> T" for x
    using pcs_okD(7) [OF D(3) that] g by auto
qed

lemma remove_sys_ok:
  fixes s u :: "'a reap_state_scheme"
  assumes ok: "sys_ok i (T, p, s)" and d: "scheduler_reap_dequeue s = (t, u)" "t \<noteq> 0"
  shows "sys_ok i (T - {t}, p, u)"
proof -
  note D = sys_okD [OF ok] and f = dequeue_fields [OF d(1)]
  have ne: "reap_head s \<noteq> reap_tail s" using d by (auto simp: scheduler_reap_dequeue_def split: if_splits)
  have ro: "ring_ok s" using D(5) by (simp add: ring_inv_def)
  note l = reap_list_first [OF ro d(1) ne]
  have t: "t \<in> T" "th_state (threads s t) = THREAD_STATE_DEAD" "t \<noteq> cur_thread s"
    using D(5) l(1) unfolding ring_inv_def by auto
  note dd = dead_detached [OF ok t(1,2)]
  have q: "queued u = queued s" by (simp add: queued_def f)
  have fin: "finite T" "card T < 2 ^ 32" "0 \<notin> T" using D(7) by (simp_all add: live_ok_def)
  have "core_mid (T - {t}) u"
  proof (rule core_midI)
    show "live_ok (T - {t})" using fin card_Diff1_le [of T t] by (simp add: live_ok_def)
    have "rq_ok (T - {t}) s" using D(10) dd(2) unfolding rq_ok_def by blast
    then show "rq_ok (T - {t}) u" using rq_ok_cong [of u s "T - {t}"] by (simp add: f)
    have "wq_ok (T - {t}) s" using D(8) dd(5) unfolding wq_ok_def by blast
    then show "wq_ok (T - {t}) u" using wq_ok_cong [of u s "T - {t}"] by (simp add: f)
    have "to_ok (T - {t}) s" using D(9) dd(4) unfolding to_ok_def by blast
    then show "to_ok (T - {t}) u" using to_ok_cong [of u s "T - {t}"] by (simp add: f)
    show "th_state (threads u x) = THREAD_STATE_READY" if "x \<in> set (queued u)" for x
      using core_midD(1) [OF D(2)] that by (simp add: q f)
    show "x = cur_thread u" if "x \<in> T - {t}" "th_state (threads u x) = THREAD_STATE_RUNNING" for x
      using core_midD(2) [OF D(2), of x] that by (simp add: f)
    show "x \<in> set (queued u)" if "x \<in> T - {t}" "th_state (threads u x) = THREAD_STATE_READY" for x
      using core_midD(8) [OF D(2), of x] that by (simp add: q f)
  qed (use D(11,13) t(3) in \<open>simp_all add: q f\<close>)
  moreover have "idle_ok (T - {t}) i u" using D(6) dd(1) by (simp add: idle_ok_def f)
  ultimately have "core (T - {t}) i u" using D(1) by (simp add: core_def q f)
  moreover have "pcs_ok (T - {t}) p i u"
  proof -
    have "pcs_ok (T - {t}) p i s"
      using D(3) dd(6,7) unfolding pcs_ok_def by blast
    then show ?thesis using pcs_cong [OF f(1)] by blast
  qed
  moreover have "cur_ok (T - {t}) p u" using D(4) t(3) by (simp add: cur_ok_def f)
  moreover have "ring_inv (T - {t}) u"
    using D(5) l unfolding ring_inv_def f by auto
  ultimately show ?thesis by simp
qed

lemma reap_owner_same:
  assumes k: "keeps_sched release" and r: "reap_owner release owner s = Some s'"
  shows "same_sched s s'"
proof -
  have u: "same_sched s (scheduler_task_set_state owner st s)" for st
    by (simp add: scheduler_task_set_state_def same_sched_def upd_ptask_def)
  have "s' = s \<or> (\<exists>st. s' = scheduler_task_set_state owner st s \<or>
      task_destroy release owner (scheduler_task_set_state owner st s) = Some s')"
    using r unfolding reap_owner_def by (auto split: if_splits)
  then show ?thesis using u same_sched_trans [OF u] task_destroy_same [OF k] by blast
qed

lemma reap_thread_same:
  assumes k: "keeps_sched release" and r: "reap_thread release t s = Some s'" and t: "t \<notin> T"
  shows "same_on T s s'"
proof -
  have upd: "same_on T v (upd_thread t g v)" for g and v :: "'a reap_state_scheme"
    using t by (auto simp: same_on_def same_sched_def)
  define a where "a = upd_thread t (\<lambda>th. th\<lparr>reap_queued := False\<rparr>) s"
  define owner where "owner = th_task (threads a t)"
  define b where "b = (if owner \<noteq> 0 then unlink_thread owner t a else a)"
  define c where "c = (if owner \<noteq> 0 \<and> main_thread (tasks b owner) = t
               then upd_ptask owner (\<lambda>tk. tk\<lparr>main_thread := 0\<rparr>) b else b)"
  have c: "same_sched b c" "same_sched a b"
    using unlink_same by (auto simp: c_def b_def same_sched_def upd_ptask_def)
  obtain d e where d: "(if th_stack (threads c t) \<noteq> 0
               then map_option (upd_thread t (\<lambda>th. th\<lparr>th_stack := 0, th_stack_size := 0\<rparr>))
                      (task_kernel_stack_retire (th_stack (threads c t)) (th_stack_size (threads c t)) c)
               else Some c) = Some d"
    and e: "kfree t (upd_thread t (\<lambda>th. th\<lparr>th_task := 0\<rparr>) d) = Some e"
    and o: "reap_owner release owner (e\<lparr>rs_reaped := rs_reaped e + 1\<rparr>) = Some s'"
    using r unfolding reap_thread_def Let_def a_def [symmetric] owner_def [symmetric] b_def [symmetric] c_def [symmetric]
    by (auto simp only: split: option.splits)
  have "same_on T s a" unfolding a_def by (rule upd)
  also have "same_on T a b" by (rule same_on_sched [OF c(2)])
  also have "same_on T b c" by (rule same_on_sched [OF c(1)])
  also have "same_on T c d"
    using d same_on_trans [OF same_on_sched [OF retire_same] upd] by (auto split: if_splits)
  also note upd [of d "\<lambda>th. th\<lparr>th_task := 0\<rparr>"]
  also note same_on_sched [OF kfree_same [OF e]]
  also have "same_on T e (e\<lparr>rs_reaped := rs_reaped e + 1\<rparr>)" by (simp add: same_on_def same_sched_def)
  also note same_on_sched [OF reap_owner_same [OF k o]]
  finally show ?thesis .
qed

section \<open>Every step keeps the invariant\<close>

theorem step_sys_ok:
  fixes s :: "'a reap_state_scheme"
  assumes k: "keeps_sched release" and st: "sys_step release i (T, p, s) (T', p', s')" and ok: "sys_ok i (T, p, s)"
  shows "sys_ok i (T', p', s')"
  using st
proof cases
  case (irq frame f)
  then show ?thesis using irq_sys_ok(1) [OF ok] by simp
next
  case (wait c q d)
  then show ?thesis using wait_sys_ok [OF ok] by simp
next
  case (wait_again c q)
  then show ?thesis using wait_again_sys_ok [OF ok] by simp
next
  case (wait_leave c q rc)
  then show ?thesis using wait_leave_sys_ok [OF ok] by simp
next
  case (wait_block c q)
  then show ?thesis using wait_block_sys_ok [OF ok] by simp
next
  case (wait_int c q frame f)
  note i = irq_sys_ok [OF ok wait_int(6,7)]
  show ?thesis unfolding wait_int(1,2) by (rule position_sys_ok [OF i(1,2)]) (use wait_int in simp)
next
  case (wake_one q t)
  then show ?thesis using wake_sys_ok(1) [OF ok] by simp
next
  case (wake_all q n)
  then show ?thesis using wake_sys_ok(2) [OF ok] by simp
next
  case yield
  then show ?thesis using sys_frame_ok [OF frame_ops(1) ok] by simp
next
  case (set_policy k rc)
  then show ?thesis using sys_frame_ok [OF frame_ops(2) [of i s k] ok] by simp
next
  case (set_bucket t b)
  then show ?thesis using sys_frame_ok [OF frame_ops(3) ok] by simp
next
  case (set_priority t prio)
  then show ?thesis using sys_frame_ok [OF frame_priority ok] by simp
next
  case (inherit t d)
  then show ?thesis using sys_frame_ok [OF frame_inherit ok] by simp
next
  case (clear_inherit t)
  then show ?thesis using sys_frame_ok [OF frame_clear ok] by simp
next
  case (create task entry arg t)
  then show ?thesis using create_sys_ok [OF ok] by blast
next
  case (clone task frame t)
  then show ?thesis using create_sys_ok [OF ok] by blast
next
  case (add t rc)
  then show ?thesis using add_sys_ok [OF ok] by (simp add: acts_def)
next
  case (join c t)
  then show ?thesis using join_sys_ok [OF ok] by simp
next
  case (join_add c t rc)
  note D = sys_okD [OF ok]
  have "t \<in> T \<and> p t = Fresh" using pcs_okD(7) [OF D(3,11)] join_add by auto
  then show ?thesis using add_sys_ok [OF ok _ _ join_add(6)] join_add by simp
next
  case (join_int c t frame f)
  note i = irq_sys_ok [OF ok join_int(6,7)]
  show ?thesis unfolding join_int(1,2) by (rule position_sys_ok [OF i(1,2)]) (use join_int in simp)
next
  case (join_done c t)
  have "th_state (threads s (cur_thread s)) = THREAD_STATE_RUNNING" using cur_runs [OF ok] join_done by auto
  then show ?thesis unfolding join_done(1-3) by (rule position_sys_ok [OF ok]) (use join_done in simp)
next
  case (exit c)
  then show ?thesis using exit_sys_ok [OF ok] by simp
next
  case (reap t u)
  have "same_on (T - {t}) u s'" by (rule reap_thread_same [OF k]) (use reap in auto)
  then show ?thesis using sys_ok_cong remove_sys_ok [OF ok] reap by metis
qed

definition sys_reachable ::
  "(u64 \<Rightarrow> nat \<Rightarrow> 'a reap_state_scheme \<Rightarrow> 'a reap_state_scheme option) \<Rightarrow> u64 \<Rightarrow> 'a sys \<Rightarrow> 'a sys \<Rightarrow> bool" where
  "sys_reachable release i = (sys_step release i)\<^sup>*\<^sup>*"

lemma reachable_sys_ok:
  assumes "keeps_sched release" "sys_ok i x" "sys_reachable release i x y"
  shows "sys_ok i y"
  using assms(3) unfolding sys_reachable_def
proof (induction rule: rtranclp_induct)
  case (step y z)
  obtain T p s where y: "y = (T, p, s)" by (metis prod_cases3)
  obtain T' p' s' where z: "z = (T', p', s')" by (metis prod_cases3)
  show ?case using step_sys_ok [OF assms(1)] step unfolding y z by blast
qed (rule assms(2))

end
