(* ===== verification/SchedProps.thy ===== *)
theory SchedProps
  imports SchedStep KheapProps
begin

text \<open>
  What the scheduler guarantees: the invariant of every reachable state, the timer interrupt, the
  choice of the next thread, and the start of the scheduler.
\<close>

section \<open>An example system\<close>

text \<open>Thread 1 is the idle thread, thread 2 runs.\<close>

definition demo_thread :: "thread_state \<Rightarrow> bool \<Rightarrow> thread" where
  "demo_thread st q = \<lparr>thread_id = 1, th_task = 0, stack_pointer = 0x8000, program_counter = 0, th_state = st,
     sched_class = 0, priority = 128, base_priority = 128, dyn_priority = 128, inherited_priority = 128,
     has_inherited = False, inherit_stack = replicate 8 128, inherit_depth = 0, has_inherit_overflow = False,
     sched_bucket = 2, sched_bucket_explicit = False, sched_usage = 0, last_sleep_tick = 0, th_entry = 0, th_arg = 0,
     th_stack = 0, th_stack_size = 0, ready_queued = q, waitq_owner = None, wait_deadline_tick = 0,
     wait_timeout_armed = False, wait_timed_out = False, joiner = 0, reap_queued = False, reap_after_tick = 0,
     th_arch_specific = 0\<rparr>"

definition sched_demo :: "(u64 \<Rightarrow> thread) \<Rightarrow> u64 \<Rightarrow> u64 list \<Rightarrow> bool \<Rightarrow> reap_state" where
  "sched_demo ths cur ready run = heap_state.extend heap_demo
     \<lparr>g_vm_page_refs = [],
      vm_objects = (\<lambda>_. \<lparr>vo_type = VM_OBJECT_ANON, ref_count = 0, vo_size = 0, page_count = 0,
                        resident_ptr = 0, resident_pages = [], pager_private = 0\<rparr>),
      vm_backings = (\<lambda>_. \<lparr>fb_data = 0, fb_size = 0, file_offset = 0\<rparr>),
      vm_maps = (\<lambda>_. \<lparr>mp_pml4 = 0, mp_entries = []\<rparr>),
      task_vms = (\<lambda>_. \<lparr>address_space = 0, t_vm_map = 0, vm_brk_base = 0, vm_brk_end = 0, vm_mmap_base = 0,
                      vm_mmap_hint = 0\<rparr>),
      threads = ths, tasks = new_task, cur_task = 0, cur_thread = cur,
      waitqs = (\<lambda>_. \<lparr>wq_threads = [], wq_name = '''', wq_count = 0\<rparr>), waitq_timeouts = [],
      waitq_timeouts_initialized = False, scheduler_initialized = run, scheduler_running = run,
      current_policy = SCHED_POLICY_PRIORITY, total_switches = 0, total_tasks = 0, running_tasks = 1,
      ready_tasks = of_nat (length ready), blocked_tasks = 0, in_scheduler = False, ticks_until_preempt = 1,
      ticks_per_slice = 1, resched_pending = False, sched_ticks = 7, ready_queues = [[], [], ready, []],
      bucket_last_run_tick = [0, 0, 0, 0], scheduler_kernel_pml4 = 0, tss_rsp0 = 0,
      next_task_id = 1, next_thread_id = 1, all_tasks = [], all_tasks_by_id = (\<lambda>_. None), stack_cache = [],
      stack_cache_hits = 0, stack_cache_misses = 0, stack_cache_retired = 0, stack_cache_poison_failures = 0,
      reap_queue = replicate 64 0, reap_head = 0, reap_tail = 0, rs_queue_len = 0, rs_queue_hwm = 0,
      rs_enqueued = 0, rs_reaped = 0, rs_deferred = 0, rs_dropped = 0, rs_runs = 0, reaper_task = 0,
      reaper_thread = 0, thread_trampoline = 0, reaper_main = 0, kernel_cs = 8\<rparr>"

lemma sched_demo_fields [simp]:
  "threads (sched_demo ths cur ready run) = ths" "cur_thread (sched_demo ths cur ready run) = cur"
  "waitqs (sched_demo ths cur ready run) q = \<lparr>wq_threads = [], wq_name = '''', wq_count = 0\<rparr>"
  "waitq_timeouts (sched_demo ths cur ready run) = []"
  "\<not> waitq_timeouts_initialized (sched_demo ths cur ready run)"
  "scheduler_initialized (sched_demo ths cur ready run) = run" "scheduler_running (sched_demo ths cur ready run) = run"
  "current_policy (sched_demo ths cur ready run) = SCHED_POLICY_PRIORITY"
  "ready_tasks (sched_demo ths cur ready run) = of_nat (length ready)"
  "blocked_tasks (sched_demo ths cur ready run) = 0"
  "\<not> in_scheduler (sched_demo ths cur ready run)" "ticks_until_preempt (sched_demo ths cur ready run) = 1"
  "ticks_per_slice (sched_demo ths cur ready run) = 1" "\<not> resched_pending (sched_demo ths cur ready run)"
  "sched_ticks (sched_demo ths cur ready run) = 7" "ready_queues (sched_demo ths cur ready run) = [[], [], ready, []]"
  "bucket_last_run_tick (sched_demo ths cur ready run) = [0, 0, 0, 0]"
  "reap_queue (sched_demo ths cur ready run) = replicate 64 0" "reap_head (sched_demo ths cur ready run) = 0"
  "reap_tail (sched_demo ths cur ready run) = 0"
  by (simp_all add: sched_demo_def heap_state.extend_def)

abbreviation demo_threads :: "u64 \<Rightarrow> thread" where
  "demo_threads \<equiv> (\<lambda>t. if t = 1 then demo_thread THREAD_STATE_READY True else demo_thread THREAD_STATE_RUNNING False)"

abbreviation demo_sys :: "unit sys" where
  "demo_sys \<equiv> ({1, 2}, \<lambda>_. Free, sched_demo demo_threads 2 [1] True)"

lemma demo_sys_ok: "sys_ok 1 demo_sys"
proof -
  let ?s = "sched_demo demo_threads 2 [1] True"
  have l: "reap_list ?s = []" by (simp add: reap_list_def scheduler_reap_queue_len_def)
  have "core_mid {1, 2} ?s"
    by (rule core_midI) (auto simp: live_ok_def rq_ok_def wq_ok_def to_ok_def queued_def demo_thread_def)
  then have "core {1, 2} 1 ?s" by (simp add: core_def idle_ok_def queued_def demo_thread_def)
  moreover have "pcs_ok {1, 2} (\<lambda>_. Free) 1 ?s" by (simp add: pcs_ok_def demo_thread_def)
  moreover have "cur_ok {1, 2} (\<lambda>_. Free) ?s" by (simp add: cur_ok_def demo_thread_def)
  moreover have "ring_inv {1, 2} ?s" by (simp add: ring_inv_def ring_ok_def l demo_thread_def)
  ultimately show ?thesis by simp
qed

lemma demo_release: "keeps_sched (\<lambda>_ _. Some)"
  by (simp add: keeps_sched_def)

section \<open>The invariant\<close>



section \<open>The timer interrupt\<close>

lemma ring_full:
  assumes "ring_ok s"
  shows "(reap_tail s + 1) mod 64 = reap_head s \<longleftrightarrow> length (reap_list s) = 63"
proof -
  have b: "reap_head s < 64" "reap_tail s < 64" using assms by (simp_all add: ring_ok_def)
  have l: "length (reap_list s) = (reap_tail s + 64 - reap_head s) mod 64"
    by (simp add: reap_list_def scheduler_reap_queue_len_def)
  show ?thesis
  proof (cases "reap_head s \<le> reap_tail s")
    case True
    then have "(reap_tail s + 64 - reap_head s) mod 64 = reap_tail s - reap_head s" using b by (simp add: mod_if)
    then show ?thesis using True b by (cases "reap_tail s = 63") (simp_all add: l, arith+)
  next
    case False
    then have "(reap_tail s + 64 - reap_head s) mod 64 = reap_tail s + 64 - reap_head s" using b by simp
    then show ?thesis using False b by (simp add: l) arith
  qed
qed

lemma ringD:
  assumes "ring_inv T s" "t \<in> T"
  shows "ring_ok s" "reap_queued (threads s t) \<longleftrightarrow> t \<in> set (reap_list s)" "cur_thread s \<notin> set (reap_list s)"
  using assms unfolding ring_inv_def by blast+

text \<open>Without room in the reaper's queue the switch away from a dead thread panics.\<close>

lemma switch_from_full:
  fixes s :: "'a reap_state_scheme"
  assumes mid: "core_base T s" and c: "c \<in> T" "cur_thread s = c" and idle: "idle_ok T i s"
    and dead: "th_state (threads s c) = THREAD_STATE_DEAD" "\<not> reap_queued (threads s c)"
    and full: "(reap_tail s + 1) mod 64 = reap_head s"
  shows "switch_from c frame s = None"
proof -
  define b where "b = before_choice c frame s"
  note bo = before_choice_ok [OF mid c idle, of frame, folded b_def]
  have ok: "live_ok T" by (rule core_baseD(1) [OF mid])
  have c0: "c \<noteq> 0" using c(1) ok by (auto simp: live_ok_def)
  have sb: "th_state (threads b c) = THREAD_STATE_DEAD" using bo(7) [of c] dead(1) by simp
  have br: "reap_head b = reap_head s" "reap_tail b = reap_tail s"
    and bq: "reap_queued (threads b c) = reap_queued (threads s c)"
    using bo(3) more_ring [of b s] by (simp_all add: keeps_misc_def)
  show ?thesis
  proof (rule ready_dequeue_cases [OF bo(1) ok])
    assume "ready_dequeue b = (0, b)"
    then show ?thesis using sb by (simp add: switch_from_eq b_def [symmetric])
  next
    fix q n ts d
    assume d: "ready_dequeue b = (n, d)" "n \<in> set (queued b)"
      and deq: "d = b\<lparr>ready_queues := (ready_queues b)[q := ts],
        threads := (threads b)(n := (threads b n)\<lparr>ready_queued := False\<rparr>),
        ready_tasks := ready_tasks b - 1,
        bucket_last_run_tick := (bucket_last_run_tick b)[q := sched_ticks b]\<rparr>"
    note e = switch_from_eq [of c frame s, folded b_def, unfolded d(1)]
    have sd: "th_state (threads d c) = THREAD_STATE_DEAD" "reap_queued (threads d c) = reap_queued (threads s c)"
      using sb bq by (auto simp: deq)
    define u where "u = switch_to n d"
    have u: "threads u = threads d" "reap_head u = reap_head s" "reap_tail u = reap_tail s"
      using more_ring [of u d] br by (simp_all add: u_def) (simp_all add: deq)
    have "scheduler_reap_enqueue c u = None"
      using c0 dead(2) full sd by (simp add: scheduler_reap_enqueue_def Let_def u)
    then show ?thesis
      using sd(1) unfolding e Let_def prod.case u_def [symmetric] by (simp add: u(1))
  qed
qed



section \<open>The choice of the next thread\<close>

text \<open>
  C12: \<^verbatim>\<open>ready_dequeue\<close> on consistent run queues returns 0 and changes nothing only if the queues it serves
  are empty. Otherwise it takes the first thread of one queue, keeps the queues consistent and
  records the tick. Under the FIFO and round-robin policies that is the default queue. Otherwise,
  if a thread of the three lower classes has waited for 500 ticks, it is the lowest such class;
  if none has, the highest class that has a thread.
\<close>

theorem ready_dequeue_correct:
  assumes "rq_ok T s" "live_ok T"
  shows "let (t, s') = ready_dequeue s in
    if t = 0 then s' = s \<and> (\<forall>q < 4. (flat_policy s \<longrightarrow> q = 2) \<longrightarrow> ready_queues s ! q = [])
    else \<exists>q < 4. \<exists>ts. ready_queues s ! q = t # ts \<and> ready_queues s' = (ready_queues s)[q := ts] \<and>
      ready_tasks s' = ready_tasks s - 1 \<and> \<not> ready_queued (threads s' t) \<and>
      bucket_last_run_tick s' ! q = sched_ticks s \<and> rq_ok T s' \<and>
      (if flat_policy s then q = 2
       else if \<exists>b < 3. starving s b then q < 3 \<and> starving s q \<and> (\<forall>b < q. \<not> starving s b)
       else \<forall>b < 4. ready_queues s ! b \<noteq> [] \<longrightarrow> b \<le> q)"
proof -
  have b3: "b < 3 \<longleftrightarrow> b = 0 \<or> b = 1 \<or> b = 2" and b4: "b < 4 \<longleftrightarrow> b = 0 \<or> b = 1 \<or> b = 2 \<or> b = 3" for b :: nat by auto
  have len: "length (bucket_last_run_tick s) = 4" using assms(1) by (simp add: rq_ok_def)
  have sv: "if flat_policy s then q = 2
      else if \<exists>b < 3. starving s b then q < 3 \<and> starving s q \<and> (\<forall>b < q. \<not> starving s b)
      else \<forall>b < 4. ready_queues s ! b \<noteq> [] \<longrightarrow> b \<le> q" if "served_queue s = Some q" for q
  proof -
    have e: "(\<exists>b < 3. P b) \<longleftrightarrow> P 0 \<or> P 1 \<or> P 2" "(\<forall>b < 4. P b) \<longleftrightarrow> P 0 \<and> P 1 \<and> P 2 \<and> P 3"
      "(\<forall>b < 2. P b) \<longleftrightarrow> P 0 \<and> P 1" "(\<forall>b < 1. P b) \<longleftrightarrow> P 0" for P :: "nat \<Rightarrow> bool"
      by (auto simp: b3 b4 less_2_cases_iff)
    show ?thesis using that unfolding e by (auto simp: served_queue_def less_2_cases_iff split: if_splits)
  qed
  show ?thesis
  proof (rule ready_dequeue_cases [OF assms])
    assume n: "served_queue s = None" "ready_dequeue s = (0, s)"
    have "\<forall>q < 4. (flat_policy s \<longrightarrow> q = 2) \<longrightarrow> ready_queues s ! q = []"
      using n(1) by (auto simp: served_queue_def b4 split: if_splits option.splits)
    then show ?thesis using n(2) by simp
  next
    fix q t ts s'
    assume q: "served_queue s = Some q" "q < 4" "ready_queues s ! q = t # ts" "ready_dequeue s = (t, s')" "t \<noteq> 0"
      "rq_ok T s'" "ready_queues s' = (ready_queues s)[q := ts]"
      and s': "s' = s\<lparr>ready_queues := (ready_queues s)[q := ts],
        threads := (threads s)(t := (threads s t)\<lparr>ready_queued := False\<rparr>),
        ready_tasks := ready_tasks s - 1,
        bucket_last_run_tick := (bucket_last_run_tick s)[q := sched_ticks s]\<rparr>"
    have "ready_tasks s' = ready_tasks s - 1" "\<not> ready_queued (threads s' t)" "bucket_last_run_tick s' ! q = sched_ticks s"
      using q(2) len by (simp_all add: s')
    then show ?thesis using q(2-7) sv [OF q(1)] unfolding q(4) Let_def prod.case by (simp only: if_False simp_thms) blast
  qed
qed

theorem ready_dequeue_correct_witness:
  "let s = sched_demo demo_threads 2 [1] True in
     rq_ok {1, 2} s \<and> live_ok {1, 2} \<and> fst (ready_dequeue s) = 1 \<and> ready_queues (snd (ready_dequeue s)) = [[], [], [], []]"
proof -
  let ?s = "sched_demo demo_threads 2 [1] True"
  have ok: "rq_ok {1, 2} ?s" "live_ok {1, 2}" using sys_okD(10,7) [OF demo_sys_ok] by simp_all
  have f: "\<not> flat_policy ?s" by (simp add: flat_policy_def)
  have b4: "b < 4 \<longleftrightarrow> b = 0 \<or> b = 1 \<or> b = 2 \<or> b = 3" for b :: nat by auto
  have "fst (ready_dequeue ?s) = 1 \<and> ready_queues (snd (ready_dequeue ?s)) = [[], [], [], []]"
    using ready_dequeue_correct [OF ok] f by (auto simp: split_beta b4 Let_def split: if_splits)
  then show ?thesis using ok unfolding Let_def by blast
qed

end
