(* ===== verification/SchedWait.thy ===== *)
theory SchedWait
  imports SchedProps
begin

text \<open>
  The race in \<^verbatim>\<open>waitq_wait_until\<close>: a thread that is woken between the test of the loop and
  \<^verbatim>\<open>scheduler_block\<close> never runs again, and such a run exists.
\<close>

section \<open>A run into the race\<close>

text \<open>Thread 2 of the example waits until tick 8.\<close>

definition timed_wait :: reap_state where
  "timed_wait = snd (wait_until_enter (Some Sleep_waitq) 8 (sched_demo demo_threads 2 [1] True))"

lemmas sched_eval = timer_irq_def scheduler_switch_from_irq_def scheduler_tick_def waitq_tick_def waitq_timeouts_init_once_def
  timeout_visit_def timeout_expire_def waitq_disarm_timeout_def waitq_contains_def less_count_def scheduler_wake_def
  scheduler_thread_set_state_def ready_enqueue_def ready_thread_is_queued_def ready_queue_index_for_thread_def flat_policy_def
  tick_account_def thread_get_current_def switch_from_def ready_dequeue_def starving_def dequeue_from_def switch_to_def
  thread_set_current_def task_set_current_def scheduler_switch_address_space_def scheduler_update_tss_def
  scheduler_reset_timeslice_def bucket_mult_def upd_thread_def upd_waitq_def demo_thread_def


lemma timed_wait_enters: "wait_until_enter (Some Sleep_waitq) 8 (sched_demo demo_threads 2 [1] True) = (Inr (), timed_wait)"
  by (simp add: timed_wait_def wait_until_enter_def waitq_enqueue_def thread_get_current_def waitq_contains_def demo_thread_def)

lemma timed_wait_tick: "let s = scheduler_tick timed_wait in threads s = demo_threads(2 := (demo_thread THREAD_STATE_READY True)\<lparr>wait_timed_out := True\<rparr>) \<and>
   ready_queues s = [[], [], [1, 2], []] \<and> ready_tasks s = 2 \<and> resched_pending s \<and> scheduler_running s \<and> \<not> in_scheduler s \<and>
   cur_thread s = 2 \<and> sched_ticks s = 8 \<and> bucket_last_run_tick s = [0, 0, 0, 0] \<and> current_policy s = SCHED_POLICY_PRIORITY \<and>
   ticks_per_slice s = 1"
  by (simp add: timed_wait_def wait_until_enter_def waitq_enqueue_def waitq_arm_timeout_def sched_eval fun_eq_iff)



lemma slice_fields [simp]:
  "ticks_per_slice (scheduler_switch_address_space n s) = ticks_per_slice s"
  "ticks_per_slice (scheduler_update_tss n s) = ticks_per_slice s"
  "ticks_per_slice (scheduler_thread_set_state t st s) = ticks_per_slice s"
  "ticks_per_slice (ready_enqueue t s) = ticks_per_slice s"
  by (simp_all add: scheduler_switch_address_space_def paging_switch_pml4_def Let_def scheduler_update_tss_def
      scheduler_thread_set_state_def ready_enqueue_def upd_thread_def)

lemma demo_switch:
  fixes a :: "'a reap_state_scheme"
  assumes a: "before_choice c frame s = a" "ready_queues a = [[], [], [n, m], []]" "ready_tasks a = 2"
    "current_policy a = SCHED_POLICY_PRIORITY" "\<not> starving a 2" "bucket_last_run_tick a = [0, 0, b, 0]" "ticks_per_slice a = 1"
    and c: "th_state (threads a c) = THREAD_STATE_READY" "n \<noteq> 0" "n \<noteq> c"
    and n: "threads a n = demo_thread THREAD_STATE_READY True\<lparr>wait_timed_out := w, stack_pointer := sp\<rparr>"
  shows "\<exists>f s'. switch_from c frame s = Some (f, s') \<and> ready_queues s' = [[], [], [m], []] \<and> ready_tasks s' = 1 \<and>
    cur_thread s' = n \<and> \<not> in_scheduler s' \<and> scheduler_running s' = scheduler_running a \<and>
    sched_ticks s' = sched_ticks a \<and> current_policy s' = SCHED_POLICY_PRIORITY \<and> ticks_per_slice s' = 1 \<and>
    ticks_until_preempt s' = 2 \<and> bucket_last_run_tick s' = [0, 0, sched_ticks a, 0] \<and> waitq_timeouts s' = waitq_timeouts a \<and>
    waitq_timeouts_initialized s' = waitq_timeouts_initialized a \<and>
    threads s' = (threads a)(n := demo_thread THREAD_STATE_RUNNING False\<lparr>wait_timed_out := w, stack_pointer := sp\<rparr>)"
proof -
  have st: "\<not> starving a q" if "q < 3" for q
  proof -
    have "q = 0 \<or> q = 1 \<or> q = 2" using that by auto
    then show ?thesis using a(2,5) by (auto simp: starving_def)
  qed
  define d where "d = a\<lparr>ready_queues := [[], [], [m], []], threads := (threads a)(n := (threads a n)\<lparr>ready_queued := False\<rparr>),
    ready_tasks := 1, bucket_last_run_tick := [0, 0, sched_ticks a, 0]\<rparr>"
  have dq: "ready_dequeue a = (n, d)"
    using a st [of 0] st [of 1] st [of 2] c(2) by (simp add: ready_dequeue_def dequeue_from_def Let_def upd_thread_def d_def flat_policy_def)
  define e where "e = switch_to n d"
  have e: "threads e = threads d" by (simp add: e_def)
  have nd: "th_state (threads d c) = THREAD_STATE_READY" using c by (simp add: d_def)
  define h where "h = scheduler_thread_set_state n THREAD_STATE_RUNNING e"
  define g where "g = (scheduler_reset_timeslice n h)\<lparr>in_scheduler := False\<rparr>"
  have "switch_from c frame s = Some (stack_pointer (threads e n), g)"
    using nd c(2,3) unfolding switch_from_eq a(1) dq by (simp add: e_def [symmetric] g_def h_def set_state_threads e)
  moreover have h: "ready_queues h = [[], [], [m], []]" "ready_tasks h = 1" "cur_thread h = n"
     "scheduler_running h = scheduler_running a" "sched_ticks h = sched_ticks a" "current_policy h = SCHED_POLICY_PRIORITY"
     "bucket_last_run_tick h = [0, 0, sched_ticks a, 0]" "waitq_timeouts h = waitq_timeouts a"
     "waitq_timeouts_initialized h = waitq_timeouts_initialized a"
    using a(4) by (simp_all add: h_def e_def d_def)
  moreover have t: "threads h = (threads a)(n := demo_thread THREAD_STATE_RUNNING False\<lparr>wait_timed_out := w, stack_pointer := sp\<rparr>)"
    using c(2) n by (simp add: h_def set_state_threads e d_def demo_thread_def)
  moreover have "ticks_per_slice h = 1"
    using a(7) by (simp add: h_def e_def switch_to_def Let_def thread_set_current_def task_set_current_def d_def)
  ultimately show ?thesis using c(2)
    by (simp add: g_def scheduler_reset_timeslice_def Let_def bucket_mult_def demo_thread_def)
qed


text \<open>The wait times out between the test of the loop and \<^verbatim>\<open>scheduler_block\<close>.\<close>

lemma lost_run:
  "\<exists>s. sys_reachable release 1 demo_sys ({1, 2}, (\<lambda>_. Free)(2 := Wait_block Sleep_waitq), s) \<and>
     cur_thread s = 2 \<and> waitq_owner (threads s 2) = None"
proof -
  let ?p = "(\<lambda>_. Free)(2 := Wait_block Sleep_waitq)"
  let ?q = "(\<lambda>_. Free)(2 := Wait_test Sleep_waitq)"
  have w: "sys_step release 1 demo_sys ({1, 2}, ?q, timed_wait)"
    by (rule sys_step.wait [OF _ _ _ timed_wait_enters]) (simp_all add: acts_def)
  have f1: "cur_thread timed_wait = 2" "waitq_owner (threads timed_wait 2) = Some Sleep_waitq"
    by (simp_all add: timed_wait_def wait_until_enter_def waitq_enqueue_def waitq_arm_timeout_def sched_eval)
  have a: "sys_step release 1 ({1, 2}, ?q, timed_wait) ({1, 2}, ?q(2 := Wait_block Sleep_waitq), timed_wait)"
    by (rule sys_step.wait_again) (simp_all add: f1 wait_until_continues_def waitq_contains_def)
  define s where "s = scheduler_tick timed_wait"
  define s2 where "s2 = s\<lparr>in_scheduler := True, resched_pending := False\<rparr>"
  note f = timed_wait_tick [unfolded Let_def, folded s_def]
  have e: "timer_irq 0x9000 timed_wait = switch_from 2 0x9000 s2"
    using f by (simp add: timer_irq_def s_def [symmetric] s2_def scheduler_switch_from_irq_def thread_get_current_def)
  have b: "before_choice 2 0x9000 s2 = upd_thread 2 (\<lambda>th. th\<lparr>stack_pointer := 0x9000\<rparr>) s2" (is "_ = ?a")
    using f by (simp add: before_choice_def s2_def Let_def demo_thread_def)
  have x1: "ready_queues ?a = [[], [], [1, 2], []]" "ready_tasks ?a = 2" "current_policy ?a = SCHED_POLICY_PRIORITY"
    "\<not> starving ?a 2" "bucket_last_run_tick ?a = [0, 0, 0, 0]" "ticks_per_slice ?a = 1"
    "th_state (threads ?a 2) = THREAD_STATE_READY" "(1 :: u64) \<noteq> 0" "(1 :: u64) \<noteq> 2"
    "threads ?a 1 = demo_thread THREAD_STATE_READY True\<lparr>wait_timed_out := False, stack_pointer := 0x8000\<rparr>"
    using f by (simp_all add: s2_def starving_def demo_thread_def)
  obtain g u where u: "timer_irq 0x9000 timed_wait = Some (g, u)" "ready_queues u = [[], [], [2], []]" "ready_tasks u = 1" "cur_thread u = 1"
    "\<not> in_scheduler u" "scheduler_running u" "sched_ticks u = 8" "current_policy u = SCHED_POLICY_PRIORITY" "ticks_per_slice u = 1"
    "ticks_until_preempt u = 2" "bucket_last_run_tick u = [0, 0, 8, 0]" "waitq_timeouts u = waitq_timeouts s"
    "waitq_timeouts_initialized u = waitq_timeouts_initialized s"
    "threads u = (threads ?a)(1 := demo_thread THREAD_STATE_RUNNING False\<lparr>wait_timed_out := False, stack_pointer := 0x8000\<rparr>)"
    using demo_switch [OF b x1] f unfolding e by (auto simp: s2_def)
  have i1: "sys_step release 1 ({1, 2}, ?p, timed_wait) ({1, 2}, ?p, u)"
    by (rule sys_step.irq [OF _ u(1)]) simp
  have y: "sys_step release 1 ({1, 2}, ?p, u) ({1, 2}, ?p, scheduler_yield u)"
    by (rule sys_step.yield) (simp add: acts_def u)
  define v where "v = scheduler_tick (scheduler_yield u)"
  have to: "waitq_timeouts s = []" "waitq_timeouts_initialized s"
    by (simp_all add: s_def timed_wait_def wait_until_enter_def waitq_enqueue_def waitq_arm_timeout_def sched_eval)
  have v: "threads v = (threads u)(1 := (threads u 1)\<lparr>sched_usage := 1\<rparr>)" "ready_queues v = ready_queues u" "ready_tasks v = 1" "cur_thread v = 1" "\<not> in_scheduler v"
    "scheduler_running v" "sched_ticks v = 9" "current_policy v = SCHED_POLICY_PRIORITY" "ticks_per_slice v = 1"
    "bucket_last_run_tick v = [0, 0, 8, 0]" "resched_pending v"
    using u to by (simp_all add: v_def scheduler_yield_def sched_eval)
  define v2 where "v2 = v\<lparr>in_scheduler := True, resched_pending := False\<rparr>"
  have e': "timer_irq 0x9000 (scheduler_yield u) = switch_from 1 0x9000 v2"
    using v by (simp add: timer_irq_def v_def [symmetric] v2_def scheduler_switch_from_irq_def thread_get_current_def)
  have n500: "\<not> (500 :: u64) \<le> 1" by (simp add: word_le_nat_alt)
  define a2 where "a2 = before_choice 1 0x9000 v2"
  have a2: "a2 = ready_enqueue 1 (scheduler_thread_set_state 1 THREAD_STATE_READY (upd_thread 1 (\<lambda>th. th\<lparr>stack_pointer := 0x9000\<rparr>) v2))"
    using v(1) u(14) by (simp add: a2_def before_choice_def Let_def v2_def demo_thread_def)
  have x2: "ready_queues a2 = [[], [], [2, 1], []]" "ready_tasks a2 = 2" "current_policy a2 = SCHED_POLICY_PRIORITY"
    "\<not> starving a2 2" "bucket_last_run_tick a2 = [0, 0, 8, 0]" "ticks_per_slice a2 = 1"
    "th_state (threads a2 1) = THREAD_STATE_READY" "(2 :: u64) \<noteq> 0" "(2 :: u64) \<noteq> 1"
    "threads a2 2 = demo_thread THREAD_STATE_READY True\<lparr>wait_timed_out := True, stack_pointer := 0x9000\<rparr>"
    using v u(2,14) f n500
    by (simp_all add: a2 ready_enqueue_def ready_thread_is_queued_def ready_queue_index_for_thread_def flat_policy_def
        scheduler_thread_set_state_def starving_def v2_def s2_def demo_thread_def)
  obtain g' w' where w': "timer_irq 0x9000 (scheduler_yield u) = Some (g', w')" "cur_thread w' = 2"
    "threads w' = (threads a2)(2 := demo_thread THREAD_STATE_RUNNING False\<lparr>wait_timed_out := True, stack_pointer := 0x9000\<rparr>)"
    using demo_switch [OF a2_def [symmetric] x2] unfolding e' by auto
  have i2: "sys_step release 1 ({1, 2}, ?p, scheduler_yield u) ({1, 2}, ?p, w')"
    by (rule sys_step.irq [OF _ w'(1)]) simp
  have "sys_reachable release 1 demo_sys ({1, 2}, ?p, w')"
    using w a i1 y i2 unfolding sys_reachable_def by (simp add: rtranclp.rtrancl_into_rtrancl)
  then show ?thesis using w' by (auto simp: demo_thread_def)
qed

section \<open>Waiting\<close>

definition stuck :: "u64 \<Rightarrow> 'a sys \<Rightarrow> bool" where
  "stuck c = (\<lambda>(T, p, s). c \<in> T \<and> c \<noteq> cur_thread s \<and> th_state (threads s c) = THREAD_STATE_BLOCKED \<and>
     waitq_owner (threads s c) = None \<and> (\<exists>q. p c = Wait_test q))"

lemma irq_eq:
  assumes "sys_ok i (T, p, s)" "frame \<noteq> 0"
  shows "timer_irq frame s = (if resched_pending (scheduler_tick s)
      then switch_from (cur_thread s) frame ((scheduler_tick s)\<lparr>in_scheduler := True, resched_pending := False\<rparr>)
      else Some (frame, scheduler_tick s))"
proof -
  note D = sys_okD [OF assms(1)]
  note th = wakes_thread [OF scheduler_tick_ok(2) [OF D(2)]]
  have "\<not> in_scheduler (scheduler_tick s)" "scheduler_running (scheduler_tick s)" "cur_thread (scheduler_tick s) = cur_thread s"
    using D(1) th(3,5,6) by (simp_all add: core_def)
  moreover from this have "(scheduler_tick s)\<lparr>in_scheduler := False\<rparr> = scheduler_tick s" by simp
  ultimately show ?thesis
    using assms(2) D(12) by (simp add: timer_irq_def scheduler_switch_from_irq_def thread_get_current_def Let_def)
qed

lemma irq_some:
  fixes s :: "'a reap_state_scheme"
  assumes ok: "sys_ok i (T, p, s)" and f: "frame \<noteq> 0" and d: "th_state (threads s (cur_thread s)) \<noteq> THREAD_STATE_DEAD"
  shows "timer_irq frame s \<noteq> None"
proof -
  note D = sys_okD [OF ok]
  define s1 where "s1 = scheduler_tick s"
  define s2 where "s2 = s1\<lparr>in_scheduler := True, resched_pending := False\<rparr>"
  have m1: "core_mid T s1" and w: "wakes T s s1" using scheduler_tick_ok [OF D(2)] by (simp_all add: s1_def)
  have b2: "core_base T s2" unfolding s2_def by (rule clear_flags [OF m1])
  have i2: "idle_ok T i s2" "cur_thread s2 = cur_thread s"
    using idle_wakes [OF w D(3,6)] wakes_thread(3) [OF w] by (simp_all add: idle_ok_def s2_def)
  have "th_state (threads s2 (cur_thread s)) \<noteq> THREAD_STATE_DEAD"
    using wakes_states(1) [OF w D(3,11)] d by (simp add: s2_def)
  then have "switch_from (cur_thread s) frame s2 \<noteq> None" using switch_from_returns [OF b2 D(11) i2(2,1)] by blast
  then show ?thesis using irq_eq [OF ok f] by (simp add: s1_def s2_def)
qed

lemma irq_blocked:
  fixes s :: "'a reap_state_scheme"
  assumes ok: "sys_ok i (T, p, s)" and irq: "frame \<noteq> 0" "timer_irq frame s = Some (f, s')"
    and c: "c \<in> T" "th_state (threads s c) = THREAD_STATE_BLOCKED" "waitq_owner (threads s c) = None"
  shows "th_state (threads s' c) = THREAD_STATE_BLOCKED" "waitq_owner (threads s' c) = None" "c \<noteq> cur_thread s'"
proof -
  note D = sys_okD [OF ok]
  define s1 where "s1 = scheduler_tick s"
  define s2 where "s2 = s1\<lparr>in_scheduler := True, resched_pending := False\<rparr>"
  let ?k = "cur_thread s"
  have m1: "core_mid T s1" and w: "wakes T s s1" using scheduler_tick_ok [OF D(2)] by (simp_all add: s1_def)
  note th = wakes_thread [OF w]
  have st1: "th_state (threads s1 c) = THREAD_STATE_BLOCKED" "waitq_owner (threads s1 c) = None"
    using th(9) [OF c(3)] th(8) [of c] c by (simp, cases "waitq_owner (threads s1 c)") auto
  have fl: "\<not> in_scheduler s1" "scheduler_running s1" "cur_thread s1 = ?k" using D(1) th(3,5,6) by (simp_all add: core_def)
  have eq: "Some (f, s') = (if resched_pending s1 then switch_from ?k frame s2 else Some (frame, s1))"
    using irq(2) irq_eq [OF ok irq(1)] by (simp only: s1_def s2_def)
  show st: "th_state (threads s' c) = THREAD_STATE_BLOCKED" "waitq_owner (threads s' c) = None"
  proof -
    have "th_state (threads s' c) = THREAD_STATE_BLOCKED \<and> waitq_owner (threads s' c) = None"
    proof (cases "resched_pending s1")
      case False
      then show ?thesis using eq st1 by simp
    next
      case True
      have b2: "core_base T s2" unfolding s2_def by (rule clear_flags [OF m1])
      have i2: "idle_ok T i s2" "cur_thread s2 = ?k" "threads s2 = threads s1"
        using idle_wakes [OF w D(3,6)] fl(3) by (simp_all add: idle_ok_def s2_def)
      have "switch_from ?k frame s2 = Some (f, s')" using eq True by simp
      then obtain n where n: "switched T i ?k n s2 s'" by (rule switch_from_ok [OF b2 D(11) i2(2,1)])
      show ?thesis using switched_states(3) [OF n, of c] switchedD(4) [OF n, of c] st1 by (simp add: i2(3))
    qed
    then show "th_state (threads s' c) = THREAD_STATE_BLOCKED" "waitq_owner (threads s' c) = None" by simp_all
  qed
  show "c \<noteq> cur_thread s'" using irq_sys_ok(2) [OF ok irq] st(1) by auto
qed

lemma remove_dead:
  fixes s :: "'a reap_state_scheme"
  assumes "sys_ok i (T, p, s)" "scheduler_reap_dequeue s = (t, u)" "t \<noteq> 0"
  shows "th_state (threads s t) = THREAD_STATE_DEAD"
proof -
  have r: "ring_inv T s" by (rule sys_okD(5) [OF assms(1)])
  have "reap_head s \<noteq> reap_tail s" using assms(2,3) by (auto simp: scheduler_reap_dequeue_def split: if_splits)
  then have "t \<in> set (reap_list s)" using reap_list_first(1) [OF _ assms(2)] r by (simp add: ring_inv_def)
  then show ?thesis using r unfolding ring_inv_def by blast
qed

text \<open>Nothing wakes a thread that is blocked and on no queue.\<close>

lemma enter_other:
  assumes "c \<noteq> cur_thread s"
  shows "threads (snd (wait_until_enter q d s)) c = threads s c" "cur_thread (snd (wait_until_enter q d s)) = cur_thread s"
  using assms by (auto simp: wait_until_enter_def Let_def thread_get_current_def waitq_enqueue_def waitq_arm_timeout_def
      waitq_disarm_timeout_def waitq_timeouts_init_once_def split: option.split)

lemma stuck_step:
  fixes s :: "'a reap_state_scheme"
  assumes k: "keeps_sched release" and st: "sys_step release i (T, p, s) (T', p', s')" and ok: "sys_ok i (T, p, s)"
    and stuck: "stuck c (T, p, s)"
  shows "stuck c (T', p', s')"
proof -
  note D = sys_okD [OF ok]
  have c: "c \<in> T" "c \<noteq> cur_thread s" "th_state (threads s c) = THREAD_STATE_BLOCKED" "waitq_owner (threads s c) = None"
    and "\<exists>q. p c = Wait_test q" using stuck by (simp_all add: stuck_def)
  then obtain q where q: "p c = Wait_test q" by blast
  have I: "stuck c (T', p', s')" if "c \<in> T'" "cur_thread s' = cur_thread s" "th_state (threads s' c) = th_state (threads s c)"
    "waitq_owner (threads s' c) = waitq_owner (threads s c)" "p' c = p c"
    using that c q by (simp add: stuck_def)
  have W: "stuck c (T', p', s')" if "T' = T" "p' = p" "wakes T s s'"
  proof -
    note th = wakes_thread [OF that(3)]
    have "waitq_owner (threads s' c) = None" using th(8) [of c] c(4) by (cases "waitq_owner (threads s' c)") auto
    then show ?thesis using that th(3,9) c by (intro I) simp_all
  qed
  have F: "stuck c (T', p', s')" if "T' = T" "p' = p" "sys_frame i s s'"
    using that c(1) by (intro I) (simp_all add: sys_frame_def keeps_wait_def)
  have Q: "stuck c (T', p', s')" if "timer_irq frame s = Some (f, s')" "frame \<noteq> 0" "T' = T" "p' c = p c" for frame f
    using irq_blocked [OF ok that(2,1) c(1,3,4)] that c(1) q by (simp add: stuck_def)
  have O: "stuck c (T', p', s')" if "c \<in> T'" "same_on (T' \<inter> T) s s'" "p' c = p c"
    using that same_onD(4,14) [OF that(2)] c(1) by (intro I) simp_all
  have A: "stuck c (T', p', s')" if "T' = T" "t \<noteq> i" "t \<in> T" "t \<noteq> c" "scheduler_add_thread t s = (rc, s')" "p' c = p c" for t rc
    using that c(1) add_thread_readied(1) [OF D(10,7) that(3,2)] by (intro I) (simp_all add: readied_def keeps_wait_def)
  have cs: "cur_thread s \<noteq> 0" "\<not> in_scheduler s" using D(1,12) by (simp_all add: core_def)
  show ?thesis
    using st
  proof cases
    case (wait d r t)
    then show ?thesis using enter_other [OF c(2), of "Some r" t] c(1,2) by (intro I) simp_all
  next
    case (wait_leave d r rc)
    then have "s' = upd_thread (cur_thread s) (\<lambda>th. th\<lparr>wait_timed_out := False\<rparr>) s" by (simp add: wait_until_leave_def)
    then show ?thesis using wait_leave c(1,2) by (intro I) simp_all
  next
    case (wait_block d r)
    then show ?thesis using block_threads [OF refl cs] c(1,2) by (intro I) simp_all
  next
    case (wake_one r t)
    then show ?thesis using W wake_one_core(2) [OF D(2), of r] by simp
  next
    case (wake_all r n)
    have "wakes T s s'"
      using wake_all(4) wake_all_loop_ok [OF D(2), of "the r" 0] by (auto simp: waitq_wake_all_def split: option.splits)
    then show ?thesis using W wake_all by simp
  next
    case (create task entry arg t)
    then have "t \<noteq> c" "same_on T s s'" using c(1) create_spec by blast+
    then show ?thesis using create c(1) by (intro O) (simp_all add: Int_absorb1 subset_insertI)
  next
    case (clone task frame t)
    then have "t \<noteq> c" "same_on T s s'" using c(1) clone_spec by blast+
    then show ?thesis using clone c(1) by (intro O) (simp_all add: Int_absorb1 subset_insertI)
  next
    case (add t rc)
    then have "t \<noteq> c" "t \<noteq> i" using q D(15) by auto
    then show ?thesis using add A by simp
  next
    case (join d t)
    then have tc: "t \<noteq> c" using q by auto
    let ?u = "upd_thread t (\<lambda>th. th\<lparr>joiner := d\<rparr>) s"
    have "cur_thread ?u = cur_thread s" "\<not> in_scheduler ?u" using cs by simp_all
    from block_threads [OF this(1) cs(1) this(2)] show ?thesis using join c(1,2) tc by (intro I) simp_all
  next
    case (join_add d t rc)
    have t: "t \<in> T" "p t = Fresh" using pcs_okD(7) [OF D(3,11)] join_add by auto
    then have "t \<noteq> c" "t \<noteq> i" using q D(15) by auto
    then show ?thesis using join_add A t c(2) by simp
  next
    case (exit d)
    have pd: "p d = Free" using exit by (simp add: acts_def)
    have d: "d \<in> T" "d \<noteq> 0" using exit D(11,12) by simp_all
    note w = wake_joiner_ok [OF ok exit(5) pd refl refl]
    have "joiner (threads s d) \<noteq> c \<or> joiner (threads s d) = 0" using pcs_okD(6) [OF D(3) d(1)] q
      by (cases "joiner (threads s d) = 0") auto
    moreover note e = exit_threads [OF exit(5) [symmetric] d(2) refl]
    ultimately show ?thesis
      using exit c(1,2) w(2,3) w(5) [of c] D(12) by (intro I) (auto simp: e(1,5) keeps_wait_def)
  next
    case (reap t u)
    have "th_state (threads s t) = THREAD_STATE_DEAD" using remove_dead [OF ok] reap by blast
    then have tc: "c \<noteq> t" using c(3) by auto
    have "same_on (T - {t}) u s'" by (rule reap_thread_same [OF k]) (use reap in auto)
    note f = same_onD(4,14) [OF this] and g = dequeue_fields(1,5) [OF reap(7)]
    show ?thesis using reap c(1) tc f g by (intro I) auto
  next
    case yield
    show ?thesis by (rule F) (simp_all add: yield frame_ops)
  next
    case (set_policy k rc)
    show ?thesis by (rule F) (use set_policy frame_ops(2) [of i s k] in simp_all)
  next
    case (set_bucket t b)
    show ?thesis by (rule F) (simp_all add: set_bucket frame_ops)
  next
    case (set_priority t prio)
    show ?thesis by (rule F) (simp_all add: set_priority frame_priority)
  next
    case (inherit t d)
    show ?thesis by (rule F) (simp_all add: inherit frame_inherit)
  next
    case (clear_inherit t)
    show ?thesis by (rule F) (simp_all add: clear_inherit frame_clear)
  qed (use Q c(1,2) I in simp_all)
qed

lemma stuck_reachable:
  assumes "keeps_sched release" "sys_ok i x" "stuck c x" "sys_reachable release i x y"
  shows "stuck c y"
  using assms(4) unfolding sys_reachable_def
proof (induction rule: rtranclp_induct)
  case (step y z)
  obtain T p s where y: "y = (T, p, s)" by (metis prod_cases3)
  obtain T' p' s' where z: "z = (T', p', s')" by (metis prod_cases3)
  have "sys_ok i y" using reachable_sys_ok [OF assms(1,2)] step.hyps(1) by (simp add: sys_reachable_def)
  then show ?case using stuck_step [OF assms(1)] step unfolding y z by blast
qed (rule assms(3))

text \<open>
  C37: A wake-up can be lost. \<^verbatim>\<open>waitq_wait_until\<close> tests whether it is still on the queue and then calls
  \<^verbatim>\<open>scheduler_block\<close>; if the thread is woken or its timeout expires between the two, it blocks although
  it is on no queue. From the interrupt that follows on, in every state that is ever
  reached, the thread is blocked, on no run queue and on no wait queue: it never runs again.
\<close>

theorem wait_lost_wakeup:
  fixes s :: "'a reap_state_scheme"
  assumes "keeps_sched release" "sys_ok i (T, p, s)" "c = cur_thread s" "p c = Wait_block q"
    "waitq_owner (threads s c) = None" "frame \<noteq> 0" "timer_irq frame (scheduler_block s) = Some (f, s')"
    "sys_reachable release i (T, p(c := Wait_test q), s') (T'', p'', s'')"
  shows "sys_reachable release i (T, p, s) (T, p(c := Wait_test q), s') \<and>
    c \<in> T'' \<and> c \<noteq> cur_thread s'' \<and> th_state (threads s'' c) = THREAD_STATE_BLOCKED \<and>
    c \<notin> set (concat (ready_queues s'')) \<and> (\<forall>r. c \<notin> set (wq_threads (waitqs s'' r)))"
proof -
  note D = sys_okD [OF assms(2)]
  have cs: "c \<noteq> 0" "c \<in> T" "\<not> in_scheduler s" using D(1,11,12) assms(3) by (simp_all add: core_def)
  let ?p = "p(c := Wait_int q)"
  note b = block_threads [OF assms(3) [symmetric] cs(1,3)]
  have 1: "sys_step release i (T, p, s) (T, ?p, scheduler_block s)"
    by (rule sys_step.wait_block) (use assms(3,4) cs(1) in simp_all)
  have 2: "sys_step release i (T, ?p, scheduler_block s) (T, ?p(c := Wait_test q), s')"
    by (rule sys_step.wait_int) (use b(5) cs(1) assms(6,7) in simp_all)
  have ok1: "sys_ok i (T, ?p, scheduler_block s)" by (rule step_sys_ok [OF assms(1) 1 assms(2)])
  have ok2: "sys_ok i (T, p(c := Wait_test q), s')" using step_sys_ok [OF assms(1) 2 ok1] by simp
  have r: "sys_reachable release i (T, p, s) (T, p(c := Wait_test q), s')"
    using 1 2 unfolding sys_reachable_def by (simp add: converse_rtranclp_into_rtranclp)
  have bl: "th_state (threads (scheduler_block s) c) = THREAD_STATE_BLOCKED"
    "waitq_owner (threads (scheduler_block s) c) = None" using assms(5) by (simp_all add: b(1))
  have "stuck c (T, p(c := Wait_test q), s')"
    using irq_blocked [OF ok1 assms(6,7) cs(2) bl] cs(2) by (simp add: stuck_def)
  then have st: "stuck c (T'', p'', s'')" by (rule stuck_reachable [OF assms(1) ok2 _ assms(8)])
  have ok3: "sys_ok i (T'', p'', s'')" by (rule reachable_sys_ok [OF assms(1) ok2 assms(8)])
  note E = sys_okD [OF ok3]
  have c'': "c \<in> T''" "c \<noteq> cur_thread s''" "th_state (threads s'' c) = THREAD_STATE_BLOCKED" "waitq_owner (threads s'' c) = None"
    using st by (simp_all add: stuck_def)
  have "c \<notin> set (queued s'')" using core_midD(1) [OF E(2), of c] c''(3) by auto
  moreover have "c \<notin> set (wq_threads (waitqs s'' r))" for r
    using E(8) c''(1,4) unfolding wq_ok_def by (metis option.distinct(1))
  ultimately show ?thesis using r c'' by (simp add: queued_def)
qed

theorem wait_lost_wakeup_witness:
  "\<exists>s f s'. let p = (\<lambda>_. Free)(2 := Wait_block Sleep_waitq); q = (\<lambda>_. Free)(2 := Wait_test Sleep_waitq) in
     keeps_sched (\<lambda>_ _. Some :: unit reap_state_scheme \<Rightarrow> _) \<and>
     sys_reachable (\<lambda>_ _. Some) 1 demo_sys ({1, 2}, p, s) \<and> sys_ok 1 ({1, 2}, p, s) \<and> cur_thread s = 2 \<and>
     waitq_owner (threads s 2) = None \<and> timer_irq 0x9000 (scheduler_block s) = Some (f, s') \<and>
     sys_reachable (\<lambda>_ _. Some) 1 ({1, 2}, q, s') ({1, 2}, q, s') \<and>
     th_state (threads s' 2) = THREAD_STATE_BLOCKED \<and> 2 \<noteq> cur_thread s'"
proof -
  let ?p = "(\<lambda>_. Free)(2 := Wait_block Sleep_waitq)" and ?q = "(\<lambda>_. Free)(2 := Wait_test Sleep_waitq)"
  obtain s where s: "sys_reachable (\<lambda>_ _. Some) 1 demo_sys ({1, 2}, ?p, s)" "cur_thread s = 2"
    "waitq_owner (threads s 2) = None" using lost_run by blast
  have ok: "sys_ok 1 ({1, 2}, ?p, s)" by (rule reachable_sys_ok [OF demo_release demo_sys_ok s(1)])
  note D = sys_okD [OF ok]
  have cs: "(2 :: u64) \<noteq> 0" "\<not> in_scheduler s" "(0x9000 :: u64) \<noteq> 0" using D(1) by (simp_all add: core_def)
  note b = block_threads [OF s(2) cs(1,2)]
  have st: "sys_step (\<lambda>_ _. Some) 1 ({1, 2}, ?p, s) ({1, 2}, ?p(2 := Wait_int Sleep_waitq), scheduler_block s)"
    by (rule sys_step.wait_block) (simp_all add: s(2))
  have ok1: "sys_ok 1 ({1, 2}, ?p(2 := Wait_int Sleep_waitq), scheduler_block s)"
    by (rule step_sys_ok [OF demo_release st ok])
  have "timer_irq 0x9000 (scheduler_block s) \<noteq> None"
    using irq_some [OF ok1 cs(3)] by (simp add: b(1,5))
  then obtain f s' where i: "timer_irq 0x9000 (scheduler_block s) = Some (f, s')" by auto
  have r: "sys_reachable (\<lambda>_ _. Some) 1 ({1, 2}, ?p(2 := Wait_test Sleep_waitq), s') ({1, 2}, ?q, s')"
    by (simp add: sys_reachable_def)
  have "?p 2 = Wait_block Sleep_waitq" by simp
  note l = wait_lost_wakeup [OF demo_release ok s(2) [symmetric] this s(3) cs(3) i r]
  have "th_state (threads s' 2) = THREAD_STATE_BLOCKED" "2 \<noteq> cur_thread s'" using l by blast+
  moreover have "sys_reachable (\<lambda>_ _. Some) 1 ({1, 2}, ?q, s') ({1, 2}, ?q, s')" by (simp add: sys_reachable_def)
  ultimately show ?thesis using demo_release s ok i unfolding Let_def by blast
qed

end
