(* ===== verification/CString.thy ===== *)
theory CString
  imports Machine "HOL-Library.List_Lexorder"
begin

text \<open>
  The string and memory functions of \<^verbatim>\<open>kernel/common/string.c\<close> on byte memory, loop for loop, and what
  they compute. A loop over a string runs to the first null byte, so on a memory without one it
  does not return: these are partial functions. The loops bounded by a \<^verbatim>\<open>size_t\<close> recurse over
  the iterations that are left.
\<close>

section \<open>The functions\<close>

partial_function (option) strlen_loop :: "bytes \<Rightarrow> u64 \<Rightarrow> u64 \<Rightarrow> u64 option" where
  "strlen_loop m str len = (if m (str + len) \<noteq> 0 then strlen_loop m str (len + 1) else Some len)"

definition strlen :: "bytes \<Rightarrow> u64 \<Rightarrow> u64 option" where
  "strlen m str = strlen_loop m str 0"

partial_function (option) strcpy_loop :: "u64 \<Rightarrow> u64 \<Rightarrow> bytes \<Rightarrow> bytes option" where
  "strcpy_loop d src m =
     (if m src \<noteq> 0 then strcpy_loop (d + 1) (src + 1) (m(d := m src)) else Some (m(d := 0)))"

definition strcpy :: "u64 \<Rightarrow> u64 \<Rightarrow> bytes \<Rightarrow> (u64 \<times> bytes) option" where
  "strcpy dest src m = map_option (Pair dest) (strcpy_loop dest src m)"

text \<open>The second loop of \<^verbatim>\<open>strncpy\<close> fills the rest; it starts where the first has stopped.\<close>

fun strncpy_fill :: "nat \<Rightarrow> u64 \<Rightarrow> bytes \<Rightarrow> bytes" where
  "strncpy_fill 0 d m = m"
| "strncpy_fill (Suc k) d m = strncpy_fill k (d + 1) (m(d := 0))"

fun strncpy_copy :: "nat \<Rightarrow> u64 \<Rightarrow> u64 \<Rightarrow> bytes \<Rightarrow> bytes" where
  "strncpy_copy 0 d src m = m"
| "strncpy_copy (Suc k) d src m =
     (if m src \<noteq> 0 then strncpy_copy k (d + 1) (src + 1) (m(d := m src))
      else strncpy_fill (Suc k) d m)"

definition strncpy :: "u64 \<Rightarrow> u64 \<Rightarrow> u64 \<Rightarrow> bytes \<Rightarrow> u64 \<times> bytes" where
  "strncpy dest src n m = (dest, strncpy_copy (unat n) dest src m)"

partial_function (option) strcmp :: "bytes \<Rightarrow> u64 \<Rightarrow> u64 \<Rightarrow> int option" where
  "strcmp m s1 s2 =
     (if m s1 \<noteq> 0 \<and> m s2 \<noteq> 0 \<and> m s1 = m s2 then strcmp m (s1 + 1) (s2 + 1)
      else Some (uint (m s1) - uint (m s2)))"

fun strncmp_loop :: "nat \<Rightarrow> bytes \<Rightarrow> u64 \<Rightarrow> u64 \<Rightarrow> int" where
  "strncmp_loop 0 m s1 s2 = 0"
| "strncmp_loop (Suc k) m s1 s2 =
     (if m s1 \<noteq> 0 \<and> m s2 \<noteq> 0 \<and> m s1 = m s2 then strncmp_loop k m (s1 + 1) (s2 + 1)
      else uint (m s1) - uint (m s2))"

definition strncmp :: "bytes \<Rightarrow> u64 \<Rightarrow> u64 \<Rightarrow> u64 \<Rightarrow> int" where
  "strncmp m s1 s2 n = strncmp_loop (unat n) m s1 s2"

text \<open>The \<^verbatim>\<open>int\<close> argument of \<^verbatim>\<open>strchr\<close> is compared after a cast, the test for the end without one.\<close>

partial_function (option) strchr :: "bytes \<Rightarrow> u64 \<Rightarrow> int \<Rightarrow> u64 option" where
  "strchr m str c =
     (if m str \<noteq> 0 then if m str = of_int c then Some str else strchr m (str + 1) c
      else Some (if c = 0 then str else 0))"

text \<open>The inner loop of \<^verbatim>\<open>strstr\<close> ends with the pointers \<open>h\<close> and \<open>n\<close>; only \<open>n\<close> is used.\<close>

partial_function (option) match_loop :: "bytes \<Rightarrow> u64 \<Rightarrow> u64 \<Rightarrow> u64 option" where
  "match_loop m h n =
     (if m h \<noteq> 0 \<and> m n \<noteq> 0 \<and> m h = m n then match_loop m (h + 1) (n + 1) else Some n)"

partial_function (option) strstr_loop :: "bytes \<Rightarrow> u64 \<Rightarrow> u64 \<Rightarrow> u64 option" where
  "strstr_loop m haystack needle =
     (if m haystack \<noteq> 0 then
        Option.bind (match_loop m haystack needle)
          (\<lambda>n. if m n = 0 then Some haystack else strstr_loop m (haystack + 1) needle)
      else Some 0)"

definition strstr :: "bytes \<Rightarrow> u64 \<Rightarrow> u64 \<Rightarrow> u64 option" where
  "strstr m haystack needle =
     (if m needle = 0 then Some haystack else strstr_loop m haystack needle)"

fun memset_loop :: "nat \<Rightarrow> u64 \<Rightarrow> u8 \<Rightarrow> u64 \<Rightarrow> bytes \<Rightarrow> bytes" where
  "memset_loop 0 p v i m = m"
| "memset_loop (Suc k) p v i m = memset_loop k p v (i + 1) (m(p + i := v))"

definition memset :: "u64 \<Rightarrow> int \<Rightarrow> u64 \<Rightarrow> bytes \<Rightarrow> u64 \<times> bytes" where
  "memset ptr val n m = (ptr, memset_loop (unat n) ptr (of_int val) 0 m)"

fun copy_forward :: "nat \<Rightarrow> u64 \<Rightarrow> u64 \<Rightarrow> u64 \<Rightarrow> bytes \<Rightarrow> bytes" where
  "copy_forward 0 d s i m = m"
| "copy_forward (Suc k) d s i m = copy_forward k d s (i + 1) (m(d + i := m (s + i)))"

fun copy_backward :: "nat \<Rightarrow> u64 \<Rightarrow> u64 \<Rightarrow> bytes \<Rightarrow> bytes" where
  "copy_backward 0 d s m = m"
| "copy_backward (Suc k) d s m = copy_backward k d s (m(d + of_nat k := m (s + of_nat k)))"

definition memcpy :: "u64 \<Rightarrow> u64 \<Rightarrow> u64 \<Rightarrow> bytes \<Rightarrow> u64 \<times> bytes" where
  "memcpy dest src n m = (dest, copy_forward (unat n) dest src 0 m)"

definition memmove :: "u64 \<Rightarrow> u64 \<Rightarrow> u64 \<Rightarrow> bytes \<Rightarrow> u64 \<times> bytes" where
  "memmove dest src n m =
     (dest, if dest < src then copy_forward (unat n) dest src 0 m
            else if dest > src then copy_backward (unat n) dest src m
            else m)"

fun memcmp_loop :: "nat \<Rightarrow> bytes \<Rightarrow> u64 \<Rightarrow> u64 \<Rightarrow> u64 \<Rightarrow> int" where
  "memcmp_loop 0 m p1 p2 i = 0"
| "memcmp_loop (Suc k) m p1 p2 i =
     (if m (p1 + i) \<noteq> m (p2 + i) then uint (m (p1 + i)) - uint (m (p2 + i))
      else memcmp_loop k m p1 p2 (i + 1))"

definition memcmp :: "bytes \<Rightarrow> u64 \<Rightarrow> u64 \<Rightarrow> u64 \<Rightarrow> int" where
  "memcmp m ptr1 ptr2 n = memcmp_loop (unat n) m ptr1 ptr2 0"

section \<open>Strings and buffers in memory\<close>

text \<open>\<open>cstr m a xs\<close>: at \<open>a\<close> there is the null-terminated string \<open>xs\<close>. \<open>buf m a n\<close>: the \<open>n\<close> bytes at \<open>a\<close>.\<close>

fun cstr :: "bytes \<Rightarrow> u64 \<Rightarrow> u8 list \<Rightarrow> bool" where
  "cstr m a [] = (m a = 0)"
| "cstr m a (x # xs) = (m a = x \<and> x \<noteq> 0 \<and> cstr m (a + 1) xs)"

fun buf :: "bytes \<Rightarrow> u64 \<Rightarrow> nat \<Rightarrow> u8 list" where
  "buf m a 0 = []"
| "buf m a (Suc n) = m a # buf m (a + 1) n"

text \<open>\<open>inside a n x\<close>: the address \<open>x\<close> is one of the \<open>n\<close> from \<open>a\<close> on, modulo the size of memory.\<close>

definition inside :: "u64 \<Rightarrow> nat \<Rightarrow> u64 \<Rightarrow> bool" where
  "inside a n x \<longleftrightarrow> unat (x - a) < n"

lemma length_buf [simp]: "length (buf m a n) = n"
  by (induction n arbitrary: a) simp_all

lemma nth_buf [simp]: "i < n \<Longrightarrow> buf m a n ! i = m (a + of_nat i)"
  by (induction n arbitrary: a i) (auto simp: nth_Cons algebra_simps split: nat.split)

lemma buf_eq_iff: "buf m a n = xs \<longleftrightarrow> length xs = n \<and> (\<forall>i < n. m (a + of_nat i) = xs ! i)"
  by (auto simp: list_eq_iff_nth_eq)

lemma cstr_unique: "cstr m a xs \<Longrightarrow> cstr m a ys \<Longrightarrow> xs = ys"
proof (induction xs arbitrary: a ys)
  case Nil then show ?case by (cases ys) auto
next
  case (Cons x xs) then show ?case by (cases ys) auto
qed

lemma cstr_nth: "cstr m a xs \<longleftrightarrow>
    (\<forall>i < length xs. m (a + of_nat i) = xs ! i \<and> xs ! i \<noteq> 0) \<and> m (a + of_nat (length xs)) = 0"
proof (induction xs arbitrary: a)
  case (Cons x xs)
  show ?case unfolding cstr.simps Cons.IH by (auto simp: less_Suc_eq_0_disj algebra_simps)
qed simp

lemma cstr_nonzero: "cstr m a xs \<Longrightarrow> 0 \<notin> set xs"
  by (induction xs arbitrary: a) auto

lemma strlen_loop_cstr: "cstr m (a + n) xs \<Longrightarrow> strlen_loop m a n = Some (n + of_nat (length xs))"
proof (induction xs arbitrary: n)
  case Nil then show ?case by (subst strlen_loop.simps) simp
next
  case (Cons x xs)
  then have "strlen_loop m a (n + 1) = Some (n + 1 + of_nat (length xs))" by (simp add: algebra_simps)
  then show ?case using Cons.prems by (subst strlen_loop.simps) (simp add: algebra_simps)
qed

lemma strlen_loop_Some: "strlen_loop m a n = Some k \<Longrightarrow> \<exists>xs. cstr m (a + n) xs \<and> k = n + of_nat (length xs)"
proof -
  assume r: "strlen_loop m a n = Some k"
  show ?thesis
    using _ r
  proof (rule strlen_loop.raw_induct [of "\<lambda>m a n k. \<exists>xs. cstr m (a + n) xs \<and> k = n + of_nat (length xs)"])
    fix f m a n k
    assume IH: "\<And>m a n k. f m a n = Some k \<Longrightarrow> \<exists>xs. cstr m (a + n) xs \<and> k = n + of_nat (length xs)"
      and e: "(if m (a + n) \<noteq> 0 then f m a (n + 1) else Some n) = Some k"
    show "\<exists>xs. cstr m (a + n) xs \<and> k = n + of_nat (length xs)"
    proof (cases "m (a + n) = 0")
      case True
      with e show ?thesis by (intro exI [of _ "[]"]) simp
    next
      case False
      with e IH obtain xs where "cstr m (a + (n + 1)) xs" "k = n + 1 + of_nat (length xs)" by fastforce
      with False show ?thesis by (intro exI [of _ "m (a + n) # xs"]) (simp add: algebra_simps)
    qed
  qed
qed

lemma strlen_iff: "strlen m a = Some n \<longleftrightarrow> (\<exists>xs. cstr m a xs \<and> n = of_nat (length xs))"
  using strlen_loop_cstr [of m a 0] strlen_loop_Some [of m a 0 n] by (auto simp: strlen_def)

lemma uint_pos: "x \<noteq> 0 \<Longrightarrow> 0 < uint x \<and> uint x \<noteq> 0" for x :: u8
  using word_neq_0_conv [of x] by (simp add: word_less_def)

lemma strcmp_cstr:
  "cstr m a xs \<Longrightarrow> cstr m b ys \<Longrightarrow> \<exists>r. strcmp m a b = Some r \<and>
     (r = 0 \<longleftrightarrow> xs = ys) \<and> (r < 0 \<longleftrightarrow> xs < ys)"
proof (induction xs arbitrary: a b ys)
  case Nil
  then show ?case by (subst strcmp.simps, cases ys) (auto simp: uint_pos)
next
  case (Cons x xs)
  show ?case
  proof (cases ys)
    case Nil
    with Cons.prems show ?thesis by (subst strcmp.simps) (auto simp: uint_pos)
  next
    case (Cons y zs)
    show ?thesis
    proof (cases "x = y")
      case True
      have "cstr m (a + 1) xs" "cstr m (b + 1) zs" using Cons.prems Cons by simp_all
      from Cons.IH [OF this] Cons.prems Cons True show ?thesis by (subst strcmp.simps) auto
    next
      case False
      with Cons.prems Cons show ?thesis
        by (subst strcmp.simps) (auto simp: word_less_def simp flip: word_uint_eq_iff)
    qed
  qed
qed

lemma strncmp_cstr:
  "cstr m a xs \<Longrightarrow> cstr m b ys \<Longrightarrow>
     (strncmp_loop n m a b = 0 \<longleftrightarrow> take n xs = take n ys) \<and>
     (strncmp_loop n m a b < 0 \<longleftrightarrow> take n xs < take n ys)"
proof (induction n arbitrary: a b xs ys)
  case (Suc n)
  show ?case
  proof (cases xs)
    case Nil
    with Suc.prems show ?thesis by (cases ys) (auto simp: uint_pos)
  next
    case (Cons x xs')
    note x = this
    show ?thesis
    proof (cases ys)
      case Nil
      with Suc.prems x show ?thesis by (auto simp: uint_pos)
    next
      case (Cons y ys')
      show ?thesis
      proof (cases "x = y")
        case True
        have "cstr m (a + 1) xs'" "cstr m (b + 1) ys'" using Suc.prems x Cons by simp_all
        from Suc.IH [OF this] Suc.prems x Cons True show ?thesis by auto
      next
        case False
        with Suc.prems x Cons show ?thesis by (auto simp: word_less_def simp flip: word_uint_eq_iff)
      qed
    qed
  qed
qed simp

lemma memcmp_loop_buf:
  "(memcmp_loop n m p q i = 0 \<longleftrightarrow> buf m (p + i) n = buf m (q + i) n) \<and>
   (memcmp_loop n m p q i < 0 \<longleftrightarrow> buf m (p + i) n < buf m (q + i) n)"
proof (induction n arbitrary: i)
  case (Suc n)
  then show ?case using Suc.IH [of "i + 1"]
    by (auto simp: add.assoc word_less_def simp flip: word_uint_eq_iff)
qed simp

section \<open>Searching\<close>

lemma strchr_cstr:
  "cstr m a xs \<Longrightarrow> strchr m a c =
     (if of_int c \<in> set xs then Some (a + of_nat (length (takeWhile (\<lambda>x. x \<noteq> of_int c) xs)))
      else Some (if c = 0 then a + of_nat (length xs) else 0))"
proof (induction xs arbitrary: a)
  case Nil then show ?case by (subst strchr.simps) simp
next
  case (Cons x xs)
  then have "cstr m (a + 1) xs" by simp
  from Cons.IH [OF this] Cons.prems show ?case by (subst strchr.simps) (auto simp: algebra_simps)
qed

lemma match_loop_cstr:
  "cstr m a xs \<Longrightarrow> cstr m b ys \<Longrightarrow> \<exists>n. match_loop m a b = Some n \<and> (m n = 0 \<longleftrightarrow> take (length ys) xs = ys)"
proof (induction ys arbitrary: a b xs)
  case Nil then show ?case by (subst match_loop.simps) auto
next
  case (Cons y ys)
  show ?case
  proof (cases "\<exists>zs. xs = y # zs")
    case True
    then obtain zs where "cstr m (a + 1) zs" "cstr m (b + 1) ys" "xs = y # zs" using Cons.prems by auto
    with Cons.IH [of "a + 1" zs "b + 1"] Cons.prems show ?thesis by (subst match_loop.simps) auto
  next
    case False
    with Cons.prems show ?thesis by (subst match_loop.simps, cases xs) auto
  qed
qed

lemma strstr_loop_cstr:
  assumes "cstr m b ys" "ys \<noteq> []"
  shows "cstr m a xs \<Longrightarrow> (\<forall>k \<le> length xs. take (length ys) (drop k xs) \<noteq> ys) \<and> strstr_loop m a b = Some 0 \<or>
     (\<exists>k < length xs. take (length ys) (drop k xs) = ys \<and> strstr_loop m a b = Some (a + of_nat k) \<and>
        (\<forall>j < k. take (length ys) (drop j xs) \<noteq> ys))"
proof (induction xs arbitrary: a)
  case Nil then show ?case using assms(2) by (subst strstr_loop.simps) auto
next
  case (Cons x xs)
  obtain n where n: "match_loop m a b = Some n" "m n = 0 \<longleftrightarrow> take (length ys) (x # xs) = ys"
    using match_loop_cstr [OF Cons.prems assms(1)] by blast
  show ?case
  proof (cases "m n = 0")
    case True
    with n Cons.prems show ?thesis by (intro disjI2 exI [of _ 0]) (subst strstr_loop.simps, simp)
  next
    case False
    then have e: "strstr_loop m a b = strstr_loop m (a + 1) b"
      using n Cons.prems by (subst strstr_loop.simps) simp
    have t: "take (length ys) (x # xs) \<noteq> ys" using False n by blast
    have "cstr m (a + 1) xs" using Cons.prems by simp
    from Cons.IH [OF this] show ?thesis
    proof (elim disjE exE conjE)
      assume n: "\<forall>k\<le>length xs. take (length ys) (drop k xs) \<noteq> ys" and r: "strstr_loop m (a + 1) b = Some 0"
      have "take (length ys) (drop k (x # xs)) \<noteq> ys" if "k \<le> length (x # xs)" for k
        using n t that by (cases k) auto
      with r show ?thesis unfolding e by blast
    next
      fix k assume k: "k < length xs" "take (length ys) (drop k xs) = ys"
        and r: "strstr_loop m (a + 1) b = Some (a + 1 + of_nat k)"
        and n: "\<forall>j<k. take (length ys) (drop j xs) \<noteq> ys"
      have "take (length ys) (drop j (x # xs)) \<noteq> ys" if "j < Suc k" for j
        using n t that by (cases j) auto
      with k r show ?thesis unfolding e by (intro disjI2 exI [of _ "Suc k"]) (auto simp: algebra_simps)
    qed
  qed
qed

section \<open>Copying\<close>

lemma inside_0 [simp]: "\<not> inside a 0 x"
  by (simp add: inside_def)

lemma inside_self [simp]: "inside a n a \<longleftrightarrow> 0 < n"
  by (simp add: inside_def)

lemma inside_Suc:
  assumes "n < 2 ^ 64"
  shows "inside a (Suc n) x \<longleftrightarrow> x = a \<or> inside (a + 1) n x"
proof (cases "x = a")
  case False
  then have z: "x - a \<noteq> 0" by simp
  have "x - (a + 1) = x - a - 1" by (simp add: algebra_simps)
  then have u: "unat (x - (a + 1)) = unat (x - a) - 1" by (simp only: unat_minus_one [OF z])
  have "unat (x - a) \<noteq> 0" using z unat_eq_0 [of "x - a"] by blast
  then show ?thesis using False unfolding inside_def u by auto
qed simp

lemma inside_pred:
  assumes "n < 2 ^ 64"
  shows "\<not> inside (a + 1) n a"
proof -
  have "a - (a + 1) = - 1" by simp
  then have "unat (a - (a + 1)) = unat (- 1 :: u64)" by (simp only:)
  then have "unat (a - (a + 1)) = 2 ^ 64 - 1" by (simp add: unsigned_minus_1_eq_mask mask_eq_exp_minus_1)
  with assms show ?thesis unfolding inside_def by linarith
qed

lemma inside_last:
  assumes "n < 2 ^ 64"
  shows "inside a (Suc n) x \<longleftrightarrow> inside a n x \<or> x = a + of_nat n"
proof -
  have u: "unat (of_nat n :: u64) = n" using assms by (simp add: unat_of_nat)
  have "x = a + of_nat n \<longleftrightarrow> unat (x - a) = n"
    unfolding word_unat_eq_iff [of "x - a" "of_nat n", unfolded u, symmetric] by (auto simp: algebra_simps)
  then show ?thesis by (auto simp: inside_def)
qed

lemma memset_loop_eq:
  "k < 2 ^ 64 \<Longrightarrow> memset_loop k p v i m x = (if inside (p + i) k x then v else m x)"
  by (induction k arbitrary: i m) (auto simp: inside_Suc add.assoc)

text \<open>
  Copying forward is right unless the destination lies less than the length behind the source;
  copying backward unless it lies less than the length before it.
\<close>

lemma copy_forward_eq:
  "k < 2 ^ 64 \<Longrightarrow> d = s \<or> k \<le> unat (d - s) \<Longrightarrow>
   copy_forward k d s i m x = (if inside (d + i) k x then m (s + (x - d)) else m x)"
proof (induction k arbitrary: i m)
  case (Suc k)
  define m' where "m' = m(d + i := m (s + i))"
  have c: "d = s \<or> k \<le> unat (d - s)" and k: "k < 2 ^ 64" using Suc.prems by auto
  have keep: "m' (s + (x - d)) = m (s + (x - d))" if x: "inside (d + i + 1) k x"
  proof (cases "s + (x - d) = d + i")
    case True
    then have e: "d - s = x - (d + i)" by (simp add: algebra_simps)
    have "inside (d + i) (Suc k) x" using x inside_Suc [OF k, of "d + i" x] by simp
    then have "unat (d - s) < Suc k" unfolding e inside_def .
    with Suc.prems(2) have "d = s" by linarith
    with e have "x = d + i" by (simp add: algebra_simps)
    with x inside_pred [OF k, of "d + i"] show ?thesis by simp
  qed (simp add: m'_def)
  have IH: "copy_forward k d s (i + 1) m' x = (if inside (d + i + 1) k x then m' (s + (x - d)) else m' x)"
    using Suc.IH [OF k c, of "i + 1" m'] by (simp add: add.assoc)
  have "copy_forward (Suc k) d s i m x = copy_forward k d s (i + 1) m' x" by (simp add: m'_def)
  then show ?case using IH keep inside_Suc [OF k, of "d + i" x] inside_pred [OF k, of "d + i"]
    by (cases "x = d + i") (simp_all add: m'_def)
qed simp

lemma copy_backward_eq:
  "k < 2 ^ 64 \<Longrightarrow> d = s \<or> k \<le> unat (s - d) \<Longrightarrow>
   copy_backward k d s m x = (if inside d k x then m (s + (x - d)) else m x)"
proof (induction k arbitrary: m)
  case (Suc k)
  define m' where "m' = m(d + of_nat k := m (s + of_nat k))"
  have c: "d = s \<or> k \<le> unat (s - d)" and k: "k < 2 ^ 64" using Suc.prems by auto
  have u: "unat (of_nat k :: u64) = k" using k by (simp add: unat_of_nat)
  have nk: "\<not> inside d k (d + of_nat k)" by (simp add: inside_def u)
  have keep: "m' (s + (x - d)) = m (s + (x - d))" if x: "inside d k x"
  proof (cases "s + (x - d) = d + of_nat k")
    case True
    then have e: "s - d = of_nat k - (x - d)" by (simp add: algebra_simps)
    have l: "unat (x - d) < k" using x by (simp add: inside_def)
    then have "unat (s - d) = k - unat (x - d)" unfolding e by (simp add: unat_sub_if' u)
    then have "unat (s - d) < Suc k" "unat (s - d) \<noteq> 0" using l by simp_all
    with Suc.prems(2) have False by auto
    then show ?thesis ..
  qed (simp add: m'_def)
  have st: "copy_backward (Suc k) d s m x = copy_backward k d s m' x" by (simp add: m'_def)
  have IH: "copy_backward k d s m' x = (if inside d k x then m' (s + (x - d)) else m' x)"
    by (rule Suc.IH [OF k c])
  show ?case
  proof (cases "x = d + of_nat k")
    case True
    then have "m' x = m (s + (x - d))" by (simp add: m'_def)
    then show ?thesis unfolding st IH using True nk inside_last [OF k, of d x] by simp
  next
    case False
    then have "m' x = m x" by (simp add: m'_def)
    then show ?thesis unfolding st IH using False keep inside_last [OF k, of d x] by simp
  qed
qed simp

lemma memset_mem_set: "memset p v n m = (p, mem_set m p (of_int v) (unat n))"
  using memset_loop_eq [of "unat n" p _ 0 m] unat_lt_64 [of n]
  by (auto simp: memset_def mem_set_def inside_def)

lemma memcpy_mem_copy:
  assumes "dest = src \<or> unat n \<le> unat (dest - src)"
  shows "memcpy dest src n m = (dest, mem_copy m dest src (unat n))"
  using copy_forward_eq [of "unat n" dest src 0 m] assms unat_lt_64 [of n]
  by (auto simp: memcpy_def mem_copy_def inside_def)

lemma memmove_mem_copy:
  assumes "unat src + unat n \<le> 2 ^ 64" "unat dest + unat n \<le> 2 ^ 64"
  shows "memmove dest src n m = (dest, mem_copy m dest src (unat n))"
proof -
  have n: "unat n < 2 ^ 64" using unat_lt_64 [of n] by simp
  have e: "mem_copy m dest src (unat n) x = (if inside dest (unat n) x then m (src + (x - dest)) else m x)" for x
    by (simp add: mem_copy_def inside_def)
  consider "dest < src" | "src < dest" | "dest = src" by (meson linorder_less_linear)
  then show ?thesis
  proof cases
    case 1
    then have "unat n \<le> unat (dest - src)" using assms(1) by (auto simp: unat_sub_if' word_less_nat_alt)
    then show ?thesis using 1 copy_forward_eq [OF n, of dest src 0 m] by (auto simp: memmove_def e fun_eq_iff)
  next
    case 2
    then have "unat n \<le> unat (src - dest)" using assms(2) by (auto simp: unat_sub_if' word_less_nat_alt)
    then show ?thesis using 2 copy_backward_eq [OF n, of dest src m] by (auto simp: memmove_def e fun_eq_iff)
  next
    case 3
    have "mem_copy m dest src (unat n) = m" unfolding fun_eq_iff e using 3 by simp
    with 3 show ?thesis by (simp add: memmove_def)
  qed
qed

text \<open>A copied string: the source is read before it is overwritten if the two do not meet.\<close>

definition apart :: "u64 \<Rightarrow> nat \<Rightarrow> u64 \<Rightarrow> nat \<Rightarrow> bool" where
  "apart a n b k \<longleftrightarrow> (\<forall>x. \<not> (inside a n x \<and> inside b k x))"

lemma cstr_upd: "cstr m a xs \<Longrightarrow> \<not> inside a (Suc (length xs)) d \<Longrightarrow> length xs < 2 ^ 64 \<Longrightarrow> cstr (m(d := v)) a xs"
proof (induction xs arbitrary: a)
  case (Cons x xs)
  have "length xs < 2 ^ 64" "Suc (length xs) < 2 ^ 64" using Cons.prems(3) by simp_all
  with Cons.prems inside_Suc [of "Suc (length xs)" a d] Cons.IH [of "a + 1"] show ?case by auto
qed (auto simp: inside_def)

lemma strncpy_fill_eq:
  "k < 2 ^ 64 \<Longrightarrow> strncpy_fill k d m x = (if inside d k x then 0 else m x)"
  by (induction k arbitrary: d m) (auto simp: inside_Suc)

lemma apart_Suc:
  assumes "apart a (Suc n) b (Suc k)" "n < 2 ^ 64" "k < 2 ^ 64"
  shows "apart (a + 1) n (b + 1) k" "\<not> inside b (Suc k) a"
  using assms inside_Suc [OF assms(2), of a] inside_Suc [OF assms(3), of b] by (auto simp: apart_def)

lemma strncpy_copy_eq:
  "cstr m src xs \<Longrightarrow> apart d n src (Suc (length xs)) \<Longrightarrow> n < 2 ^ 64 \<Longrightarrow> Suc (length xs) < 2 ^ 64 \<Longrightarrow>
   strncpy_copy n d src m x =
     (if inside d n x then (xs @ replicate n 0) ! unat (x - d) else m x)"
proof (induction n arbitrary: d src m xs)
  case (Suc n)
  have n: "n < 2 ^ 64" using Suc.prems(3) by simp
  show ?case
  proof (cases xs)
    case Nil
    have "m src = 0" using Nil Suc.prems(1) by simp
    then have st: "strncpy_copy (Suc n) d src m = strncpy_fill (Suc n) d m"
      by (simp del: strncpy_fill.simps)
    show ?thesis unfolding st strncpy_fill_eq [OF Suc.prems(3)] using Nil
      by (simp add: inside_def nth_replicate del: replicate_Suc)
  next
    case (Cons y ys)
    have a: "apart (d + 1) n (src + 1) (Suc (length ys))" "\<not> inside src (Suc (Suc (length ys))) d"
      using apart_Suc [OF Suc.prems(2) n Suc_lessD [OF Suc.prems(4)]] Cons by simp_all
    have l: "Suc (length ys) < 2 ^ 64" "length ys < 2 ^ 64" using Suc.prems(4) Cons by simp_all
    define m' where "m' = m(d := y)"
    have "\<not> inside (src + 1) (Suc (length ys)) d" using a(2) inside_Suc [OF l(1), of src d] by blast
    then have c: "cstr m' (src + 1) ys" unfolding m'_def using Suc.prems(1) Cons by (intro cstr_upd l) auto
    have e: "strncpy_copy (Suc n) d src m = strncpy_copy n (d + 1) (src + 1) m'"
      using Suc.prems(1) Cons by (simp add: m'_def)
    have IH: "strncpy_copy n (d + 1) (src + 1) m' x =
        (if inside (d + 1) n x then (ys @ replicate n 0) ! unat (x - (d + 1)) else m' x)"
      by (rule Suc.IH [OF c a(1) n l(1)])
    show ?thesis
    proof (cases "x = d")
      case True
      then show ?thesis unfolding e IH using inside_pred [OF n, of d] Cons by (simp add: m'_def)
    next
      case False
      then have z: "x - d \<noteq> 0" by simp
      have "x - (d + 1) = x - d - 1" by (simp add: algebra_simps)
      then have u: "unat (x - (d + 1)) = unat (x - d) - 1" by (simp only: unat_minus_one [OF z])
      have p: "0 < unat (x - d)" using z unat_gt_0 by blast
      have i: "inside d (Suc n) x \<longleftrightarrow> inside (d + 1) n x" using inside_Suc [OF n, of d x] False by simp
      have q: "(ys @ replicate n 0) ! (unat (x - d) - 1) = (xs @ replicate (Suc n) 0) ! unat (x - d)"
        if "inside d (Suc n) x"
      proof -
        obtain k where k: "unat (x - d) = Suc k" using p gr0_conv_Suc by blast
        have "(ys @ replicate n 0) ! k = (ys @ replicate (Suc n) 0) ! k"
          using that k by (auto simp: nth_append inside_def nth_replicate simp del: replicate_Suc)
        then show ?thesis using k Cons by simp
      qed
      show ?thesis unfolding e IH i u using q i False by (simp add: m'_def)
    qed
  qed
qed simp

text \<open>
  The idiom of the kernel for bounded strings: \<^verbatim>\<open>strncpy(dst, src, sizeof(dst) - 1)\<close> and a null byte in the
  last place leave the string cut to what fits.
\<close>

lemma strncpy_bounded:
  assumes c: "cstr m src xs" and ap: "apart d n src (Suc (length xs))"
    and n: "n < 2 ^ 64" "Suc (length xs) < 2 ^ 64"
  shows "cstr ((strncpy_copy n d src m)(d + of_nat n := 0)) d (take n xs)"
  unfolding cstr_nth
proof (intro conjI allI impI)
  have u: "unat (of_nat i :: u64) = i" if "i \<le> n" for i using that n(1) by (simp add: unat_of_nat)
  have ne: "of_nat i \<noteq> (of_nat n :: u64)" if "i < n" for i using that u [of i] u [of n] by force
  have v: "strncpy_copy n d src m (d + of_nat i) = (xs @ replicate n 0) ! i" if "i < n" for i
    using that strncpy_copy_eq [OF c ap n, of "d + of_nat i"] u [of i] by (simp add: inside_def)
  fix i assume i: "i < length (take n xs)"
  then have "i < n" "i < length xs" by simp_all
  then show "((strncpy_copy n d src m)(d + of_nat n := 0)) (d + of_nat i) = take n xs ! i"
    using v [of i] ne [of i] by (simp add: nth_append)
  show "take n xs ! i \<noteq> 0" using i cstr_nonzero [OF c] by (metis in_set_takeD nth_mem)
next
  have u: "unat (of_nat i :: u64) = i" if "i \<le> n" for i using that n(1) by (simp add: unat_of_nat)
  have v: "strncpy_copy n d src m (d + of_nat i) = (xs @ replicate n 0) ! i" if "i < n" for i
    using that strncpy_copy_eq [OF c ap n, of "d + of_nat i"] u [of i] by (simp add: inside_def)
  show "((strncpy_copy n d src m)(d + of_nat n := 0)) (d + of_nat (length (take n xs))) = 0"
    using v [of "length xs"] by (cases "length xs < n") (auto simp: nth_append)
qed

text \<open>The bytes behind a kernel pointer, read and written.\<close>

definition peek :: "u64 \<Rightarrow> u64 \<Rightarrow> 'a machine_scheme \<Rightarrow> u8 list" where
  "peek p n s = buf (pmem s) (X86_64_VIRT_TO_PHYS p) (unat n)"

definition poke :: "u64 \<Rightarrow> u8 list \<Rightarrow> 'a machine_scheme \<Rightarrow> 'a machine_scheme" where
  "poke p xs s = s\<lparr>pmem := (\<lambda>a. if inside (X86_64_VIRT_TO_PHYS p) (length xs) a
     then xs ! unat (a - X86_64_VIRT_TO_PHYS p) else pmem s a)\<rparr>"

section \<open>Properties\<close>




definition demo_bytes :: bytes where
  "demo_bytes = (\<lambda>_. 0)(1 := 7, 2 := 5, 3 := 9, 11 := 5, 12 := 9)"


end
