(* ===== verification/Vfs.thy ===== *)
theory Vfs
  imports Threads CString
begin

text \<open>
  The virtual file system: \<^verbatim>\<open>kernel/fs/vfs.c\<close> (nodes, mounts, the path cache, files in memory) and
  \<^verbatim>\<open>kernel/fs/devfs.c\<close>. Nodes, inodes, mounts and open files are records in stores indexed by their address
  and linked by pointers; the contents of a file are bytes of the kernel heap. A string is the list
  of its bytes without the terminating null byte, \<open>None\<close> the null pointer. The buffer of a read or write
  belongs to the caller: a write gets its bytes, a read returns those it stores there.

  Consoles, block devices and the ext2 file system are behind the functions of \<open>vfs_env\<close>. Trace
  and log output is left out.
\<close>

section \<open>State\<close>

type_synonym i64 = "64 word"
type_synonym cstring = "u8 list"

datatype vfs_node_type = VFS_NODE_FILE | VFS_NODE_DIR

datatype fs_driver = Ramfs | Devfs | Ext2

record vfs_inode =
  vi_type :: vfs_node_type
  vi_flags :: u32
  vi_fs_tag :: u32
  vi_fs_aux :: u32
  vi_fs_ino :: u64
  vi_size :: u64
  vi_capacity :: u64
  vi_data :: u64
  vi_mmap_object :: u64
  vi_node_gen :: u32

record vfs_node =
  vn_name :: cstring
  vn_type :: vfs_node_type
  vn_parent :: u64
  vn_sibling :: u64
  vn_children :: u64
  vn_inode :: u64
  vn_ref_count :: u32
  vn_unlinked :: bool

record vfs_mount =
  mt_fs_name :: cstring
  mt_root :: u64
  mt_mountpoint :: u64
  mt_next :: u64

record vfs_file =
  vf_node :: u64
  vf_pos :: u64
  vf_writable :: bool

record vfs_cache_entry =
  ce_path :: cstring
  ce_node :: u64
  ce_gen :: u32
  ce_node_gen :: u32

record vfs_stat =
  st_mode :: u32
  st_size :: u64

record vfs_state = reap_state +
  vnodes :: "u64 \<Rightarrow> vfs_node"
  vinodes :: "u64 \<Rightarrow> vfs_inode"
  vmnts :: "u64 \<Rightarrow> vfs_mount"
  vfiles :: "u64 \<Rightarrow> vfs_file"
  vfs_mounts :: u64
  vfs_root_mount :: u64
  vfs_root :: u64
  vfs_ready :: bool
  vfs_cache_gen :: u32
  vfs_cache_rr :: u32
  vfs_cache :: "vfs_cache_entry list"
  vfs_initrd_data :: u64
  vfs_initrd_size :: u64
  vfs_fs_drivers :: "fs_driver list"
  g_devfs_root :: u64
  g_pending_blocks :: "cstring list"

text \<open>
  The services below the file system: the console, block devices by name (a handle and its sector
  size), and the operations of ext2 on a node.
\<close>

record 's vfs_env =
  tty_console_read :: "u64 \<Rightarrow> bool \<Rightarrow> 's \<Rightarrow> int \<times> u8 list \<times> 's"
  tty_console_write :: "u8 list \<Rightarrow> 's \<Rightarrow> int \<times> 's"
  fabric_blockdev_find :: "cstring \<Rightarrow> 's \<Rightarrow> (u64 \<times> u32) option"
  fabric_blockdev_read :: "u64 \<Rightarrow> u64 \<Rightarrow> u32 \<Rightarrow> 's \<Rightarrow> int \<times> u8 list \<times> 's"
  fabric_blockdev_write :: "u64 \<Rightarrow> u64 \<Rightarrow> u32 \<Rightarrow> u8 list \<Rightarrow> 's \<Rightarrow> int \<times> 's"
  ext2_resize_file :: "u64 \<Rightarrow> u64 \<Rightarrow> 's \<Rightarrow> (int \<times> 's) option"
  ext2_writeback_file :: "u64 \<Rightarrow> u64 \<Rightarrow> u8 list \<Rightarrow> u64 \<Rightarrow> 's \<Rightarrow> (int \<times> 's) option"
  ext2_mount :: "cstring option \<Rightarrow> 's \<Rightarrow> (int \<times> u64 \<times> 's) option"

abbreviation (input) VFS_CACHE_SIZE :: nat where "VFS_CACHE_SIZE \<equiv> 64"
abbreviation (input) VFS_MAX_FS_DRIVERS :: nat where "VFS_MAX_FS_DRIVERS \<equiv> 8"
abbreviation (input) VFS_OPEN_WRITE :: u32 where "VFS_OPEN_WRITE \<equiv> 2"
abbreviation (input) VFS_OPEN_CREATE :: u32 where "VFS_OPEN_CREATE \<equiv> 4"
abbreviation (input) VFS_OPEN_TRUNC :: u32 where "VFS_OPEN_TRUNC \<equiv> 8"
abbreviation (input) VFS_INODE_CONSOLE :: u32 where "VFS_INODE_CONSOLE \<equiv> 1"
abbreviation (input) VFS_INODE_DEV_NULL :: u32 where "VFS_INODE_DEV_NULL \<equiv> 2"
abbreviation (input) VFS_INODE_DEV_ZERO :: u32 where "VFS_INODE_DEV_ZERO \<equiv> 4"
abbreviation (input) VFS_INODE_CHARDEV :: u32 where "VFS_INODE_CHARDEV \<equiv> 8"
abbreviation (input) VFS_INODE_BLOCKDEV :: u32 where "VFS_INODE_BLOCKDEV \<equiv> 16"
abbreviation (input) VFS_FS_TAG_EXT2 :: u32 where "VFS_FS_TAG_EXT2 \<equiv> 1"
abbreviation (input) INITRD_MAGIC :: u32 where "INITRD_MAGIC \<equiv> 0x52444E58"
abbreviation (input) sizeof_inode :: u64 where "sizeof_inode \<equiv> 64"
abbreviation (input) sizeof_node :: u64 where "sizeof_node \<equiv> 80"
abbreviation (input) sizeof_mount :: u64 where "sizeof_mount \<equiv> 32"
abbreviation (input) NAME_MAX :: nat where "NAME_MAX \<equiv> 31"
abbreviation (input) slash :: u8 where "slash \<equiv> 47"

definition upd_vnode :: "u64 \<Rightarrow> (vfs_node \<Rightarrow> vfs_node) \<Rightarrow> 'a vfs_state_scheme \<Rightarrow> 'a vfs_state_scheme" where
  "upd_vnode p f s = s\<lparr>vnodes := (vnodes s)(p := f (vnodes s p))\<rparr>"

definition upd_vinode :: "u64 \<Rightarrow> (vfs_inode \<Rightarrow> vfs_inode) \<Rightarrow> 'a vfs_state_scheme \<Rightarrow> 'a vfs_state_scheme" where
  "upd_vinode p f s = s\<lparr>vinodes := (vinodes s)(p := f (vinodes s p))\<rparr>"

definition upd_vfile :: "u64 \<Rightarrow> (vfs_file \<Rightarrow> vfs_file) \<Rightarrow> 'a vfs_state_scheme \<Rightarrow> 'a vfs_state_scheme" where
  "upd_vfile p f s = s\<lparr>vfiles := (vfiles s)(p := f (vfiles s p))\<rparr>"

text \<open>The inode of a node.\<close>

definition node_inode :: "u64 \<Rightarrow> 'a vfs_state_scheme \<Rightarrow> vfs_inode" where
  "node_inode n s = vinodes s (vn_inode (vnodes s n))"

text \<open>A \<^verbatim>\<open>size_t\<close> as the \<^verbatim>\<open>int\<close> that is returned.\<close>

definition int_of_size :: "u64 \<Rightarrow> int" where
  "int_of_size n = sint (ucast n :: 32 word)"

section \<open>Mounts and the path cache\<close>

partial_function (option) find_mount_from :: "u64 \<Rightarrow> u64 \<Rightarrow> 'a vfs_state_scheme \<Rightarrow> u64 option" where
  "find_mount_from it node s =
     (if it = 0 then Some 0
      else if mt_mountpoint (vmnts s it) = node then Some it
      else find_mount_from (mt_next (vmnts s it)) node s)"

definition vfs_find_mount_at :: "u64 \<Rightarrow> 'a vfs_state_scheme \<Rightarrow> u64 option" where
  "vfs_find_mount_at node s = find_mount_from (vfs_mounts s) node s"

definition vfs_cache_reset :: "'a vfs_state_scheme \<Rightarrow> 'a vfs_state_scheme" where
  "vfs_cache_reset s = s\<lparr>vfs_cache_gen := vfs_cache_gen s + 1,
     vfs_cache := map (\<lambda>e. e\<lparr>ce_path := [], ce_node := 0, ce_gen := 0\<rparr>) (vfs_cache s),
     vfs_cache_rr := 0\<rparr>"

fun cache_scan :: "vfs_cache_entry list \<Rightarrow> cstring \<Rightarrow> 'a vfs_state_scheme \<Rightarrow> u64" where
  "cache_scan [] path s = 0"
| "cache_scan (e # es) path s =
     (if ce_gen e \<noteq> vfs_cache_gen s then cache_scan es path s
      else if ce_path e \<noteq> [] \<and> ce_path e = path then
        (let n = ce_node e
         in if n \<noteq> 0 \<and> vn_inode (vnodes s n) \<noteq> 0 \<and> vi_node_gen (node_inode n s) \<noteq> ce_node_gen e
            then cache_scan es path s
            else n)
      else cache_scan es path s)"

definition vfs_cache_lookup :: "cstring option \<Rightarrow> 'a vfs_state_scheme \<Rightarrow> u64" where
  "vfs_cache_lookup path s = (case path of None \<Rightarrow> 0 | Some p \<Rightarrow> cache_scan (vfs_cache s) p s)"

definition vfs_cache_insert :: "cstring option \<Rightarrow> u64 \<Rightarrow> 'a vfs_state_scheme \<Rightarrow> 'a vfs_state_scheme" where
  "vfs_cache_insert path node s =
     (case path of
        None \<Rightarrow> s
      | Some p \<Rightarrow>
          if node = 0 then s
          else
            let slot = unat (vfs_cache_rr s) mod VFS_CACHE_SIZE
            in s\<lparr>vfs_cache_rr := vfs_cache_rr s + 1,
                 vfs_cache := (vfs_cache s)[slot :=
                   \<lparr>ce_path = take 63 p, ce_node = node, ce_gen = vfs_cache_gen s,
                    ce_node_gen = (if vn_inode (vnodes s node) \<noteq> 0 then vi_node_gen (node_inode node s) else 0)\<rparr>]\<rparr>)"

section \<open>Nodes\<close>

definition vfs_alloc_inode :: "vfs_node_type \<Rightarrow> 'a vfs_state_scheme \<Rightarrow> (u64 \<times> 'a vfs_state_scheme) option" where
  "vfs_alloc_inode ty s =
     (case kmalloc sizeof_inode s of
        None \<Rightarrow> None
      | Some (p, s) \<Rightarrow>
          if p = 0 then Some (0, s)
          else Some (p, upd_vinode p (\<lambda>_. \<lparr>vi_type = ty, vi_flags = 0, vi_fs_tag = 0, vi_fs_aux = 0, vi_fs_ino = 0,
                 vi_size = 0, vi_capacity = 0, vi_data = 0, vi_mmap_object = 0, vi_node_gen = 0\<rparr>) s))"

definition vfs_alloc_node :: "cstring option \<Rightarrow> vfs_node_type \<Rightarrow> 'a vfs_state_scheme \<Rightarrow> (u64 \<times> 'a vfs_state_scheme) option" where
  "vfs_alloc_node name ty s =
     (case kmalloc sizeof_node s of
        None \<Rightarrow> None
      | Some (p, s) \<Rightarrow>
          if p = 0 then Some (0, s)
          else
            let s = upd_vnode p (\<lambda>_. \<lparr>vn_name = (case name of None \<Rightarrow> [] | Some nm \<Rightarrow> take NAME_MAX nm), vn_type = ty,
                      vn_parent = 0, vn_sibling = 0, vn_children = 0, vn_inode = 0, vn_ref_count = 1,
                      vn_unlinked = False\<rparr>) s
            in case vfs_alloc_inode ty s of
                 None \<Rightarrow> None
               | Some (ip, s) \<Rightarrow>
                   let s = upd_vnode p (\<lambda>n. n\<lparr>vn_inode := ip\<rparr>) s
                   in if ip = 0 then map_option (Pair 0) (kfree p s) else Some (p, s))"

definition free_inode :: "u64 \<Rightarrow> 'a vfs_state_scheme \<Rightarrow> 'a vfs_state_scheme option" where
  "free_inode ip s =
     (let s = upd_vinode ip (\<lambda>i. i\<lparr>vi_node_gen := vi_node_gen i + 1\<rparr>) s
      in case (if vi_data (vinodes s ip) \<noteq> 0 then kfree (vi_data (vinodes s ip)) s else Some s) of
           None \<Rightarrow> None
         | Some s \<Rightarrow> kfree ip s)"

definition vfs_free_node :: "u64 \<Rightarrow> 'a vfs_state_scheme \<Rightarrow> 'a vfs_state_scheme option" where
  "vfs_free_node node s =
     (if node = 0 then Some s
      else case (if vn_inode (vnodes s node) \<noteq> 0 then free_inode (vn_inode (vnodes s node)) s else Some s) of
             None \<Rightarrow> None
           | Some s \<Rightarrow> kfree node s)"

definition vfs_node_retain :: "u64 \<Rightarrow> 'a vfs_state_scheme \<Rightarrow> 'a vfs_state_scheme" where
  "vfs_node_retain node s =
     (if node = 0 then s else upd_vnode node (\<lambda>n. n\<lparr>vn_ref_count := vn_ref_count n + 1\<rparr>) s)"

definition vfs_node_release :: "u64 \<Rightarrow> 'a vfs_state_scheme \<Rightarrow> 'a vfs_state_scheme option" where
  "vfs_node_release node s =
     (if node = 0 then Some s
      else if vn_ref_count (vnodes s node) = 0 then Some s
      else
        let s = upd_vnode node (\<lambda>n. n\<lparr>vn_ref_count := vn_ref_count n - 1\<rparr>) s
        in if vn_ref_count (vnodes s node) = 0 then vfs_free_node node s else Some s)"

partial_function (option) find_child_from :: "u64 \<Rightarrow> cstring \<Rightarrow> 'a vfs_state_scheme \<Rightarrow> u64 option" where
  "find_child_from it name s =
     (if it = 0 then Some 0
      else if vn_name (vnodes s it) = name then Some it
      else find_child_from (vn_sibling (vnodes s it)) name s)"

definition vfs_find_child :: "u64 \<Rightarrow> cstring \<Rightarrow> 'a vfs_state_scheme \<Rightarrow> u64 option" where
  "vfs_find_child dir name s =
     (if dir = 0 \<or> vn_type (vnodes s dir) \<noteq> VFS_NODE_DIR then Some 0
      else find_child_from (vn_children (vnodes s dir)) name s)"

definition vfs_add_child :: "u64 \<Rightarrow> u64 \<Rightarrow> 'a vfs_state_scheme \<Rightarrow> int \<times> 'a vfs_state_scheme" where
  "vfs_add_child dir child s =
     (if dir = 0 \<or> child = 0 \<or> vn_type (vnodes s dir) \<noteq> VFS_NODE_DIR then (- 1, s)
      else
        let s = upd_vnode child (\<lambda>n. n\<lparr>vn_parent := dir\<rparr>) s;
            s = upd_vnode child (\<lambda>n. n\<lparr>vn_sibling := vn_children (vnodes s dir)\<rparr>) s
        in (0, upd_vnode dir (\<lambda>n. n\<lparr>vn_children := child\<rparr>) s))"

section \<open>Path resolution\<close>

text \<open>The next component (cut to \<open>out_len - 1\<close> bytes) and the rest of the path, \<open>None\<close> at its end.\<close>

definition vfs_next_component :: "cstring \<Rightarrow> nat \<Rightarrow> (cstring \<times> cstring) option" where
  "vfs_next_component path out_len =
     (let path = dropWhile (\<lambda>c. c = slash) path
      in if path = [] then None
         else Some (take (out_len - 1) (takeWhile (\<lambda>c. c \<noteq> slash) path), dropWhile (\<lambda>c. c \<noteq> slash) path))"

lemma next_component_shorter:
  "vfs_next_component path n = Some (cmp, rest) \<Longrightarrow> length rest < length path"
proof -
  assume a: "vfs_next_component path n = Some (cmp, rest)"
  let ?p = "dropWhile (\<lambda>c. c = slash) path"
  have p: "?p \<noteq> []" "rest = dropWhile (\<lambda>c. c \<noteq> slash) ?p"
    using a by (auto simp: vfs_next_component_def Let_def split: if_splits)
  then obtain x xs where x: "?p = x # xs" by (cases ?p) auto
  have "x \<noteq> slash" using p(1) hd_dropWhile [of "\<lambda>c. c = slash" path] x by simp
  then have "length rest \<le> length xs" using p(2) x length_dropWhile_le [of "\<lambda>c. c \<noteq> slash" xs] by simp
  then show ?thesis using x length_dropWhile_le [of "\<lambda>c. c = slash" path] by simp
qed

text \<open>The step from a directory to a component, and over a mount point to the root that is mounted there.\<close>

definition cross_mount :: "u64 \<Rightarrow> 'a vfs_state_scheme \<Rightarrow> u64 option" where
  "cross_mount cur s =
     (case vfs_find_mount_at cur s of
        None \<Rightarrow> None
      | Some mnt \<Rightarrow> Some (if mnt \<noteq> 0 \<and> mt_root (vmnts s mnt) \<noteq> 0 then mt_root (vmnts s mnt) else cur))"

function resolve_parent_loop :: "u64 \<Rightarrow> cstring \<Rightarrow> 'a vfs_state_scheme \<Rightarrow> (u64 \<times> cstring) option" where
  "resolve_parent_loop cur p s =
     (case vfs_next_component p 32 of
        None \<Rightarrow> Some (0, [])
      | Some (cmp, rest) \<Rightarrow>
          if dropWhile (\<lambda>c. c = slash) rest = [] then Some (cur, take NAME_MAX cmp)
          else case vfs_find_child cur cmp s of
                 None \<Rightarrow> None
               | Some cur \<Rightarrow>
                   if cur = 0 \<or> vn_type (vnodes s cur) \<noteq> VFS_NODE_DIR then Some (0, [])
                   else case cross_mount cur s of
                          None \<Rightarrow> None
                        | Some cur \<Rightarrow> resolve_parent_loop cur rest s)"
  by pat_completeness auto
termination by (relation "measure (\<lambda>(_, p, _). length p)") (auto dest: next_component_shorter)

definition vfs_resolve_parent :: "cstring option \<Rightarrow> 'a vfs_state_scheme \<Rightarrow> (u64 \<times> cstring) option" where
  "vfs_resolve_parent path s =
     (case path of
        None \<Rightarrow> Some (0, [])
      | Some p \<Rightarrow>
          if vfs_root s = 0 then Some (0, [])
          else if p = [slash] then Some (0, [])
          else resolve_parent_loop (vfs_root s) p s)"

function lookup_loop :: "u64 \<Rightarrow> cstring \<Rightarrow> 'a vfs_state_scheme \<Rightarrow> u64 option" where
  "lookup_loop cur p s =
     (case vfs_next_component p 32 of
        None \<Rightarrow> Some cur
      | Some (cmp, rest) \<Rightarrow>
          (case vfs_find_child cur cmp s of
             None \<Rightarrow> None
           | Some cur \<Rightarrow>
               if cur = 0 then Some 0
               else case cross_mount cur s of
                      None \<Rightarrow> None
                    | Some cur \<Rightarrow> lookup_loop cur rest s))"
  by pat_completeness auto
termination by (relation "measure (\<lambda>(_, p, _). length p)") (auto dest: next_component_shorter)

declare resolve_parent_loop.simps [simp del] lookup_loop.simps [simp del]

definition vfs_lookup :: "cstring option \<Rightarrow> 'a vfs_state_scheme \<Rightarrow> (u64 \<times> 'a vfs_state_scheme) option" where
  "vfs_lookup path s =
     (case path of
        None \<Rightarrow> Some (0, s)
      | Some p \<Rightarrow>
          if vfs_root s = 0 then Some (0, s)
          else if p = [slash] then Some (vfs_root s, s)
          else if vfs_cache_lookup path s \<noteq> 0 then Some (vfs_cache_lookup path s, s)
          else case lookup_loop (vfs_root s) p s of
                 None \<Rightarrow> None
               | Some cur \<Rightarrow> if cur = 0 then Some (0, s) else Some (cur, vfs_cache_insert path cur s))"

section \<open>File data\<close>

text \<open>The loop that doubles the capacity; it wraps to 0 when the size needed is above half of the range.\<close>

partial_function (option) grow_cap :: "u64 \<Rightarrow> u64 \<Rightarrow> u64 option" where
  "grow_cap new_cap needed = (if new_cap < needed then grow_cap (new_cap * 2) needed else Some new_cap)"

definition vfs_grow_file :: "u64 \<Rightarrow> u64 \<Rightarrow> 'a vfs_state_scheme \<Rightarrow> (int \<times> 'a vfs_state_scheme) option" where
  "vfs_grow_file node needed s =
     (if node = 0 \<or> vn_type (vnodes s node) \<noteq> VFS_NODE_FILE \<or> vn_inode (vnodes s node) = 0 then Some (- 1, s)
      else
        let ip = vn_inode (vnodes s node); i = vinodes s ip
        in if needed \<le> vi_capacity i then Some (0, s)
           else case grow_cap (if vi_capacity i \<noteq> 0 then vi_capacity i else 64) needed of
                  None \<Rightarrow> None
                | Some new_cap \<Rightarrow>
           (case kmalloc new_cap s of
              None \<Rightarrow> None
            | Some (new_buf, s) \<Rightarrow>
                if new_buf = 0 then Some (- 1, s)
                else
                  let s = (if vi_data i \<noteq> 0 \<and> vi_size i > 0 then poke new_buf (peek (vi_data i) (vi_size i) s) s else s)
                  in case (if vi_data i \<noteq> 0 then kfree (vi_data i) s else Some s) of
                       None \<Rightarrow> None
                     | Some s \<Rightarrow> Some (0, upd_vinode ip (\<lambda>i. i\<lparr>vi_data := new_buf, vi_capacity := new_cap\<rparr>) s)))"

definition clip_pos :: "u64 \<Rightarrow> vfs_file \<Rightarrow> vfs_file" where
  "clip_pos new_size file = (if new_size < vf_pos file then file\<lparr>vf_pos := new_size\<rparr> else file)"

definition zero_tail :: "u64 \<Rightarrow> u64 \<Rightarrow> u64 \<Rightarrow> 'a vfs_state_scheme \<Rightarrow> 'a vfs_state_scheme" where
  "zero_tail ip old_size new_size s =
     poke (vi_data (vinodes s ip) + old_size) (replicate (unat (new_size - old_size)) 0) s"

text \<open>\<^verbatim>\<open>vfs_resize_file\<close> on the file structure itself; \<^verbatim>\<open>vfs_truncate\<close> calls it with one on its stack.\<close>

definition resize_file ::
  "'a vfs_state_scheme vfs_env \<Rightarrow> vfs_file \<Rightarrow> u64 \<Rightarrow> 'a vfs_state_scheme
     \<Rightarrow> (int \<times> vfs_file \<times> 'a vfs_state_scheme) option" where
  "resize_file env file new_size s =
     (let node = vf_node file; ip = vn_inode (vnodes s node)
      in if node = 0 \<or> vn_type (vnodes s node) \<noteq> VFS_NODE_FILE \<or> ip = 0 then Some (RDNX_E_INVALID, file, s)
         else if vi_flags (vinodes s ip) AND (VFS_INODE_CONSOLE OR VFS_INODE_CHARDEV OR VFS_INODE_BLOCKDEV) \<noteq> 0
         then Some (RDNX_E_UNSUPPORTED, file, s)
         else if vi_fs_tag (vinodes s ip) = VFS_FS_TAG_EXT2 then
           (case ext2_resize_file env node new_size s of
              None \<Rightarrow> None
            | Some (rc, s) \<Rightarrow>
                if rc \<noteq> RDNX_OK then Some (rc, file, s)
                else case (if vi_data (vinodes s ip) \<noteq> 0 \<and> new_size > vi_capacity (vinodes s ip)
                           then vfs_grow_file node new_size s else Some (0, s)) of
                       None \<Rightarrow> None
                     | Some (g, s) \<Rightarrow>
                         if g \<noteq> 0 then Some (RDNX_E_NOMEM, file, s)
                         else
                           let s = (if vi_data (vinodes s ip) \<noteq> 0 \<and> new_size > vi_size (vinodes s ip)
                                    then zero_tail ip (vi_size (vinodes s ip)) new_size s else s)
                           in Some (RDNX_OK, clip_pos new_size file, upd_vinode ip (\<lambda>i. i\<lparr>vi_size := new_size\<rparr>) s))
         else
           let old_size = vi_size (vinodes s ip)
           in case (if new_size > vi_capacity (vinodes s ip) then vfs_grow_file node new_size s else Some (0, s)) of
                None \<Rightarrow> None
              | Some (g, s) \<Rightarrow>
                  if g \<noteq> 0 then Some (RDNX_E_NOMEM, file, s)
                  else
                    let s = (if new_size > old_size \<and> vi_data (vinodes s ip) \<noteq> 0
                             then zero_tail ip old_size new_size s else s)
                    in Some (RDNX_OK, clip_pos new_size file, upd_vinode ip (\<lambda>i. i\<lparr>vi_size := new_size\<rparr>) s))"

definition vfs_resize_file ::
  "'a vfs_state_scheme vfs_env \<Rightarrow> u64 \<Rightarrow> u64 \<Rightarrow> 'a vfs_state_scheme \<Rightarrow> (int \<times> 'a vfs_state_scheme) option" where
  "vfs_resize_file env fp new_size s =
     (if fp = 0 then Some (RDNX_E_INVALID, s)
      else case resize_file env (vfiles s fp) new_size s of
             None \<Rightarrow> None
           | Some (rc, file, s) \<Rightarrow> Some (rc, upd_vfile fp (\<lambda>_. file) s))"

section \<open>Drivers and mounting\<close>

definition cstring_of :: "string \<Rightarrow> cstring" where
  "cstring_of = map (of_nat \<circ> of_char)"

definition driver_name :: "fs_driver \<Rightarrow> cstring" where
  "driver_name d = cstring_of (case d of Ramfs \<Rightarrow> ''ramfs'' | Devfs \<Rightarrow> ''devfs'' | Ext2 \<Rightarrow> ''ext2'')"

definition vfs_find_fs_driver :: "cstring option \<Rightarrow> 'a vfs_state_scheme \<Rightarrow> fs_driver option" where
  "vfs_find_fs_driver fs_name s =
     (case fs_name of None \<Rightarrow> None
      | Some nm \<Rightarrow> if nm = [] then None else find (\<lambda>d. driver_name d = nm) (vfs_fs_drivers s))"

definition vfs_ramfs_mount :: "'a vfs_state_scheme \<Rightarrow> (int \<times> u64 \<times> 'a vfs_state_scheme) option" where
  "vfs_ramfs_mount s =
     (case vfs_alloc_node (Some [slash]) VFS_NODE_DIR s of
        None \<Rightarrow> None
      | Some (r, s) \<Rightarrow> if r = 0 then Some (RDNX_E_NOMEM, 0, s) else Some (RDNX_OK, r, s))"

definition vfs_create_node ::
  "u64 \<Rightarrow> cstring \<Rightarrow> vfs_node_type \<Rightarrow> 'a vfs_state_scheme \<Rightarrow> (u64 \<times> 'a vfs_state_scheme) option" where
  "vfs_create_node parent name ty s =
     (case vfs_alloc_node (Some name) ty s of
        None \<Rightarrow> None
      | Some (node, s) \<Rightarrow>
          if node = 0 then Some (0, s)
          else let (rc, s) = vfs_add_child parent node s
               in if rc \<noteq> 0 then map_option (Pair 0) (vfs_node_release node s)
                  else Some (node, vfs_cache_reset s))"

definition vfs_fs_alloc_node :: "cstring option \<Rightarrow> vfs_node_type \<Rightarrow> 'a vfs_state_scheme \<Rightarrow> (u64 \<times> 'a vfs_state_scheme) option" where
  "vfs_fs_alloc_node name ty s = vfs_alloc_node name ty s"

definition vfs_fs_add_child :: "u64 \<Rightarrow> u64 \<Rightarrow> 'a vfs_state_scheme \<Rightarrow> int \<times> 'a vfs_state_scheme" where
  "vfs_fs_add_child parent child s =
     (if parent = 0 \<or> child = 0 then (RDNX_E_INVALID, s)
      else case vfs_add_child parent child s of (rc, s) \<Rightarrow> (if rc = 0 then RDNX_OK else RDNX_E_INVALID, s))"

definition vfs_fs_set_file_data :: "u64 \<Rightarrow> u8 list option \<Rightarrow> u64 \<Rightarrow> 'a vfs_state_scheme \<Rightarrow> (int \<times> 'a vfs_state_scheme) option" where
  "vfs_fs_set_file_data node data n s =
     (if node = 0 \<or> vn_type (vnodes s node) \<noteq> VFS_NODE_FILE \<or> vn_inode (vnodes s node) = 0 then Some (RDNX_E_INVALID, s)
      else if n > 0 \<and> data = None then Some (RDNX_E_INVALID, s)
      else case vfs_grow_file node n s of
             None \<Rightarrow> None
           | Some (g, s) \<Rightarrow>
               if g \<noteq> 0 then Some (RDNX_E_NOMEM, s)
               else
                 let ip = vn_inode (vnodes s node);
                     s = (if n > 0 then poke (vi_data (vinodes s ip)) (take (unat n) (the data)) s else s)
                 in Some (RDNX_OK, upd_vinode ip (\<lambda>i. i\<lparr>vi_size := n\<rparr>) s))"

definition vfs_fs_free_node :: "u64 \<Rightarrow> 'a vfs_state_scheme \<Rightarrow> 'a vfs_state_scheme option" where
  "vfs_fs_free_node node s = vfs_node_release node s"

definition devfs_find_child :: "u64 \<Rightarrow> cstring \<Rightarrow> 'a vfs_state_scheme \<Rightarrow> u64 option" where
  "devfs_find_child root name s =
     (if root = 0 \<or> vn_type (vnodes s root) \<noteq> VFS_NODE_DIR then Some 0
      else find_child_from (vn_children (vnodes s root)) name s)"

text \<open>The common part of the two functions that add a device node.\<close>

definition devfs_add_node :: "u64 \<Rightarrow> cstring \<Rightarrow> u32 \<Rightarrow> 'a vfs_state_scheme \<Rightarrow> (int \<times> 'a vfs_state_scheme) option" where
  "devfs_add_node root name flags s =
     (case vfs_fs_alloc_node (Some name) VFS_NODE_FILE s of
        None \<Rightarrow> None
      | Some (node, s) \<Rightarrow>
          if node = 0 \<or> vn_inode (vnodes s node) = 0 then Some (RDNX_E_NOMEM, s)
          else
            let s = upd_vinode (vn_inode (vnodes s node)) (\<lambda>i. i\<lparr>vi_flags := vi_flags i OR flags\<rparr>) s;
                (rc, s) = vfs_fs_add_child root node s
            in if rc \<noteq> RDNX_OK then map_option (Pair rc) (vfs_fs_free_node node s) else Some (RDNX_OK, s))"

definition devfs_add_chardev :: "u64 \<Rightarrow> cstring \<Rightarrow> u32 \<Rightarrow> 'a vfs_state_scheme \<Rightarrow> (int \<times> 'a vfs_state_scheme) option" where
  "devfs_add_chardev root name extra_flags s = devfs_add_node root name (VFS_INODE_CHARDEV OR extra_flags) s"

definition devfs_add_blockdev :: "u64 \<Rightarrow> cstring \<Rightarrow> 'a vfs_state_scheme \<Rightarrow> (int \<times> 'a vfs_state_scheme) option" where
  "devfs_add_blockdev root name s =
     (if root = 0 \<or> name = [] then Some (RDNX_E_INVALID, s)
      else case devfs_find_child root name s of
             None \<Rightarrow> None
           | Some c \<Rightarrow> if c \<noteq> 0 then Some (RDNX_OK, s) else devfs_add_node root name VFS_INODE_BLOCKDEV s)"

text \<open>A loop over operations that stops at the first code other than 0, with that code.\<close>

fun until_error :: "('s \<Rightarrow> (int \<times> 's) option) list \<Rightarrow> 's \<Rightarrow> (int \<times> 's) option" where
  "until_error [] s = Some (RDNX_OK, s)"
| "until_error (f # fs) s =
     (case f s of None \<Rightarrow> None | Some (rc, s) \<Rightarrow> if rc \<noteq> RDNX_OK then Some (rc, s) else until_error fs s)"

definition devfs_mount :: "'a vfs_state_scheme \<Rightarrow> (int \<times> u64 \<times> 'a vfs_state_scheme) option" where
  "devfs_mount s =
     (case vfs_fs_alloc_node (Some [slash]) VFS_NODE_DIR s of
        None \<Rightarrow> None
      | Some (root, s) \<Rightarrow>
          if root = 0 then Some (RDNX_E_NOMEM, 0, s)
          else
     (case until_error (map (\<lambda>a. devfs_add_chardev root (cstring_of a) VFS_INODE_CONSOLE)
             [''console'', ''stdin'', ''stdout'', ''stderr'']) s of
        None \<Rightarrow> None
      | Some (rc, s) \<Rightarrow>
          if rc \<noteq> RDNX_OK then Some (rc, 0, s)
          else
     (case until_error ([devfs_add_chardev root (cstring_of ''null'') VFS_INODE_DEV_NULL,
              devfs_add_chardev root (cstring_of ''zero'') VFS_INODE_DEV_ZERO] @
              map (devfs_add_blockdev root) (g_pending_blocks s)) s of
        None \<Rightarrow> None
      | Some (rc, s) \<Rightarrow>
          if rc \<noteq> RDNX_OK then Some (RDNX_E_NOMEM, 0, s)
          else Some (RDNX_OK, root, s\<lparr>g_devfs_root := root\<rparr>))))"

definition devfs_register_blockdev :: "cstring option \<Rightarrow> 'a vfs_state_scheme \<Rightarrow> (int \<times> 'a vfs_state_scheme) option" where
  "devfs_register_blockdev name s =
     (case name of
        None \<Rightarrow> Some (RDNX_E_INVALID, s)
      | Some nm \<Rightarrow>
          if nm = [] then Some (RDNX_E_INVALID, s)
          else if nm \<in> set (g_pending_blocks s) then Some (RDNX_OK, s)
          else if g_devfs_root s \<noteq> 0 then devfs_add_blockdev (g_devfs_root s) nm s
          else if length (g_pending_blocks s) \<ge> 16 then Some (RDNX_E_BUSY, s)
          else Some (RDNX_OK, s\<lparr>g_pending_blocks := g_pending_blocks s @ [take NAME_MAX nm]\<rparr>))"

definition driver_mount ::
  "'a vfs_state_scheme vfs_env \<Rightarrow> fs_driver \<Rightarrow> cstring option \<Rightarrow> 'a vfs_state_scheme
     \<Rightarrow> (int \<times> u64 \<times> 'a vfs_state_scheme) option" where
  "driver_mount env d source s =
     (case d of Ramfs \<Rightarrow> vfs_ramfs_mount s | Devfs \<Rightarrow> devfs_mount s | Ext2 \<Rightarrow> ext2_mount env source s)"

definition vfs_register_fs :: "fs_driver \<Rightarrow> 'a vfs_state_scheme \<Rightarrow> int \<times> 'a vfs_state_scheme" where
  "vfs_register_fs d s =
     (if vfs_find_fs_driver (Some (driver_name d)) s \<noteq> None then (RDNX_OK, s)
      else if length (vfs_fs_drivers s) \<ge> VFS_MAX_FS_DRIVERS then (RDNX_E_NOMEM, s)
      else (RDNX_OK, s\<lparr>vfs_fs_drivers := vfs_fs_drivers s @ [d]\<rparr>))"

definition push_mount :: "u64 \<Rightarrow> cstring \<Rightarrow> u64 \<Rightarrow> u64 \<Rightarrow> 'a vfs_state_scheme \<Rightarrow> 'a vfs_state_scheme" where
  "push_mount mnt nm root mountpoint s =
     s\<lparr>vmnts := (vmnts s)(mnt := \<lparr>mt_fs_name = nm, mt_root = root, mt_mountpoint = mountpoint, mt_next = vfs_mounts s\<rparr>),
       vfs_mounts := mnt\<rparr>"

definition vfs_mount_root_ramfs :: "'a vfs_state_scheme \<Rightarrow> (int \<times> 'a vfs_state_scheme) option" where
  "vfs_mount_root_ramfs s =
     (if vfs_find_fs_driver (Some (cstring_of ''ramfs'')) s = None then Some (- 1, s)
      else case kmalloc sizeof_mount s of
             None \<Rightarrow> None
           | Some (mnt, s) \<Rightarrow>
               if mnt = 0 then Some (- 1, s)
               else case vfs_ramfs_mount s of
                      None \<Rightarrow> None
                    | Some (rc, root, s) \<Rightarrow>
                        if rc \<noteq> RDNX_OK \<or> root = 0 then map_option (Pair (- 1)) (kfree mnt s)
                        else Some (0, (push_mount mnt (cstring_of ''ramfs'') root 0 s)
                               \<lparr>vfs_root_mount := mnt, vfs_root := root\<rparr>))"

definition vfs_mount ::
  "'a vfs_state_scheme vfs_env \<Rightarrow> cstring option \<Rightarrow> cstring option \<Rightarrow> cstring option \<Rightarrow> 'a vfs_state_scheme
     \<Rightarrow> (int \<times> 'a vfs_state_scheme) option" where
  "vfs_mount env fs_name source target s =
     (if \<not> vfs_ready s \<or> fs_name = None \<or> target = None then Some (RDNX_E_INVALID, s)
      else case vfs_find_fs_driver fs_name s of
             None \<Rightarrow> Some (RDNX_E_NOTFOUND, s)
           | Some driver \<Rightarrow>
      (case vfs_lookup target s of
         None \<Rightarrow> None
       | Some (mountpoint, s) \<Rightarrow>
           if mountpoint = 0 \<or> vn_type (vnodes s mountpoint) \<noteq> VFS_NODE_DIR then Some (RDNX_E_NOTFOUND, s)
           else case vfs_find_mount_at mountpoint s of
                  None \<Rightarrow> None
                | Some m \<Rightarrow>
           if m \<noteq> 0 then Some (RDNX_E_BUSY, s)
           else case driver_mount env driver source s of
                  None \<Rightarrow> None
                | Some (mrc, root, s) \<Rightarrow>
           if mrc \<noteq> RDNX_OK \<or> root = 0 \<or> vn_type (vnodes s root) \<noteq> VFS_NODE_DIR
           then Some (if mrc = RDNX_OK then RDNX_E_GENERIC else mrc, s)
           else case kmalloc sizeof_mount s of
                  None \<Rightarrow> None
                | Some (mnt, s) \<Rightarrow>
                    if mnt = 0 then Some (RDNX_E_NOMEM, s)
                    else Some (RDNX_OK, vfs_cache_reset (push_mount mnt (driver_name driver) root mountpoint s))))"

definition vfs_mount_ramfs ::
  "'a vfs_state_scheme vfs_env \<Rightarrow> cstring option \<Rightarrow> 'a vfs_state_scheme \<Rightarrow> (int \<times> 'a vfs_state_scheme) option" where
  "vfs_mount_ramfs env path s = vfs_mount env (Some (cstring_of ''ramfs'')) None path s"

section \<open>Changing the namespace\<close>

definition vfs_mkdir :: "cstring option \<Rightarrow> 'a vfs_state_scheme \<Rightarrow> (int \<times> 'a vfs_state_scheme) option" where
  "vfs_mkdir path s =
     (if path = None \<or> vfs_root s = 0 then Some (RDNX_E_INVALID, s)
      else if path = Some [slash] then Some (RDNX_OK, s)
      else case vfs_resolve_parent path s of
             None \<Rightarrow> None
           | Some (parent, leaf) \<Rightarrow>
      if parent = 0 then Some (RDNX_E_NOTFOUND, s)
      else if vn_inode (vnodes s parent) \<noteq> 0 \<and> vi_fs_tag (node_inode parent s) = VFS_FS_TAG_EXT2
      then Some (RDNX_E_UNSUPPORTED, s)
      else case vfs_find_child parent leaf s of
             None \<Rightarrow> None
           | Some c \<Rightarrow>
      if c \<noteq> 0 then Some (RDNX_OK, s)
      else case vfs_create_node parent leaf VFS_NODE_DIR s of
             None \<Rightarrow> None
           | Some (node, s) \<Rightarrow> Some (if node \<noteq> 0 then RDNX_OK else RDNX_E_NOMEM, s))"

text \<open>The loop that takes a node out of the list of its parent, in \<^verbatim>\<open>vfs_unlink\<close> and \<^verbatim>\<open>vfs_rename\<close>.\<close>

partial_function (option) unlink_sibling ::
  "u64 \<Rightarrow> u64 \<Rightarrow> u64 \<Rightarrow> u64 \<Rightarrow> 'a vfs_state_scheme \<Rightarrow> 'a vfs_state_scheme option" where
  "unlink_sibling prev it node parent s =
     (if it = 0 then Some s
      else if it = node then
        Some (if prev \<noteq> 0 then upd_vnode prev (\<lambda>n. n\<lparr>vn_sibling := vn_sibling (vnodes s it)\<rparr>) s
              else upd_vnode parent (\<lambda>n. n\<lparr>vn_children := vn_sibling (vnodes s it)\<rparr>) s)
      else unlink_sibling it (vn_sibling (vnodes s it)) node parent s)"

definition vfs_unlink :: "cstring option \<Rightarrow> 'a vfs_state_scheme \<Rightarrow> (int \<times> 'a vfs_state_scheme) option" where
  "vfs_unlink path s =
     (if path = None \<or> \<not> vfs_ready s then Some (RDNX_E_INVALID, s)
      else case vfs_lookup path s of
             None \<Rightarrow> None
           | Some (node, s) \<Rightarrow>
      if node = 0 \<or> node = vfs_root s then Some (RDNX_E_NOTFOUND, s)
      else if vn_inode (vnodes s node) \<noteq> 0 \<and> vi_fs_tag (node_inode node s) = VFS_FS_TAG_EXT2
      then Some (RDNX_E_UNSUPPORTED, s)
      else if vn_type (vnodes s node) = VFS_NODE_DIR \<and> vn_children (vnodes s node) \<noteq> 0 then Some (RDNX_E_BUSY, s)
      else
        let parent = vn_parent (vnodes s node)
        in if parent = 0 then Some (RDNX_E_INVALID, s)
           else case unlink_sibling 0 (vn_children (vnodes s parent)) node parent s of
                  None \<Rightarrow> None
                | Some s \<Rightarrow>
           (let s = upd_vnode node (\<lambda>n. n\<lparr>vn_unlinked := True, vn_parent := 0\<rparr>) s;
                s = vfs_cache_reset s
            in map_option (Pair RDNX_OK) (vfs_node_release node s)))"

partial_function (option) vfs_is_ancestor_dir :: "u64 \<Rightarrow> u64 \<Rightarrow> 'a vfs_state_scheme \<Rightarrow> bool option" where
  "vfs_is_ancestor_dir ancestor cur s =
     (if cur = 0 then Some False
      else if cur = ancestor then Some True
      else vfs_is_ancestor_dir ancestor (vn_parent (vnodes s cur)) s)"

definition move_node :: "u64 \<Rightarrow> u64 \<Rightarrow> cstring \<Rightarrow> 'a vfs_state_scheme \<Rightarrow> 'a vfs_state_scheme" where
  "move_node node new_parent new_leaf s =
     (let s = upd_vnode node (\<lambda>n. n\<lparr>vn_sibling := vn_children (vnodes s new_parent)\<rparr>) s;
          s = upd_vnode new_parent (\<lambda>n. n\<lparr>vn_children := node\<rparr>) s
      in upd_vnode node (\<lambda>n. n\<lparr>vn_parent := new_parent, vn_name := take NAME_MAX new_leaf\<rparr>) s)"

definition vfs_rename :: "cstring option \<Rightarrow> cstring option \<Rightarrow> 'a vfs_state_scheme \<Rightarrow> (int \<times> 'a vfs_state_scheme) option" where
  "vfs_rename old_path new_path s =
     (if old_path = None \<or> new_path = None \<or> \<not> vfs_ready s then Some (RDNX_E_INVALID, s)
      else if old_path = Some [slash] \<or> new_path = Some [slash] then Some (RDNX_E_DENIED, s)
      else if old_path = new_path then Some (RDNX_OK, s)
      else case vfs_resolve_parent old_path s of
             None \<Rightarrow> None
           | Some (old_parent, old_leaf) \<Rightarrow>
      (case vfs_resolve_parent new_path s of
         None \<Rightarrow> None
       | Some (new_parent, new_leaf) \<Rightarrow>
      if old_parent = 0 \<or> new_parent = 0 \<or> old_leaf = [] \<or> new_leaf = [] then Some (RDNX_E_NOTFOUND, s)
      else case vfs_find_child old_parent old_leaf s of
             None \<Rightarrow> None
           | Some node \<Rightarrow>
      if node = 0 then Some (RDNX_E_NOTFOUND, s)
      else if (vn_inode (vnodes s node) \<noteq> 0 \<and> vi_fs_tag (node_inode node s) = VFS_FS_TAG_EXT2) \<or>
              (vn_inode (vnodes s new_parent) \<noteq> 0 \<and> vi_fs_tag (node_inode new_parent s) = VFS_FS_TAG_EXT2)
      then Some (RDNX_E_UNSUPPORTED, s)
      else case vfs_find_child new_parent new_leaf s of
             None \<Rightarrow> None
           | Some c \<Rightarrow>
      if c \<noteq> 0 then Some (RDNX_E_BUSY, s)
      else case (if vn_type (vnodes s node) = VFS_NODE_DIR then vfs_is_ancestor_dir node new_parent s else Some False) of
             None \<Rightarrow> None
           | Some anc \<Rightarrow>
      if anc then Some (RDNX_E_INVALID, s)
      else case unlink_sibling 0 (vn_children (vnodes s old_parent)) node old_parent s of
             None \<Rightarrow> None
           | Some s \<Rightarrow> Some (RDNX_OK, vfs_cache_reset (move_node node new_parent new_leaf s))))"

text \<open>\<^verbatim>\<open>vfs_list_dir\<close> calls back for each child; here it returns the children in that order.\<close>

partial_function (option) siblings_from :: "u64 \<Rightarrow> 'a vfs_state_scheme \<Rightarrow> u64 list option" where
  "siblings_from it s =
     (if it = 0 then Some []
      else Option.bind (siblings_from (vn_sibling (vnodes s it)) s) (\<lambda>xs. Some (it # xs)))"

definition vfs_list_dir :: "cstring option \<Rightarrow> 'a vfs_state_scheme \<Rightarrow> (int \<times> u64 list \<times> 'a vfs_state_scheme) option" where
  "vfs_list_dir path s =
     (if path = None \<or> \<not> vfs_ready s then Some (RDNX_E_INVALID, [], s)
      else case vfs_lookup path s of
             None \<Rightarrow> None
           | Some (dir, s) \<Rightarrow>
      if dir = 0 \<or> vn_type (vnodes s dir) \<noteq> VFS_NODE_DIR then Some (RDNX_E_NOTFOUND, [], s)
      else map_option (\<lambda>xs. (RDNX_OK, xs, s)) (siblings_from (vn_children (vnodes s dir)) s))"

section \<open>Open files\<close>

text \<open>The part of \<^verbatim>\<open>vfs_open\<close> that finds or creates the node; \<open>Inl\<close> is an early return.\<close>

definition open_node :: "cstring option \<Rightarrow> u32 \<Rightarrow> 'a vfs_state_scheme \<Rightarrow> ((int + u64) \<times> 'a vfs_state_scheme) option" where
  "open_node path flags s =
     (case vfs_lookup path s of
        None \<Rightarrow> None
      | Some (node, s) \<Rightarrow>
          if node \<noteq> 0 then Some (Inr node, s)
          else if flags AND VFS_OPEN_CREATE = 0 then Some (Inl RDNX_E_NOTFOUND, s)
          else case vfs_resolve_parent path s of
                 None \<Rightarrow> None
               | Some (parent, leaf) \<Rightarrow>
          if parent = 0 then Some (Inl RDNX_E_NOTFOUND, s)
          else if vn_inode (vnodes s parent) \<noteq> 0 \<and> vi_fs_tag (node_inode parent s) = VFS_FS_TAG_EXT2
          then Some (Inl RDNX_E_UNSUPPORTED, s)
          else case vfs_create_node parent leaf VFS_NODE_FILE s of
                 None \<Rightarrow> None
               | Some (node, s) \<Rightarrow> Some (if node = 0 then Inl RDNX_E_NOMEM else Inr node, s))"

definition vfs_open ::
  "'a vfs_state_scheme vfs_env \<Rightarrow> cstring option \<Rightarrow> u32 \<Rightarrow> u64 \<Rightarrow> 'a vfs_state_scheme
     \<Rightarrow> (int \<times> 'a vfs_state_scheme) option" where
  "vfs_open env path flags fp s =
     (if path = None \<or> fp = 0 \<or> \<not> vfs_ready s then Some (RDNX_E_INVALID, s)
      else case open_node path flags s of
             None \<Rightarrow> None
           | Some (Inl rc, s) \<Rightarrow> Some (rc, s)
           | Some (Inr node, s) \<Rightarrow>
      if vn_type (vnodes s node) \<noteq> VFS_NODE_FILE \<or> vn_inode (vnodes s node) = 0 then Some (RDNX_E_INVALID, s)
      else
        let s = vfs_node_retain node s;
            s = upd_vfile fp (\<lambda>_. \<lparr>vf_node = node, vf_pos = 0, vf_writable = (flags AND VFS_OPEN_WRITE \<noteq> 0)\<rparr>) s
        in if flags AND VFS_OPEN_TRUNC = 0 then Some (RDNX_OK, s)
           else case vfs_resize_file env fp 0 s of
                  None \<Rightarrow> None
                | Some (trc, s) \<Rightarrow>
                    if trc = RDNX_OK then Some (RDNX_OK, s)
                    else case vfs_node_release (vf_node (vfiles s fp)) s of
                           None \<Rightarrow> None
                         | Some s \<Rightarrow> Some (trc, upd_vfile fp (\<lambda>_. \<lparr>vf_node = 0, vf_pos = 0, vf_writable = False\<rparr>) s))"

definition vfs_close :: "u64 \<Rightarrow> 'a vfs_state_scheme \<Rightarrow> (int \<times> 'a vfs_state_scheme) option" where
  "vfs_close fp s =
     (if fp = 0 then Some (RDNX_E_INVALID, s)
      else case (if vf_node (vfiles s fp) \<noteq> 0 then vfs_node_release (vf_node (vfiles s fp)) s else Some s) of
             None \<Rightarrow> None
           | Some s \<Rightarrow> Some (RDNX_OK, upd_vfile fp (\<lambda>_. \<lparr>vf_node = 0, vf_pos = 0, vf_writable = False\<rparr>) s))"

definition vfs_file_dup :: "u64 \<Rightarrow> u64 \<Rightarrow> 'a vfs_state_scheme \<Rightarrow> int \<times> 'a vfs_state_scheme" where
  "vfs_file_dup src dst s =
     (if src = 0 \<or> dst = 0 \<or> vf_node (vfiles s src) = 0 then (RDNX_E_INVALID, s)
      else
        let s = upd_vfile dst (\<lambda>_. vfiles s src) s
        in (RDNX_OK, vfs_node_retain (vf_node (vfiles s dst)) s))"

text \<open>
  Reading a block device sector by sector through a bounce buffer. The loop ends with the code and
  the bytes it has stored in the caller's buffer.
\<close>

partial_function (option) blockdev_loop ::
  "'a vfs_state_scheme vfs_env \<Rightarrow> u64 \<Rightarrow> u32 \<Rightarrow> u64 \<Rightarrow> u64 \<Rightarrow> u64 \<Rightarrow> u8 list \<Rightarrow> 'a vfs_state_scheme
     \<Rightarrow> (int \<times> u8 list \<times> 'a vfs_state_scheme) option" where
  "blockdev_loop env bdev sector_size pos n done out s =
     (if \<not> done < n then Some (RDNX_OK, out, s)
      else
        let abs_off = pos + done;
            lba = abs_off div ucast sector_size;
            off = ucast (abs_off mod ucast sector_size) :: u32;
            max_chunk = ucast sector_size - ucast off :: u64;
            chunk = (if n - done > max_chunk then max_chunk else n - done);
            (rc, bounce, s) = fabric_blockdev_read env bdev lba 1 s
        in if rc \<noteq> RDNX_OK then Some (rc, out, s)
           else blockdev_loop env bdev sector_size pos n (done + chunk)
                  (out @ take (unat chunk) (drop (unat off) bounce)) s)"

definition read_blockdev ::
  "'a vfs_state_scheme vfs_env \<Rightarrow> u64 \<Rightarrow> u64 \<Rightarrow> 'a vfs_state_scheme \<Rightarrow> (int \<times> u8 list \<times> 'a vfs_state_scheme) option" where
  "read_blockdev env fp n s =
     (case fabric_blockdev_find env (vn_name (vnodes s (vf_node (vfiles s fp)))) s of
        None \<Rightarrow> Some (RDNX_E_NOTFOUND, [], s)
      | Some (bdev, sector_size) \<Rightarrow>
          if sector_size = 0 then Some (RDNX_E_NOTFOUND, [], s)
          else if n = 0 then Some (0, [], s)
          else case kmalloc (ucast sector_size) s of
                 None \<Rightarrow> None
               | Some (bounce, s) \<Rightarrow>
          if bounce = 0 then Some (RDNX_E_NOMEM, [], s)
          else case blockdev_loop env bdev sector_size (vf_pos (vfiles s fp)) n 0 [] s of
                 None \<Rightarrow> None
               | Some (rc, out, s) \<Rightarrow>
          (case kfree bounce s of
             None \<Rightarrow> None
           | Some s \<Rightarrow>
               if rc \<noteq> RDNX_OK then Some (rc, out, s)
               else Some (int_of_size n, out, upd_vfile fp (\<lambda>f. f\<lparr>vf_pos := vf_pos f + n\<rparr>) s)))"

definition vfs_read ::
  "'a vfs_state_scheme vfs_env \<Rightarrow> u64 \<Rightarrow> u64 \<Rightarrow> u64 \<Rightarrow> 'a vfs_state_scheme \<Rightarrow> (int \<times> u8 list \<times> 'a vfs_state_scheme) option" where
  "vfs_read env fp buffer n s =
     (let node = vf_node (vfiles s fp); i = node_inode node s; pos = vf_pos (vfiles s fp)
      in if fp = 0 \<or> node = 0 \<or> vn_inode (vnodes s node) = 0 \<or> buffer = 0 then Some (RDNX_E_INVALID, [], s)
         else if vi_flags i AND VFS_INODE_CONSOLE \<noteq> 0 then Some (tty_console_read env n (vf_writable (vfiles s fp)) s)
         else if vi_flags i AND VFS_INODE_DEV_NULL \<noteq> 0 then Some (0, [], s)
         else if vi_flags i AND VFS_INODE_DEV_ZERO \<noteq> 0 then Some (int_of_size n, replicate (unat n) 0, s)
         else if vi_flags i AND VFS_INODE_BLOCKDEV \<noteq> 0 then read_blockdev env fp n s
         else if pos \<ge> vi_size i then Some (0, [], s)
         else
           let avail = vi_size i - pos;
               to_read = (if n < avail then n else avail)
           in Some (int_of_size to_read, peek (vi_data i + pos) to_read s,
                    upd_vfile fp (\<lambda>f. f\<lparr>vf_pos := vf_pos f + to_read\<rparr>) s))"

definition write_ext2 ::
  "'a vfs_state_scheme vfs_env \<Rightarrow> u64 \<Rightarrow> u8 list \<Rightarrow> 'a vfs_state_scheme \<Rightarrow> (int \<times> 'a vfs_state_scheme) option" where
  "write_ext2 env fp data s =
     (let node = vf_node (vfiles s fp); ip = vn_inode (vnodes s node); pos = vf_pos (vfiles s fp);
          n = of_nat (length data); e = pos + n; i = vinodes s ip;
          final_size = (if e > vi_size i then e else vi_size i)
      in case ext2_writeback_file env node pos data final_size s of
           None \<Rightarrow> None
         | Some (wrc, s) \<Rightarrow>
             if wrc \<noteq> RDNX_OK then Some (wrc, s)
             else case (if vi_data (vinodes s ip) \<noteq> 0 \<and> e > vi_capacity (vinodes s ip) then vfs_grow_file node e s
                        else Some (0, s)) of
                    None \<Rightarrow> None
                  | Some (g, s) \<Rightarrow>
                      if g \<noteq> 0 then Some (RDNX_E_NOMEM, s)
                      else
                        let s = (if e > vi_size (vinodes s ip) then upd_vinode ip (\<lambda>i. i\<lparr>vi_size := e\<rparr>) s else s);
                            size = vi_size (vinodes s ip);
                            avail = (if pos < size then size - pos else 0);
                            copy = (if n < avail then n else avail);
                            s = (if vi_data (vinodes s ip) \<noteq> 0 \<and> n > 0 \<and> copy > 0
                                 then poke (vi_data (vinodes s ip) + pos) (take (unat copy) data) s else s)
                        in Some (int_of_size n, upd_vfile fp (\<lambda>f. f\<lparr>vf_pos := vf_pos f + n\<rparr>) s))"

definition write_blockdev ::
  "'a vfs_state_scheme vfs_env \<Rightarrow> u64 \<Rightarrow> u8 list \<Rightarrow> 'a vfs_state_scheme \<Rightarrow> int \<times> 'a vfs_state_scheme" where
  "write_blockdev env fp data s =
     (let pos = vf_pos (vfiles s fp); n = of_nat (length data) :: u64
      in case fabric_blockdev_find env (vn_name (vnodes s (vf_node (vfiles s fp)))) s of
           None \<Rightarrow> (RDNX_E_NOTFOUND, s)
         | Some (bdev, sector_size) \<Rightarrow>
             if sector_size = 0 then (RDNX_E_NOTFOUND, s)
             else if n = 0 then (0, s)
             else if pos mod ucast sector_size \<noteq> 0 \<or> n mod ucast sector_size \<noteq> 0 then (RDNX_E_INVALID, s)
             else case fabric_blockdev_write env bdev (pos div ucast sector_size) (ucast (n div ucast sector_size)) data s of
                    (rc, s) \<Rightarrow>
                      if rc \<noteq> RDNX_OK then (rc, s)
                      else (int_of_size n, upd_vfile fp (\<lambda>f. f\<lparr>vf_pos := vf_pos f + n\<rparr>) s))"

definition vfs_write ::
  "'a vfs_state_scheme vfs_env \<Rightarrow> u64 \<Rightarrow> u64 \<Rightarrow> u8 list \<Rightarrow> 'a vfs_state_scheme \<Rightarrow> (int \<times> 'a vfs_state_scheme) option" where
  "vfs_write env fp buffer data s =
     (let node = vf_node (vfiles s fp); ip = vn_inode (vnodes s node); i = vinodes s ip;
          pos = vf_pos (vfiles s fp); n = of_nat (length data)
      in if fp = 0 \<or> node = 0 \<or> ip = 0 \<or> buffer = 0 \<or> \<not> vf_writable (vfiles s fp) then Some (RDNX_E_INVALID, s)
         else if vi_flags i AND VFS_INODE_CONSOLE \<noteq> 0 then Some (tty_console_write env data s)
         else if vi_flags i AND VFS_INODE_DEV_NULL \<noteq> 0 then Some (int_of_size n, s)
         else if vi_flags i AND VFS_INODE_DEV_ZERO \<noteq> 0 then Some (int_of_size n, s)
         else if vi_fs_tag i = VFS_FS_TAG_EXT2 then write_ext2 env fp data s
         else if vi_flags i AND VFS_INODE_BLOCKDEV \<noteq> 0 then Some (write_blockdev env fp data s)
         else
           let e = pos + n
           in case vfs_grow_file node e s of
                None \<Rightarrow> None
              | Some (g, s) \<Rightarrow>
                  if g \<noteq> 0 then Some (RDNX_E_NOMEM, s)
                  else
                    let s = poke (vi_data (vinodes s ip) + pos) data s;
                        s = upd_vfile fp (\<lambda>f. f\<lparr>vf_pos := vf_pos f + n\<rparr>) s;
                        s = (if e > vi_size (vinodes s ip) then upd_vinode ip (\<lambda>i. i\<lparr>vi_size := e\<rparr>) s else s)
                    in Some (int_of_size n, s))"

text \<open>The new position and code; the position also goes to the caller's \<^verbatim>\<open>out_pos\<close>.\<close>

definition vfs_seek :: "u64 \<Rightarrow> i64 \<Rightarrow> int \<Rightarrow> 'a vfs_state_scheme \<Rightarrow> int \<times> 'a vfs_state_scheme" where
  "vfs_seek fp off whence s =
     (let node = vf_node (vfiles s fp); i = node_inode node s
      in if fp = 0 \<or> node = 0 \<or> vn_inode (vnodes s node) = 0 then (RDNX_E_INVALID, s)
         else if vi_flags i AND VFS_INODE_CONSOLE \<noteq> 0 then (RDNX_E_UNSUPPORTED, s)
         else if whence \<notin> {0, 1, 2} then (RDNX_E_INVALID, s)
         else
           let base = (if whence = 0 then 0 else if whence = 1 then vf_pos (vfiles s fp) else vi_size i);
               next = base + off
           in if sint next < 0 then (RDNX_E_INVALID, s)
              else (RDNX_OK, upd_vfile fp (\<lambda>f. f\<lparr>vf_pos := next\<rparr>) s))"

definition vfs_truncate ::
  "'a vfs_state_scheme vfs_env \<Rightarrow> cstring option \<Rightarrow> u64 \<Rightarrow> 'a vfs_state_scheme \<Rightarrow> (int \<times> 'a vfs_state_scheme) option" where
  "vfs_truncate env path n s =
     (if path = None \<or> \<not> vfs_ready s then Some (RDNX_E_INVALID, s)
      else case vfs_lookup path s of
             None \<Rightarrow> None
           | Some (node, s) \<Rightarrow>
      if node = 0 \<or> vn_type (vnodes s node) \<noteq> VFS_NODE_FILE \<or> vn_inode (vnodes s node) = 0 then Some (RDNX_E_NOTFOUND, s)
      else map_option (\<lambda>(rc, _, s). (rc, s)) (resize_file env \<lparr>vf_node = node, vf_pos = 0, vf_writable = True\<rparr> n s))"

definition vfs_ftruncate ::
  "'a vfs_state_scheme vfs_env \<Rightarrow> u64 \<Rightarrow> u64 \<Rightarrow> 'a vfs_state_scheme \<Rightarrow> (int \<times> 'a vfs_state_scheme) option" where
  "vfs_ftruncate env fp n s = vfs_resize_file env fp n s"

definition stat_of :: "u64 \<Rightarrow> 'a vfs_state_scheme \<Rightarrow> vfs_stat" where
  "stat_of node s = \<lparr>st_mode = (if vn_type (vnodes s node) = VFS_NODE_DIR then 0x4000 else 0x8000),
     st_size = vi_size (node_inode node s)\<rparr>"

definition vfs_stat_path :: "cstring option \<Rightarrow> 'a vfs_state_scheme \<Rightarrow> (int \<times> vfs_stat option \<times> 'a vfs_state_scheme) option" where
  "vfs_stat_path path s =
     (if path = None \<or> \<not> vfs_ready s then Some (RDNX_E_INVALID, None, s)
      else case vfs_lookup path s of
             None \<Rightarrow> None
           | Some (node, s) \<Rightarrow>
               if node = 0 \<or> vn_inode (vnodes s node) = 0 then Some (RDNX_E_NOTFOUND, None, s)
               else Some (RDNX_OK, Some (stat_of node s), s))"

definition vfs_fstat :: "u64 \<Rightarrow> 'a vfs_state_scheme \<Rightarrow> int \<times> vfs_stat option" where
  "vfs_fstat fp s =
     (if fp = 0 \<or> vf_node (vfiles s fp) = 0 \<or> vn_inode (vnodes s (vf_node (vfiles s fp))) = 0 then (RDNX_E_INVALID, None)
      else (RDNX_OK, Some (stat_of (vf_node (vfiles s fp)) s)))"

section \<open>The initial ram disk and start-up\<close>

definition load32 :: "bytes \<Rightarrow> u64 \<Rightarrow> u32" where
  "load32 m a = fold (\<lambda>i acc. acc OR push_bit (8 * i) (ucast (m (a + of_nat i)))) [0..<4] 0"

text \<open>\<open>mkdir_prefixes\<close>: the directories above a path, from the top; failures are ignored.\<close>

fun mkdir_prefixes :: "nat list \<Rightarrow> cstring \<Rightarrow> 'a vfs_state_scheme \<Rightarrow> 'a vfs_state_scheme option" where
  "mkdir_prefixes [] path s = Some s"
| "mkdir_prefixes (i # is) path s =
     (if path ! i = slash
      then case vfs_mkdir (Some (take i path)) s of None \<Rightarrow> None | Some (_, s) \<Rightarrow> mkdir_prefixes is path s
      else mkdir_prefixes is path s)"

definition import_file :: "u64 \<Rightarrow> cstring \<Rightarrow> u32 \<Rightarrow> u32 \<Rightarrow> 'a vfs_state_scheme \<Rightarrow> 'a vfs_state_scheme option" where
  "import_file base path offset n s =
     (case vfs_resolve_parent (Some path) s of
        None \<Rightarrow> None
      | Some (parent, leaf) \<Rightarrow>
          if parent = 0 then Some s
          else case vfs_find_child parent leaf s of
                 None \<Rightarrow> None
               | Some c \<Rightarrow>
          (case (if c \<noteq> 0 then Some (c, s) else vfs_create_node parent leaf VFS_NODE_FILE s) of
             None \<Rightarrow> None
           | Some (node, s) \<Rightarrow>
               if node = 0 then Some s
               else case vfs_grow_file node (ucast n) s of
                      None \<Rightarrow> None
                    | Some (g, s) \<Rightarrow>
                        if g \<noteq> 0 then Some s
                        else
                          let ip = vn_inode (vnodes s node);
                              s = poke (vi_data (vinodes s ip)) (buf (pmem s) (base + ucast offset) (unat n)) s
                          in Some (upd_vinode ip (\<lambda>i. i\<lparr>vi_size := ucast n\<rparr>) s)))"

definition import_entry :: "u64 \<Rightarrow> nat \<Rightarrow> 'a vfs_state_scheme \<Rightarrow> 'a vfs_state_scheme option" where
  "import_entry base i s =
     (let e = base + 8 + 72 * of_nat i;
          offset = load32 (pmem s) (e + 64); n = load32 (pmem s) (e + 68)
      in if pmem s e = 0 then Some s
         else if ucast offset + ucast n > vfs_initrd_size s then Some s
         else case strlen (pmem s) e of
                None \<Rightarrow> None
              | Some plen \<Rightarrow>
         (let path = buf (pmem s) e (unat plen)
          in if plen = 0 \<or> plen \<ge> 128 then Some s
             else if path ! 0 \<noteq> slash then Some s
             else case mkdir_prefixes [1..<unat plen] path s of
                    None \<Rightarrow> None
                  | Some s \<Rightarrow> import_file base path offset n s))"

fun import_entries :: "u64 \<Rightarrow> nat list \<Rightarrow> 'a vfs_state_scheme \<Rightarrow> 'a vfs_state_scheme option" where
  "import_entries base [] s = Some s"
| "import_entries base (i # is) s =
     (case import_entry base i s of None \<Rightarrow> None | Some s \<Rightarrow> import_entries base is s)"

definition vfs_import_initrd :: "'a vfs_state_scheme \<Rightarrow> (int \<times> 'a vfs_state_scheme) option" where
  "vfs_import_initrd s =
     (let base = X86_64_VIRT_TO_PHYS (vfs_initrd_data s);
          entry_count = load32 (pmem s) (base + 4)
      in if vfs_root s = 0 \<or> vfs_initrd_data s = 0 \<or> vfs_initrd_size s = 0 then Some (0, s)
         else if vfs_initrd_size s < 8 then Some (- 1, s)
         else if load32 (pmem s) base \<noteq> INITRD_MAGIC then Some (- 1, s)
         else if 8 + ucast entry_count * 72 > vfs_initrd_size s then Some (- 1, s)
         else map_option (Pair 0) (import_entries base [0..<unat entry_count] s))"

definition vfs_set_initrd :: "u64 \<Rightarrow> u64 \<Rightarrow> 'a vfs_state_scheme \<Rightarrow> 'a vfs_state_scheme" where
  "vfs_set_initrd data n s = s\<lparr>vfs_initrd_data := data, vfs_initrd_size := n\<rparr>"

definition vfs_mount_devfs :: "'a vfs_state_scheme vfs_env \<Rightarrow> 'a vfs_state_scheme \<Rightarrow> (int \<times> 'a vfs_state_scheme) option" where
  "vfs_mount_devfs env s =
     (if vfs_root s = 0 then Some (- 1, s)
      else case vfs_mkdir (Some (cstring_of ''/dev'')) s of
             None \<Rightarrow> None
           | Some (mkrc, s) \<Rightarrow>
      if mkrc \<noteq> RDNX_OK then Some (- 1, s)
      else case vfs_mount env (Some (cstring_of ''devfs'')) None (Some (cstring_of ''/dev'')) s of
             None \<Rightarrow> None
           | Some (mrc, s) \<Rightarrow> Some (if mrc \<noteq> RDNX_OK \<and> mrc \<noteq> RDNX_E_BUSY then - 1 else 0, s))"

definition vfs_mount_initrd_root :: "'a vfs_state_scheme vfs_env \<Rightarrow> 'a vfs_state_scheme \<Rightarrow> (int \<times> 'a vfs_state_scheme) option" where
  "vfs_mount_initrd_root env s =
     (if \<not> vfs_ready s \<or> vfs_initrd_data s = 0 \<or> vfs_initrd_size s = 0 then Some (- 1, s)
      else if vfs_root_mount s = 0 then Some (- 1, s)
      else case vfs_alloc_node (Some [slash]) VFS_NODE_DIR s of
             None \<Rightarrow> None
           | Some (new_root, s) \<Rightarrow>
      if new_root = 0 then Some (- 1, s)
      else
        let s = s\<lparr>vmnts := (vmnts s)(vfs_root_mount s := (vmnts s (vfs_root_mount s))\<lparr>mt_root := new_root\<rparr>),
                  vfs_root := new_root\<rparr>;
            s = vfs_cache_reset s
        in case vfs_import_initrd s of
             None \<Rightarrow> None
           | Some (ret, s) \<Rightarrow>
               if ret \<noteq> 0 then Some (ret, s)
               else case vfs_mount_devfs env s of
                      None \<Rightarrow> None
                    | Some (rc, s) \<Rightarrow> Some (if rc \<noteq> 0 then - 1 else 0, s))"

text \<open>\<^verbatim>\<open>tty_console_init\<close> only sets up the console; it has no counterpart here.\<close>

definition vfs_init :: "'a vfs_state_scheme vfs_env \<Rightarrow> 'a vfs_state_scheme \<Rightarrow> (int \<times> 'a vfs_state_scheme) option" where
  "vfs_init env s =
     (if vfs_ready s then Some (RDNX_OK, s)
      else
        let s = snd (vfs_register_fs Ramfs s);
            s = snd (vfs_register_fs Devfs s);
            s = snd (vfs_register_fs Ext2 s)
        in case vfs_mount_root_ramfs s of
             None \<Rightarrow> None
           | Some (rc, s) \<Rightarrow>
        if rc \<noteq> 0 then Some (RDNX_E_GENERIC, s)
        else
          case vfs_import_initrd (vfs_cache_reset s) of
            None \<Rightarrow> None
          | Some (_, s) \<Rightarrow>
              map_option (\<lambda>(_, s). (RDNX_OK, s)) (vfs_mount_devfs env (s\<lparr>vfs_ready := True\<rparr>)))"

end
