(* ===== verification/HeapClient.thy ===== *)
theory HeapClient
  imports CString KheapProps VmFrame
begin

text \<open>
  The kernel heap as its clients see it: a partial function from pointers to capacities and the
  payload bytes behind them. An allocation adds a pointer, a release takes one away, and neither
  touches the payload of the others; a write inside a block changes that range only.
\<close>

locale object_heap =
  fixes inv :: "'s \<Rightarrow> bool" and cap :: "'s \<Rightarrow> u64 \<rightharpoonup> nat" and byte :: "'s \<Rightarrow> u64 \<Rightarrow> nat \<Rightarrow> u8"
    and alloc :: "u64 \<Rightarrow> 's \<Rightarrow> (u64 \<times> 's) option" and release :: "u64 \<Rightarrow> 's \<Rightarrow> 's option"
    and put :: "u64 \<Rightarrow> nat \<Rightarrow> u8 list \<Rightarrow> 's \<Rightarrow> 's" and limit :: nat
  assumes alloc_law: "inv s \<Longrightarrow> n \<noteq> 0 \<Longrightarrow> unat n \<le> limit \<Longrightarrow> alloc n s = Some (p, t) \<Longrightarrow>
      inv t \<and> p \<noteq> 0 \<and> cap s p = None \<and> (\<exists>c \<ge> unat n. cap t = (cap s)(p \<mapsto> c)) \<and>
      (\<forall>q c i. cap s q = Some c \<longrightarrow> i < c \<longrightarrow> byte t q i = byte s q i)"
    and release_law: "inv s \<Longrightarrow> cap s p = Some c \<Longrightarrow> release p s = Some t \<Longrightarrow>
      inv t \<and> cap t = (cap s)(p := None) \<and> byte t = byte s"
    and put_law: "inv s \<Longrightarrow> cap s p = Some c \<Longrightarrow> off + length xs \<le> c \<Longrightarrow>
      inv (put p off xs s) \<and> cap (put p off xs s) = cap s \<and>
      (\<forall>q d i. cap s q = Some d \<longrightarrow> i < d \<longrightarrow>
        byte (put p off xs s) q i = (if q = p \<and> off \<le> i \<and> i < off + length xs then xs ! (i - off) else byte s q i))"
    and cap_nonnull: "inv s \<Longrightarrow> cap s 0 = None"
begin

text \<open>Moving a payload to a larger block: the first \<open>k\<close> bytes go along, nothing else changes.\<close>

lemma move:
  assumes s: "inv s" and p: "cap s p = Some c" "k \<le> c" and n: "n \<noteq> 0" "unat n \<le> limit" "k \<le> unat n"
    and al: "alloc n s = Some (q, t)" and xs: "xs = map (byte s p) [0..<k]"
    and re: "release p (put q 0 xs t) = Some u"
  shows "inv u \<and> q \<noteq> 0 \<and> cap s q = None \<and> (\<exists>d \<ge> unat n. cap u = (cap s)(p := None, q \<mapsto> d)) \<and>
    (\<forall>i < k. byte u q i = byte s p i) \<and>
    (\<forall>r d i. cap s r = Some d \<longrightarrow> i < d \<longrightarrow> byte u r i = byte s r i)"
proof -
  from alloc_law [OF s n(1,2) al] obtain d where a: "inv t" "q \<noteq> 0" "cap s q = None" "d \<ge> unat n"
    "cap t = (cap s)(q \<mapsto> d)" "\<And>r c i. cap s r = Some c \<Longrightarrow> i < c \<Longrightarrow> byte t r i = byte s r i" by blast
  have pq: "p \<noteq> q" using p(1) a(3) by auto
  have q: "cap t q = Some d" "0 + length xs \<le> d" using a(4,5) n(3) xs by simp_all
  note w = put_law [OF a(1) q]
  have pt: "cap (put q 0 xs t) p = Some c" using w a(5) p(1) pq by simp
  note r = release_law [OF w [THEN conjunct1] pt re]
  have b: "byte u r i = byte s r i" if "cap s r = Some d'" "i < d'" for r d' i
  proof -
    have "r \<noteq> q" using that(1) a(3) by auto
    then have "cap t r = Some d'" using a(5) that(1) by simp
    then show ?thesis using w r a(6) [OF that] that(2) \<open>r \<noteq> q\<close> by simp
  qed
  have "byte u q i = byte s p i" if "i < k" for i
    using w r q that n(3) a(4) by (simp add: xs)
  moreover have "cap u = (cap s)(p := None, q \<mapsto> d)" using r w a(5) pq by (simp add: fun_upd_twist)
  ultimately show ?thesis using r a(2-4) b by blast
qed

end

section \<open>The heap as an object store\<close>

definition hcap :: "'a heap_state_scheme \<Rightarrow> u64 \<Rightarrow> nat option" where
  "hcap s p = (let n = hb_size (hblk s (p - HB))
     in if (p - HB, n) \<in> heap_live s \<and> n \<noteq> 0 then Some (unat n) else None)"

definition hbyte :: "'a heap_state_scheme \<Rightarrow> u64 \<Rightarrow> nat \<Rightarrow> u8" where
  "hbyte s p i = pmem s (X86_64_VIRT_TO_PHYS p + of_nat i)"

definition hput :: "u64 \<Rightarrow> nat \<Rightarrow> u8 list \<Rightarrow> 'a heap_state_scheme \<Rightarrow> 'a heap_state_scheme" where
  "hput p off xs s = poke (p + of_nat off) xs s"

lemma live_size: "heap_ok s bs \<Longrightarrow> (a, n) \<in> live bs \<Longrightarrow> hb_size (hblk s a) = n"
  by (auto simp: heap_ok_def heap_rep_def live_def dl_append dest!: split_list)

lemma live_ok: "heap_ok s bs \<Longrightarrow> (a, n) \<in> live bs \<Longrightarrow> blk_ok (a, n, False)"
  by (auto simp: heap_ok_def blks_ok_def live_def)

lemma hcap_iff:
  assumes "heap_ok s bs"
  shows "hcap s p = Some c \<longleftrightarrow> (\<exists>n. (p - HB, n) \<in> live bs \<and> n \<noteq> 0 \<and> c = unat n)"
proof -
  have u: "hb_size (hblk s (p - HB)) = k" if "(p - HB, k) \<in> live bs" for k by (rule live_size [OF assms that])
  show ?thesis
  proof
    assume "hcap s p = Some c"
    then show "\<exists>n. (p - HB, n) \<in> live bs \<and> n \<noteq> 0 \<and> c = unat n"
      unfolding hcap_def Let_def heap_live_eq [OF assms] by (simp only: option.inject option.distinct split: if_splits) blast
  next
    assume "\<exists>n. (p - HB, n) \<in> live bs \<and> n \<noteq> 0 \<and> c = unat n"
    then obtain n where n: "(p - HB, n) \<in> live bs" "n \<noteq> 0" "c = unat n" by blast
    show "hcap s p = Some c" unfolding hcap_def Let_def heap_live_eq [OF assms] u [OF n(1)] using n by simp
  qed
qed

text \<open>The bytes of a block do not wrap around the end of memory, so offsets are natural numbers.\<close>

lemma payload_addr:
  assumes "heap_ok s bs" "(a, n) \<in> live bs" "i < unat n"
  shows "unat (a + HB + of_nat i) = unat a + 32 + i"
proof -
  have b: "unat a + 32 + unat n \<le> 2 ^ 64" using live_ok [OF assms(1,2)] by (simp add: blk_ok_def)
  have "unat (of_nat i :: u64) = i" using assms(3) b by (simp add: unat_of_nat)
  moreover have "unat (a + HB) = unat a + 32" using b assms(3) by (simp add: unat_word_ariths)
  ultimately show ?thesis using b assms(3) by (simp add: unat_word_ariths)
qed

lemma cap_addr:
  assumes "heap_ok s bs" "(p - HB, n) \<in> live bs" "i < unat n"
  shows "unat (p + of_nat i) = unat (p - HB) + 32 + i"
proof -
  have "p - HB + HB + of_nat i = p + of_nat i" by simp
  with payload_addr [OF assms] show ?thesis by (simp only:)
qed

lemma payload_apart:
  assumes ok: "heap_ok s bs" and p: "hcap s p = Some c" "i < c" and q: "hcap s q = Some d" "j < d"
  shows "p + of_nat i = q + of_nat j \<longleftrightarrow> p = q \<and> i = j"
proof
  obtain n where n: "(p - HB, n) \<in> live bs" "c = unat n" using p hcap_iff [OF ok] by blast
  obtain m where m: "(q - HB, m) \<in> live bs" "d = unat m" using q hcap_iff [OF ok] by blast
  have i: "unat (p + of_nat i) = unat (p - HB) + 32 + i" by (rule cap_addr [OF ok n(1)]) (use p(2) n(2) in simp)
  have j: "unat (q + of_nat j) = unat (q - HB) + 32 + j" by (rule cap_addr [OF ok m(1)]) (use q(2) m(2) in simp)
  assume e: "p + of_nat i = q + of_nat j"
  have x: "unat (p + of_nat i) \<in> blk_bytes (p - HB, n)" "unat (q + of_nat j) \<in> blk_bytes (q - HB, m)"
    using i j p(2) q(2) n(2) m(2) by (simp_all add: blk_bytes_def)
  have "(p - HB, n) = (q - HB, m)"
  proof (rule ccontr)
    assume ne: "(p - HB, n) \<noteq> (q - HB, m)"
    have "heap_inv s" "(p - HB, n) \<in> heap_live s" "(q - HB, m) \<in> heap_live s"
      using ok n(1) m(1) heap_live_eq [OF ok] by (auto simp: heap_inv_def)
    from kh.live_disjoint [OF this ne] x e show False by auto
  qed
  then have "p - HB = q - HB" by (simp only: prod.inject)
  then have "p = q" by (metis diff_add_cancel)
  moreover have "unat (p - HB) + 32 + i = unat (q - HB) + 32 + j" using i j unfolding e by (simp only:)
  ultimately show "p = q \<and> i = j" by simp
qed simp

lemma poke_heap [simp]:
  "heap_ok (poke p xs s) bs = heap_ok s bs" "heap_state.more (poke p xs s) = heap_state.more s"
  "hblk (poke p xs s) = hblk s"
  by (simp_all add: poke_def heap_ok_def heap_rep_def direct_ok_def)

lemma hcap_poke [simp]: "hcap (poke p xs s) = hcap s"
  by (simp add: fun_eq_iff hcap_def heap_live_def Let_def)

interpretation oh: object_heap heap_inv hcap hbyte kmalloc kfree hput "2 ^ 42"
proof
  fix s t :: "'a heap_state_scheme" and n p
  assume "heap_inv s" and n: "n \<noteq> (0::u64)" "unat n \<le> 2 ^ 42" and run: "kmalloc n s = Some (p, t)"
  then obtain bs where ok: "heap_ok s bs" by (auto simp: heap_inv_def)
  from kmalloc_ok [OF ok n run] obtain cs m where m: "heap_ok t cs" "n \<le> m" "(p - HB, m) \<notin> live bs"
    "live cs = insert (p - HB, m) (live bs)" by blast
  have mz: "m \<noteq> 0" using m(2) n(1) by (auto simp: word_gt_0)
  have pz: "p \<noteq> 0" using kfree_step [OF m(1), of "p - HB" m] m(4) mz by auto
  have new: "(p - HB, k) \<notin> live bs" for k
  proof
    assume a: "(p - HB, k) \<in> live bs"
    then have "(p - HB, k) \<in> live cs" "(p - HB, m) \<in> live cs" using m(4) by auto
    then have "k = m" by (metis live_size [OF m(1)])
    with a m(3) show False by simp
  qed
  have c0: "hcap s p = None" using hcap_iff [OF ok, of p] new by (cases "hcap s p") auto
  have ct: "hcap t = (hcap s)(p \<mapsto> unat m)"
  proof
    fix q
    show "hcap t q = ((hcap s)(p \<mapsto> unat m)) q"
    proof (cases "q = p")
      case True
      have "hcap t p = Some (unat m)" using hcap_iff [OF m(1), of p] m(4) mz by blast
      then show ?thesis using True by simp
    next
      case False
      have "hcap t q = Some c \<longleftrightarrow> hcap s q = Some c" for c
        using hcap_iff [OF m(1), of q c] hcap_iff [OF ok, of q c] m(4) False by auto
      then show ?thesis using False by (metis fun_upd_other not_None_eq)
    qed
  qed
  have bt: "hbyte t q i = hbyte s q i" if qc: "hcap s q = Some c" "i < c" for q c i
  proof -
    obtain k where k: "(q - HB, k) \<in> live bs" "c = unat k" using qc(1) hcap_iff [OF ok, of q c] by blast
    have "unat (q + of_nat i) = unat (q - HB) + 32 + i" by (rule cap_addr [OF ok k(1)]) (use qc(2) k(2) in simp)
    then have "unat (q + of_nat i) \<in> ext (q - HB, k, False)"
      using k(2) qc(2) unfolding ext_def by (simp only: fst_conv snd_conv atLeastLessThan_iff) linarith
    moreover have "(q - HB, k, False) \<in> set bs" using k(1) unfolding live_def by blast
    ultimately have "unat (q + of_nat i) \<in> cover bs" unfolding cover_def by blast
    from kmalloc_mem [OF ok n(2) run this] show ?thesis
      by (simp add: hbyte_def X86_64_VIRT_TO_PHYS_def algebra_simps)
  qed
  have "unat n \<le> unat m" using m(2) by (simp add: word_le_nat_alt)
  then show "heap_inv t \<and> p \<noteq> 0 \<and> hcap s p = None \<and> (\<exists>c \<ge> unat n. hcap t = (hcap s)(p \<mapsto> c)) \<and>
      (\<forall>q c i. hcap s q = Some c \<longrightarrow> i < c \<longrightarrow> hbyte t q i = hbyte s q i)"
    using m(1) pz c0 ct bt by (auto simp: heap_inv_def)
next
  fix s t :: "'a heap_state_scheme" and p c
  assume "heap_inv s" and p: "hcap s p = Some c" and run: "kfree p s = Some t"
  then obtain bs where ok: "heap_ok s bs" by (auto simp: heap_inv_def)
  obtain n where n: "(p - HB, n) \<in> live bs" "n \<noteq> 0" "c = unat n" using p hcap_iff [OF ok] by blast
  from kfree_some [OF ok n(1,2)] run obtain cs where cs: "heap_ok t cs" "live cs = live bs - {(p - HB, n)}" "same_pmm s t"
    by auto
  have "hcap t q = ((hcap s)(p := None)) q" for q
  proof (cases "q = p")
    case True
    have "(p - HB, k) \<notin> live cs" for k unfolding cs(2) by (metis Diff_iff live_size [OF ok] n(1) singletonI)
    then have "hcap t p = None" using hcap_iff [OF cs(1), of p] by (cases "hcap t p") auto
    then show ?thesis using True by simp
  next
    case False
    have "hcap t q = Some d \<longleftrightarrow> hcap s q = Some d" for d
      using hcap_iff [OF cs(1), of q d] hcap_iff [OF ok, of q d] cs(2) False by auto
    then show ?thesis using False by (metis fun_upd_other not_None_eq)
  qed
  moreover have "hbyte t = hbyte s" using same_pmmD(4) [OF cs(3)] by (simp add: hbyte_def fun_eq_iff)
  ultimately show "heap_inv t \<and> hcap t = (hcap s)(p := None) \<and> hbyte t = hbyte s"
    using cs(1) by (auto simp: heap_inv_def)
next
  fix s :: "'a heap_state_scheme" and p c off xs
  assume "heap_inv s" and p: "hcap s p = Some c" and b: "off + length (xs :: u8 list) \<le> c"
  then obtain bs where ok: "heap_ok s bs" by (auto simp: heap_inv_def)
  have "hbyte (hput p off xs s) q i = (if q = p \<and> off \<le> i \<and> i < off + length xs then xs ! (i - off) else hbyte s q i)"
    if q: "hcap s q = Some d" "i < d" for q d i
  proof -
    have v: "X86_64_VIRT_TO_PHYS q + of_nat i - X86_64_VIRT_TO_PHYS (p + of_nat off) = q + of_nat i - (p + of_nat off)"
      by (simp add: X86_64_VIRT_TO_PHYS_def)
    obtain n :: u64 where "c = unat n" using p hcap_iff [OF ok, of p c] by blast
    then have l: "length xs < 2 ^ 64" using b unat_lt_64 [of n] by simp
    have keq: "q = p \<and> i = off + k" if "k < length xs" "q + of_nat i = p + of_nat (off + k)" for k
      using payload_apart [OF ok q p, of "off + k"] that b by auto
    show ?thesis
    proof (cases "inside (X86_64_VIRT_TO_PHYS (p + of_nat off)) (length xs) (X86_64_VIRT_TO_PHYS q + of_nat i)")
      case True
      define k where "k = unat (q + of_nat i - (p + of_nat off))"
      have "k < length xs" using True by (simp add: inside_def v k_def)
      moreover have "q + of_nat i = p + of_nat (off + k)" by (simp add: k_def algebra_simps)
      ultimately have e: "q = p \<and> i = off + k" by (rule keq)
      have "hbyte (hput p off xs s) q i = xs ! k" using True by (simp add: hbyte_def hput_def poke_def v k_def)
      then show ?thesis using e \<open>k < length xs\<close> by simp
    next
      case False
      have "\<not> (q = p \<and> off \<le> i \<and> i < off + length xs)"
      proof
        assume a: "q = p \<and> off \<le> i \<and> i < off + length xs"
        define k where "k = i - off"
        have k: "k < length xs" "i = off + k" using a by (auto simp: k_def)
        have "q + of_nat i - (p + of_nat off) = of_nat k" using a k(2) by simp
        moreover have "unat (of_nat k :: u64) = k" using k(1) l by (simp add: unat_of_nat)
        ultimately show False using False k(1) by (simp add: inside_def v)
      qed
      then show ?thesis using False by (auto simp: hbyte_def hput_def poke_def)
    qed
  qed
  then show "heap_inv (hput p off xs s) \<and> hcap (hput p off xs s) = hcap s \<and>
      (\<forall>q d i. hcap s q = Some d \<longrightarrow> i < d \<longrightarrow>
        hbyte (hput p off xs s) q i = (if q = p \<and> off \<le> i \<and> i < off + length xs then xs ! (i - off) else hbyte s q i))"
    using ok by (auto simp: heap_inv_def hput_def)
next
  fix s :: "'a heap_state_scheme"
  assume "heap_inv s"
  then obtain bs where ok: "heap_ok s bs" by (auto simp: heap_inv_def)
  show "hcap s 0 = None"
  proof (rule ccontr)
    assume "hcap s 0 \<noteq> None"
    then obtain n where n: "(0 - HB, n) \<in> live bs" "n \<noteq> 0" using hcap_iff [OF ok, of 0] by blast
    have "unat n = 0" using live_ok [OF ok n(1)] by (simp add: blk_ok_def)
    then show False using n(2) by (simp add: unat_eq_zero)
  qed
qed

end
