(* ===== verification/VfsFile.thy ===== *)
theory VfsFile
  imports Vfs HeapClient
begin

text \<open>
  Files in memory: growing, writing, reading and truncating the contents of one node, seen as a
  list of bytes.
\<close>

section \<open>Fields that the heap leaves alone\<close>

definition same_vfs :: "'a vfs_state_scheme \<Rightarrow> 'a vfs_state_scheme \<Rightarrow> bool" where
  "same_vfs s t \<longleftrightarrow> reap_state.more t = reap_state.more s"

lemma same_vfsD:
  assumes "same_vfs s t"
  shows "vnodes t = vnodes s" "vinodes t = vinodes s" "vmnts t = vmnts s" "vfiles t = vfiles s"
    "vfs_mounts t = vfs_mounts s" "vfs_root_mount t = vfs_root_mount s" "vfs_root t = vfs_root s"
    "vfs_ready t = vfs_ready s" "vfs_cache_gen t = vfs_cache_gen s" "vfs_cache_rr t = vfs_cache_rr s"
    "vfs_cache t = vfs_cache s" "vfs_fs_drivers t = vfs_fs_drivers s" "g_devfs_root t = g_devfs_root s"
    "g_pending_blocks t = g_pending_blocks s" "vfs_initrd_data t = vfs_initrd_data s" "vfs_initrd_size t = vfs_initrd_size s"
  using assms by (cases s; cases t; simp add: same_vfs_def)+

lemma same_vfs_refl [simp]: "same_vfs s s"
  by (simp add: same_vfs_def)

lemma same_vfs_trans [trans]: "same_vfs s t \<Longrightarrow> same_vfs t u \<Longrightarrow> same_vfs s u"
  by (simp add: same_vfs_def)

lemma heap_same_vfs: "heap_state.more t = heap_state.more s \<Longrightarrow> same_vfs s t"
  by (cases s; cases t; simp add: same_vfs_def)

lemmas kmalloc_same_vfs = heap_same_vfs [OF kmalloc_more] and kfree_same_vfs = heap_same_vfs [OF kfree_more]

lemma poke_same_vfs [simp]: "same_vfs s (poke p xs s)"
  by (rule heap_same_vfs) simp

lemma same_vfs_upd: "same_vfs s t \<Longrightarrow> same_vfs (s\<lparr>vinodes := (vinodes s)(p := i)\<rparr>) (t\<lparr>vinodes := (vinodes t)(p := i)\<rparr>)"
  by (cases s; cases t; simp add: same_vfs_def)

lemma same_vfs_upd2: "same_vfs s t \<Longrightarrow> same_vfs (s\<lparr>vinodes := f, vfiles := g\<rparr>) (t\<lparr>vinodes := f, vfiles := g\<rparr>)"
  by (cases s; cases t; simp add: same_vfs_def)

text \<open>Updates of the file system do not concern the heap.\<close>

lemma upd_heap [simp]:
  "heap_inv (upd_vnode p f s) = heap_inv s" "hcap (upd_vnode p f s) = hcap s" "hbyte (upd_vnode p f s) = hbyte s"
  "heap_inv (upd_vinode p g s) = heap_inv s" "hcap (upd_vinode p g s) = hcap s" "hbyte (upd_vinode p g s) = hbyte s"
  "heap_inv (upd_vfile p h s) = heap_inv s" "hcap (upd_vfile p h s) = hcap s" "hbyte (upd_vfile p h s) = hbyte s"
proof -
  have same: "heap_inv t = heap_inv s \<and> hcap t = hcap s \<and> hbyte t = hbyte s"
    if "same_pmm s t" "hblk t = hblk s" "heap_head t = heap_head s" "heap_tail t = heap_tail s" for t
  proof -
    have "heap_ok t bs = heap_ok s bs" for bs
      using same_pmmD [OF that(1)] that(2-4) by (simp add: heap_ok_def heap_rep_def)
    then show ?thesis using same_pmmD(4) [OF that(1)] that(2)
      by (simp add: heap_inv_def hcap_def heap_live_def hbyte_def fun_eq_iff)
  qed
  show "heap_inv (upd_vnode p f s) = heap_inv s" "hcap (upd_vnode p f s) = hcap s" "hbyte (upd_vnode p f s) = hbyte s"
    "heap_inv (upd_vinode p g s) = heap_inv s" "hcap (upd_vinode p g s) = hcap s" "hbyte (upd_vinode p g s) = hbyte s"
    "heap_inv (upd_vfile p h s) = heap_inv s" "hcap (upd_vfile p h s) = hcap s" "hbyte (upd_vfile p h s) = hbyte s"
    using same [of "upd_vnode p f s"] same [of "upd_vinode p g s"] same [of "upd_vfile p h s"]
    by (simp_all add: upd_vnode_def upd_vinode_def upd_vfile_def same_pmm_def pmm_state.truncate_def)
qed

lemma upd_fields [simp]:
  "vnodes (upd_vnode p f s) = (vnodes s)(p := f (vnodes s p))" "vinodes (upd_vnode p f s) = vinodes s"
  "vfiles (upd_vnode p f s) = vfiles s" "vnodes (upd_vinode p g s) = vnodes s"
  "vinodes (upd_vinode p g s) = (vinodes s)(p := g (vinodes s p))" "vfiles (upd_vinode p g s) = vfiles s"
  "vnodes (upd_vfile p h s) = vnodes s" "vinodes (upd_vfile p h s) = vinodes s"
  "vfiles (upd_vfile p h s) = (vfiles s)(p := h (vfiles s p))"
  by (simp_all add: upd_vnode_def upd_vinode_def upd_vfile_def)

section \<open>The doubling loop\<close>

lemma unat_pow2: "k < 64 \<Longrightarrow> unat (2 ^ k :: u64) = 2 ^ k"
proof -
  assume k: "k < 64"
  have "(2 ^ k :: u64) = of_nat (2 ^ k)" by simp
  then have "unat (2 ^ k :: u64) = 2 ^ k mod 2 ^ 64" by (simp only: unat_of_nat) simp
  moreover have "(2::nat) ^ k < 2 ^ 64" using k by (intro power_strict_increasing) simp_all
  ultimately show ?thesis by simp
qed

lemma grow_cap_step: "c < n \<Longrightarrow> grow_cap c n = grow_cap (c * 2) n" "\<not> c < n \<Longrightarrow> grow_cap c n = Some c"
  by (subst grow_cap.simps; simp)+

lemma grow_cap_power:
  assumes "unat n \<le> 2 ^ 63" "k \<le> 63"
  shows "\<exists>j \<le> 63. k \<le> j \<and> grow_cap (2 ^ k) n = Some (2 ^ j) \<and> unat n \<le> 2 ^ j \<and> (j = k \<or> 2 ^ j < 2 * unat n)"
  using assms(2)
proof (induction "63 - k" arbitrary: k)
  case 0
  then have k: "k = 63" by simp
  have "unat (2 ^ 63 :: u64) = 2 ^ 63" by simp
  then have "\<not> 2 ^ 63 < n" using assms(1) by (simp add: word_less_nat_alt)
  then show ?case using assms(1) k by (intro exI [of _ 63]) (simp add: grow_cap_step)
next
  case (Suc d)
  then have k: "k < 63" by linarith
  have u: "unat (2 ^ k :: u64) = 2 ^ k"
    using k by (intro unat_pow2) simp
  show ?case
  proof (cases "2 ^ k < n")
    case True
    have "d = 63 - Suc k" "Suc k \<le> 63" using Suc.hyps(2) k by linarith+
    from Suc.hyps(1) [OF this] obtain j where j: "j \<le> 63" "Suc k \<le> j" "grow_cap (2 ^ Suc k) n = Some (2 ^ j)"
      "unat n \<le> 2 ^ j" "j = Suc k \<or> 2 ^ j < 2 * unat n" by blast
    have "2 ^ j < 2 * unat n" using j(5) True u by (auto simp: word_less_nat_alt)
    then show ?thesis using j True by (intro exI [of _ j]) (simp add: grow_cap_step(1) mult.commute)
  next
    case False
    then show ?thesis using k u by (intro exI [of _ k]) (auto simp: grow_cap_step(2) word_less_nat_alt)
  qed
qed

lemma grow_cap_hangs:
  assumes "2 ^ 63 < unat n" "c = 0 \<or> (\<exists>k \<le> 63. c = 2 ^ k)"
  shows "grow_cap c n = None"
proof (rule ccontr)
  assume "grow_cap c n \<noteq> None"
  then obtain r where r: "grow_cap c n = Some r" by blast
  have "2 ^ 63 < unat n \<longrightarrow> \<not> (c = 0 \<or> (\<exists>k \<le> 63. c = 2 ^ k))"
    using _ r
  proof (rule grow_cap.raw_induct [of "\<lambda>c n r. 2 ^ 63 < unat n \<longrightarrow> \<not> (c = 0 \<or> (\<exists>k \<le> 63. c = 2 ^ k))"])
    fix f :: "u64 \<Rightarrow> u64 \<Rightarrow> u64 option" and c n r
    assume IH: "\<And>c n r. f c n = Some r \<Longrightarrow> 2 ^ 63 < unat n \<longrightarrow> \<not> (c = 0 \<or> (\<exists>k \<le> 63. c = 2 ^ k))"
      and e: "(if c < n then f (c * 2) n else Some c) = Some r"
    show "2 ^ 63 < unat n \<longrightarrow> \<not> (c = 0 \<or> (\<exists>k \<le> 63. c = 2 ^ k))"
    proof (intro impI notI)
      assume n: "2 ^ 63 < unat n" and c: "c = 0 \<or> (\<exists>k \<le> 63. c = 2 ^ k)"
      have u: "unat (2 ^ k :: u64) \<le> 2 ^ 63" if "k \<le> 63" for k
        using that unat_pow2 [of k] power_increasing [of k 63 "2::nat"] by simp
      have "unat c \<le> 2 ^ 63" using c u by auto
      then have "c < n" using n by (simp add: word_less_nat_alt)
      then have "f (c * 2) n = Some r" using e by simp
      from IH [OF this] n have no: "\<not> (c * 2 = 0 \<or> (\<exists>k \<le> 63. c * 2 = 2 ^ k))" by blast
      from c show False
      proof
        assume "\<exists>k \<le> 63. c = 2 ^ k"
        then obtain k where k: "k \<le> 63" "c = 2 ^ k" by blast
        then have d: "c * 2 = 2 ^ Suc k" by (simp add: mult.commute)
        show False
        proof (cases "k = 63")
          case True
          then have "c * 2 = 0" using d by simp
          then show False using no by blast
        next
          case False
          then have "Suc k \<le> 63" using k(1) by simp
          then show False using no d by blast
        qed
      qed (use no in simp)
    qed
  qed
  then show False using assms by blast
qed

section \<open>Contents\<close>

text \<open>The storage of an inode: none, or a block of the heap with at least the recorded capacity.\<close>

definition data_ok :: "vfs_inode \<Rightarrow> 'a heap_state_scheme \<Rightarrow> bool" where
  "data_ok i s \<longleftrightarrow> vi_size i \<le> vi_capacity i \<and>
     (if vi_capacity i = 0 then vi_data i = 0
      else (\<exists>c. hcap s (vi_data i) = Some c \<and> unat (vi_capacity i) \<le> c) \<and> (\<exists>k. 6 \<le> k \<and> k \<le> 63 \<and> vi_capacity i = 2 ^ k))"

definition file_at :: "u64 \<Rightarrow> 'a vfs_state_scheme \<Rightarrow> bool" where
  "file_at n s \<longleftrightarrow> n \<noteq> 0 \<and> vn_type (vnodes s n) = VFS_NODE_FILE \<and> vn_inode (vnodes s n) \<noteq> 0 \<and> data_ok (node_inode n s) s"

definition plain :: "vfs_inode \<Rightarrow> bool" where
  "plain i \<longleftrightarrow> vi_flags i = 0 \<and> vi_fs_tag i \<noteq> VFS_FS_TAG_EXT2"

definition inode_bytes :: "vfs_inode \<Rightarrow> 'a heap_state_scheme \<Rightarrow> u8 list" where
  "inode_bytes i s = map (hbyte s (vi_data i)) [0..<unat (vi_size i)]"

definition content :: "u64 \<Rightarrow> 'a vfs_state_scheme \<Rightarrow> u8 list" where
  "content n s = inode_bytes (node_inode n s) s"

lemma peek_hbyte: "peek (p + off) k s = map (hbyte s p) [unat off..<unat off + unat k]"
proof (rule nth_equalityI)
  fix i assume "i < length (peek (p + off) k s)"
  then show "peek (p + off) k s ! i = map (hbyte s p) [unat off..<unat off + unat k] ! i"
    by (simp add: peek_def hbyte_def X86_64_VIRT_TO_PHYS_def algebra_simps)
qed (simp add: peek_def)

lemma poke_hput: "poke (p + off) xs s = hput p (unat off) xs s"
  by (simp add: hput_def)

lemma poke_Nil [simp]: "poke p [] s = s"
  by (simp add: poke_def)

text \<open>
  \<open>grown\<close>: the effect of growing the inode at \<open>ip\<close>. Its contents move along; the other blocks and
  the rest of the file system stay.
\<close>

definition grown :: "u64 \<Rightarrow> u64 \<Rightarrow> 'a vfs_state_scheme \<Rightarrow> 'a vfs_state_scheme \<Rightarrow> bool" where
  "grown ip needed s t \<longleftrightarrow> heap_inv t \<and> (\<exists>d c. let i = (vinodes s ip)\<lparr>vi_data := d, vi_capacity := c\<rparr> in
       same_vfs (s\<lparr>vinodes := (vinodes s)(ip := i)\<rparr>) t \<and> data_ok i t \<and> needed \<le> c \<and> unat c \<le> 2 ^ 42 \<and>
       inode_bytes i t = inode_bytes (vinodes s ip) s \<and>
       (d = vi_data (vinodes s ip) \<or> hcap s d = None) \<and>
       (\<forall>r. r \<noteq> d \<longrightarrow> r \<noteq> vi_data (vinodes s ip) \<longrightarrow> hcap t r = hcap s r) \<and>
       (\<forall>r k j. hcap s r = Some k \<longrightarrow> j < k \<longrightarrow> hbyte t r j = hbyte s r j))"

lemma copy_old:
  assumes h: "heap_inv s" and dk: "data_ok i s" and al: "kmalloc c s = Some (q, s1)" and c: "c \<noteq> 0" "unat c \<le> 2 ^ 42"
  shows "(if vi_data i \<noteq> 0 \<and> vi_size i > 0 then poke q (peek (vi_data i) (vi_size i) s1) s1 else s1) =
    hput q 0 (map (hbyte s (vi_data i)) [0..<unat (vi_size i)]) s1"
proof (cases "vi_size i = 0")
  case False
  then have cz: "vi_capacity i \<noteq> 0" using dk by (auto simp: data_ok_def)
  then obtain d where d: "hcap s (vi_data i) = Some d" "unat (vi_capacity i) \<le> d" using dk by (auto simp: data_ok_def)
  have "vi_data i \<noteq> 0" using d(1) oh.cap_nonnull [OF h] by auto
  moreover have "peek (vi_data i) (vi_size i) s1 = map (hbyte s (vi_data i)) [0..<unat (vi_size i)]"
  proof -
    have "unat (vi_size i) \<le> d" using dk d(2) by (simp add: data_ok_def word_le_nat_alt)
    then have "map (hbyte s1 (vi_data i)) [0..<unat (vi_size i)] = map (hbyte s (vi_data i)) [0..<unat (vi_size i)]"
      using oh.alloc_law [OF h c al] d(1) by (intro map_cong) auto
    then show ?thesis using peek_hbyte [of "vi_data i" 0 "vi_size i" s1] by simp
  qed
  ultimately show ?thesis using False by (simp add: hput_def word_gt_0)
qed (simp add: hput_def)

lemma move_old:
  assumes h: "heap_inv s" and dk: "data_ok i s" and al: "kmalloc c s = Some (q, s1)" and c: "c \<noteq> 0" "unat c \<le> 2 ^ 42"
    and le: "unat (vi_capacity i) \<le> unat c"
    and fr: "(if vi_data i \<noteq> 0 then kfree (vi_data i) (hput q 0 (map (hbyte s (vi_data i)) [0..<unat (vi_size i)]) s1)
      else Some (hput q 0 (map (hbyte s (vi_data i)) [0..<unat (vi_size i)]) s1)) = Some s3"
  shows "heap_inv s3 \<and> (\<exists>d \<ge> unat c. hcap s3 = (hcap s)(vi_data i := None, q \<mapsto> d)) \<and> hcap s q = None \<and>
    (\<forall>j < unat (vi_size i). hbyte s3 q j = hbyte s (vi_data i) j) \<and>
    (\<forall>r d j. hcap s r = Some d \<longrightarrow> j < d \<longrightarrow> hbyte s3 r j = hbyte s r j)"
proof (cases "vi_capacity i = 0")
  case True
  then have z: "vi_data i = 0" "vi_size i = 0" using dk by (auto simp: data_ok_def)
  then have "s3 = s1" using fr by (simp add: hput_def)
  moreover have "(hcap s)(0 := None) = hcap s" using oh.cap_nonnull [OF h] by (simp add: fun_upd_idem)
  ultimately show ?thesis using oh.alloc_law [OF h c al] z by auto
next
  case False
  then obtain d where d: "hcap s (vi_data i) = Some d" "unat (vi_capacity i) \<le> d" using dk by (auto simp: data_ok_def)
  have nz: "vi_data i \<noteq> 0" using d(1) oh.cap_nonnull [OF h] by auto
  have sz: "unat (vi_size i) \<le> unat (vi_capacity i)" using dk by (simp add: data_ok_def word_le_nat_alt)
  from oh.move [OF h d(1) _ c _ al refl, of "unat (vi_size i)"] fr nz sz le d(2) show ?thesis by auto
qed

lemma vfs_grow_file_ok:
  assumes h: "heap_inv s" and f: "file_at n s" and nd: "unat needed \<le> 2 ^ 41"
    and cb: "unat (vi_capacity (node_inode n s)) \<le> 2 ^ 42"
    and run: "vfs_grow_file n needed s = Some (g, t)"
  shows "g = 0 \<and> grown (vn_inode (vnodes s n)) needed s t"
proof -
  define ip where "ip = vn_inode (vnodes s n)"
  define i where "i = vinodes s ip"
  have i: "node_inode n s = i" by (simp add: node_inode_def ip_def i_def)
  have ne: "\<not> (n = 0 \<or> vn_type (vnodes s n) \<noteq> VFS_NODE_FILE \<or> vn_inode (vnodes s n) = 0)"
    and dk: "data_ok i s" using f by (simp_all add: file_at_def i)
  show ?thesis
  proof (cases "needed \<le> vi_capacity i")
    case True
    then have "g = 0" "t = s" using run ne by (simp_all add: vfs_grow_file_def Let_def i_def ip_def)
    moreover have "s\<lparr>vinodes := (vinodes s)(ip := i\<lparr>vi_data := vi_data i, vi_capacity := vi_capacity i\<rparr>)\<rparr> = s"
      by (simp add: i_def)
    ultimately show ?thesis using h dk True cb i
      unfolding grown_def Let_def ip_def [symmetric] i_def [symmetric]
      by (intro conjI exI [of _ "vi_data i"] exI [of _ "vi_capacity i"]) simp_all
  next
    case False
    define c0 where "c0 = (if vi_capacity i \<noteq> 0 then vi_capacity i else 64)"
    obtain k where k: "6 \<le> k" "k \<le> 63" "c0 = 2 ^ k"
    proof (cases "vi_capacity i = 0")
      case True
      then have "c0 = 2 ^ 6" by (simp add: c0_def)
      then show ?thesis by (intro that [of 6]) simp_all
    qed (use dk in \<open>auto simp: data_ok_def c0_def intro: that\<close>)
    have "unat needed \<le> 2 ^ 63" using nd by simp
    from grow_cap_power [OF this k(2)] obtain j where j: "j \<le> 63" "k \<le> j" "grow_cap (2 ^ k) needed = Some (2 ^ j)"
      "unat needed \<le> 2 ^ j" "j = k \<or> 2 ^ j < 2 * unat needed" by blast
    define c where "c = (2 ^ j :: u64)"
    have uc: "unat c = 2 ^ j" using unat_pow2 [of j] j(1) by (simp add: c_def)
    have cz: "c \<noteq> 0" using uc by (metis power_not_zero unat_0 zero_neq_numeral)
    have c42: "unat c \<le> 2 ^ 42"
    proof (cases "j = k")
      case True
      then have "c = c0" by (simp add: c_def k(3))
      then show ?thesis using cb by (auto simp: c0_def i)
    next
      case False
      then have "2 ^ j < 2 * unat needed" using j(5) by blast
      then show ?thesis using nd uc by simp
    qed
    have gc: "grow_cap c0 needed = Some c" using j(3) by (simp add: k(3) c_def)
    have gf: "vfs_grow_file n needed s = (case kmalloc c s of None \<Rightarrow> None | Some (q, s) \<Rightarrow>
        if q = 0 then Some (- 1, s)
        else case (if vi_data i \<noteq> 0
            then kfree (vi_data i) (if vi_data i \<noteq> 0 \<and> vi_size i > 0 then poke q (peek (vi_data i) (vi_size i) s) s else s)
            else Some (if vi_data i \<noteq> 0 \<and> vi_size i > 0 then poke q (peek (vi_data i) (vi_size i) s) s else s)) of
          None \<Rightarrow> None | Some s \<Rightarrow> Some (0, upd_vinode ip (\<lambda>i. i\<lparr>vi_data := q, vi_capacity := c\<rparr>) s))"
      using ne False gc unfolding vfs_grow_file_def Let_def ip_def [symmetric] i_def [symmetric] c0_def [symmetric] by simp
    obtain q s1 where al: "kmalloc c s = Some (q, s1)" using run gf by (cases "kmalloc c s") auto
    note a = oh.alloc_law [OF h cz c42 al]
    have s1: "same_vfs s s1" by (rule kmalloc_same_vfs [OF al])
    define s2 where "s2 = hput q 0 (map (hbyte s (vi_data i)) [0..<unat (vi_size i)]) s1"
    have cp: "(if vi_data i \<noteq> 0 \<and> vi_size i > 0 then poke q (peek (vi_data i) (vi_size i) s1) s1 else s1) = s2"
      unfolding s2_def by (rule copy_old [OF h dk al cz c42])
    obtain s3 where s3: "(if vi_data i \<noteq> 0 then kfree (vi_data i) s2 else Some s2) = Some s3"
      and t: "g = 0" "t = upd_vinode ip (\<lambda>i. i\<lparr>vi_data := q, vi_capacity := c\<rparr>) s3"
      using run [unfolded gf al] a unfolding prod.case option.case cp by (auto split: option.splits)
    have m: "heap_inv s3 \<and> (\<exists>d \<ge> unat c. hcap s3 = (hcap s)(vi_data i := None, q \<mapsto> d)) \<and> hcap s q = None \<and>
        (\<forall>j < unat (vi_size i). hbyte s3 q j = hbyte s (vi_data i) j) \<and>
        (\<forall>r d j. hcap s r = Some d \<longrightarrow> j < d \<longrightarrow> hbyte s3 r j = hbyte s r j)"
      by (rule move_old [OF h dk al cz c42 _ s3 [unfolded s2_def]]) (use False j(4) uc in \<open>simp add: word_le_nat_alt\<close>)
    have "same_vfs s1 s2" by (simp add: s2_def hput_def)
    moreover have "same_vfs s2 s3" using s3 kfree_same_vfs [of "vi_data i" s2 s3] by (auto split: if_splits)
    ultimately have v3: "same_vfs s1 s3" by (rule same_vfs_trans)
    define i' where "i' = i\<lparr>vi_data := q, vi_capacity := c\<rparr>"
    have vt: "same_vfs (s\<lparr>vinodes := (vinodes s)(ip := i')\<rparr>) t"
      using same_vfs_upd [OF same_vfs_trans [OF s1 v3], of ip i'] same_vfsD(2) [OF same_vfs_trans [OF s1 v3]]
      by (simp add: t upd_vinode_def i'_def i_def)
    obtain d where d: "unat c \<le> d" "hcap s3 = (hcap s)(vi_data i := None, q \<mapsto> d)" using m by blast
    have ht: "heap_inv t" "hcap t = hcap s3" "hbyte t = hbyte s3" using m by (simp_all add: t)
    have nc: "needed \<le> c" using j(4) uc by (simp add: word_le_nat_alt)
    have "vi_size i \<le> c" using dk False nc by (auto simp: data_ok_def)
    moreover have "\<exists>k. 6 \<le> k \<and> k \<le> 63 \<and> c = 2 ^ k" using j(1,2) k(1) c_def by (intro exI [of _ j]) simp
    ultimately have dt: "data_ok i' t" using d cz by (simp add: data_ok_def ht i'_def)
    have bt: "inode_bytes i' t = inode_bytes i s" using m by (simp add: inode_bytes_def i'_def ht)
    show ?thesis unfolding grown_def Let_def ip_def [symmetric] i_def [symmetric]
    proof (rule conjI [OF t(1)], rule conjI [OF ht(1)], rule exI [of _ q], rule exI [of _ c], intro conjI)
      show "\<forall>r. r \<noteq> q \<longrightarrow> r \<noteq> vi_data i \<longrightarrow> hcap t r = hcap s r" by (simp add: ht d)
      show "\<forall>r k j. hcap s r = Some k \<longrightarrow> j < k \<longrightarrow> hbyte t r j = hbyte s r j" using m by (simp add: ht)
    qed (use vt dt bt nc c42 m in \<open>simp_all add: i'_def\<close>)
  qed
qed

section \<open>Writing and resizing\<close>

text \<open>
  \<open>rewrote\<close>: only the inode at \<open>ip\<close>, its storage and file positions have changed. The storage is the old
  one or a fresh block.
\<close>

definition rewrote :: "u64 \<Rightarrow> 'a vfs_state_scheme \<Rightarrow> 'a vfs_state_scheme \<Rightarrow> bool" where
  "rewrote ip s t \<longleftrightarrow> heap_inv t \<and> data_ok (vinodes t ip) t \<and> unat (vi_capacity (vinodes t ip)) \<le> 2 ^ 42 \<and>
     same_vfs (s\<lparr>vinodes := (vinodes s)(ip := vinodes t ip), vfiles := vfiles t\<rparr>) t \<and>
     (\<exists>sz c d. vinodes t ip = (vinodes s ip)\<lparr>vi_size := sz, vi_capacity := c, vi_data := d\<rparr>) \<and>
     (vi_data (vinodes t ip) = vi_data (vinodes s ip) \<or> hcap s (vi_data (vinodes t ip)) = None) \<and>
     (\<forall>r. r \<noteq> vi_data (vinodes t ip) \<longrightarrow> r \<noteq> vi_data (vinodes s ip) \<longrightarrow> hcap t r = hcap s r) \<and>
     (\<forall>r k j. hcap s r = Some k \<longrightarrow> r \<noteq> vi_data (vinodes s ip) \<longrightarrow> j < k \<longrightarrow> hbyte t r j = hbyte s r j)"

lemma grownD:
  assumes "grown ip needed s t"
  shows "rewrote ip s t" "needed \<le> vi_capacity (vinodes t ip)" "vi_size (vinodes t ip) = vi_size (vinodes s ip)"
    "inode_bytes (vinodes t ip) t = inode_bytes (vinodes s ip) s" "same_vfs (s\<lparr>vinodes := (vinodes s)(ip := vinodes t ip)\<rparr>) t"
    "vnodes t = vnodes s" "vfiles t = vfiles s"
    "vi_data (vinodes t ip) = vi_data (vinodes s ip) \<Longrightarrow> hcap s (vi_data (vinodes s ip)) = Some k \<Longrightarrow> j < k \<Longrightarrow>
       hbyte t (vi_data (vinodes s ip)) j = hbyte s (vi_data (vinodes s ip)) j"
proof -
  define i where "i = vinodes s ip"
  obtain d c where g: "heap_inv t" "same_vfs (s\<lparr>vinodes := (vinodes s)(ip := i\<lparr>vi_data := d, vi_capacity := c\<rparr>)\<rparr>) t"
    "data_ok (i\<lparr>vi_data := d, vi_capacity := c\<rparr>) t" "needed \<le> c" "unat c \<le> 2 ^ 42"
    "inode_bytes (i\<lparr>vi_data := d, vi_capacity := c\<rparr>) t = inode_bytes i s"
    "d = vi_data i \<or> hcap s d = None" "\<And>r. r \<noteq> d \<Longrightarrow> r \<noteq> vi_data i \<Longrightarrow> hcap t r = hcap s r"
    "\<And>r k j. hcap s r = Some k \<Longrightarrow> j < k \<Longrightarrow> hbyte t r j = hbyte s r j"
    using assms unfolding grown_def Let_def i_def [symmetric] by blast
  note v = same_vfsD [OF g(2)]
  have it: "vinodes t ip = i\<lparr>vi_data := d, vi_capacity := c\<rparr>" using v(2) by simp
  show sv: "same_vfs (s\<lparr>vinodes := (vinodes s)(ip := vinodes t ip)\<rparr>) t" using g(2) unfolding it .
  show n: "vnodes t = vnodes s" and f: "vfiles t = vfiles s" using v(1,4) by simp_all
  have "s\<lparr>vinodes := (vinodes s)(ip := vinodes t ip), vfiles := vfiles t\<rparr> = s\<lparr>vinodes := (vinodes s)(ip := vinodes t ip)\<rparr>"
    by (simp add: f)
  then have s2: "same_vfs (s\<lparr>vinodes := (vinodes s)(ip := vinodes t ip), vfiles := vfiles t\<rparr>) t" using sv by simp
  have ex: "\<exists>sz c d. vinodes t ip = (vinodes s ip)\<lparr>vi_size := sz, vi_capacity := c, vi_data := d\<rparr>"
    by (rule exI [of _ "vi_size i"], rule exI [of _ c], rule exI [of _ d]) (simp add: it i_def)
  show "rewrote ip s t" unfolding rewrote_def using g s2 ex by (simp add: it i_def [symmetric])
  show "needed \<le> vi_capacity (vinodes t ip)" "vi_size (vinodes t ip) = vi_size (vinodes s ip)"
    "inode_bytes (vinodes t ip) t = inode_bytes (vinodes s ip) s" using g by (simp_all add: it i_def)
  show "hbyte t (vi_data (vinodes s ip)) j = hbyte s (vi_data (vinodes s ip)) j"
    if "hcap s (vi_data (vinodes s ip)) = Some k" "j < k" using g(9) that by simp
qed

text \<open>Bytes put inside the storage of an inode, and a new size within the capacity.\<close>

lemma store_in:
  assumes h: "heap_inv s" and dk: "data_ok i s" and i: "vinodes s ip = i" and b: "off + length xs \<le> unat (vi_capacity i)"
    and z: "unat sz \<le> unat (vi_capacity i)" and c: "unat (vi_capacity i) \<le> 2 ^ 42"
    and t: "t = upd_vinode ip (\<lambda>i. i\<lparr>vi_size := sz\<rparr>) (hput (vi_data i) off xs s)"
  shows "rewrote ip s t \<and> vfiles t = vfiles s \<and> vinodes t ip = i\<lparr>vi_size := sz\<rparr> \<and>
    (\<forall>j < unat (vi_capacity i). hbyte t (vi_data i) j = (if off \<le> j \<and> j < off + length xs then xs ! (j - off) else hbyte s (vi_data i) j))"
proof -
  define u where "u = hput (vi_data i) off xs s"
  have v: "same_vfs s u" by (simp add: u_def hput_def)
  have tu: "t = upd_vinode ip (\<lambda>i. i\<lparr>vi_size := sz\<rparr>) u" by (simp add: t u_def)
  have it: "vinodes t ip = i\<lparr>vi_size := sz\<rparr>" using same_vfsD(2) [OF v] i by (simp add: tu)
  have sv: "same_vfs (s\<lparr>vinodes := (vinodes s)(ip := vinodes t ip), vfiles := vfiles t\<rparr>) t"
    using v same_vfsD(2,4) [OF v] unfolding it by (cases s; cases u; simp add: same_vfs_def tu upd_vinode_def i [symmetric])
  have fs: "vfiles t = vfiles s" using same_vfsD(4) [OF v] by (simp add: tu)
  have ex: "\<exists>sz c d. vinodes t ip = (vinodes s ip)\<lparr>vi_size := sz, vi_capacity := c, vi_data := d\<rparr>"
    by (rule exI [of _ sz], rule exI [of _ "vi_capacity i"], rule exI [of _ "vi_data i"]) (simp add: it i)
  have p: "heap_inv u \<and> hcap u = hcap s \<and> (\<forall>q d j. hcap s q = Some d \<longrightarrow> j < d \<longrightarrow>
      hbyte u q j = (if q = vi_data i \<and> off \<le> j \<and> j < off + length xs then xs ! (j - off) else hbyte s q j)) \<and>
      (\<forall>j < unat (vi_capacity i). hbyte u (vi_data i) j = (if off \<le> j \<and> j < off + length xs then xs ! (j - off) else hbyte s (vi_data i) j))"
  proof (cases "vi_capacity i = 0")
    case True
    then have "xs = []" using b by simp
    then show ?thesis using True h by (auto simp: u_def hput_def)
  next
    case False
    then obtain k where k: "hcap s (vi_data i) = Some k" "unat (vi_capacity i) \<le> k" using dk by (auto simp: data_ok_def)
    then have "off + length xs \<le> k" using b by simp
    from oh.put_law [OF h k(1) this] k show ?thesis by (simp add: u_def)
  qed
  have hp: "heap_inv t" "hcap t = hcap s" "hbyte t = hbyte u" using p by (simp_all add: tu)
  have dt: "data_ok (i\<lparr>vi_size := sz\<rparr>) t" using dk z by (auto simp: data_ok_def hp word_le_nat_alt)
  show ?thesis unfolding rewrote_def using hp dt sv ex fs p c by (auto simp: it i)
qed

lemma rewrote_trans:
  assumes a: "rewrote ip s t" and b: "rewrote ip t u"
    and keep: "vi_data (vinodes u ip) = vi_data (vinodes t ip)"
  shows "rewrote ip s u"
proof -
  note A = a [unfolded rewrote_def] and B = b [unfolded rewrote_def]
  have "same_vfs (s\<lparr>vinodes := (vinodes s)(ip := vinodes u ip), vfiles := vfiles u\<rparr>) u"
  proof -
    have st: "same_vfs (s\<lparr>vinodes := (vinodes s)(ip := vinodes t ip), vfiles := vfiles t\<rparr>) t"
      and tu: "same_vfs (t\<lparr>vinodes := (vinodes t)(ip := vinodes u ip), vfiles := vfiles u\<rparr>) u" using A B by blast+
    have "vinodes t = (vinodes s)(ip := vinodes t ip)" using same_vfsD(2) [OF st] by simp
    then have "(vinodes t)(ip := vinodes u ip) = (vinodes s)(ip := vinodes u ip)" by (metis fun_upd_upd)
    with same_vfs_upd2 [OF st, of "vfiles u" "(vinodes t)(ip := vinodes u ip)"] tu show ?thesis
      by (simp add: same_vfs_trans)
  qed
  moreover have "\<exists>sz c d. vinodes u ip = (vinodes s ip)\<lparr>vi_size := sz, vi_capacity := c, vi_data := d\<rparr>"
  proof -
    obtain sz c d where e: "vinodes t ip = (vinodes s ip)\<lparr>vi_size := sz, vi_capacity := c, vi_data := d\<rparr>" using A by blast
    obtain sz' c' d' where "vinodes u ip = (vinodes t ip)\<lparr>vi_size := sz', vi_capacity := c', vi_data := d'\<rparr>" using B by blast
    then have "vinodes u ip = (vinodes s ip)\<lparr>vi_size := sz', vi_capacity := c', vi_data := d'\<rparr>" unfolding e by simp
    then show ?thesis by blast
  qed
  moreover have "hcap u r = hcap s r" if "r \<noteq> vi_data (vinodes u ip)" "r \<noteq> vi_data (vinodes s ip)" for r
    using A B keep that by simp
  moreover have "hbyte u r j = hbyte s r j" if "hcap s r = Some k" "r \<noteq> vi_data (vinodes s ip)" "j < k" for r k j
  proof -
    have rt: "r \<noteq> vi_data (vinodes t ip)" using A that(1,2) by auto
    then have "hcap t r = Some k" using A that by simp
    then show ?thesis using A B that rt by metis
  qed
  ultimately show ?thesis unfolding rewrote_def using A B keep by simp
qed

lemma rewrote_vfile: "rewrote ip s t \<Longrightarrow> rewrote ip s (upd_vfile fp h t)"
proof -
  assume a: "rewrote ip s t"
  define u where "u = upd_vfile fp h t"
  have st: "same_vfs (s\<lparr>vinodes := (vinodes s)(ip := vinodes t ip), vfiles := vfiles t\<rparr>) t"
    using a by (simp add: rewrote_def)
  have vi: "vinodes t = (vinodes s)(ip := vinodes t ip)" using same_vfsD(2) [OF st] by simp
  have "u = t\<lparr>vinodes := vinodes t, vfiles := vfiles u\<rparr>" by (simp add: u_def upd_vfile_def)
  then have sv: "same_vfs (s\<lparr>vinodes := (vinodes s)(ip := vinodes t ip), vfiles := vfiles u\<rparr>) u"
    using same_vfs_upd2 [OF st, of "vfiles u" "vinodes t"] vi by simp
  have e: "vinodes u = vinodes t" "heap_inv u = heap_inv t" "hcap u = hcap t" "hbyte u = hbyte t"
    by (simp_all add: u_def)
  have "data_ok i u = data_ok i t" for i by (simp add: data_ok_def e)
  then have "rewrote ip s u" using a sv unfolding rewrote_def e by simp
  then show ?thesis by (simp add: u_def)
qed

lemma upd_size_same: "vi_size (vinodes s ip) = z \<Longrightarrow> upd_vinode ip (\<lambda>i. i\<lparr>vi_size := z\<rparr>) s = s"
  by (auto simp: upd_vinode_def)

lemma content_nth: "i < unat (vi_size (node_inode n s)) \<Longrightarrow> content n s ! i = hbyte s (vi_data (node_inode n s)) i"
  by (simp add: content_def inode_bytes_def)

lemma length_content [simp]: "length (content n s) = unat (vi_size (node_inode n s))"
  by (simp add: content_def inode_bytes_def)

lemma rewrote_node:
  assumes "rewrote (vn_inode (vnodes s n)) s t"
  shows "vnodes t = vnodes s" "node_inode n t = vinodes t (vn_inode (vnodes s n))"
proof -
  have "same_vfs (s\<lparr>vinodes := (vinodes s)(vn_inode (vnodes s n) := vinodes t (vn_inode (vnodes s n))), vfiles := vfiles t\<rparr>) t"
    using assms unfolding rewrote_def by blast
  from same_vfsD(1) [OF this] show "vnodes t = vnodes s" by simp
  then show "node_inode n t = vinodes t (vn_inode (vnodes s n))" by (simp add: node_inode_def)
qed

lemma vfs_write_ok:
  assumes h: "heap_inv s" and f: "file_at n s" and pl: "plain (node_inode n s)"
    and cb: "unat (vi_capacity (node_inode n s)) \<le> 2 ^ 42"
    and fp: "fp \<noteq> 0" "buffer \<noteq> 0" "vf_node (vfiles s fp) = n" "vf_writable (vfiles s fp)" "vf_pos (vfiles s fp) = pos"
    and b: "unat pos + length xs \<le> 2 ^ 41"
    and run: "vfs_write env fp buffer xs s = Some (rc, t)"
  shows "rc = int_of_size (of_nat (length xs)) \<and> rewrote (vn_inode (vnodes s n)) s t \<and>
    vfiles t = (vfiles s)(fp := (vfiles s fp)\<lparr>vf_pos := pos + of_nat (length xs)\<rparr>) \<and>
    length (content n t) = max (length (content n s)) (unat pos + length xs) \<and>
    (\<forall>i < length (content n s). \<not> (unat pos \<le> i \<and> i < unat pos + length xs) \<longrightarrow> content n t ! i = content n s ! i) \<and>
    (\<forall>j < length xs. content n t ! (unat pos + j) = xs ! j)"
proof -
  define ip where "ip = vn_inode (vnodes s n)"
  define e where "e = pos + of_nat (length xs)"
  have ni: "node_inode n s = vinodes s ip" by (simp add: node_inode_def ip_def)
  have ne: "n \<noteq> 0" "ip \<noteq> 0" "vi_flags (vinodes s ip) = 0" "vi_fs_tag (vinodes s ip) \<noteq> VFS_FS_TAG_EXT2"
    using f pl by (simp_all add: file_at_def plain_def ip_def node_inode_def)
  have le: "unat (of_nat (length xs) :: u64) = length xs" using b by (simp add: unat_of_nat)
  then have ue: "unat e = unat pos + length xs" using b by (simp add: e_def unat_word_ariths)
  obtain g t1 where gr: "vfs_grow_file n e s = Some (g, t1)"
    using run ne fp by (auto simp: vfs_write_def Let_def ip_def [symmetric] e_def [symmetric] split: option.splits)
  have e41: "unat e \<le> 2 ^ 41" using ue b by simp
  have g: "g = 0" and gw: "grown ip e s t1" using vfs_grow_file_ok [OF h f e41 cb gr] by (simp_all add: ip_def)
  note G = grownD [OF gw]
  define i where "i = vinodes t1 ip"
  define sz where "sz = (if e > vi_size i then e else vi_size i)"
  have h1: "heap_inv t1" "data_ok i t1" "unat (vi_capacity i) \<le> 2 ^ 42" using G(1) by (simp_all add: rewrote_def i_def)
  define t2 where "t2 = upd_vinode ip (\<lambda>i. i\<lparr>vi_size := sz\<rparr>) (hput (vi_data i) (unat pos) xs t1)"
  have "vi_size i \<le> vi_capacity i" using h1(2) by (simp add: data_ok_def)
  then have cap: "unat pos + length xs \<le> unat (vi_capacity i)" "unat sz \<le> unat (vi_capacity i)"
    using G(2) ue by (simp_all add: sz_def i_def word_le_nat_alt)
  note S = store_in [OF h1(1,2) i_def [symmetric] cap h1(3) t2_def]
  have p: "vinodes (poke p xs t1) = vinodes t1" "vfiles (poke p xs t1) = vfiles t1" for p
    using same_vfsD(2,4) [OF poke_same_vfs] by blast+
  have t: "rc = int_of_size (of_nat (length xs))" "t = upd_vfile fp (\<lambda>f. f\<lparr>vf_pos := e\<rparr>) t2"
  proof -
    have "(rc, t) = (int_of_size (of_nat (length xs)), let s2 = upd_vfile fp (\<lambda>f. f\<lparr>vf_pos := vf_pos f + of_nat (length xs)\<rparr>)
          (poke (vi_data (vinodes t1 ip) + pos) xs t1)
        in if e > vi_size (vinodes s2 ip) then upd_vinode ip (\<lambda>i. i\<lparr>vi_size := e\<rparr>) s2 else s2)"
      using run ne fp(1,2,4) gr g unfolding vfs_write_def Let_def fp(3,5) ip_def [symmetric] e_def [symmetric] by simp
    moreover have "t2 = (if e > vi_size i then upd_vinode ip (\<lambda>i. i\<lparr>vi_size := e\<rparr>) (poke (vi_data i + pos) xs t1)
        else poke (vi_data i + pos) xs t1)"
      by (simp add: t2_def poke_hput [symmetric] sz_def upd_size_same p i_def)
    ultimately show "rc = int_of_size (of_nat (length xs))" "t = upd_vfile fp (\<lambda>f. f\<lparr>vf_pos := e\<rparr>) t2"
      using G(7) fp(5) by (auto simp: i_def [symmetric] Let_def upd_vfile_def upd_vinode_def e_def p)
  qed
  have rw: "rewrote ip s t"
    using rewrote_vfile [OF rewrote_trans [OF G(1), of t2]] S by (simp add: t(2) i_def)
  have nt: "node_inode n t = i\<lparr>vi_size := sz\<rparr>" using rewrote_node [of s n t] rw S by (simp add: ip_def [symmetric] t(2))
  have us: "unat sz = max (length (content n s)) (unat pos + length xs)"
    using G(3) ue by (simp add: sz_def i_def ni word_less_nat_alt max_def)
  have by_t: "hbyte t (vi_data i) j = (if unat pos \<le> j \<and> j < unat pos + length xs then xs ! (j - unat pos) else hbyte t1 (vi_data i) j)"
    if "j < unat (vi_capacity i)" for j using S that by (simp add: t(2))
  have old: "hbyte t1 (vi_data i) j = content n s ! j" if "j < unat (vi_size (node_inode n s))" for j
  proof -
    have "inode_bytes i t1 ! j = inode_bytes (vinodes s ip) s ! j" using G(4) by (simp add: i_def)
    then show ?thesis using that G(3) by (simp add: inode_bytes_def content_def ni i_def)
  qed
  have sc: "unat (vi_size (node_inode n s)) \<le> unat (vi_capacity i)" using us cap(2) by simp
  show ?thesis
    using t rw S G(7) us nt by_t old sc cap(1)
    by (auto simp: ip_def content_nth e_def fp(5))
qed

lemma vfs_read_ok:
  assumes f: "file_at n s" and pl: "plain (node_inode n s)"
    and fp: "fp \<noteq> 0" "buffer \<noteq> 0" "vf_node (vfiles s fp) = n" "vf_pos (vfiles s fp) = pos"
  shows "\<exists>t. vfs_read env fp buffer k s = Some (int_of_size (of_nat (length (take (unat k) (drop (unat pos) (content n s))))),
      take (unat k) (drop (unat pos) (content n s)), t) \<and>
    same_vfs (s\<lparr>vfiles := (vfiles s)(fp := (vfiles s fp)\<lparr>vf_pos := pos +
      of_nat (length (take (unat k) (drop (unat pos) (content n s))))\<rparr>)\<rparr>) t"
proof -
  define i where "i = node_inode n s"
  have ne: "n \<noteq> 0" "vn_inode (vnodes s n) \<noteq> 0" "vi_flags i = 0"
    using f pl by (simp_all add: file_at_def plain_def i_def)
  have len: "length (content n s) = unat (vi_size i)" by (simp add: i_def)
  define out where "out = take (unat k) (drop (unat pos) (content n s))"
  have sv: "same_vfs (s\<lparr>vfiles := fs\<rparr>) (s\<lparr>vfiles := fs\<rparr>)" for fs by simp
  show ?thesis
  proof (cases "pos \<ge> vi_size i")
    case True
    then have "out = []" using len by (simp add: out_def word_le_nat_alt)
    then have r: "vfs_read env fp buffer k s = Some (int_of_size (of_nat (length out)), out, s)"
      using True ne fp by (simp add: vfs_read_def Let_def i_def [symmetric] int_of_size_def)
    have "s = s\<lparr>vfiles := (vfiles s)(fp := (vfiles s fp)\<lparr>vf_pos := pos + of_nat (length out)\<rparr>)\<rparr>"
      unfolding \<open>out = []\<close> fp(4) [symmetric] by simp
    then show ?thesis unfolding out_def [symmetric] using r by (intro exI [of _ s]) (auto simp: same_vfs_def)
  next
    case False
    define to_read where "to_read = (if k < vi_size i - pos then k else vi_size i - pos)"
    have d: "unat (vi_size i - pos) = unat (vi_size i) - unat pos" using False by (simp add: unat_sub word_le_nat_alt)
    then have u: "unat to_read = min (unat k) (unat (vi_size i) - unat pos)"
      by (simp add: to_read_def word_less_nat_alt min_def)
    have "peek (vi_data i + pos) to_read s = out"
    proof (rule nth_equalityI)
      show "length (peek (vi_data i + pos) to_read s) = length out" using u len by (simp add: peek_def out_def min.commute)
      fix j assume "j < length (peek (vi_data i + pos) to_read s)"
      then have j: "j < unat to_read" by (simp add: peek_def)
      then have l: "unat pos + j < unat (vi_size i)" "j < unat k" using u by auto
      have "peek (vi_data i + pos) to_read s ! j = hbyte s (vi_data i) (unat pos + j)"
        unfolding peek_hbyte using j by simp
      moreover have "out ! j = hbyte s (vi_data i) (unat pos + j)"
        using l len content_nth [of "unat pos + j" n s] by (simp add: out_def i_def)
      ultimately show "peek (vi_data i + pos) to_read s ! j = out ! j" by simp
    qed
    moreover have "to_read = of_nat (length out)"
    proof -
      have "length out = unat to_read" using u len by (simp add: out_def min.commute)
      then show ?thesis by simp
    qed
    ultimately have "vfs_read env fp buffer k s = Some (int_of_size (of_nat (length out)), out,
        upd_vfile fp (\<lambda>f. f\<lparr>vf_pos := vf_pos f + of_nat (length out)\<rparr>) s)"
      using False ne fp(1,2) unfolding vfs_read_def Let_def fp(3,4) i_def [symmetric] to_read_def [symmetric] by simp
    then show ?thesis unfolding out_def [symmetric] using fp(4) by (simp add: upd_vfile_def)
  qed
qed

lemma vfs_resize_ok:
  assumes h: "heap_inv s" and f: "file_at n s" and pl: "plain (node_inode n s)"
    and cb: "unat (vi_capacity (node_inode n s)) \<le> 2 ^ 42" and fn: "vf_node file = n"
    and b: "unat z \<le> 2 ^ 41" and run: "resize_file env file z s = Some (rc, file', t)"
  shows "rc = RDNX_OK \<and> file' = clip_pos z file \<and> rewrote (vn_inode (vnodes s n)) s t \<and> vfiles t = vfiles s \<and>
    content n t = take (unat z) (content n s) @ replicate (unat z - length (content n s)) 0"
proof -
  define ip where "ip = vn_inode (vnodes s n)"
  have ni: "node_inode n s = vinodes s ip" by (simp add: node_inode_def ip_def)
  have ne: "n \<noteq> 0" "ip \<noteq> 0" "vi_flags (vinodes s ip) = 0" "vi_fs_tag (vinodes s ip) \<noteq> VFS_FS_TAG_EXT2"
    "vn_type (vnodes s n) = VFS_NODE_FILE"
    using f pl by (simp_all add: file_at_def plain_def ip_def node_inode_def)
  define old where "old = vi_size (vinodes s ip)"
  have uf: "resize_file env file z s = (case (if z > vi_capacity (vinodes s ip) then vfs_grow_file n z s else Some (0, s)) of
      None \<Rightarrow> None | Some (g, s) \<Rightarrow> if g \<noteq> 0 then Some (RDNX_E_NOMEM, file, s)
      else Some (RDNX_OK, clip_pos z file, upd_vinode ip (\<lambda>i. i\<lparr>vi_size := z\<rparr>)
        (if z > old \<and> vi_data (vinodes s ip) \<noteq> 0 then zero_tail ip old z s else s)))"
    using ne unfolding resize_file_def Let_def fn ip_def [symmetric] old_def by simp
  have nc: "vfs_grow_file n z s = Some (0, s)" if "\<not> z > vi_capacity (vinodes s ip)"
    using that ne by (simp add: vfs_grow_file_def Let_def ip_def [symmetric] not_less)
  obtain g t1 where gr: "vfs_grow_file n z s = Some (g, t1)"
    using run uf nc by (cases "z > vi_capacity (vinodes s ip)") (auto split: option.splits)
  have g: "g = 0" and gw: "grown ip z s t1" using vfs_grow_file_ok [OF h f b cb gr] by (simp_all add: ip_def)
  note G = grownD [OF gw]
  define i where "i = vinodes t1 ip"
  have h1: "heap_inv t1" "data_ok i t1" "unat (vi_capacity i) \<le> 2 ^ 42" using G(1) by (simp_all add: rewrote_def i_def)
  define xs :: "u8 list" where "xs = replicate (unat z - unat old) 0"
  define t2 where "t2 = upd_vinode ip (\<lambda>i. i\<lparr>vi_size := z\<rparr>) (hput (vi_data i) (unat old) xs t1)"
  have oc: "unat old \<le> unat (vi_capacity i)" using h1(2) G(3) by (simp add: data_ok_def word_le_nat_alt i_def old_def)
  have zc: "unat z \<le> unat (vi_capacity i)" using G(2) by (simp add: word_le_nat_alt i_def)
  have cap: "unat old + length xs \<le> unat (vi_capacity i)" using zc oc by (simp add: xs_def)
  note S = store_in [OF h1(1,2) i_def [symmetric] cap zc h1(3) t2_def]
  have dz: "vi_data i \<noteq> 0" if "z > old"
  proof -
    have "vi_capacity i \<noteq> 0" using that zc by (auto simp: word_less_nat_alt)
    then show ?thesis using h1(2) oh.cap_nonnull [OF h1(1)] by (auto simp: data_ok_def)
  qed
  have zt: "(if z > old \<and> vi_data i \<noteq> 0 then zero_tail ip old z t1 else t1) = hput (vi_data i) (unat old) xs t1"
  proof (cases "z > old")
    case True
    then have "unat (z - old) = unat z - unat old" by (simp add: unat_sub word_less_nat_alt word_le_nat_alt)
    then show ?thesis using True dz by (simp add: zero_tail_def i_def [symmetric] xs_def poke_hput [symmetric])
  next
    case False
    then have "xs = []" by (simp add: xs_def word_less_nat_alt)
    then show ?thesis using False by (simp add: hput_def)
  qed
  have t: "rc = RDNX_OK" "file' = clip_pos z file" "t = t2"
  proof -
    have "(if z > vi_capacity (vinodes s ip) then vfs_grow_file n z s else Some (0, s)) = Some (0, t1)"
      using g gr nc by auto
    from run [unfolded uf this] show "rc = RDNX_OK" "file' = clip_pos z file" "t = t2"
      by (simp_all add: t2_def zt i_def [symmetric])
  qed
  have rw: "rewrote ip s t" using rewrote_trans [OF G(1), of t2] S by (simp add: t(3) i_def)
  have nt: "node_inode n t = i\<lparr>vi_size := z\<rparr>" using rewrote_node [of s n t] rw S by (simp add: ip_def [symmetric] t(3))
  have "content n t = take (unat z) (content n s) @ replicate (unat z - length (content n s)) 0"
  proof (rule nth_equalityI)
    fix j assume "j < length (content n t)"
    then have j: "j < unat z" by (simp add: nt)
    have 1: "content n t ! j = hbyte t2 (vi_data i) j" using j content_nth [of j n t] nt by (simp add: t(3))
    have ob: "hbyte t1 (vi_data i) j = content n s ! j" if "j < unat old"
    proof -
      have "inode_bytes i t1 ! j = inode_bytes (vinodes s ip) s ! j" using G(4) by (simp add: i_def)
      then show ?thesis using that G(3) by (simp add: inode_bytes_def content_def ni i_def old_def)
    qed
    have "hbyte t2 (vi_data i) j = (if j < unat old then content n s ! j else 0)"
      using S j zc ob by (simp add: xs_def)
    then show "content n t ! j = (take (unat z) (content n s) @ replicate (unat z - length (content n s)) 0) ! j"
      using 1 j by (auto simp: nth_append old_def ni)
  qed (auto simp: nt)
  then show ?thesis using t rw S G(7) by (simp add: ip_def)
qed

end
