(* ===== verification/VfsProps.thy ===== *)
theory VfsProps
  imports VfsFile SchedProps
begin

text \<open>
  What the file system promises about the contents of files, and where it does not keep what
  its callers expect.
\<close>

section \<open>An example\<close>

text \<open>Node 16 is a file with inode 32; the structure at 48 is an open file on it.\<close>

definition demo_inode :: "u64 \<Rightarrow> u64 \<Rightarrow> u64 \<Rightarrow> vfs_inode" where
  "demo_inode sz c d = \<lparr>vi_type = VFS_NODE_FILE, vi_flags = 0, vi_fs_tag = 0, vi_fs_aux = 0, vi_fs_ino = 0,
     vi_size = sz, vi_capacity = c, vi_data = d, vi_mmap_object = 0, vi_node_gen = 0\<rparr>"

definition demo_node :: "cstring \<Rightarrow> vfs_node_type \<Rightarrow> u64 \<Rightarrow> u64 \<Rightarrow> u64 \<Rightarrow> u64 \<Rightarrow> vfs_node" where
  "demo_node nm ty par sib chi ip = \<lparr>vn_name = nm, vn_type = ty, vn_parent = par, vn_sibling = sib, vn_children = chi,
     vn_inode = ip, vn_ref_count = 1, vn_unlinked = False\<rparr>"

definition vfs_demo :: "(u64 \<Rightarrow> vfs_node) \<Rightarrow> (u64 \<Rightarrow> vfs_inode) \<Rightarrow> u64 \<Rightarrow> vfs_state" where
  "vfs_demo ns is r = reap_state.extend (sched_demo (\<lambda>_. demo_thread THREAD_STATE_NEW False) 0 [] False)
     \<lparr>vnodes = ns, vinodes = is, vmnts = (\<lambda>_. \<lparr>mt_fs_name = [], mt_root = r, mt_mountpoint = 0, mt_next = 0\<rparr>),
      vfiles = (\<lambda>_. \<lparr>vf_node = 16, vf_pos = 0, vf_writable = True\<rparr>), vfs_mounts = 0, vfs_root_mount = 0, vfs_root = r,
      vfs_ready = True, vfs_cache_gen = 1, vfs_cache_rr = 0,
      vfs_cache = replicate 64 \<lparr>ce_path = [], ce_node = 0, ce_gen = 0, ce_node_gen = 0\<rparr>,
      vfs_initrd_data = 0, vfs_initrd_size = 0, vfs_fs_drivers = [Ramfs], g_devfs_root = 0, g_pending_blocks = []\<rparr>"

lemma vfs_demo_fields [simp]:
  "vnodes (vfs_demo ns is r) = ns" "vinodes (vfs_demo ns is r) = is"
  "vfiles (vfs_demo ns is r) f = \<lparr>vf_node = 16, vf_pos = 0, vf_writable = True\<rparr>" "vfs_root (vfs_demo ns is r) = r"
  "vfs_mounts (vfs_demo ns is r) = 0" "vfs_ready (vfs_demo ns is r)" "vfs_cache_gen (vfs_demo ns is r) = 1"
  "vfs_cache_rr (vfs_demo ns is r) = 0"
  "vfs_cache (vfs_demo ns is r) = replicate 64 \<lparr>ce_path = [], ce_node = 0, ce_gen = 0, ce_node_gen = 0\<rparr>"
  by (simp_all add: vfs_demo_def reap_state.extend_def)

definition demo_env :: "vfs_state vfs_env" where
  "demo_env = \<lparr>tty_console_read = (\<lambda>_ _ s. (0, [], s)), tty_console_write = (\<lambda>_ s. (0, s)),
     fabric_blockdev_find = (\<lambda>_ _. None), fabric_blockdev_read = (\<lambda>_ _ _ s. (0, [], s)),
     fabric_blockdev_write = (\<lambda>_ _ _ _ s. (0, s)), ext2_resize_file = (\<lambda>_ _ s. Some (0, s)),
     ext2_writeback_file = (\<lambda>_ _ _ _ s. Some (0, s)), ext2_mount = (\<lambda>_ s. Some (- 1, 0, s))\<rparr>"

lemma vfs_demo_heap:
  "heap_ok (vfs_demo ns is r) bs = heap_ok heap_demo bs" "has_pages k (vfs_demo ns is r) = has_pages k heap_demo"
proof -
  have e: "vfs_demo ns is r = heap_state.extend heap_demo (heap_state.more (vfs_demo ns is r))"
    by (simp add: vfs_demo_def sched_demo_def reap_state.extend_def heap_state.extend_def)
  show "heap_ok (vfs_demo ns is r) bs = heap_ok heap_demo bs" by (subst e) (rule heap_ok_extend(1))
  show "has_pages k (vfs_demo ns is r) = has_pages k heap_demo" by (subst e) (rule heap_ok_extend(3))
qed

lemma vfs_demo_ok:
  "heap_inv (vfs_demo ns is r)" "\<exists>p t. kmalloc 64 (vfs_demo ns is r) = Some (p, t)"
proof -
  obtain m where ok: "heap_ok (vfs_demo ns is r) [(m, 4064, True)]" using heap_demo_ok vfs_demo_heap(1) by blast
  then show "heap_inv (vfs_demo ns is r)" by (auto simp: heap_inv_def)
  have b: "(64::u64) \<noteq> 0" "unat (64::u64) \<le> 2 ^ 42" by simp_all
  have "unat (heap_align 64) = 64" by (subst heap_align_16) simp_all
  then have "has_fit 64 [(m, 4064, True)]" by (simp add: has_fit_def word_le_nat_alt)
  then have "\<not> kmalloc 64 (vfs_demo ns is r) = None" using kmalloc_None [OF ok b] by blast
  then show "\<exists>p t. kmalloc 64 (vfs_demo ns is r) = Some (p, t)" by auto
qed

abbreviation one_file :: "u64 \<Rightarrow> vfs_node" where
  "one_file \<equiv> (\<lambda>_. demo_node [97] VFS_NODE_FILE 0 0 0 32)"

abbreviation empty_file :: vfs_state where
  "empty_file \<equiv> vfs_demo one_file (\<lambda>_. demo_inode 0 0 0) 8"

lemma empty_file_at: "file_at 16 empty_file" "plain (node_inode 16 empty_file)"
  "unat (vi_capacity (node_inode 16 empty_file)) \<le> 2 ^ 42"
  by (simp_all add: file_at_def plain_def node_inode_def demo_node_def demo_inode_def data_ok_def)

section \<open>Writing and reading\<close>

lemma content_other:
  assumes r: "rewrote ip s t" and m: "file_at m s" "vn_inode (vnodes s m) \<noteq> ip"
    "vi_data (node_inode m s) \<noteq> vi_data (vinodes s ip) \<or> vi_data (node_inode m s) = 0" and h: "heap_inv s"
  shows "content m t = content m s"
proof -
  define i where "i = node_inode m s"
  have sv: "same_vfs (s\<lparr>vinodes := (vinodes s)(ip := vinodes t ip), vfiles := vfiles t\<rparr>) t"
    and bt: "\<And>r k j. hcap s r = Some k \<Longrightarrow> r \<noteq> vi_data (vinodes s ip) \<Longrightarrow> j < k \<Longrightarrow> hbyte t r j = hbyte s r j"
    using r unfolding rewrote_def by blast+
  have "vnodes t = vnodes s" "vinodes t = (vinodes s)(ip := vinodes t ip)" using same_vfsD(1,2) [OF sv] by simp_all
  then have it: "node_inode m t = i" unfolding node_inode_def i_def using m(2) by (metis fun_upd_other)
  have dk: "data_ok i s" using m(1) by (simp add: file_at_def i_def)
  show ?thesis
  proof (cases "vi_capacity i = 0")
    case True
    then have "vi_size i = 0" using dk by (simp add: data_ok_def)
    then show ?thesis using it by (simp add: content_def inode_bytes_def i_def)
  next
    case False
    then obtain c where c: "hcap s (vi_data i) = Some c" "unat (vi_capacity i) \<le> c" using dk by (auto simp: data_ok_def)
    have "vi_data i \<noteq> 0" using c(1) oh.cap_nonnull [OF h] by auto
    then have d: "vi_data i \<noteq> vi_data (vinodes s ip)" using m(3) by (simp add: i_def)
    have "unat (vi_size i) \<le> c" using dk c(2) by (simp add: data_ok_def word_le_nat_alt)
    then show ?thesis using bt [OF c(1) d] it by (simp add: content_def inode_bytes_def i_def)
  qed
qed

lemma rewrote_file:
  assumes "rewrote (vn_inode (vnodes s n)) s t" "file_at n s" "plain (node_inode n s)"
  shows "heap_inv t" "file_at n t" "plain (node_inode n t)"
proof -
  define ip where "ip = vn_inode (vnodes s n)"
  note r = assms(1) [folded ip_def]
  have n: "vnodes t = vnodes s" "node_inode n t = vinodes t ip" using rewrote_node [OF assms(1)] by (simp_all add: ip_def)
  show "heap_inv t" using r unfolding rewrote_def by blast
  have "data_ok (vinodes t ip) t" using r unfolding rewrote_def by blast
  then show "file_at n t" using assms(2) n by (simp add: file_at_def)
  obtain sz c d where "vinodes t ip = (vinodes s ip)\<lparr>vi_size := sz, vi_capacity := c, vi_data := d\<rparr>"
    using r unfolding rewrote_def by blast
  then show "plain (node_inode n t)" using assms(3) n(2) by (simp add: plain_def node_inode_def ip_def)
qed

lemma sint_nonneg:
  fixes w :: u64
  assumes "unat w < 2 ^ 63"
  shows "\<not> sint w < 0"
proof -
  have "\<not> bit (unat w) 63" using assms by (simp add: bit_iff_odd)
  then have "\<not> bit w 63" by (simp add: bit_unsigned_iff)
  then show ?thesis using bit_last_iff [of w] by simp
qed

text \<open>
  C13: writing to an ordinary file. The call reports the number of bytes written (as a 32-bit
  \<^verbatim>\<open>int\<close>), the contents afterwards have these bytes at the position of the file and otherwise
  the old bytes, and grow exactly as far as needed. Going back and reading returns what was
  written. The contents of every other file stay.
\<close>

theorem vfs_write_read:
  assumes h: "heap_inv s" and f: "file_at n s" "plain (node_inode n s)" "unat (vi_capacity (node_inode n s)) \<le> 2 ^ 42"
    and fp: "fp \<noteq> 0" "buffer \<noteq> 0" "vf_node (vfiles s fp) = n" "vf_writable (vfiles s fp)" "vf_pos (vfiles s fp) = pos"
    and b: "unat pos + length xs \<le> 2 ^ 41" and run: "vfs_write env fp buffer xs s = Some (rc, t)"
  shows "rc = int_of_size (of_nat (length xs)) \<and> heap_inv t \<and> file_at n t \<and>
    length (content n t) = max (length (content n s)) (unat pos + length xs) \<and>
    (\<forall>i < length (content n s). \<not> (unat pos \<le> i \<and> i < unat pos + length xs) \<longrightarrow> content n t ! i = content n s ! i) \<and>
    (\<forall>j < length xs. content n t ! (unat pos + j) = xs ! j) \<and>
    fst (vfs_seek fp pos 0 t) = RDNX_OK \<and>
    (\<exists>u. vfs_read env fp buffer (of_nat (length xs)) (snd (vfs_seek fp pos 0 t)) = Some (rc, xs, u)) \<and>
    (\<forall>m. file_at m s \<longrightarrow> vn_inode (vnodes s m) \<noteq> vn_inode (vnodes s n) \<longrightarrow>
       vi_data (node_inode m s) \<noteq> vi_data (node_inode n s) \<or> vi_data (node_inode m s) = 0 \<longrightarrow> content m t = content m s)"
proof -
  note W = vfs_write_ok [OF h f fp b run]
  have rw: "rewrote (vn_inode (vnodes s n)) s t" using W by blast
  note R = rewrote_file [OF rw f(1,2)]
  have ft: "vf_node (vfiles t fp) = n" using W fp(3) by simp
  have nz: "n \<noteq> 0" "vn_inode (vnodes t n) \<noteq> 0" "vi_flags (node_inode n t) = 0"
    using R(2,3) by (simp_all add: file_at_def plain_def)
  have "unat pos < 2 ^ 63" using b by simp
  then have "\<not> sint pos < 0" by (rule sint_nonneg)
  then have sk: "vfs_seek fp pos 0 t = (RDNX_OK, upd_vfile fp (\<lambda>f. f\<lparr>vf_pos := pos\<rparr>) t)"
    using fp(1) ft nz by (simp add: vfs_seek_def Let_def)
  define u where "u = upd_vfile fp (\<lambda>f. f\<lparr>vf_pos := pos\<rparr>) t"
  have u: "file_at n u" "plain (node_inode n u)" "content n u = content n t" "vf_node (vfiles u fp) = n" "vf_pos (vfiles u fp) = pos"
    using R(2,3) ft by (simp_all add: u_def file_at_def data_ok_def node_inode_def content_def inode_bytes_def)
  have l: "unat (of_nat (length xs) :: u64) = length xs" using b by (simp add: unat_of_nat)
  have "take (length xs) (drop (unat pos) (content n t)) = xs"
    using W by (intro nth_equalityI) auto
  with vfs_read_ok [OF u(1,2) fp(1,2) u(4,5), of env "of_nat (length xs)"]
  have "\<exists>v. vfs_read env fp buffer (of_nat (length xs)) u = Some (int_of_size (of_nat (length xs)), xs, v)"
    by (auto simp: u(3) l)
  then show ?thesis using W R sk content_other [OF rw _ _ _ h] by (simp add: u_def node_inode_def)
qed

lemma empty_file_write: "\<exists>rc t. vfs_write demo_env 48 1 [7, 8, 9] empty_file = Some (rc, t)"
proof -
  obtain p u where k: "kmalloc 64 empty_file = Some (p, u)" using vfs_demo_ok(2) by blast
  have pz: "p \<noteq> 0" using oh.alloc_law [OF vfs_demo_ok(1) _ _ k] by simp
  have "grow_cap 64 3 = Some 64" by (simp add: grow_cap_step(2))
  then show ?thesis using k pz
    by (simp add: vfs_write_def Let_def demo_node_def demo_inode_def vfs_grow_file_def)
qed

theorem vfs_write_read_witness:
  "\<exists>t u. vfs_write demo_env 48 1 [7, 8, 9] empty_file = Some (3, t) \<and> content 16 t = [7, 8, 9] \<and>
     vfs_read demo_env 48 1 3 (snd (vfs_seek 48 0 0 t)) = Some (3, [7, 8, 9], u)"
proof -
  obtain rc t where r: "vfs_write demo_env 48 1 [7, 8, 9] empty_file = Some (rc, t)" using empty_file_write by blast
  have n3: "int_of_size 3 = 3" by (simp add: int_of_size_def)
  have e: "content 16 empty_file = []" by (simp add: content_def inode_bytes_def node_inode_def demo_inode_def)
  have "(48::u64) \<noteq> 0" "(1::u64) \<noteq> 0" "vf_node (vfiles empty_file 48) = 16" "vf_writable (vfiles empty_file 48)"
    "vf_pos (vfiles empty_file 48) = 0" "unat (0::u64) + length [7, 8, 9 :: u8] \<le> 2 ^ 41" by simp_all
  note T = vfs_write_read [OF vfs_demo_ok(1) empty_file_at this r]
  have l: "length (content 16 t) = 3" using T e by simp
  have c: "\<forall>j < 3. content 16 t ! j = [7, 8, 9] ! j" using T by simp
  have "content 16 t = [7, 8, 9]" by (rule nth_equalityI) (use l c in auto)
  then show ?thesis using T r n3 by simp blast
qed

text \<open>
  C16: resizing an ordinary file. Whenever \<^verbatim>\<open>vfs_ftruncate\<close> returns it reports success, the contents are cut to
  the new size or filled up with zero bytes, and the position of the file is not beyond the end.
  The contents of every other file stay.
\<close>

theorem vfs_ftruncate_correct:
  assumes h: "heap_inv s" and f: "file_at n s" "plain (node_inode n s)" "unat (vi_capacity (node_inode n s)) \<le> 2 ^ 42"
    and fp: "fp \<noteq> 0" "vf_node (vfiles s fp) = n" and z: "unat z \<le> 2 ^ 41"
    and run: "vfs_ftruncate env fp z s = Some (rc, t)"
  shows "rc = RDNX_OK \<and> heap_inv t \<and> file_at n t \<and>
    content n t = take (unat z) (content n s) @ replicate (unat z - length (content n s)) 0 \<and>
    vf_pos (vfiles t fp) = min (vf_pos (vfiles s fp)) z \<and>
    (\<forall>m. file_at m s \<longrightarrow> vn_inode (vnodes s m) \<noteq> vn_inode (vnodes s n) \<longrightarrow>
       vi_data (node_inode m s) \<noteq> vi_data (node_inode n s) \<or> vi_data (node_inode m s) = 0 \<longrightarrow> content m t = content m s)"
proof -
  obtain file' u where r: "resize_file env (vfiles s fp) z s = Some (rc, file', u)" and t: "t = upd_vfile fp (\<lambda>_. file') u"
    using run fp(1) by (auto simp: vfs_ftruncate_def vfs_resize_file_def split: option.splits)
  note Z = vfs_resize_ok [OF h f fp(2) z r]
  have rw: "rewrote (vn_inode (vnodes s n)) s t" using rewrote_vfile Z t by blast
  have c: "content m t = content m u" for m by (simp add: t content_def inode_bytes_def node_inode_def)
  have p: "vf_pos (vfiles t fp) = min (vf_pos (vfiles s fp)) z" using Z by (auto simp: t clip_pos_def min_def)
  have o: "content m t = content m s" if "file_at m s" "vn_inode (vnodes s m) \<noteq> vn_inode (vnodes s n)"
    "vi_data (node_inode m s) \<noteq> vi_data (node_inode n s) \<or> vi_data (node_inode m s) = 0" for m
    using content_other [OF rw that(1,2) _ h] that(3) by (simp add: node_inode_def)
  show ?thesis using Z rewrote_file(1,2) [OF rw f(1,2)] p o by (simp add: c)
qed

theorem vfs_ftruncate_correct_witness:
  "\<exists>t. vfs_ftruncate demo_env 48 5 empty_file = Some (RDNX_OK, t) \<and> content 16 t = [0, 0, 0, 0, 0]"
proof -
  obtain p u where k: "kmalloc 64 empty_file = Some (p, u)" using vfs_demo_ok(2) by blast
  have pz: "p \<noteq> 0" using oh.alloc_law [OF vfs_demo_ok(1) _ _ k] by simp
  have "grow_cap 64 5 = Some 64" by (simp add: grow_cap_step(2))
  then obtain rc t where r: "vfs_ftruncate demo_env 48 5 empty_file = Some (rc, t)" using k pz
    by (simp add: vfs_ftruncate_def vfs_resize_file_def resize_file_def Let_def demo_node_def demo_inode_def vfs_grow_file_def)
  have e: "content 16 empty_file = []" by (simp add: content_def inode_bytes_def node_inode_def demo_inode_def)
  have "(48::u64) \<noteq> 0" "vf_node (vfiles empty_file 48) = 16" "unat (5::u64) \<le> 2 ^ 41" by simp_all
  note T = vfs_ftruncate_correct [OF vfs_demo_ok(1) empty_file_at this r]
  have "replicate 5 0 = [0, 0, 0, 0, 0 :: u8]" by (simp add: numeral_eq_Suc)
  then show ?thesis using T r e by simp
qed

text \<open>
  C38: a size above \<open>2 ^ 63\<close> hangs the kernel. The loop of \<^verbatim>\<open>vfs_grow_file\<close> doubles the capacity until it is large
  enough; for sizes up to \<open>2 ^ 63\<close> it ends with the first power of two that is, for larger ones the
  capacity wraps to 0 and the loop runs for ever, so \<^verbatim>\<open>vfs_ftruncate\<close> on an ordinary file does not return.
\<close>

theorem vfs_ftruncate_hangs:
  assumes f: "file_at n s" "plain (node_inode n s)" and fp: "fp \<noteq> 0" "vf_node (vfiles s fp) = n"
  shows "(unat z \<le> 2 ^ 63 \<longrightarrow> (\<forall>k \<le> 63. \<exists>c. grow_cap (2 ^ k) z = Some c \<and> z \<le> c)) \<and>
    (2 ^ 63 < unat z \<longrightarrow> vfs_ftruncate env fp z s = None)"
proof (intro conjI impI allI)
  fix k :: nat assume "unat z \<le> 2 ^ 63" "k \<le> 63"
  from grow_cap_power [OF this] obtain j where j: "j \<le> 63" "grow_cap (2 ^ k) z = Some (2 ^ j)" "unat z \<le> 2 ^ j" by blast
  then have "z \<le> 2 ^ j" using unat_pow2 [of j] by (simp add: word_le_nat_alt)
  then show "\<exists>c. grow_cap (2 ^ k) z = Some c \<and> z \<le> c" using j by blast
next
  assume z: "2 ^ 63 < unat z"
  define i where "i = vinodes s (vn_inode (vnodes s n))"
  have i: "data_ok i s" "vi_flags i = 0" "vi_fs_tag i \<noteq> VFS_FS_TAG_EXT2" "n \<noteq> 0" "vn_inode (vnodes s n) \<noteq> 0"
    "vn_type (vnodes s n) = VFS_NODE_FILE"
    using f by (simp_all add: file_at_def plain_def node_inode_def i_def)
  have c: "\<exists>k \<le> 63. (if vi_capacity i \<noteq> 0 then vi_capacity i else 64) = 2 ^ k"
  proof (cases "vi_capacity i = 0")
    case True
    then show ?thesis by (intro exI [of _ 6]) simp
  qed (use i(1) in \<open>auto simp: data_ok_def\<close>)
  have h: "grow_cap (if vi_capacity i \<noteq> 0 then vi_capacity i else 64) z = None"
    by (rule grow_cap_hangs [OF z]) (use c in blast)
  have "unat (vi_capacity i) \<le> 2 ^ 63"
    using c unat_pow2 power_increasing [of _ 63 "2::nat"] by (cases "vi_capacity i = 0") auto
  then have l: "vi_capacity i < z" using z by (simp add: word_less_nat_alt)
  have "vfs_grow_file n z s = None"
    using i l h unfolding vfs_grow_file_def Let_def i_def [symmetric] by (simp add: not_le)
  then show "vfs_ftruncate env fp z s = None"
    using i l fp unfolding vfs_ftruncate_def vfs_resize_file_def resize_file_def Let_def by (simp add: i_def [symmetric])
qed

theorem vfs_ftruncate_hangs_witness: "vfs_ftruncate demo_env 48 0xF000000000000000 empty_file = None"
  using vfs_ftruncate_hangs [OF empty_file_at(1,2), of 48 "0xF000000000000000" demo_env] by simp

text \<open>
  C39: deleted data come back. A file is truncated, the position moved beyond the new end and something
  written there. The bytes in between should read as zero; they are the old contents of the file,
  because neither truncating nor writing clears them.
\<close>

theorem vfs_truncated_bytes_return:
  assumes h: "heap_inv s" and f: "file_at n s" "plain (node_inode n s)" "unat (vi_capacity (node_inode n s)) \<le> 2 ^ 42"
    and fp: "fp \<noteq> 0" "buffer \<noteq> 0" "vf_node (vfiles s fp) = n" "vf_writable (vfiles s fp)"
    and z: "unat z \<le> length (content n s)" "z \<le> e" and e: "unat e + length xs \<le> unat (vi_capacity (node_inode n s))"
    and run: "vfs_ftruncate env fp z s = Some (rc1, t1)" "vfs_seek fp e 0 t1 = (rc2, t2)"
      "vfs_write env fp buffer xs t2 = Some (rc3, t3)"
  shows "length (content n t1) = unat z \<and> length (content n t3) = max (unat z) (unat e + length xs) \<and>
    (\<forall>i. unat z \<le> i \<and> i < unat e \<and> i < length (content n s) \<longrightarrow> content n t3 ! i = content n s ! i)"
proof -
  define ip where "ip = vn_inode (vnodes s n)"
  define i where "i = vinodes s ip"
  have ni: "node_inode n s = i" by (simp add: node_inode_def i_def ip_def)
  have i: "data_ok i s" "vi_flags i = 0" "vi_fs_tag i \<noteq> VFS_FS_TAG_EXT2" "n \<noteq> 0" "ip \<noteq> 0"
    "vn_type (vnodes s n) = VFS_NODE_FILE"
    using f by (simp_all add: file_at_def plain_def ni ip_def)
  have zs: "z \<le> vi_size i" using z(1) by (simp add: ni word_le_nat_alt)
  then have zc: "\<not> z > vi_capacity i" "\<not> z > vi_size i" using i(1) by (auto simp: data_ok_def not_less)
  define f1 where "f1 = clip_pos z (vfiles s fp)"
  have t1: "t1 = upd_vfile fp (\<lambda>_. f1) (upd_vinode ip (\<lambda>i. i\<lparr>vi_size := z\<rparr>) s)"
    using run(1) fp(1) i zc unfolding vfs_ftruncate_def vfs_resize_file_def resize_file_def Let_def fp(3) ip_def [symmetric] i_def [symmetric]
    by (simp add: f1_def)
  have f1: "vf_node f1 = n" "vf_writable f1" using fp(3,4) by (simp_all add: f1_def clip_pos_def)
  have "unat e < 2 ^ 63" using e f(3) by simp
  then have se: "\<not> sint e < 0" by (rule sint_nonneg)
  define i1 where "i1 = i\<lparr>vi_size := z\<rparr>"
  have t1i: "vinodes t1 ip = i1" "vnodes t1 = vnodes s" "vfiles t1 fp = f1" by (simp_all add: t1 i1_def i_def)
  have t2: "t2 = upd_vfile fp (\<lambda>_. f1\<lparr>vf_pos := e\<rparr>) t1"
    using run(2) fp(1) i f1 t1i se by (simp add: vfs_seek_def Let_def node_inode_def ip_def [symmetric] i1_def upd_vfile_def)
  have t2i: "vinodes t2 ip = i1" "vnodes t2 = vnodes s" "vfiles t2 fp = f1\<lparr>vf_pos := e\<rparr>" "heap_inv t2" "hcap t2 = hcap s" "hbyte t2 = hbyte s"
    using t1i h by (simp_all add: t2 t1)
  define x where "x = e + of_nat (length xs)"
  have "unat (of_nat (length xs) :: u64) = length xs" using e f(3) by (simp add: unat_of_nat)
  then have ux: "unat x = unat e + length xs" using e f(3) by (simp add: x_def unat_word_ariths)
  have xc: "x \<le> vi_capacity i1" using ux e by (simp add: word_le_nat_alt i1_def ni)
  have gr: "vfs_grow_file n x t2 = Some (0, t2)"
    using i xc t2i by (simp add: vfs_grow_file_def Let_def ip_def [symmetric])
  define u where "u = hput (vi_data i) (unat e) xs t2"
  define y where "y = (if x > z then x else z)"
  have vu: "vinodes u = vinodes t2" "vnodes u = vnodes t2" using same_vfsD(1,2) [of t2 u] by (simp_all add: u_def hput_def)
  have "Some (rc3, t3) = Some (int_of_size (of_nat (length xs)), let s2 = upd_vfile fp (\<lambda>f. f\<lparr>vf_pos := vf_pos f + of_nat (length xs)\<rparr>)
          (poke (vi_data (vinodes t2 ip) + e) xs t2)
        in if x > vi_size (vinodes s2 ip) then upd_vinode ip (\<lambda>i. i\<lparr>vi_size := x\<rparr>) s2 else s2)"
    using run(3) i fp(1,2) f1 gr t2i unfolding vfs_write_def Let_def t2i(3)
    by (simp add: ip_def [symmetric] x_def [symmetric] i1_def split: if_split_asm)
  then have t3: "vinodes t3 ip = i\<lparr>vi_size := y\<rparr>" "vnodes t3 = vnodes s" "hbyte t3 = hbyte u"
    using vu t2i by (simp_all add: poke_hput u_def [symmetric] Let_def i1_def y_def split: if_splits)
  have n3: "node_inode n t3 = i\<lparr>vi_size := y\<rparr>" using t3 by (simp add: node_inode_def ip_def)
  have uy: "unat y = max (unat z) (unat e + length xs)" using ux by (simp add: y_def word_less_nat_alt max_def)
  have "content n t3 ! j = content n s ! j" if j: "unat z \<le> j" "j < unat e" "j < length (content n s)" for j
  proof -
    have js: "j < unat (vi_size i)" using j(3) by (simp add: ni)
    then have cz: "vi_capacity i \<noteq> 0" using i(1) by (auto simp: data_ok_def)
    then obtain c where c: "hcap s (vi_data i) = Some c" "unat (vi_capacity i) \<le> c" using i(1) by (auto simp: data_ok_def)
    have "unat e + length xs \<le> c" using e c(2) by (simp add: ni)
    moreover have "j < c" using js i(1) c(2) by (auto simp: data_ok_def word_le_nat_alt)
    ultimately have "hbyte u (vi_data i) j = hbyte s (vi_data i) j"
      using oh.put_law [OF t2i(4), of "vi_data i" c "unat e" xs] c(1) t2i(5,6) j(2) by (simp add: u_def)
    moreover have "content n t3 ! j = hbyte u (vi_data i) j" using content_nth [of j n t3] j(2) uy by (simp add: n3 t3(3))
    moreover have "content n s ! j = hbyte s (vi_data i) j" using content_nth [of j n s] js by (simp add: ni)
    ultimately show ?thesis by simp
  qed
  moreover have "length (content n t1) = unat z" using t1i by (simp add: node_inode_def ip_def [symmetric] i1_def)
  moreover have "length (content n t3) = max (unat z) (unat e + length xs)" using uy by (simp add: n3)
  ultimately show ?thesis by blast
qed

text \<open>A file of ten bytes in a block of 64.\<close>

definition ten_bytes :: vfs_state where
  "ten_bytes = (case the (kmalloc 64 empty_file) of (p, s) \<Rightarrow> s\<lparr>vinodes := (\<lambda>_. demo_inode 10 64 p)\<rparr>)"

lemma ten_bytes_ok:
  "heap_inv ten_bytes" "file_at 16 ten_bytes" "plain (node_inode 16 ten_bytes)"
  "unat (vi_capacity (node_inode 16 ten_bytes)) = 64" "vfiles ten_bytes 48 = \<lparr>vf_node = 16, vf_pos = 0, vf_writable = True\<rparr>"
  "length (content 16 ten_bytes) = 10"
proof -
  obtain p u where k: "kmalloc 64 empty_file = Some (p, u)" using vfs_demo_ok(2) by blast
  obtain c where c: "heap_inv u" "hcap u p = Some c" "64 \<le> c" using oh.alloc_law [OF vfs_demo_ok(1) _ _ k] by auto
  have t: "ten_bytes = u\<lparr>vinodes := (\<lambda>_. demo_inode 10 64 p)\<rparr>" by (simp add: ten_bytes_def k)
  have sp: "same_pmm u ten_bytes" by (simp add: t same_pmm_def pmm_state.truncate_def)
  have "heap_ok ten_bytes bs = heap_ok u bs" for bs
    using same_pmmD [OF sp] by (simp add: heap_ok_def heap_rep_def t)
  then have hp: "heap_inv ten_bytes = heap_inv u" "hcap ten_bytes = hcap u"
    by (simp_all add: heap_inv_def hcap_def heap_live_def fun_eq_iff t)
  show "heap_inv ten_bytes" using hp c by simp
  note v = same_vfsD(1,4) [OF kmalloc_same_vfs [OF k]]
  have n: "vn_inode (vnodes ten_bytes 16) = 32" "vinodes ten_bytes 32 = demo_inode 10 64 p"
    "vn_type (vnodes ten_bytes 16) = VFS_NODE_FILE"
    by (simp_all add: t v demo_node_def)
  have "\<exists>k. 6 \<le> k \<and> k \<le> 63 \<and> (64::u64) = 2 ^ k" by (rule exI [of _ 6]) simp
  then show "file_at 16 ten_bytes"
    using c hp by (simp add: file_at_def n node_inode_def data_ok_def demo_inode_def)
  show "plain (node_inode 16 ten_bytes)" "unat (vi_capacity (node_inode 16 ten_bytes)) = 64" "length (content 16 ten_bytes) = 10"
    by (simp_all add: node_inode_def n plain_def demo_inode_def)
  show "vfiles ten_bytes 48 = \<lparr>vf_node = 16, vf_pos = 0, vf_writable = True\<rparr>" by (simp add: t v)
qed

theorem vfs_truncated_bytes_return_witness:
  "\<exists>t1 t3. vfs_ftruncate demo_env 48 2 ten_bytes = Some (0, t1) \<and>
     vfs_write demo_env 48 1 [9] (snd (vfs_seek 48 8 0 t1)) = Some (1, t3) \<and> length (content 16 t1) = 2 \<and>
     length (content 16 t3) = 9 \<and> content 16 t3 ! 5 = content 16 ten_bytes ! 5"
proof -
  note k = ten_bytes_ok
  have i: "16 \<noteq> (0::u64)" "vn_inode (vnodes ten_bytes 16) \<noteq> 0" "vn_type (vnodes ten_bytes 16) = VFS_NODE_FILE"
    "vi_flags (node_inode 16 ten_bytes) = 0" "vi_fs_tag (node_inode 16 ten_bytes) \<noteq> VFS_FS_TAG_EXT2"
    using k(2,3) by (simp_all add: file_at_def plain_def)
  have c64: "vi_capacity (node_inode 16 ten_bytes) = 64" "vi_size (node_inode 16 ten_bytes) = 10"
    using k(4,6) by (simp_all add: word_unat_eq_iff)
  define ip where "ip = vn_inode (vnodes ten_bytes 16)"
  have vi: "vi_capacity (vinodes ten_bytes ip) = 64" "vi_size (vinodes ten_bytes ip) = 10"
    "vi_flags (vinodes ten_bytes ip) = 0" "vi_fs_tag (vinodes ten_bytes ip) \<noteq> VFS_FS_TAG_EXT2"
    using c64 i by (simp_all add: node_inode_def ip_def)
  obtain t1 where t1: "vfs_ftruncate demo_env 48 2 ten_bytes = Some (0, t1)"
    "t1 = upd_vfile 48 (\<lambda>_. \<lparr>vf_node = 16, vf_pos = 0, vf_writable = True\<rparr>) (upd_vinode ip (\<lambda>i. i\<lparr>vi_size := 2\<rparr>) ten_bytes)"
    using i vi k(5) by (simp add: vfs_ftruncate_def vfs_resize_file_def resize_file_def Let_def ip_def [symmetric] clip_pos_def)
  have t1i: "vinodes t1 ip = (vinodes ten_bytes ip)\<lparr>vi_size := 2\<rparr>" "vnodes t1 = vnodes ten_bytes"
    "vfiles t1 48 = \<lparr>vf_node = 16, vf_pos = 0, vf_writable = True\<rparr>" by (simp_all add: t1(2))
  have "\<not> sint (8::u64) < 0" by simp
  then obtain t2 where t2: "vfs_seek 48 8 0 t1 = (0, t2)" "t2 = upd_vfile 48 (\<lambda>f. f\<lparr>vf_pos := 8\<rparr>) t1"
    using i vi t1i by (simp add: vfs_seek_def Let_def node_inode_def ip_def [symmetric])
  have t2i: "vinodes t2 ip = (vinodes ten_bytes ip)\<lparr>vi_size := 2\<rparr>" "vnodes t2 = vnodes ten_bytes"
    "vfiles t2 48 = \<lparr>vf_node = 16, vf_pos = 8, vf_writable = True\<rparr>" by (simp_all add: t2(2) t1i)
  have "int_of_size 1 = 1" by (simp add: int_of_size_def)
  then obtain t3 where t3: "vfs_write demo_env 48 1 [9] t2 = Some (1, t3)"
    using i vi t2i by (simp add: vfs_write_def Let_def ip_def [symmetric] vfs_grow_file_def)
  have "vf_node (vfiles ten_bytes 48) = 16" "vf_writable (vfiles ten_bytes 48)" "unat (2::u64) \<le> length (content 16 ten_bytes)"
    "(2::u64) \<le> 8" "unat (8::u64) + length [9::u8] \<le> unat (vi_capacity (node_inode 16 ten_bytes))" "(48::u64) \<noteq> 0" "(1::u64) \<noteq> 0"
    "unat (vi_capacity (node_inode 16 ten_bytes)) \<le> 2 ^ 42"
    using k(4-6) by simp_all
  note T = vfs_truncated_bytes_return [OF k(1-3) this(8,6,7,1-5) t1(1) t2(1) t3]
  have "content 16 t3 ! 5 = content 16 ten_bytes ! 5" using T k(6) by simp
  moreover have "length (content 16 t1) = 2" "length (content 16 t3) = 9" using T by simp_all
  ultimately show ?thesis using t1(1) t2(1) t3 by (intro exI [of _ t1] exI [of _ t3]) (simp del: length_content)
qed

end
