(* ===== verification/VfsTree.thy ===== *)
theory VfsTree
  imports VfsFile
begin

text \<open>
  The directory tree behind the pointers of the nodes, and the walk along a path. \<open>kids\<close> gives the
  children of each node in the order of the sibling chain. The lemmas say what adding and taking
  out a node does to the tree.
\<close>

section \<open>Chains\<close>

primrec linked :: "(u64 \<Rightarrow> u64) \<Rightarrow> u64 \<Rightarrow> u64 list \<Rightarrow> bool" where
  "linked f it [] \<longleftrightarrow> it = 0"
| "linked f it (x # xs) \<longleftrightarrow> it = x \<and> x \<noteq> 0 \<and> linked f (f x) xs"

lemma linked_unique: "linked f it xs \<Longrightarrow> linked f it ys \<Longrightarrow> xs = ys"
proof (induction xs arbitrary: it ys)
  case Nil
  then show ?case by (cases ys) auto
next
  case (Cons x xs)
  then show ?case by (cases ys) auto
qed

lemma linked_append: "linked f it (xs @ y # ys) \<Longrightarrow> linked f y (y # ys)"
  by (induction xs arbitrary: it) auto

lemma linked_nonnull: "linked f it xs \<Longrightarrow> 0 \<notin> set xs"
  by (induction xs arbitrary: it) auto

lemma linked_distinct: "linked f it xs \<Longrightarrow> distinct xs"
proof (induction xs arbitrary: it)
  case (Cons x xs)
  have "x \<notin> set xs"
  proof
    assume "x \<in> set xs"
    then obtain as bs where xs: "xs = as @ x # bs" by (auto simp: in_set_conv_decomp)
    have "linked f x (x # bs)" using Cons.prems xs linked_append [of f "f x" as x bs] by simp
    then have "x # bs = x # xs" using Cons.prems linked_unique by fastforce
    then show False using xs by simp
  qed
  then show ?case using Cons by auto
qed simp

lemma linked_cong: "(\<And>x. x \<in> set xs \<Longrightarrow> f x = g x) \<Longrightarrow> linked f it xs = linked g it xs"
  by (induction xs arbitrary: it) auto

lemma linked_take_out:
  assumes "linked f it (xs @ c # ys)" "c \<notin> set xs" "c \<notin> set ys" "distinct xs" "xs \<noteq> []"
  shows "linked (f(last xs := f c)) it (xs @ ys)"
  using assms
proof (induction xs arbitrary: it)
  case (Cons x xs)
  show ?case
  proof (cases "xs = []")
    case True
    have l: "linked f (f c) ys" "f x = c" using Cons.prems(1) True by auto
    have "x \<notin> set ys" using linked_distinct [OF Cons.prems(1)] by auto
    then have "linked (f(x := f c)) (f c) ys" using l(1) by (subst linked_cong [of _ _ f]) auto
    then show ?thesis using Cons.prems True by (auto simp: fun_upd_def)
  next
    case False
    then have "linked (f(last xs := f c)) (f x) (xs @ ys)" using Cons.prems by (intro Cons.IH) auto
    moreover have "x \<noteq> last xs" using Cons.prems(4) False last_in_set [of xs] by auto
    ultimately show ?thesis using Cons.prems False by (auto simp: fun_upd_def)
  qed
qed simp

text \<open>A chain still ends when one node on it is redirected to a chain that ends.\<close>

lemma linked_redirect:
  assumes "linked f x xs" "\<And>y. y \<noteq> c \<Longrightarrow> g y = f y" "linked g c us"
  shows "\<exists>ys. linked g x ys"
  using assms(1)
proof (induction xs arbitrary: x)
  case Nil
  then show ?case by (intro exI [of _ "[]"]) simp
next
  case (Cons y xs)
  show ?case
  proof (cases "x = c")
    case False
    then obtain ys where "linked g (f y) ys" using Cons.IH [of "f y"] Cons.prems by auto
    then show ?thesis using Cons.prems False assms(2) by (intro exI [of _ "x # ys"]) simp
  qed (use assms(3) in blast)
qed

section \<open>The tree\<close>

abbreviation sib :: "(u64 \<Rightarrow> vfs_node) \<Rightarrow> u64 \<Rightarrow> u64" where "sib v \<equiv> \<lambda>x. vn_sibling (v x)"
abbreviation par :: "(u64 \<Rightarrow> vfs_node) \<Rightarrow> u64 \<Rightarrow> u64" where "par v \<equiv> \<lambda>x. vn_parent (v x)"

definition tree :: "(u64 \<Rightarrow> vfs_node) \<Rightarrow> u64 set \<Rightarrow> (u64 \<Rightarrow> u64 list) \<Rightarrow> bool" where
  "tree v N kids \<longleftrightarrow> 0 \<notin> N \<and>
     (\<forall>d \<in> N. linked (sib v) (vn_children (v d)) (kids d) \<and> distinct (map (\<lambda>c. vn_name (v c)) (kids d)) \<and>
        set (kids d) = {c \<in> N. par v c = d} \<and> (vn_type (v d) \<noteq> VFS_NODE_DIR \<longrightarrow> kids d = [])) \<and>
     (\<forall>c \<in> N. par v c \<noteq> 0 \<longrightarrow> par v c \<in> N) \<and>
     (\<forall>c \<in> N. \<exists>xs. linked (par v) c xs)"

lemma treeD:
  assumes "tree v N kids" "d \<in> N"
  shows "d \<noteq> 0" "linked (sib v) (vn_children (v d)) (kids d)" "distinct (map (\<lambda>c. vn_name (v c)) (kids d))"
    "set (kids d) = {c \<in> N. par v c = d}" "vn_type (v d) \<noteq> VFS_NODE_DIR \<Longrightarrow> kids d = []"
    "par v d \<noteq> 0 \<Longrightarrow> par v d \<in> N" "\<exists>xs. linked (par v) d xs" "distinct (kids d)"
  using assms linked_distinct by (auto simp: tree_def)

lemma tree_children_0: "tree v N kids \<Longrightarrow> d \<in> N \<Longrightarrow> vn_children (v d) = 0 \<longleftrightarrow> kids d = []"
  using treeD(2) [of v N kids d] by (cases "kids d") auto

lemma lineage_in:
  assumes "tree v N kids" "linked (par v) c xs" "c \<in> N"
  shows "set xs \<subseteq> N"
  using assms(2,3)
proof (induction xs arbitrary: c)
  case (Cons x xs)
  then have x: "x = c" "linked (par v) (par v c) xs" by auto
  show ?case
  proof (cases "par v c = 0")
    case True
    then have "xs = []" using x(2) by (cases xs) auto
    then show ?thesis using x Cons.prems by simp
  next
    case False
    then show ?thesis using Cons.IH [OF x(2)] treeD(6) [OF assms(1) Cons.prems(2)] x Cons.prems(2) by simp
  qed
qed simp

text \<open>Only the five link fields of the nodes matter.\<close>

lemma tree_cong:
  assumes t: "tree v N kids" and e: "\<And>x. x \<in> N \<Longrightarrow> vn_sibling (w x) = vn_sibling (v x) \<and> vn_parent (w x) = vn_parent (v x) \<and>
    vn_children (w x) = vn_children (v x) \<and> vn_name (w x) = vn_name (v x) \<and> vn_type (w x) = vn_type (v x)"
  shows "tree w N kids"
proof -
  have k: "linked (sib w) (vn_children (w d)) (kids d) \<and> distinct (map (\<lambda>c. vn_name (w c)) (kids d)) \<and>
      set (kids d) = {c \<in> N. par w c = d} \<and> (vn_type (w d) \<noteq> VFS_NODE_DIR \<longrightarrow> kids d = [])" if d: "d \<in> N" for d
  proof -
    have s: "\<And>c. c \<in> set (kids d) \<Longrightarrow> c \<in> N" using treeD(4) [OF t d] by auto
    have "linked (sib w) (vn_children (w d)) (kids d) = linked (sib v) (vn_children (v d)) (kids d)"
      using e d s by (metis linked_cong)
    moreover have m: "map (\<lambda>c. vn_name (w c)) (kids d) = map (\<lambda>c. vn_name (v c)) (kids d)" using e s by (intro map_cong) auto
    moreover have "{c \<in> N. par w c = d} = {c \<in> N. par v c = d}" using e by auto
    ultimately show ?thesis using treeD [OF t d] e [OF d] unfolding m by simp
  qed
  have "\<exists>xs. linked (par w) c xs" if c: "c \<in> N" for c
  proof -
    obtain xs where xs: "linked (par v) c xs" using treeD(7) [OF t c] by blast
    have "set xs \<subseteq> N" by (rule lineage_in [OF t xs c])
    then have "linked (par w) c xs" using xs e by (subst linked_cong [of _ _ "par v"]) auto
    then show ?thesis by blast
  qed
  then show ?thesis using t k e unfolding tree_def by auto
qed

lemma tree_new:
  assumes t: "tree v N kids" and n: "n \<noteq> 0" "n \<notin> N" and w: "w n = nd" "\<And>x. x \<in> N \<Longrightarrow> w x = v x"
    and nd: "vn_parent nd = 0" "vn_children nd = 0"
  shows "tree w (insert n N) (kids(n := []))"
proof -
  have tw: "tree w N kids" by (rule tree_cong [OF t]) (simp add: w)
  have "{c \<in> insert n N. par w c = d} = {c \<in> N. par w c = d}" if "d \<in> N" for d
    using treeD(1) [OF t that] nd w by auto
  moreover have "{c \<in> insert n N. par w c = n} = {}" using treeD(6) [OF tw] n nd w by auto
  moreover have "\<exists>xs. linked (par w) n xs" by (rule exI [of _ "[n]"]) (use n nd w in simp)
  ultimately show ?thesis using tw n nd w unfolding tree_def by auto
qed

lemma tree_free:
  assumes t: "tree v N kids" and n: "n \<in> N" "par v n = 0" "kids n = []"
  shows "tree v (N - {n}) kids"
proof -
  have np: "par v c \<noteq> n" if "c \<in> N" for c using treeD(4) [OF t n(1)] n(3) that by auto
  have "{c \<in> N - {n}. par v c = d} = {c \<in> N. par v c = d}" if "d \<in> N" for d
    using treeD(1) [OF t that] n(2) by auto
  then show ?thesis using t np unfolding tree_def by auto
qed

text \<open>A node without parent becomes the first child of a directory that is not below it.\<close>

lemma tree_add:
  assumes t: "tree v N kids" and d: "d \<in> N" "vn_type (v d) = VFS_NODE_DIR" and c: "c \<in> N" "par v c = 0"
    and nm: "vn_name (v c) \<notin> (\<lambda>x. vn_name (v x)) ` set (kids d)"
    and up: "linked (par v) d us" "c \<notin> set us"
    and wc: "w c = (v c)\<lparr>vn_parent := d, vn_sibling := vn_children (v d)\<rparr>" and wd: "w d = (v d)\<lparr>vn_children := c\<rparr>"
    and wx: "\<And>x. x \<noteq> c \<Longrightarrow> x \<noteq> d \<Longrightarrow> w x = v x"
  shows "tree w N (kids(d := c # kids d))"
proof -
  have dz: "d \<noteq> 0" and cz: "c \<noteq> 0" using treeD(1) [OF t] d c by auto
  have cd: "c \<noteq> d" using up by (cases us) (auto simp: dz)
  have ck: "c \<notin> set (kids x)" if "x \<in> N" for x
    using treeD(1,4) [OF t that] c by auto
  have sb: "sib w x = sib v x" if "x \<noteq> c" for x using wx wd that by (cases "x = d") auto
  have pr: "par w x = par v x" if "x \<noteq> c" for x using wx wd that by (cases "x = d") auto
  have nmx: "vn_name (w x) = vn_name (v x)" for x using wx wd wc by (cases "x = d"; cases "x = c") auto
  have chx: "vn_children (w x) = vn_children (v x)" if "x \<noteq> d" for x using wx wc that by (cases "x = c") auto
  have lk: "linked (sib w) y (kids x) = linked (sib v) y (kids x)" if "x \<in> N" for x y
    using sb ck [OF that] by (intro linked_cong) metis
  have tyx: "vn_type (w x) = vn_type (v x)" for x using wx wd wc by (cases "x = d"; cases "x = c") auto
  have "par w x = d \<longleftrightarrow> x = c \<or> par v x = d" for x using pr wc c dz by (cases "x = c") auto
  then have "set (c # kids d) = {x \<in> N. par w x = d}" using treeD(4) [OF t d(1)] c by auto
  moreover have "linked (sib w) (vn_children (w d)) (c # kids d)"
    using lk [OF d(1)] treeD(2) [OF t d(1)] wd wc cz by simp
  moreover have "distinct (map (\<lambda>x. vn_name (w x)) (c # kids d))" using treeD(3) [OF t d(1)] nm by (auto simp: nmx)
  moreover have "set (kids x) = {y \<in> N. par w y = x}" if "x \<in> N" "x \<noteq> d" for x
  proof -
    have "par w y = x \<longleftrightarrow> par v y = x" for y using pr wc c that treeD(1) [OF t that(1)] by (cases "y = c") auto
    then show ?thesis using treeD(4) [OF t that(1)] by simp
  qed
  moreover have "linked (sib w) (vn_children (w x)) (kids x)" if "x \<in> N" "x \<noteq> d" for x
    using lk [OF that(1)] treeD(2) [OF t that(1)] chx that by simp
  moreover have "\<exists>xs. linked (par w) x xs" if x: "x \<in> N" for x
  proof -
    have us: "linked (par w) c (c # us)" using up pr wc cz linked_cong [of us "par w" "par v"] by (simp; metis)
    obtain xs where "linked (par v) x xs" using treeD(7) [OF t x] by blast
    from linked_redirect [OF this pr us] show ?thesis .
  qed
  moreover have "par w x \<in> N" if "x \<in> N" "par w x \<noteq> 0" for x
    using treeD(6) [OF t that(1)] that pr [of x] wc d by (cases "x = c") auto
  ultimately show ?thesis using t d unfolding tree_def by (auto simp: tyx nmx)
qed

text \<open>A child is taken out of the chain of its parent and has no parent afterwards.\<close>

lemma tree_remove:
  assumes t: "tree v N kids" and d: "d \<in> N" and k: "kids d = as @ c # bs"
    and wd: "w d = (if as = [] then (v d)\<lparr>vn_children := vn_sibling (v c)\<rparr> else v d)"
    and wl: "as \<noteq> [] \<Longrightarrow> w (last as) = (v (last as))\<lparr>vn_sibling := vn_sibling (v c)\<rparr>"
    and wc: "vn_parent (w c) = 0" "vn_children (w c) = vn_children (v c)" "vn_name (w c) = vn_name (v c)" "vn_type (w c) = vn_type (v c)"
    and wx: "\<And>x. x \<noteq> c \<Longrightarrow> x \<noteq> d \<Longrightarrow> (as \<noteq> [] \<Longrightarrow> x \<noteq> last as) \<Longrightarrow> w x = v x"
  shows "tree w N (kids(d := as @ bs))"
proof -
  have dz: "d \<noteq> 0" using treeD(1) [OF t d] .
  have kd: "x \<in> N \<and> par v x = d" if "x \<in> set (as @ c # bs)" for x using treeD(4) [OF t d] k that by auto
  have c: "c \<in> N" "par v c = d" using kd by auto
  have nd: "par v d \<noteq> d"
  proof
    assume e: "par v d = d"
    obtain xs where xs: "linked (par v) d xs" using treeD(7) [OF t d] by blast
    then obtain ys where ys: "xs = d # ys" "linked (par v) d ys" using e dz by (cases xs) auto
    then show False using linked_unique [OF xs ys(2)] by simp
  qed
  have cd: "c \<noteq> d" using c nd by auto
  have dis: "distinct (as @ c # bs)" using treeD(8) [OF t d] k by simp
  have la: "last as \<in> set as" "last as \<noteq> c" "last as \<noteq> d" if "as \<noteq> []"
    using that dis kd [of "last as"] last_in_set [OF that] nd by auto
  have pr: "par w x = par v x" if "x \<noteq> c" for x
    using that wd wl wx [of x] by (cases "x = d"; cases "as \<noteq> [] \<and> x = last as") auto
  have nt: "vn_name (w x) = vn_name (v x) \<and> vn_type (w x) = vn_type (v x)" for x
  proof (cases "x = c")
    case False
    then show ?thesis using wd wl wx [of x] by (cases "x = d"; cases "as \<noteq> [] \<and> x = last as") auto
  qed (use wc in simp)
  then have nmx: "vn_name (w x) = vn_name (v x)" and tyx: "vn_type (w x) = vn_type (v x)" for x by simp_all
  have chx: "vn_children (w x) = vn_children (v x)" if "x \<noteq> d" for x
  proof (cases "x = c")
    case False
    then show ?thesis using that wl wx [OF False that] by (cases "as \<noteq> [] \<and> x = last as") auto
  qed (use wc in simp)
  have sb: "sib w x = (if as \<noteq> [] \<and> x = last as then sib v c else sib v x)" if "x \<noteq> c" for x
  proof (cases "as \<noteq> [] \<and> x = last as")
    case True
    then show ?thesis using wl by simp
  next
    case False
    then have "w x = v x" if "x \<noteq> d" using wx [OF \<open>x \<noteq> c\<close> that] by blast
    moreover have "sib w d = sib v d" using wd by simp
    ultimately show ?thesis using False by (cases "x = d") auto
  qed
  have par_iff: "par w x = y \<longleftrightarrow> x \<noteq> c \<and> par v x = y" if "y \<noteq> 0" for x y using pr wc that by (cases "x = c") auto
  have "set (as @ bs) = {x \<in> N. par w x = d}" using treeD(4) [OF t d] k dis par_iff [OF dz] by auto
  moreover have "linked (sib w) (vn_children (w d)) (as @ bs)"
  proof (cases "as = []")
    case True
    then have "linked (sib v) (sib v c) bs" using treeD(2) [OF t d] k by simp
    moreover have "sib w x = sib v x" if "x \<in> set bs" for x
    proof -
      have "x \<noteq> c" using that dis by auto
      then show ?thesis using sb [of x] True by auto
    qed
    ultimately have "linked (sib w) (sib v c) bs" by (subst linked_cong [of _ _ "sib v"]) simp_all
    then show ?thesis using True wd by simp
  next
    case False
    have "linked (sib v) (vn_children (v d)) (as @ c # bs)" using treeD(2) [OF t d] k by simp
    from linked_take_out [OF this] dis False
    have "linked ((sib v)(last as := sib v c)) (vn_children (v d)) (as @ bs)" by auto
    moreover have "sib w x = ((sib v)(last as := sib v c)) x" if "x \<in> set (as @ bs)" for x
    proof -
      have "x \<noteq> c" using that dis by auto
      then show ?thesis using sb [of x] False by auto
    qed
    ultimately have "linked (sib w) (vn_children (v d)) (as @ bs)" by (subst linked_cong [of _ _ "(sib v)(last as := sib v c)"]) auto
    then show ?thesis using False wd by simp
  qed
  moreover have "distinct (map (\<lambda>x. vn_name (w x)) (as @ bs))" using treeD(3) [OF t d] k by (auto simp: nmx)
  moreover have "set (kids x) = {y \<in> N. par w y = x}" if "x \<in> N" "x \<noteq> d" for x
    using treeD(1,4) [OF t that(1)] that par_iff c by auto
  moreover have "linked (sib w) (vn_children (w x)) (kids x)" if "x \<in> N" "x \<noteq> d" for x
  proof -
    have "y \<noteq> c \<and> (as \<noteq> [] \<longrightarrow> y \<noteq> last as)" if "y \<in> set (kids x)" for y
      using treeD(4) [OF t \<open>x \<in> N\<close>] that \<open>x \<noteq> d\<close> c kd [of "last as"] la by auto
    then have "linked (sib w) (vn_children (w x)) (kids x) = linked (sib v) (vn_children (w x)) (kids x)"
      using sb by (intro linked_cong) auto
    then show ?thesis using treeD(2) [OF t that(1)] chx [OF that(2)] by simp
  qed
  moreover have "\<exists>xs. linked (par w) x xs" if x: "x \<in> N" for x
  proof -
    obtain xs where xs: "linked (par v) x xs" using treeD(7) [OF t x] by blast
    have us: "linked (par w) c [c]" using wc treeD(1) [OF t c(1)] by simp
    from linked_redirect [OF xs pr us] show ?thesis .
  qed
  moreover have "par w x \<in> N" if "x \<in> N" "par w x \<noteq> 0" for x
    using treeD(6) [OF t that(1)] that pr [of x] wc by (cases "x = c") auto
  ultimately show ?thesis using t d k unfolding tree_def by (auto simp: tyx nmx)
qed

section \<open>Loops over the chains\<close>

definition first_with :: "('b \<Rightarrow> bool) \<Rightarrow> 'b list \<Rightarrow> 'b \<Rightarrow> 'b" where
  "first_with P xs z = (case find P xs of None \<Rightarrow> z | Some x \<Rightarrow> x)"

lemma find_child_from_linked:
  "linked (sib (vnodes s)) it xs \<Longrightarrow> find_child_from it nm s = Some (first_with (\<lambda>c. vn_name (vnodes s c) = nm) xs 0)"
  by (induction xs arbitrary: it; subst find_child_from.simps) (auto simp: first_with_def)

lemma find_mount_from_linked:
  "linked (\<lambda>m. mt_next (vmnts s m)) it ms \<Longrightarrow> find_mount_from it n s = Some (first_with (\<lambda>m. mt_mountpoint (vmnts s m) = n) ms 0)"
  by (induction ms arbitrary: it; subst find_mount_from.simps) (auto simp: first_with_def)

lemma siblings_from_linked: "linked (sib (vnodes s)) it xs \<Longrightarrow> siblings_from it s = Some xs"
  by (induction xs arbitrary: it; subst siblings_from.simps) auto

lemma is_ancestor_linked: "linked (par (vnodes s)) n us \<Longrightarrow> vfs_is_ancestor_dir a n s = Some (a \<in> set us)"
  by (induction us arbitrary: n; subst vfs_is_ancestor_dir.simps) auto

lemma unlink_sibling_linked:
  assumes "linked (sib (vnodes s)) it (xs @ c # ys)" "c \<notin> set xs"
  shows "unlink_sibling prev it c d s = Some (let l = (if xs = [] then prev else last xs) in
    if l \<noteq> 0 then upd_vnode l (\<lambda>n. n\<lparr>vn_sibling := vn_sibling (vnodes s c)\<rparr>) s
    else upd_vnode d (\<lambda>n. n\<lparr>vn_children := vn_sibling (vnodes s c)\<rparr>) s)"
  using assms
proof (induction xs arbitrary: it prev)
  case Nil
  then show ?case by (subst unlink_sibling.simps) auto
next
  case (Cons x xs)
  then have x: "it = x" "x \<noteq> 0" "x \<noteq> c" "linked (sib (vnodes s)) (sib (vnodes s) x) (xs @ c # ys)" by auto
  have "unlink_sibling prev it c d s = unlink_sibling x (sib (vnodes s) x) c d s"
    using x by (subst unlink_sibling.simps) simp
  then show ?case using Cons.IH [OF x(4), of x] Cons.prems(2) by simp
qed

section \<open>Paths\<close>

text \<open>The components of a path, and the node they lead to; 0 if there is none.\<close>

function comps :: "cstring \<Rightarrow> cstring list" where
  "comps p = (case vfs_next_component p 32 of None \<Rightarrow> [] | Some (c, rest) \<Rightarrow> c # comps rest)"
  by pat_completeness auto
termination by (relation "measure length") (auto dest: next_component_shorter)

declare comps.simps [simp del]

definition child :: "'a vfs_state_scheme \<Rightarrow> u64 \<Rightarrow> cstring \<Rightarrow> u64" where
  "child s d nm = (case vfs_find_child d nm s of None \<Rightarrow> 0 | Some c \<Rightarrow> c)"

definition cross :: "'a vfs_state_scheme \<Rightarrow> u64 \<Rightarrow> u64" where
  "cross s n = (case cross_mount n s of None \<Rightarrow> n | Some m \<Rightarrow> m)"

fun vwalk :: "'a vfs_state_scheme \<Rightarrow> u64 \<Rightarrow> cstring list \<Rightarrow> u64" where
  "vwalk s d [] = d"
| "vwalk s d (c # cs) = (let k = child s d c in if k = 0 then 0 else vwalk s (cross s k) cs)"

definition resolve :: "'a vfs_state_scheme \<Rightarrow> cstring \<Rightarrow> u64" where
  "resolve s p = vwalk s (vfs_root s) (comps p)"

lemma comps_slash: "comps [slash] = []"
  by (simp add: comps.simps vfs_next_component_def)

lemma comps_Nil_iff: "comps p = [] \<longleftrightarrow> dropWhile (\<lambda>c. c = slash) p = []"
  by (auto simp: comps.simps [of p] vfs_next_component_def Let_def)

lemma comps_length: "c \<in> set (comps p) \<Longrightarrow> length c \<le> 31 \<and> c \<noteq> []"
proof (induction p rule: comps.induct)
  case (1 p)
  show ?case
  proof (cases "vfs_next_component p 32")
    case None
    then show ?thesis using 1 by (simp add: comps.simps [of p])
  next
    case (Some x)
    obtain d rest where x: "x = (d, rest)" by fastforce
    define q where "q = dropWhile (\<lambda>c. c = slash) p"
    have q: "q \<noteq> []" "d = take 31 (takeWhile (\<lambda>c. c \<noteq> slash) q)"
      using Some x by (auto simp: vfs_next_component_def Let_def q_def split: if_splits)
    have "hd q \<noteq> slash" using hd_dropWhile [of "\<lambda>c. c = slash" p] q(1) by (simp add: q_def)
    then have "d \<noteq> []" using q by (cases q) auto
    then have "length d \<le> 31 \<and> d \<noteq> []" using q(2) by simp
    then show ?thesis using 1 Some x by (auto simp: comps.simps [of p])
  qed
qed

text \<open>What the loops over a path need: all chains end.\<close>

definition searchable :: "'a vfs_state_scheme \<Rightarrow> u64 set \<Rightarrow> bool" where
  "searchable s N \<longleftrightarrow> 0 \<notin> N \<and> (\<forall>d \<in> N. \<forall>nm. \<exists>c. vfs_find_child d nm s = Some c \<and> (c \<noteq> 0 \<longrightarrow> c \<in> N)) \<and>
     (\<forall>n \<in> N. \<exists>m. cross_mount n s = Some m \<and> m \<in> N)"

lemma searchable_child:
  assumes "searchable s N" "d \<in> N"
  shows "vfs_find_child d nm s = Some (child s d nm)" "child s d nm \<noteq> 0 \<Longrightarrow> child s d nm \<in> N"
    "cross_mount d s = Some (cross s d)" "cross s d \<in> N"
  using assms unfolding searchable_def child_def cross_def by (metis option.simps(5))+

lemma vwalk_in:
  assumes "searchable s N" "d \<in> N" "vwalk s d cs \<noteq> 0"
  shows "vwalk s d cs \<in> N"
  using assms(2,3)
proof (induction cs arbitrary: d)
  case (Cons c cs)
  then have c: "child s d c \<noteq> 0" "vwalk s (cross s (child s d c)) cs \<noteq> 0" by (auto simp: Let_def split: if_splits)
  then show ?case
    using Cons.IH [OF searchable_child(4) [OF assms(1)]] searchable_child(2) [OF assms(1) Cons.prems(1)] by (simp add: Let_def)
qed simp

lemma lookup_loop_walk:
  assumes "searchable s N" "d \<in> N"
  shows "lookup_loop d p s = Some (vwalk s d (comps p))"
  using assms(2)
proof (induction p arbitrary: d rule: comps.induct)
  case (1 p)
  show ?case
  proof (cases "vfs_next_component p 32")
    case (Some x)
    obtain c rest where x: "x = (c, rest)" by fastforce
    note k = searchable_child [OF assms(1) 1(2)]
    have "lookup_loop (cross s (child s d c)) rest s = Some (vwalk s (cross s (child s d c)) (comps rest))"
      if "child s d c \<noteq> 0"
      using 1(1) [OF Some] x searchable_child(4) [OF assms(1) k(2) [OF that]] by simp
    then show ?thesis
      using Some x k(1,2) searchable_child(3) [OF assms(1) k(2)]
      by (simp add: lookup_loop.simps [of d p] comps.simps [of p] Let_def)
  qed (simp add: lookup_loop.simps [of d p] comps.simps [of p])
qed

lemma vwalk_0 [simp]: "vwalk s 0 cs = 0"
  by (cases cs) (simp_all add: child_def vfs_find_child_def)

lemma vwalk_append: "vwalk s d (as @ bs) = vwalk s (vwalk s d as) bs"
  by (induction as arbitrary: d) (simp_all add: Let_def)

lemma resolve_parent_loop_walk:
  assumes s: "searchable s N" and d: "d \<in> N" "vn_type (vnodes s d) = VFS_NODE_DIR"
    and dirs: "\<And>n. n \<in> N \<Longrightarrow> vn_type (vnodes s (cross s n)) = vn_type (vnodes s n)"
    and ft: "\<And>n nm. n \<in> N \<Longrightarrow> vn_type (vnodes s n) \<noteq> VFS_NODE_DIR \<Longrightarrow> child s n nm = 0"
  shows "resolve_parent_loop d p s = Some
    (if comps p = [] then (0, [])
     else let k = vwalk s d (butlast (comps p))
          in if k = 0 \<or> vn_type (vnodes s k) \<noteq> VFS_NODE_DIR then (0, []) else (k, last (comps p)))"
  using d
proof (induction p arbitrary: d rule: comps.induct)
  case (1 p)
  show ?case
  proof (cases "vfs_next_component p 32")
    case (Some x)
    obtain c rest where x: "x = (c, rest)" by fastforce
    have cp: "comps p = c # comps rest" using Some x by (simp add: comps.simps [of p])
    have c31: "take 31 c = c" using comps_length [of c p] cp by simp
    note k = searchable_child [OF s 1(2)]
    have dz: "d \<noteq> 0" using s 1(2) by (auto simp: searchable_def)
    show ?thesis
    proof (cases "comps rest = []")
      case True
      then show ?thesis using Some x cp c31 dz 1(3) comps_Nil_iff [of rest] by (simp add: resolve_parent_loop.simps [of d p])
    next
      case False
      then have r: "dropWhile (\<lambda>c. c = slash) rest \<noteq> []" by (simp add: comps_Nil_iff)
      define n where "n = child s d c"
      have st: "resolve_parent_loop d p s = (if n = 0 \<or> vn_type (vnodes s n) \<noteq> VFS_NODE_DIR then Some (0, [])
          else resolve_parent_loop (cross s n) rest s)"
        using Some x r k(1) [of c] searchable_child(3) [OF s k(2) [of c]]
        by (simp add: resolve_parent_loop.simps [of d p] n_def del: dropWhile_eq_Nil_conv)
      have wp: "vwalk s d (butlast (comps p)) = (if n = 0 then 0 else vwalk s (cross s n) (butlast (comps rest)))"
        using False by (simp add: cp n_def Let_def)
      show ?thesis
      proof (cases "n = 0 \<or> vn_type (vnodes s n) \<noteq> VFS_NODE_DIR")
        case True
        have "vwalk s d (butlast (comps p)) = 0 \<or> vn_type (vnodes s (vwalk s d (butlast (comps p)))) \<noteq> VFS_NODE_DIR"
        proof (cases "n = 0")
          case nz: False
          then have nt: "vn_type (vnodes s n) \<noteq> VFS_NODE_DIR" "n \<in> N" using True k(2) [of c] by (auto simp: n_def)
          then have f: "vn_type (vnodes s (cross s n)) \<noteq> VFS_NODE_DIR" "cross s n \<in> N"
            using dirs searchable_child(4) [OF s] by auto
          show ?thesis using f ft nz by (cases "butlast (comps rest)") (auto simp: wp)
        qed (simp add: wp)
        then show ?thesis using st True False cp by (auto simp: Let_def)
      next
        case nF: False
        then have n: "n \<in> N" "cross s n \<in> N" using k(2) [of c] searchable_child(4) [OF s k(2) [of c]] by (simp_all add: n_def)
        have "vn_type (vnodes s (cross s n)) = VFS_NODE_DIR" using dirs [OF n(1)] nF by simp
        from 1(1) [OF Some x [symmetric] n(2) this] show ?thesis
          using st nF False wp cp by (simp add: Let_def)
      qed
    qed
  qed (simp add: resolve_parent_loop.simps [of d p] comps.simps [of p])
qed

end
