(* ===== verification/VfsInv.thy ===== *)
theory VfsInv
  imports VfsTree
begin

text \<open>
  The invariant of the file system. Every pointer it holds is a live block of the heap with one
  owner, the nodes form a tree with distinct names in each directory, reference counts are the
  number of holders, the mount list is well formed, and an entry of the path cache that is in use
  records the result of a walk.
\<close>

section \<open>The invariant\<close>

text \<open>What a heap block is used for: a node, the inode or the data of a node, a mount.\<close>

datatype vobj = ONode | OInode u64 | OData u64 | OMount

type_synonym owners = "u64 \<Rightarrow> vobj option"

definition nodes_of :: "owners \<Rightarrow> u64 set" where
  "nodes_of own = {n. own n = Some ONode}"

definition inode_ok :: "owners \<Rightarrow> u64 \<Rightarrow> 'a vfs_state_scheme \<Rightarrow> bool" where
  "inode_ok own n s \<longleftrightarrow> (let ip = vn_inode (vnodes s n); i = vinodes s ip in
     own ip = Some (OInode n) \<and> data_ok i s \<and> unat (vi_capacity i) \<le> 2 ^ 42 \<and> vi_fs_tag i = 0 \<and>
     (vi_flags i = 0 \<or> vi_flags i AND (VFS_INODE_CONSOLE OR VFS_INODE_CHARDEV OR VFS_INODE_BLOCKDEV) \<noteq> 0) \<and>
     (vi_data i \<noteq> 0 \<longrightarrow> own (vi_data i) = Some (OData n)))"

definition objs_ok :: "owners \<Rightarrow> u64 list \<Rightarrow> 'a vfs_state_scheme \<Rightarrow> bool" where
  "objs_ok own ms s \<longleftrightarrow> (\<forall>p. own p \<noteq> None \<longrightarrow> hcap s p \<noteq> None) \<and> (\<forall>n \<in> nodes_of own. inode_ok own n s) \<and>
     (\<forall>m \<in> set ms. own m = Some OMount)"

definition dir_ok :: "u64 set \<Rightarrow> u64 \<Rightarrow> 'a vfs_state_scheme \<Rightarrow> bool" where
  "dir_ok N n s \<longleftrightarrow> n \<in> N \<and> vn_type (vnodes s n) = VFS_NODE_DIR \<and> \<not> vn_unlinked (vnodes s n)"

definition root_ok :: "u64 set \<Rightarrow> u64 \<Rightarrow> 'a vfs_state_scheme \<Rightarrow> bool" where
  "root_ok N n s \<longleftrightarrow> dir_ok N n s \<and> vn_parent (vnodes s n) = 0"

definition mounts_ok :: "u64 set \<Rightarrow> u64 list \<Rightarrow> 'a vfs_state_scheme \<Rightarrow> bool" where
  "mounts_ok N ms s \<longleftrightarrow> linked (\<lambda>m. mt_next (vmnts s m)) (vfs_mounts s) ms \<and>
     (\<forall>m \<in> set ms. root_ok N (mt_root (vmnts s m)) s \<and>
        (mt_mountpoint (vmnts s m) \<noteq> 0 \<longrightarrow> dir_ok N (mt_mountpoint (vmnts s m)) s)) \<and>
     root_ok N (vfs_root s) s \<and> vfs_root_mount s \<in> set ms \<and> mt_mountpoint (vmnts s (vfs_root_mount s)) = 0"

text \<open>\<open>F\<close> are the open files: a node has one reference from its directory and one from each of them.\<close>

definition holders :: "u64 set \<Rightarrow> u64 \<Rightarrow> 'a vfs_state_scheme \<Rightarrow> u64 set" where
  "holders F n s = {fp \<in> F. vf_node (vfiles s fp) = n}"

definition refs_ok :: "u64 set \<Rightarrow> u64 set \<Rightarrow> 'a vfs_state_scheme \<Rightarrow> bool" where
  "refs_ok F N s \<longleftrightarrow> finite F \<and>
     (\<forall>n \<in> N. unat (vn_ref_count (vnodes s n)) = (if vn_unlinked (vnodes s n) then 0 else 1) + card (holders F n s) \<and>
        (vn_unlinked (vnodes s n) \<longrightarrow> vn_parent (vnodes s n) = 0 \<and> vn_children (vnodes s n) = 0 \<and> holders F n s \<noteq> {})) \<and>
     (\<forall>fp \<in> F. vf_node (vfiles s fp) \<in> N \<and> vn_type (vnodes s (vf_node (vfiles s fp))) = VFS_NODE_FILE)"

definition cache_ok :: "'a vfs_state_scheme \<Rightarrow> bool" where
  "cache_ok s \<longleftrightarrow> length (vfs_cache s) = VFS_CACHE_SIZE \<and>
     (\<forall>e \<in> set (vfs_cache s). ce_gen e = vfs_cache_gen s \<and> ce_path e \<noteq> [] \<longrightarrow>
        ce_node e \<noteq> 0 \<and> (\<exists>p. take 63 p = ce_path e \<and> resolve s p = ce_node e))"

definition devs_ok :: "u64 set \<Rightarrow> 'a vfs_state_scheme \<Rightarrow> bool" where
  "devs_ok N s \<longleftrightarrow> (g_devfs_root s = 0 \<or> root_ok N (g_devfs_root s) s) \<and>
     (\<forall>nm \<in> set (g_pending_blocks s). length nm \<le> NAME_MAX)"

definition space_ok :: "u64 set \<Rightarrow> (u64 \<Rightarrow> u64 list) \<Rightarrow> u64 list \<Rightarrow> 'a vfs_state_scheme \<Rightarrow> bool" where
  "space_ok N kids ms s \<longleftrightarrow> tree (vnodes s) (N) kids \<and> mounts_ok N ms s"

definition vfs_ok :: "u64 set \<Rightarrow> owners \<Rightarrow> (u64 \<Rightarrow> u64 list) \<Rightarrow> u64 list \<Rightarrow> 'a vfs_state_scheme \<Rightarrow> bool" where
  "vfs_ok F own kids ms s \<longleftrightarrow> heap_inv s \<and> space_ok (nodes_of own) kids ms s \<and> objs_ok own ms s \<and> refs_ok F (nodes_of own) s \<and>
     cache_ok s \<and> devs_ok (nodes_of own) s"

definition vfs_inv :: "u64 set \<Rightarrow> 'a vfs_state_scheme \<Rightarrow> bool" where
  "vfs_inv F s \<longleftrightarrow> (\<exists>own kids ms. vfs_ok F own kids ms s)"

lemma in_nodes [simp]: "n \<in> nodes_of own \<longleftrightarrow> own n = Some ONode"
  by (simp add: nodes_of_def)

lemma vfs_okD:
  assumes "vfs_ok F own kids ms s"
  shows "heap_inv s" "space_ok (nodes_of own) kids ms s" "objs_ok own ms s" "refs_ok F (nodes_of own) s" "cache_ok s" "devs_ok (nodes_of own) s"
  using assms by (simp_all add: vfs_ok_def)

lemma space_okD:
  assumes "space_ok N kids ms s"
  shows "tree (vnodes s) N kids" "mounts_ok N ms s"
  using assms by (simp_all add: space_ok_def)

section \<open>Fields that do not concern the heap\<close>

lemma heap_view_cong:
  assumes "same_pmm s t" "hblk t = hblk s" "heap_head t = heap_head s" "heap_tail t = heap_tail s"
  shows "heap_inv t = heap_inv s \<and> hcap t = hcap s \<and> hbyte t = hbyte s"
proof -
  have "heap_ok t bs = heap_ok s bs" for bs
    using same_pmmD [OF assms(1)] assms(2-4) by (simp add: heap_ok_def heap_rep_def)
  then show ?thesis using same_pmmD(4) [OF assms(1)] assms(2)
    by (simp add: heap_inv_def hcap_def heap_live_def hbyte_def fun_eq_iff)
qed

lemma cache_fields [simp]:
  "vnodes (vfs_cache_reset s) = vnodes s" "vinodes (vfs_cache_reset s) = vinodes s" "vmnts (vfs_cache_reset s) = vmnts s"
  "vfiles (vfs_cache_reset s) = vfiles s" "vfs_mounts (vfs_cache_reset s) = vfs_mounts s" "vfs_root (vfs_cache_reset s) = vfs_root s"
  "vfs_root_mount (vfs_cache_reset s) = vfs_root_mount s" "g_devfs_root (vfs_cache_reset s) = g_devfs_root s"
  "g_pending_blocks (vfs_cache_reset s) = g_pending_blocks s" "vfs_ready (vfs_cache_reset s) = vfs_ready s"
  "vfs_fs_drivers (vfs_cache_reset s) = vfs_fs_drivers s"
  "heap_inv (vfs_cache_reset s) = heap_inv s" "hcap (vfs_cache_reset s) = hcap s" "hbyte (vfs_cache_reset s) = hbyte s"
  using heap_view_cong [of s "vfs_cache_reset s"] by (simp_all add: vfs_cache_reset_def same_pmm_def pmm_state.truncate_def)

lemma cache_insert_fields [simp]:
  "vnodes (vfs_cache_insert p n s) = vnodes s" "vinodes (vfs_cache_insert p n s) = vinodes s" "vmnts (vfs_cache_insert p n s) = vmnts s"
  "vfiles (vfs_cache_insert p n s) = vfiles s" "vfs_mounts (vfs_cache_insert p n s) = vfs_mounts s"
  "vfs_root (vfs_cache_insert p n s) = vfs_root s" "vfs_root_mount (vfs_cache_insert p n s) = vfs_root_mount s"
  "g_devfs_root (vfs_cache_insert p n s) = g_devfs_root s" "g_pending_blocks (vfs_cache_insert p n s) = g_pending_blocks s"
  "vfs_ready (vfs_cache_insert p n s) = vfs_ready s" "vfs_fs_drivers (vfs_cache_insert p n s) = vfs_fs_drivers s"
  "vfs_cache_gen (vfs_cache_insert p n s) = vfs_cache_gen s"
  "heap_inv (vfs_cache_insert p n s) = heap_inv s" "hcap (vfs_cache_insert p n s) = hcap s" "hbyte (vfs_cache_insert p n s) = hbyte s"
  using heap_view_cong [of s "vfs_cache_insert p n s"]
  by (simp_all add: vfs_cache_insert_def Let_def same_pmm_def pmm_state.truncate_def split: option.splits)

lemma upd_fields2 [simp]:
  "vmnts (upd_vnode p f s) = vmnts s" "vfs_mounts (upd_vnode p f s) = vfs_mounts s" "vfs_root (upd_vnode p f s) = vfs_root s"
  "vfs_root_mount (upd_vnode p f s) = vfs_root_mount s" "g_devfs_root (upd_vnode p f s) = g_devfs_root s"
  "g_pending_blocks (upd_vnode p f s) = g_pending_blocks s" "vfs_cache (upd_vnode p f s) = vfs_cache s"
  "vfs_cache_gen (upd_vnode p f s) = vfs_cache_gen s" "vfs_ready (upd_vnode p f s) = vfs_ready s" "vfs_fs_drivers (upd_vnode p f s) = vfs_fs_drivers s"
  "vmnts (upd_vinode p g s) = vmnts s" "vfs_mounts (upd_vinode p g s) = vfs_mounts s" "vfs_root (upd_vinode p g s) = vfs_root s"
  "vfs_root_mount (upd_vinode p g s) = vfs_root_mount s" "g_devfs_root (upd_vinode p g s) = g_devfs_root s"
  "g_pending_blocks (upd_vinode p g s) = g_pending_blocks s" "vfs_cache (upd_vinode p g s) = vfs_cache s"
  "vfs_cache_gen (upd_vinode p g s) = vfs_cache_gen s" "vfs_ready (upd_vinode p g s) = vfs_ready s" "vfs_fs_drivers (upd_vinode p g s) = vfs_fs_drivers s"
  "vmnts (upd_vfile p h s) = vmnts s" "vfs_mounts (upd_vfile p h s) = vfs_mounts s" "vfs_root (upd_vfile p h s) = vfs_root s"
  "vfs_root_mount (upd_vfile p h s) = vfs_root_mount s" "g_devfs_root (upd_vfile p h s) = g_devfs_root s"
  "g_pending_blocks (upd_vfile p h s) = g_pending_blocks s" "vfs_cache (upd_vfile p h s) = vfs_cache s"
  "vfs_cache_gen (upd_vfile p h s) = vfs_cache_gen s" "vfs_ready (upd_vfile p h s) = vfs_ready s" "vfs_fs_drivers (upd_vfile p h s) = vfs_fs_drivers s"
  by (simp_all add: upd_vnode_def upd_vinode_def upd_vfile_def)

section \<open>Walking\<close>

lemma first_with_simps [simp]:
  "first_with P [] z = z" "first_with P (x # xs) z = (if P x then x else first_with P xs z)"
  by (simp_all add: first_with_def)

lemma first_with_name:
  "distinct (map f xs) \<Longrightarrow> z \<notin> set xs \<Longrightarrow> c \<noteq> z \<Longrightarrow> first_with (\<lambda>x. f x = a) xs z = c \<longleftrightarrow> c \<in> set xs \<and> f c = a"
proof (induction xs)
  case (Cons x xs)
  then show ?case by (cases "f x = a") (auto simp: image_iff)
qed simp

lemma first_with_in: "first_with P xs z = z \<or> first_with P xs z \<in> set xs \<and> P (first_with P xs z)"
  by (induction xs) auto

lemma first_with_None: "z \<notin> set xs \<Longrightarrow> first_with P xs z = z \<longleftrightarrow> (\<forall>x \<in> set xs. \<not> P x)"
  by (induction xs) auto

lemma child_kids:
  assumes "tree (vnodes s) N kids" "d \<in> N"
  shows "vfs_find_child d nm s = Some (first_with (\<lambda>c. vn_name (vnodes s c) = nm) (kids d) 0)"
    "child s d nm = first_with (\<lambda>c. vn_name (vnodes s c) = nm) (kids d) 0"
proof -
  show "vfs_find_child d nm s = Some (first_with (\<lambda>c. vn_name (vnodes s c) = nm) (kids d) 0)"
  proof (cases "vn_type (vnodes s d) = VFS_NODE_DIR")
    case True
    then show ?thesis
      using treeD(1) [OF assms] find_child_from_linked [OF treeD(2) [OF assms]] by (simp add: vfs_find_child_def)
  next
    case False
    then show ?thesis using treeD(5) [OF assms] by (simp add: vfs_find_child_def first_with_def)
  qed
  then show "child s d nm = first_with (\<lambda>c. vn_name (vnodes s c) = nm) (kids d) 0" by (simp add: child_def)
qed

lemma child_iff:
  assumes "tree (vnodes s) N kids" "d \<in> N" "c \<noteq> 0"
  shows "child s d nm = c \<longleftrightarrow> c \<in> N \<and> vn_parent (vnodes s c) = d \<and> vn_name (vnodes s c) = nm"
proof -
  have "0 \<notin> set (kids d)" using linked_nonnull [OF treeD(2) [OF assms(1,2)]] .
  then show ?thesis
    using first_with_name [OF treeD(3) [OF assms(1,2)] _ assms(3)] treeD(4) [OF assms(1,2)] child_kids(2) [OF assms(1,2)] by auto
qed

lemma child_0:
  assumes "tree (vnodes s) N kids" "d \<in> N"
  shows "child s d nm = 0 \<longleftrightarrow> (\<forall>c \<in> N. vn_parent (vnodes s c) = d \<longrightarrow> vn_name (vnodes s c) \<noteq> nm)"
proof -
  have "0 \<notin> N" using assms(1) by (simp add: tree_def)
  then show ?thesis using child_iff [OF assms(1,2)] by metis
qed

lemma mounts_okD:
  assumes "mounts_ok N ms s"
  shows "linked (\<lambda>m. mt_next (vmnts s m)) (vfs_mounts s) ms" "0 \<notin> set ms"
    "m \<in> set ms \<Longrightarrow> root_ok N (mt_root (vmnts s m)) s"
    "m \<in> set ms \<Longrightarrow> mt_mountpoint (vmnts s m) \<noteq> 0 \<Longrightarrow> dir_ok N (mt_mountpoint (vmnts s m)) s"
    "root_ok N (vfs_root s) s" "vfs_root_mount s \<in> set ms" "mt_mountpoint (vmnts s (vfs_root_mount s)) = 0"
  using assms linked_nonnull unfolding mounts_ok_def by blast+

lemma cross_ms:
  assumes t: "tree (vnodes s) N kids" and m: "mounts_ok N ms s"
  shows "cross_mount n s = Some (cross s n)"
    "cross s n = (case find (\<lambda>m. mt_mountpoint (vmnts s m) = n) ms of None \<Rightarrow> n | Some m \<Rightarrow> mt_root (vmnts s m))"
proof -
  have r: "mt_root (vmnts s m) \<noteq> 0 \<and> m \<noteq> 0" if "m \<in> set ms" for m
    using mounts_okD(2,3) [OF m] that treeD(1) [OF t] by (auto simp: root_ok_def dir_ok_def)
  have "find (\<lambda>m. mt_mountpoint (vmnts s m) = n) ms = Some m \<Longrightarrow> m \<in> set ms" for m by (auto simp: find_Some_iff)
  then have "cross_mount n s = Some (case find (\<lambda>m. mt_mountpoint (vmnts s m) = n) ms of None \<Rightarrow> n | Some m \<Rightarrow> mt_root (vmnts s m))"
    using find_mount_from_linked [OF mounts_okD(1) [OF m], of n] r
    by (auto simp: cross_mount_def vfs_find_mount_at_def first_with_def split: option.splits)
  then show "cross_mount n s = Some (cross s n)"
    "cross s n = (case find (\<lambda>m. mt_mountpoint (vmnts s m) = n) ms of None \<Rightarrow> n | Some m \<Rightarrow> mt_root (vmnts s m))"
    by (simp_all add: cross_def)
qed

lemma cross_cases:
  assumes "tree (vnodes s) N kids" "mounts_ok N ms s" "n \<noteq> 0"
  shows "(\<exists>m \<in> set ms. mt_mountpoint (vmnts s m) = n \<and> cross s n = mt_root (vmnts s m) \<and> dir_ok N n s \<and> root_ok N (cross s n) s) \<or>
    (\<forall>m \<in> set ms. mt_mountpoint (vmnts s m) \<noteq> n) \<and> cross s n = n"
proof (cases "find (\<lambda>m. mt_mountpoint (vmnts s m) = n) ms")
  case None
  then have "cross s n = n" using cross_ms(2) [OF assms(1,2), of n] by simp
  then show ?thesis using None by (auto simp: find_None_iff)
next
  case (Some m)
  then have "m \<in> set ms" "mt_mountpoint (vmnts s m) = n" by (auto simp: find_Some_iff)
  then show ?thesis using cross_ms(2) [OF assms(1,2), of n] Some mounts_okD(3,4) [OF assms(2)] assms(3) by fastforce
qed

lemma space_searchable:
  assumes "space_ok N kids ms s"
  shows "searchable s N"
proof -
  note t = space_okD(1) [OF assms] and m = space_okD(2) [OF assms]
  have z: "0 \<notin> N" using t by (simp add: tree_def)
  have "vfs_find_child d nm s = Some (child s d nm) \<and> (child s d nm \<noteq> 0 \<longrightarrow> child s d nm \<in> N)"
    if "d \<in> N" for d nm
    using child_kids [OF t that] child_iff [OF t that, of "child s d nm" nm] by auto
  moreover have "cross s n \<in> N" if "n \<in> N" for n
    using cross_cases [OF t m treeD(1) [OF t that]] that by (auto simp: root_ok_def dir_ok_def)
  ultimately show ?thesis unfolding searchable_def using z cross_ms(1) [OF t m] by blast
qed

text \<open>A node found by a walk is in use; if it has a parent nothing is mounted on it.\<close>

lemma vwalk_reached:
  assumes sp: "space_ok N kids ms s" and d: "root_ok N d s" and n: "vwalk s d cs \<noteq> 0"
  shows "vwalk s d cs \<in> N \<and>
    (vn_parent (vnodes s (vwalk s d cs)) = 0 \<longrightarrow> root_ok N (vwalk s d cs) s) \<and>
    (vn_parent (vnodes s (vwalk s d cs)) \<noteq> 0 \<longrightarrow> (\<forall>m \<in> set ms. mt_mountpoint (vmnts s m) \<noteq> vwalk s d cs))"
proof -
  note t = space_okD(1) [OF sp] and m = space_okD(2) [OF sp] and se = space_searchable [OF sp]
  have dn: "d \<in> N" using d by (simp add: root_ok_def dir_ok_def)
  show ?thesis
  proof (cases cs rule: rev_cases)
    case Nil
    then show ?thesis using d dn by (auto simp: root_ok_def)
  next
    case (snoc as a)
    define k where "k = vwalk s d as"
    define c where "c = child s k a"
    have w: "vwalk s d cs = (if c = 0 then 0 else cross s c)" by (simp add: snoc vwalk_append k_def c_def Let_def)
    have c0: "c \<noteq> 0" using n w by auto
    then have "k \<noteq> 0" by (auto simp: c_def child_def vfs_find_child_def)
    then have k: "k \<in> N" using vwalk_in [OF se dn, of as] by (simp add: k_def)
    have c: "c \<noteq> 0" "c \<in> N" "vn_parent (vnodes s c) = k" using c0 child_iff [OF t k c0, of a] by (auto simp: c_def)
    have "k \<noteq> 0" by (rule treeD(1) [OF t k])
    then show ?thesis using cross_cases [OF t m c(1)] c w by (auto simp: root_ok_def dir_ok_def)
  qed
qed

lemma resolve_reached:
  assumes "space_ok N kids ms s" "resolve s p \<noteq> 0"
  shows "resolve s p \<in> N" "vn_parent (vnodes s (resolve s p)) = 0 \<Longrightarrow> root_ok N (resolve s p) s"
    "vn_parent (vnodes s (resolve s p)) \<noteq> 0 \<Longrightarrow> m \<in> set ms \<Longrightarrow> mt_mountpoint (vmnts s m) \<noteq> resolve s p"
  using vwalk_reached [OF assms(1) mounts_okD(5) [OF space_okD(2) [OF assms(1)]], of "comps p"] assms(2)
  unfolding resolve_def by blast+

lemma vwalk_cong:
  assumes "searchable s N" "d \<in> N" "\<And>d nm. d \<in> N \<Longrightarrow> child t d nm = child s d nm" "\<And>n. n \<in> N \<Longrightarrow> cross t n = cross s n"
  shows "vwalk t d cs = vwalk s d cs"
  using assms(2)
proof (induction cs arbitrary: d)
  case (Cons c cs)
  then show ?case using searchable_child [OF assms(1)] assms(3,4) by (simp add: Let_def)
qed simp


text \<open>The cache after an operation that keeps the results of all walks, and after a reset.\<close>

lemma cache_ok_keep:
  assumes "cache_ok s" "vfs_cache t = vfs_cache s" "vfs_cache_gen t = vfs_cache_gen s"
    "\<And>p. resolve s p \<noteq> 0 \<Longrightarrow> resolve t p = resolve s p"
  shows "cache_ok t"
  using assms unfolding cache_ok_def by metis

lemma cache_ok_reset:
  assumes "length (vfs_cache s) = VFS_CACHE_SIZE"
  shows "cache_ok (vfs_cache_reset s)"
  using assms by (auto simp: cache_ok_def vfs_cache_reset_def)

text \<open>States with the same names, links and mounts.\<close>

definition same_space :: "u64 set \<Rightarrow> 'a vfs_state_scheme \<Rightarrow> 'a vfs_state_scheme \<Rightarrow> bool" where
  "same_space N s t \<longleftrightarrow> (\<forall>x \<in> N. vn_sibling (vnodes t x) = vn_sibling (vnodes s x) \<and> vn_parent (vnodes t x) = vn_parent (vnodes s x) \<and>
     vn_children (vnodes t x) = vn_children (vnodes s x) \<and> vn_name (vnodes t x) = vn_name (vnodes s x) \<and>
     vn_type (vnodes t x) = vn_type (vnodes s x) \<and> vn_unlinked (vnodes t x) = vn_unlinked (vnodes s x)) \<and>
     vmnts t = vmnts s \<and> vfs_mounts t = vfs_mounts s \<and> vfs_root t = vfs_root s \<and> vfs_root_mount t = vfs_root_mount s"

lemma same_spaceD:
  assumes "same_space N s t"
  shows "vmnts t = vmnts s" "vfs_mounts t = vfs_mounts s" "vfs_root t = vfs_root s" "vfs_root_mount t = vfs_root_mount s"
  using assms by (simp_all add: same_space_def)

lemma same_space_refl: "same_space N s s"
  by (simp add: same_space_def)

lemma same_space_dir:
  assumes "same_space N s t"
  shows "dir_ok N n t = dir_ok N n s" "root_ok N n t = root_ok N n s"
proof -
  have "n \<in> N \<Longrightarrow> vn_type (vnodes t n) = vn_type (vnodes s n) \<and> vn_unlinked (vnodes t n) = vn_unlinked (vnodes s n) \<and>
      vn_parent (vnodes t n) = vn_parent (vnodes s n)"
    using assms unfolding same_space_def by blast
  then show "dir_ok N n t = dir_ok N n s" "root_ok N n t = root_ok N n s" unfolding dir_ok_def root_ok_def by auto
qed

lemma space_ok_same:
  assumes "space_ok N kids ms s" "same_space N s t"
  shows "space_ok N kids ms t"
proof -
  have "tree (vnodes t) N kids"
    by (rule tree_cong [OF space_okD(1) [OF assms(1)]]) (use assms(2) in \<open>simp add: same_space_def\<close>)
  moreover have "mounts_ok N ms t"
    using space_okD(2) [OF assms(1)] unfolding mounts_ok_def same_space_dir [OF assms(2)] same_spaceD [OF assms(2)] .
  ultimately show ?thesis by (simp add: space_ok_def)
qed

lemma cross_same:
  assumes sp: "space_ok N kids ms s" and e: "same_space N s t"
  shows "cross t n = cross s n"
proof -
  note S = space_okD [OF sp] and T = space_okD [OF space_ok_same [OF sp e]]
  show ?thesis unfolding cross_ms(2) [OF S] cross_ms(2) [OF T] same_spaceD [OF e] ..
qed

lemma child_same:
  assumes sp: "space_ok N kids ms s" and e: "same_space N s t" and d: "d \<in> N"
  shows "child t d nm = child s d nm"
proof -
  note tr = space_okD(1) [OF sp] and tr' = space_okD(1) [OF space_ok_same [OF sp e]]
  show ?thesis
  proof (cases "child s d nm = 0")
    case True
    then have "child t d nm = 0" unfolding child_0 [OF tr d] child_0 [OF tr' d] using e by (simp add: same_space_def)
    then show ?thesis using True by simp
  next
    case False
    then show ?thesis using child_iff [OF tr d False] child_iff [OF tr' d False] e by (metis same_space_def)
  qed
qed

lemma vwalk_same:
  assumes "space_ok N kids ms s" "same_space N s t" "d \<in> N"
  shows "vwalk t d cs = vwalk s d cs"
  by (rule vwalk_cong [OF space_searchable [OF assms(1)] assms(3)]) (auto intro: child_same [OF assms(1,2)] cross_same [OF assms(1,2)])

lemma resolve_same:
  assumes "space_ok N kids ms s" "same_space N s t"
  shows "resolve t p = resolve s p"
  using vwalk_same [OF assms] mounts_okD(5) [OF space_okD(2) [OF assms(1)]] assms(2)
  by (simp add: resolve_def root_ok_def dir_ok_def same_space_def)

section \<open>Looking up a path\<close>

text \<open>
  The result of a lookup is that of a walk along some path: the one asked for, or, if it has 63
  bytes, one that begins with it.
\<close>

lemma cache_scan_ok:
  assumes "\<And>e. e \<in> set es \<Longrightarrow> ce_gen e = vfs_cache_gen s \<Longrightarrow> ce_path e \<noteq> [] \<Longrightarrow>
    ce_node e \<noteq> 0 \<and> (\<exists>p. take 63 p = ce_path e \<and> resolve s p = ce_node e)" and "cache_scan es p s \<noteq> 0"
  shows "\<exists>q. resolve s q = cache_scan es p s \<and> take 63 q = p"
  using assms
proof (induction es)
  case (Cons e es)
  have IH: "cache_scan es p s \<noteq> 0 \<Longrightarrow> \<exists>q. resolve s q = cache_scan es p s \<and> take 63 q = p"
    using Cons by simp
  show ?case
  proof (cases "cache_scan (e # es) p s = cache_scan es p s")
    case True
    then show ?thesis using IH Cons.prems(2) by simp
  next
    case False
    then have "ce_gen e = vfs_cache_gen s" "ce_path e \<noteq> []" "ce_path e = p" "cache_scan (e # es) p s = ce_node e"
      by (auto simp: Let_def split: if_splits)
    then show ?thesis using Cons.prems(1) [of e] by auto
  qed
qed simp

definition cache_only :: "'a vfs_state_scheme \<Rightarrow> 'a vfs_state_scheme \<Rightarrow> bool" where
  "cache_only s t \<longleftrightarrow> (\<exists>r c. t = s\<lparr>vfs_cache_rr := r, vfs_cache := c\<rparr>)"

lemma vfs_lookup_path:
  assumes sp: "space_ok N kids ms s" and ca: "cache_ok s"
  shows "\<exists>n t q. vfs_lookup (Some p) s = Some (n, t) \<and> (t = s \<or> n \<noteq> 0 \<and> n = resolve s p \<and> t = vfs_cache_insert (Some p) n s) \<and>
    resolve s q = n \<and> (q = p \<or> length p = 63 \<and> take 63 q = p \<and> n \<noteq> 0)"
proof -
  have r: "vfs_root s \<in> N" "vfs_root s \<noteq> 0"
    using mounts_okD(5) [OF space_okD(2) [OF sp]] treeD(1) [OF space_okD(1) [OF sp]] by (auto simp: root_ok_def dir_ok_def)
  have lw: "lookup_loop (vfs_root s) p s = Some (resolve s p)"
    unfolding resolve_def by (rule lookup_loop_walk [OF space_searchable [OF sp] r(1)])
  show ?thesis
  proof (cases "p = [slash] \<or> cache_scan (vfs_cache s) p s = 0")
    case True
    then show ?thesis
      using lw r(2) by (intro exI [of _ "resolve s p"] exI [of _ "if p = [slash] \<or> resolve s p = 0 then s else vfs_cache_insert (Some p) (resolve s p) s"] exI [of _ p])
        (auto simp: vfs_lookup_def vfs_cache_lookup_def resolve_def comps_slash)
  next
    case False
    define n where "n = cache_scan (vfs_cache s) p s"
    obtain q where q: "resolve s q = n" "take 63 q = p"
      using cache_scan_ok [of "vfs_cache s" s p] ca False by (auto simp: cache_ok_def n_def)
    have "q = p \<or> length p = 63" using q(2) by (cases "length q \<le> 63") auto
    moreover have "vfs_lookup (Some p) s = Some (n, s)"
      using False r(2) by (simp add: vfs_lookup_def vfs_cache_lookup_def n_def)
    moreover have "n \<noteq> 0" using False by (simp add: n_def)
    ultimately show ?thesis using q by (intro exI [of _ n] exI [of _ s] exI [of _ q]) auto
  qed
qed

lemma cache_insert_ok:
  assumes sp: "space_ok N kids ms s" and ca: "cache_ok s" and n: "resolve s p = n" "n \<noteq> 0"
  shows "cache_ok (vfs_cache_insert (Some p) n s)" "same_space N s (vfs_cache_insert (Some p) n s)"
proof -
  define t where "t = vfs_cache_insert (Some p) n s"
  show ss: "same_space N s (vfs_cache_insert (Some p) n s)" by (simp add: same_space_def)
  have rs: "resolve t q = resolve s q" for q unfolding t_def by (rule resolve_same [OF sp ss])
  obtain k e where t: "vfs_cache t = (vfs_cache s)[k := e]" "ce_path e = take 63 p" "ce_node e = n" "vfs_cache_gen t = vfs_cache_gen s"
    using n(2) by (auto simp: t_def vfs_cache_insert_def Let_def)
  have "set (vfs_cache t) \<subseteq> insert e (set (vfs_cache s))" unfolding t(1) by (rule set_update_subset_insert)
  then have "ce_node x \<noteq> 0 \<and> (\<exists>p. take 63 p = ce_path x \<and> resolve s p = ce_node x)"
    if "x \<in> set (vfs_cache t)" "ce_gen x = vfs_cache_gen s" "ce_path x \<noteq> []" for x
  proof (cases "x = e")
    case True
    then show ?thesis using n t(2,3) by auto
  next
    case False
    then have "x \<in> set (vfs_cache s)" using that(1) \<open>set (vfs_cache t) \<subseteq> _\<close> by auto
    then show ?thesis using ca that(2,3) unfolding cache_ok_def by blast
  qed
  then have "cache_ok t" using ca t unfolding cache_ok_def rs by simp
  then show "cache_ok (vfs_cache_insert (Some p) n s)" by (simp add: t_def)
qed

end
