(* ===== verification/VfsOps.thy ===== *)
theory VfsOps
  imports VfsInv
begin

text \<open>
  Every operation on nodes keeps the invariant of the file system, and what it does to the names: a new
  node is found under its path, a removed one is not, and all other paths lead where they led.
\<close>

section \<open>Changes outside the file system\<close>

lemma same_vfs_space: "same_vfs s t \<Longrightarrow> same_space N s t"
  using same_vfsD [of s t] by (simp add: same_space_def)

lemma data_ok_cong:
  assumes "data_ok i s" "vi_data i \<noteq> 0 \<Longrightarrow> hcap t (vi_data i) = hcap s (vi_data i)" "heap_inv s"
  shows "data_ok i t"
proof (cases "vi_capacity i = 0")
  case False
  then obtain c where "hcap s (vi_data i) = Some c" using assms(1) by (auto simp: data_ok_def)
  then have "vi_data i \<noteq> 0" using oh.cap_nonnull [OF assms(3)] by auto
  then show ?thesis using assms(1,2) False by (simp add: data_ok_def)
qed (use assms(1) in \<open>simp add: data_ok_def\<close>)

lemma owned_nonnull:
  assumes "vfs_ok F own kids ms s" "own p \<noteq> None"
  shows "p \<noteq> 0"
proof -
  have "hcap s p \<noteq> None" using assms vfs_okD(3) [OF assms(1)] unfolding objs_ok_def by blast
  then show ?thesis using oh.cap_nonnull [OF vfs_okD(1) [OF assms(1)]] by metis
qed

lemma inode_ok_keep:
  assumes "inode_ok own n s" "heap_inv s" "\<And>p. own p \<noteq> None \<Longrightarrow> hcap t p = hcap s p"
    and "vn_inode (vnodes t n) = vn_inode (vnodes s n)" "node_inode n t = node_inode n s"
  shows "inode_ok own n t"
proof -
  have "data_ok (node_inode n s) t"
    by (rule data_ok_cong [of _ s]) (use assms in \<open>auto simp: inode_ok_def node_inode_def Let_def\<close>)
  then show ?thesis using assms by (simp add: inode_ok_def node_inode_def Let_def)
qed

text \<open>
  A change that keeps the links, the references and what the inodes of the nodes hold. The owners
  of blocks that no longer belong to a node do not matter.
\<close>

definition keeps_nodes :: "owners \<Rightarrow> 'a vfs_state_scheme \<Rightarrow> 'a vfs_state_scheme \<Rightarrow> bool" where
  "keeps_nodes own s t \<longleftrightarrow> (\<forall>n \<in> nodes_of own. vnodes t n = vnodes s n \<and> node_inode n t = node_inode n s) \<and>
     vmnts t = vmnts s \<and> vfs_mounts t = vfs_mounts s \<and> vfs_root t = vfs_root s \<and> vfs_root_mount t = vfs_root_mount s \<and>
     vfiles t = vfiles s \<and> vfs_cache t = vfs_cache s \<and> vfs_cache_gen t = vfs_cache_gen s \<and>
     g_devfs_root t = g_devfs_root s \<and> g_pending_blocks t = g_pending_blocks s"

lemma keeps_nodesD:
  assumes "keeps_nodes own s t" "own n = Some ONode"
  shows "vnodes t n = vnodes s n" "node_inode n t = node_inode n s"
  using assms by (simp_all add: keeps_nodes_def)

lemma keeps_nodes_refl [simp]: "keeps_nodes own s s"
  by (simp add: keeps_nodes_def)

lemma keeps_nodes_trans: "keeps_nodes own s t \<Longrightarrow> keeps_nodes own t u \<Longrightarrow> keeps_nodes own s u"
  unfolding keeps_nodes_def by auto

lemma same_vfs_keeps: "same_vfs s t \<Longrightarrow> keeps_nodes own s t"
  using same_vfsD [of s t] by (simp add: keeps_nodes_def node_inode_def)

lemma keeps_space: "keeps_nodes own s t \<Longrightarrow> same_space (nodes_of own) s t"
  by (simp add: keeps_nodes_def same_space_def)

lemma vfs_ok_keeps:
  assumes ok: "vfs_ok F own kids ms s" and k: "keeps_nodes own s t" and h: "heap_inv t"
    and c: "\<And>p. own p \<noteq> None \<Longrightarrow> hcap t p = hcap s p"
  shows "vfs_ok F own kids ms t"
proof -
  note D = vfs_okD [OF ok]
  have ss: "same_space (nodes_of own) s t" by (rule keeps_space [OF k])
  have "inode_ok own n t" if "n \<in> nodes_of own" for n
  proof (rule inode_ok_keep [OF _ D(1) c])
    show "inode_ok own n s" using D(3) that by (simp add: objs_ok_def)
    show "vn_inode (vnodes t n) = vn_inode (vnodes s n)" "node_inode n t = node_inode n s" using k that by (simp_all add: keeps_nodes_def)
  qed
  moreover have "hcap t p \<noteq> None" if "own p \<noteq> None" for p using D(3) c [OF that] that unfolding objs_ok_def by metis
  ultimately have "objs_ok own ms t" using D(3) unfolding objs_ok_def by blast
  moreover have "refs_ok F (nodes_of own) t"
  proof -
    have "holders F n t = holders F n s" for n using k by (simp add: holders_def keeps_nodes_def)
    then show ?thesis using D(4) k unfolding refs_ok_def keeps_nodes_def by (simp add: refs_ok_def)
  qed
  moreover have "cache_ok t"
    by (rule cache_ok_keep [OF D(5)]) (use k resolve_same [OF D(2) ss] in \<open>simp_all add: keeps_nodes_def\<close>)
  moreover have "devs_ok (nodes_of own) t"
    using D(6) k unfolding devs_ok_def same_space_dir [OF ss] by (simp add: keeps_nodes_def)
  ultimately show ?thesis using space_ok_same [OF D(2) ss] h by (simp add: vfs_ok_def)
qed

text \<open>Allocation: the new block has no owner yet.\<close>

lemma kmalloc_vfs:
  assumes ok: "vfs_ok F own kids ms s" and n: "n \<noteq> 0" "unat n \<le> 2 ^ 42" and run: "kmalloc n s = Some (p, t)"
  shows "vfs_ok F own kids ms t" "p \<noteq> 0" "own p = None" "hcap t p \<noteq> None" "hcap s p = None" "same_vfs s t"
    "\<And>q. q \<noteq> p \<Longrightarrow> hcap t q = hcap s q"
proof -
  note a = oh.alloc_law [OF vfs_okD(1) [OF ok] n run]
  show v: "same_vfs s t" by (rule kmalloc_same_vfs [OF run])
  show c: "hcap t q = hcap s q" if "q \<noteq> p" for q using a that by auto
  show "own p = None" using a vfs_okD(3) [OF ok] by (auto simp: objs_ok_def)
  then have "hcap t q = hcap s q" if "own q \<noteq> None" for q using c [of q] that by (cases "q = p") auto
  then show "vfs_ok F own kids ms t" using vfs_ok_keeps [OF ok same_vfs_keeps [OF v]] a by blast
qed (use oh.alloc_law [OF vfs_okD(1) [OF ok] n run] in auto)

lemma kfree_vfs:
  assumes ok: "vfs_ok F own kids ms s" and p: "own p = None" "hcap s p \<noteq> None" and run: "kfree p s = Some t"
  shows "vfs_ok F own kids ms t" "same_vfs s t" "\<And>q. q \<noteq> p \<Longrightarrow> hcap t q = hcap s q"
proof -
  obtain c where c: "hcap s p = Some c" using p(2) by auto
  note r = oh.release_law [OF vfs_okD(1) [OF ok] c run]
  show v: "same_vfs s t" by (rule kfree_same_vfs [OF run])
  show e: "hcap t q = hcap s q" if "q \<noteq> p" for q using r that by simp
  then have "hcap t q = hcap s q" if "own q \<noteq> None" for q using that p(1) by (cases "q = p") auto
  then show "vfs_ok F own kids ms t" using vfs_ok_keeps [OF ok same_vfs_keeps [OF v]] r by blast
qed

section \<open>New nodes and mounts\<close>

text \<open>Writing to blocks that are no nodes or inodes.\<close>

lemma vfs_ok_upd_node:
  assumes ok: "vfs_ok F own kids ms s" and p: "own p = None"
  shows "vfs_ok F own kids ms (upd_vnode p f s)" "keeps_nodes own s (upd_vnode p f s)"
proof -
  show k: "keeps_nodes own s (upd_vnode p f s)" using p by (auto simp: keeps_nodes_def node_inode_def)
  show "vfs_ok F own kids ms (upd_vnode p f s)" by (rule vfs_ok_keeps [OF ok k]) (use vfs_okD(1) [OF ok] in simp_all)
qed

lemma vfs_ok_upd_inode:
  assumes ok: "vfs_ok F own kids ms s" and p: "own p = None"
  shows "vfs_ok F own kids ms (upd_vinode p f s)" "keeps_nodes own s (upd_vinode p f s)"
proof -
  have "vn_inode (vnodes s n) \<noteq> p" if "n \<in> nodes_of own" for n
    using vfs_okD(3) [OF ok] that p by (auto simp: objs_ok_def inode_ok_def Let_def)
  then show k: "keeps_nodes own s (upd_vinode p f s)" by (auto simp: keeps_nodes_def node_inode_def)
  show "vfs_ok F own kids ms (upd_vinode p f s)" by (rule vfs_ok_keeps [OF ok k]) (use vfs_okD(1) [OF ok] in simp_all)
qed

text \<open>A block becomes a node without parent.\<close>

lemma vfs_adopt:
  assumes ok: "vfs_ok F own kids ms s" and p: "own p = None" "own ip = None" "p \<noteq> ip" "p \<noteq> 0" "hcap s p \<noteq> None" "hcap s ip \<noteq> None"
    and nd: "vn_parent (vnodes s p) = 0" "vn_children (vnodes s p) = 0" "vn_inode (vnodes s p) = ip"
      "vn_ref_count (vnodes s p) = 1" "\<not> vn_unlinked (vnodes s p)"
    and i: "vi_fs_tag (vinodes s ip) = 0" "vi_flags (vinodes s ip) = 0" "vi_capacity (vinodes s ip) = 0" "vi_size (vinodes s ip) = 0" "vi_data (vinodes s ip) = 0"
  shows "vfs_ok F (own(p := Some ONode, ip := Some (OInode p))) (kids(p := [])) ms s"
proof -
  define own' where "own' = own(p := Some ONode, ip := Some (OInode p))"
  have N: "nodes_of own' = insert p (nodes_of own)" using p by (auto simp: own'_def nodes_of_def)
  note D = vfs_okD [OF ok]
  have sub: "dir_ok (nodes_of own) n s \<Longrightarrow> dir_ok (nodes_of own') n s" "root_ok (nodes_of own) n s \<Longrightarrow> root_ok (nodes_of own') n s" for n
    by (auto simp: dir_ok_def root_ok_def N)
  have "tree (vnodes s) (nodes_of own') (kids(p := []))"
    unfolding N by (rule tree_new [OF space_okD(1) [OF D(2)] p(4)]) (use p nd in simp_all)
  moreover have "mounts_ok (nodes_of own') ms s"
    using space_okD(2) [OF D(2)] sub unfolding mounts_ok_def by blast
  ultimately have sp: "space_ok (nodes_of own') (kids(p := [])) ms s" by (simp add: space_ok_def)
  have "inode_ok own' n s" if "n \<in> nodes_of own'" for n
  proof (cases "n = p")
    case True
    then show ?thesis using p nd i by (simp add: inode_ok_def Let_def own'_def data_ok_def)
  next
    case False
    then have "inode_ok own n s" using that D(3) by (auto simp: N objs_ok_def)
    then show ?thesis using p by (auto simp: inode_ok_def Let_def own'_def)
  qed
  then have "objs_ok own' ms s" using D(3) p by (auto simp: objs_ok_def own'_def)
  moreover have "refs_ok F (nodes_of own') s"
  proof -
    have "holders F p s = {}" using D(4) p by (auto simp: holders_def refs_ok_def)
    then show ?thesis using D(4) nd unfolding refs_ok_def N by auto
  qed
  moreover have "devs_ok (nodes_of own') s" using D(6) sub unfolding devs_ok_def by blast
  ultimately show ?thesis using D(1,5) sp by (simp add: vfs_ok_def own'_def)
qed

lemma vfs_alloc_inode_ok:
  assumes ok: "vfs_ok F own kids ms s" and run: "vfs_alloc_inode ty s = Some (ip, t)"
  shows "ip \<noteq> 0" "own ip = None" "hcap s ip = None" "hcap t ip \<noteq> None" "vfs_ok F own kids ms t" "keeps_nodes own s t"
    "vnodes t = vnodes s" "\<And>q. q \<noteq> ip \<Longrightarrow> hcap t q = hcap s q" "vfs_fs_drivers t = vfs_fs_drivers s" "vfs_ready t = vfs_ready s"
    "vinodes t ip = \<lparr>vi_type = ty, vi_flags = 0, vi_fs_tag = 0, vi_fs_aux = 0, vi_fs_ino = 0,
       vi_size = 0, vi_capacity = 0, vi_data = 0, vi_mmap_object = 0, vi_node_gen = 0\<rparr>"
proof -
  define g where "g = (\<lambda>_ :: vfs_inode. \<lparr>vi_type = ty, vi_flags = 0, vi_fs_tag = 0, vi_fs_aux = 0, vi_fs_ino = 0,
       vi_size = 0, vi_capacity = 0, vi_data = 0, vi_mmap_object = 0, vi_node_gen = 0\<rparr>)"
  obtain s1 where k: "kmalloc 64 s = Some (ip, s1)" and t: "ip \<noteq> 0 \<Longrightarrow> t = upd_vinode ip g s1"
    using run by (auto simp: vfs_alloc_inode_def g_def split: option.splits if_splits)
  have n: "(64::u64) \<noteq> 0" "unat (64::u64) \<le> 2 ^ 42" by simp_all
  note m = kmalloc_vfs [OF ok n k]
  note v = same_vfsD [OF m(6)]
  note u = vfs_ok_upd_inode [OF m(1,3), of g]
  have t': "t = upd_vinode ip g s1" using t m(2) by blast
  show "ip \<noteq> 0" "own ip = None" "hcap s ip = None" "hcap t ip \<noteq> None" using m by (simp_all add: t')
  show "vfs_ok F own kids ms t" "keeps_nodes own s t"
    using u keeps_nodes_trans [OF same_vfs_keeps [OF m(6)]] by (simp_all add: t')
  show "hcap t q = hcap s q" if "q \<noteq> ip" for q using m(7) [OF that] by (simp add: t')
  show "vnodes t = vnodes s" "vfs_fs_drivers t = vfs_fs_drivers s" "vfs_ready t = vfs_ready s"
    "vinodes t ip = \<lparr>vi_type = ty, vi_flags = 0, vi_fs_tag = 0, vi_fs_aux = 0, vi_fs_ino = 0,
       vi_size = 0, vi_capacity = 0, vi_data = 0, vi_mmap_object = 0, vi_node_gen = 0\<rparr>"
    using v by (simp_all add: t' g_def)
qed

text \<open>What \<^verbatim>\<open>vfs_alloc_node\<close> returns: a fresh node, everything else as before.\<close>

definition new_node :: "u64 \<Rightarrow> u64 \<Rightarrow> cstring \<Rightarrow> vfs_node_type \<Rightarrow> 'a vfs_state_scheme \<Rightarrow> bool" where
  "new_node p ip nm ty t \<longleftrightarrow> vnodes t p = \<lparr>vn_name = nm, vn_type = ty, vn_parent = 0, vn_sibling = 0, vn_children = 0,
     vn_inode = ip, vn_ref_count = 1, vn_unlinked = False\<rparr> \<and> vi_flags (vinodes t ip) = 0"

abbreviation owning :: "owners \<Rightarrow> u64 \<Rightarrow> u64 \<Rightarrow> owners" where
  "owning own p ip \<equiv> own(p := Some ONode, ip := Some (OInode p))"

abbreviation cut_name :: "cstring option \<Rightarrow> cstring" where
  "cut_name nm \<equiv> (case nm of None \<Rightarrow> [] | Some nm \<Rightarrow> take NAME_MAX nm)"

lemma vfs_alloc_node_ok:
  assumes ok: "vfs_ok F own kids ms s" and run: "vfs_alloc_node nm ty s = Some (p, t)"
  shows "\<exists>ip. p \<noteq> 0 \<and> own p = None \<and> own ip = None \<and> p \<noteq> ip \<and> keeps_nodes own s t \<and>
    vfs_fs_drivers t = vfs_fs_drivers s \<and> vfs_ready t = vfs_ready s \<and>
    vfs_ok F (owning own p ip) (kids(p := [])) ms t \<and> new_node p ip (cut_name nm) ty t"
proof -
  define nd where "nd = \<lparr>vn_name = cut_name nm, vn_type = ty, vn_parent = 0, vn_sibling = 0, vn_children = 0,
     vn_inode = 0, vn_ref_count = 1, vn_unlinked = False\<rparr>"
  have n: "(80::u64) \<noteq> 0" "unat (80::u64) \<le> 2 ^ 42" by simp_all
  obtain q s1 where k: "kmalloc 80 s = Some (q, s1)" using run by (auto simp: vfs_alloc_node_def split: option.splits)
  note m = kmalloc_vfs [OF ok n k]
  define s2 where "s2 = upd_vnode q (\<lambda>_. nd) s1"
  note u2 = vfs_ok_upd_node [OF m(1,3), of "\<lambda>_. nd", folded s2_def]
  obtain ip s3 where a: "vfs_alloc_inode ty s2 = Some (ip, s3)"
    using run k m(2) by (auto simp: vfs_alloc_node_def Let_def nd_def [symmetric] s2_def [symmetric] split: option.splits)
  note b = vfs_alloc_inode_ok [OF u2(1) a]
  have t: "p = q" "t = upd_vnode q (\<lambda>n. n\<lparr>vn_inode := ip\<rparr>) s3"
    using run k m(2) a b(1) by (auto simp: vfs_alloc_node_def Let_def nd_def [symmetric] s2_def [symmetric])
  note u4 = vfs_ok_upd_node [OF b(5) m(3), of "\<lambda>n. n\<lparr>vn_inode := ip\<rparr>", folded t(2)]
  have qi: "q \<noteq> ip" using b(3) m(4) by (auto simp: s2_def)
  have vq: "vnodes t q = nd\<lparr>vn_inode := ip\<rparr>" using b(7) by (simp add: t s2_def)
  have vi: "vinodes t ip = vinodes s3 ip" "hcap t = hcap s3" by (simp_all add: t)
  have "hcap s3 q \<noteq> None" using b(8) [OF qi] m(4) by (simp add: s2_def)
  then have "vfs_ok F (owning own q ip) (kids(q := [])) ms t"
    by (intro vfs_adopt [OF u4(1) m(3) b(2) qi m(2)]) (use b(4,11) vq in \<open>simp_all add: vi nd_def\<close>)
  moreover have "keeps_nodes own s t"
    using same_vfs_keeps [OF m(6)] u2(2) b(6) u4(2) keeps_nodes_trans by metis
  moreover have "vfs_fs_drivers t = vfs_fs_drivers s" "vfs_ready t = vfs_ready s"
    using b(9,10) same_vfsD [OF m(6)] by (simp_all add: t s2_def)
  ultimately show ?thesis using m(2,3) b(2,11) qi vq t(1) by (intro exI [of _ ip]) (simp add: new_node_def nd_def vi)
qed

section \<open>Adding a child\<close>

text \<open>Only links change: the parts of the invariant about blocks and references stay.\<close>

definition same_nodes :: "owners \<Rightarrow> 'a vfs_state_scheme \<Rightarrow> 'a vfs_state_scheme \<Rightarrow> bool" where
  "same_nodes own s t \<longleftrightarrow> (\<forall>n \<in> nodes_of own. vn_inode (vnodes t n) = vn_inode (vnodes s n) \<and> vn_type (vnodes t n) = vn_type (vnodes s n) \<and>
     vn_ref_count (vnodes t n) = vn_ref_count (vnodes s n) \<and> vn_unlinked (vnodes t n) = vn_unlinked (vnodes s n) \<and>
     (vn_unlinked (vnodes s n) \<longrightarrow> vn_parent (vnodes t n) = vn_parent (vnodes s n) \<and> vn_children (vnodes t n) = vn_children (vnodes s n))) \<and>
     vinodes t = vinodes s \<and> vfiles t = vfiles s \<and> hcap t = hcap s"

lemma same_nodesD:
  assumes "same_nodes own s t" "own n = Some ONode"
  shows "vn_inode (vnodes t n) = vn_inode (vnodes s n)" "vn_type (vnodes t n) = vn_type (vnodes s n)"
    "vn_unlinked (vnodes t n) = vn_unlinked (vnodes s n)" "vinodes t = vinodes s" "node_inode n t = node_inode n s"
  using assms by (simp_all add: same_nodes_def node_inode_def)

lemma same_nodes_objs:
  assumes "same_nodes own s t" "objs_ok own ms s"
  shows "objs_ok own ms t"
proof -
  have "inode_ok own n t = inode_ok own n s" if "n \<in> nodes_of own" for n
    using assms(1) that by (simp add: same_nodes_def inode_ok_def Let_def data_ok_def)
  then show ?thesis using assms by (simp add: objs_ok_def same_nodes_def)
qed

lemma same_nodes_refs:
  assumes "same_nodes own s t" "refs_ok F (nodes_of own) s"
  shows "refs_ok F (nodes_of own) t"
proof -
  have h: "holders F n t = holders F n s" for n using assms(1) by (simp add: holders_def same_nodes_def)
  have f: "vfiles t = vfiles s" using assms(1) by (simp add: same_nodes_def)
  show ?thesis using assms unfolding refs_ok_def h f by (simp add: same_nodes_def)
qed

lemma no_kids_lineage:
  assumes t: "tree v N kids" and c: "c \<in> N" "kids c = []" and d: "d \<in> N" "c \<noteq> d" and us: "linked (par v) d us"
  shows "c \<notin> set us"
proof
  assume "c \<in> set us"
  then obtain as bs where s: "us = as @ c # bs" "c \<notin> set as" by (metis split_list_first)
  then have "as \<noteq> []" using us d(2) by (cases as) auto
  then have "last as \<in> N" "par v (last as) = c"
  proof -
    show "last as \<in> N" using lineage_in [OF t us d(1)] s(1) last_in_set [OF \<open>as \<noteq> []\<close>] by auto
    have "us = butlast as @ last as # c # bs" using s(1) \<open>as \<noteq> []\<close> append_butlast_last_id [of as] by simp
    then have "linked (par v) (last as) (last as # c # bs)" using us linked_append by metis
    then show "par v (last as) = c" by auto
  qed
  then show False using treeD(4) [OF t c(1)] c(2) by auto
qed

text \<open>
  What a new entry \<open>nm\<close> for the empty node \<open>c\<close> in \<open>d\<close> does to a walk: what was found is
  still found, and a walk that ends with this step now reaches \<open>c\<close>.
\<close>

definition added :: "u64 \<Rightarrow> cstring \<Rightarrow> u64 \<Rightarrow> 'a vfs_state_scheme \<Rightarrow> 'a vfs_state_scheme \<Rightarrow> bool" where
  "added d nm c s t \<longleftrightarrow> (\<forall>p. resolve t p = (if resolve s p \<noteq> 0 then resolve s p
     else if comps p \<noteq> [] \<and> last (comps p) = nm \<and> vwalk s (vfs_root s) (butlast (comps p)) = d then c else 0))"

lemma vwalk_add:
  assumes se: "searchable s N" and r: "r \<in> N" and d: "d \<in> N"
    and ch: "\<And>x nm. x \<in> N \<Longrightarrow> child t x nm = (if x = d \<and> nm = nm0 then c else child s x nm)" and c0: "child s d nm0 = 0"
    and c: "c \<in> N" "\<And>nm. child t c nm = 0" "cross t c = c" and cr: "\<And>x. x \<in> N \<Longrightarrow> cross t x = cross s x"
  shows "vwalk t r cs = (if vwalk s r cs \<noteq> 0 then vwalk s r cs else if cs \<noteq> [] \<and> last cs = nm0 \<and> vwalk s r (butlast cs) = d then c else 0)"
  using r
proof (induction cs arbitrary: r)
  case Nil
  then show ?case using se by (auto simp: searchable_def)
next
  case (Cons a as)
  have dz: "d \<noteq> 0" using se d by (auto simp: searchable_def)
  show ?case
  proof (cases "r = d \<and> a = nm0")
    case True
    have z: "vwalk t c bs = (if bs = [] then c else 0)" for bs using c(2) by (cases bs) auto
    have "c \<noteq> 0" using se c(1) by (auto simp: searchable_def)
    then show ?thesis using True ch [OF Cons.prems, of a] c0 c(3) z dz by (auto simp: Let_def)
  next
    case False
    define k where "k = child s r a"
    have tk: "child t r a = k" using ch [OF Cons.prems, of a] False by (simp add: k_def)
    show ?thesis
    proof (cases "k = 0")
      case True
      then show ?thesis using tk False dz by (auto simp: Let_def k_def [symmetric])
    next
      case kz: False
      then have k: "k \<in> N" using searchable_child(2) [OF se Cons.prems] by (simp add: k_def)
      have "vwalk t r (a # as) = vwalk t (cross s k) as" "vwalk s r (a # as) = vwalk s (cross s k) as"
        using tk kz cr [OF k] by (simp_all add: Let_def k_def [symmetric])
      moreover have "vwalk s r (butlast (a # as)) = (if as = [] then r else vwalk s (cross s k) (butlast as))"
        using kz by (simp add: Let_def k_def [symmetric])
      ultimately show ?thesis using Cons.IH [OF searchable_child(4) [OF se k]] False searchable_child(4) [OF se k] se
        by (auto simp: searchable_def)
    qed
  qed
qed

lemma added_link:
  assumes sp: "space_ok N kids ms s" and sp': "space_ok N kids' ms t" and d: "d \<in> N"
    and c: "c \<in> N" "vn_parent (vnodes s c) = 0" "kids c = []" "c \<noteq> d" "\<And>m. m \<in> set ms \<Longrightarrow> mt_mountpoint (vmnts s m) \<noteq> c"
    and nm: "vn_name (vnodes s c) = nm" "child s d nm = 0"
    and w: "vn_parent (vnodes t c) = d" "\<And>x. x \<noteq> c \<Longrightarrow> vn_parent (vnodes t x) = vn_parent (vnodes s x)"
      "\<And>x. vn_name (vnodes t x) = vn_name (vnodes s x)" "vmnts t = vmnts s" "vfs_root t = vfs_root s"
  shows "added d nm c s t \<and> (\<forall>x \<in> N. \<forall>n. child t x n = (if x = d \<and> n = nm then c else child s x n))"
proof -
  note tr = space_okD(1) [OF sp] and mo = space_okD(2) [OF sp] and tr' = space_okD(1) [OF sp'] and mo' = space_okD(2) [OF sp']
  have cz: "c \<noteq> 0" by (rule treeD(1) [OF tr c(1)])
  have cr: "cross t x = cross s x" for x unfolding cross_ms(2) [OF tr mo] cross_ms(2) [OF tr' mo'] w(4) ..
  have cc: "cross t c = c" using cross_cases [OF tr mo cz] c(5) by (auto simp: cr)
  have ch: "child t x n = (if x = d \<and> n = nm then c else child s x n)" if x: "x \<in> N" for x n
  proof (cases "x = d \<and> n = nm")
    case True
    then show ?thesis using child_iff [OF tr' d cz] c(1) w nm(1) by simp
  next
    case False
    have xz: "x \<noteq> 0" by (rule treeD(1) [OF tr x])
    show ?thesis
    proof (cases "child s x n = 0")
      case True
      have "vn_name (vnodes t y) \<noteq> n" if "y \<in> N" "vn_parent (vnodes t y) = x" for y
        using that True False child_0 [OF tr x, of n] w nm(1) by (cases "y = c") auto
      then show ?thesis using child_0 [OF tr' x, of n] True False by auto
    next
      case yz: False
      define y where "y = child s x n"
      have y: "y \<in> N" "vn_parent (vnodes s y) = x" "vn_name (vnodes s y) = n" using child_iff [OF tr x yz, of n] by (simp_all add: y_def)
      then have "y \<noteq> c" using c(2) xz by auto
      then have "child t x n = y" using child_iff [OF tr' x, of y n] yz y w by (simp add: y_def)
      then show ?thesis using False y_def by auto
    qed
  qed
  have "vn_parent (vnodes t y) \<noteq> c" if "y \<in> N" for y
    using w c(3,4) treeD(4) [OF tr c(1)] that by (cases "y = c") auto
  then have "child t c n = 0" for n using child_0 [OF tr' c(1), of n] by blast
  note wk = vwalk_add [OF space_searchable [OF sp] _ d ch nm(2) c(1) this cc cr]
  have "vfs_root s \<in> N" using mounts_okD(5) [OF mo] by (simp add: root_ok_def dir_ok_def)
  from wk [OF this] have "added d nm c s t" unfolding added_def resolve_def w(5) by simp
  then show ?thesis using ch by blast
qed

lemma vfs_add_child_ok:
  assumes ok: "vfs_ok F own kids ms s" and d: "dir_ok (nodes_of own) d s"
    and c: "own c = Some ONode" "vn_parent (vnodes s c) = 0" "\<not> vn_unlinked (vnodes s c)" "kids c = []" "c \<noteq> d"
    and nr: "vfs_root s \<noteq> c" "\<And>m. m \<in> set ms \<Longrightarrow> mt_root (vmnts s m) \<noteq> c \<and> mt_mountpoint (vmnts s m) \<noteq> c" "g_devfs_root s \<noteq> c"
    and nm: "vn_name (vnodes s c) = nm" "child s d nm = 0"
  shows "\<exists>t. vfs_add_child d c s = (0, t) \<and> vfs_ok F own (kids(d := c # kids d)) ms t \<and> added d nm c s t \<and>
    dir_ok (nodes_of own) d t \<and> vfs_fs_drivers t = vfs_fs_drivers s \<and> vfs_ready t = vfs_ready s \<and> vfs_root t = vfs_root s \<and>
    same_nodes own s t \<and> (\<forall>x \<in> nodes_of own. \<forall>n. child t x n = (if x = d \<and> n = nm then c else child s x n)) \<and>
    (\<forall>x. dir_ok (nodes_of own) x s \<longrightarrow> dir_ok (nodes_of own) x t) \<and>
    (\<forall>x. root_ok (nodes_of own) x s \<longrightarrow> x \<noteq> c \<longrightarrow> root_ok (nodes_of own) x t) \<and> vfs_mounts t = vfs_mounts s \<and> g_devfs_root t = g_devfs_root s \<and>
    g_pending_blocks t = g_pending_blocks s"
proof -
  note D = vfs_okD [OF ok]
  note tr = space_okD(1) [OF D(2)] and mo = space_okD(2) [OF D(2)]
  define N where "N = nodes_of own"
  have dN: "d \<in> N" "vn_type (vnodes s d) = VFS_NODE_DIR" "\<not> vn_unlinked (vnodes s d)" using d by (auto simp: dir_ok_def N_def)
  have cN: "c \<in> N" using c(1) by (simp add: N_def)
  have nz: "d \<noteq> 0" "c \<noteq> 0" using treeD(1) [OF tr] dN cN by (auto simp: N_def)
  define t where "t = upd_vnode d (\<lambda>n. n\<lparr>vn_children := c\<rparr>)
    (upd_vnode c (\<lambda>n. n\<lparr>vn_sibling := vn_children (vnodes s d)\<rparr>) (upd_vnode c (\<lambda>n. n\<lparr>vn_parent := d\<rparr>) s))"
  have run: "vfs_add_child d c s = (0, t)" using nz dN c(5) by (simp add: vfs_add_child_def t_def Let_def)
  have w: "vnodes t c = (vnodes s c)\<lparr>vn_parent := d, vn_sibling := vn_children (vnodes s d)\<rparr>"
    "vnodes t d = (vnodes s d)\<lparr>vn_children := c\<rparr>" "\<And>x. x \<noteq> c \<Longrightarrow> x \<noteq> d \<Longrightarrow> vnodes t x = vnodes s x"
    using c(5) by (simp_all add: t_def)
  have tf: "vinodes t = vinodes s" "vmnts t = vmnts s" "vfs_mounts t = vfs_mounts s" "vfs_root t = vfs_root s"
    "vfs_root_mount t = vfs_root_mount s" "vfiles t = vfiles s" "vfs_cache t = vfs_cache s" "vfs_cache_gen t = vfs_cache_gen s"
    "g_devfs_root t = g_devfs_root s" "g_pending_blocks t = g_pending_blocks s" "hcap t = hcap s" "heap_inv t"
    "vfs_fs_drivers t = vfs_fs_drivers s" "vfs_ready t = vfs_ready s"
    using D(1) by (simp_all add: t_def)
  have nmd: "vn_name (vnodes s c) \<notin> (\<lambda>x. vn_name (vnodes s x)) ` set (kids d)"
    using nm child_0 [OF tr dN(1) [unfolded N_def], of nm] treeD(4) [OF tr dN(1) [unfolded N_def]] by auto
  obtain us where us: "linked (par (vnodes s)) d us" using treeD(7) [OF tr] dN by (auto simp: N_def)
  have cu: "c \<notin> set us" by (rule no_kids_lineage [OF tr _ c(4) _ c(5) us]) (use cN dN in \<open>simp_all add: N_def\<close>)
  have trt: "tree (vnodes t) N (kids(d := c # kids d))"
    unfolding N_def by (rule tree_add [OF tr _ dN(2) _ c(2) nmd us cu w]) (use cN dN in \<open>simp_all add: N_def\<close>)
  have dk: "dir_ok N n t = dir_ok N n s" for n using w by (cases "n = c"; cases "n = d") (auto simp: dir_ok_def)
  have rk: "root_ok N n t" if "root_ok N n s" "n \<noteq> c" for n using that dk w by (cases "n = d") (auto simp: root_ok_def)
  have mt: "mounts_ok N ms t" using mo nr rk unfolding mounts_ok_def N_def [symmetric] tf dk by blast
  have sp: "space_ok N (kids(d := c # kids d)) ms t" using trt mt by (simp add: space_ok_def)
  have sn: "same_nodes own s t"
  proof -
    have "vn_inode (vnodes t n) = vn_inode (vnodes s n) \<and> vn_type (vnodes t n) = vn_type (vnodes s n) \<and>
     vn_ref_count (vnodes t n) = vn_ref_count (vnodes s n) \<and> vn_unlinked (vnodes t n) = vn_unlinked (vnodes s n) \<and>
     (vn_unlinked (vnodes s n) \<longrightarrow> vn_parent (vnodes t n) = vn_parent (vnodes s n) \<and> vn_children (vnodes t n) = vn_children (vnodes s n))" for n
      using w c(3) dN(3) by (cases "n = c"; cases "n = d") auto
    then show ?thesis unfolding same_nodes_def tf by simp
  qed
  have ad: "added d nm c s t \<and> (\<forall>x \<in> nodes_of own. \<forall>n. child t x n = (if x = d \<and> n = nm then c else child s x n))"
  proof (rule added_link [OF D(2) sp [unfolded N_def]])
    show "vn_parent (vnodes t x) = vn_parent (vnodes s x)" if "x \<noteq> c" for x using w that by (cases "x = d") auto
    show "vn_name (vnodes t x) = vn_name (vnodes s x)" for x using w by (cases "x = c"; cases "x = d") auto
  qed (use cN dN c nr nm w tf in \<open>simp_all add: N_def\<close>)
  then have "cache_ok t" by (intro cache_ok_keep [OF D(5)]) (simp_all add: tf added_def)
  moreover have "devs_ok N t" using D(6) nr(3) rk unfolding devs_ok_def tf N_def [symmetric] by blast
  ultimately have "vfs_ok F own (kids(d := c # kids d)) ms t"
    using sp same_nodes_objs [OF sn D(3)] same_nodes_refs [OF sn D(4)] tf(12) by (simp add: vfs_ok_def N_def)
  then show ?thesis using run ad dk rk d tf(3,4,9,10,13,14) sn unfolding N_def by blast
qed

section \<open>The cache and path lookup\<close>

lemma vfs_ok_cache:
  fixes s t :: "'a vfs_state_scheme"
  assumes ok: "vfs_ok F own kids ms s" and e: "vnodes t = vnodes s" "vinodes t = vinodes s" "vmnts t = vmnts s" "vfiles t = vfiles s"
      "vfs_mounts t = vfs_mounts s" "vfs_root t = vfs_root s" "vfs_root_mount t = vfs_root_mount s" "g_devfs_root t = g_devfs_root s"
      "g_pending_blocks t = g_pending_blocks s" "hcap t = hcap s" "heap_inv t" and c: "cache_ok t"
  shows "vfs_ok F own kids ms t" "\<And>p. resolve t p = resolve s p" "\<And>d cs. d \<in> nodes_of own \<Longrightarrow> vwalk t d cs = vwalk s d cs"
    "\<And>d nm. d \<in> nodes_of own \<Longrightarrow> child t d nm = child s d nm"
proof -
  note D = vfs_okD [OF ok]
  have ss: "same_space (nodes_of own) s t" using e by (simp add: same_space_def)
  have sn: "same_nodes own s t" using e by (simp add: same_nodes_def)
  show "resolve t p = resolve s p" for p by (rule resolve_same [OF D(2) ss])
  show "vwalk t d cs = vwalk s d cs" if "d \<in> nodes_of own" for d cs by (rule vwalk_same [OF D(2) ss that])
  show "child t d nm = child s d nm" if "d \<in> nodes_of own" for d nm
    using child_kids(2) [OF space_okD(1) [OF D(2)] that] child_kids(2) [OF space_okD(1) [OF space_ok_same [OF D(2) ss]] that]
    by (simp add: e)
  have "devs_ok (nodes_of own) t" using D(6) unfolding devs_ok_def same_space_dir [OF ss] e .
  then show "vfs_ok F own kids ms t"
    using space_ok_same [OF D(2) ss] same_nodes_objs [OF sn D(3)] same_nodes_refs [OF sn D(4)] e(11) c by (simp add: vfs_ok_def)
qed

lemma vfs_ok_reset:
  assumes "vfs_ok F own kids ms s"
  shows "vfs_ok F own kids ms (vfs_cache_reset s)" "resolve (vfs_cache_reset s) p = resolve s p"
proof -
  have "cache_ok (vfs_cache_reset s)" using vfs_okD(5) [OF assms] by (intro cache_ok_reset) (simp add: cache_ok_def)
  from vfs_ok_cache [OF assms _ _ _ _ _ _ _ _ _ _ _ this] vfs_okD(1) [OF assms]
  show "vfs_ok F own kids ms (vfs_cache_reset s)" "resolve (vfs_cache_reset s) p = resolve s p" by simp_all
qed

text \<open>
  \<open>looked_up\<close>: the state after a lookup differs in the cache only. The node is the one at the path,
  except that for a path of 63 bytes it can be the one at a longer path.
\<close>

definition looked_up :: "cstring \<Rightarrow> u64 \<Rightarrow> 'a vfs_state_scheme \<Rightarrow> 'a vfs_state_scheme \<Rightarrow> bool" where
  "looked_up p n s t \<longleftrightarrow> (\<exists>q. resolve s q = n \<and> (q = p \<or> length p = 63 \<and> take 63 q = p \<and> n \<noteq> 0)) \<and>
     (\<forall>q. resolve t q = resolve s q) \<and> vnodes t = vnodes s \<and> vinodes t = vinodes s \<and> vfiles t = vfiles s \<and> vfs_root t = vfs_root s \<and>
     vfs_fs_drivers t = vfs_fs_drivers s \<and> vfs_ready t = vfs_ready s \<and> vmnts t = vmnts s \<and> vfs_mounts t = vfs_mounts s \<and>
     vfs_root_mount t = vfs_root_mount s \<and> hcap t = hcap s \<and> hbyte t = hbyte s"

lemma vfs_lookup_ok:
  assumes ok: "vfs_ok F own kids ms s"
  shows "\<exists>n t. vfs_lookup (Some p) s = Some (n, t) \<and> vfs_ok F own kids ms t \<and> looked_up p n s t"
proof -
  note D = vfs_okD [OF ok]
  obtain n t q where l: "vfs_lookup (Some p) s = Some (n, t)" "t = s \<or> n \<noteq> 0 \<and> n = resolve s p \<and> t = vfs_cache_insert (Some p) n s"
    "resolve s q = n" "q = p \<or> length p = 63 \<and> take 63 q = p \<and> n \<noteq> 0"
    using vfs_lookup_path [OF D(2,5), of p] by blast
  show ?thesis
  proof (cases "t = s")
    case True
    then show ?thesis using l ok by (auto simp: looked_up_def)
  next
    case False
    then have n: "n \<noteq> 0" "resolve s p = n" and t: "t = vfs_cache_insert (Some p) n s" using l(2) by auto
    note c = cache_insert_ok(1) [OF D(2,5) n(2,1), folded t]
    have "vfs_ok F own kids ms t" "resolve t p = resolve s p" for p
      using vfs_ok_cache(1,2) [OF ok _ _ _ _ _ _ _ _ _ _ _ c] D(1) by (simp_all add: t)
    then show ?thesis using l(1,3,4) by (intro exI [of _ n] exI [of _ t]) (auto simp: looked_up_def t)
  qed
qed

lemma vfs_resolve_parent_ok:
  assumes ok: "vfs_ok F own kids ms s"
  shows "\<exists>d nm. vfs_resolve_parent (Some p) s = Some (d, nm) \<and>
    (d = 0 \<or> comps p \<noteq> [] \<and> nm = last (comps p) \<and> d = vwalk s (vfs_root s) (butlast (comps p)) \<and>
      dir_ok (nodes_of own) d s \<and> length nm \<le> NAME_MAX \<and> nm \<noteq> [])"
proof -
  note D = vfs_okD [OF ok]
  note tr = space_okD(1) [OF D(2)] and mo = space_okD(2) [OF D(2)] and se = space_searchable [OF D(2)]
  have r: "vfs_root s \<in> nodes_of own" "vn_type (vnodes s (vfs_root s)) = VFS_NODE_DIR"
    using mounts_okD(5) [OF mo] by (simp_all add: root_ok_def dir_ok_def)
  have rz: "vfs_root s \<noteq> 0" by (rule treeD(1) [OF tr r(1)])
  have dirs: "vn_type (vnodes s (cross s n)) = vn_type (vnodes s n)" if "n \<in> nodes_of own" for n
    using cross_cases [OF tr mo treeD(1) [OF tr that]] by (auto simp: root_ok_def dir_ok_def)
  have ft: "child s n nm = 0" if "n \<in> nodes_of own" "vn_type (vnodes s n) \<noteq> VFS_NODE_DIR" for n nm
    using that by (simp add: child_def vfs_find_child_def)
  note l = resolve_parent_loop_walk [OF se r dirs ft, of p]
  show ?thesis
  proof (cases "comps p = []")
    case True
    then show ?thesis using l rz by (auto simp: vfs_resolve_parent_def)
  next
    case False
    define d where "d = vwalk s (vfs_root s) (butlast (comps p))"
    have "p \<noteq> [slash]" using False comps_slash by auto
    then have e: "vfs_resolve_parent (Some p) s = Some (if d = 0 \<or> vn_type (vnodes s d) \<noteq> VFS_NODE_DIR then (0, []) else (d, last (comps p)))"
      using l rz False by (simp add: vfs_resolve_parent_def d_def Let_def)
    have "dir_ok (nodes_of own) d s" if "d \<noteq> 0" "vn_type (vnodes s d) = VFS_NODE_DIR"
    proof -
      note w = vwalk_reached [OF D(2) mounts_okD(5) [OF mo], of "butlast (comps p)", folded d_def, OF that(1)]
      have "\<not> vn_unlinked (vnodes s d)" if "vn_parent (vnodes s d) \<noteq> 0" using D(4) w that by (auto simp: refs_ok_def)
      then show ?thesis using w that(2) by (auto simp: dir_ok_def root_ok_def)
    qed
    moreover have "length (last (comps p)) \<le> 31 \<and> last (comps p) \<noteq> []" using comps_length last_in_set [OF False] by blast
    ultimately show ?thesis using e False by (auto simp: d_def)
  qed
qed

section \<open>Creating nodes\<close>

definition created :: "u64 \<Rightarrow> cstring \<Rightarrow> u64 \<Rightarrow> vfs_node_type \<Rightarrow> owners \<Rightarrow> owners \<Rightarrow> 'a vfs_state_scheme \<Rightarrow> 'a vfs_state_scheme \<Rightarrow> bool" where
  "created d nm n ty own own' s t \<longleftrightarrow> n \<noteq> 0 \<and> own n = None \<and> own' n = Some ONode \<and> (\<forall>x. own x \<noteq> None \<longrightarrow> own' x = own x) \<and>
     added d nm n s t \<and> vn_type (vnodes t n) = ty \<and> vn_inode (vnodes t n) \<noteq> 0 \<and> vi_flags (node_inode n t) = 0 \<and>
     (\<forall>x \<in> nodes_of own. vn_inode (vnodes t x) = vn_inode (vnodes s x) \<and> node_inode x t = node_inode x s \<and> vn_type (vnodes t x) = vn_type (vnodes s x)) \<and>
     vfiles t = vfiles s \<and> vfs_root t = vfs_root s \<and> vfs_ready t = vfs_ready s \<and> vfs_fs_drivers t = vfs_fs_drivers s"

lemma vfs_create_node_ok:
  assumes ok: "vfs_ok F own kids ms s" and d: "dir_ok (nodes_of own) d s" and nm: "child s d nm = 0" "length nm \<le> NAME_MAX"
    and run: "vfs_create_node d nm ty s = Some (n, t)"
  shows "\<exists>own' kids'. vfs_ok F own' kids' ms t \<and> created d nm n ty own own' s t"
proof -
  note D = vfs_okD [OF ok]
  obtain q s1 where a: "vfs_alloc_node (Some nm) ty s = Some (q, s1)"
    using run by (auto simp: vfs_create_node_def split: option.splits)
  obtain ip where A: "q \<noteq> 0" "own q = None" "own ip = None" "q \<noteq> ip" "keeps_nodes own s s1"
    "vfs_fs_drivers s1 = vfs_fs_drivers s" "vfs_ready s1 = vfs_ready s"
    "vfs_ok F (owning own q ip) (kids(q := [])) ms s1" "new_node q ip nm ty s1"
    using vfs_alloc_node_ok [OF ok a] nm(2) by auto
  define own' where "own' = owning own q ip"
  have ss: "same_space (nodes_of own) s s1" by (rule keeps_space [OF A(5)])
  have N: "nodes_of own' = insert q (nodes_of own)" using A(2,3,4) by (auto simp: own'_def nodes_of_def)
  have dk: "dir_ok (nodes_of own') d s1" using d same_space_dir(1) [OF ss, of d] by (auto simp: dir_ok_def N)
  have dN: "d \<in> nodes_of own" using d by (simp add: dir_ok_def)
  have nq: "n \<noteq> q" if "n \<in> nodes_of own" for n using that A(2) by auto
  note mo = space_okD(2) [OF D(2)] and f = A(9) [unfolded new_node_def]
  have rt: "vfs_root s1 \<noteq> q" "g_devfs_root s1 \<noteq> q"
    "\<And>m. m \<in> set ms \<Longrightarrow> mt_root (vmnts s1 m) \<noteq> q \<and> mt_mountpoint (vmnts s1 m) \<noteq> q"
    using mounts_okD(3,4,5) [OF mo] D(6) A(1,5) nq by (auto simp: root_ok_def dir_ok_def keeps_nodes_def devs_ok_def)
  have ch: "child s1 d nm = 0" using child_same [OF D(2) ss dN] nm(1) by simp
  obtain s2 where B: "vfs_add_child d q s1 = (0, s2)" "vfs_ok F own' ((kids(q := []))(d := q # (kids(q := [])) d)) ms s2"
    "added d nm q s1 s2" "vfs_fs_drivers s2 = vfs_fs_drivers s1" "vfs_ready s2 = vfs_ready s1" "vfs_root s2 = vfs_root s1" "same_nodes own' s1 s2"
    using vfs_add_child_ok [OF A(8) [folded own'_def] dk _ _ _ _ _ rt(1,3,2) _ ch] A(2-4) f nq [OF dN] by (auto simp: own'_def)
  have t: "n = q" "t = vfs_cache_reset s2" using run a A(1) B(1) by (simp_all add: vfs_create_node_def)
  have "added d nm q s t"
    using B(3) resolve_same [OF D(2) ss] vwalk_same [OF D(2) ss] mounts_okD(5) [OF mo] same_spaceD(3) [OF ss]
      vfs_ok_reset(2) [OF B(2)] by (simp add: added_def t(2) root_ok_def dir_ok_def)
  moreover have "vn_inode (vnodes t x) = vn_inode (vnodes s x) \<and> node_inode x t = node_inode x s \<and> vn_type (vnodes t x) = vn_type (vnodes s x)"
    if "x \<in> nodes_of own" for x
  proof -
    have x: "own x = Some ONode" "own' x = Some ONode" using that N by auto
    show ?thesis using keeps_nodesD [OF A(5) x(1)] same_nodesD [OF B(7) x(2)] by (simp add: t(2) node_inode_def)
  qed
  moreover have "own' x = own x" if "own x \<noteq> None" for x using that A(2,3) by (auto simp: own'_def)
  moreover have "vn_type (vnodes t q) = ty" "vn_inode (vnodes t q) = ip" "vi_flags (node_inode q t) = 0" "vfiles t = vfiles s"
  proof -
    have x: "own' q = Some ONode" using N by auto
    show "vn_type (vnodes t q) = ty" "vn_inode (vnodes t q) = ip" "vi_flags (node_inode q t) = 0"
      using same_nodesD [OF B(7) x] f by (simp_all add: t(2) node_inode_def)
    show "vfiles t = vfiles s" using A(5) B(7) by (simp add: t(2) same_nodes_def keeps_nodes_def)
  qed
  moreover have "ip \<noteq> 0" by (rule owned_nonnull [OF B(2)]) (simp add: own'_def)
  ultimately show ?thesis using vfs_ok_reset(1) [OF B(2)] A B(4-6) t N same_spaceD(3) [OF ss]
    by (intro exI [of _ own'] exI [of _ "(kids(q := []))(d := q # (kids(q := [])) d)"]) (auto simp: created_def own'_def)
qed

lemma vfs_mkdir_ok:
  assumes ok: "vfs_ok F own kids ms s" and run: "vfs_mkdir (Some p) s = Some (rc, t)"
  shows "t = s \<and> (rc = RDNX_OK \<longrightarrow> comps p = [] \<or> child s (vwalk s (vfs_root s) (butlast (comps p))) (last (comps p)) \<noteq> 0) \<or>
    rc = RDNX_OK \<and> comps p \<noteq> [] \<and> (\<exists>d nm n own' kids'. vfs_ok F own' kids' ms t \<and> nm = last (comps p) \<and>
      d = vwalk s (vfs_root s) (butlast (comps p)) \<and> d \<noteq> 0 \<and> child s d nm = 0 \<and> created d nm n VFS_NODE_DIR own own' s t)"
proof -
  note D = vfs_okD [OF ok]
  obtain d nm where r: "vfs_resolve_parent (Some p) s = Some (d, nm)"
    "d = 0 \<or> comps p \<noteq> [] \<and> nm = last (comps p) \<and> d = vwalk s (vfs_root s) (butlast (comps p)) \<and>
      dir_ok (nodes_of own) d s \<and> length nm \<le> NAME_MAX \<and> nm \<noteq> []"
    using vfs_resolve_parent_ok [OF ok] by blast
  have rz: "vfs_root s \<noteq> 0" using mounts_okD(5) [OF space_okD(2) [OF D(2)]] owned_nonnull [OF ok] by (simp add: root_ok_def dir_ok_def)
  show ?thesis
  proof (cases "p = [slash] \<or> d = 0")
    case True
    then show ?thesis using run r(1) rz comps_slash by (auto simp: vfs_mkdir_def split: if_splits)
  next
    case False
    then have d: "comps p \<noteq> []" "nm = last (comps p)" "d = vwalk s (vfs_root s) (butlast (comps p))"
      "dir_ok (nodes_of own) d s" "length nm \<le> NAME_MAX" using r(2) by auto
    have dN: "d \<in> nodes_of own" using d(4) by (simp add: dir_ok_def)
    then have tg: "vi_fs_tag (node_inode d s) = 0" using D(3) by (simp add: objs_ok_def inode_ok_def Let_def node_inode_def)
    note fc = searchable_child(1) [OF space_searchable [OF D(2)] dN, of nm]
    show ?thesis
    proof (cases "child s d nm = 0")
      case c0: True
      obtain n where c: "vfs_create_node d nm VFS_NODE_DIR s = Some (n, t)" "rc = (if n \<noteq> 0 then RDNX_OK else RDNX_E_NOMEM)"
        using run False r(1) rz tg fc c0 by (auto simp: vfs_mkdir_def split: option.splits)
      obtain own' kids' where w: "vfs_ok F own' kids' ms t" "created d nm n VFS_NODE_DIR own own' s t"
        using vfs_create_node_ok [OF ok d(4) c0 d(5) c(1)] by blast
      have "rc = RDNX_OK" using c(2) w(2) by (simp add: created_def)
      then show ?thesis using w d c0 False by blast
    next
      case c1: False
      then have "t = s" using run False r(1) rz tg fc by (simp add: vfs_mkdir_def)
      then show ?thesis using c1 d by simp
    qed
  qed
qed

section \<open>Releasing nodes\<close>

text \<open>
  A node that has been taken out of its directory and that holds one reference more than it has
  holders; the rest of the invariant is that of \<open>vfs_ok\<close>.
\<close>

definition dangling :: "u64 set \<Rightarrow> owners \<Rightarrow> (u64 \<Rightarrow> u64 list) \<Rightarrow> u64 list \<Rightarrow> u64 \<Rightarrow> 'a vfs_state_scheme \<Rightarrow> bool" where
  "dangling F own kids ms n s \<longleftrightarrow> heap_inv s \<and> space_ok (nodes_of own) kids ms s \<and> objs_ok own ms s \<and> cache_ok s \<and> devs_ok (nodes_of own) s \<and>
     finite F \<and> own n = Some ONode \<and> vn_unlinked (vnodes s n) \<and> vn_parent (vnodes s n) = 0 \<and> vn_children (vnodes s n) = 0 \<and>
     unat (vn_ref_count (vnodes s n)) = 1 + card (holders F n s) \<and>
     (\<forall>x \<in> nodes_of own - {n}. unat (vn_ref_count (vnodes s x)) = (if vn_unlinked (vnodes s x) then 0 else 1) + card (holders F x s) \<and>
        (vn_unlinked (vnodes s x) \<longrightarrow> vn_parent (vnodes s x) = 0 \<and> vn_children (vnodes s x) = 0 \<and> holders F x s \<noteq> {})) \<and>
     (\<forall>fp \<in> F. vf_node (vfiles s fp) \<in> nodes_of own \<and> vn_type (vnodes s (vf_node (vfiles s fp))) = VFS_NODE_FILE)"

text \<open>The blocks of a node without holders are given up.\<close>

definition without :: "owners \<Rightarrow> u64 \<Rightarrow> 'a vfs_state_scheme \<Rightarrow> owners" where
  "without own n s = own(n := None, vn_inode (vnodes s n) := None, vi_data (node_inode n s) := None)"

lemma dangling_forget:
  assumes g: "dangling F own kids ms n s" and h: "holders F n s = {}"
  shows "vfs_ok F (without own n s) kids ms s"
proof -
  note G = g [unfolded dangling_def]
  define own' where "own' = without own n s"
  have io: "own (vn_inode (vnodes s n)) = Some (OInode n)" "vi_data (node_inode n s) \<noteq> 0 \<longrightarrow> own (vi_data (node_inode n s)) = Some (OData n)"
    using G by (auto simp: objs_ok_def inode_ok_def Let_def node_inode_def)
  have hz: "hcap s 0 = None" using G oh.cap_nonnull by blast
  then have z: "own 0 = None" using G unfolding objs_ok_def by metis
  have N: "nodes_of own' = nodes_of own - {n}"
    using io z by (auto simp: own'_def without_def nodes_of_def)
  have keep: "own' x = own x" if "x \<noteq> n" "own x \<noteq> Some (OInode n)" "own x \<noteq> Some (OData n)" for x
    using that io z by (auto simp: own'_def without_def)
  have tr: "tree (vnodes s) (nodes_of own) kids" and mo: "mounts_ok (nodes_of own) ms s" using G by (simp_all add: space_ok_def)
  have kn: "kids n = []" using tree_children_0 [OF tr] G by auto
  have "tree (vnodes s) (nodes_of own') kids" unfolding N by (rule tree_free [OF tr]) (use G kn in simp_all)
  moreover have "mounts_ok (nodes_of own') ms s"
    using mo G unfolding mounts_ok_def N root_ok_def dir_ok_def by auto
  ultimately have "space_ok (nodes_of own') kids ms s" by (simp add: space_ok_def)
  moreover have "inode_ok own' x s" if "x \<in> nodes_of own'" for x
  proof -
    have x: "x \<in> nodes_of own" "x \<noteq> n" using that N by auto
    then have i: "inode_ok own x s" using G by (simp add: objs_ok_def)
    have on: "own n = Some ONode" using G by blast
    have "own' (vn_inode (vnodes s x)) = own (vn_inode (vnodes s x))"
      by (rule keep) (use i on x in \<open>auto simp: inode_ok_def Let_def\<close>)
    moreover have "own' (vi_data (node_inode x s)) = own (vi_data (node_inode x s))" if "vi_data (node_inode x s) \<noteq> 0"
      by (rule keep) (use i on x that in \<open>auto simp: inode_ok_def Let_def node_inode_def\<close>)
    ultimately show ?thesis using i by (simp add: inode_ok_def Let_def node_inode_def)
  qed
  moreover have "own' m = Some OMount" if "m \<in> set ms" for m
  proof -
    have "own m = Some OMount" "own n = Some ONode" using G that by (simp_all add: objs_ok_def)
    then show ?thesis using keep [of m] by (cases "m = n") auto
  qed
  moreover have "hcap s x \<noteq> None" if "own' x \<noteq> None" for x
  proof -
    have "own x \<noteq> None" using that by (auto simp: own'_def without_def split: if_splits)
    then show ?thesis using G unfolding objs_ok_def by blast
  qed
  ultimately have "objs_ok own' ms s" "space_ok (nodes_of own') kids ms s" by (simp_all add: objs_ok_def)
  moreover have "refs_ok F (nodes_of own') s" using G h unfolding refs_ok_def N holders_def by auto
  moreover have "devs_ok (nodes_of own') s" using G unfolding devs_ok_def N root_ok_def dir_ok_def by auto
  ultimately show ?thesis using G by (simp add: vfs_ok_def own'_def)
qed

lemma vfs_free_node_ok:
  assumes ok: "vfs_ok F own kids ms s" and n: "own n = None" "hcap s n \<noteq> None" "n \<noteq> 0"
    and ip: "vn_inode (vnodes s n) = ip" "own ip = None" "hcap s ip \<noteq> None" "ip \<noteq> 0" "ip \<noteq> n"
    and d: "vi_data (vinodes s ip) = d" "d \<noteq> 0 \<Longrightarrow> own d = None \<and> hcap s d \<noteq> None \<and> d \<noteq> n \<and> d \<noteq> ip"
    and run: "vfs_free_node n s = Some t"
  shows "vfs_ok F own kids ms t" "keeps_nodes own s t" "vfs_ready t = vfs_ready s" "vfs_fs_drivers t = vfs_fs_drivers s"
proof -
  define s1 where "s1 = upd_vinode ip (\<lambda>i. i\<lparr>vi_node_gen := vi_node_gen i + 1\<rparr>) s"
  note u1 = vfs_ok_upd_inode [OF ok ip(2), of "\<lambda>i. i\<lparr>vi_node_gen := vi_node_gen i + 1\<rparr>", folded s1_def]
  have h1: "hcap s1 = hcap s" "vi_data (vinodes s1 ip) = d" using d(1) by (simp_all add: s1_def)
  obtain s2 s3 where r: "(if d \<noteq> 0 then kfree d s1 else Some s1) = Some s2" "kfree ip s2 = Some s3" "kfree n s3 = Some t"
    using run n(3) ip(1,4) h1(2) by (auto simp: vfs_free_node_def free_inode_def Let_def s1_def [symmetric] split: option.splits)
  have e2: "vfs_ok F own kids ms s2 \<and> same_vfs s1 s2 \<and> (\<forall>q. q \<noteq> d \<or> d = 0 \<longrightarrow> hcap s2 q = hcap s q)"
  proof (cases "d = 0")
    case True
    then show ?thesis using r(1) u1(1) h1 by simp
  next
    case False
    then have k: "kfree d s1 = Some s2" and p: "own d = None" "hcap s1 d \<noteq> None" using r(1) d(2) h1 by auto
    from kfree_vfs [OF u1(1) p k] show ?thesis using h1 False by auto
  qed
  have "hcap s2 ip \<noteq> None" using e2 ip(3) d(2) by metis
  note e3 = kfree_vfs [OF e2 [THEN conjunct1] ip(2) this r(2)]
  have "hcap s3 n \<noteq> None" using e2 e3(3) n(2) d(2) ip(5) by metis
  note e4 = kfree_vfs [OF e3(1) n(1) this r(3)]
  show "vfs_ok F own kids ms t" by (rule e4(1))
  have v: "same_vfs s1 t" using e2 e3(2) e4(2) same_vfs_trans by blast
  show "keeps_nodes own s t" using keeps_nodes_trans [OF u1(2) same_vfs_keeps [OF v]] .
  show "vfs_ready t = vfs_ready s" "vfs_fs_drivers t = vfs_fs_drivers s" using same_vfsD [OF v] by (simp_all add: s1_def)
qed

text \<open>
  What remains after a release: the same names, mounts and files; only the node itself can be gone.
\<close>

definition released :: "u64 \<Rightarrow> owners \<Rightarrow> owners \<Rightarrow> 'a vfs_state_scheme \<Rightarrow> 'a vfs_state_scheme \<Rightarrow> bool" where
  "released n own own' s t \<longleftrightarrow> (\<forall>x. own' x = None \<or> own' x = own x) \<and> (\<forall>x \<in> nodes_of own - {n}. own' x = Some ONode) \<and>
     (\<forall>p. resolve t p = resolve s p) \<and> vfiles t = vfiles s \<and> vfs_ready t = vfs_ready s \<and> vfs_fs_drivers t = vfs_fs_drivers s \<and> vfs_root t = vfs_root s"

lemma vfs_node_release_ok:
  assumes g: "dangling F own kids ms n s" and run: "vfs_node_release n s = Some t"
  shows "\<exists>own'. vfs_ok F own' kids ms t \<and> released n own own' s t"
proof -
  note G = g [unfolded dangling_def]
  define s1 where "s1 = upd_vnode n (\<lambda>n. n\<lparr>vn_ref_count := vn_ref_count n - 1\<rparr>) s"
  have own0: "own 0 = None" using G oh.cap_nonnull unfolding objs_ok_def by metis
  then have nz: "n \<noteq> 0" using G by auto
  have rz: "vn_ref_count (vnodes s n) \<noteq> 0" using G by (metis unat_0 add_is_0 one_neq_zero)
  then have r1: "unat (vn_ref_count (vnodes s1 n)) = card (holders F n s)"
    using G by (simp add: s1_def unat_minus_one)
  have e: "vnodes s1 x = (if x = n then (vnodes s n)\<lparr>vn_ref_count := vn_ref_count (vnodes s n) - 1\<rparr> else vnodes s x)" for x
    by (simp add: s1_def)
  have ss: "same_space (nodes_of own) s s1" by (simp add: same_space_def s1_def)
  have hF: "holders F x s1 = holders F x s" for x by (simp add: holders_def s1_def)
  have fe: "vfiles s1 = vfiles s" "hcap s1 = hcap s" "vinodes s1 = vinodes s" "heap_inv s1"
    "vfs_cache s1 = vfs_cache s" "vfs_cache_gen s1 = vfs_cache_gen s"
    "g_devfs_root s1 = g_devfs_root s" "g_pending_blocks s1 = g_pending_blocks s" "vfs_ready s1 = vfs_ready s" "vfs_fs_drivers s1 = vfs_fs_drivers s"
    using G by (simp_all add: s1_def)
  have sp: "space_ok (nodes_of own) kids ms s1" using space_ok_same [OF _ ss] G by blast
  have rs: "resolve s1 p = resolve s p" for p using resolve_same [OF _ ss] G by blast
  have "inode_ok own x s1 = inode_ok own x s" for x by (simp add: inode_ok_def Let_def data_ok_def fe e)
  then have ob: "objs_ok own ms s1" using G by (simp add: objs_ok_def fe)
  have ca: "cache_ok s1" by (rule cache_ok_keep [of s]) (use G rs fe in simp_all)
  have dv: "devs_ok (nodes_of own) s1" using G unfolding devs_ok_def same_space_dir [OF ss] fe by blast
  show ?thesis
  proof (cases "holders F n s = {}")
    case False
    then have "card (holders F n s) \<noteq> 0" using G by (auto simp: holders_def)
    then have "vn_ref_count (vnodes s1 n) \<noteq> 0" using r1 by (metis unat_0)
    then have t: "t = s1" using run nz rz by (simp add: vfs_node_release_def Let_def s1_def [symmetric])
    have "refs_ok F (nodes_of own) s1" using G r1 False unfolding refs_ok_def hF fe by (auto simp: e)
    then have "vfs_ok F own kids ms s1" using sp ob ca dv fe(4) by (simp add: vfs_ok_def)
    then show ?thesis using G rs fe same_spaceD(3) [OF ss] unfolding t by (intro exI [of _ own]) (auto simp: released_def)
  next
    case True
    define ip where "ip = vn_inode (vnodes s n)"
    define d where "d = vi_data (vinodes s ip)"
    define own' where "own' = without own n s"
    have own': "own' = own(n := None, ip := None, d := None)" by (simp add: own'_def without_def ip_def d_def node_inode_def)
    have i: "own ip = Some (OInode n)" "d \<noteq> 0 \<longrightarrow> own d = Some (OData n)" "own n = Some ONode"
      using G by (auto simp: objs_ok_def inode_ok_def Let_def ip_def d_def)
    have live: "own x \<noteq> None \<Longrightarrow> hcap s1 x \<noteq> None" for x using G fe(2) unfolding objs_ok_def by metis
    have "vn_ref_count (vnodes s1 n) = 0" using r1 True by (simp add: unat_eq_0)
    then have f: "vfs_free_node n s1 = Some t" using run nz rz by (simp add: vfs_node_release_def Let_def s1_def [symmetric])
    have w: "vfs_ok F own' kids ms s" unfolding own'_def by (rule dangling_forget [OF g True])
    have on: "own' n = None" by (simp add: own')
    note u = vfs_ok_upd_node [OF w on, of "\<lambda>n. n\<lparr>vn_ref_count := vn_ref_count n - 1\<rparr>", folded s1_def]
    have "ip \<noteq> 0" using i(1) own0 by auto
    note T = vfs_free_node_ok [OF u(1) on _ nz _ _ _ this _ _ _ f, of d]
    have T': "vfs_ok F own' kids ms t" "keeps_nodes own' s1 t" "vfs_ready t = vfs_ready s1" "vfs_fs_drivers t = vfs_fs_drivers s1"
      by (rule T; use i live in \<open>auto simp: own' e ip_def d_def fe\<close>)+
    have sk: "same_space (nodes_of own') s1 t" by (rule keeps_space [OF T'(2)])
    have "resolve t p = resolve s p" for p using resolve_same [OF vfs_okD(2) [OF u(1)] sk] rs by simp
    moreover have "own' x = Some ONode" if "x \<in> nodes_of own - {n}" for x using that i own0 by (auto simp: own')
    moreover have "vfiles t = vfiles s1" using T'(2) by (simp add: keeps_nodes_def)
    moreover have "own' x = None \<or> own' x = own x" for x by (simp add: own')
    ultimately show ?thesis using T' fe same_spaceD(3) [OF sk] same_spaceD(3) [OF ss]
      by (intro exI [of _ own']) (simp add: released_def)
  qed
qed

end
