(* ===== verification/VfsNames.thy ===== *)
theory VfsNames
  imports VfsOps
begin

text \<open>Taking nodes out of their directory and moving them, and the open files.\<close>

section \<open>Unlinking\<close>

text \<open>A name disappears: the walks that led to the node lead nowhere.\<close>

lemma vwalk_remove:
  assumes se: "searchable s N" and r: "r \<in> N" "r \<noteq> n"
    and ch: "\<And>x nm. x \<in> N \<Longrightarrow> child t x nm = (if child s x nm = n then 0 else child s x nm)"
    and n: "\<And>nm. child s n nm = 0" "cross s n = n"
    and cr: "\<And>x. x \<in> N \<Longrightarrow> cross t x = cross s x \<and> (x \<noteq> n \<longrightarrow> cross s x \<noteq> n)"
  shows "vwalk t r cs = (if vwalk s r cs = n then 0 else vwalk s r cs)"
  using r
proof (induction cs arbitrary: r)
  case (Cons a as)
  define k where "k = child s r a"
  show ?case
  proof (cases "k = n")
    case True
    have "vwalk s n as = (if as = [] then n else 0)" using n(1) by (cases as) auto
    then show ?thesis using True ch [OF Cons.prems(1), of a] n(2) by (auto simp: Let_def k_def [symmetric])
  next
    case False
    have tk: "child t r a = k" using ch [OF Cons.prems(1), of a] False by (simp add: k_def)
    show ?thesis
    proof (cases "k = 0")
      case kz: False
      then have k: "k \<in> N" using searchable_child(2) [OF se Cons.prems(1)] by (simp add: k_def)
      show ?thesis using Cons.IH [OF searchable_child(4) [OF se k]] cr [OF k] kz False tk
        by (simp add: Let_def k_def [symmetric])
    qed (use tk in \<open>simp add: Let_def k_def [symmetric]\<close>)
  qed
qed simp

definition removed :: "u64 \<Rightarrow> 'a vfs_state_scheme \<Rightarrow> 'a vfs_state_scheme \<Rightarrow> bool" where
  "removed n s t \<longleftrightarrow> (\<forall>p. resolve t p = (if resolve s p = n then 0 else resolve s p))"

lemma removed_link:
  assumes sp: "space_ok N kids ms s" and sp': "space_ok N kids' ms t"
    and n: "n \<in> N" "vn_parent (vnodes s n) \<noteq> 0" "kids n = []" "\<And>m. m \<in> set ms \<Longrightarrow> mt_mountpoint (vmnts s m) \<noteq> n"
    and w: "vn_parent (vnodes t n) = 0" "\<And>x. x \<noteq> n \<Longrightarrow> vn_parent (vnodes t x) = vn_parent (vnodes s x)"
      "\<And>x. vn_name (vnodes t x) = vn_name (vnodes s x)" "vmnts t = vmnts s" "vfs_root t = vfs_root s"
  shows "removed n s t"
proof -
  note tr = space_okD(1) [OF sp] and mo = space_okD(2) [OF sp] and tr' = space_okD(1) [OF sp'] and mo' = space_okD(2) [OF sp']
  have nz: "n \<noteq> 0" by (rule treeD(1) [OF tr n(1)])
  have ce: "cross t x = cross s x" for x unfolding cross_ms(2) [OF tr mo] cross_ms(2) [OF tr' mo'] w(4) ..
  have cn: "cross s n = n" using cross_cases [OF tr mo nz] n(4) by auto
  have cx: "cross s x \<noteq> n" if "x \<in> N" "x \<noteq> n" for x
    using cross_cases [OF tr mo treeD(1) [OF tr that(1)]] that(2) n(2) by (auto simp: root_ok_def)
  have ch: "child t x nm = (if child s x nm = n then 0 else child s x nm)" if x: "x \<in> N" for x nm
  proof -
    have xz: "x \<noteq> 0" by (rule treeD(1) [OF tr x])
    have iff: "child t x nm = y \<longleftrightarrow> child s x nm = y \<and> y \<noteq> n" if "y \<noteq> 0" for y
      using child_iff [OF tr x that, of nm] child_iff [OF tr' x that, of nm] w xz by (cases "y = n") auto
    then show ?thesis using nz by metis
  qed
  have cz: "child s n nm = 0" for nm using child_kids(2) [OF tr n(1)] n(3) by simp
  have r: "vfs_root s \<in> N" "vfs_root s \<noteq> n" using mounts_okD(5) [OF mo] n(2) by (auto simp: root_ok_def dir_ok_def)
  note vw = vwalk_remove [OF space_searchable [OF sp] r ch cz cn]
  show ?thesis unfolding removed_def resolve_def w(5) using vw ce cx by simp
qed

text \<open>The loop that takes a node out of the chain of its parent: two link words change.\<close>

lemma detach:
  assumes tr: "tree (vnodes s) N kids" and n: "n \<in> N" "vn_parent (vnodes s n) = d" "d \<noteq> 0"
  shows "\<exists>y f s1 kids'. unlink_sibling 0 (vn_children (vnodes s d)) n d s = Some s1 \<and> s1 = upd_vnode y f s \<and> y \<noteq> n \<and> kids' n = kids n \<and>
    (\<forall>x. vn_name (f x) = vn_name x \<and> vn_type (f x) = vn_type x \<and> vn_parent (f x) = vn_parent x \<and> vn_inode (f x) = vn_inode x \<and>
      vn_ref_count (f x) = vn_ref_count x \<and> vn_unlinked (f x) = vn_unlinked x \<and> (y \<noteq> d \<longrightarrow> vn_children (f x) = vn_children x)) \<and>
    (\<forall>w. vn_parent (w n) = 0 \<and> vn_children (w n) = vn_children (vnodes s n) \<and> vn_name (w n) = vn_name (vnodes s n) \<and>
      vn_type (w n) = vn_type (vnodes s n) \<and> (\<forall>x. x \<noteq> n \<longrightarrow> w x = vnodes s1 x) \<longrightarrow> tree w N kids')"
proof -
  have dN: "d \<in> N" using treeD(6) [OF tr n(1)] n by simp
  have "n \<in> set (kids d)" using treeD(4) [OF tr dN] n by auto
  then obtain as bs where k: "kids d = as @ n # bs" "n \<notin> set as" by (metis split_list_first)
  have lk: "linked (sib (vnodes s)) (vn_children (vnodes s d)) (as @ n # bs)" using treeD(2) [OF tr dN] k by simp
  have az: "last as \<noteq> 0 \<and> last as \<noteq> n" if "as \<noteq> []"
    using linked_nonnull [OF lk] k(2) last_in_set [OF that] by (metis Un_iff set_append)
  obtain us where us: "linked (par (vnodes s)) d us" using treeD(7) [OF tr dN] by blast
  have nd: "n \<noteq> d"
  proof
    assume "n = d"
    then have "linked (par (vnodes s)) d (d # us)" using us n by simp
    then show False using linked_unique [OF us] by fastforce
  qed
  have ld: "last as \<noteq> d" if "as \<noteq> []"
  proof
    assume e: "last as = d"
    have "par (vnodes s) (last as) = d" using treeD(4) [OF tr dN] k(1) last_in_set [OF that] by auto
    then have "linked (par (vnodes s)) d (d # us)" using us e n(3) by simp
    then show False using linked_unique [OF us] by fastforce
  qed
  define y where "y = (if as \<noteq> [] then last as else d)"
  define f :: "vfs_node \<Rightarrow> vfs_node" where "f = (if as \<noteq> [] then (\<lambda>x. x\<lparr>vn_sibling := vn_sibling (vnodes s n)\<rparr>) else (\<lambda>x. x\<lparr>vn_children := vn_sibling (vnodes s n)\<rparr>))"
  define s1 where "s1 = upd_vnode y f s"
  have u: "unlink_sibling 0 (vn_children (vnodes s d)) n d s = Some s1"
    using unlink_sibling_linked [OF lk k(2), of 0 d] az by (simp add: s1_def y_def f_def)
  have yn: "y \<noteq> n" using az nd by (auto simp: y_def)
  have t: "tree w N (kids(d := as @ bs))"
    if w: "vn_parent (w n) = 0" "vn_children (w n) = vn_children (vnodes s n)" "vn_name (w n) = vn_name (vnodes s n)"
      "vn_type (w n) = vn_type (vnodes s n)" "\<And>x. x \<noteq> n \<Longrightarrow> w x = vnodes s1 x" for w
  proof (rule tree_remove [OF tr dN k(1)])
    show "w d = (if as = [] then (vnodes s d)\<lparr>vn_children := vn_sibling (vnodes s n)\<rparr> else vnodes s d)"
      using w(5) [of d] nd ld by (auto simp: s1_def y_def f_def)
    show "w (last as) = (vnodes s (last as))\<lparr>vn_sibling := vn_sibling (vnodes s n)\<rparr>" if "as \<noteq> []"
      using w(5) [of "last as"] az [OF that] that by (simp add: s1_def y_def f_def)
    show "w x = vnodes s x" if "x \<noteq> n" "x \<noteq> d" "as \<noteq> [] \<Longrightarrow> x \<noteq> last as" for x
      using w(5) [of x] that by (auto simp: s1_def y_def)
  qed (use w in simp_all)
  have "vn_name (f x) = vn_name x \<and> vn_type (f x) = vn_type x \<and> vn_parent (f x) = vn_parent x \<and> vn_inode (f x) = vn_inode x \<and>
      vn_ref_count (f x) = vn_ref_count x \<and> vn_unlinked (f x) = vn_unlinked x \<and> (y \<noteq> d \<longrightarrow> vn_children (f x) = vn_children x)" for x
    by (simp add: f_def y_def)
  then show ?thesis using u yn t nd s1_def
    by (intro exI [of _ y] exI [of _ f] exI [of _ s1] exI [of _ "kids(d := as @ bs)"]) auto
qed

lemma unlink_ok:
  assumes ok: "vfs_ok F own kids ms s" and n: "own n = Some ONode" "vn_parent (vnodes s n) = d" "d \<noteq> 0" "vn_children (vnodes s n) = 0"
    and nm: "\<And>m. m \<in> set ms \<Longrightarrow> mt_mountpoint (vmnts s m) \<noteq> n"
    and run: "unlink_sibling 0 (vn_children (vnodes s d)) n d s = Some s1"
    and t: "t = vfs_cache_reset (upd_vnode n (\<lambda>n. n\<lparr>vn_unlinked := True, vn_parent := 0\<rparr>) s1)"
  shows "\<exists>kids'. dangling F own kids' ms n t \<and> removed n s t \<and> vfiles t = vfiles s \<and> vfs_ready t = vfs_ready s \<and>
      vfs_fs_drivers t = vfs_fs_drivers s \<and> vfs_root t = vfs_root s"
proof -
  note D = vfs_okD [OF ok]
  note tr = space_okD(1) [OF D(2)] and mo = space_okD(2) [OF D(2)]
  have nN: "n \<in> nodes_of own" using n(1) by simp
  have dN: "d \<in> nodes_of own" using treeD(6) [OF tr nN] n by simp
  have kn: "kids n = []" using tree_children_0 [OF tr nN] n(4) by simp
  obtain y f kids' where s1: "s1 = upd_vnode y f s" "y \<noteq> n" "kids' n = kids n"
    and f: "\<And>x. vn_name (f x) = vn_name x \<and> vn_type (f x) = vn_type x \<and> vn_parent (f x) = vn_parent x \<and> vn_inode (f x) = vn_inode x \<and>
      vn_ref_count (f x) = vn_ref_count x \<and> vn_unlinked (f x) = vn_unlinked x \<and> (y \<noteq> d \<longrightarrow> vn_children (f x) = vn_children x)"
    and T: "\<And>w. vn_parent (w n) = 0 \<and> vn_children (w n) = vn_children (vnodes s n) \<and> vn_name (w n) = vn_name (vnodes s n) \<and>
      vn_type (w n) = vn_type (vnodes s n) \<and> (\<forall>x. x \<noteq> n \<longrightarrow> w x = vnodes s1 x) \<Longrightarrow> tree w (nodes_of own) kids'"
    using detach [OF tr nN n(2,3)] run by auto
  have dk: "vn_children (vnodes s d) \<noteq> 0"
    using tree_children_0 [OF tr dN] treeD(4) [OF tr dN] n by auto
  have v: "vnodes t x = (if x = n then (vnodes s n)\<lparr>vn_unlinked := True, vn_parent := 0\<rparr> else if x = y then f (vnodes s y) else vnodes s x)" for x
    using s1(2) by (simp add: t s1(1))
  have un: "\<not> vn_unlinked (vnodes s n)" "\<not> vn_unlinked (vnodes s d)" using D(4) nN dN n dk by (auto simp: refs_ok_def)
  have tf: "vinodes t = vinodes s" "vmnts t = vmnts s" "vfs_mounts t = vfs_mounts s" "vfs_root t = vfs_root s"
    "vfs_root_mount t = vfs_root_mount s" "vfiles t = vfiles s" "g_devfs_root t = g_devfs_root s" "g_pending_blocks t = g_pending_blocks s"
    "hcap t = hcap s" "heap_inv t" "vfs_fs_drivers t = vfs_fs_drivers s" "vfs_ready t = vfs_ready s"
    using D(1) by (simp_all add: t s1(1))
  have trt: "tree (vnodes t) (nodes_of own) kids'" by (rule T) (use s1 in \<open>simp add: t\<close>)
  have dk2: "dir_ok (nodes_of own) x t" if "dir_ok (nodes_of own) x s" "x \<noteq> n" for x
    using that f by (auto simp: dir_ok_def v)
  have rk: "root_ok (nodes_of own) x t" if "root_ok (nodes_of own) x s" for x
  proof -
    have "x \<noteq> n" using that n by (auto simp: root_ok_def)
    then show ?thesis using dk2 [of x] that f by (auto simp: root_ok_def v)
  qed
  have mt: "mounts_ok (nodes_of own) ms t" using mo nm rk dk2 unfolding mounts_ok_def tf by blast
  have sp: "space_ok (nodes_of own) kids' ms t" using trt mt by (simp add: space_ok_def)
  have rm: "removed n s t"
    by (rule removed_link [OF D(2) sp nN _ kn nm]) (use n f tf in \<open>auto simp: v\<close>)
  have "vn_inode (vnodes t x) = vn_inode (vnodes s x)" for x using f by (simp add: v)
  then have "inode_ok own x t = inode_ok own x s" for x by (simp add: inode_ok_def Let_def data_ok_def tf)
  then have ob: "objs_ok own ms t" using D(3) by (simp add: objs_ok_def tf)
  have ca: "cache_ok t" unfolding t by (rule cache_ok_reset) (use D(5) in \<open>simp add: cache_ok_def s1(1)\<close>)
  have dv: "devs_ok (nodes_of own) t" using D(6) rk unfolding devs_ok_def tf by blast
  have ho: "holders F x t = holders F x s" for x by (simp add: holders_def tf)
  have rc: "vn_ref_count (vnodes t x) = vn_ref_count (vnodes s x)" and ty: "vn_type (vnodes t x) = vn_type (vnodes s x)"
    and ul: "x \<noteq> n \<Longrightarrow> vn_unlinked (vnodes t x) = vn_unlinked (vnodes s x) \<and> vn_parent (vnodes t x) = vn_parent (vnodes s x)"
    and cd: "x \<noteq> n \<Longrightarrow> x \<noteq> d \<Longrightarrow> vn_children (vnodes t x) = vn_children (vnodes s x)" for x
    using f by (auto simp: v)
  have "dangling F own kids' ms n t"
    unfolding dangling_def ho rc ty tf(6)
  proof (intro conjI ballI)
    fix x assume x: "x \<in> nodes_of own - {n}"
    have R: "unat (vn_ref_count (vnodes s x)) = (if vn_unlinked (vnodes s x) then 0 else 1) + card (holders F x s)"
      "vn_unlinked (vnodes s x) \<longrightarrow> vn_parent (vnodes s x) = 0 \<and> vn_children (vnodes s x) = 0 \<and> holders F x s \<noteq> {}"
      using D(4) x by (auto simp: refs_ok_def)
    show "unat (vn_ref_count (vnodes s x)) = (if vn_unlinked (vnodes t x) then 0 else 1) + card (holders F x s)" using R ul [of x] x by simp
    show "vn_unlinked (vnodes t x) \<longrightarrow> vn_parent (vnodes t x) = 0 \<and> vn_children (vnodes t x) = 0 \<and> holders F x s \<noteq> {}"
      using R ul [of x] cd [of x] un(2) x by (cases "x = d") auto
  qed (use sp ob ca dv tf D(4) n un nN in \<open>auto simp: refs_ok_def v\<close>)
  then show ?thesis using rm tf by blast
qed

lemma vfs_unlink_ok:
  assumes ok: "vfs_ok F own kids ms s" and run: "vfs_unlink (Some p) s = Some (rc, t)"
  shows "\<exists>own' kids' n. vfs_ok F own' kids' ms t \<and> vfiles t = vfiles s \<and> vfs_ready t = vfs_ready s \<and> vfs_fs_drivers t = vfs_fs_drivers s \<and>
    vfs_root t = vfs_root s \<and>
    (if rc = RDNX_OK then n \<noteq> 0 \<and> removed n s t \<and> (length p \<noteq> 63 \<longrightarrow> n = resolve s p)
     else own' = own \<and> kids' = kids \<and> (\<forall>q. resolve t q = resolve s q))"
proof -
  note D = vfs_okD [OF ok]
  obtain n u where l: "vfs_lookup (Some p) s = Some (n, u)" "vfs_ok F own kids ms u" "looked_up p n s u"
    using vfs_lookup_ok [OF ok] by blast
  note lu = l(3) [unfolded looked_up_def]
  have err: ?thesis if "t = u \<and> rc \<noteq> RDNX_OK \<or> t = s \<and> rc \<noteq> RDNX_OK"
    using that ok l(2) lu by (intro exI [of _ own] exI [of _ kids] exI [of _ n]) auto
  show ?thesis
  proof (cases "\<not> vfs_ready s \<or> n = 0 \<or> n = vfs_root u \<or> vn_type (vnodes u n) = VFS_NODE_DIR \<and> vn_children (vnodes u n) \<noteq> 0 \<or> vn_parent (vnodes u n) = 0")
    case True
    then show ?thesis using run l(1) by (intro err) (auto simp: vfs_unlink_def Let_def split: if_splits)
  next
    case False
    note E = vfs_okD [OF l(2)]
    obtain q where q: "resolve s q = n" "q = p \<or> length p = 63 \<and> take 63 q = p" using lu by blast
    have rn: "resolve u q = n" using lu q(1) by simp
    then have nz: "resolve u q \<noteq> 0" using False by simp
    note R = resolve_reached [OF E(2) nz, unfolded rn]
    have nN: "own n = Some ONode" using R by simp
    have nm: "mt_mountpoint (vmnts u m) \<noteq> n" if "m \<in> set ms" for m using R(3) [OF _ that] False by blast
    have tg: "vi_fs_tag (node_inode n u) = 0" using E(3) nN by (simp add: objs_ok_def inode_ok_def Let_def node_inode_def)
    have ch: "vn_children (vnodes u n) = 0"
      using False treeD(5) [OF space_okD(1) [OF E(2)], of n] tree_children_0 [OF space_okD(1) [OF E(2)], of n] nN by auto
    define d where "d = vn_parent (vnodes u n)"
    obtain s1 where s1: "unlink_sibling 0 (vn_children (vnodes u d)) n d u = Some s1"
      using detach [OF space_okD(1) [OF E(2)], of n d] nN False by (auto simp: d_def)
    define w where "w = vfs_cache_reset (upd_vnode n (\<lambda>n. n\<lparr>vn_unlinked := True, vn_parent := 0\<rparr>) s1)"
    have e: "rc = RDNX_OK" "vfs_node_release n w = Some t"
      using run l(1) False tg s1 by (auto simp: vfs_unlink_def Let_def d_def w_def)
    obtain kids' where g: "dangling F own kids' ms n w" "removed n u w" "vfiles w = vfiles u" "vfs_ready w = vfs_ready u"
      "vfs_fs_drivers w = vfs_fs_drivers u" "vfs_root w = vfs_root u"
      using unlink_ok [OF l(2) nN _ _ ch nm s1 w_def] False by (auto simp: d_def)
    obtain own' where o: "vfs_ok F own' kids' ms t" "released n own own' w t" using vfs_node_release_ok [OF g(1) e(2)] by blast
    have "removed n s t" using g(2) o(2) lu by (simp add: removed_def released_def)
    then show ?thesis using o g lu e(1) False q by (intro exI [of _ own'] exI [of _ kids'] exI [of _ n]) (auto simp: released_def)
  qed
qed

section \<open>Renaming\<close>

lemma tree_name:
  assumes t: "tree v N kids" and n: "vn_parent (v n) = 0"
  shows "tree (v(n := (v n)\<lparr>vn_name := nm\<rparr>)) N kids"
proof -
  define w where "w = v(n := (v n)\<lparr>vn_name := nm\<rparr>)"
  have e: "vn_sibling (w x) = vn_sibling (v x)" "vn_parent (w x) = vn_parent (v x)" "vn_children (w x) = vn_children (v x)"
    "vn_type (w x) = vn_type (v x)" for x by (simp_all add: w_def)
  have "distinct (map (\<lambda>c. vn_name (w c)) (kids d))" if "d \<in> N" for d
  proof -
    have "map (\<lambda>c. vn_name (w c)) (kids d) = map (\<lambda>c. vn_name (v c)) (kids d)"
      using treeD(1,4) [OF t that] n by (intro map_cong) (auto simp: w_def)
    then show ?thesis using treeD(3) [OF t that] by (simp only:)
  qed
  then have "tree w N kids" using t unfolding tree_def e by simp
  then show ?thesis by (simp add: w_def)
qed

definition renamed :: "u64 \<Rightarrow> u64 \<Rightarrow> cstring \<Rightarrow> 'a vfs_state_scheme \<Rightarrow> 'a vfs_state_scheme \<Rightarrow> bool" where
  "renamed n d nm s t \<longleftrightarrow> (\<forall>p. resolve t p = (if resolve s p \<noteq> 0 \<and> resolve s p \<noteq> n then resolve s p
     else if comps p \<noteq> [] \<and> last (comps p) = nm \<and> vwalk s (vfs_root s) (butlast (comps p)) = d then n else 0))"

lemma vwalk_move:
  assumes se: "searchable s N" and r: "r \<in> N" "r \<noteq> n" and d: "d \<in> N" "d \<noteq> n" and nN: "n \<in> N" and dnm: "child s d nm = 0"
    and ch: "\<And>x a. x \<in> N \<Longrightarrow> child t x a = (if x = d \<and> a = nm then n else if child s x a = n then 0 else child s x a)"
    and n: "\<And>a. child s n a = 0" "cross s n = n"
    and cr: "\<And>x. x \<in> N \<Longrightarrow> cross t x = cross s x \<and> (x \<noteq> n \<longrightarrow> cross s x \<noteq> n)"
  shows "vwalk t r cs = (if vwalk s r cs \<noteq> 0 \<and> vwalk s r cs \<noteq> n then vwalk s r cs
    else if cs \<noteq> [] \<and> last cs = nm \<and> vwalk s r (butlast cs) = d then n else 0)"
  using r
proof (induction cs arbitrary: r)
  case Nil
  then show ?case using se by (auto simp: searchable_def)
next
  case (Cons a as)
  have z: "d \<noteq> 0" "n \<noteq> 0" using se d nN by (auto simp: searchable_def)
  define k where "k = child s r a"
  have tn: "vwalk t n bs = (if bs = [] then n else 0)" and sn: "vwalk s n bs = (if bs = [] then n else 0)" for bs
    using n(1) ch [OF nN] d(2) by (cases bs; auto)+
  have st: "vwalk s r (a # bs) = (if k = 0 then 0 else vwalk s (cross s k) bs)" for bs by (simp add: Let_def k_def)
  have bl: "vwalk s r (butlast (a # as)) = (if as = [] then r else if k = 0 then 0 else vwalk s (cross s k) (butlast as))"
    by (simp add: Let_def k_def)
  consider "r = d" "a = nm" | "\<not> (r = d \<and> a = nm)" "k = n" | "\<not> (r = d \<and> a = nm)" "k = 0" | "\<not> (r = d \<and> a = nm)" "k \<noteq> n" "k \<noteq> 0" by blast
  then show ?case
  proof cases
    case 1
    then have "k = 0" using dnm by (simp add: k_def)
    then show ?thesis using 1 ch [OF Cons.prems(1), of a] cr [OF nN] n(2) tn z unfolding st bl by (auto simp: Let_def)
  next
    case 2
    have "child t r a = 0" using ch [OF Cons.prems(1), of a] 2 by (auto simp: k_def)
    then have "vwalk t r (a # as) = 0" by simp
    then show ?thesis using 2 n(2) sn [of as] sn [of "butlast as"] z d(2) unfolding st bl by auto
  next
    case 3
    have "child t r a = 0" using ch [OF Cons.prems(1), of a] 3 by (auto simp: k_def)
    then have "vwalk t r (a # as) = 0" by simp
    then show ?thesis using 3 z unfolding st bl by auto
  next
    case 4
    have kN: "k \<in> N" using searchable_child(2) [OF se Cons.prems(1)] 4 by (simp add: k_def)
    have "child t r a = k" using ch [OF Cons.prems(1), of a] 4 by (auto simp: k_def)
    then have "vwalk t r (a # as) = vwalk t (cross s k) as" using 4 cr [OF kN] by (simp add: Let_def)
    moreover have "cross s k \<in> N" "cross s k \<noteq> n" "cross s k \<noteq> 0"
      using searchable_child(4) [OF se kN] cr [OF kN] 4 se by (auto simp: searchable_def)
    ultimately show ?thesis using Cons.IH [of "cross s k"] 4 unfolding st bl by auto
  qed
qed

lemma renamed_link:
  assumes sp: "space_ok N kids ms s" and sp': "space_ok N kids' ms t" and d: "d \<in> N" "d \<noteq> n" "child s d nm = 0"
    and n: "n \<in> N" "vn_parent (vnodes s n) \<noteq> 0" "kids n = []" "\<And>m. m \<in> set ms \<Longrightarrow> mt_mountpoint (vmnts s m) \<noteq> n"
    and w: "vn_parent (vnodes t n) = d" "vn_name (vnodes t n) = nm"
      "\<And>x. x \<noteq> n \<Longrightarrow> vn_parent (vnodes t x) = vn_parent (vnodes s x) \<and> vn_name (vnodes t x) = vn_name (vnodes s x)"
      "vmnts t = vmnts s" "vfs_root t = vfs_root s"
  shows "renamed n d nm s t"
proof -
  note tr = space_okD(1) [OF sp] and mo = space_okD(2) [OF sp] and tr' = space_okD(1) [OF sp'] and mo' = space_okD(2) [OF sp']
  have nz: "n \<noteq> 0" by (rule treeD(1) [OF tr n(1)])
  have ce: "cross t x = cross s x" for x unfolding cross_ms(2) [OF tr mo] cross_ms(2) [OF tr' mo'] w(4) ..
  have cn: "cross s n = n" using cross_cases [OF tr mo nz] n(4) by auto
  have cx: "cross s x \<noteq> n" if "x \<in> N" "x \<noteq> n" for x
    using cross_cases [OF tr mo treeD(1) [OF tr that(1)]] that(2) n(2) by (auto simp: root_ok_def)
  have ch: "child t x a = (if x = d \<and> a = nm then n else if child s x a = n then 0 else child s x a)" if x: "x \<in> N" for x a
  proof -
    have "child t x a = y \<longleftrightarrow> (if y = n then x = d \<and> a = nm else child s x a = y)" if "y \<noteq> 0" for y
      using child_iff [OF tr x that, of a] child_iff [OF tr' x that, of a] w n(1) by (cases "y = n") auto
    then show ?thesis using nz d(3) by metis
  qed
  have cz: "child s n a = 0" for a using child_kids(2) [OF tr n(1)] n(3) by simp
  have r: "vfs_root s \<in> N" "vfs_root s \<noteq> n" using mounts_okD(5) [OF mo] n(2) by (auto simp: root_ok_def dir_ok_def)
  note vw = vwalk_move [OF space_searchable [OF sp] r d(1,2) n(1) d(3) ch cz cn]
  show ?thesis unfolding renamed_def resolve_def w(5) using vw ce cx by simp
qed

text \<open>
  The states of a move: the node has left its directory (\<open>s0\<close>), has the new name (\<open>s1\<close>) and is in
  the new directory (\<open>t\<close>).
\<close>

lemma move_ok:
  assumes ok: "vfs_ok F own kids ms s" and n: "own n = Some ONode" "vn_parent (vnodes s n) = d0" "d0 \<noteq> 0"
    and d: "dir_ok (nodes_of own) d s" and us: "linked (par (vnodes s)) d us" "n \<notin> set us"
    and nm: "child s d nm = 0" "length nm \<le> NAME_MAX"
    and run: "unlink_sibling 0 (vn_children (vnodes s d0)) n d0 s = Some u"
    and t: "t = vfs_cache_reset (move_node n d nm u)"
  shows "\<exists>kids'. vfs_ok F own kids' ms t \<and> same_nodes own s t \<and> vfiles t = vfiles s \<and> vfs_ready t = vfs_ready s \<and>
    vfs_fs_drivers t = vfs_fs_drivers s \<and> vfs_root t = vfs_root s \<and>
    (kids n = [] \<and> (\<forall>m \<in> set ms. mt_mountpoint (vmnts s m) \<noteq> n) \<longrightarrow> renamed n d nm s t)"
proof -
  note D = vfs_okD [OF ok]
  define N where "N = nodes_of own"
  note tr = space_okD(1) [OF D(2), folded N_def] and mo = space_okD(2) [OF D(2), folded N_def]
  have nN: "n \<in> N" using n(1) by (simp add: N_def)
  have d0N: "d0 \<in> N" using treeD(6) [OF tr nN] n by simp
  have dN: "d \<in> N" "vn_type (vnodes s d) = VFS_NODE_DIR" "\<not> vn_unlinked (vnodes s d)" using d by (auto simp: dir_ok_def N_def)
  have nd: "n \<noteq> d" using us treeD(1) [OF tr dN(1)] by (cases us) auto
  obtain y f kids' where u: "u = upd_vnode y f s" "y \<noteq> n" "kids' n = kids n"
    and f: "\<And>x. vn_name (f x) = vn_name x \<and> vn_type (f x) = vn_type x \<and> vn_parent (f x) = vn_parent x \<and> vn_inode (f x) = vn_inode x \<and>
      vn_ref_count (f x) = vn_ref_count x \<and> vn_unlinked (f x) = vn_unlinked x \<and> (y \<noteq> d0 \<longrightarrow> vn_children (f x) = vn_children x)"
    and T: "\<And>w. vn_parent (w n) = 0 \<and> vn_children (w n) = vn_children (vnodes s n) \<and> vn_name (w n) = vn_name (vnodes s n) \<and>
      vn_type (w n) = vn_type (vnodes s n) \<and> (\<forall>x. x \<noteq> n \<longrightarrow> w x = vnodes u x) \<Longrightarrow> tree w N kids'"
    using detach [OF tr nN n(2,3)] run by auto
  define s0 where "s0 = upd_vnode n (\<lambda>x. x\<lparr>vn_parent := 0\<rparr>) u"
  define s1 where "s1 = upd_vnode n (\<lambda>x. x\<lparr>vn_name := nm\<rparr>) s0"
  have v0: "vnodes s0 x = (if x = n then (vnodes s n)\<lparr>vn_parent := 0\<rparr> else if x = y then f (vnodes s y) else vnodes s x)" for x
    using u(2) by (simp add: s0_def u(1))
  have v1: "vnodes s1 x = (if x = n then (vnodes s n)\<lparr>vn_parent := 0, vn_name := nm\<rparr> else vnodes s0 x)" for x
    by (simp add: s1_def v0)
  have vt: "vnodes t x = (if x = n then (vnodes s n)\<lparr>vn_parent := d, vn_sibling := vn_children (vnodes s1 d), vn_name := nm\<rparr>
      else if x = d then (vnodes s1 d)\<lparr>vn_children := n\<rparr> else vnodes s1 x)" for x
    using nd u(2) nm(2) by (simp add: t move_node_def Let_def u(1) v1 v0)
  have same: "vn_type (vnodes t x) = vn_type (vnodes s x) \<and> vn_inode (vnodes t x) = vn_inode (vnodes s x) \<and>
      vn_ref_count (vnodes t x) = vn_ref_count (vnodes s x) \<and> vn_unlinked (vnodes t x) = vn_unlinked (vnodes s x) \<and>
      (x \<noteq> n \<longrightarrow> vn_parent (vnodes t x) = vn_parent (vnodes s x) \<and> (x \<noteq> d0 \<longrightarrow> x \<noteq> d \<longrightarrow> vn_children (vnodes t x) = vn_children (vnodes s x)))" for x
    using f [of "vnodes s y"] nd by (auto simp: vt v1 v0)
  have tf: "vinodes t = vinodes s" "vmnts t = vmnts s" "vfs_mounts t = vfs_mounts s" "vfs_root t = vfs_root s"
    "vfs_root_mount t = vfs_root_mount s" "vfiles t = vfiles s" "g_devfs_root t = g_devfs_root s" "g_pending_blocks t = g_pending_blocks s"
    "hcap t = hcap s" "heap_inv t" "vfs_fs_drivers t = vfs_fs_drivers s" "vfs_ready t = vfs_ready s"
    using D(1) by (simp_all add: t move_node_def Let_def u(1))
  have tr0: "tree (vnodes s0) N kids'" by (rule T) (use u(2) in \<open>auto simp: v0 u(1)\<close>)
  have e1: "vnodes s1 = (vnodes s0)(n := (vnodes s0 n)\<lparr>vn_name := nm\<rparr>)" by (simp add: s1_def)
  have tr1: "tree (vnodes s1) N kids'" unfolding e1 by (rule tree_name [OF tr0]) (simp add: v0)
  have p1: "vn_parent (vnodes s1 x) = vn_parent (vnodes s x)" "vn_name (vnodes s1 x) = vn_name (vnodes s x)" if "x \<noteq> n" for x
    using that f [of "vnodes s y"] by (auto simp: v1 v0)
  have us1: "linked (par (vnodes s1)) d us" using us p1 linked_cong [of us "par (vnodes s1)" "par (vnodes s)"] by metis
  have nm1: "vn_name (vnodes s1 n) \<notin> (\<lambda>x. vn_name (vnodes s1 x)) ` set (kids' d)"
  proof
    assume "vn_name (vnodes s1 n) \<in> (\<lambda>x. vn_name (vnodes s1 x)) ` set (kids' d)"
    then obtain x where x: "x \<in> N" "vn_parent (vnodes s1 x) = d" "vn_name (vnodes s1 x) = nm"
      using treeD(4) [OF tr1 dN(1)] by (auto simp: v1)
    have "x \<noteq> n" using x(2) treeD(1) [OF tr1 dN(1)] by (auto simp: v1)
    then show False using x p1 child_0 [OF tr dN(1), of nm] nm(1) by auto
  qed
  define kids'' where "kids'' = kids'(d := n # kids' d)"
  have trt: "tree (vnodes t) N kids''" unfolding kids''_def
    by (rule tree_add [OF tr1 dN(1) _ nN _ nm1 us1 us(2)]) (use dN nd f [of "vnodes s y"] in \<open>auto simp: vt v1 v0\<close>)
  have dk: "dir_ok N x t = dir_ok N x s" for x using same by (simp add: dir_ok_def)
  have rk: "root_ok N x t" if "root_ok N x s" for x
  proof -
    have "x \<noteq> n" using that n by (auto simp: root_ok_def)
    then show ?thesis using that dk same by (simp add: root_ok_def)
  qed
  have mt: "mounts_ok N ms t" using mo rk unfolding mounts_ok_def tf dk by blast
  have sp: "space_ok N kids'' ms t" using trt mt by (simp add: space_ok_def)
  have "vn_children (vnodes s d0) \<noteq> 0" using tree_children_0 [OF tr d0N] treeD(4) [OF tr d0N] nN n by auto
  then have "\<not> vn_unlinked (vnodes s n)" "\<not> vn_unlinked (vnodes s d0)" using D(4) nN d0N n by (auto simp: refs_ok_def N_def)
  then have sn: "same_nodes own s t" using same dN(3) unfolding same_nodes_def tf by metis
  have ca: "cache_ok t" unfolding t by (rule cache_ok_reset) (use D(5) in \<open>simp add: cache_ok_def u(1) move_node_def Let_def\<close>)
  have dv: "devs_ok N t" using D(6) rk unfolding devs_ok_def tf N_def by blast
  have okt: "vfs_ok F own kids'' ms t"
    using sp same_nodes_objs [OF sn D(3)] same_nodes_refs [OF sn D(4)] ca dv tf(10) by (simp add: vfs_ok_def N_def)
  have "renamed n d nm s t" if k: "kids n = []" and m: "\<And>m. m \<in> set ms \<Longrightarrow> mt_mountpoint (vmnts s m) \<noteq> n"
    by (rule renamed_link [OF D(2) [folded N_def] sp dN(1) nd [symmetric] nm(1) nN _ k m])
      (use n nd f [of "vnodes s y"] tf in \<open>auto simp: vt v1 v0\<close>)
  then show ?thesis using okt sn tf by blast
qed

lemma vfs_rename_ok:
  assumes ok: "vfs_ok F own kids ms s" and run: "vfs_rename (Some p) (Some q) s = Some (rc, t)"
  shows "\<exists>kids'. vfs_ok F own kids' ms t \<and> vfiles t = vfiles s \<and> vfs_ready t = vfs_ready s \<and> vfs_fs_drivers t = vfs_fs_drivers s \<and>
    vfs_root t = vfs_root s \<and>
    (t = s \<or> rc = RDNX_OK \<and> comps p \<noteq> [] \<and> comps q \<noteq> [] \<and> (\<exists>d0 d n. d0 = vwalk s (vfs_root s) (butlast (comps p)) \<and> d0 \<noteq> 0 \<and>
      d = vwalk s (vfs_root s) (butlast (comps q)) \<and> d \<noteq> 0 \<and>
      n = child s d0 (last (comps p)) \<and> n \<noteq> 0 \<and> child s d (last (comps q)) = 0 \<and> same_nodes own s t \<and>
      (vn_children (vnodes s n) = 0 \<and> cross s n = n \<longrightarrow> renamed n d (last (comps q)) s t)))"
proof -
  note D = vfs_okD [OF ok]
  note tr = space_okD(1) [OF D(2)] and mo = space_okD(2) [OF D(2)] and se = space_searchable [OF D(2)]
  obtain d0 l0 where o: "vfs_resolve_parent (Some p) s = Some (d0, l0)"
    "d0 = 0 \<or> comps p \<noteq> [] \<and> l0 = last (comps p) \<and> d0 = vwalk s (vfs_root s) (butlast (comps p)) \<and>
      dir_ok (nodes_of own) d0 s \<and> length l0 \<le> NAME_MAX \<and> l0 \<noteq> []"
    using vfs_resolve_parent_ok [OF ok] by blast
  obtain d l where w: "vfs_resolve_parent (Some q) s = Some (d, l)"
    "d = 0 \<or> comps q \<noteq> [] \<and> l = last (comps q) \<and> d = vwalk s (vfs_root s) (butlast (comps q)) \<and>
      dir_ok (nodes_of own) d s \<and> length l \<le> NAME_MAX \<and> l \<noteq> []"
    using vfs_resolve_parent_ok [OF ok] by blast
  define n where "n = child s d0 l0"
  show ?thesis
  proof (cases "\<not> vfs_ready s \<or> p = [slash] \<or> q = [slash] \<or> p = q \<or> d0 = 0 \<or> d = 0")
    case True
    then have "t = s" using run o(1) w(1) by (auto simp: vfs_rename_def split: if_splits)
    then show ?thesis using ok by blast
  next
    case False
    then have d: "dir_ok (nodes_of own) d s" "length l \<le> NAME_MAX" "l \<noteq> []" and d0: "dir_ok (nodes_of own) d0 s" "l0 \<noteq> []"
      using o(2) w(2) by auto
    have dN: "d \<in> nodes_of own" "d0 \<in> nodes_of own" using d d0 by (simp_all add: dir_ok_def)
    have fc: "vfs_find_child d0 l0 s = Some n" "vfs_find_child d l s = Some (child s d l)"
      using searchable_child(1) [OF se] dN by (simp_all add: n_def)
    obtain us where us: "linked (par (vnodes s)) d us" using treeD(7) [OF tr dN(1)] by blast
    define anc where "anc \<longleftrightarrow> vn_type (vnodes s n) = VFS_NODE_DIR \<and> n \<in> set us"
    have an: "(if vn_type (vnodes s n) = VFS_NODE_DIR then vfs_is_ancestor_dir n d s else Some False) = Some anc"
      using is_ancestor_linked [OF us] by (simp add: anc_def)
    have tg: "vi_fs_tag (node_inode d s) = 0" "n \<in> nodes_of own \<Longrightarrow> vi_fs_tag (node_inode n s) = 0"
      using D(3) dN by (auto simp: objs_ok_def inode_ok_def Let_def node_inode_def)
    have nN: "n \<in> nodes_of own" "vn_parent (vnodes s n) = d0" if "n \<noteq> 0" using child_iff [OF tr dN(2) that, of l0] by (simp_all add: n_def)
    show ?thesis
    proof (cases "n = 0 \<or> child s d l \<noteq> 0 \<or> anc")
      case True
      then have "t = s" using run o(1) w(1) fc an tg(1) tg(2) [OF nN(1)] False d0(2) d(3)
        by (auto simp: vfs_rename_def split: if_splits)
      then show ?thesis using ok by blast
    next
      case ne: False
      then have n: "n \<noteq> 0" "n \<in> nodes_of own" "vn_parent (vnodes s n) = d0" using nN by auto
      have nus: "n \<notin> set us"
      proof (cases "vn_type (vnodes s n) = VFS_NODE_DIR")
        case False
        then have "kids n = []" "n \<noteq> d" using treeD(5) [OF tr n(2)] d(1) by (auto simp: dir_ok_def)
        then show ?thesis using no_kids_lineage [OF tr n(2) _ dN(1) _ us] by blast
      qed (use ne in \<open>simp add: anc_def\<close>)
      have d0z: "d0 \<noteq> 0" using False by simp
      obtain u where u: "unlink_sibling 0 (vn_children (vnodes s d0)) n d0 s = Some u" using detach [OF tr n(2,3) d0z] by blast
      have r: "rc = RDNX_OK" "t = vfs_cache_reset (move_node n d l u)"
        using run o(1) w(1) fc an tg(1) tg(2) [OF n(2)] False d0(2) d(3) ne u by (auto simp: vfs_rename_def)
      have own: "own n = Some ONode" and c0: "child s d l = 0" using n(2) ne by auto
      obtain kids' where k: "vfs_ok F own kids' ms t \<and> same_nodes own s t \<and> vfiles t = vfiles s \<and> vfs_ready t = vfs_ready s \<and>
          vfs_fs_drivers t = vfs_fs_drivers s \<and> vfs_root t = vfs_root s \<and>
          (kids n = [] \<and> (\<forall>m \<in> set ms. mt_mountpoint (vmnts s m) \<noteq> n) \<longrightarrow> renamed n d l s t)"
        using move_ok [OF ok own n(3) d0z d(1) us nus c0 d(2) u r(2)] by blast
      have "\<forall>m \<in> set ms. mt_mountpoint (vmnts s m) \<noteq> n" if "cross s n = n"
        using cross_cases [OF tr mo n(1)] that n(3) d0z by (auto simp: root_ok_def)
      then have "renamed n d l s t" if "vn_children (vnodes s n) = 0" "cross s n = n"
        using k that tree_children_0 [OF tr n(2)] by blast
      then show ?thesis using k r(1) o(2) w(2) d0z False n(1) c0 unfolding n_def by (intro exI [of _ kids']) auto
    qed
  qed
qed

end
