(* ===== verification/VfsHold.thy ===== *)
theory VfsHold
  imports VfsNames
begin

text \<open>Open files and the contents of files: references, positions and data keep the invariant.\<close>

section \<open>Open files\<close>

lemma vfs_ok_files:
  fixes s t :: "'a vfs_state_scheme"
  assumes ok: "vfs_ok F own kids ms s" and t: "t = s\<lparr>vfiles := g\<rparr>" and e: "\<And>fp. fp \<in> F \<Longrightarrow> vf_node (g fp) = vf_node (vfiles s fp)"
  shows "vfs_ok F own kids ms t" "resolve t p = resolve s p"
proof -
  note D = vfs_okD [OF ok]
  have ss: "same_space (nodes_of own) s t" by (simp add: same_space_def t)
  have hp: "heap_inv t = heap_inv s" "hcap t = hcap s"
    using heap_view_cong [of s t] by (simp_all add: t same_pmm_def pmm_state.truncate_def)
  have rs: "resolve t p = resolve s p" for p by (rule resolve_same [OF D(2) ss])
  show "resolve t p = resolve s p" by (rule rs)
  have "inode_ok own n t = inode_ok own n s" for n by (simp add: inode_ok_def Let_def data_ok_def hp) (simp add: t)
  then have "objs_ok own ms t" using D(3) by (simp add: objs_ok_def hp)
  moreover have "holders F n t = holders F n s" for n using e by (auto simp: holders_def t)
  then have "refs_ok F (nodes_of own) t" using D(4) e unfolding refs_ok_def by (simp add: t)
  moreover have "cache_ok t" by (rule cache_ok_keep [OF D(5)]) (use rs in \<open>simp_all add: t\<close>)
  moreover have "devs_ok (nodes_of own) t" using D(6) unfolding devs_ok_def same_space_dir [OF ss] by (simp add: t)
  ultimately show "vfs_ok F own kids ms t" using space_ok_same [OF D(2) ss] D(1) hp by (simp add: vfs_ok_def)
qed

lemma upd_vfile_ok:
  assumes "vfs_ok F own kids ms s" "fp \<in> F \<Longrightarrow> vf_node (h (vfiles s fp)) = vf_node (vfiles s fp)"
  shows "vfs_ok F own kids ms (upd_vfile fp h s)" "resolve (upd_vfile fp h s) p = resolve s p"
proof -
  have t: "upd_vfile fp h s = s\<lparr>vfiles := (vfiles s)(fp := h (vfiles s fp))\<rparr>" by (simp add: upd_vfile_def)
  have e: "vf_node (((vfiles s)(fp := h (vfiles s fp))) q) = vf_node (vfiles s q)" if "q \<in> F" for q using assms(2) that by auto
  show "vfs_ok F own kids ms (upd_vfile fp h s)" "resolve (upd_vfile fp h s) p = resolve s p"
    by (rule vfs_ok_files [OF assms(1) t e]; simp)+
qed

text \<open>A change of one reference count with the holders of the node.\<close>

lemma vfs_ok_count:
  assumes ok: "vfs_ok F own kids ms s" and n: "own n = Some ONode" and t: "t = upd_vfile fp h (upd_vnode n (\<lambda>x. x\<lparr>vn_ref_count := c\<rparr>) s)"
    and F': "finite F'" "\<And>q. q \<in> F' \<Longrightarrow> vf_node (vfiles t q) \<in> nodes_of own \<and> vn_type (vnodes s (vf_node (vfiles t q))) = VFS_NODE_FILE"
    and ho: "\<And>x. x \<noteq> n \<Longrightarrow> holders F' x t = holders F x s"
    and c: "unat c = (if vn_unlinked (vnodes s n) then 0 else 1) + card (holders F' n t)" "vn_unlinked (vnodes s n) \<Longrightarrow> holders F' n t \<noteq> {}"
  shows "vfs_ok F' own kids ms t" "resolve t p = resolve s p"
proof -
  note D = vfs_okD [OF ok]
  have v: "vnodes t x = (if x = n then (vnodes s n)\<lparr>vn_ref_count := c\<rparr> else vnodes s x)" for x by (simp add: t)
  have ss: "same_space (nodes_of own) s t" by (simp add: same_space_def v) (simp add: t)
  have hp: "heap_inv t = heap_inv s" "hcap t = hcap s" "vinodes t = vinodes s" by (simp_all add: t)
  have rs: "resolve t p = resolve s p" for p by (rule resolve_same [OF D(2) ss])
  show "resolve t p = resolve s p" by (rule rs)
  have "inode_ok own x t = inode_ok own x s" for x by (simp add: inode_ok_def Let_def data_ok_def hp v)
  then have "objs_ok own ms t" using D(3) by (simp add: objs_ok_def hp)
  moreover have "refs_ok F' (nodes_of own) t"
    unfolding refs_ok_def
  proof (intro conjI ballI)
    fix x assume x: "x \<in> nodes_of own"
    have R: "unat (vn_ref_count (vnodes s x)) = (if vn_unlinked (vnodes s x) then 0 else 1) + card (holders F x s)"
      "vn_unlinked (vnodes s x) \<longrightarrow> vn_parent (vnodes s x) = 0 \<and> vn_children (vnodes s x) = 0 \<and> holders F x s \<noteq> {}"
      using D(4) x by (auto simp: refs_ok_def)
    show "unat (vn_ref_count (vnodes t x)) = (if vn_unlinked (vnodes t x) then 0 else 1) + card (holders F' x t)"
      using R(1) c(1) ho [of x] by (simp add: v)
    show "vn_unlinked (vnodes t x) \<longrightarrow> vn_parent (vnodes t x) = 0 \<and> vn_children (vnodes t x) = 0 \<and> holders F' x t \<noteq> {}"
      using R(2) c(2) ho [of x] by (auto simp: v)
  qed (use F' in \<open>auto simp: v\<close>)
  moreover have "cache_ok t" by (rule cache_ok_keep [OF D(5)]) (use rs in \<open>simp_all add: t\<close>)
  moreover have "devs_ok (nodes_of own) t" using D(6) unfolding devs_ok_def same_space_dir [OF ss] by (simp add: t)
  ultimately show "vfs_ok F' own kids ms t" using space_ok_same [OF D(2) ss] D(1) hp by (simp add: vfs_ok_def)
qed

lemma ref_count_bound:
  assumes "vfs_ok F own kids ms s" "own n = Some ONode"
  shows "unat (vn_ref_count (vnodes s n)) \<le> 1 + card F"
proof -
  have R: "unat (vn_ref_count (vnodes s n)) = (if vn_unlinked (vnodes s n) then 0 else 1) + card (holders F n s)" "finite F"
    using vfs_okD(4) [OF assms(1)] assms(2) by (auto simp: refs_ok_def)
  moreover have "card (holders F n s) \<le> card F" using R(2) by (intro card_mono) (auto simp: holders_def)
  ultimately show ?thesis by simp
qed

lemma hold_ok:
  assumes ok: "vfs_ok F own kids ms s" and n: "own n = Some ONode" "vn_type (vnodes s n) = VFS_NODE_FILE"
    and fp: "fp \<notin> F" "card F < 2 ^ 32 - 2" and f: "vf_node f = n" and t: "t = upd_vfile fp (\<lambda>_. f) (vfs_node_retain n s)"
  shows "vfs_ok (insert fp F) own kids ms t" "resolve t p = resolve s p"
proof -
  note D = vfs_okD [OF ok]
  have nz: "n \<noteq> 0" using owned_nonnull [OF ok] n(1) by blast
  define c where "c = vn_ref_count (vnodes s n) + 1"
  have t': "t = upd_vfile fp (\<lambda>_. f) (upd_vnode n (\<lambda>x. x\<lparr>vn_ref_count := c\<rparr>) s)"
    using nz by (simp add: t vfs_node_retain_def c_def upd_vnode_def)
  have R: "unat (vn_ref_count (vnodes s n)) = (if vn_unlinked (vnodes s n) then 0 else 1) + card (holders F n s)" "finite F"
    using D(4) n by (auto simp: refs_ok_def)
  have "unat c = unat (vn_ref_count (vnodes s n)) + 1"
    using ref_count_bound [OF ok n(1)] fp(2) by (simp add: c_def unat_word_ariths)
  moreover have hn: "holders (insert fp F) n t = insert fp (holders F n s)" using f fp by (auto simp: holders_def t')
  moreover have "fp \<notin> holders F n s" "finite (holders F n s)" using fp(1) R(2) by (auto simp: holders_def)
  ultimately have uc: "unat c = (if vn_unlinked (vnodes s n) then 0 else 1) + card (holders (insert fp F) n t)" using R(1) by simp
  have F': "vf_node (vfiles t q) \<in> nodes_of own \<and> vn_type (vnodes s (vf_node (vfiles t q))) = VFS_NODE_FILE" if "q \<in> insert fp F" for q
    using that D(4) f n by (auto simp: t' refs_ok_def)
  have ho: "holders (insert fp F) x t = holders F x s" if "x \<noteq> n" for x using that f fp(1) by (auto simp: holders_def t')
  show "vfs_ok (insert fp F) own kids ms t" "resolve t p = resolve s p"
    by (rule vfs_ok_count [OF ok n(1) t' _ F' ho uc]; use R(2) hn in simp)+
qed

lemma vfs_close_ok:
  assumes ok: "vfs_ok F own kids ms s" and fp: "fp \<in> F" "fp \<noteq> 0" and run: "vfs_close fp s = Some (rc, t)"
  shows "rc = RDNX_OK \<and> (\<exists>own'. vfs_ok (F - {fp}) own' kids ms t) \<and> (\<forall>p. resolve t p = resolve s p) \<and> vfs_ready t = vfs_ready s \<and>
    vfs_fs_drivers t = vfs_fs_drivers s \<and> vfs_root t = vfs_root s"
proof -
  note D = vfs_okD [OF ok]
  define n where "n = vf_node (vfiles s fp)"
  have n: "own n = Some ONode" "vn_type (vnodes s n) = VFS_NODE_FILE" "finite F" using D(4) fp(1) by (auto simp: refs_ok_def n_def)
  have nz: "n \<noteq> 0" using owned_nonnull [OF ok] n(1) by blast
  define z where "z = (\<lambda>_ :: vfs_file. \<lparr>vf_node = 0, vf_pos = 0, vf_writable = False\<rparr>)"
  obtain u where u: "vfs_node_release n s = Some u" and t: "rc = RDNX_OK" "t = upd_vfile fp z u"
    using run fp(2) nz by (auto simp: vfs_close_def n_def [symmetric] z_def split: option.splits)
  have R: "unat (vn_ref_count (vnodes s n)) = (if vn_unlinked (vnodes s n) then 0 else 1) + card (holders F n s)"
    "vn_unlinked (vnodes s n) \<longrightarrow> vn_parent (vnodes s n) = 0 \<and> vn_children (vnodes s n) = 0" using D(4) n by (auto simp: refs_ok_def)
  have fin: "finite (holders F n s)" and fh: "fp \<in> holders F n s" using n(3) fp(1) by (auto simp: holders_def n_def)
  have hm: "holders (F - {fp}) n s = holders F n s - {fp}" by (auto simp: holders_def)
  have hx: "holders (F - {fp}) x s = holders F x s" if "x \<noteq> n" for x using that by (auto simp: holders_def n_def)
  have cm: "card (holders F n s) = 1 + card (holders (F - {fp}) n s)" unfolding hm using card_Suc_Diff1 [OF fin fh] by linarith
  show ?thesis
  proof (cases "vn_unlinked (vnodes s n)")
    case True
    have "dangling (F - {fp}) own kids ms n s" unfolding dangling_def
      using D n R True cm hx by (auto simp: refs_ok_def)
    from vfs_node_release_ok [OF this u] obtain own' where o: "vfs_ok (F - {fp}) own' kids ms u" "released n own own' s u" by blast
    have "vfs_ok (F - {fp}) own' kids ms t" "\<And>p. resolve t p = resolve u p" unfolding t(2) by (rule upd_vfile_ok [OF o(1)]; simp)+
    then show ?thesis using o(2) t by (auto simp: released_def)
  next
    case False
    define c where "c = vn_ref_count (vnodes s n) - 1"
    have c2: "unat (vn_ref_count (vnodes s n)) \<ge> 2" using R(1) False cm by simp
    then have rz: "vn_ref_count (vnodes s n) \<noteq> 0" by auto
    have uc: "unat c = 1 + card (holders (F - {fp}) n s)" using R(1) False cm rz by (simp add: c_def unat_minus_one)
    then have "c \<noteq> 0" by auto
    then have u': "u = upd_vnode n (\<lambda>x. x\<lparr>vn_ref_count := c\<rparr>) s"
      using u nz rz by (simp add: vfs_node_release_def Let_def c_def upd_vnode_def)
    have t': "t = upd_vfile fp z (upd_vnode n (\<lambda>x. x\<lparr>vn_ref_count := c\<rparr>) s)" using t(2) u' by simp
    have ht: "holders (F - {fp}) x t = holders (F - {fp}) x s" for x by (auto simp: holders_def t')
    have F': "vf_node (vfiles t q) \<in> nodes_of own \<and> vn_type (vnodes s (vf_node (vfiles t q))) = VFS_NODE_FILE" if "q \<in> F - {fp}" for q
      using that D(4) by (auto simp: t' refs_ok_def)
    have ho: "holders (F - {fp}) x t = holders F x s" if "x \<noteq> n" for x using hx [OF that] ht by simp
    have fi: "finite (F - {fp})" using n(3) by simp
    have "unat c = (if vn_unlinked (vnodes s n) then 0 else 1) + card (holders (F - {fp}) n t)" using uc False ht by simp
    note K = vfs_ok_count [OF ok n(1) t' fi F' ho this]
    have "vfs_ok (F - {fp}) own kids ms t" "\<And>p. resolve t p = resolve s p" by (rule K; use False in simp)+
    then show ?thesis using t(1) by (auto simp: t')
  qed
qed

section \<open>Contents\<close>

lemma inode_okD:
  assumes "vfs_ok F own kids ms s" "own n = Some ONode"
  shows "own (vn_inode (vnodes s n)) = Some (OInode n)" "data_ok (node_inode n s) s" "unat (vi_capacity (node_inode n s)) \<le> 2 ^ 42"
    "vi_fs_tag (node_inode n s) = 0" "vi_data (node_inode n s) \<noteq> 0 \<Longrightarrow> own (vi_data (node_inode n s)) = Some (OData n)"
    "vi_flags (node_inode n s) = 0 \<or> vi_flags (node_inode n s) AND (VFS_INODE_CONSOLE OR VFS_INODE_CHARDEV OR VFS_INODE_BLOCKDEV) \<noteq> 0"
    "vn_inode (vnodes s n) \<noteq> 0"
  using vfs_okD(3) [OF assms(1)] assms(2) owned_nonnull [OF assms(1), of "vn_inode (vnodes s n)"]
  by (auto simp: objs_ok_def inode_ok_def Let_def node_inode_def)

lemma vfs_file_at:
  assumes "vfs_ok F own kids ms s" "own n = Some ONode" "vn_type (vnodes s n) = VFS_NODE_FILE"
  shows "file_at n s"
  using inode_okD [OF assms(1,2)] owned_nonnull [OF assms(1)] assms(2,3) by (auto simp: file_at_def)

text \<open>New data for a node: its old block is given up, the new one belongs to it.\<close>

lemma rewrote_ok:
  assumes ok: "vfs_ok F own kids ms s" and n: "own n = Some ONode" and rw: "rewrote (vn_inode (vnodes s n)) s t"
    and fs: "\<And>fp. fp \<in> F \<Longrightarrow> vf_node (vfiles t fp) = vf_node (vfiles s fp)"
  shows "\<exists>own'. vfs_ok F own' kids ms t \<and> nodes_of own' = nodes_of own" "resolve t p = resolve s p" "vfs_ready t = vfs_ready s"
    "vnodes t = vnodes s" "vfs_fs_drivers t = vfs_fs_drivers s" "vfs_root t = vfs_root s"
proof -
  note D = vfs_okD [OF ok]
  define ip where "ip = vn_inode (vnodes s n)"
  define d0 where "d0 = vi_data (vinodes s ip)"
  define d1 where "d1 = vi_data (vinodes t ip)"
  note W = rw [folded ip_def, unfolded rewrote_def, folded d0_def d1_def]
  have sv: "same_vfs (s\<lparr>vinodes := (vinodes s)(ip := vinodes t ip), vfiles := vfiles t\<rparr>) t" using W by blast
  note V = same_vfsD [OF sv]
  have vi: "vinodes t x = vinodes s x" if "x \<noteq> ip" for x
    using fun_cong [OF V(2), of x] that by simp
  have vn: "vnodes t = vnodes s" using V(1) by simp
  have ss: "same_space (nodes_of own) s t" using V by (simp add: same_space_def)
  show rs: "resolve t p = resolve s p" for p by (rule resolve_same [OF D(2) ss])
  show "vfs_ready t = vfs_ready s" "vnodes t = vnodes s" "vfs_fs_drivers t = vfs_fs_drivers s" "vfs_root t = vfs_root s" using V by simp_all
  note I = inode_okD [OF ok n, unfolded node_inode_def, folded ip_def, folded d0_def]
  have own0: "own 0 = None" using owned_nonnull [OF ok] by blast
  have o1: "own d1 = None \<or> d1 = d0"
  proof -
    have "d1 = d0 \<or> hcap s d1 = None" using W by simp
    then show ?thesis using D(3) by (auto simp: objs_ok_def)
  qed
  have o0: "own d0 = None \<or> own d0 = Some (OData n)" using I(5) own0 by (cases "d0 = 0") auto
  define own' where "own' = (own(d0 := None))(d1 := if d1 = 0 then None else Some (OData n))"
  have ox: "own' x = own x" if "own x \<noteq> None" "own x \<noteq> Some (OData n)" for x using that o0 o1 by (auto simp: own'_def)
  have N: "nodes_of own' = nodes_of own" using o0 o1 by (auto simp: own'_def nodes_of_def)
  have dt: "data_ok (vinodes t ip) t" using W by blast
  have h1: "hcap t d1 \<noteq> None" if "d1 \<noteq> 0" using dt that by (auto simp: data_ok_def d1_def split: if_splits)
  have hx: "hcap t x = hcap s x" if "x \<noteq> d1" "x \<noteq> d0" for x using W that by simp
  have live: "hcap t x \<noteq> None" if "own' x \<noteq> None" for x
  proof (cases "x = d1")
    case True
    then show ?thesis using h1 that by (auto simp: own'_def split: if_splits)
  next
    case False
    then have "x \<noteq> d0" "own x \<noteq> None" using that by (auto simp: own'_def split: if_splits)
    then show ?thesis using hx [OF False] D(3) unfolding objs_ok_def by metis
  qed
  have io: "inode_ok own' m t" if m: "m \<in> nodes_of own'" for m
  proof (cases "m = n")
    case True
    obtain sz c d where e: "vinodes t ip = (vinodes s ip)\<lparr>vi_size := sz, vi_capacity := c, vi_data := d\<rparr>" using W by blast
    have "vi_fs_tag (vinodes t ip) = vi_fs_tag (vinodes s ip)" "vi_flags (vinodes t ip) = vi_flags (vinodes s ip)" by (simp_all add: e)
    moreover have "own' ip = Some (OInode n)" using ox [of ip] I(1) by simp
    moreover have "d1 \<noteq> 0 \<longrightarrow> own' d1 = Some (OData n)" by (simp add: own'_def)
    ultimately show ?thesis using True W I(4,6) by (simp add: inode_ok_def Let_def vn ip_def [symmetric] d1_def [symmetric])
  next
    case False
    have mo: "own m = Some ONode" using m N by auto
    note J = inode_okD [OF ok mo]
    define jp where "jp = vn_inode (vnodes s m)"
    have jp: "jp \<noteq> ip" using J(1) I(1) False by (auto simp: jp_def)
    have ni: "node_inode m t = node_inode m s" using vi [OF jp] by (simp add: node_inode_def vn jp_def)
    have ne: "x \<noteq> d0 \<and> x \<noteq> d1" if "x = vi_data (node_inode m s)" "x \<noteq> 0" for x
      using J(5) that o0 o1 False by auto
    have "data_ok (node_inode m s) t"
      by (rule data_ok_cong [OF J(2) _ D(1)]) (use ne hx in blast)
    moreover have "own' jp = Some (OInode m)" using ox [of jp] J(1) by (simp add: jp_def)
    moreover have "own' (vi_data (node_inode m s)) = Some (OData m)" if "vi_data (node_inode m s) \<noteq> 0"
      using J(5) [OF that] False ox [of "vi_data (node_inode m s)"] by simp
    ultimately show ?thesis using J by (simp add: inode_ok_def Let_def vn ni [unfolded node_inode_def vn] node_inode_def [symmetric] jp_def)
  qed
  have ms: "own' m = Some OMount" if "m \<in> set ms" for m using D(3) that ox [of m] by (simp add: objs_ok_def)
  have "objs_ok own' ms t" using live io ms by (simp add: objs_ok_def)
  moreover have "refs_ok F (nodes_of own') t"
  proof -
    have "holders F x t = holders F x s" for x using fs by (auto simp: holders_def)
    then show ?thesis using D(4) fs unfolding refs_ok_def N vn by simp
  qed
  moreover have "cache_ok t" by (rule cache_ok_keep [OF D(5)]) (use V rs in simp_all)
  moreover have "devs_ok (nodes_of own') t" using D(6) V unfolding N devs_ok_def same_space_dir [OF ss] by simp
  ultimately show "\<exists>own'. vfs_ok F own' kids ms t \<and> nodes_of own' = nodes_of own"
    using space_ok_same [OF D(2) ss] W N by (intro exI [of _ own']) (simp add: vfs_ok_def)
qed

text \<open>Resizing, of an open file or by path.\<close>

lemma resize_file_inv:
  assumes ok: "vfs_ok F own kids ms s" and n: "own n = Some ONode" "vn_type (vnodes s n) = VFS_NODE_FILE" and f: "vf_node file = n"
    and z: "unat z \<le> 2 ^ 41" and run: "resize_file env file z s = Some (rc, file', t)"
  shows "(\<exists>own'. vfs_ok F own' kids ms t \<and> nodes_of own' = nodes_of own) \<and> (\<forall>p. resolve t p = resolve s p) \<and> vfs_ready t = vfs_ready s \<and>
    vfs_fs_drivers t = vfs_fs_drivers s \<and> vfs_root t = vfs_root s \<and>
    vnodes t = vnodes s \<and> vfiles t = vfiles s \<and> vf_node file' = n \<and> (rc = RDNX_OK \<or> rc \<noteq> RDNX_OK \<and> t = s \<and> file' = file)"
proof -
  note I = inode_okD [OF ok n(1)]
  have nz: "n \<noteq> 0" using owned_nonnull [OF ok] n(1) by blast
  show ?thesis
  proof (cases "vi_flags (node_inode n s) = 0")
    case True
    then have pl: "plain (node_inode n s)" using I(4) by (simp add: plain_def)
    note R = vfs_resize_ok [OF vfs_okD(1) [OF ok] vfs_file_at [OF ok n] pl I(3) f z run]
    have fs: "vf_node (vfiles t fp) = vf_node (vfiles s fp)" for fp using R by simp
    note W = rewrote_ok [OF ok n(1) R [THEN conjunct2, THEN conjunct2, THEN conjunct1] fs]
    show ?thesis using W R f by (auto simp: clip_pos_def)
  next
    case False
    then have "rc = RDNX_E_UNSUPPORTED" "t = s" "file' = file"
      using I(6,7) run nz n(2) f by (auto simp: resize_file_def Let_def node_inode_def)
    then show ?thesis using ok f by auto
  qed
qed

lemma vfs_resize_file_inv:
  assumes ok: "vfs_ok F own kids ms s" and fp: "fp \<in> F" "fp \<noteq> 0" and z: "unat z \<le> 2 ^ 41"
    and run: "vfs_resize_file env fp z s = Some (rc, t)"
  shows "(\<exists>own'. vfs_ok F own' kids ms t \<and> nodes_of own' = nodes_of own) \<and> (\<forall>p. resolve t p = resolve s p) \<and> vfs_ready t = vfs_ready s \<and>
    vfs_fs_drivers t = vfs_fs_drivers s \<and> vfs_root t = vfs_root s \<and>
    vnodes t = vnodes s \<and> vf_node (vfiles t fp) = vf_node (vfiles s fp) \<and> (rc = RDNX_OK \<or> rc \<noteq> RDNX_OK \<and> t = s)"
proof -
  define n where "n = vf_node (vfiles s fp)"
  have n: "own n = Some ONode" "vn_type (vnodes s n) = VFS_NODE_FILE" using vfs_okD(4) [OF ok] fp(1) by (auto simp: refs_ok_def n_def)
  obtain file' u where u: "resize_file env (vfiles s fp) z s = Some (rc, file', u)" and t: "t = upd_vfile fp (\<lambda>_. file') u"
    using run fp(2) by (auto simp: vfs_resize_file_def split: option.splits)
  note R = resize_file_inv [OF ok n n_def [symmetric] z u]
  then obtain own' where o: "vfs_ok F own' kids ms u" "nodes_of own' = nodes_of own" by blast
  have "vfs_ok F own' kids ms t" "\<And>p. resolve t p = resolve u p"
    unfolding t by (rule upd_vfile_ok [OF o(1)]; use R in \<open>simp add: n_def\<close>)+
  moreover have "t = s" if "u = s" "file' = vfiles s fp" using that by (simp add: t upd_vfile_def)
  ultimately show ?thesis using R o(2) by (auto simp: t n_def)
qed

section \<open>Opening\<close>

lemma open_node_ok:
  assumes ok: "vfs_ok F own kids ms s" and run: "open_node (Some p) flags s = Some (r, t)"
  shows "\<exists>own' kids'. vfs_ok F own' kids' ms t \<and> vfiles t = vfiles s \<and> vfs_ready t = vfs_ready s \<and> vfs_fs_drivers t = vfs_fs_drivers s \<and>
    vfs_root t = vfs_root s \<and>
    (case r of Inl rc \<Rightarrow> rc \<noteq> RDNX_OK \<and> (\<forall>q. resolve t q = resolve s q)
     | Inr n \<Rightarrow> own' n = Some ONode \<and> n \<noteq> 0 \<and>
         ((\<exists>q. resolve s q = n \<and> (length p \<noteq> 63 \<longrightarrow> q = p)) \<and> (\<forall>q. resolve t q = resolve s q) \<or>
          resolve s p = 0 \<and> flags AND VFS_OPEN_CREATE \<noteq> 0 \<and> comps p \<noteq> [] \<and> resolve t p = n \<and>
          added (vwalk s (vfs_root s) (butlast (comps p))) (last (comps p)) n s t))"
proof -
  note D = vfs_okD [OF ok]
  obtain n u where l: "vfs_lookup (Some p) s = Some (n, u)" "vfs_ok F own kids ms u" "looked_up p n s u"
    using vfs_lookup_ok [OF ok] by blast
  note lu = l(3) [unfolded looked_up_def]
  obtain d nm where r: "vfs_resolve_parent (Some p) u = Some (d, nm)"
    "d = 0 \<or> comps p \<noteq> [] \<and> nm = last (comps p) \<and> d = vwalk u (vfs_root u) (butlast (comps p)) \<and>
      dir_ok (nodes_of own) d u \<and> length nm \<le> NAME_MAX \<and> nm \<noteq> []"
    using vfs_resolve_parent_ok [OF l(2)] by blast
  consider (found) "n \<noteq> 0" | (fail) "n = 0" "flags AND VFS_OPEN_CREATE = 0 \<or> d = 0" | (new) "n = 0" "flags AND VFS_OPEN_CREATE \<noteq> 0" "d \<noteq> 0" by blast
  then show ?thesis
  proof cases
    case found
    then have e: "r = Inr n" "t = u" using run l(1) by (auto simp: open_node_def)
    obtain q where q: "resolve s q = n" "length p \<noteq> 63 \<longrightarrow> q = p" using lu by blast
    have "own n = Some ONode" using resolve_reached(1) [OF D(2), of q] q(1) found by simp
    then show ?thesis using e l(2) lu q found by (intro exI [of _ own] exI [of _ kids]) auto
  next
    case fail
    then have "r = Inl RDNX_E_NOTFOUND" "t = u" using run l(1) r(1) by (auto simp: open_node_def split: if_splits)
    then show ?thesis using l(2) lu by (intro exI [of _ own] exI [of _ kids]) auto
  next
    case new
    note E = vfs_okD [OF l(2)]
    have d: "comps p \<noteq> []" "nm = last (comps p)" "d = vwalk u (vfs_root u) (butlast (comps p))" "dir_ok (nodes_of own) d u" "length nm \<le> NAME_MAX"
      using r(2) new by auto
    have dN: "d \<in> nodes_of own" using d(4) by (simp add: dir_ok_def)
    have r0: "resolve u p = 0" "resolve s p = 0" using lu new(1) by auto
    have "resolve u p = (let k = child u d nm in if k = 0 then 0 else cross u k)"
      unfolding resolve_def d(2,3) using vwalk_append [of u "vfs_root u" "butlast (comps p)" "[last (comps p)]"] d(1) by (simp add: Let_def)
    moreover have "cross u (child u d nm) \<noteq> 0" if "child u d nm \<noteq> 0"
      using searchable_child [OF space_searchable [OF E(2)]] dN that space_searchable [OF E(2)] unfolding searchable_def by metis
    ultimately have c0: "child u d nm = 0" using r0(1) by (auto simp: Let_def split: if_splits)
    have tg: "vi_fs_tag (node_inode d u) = 0" using inode_okD(4) [OF l(2)] dN by simp
    obtain m where c: "vfs_create_node d nm VFS_NODE_FILE u = Some (m, t)" "r = (if m = 0 then Inl RDNX_E_NOMEM else Inr m)"
      using run l(1) r(1) new tg by (auto simp: open_node_def split: option.splits)
    obtain own' kids' where w: "vfs_ok F own' kids' ms t" "created d nm m VFS_NODE_FILE own own' u t"
      using vfs_create_node_ok [OF l(2) d(4) c0 d(5) c(1)] by blast
    note C = w(2) [unfolded created_def]
    have ud: "vwalk u x cs = vwalk s x cs" if "x \<in> nodes_of own" for x cs
      by (rule vwalk_same [OF D(2) _ that]) (use lu in \<open>simp add: same_space_def\<close>)
    have rN: "vfs_root s \<in> nodes_of own" using mounts_okD(5) [OF space_okD(2) [OF D(2)]] by (simp add: root_ok_def dir_ok_def)
    have ad: "added d nm m s t" using C lu ud [OF rN] unfolding added_def by simp
    have dd: "d = vwalk s (vfs_root s) (butlast (comps p))" using d(3) ud [OF rN] lu by simp
    have "resolve t p = m" using ad r0(2) d(1,2) dd by (simp add: added_def)
    then show ?thesis using w(1) C lu c(2) r0(2) new(2) d(1,2) ad dd by (intro exI [of _ own'] exI [of _ kids']) auto
  qed
qed

lemma vfs_open_ok:
  assumes ok: "vfs_ok F own kids ms s" and fp: "fp \<noteq> 0" "fp \<notin> F" "card F < 2 ^ 32 - 2"
    and run: "vfs_open env (Some p) flags fp s = Some (rc, t)"
  shows "\<exists>own' kids'. vfs_ok (if rc = RDNX_OK then insert fp F else F) own' kids' ms t \<and> vfs_ready t = vfs_ready s \<and>
    vfs_fs_drivers t = vfs_fs_drivers s \<and> vfs_root t = vfs_root s \<and>
    (\<forall>q. resolve s q \<noteq> 0 \<longrightarrow> resolve t q = resolve s q) \<and>
    (rc = RDNX_OK \<and> length p \<noteq> 63 \<longrightarrow> resolve t p = vf_node (vfiles t fp) \<and> vf_node (vfiles t fp) \<noteq> 0)"
proof (cases "vfs_ready s")
  case False
  then have "t = s" "rc \<noteq> RDNX_OK" using run fp(1) by (auto simp: vfs_open_def)
  then show ?thesis using ok by auto
next
  case True
  obtain r u where u: "open_node (Some p) flags s = Some (r, u)" using run True fp(1) by (auto simp: vfs_open_def split: option.splits)
  obtain own' kids' where o: "vfs_ok F own' kids' ms u" "vfiles u = vfiles s" "vfs_ready u = vfs_ready s" "vfs_fs_drivers u = vfs_fs_drivers s" "vfs_root u = vfs_root s"
    and c: "case r of Inl rc \<Rightarrow> rc \<noteq> RDNX_OK \<and> (\<forall>q. resolve u q = resolve s q)
     | Inr n \<Rightarrow> own' n = Some ONode \<and> n \<noteq> 0 \<and>
         ((\<exists>q. resolve s q = n \<and> (length p \<noteq> 63 \<longrightarrow> q = p)) \<and> (\<forall>q. resolve u q = resolve s q) \<or>
          resolve s p = 0 \<and> flags AND VFS_OPEN_CREATE \<noteq> 0 \<and> comps p \<noteq> [] \<and> resolve u p = n \<and>
          added (vwalk s (vfs_root s) (butlast (comps p))) (last (comps p)) n s u)"
    using open_node_ok [OF ok u] by blast
  show ?thesis
  proof (cases r)
    case (Inl e)
    then have "rc = e" "t = u" using run True fp(1) u by (simp_all add: vfs_open_def)
    then show ?thesis using o c Inl by (intro exI [of _ own'] exI [of _ kids']) auto
  next
    case (Inr n)
    have n: "own' n = Some ONode" "n \<noteq> 0" using c Inr by simp_all
    have C: "(\<exists>q. resolve s q = n \<and> (length p \<noteq> 63 \<longrightarrow> q = p)) \<and> (\<forall>q. resolve u q = resolve s q) \<or>
        resolve u p = n \<and> added (vwalk s (vfs_root s) (butlast (comps p))) (last (comps p)) n s u" using c Inr by auto
    have keep: "resolve u q = resolve s q" if "resolve s q \<noteq> 0" for q using C that unfolding added_def by presburger
    have rn: "resolve u p = n" if "length p \<noteq> 63" using C that by blast
    show ?thesis
    proof (cases "vn_type (vnodes u n) = VFS_NODE_FILE")
      case False
      then have "t = u" "rc \<noteq> RDNX_OK" using run True fp(1) u Inr by (simp_all add: vfs_open_def)
      then show ?thesis using o keep by (intro exI [of _ own'] exI [of _ kids']) auto
    next
      case ft: True
      define w where "w = upd_vfile fp (\<lambda>_. \<lparr>vf_node = n, vf_pos = 0, vf_writable = (flags AND VFS_OPEN_WRITE \<noteq> 0)\<rparr>) (vfs_node_retain n u)"
      have W: "vfs_ok (insert fp F) own' kids' ms w" "\<And>p. resolve w p = resolve u p"
        by (rule hold_ok [OF o(1) n(1) ft fp(2,3) _ w_def]; simp)+
      have wf: "vf_node (vfiles w fp) = n" "vfs_ready w = vfs_ready s" "vfs_fs_drivers w = vfs_fs_drivers s" "vfs_root w = vfs_root s"
        using o by (simp_all add: w_def vfs_node_retain_def)
      have st: "vfs_open env (Some p) flags fp s = (if flags AND VFS_OPEN_TRUNC = 0 then Some (RDNX_OK, w)
          else case vfs_resize_file env fp 0 w of None \<Rightarrow> None | Some (trc, s) \<Rightarrow>
            if trc = RDNX_OK then Some (RDNX_OK, s)
            else case vfs_node_release (vf_node (vfiles s fp)) s of None \<Rightarrow> None
              | Some s \<Rightarrow> Some (trc, upd_vfile fp (\<lambda>_. \<lparr>vf_node = 0, vf_pos = 0, vf_writable = False\<rparr>) s))"
        using True fp(1) u Inr ft inode_okD(7) [OF o(1) n(1)] by (simp add: vfs_open_def Let_def w_def)
      show ?thesis
      proof (cases "flags AND VFS_OPEN_TRUNC = 0")
        case nt: True
        then have "rc = RDNX_OK" "t = w" using run st by simp_all
        then show ?thesis using W wf n(2) keep rn by (intro exI [of _ own'] exI [of _ kids']) auto
      next
        case tr: False
        obtain trc v where v: "vfs_resize_file env fp 0 w = Some (trc, v)" using run st tr by (auto split: option.splits)
        have z: "unat (0::u64) \<le> 2 ^ 41" "fp \<in> insert fp F" by simp_all
        note R = vfs_resize_file_inv [OF W(1) z(2) fp(1) z(1) v]
        then obtain own'' where oo: "vfs_ok (insert fp F) own'' kids' ms v" by blast
        show ?thesis
        proof (cases "trc = RDNX_OK")
          case ok: True
          then have "rc = RDNX_OK" "t = v" using run st tr v by simp_all
          then show ?thesis using oo R W wf n(2) keep rn by (intro exI [of _ own''] exI [of _ kids']) auto
        next
          case bad: False
          then have vw: "v = w" using R by blast
          obtain x where x: "vfs_node_release n w = Some x" "rc = trc" "t = upd_vfile fp (\<lambda>_. \<lparr>vf_node = 0, vf_pos = 0, vf_writable = False\<rparr>) x"
            using run st tr v bad vw wf(1) by (auto split: option.splits)
          have cl: "vfs_close fp w = Some (RDNX_OK, t)" using x n(2) fp(1) wf(1) by (simp add: vfs_close_def)
          note K = vfs_close_ok [OF W(1) z(2) fp(1) cl]
          have F: "insert fp F - {fp} = F" using fp(2) by simp
          obtain o3 where "vfs_ok F o3 kids' ms t" using K unfolding F by blast
          then show ?thesis using K W keep bad x(2) wf by (intro exI [of _ o3] exI [of _ kids']) auto
        qed
      qed
    qed
  qed
qed

end
