(* ===== verification/Spec2Isabelle.thy ===== *)
theory Spec2Isabelle
  imports PmmProps KheapProps VmForkProps SchedWait VfsProps VfsHold
begin

text \<open>
  \<^bold>\<open>Rodnix: memory management, scheduling and threads of an x86-64 kernel\<close>

  Rodnix boots on one processor, takes over physical memory, builds page tables and a kernel heap,
  runs kernel and user threads under a preemptive scheduler and gives every user task an address
  space with copy-on-write fork. This library models these parts as functions on explicit states,
  in the order in which the kernel layers them, and proves what each layer promises to the next.

  \<^bold>\<open>The state.\<close> The globals of the C files are the fields of one chain of extensible records, one
  record per layer: \<open>machine\<close> (byte memory, control registers, the counters of
  \<^verbatim>\<open>arch/x86_64/memory.c\<close>), \<open>pmm_state\<close>, \<open>paging_state\<close>, \<open>heap_state\<close>, \<open>vm_state\<close>, \<open>vmap_state\<close>,
  \<open>sched_state\<close> and \<open>reap_state\<close>. An operation of a layer works on every extension of its record, so a
  higher layer calls it as the C code does, and that it leaves the fields of higher layers alone is
  a lemma on \<open>more\<close>. A panic, or a loop that does not end, is the value \<open>None\<close>. Machine integers are
  words of their width and wrap as in C. Interrupt masking and spin locks around an
  operation have no counterpart: an operation of the model is atomic.

  \<^bold>\<open>Physical memory and page tables.\<close> \<open>Prelude\<close> and \<open>Machine\<close> hold words, lists, byte memory and its
  64-bit accesses. \<open>Pmm\<close> is \<^verbatim>\<open>arch/x86_64/pmm.c\<close>: the bitmap, the page descriptors, the bounded lists of
  free ranges per zone, initialisation from a size or a memory map, all allocation and release paths.
  \<open>PmmInv\<close> has the invariant that ties them together and that each operation keeps it; \<open>PmmProps\<close> the
  contract (\<open>frame_allocator\<close>) and its theorems: what is allocated was free, what
  fails had to fail, ranges are marked exactly. \<open>Paging\<close> is \<^verbatim>\<open>arch/x86_64/paging.c\<close> on byte memory:
  entries are 64-bit words read and written through the direct map. \<open>PagingInv\<close> states that the tables
  form a forest of distinct frames outside free memory; \<open>PagingProps\<close> that mapping and unmapping change the
  translation of one page in one address space and nothing else.

  \<^bold>\<open>Kernel heap.\<close> \<open>Vmm\<close> is the rest of \<^verbatim>\<open>arch/x86_64/memory.c\<close> with the boot sequence \<open>memory_init\<close>; \<open>Kheap\<close>
  is \<^verbatim>\<open>common/heap.c\<close>. The header of a heap block is a record in a store indexed by its
  address (C never reads a header as bytes). \<open>KheapInv\<close> shows that the doubly linked list of headers tiles the heap
  memory; \<open>KheapProps\<close> the contract \<open>block_allocator\<close> and when the functions return.

  \<^bold>\<open>Virtual memory.\<close> \<open>VmObject\<close> is \<^verbatim>\<open>vm/vm_page_ref.c\<close>, \<^verbatim>\<open>vm/vm_pager.c\<close> and \<^verbatim>\<open>vm/vm_object.c\<close>; \<open>VmMap\<close> is
  \<^verbatim>\<open>vm/vm_map.c\<close> and \<^verbatim>\<open>vm/vm_fault.c\<close>. \<open>VmMapInv\<close>, \<open>VmFrame\<close>, \<open>VmOps\<close>, \<open>VmTask\<close> and \<open>VmStep\<close> carry the
  well-formedness of maps through every operation; \<open>VmRefs\<close> the reference counts of frames (contract
  \<open>ref_counter\<close>). \<open>VmProps\<close> reads a map as a partial function from pages to entries (contract
  \<open>range_map\<close>) that the operations update on exactly the pages of their range; \<open>VmForkProps\<close> is about fork
  and faults.

  \<^bold>\<open>Scheduler, wait queues, threads.\<close> \<open>Tailq\<close> models the \<^verbatim>\<open>TAILQ\<close> macros of \<^verbatim>\<open>bsd/sys/queue.h\<close> on
  cells with link words and shows that they are lists; from there on a queue is a list of thread
  addresses. \<open>Sched\<close> is \<^verbatim>\<open>common/scheduler/runqueue.c\<close>, \<^verbatim>\<open>state.c\<close> and \<^verbatim>\<open>control.c\<close>; \<open>Waitq\<close> is
  \<^verbatim>\<open>common/waitq.c\<close> and \<^verbatim>\<open>tick.c\<close>; \<open>Threads\<close> is \<^verbatim>\<open>common/task.c\<close>, \<^verbatim>\<open>reaper.c\<close>, \<^verbatim>\<open>switch.c\<close> and the timer branch of
  \<^verbatim>\<open>isr_handlers.c\<close>. \<open>SchedInv\<close> and \<open>SwitchInv\<close> prove what single operations keep; \<open>SchedSys\<close> defines
  the system, a step relation \<open>sys_step\<close> whose steps are the timer interrupt and the kernel operations of the current
  thread, where a thread that waits is split at the points where the source can be preempted;
  \<open>SchedStep\<close> proves its invariant \<open>sys_ok\<close>; \<open>SchedProps\<close> and \<open>SchedWait\<close> draw the consequences. A thread ends
  by \<^verbatim>\<open>scheduler_exit_current\<close>.

  \<^bold>\<open>Bounds.\<close> No fuel is used: recursive loops are structural or have a termination proof, and the
  loops over pointers are partial functions with theorems saying when they return. Numeric side conditions are the capacities of the
  source (128 free ranges per zone, 128 map entries, 64 reaper slots) or keep counters below
  their width.

  \<^bold>\<open>Not modelled.\<close> Device drivers, the console and the shell (port I/O); interrupt controllers; the file systems
  and the device fabric; the Unix and Linux system call layers; the module and ELF loaders; inter-process communication.
  The release of a descriptor's file when a task is destroyed is an argument of the
  functions that call it. Trace and log output is left out everywhere.
\<close>

end
